(* ===== verification/LTOS_Prelude.thy ===== *)
theory LTOS_Prelude
  imports Main "HOL-Library.Word" "HOL-Library.Monad_Syntax"
begin

unbundle bit_operations_syntax

text \<open>
  Shared vocabulary of the development: machine integers, the byte-addressed memory in which the
  kernel keeps its tables and buffers, the little-endian loads and stores of an x86-64 machine,
  and the generic facts about lists, words and options that the component theories use.
\<close>

section \<open>Machine integers and memory\<close>

type_synonym u8 = "8 word"
type_synonym u16 = "16 word"
type_synonym u32 = "32 word"
type_synonym u64 = "64 word"

type_synonym mem = "u64 \<Rightarrow> u8"

text \<open>
  \<open>load n m a\<close> reads \<open>n\<close> bytes at \<open>a\<close>, the first byte being the least significant;
  \<open>store n m a v\<close> writes the low \<open>n\<close> bytes of \<open>v\<close>. The condition \<open>unat (x - a) < n\<close> says,
  modulo \<open>2 ^ 64\<close>, that \<open>x\<close> is one of the \<open>n\<close> bytes that start at \<open>a\<close>.
\<close>

fun load :: "nat \<Rightarrow> mem \<Rightarrow> u64 \<Rightarrow> u64" where
  "load 0 m a = 0"
| "load (Suc n) m a = ucast (m a) OR push_bit 8 (load n m (a + 1))"

definition store :: "nat \<Rightarrow> mem \<Rightarrow> u64 \<Rightarrow> u64 \<Rightarrow> mem" where
  "store n m a v =
     (\<lambda>x. if unat (x - a) < n then ucast (drop_bit (8 * unat (x - a)) v) else m x)"

abbreviation read64 :: "mem \<Rightarrow> u64 \<Rightarrow> u64" where
  "read64 \<equiv> load 8"

abbreviation write64 :: "mem \<Rightarrow> u64 \<Rightarrow> u64 \<Rightarrow> mem" where
  "write64 \<equiv> store 8"

definition read32 :: "mem \<Rightarrow> u64 \<Rightarrow> u32" where
  "read32 m a = ucast (load 4 m a)"

definition read16 :: "mem \<Rightarrow> u64 \<Rightarrow> u16" where
  "read16 m a = ucast (load 2 m a)"

text \<open>\<open>memset(p, v, n)\<close> on the memory, seen as a whole.\<close>

definition fill :: "mem \<Rightarrow> u64 \<Rightarrow> u8 \<Rightarrow> nat \<Rightarrow> mem" where
  "fill m p v n = (\<lambda>x. if unat (x - p) < n then v else m x)"

text \<open>The bytes \<open>[a, a + n)\<close> as a list.\<close>

definition bytes_at :: "mem \<Rightarrow> u64 \<Rightarrow> nat \<Rightarrow> u8 list" where
  "bytes_at m a n = map (\<lambda>i. m (a + of_nat i)) [0..<n]"

text \<open>A memory with the bytes \<open>bs\<close> written from address \<open>a\<close> on.\<close>

definition poke :: "mem \<Rightarrow> u64 \<Rightarrow> u8 list \<Rightarrow> mem" where
  "poke m a bs = (\<lambda>x. if unat (x - a) < length bs then bs ! unat (x - a) else m x)"

text \<open>\<open>memcpy(dst, src, n)\<close> on the memory, seen as a whole (for ranges that do not overlap).\<close>

definition copy :: "mem \<Rightarrow> u64 \<Rightarrow> u64 \<Rightarrow> nat \<Rightarrow> mem" where
  "copy m dst src n = (\<lambda>x. if unat (x - dst) < n then m (src + (x - dst)) else m x)"

text \<open>
  Loops over a list of values. The body of \<open>for_each\<close> may fail (\<open>None\<close>); the body of \<open>for_until\<close>
  may also leave the loop, which is what \<open>False\<close> says.
\<close>

fun for_each :: "('a \<Rightarrow> 's \<Rightarrow> 's option) \<Rightarrow> 'a list \<Rightarrow> 's \<Rightarrow> 's option" where
  "for_each f [] s = Some s"
| "for_each f (x # xs) s = Option.bind (f x s) (for_each f xs)"

fun for_until :: "('a \<Rightarrow> 's \<Rightarrow> (bool \<times> 's) option) \<Rightarrow> 'a list \<Rightarrow> 's \<Rightarrow> (bool \<times> 's) option" where
  "for_until f [] s = Some (True, s)"
| "for_until f (x # xs) s =
     Option.bind (f x s) (\<lambda>(go, s'). if go then for_until f xs s' else Some (False, s'))"

text \<open>Collections the component proofs extend and use.\<close>

named_theorems mem_simps \<open>loads over stores\<close>
named_theorems page_simps \<open>page arithmetic\<close>

text \<open>
  A loop whose invariant speaks of the set of things done so far: when the body for \<open>i\<close> adds \<open>A i\<close>
  to that set, the loop comes back and has added all of them.
\<close>

lemma for_each_accumulate:
  assumes "\<And>i P s. i \<in> set xs \<Longrightarrow> I P s \<Longrightarrow> \<exists>s'. f i s = Some s' \<and> I (P \<union> A i) s'"
    and "I P s"
  shows "\<exists>s'. for_each f xs s = Some s' \<and> I (P \<union> (\<Union>i\<in>set xs. A i)) s'"
  using assms
proof (induction xs arbitrary: P s)
  case Nil
  then show ?case by simp
next
  case (Cons x xs)
  from Cons.prems(1) [of x P s] Cons.prems(2) obtain s1 where
    s1: "f x s = Some s1" "I (P \<union> A x) s1" by auto
  have "\<exists>s'. for_each f xs s1 = Some s' \<and> I (P \<union> A x \<union> (\<Union>i\<in>set xs. A i)) s'"
    using Cons.prems(1) s1(2) by (intro Cons.IH) auto
  with s1(1) show ?case by (simp add: Un_assoc)
qed

lemma for_each_inv:
  assumes "\<And>x s s'. x \<in> set xs \<Longrightarrow> I s \<Longrightarrow> f x s = Some s' \<Longrightarrow> I s'" "I s" "for_each f xs s = Some s'"
  shows "I s'"
  using assms by (induction xs arbitrary: s) (auto simp: bind_eq_Some_conv)

text \<open>A part of one of the blocks of a sequence of blocks of the same length.\<close>

lemma take_drop_concat:
  assumes "\<forall>x \<in> set xs. length x = b" "i < length xs" "j + n \<le> b"
  shows "take n (drop (i * b + j) (concat xs)) = take n (drop j (xs ! i))"
  using assms
proof (induction xs arbitrary: i)
  case (Cons x xs)
  show ?case
  proof (cases i)
    case 0 thus ?thesis using Cons.prems by simp
  next
    case (Suc k)
    have "take n (drop (i * b + j) (concat (x # xs))) = take n (drop (k * b + j) (concat xs))"
      using Cons.prems(1) Suc by simp
    also have "\<dots> = take n (drop j (xs ! k))" using Cons.IH [of k] Cons.prems Suc by simp
    finally show ?thesis using Suc by simp
  qed
qed simp

section \<open>Words\<close>

lemma of_nat_unat_u64 [simp]: "of_nat (unat (x::u64)) = x"
  by simp

lemma unat_u64_less: "unat (x::u64) < 2 ^ 64"
  using unsigned_less [of x] by simp

lemma unat_add_u64: "unat (x::u64) + unat y < 2 ^ 64 \<Longrightarrow> unat (x + y) = unat x + unat y"
  by (simp add: unat_word_ariths)

lemma unat_mult_u64: "unat (x::u64) * unat y < 2 ^ 64 \<Longrightarrow> unat (x * y) = unat x * unat y"
  by (simp add: unat_word_ariths)

lemma unat_sub_u64: "(y::u64) \<le> x \<Longrightarrow> unat (x - y) = unat x - unat y"
  by (simp add: unat_sub)

lemma unat_of_nat_u64: "n < 2 ^ 64 \<Longrightarrow> unat (of_nat n :: u64) = n"
  by (simp add: unat_of_nat)

lemma unat_sub_wrap: "unat (x - y :: u64) = (if unat y \<le> unat x then unat x - unat y
    else 2 ^ 64 + unat x - unat y)"
  by (auto simp: unat_sub_if_size word_size)

text \<open>Counters that count down, or up to a bound, for the termination of loops.\<close>

lemma unat_pred_less: "(n::u64) \<noteq> 0 \<Longrightarrow> unat (n - 1) < unat n"
  by (simp add: unat_minus_one unat_gt_0)

lemma unat_up_less:
  assumes "(i::u64) < n"
  shows "unat (n - (i + 1)) < unat (n - i)"
proof -
  have eq: "n - (i + 1) = n - i - 1" by simp
  have "n - i \<noteq> 0" using assms by auto
  then show ?thesis unfolding eq by (rule unat_pred_less)
qed

lemma unat_Suc_u64: "(i::u64) < n \<Longrightarrow> unat (i + 1) = Suc (unat i)"
  using unat_u64_less [of n] by (subst unat_add_u64) (simp_all add: word_less_nat_alt)

lemma word_AND_mask12: "(x::u64) AND 0xFFF = x mod 0x1000"
proof -
  have "x AND mask 12 = x mod 2 ^ 12"
    by (simp add: take_bit_eq_mod flip: take_bit_eq_mask)
  then show ?thesis by (simp add: mask_eq_exp_minus_1)
qed

text \<open>Rounding down to a power of two: \<open>x & ~(2^k - 1)\<close>.\<close>

lemma unat_and_not_mask: "unat ((x::u64) AND NOT (mask k)) = unat x - unat x mod 2 ^ k"
proof -
  have "NOT x AND take_bit k x = 0" by (auto simp: bit_eq_iff bit_simps)
  then have "x - take_bit k x = x AND NOT (take_bit k x)" by (rule disjunctive_diff_eq_and_not)
  also have "\<dots> = x AND NOT (mask k)" by (auto simp: bit_eq_iff bit_simps)
  finally have "x AND NOT (mask k) = x - take_bit k x" by simp
  moreover have t: "unat (take_bit k x) = unat x mod 2 ^ k"
    by (simp add: unsigned_take_bit_eq flip: take_bit_eq_mod)
  moreover have "take_bit k x \<le> x"
    unfolding word_le_nat_alt t by simp
  ultimately show ?thesis by (simp add: unat_sub)
qed

lemma unat_round_down:
  "unat ((x::u64) AND NOT 0xFFF) = unat x - unat x mod 4096"
  "unat ((x::u64) AND NOT 15) = unat x - unat x mod 16"
  "unat ((x::u64) AND NOT 7) = unat x - unat x mod 8"
  using unat_and_not_mask [of x 12] unat_and_not_mask [of x 4] unat_and_not_mask [of x 3]
  by (simp_all add: mask_eq_exp_minus_1)

lemma page_aligned_iff: "(x::u64) AND 0xFFF = 0 \<longleftrightarrow> unat x mod 4096 = 0"
proof -
  have "unat (x mod 0x1000) = unat x mod 4096" by (simp add: unat_mod)
  then show ?thesis by (metis unat_eq_zero word_AND_mask12)
qed

section \<open>Loads and stores\<close>

lemma bit_load:
  "n \<le> 8 \<Longrightarrow>
   bit (load n m a) k \<longleftrightarrow> k < 8 * n \<and> bit (m (a + of_nat (k div 8))) (k mod 8)"
proof (induction n arbitrary: a k)
  case 0
  then show ?case by simp
next
  case (Suc n)
  show ?case
  proof (cases "k < 8")
    case True
    then show ?thesis
      by (simp add: bit_simps)
  next
    case False
    then obtain j where j: "k = j + 8" by (metis add.commute le_Suc_ex not_less)
    have "bit (m a) k = False"
      using False by (auto dest: bit_imp_le_length)
    moreover have "k div 8 = Suc (j div 8)" using j by simp
    ultimately show ?thesis
      using Suc j by (auto simp add: bit_simps add.assoc dest: bit_imp_le_length)
  qed
qed

text \<open>The loads unrolled, for evaluation on concrete memories.\<close>

lemma load_2: "load 2 m a = ucast (m a) OR push_bit 8 (ucast (m (a + 1)))"
  by (simp add: numeral_2_eq_2)

lemma load_4: "load 4 m a = ucast (m a) OR push_bit 8 (ucast (m (a + 1)))
    OR push_bit 16 (ucast (m (a + 2))) OR push_bit 24 (ucast (m (a + 3)))"
proof -
  have "load (Suc (Suc (Suc (Suc 0)))) m a = ucast (m a) OR push_bit 8 (ucast (m (a + 1)))
    OR push_bit 16 (ucast (m (a + 2))) OR push_bit 24 (ucast (m (a + 3)))"
    by (simp add: push_bit_or add.assoc or.assoc)
  then show ?thesis by (simp only: eval_nat_numeral BitM.simps numeral_One One_nat_def)
qed

lemma load_8: "load 8 m a = load 4 m a OR push_bit 32 (load 4 m (a + 4))"
proof -
  have "load (Suc (Suc (Suc (Suc n)))) m a = load 4 m a OR push_bit 32 (load n m (a + 4))" for n
    by (simp add: load_4 push_bit_or add.assoc or.assoc)
  from this [of 4] show ?thesis by simp
qed

lemmas load_unroll = load_2 load_4 load_8

lemma load_cong:
  "(\<And>i. i < n \<Longrightarrow> m (a + of_nat i) = m' (a + of_nat i)) \<Longrightarrow> load n m a = load n m' a"
proof (induction n arbitrary: a)
  case 0
  then show ?case by simp
next
  case (Suc n)
  have "load n m (a + 1) = load n m' (a + 1)"
  proof (rule Suc.IH)
    fix i assume "i < n"
    then show "m (a + 1 + of_nat i) = m' (a + 1 + of_nat i)"
      using Suc.prems [of "Suc i"] by (simp add: add.assoc)
  qed
  moreover have "m a = m' a" using Suc.prems [of 0] by simp
  ultimately show ?case by simp
qed

lemma load_store_same:
  assumes "n \<le> 8"
  shows "load n (store n m a v) a = take_bit (8 * n) v"
proof (rule bit_word_eqI)
  fix k assume k: "k < LENGTH(64)"
  have small: "unat (of_nat (k div 8) :: u64) = k div 8"
    using k by (intro unat_of_nat_u64) simp
  have "k < 8 * n \<longleftrightarrow> k div 8 < n" by auto
  with assms small k show "bit (load n (store n m a v) a) k = bit (take_bit (8 * n) v) k"
    by (auto simp add: bit_load store_def bit_simps)
qed

lemma read64_write64_same [simp, mem_simps]: "read64 (write64 m a v) a = v"
  using load_store_same [of 8 m a v] by (simp add: take_bit_word_eq_self)

text \<open>Two ranges are apart when no byte of one is a byte of the other.\<close>

definition apart :: "u64 \<Rightarrow> nat \<Rightarrow> u64 \<Rightarrow> nat \<Rightarrow> bool" where
  "apart a k b n \<longleftrightarrow> (\<forall>i<n. k \<le> unat (b + of_nat i - a))"

lemma apartD: "apart a k b n \<Longrightarrow> i < n \<Longrightarrow> \<not> unat (b + of_nat i - a) < k"
  by (auto simp: apart_def)

lemma load_store_apart: "apart a k b n \<Longrightarrow> load n (store k m a v) b = load n m b"
  by (rule load_cong) (auto simp: store_def dest: apartD)

lemma load_fill_apart: "apart a k b n \<Longrightarrow> load n (fill m a v k) b = load n m b"
  by (rule load_cong) (auto simp: fill_def dest: apartD)

lemma apart_nat:
  assumes "unat a + k \<le> unat b \<or> unat b + n \<le> unat a"
    and "unat a + k \<le> 2 ^ 64" and "unat b + n \<le> 2 ^ 64"
  shows "apart a k b n"
  unfolding apart_def
proof (intro allI impI)
  fix i assume i: "i < n"
  have b: "unat (b + of_nat i) = unat b + i"
    using i assms(3) by (simp add: unat_word_ariths unat_of_nat)
  show "k \<le> unat (b + of_nat i - a)"
    using assms i by (auto simp: unat_sub_wrap b)
qed

text \<open>Parts of the memory as lists of bytes.\<close>

lemma bytes_at_part: "a + n \<le> k \<Longrightarrow> bytes_at m (p + of_nat a) n = take n (drop a (bytes_at m p k))"
  by (rule nth_equalityI) (auto simp: bytes_at_def add.assoc)

lemma bytes_at_poke: "length bs = n \<Longrightarrow> n \<le> 2 ^ 64 \<Longrightarrow> bytes_at (poke m a bs) a n = bs"
  by (rule nth_equalityI) (auto simp: bytes_at_def poke_def unat_of_nat_u64)

lemma bytes_at_poke_apart: "apart a (length bs) p n \<Longrightarrow> bytes_at (poke m a bs) p n = bytes_at m p n"
  by (auto simp: bytes_at_def poke_def dest: apartD)

lemma apart_less: "apart a k p n \<Longrightarrow> k' \<le> k \<Longrightarrow> n' \<le> n \<Longrightarrow> apart a k' p n'"
  by (auto simp: apart_def) (meson le_trans less_le_trans)

lemma byte_of_bytes_at:
  assumes "bytes_at m p n = bs" "k < n" "n \<le> 2 ^ 32"
  shows "m (p + of_nat k) = poke (\<lambda>_. 0) 0 bs (of_nat k)"
proof -
  have "length bs = n" "m (p + of_nat k) = bs ! k" using assms(1,2) by (auto simp: bytes_at_def)
  moreover have "unat (of_nat k :: u64) = k" using assms by (intro unat_of_nat_u64) simp
  ultimately show ?thesis using assms(2) by (simp add: poke_def)
qed

lemma read32_bytes_at:
  assumes "bytes_at m p n = bs" "k + 4 \<le> n" "n \<le> 2 ^ 32"
  shows "read32 m (p + of_nat k) = read32 (poke (\<lambda>_. 0) 0 bs) (of_nat k)"
  using byte_of_bytes_at [OF assms(1) _ assms(3), of k] byte_of_bytes_at [OF assms(1) _ assms(3), of "k + 1"]
    byte_of_bytes_at [OF assms(1) _ assms(3), of "k + 2"] byte_of_bytes_at [OF assms(1) _ assms(3), of "k + 3"] assms(2)
  by (simp add: read32_def load_4 ac_simps)

lemma read16_bytes_at:
  assumes "bytes_at m p n = bs" "k + 2 \<le> n" "n \<le> 2 ^ 32"
  shows "read16 m (p + of_nat k) = read16 (poke (\<lambda>_. 0) 0 bs) (of_nat k)"
  using byte_of_bytes_at [OF assms(1) _ assms(3), of k] byte_of_bytes_at [OF assms(1) _ assms(3), of "k + 1"] assms(2)
  by (simp add: read16_def load_2 ac_simps)

text \<open>Eight-byte accesses at multiples of eight behave like a map from addresses to words.\<close>

definition aligned8 :: "u64 \<Rightarrow> bool" where
  "aligned8 a \<longleftrightarrow> unat a mod 8 = 0"

lemma aligned8_top: "aligned8 a \<Longrightarrow> unat a + 8 \<le> 2 ^ 64"
proof -
  assume "aligned8 a"
  then obtain q where q: "unat a = 8 * q" by (auto simp: aligned8_def)
  with unat_u64_less [of a] have "q < 2 ^ 61" by simp
  with q show ?thesis by simp
qed

lemma aligned8_apart:
  assumes "aligned8 a" "aligned8 b" "a \<noteq> b"
  shows "apart a 8 b 8"
proof (rule apart_nat)
  have neq: "unat a \<noteq> unat b" using assms(3) by (simp add: word_unat_eq_iff)
  with assms(1,2) show "unat a + 8 \<le> unat b \<or> unat b + 8 \<le> unat a"
    unfolding aligned8_def by presburger
  show "unat a + 8 \<le> 2 ^ 64" "unat b + 8 \<le> 2 ^ 64"
    using assms(1,2) by (simp_all add: aligned8_top [simplified])
qed

lemma read64_write64 [mem_simps]:
  assumes "aligned8 a" "aligned8 b"
  shows "read64 (write64 m a v) b = (if a = b then v else read64 m b)"
  using assms by (simp add: aligned8_apart load_store_apart)

lemma load_fill_zero:
  assumes "n \<le> 8" and "\<And>i. i < n \<Longrightarrow> unat (b + of_nat i - a) < k"
  shows "load n (fill m a 0 k) b = 0"
proof (rule bit_word_eqI)
  fix j assume "j < LENGTH(64)"
  have "\<not> bit (load n (fill m a 0 k) b) j"
    using assms by (auto simp: bit_load fill_def)
  then show "bit (load n (fill m a 0 k) b) j = bit 0 j" by simp
qed

section \<open>Addresses as natural numbers\<close>

text \<open>
  Layout arguments are about natural numbers: \<open>adr\<close> gives the address of a number, and the rules
  below turn an access at \<open>adr x\<close> over a write at \<open>adr y\<close> into arithmetic on \<open>x\<close> and \<open>y\<close>.
\<close>

definition adr :: "nat \<Rightarrow> u64" where
  "adr n = of_nat n"

lemma unat_adr: "n < 2 ^ 64 \<Longrightarrow> unat (adr n) = n"
  unfolding adr_def by (rule unat_of_nat_u64)

lemma adr_unat [simp]: "adr (unat x) = x"
  by (simp add: adr_def)

lemma adr_inject: "a < 2 ^ 64 \<Longrightarrow> b < 2 ^ 64 \<Longrightarrow> adr a = adr b \<longleftrightarrow> a = b"
  by (metis unat_adr)

lemma adr_add: "adr a + adr b = adr (a + b)"
  by (simp add: adr_def)

lemma adr_add_numeral [simp]: "adr a + numeral k = adr (a + numeral k)"
  by (simp add: adr_def)

lemma adr_diff: "b \<le> a \<Longrightarrow> adr a - adr b = adr (a - b)"
  by (simp add: adr_def of_nat_diff)

lemma adr_diff_numeral: "numeral k \<le> a \<Longrightarrow> adr a - numeral k = adr (a - numeral k)"
  using adr_diff [of "numeral k" a] by (simp add: adr_def)

lemma adr_le_iff: "a < 2 ^ 64 \<Longrightarrow> b < 2 ^ 64 \<Longrightarrow> adr a \<le> adr b \<longleftrightarrow> a \<le> b"
  by (simp add: word_le_nat_alt unat_adr)

lemma adr_less_iff: "a < 2 ^ 64 \<Longrightarrow> b < 2 ^ 64 \<Longrightarrow> adr a < adr b \<longleftrightarrow> a < b"
  by (simp add: word_less_nat_alt unat_adr)

lemma unat_adr_offset:
  "x < 2 ^ 64 \<Longrightarrow> y < 2 ^ 64 \<Longrightarrow> k \<le> 2 ^ 64 - x \<Longrightarrow>
   unat (adr y - adr x) < k \<longleftrightarrow> x \<le> y \<and> y < x + k"
  by (auto simp: unat_sub_wrap unat_adr)

lemma store_adr_other:
  assumes "x + k \<le> 2 ^ 64" "y < 2 ^ 64" "y < x \<or> x + k \<le> y"
  shows "store k m (adr x) v (adr y) = m (adr y)"
proof (cases "k = 0")
  case False
  then have "\<not> unat (adr y - adr x) < k"
    using assms by (subst unat_adr_offset) auto
  then show ?thesis by (simp add: store_def)
qed (simp add: store_def)

lemma upd_adr_other:
  "x < 2 ^ 64 \<Longrightarrow> y < 2 ^ 64 \<Longrightarrow> x \<noteq> y \<Longrightarrow> (m(adr x := v)) (adr y) = m (adr y)"
  by (simp add: adr_inject)

lemma load_adr_cong:
  assumes "\<And>y. x \<le> y \<Longrightarrow> y < x + n \<Longrightarrow> m' (adr y) = m (adr y)"
  shows "load n m' (adr x) = load n m (adr x)"
proof (rule load_cong)
  fix i assume "i < n"
  then show "m' (adr x + of_nat i) = m (adr x + of_nat i)"
    using assms [of "x + i"] by (simp add: adr_def)
qed

lemma aligned8_adr: "x < 2 ^ 64 \<Longrightarrow> x mod 8 = 0 \<Longrightarrow> aligned8 (adr x)"
  by (simp add: aligned8_def unat_adr)

text \<open>The three rules for words and bytes at multiples of eight.\<close>

lemma read64_write64_adr:
  assumes "x mod 8 = 0" "y mod 8 = 0" "x < 2 ^ 64" "y < 2 ^ 64"
  shows "read64 (write64 m (adr x) v) (adr y) = (if x = y then v else read64 m (adr y))"
  using assms by (simp add: read64_write64 aligned8_adr adr_inject)

lemma read64_upd_adr:
  assumes "x mod 8 = 0" "y mod 8 = 0" "x < 2 ^ 64" "y < 2 ^ 64" "x \<noteq> y"
  shows "read64 (m(adr x := v)) (adr y) = read64 m (adr y)"
proof (rule load_adr_cong)
  fix z assume z: "y \<le> z" "z < y + 8"
  have "z < 2 ^ 64"
    using z aligned8_top [OF aligned8_adr [OF assms(4,2)]] assms(4) by (simp add: unat_adr)
  moreover have "x \<noteq> z" using assms z by presburger
  ultimately show "(m(adr x := v)) (adr z) = m (adr z)" using assms(3) by (simp add: adr_inject)
qed

lemma write64_byte_adr:
  assumes "x mod 8 = 0" "y mod 8 = 0" "x < 2 ^ 64" "y < 2 ^ 64" "x \<noteq> y"
  shows "write64 m (adr x) v (adr y) = m (adr y)"
proof (rule store_adr_other)
  show "x + 8 \<le> 2 ^ 64"
    using aligned8_top [OF aligned8_adr [OF assms(3,1)]] assms(3) by (simp add: unat_adr)
  show "y < x \<or> x + 8 \<le> y" using assms by presburger
qed (rule assms)

section \<open>Lists\<close>

lemma nth_list_update_if:
  "i < length xs \<Longrightarrow> xs[i := v] ! j = (if i = j then v else xs ! j)"
  by (simp add: nth_list_update)

end
