(* ===== verification/Frame_Interface.thy ===== *)
theory Frame_Interface
  imports LTOS_Prelude
begin

text \<open>
  What the kernel relies on when it takes physical frames from an allocator, as a locale: the
  operations are the allocator's, the laws are what it promises about the set of frames still
  available. The page-table code, the ELF loader and \<open>sys_mmap\<close> are clients of this contract; the
  theory of the physical page allocator interprets it.
\<close>

locale frame_allocator =
  fixes alloc :: "'s \<Rightarrow> u64 \<times> 's"
    and free :: "u64 \<Rightarrow> 's \<Rightarrow> 's option"
    and avail :: "'s \<Rightarrow> u64 set"
    and frame :: "u64 \<Rightarrow> bool"
    and inv :: "'s \<Rightarrow> bool"
  assumes alloc_some: "inv s \<Longrightarrow> avail s \<noteq> {} \<Longrightarrow> alloc s = (p, s') \<Longrightarrow>
      p \<in> avail s \<and> avail s' = avail s - {p} \<and> inv s'"
    and alloc_none: "inv s \<Longrightarrow> avail s = {} \<Longrightarrow> alloc s = (0, s)"
    and avail_frame: "inv s \<Longrightarrow> p \<in> avail s \<Longrightarrow> frame p \<and> p \<noteq> 0"
    and free_frame: "inv s \<Longrightarrow> frame p \<Longrightarrow> p \<noteq> 0 \<Longrightarrow>
      \<exists>s'. free p s = Some s' \<and> avail s' = insert p (avail s) \<and> inv s'"
begin

text \<open>A run of \<open>n\<close> allocations: the frames handed out, in order, until one fails.\<close>

fun alloc_run :: "nat \<Rightarrow> 's \<Rightarrow> u64 list \<times> 's" where
  "alloc_run 0 s = ([], s)"
| "alloc_run (Suc n) s =
     (let (p, s1) = alloc s
      in if p = 0 then ([], s1) else let (ps, s2) = alloc_run n s1 in (p # ps, s2))"

lemma alloc_keeps_inv:
  assumes "inv s" "alloc s = (p, s')"
  shows "inv s'"
  using alloc_some [of s p s'] alloc_none [of s] assms by (cases "avail s = {}") simp_all

lemma alloc_nonzero_iff: "inv s \<Longrightarrow> alloc s = (p, s') \<Longrightarrow> p \<noteq> 0 \<longleftrightarrow> avail s \<noteq> {}"
  using alloc_some [of s p s'] alloc_none [of s] avail_frame [of s p]
  by (cases "avail s = {}") auto

lemma alloc_fresh:
  assumes "inv s" "alloc s = (p, s')" "p \<noteq> 0"
  shows "p \<in> avail s" "avail s' = avail s - {p}" "frame p" "inv s'"
  using assms alloc_nonzero_iff [OF assms(1,2)] alloc_some [of s p s'] avail_frame [of s p] by auto

lemma alloc_run_spec:
  "inv s \<Longrightarrow> alloc_run n s = (ps, s') \<Longrightarrow>
   distinct ps \<and> set ps \<subseteq> avail s \<and> avail s' = avail s - set ps \<and> inv s'"
proof (induction n arbitrary: s ps s')
  case 0
  then show ?case by simp
next
  case (Suc n)
  obtain p s1 where a: "alloc s = (p, s1)" by (cases "alloc s") auto
  show ?case
  proof (cases "p = 0")
    case True
    then have "avail s = {}" using alloc_nonzero_iff [OF Suc.prems(1) a] by simp
    with Suc.prems a True alloc_none [of s] show ?thesis by simp
  next
    case False
    obtain qs s2 where r: "alloc_run n s1 = (qs, s2)" by (cases "alloc_run n s1") auto
    note f = alloc_fresh [OF Suc.prems(1) a False]
    have ps: "ps = p # qs" "s' = s2" using Suc.prems(2) a r False by simp_all
    from Suc.IH [OF f(4) r] f(1,2) show ?thesis unfolding ps by auto
  qed
qed

text \<open>As many allocations succeed as there are frames.\<close>

lemma alloc_run_length:
  "inv s \<Longrightarrow> finite (avail s) \<Longrightarrow> n \<le> card (avail s) \<Longrightarrow> length (fst (alloc_run n s)) = n"
proof (induction n arbitrary: s)
  case 0
  then show ?case by simp
next
  case (Suc n)
  obtain p s1 where a: "alloc s = (p, s1)" by (cases "alloc s") auto
  from Suc.prems have ne: "avail s \<noteq> {}" by auto
  then have "p \<noteq> 0" using alloc_nonzero_iff [OF Suc.prems(1) a] by simp
  note f = alloc_fresh [OF Suc.prems(1) a this]
  have "length (fst (alloc_run n s1)) = n"
    using Suc.prems f by (intro Suc.IH) (auto simp: card_Diff_singleton)
  with a \<open>p \<noteq> 0\<close> show ?case by (auto simp: split: prod.splits)
qed

text \<open>Giving a frame back right after taking it restores the set of available frames.\<close>

lemma alloc_free:
  assumes "inv s" "alloc s = (p, s1)" "p \<noteq> 0"
  obtains s2 where "free p s1 = Some s2" "avail s2 = avail s" "inv s2"
  using alloc_fresh [OF assms] free_frame [of s1 p] assms(3) that
  by (metis insert_Diff)

end

end
