(* ===== verification/Pmm.thy ===== *)
theory Pmm
  imports Frame_Interface
begin

unbundle bit_operations_syntax

text \<open>
  The physical page allocator, \<open>src/mm/pmm.cpp\<close>: a bitmap with one bit per 4 KiB page (set means
  used), a count of the free pages and a cursor. The state is the record \<open>pmm\<close>; every function
  of the file that changes it is a definition here. Bytes of the bitmap are words of eight bits,
  addresses and counters are words of sixty-four bits, and page indices are natural numbers.
\<close>

section \<open>State and operations\<close>

definition PAGE_SIZE :: u64 where
  "PAGE_SIZE = 4096"

definition TOTAL_PAGES :: nat where
  "TOTAL_PAGES = 33554432"

record pmm =
  bitmap :: "nat \<Rightarrow> u8"
  total_pages :: u64
  free_pages_count :: u64
  last_page :: nat

datatype pmm_fault = BitmapOutOfBounds

definition set_bit_pmm :: "nat \<Rightarrow> pmm \<Rightarrow> pmm" where
  "set_bit_pmm b s =
     s\<lparr>bitmap := (bitmap s)(b div 8 := bitmap s (b div 8) OR push_bit (b mod 8) 1)\<rparr>"

definition clear_bit :: "nat \<Rightarrow> pmm \<Rightarrow> pmm" where
  "clear_bit b s =
     s\<lparr>bitmap := (bitmap s)(b div 8 := bitmap s (b div 8) AND NOT (push_bit (b mod 8) 1))\<rparr>"

definition test_bit :: "pmm \<Rightarrow> nat \<Rightarrow> bool" where
  "test_bit s b \<longleftrightarrow> bitmap s (b div 8) AND push_bit (b mod 8) 1 \<noteq> 0"

text \<open>The bodies of the loops of \<open>reserve_region\<close> and \<open>free_region\<close>, then the functions.\<close>

definition reserve_page :: "nat \<Rightarrow> pmm \<Rightarrow> pmm" where
  "reserve_page i s =
     (if i < TOTAL_PAGES then
        if \<not> test_bit s i
        then (set_bit_pmm i s)\<lparr>free_pages_count := free_pages_count s - 1\<rparr>
        else s
      else s)"

definition release_page :: "nat \<Rightarrow> pmm \<Rightarrow> pmm" where
  "release_page i s =
     (if i < TOTAL_PAGES then
        if test_bit s i
        then (clear_bit i s)\<lparr>free_pages_count := free_pages_count s + 1\<rparr>
        else s
      else s)"

definition reserve_region :: "u64 \<Rightarrow> u64 \<Rightarrow> pmm \<Rightarrow> pmm" where
  "reserve_region addr len s =
     (let start = unat (addr div PAGE_SIZE);
          stop = unat ((addr + len + PAGE_SIZE - 1) div PAGE_SIZE)
      in fold reserve_page [start..<stop] s)"

definition free_region :: "u64 \<Rightarrow> u64 \<Rightarrow> pmm \<Rightarrow> pmm" where
  "free_region addr len s =
     (let start = unat (addr div PAGE_SIZE);
          stop = unat ((addr + len) div PAGE_SIZE)
      in fold release_page [start..<stop] s)"

text \<open>
  \<open>init\<close> walks the multiboot2 tags in memory. A tag has its type at offset 0 and its size at
  offset 4; a memory-map tag has the size of an entry at offset 8 and its entries from offset 16;
  an entry has its base at 0, its length at 8 and its type at 16. \<open>None\<close> stands for not coming
  back: a tag of size 0 makes the loop of the code run for ever, and an entry size of 0 is a
  division by zero.
\<close>

definition TAG_END :: u32 where "TAG_END = 0"
definition TAG_MMAP :: u32 where "TAG_MMAP = 6"
definition MEMORY_AVAILABLE :: u32 where "MEMORY_AVAILABLE = 1"

fun init_entries :: "mem \<Rightarrow> u32 \<Rightarrow> nat \<Rightarrow> u64 \<Rightarrow> pmm \<Rightarrow> pmm" where
  "init_entries m esize 0 entry s = s"
| "init_entries m esize (Suc n) entry s =
     (let s' =
        (if read32 m (entry + 16) = MEMORY_AVAILABLE then
           let pages0 = read64 m (entry + 8) div PAGE_SIZE;
               pages = (if pages0 > of_nat TOTAL_PAGES then of_nat TOTAL_PAGES else pages0)
           in free_region (read64 m entry) (pages * PAGE_SIZE)
                (s\<lparr>total_pages := total_pages s + pages\<rparr>)
         else s)
      in init_entries m esize n (entry + ucast esize) s')"

definition init_mmap :: "mem \<Rightarrow> u64 \<Rightarrow> pmm \<Rightarrow> pmm option" where
  "init_mmap m tag s =
     (let size = read32 m (tag + 4); esize = read32 m (tag + 8)
      in if esize = 0 then None
         else Some (init_entries m esize (unat ((size - 16) div esize)) (tag + 16) s))"

definition next_tag :: "mem \<Rightarrow> u64 \<Rightarrow> u64" where
  "next_tag m tag = tag + ucast ((read32 m (tag + 4) + 7) AND NOT 7)"

partial_function (option) init_tags :: "mem \<Rightarrow> u64 \<Rightarrow> pmm \<Rightarrow> pmm option" where
  "init_tags m tag s =
     (if read32 m tag = TAG_END then Some s
      else Option.bind (if read32 m tag = TAG_MMAP then init_mmap m tag s else Some s)
             (init_tags m (next_tag m tag)))"

definition pmm_reset :: "pmm" where
  "pmm_reset = \<lparr>bitmap = (\<lambda>_. 0xFF), total_pages = 0, free_pages_count = 0, last_page = 0\<rparr>"

definition init :: "mem \<Rightarrow> u64 \<Rightarrow> u64 \<Rightarrow> u64 \<Rightarrow> pmm option" where
  "init m multiboot_addr kernel_start kernel_end =
     map_option
       (\<lambda>s. reserve_region kernel_start (kernel_end - kernel_start)
              (reserve_region 0 0x100000 s))
       (init_tags m (multiboot_addr + 8) pmm_reset)"

text \<open>The scan of \<open>alloc_page\<close>: the first clear bit of the pages \<open>[i, e)\<close>.\<close>

function scan :: "pmm \<Rightarrow> nat \<Rightarrow> nat \<Rightarrow> nat option" where
  "scan s i e = (if i < e then if \<not> test_bit s i then Some i else scan s (Suc i) e else None)"
  by pat_completeness auto
termination
  by (relation "measure (\<lambda>(s, i, e). e - i)") auto

declare scan.simps [simp del]

definition take_page :: "nat \<Rightarrow> pmm \<Rightarrow> u64 \<times> pmm" where
  "take_page i s =
     (of_nat i * PAGE_SIZE,
      (set_bit_pmm i s)\<lparr>free_pages_count := free_pages_count s - 1, last_page := i + 1\<rparr>)"

definition alloc_page :: "pmm \<Rightarrow> u64 \<times> pmm" where
  "alloc_page s =
     (case scan s (last_page s) TOTAL_PAGES of
        Some i \<Rightarrow> take_page i s
      | None \<Rightarrow>
          (case scan s 0 (last_page s) of
             Some i \<Rightarrow> take_page i s
           | None \<Rightarrow> (0, s)))"

definition free_page :: "u64 \<Rightarrow> pmm \<Rightarrow> pmm_fault + pmm" where
  "free_page addr s =
     (let page = unat (addr div PAGE_SIZE)
      in if TOTAL_PAGES \<le> page then Inl BitmapOutOfBounds
         else if test_bit s page then
           let s' = (clear_bit page s)\<lparr>free_pages_count := free_pages_count s + 1\<rparr>
           in Inr (if page < last_page s' then s'\<lparr>last_page := page\<rparr> else s')
         else Inr s)"

definition free_memory :: "pmm \<Rightarrow> u64" where
  "free_memory s = free_pages_count s * PAGE_SIZE"

definition total_memory :: "pmm \<Rightarrow> u64" where
  "total_memory s = total_pages s * PAGE_SIZE"

definition used_memory :: "pmm \<Rightarrow> u64" where
  "used_memory s =
     (let total = total_memory s; free = free_memory s
      in if free > total then 0 else total - free)"

definition type_name :: "u32 \<Rightarrow> string" where
  "type_name t =
     (if t = 1 then ''AVAILABLE'' else if t = 3 then ''ACPI'' else if t = 4 then ''NVS''
      else if t = 5 then ''BAD'' else ''RESERVED'')"

section \<open>Specification\<close>

text \<open>
  The free pages of a state and the invariant that every operation keeps: the count is the number
  of free pages, no page behind the cursor is free, and page 0, whose address is also the failure
  value of \<open>alloc_page\<close>, is never free.
\<close>

definition frees :: "pmm \<Rightarrow> nat set" where
  "frees s = {i. i < TOTAL_PAGES \<and> \<not> test_bit s i}"

definition counted :: "pmm \<Rightarrow> bool" where
  "counted s \<longleftrightarrow> free_pages_count s = of_nat (card (frees s))"

definition pmm_inv :: "pmm \<Rightarrow> bool" where
  "pmm_inv s \<longleftrightarrow>
     counted s \<and> last_page s \<le> TOTAL_PAGES \<and> (\<forall>i<last_page s. test_bit s i) \<and> test_bit s 0"

definition page_addr :: "nat \<Rightarrow> u64" where
  "page_addr i = of_nat i * PAGE_SIZE"

section \<open>Bits and regions\<close>

lemma test_bit_iff: "test_bit s b \<longleftrightarrow> bit (bitmap s (b div 8)) (b mod 8)"
  by (simp add: test_bit_def bit_iff_and_push_bit_not_eq_0)

lemma div_mod8_eq_iff: "b div 8 = c div 8 \<and> b mod 8 = c mod 8 \<longleftrightarrow> b = (c::nat)"
  by (metis div_mult_mod_eq)

lemma test_set_bit [simp]: "test_bit (set_bit_pmm b s) c \<longleftrightarrow> c = b \<or> test_bit s c"
  using div_mod8_eq_iff [of b c]
  by (auto simp: test_bit_iff set_bit_pmm_def bit_simps)

lemma test_clear_bit [simp]: "test_bit (clear_bit b s) c \<longleftrightarrow> c \<noteq> b \<and> test_bit s c"
  using div_mod8_eq_iff [of b c]
  by (auto simp: test_bit_iff clear_bit_def bit_simps)

lemma test_bit_update [simp]:
  "test_bit (s\<lparr>free_pages_count := x\<rparr>) = test_bit s"
  "test_bit (s\<lparr>last_page := y\<rparr>) = test_bit s"
  "test_bit (s\<lparr>total_pages := z\<rparr>) = test_bit s"
  by (simp_all add: fun_eq_iff test_bit_def)

lemma bit_fields [simp]:
  "free_pages_count (set_bit_pmm b s) = free_pages_count s"
  "last_page (set_bit_pmm b s) = last_page s"
  "total_pages (set_bit_pmm b s) = total_pages s"
  "free_pages_count (clear_bit b s) = free_pages_count s"
  "last_page (clear_bit b s) = last_page s"
  "total_pages (clear_bit b s) = total_pages s"
  by (simp_all add: set_bit_pmm_def clear_bit_def)

lemma finite_frees [simp]: "finite (frees s)"
  by (simp add: frees_def)

lemma frees_less: "i \<in> frees s \<Longrightarrow> i < TOTAL_PAGES"
  by (simp add: frees_def)

lemma frees_update [simp]:
  "frees (s\<lparr>free_pages_count := x\<rparr>) = frees s"
  "frees (s\<lparr>last_page := y\<rparr>) = frees s"
  "frees (s\<lparr>total_pages := z\<rparr>) = frees s"
  by (simp_all add: frees_def)

lemma frees_set_bit [simp]: "frees (set_bit_pmm i s) = frees s - {i}"
  by (auto simp: frees_def)

lemma frees_clear_bit: "i < TOTAL_PAGES \<Longrightarrow> frees (clear_bit i s) = insert i (frees s)"
  by (auto simp: frees_def)

lemma counted_take:
  "counted s \<Longrightarrow> i \<in> frees s \<Longrightarrow>
   counted ((set_bit_pmm i s)\<lparr>free_pages_count := free_pages_count s - 1\<rparr>)"
  by (cases "card (frees s)") (auto simp: counted_def card_Diff_singleton)

lemma counted_give:
  "counted s \<Longrightarrow> i < TOTAL_PAGES \<Longrightarrow> i \<notin> frees s \<Longrightarrow>
   counted ((clear_bit i s)\<lparr>free_pages_count := free_pages_count s + 1\<rparr>)"
  by (simp add: counted_def frees_clear_bit)

lemma reserve_page_frees [simp]: "frees (reserve_page i s) = frees s - {i}"
  by (auto simp: reserve_page_def frees_def)

lemma release_page_frees:
  "frees (release_page i s) = (if i < TOTAL_PAGES then insert i (frees s) else frees s)"
  by (auto simp: release_page_def frees_def)

lemma reserve_page_counted: "counted s \<Longrightarrow> counted (reserve_page i s)"
  by (auto simp: reserve_page_def frees_def intro!: counted_take)

lemma release_page_counted: "counted s \<Longrightarrow> counted (release_page i s)"
  by (auto simp: release_page_def frees_def intro!: counted_give)

lemma region_page_fields [simp]:
  "last_page (reserve_page i s) = last_page s" "total_pages (reserve_page i s) = total_pages s"
  "last_page (release_page i s) = last_page s" "total_pages (release_page i s) = total_pages s"
  by (simp_all add: reserve_page_def release_page_def)

lemma fold_reserve:
  "frees (fold reserve_page xs s) = frees s - set xs \<and>
   (counted s \<longrightarrow> counted (fold reserve_page xs s)) \<and>
   last_page (fold reserve_page xs s) = last_page s"
  by (induction xs arbitrary: s) (auto simp: reserve_page_counted)

lemma fold_release:
  "frees (fold release_page xs s) = frees s \<union> (set xs \<inter> {i. i < TOTAL_PAGES}) \<and>
   (counted s \<longrightarrow> counted (fold release_page xs s)) \<and>
   last_page (fold release_page xs s) = last_page s"
  by (induction xs arbitrary: s) (auto simp: release_page_counted release_page_frees)

lemma reserve_region_frees:
  "frees (reserve_region a n s) =
   frees s - {unat (a div PAGE_SIZE)..<unat ((a + n + PAGE_SIZE - 1) div PAGE_SIZE)}"
  by (simp add: reserve_region_def fold_reserve)

lemma reserve_region_counted: "counted s \<Longrightarrow> counted (reserve_region a n s)"
  by (simp add: reserve_region_def fold_reserve)

lemma reserve_region_last [simp]: "last_page (reserve_region a n s) = last_page s"
  by (simp add: reserve_region_def fold_reserve)

lemma free_region_frees:
  "frees (free_region a n s) =
   frees s \<union> ({unat (a div PAGE_SIZE)..<unat ((a + n) div PAGE_SIZE)} \<inter> {i. i < TOTAL_PAGES})"
  by (simp add: free_region_def fold_release)

lemma free_region_counted: "counted s \<Longrightarrow> counted (free_region a n s)"
  by (simp add: free_region_def fold_release)

lemma free_region_last [simp]: "last_page (free_region a n s) = last_page s"
  by (simp add: free_region_def fold_release)

lemmas region_simps = reserve_region_frees reserve_region_counted free_region_frees
  free_region_counted

lemma not_test_bit_frees: "i < TOTAL_PAGES \<Longrightarrow> test_bit s i \<longleftrightarrow> i \<notin> frees s"
  by (simp add: frees_def)

lemma pmm_inv_alt:
  "pmm_inv s \<longleftrightarrow> counted s \<and> last_page s \<le> TOTAL_PAGES \<and> (\<forall>i\<in>frees s. last_page s \<le> i) \<and> 0 \<notin> frees s"
proof -
  have "0 < TOTAL_PAGES" by (simp add: TOTAL_PAGES_def)
  then have zero: "test_bit s 0 \<longleftrightarrow> 0 \<notin> frees s" by (simp add: not_test_bit_frees)
  have "(\<forall>i<last_page s. test_bit s i) \<longleftrightarrow> (\<forall>i\<in>frees s. last_page s \<le> i)"
    if "last_page s \<le> TOTAL_PAGES"
    using that unfolding frees_def by (metis (mono_tags, lifting) leI le_less_trans less_le_trans
        linorder_not_less mem_Collect_eq)
  with zero show ?thesis unfolding pmm_inv_def by blast
qed

section \<open>Page numbers and addresses\<close>

lemma unat_page_addr:
  assumes "i < TOTAL_PAGES"
  shows "unat (page_addr i) = i * 4096"
proof -
  have "unat (of_nat i :: u64) = i"
    using assms by (intro unat_of_nat_u64) (simp add: TOTAL_PAGES_def)
  then show ?thesis
    using assms by (simp add: page_addr_def PAGE_SIZE_def TOTAL_PAGES_def unat_mult_u64)
qed

lemma page_addr_div [simp]: "i < TOTAL_PAGES \<Longrightarrow> unat (page_addr i div PAGE_SIZE) = i"
  by (simp add: unat_div unat_page_addr) (simp add: PAGE_SIZE_def)

lemma page_addr_eq_0: "i < TOTAL_PAGES \<Longrightarrow> page_addr i = 0 \<longleftrightarrow> i = 0"
  using unat_page_addr [of i] by (auto simp: page_addr_def)

lemma page_addr_inj: "i < TOTAL_PAGES \<Longrightarrow> j < TOTAL_PAGES \<Longrightarrow> page_addr i = page_addr j \<longleftrightarrow> i = j"
  by (metis page_addr_div)

section \<open>Allocation and release\<close>

lemma scan_Some: "scan s i e = Some j \<Longrightarrow> i \<le> j \<and> j < e \<and> \<not> test_bit s j \<and> (\<forall>k. i \<le> k \<and> k < j \<longrightarrow> test_bit s k)"
proof (induction s i e rule: scan.induct)
  case (1 s i e)
  show ?case
  proof (cases "i < e \<and> test_bit s i")
    case True
    with 1 have "scan s (Suc i) e = Some j" by (simp add: scan.simps [of s i e])
    with 1 True show ?thesis by (metis Suc_leD Suc_leI le_neq_implies_less)
  next
    case False
    with "1.prems" show ?thesis by (auto simp: scan.simps [of s i e] split: if_splits)
  qed
qed

lemma scan_None: "scan s i e = None \<longleftrightarrow> (\<forall>k. i \<le> k \<and> k < e \<longrightarrow> test_bit s k)"
proof (induction s i e rule: scan.induct)
  case (1 s i e)
  show ?case
  proof (cases "i < e \<and> test_bit s i")
    case True
    with 1 show ?thesis
      by (simp add: scan.simps [of s i e]) (metis Suc_leD Suc_leI le_neq_implies_less)
  next
    case False
    then show ?thesis by (auto simp: scan.simps [of s i e])
  qed
qed

lemma scan_least:
  assumes "i \<in> frees s" and "\<forall>k\<in>frees s. c \<le> k"
  shows "scan s c TOTAL_PAGES = Some (Min (frees s))"
proof -
  have "scan s c TOTAL_PAGES \<noteq> None"
    using assms unfolding scan_None frees_def by blast
  then obtain j where j: "scan s c TOTAL_PAGES = Some j" by auto
  note sj = scan_Some [OF j]
  have "Min (frees s) = j"
  proof (rule Min_eqI)
    show "j \<in> frees s" using sj by (simp add: frees_def)
    show "j \<le> k" if "k \<in> frees s" for k
      using sj that assms(2) by (metis (mono_tags, lifting) frees_def leI mem_Collect_eq)
  qed simp
  with j show ?thesis by simp
qed

lemma alloc_page_least:
  assumes "pmm_inv s" "frees s \<noteq> {}"
  shows "alloc_page s = take_page (Min (frees s)) s"
proof -
  obtain i where i: "i \<in> frees s" using assms(2) by auto
  have "scan s (last_page s) TOTAL_PAGES = Some (Min (frees s))"
    using assms(1) by (intro scan_least [OF i]) (simp add: pmm_inv_alt)
  then show ?thesis by (simp add: alloc_page_def)
qed

lemma alloc_page_full:
  assumes "pmm_inv s" "frees s = {}"
  shows "alloc_page s = (0, s)"
proof -
  have "test_bit s k" if "k < TOTAL_PAGES" for k
    using assms(2) that by (simp add: not_test_bit_frees)
  with assms(1) show ?thesis
    by (auto simp: alloc_page_def pmm_inv_def scan_None split: option.splits dest!: scan_Some)
qed

lemma take_page_spec:
  assumes "pmm_inv s" "frees s \<noteq> {}" "take_page (Min (frees s)) s = (p, s')"
  shows "p = page_addr (Min (frees s))" "frees s' = frees s - {Min (frees s)}" "pmm_inv s'"
proof -
  let ?i = "Min (frees s)"
  have i: "?i \<in> frees s" using assms(2) by (simp add: Min_in)
  show "p = page_addr ?i" "frees s' = frees s - {?i}"
    using assms(3) by (auto simp: take_page_def page_addr_def)
  have "counted s'"
    using counted_take [of s ?i] assms(1,3) i
    by (auto simp: take_page_def pmm_inv_def counted_def)
  moreover have "last_page s' = Suc ?i" "last_page s' \<le> TOTAL_PAGES"
    using assms(3) frees_less [OF i] by (auto simp: take_page_def)
  moreover have "Suc ?i \<le> k" if "k \<in> frees s - {?i}" for k
    using that by (metis DiffE Min_le finite_frees insertI1 le_neq_implies_less Suc_leI)
  ultimately show "pmm_inv s'"
    using \<open>frees s' = frees s - {?i}\<close> assms(1) by (auto simp: pmm_inv_alt)
qed

lemma free_page_addr:
  assumes "pmm_inv s" "i < TOTAL_PAGES" "i \<noteq> 0"
  obtains s' where "free_page (page_addr i) s = Inr s'" "frees s' = insert i (frees s)" "pmm_inv s'"
proof (cases "i \<in> frees s")
  case True
  then have "free_page (page_addr i) s = Inr s"
    using assms(2) by (simp add: free_page_def frees_def)
  with True assms(1) that show ?thesis by (simp add: insert_absorb)
next
  case False
  let ?s = "(clear_bit i s)\<lparr>free_pages_count := free_pages_count s + 1\<rparr>"
  let ?t = "if i < last_page ?s then ?s\<lparr>last_page := i\<rparr> else ?s"
  have "test_bit s i" using False assms(2) by (simp add: not_test_bit_frees)
  then have "free_page (page_addr i) s = Inr ?t"
    using assms(2) by (simp add: free_page_def Let_def)
  moreover have fr: "frees ?t = insert i (frees s)"
    using assms(2) by (simp add: frees_clear_bit)
  moreover have "counted ?t"
    using counted_give [of s i] assms False by (auto simp: pmm_inv_def counted_def)
  then have "pmm_inv ?t"
    using assms fr unfolding pmm_inv_alt by auto
  ultimately show ?thesis by (rule that)
qed

text \<open>The allocator as a provider of frames: its available frames are the free pages' addresses.\<close>

definition pmm_frame :: "u64 \<Rightarrow> bool" where
  "pmm_frame p \<longleftrightarrow> p AND 0xFFF = 0 \<and> unat p < TOTAL_PAGES * 4096"

definition pmm_avail :: "pmm \<Rightarrow> u64 set" where
  "pmm_avail s = page_addr ` frees s"

definition free_page_opt :: "u64 \<Rightarrow> pmm \<Rightarrow> pmm option" where
  "free_page_opt p s = (case free_page p s of Inl _ \<Rightarrow> None | Inr s' \<Rightarrow> Some s')"

lemma pmm_frame_page_addr: "pmm_frame p \<longleftrightarrow> (\<exists>i<TOTAL_PAGES. p = page_addr i)"
proof
  assume p: "pmm_frame p"
  let ?i = "unat p div 4096"
  have "unat p mod 4096 = 0"
    using p by (simp only: pmm_frame_def page_aligned_iff)
  then have eq: "?i * 4096 = unat p" by auto
  have lt: "?i < TOTAL_PAGES"
    using p by (simp only: pmm_frame_def less_mult_imp_div_less)
  have "unat (page_addr ?i) = unat p"
    by (simp only: unat_page_addr [OF lt] eq)
  then have "p = page_addr ?i" by (simp only: word_unat_eq_iff)
  with lt show "\<exists>i<TOTAL_PAGES. p = page_addr i" by blast
next
  assume "\<exists>i<TOTAL_PAGES. p = page_addr i"
  then obtain i where i: "i < TOTAL_PAGES" "p = page_addr i" by blast
  then have "unat p = i * 4096" by (simp only: unat_page_addr)
  with i(1) show "pmm_frame p"
    unfolding pmm_frame_def page_aligned_iff by simp
qed

lemma pmm_avail_Diff: "i \<in> frees s \<Longrightarrow> page_addr ` (frees s - {i}) = pmm_avail s - {page_addr i}"
proof -
  assume "i \<in> frees s"
  moreover have "inj_on page_addr (frees s)"
    by (rule inj_onI) (simp add: frees_less page_addr_inj)
  ultimately show ?thesis
    unfolding pmm_avail_def by (simp add: inj_on_image_set_diff [of page_addr "frees s"])
qed

lemma pmm_alloc_some:
  assumes "pmm_inv s" "pmm_avail s \<noteq> {}" "alloc_page s = (p, s')"
  shows "p \<in> pmm_avail s \<and> pmm_avail s' = pmm_avail s - {p} \<and> pmm_inv s'"
proof -
  have fr: "frees s \<noteq> {}" using assms(2) by (simp add: pmm_avail_def)
  have t: "take_page (Min (frees s)) s = (p, s')"
    using assms(3) alloc_page_least [OF assms(1) fr] by simp
  have m: "Min (frees s) \<in> frees s" using fr by (rule Min_in [OF finite_frees])
  note sp = take_page_spec [OF assms(1) fr t]
  have "pmm_avail s' = pmm_avail s - {p}"
    unfolding pmm_avail_def [of s'] sp by (rule pmm_avail_Diff [OF m])
  moreover have "p \<in> pmm_avail s" unfolding sp pmm_avail_def using m by (rule imageI)
  ultimately show ?thesis using sp(3) by blast
qed

lemma pmm_alloc_min:
  assumes "pmm_inv s" "alloc_page s = (p, s')" "q \<in> pmm_avail s"
  shows "p \<le> q"
proof -
  have fr: "frees s \<noteq> {}" using assms(3) by (auto simp: pmm_avail_def)
  obtain j where j: "j \<in> frees s" "q = page_addr j" using assms(3) by (auto simp: pmm_avail_def)
  have "Min (frees s) \<le> j" using j by simp
  moreover have "p = page_addr (Min (frees s))"
    using assms(2) alloc_page_least [OF assms(1) fr] take_page_spec(1) [OF assms(1) fr] by simp
  ultimately show ?thesis
    unfolding j(2) word_le_nat_alt
    using frees_less [OF Min_in [OF finite_frees fr]] frees_less [OF j(1)] by (simp add: unat_page_addr)
qed

lemma pmm_alloc_none: "pmm_inv s \<Longrightarrow> pmm_avail s = {} \<Longrightarrow> alloc_page s = (0, s)"
  by (simp add: pmm_avail_def alloc_page_full)

lemma pmm_avail_frame:
  assumes "pmm_inv s" "p \<in> pmm_avail s"
  shows "pmm_frame p \<and> p \<noteq> 0"
proof -
  obtain i where i: "i \<in> frees s" "p = page_addr i" using assms(2) unfolding pmm_avail_def by blast
  have lt: "i < TOTAL_PAGES" by (rule frees_less [OF i(1)])
  have "0 \<notin> frees s" using assms(1) unfolding pmm_inv_alt by (elim conjE)
  then have "i \<noteq> 0" using i(1) by metis
  then have "p \<noteq> 0" by (simp only: i(2) page_addr_eq_0 [OF lt] not_False_eq_True)
  moreover have "pmm_frame p" unfolding pmm_frame_page_addr using lt i(2) by (intro exI conjI)
  ultimately show ?thesis by (rule conjI [rotated])
qed

lemma pmm_free_frame:
  assumes "pmm_inv s" "pmm_frame p" "p \<noteq> 0"
  shows "\<exists>s'. free_page_opt p s = Some s' \<and> pmm_avail s' = insert p (pmm_avail s) \<and> pmm_inv s'"
proof -
  obtain i where i: "i < TOTAL_PAGES" "p = page_addr i"
    using assms(2) pmm_frame_page_addr by blast
  with assms(3) have "i \<noteq> 0" using page_addr_eq_0 by blast
  from free_page_addr [OF assms(1) i(1) this] obtain s' where
    "free_page (page_addr i) s = Inr s'" "frees s' = insert i (frees s)" "pmm_inv s'" .
  with i(2) show ?thesis
    by (simp add: free_page_opt_def pmm_avail_def)
qed

interpretation frames: frame_allocator alloc_page free_page_opt pmm_avail pmm_frame pmm_inv
  using pmm_alloc_some pmm_alloc_none pmm_avail_frame pmm_free_frame
  by unfold_locales


section \<open>Start-up\<close>

text \<open>
  The pages that a memory-map entry frees, the pages that the whole memory map frees, and the
  invariants of the walk over the tags.
\<close>

definition entry_pages :: "mem \<Rightarrow> u64 \<Rightarrow> nat set" where
  "entry_pages m entry =
     (if read32 m (entry + 16) = MEMORY_AVAILABLE then
        let pages0 = read64 m (entry + 8) div PAGE_SIZE;
            pages = (if pages0 > of_nat TOTAL_PAGES then of_nat TOTAL_PAGES else pages0);
            base = read64 m entry
        in {unat (base div PAGE_SIZE)..<unat ((base + pages * PAGE_SIZE) div PAGE_SIZE)}
           \<inter> {i. i < TOTAL_PAGES}
      else {})"

fun entries_pages :: "mem \<Rightarrow> u32 \<Rightarrow> nat \<Rightarrow> u64 \<Rightarrow> nat set" where
  "entries_pages m esize 0 entry = {}"
| "entries_pages m esize (Suc n) entry =
     entry_pages m entry \<union> entries_pages m esize n (entry + ucast esize)"

lemma counted_total [simp]: "counted (s\<lparr>total_pages := z\<rparr>) = counted s"
  by (simp add: counted_def)

lemma init_entries_spec:
  "frees (init_entries m e n entry s) = frees s \<union> entries_pages m e n entry \<and>
   (counted s \<longrightarrow> counted (init_entries m e n entry s)) \<and>
   last_page (init_entries m e n entry s) = last_page s"
  by (induction m e n entry s rule: init_entries.induct)
    (auto simp: Let_def entry_pages_def free_region_frees free_region_counted)

lemma init_mmap_keeps:
  "init_mmap m tag s = Some s' \<Longrightarrow>
   (counted s \<longrightarrow> counted s') \<and> last_page s' = last_page s \<and> frees s \<subseteq> frees s'"
  by (auto simp: init_mmap_def init_entries_spec Let_def split: if_splits)

lemma init_tags_keeps:
  assumes "init_tags m tag s = Some s'" "counted s"
  shows "counted s' \<and> last_page s' = last_page s"
proof -
  have "counted s \<longrightarrow> counted s' \<and> last_page s' = last_page s"
  proof (rule init_tags.raw_induct [where P = "\<lambda>m t s r. counted s \<longrightarrow> counted r \<and> last_page r = last_page s",
        OF _ assms(1)])
    fix f m tag s r
    assume IH: "\<And>m t s r. f m t s = Some r \<Longrightarrow> counted s \<longrightarrow> counted r \<and> last_page r = last_page s"
      and eq: "(if read32 m tag = TAG_END then Some s
        else Option.bind (if read32 m tag = TAG_MMAP then init_mmap m tag s else Some s)
               (f m (next_tag m tag))) = Some r"
    show "counted s \<longrightarrow> counted r \<and> last_page r = last_page s"
    proof (cases "read32 m tag = TAG_END")
      case False
      with eq obtain s1 where s1: "(if read32 m tag = TAG_MMAP then init_mmap m tag s else Some s) = Some s1"
        and f: "f m (next_tag m tag) s1 = Some r"
        by (auto simp: bind_eq_Some_conv)
      from s1 have "(counted s \<longrightarrow> counted s1) \<and> last_page s1 = last_page s"
        using init_mmap_keeps [of m tag s s1] by (auto split: if_splits)
      with IH [OF f] show ?thesis by auto
    qed (use eq in simp)
  qed
  with assms(2) show ?thesis by blast
qed

lemma frees_reset: "frees pmm_reset = {}"
proof -
  have "(0xFF :: u8) = - 1" by simp
  then have "bit (0xFF :: u8) (b mod 8)" for b by (simp only: bit_minus_1_iff) simp
  then show ?thesis by (auto simp: frees_def pmm_reset_def test_bit_iff)
qed

lemma counted_reset: "counted pmm_reset"
  by (simp add: counted_def frees_reset) (simp add: pmm_reset_def)

lemma low_memory_pages: "unat ((0 + 0x100000 + PAGE_SIZE - 1) div PAGE_SIZE) = 256"
  by (simp add: PAGE_SIZE_def unat_div)


text \<open>
  \<open>tag_chain m tag F\<close>: following the tags from \<open>tag\<close> reaches the end tag, no memory-map tag on
  the way has entries of size 0, and the memory-map entries on the way make the pages \<open>F\<close> free.
\<close>

inductive tag_chain :: "mem \<Rightarrow> u64 \<Rightarrow> nat set \<Rightarrow> bool" for m where
  last_tag: "read32 m tag = TAG_END \<Longrightarrow> tag_chain m tag {}"
| mmap_tag: "read32 m tag = TAG_MMAP \<Longrightarrow> read32 m (tag + 8) \<noteq> 0 \<Longrightarrow>
    tag_chain m (next_tag m tag) F \<Longrightarrow>
    tag_chain m tag
      (entries_pages m (read32 m (tag + 8))
         (unat ((read32 m (tag + 4) - 16) div read32 m (tag + 8))) (tag + 16) \<union> F)"
| other_tag: "read32 m tag \<noteq> TAG_END \<Longrightarrow> read32 m tag \<noteq> TAG_MMAP \<Longrightarrow>
    tag_chain m (next_tag m tag) F \<Longrightarrow> tag_chain m tag F"

lemma init_tags_chain:
  "tag_chain m tag F \<Longrightarrow> \<exists>s'. init_tags m tag s = Some s' \<and> frees s' = frees s \<union> F"
proof (induction arbitrary: s rule: tag_chain.induct)
  case (last_tag tag)
  then show ?case by (simp add: init_tags.simps)
next
  case (mmap_tag tag F)
  let ?n = "unat ((read32 m (tag + 4) - 16) div read32 m (tag + 8))"
  let ?s = "init_entries m (read32 m (tag + 8)) ?n (tag + 16) s"
  have "init_mmap m tag s = Some ?s" using mmap_tag by (simp add: init_mmap_def Let_def)
  moreover obtain s' where "init_tags m (next_tag m tag) ?s = Some s'" "frees s' = frees ?s \<union> F"
    using mmap_tag.IH by blast
  ultimately show ?case
    using mmap_tag.hyps by (auto simp: init_tags.simps [of m tag] init_entries_spec TAG_MMAP_def TAG_END_def)
next
  case (other_tag tag F)
  then show ?case by (simp add: init_tags.simps [of m tag])
qed

lemma init_tags_returns_chain:
  assumes "init_tags m tag s = Some s'"
  shows "\<exists>F. tag_chain m tag F"
proof (rule init_tags.raw_induct [where P = "\<lambda>m t s r. \<exists>F. tag_chain m t F", OF _ assms])
  fix f m tag s r
  assume IH: "\<And>m t s r. f m t s = Some r \<Longrightarrow> \<exists>F. tag_chain m t F"
    and eq: "(if read32 m tag = TAG_END then Some s
      else Option.bind (if read32 m tag = TAG_MMAP then init_mmap m tag s else Some s)
             (f m (next_tag m tag))) = Some r"
  show "\<exists>F. tag_chain m tag F"
  proof (cases "read32 m tag = TAG_END")
    case False
    with eq obtain s1 where s1: "(if read32 m tag = TAG_MMAP then init_mmap m tag s else Some s) = Some s1"
      and f: "f m (next_tag m tag) s1 = Some r"
      by (auto simp: bind_eq_Some_conv)
    then obtain F where "tag_chain m (next_tag m tag) F" using IH by blast
    with False s1 show ?thesis
      by (cases "read32 m tag = TAG_MMAP")
        (auto simp: init_mmap_def Let_def intro: tag_chain.intros split: if_splits)
  qed (auto intro: last_tag)
qed

definition kernel_pages :: "u64 \<Rightarrow> u64 \<Rightarrow> nat set" where
  "kernel_pages kernel_start kernel_end =
     {unat (kernel_start div PAGE_SIZE)..<
      unat ((kernel_start + (kernel_end - kernel_start) + PAGE_SIZE - 1) div PAGE_SIZE)}"

lemma init_inv:
  assumes "init m a ks ke = Some s"
  shows "pmm_inv s"
proof -
  obtain s0 where s0: "init_tags m (a + 8) pmm_reset = Some s0"
    and s: "s = reserve_region ks (ke - ks) (reserve_region 0 0x100000 s0)"
    using assms by (auto simp: init_def)
  have "counted s0 \<and> last_page s0 = 0"
    using init_tags_keeps [OF s0 counted_reset] by (simp add: pmm_reset_def)
  moreover have "0 \<notin> frees s"
    by (simp add: s reserve_region_frees PAGE_SIZE_def unat_div)
  ultimately show ?thesis
    by (simp add: s pmm_inv_alt reserve_region_counted)
qed


section \<open>Properties\<close>

text \<open>
  C13: \<open>alloc_page\<close> is first fit and total: on a state that satisfies the invariant it returns the
  address of the lowest free page, which is not the failure value 0, marks exactly that page used
  and keeps the invariant; when no page is free it returns 0 and changes nothing. So the second,
  wrap-around loop of the code never finds a page that the first one missed.
\<close>

theorem alloc_page_first_fit:
  assumes "pmm_inv s"
  shows "case alloc_page s of (p, s') \<Rightarrow>
           pmm_inv s' \<and>
           (if frees s = {} then p = 0 \<and> s' = s
            else p = page_addr (Min (frees s)) \<and> p \<noteq> 0 \<and>
                 frees s' = frees s - {Min (frees s)})"
proof (cases "frees s = {}")
  case True
  with assms show ?thesis by (simp add: alloc_page_full)
next
  case False
  obtain p s' where t: "take_page (Min (frees s)) s = (p, s')" by (cases "take_page (Min (frees s)) s")
  have "p \<noteq> 0"
    using frames.alloc_nonzero_iff [OF assms, of p s'] False t alloc_page_least [OF assms False]
    by (simp add: pmm_avail_def)
  with take_page_spec [OF assms False t] show ?thesis
    using False t by (simp add: alloc_page_least [OF assms False])
qed

text \<open>
  \<open>free_page\<close> on every branch: an address at or above 128 GiB is outside the bitmap; any other
  address makes the page that contains it free (freeing a free page changes nothing), and, unless
  that page is page 0, keeps the invariant, so the cursor never passes a free page.
\<close>

theorem free_page_branches:
  assumes "pmm_inv s"
  shows "case free_page addr s of
           Inl e \<Rightarrow> TOTAL_PAGES \<le> unat (addr div PAGE_SIZE)
         | Inr s' \<Rightarrow>
             unat (addr div PAGE_SIZE) < TOTAL_PAGES \<and>
             frees s' = insert (unat (addr div PAGE_SIZE)) (frees s) \<and>
             (unat (addr div PAGE_SIZE) \<in> frees s \<longrightarrow> s' = s) \<and>
             (unat (addr div PAGE_SIZE) \<noteq> 0 \<longrightarrow> pmm_inv s')"
proof (cases "unat (addr div PAGE_SIZE) < TOTAL_PAGES")
  case False
  then show ?thesis by (simp add: free_page_def)
next
  case True
  let ?i = "unat (addr div PAGE_SIZE)"
  have same: "free_page addr s = free_page (page_addr ?i) s"
    using True by (simp add: free_page_def)
  show ?thesis
  proof (cases "?i \<in> frees s")
    case mem: True
    then have "free_page addr s = Inr s" using True by (simp add: free_page_def frees_def)
    with True mem assms show ?thesis by (simp add: insert_absorb)
  next
    case new: False
    then have "test_bit s ?i" using True by (simp add: not_test_bit_frees)
    then obtain s' where s': "free_page addr s = Inr s'" "frees s' = insert ?i (frees s)"
      using True by (simp add: free_page_def Let_def frees_clear_bit)
    have "pmm_inv s'" if "?i \<noteq> 0"
      using free_page_addr [OF assms True that] s'(1) same by (metis sum.inject(2))
    with s' new True show ?thesis by simp
  qed
qed

text \<open>
  Successive allocations are disjoint: \<open>n\<close> calls of \<open>alloc_page\<close> on a state with at least \<open>n\<close>
  free pages hand out \<open>n\<close> different addresses, all of them of pages that were free.
\<close>

theorem alloc_page_run_distinct:
  assumes "pmm_inv s" "n \<le> card (frees s)"
  shows "case frames.alloc_run n s of (ps, s') \<Rightarrow>
           length ps = n \<and> distinct ps \<and> set ps \<subseteq> page_addr ` frees s \<and> pmm_inv s'"
proof -
  obtain ps s' where r: "frames.alloc_run n s = (ps, s')" by (cases "frames.alloc_run n s")
  have "card (pmm_avail s) = card (frees s)"
    unfolding pmm_avail_def by (rule card_image) (auto intro: inj_onI simp: frees_less page_addr_inj)
  then have "length ps = n"
    using frames.alloc_run_length [of s n] assms r by (simp add: pmm_avail_def)
  with frames.alloc_run_spec [OF assms(1) r] r show ?thesis by (simp add: pmm_avail_def)
qed

text \<open>
  Giving a page back undoes its allocation: after \<open>alloc_page\<close> returned \<open>p\<close>, \<open>free_page p\<close>
  succeeds and the free pages and the count are those of before.
\<close>

theorem alloc_free_roundtrip:
  assumes "pmm_inv s" "alloc_page s = (p, s1)" "p \<noteq> 0"
  shows "\<exists>s2. free_page p s1 = Inr s2 \<and> frees s2 = frees s \<and>
              free_pages_count s2 = free_pages_count s \<and> pmm_inv s2"
proof -
  have ne: "frees s \<noteq> {}" using assms alloc_page_full by fastforce
  have t: "take_page (Min (frees s)) s = (p, s1)" using assms(2) alloc_page_least [OF assms(1) ne] by simp
  have m: "Min (frees s) \<in> frees s" using ne by (rule Min_in [OF finite_frees])
  note sp = take_page_spec [OF assms(1) ne t]
  have "Min (frees s) \<noteq> 0" using assms(3) sp(1) by (metis frees_less m page_addr_eq_0)
  from free_page_addr [OF sp(3) frees_less [OF m] this] obtain s2 where
    "free_page (page_addr (Min (frees s))) s1 = Inr s2"
    "frees s2 = insert (Min (frees s)) (frees s1)" "pmm_inv s2" .
  moreover have "insert (Min (frees s)) (frees s - {Min (frees s)}) = frees s" using m by blast
  ultimately show ?thesis
    using sp assms(1) by (auto simp: pmm_inv_def counted_def)
qed

text \<open>
  \<open>init\<close> comes back exactly when the chain of multiboot tags ends and has no memory-map tag
  with entries of size 0. It then leaves free exactly the pages the memory map makes available,
  less the first megabyte and the kernel image, and the state satisfies the invariant.
\<close>

theorem init_free_pages:
  "(init m a ks ke \<noteq> None \<longleftrightarrow> (\<exists>F. tag_chain m (a + 8) F)) \<and>
   (tag_chain m (a + 8) F \<longrightarrow>
      (\<exists>s. init m a ks ke = Some s \<and> frees s = F - {0..<256} - kernel_pages ks ke \<and> pmm_inv s))"
proof (intro conjI impI)
  have "init m a ks ke \<noteq> None \<longleftrightarrow> init_tags m (a + 8) pmm_reset \<noteq> None"
    by (simp add: init_def)
  also have "\<dots> \<longleftrightarrow> (\<exists>F. tag_chain m (a + 8) F)"
    using init_tags_chain [of m "a + 8" _ pmm_reset]
      init_tags_returns_chain [of m "a + 8" pmm_reset] by fastforce
  finally show "init m a ks ke \<noteq> None \<longleftrightarrow> (\<exists>F. tag_chain m (a + 8) F)" .
  assume "tag_chain m (a + 8) F"
  from init_tags_chain [OF this, of pmm_reset] obtain s0 where
    s0: "init_tags m (a + 8) pmm_reset = Some s0" "frees s0 = F"
    by (auto simp: frees_reset)
  let ?s = "reserve_region ks (ke - ks) (reserve_region 0 0x100000 s0)"
  have i: "init m a ks ke = Some ?s" using s0(1) by (simp add: init_def)
  moreover have "frees ?s = F - {0..<256} - kernel_pages ks ke"
    by (simp add: reserve_region_frees s0(2) kernel_pages_def PAGE_SIZE_def unat_div)
  ultimately show "\<exists>s. init m a ks ke = Some s \<and> frees s = F - {0..<256} - kernel_pages ks ke \<and> pmm_inv s"
    using init_inv [OF i] by blast
qed

section \<open>Witnesses\<close>

text \<open>A state in which exactly the pages 300 and 303 are free.\<close>

definition pmm_demo :: pmm where
  "pmm_demo = \<lparr>bitmap = (\<lambda>_. 0xFF)(37 := 0x6F), total_pages = 2, free_pages_count = 2, last_page = 0\<rparr>"

lemma frees_demo: "frees pmm_demo = {300, 303}"
proof -
  have eq: "pmm_demo = (clear_bit 303 (clear_bit 300 pmm_reset))\<lparr>total_pages := 2, free_pages_count := 2\<rparr>"
    by (simp add: pmm_demo_def pmm_reset_def clear_bit_def fun_eq_iff)
  show ?thesis
    unfolding eq by (simp add: frees_clear_bit frees_reset TOTAL_PAGES_def insert_commute)
qed

lemma pmm_inv_demo: "pmm_inv pmm_demo"
  by (simp add: pmm_inv_alt counted_def frees_demo) (simp add: pmm_demo_def TOTAL_PAGES_def)

theorem alloc_page_first_fit_witness:
  "pmm_inv pmm_demo \<and> fst (alloc_page pmm_demo) = 0x12C000"
  using alloc_page_first_fit [OF pmm_inv_demo] pmm_inv_demo
  by (auto simp: frees_demo page_addr_def PAGE_SIZE_def split: prod.splits)

theorem free_page_branches_witness:
  "pmm_inv pmm_demo \<and> (\<exists>s'. free_page 0x12D123 pmm_demo = Inr s' \<and> frees s' = {300, 301, 303})"
proof -
  have p: "unat ((0x12D123 :: u64) div PAGE_SIZE) = 301"
    by (simp add: PAGE_SIZE_def unat_div)
  have "free_page 0x12D123 pmm_demo \<noteq> Inl e" for e
    by (simp add: free_page_def p TOTAL_PAGES_def Let_def)
  then obtain s' where s': "free_page 0x12D123 pmm_demo = Inr s'"
    by (metis sum.exhaust)
  with free_page_branches [OF pmm_inv_demo, of "0x12D123"] pmm_inv_demo show ?thesis
    by (auto simp: p frees_demo)
qed

theorem alloc_page_run_distinct_witness:
  "pmm_inv pmm_demo \<and> 2 \<le> card (frees pmm_demo) \<and> length (fst (frames.alloc_run 2 pmm_demo)) = 2"
  using alloc_page_run_distinct [of pmm_demo 2] pmm_inv_demo
  by (auto simp: frees_demo split: prod.splits)

theorem alloc_free_roundtrip_witness:
  "pmm_inv pmm_demo \<and>
   (\<exists>p s1 s2. alloc_page pmm_demo = (p, s1) \<and> p \<noteq> 0 \<and> free_page p s1 = Inr s2 \<and> frees s2 = {300, 303})"
proof -
  obtain p s1 where a: "alloc_page pmm_demo = (p, s1)" by (cases "alloc_page pmm_demo")
  have "p \<noteq> 0" using frames.alloc_nonzero_iff [OF pmm_inv_demo a] by (simp add: pmm_avail_def frees_demo)
  with alloc_free_roundtrip [OF pmm_inv_demo a this] a pmm_inv_demo show ?thesis
    by (auto simp: frees_demo)
qed

text \<open>
  A multiboot information block at 0x9000: eight bytes of header, a memory-map tag with one
  available region of 256 MiB from address 0, and the end tag.
\<close>

definition mbi_demo :: mem where
  "mbi_demo = poke (\<lambda>_. 0) 0x9000
     ([72, 0, 0, 0, 0, 0, 0, 0] @
      [6, 0, 0, 0, 40, 0, 0, 0, 24, 0, 0, 0, 0, 0, 0, 0] @
      [0, 0, 0, 0, 0, 0, 0, 0, 0, 0, 0, 0x10, 0, 0, 0, 0, 1, 0, 0, 0, 0, 0, 0, 0] @
      [0, 0, 0, 0, 8, 0, 0, 0])"

lemma mbi_demo_reads:
  "read32 mbi_demo 0x9008 = 6" "read32 mbi_demo 0x900C = 40" "read32 mbi_demo 0x9010 = 24"
  "read64 mbi_demo 0x9018 = 0" "read64 mbi_demo 0x9020 = 0x10000000" "read32 mbi_demo 0x9028 = 1"
  "read32 mbi_demo 0x9030 = 0"
  by (simp_all add: read32_def load_unroll mbi_demo_def poke_def)

theorem init_free_pages_witness:
  "tag_chain mbi_demo 0x9008 {0..<65536} \<and>
   (\<exists>s. init mbi_demo 0x9000 0x100000 0x400000 = Some s \<and> frees s = {1024..<65536} \<and> pmm_inv s)"
proof -
  have nt: "next_tag mbi_demo 0x9008 = 0x9030"
    by (simp add: next_tag_def mbi_demo_reads)
  have end_tag: "tag_chain mbi_demo 0x9030 {}"
    by (rule last_tag) (simp add: mbi_demo_reads TAG_END_def)
  have "entry_pages mbi_demo 0x9018 = {0..<65536}"
    by (auto simp: entry_pages_def mbi_demo_reads MEMORY_AVAILABLE_def PAGE_SIZE_def TOTAL_PAGES_def)
  then have pages: "entries_pages mbi_demo 24 1 0x9018 = {0..<65536}"
    by (simp add: One_nat_def)
  have c: "tag_chain mbi_demo 0x9008 {0..<65536}"
    using mmap_tag [of mbi_demo "0x9008" "{}"] end_tag pages
    by (simp add: nt mbi_demo_reads TAG_MMAP_def)
  have k: "kernel_pages 0x100000 0x400000 = {256..<1024}"
    by (simp add: kernel_pages_def PAGE_SIZE_def)
  have "{0..<65536} - {0..<256} - {256..<1024} = {1024..<65536::nat}" by auto
  with c k init_free_pages [of mbi_demo "0x9000" "0x100000" "0x400000" "{0..<65536}"] show ?thesis
    by simp
qed

end
