(* ===== verification/Kheap.thy ===== *)
theory Kheap
  imports LTOS_Prelude
begin

unbundle bit_operations_syntax

text \<open>
  The kernel heap, \<open>src/mm/heap.cpp\<close>: a free-list allocator with boundary tags over the 16 MiB at
  16 MiB. Its blocks live in the byte memory, at the offsets the C++ structure has: \<open>size\<close> at 0,
  the byte of \<open>free\<close> at 8, \<open>next\<close> at 16, padding up to 32 (the structure is aligned to 16), then the
  payload, whose last eight bytes are the block's footer. The loops of the code walk pointers in
  that memory, so they are partial functions: \<open>None\<close> is a walk that does not end.
\<close>

section \<open>Blocks in memory\<close>

definition HEAP_START :: u64 where "HEAP_START = 0x1000000"
definition HEAP_SIZE :: u64 where "HEAP_SIZE = 0x1000000"
definition SIZEOF_BLOCK :: u64 where "SIZEOF_BLOCK = 32"

definition blk_size :: "mem \<Rightarrow> u64 \<Rightarrow> u64" where
  "blk_size m b = read64 m b"

definition blk_free :: "mem \<Rightarrow> u64 \<Rightarrow> bool" where
  "blk_free m b \<longleftrightarrow> m (b + 8) \<noteq> 0"

definition blk_next :: "mem \<Rightarrow> u64 \<Rightarrow> u64" where
  "blk_next m b = read64 m (b + 16)"

definition set_size :: "mem \<Rightarrow> u64 \<Rightarrow> u64 \<Rightarrow> mem" where
  "set_size m b v = write64 m b v"

definition set_free :: "mem \<Rightarrow> u64 \<Rightarrow> bool \<Rightarrow> mem" where
  "set_free m b f = m(b + 8 := (if f then 1 else 0))"

definition set_next :: "mem \<Rightarrow> u64 \<Rightarrow> u64 \<Rightarrow> mem" where
  "set_next m b v = write64 m (b + 16) v"

definition footer :: "mem \<Rightarrow> u64 \<Rightarrow> u64" where
  "footer m b = b + SIZEOF_BLOCK + blk_size m b - 8"

definition set_footer :: "mem \<Rightarrow> u64 \<Rightarrow> mem" where
  "set_footer m b = write64 m (footer m b) (blk_size m b)"

definition prev_block :: "mem \<Rightarrow> u64 \<Rightarrow> u64" where
  "prev_block m b = (if b \<le> HEAP_START then 0 else b - SIZEOF_BLOCK - read64 m (b - 8))"

definition next_block :: "mem \<Rightarrow> u64 \<Rightarrow> u64" where
  "next_block m b =
     (let e = b + SIZEOF_BLOCK + blk_size m b
      in if HEAP_START + HEAP_SIZE \<le> e then 0 else e)"

definition align_heap :: "u64 \<Rightarrow> u64" where
  "align_heap sz = (sz + 15) AND NOT 15"

section \<open>Operations\<close>

record kheap =
  hmem :: mem
  heap_head :: u64
  alloc_cursor :: u64
  heap_initialized :: bool

definition heap_init :: "kheap \<Rightarrow> kheap" where
  "heap_init h =
     (if heap_initialized h then h
      else
        let b = HEAP_START;
            m1 = set_size (hmem h) b (HEAP_SIZE - SIZEOF_BLOCK);
            m2 = set_free m1 b True;
            m3 = set_next m2 b 0;
            m4 = set_footer m3 b
        in h\<lparr>hmem := m4, heap_head := b, alloc_cursor := b, heap_initialized := True\<rparr>)"

text \<open>The body of the \<open>if\<close> of \<open>kmalloc\<close>: split the block when the rest can hold a block, take it.\<close>

definition split_block :: "mem \<Rightarrow> u64 \<Rightarrow> u64 \<Rightarrow> mem" where
  "split_block m cur sz =
     (let new_block = cur + SIZEOF_BLOCK + sz;
          m1 = set_size m new_block (blk_size m cur - sz - SIZEOF_BLOCK);
          m2 = set_free m1 new_block True;
          m3 = set_next m2 new_block (blk_next m2 cur);
          m4 = set_footer m3 new_block;
          m5 = set_next m4 cur new_block;
          m6 = set_size m5 cur sz
      in set_footer m6 cur)"

definition place :: "kheap \<Rightarrow> u64 \<Rightarrow> u64 \<Rightarrow> kheap" where
  "place h cur sz =
     (let m1 = (if blk_size (hmem h) cur \<ge> sz + SIZEOF_BLOCK + 16
                then split_block (hmem h) cur sz else hmem h)
      in h\<lparr>hmem := set_free m1 cur False, alloc_cursor := cur\<rparr>)"

partial_function (option) kmalloc_loop :: "kheap \<Rightarrow> u64 \<Rightarrow> u64 \<Rightarrow> u64 \<Rightarrow> (u64 \<times> kheap) option" where
  "kmalloc_loop h sz start cur =
     (if blk_free (hmem h) cur \<and> sz \<le> blk_size (hmem h) cur
      then Some (cur + SIZEOF_BLOCK, place h cur sz)
      else
        let nx = blk_next (hmem h) cur;
            cur' = (if nx = 0 then heap_head h else nx)
        in if cur' \<noteq> start then kmalloc_loop h sz start cur' else Some (0, h))"

definition kmalloc :: "kheap \<Rightarrow> u64 \<Rightarrow> (u64 \<times> kheap) option" where
  "kmalloc h n =
     (let sz = align_heap n;
          cur = (if alloc_cursor h \<noteq> 0 then alloc_cursor h else heap_head h)
      in kmalloc_loop h sz cur cur)"

text \<open>The two walks of \<open>kfree\<close>: the first has no effect but must end, the second looks for the
  block whose successor is \<open>block\<close>.\<close>

partial_function (option) idle_walk :: "mem \<Rightarrow> u64 \<Rightarrow> u64 \<Rightarrow> unit option" where
  "idle_walk m block tmp =
     (if tmp = 0 then Some ()
      else if tmp = block then Some ()
      else idle_walk m block (blk_next m tmp))"

partial_function (option) pred_walk :: "mem \<Rightarrow> u64 \<Rightarrow> u64 \<Rightarrow> u64 \<Rightarrow> u64 option" where
  "pred_walk m block prev tmp =
     (if tmp = 0 then Some prev
      else if blk_next m tmp = block then Some tmp
      else pred_walk m block prev (blk_next m tmp))"

definition absorb :: "mem \<Rightarrow> u64 \<Rightarrow> u64 \<Rightarrow> mem" where
  "absorb m b c =
     (let m1 = set_size m b (blk_size m b + (SIZEOF_BLOCK + blk_size m c));
          m2 = set_next m1 b (blk_next m1 c)
      in set_footer m2 b)"

definition merge_next :: "kheap \<Rightarrow> u64 \<Rightarrow> kheap option" where
  "merge_next h block =
     (let m = hmem h; nx = next_block m block
      in if nx \<noteq> 0 \<and> blk_free m nx \<and> nx < HEAP_START + HEAP_SIZE then
           Option.bind
             (if blk_next m nx \<noteq> 0 then idle_walk m block (blk_next m nx) else Some ())
             (\<lambda>_. Some (h\<lparr>hmem := absorb m block nx,
                          alloc_cursor := (if alloc_cursor h = nx then block else alloc_cursor h)\<rparr>))
         else Some h)"

definition merge_prev :: "kheap \<Rightarrow> u64 \<Rightarrow> kheap option" where
  "merge_prev h block =
     (let m = hmem h; prev = prev_block m block
      in if prev \<noteq> 0 \<and> blk_free m prev \<and> prev \<noteq> block then
           Option.bind
             (if blk_next m prev \<noteq> block then pred_walk m block prev (heap_head h) else Some prev)
             (\<lambda>p. Some
                (if blk_free m p \<and> blk_next m p = block
                 then h\<lparr>hmem := absorb m p block,
                        alloc_cursor := (if alloc_cursor h = block then p else alloc_cursor h)\<rparr>
                 else h))
         else Some h)"

definition kfree :: "kheap \<Rightarrow> u64 \<Rightarrow> kheap option" where
  "kfree h ptr =
     (if ptr = 0 then Some h
      else if ptr < HEAP_START + SIZEOF_BLOCK \<or> HEAP_START + HEAP_SIZE \<le> ptr then Some h
      else
        let block = ptr - SIZEOF_BLOCK
        in if blk_free (hmem h) block then Some h
           else
             let h1 = h\<lparr>hmem := set_free (hmem h) block True\<rparr>;
                 h2 = (if alloc_cursor h1 \<noteq> 0 \<and> block < alloc_cursor h1
                       then h1\<lparr>alloc_cursor := block\<rparr> else h1)
             in Option.bind (merge_next h2 block) (\<lambda>h3. merge_prev h3 block))"

section \<open>Specification\<close>

text \<open>
  The heap as a list of blocks, each a payload size and whether it is free, laid out one after
  the other. \<open>seg m a bs e nx\<close> says that the blocks \<open>bs\<close> fill the addresses \<open>[a, e)\<close>, with their
  headers and footers, and that the last one's \<open>next\<close> pointer is \<open>nx\<close>.
\<close>

type_synonym blocks = "(nat \<times> bool) list"

definition block_at :: "mem \<Rightarrow> nat \<Rightarrow> nat \<Rightarrow> bool \<Rightarrow> u64 \<Rightarrow> bool" where
  "block_at m a sz fr nx \<longleftrightarrow>
     blk_size m (adr a) = adr sz \<and> blk_free m (adr a) = fr \<and>
     blk_next m (adr a) = nx \<and> read64 m (adr (a + 24 + sz)) = adr sz"

abbreviation HEAP_END :: nat where
  "HEAP_END \<equiv> 0x2000000"

abbreviation HEAP_BASE :: nat where
  "HEAP_BASE \<equiv> 0x1000000"

fun seg :: "mem \<Rightarrow> nat \<Rightarrow> blocks \<Rightarrow> nat \<Rightarrow> u64 \<Rightarrow> bool" where
  "seg m a [] e nx \<longleftrightarrow> a = e"
| "seg m a ((sz, fr) # bs) e nx \<longleftrightarrow>
     a mod 16 = 0 \<and> sz mod 16 = 0 \<and> a + 32 + sz \<le> e \<and>
     block_at m a sz fr (if bs = [] then nx else adr (a + 32 + sz)) \<and>
     seg m (a + 32 + sz) bs e nx"

fun extent :: "blocks \<Rightarrow> nat" where
  "extent [] = 0"
| "extent ((sz, fr) # bs) = 32 + sz + extent bs"

text \<open>No free block follows a free block.\<close>

fun coalesced :: "blocks \<Rightarrow> bool" where
  "coalesced ((s1, f1) # (s2, f2) # bs) \<longleftrightarrow> \<not> (f1 \<and> f2) \<and> coalesced ((s2, f2) # bs)"
| "coalesced _ = True"

definition block_addr :: "blocks \<Rightarrow> nat" where
  "block_addr xs = HEAP_BASE + extent xs"

definition heap_inv :: "kheap \<Rightarrow> blocks \<Rightarrow> bool" where
  "heap_inv h bs \<longleftrightarrow>
     heap_head h = HEAP_START \<and> seg (hmem h) HEAP_BASE bs HEAP_END 0 \<and> coalesced bs \<and>
     0 < fst (last bs) \<and>
     (\<exists>xs y ys. bs = xs @ y # ys \<and> alloc_cursor h = adr (block_addr xs))"

text \<open>What taking and giving back a block do to the list of blocks.\<close>

definition take_block :: "blocks \<Rightarrow> nat \<Rightarrow> nat \<Rightarrow> blocks \<Rightarrow> blocks" where
  "take_block xs sz n ys =
     (if sz \<ge> n + 48 then xs @ (n, False) # (sz - n - 32, True) # ys
      else xs @ (sz, False) # ys)"

fun join_right :: "nat \<Rightarrow> blocks \<Rightarrow> blocks" where
  "join_right sz ((sz', True) # ys) = (sz + 32 + sz', True) # ys"
| "join_right sz ys = (sz, True) # ys"

definition give_block :: "blocks \<Rightarrow> nat \<Rightarrow> blocks \<Rightarrow> blocks" where
  "give_block xs sz ys =
     (case join_right sz ys of
        (sz1, _) # zs \<Rightarrow>
          if xs \<noteq> [] \<and> snd (last xs)
          then butlast xs @ (fst (last xs) + 32 + sz1, True) # zs
          else xs @ (sz1, True) # zs
      | [] \<Rightarrow> [])"

section \<open>Blocks under memory updates\<close>

definition same_outside :: "nat \<Rightarrow> nat \<Rightarrow> mem \<Rightarrow> mem \<Rightarrow> bool" where
  "same_outside a e m m' \<longleftrightarrow> (\<forall>y<2 ^ 64. y < a \<or> e \<le> y \<longrightarrow> m' (adr y) = m (adr y))"

lemma same_outsideD:
  "same_outside a e m m' \<Longrightarrow> y < 2 ^ 64 \<Longrightarrow> y < a \<or> e \<le> y \<Longrightarrow> m' (adr y) = m (adr y)"
  by (auto simp: same_outside_def)

lemma same_outside_refl [simp]: "same_outside a e m m"
  by (simp add: same_outside_def)

lemma same_outside_trans:
  "same_outside a e m m' \<Longrightarrow> same_outside a e m' m'' \<Longrightarrow> same_outside a e m m''"
  by (simp add: same_outside_def)

lemma same_outside_write:
  "a \<le> x \<Longrightarrow> x + 8 \<le> e \<Longrightarrow> e \<le> 2 ^ 64 \<Longrightarrow> same_outside a e m m' \<Longrightarrow>
   same_outside a e m (write64 m' (adr x) v)"
  by (auto simp: same_outside_def store_adr_other)

lemma same_outside_upd:
  "a \<le> x \<Longrightarrow> x < e \<Longrightarrow> e \<le> 2 ^ 64 \<Longrightarrow> same_outside a e m m' \<Longrightarrow>
   same_outside a e m (m'(adr x := v))"
  by (auto simp: same_outside_def adr_inject)

lemma load_same_outside:
  assumes "same_outside a e m m'" "x + n \<le> 2 ^ 64" "x + n \<le> a \<or> e \<le> x"
  shows "load n m' (adr x) = load n m (adr x)"
  by (rule load_adr_cong) (use assms in \<open>auto intro!: same_outsideD\<close>)

lemmas heap_defs = blk_size_def blk_free_def blk_next_def set_size_def set_free_def set_next_def
  set_footer_def footer_def SIZEOF_BLOCK_def

lemma block_at_cong:
  assumes "\<And>y. a \<le> y \<Longrightarrow> y < a + 32 + sz \<Longrightarrow> m' (adr y) = m (adr y)"
  shows "block_at m' a sz fr nx = block_at m a sz fr nx"
proof -
  have "read64 m' (adr a) = read64 m (adr a)"
    "read64 m' (adr (a + 16)) = read64 m (adr (a + 16))"
    "read64 m' (adr (a + 24 + sz)) = read64 m (adr (a + 24 + sz))"
    by (rule load_adr_cong; rule assms; simp)+
  moreover have "m' (adr (a + 8)) = m (adr (a + 8))" by (rule assms) simp_all
  ultimately show ?thesis by (simp add: block_at_def heap_defs)
qed

lemma seg_bounds: "seg m a bs e nx \<Longrightarrow> a + extent bs = e"
  by (induction m a bs e nx rule: seg.induct) auto

lemma seg_cong:
  "(\<And>y. a \<le> y \<Longrightarrow> y < e \<Longrightarrow> m' (adr y) = m (adr y)) \<Longrightarrow> seg m a bs e nx \<Longrightarrow> seg m' a bs e nx"
proof (induction m a bs e nx rule: seg.induct)
  case (2 m a sz fr bs e nx)
  have "block_at m' a sz fr (if bs = [] then nx else adr (a + 32 + sz))
     = block_at m a sz fr (if bs = [] then nx else adr (a + 32 + sz))"
    using 2 by (intro block_at_cong) simp
  with 2 show ?case by simp
qed simp

lemma seg_same_outside:
  "same_outside b f m m' \<Longrightarrow> e \<le> b \<or> f \<le> a \<Longrightarrow> e \<le> 2 ^ 64 \<Longrightarrow> seg m a bs e nx \<Longrightarrow> seg m' a bs e nx"
  by (rule seg_cong [of a e m' m]) (auto intro!: same_outsideD)

lemma seg_append:
  "seg m a (xs @ y # ys) e nx \<longleftrightarrow>
   (\<exists>mid. seg m a xs mid (adr mid) \<and> seg m mid (y # ys) e nx)"
proof (induction xs arbitrary: a)
  case Nil
  then show ?case by simp
next
  case (Cons x xs)
  obtain sz fr where x: "x = (sz, fr)" by (cases x)
  show ?case
  proof
    assume s: "seg m a ((x # xs) @ y # ys) e nx"
    then obtain mid where mid: "seg m (a + 32 + sz) xs mid (adr mid)" "seg m mid (y # ys) e nx"
      using Cons.IH x by auto
    with s x seg_bounds [OF mid(1)] have "seg m a (x # xs) mid (adr mid)" by auto
    with mid(2) show "\<exists>mid. seg m a (x # xs) mid (adr mid) \<and> seg m mid (y # ys) e nx" by blast
  next
    assume "\<exists>mid. seg m a (x # xs) mid (adr mid) \<and> seg m mid (y # ys) e nx"
    then obtain mid where mid: "seg m a (x # xs) mid (adr mid)" "seg m mid (y # ys) e nx" by blast
    then have "mid \<le> e" using seg_bounds [OF mid(2)] by simp
    moreover have "seg m (a + 32 + sz) (xs @ y # ys) e nx"
      using mid x Cons.IH [of "a + 32 + sz"] by auto
    ultimately show "seg m a ((x # xs) @ y # ys) e nx"
      using mid x by (cases xs) auto
  qed
qed

text \<open>Reads after the four kinds of write, for blocks whose address is a multiple of 16.\<close>

lemmas word_rules = read64_write64_adr [unfolded mod_eq_0_iff_dvd]
  read64_upd_adr [unfolded mod_eq_0_iff_dvd] write64_byte_adr [unfolded mod_eq_0_iff_dvd] adr_inject

lemma layout_mods:
  assumes "(a::nat) mod 16 = 0" "sz mod 16 = 0"
  shows "(a + 32 + sz) mod 16 = 0" "(32 + sz) mod 16 = 0"
proof -
  have "16 dvd a" "16 dvd sz" using assms by (simp_all only: mod_eq_0_iff_dvd)
  then have "16 dvd a + 32 + sz" "16 dvd 32 + sz" by (simp_all add: dvd_add)
  then show "(a + 32 + sz) mod 16 = 0" "(32 + sz) mod 16 = 0" by (simp_all only: mod_eq_0_iff_dvd)
qed

lemma layout_dvds:
  assumes "(a::nat) mod 16 = 0" "sz mod 16 = 0"
  shows "8 dvd a" "8 dvd a + 8" "8 dvd a + 16" "8 dvd a + 24 + sz"
proof -
  have "16 dvd a" "16 dvd sz" using assms by (simp_all only: mod_eq_0_iff_dvd)
  then have d: "8 dvd a" "8 dvd sz" by (auto intro: dvd_trans [of 8 16])
  then show "8 dvd a" "8 dvd a + 8" "8 dvd a + 16" "8 dvd a + 24 + sz"
    by (simp_all add: dvd_add)
qed

lemma footer_adr: "read64 m (adr a) = adr n \<Longrightarrow> footer m (adr a) = adr (a + 24 + n)"
  by (simp add: footer_def blk_size_def SIZEOF_BLOCK_def adr_add adr_diff_numeral ac_simps)

lemma block_at_set_free:
  assumes "a mod 16 = 0" "sz mod 16 = 0" "a + 32 + sz \<le> HEAP_END" "block_at m a sz fr nx"
  shows "block_at (set_free m (adr a) f) a sz f nx"
    and "same_outside a (a + 32 + sz) m (set_free m (adr a) f)"
proof -
  note m8 = layout_dvds [OF assms(1,2)]
  show "block_at (set_free m (adr a) f) a sz f nx"
    using assms(3,4) m8 by (simp add: block_at_def heap_defs word_rules)
  show "same_outside a (a + 32 + sz) m (set_free m (adr a) f)"
    unfolding set_free_def using assms(3) by (auto intro!: same_outside_upd)
qed

lemma block_at_absorb:
  assumes "a mod 16 = 0" "s1 mod 16 = 0" "s2 mod 16 = 0" "c = a + 32 + s1" "c + 32 + s2 \<le> HEAP_END"
    and b1: "block_at m a s1 f1 nx1" and b2: "block_at m c s2 f2 nx2"
  shows "block_at (absorb m (adr a) (adr c)) a (s1 + 32 + s2) f1 nx2"
    and "same_outside a (c + 32 + s2) m (absorb m (adr a) (adr c))"
proof -
  have c16: "c mod 16 = 0" unfolding assms(4) by (rule layout_mods(1) [OF assms(1,2)])
  have "(s1 + 32 + s2) mod 16 = 0" by (rule layout_mods(1) [OF assms(2,3)])
  note m8 = layout_dvds [OF assms(1) this] layout_dvds [OF c16 assms(3)]
  let ?n = "s1 + 32 + s2"
  let ?m1 = "write64 m (adr a) (adr ?n)"
  let ?m2 = "write64 ?m1 (adr (a + 16)) nx2"
  have sz: "blk_size m (adr a) + (SIZEOF_BLOCK + blk_size m (adr c)) = adr ?n"
    using b1 b2 by (simp add: block_at_def SIZEOF_BLOCK_def adr_def)
  have r: "read64 ?m1 (adr (c + 16)) = nx2"
    using b2 assms(4,5) m8 by (simp add: block_at_def heap_defs word_rules)
  have s2: "read64 ?m2 (adr a) = adr ?n"
    using assms(4,5) m8 by (simp add: word_rules)
  note f = footer_adr [OF s2]
  have ab: "absorb m (adr a) (adr c) = write64 ?m2 (adr (a + 24 + ?n)) (adr ?n)"
    by (simp only: absorb_def Let_def sz [unfolded blk_size_def] set_size_def set_next_def
        blk_next_def adr_add_numeral r set_footer_def f blk_size_def s2)
  show "block_at (absorb m (adr a) (adr c)) a ?n f1 nx2"
    unfolding ab using b1 assms(4,5) m8
    by (simp add: block_at_def heap_defs word_rules)
  show "same_outside a (c + 32 + s2) m (absorb m (adr a) (adr c))"
    unfolding ab using assms(4,5) by (auto intro!: same_outside_write)
qed

lemma block_at_split:
  assumes al: "a mod 16 = 0" "sz mod 16 = 0" "n mod 16 = 0" and fit: "n + 48 \<le> sz"
    and bound: "a + 32 + sz \<le> HEAP_END" and b: "block_at m a sz fr nx"
  shows "block_at (split_block m (adr a) (adr n)) a n fr (adr (a + 32 + n))"
    and "block_at (split_block m (adr a) (adr n)) (a + 32 + n) (sz - n - 32) True nx"
    and "same_outside a (a + 32 + sz) m (split_block m (adr a) (adr n))"
proof -
  let ?c = "a + 32 + n"
  let ?r = "sz - n - 32"
  have r16: "?r mod 16 = 0" using al fit by (auto simp: dvd_diff_nat)
  note m8 = layout_dvds [OF al(1,3)] layout_dvds [OF layout_mods(1) [OF al(1,3)] r16]
  let ?m1 = "write64 m (adr ?c) (adr ?r)"
  let ?m2 = "?m1(adr (?c + 8) := 1)"
  let ?m3 = "write64 ?m2 (adr (?c + 16)) nx"
  let ?m4 = "write64 ?m3 (adr (?c + 24 + ?r)) (adr ?r)"
  let ?m5 = "write64 ?m4 (adr (a + 16)) (adr ?c)"
  let ?m6 = "write64 ?m5 (adr a) (adr n)"
  let ?m7 = "write64 ?m6 (adr (a + 24 + n)) (adr n)"
  have c: "adr a + SIZEOF_BLOCK + adr n = adr ?c"
    by (simp add: SIZEOF_BLOCK_def adr_add)
  have s: "blk_size m (adr a) - adr n - SIZEOF_BLOCK = adr ?r"
    using b fit by (simp add: block_at_def SIZEOF_BLOCK_def adr_diff adr_diff_numeral)
  have nx: "read64 ?m2 (adr (a + 16)) = nx"
    using b bound fit m8 by (simp add: block_at_def heap_defs word_rules)
  have f3: "read64 ?m3 (adr ?c) = adr ?r"
    using bound fit m8 by (simp add: word_rules)
  have f6: "read64 ?m6 (adr a) = adr n"
    using bound fit m8 by (simp add: word_rules)
  note foot3 = footer_adr [OF f3] and foot6 = footer_adr [OF f6]
  have sp: "split_block m (adr a) (adr n) = ?m7"
    by (simp only: split_block_def Let_def c s [unfolded blk_size_def] set_size_def set_free_def set_next_def blk_next_def
        adr_add_numeral nx set_footer_def foot3 foot6 blk_size_def f3 f6 if_True)
  show "block_at (split_block m (adr a) (adr n)) a n fr (adr ?c)"
    unfolding sp using b bound fit m8 by (simp add: block_at_def heap_defs word_rules)
  show "block_at (split_block m (adr a) (adr n)) ?c ?r True nx"
    unfolding sp using b bound fit m8 by (simp add: block_at_def heap_defs word_rules)
  show "same_outside a (a + 32 + sz) m (split_block m (adr a) (adr n))"
    unfolding sp using bound fit by (auto intro!: same_outside_write same_outside_upd)
qed

section \<open>Lists of blocks\<close>

lemma extent_append [simp]: "extent (xs @ ys) = extent xs + extent ys"
  by (induction xs rule: extent.induct) auto

lemma coalesced_Cons:
  "coalesced ((s, f) # bs) \<longleftrightarrow> (bs \<noteq> [] \<longrightarrow> \<not> (f \<and> snd (hd bs))) \<and> coalesced bs"
  by (cases bs) auto

lemma coalesced_append:
  "coalesced (xs @ ys) \<longleftrightarrow>
   coalesced xs \<and> coalesced ys \<and> (xs \<noteq> [] \<longrightarrow> ys \<noteq> [] \<longrightarrow> \<not> (snd (last xs) \<and> snd (hd ys)))"
proof (induction xs)
  case (Cons x xs)
  then show ?case by (cases x; cases xs) (auto simp: coalesced_Cons)
qed simp

lemma coalesced_take:
  assumes "coalesced (xs @ (sz, True) # ys)"
  shows "coalesced (take_block xs sz n ys)"
  using assms by (auto simp: take_block_def coalesced_append coalesced_Cons)

lemma seg_append2:
  "seg m a (zs @ ys) e nx \<longleftrightarrow>
   (\<exists>mid. seg m a zs mid (if ys = [] then nx else adr mid) \<and> seg m mid ys e nx)"
proof (cases ys)
  case Nil
  then show ?thesis using seg_bounds by auto
next
  case (Cons y ys')
  then show ?thesis by (simp add: seg_append)
qed

lemma seg_block:
  assumes "seg m HEAP_BASE (xs @ (sz, fr) # ys) HEAP_END 0"
  shows "seg m HEAP_BASE xs (block_addr xs) (adr (block_addr xs))"
    and "block_addr xs mod 16 = 0" "sz mod 16 = 0" "block_addr xs + 32 + sz \<le> HEAP_END"
    and "block_at m (block_addr xs) sz fr (if ys = [] then 0 else adr (block_addr xs + 32 + sz))"
    and "seg m (block_addr xs + 32 + sz) ys HEAP_END 0"
proof -
  obtain mid where mid: "seg m HEAP_BASE xs mid (adr mid)" "seg m mid ((sz, fr) # ys) HEAP_END 0"
    using assms by (auto simp: seg_append)
  have "mid = block_addr xs" using seg_bounds [OF mid(1)] by (simp add: block_addr_def)
  with mid show "seg m HEAP_BASE xs (block_addr xs) (adr (block_addr xs))"
    and "block_addr xs mod 16 = 0" "sz mod 16 = 0" "block_addr xs + 32 + sz \<le> HEAP_END"
    and "block_at m (block_addr xs) sz fr (if ys = [] then 0 else adr (block_addr xs + 32 + sz))"
    and "seg m (block_addr xs + 32 + sz) ys HEAP_END 0" by auto
qed

text \<open>Replacing the blocks of one range, when nothing outside of it changed.\<close>

lemma seg_replace:
  assumes "seg m HEAP_BASE xs a (adr a)" "seg m e ys HEAP_END 0" "a \<le> e" "e \<le> HEAP_END"
    and "same_outside a e m m'" "zs \<noteq> []" "seg m' a zs e (if ys = [] then 0 else adr e)"
  shows "seg m' HEAP_BASE (xs @ zs @ ys) HEAP_END 0"
proof -
  have "seg m' HEAP_BASE xs a (adr a)"
    using assms by (intro seg_same_outside [OF assms(5) _ _ assms(1)]) simp_all
  moreover have "seg m' e ys HEAP_END 0"
    using assms by (intro seg_same_outside [OF assms(5) _ _ assms(2)]) simp_all
  then have "seg m' a (zs @ ys) HEAP_END 0"
    unfolding seg_append2 using assms(7) by blast
  ultimately show ?thesis
    unfolding seg_append2 [of _ _ xs] using assms(6) by auto
qed

lemma same_outside_mono:
  "same_outside a e m m' \<Longrightarrow> b \<le> a \<Longrightarrow> e \<le> f \<Longrightarrow> same_outside b f m m'"
  by (auto simp: same_outside_def)

section \<open>Allocation\<close>

lemma unat_align_heap: "unat (align_heap n) = unat (n + 15) - unat (n + 15) mod 16"
  by (simp only: align_heap_def unat_round_down)

lemma unat_align_heap_mod: "unat (align_heap n) mod 16 = 0"
  unfolding unat_align_heap by (simp add: minus_mod_eq_mult_div)

lemma align_heap_multiple:
  assumes "n mod 16 = 0" "n + 48 \<le> 0xFFFFE0"
  shows "align_heap (adr n) = adr n"
proof -
  have "unat (adr n + 15) = n + 15" using assms(2) by (simp add: unat_adr)
  then have "unat (align_heap (adr n)) = n + 15 - (n + 15) mod 16" by (simp only: unat_align_heap)
  also have "\<dots> = n"
  proof -
    obtain q where "n = 16 * q" using assms(1) by (metis dvd_def mod_0_imp_dvd)
    then show ?thesis by simp
  qed
  finally show ?thesis using adr_unat [of "align_heap (adr n)"] by simp
qed

lemma place_spec:
  assumes s: "seg (hmem h) HEAP_BASE (xs @ (sz, True) # ys) HEAP_END 0"
    and n: "n mod 16 = 0" "n \<le> sz"
  defines "h' \<equiv> place h (adr (block_addr xs)) (adr n)"
  shows "seg (hmem h') HEAP_BASE (take_block xs sz n ys) HEAP_END 0"
    and "alloc_cursor h' = adr (block_addr xs)" "heap_head h' = heap_head h"
proof -
  let ?a = "block_addr xs"
  let ?m = "hmem h"
  let ?e = "?a + 32 + sz"
  let ?nx = "if ys = [] then 0 else adr ?e"
  note b = seg_block [OF s]
  have le: "?a + 32 + sz \<le> HEAP_END" by (rule b(4))
  have cmp: "blk_size ?m (adr ?a) \<ge> adr n + SIZEOF_BLOCK + 16 \<longleftrightarrow> sz \<ge> n + 48"
  proof -
    have "adr n + SIZEOF_BLOCK + 16 = adr (n + 48)" by (simp add: SIZEOF_BLOCK_def adr_def)
    then show ?thesis using b(5) le n by (simp add: block_at_def adr_le_iff)
  qed
  show "seg (hmem h') HEAP_BASE (take_block xs sz n ys) HEAP_END 0"
  proof (cases "sz \<ge> n + 48")
    case True
    let ?m1 = "split_block ?m (adr ?a) (adr n)"
    let ?m2 = "set_free ?m1 (adr ?a) False"
    note sp = block_at_split [OF b(2,3) n(1) True le b(5)]
    have na: "?a + 32 + n \<le> HEAP_END" using le True by simp
    note fr = block_at_set_free [OF b(2) n(1) na sp(1), of False]
    have rest: "block_at ?m2 (?a + 32 + n) (sz - n - 32) True ?nx"
    proof (subst block_at_cong)
      fix y assume "?a + 32 + n \<le> y" "y < ?a + 32 + n + 32 + (sz - n - 32)"
      then show "?m2 (adr y) = ?m1 (adr y)"
        using fr(2) le True by (intro same_outsideD) auto
    qed (rule sp(2))
    have "same_outside ?a ?e ?m ?m2"
      using sp(3) same_outside_mono [OF fr(2), of ?a ?e] True
      by (auto intro: same_outside_trans)
    moreover have "(sz - n - 32) mod 16 = 0" "(?a + 32 + n) mod 16 = 0"
      using b(2,3) n True by (auto simp: mod_0_imp_dvd dvd_diff_nat)
    then have "seg ?m2 ?a [(n, False), (sz - n - 32, True)] ?e ?nx"
      using b(2) n True fr(1) rest by (simp add: add.assoc)
    ultimately have "seg ?m2 HEAP_BASE (xs @ [(n, False), (sz - n - 32, True)] @ ys) HEAP_END 0"
      using b(1,6) le by (intro seg_replace) auto
    then show ?thesis
      using True cmp by (simp add: h'_def place_def take_block_def Let_def)
  next
    case False
    note fr = block_at_set_free [OF b(2,3) le b(5), of False]
    have "seg (set_free ?m (adr ?a) False) HEAP_BASE (xs @ [(sz, False)] @ ys) HEAP_END 0"
      using b fr le by (intro seg_replace) auto
    then show ?thesis
      using False cmp by (simp add: h'_def place_def take_block_def Let_def)
  qed
qed (simp_all add: h'_def place_def Let_def)

text \<open>The address of the \<open>i\<close>th block and what the code reads there.\<close>

definition nth_addr :: "blocks \<Rightarrow> nat \<Rightarrow> u64" where
  "nth_addr bs i = adr (block_addr (take i bs))"

lemma block_addr_Suc:
  "i < length bs \<Longrightarrow> block_addr (take (Suc i) bs) = block_addr (take i bs) + 32 + fst (bs ! i)"
  by (cases "bs ! i") (simp add: block_addr_def take_Suc_conv_app_nth)

lemma block_addr_mono: "i < j \<Longrightarrow> j \<le> length bs \<Longrightarrow> block_addr (take i bs) < block_addr (take j bs)"
proof (induction j)
  case (Suc j)
  have "block_addr (take j bs) < block_addr (take (Suc j) bs)"
    using Suc.prems by (subst block_addr_Suc) auto
  with Suc show ?case by (cases "i = j") auto
qed simp

lemma seg_nth:
  assumes "seg m HEAP_BASE bs HEAP_END 0" "i < length bs"
  shows "blk_free m (nth_addr bs i) = snd (bs ! i)"
    and "blk_size m (nth_addr bs i) = adr (fst (bs ! i))"
    and "blk_next m (nth_addr bs i) = (if Suc i = length bs then 0 else nth_addr bs (Suc i))"
    and "block_addr (take i bs) + 32 + fst (bs ! i) \<le> HEAP_END"
proof -
  obtain sz fr where b: "bs ! i = (sz, fr)" by (cases "bs ! i")
  have "seg m HEAP_BASE (take i bs @ (sz, fr) # drop (Suc i) bs) HEAP_END 0"
    using assms b id_take_nth_drop [OF assms(2)] by simp
  note s = seg_block [OF this]
  have "drop (Suc i) bs = [] \<longleftrightarrow> Suc i = length bs" using assms(2) by auto
  with s(5) b assms(2) show "blk_free m (nth_addr bs i) = snd (bs ! i)"
    and "blk_size m (nth_addr bs i) = adr (fst (bs ! i))"
    and "blk_next m (nth_addr bs i) = (if Suc i = length bs then 0 else nth_addr bs (Suc i))"
    by (auto simp: block_at_def nth_addr_def block_addr_Suc)
  show "block_addr (take i bs) + 32 + fst (bs ! i) \<le> HEAP_END" using s(4) b by simp
qed

lemma nth_addr_inject:
  assumes "seg m HEAP_BASE bs HEAP_END 0" "i < length bs" "j < length bs"
  shows "nth_addr bs i = nth_addr bs j \<longleftrightarrow> i = j"
proof -
  have "block_addr (take k bs) < 2 ^ 64" if "k < length bs" for k
    using seg_nth(4) [OF assms(1) that] by simp
  then have "nth_addr bs i = nth_addr bs j \<longleftrightarrow> block_addr (take i bs) = block_addr (take j bs)"
    using assms(2,3) by (simp add: nth_addr_def adr_inject)
  also have "\<dots> \<longleftrightarrow> i = j"
    using block_addr_mono [of i j bs] block_addr_mono [of j i bs] assms(2,3)
    by (metis less_imp_le_nat less_irrefl linorder_less_linear)
  finally show ?thesis .
qed

lemma nth_addr_nonzero:
  assumes "seg m HEAP_BASE bs HEAP_END 0" "i < length bs"
  shows "nth_addr bs i \<noteq> 0"
proof -
  have "block_addr (take i bs) < 2 ^ 64" "block_addr (take i bs) \<noteq> 0"
    using seg_nth(4) [OF assms] by (simp_all add: block_addr_def)
  then show ?thesis
    by (metis nth_addr_def unat_0 unat_adr)
qed

lemma nth_addr_0: "nth_addr bs 0 = HEAP_START"
  by (simp add: nth_addr_def block_addr_def HEAP_START_def adr_def)

abbreviation fits :: "blocks \<Rightarrow> nat \<Rightarrow> nat \<Rightarrow> bool" where
  "fits bs n i \<equiv> snd (bs ! i) \<and> n \<le> fst (bs ! i)"

lemma kmalloc_loop_spec:
  assumes seg: "seg (hmem h) HEAP_BASE bs HEAP_END 0" and head: "heap_head h = HEAP_START"
    and n: "n < 2 ^ 64"
  shows "i < length bs \<Longrightarrow> (i + d + 1) mod length bs = s \<Longrightarrow> d < length bs \<Longrightarrow>
    (\<exists>j<length bs. fits bs n j \<and> kmalloc_loop h (adr n) (nth_addr bs s) (nth_addr bs i) =
       Some (nth_addr bs j + SIZEOF_BLOCK, place h (nth_addr bs j) (adr n))) \<or>
    (\<forall>k\<le>d. \<not> fits bs n ((i + k) mod length bs)) \<and>
      kmalloc_loop h (adr n) (nth_addr bs s) (nth_addr bs i) = Some (0, h)"
proof (induction d arbitrary: i)
  case (0 i)
  then have s: "s < length bs" by (metis mod_less_divisor list.size(3) not_less_zero)
  have "fst (bs ! i) < 2 ^ 64" using seg_nth(4) [OF seg 0(1)] by simp
  then have guard: "blk_free (hmem h) (nth_addr bs i) \<and> adr n \<le> blk_size (hmem h) (nth_addr bs i)
      \<longleftrightarrow> fits bs n i"
    using seg_nth(1,2) [OF seg 0(1)] n by (simp add: adr_le_iff)
  have nx: "(if blk_next (hmem h) (nth_addr bs i) = 0 then heap_head h
      else blk_next (hmem h) (nth_addr bs i)) = nth_addr bs s"
    using 0 seg_nth(3) [OF seg 0(1)] head nth_addr_nonzero [OF seg, of "Suc i"]
    by (cases "Suc i = length bs") (auto simp: nth_addr_0)
  show ?case
    using guard nx 0(1) by (subst (1 2) kmalloc_loop.simps) (auto simp: Let_def)
next
  case (Suc d i)
  let ?L = "length bs"
  have "fst (bs ! i) < 2 ^ 64" using seg_nth(4) [OF seg Suc.prems(1)] by simp
  then have guard: "blk_free (hmem h) (nth_addr bs i) \<and> adr n \<le> blk_size (hmem h) (nth_addr bs i)
      \<longleftrightarrow> fits bs n i"
    using seg_nth(1,2) [OF seg Suc.prems(1)] n by (simp add: adr_le_iff)
  let ?i = "Suc i mod ?L"
  have i': "?i < ?L" using Suc.prems(1) by (intro mod_less_divisor) linarith
  have nx: "(if blk_next (hmem h) (nth_addr bs i) = 0 then heap_head h
      else blk_next (hmem h) (nth_addr bs i)) = nth_addr bs ?i"
    using Suc.prems(1) seg_nth(3) [OF seg Suc.prems(1)] head nth_addr_nonzero [OF seg, of "Suc i"]
    by (cases "Suc i = ?L") (auto simp: nth_addr_0)
  have "(?i + (d + 1)) mod ?L = (Suc i + (d + 1)) mod ?L" by (rule mod_add_left_eq)
  with Suc.prems(2) have s': "(?i + d + 1) mod ?L = s" by simp
  have neq: "?i \<noteq> s"
  proof
    assume "?i = s"
    then have "(?i + (d + 1)) mod ?L = ?i mod ?L" using s' by (metis add.assoc mod_mod_trivial)
    then have "?L dvd (?i + (d + 1)) - ?i" by (intro mod_eq_dvd_iff_nat [THEN iffD1]) auto
    then have "?L dvd d + 1" by simp
    with Suc.prems(3) show False by (auto dest: dvd_imp_le)
  qed
  have s: "s < ?L" using s' i' by (metis mod_less_divisor not_less_zero gr0I)
  then have ne: "nth_addr bs ?i \<noteq> nth_addr bs s"
    using nth_addr_inject [OF seg i' s] neq by simp
  show ?case
  proof (cases "fits bs n i")
    case True
    then show ?thesis using guard Suc.prems(1) by (subst kmalloc_loop.simps) (auto simp: Let_def)
  next
    case False
    have unf: "kmalloc_loop h (adr n) (nth_addr bs s) (nth_addr bs i) =
        kmalloc_loop h (adr n) (nth_addr bs s) (nth_addr bs ?i)"
      using guard False nx ne by (subst kmalloc_loop.simps) (auto simp: Let_def)
    have all: "\<not> fits bs n ((i + k) mod ?L)"
      if "\<forall>k\<le>d. \<not> fits bs n ((?i + k) mod ?L)" "k \<le> Suc d" for k
    proof (cases k)
      case (Suc k')
      then have "(i + k) mod ?L = (?i + k') mod ?L" by (simp add: mod_add_left_eq)
      with that Suc show ?thesis by simp
    qed (use False Suc.prems(1) in simp)
    from Suc.IH [OF i' s'] Suc.prems(3) unf all show ?thesis by auto
  qed
qed


lemma heap_inv_cursor:
  assumes "heap_inv h bs"
  obtains i where "i < length bs" "alloc_cursor h = nth_addr bs i"
proof -
  obtain xs y ys where "bs = xs @ y # ys" "alloc_cursor h = adr (block_addr xs)"
    using assms by (auto simp: heap_inv_def)
  then show ?thesis by (intro that [of "length xs"]) (auto simp: nth_addr_def)
qed

lemma take_block_nonempty: "take_block xs sz n ys = xs @ hd (drop (length xs) (take_block xs sz n ys)) #
    tl (drop (length xs) (take_block xs sz n ys))"
  by (simp add: take_block_def)

lemma take_block_last:
  "0 < fst (last (xs @ (sz, True) # ys)) \<Longrightarrow> 0 < fst (last (take_block xs sz n ys))"
  by (auto simp: take_block_def)

lemma kmalloc_cases:
  assumes inv: "heap_inv h bs"
  shows "(\<exists>xs sz ys h'. bs = xs @ (sz, True) # ys \<and> unat (align_heap n) \<le> sz \<and>
            kmalloc h n = Some (adr (block_addr xs + 32), h') \<and>
            heap_inv h' (take_block xs sz (unat (align_heap n)) ys) \<and>
            alloc_cursor h' = adr (block_addr xs)) \<or>
         kmalloc h n = Some (0, h) \<and> (\<forall>(sz, fr)\<in>set bs. fr \<longrightarrow> sz < unat (align_heap n))"
proof -
  let ?n = "unat (align_heap n)"
  obtain i where i: "i < length bs" "alloc_cursor h = nth_addr bs i"
    using heap_inv_cursor [OF inv] .
  have seg: "seg (hmem h) HEAP_BASE bs HEAP_END 0" and head: "heap_head h = HEAP_START"
    and co: "coalesced bs" "0 < fst (last bs)" using inv by (auto simp: heap_inv_def)
  have km: "kmalloc h n = kmalloc_loop h (adr ?n) (nth_addr bs i) (nth_addr bs i)"
    using i nth_addr_nonzero [OF seg i(1)] by (simp add: kmalloc_def Let_def)
  have "i + (length bs - 1) + 1 = i + length bs" using i(1) by linarith
  then have wrap: "(i + (length bs - 1) + 1) mod length bs = i"
    using i(1) by (simp only: mod_add_self2 mod_less)
  consider (fit) j where "j < length bs" "fits bs ?n j" "kmalloc h n =
       Some (nth_addr bs j + SIZEOF_BLOCK, place h (nth_addr bs j) (adr ?n))"
    | (full) "\<forall>k\<le>length bs - 1. \<not> fits bs ?n ((i + k) mod length bs)" "kmalloc h n = Some (0, h)"
    using kmalloc_loop_spec [OF seg head unat_u64_less i(1) wrap] i(1) km by force
  then show ?thesis
  proof cases
    case fit
    obtain sz where b: "bs ! j = (sz, True)" using fit(2) by (cases "bs ! j") auto
    let ?xs = "take j bs" and ?ys = "drop (Suc j) bs"
    let ?h = "place h (nth_addr bs j) (adr ?n)"
    have bs: "bs = ?xs @ (sz, True) # ?ys" using id_take_nth_drop [OF fit(1)] b by simp
    have sz: "?n \<le> sz" using fit(2) b by simp
    have "seg (hmem h) HEAP_BASE (?xs @ (sz, True) # ?ys) HEAP_END 0" using seg bs by simp
    note pl = place_spec [OF this unat_align_heap_mod sz, folded nth_addr_def]
    have "coalesced (take_block ?xs sz ?n ?ys)" "0 < fst (last (take_block ?xs sz ?n ?ys))"
      using co bs coalesced_take [of ?xs sz ?ys] take_block_last [of ?xs sz ?ys] by metis+
    with pl head have "heap_inv ?h (take_block ?xs sz ?n ?ys)"
      unfolding heap_inv_def using take_block_nonempty [of ?xs sz ?n ?ys]
      by (metis nth_addr_def)
    moreover have "nth_addr bs j + SIZEOF_BLOCK = adr (block_addr ?xs + 32)"
      by (simp add: nth_addr_def SIZEOF_BLOCK_def)
    ultimately show ?thesis using fit(3) bs sz pl(2) by (metis nth_addr_def)
  next
    case full
    have "\<not> fits bs ?n j" if "j < length bs" for j
    proof -
      let ?k = "(j + length bs - i) mod length bs"
      have "?k < length bs" using that by (intro mod_less_divisor) linarith
      then have "?k \<le> length bs - 1" by linarith
      moreover have "(i + ?k) mod length bs = j"
        using that i(1) by (simp add: mod_add_right_eq)
      ultimately show ?thesis using full(1) by metis
    qed
    then show ?thesis using full(2) by (fastforce simp: in_set_conv_nth)
  qed
qed


section \<open>Release\<close>

fun addrs :: "nat \<Rightarrow> blocks \<Rightarrow> nat set" where
  "addrs a [] = {}"
| "addrs a ((sz, fr) # bs) = insert a (addrs (a + 32 + sz) bs)"

lemma addrs_append [simp]: "addrs a (xs @ ys) = addrs a xs \<union> addrs (a + extent xs) ys"
  by (induction a xs rule: addrs.induct) (auto simp: add.assoc)

lemma addrs_split: "c \<in> addrs a bs \<longleftrightarrow> (\<exists>xs y ys. bs = xs @ y # ys \<and> c = a + extent xs)"
proof (induction a bs rule: addrs.induct)
  case (2 a sz fr bs)
  show ?case
  proof
    assume "c \<in> addrs a ((sz, fr) # bs)"
    then consider "c = a" | xs y ys where "bs = xs @ y # ys" "c = a + 32 + sz + extent xs"
      using 2 by auto
    then show "\<exists>xs y ys. (sz, fr) # bs = xs @ y # ys \<and> c = a + extent xs"
    proof cases
      case 1
      then show ?thesis by (intro exI [of _ "[]"]) simp
    next
      case (2 xs y ys)
      then show ?thesis by (intro exI [of _ "(sz, fr) # xs"]) simp
    qed
  next
    assume "\<exists>xs y ys. (sz, fr) # bs = xs @ y # ys \<and> c = a + extent xs"
    then obtain xs y ys where x: "(sz, fr) # bs = xs @ y # ys" "c = a + extent xs" by blast
    show "c \<in> addrs a ((sz, fr) # bs)"
    proof (cases xs)
      case (Cons z zs)
      with x have "bs = zs @ y # ys" "c = a + 32 + sz + extent zs" by auto
      then have "c \<in> addrs (a + 32 + sz) bs" using 2 by blast
      then show ?thesis by simp
    qed (use x in auto)
  qed
qed simp

lemma heap_inv_alt:
  "heap_inv h bs \<longleftrightarrow>
     heap_head h = HEAP_START \<and> seg (hmem h) HEAP_BASE bs HEAP_END 0 \<and> coalesced bs \<and>
     0 < fst (last bs) \<and> alloc_cursor h \<in> adr ` addrs HEAP_BASE bs"
proof -
  have "(\<exists>xs y ys. bs = xs @ y # ys \<and> alloc_cursor h = adr (HEAP_BASE + extent xs)) \<longleftrightarrow>
        alloc_cursor h \<in> adr ` addrs HEAP_BASE bs"
    unfolding image_iff addrs_split Bex_def by metis
  then show ?thesis unfolding heap_inv_def block_addr_def by blast
qed

lemma seg_absorb:
  assumes "seg m HEAP_BASE (xs @ (s1, f1) # (s2, f2) # ys) HEAP_END 0"
  shows "seg (absorb m (adr (block_addr xs)) (adr (block_addr xs + 32 + s1)))
           HEAP_BASE (xs @ (s1 + 32 + s2, f1) # ys) HEAP_END 0"
proof -
  let ?a = "block_addr xs"
  let ?c = "?a + 32 + s1"
  note b1 = seg_block [OF assms]
  have "seg m HEAP_BASE ((xs @ [(s1, f1)]) @ (s2, f2) # ys) HEAP_END 0" using assms by simp
  note b2 = seg_block [OF this]
  have c: "block_addr (xs @ [(s1, f1)]) = ?c" by (simp add: block_addr_def)
  note ab = block_at_absorb [OF b1(2,3) b2(3) refl b2(4) [unfolded c] b1(5) b2(5) [unfolded c]]
  have "seg (absorb m (adr ?a) (adr ?c)) HEAP_BASE (xs @ [(s1 + 32 + s2, f1)] @ ys) HEAP_END 0"
  proof (rule seg_replace [OF b1(1) b2(6) [unfolded c]])
    show "same_outside ?a (?c + 32 + s2) m (absorb m (adr ?a) (adr ?c))" by (rule ab(2))
    have "(s1 + 32 + s2) mod 16 = 0" by (rule layout_mods(1) [OF b1(3) b2(3)])
    then show "seg (absorb m (adr ?a) (adr ?c)) ?a [(s1 + 32 + s2, f1)] (?c + 32 + s2)
        (if ys = [] then 0 else adr (?c + 32 + s2))"
      using ab(1) b1(2) by (simp add: add.assoc)
  qed (use b2(4) c in auto)
  then show ?thesis by simp
qed

lemma adr_nonzero: "0 < a \<Longrightarrow> a < 2 ^ 64 \<Longrightarrow> adr a \<noteq> 0"
  by (metis less_numeral_extra(3) unat_0 unat_adr)

lemma idle_walk_ends:
  "seg m a bs HEAP_END 0 \<Longrightarrow> bs \<noteq> [] \<Longrightarrow> 0 < a \<Longrightarrow> idle_walk m block (adr a) = Some ()"
proof (induction m a bs HEAP_END "0::u64" rule: seg.induct)
  case (2 m a sz fr bs)
  then have nx: "blk_next m (adr a) = (if bs = [] then 0 else adr (a + 32 + sz))"
    by (simp add: block_at_def)
  show ?case
  proof (cases "bs = []")
    case True
    then show ?thesis using nx by (subst idle_walk.simps) (simp add: idle_walk.simps)
  next
    case False
    with 2 have "idle_walk m block (adr (a + 32 + sz)) = Some ()" by simp
    with nx False show ?thesis by (subst idle_walk.simps) simp
  qed
qed simp


text \<open>
  The state between the two merges of \<open>kfree\<close>: everything of the invariant but that free blocks
  are not adjacent.
\<close>

definition heap_ok :: "kheap \<Rightarrow> blocks \<Rightarrow> bool" where
  "heap_ok h bs \<longleftrightarrow>
     heap_head h = HEAP_START \<and> seg (hmem h) HEAP_BASE bs HEAP_END 0 \<and>
     0 < fst (last bs) \<and> alloc_cursor h \<in> adr ` addrs HEAP_BASE bs"

lemma heap_inv_ok: "heap_inv h bs \<longleftrightarrow> heap_ok h bs \<and> coalesced bs"
  by (auto simp: heap_inv_alt heap_ok_def)

lemma heap_ok_absorb:
  assumes ok: "heap_ok h (xs @ (s1, f1) # (s2, f2) # ys)"
  defines "a \<equiv> adr (block_addr xs)" and "c \<equiv> adr (block_addr xs + 32 + s1)"
  shows "heap_ok (h\<lparr>hmem := absorb (hmem h) a c,
           alloc_cursor := (if alloc_cursor h = c then a else alloc_cursor h)\<rparr>)
         (xs @ (s1 + 32 + s2, f1) # ys)"
proof -
  have "alloc_cursor h \<in> adr ` (addrs HEAP_BASE xs \<union> {block_addr xs, block_addr xs + 32 + s1} \<union>
      addrs (block_addr xs + 64 + s1 + s2) ys)"
    using ok by (auto simp: heap_ok_def block_addr_def add.assoc)
  then have "(if alloc_cursor h = c then a else alloc_cursor h) \<in>
      adr ` addrs HEAP_BASE (xs @ (s1 + 32 + s2, f1) # ys)"
    by (auto simp: a_def c_def block_addr_def add.assoc add.left_commute)
  moreover have "0 < fst (last (xs @ (s1 + 32 + s2, f1) # ys))"
    using ok by (auto simp: heap_ok_def split: if_splits)
  moreover have "seg (absorb (hmem h) a c) HEAP_BASE (xs @ (s1 + 32 + s2, f1) # ys) HEAP_END 0"
    unfolding a_def c_def using ok seg_absorb [of "hmem h" xs s1 f1 s2 f2 ys]
    by (simp add: heap_ok_def)
  ultimately show ?thesis
    using ok by (simp add: heap_ok_def)
qed

lemma merge_next_spec:
  assumes ok: "heap_ok h (xs @ (sz, True) # ys)"
  shows "\<exists>h'. merge_next h (adr (block_addr xs)) = Some h' \<and> heap_ok h' (xs @ join_right sz ys)"
proof -
  let ?a = "block_addr xs"
  let ?m = "hmem h"
  have seg: "seg ?m HEAP_BASE (xs @ (sz, True) # ys) HEAP_END 0" using ok by (simp add: heap_ok_def)
  note b = seg_block [OF seg]
  have e: "adr ?a + SIZEOF_BLOCK + blk_size ?m (adr ?a) = adr (?a + 32 + sz)"
    using b(5) by (simp add: block_at_def SIZEOF_BLOCK_def adr_add)
  have hs: "HEAP_START + HEAP_SIZE = adr HEAP_END" by (simp add: HEAP_START_def HEAP_SIZE_def adr_def)
  show ?thesis
  proof (cases ys)
    case Nil
    then have eq: "?a + 32 + sz = HEAP_END" using b(6) by simp
    have "next_block ?m (adr ?a) = 0"
      by (simp only: next_block_def Let_def e eq hs order_refl if_True)
    then show ?thesis using ok Nil by (simp add: merge_next_def)
  next
    case (Cons y zs)
    obtain s2 f2 where y: "y = (s2, f2)" by (cases y)
    let ?c = "?a + 32 + sz"
    have "seg ?m HEAP_BASE ((xs @ [(sz, True)]) @ (s2, f2) # zs) HEAP_END 0"
      using seg Cons y by simp
    note b2 = seg_block [OF this]
    have c: "block_addr (xs @ [(sz, True)]) = ?c" by (simp add: block_addr_def)
    have lt: "?c + 32 + s2 \<le> HEAP_END" using b2(4) c by simp
    have nb: "next_block ?m (adr ?a) = adr ?c"
      using lt by (simp add: next_block_def e hs Let_def adr_le_iff)
    have pos: "0 < ?c" by (simp add: block_addr_def)
    have nz: "adr ?c \<noteq> 0" "adr ?c < HEAP_START + HEAP_SIZE"
      using lt pos by (simp_all add: adr_nonzero hs adr_less_iff)
    have fr: "blk_free ?m (adr ?c) = f2" "blk_next ?m (adr ?c) = (if zs = [] then 0 else adr (?c + 32 + s2))"
      using b2(5) unfolding c by (simp_all add: block_at_def)
    show ?thesis
    proof (cases f2)
      case False
      then show ?thesis using ok Cons y nb fr by (simp add: merge_next_def)
    next
      case True
      have walk: "(if blk_next ?m (adr ?c) \<noteq> 0 then idle_walk ?m (adr ?a) (blk_next ?m (adr ?c)) else Some ()) = Some ()"
        using fr(2) idle_walk_ends [OF b2(6) [unfolded c]] by simp
      have "heap_ok h (xs @ (sz, True) # (s2, True) # zs)" using ok Cons y True by simp
      note ok' = heap_ok_absorb [OF this]
      have "merge_next h (adr ?a) = Some (h\<lparr>hmem := absorb ?m (adr ?a) (adr ?c),
          alloc_cursor := (if alloc_cursor h = adr ?c then adr ?a else alloc_cursor h)\<rparr>)"
        unfolding merge_next_def Let_def nb walk using True nz fr(1) by simp
      with ok' Cons y True show ?thesis by simp
    qed
  qed
qed

lemma prev_block_spec:
  assumes "seg m HEAP_BASE (xs @ (s1, f1) # (s2, f2) # ys) HEAP_END 0"
  shows "prev_block m (adr (block_addr xs + 32 + s1)) = adr (block_addr xs)"
proof -
  note b = seg_block [OF assms]
  let ?a = "block_addr xs"
  have "adr (?a + 32 + s1) - 8 = adr (?a + 24 + s1)" by (simp add: adr_diff_numeral ac_simps)
  moreover have "read64 m (adr (?a + 24 + s1)) = adr s1" using b(5) by (simp add: block_at_def)
  moreover have "\<not> adr (?a + 32 + s1) \<le> HEAP_START"
  proof -
    have hs: "HEAP_START = adr HEAP_BASE" by (simp add: HEAP_START_def adr_def)
    show ?thesis unfolding hs using b(4) by (simp add: adr_le_iff block_addr_def)
  qed
  moreover have "adr (?a + 32 + s1) - SIZEOF_BLOCK - adr s1 = adr ?a"
    by (simp add: SIZEOF_BLOCK_def adr_def)
  ultimately show ?thesis by (simp add: prev_block_def)
qed

lemma merge_prev_first:
  assumes "heap_ok h bs"
  shows "merge_prev h HEAP_START = Some h"
  by (simp add: merge_prev_def prev_block_def)

lemma merge_prev_spec:
  assumes ok: "heap_ok h (xs @ (s1, f1) # (s2, True) # ys)"
  shows "\<exists>h'. merge_prev h (adr (block_addr xs + 32 + s1)) = Some h' \<and>
     heap_ok h' (if f1 then xs @ (s1 + 32 + s2, True) # ys else xs @ (s1, f1) # (s2, True) # ys)"
proof -
  let ?a = "block_addr xs"
  let ?m = "hmem h"
  let ?c = "?a + 32 + s1"
  have seg: "seg ?m HEAP_BASE (xs @ (s1, f1) # (s2, True) # ys) HEAP_END 0"
    using ok by (simp add: heap_ok_def)
  note b = seg_block [OF seg]
  have fr: "blk_free ?m (adr ?a) = f1" "blk_next ?m (adr ?a) = adr ?c"
    using b(5) by (simp_all add: block_at_def)
  have ne: "adr ?a \<noteq> 0" "adr ?a \<noteq> adr ?c"
    using b(4) by (simp_all add: adr_nonzero adr_inject block_addr_def)
  show ?thesis
  proof (cases f1)
    case False
    then show ?thesis using ok fr by (simp add: merge_prev_def prev_block_spec [OF seg])
  next
    case True
    with heap_ok_absorb [OF ok] fr ne show ?thesis
      by (simp add: merge_prev_def prev_block_spec [OF seg] Let_def)
  qed
qed


lemma join_right_shape: "\<exists>s1 zs. join_right sz ys = (s1, True) # zs"
  by (cases "(sz, ys)" rule: join_right.cases) auto

lemma coalesced_give:
  assumes "coalesced (xs @ (sz, False) # ys)"
  shows "coalesced (give_block xs sz ys)"
proof -
  have co: "coalesced xs" "coalesced ys" using assms by (auto simp: coalesced_append coalesced_Cons)
  obtain s1 zs where j: "join_right sz ys = (s1, True) # zs" using join_right_shape by blast
  have zs: "coalesced ((s1, True) # zs)"
    using j co(2) by (cases "(sz, ys)" rule: join_right.cases) (auto simp: coalesced_Cons)
  show ?thesis
  proof (cases "xs \<noteq> [] \<and> snd (last xs)")
    case True
    then obtain ws s0 where xs: "xs = ws @ [(s0, True)]"
      by (metis append_butlast_last_id prod.collapse)
    with co(1) zs j True show ?thesis
      by (auto simp: give_block_def coalesced_append coalesced_Cons)
  next
    case False
    with co(1) zs j show ?thesis by (auto simp: give_block_def coalesced_append)
  qed
qed

lemma kfree_spec:
  assumes inv: "heap_inv h (xs @ (sz, False) # ys)"
  shows "\<exists>h'. kfree h (adr (block_addr xs + 32)) = Some h' \<and> heap_inv h' (give_block xs sz ys)"
proof -
  let ?a = "block_addr xs"
  let ?m = "hmem h"
  have seg: "seg ?m HEAP_BASE (xs @ (sz, False) # ys) HEAP_END 0" using inv by (simp add: heap_inv_alt)
  note b = seg_block [OF seg]
  note sf = block_at_set_free [OF b(2,3,4,5), of True]
  have seg1: "seg (set_free ?m (adr ?a) True) HEAP_BASE (xs @ [(sz, True)] @ ys) HEAP_END 0"
    using b sf by (intro seg_replace) auto
  let ?h1 = "h\<lparr>hmem := set_free ?m (adr ?a) True\<rparr>"
  let ?h2 = "if alloc_cursor ?h1 \<noteq> 0 \<and> adr ?a < alloc_cursor ?h1 then ?h1\<lparr>alloc_cursor := adr ?a\<rparr> else ?h1"
  have ok2: "heap_ok ?h2 (xs @ (sz, True) # ys)"
    using inv seg1 by (auto simp: heap_inv_alt heap_ok_def block_addr_def split: if_splits)
  obtain h3 where h3: "merge_next ?h2 (adr ?a) = Some h3" "heap_ok h3 (xs @ join_right sz ys)"
    using merge_next_spec [OF ok2] by blast
  obtain s1 zs where j: "join_right sz ys = (s1, True) # zs" using join_right_shape by blast
  have "\<exists>h4. merge_prev h3 (adr ?a) = Some h4 \<and> heap_ok h4 (give_block xs sz ys)"
  proof (cases "xs = []")
    case True
    then have "adr ?a = HEAP_START" by (simp add: block_addr_def HEAP_START_def adr_def)
    with h3(2) merge_prev_first True j show ?thesis by (simp add: give_block_def)
  next
    case False
    then obtain ws s0 f0 where xs: "xs = ws @ [(s0, f0)]" by (metis append_butlast_last_id prod.collapse)
    then have "?a = block_addr ws + 32 + s0" by (simp add: block_addr_def)
    with merge_prev_spec [of h3 ws s0 f0 s1 zs] h3(2) j xs show ?thesis
      by (cases f0) (simp_all add: give_block_def)
  qed
  then obtain h4 where h4: "merge_prev h3 (adr ?a) = Some h4" "heap_ok h4 (give_block xs sz ys)" by blast
  have pos: "?a + 32 < HEAP_END"
  proof (cases ys)
    case Nil
    then have "0 < sz" using inv by (simp add: heap_inv_alt)
    with b(4) show ?thesis by simp
  next
    case (Cons y zs')
    with b(6) show ?thesis by (cases y) auto
  qed
  have "HEAP_START + SIZEOF_BLOCK = adr (HEAP_BASE + 32)" "HEAP_START + HEAP_SIZE = adr HEAP_END"
    by (simp_all add: HEAP_START_def HEAP_SIZE_def SIZEOF_BLOCK_def adr_def)
  then have range: "\<not> (adr (?a + 32) < HEAP_START + SIZEOF_BLOCK \<or> HEAP_START + HEAP_SIZE \<le> adr (?a + 32))"
    using pos by (simp add: adr_less_iff adr_le_iff block_addr_def)
  have nz: "adr (?a + 32) \<noteq> 0" using pos by (simp add: adr_nonzero)
  have blk: "adr (?a + 32) - SIZEOF_BLOCK = adr ?a" by (simp add: SIZEOF_BLOCK_def adr_def)
  have "\<not> blk_free ?m (adr ?a)" using b(5) by (simp add: block_at_def)
  then have "kfree h (adr (?a + 32)) = Some h4"
    unfolding kfree_def Let_def blk using nz range h3(1) h4(1) by simp
  moreover have "heap_inv h4 (give_block xs sz ys)"
    using h4(2) inv coalesced_give by (simp add: heap_inv_ok)
  ultimately show ?thesis by blast
qed

lemma heap_init_inv:
  assumes "\<not> heap_initialized h"
  shows "heap_inv (heap_init h) [(0xFFFFE0, True)]"
proof -
  have hs: "HEAP_START = adr HEAP_BASE" "HEAP_SIZE - SIZEOF_BLOCK = adr 0xFFFFE0"
    by (simp_all add: HEAP_START_def HEAP_SIZE_def SIZEOF_BLOCK_def adr_def)
  let ?b = HEAP_BASE
  let ?m1 = "write64 (hmem h) (adr ?b) (adr 0xFFFFE0)"
  let ?m2 = "?m1(adr (?b + 8) := 1)"
  let ?m3 = "write64 ?m2 (adr (?b + 16)) 0"
  let ?m4 = "write64 ?m3 (adr (?b + 24 + 0xFFFFE0)) (adr 0xFFFFE0)"
  have r: "read64 ?m3 (adr ?b) = adr 0xFFFFE0" by (simp add: word_rules)
  note f = footer_adr [OF r]
  have m: "hmem (heap_init h) = ?m4"
    using assms by (simp only: heap_init_def hs Let_def set_size_def set_free_def set_next_def
        adr_add_numeral set_footer_def f blk_size_def r if_True if_False) simp
  have "block_at ?m4 ?b 0xFFFFE0 True 0" by (simp add: block_at_def heap_defs word_rules)
  then have "seg (hmem (heap_init h)) HEAP_BASE [(0xFFFFE0, True)] HEAP_END 0"
    unfolding m by simp
  moreover have "alloc_cursor (heap_init h) = adr HEAP_BASE" "heap_head (heap_init h) = HEAP_START"
    using assms by (simp_all add: heap_init_def Let_def hs)
  ultimately show ?thesis by (simp add: heap_inv_alt)
qed

lemma give_take:
  assumes "coalesced (xs @ (sz, True) # ys)" "n \<le> sz"
  shows "take_block xs sz n ys = xs @ (n, False) # (sz - n - 32, True) # ys \<and> n + 48 \<le> sz \<and>
           give_block xs n ((sz - n - 32, True) # ys) = xs @ (sz, True) # ys \<or>
         take_block xs sz n ys = xs @ (sz, False) # ys \<and>
           give_block xs sz ys = xs @ (sz, True) # ys"
proof -
  have last: "\<not> (xs \<noteq> [] \<and> snd (last xs))" and hd: "ys \<noteq> [] \<Longrightarrow> \<not> snd (hd ys)"
    using assms(1) by (auto simp: coalesced_append coalesced_Cons)
  have "join_right sz ys = (sz, True) # ys"
    using hd by (cases "(sz, ys)" rule: join_right.cases) auto
  with last show ?thesis using assms(2) by (auto simp: take_block_def give_block_def)
qed


section \<open>Properties\<close>

text \<open>
  C1: \<open>kmalloc\<close> always comes back on a well-formed heap. It either returns the payload of a free
  block that is large enough for the rounded request, now taken (and split when the rest can hold
  a block), or returns null, which happens only when no free block is large enough, and changes
  nothing. The heap stays well formed: blocks laid out without gap or overlap over the whole
  16 MiB, headers and footers right, no two free neighbours, the cursor on a block.
\<close>

theorem kmalloc_correct:
  assumes "heap_inv h bs"
  shows "\<exists>p h'. kmalloc h n = Some (p, h') \<and>
     (if p = 0 then h' = h \<and> (\<forall>(sz, fr)\<in>set bs. fr \<longrightarrow> sz < unat (align_heap n))
      else \<exists>xs sz ys. bs = xs @ (sz, True) # ys \<and> unat (align_heap n) \<le> sz \<and>
             p = adr (block_addr xs + 32) \<and>
             heap_inv h' (take_block xs sz (unat (align_heap n)) ys))"
  using kmalloc_cases [OF assms, of n]
proof (elim disjE exE conjE)
  fix xs sz ys h'
  assume bs: "bs = xs @ (sz, True) # ys" and r: "unat (align_heap n) \<le> sz"
    "kmalloc h n = Some (adr (block_addr xs + 32), h')"
    "heap_inv h' (take_block xs sz (unat (align_heap n)) ys)"
  have "seg (hmem h) HEAP_BASE (xs @ (sz, True) # ys) HEAP_END 0"
    using assms bs by (simp add: heap_inv_alt)
  from seg_block(4) [OF this] have "adr (block_addr xs + 32) \<noteq> 0" by (simp add: adr_nonzero)
  with bs r show ?thesis by auto
qed auto

text \<open>
  C32: \<open>kfree\<close> of a pointer that \<open>kmalloc\<close> returned comes back, frees exactly that block and merges
  it with its free neighbours on both sides; the heap stays well formed.
\<close>

theorem kfree_correct:
  assumes "heap_inv h (xs @ (sz, False) # ys)"
  shows "\<exists>h'. kfree h (adr (block_addr xs + 32)) = Some h' \<and> heap_inv h' (give_block xs sz ys)"
  by (rule kfree_spec [OF assms])

text \<open>
  What \<open>kmalloc\<close> does, \<open>kfree\<close> undoes: freeing the pointer just allocated restores the list
  of blocks, so a balanced use of the heap never fragments it.
\<close>

theorem kmalloc_kfree_roundtrip:
  assumes inv: "heap_inv h bs" and a: "kmalloc h n = Some (p, h1)" "p \<noteq> 0"
  shows "\<exists>h2. kfree h1 p = Some h2 \<and> heap_inv h2 bs"
proof -
  let ?n = "unat (align_heap n)"
  obtain xs sz ys where bs: "bs = xs @ (sz, True) # ys" "?n \<le> sz" "p = adr (block_addr xs + 32)"
    and inv1: "heap_inv h1 (take_block xs sz ?n ys)"
    using kmalloc_cases [OF inv, of n] a by auto
  have "coalesced (xs @ (sz, True) # ys)" using inv bs(1) by (simp add: heap_inv_alt)
  from give_take [OF this bs(2)] show ?thesis
  proof (elim disjE conjE)
    assume t: "take_block xs sz ?n ys = xs @ (?n, False) # (sz - ?n - 32, True) # ys"
      and g: "give_block xs ?n ((sz - ?n - 32, True) # ys) = xs @ (sz, True) # ys"
    with kfree_spec [of h1 xs ?n "(sz - ?n - 32, True) # ys"] inv1 bs show ?thesis by simp
  next
    assume t: "take_block xs sz ?n ys = xs @ (sz, False) # ys"
      and g: "give_block xs sz ys = xs @ (sz, True) # ys"
    with kfree_spec [of h1 xs sz ys] inv1 bs show ?thesis by simp
  qed
qed

text \<open>
  \<open>kfree\<close> ignores null, a pointer outside the heap and a block that is already free.
\<close>

theorem kfree_ignores:
  assumes "p = 0 \<or> p < HEAP_START + SIZEOF_BLOCK \<or> HEAP_START + HEAP_SIZE \<le> p \<or>
    blk_free (hmem h) (p - SIZEOF_BLOCK)"
  shows "kfree h p = Some h"
  using assms by (auto simp: kfree_def Let_def)

text \<open>
  The size computation of \<open>kmalloc\<close> wraps around: a request of the last fifteen sizes of 64
  bits is rounded to 0, so on a fresh heap it succeeds and hands out a block of 0 bytes.
\<close>

theorem kmalloc_huge_request:
  assumes "\<not> heap_initialized h" "n \<ge> 0xFFFFFFFFFFFFFFF1"
  shows "align_heap n = 0 \<and> (\<exists>h'. kmalloc (heap_init h) n = Some (HEAP_START + SIZEOF_BLOCK, h'))"
proof -
  have "unat n \<ge> 0xFFFFFFFFFFFFFFF1" using assms(2) by (simp add: word_le_nat_alt)
  then have u: "unat (n + 15) = unat n - 0xFFFFFFFFFFFFFFF1"
    using unat_u64_less [of n] by (simp add: unat_word_ariths mod_if)
  have "unat (n + 15) < 15" using u unat_u64_less [of n] by simp
  then have "unat (align_heap n) = 0" by (simp add: unat_align_heap)
  then have al: "align_heap n = 0" by (simp only: unat_eq_zero)
  have inv: "heap_inv (heap_init h) [(0xFFFFE0, True)]" by (rule heap_init_inv [OF assms(1)])
  have "adr (block_addr [] + 32) = HEAP_START + SIZEOF_BLOCK"
    by (simp add: block_addr_def HEAP_START_def SIZEOF_BLOCK_def adr_def)
  with kmalloc_cases [OF inv, of n] al show ?thesis by (auto simp: Cons_eq_append_conv)
qed

text \<open>
  The footer of a block lies inside the payload that the client owns. On a fresh heap, after
  \<open>kmalloc n\<close> with \<open>n\<close> a multiple of 16, the client's own last eight bytes are what \<open>kfree\<close> of the
  next block reads as the size of this one: whatever value \<open>v\<close> the client stores there, the
  header that \<open>prev_block\<close> then returns is at \<open>p + n - 32 - v\<close>.
\<close>

theorem footer_in_payload:
  assumes "\<not> heap_initialized h" "n mod 16 = 0" "0 < n" "n + 48 \<le> 0xFFFFE0"
  shows "\<exists>p h1. kmalloc (heap_init h) (adr n) = Some (p, h1) \<and> p = HEAP_START + SIZEOF_BLOCK \<and>
     (\<forall>v. prev_block (write64 (hmem h1) (p + adr n - 8) v) (p + adr n) = p + adr n - SIZEOF_BLOCK - v)"
proof -
  have inv: "heap_inv (heap_init h) [(0xFFFFE0, True)]" by (rule heap_init_inv [OF assms(1)])
  have al: "align_heap (adr n) = adr n"
    using assms(2,4) by (rule align_heap_multiple)
  have p: "adr (block_addr [] + 32) = HEAP_START + SIZEOF_BLOCK"
    by (simp add: block_addr_def HEAP_START_def SIZEOF_BLOCK_def adr_def)
  obtain h1 where h1: "kmalloc (heap_init h) (adr n) = Some (HEAP_START + SIZEOF_BLOCK, h1)"
    using kmalloc_cases [OF inv, of "adr n"] al assms(4) p
    by (auto simp: Cons_eq_append_conv unat_adr)
  have q: "HEAP_START + SIZEOF_BLOCK + adr n = adr (0x1000020 + n)"
    by (simp add: HEAP_START_def SIZEOF_BLOCK_def adr_def)
  have "\<not> adr (0x1000020 + n) \<le> adr HEAP_BASE" using assms(4) by (simp add: adr_le_iff)
  moreover have "HEAP_START = adr HEAP_BASE" by (simp add: HEAP_START_def adr_def)
  ultimately have "prev_block (write64 (hmem h1) (adr (0x1000020 + n) - 8) v) (adr (0x1000020 + n)) =
      adr (0x1000020 + n) - SIZEOF_BLOCK - v" for v
    by (simp only: prev_block_def if_False read64_write64_same)
  with h1 show ?thesis unfolding q [symmetric] by blast
qed


section \<open>Witnesses\<close>

definition heap_demo :: kheap where
  "heap_demo = heap_init \<lparr>hmem = (\<lambda>_. 0), heap_head = 0, alloc_cursor = 0, heap_initialized = False\<rparr>"

lemma heap_demo_inv: "heap_inv heap_demo [(0xFFFFE0, True)]"
  unfolding heap_demo_def by (rule heap_init_inv) simp

lemma align_heap_100: "align_heap 100 = 112"
  by (simp add: align_heap_def)

lemma heap_demo_alloc:
  "\<exists>h1. kmalloc heap_demo 100 = Some (0x1000020, h1) \<and>
        heap_inv h1 [(112, False), (0xFFFF50, True)]"
  using kmalloc_cases [OF heap_demo_inv, of 100]
  by (auto simp: align_heap_100 Cons_eq_append_conv take_block_def block_addr_def adr_def)

theorem kmalloc_correct_witness:
  "heap_inv heap_demo [(0xFFFFE0, True)] \<and> (\<exists>p h1. kmalloc heap_demo 100 = Some (p, h1) \<and> p \<noteq> 0)"
proof -
  obtain h1 where h1: "kmalloc heap_demo 100 = Some (0x1000020, h1)" using heap_demo_alloc by blast
  have "\<exists>p h1. kmalloc heap_demo 100 = Some (p, h1)"
    using kmalloc_correct [OF heap_demo_inv, of 100] by blast
  with h1 heap_demo_inv show ?thesis by auto
qed

theorem kfree_correct_witness:
  "\<exists>h1 h2. heap_inv h1 ([] @ (112, False) # [(0xFFFF50, True)]) \<and>
     kfree h1 (adr (block_addr [] + 32)) = Some h2 \<and> heap_inv h2 [(0xFFFFE0, True)]"
proof -
  obtain h1 where h1: "heap_inv h1 ([] @ (112, False) # [(0xFFFF50, True)])"
    using heap_demo_alloc by auto
  from kfree_correct [OF h1] obtain h2 where
    "kfree h1 (adr (block_addr [] + 32)) = Some h2" "heap_inv h2 (give_block [] 112 [(0xFFFF50, True)])"
    by blast
  with h1 show ?thesis by (intro exI [of _ h1] exI [of _ h2]) (simp add: give_block_def)
qed

theorem kmalloc_kfree_roundtrip_witness:
  "\<exists>h1 h2. kmalloc heap_demo 100 = Some (0x1000020, h1) \<and> kfree h1 0x1000020 = Some h2 \<and>
     heap_inv h2 [(0xFFFFE0, True)]"
proof -
  obtain h1 where h1: "kmalloc heap_demo 100 = Some (0x1000020, h1)" using heap_demo_alloc by blast
  from kmalloc_kfree_roundtrip [OF heap_demo_inv h1] h1 show ?thesis by auto
qed

theorem kfree_ignores_witness: "kfree heap_demo 0x1000020 = Some heap_demo"
proof (rule kfree_ignores)
  have "blk_free (hmem heap_demo) (nth_addr [(0xFFFFE0, True)] 0)"
    using heap_demo_inv seg_nth(1) [of "hmem heap_demo" "[(0xFFFFE0, True)]" 0]
    by (simp add: heap_inv_alt)
  moreover have "nth_addr [(0xFFFFE0, True)] 0 = 0x1000020 - SIZEOF_BLOCK"
    by (simp add: nth_addr_0 HEAP_START_def SIZEOF_BLOCK_def)
  ultimately show "(0x1000020 :: u64) = 0 \<or> 0x1000020 < HEAP_START + SIZEOF_BLOCK \<or>
      HEAP_START + HEAP_SIZE \<le> 0x1000020 \<or> blk_free (hmem heap_demo) (0x1000020 - SIZEOF_BLOCK)"
    by simp
qed

theorem kmalloc_huge_request_witness:
  "\<exists>h'. kmalloc heap_demo 0xFFFFFFFFFFFFFFFF = Some (0x1000020, h')"
  unfolding heap_demo_def
  using kmalloc_huge_request [of "\<lparr>hmem = (\<lambda>_. 0), heap_head = 0, alloc_cursor = 0,
    heap_initialized = False\<rparr>" "0xFFFFFFFFFFFFFFFF"]
  by (simp add: HEAP_START_def SIZEOF_BLOCK_def)

theorem footer_in_payload_witness:
  "\<exists>h1. kmalloc heap_demo (adr 16) = Some (0x1000020, h1) \<and>
     prev_block (write64 (hmem h1) 0x1000028 5) 0x1000030 = 0x100000B"
  unfolding heap_demo_def
  using footer_in_payload [of "\<lparr>hmem = (\<lambda>_. 0), heap_head = 0, alloc_cursor = 0,
    heap_initialized = False\<rparr>" 16]
  by (auto simp: HEAP_START_def SIZEOF_BLOCK_def adr_def)

end
