(* ===== verification/Paging.thy ===== *)
theory Paging
  imports Pmm Kheap "HOL-Library.Sublist"
begin

unbundle bit_operations_syntax

text \<open>
  The page tables, \<open>src/mm/paging.cpp\<close>. Tables are pages of 512 eight-byte entries in the byte
  memory, reached through identity-mapped pointers as in the code; frames come from the physical
  page allocator and \<open>PageTable\<close> objects from the kernel heap. The record \<open>machine\<close> holds the state
  that these components share. A result \<open>None\<close> is a fault of a callee: a bitmap access out of
  bounds or a walk of the heap that does not end.
\<close>

section \<open>State\<close>

record machine =
  mm_heap :: kheap
  mm_pmm :: pmm
  kernel_pml4 :: u64
  reserved_end :: u64
  fb_address :: u64
  fb_size :: u32
  fb_pitch :: u32
  fb_height :: u32
  cr0 :: u64
  cr3 :: u64
  cr4 :: u64
  invlpgs :: "u64 list"
  vmm_pml4 :: u64
  vmm_next :: u64

abbreviation pmem :: "machine \<Rightarrow> mem" where
  "pmem s \<equiv> hmem (mm_heap s)"

definition set_pmem :: "mem \<Rightarrow> machine \<Rightarrow> machine" where
  "set_pmem m s = s\<lparr>mm_heap := (mm_heap s)\<lparr>hmem := m\<rparr>\<rparr>"

definition PAGE_PRESENT :: u64 where "PAGE_PRESENT = 1"
definition PAGE_WRITABLE :: u64 where "PAGE_WRITABLE = 2"
definition PAGE_USER :: u64 where "PAGE_USER = 4"
definition IDENTITY_MAP_LIMIT :: u64 where "IDENTITY_MAP_LIMIT = 0x10000000"

definition pmm_free_page :: "u64 \<Rightarrow> machine \<Rightarrow> machine option" where
  "pmm_free_page a s =
     map_option (\<lambda>p. s\<lparr>mm_pmm := p\<rparr>) (free_page_opt a (mm_pmm s))"

definition is_fb_phys_address :: "machine \<Rightarrow> u64 \<Rightarrow> bool" where
  "is_fb_phys_address s phys =
     (if fb_address s = 0 \<or> fb_size s = 0 then False
      else
        let fb_phys = (if fb_address s \<ge> 0xFFFF800000000000
                       then fb_address s - 0xFFFF800000000000 else fb_address s)
        in fb_phys \<le> phys \<and> phys < fb_phys + ucast (fb_size s))"

section \<open>Frames and entries\<close>

definition round_up_page :: "u64 \<Rightarrow> u64" where
  "round_up_page a = (a + 0xFFF) AND NOT 0xFFF"

definition reserve_below :: "u64 \<Rightarrow> machine \<Rightarrow> machine" where
  "reserve_below addr s =
     (if addr \<le> reserved_end s then s
      else s\<lparr>mm_pmm := reserve_region 0 (round_up_page addr) (mm_pmm s), reserved_end := addr\<rparr>)"

definition paging_alloc_page :: "machine \<Rightarrow> (u64 \<times> machine) option" where
  "paging_alloc_page s =
     (let (phys, p) = alloc_page (mm_pmm s); s1 = s\<lparr>mm_pmm := p\<rparr>
      in if phys = 0 then Some (0, s1)
         else if IDENTITY_MAP_LIMIT \<le> phys then
           map_option (\<lambda>s2. (0, s2)) (pmm_free_page phys s1)
         else Some (phys, set_pmem (fill (pmem s1) phys 0 0x1000) s1))"

text \<open>The address of entry \<open>i\<close> of the table at \<open>t\<close>, and reading and writing it.\<close>

definition entry :: "u64 \<Rightarrow> nat \<Rightarrow> u64" where
  "entry t i = t + 8 * of_nat i"

definition get_entry :: "machine \<Rightarrow> u64 \<Rightarrow> nat \<Rightarrow> u64" where
  "get_entry s t i = read64 (pmem s) (entry t i)"

definition set_entry :: "u64 \<Rightarrow> nat \<Rightarrow> u64 \<Rightarrow> machine \<Rightarrow> machine" where
  "set_entry t i v s = set_pmem (write64 (pmem s) (entry t i) v) s"

definition present :: "u64 \<Rightarrow> bool" where
  "present e \<longleftrightarrow> e AND PAGE_PRESENT \<noteq> 0"

definition frame_of :: "u64 \<Rightarrow> u64" where
  "frame_of e = e AND NOT 0xFFF"

definition paging_init :: "machine \<Rightarrow> machine" where
  "paging_init s =
     (let s1 = fold (\<lambda>i. set_entry (kernel_pml4 s) i 0) [0..<512] s
      in if reserved_end s1 \<noteq> 0
         then s1\<lparr>mm_pmm := reserve_region 0 (round_up_page (reserved_end s1)) (mm_pmm s1)\<rparr>
         else s1)"

section \<open>Mapping and unmapping\<close>

definition pml4_i :: "u64 \<Rightarrow> nat" where "pml4_i va = unat (drop_bit 39 va AND 0x1FF)"
definition pdpt_i :: "u64 \<Rightarrow> nat" where "pdpt_i va = unat (drop_bit 30 va AND 0x1FF)"
definition pd_i :: "u64 \<Rightarrow> nat" where "pd_i va = unat (drop_bit 21 va AND 0x1FF)"
definition pt_i :: "u64 \<Rightarrow> nat" where "pt_i va = unat (drop_bit 12 va AND 0x1FF)"

definition upper_flags :: "u64 \<Rightarrow> u64" where
  "upper_flags flags =
     (let u = PAGE_PRESENT OR PAGE_WRITABLE
      in if flags AND PAGE_USER \<noteq> 0 then u OR PAGE_USER else u)"

text \<open>One level of the descent of \<open>map_page\<close>; \<open>None\<close> inside the result is the \<open>return false\<close>.\<close>

definition descend :: "u64 \<Rightarrow> nat \<Rightarrow> u64 \<Rightarrow> machine \<Rightarrow> (u64 option \<times> machine) option" where
  "descend t i upper s =
     (let e = get_entry s t i
      in if \<not> present e then
           Option.bind (paging_alloc_page s) (\<lambda>(p, s1).
             if p = 0 then Some (None, s1)
             else Some (Some p, set_entry t i (p OR upper) s1))
         else Some (Some (frame_of e), set_entry t i (e OR upper) s))"

definition set_leaf :: "u64 \<Rightarrow> u64 \<Rightarrow> u64 \<Rightarrow> u64 \<Rightarrow> machine \<Rightarrow> machine" where
  "set_leaf pt va pa flags s =
     (let was_present = present (get_entry s pt (pt_i va));
          s1 = set_entry pt (pt_i va) (frame_of pa OR flags) s
      in if was_present then s1\<lparr>invlpgs := va # invlpgs s1\<rparr> else s1)"

definition map_page :: "u64 \<Rightarrow> u64 \<Rightarrow> u64 \<Rightarrow> u64 \<Rightarrow> machine \<Rightarrow> (bool \<times> machine) option" where
  "map_page pml4 va pa flags s =
     Option.bind (descend pml4 (pml4_i va) (upper_flags flags) s) (\<lambda>(pdpt, s1).
     case pdpt of None \<Rightarrow> Some (False, s1) | Some pdpt \<Rightarrow>
     Option.bind (descend pdpt (pdpt_i va) (upper_flags flags) s1) (\<lambda>(pd, s2).
     case pd of None \<Rightarrow> Some (False, s2) | Some pd \<Rightarrow>
     Option.bind (descend pd (pd_i va) (upper_flags flags) s2) (\<lambda>(pt, s3).
     case pt of None \<Rightarrow> Some (False, s3) | Some pt \<Rightarrow>
     Some (True, set_leaf pt va pa flags s3))))"

definition unmap_page :: "u64 \<Rightarrow> u64 \<Rightarrow> machine \<Rightarrow> machine" where
  "unmap_page pml4 va s =
     (let e1 = get_entry s pml4 (pml4_i va) in if \<not> present e1 then s else
      let e2 = get_entry s (frame_of e1) (pdpt_i va) in if \<not> present e2 then s else
      let e3 = get_entry s (frame_of e2) (pd_i va) in if \<not> present e3 then s else
      let e4 = get_entry s (frame_of e3) (pt_i va) in if \<not> present e4 then s else
      let s1 = set_entry (frame_of e3) (pt_i va) 0 s
      in s1\<lparr>invlpgs := va # invlpgs s1\<rparr>)"

partial_function (option) map_range_loop ::
  "u64 \<Rightarrow> u64 \<Rightarrow> u64 \<Rightarrow> u64 \<Rightarrow> u64 \<Rightarrow> machine \<Rightarrow> (bool \<times> machine) option" where
  "map_range_loop start_virt start_phys stop flags offset s =
     (if start_virt + offset < stop then
        Option.bind (map_page (kernel_pml4 s) (start_virt + offset) (start_phys + offset) flags s)
          (\<lambda>(ok, s1). if ok
             then map_range_loop start_virt start_phys stop flags (offset + 0x1000) s1
             else Some (False, s1))
      else Some (True, s))"

definition map_range :: "u64 \<Rightarrow> u64 \<Rightarrow> u64 \<Rightarrow> u64 \<Rightarrow> machine \<Rightarrow> (bool \<times> machine) option" where
  "map_range virt phys sz flags s =
     map_range_loop (frame_of virt) (frame_of phys) (round_up_page (virt + sz)) flags 0 s"

definition setup_kernel_identity :: "machine \<Rightarrow> machine option" where
  "setup_kernel_identity s =
     Option.bind
       (for_each (\<lambda>i s. map_option snd
            (map_page (kernel_pml4 s) (of_nat i * 0x1000) (of_nat i * 0x1000)
               (PAGE_PRESENT OR PAGE_WRITABLE) s))
          [0..<0x10000] s)
       (\<lambda>s1. map_option snd
            (map_page (kernel_pml4 s1) 0xB8000 0xB8000 (PAGE_PRESENT OR PAGE_WRITABLE) s1))"

definition enable_paging :: "machine \<Rightarrow> machine option" where
  "enable_paging s =
     map_option (\<lambda>(ok, s1). s1\<lparr>cr3 := kernel_pml4 s1, cr4 := cr4 s1 OR push_bit 5 1,
                               cr0 := cr0 s1 OR push_bit 31 1\<rparr>)
       (map_range (fb_address s) (fb_address s) (ucast (fb_pitch s * fb_height s))
          (PAGE_PRESENT OR PAGE_WRITABLE) s)"

section \<open>Address spaces\<close>

definition create_address_space :: "machine \<Rightarrow> (u64 \<times> machine) option" where
  "create_address_space s =
     Option.bind (paging_alloc_page s) (\<lambda>(pml4, s1).
     if pml4 = 0 then Some (0, s1) else
     let s2 = fold (\<lambda>i s. set_entry pml4 i (get_entry s (kernel_pml4 s) i) s) [256..<512] s1 in
     Option.bind (paging_alloc_page s2) (\<lambda>(pdpt, s3).
     if pdpt = 0 then map_option (\<lambda>s4. (0, s4)) (pmm_free_page pml4 s3) else
     let kernel_pdpt = frame_of (get_entry s3 (kernel_pml4 s3) 0);
         s4 = (if kernel_pdpt \<noteq> 0
               then fold (\<lambda>i s. set_entry pdpt i (get_entry s kernel_pdpt i) s) [0..<512] s3
               else s3)
     in Some (pml4, set_entry pml4 0 (pdpt OR PAGE_PRESENT OR PAGE_WRITABLE OR PAGE_USER) s4)))"

text \<open>The four nested loops of \<open>destroy_user_pages\<close>, innermost first.\<close>

definition destroy_leaf :: "u64 \<Rightarrow> nat \<Rightarrow> machine \<Rightarrow> machine option" where
  "destroy_leaf pt ti s =
     (let pte = get_entry s pt ti
      in if \<not> present pte then Some s
         else if pte AND 0xFFF AND PAGE_USER \<noteq> 0 then
           if \<not> is_fb_phys_address s (frame_of pte)
           then map_option (set_entry pt ti 0) (pmm_free_page (frame_of pte) s)
           else Some s
         else Some s)"

definition destroy_pt :: "u64 \<Rightarrow> nat \<Rightarrow> machine \<Rightarrow> machine option" where
  "destroy_pt pd di s =
     (let pde = get_entry s pd di
      in if \<not> present pde then Some s else for_each (destroy_leaf (frame_of pde)) [0..<512] s)"

definition destroy_pd :: "u64 \<Rightarrow> nat \<Rightarrow> machine \<Rightarrow> machine option" where
  "destroy_pd pdpt pi s =
     (let pdpte = get_entry s pdpt pi
      in if \<not> present pdpte then Some s else for_each (destroy_pt (frame_of pdpte)) [0..<512] s)"

definition destroy_pdpt :: "u64 \<Rightarrow> nat \<Rightarrow> machine \<Rightarrow> machine option" where
  "destroy_pdpt pml4 i s =
     (let pml4e = get_entry s pml4 i
      in if \<not> present pml4e then Some s else for_each (destroy_pd (frame_of pml4e)) [0..<512] s)"

definition destroy_user_pages :: "u64 \<Rightarrow> machine \<Rightarrow> machine option" where
  "destroy_user_pages pml4 s = for_each (destroy_pdpt pml4) [0..<256] s"

text \<open>The loops of \<open>clone_user_pages\<close>; \<open>False\<close> leaves all of them.\<close>

definition path_va :: "nat \<Rightarrow> nat \<Rightarrow> nat \<Rightarrow> nat \<Rightarrow> u64" where
  "path_va pml4i pi di ti =
     push_bit 39 (of_nat pml4i) OR push_bit 30 (of_nat pi) OR push_bit 21 (of_nat di) OR
     push_bit 12 (of_nat ti)"

definition clone_leaf ::
  "u64 \<Rightarrow> u64 \<Rightarrow> nat \<Rightarrow> nat \<Rightarrow> nat \<Rightarrow> nat \<Rightarrow> machine \<Rightarrow> (bool \<times> machine) option" where
  "clone_leaf dst src_pt pml4i pi di ti s =
     (let pte = get_entry s src_pt ti
      in if \<not> present pte then Some (True, s) else
         let flags = pte AND 0xFFF
         in if flags AND PAGE_USER = 0 then Some (True, s) else
            let va = path_va pml4i pi di ti; phys = frame_of pte
            in if is_fb_phys_address s phys then
                 map_option (\<lambda>(_, s1). (True, s1)) (map_page dst va phys flags s)
               else
                 Option.bind (paging_alloc_page s) (\<lambda>(page, s1).
                 if page = 0 then Some (False, s1) else
                 Option.bind (map_page dst va page flags (set_pmem (copy (pmem s1) page phys 4096) s1))
                   (\<lambda>(ok, s2).
                 if ok then Some (True, s2)
                 else map_option (\<lambda>s3. (False, s3)) (pmm_free_page page s2))))"

definition clone_pt :: "u64 \<Rightarrow> u64 \<Rightarrow> nat \<Rightarrow> nat \<Rightarrow> nat \<Rightarrow> machine \<Rightarrow> (bool \<times> machine) option" where
  "clone_pt dst src_pd pml4i pi di s =
     (let pde = get_entry s src_pd di
      in if \<not> present pde then Some (True, s)
         else for_until (clone_leaf dst (frame_of pde) pml4i pi di) [0..<512] s)"

definition clone_pd :: "u64 \<Rightarrow> u64 \<Rightarrow> nat \<Rightarrow> nat \<Rightarrow> machine \<Rightarrow> (bool \<times> machine) option" where
  "clone_pd dst src_pdpt pml4i pi s =
     (let pdpte = get_entry s src_pdpt pi
      in if \<not> present pdpte then Some (True, s)
         else for_until (clone_pt dst (frame_of pdpte) pml4i pi) [0..<512] s)"

definition clone_pdpt :: "u64 \<Rightarrow> u64 \<Rightarrow> nat \<Rightarrow> machine \<Rightarrow> (bool \<times> machine) option" where
  "clone_pdpt dst src pml4i s =
     (let pml4e = get_entry s src pml4i
      in if \<not> present pml4e then Some (True, s)
         else for_until (clone_pd dst (frame_of pml4e) pml4i) [0..<512] s)"

definition clone_user_pages :: "u64 \<Rightarrow> u64 \<Rightarrow> machine \<Rightarrow> (bool \<times> machine) option" where
  "clone_user_pages dst src s = for_until (clone_pdpt dst src) [0..<256] s"

section \<open>PageTable objects\<close>

text \<open>A \<open>PageTable\<close> lives on the heap: \<open>pml4\<close> at offset 0 and \<open>phys\<close> at offset 8.\<close>

definition kmalloc_m :: "u64 \<Rightarrow> machine \<Rightarrow> (u64 \<times> machine) option" where
  "kmalloc_m n s = map_option (\<lambda>(p, h). (p, s\<lparr>mm_heap := h\<rparr>)) (kmalloc (mm_heap s) n)"

definition kfree_m :: "u64 \<Rightarrow> machine \<Rightarrow> machine option" where
  "kfree_m p s = map_option (\<lambda>h. s\<lparr>mm_heap := h\<rparr>) (kfree (mm_heap s) p)"

definition table_pml4 :: "machine \<Rightarrow> u64 \<Rightarrow> u64" where
  "table_pml4 s table = read64 (pmem s) table"

definition table_phys :: "machine \<Rightarrow> u64 \<Rightarrow> u64" where
  "table_phys s table = read64 (pmem s) (table + 8)"

definition PageTable_create :: "machine \<Rightarrow> (u64 \<times> machine) option" where
  "PageTable_create s =
     Option.bind (kmalloc_m 16 s) (\<lambda>(table, s1).
     if table = 0 then Some (0, s1) else
     Option.bind (create_address_space s1) (\<lambda>(pml4, s2).
     let s3 = set_pmem (write64 (pmem s2) table pml4) s2
     in if pml4 = 0 then map_option (\<lambda>s4. (0, s4)) (kfree_m table s3)
        else Some (table, set_pmem (write64 (pmem s3) (table + 8) pml4) s3)))"

definition PageTable_map :: "u64 \<Rightarrow> u64 \<Rightarrow> u64 \<Rightarrow> u64 \<Rightarrow> machine \<Rightarrow> (bool \<times> machine) option" where
  "PageTable_map table virt phys flags s = map_page (table_pml4 s table) virt phys flags s"

definition PageTable_unmap :: "u64 \<Rightarrow> u64 \<Rightarrow> machine \<Rightarrow> bool \<times> machine" where
  "PageTable_unmap table virt s = (True, unmap_page (table_pml4 s table) virt s)"

definition PageTable_activate :: "u64 \<Rightarrow> machine \<Rightarrow> machine" where
  "PageTable_activate table s = s\<lparr>cr3 := table_phys s table\<rparr>"

definition virt_to_phys :: "u64 \<Rightarrow> u64 \<Rightarrow> machine \<Rightarrow> u64" where
  "virt_to_phys table virt s =
     (let pdpt = frame_of (get_entry s (table_pml4 s table) (pml4_i virt)) in if pdpt = 0 then 0 else
      let pd = frame_of (get_entry s pdpt (pdpt_i virt)) in if pd = 0 then 0 else
      let pt = frame_of (get_entry s pd (pd_i virt)) in if pt = 0 then 0 else
      frame_of (get_entry s pt (pt_i virt)))"

definition clone_kernel_table :: "machine \<Rightarrow> (u64 \<times> machine) option" where
  "clone_kernel_table s = PageTable_create s"

definition switch_page_table :: "u64 \<Rightarrow> machine \<Rightarrow> machine" where
  "switch_page_table table s = (if table = 0 then s else s\<lparr>cr3 := table_phys s table\<rparr>)"

section \<open>Specification\<close>

text \<open>
  The tables as a tree. A path is a list of at most four indices; \<open>walk m r p\<close> is the table that
  the path \<open>p\<close> leads to from the root \<open>r\<close>, and \<open>mappings m r\<close> is the partial map from paths of
  length four to the leaf entries that are present. This map is what the tables mean to the
  processor, and what the operations are specified by.
\<close>

definition step :: "mem \<Rightarrow> u64 \<Rightarrow> nat \<Rightarrow> u64 option" where
  "step m t i =
     (let e = read64 m (entry t i) in if present e then Some (frame_of e) else None)"

fun walk :: "mem \<Rightarrow> u64 \<Rightarrow> nat list \<Rightarrow> u64 option" where
  "walk m t [] = Some t"
| "walk m t (i # p) = Option.bind (step m t i) (\<lambda>t'. walk m t' p)"

definition valid_path :: "nat list \<Rightarrow> bool" where
  "valid_path p \<longleftrightarrow> (\<forall>i\<in>set p. i < 512)"

definition leaf :: "mem \<Rightarrow> u64 \<Rightarrow> nat \<Rightarrow> u64 option" where
  "leaf m t i = (let e = read64 m (entry t i) in if present e then Some e else None)"

definition mappings :: "mem \<Rightarrow> u64 \<Rightarrow> nat list \<Rightarrow> u64 option" where
  "mappings m r p =
     (if valid_path p \<and> length p = 4
      then Option.bind (walk m r (butlast p)) (\<lambda>t. leaf m t (last p)) else None)"

text \<open>The leaf entry that mapping a page writes; without the present flag it is no mapping.\<close>

definition leaf_value :: "u64 \<Rightarrow> u64 \<Rightarrow> u64 option" where
  "leaf_value pa flags = (if present (frame_of pa OR flags) then Some (frame_of pa OR flags) else None)"

definition path :: "u64 \<Rightarrow> nat list" where
  "path va = [pml4_i va, pdpt_i va, pd_i va, pt_i va]"

text \<open>
  The invariant: the tables are whole pages, no two paths share a table, and no table is a frame
  that the allocator may hand out.
\<close>

definition page_aligned :: "u64 \<Rightarrow> bool" where
  "page_aligned a \<longleftrightarrow> unat a mod 4096 = 0"

definition tree_inv :: "u64 set \<Rightarrow> mem \<Rightarrow> u64 \<Rightarrow> bool" where
  "tree_inv F m r \<longleftrightarrow>
     (\<forall>p a. valid_path p \<and> length p \<le> 3 \<and> walk m r p = Some a \<longrightarrow>
        page_aligned a \<and> a \<notin> F \<and>
        (\<forall>q. valid_path q \<and> length q \<le> 3 \<and> walk m r q = Some a \<longrightarrow> q = p))"

abbreviation avail :: "machine \<Rightarrow> u64 set" where
  "avail s \<equiv> pmm_avail (mm_pmm s)"

definition paging_inv :: "u64 \<Rightarrow> machine \<Rightarrow> bool" where
  "paging_inv r s \<longleftrightarrow> pmm_inv (mm_pmm s) \<and> tree_inv (avail s) (pmem s) r"

section \<open>Entries of tables\<close>

lemma set_pmem_simps [simp]:
  "pmem (set_pmem m s) = m" "mm_pmm (set_pmem m s) = mm_pmm s"
  "kernel_pml4 (set_pmem m s) = kernel_pml4 s" "invlpgs (set_pmem m s) = invlpgs s"
  "fb_address (set_pmem m s) = fb_address s" "fb_size (set_pmem m s) = fb_size s"
  by (simp_all add: set_pmem_def)

lemma set_entry_simps [simp]:
  "pmem (set_entry t i v s) = write64 (pmem s) (entry t i) v" "mm_pmm (set_entry t i v s) = mm_pmm s"
  "kernel_pml4 (set_entry t i v s) = kernel_pml4 s" "invlpgs (set_entry t i v s) = invlpgs s"
  "fb_address (set_entry t i v s) = fb_address s" "fb_size (set_entry t i v s) = fb_size s"
  by (simp_all add: set_entry_def)

lemma page_alignedE:
  assumes "page_aligned t"
  obtains k where "unat t = 4096 * k" "k < 2 ^ 52"
proof -
  have "4096 dvd unat t" using assms by (simp only: page_aligned_def mod_eq_0_iff_dvd)
  then obtain k where k: "unat t = 4096 * k" by (elim dvdE)
  moreover have "k < 2 ^ 52" using unat_u64_less [of t] k by simp
  ultimately show ?thesis by (rule that)
qed

lemma unat_entry:
  assumes "page_aligned t" "i < 512"
  shows "unat (entry t i) = unat t + 8 * i"
proof -
  from assms(1) obtain k where k: "unat t = 4096 * k" "k < 2 ^ 52" by (rule page_alignedE)
  have "entry t i = adr (unat t + 8 * i)" by (simp add: entry_def adr_def)
  moreover have "unat t + 8 * i < 2 ^ 64" using k assms(2) by simp
  ultimately show ?thesis by (simp add: unat_adr)
qed

lemma aligned8_entry:
  assumes "page_aligned t" "i < 512"
  shows "aligned8 (entry t i)"
proof -
  from assms(1) obtain k where "unat t = 4096 * k" by (rule page_alignedE)
  then have "unat t + 8 * i = 8 * (512 * k + i)" by simp
  then show ?thesis by (simp add: aligned8_def unat_entry [OF assms])
qed

lemma entry_eq_iff:
  assumes "page_aligned t" "i < 512" "page_aligned t'" "j < 512"
  shows "entry t i = entry t' j \<longleftrightarrow> t = t' \<and> i = j"
proof
  assume "entry t i = entry t' j"
  then have eq: "unat t + 8 * i = unat t' + 8 * j"
    using unat_entry [OF assms(1,2)] unat_entry [OF assms(3,4)] by simp
  from assms(1) obtain k where k: "unat t = 4096 * k" by (rule page_alignedE)
  from assms(3) obtain k' where k': "unat t' = 4096 * k'" by (rule page_alignedE)
  have "k = k'" using eq k k' assms(2,4) by linarith
  with eq k k' show "t = t' \<and> i = j" by (simp add: word_unat_eq_iff)
qed simp

lemma read_write_entry:
  assumes "page_aligned t" "i < 512" "page_aligned t'" "j < 512"
  shows "read64 (write64 m (entry t i) v) (entry t' j) =
         (if t' = t \<and> j = i then v else read64 m (entry t' j))"
  using assms by (auto simp: read64_write64 aligned8_entry entry_eq_iff)

lemma page_apart:
  assumes "page_aligned p" "page_aligned t" "p \<noteq> t" "j < 512"
  shows "apart p 4096 (entry t j) 8"
proof (rule apart_nat)
  from assms(1) obtain k where k: "unat p = 4096 * k" "k < 2 ^ 52" by (rule page_alignedE)
  from assms(2) obtain l where l: "unat t = 4096 * l" "l < 2 ^ 52" by (rule page_alignedE)
  have "k \<noteq> l" using assms(3) k l by (auto simp: word_unat_eq_iff)
  then show "unat p + 4096 \<le> unat (entry t j) \<or> unat (entry t j) + 8 \<le> unat p"
    unfolding unat_entry [OF assms(2,4)] k(1) l(1) using assms(4) by linarith
  show "unat p + 4096 \<le> 2 ^ 64" using k by simp
  show "unat (entry t j) + 8 \<le> 2 ^ 64" using l assms(4) unat_entry [OF assms(2,4)] by simp
qed

lemma read_fill_other:
  "page_aligned p \<Longrightarrow> page_aligned t \<Longrightarrow> p \<noteq> t \<Longrightarrow> j < 512 \<Longrightarrow>
   read64 (fill m p v 4096) (entry t j) = read64 m (entry t j)"
  by (rule load_fill_apart) (rule page_apart)

lemma read_fill_zero:
  assumes "j < 512"
  shows "read64 (fill m p 0 4096) (entry p j) = 0"
proof (rule load_fill_zero)
  fix i :: nat assume "i < 8"
  have "entry p j + of_nat i - p = adr (8 * j + i)" by (simp add: entry_def adr_def)
  moreover have "8 * j + i < 4096" using assms \<open>i < 8\<close> by simp
  ultimately show "unat (entry p j + of_nat i - p) < 4096" by (simp add: unat_adr)
qed simp

lemma page_aligned_frame_of [simp]: "page_aligned (frame_of e)"
  unfolding page_aligned_def frame_of_def unat_round_down
  by (metis minus_mod_eq_mult_div mod_mult_self1_is_0)

lemma present_iff: "present e \<longleftrightarrow> bit e 0"
  by (simp add: present_def PAGE_PRESENT_def and_one_eq odd_iff_mod_2_eq_one bit_0)

lemma upper_flags_cases: "upper_flags f = 3 \<or> upper_flags f = 7"
  by (simp add: upper_flags_def PAGE_PRESENT_def PAGE_WRITABLE_def PAGE_USER_def)

lemma bit_0xFFF: "bit (0xFFF::u64) n \<longleftrightarrow> n < 12"
proof -
  have eq: "(0xFFF::u64) = mask 12" by (simp add: mask_eq_exp_minus_1)
  show ?thesis by (simp only: eq bit_mask_iff) auto
qed

lemma or_upper:
  "present (e OR upper_flags f)" "frame_of (e OR upper_flags f) = frame_of e"
proof -
  have eq: "(3::u64) = mask 2" "(7::u64) = mask 3" by (simp_all add: mask_eq_exp_minus_1)
  have b: "bit (upper_flags f) 0" "n \<ge> 12 \<Longrightarrow> \<not> bit (upper_flags f) n" for n
    using upper_flags_cases [of f] by (auto simp only: eq bit_mask_iff) auto
  show "present (e OR upper_flags f)" using b by (simp add: present_iff bit_simps)
  show "frame_of (e OR upper_flags f) = frame_of e"
    unfolding frame_of_def
    by (rule bit_word_eqI) (use b(2) in \<open>auto simp only: bit_and_iff bit_or_iff bit_not_iff bit_0xFFF not_less\<close>)
qed

lemma frame_of_aligned: "page_aligned p \<Longrightarrow> frame_of p = p"
  unfolding page_aligned_def frame_of_def word_unat_eq_iff unat_round_down by simp

section \<open>Walks\<close>

lemma walk_append: "walk m r (p @ q) = Option.bind (walk m r p) (\<lambda>t. walk m t q)"
  by (induction p arbitrary: r) (auto split: bind_splits)

lemma walk_snoc: "walk m r (p @ [i]) = Option.bind (walk m r p) (\<lambda>t. step m t i)"
  by (simp add: walk_append)

lemma valid_path_simps [simp]:
  "valid_path []" "valid_path (i # p) \<longleftrightarrow> i < 512 \<and> valid_path p"
  "valid_path (p @ q) \<longleftrightarrow> valid_path p \<and> valid_path q"
  by (auto simp: valid_path_def)

lemma mappings_snoc:
  "mappings m r (p @ [i]) =
     (if valid_path p \<and> i < 512 \<and> length p = 3
      then Option.bind (walk m r p) (\<lambda>t. leaf m t i) else None)"
  by (auto simp: mappings_def)

lemma mappings_eqI:
  assumes "\<And>p i. valid_path p \<Longrightarrow> i < 512 \<Longrightarrow> length p = 3 \<Longrightarrow>
      mappings m r (p @ [i]) = mappings m' r' (p @ [i])"
  shows "mappings m r = mappings m' r'"
proof
  fix p
  show "mappings m r p = mappings m' r' p"
  proof (cases "valid_path p \<and> length p = 4")
    case True
    then have "p \<noteq> []" by auto
    then have "p = butlast p @ [last p]" by simp
    moreover have "valid_path (butlast p)" "last p < 512" "length (butlast p) = 3"
      using True \<open>p \<noteq> []\<close> by (auto simp: valid_path_def dest: in_set_butlastD)
    ultimately show ?thesis using assms [of "butlast p" "last p"] by simp
  next
    case False
    then show ?thesis by (auto simp: mappings_def)
  qed
qed

lemma index_less [simp]: "pml4_i va < 512" "pdpt_i va < 512" "pd_i va < 512" "pt_i va < 512"
proof -
  have "unat (x AND 0x1FF) < 512" for x :: u64
  proof -
    have "x AND 0x1FF \<le> 0x1FF" by (rule word_and_le1)
    then show ?thesis by (simp add: word_le_nat_alt)
  qed
  then show "pml4_i va < 512" "pdpt_i va < 512" "pd_i va < 512" "pt_i va < 512"
    by (simp_all add: pml4_i_def pdpt_i_def pd_i_def pt_i_def)
qed

lemma valid_path_path [simp]: "valid_path (path va)" "length (path va) = 4"
  by (simp_all add: path_def)

lemma tree_invD:
  assumes "tree_inv F m r" "valid_path p" "length p \<le> 3" "walk m r p = Some a"
  shows "page_aligned a" "a \<notin> F"
    and "valid_path q \<Longrightarrow> length q \<le> 3 \<Longrightarrow> walk m r q = Some a \<Longrightarrow> q = p"
  using assms unfolding tree_inv_def by blast+

text \<open>A walk reads only the entries on its way.\<close>

lemma walk_cong:
  assumes "\<And>q t j. valid_path q \<Longrightarrow> length q < length p \<Longrightarrow> prefix (q @ [j]) p \<Longrightarrow>
      walk m r q = Some t \<Longrightarrow> j < 512 \<Longrightarrow> step m' t j = step m t j"
    and "valid_path p"
  shows "walk m' r p = walk m r p"
  using assms
proof (induction p rule: rev_induct)
  case Nil
  then show ?case by simp
next
  case (snoc j p)
  have "walk m' r p = walk m r p"
    using snoc.prems by (intro snoc.IH) (auto simp: less_Suc_eq)
  moreover have "step m' t j = step m t j" if "walk m r p = Some t" for t
    using snoc.prems that by auto
  ultimately show ?case by (auto simp: walk_snoc split: bind_splits)
qed

text \<open>Writing an entry of a table changes only the walks that go through that entry.\<close>

lemma step_write:
  assumes "page_aligned t" "i < 512" "page_aligned t'" "j < 512"
  shows "step (write64 m (entry t i) v) t' j =
           (if t' = t \<and> j = i then if present v then Some (frame_of v) else None else step m t' j)"
    and "leaf (write64 m (entry t i) v) t' j =
           (if t' = t \<and> j = i then if present v then Some v else None else leaf m t' j)"
  using assms by (auto simp: step_def leaf_def read_write_entry)

lemma walk_write:
  assumes tree: "tree_inv F m r" and p: "valid_path p" "length p \<le> 3" "walk m r p = Some t" "i < 512"
    and q: "valid_path q" "length q \<le> 4" "\<not> prefix (p @ [i]) q"
  shows "walk (write64 m (entry t i) v) r q = walk m r q"
proof (rule walk_cong [OF _ q(1)])
  fix q' t' and j :: nat
  assume a: "valid_path q'" "length q' < length q" "prefix (q' @ [j]) q" "walk m r q' = Some t'" "j < 512"
  have "\<not> (t' = t \<and> j = i)"
  proof
    assume "t' = t \<and> j = i"
    with a q(2) have "q' = p" using tree_invD(3) [OF tree p(1,2,3), of q'] by simp
    with a(3) q(3) \<open>t' = t \<and> j = i\<close> show False by simp
  qed
  then show "step (write64 m (entry t i) v) t' j = step m t' j"
    using tree_invD(1) [OF tree p(1-3)] tree_invD(1) [OF tree a(1) _ a(4)] a q(2) p(4)
    by (subst step_write) auto
qed

text \<open>Setting flags of an entry that is present changes no walk.\<close>

lemma walk_escalate:
  assumes tree: "tree_inv F m r" and p: "valid_path p" "length p \<le> 3" "walk m r p = Some t" "i < 512"
    and e: "read64 m (entry t i) = e" "present e" "present v" "frame_of v = frame_of e"
    and q: "valid_path q" "length q \<le> 4"
  shows "walk (write64 m (entry t i) v) r q = walk m r q"
proof (rule walk_cong [OF _ q(1)])
  fix q' t' and j :: nat
  assume a: "valid_path q'" "length q' < length q" "walk m r q' = Some t'" "j < 512"
  show "step (write64 m (entry t i) v) t' j = step m t' j"
    using tree_invD(1) [OF tree p(1-3)] tree_invD(1) [OF tree a(1) _ a(3)] a q(2) p(4) e
    by (subst step_write) (auto simp: step_def)
qed

lemma tree_inv_walks:
  assumes "tree_inv F m r" "F' \<subseteq> F"
    and "\<And>q. valid_path q \<Longrightarrow> length q \<le> 3 \<Longrightarrow> walk m' r q = walk m r q"
  shows "tree_inv F' m' r"
  unfolding tree_inv_def
proof (intro allI impI, elim conjE)
  fix p a assume p: "valid_path p" "length p \<le> 3" "walk m' r p = Some a"
  then have "walk m r p = Some a" using assms(3) by simp
  note d = tree_invD [OF assms(1) p(1,2) this]
  show "page_aligned a \<and> a \<notin> F' \<and> (\<forall>q. valid_path q \<and> length q \<le> 3 \<and> walk m' r q = Some a \<longrightarrow> q = p)"
    using d assms(2,3) by auto
qed

section \<open>Descending and mapping\<close>

text \<open>What the operations below leave alone, besides the memory, the allocator and the TLB log.\<close>

definition same_rest :: "machine \<Rightarrow> machine \<Rightarrow> bool" where
  "same_rest s s' \<longleftrightarrow>
     kernel_pml4 s' = kernel_pml4 s \<and> reserved_end s' = reserved_end s \<and>
     fb_address s' = fb_address s \<and> fb_size s' = fb_size s \<and> fb_pitch s' = fb_pitch s \<and>
     fb_height s' = fb_height s \<and> cr0 s' = cr0 s \<and> cr3 s' = cr3 s \<and> cr4 s' = cr4 s \<and>
     vmm_pml4 s' = vmm_pml4 s \<and> vmm_next s' = vmm_next s \<and>
     heap_head (mm_heap s') = heap_head (mm_heap s) \<and>
     alloc_cursor (mm_heap s') = alloc_cursor (mm_heap s)"

lemma same_rest_refl [simp]: "same_rest s s"
  by (simp add: same_rest_def)

lemma same_rest_trans: "same_rest s s1 \<Longrightarrow> same_rest s1 s2 \<Longrightarrow> same_rest s s2"
  by (simp add: same_rest_def)

lemma same_rest_updates [simp]:
  "same_rest s (set_pmem m s')  = same_rest s s'" "same_rest s (set_entry t i v s') = same_rest s s'"
  "same_rest s (s'\<lparr>mm_pmm := p\<rparr>) = same_rest s s'" "same_rest s (s'\<lparr>invlpgs := vs\<rparr>) = same_rest s s'"
  by (simp_all add: same_rest_def set_pmem_def set_entry_def)

lemma frame_page_aligned: "pmm_frame p \<Longrightarrow> page_aligned p"
  by (simp only: pmm_frame_def page_aligned_iff page_aligned_def)

lemma paging_alloc_page_spec:
  assumes "pmm_inv (mm_pmm s)"
  obtains (failed) s' where "paging_alloc_page s = Some (0, s')" "pmm_inv (mm_pmm s')"
      "avail s' = avail s" "pmem s' = pmem s" "same_rest s s'" "\<forall>a\<in>avail s. IDENTITY_MAP_LIMIT \<le> a"
      "invlpgs s' = invlpgs s"
  | (fresh) p s' where "paging_alloc_page s = Some (p, s')" "pmm_inv (mm_pmm s')" "p \<noteq> 0"
      "p \<in> avail s" "avail s' = avail s - {p}" "p < IDENTITY_MAP_LIMIT" "page_aligned p"
      "pmem s' = fill (pmem s) p 0 4096" "same_rest s s'" "invlpgs s' = invlpgs s"
proof -
  obtain p ps where a: "alloc_page (mm_pmm s) = (p, ps)" by (cases "alloc_page (mm_pmm s)")
  have keep: "pmm_inv ps" by (rule frames.alloc_keeps_inv [OF assms a])
  show ?thesis
  proof (cases "p = 0")
    case True
    then have "avail s = {}" using frames.alloc_nonzero_iff [OF assms a] by simp
    with a True keep pmm_alloc_none [OF assms] show ?thesis
      by (intro failed [of "s\<lparr>mm_pmm := ps\<rparr>"]) (simp_all add: paging_alloc_page_def)
  next
    case False
    note f = frames.alloc_fresh [OF assms a False]
    show ?thesis
    proof (cases "IDENTITY_MAP_LIMIT \<le> p")
      case True
      from pmm_free_frame [OF keep f(3) False] obtain ps' where
        ps': "free_page_opt p ps = Some ps'" "pmm_avail ps' = insert p (pmm_avail ps)" "pmm_inv ps'" by blast
      have "\<forall>q\<in>avail s. IDENTITY_MAP_LIMIT \<le> q" using pmm_alloc_min [OF assms a] True by force
      with a True False ps' f(1,2) show ?thesis
        by (intro failed [of "s\<lparr>mm_pmm := ps'\<rparr>"])
          (auto simp: paging_alloc_page_def pmm_free_page_def insert_absorb)
    next
      case limit: False
      let ?s1 = "s\<lparr>mm_pmm := ps\<rparr>"
      have eq: "paging_alloc_page s = Some (p, set_pmem (fill (pmem s) p 0 4096) ?s1)"
        using a False limit by (simp add: paging_alloc_page_def)
      with eq keep False limit f show ?thesis
        by (intro fresh [OF eq]) (simp_all add: frame_page_aligned)
    qed
  qed
qed

text \<open>The bytes that a write to an entry, or clearing a page, can change lie in that page.\<close>

lemma frame_of_offset:
  assumes "page_aligned t" "unat (x - t) < 4096"
  shows "frame_of x = t"
proof -
  from assms(1) obtain k where k: "unat t = 4096 * k" "k < 2 ^ 52" by (rule page_alignedE)
  have "unat (t + (x - t)) = unat t + unat (x - t)"
    using k assms(2) by (intro unat_add_u64) simp
  then have x: "unat x = 4096 * k + unat (x - t)" using k by simp
  have "unat (frame_of x) = unat x - unat x mod 4096" unfolding frame_of_def by (rule unat_round_down)
  also have "\<dots> = unat t" using x assms(2) k by simp
  finally show ?thesis by (simp only: word_unat_eq_iff)
qed

lemma fill_other: "page_aligned p \<Longrightarrow> frame_of x \<noteq> p \<Longrightarrow> fill m p v 4096 x = m x"
  using frame_of_offset by (auto simp: fill_def)

lemma write_entry_other:
  assumes "page_aligned t" "i < 512" "frame_of x \<noteq> t"
  shows "write64 m (entry t i) v x = m x"
proof -
  have "\<not> unat (x - entry t i) < 8"
  proof
    assume a: "unat (x - entry t i) < 8"
    have u: "unat (8 * of_nat i :: u64) = 8 * i"
      using unat_adr [of "8 * i"] assms(2) by (simp add: adr_def)
    have eq: "x - t = 8 * of_nat i + (x - entry t i)" by (simp add: entry_def)
    have "unat (x - t) = 8 * i + unat (x - entry t i)"
      unfolding eq by (subst unat_add_u64) (use u a assms(2) in simp_all)
    then have "unat (x - t) < 4096" using a assms(2) by linarith
    then show False using frame_of_offset [OF assms(1)] assms(3) by simp
  qed
  then show ?thesis by (simp add: store_def)
qed

definition tables :: "mem \<Rightarrow> u64 \<Rightarrow> u64 set" where
  "tables m r = {a. \<exists>p. valid_path p \<and> length p \<le> 3 \<and> walk m r p = Some a}"

text \<open>
  How a state may grow while tables are added: the invariant is kept, tables come from the
  available frames only, and no other byte of memory changes.
\<close>

definition grows :: "u64 \<Rightarrow> machine \<Rightarrow> machine \<Rightarrow> bool" where
  "grows r s s' \<longleftrightarrow>
     paging_inv r s' \<and> same_rest s s' \<and> avail s' \<subseteq> avail s \<and>
     tables (pmem s) r \<subseteq> tables (pmem s') r \<and>
     tables (pmem s') r \<subseteq> tables (pmem s) r \<union> (avail s - avail s') \<and>
     (\<forall>x. frame_of x \<notin> tables (pmem s) r \<union> avail s \<longrightarrow> pmem s' x = pmem s x)"

lemma grows_refl: "paging_inv r s \<Longrightarrow> grows r s s"
  by (simp add: grows_def)

lemma grows_trans: "grows r s s1 \<Longrightarrow> grows r s1 s2 \<Longrightarrow> grows r s s2"
  unfolding grows_def by (auto 4 3 intro: same_rest_trans)

lemma tables_eqI:
  "(\<And>q. valid_path q \<Longrightarrow> length q \<le> 3 \<Longrightarrow> walk m' r q = walk m r q) \<Longrightarrow> tables m' r = tables m r"
  by (auto simp: tables_def)

lemma tablesI: "valid_path p \<Longrightarrow> length p \<le> 3 \<Longrightarrow> walk m r p = Some a \<Longrightarrow> a \<in> tables m r"
  by (auto simp: tables_def)

text \<open>Writes below the root: an entry of an inner table whose frame stays, and a leaf entry.\<close>

lemma write_escalate:
  assumes inv: "paging_inv r s" and p: "valid_path p" "length p \<le> 2" "walk (pmem s) r p = Some t" "i < 512"
    and e: "present (get_entry s t i)" "present v" "frame_of v = frame_of (get_entry s t i)"
  shows "grows r s (set_entry t i v s)"
    and "mappings (pmem (set_entry t i v s)) r = mappings (pmem s) r"
    and "walk (pmem (set_entry t i v s)) r (p @ [i]) = Some (frame_of (get_entry s t i))"
proof -
  let ?m = "pmem s" let ?m' = "write64 ?m (entry t i) v"
  have tree: "tree_inv (avail s) ?m r" using inv by (simp add: paging_inv_def)
  have p3: "length p \<le> 3" using p(2) by simp
  note al = tree_invD(1) [OF tree p(1) p3 p(3)]
  have w: "walk ?m' r q = walk ?m r q" if "valid_path q" "length q \<le> 4" for q
    using walk_escalate [OF tree p(1) p3 p(3,4) _ e that] by (simp add: get_entry_def)
  have "paging_inv r (set_entry t i v s)"
    using inv w by (auto simp: paging_inv_def intro: tree_inv_walks)
  moreover have "tables ?m' r = tables ?m r" by (rule tables_eqI) (simp add: w)
  moreover have "?m' x = ?m x" if "frame_of x \<notin> tables ?m r" for x
    using write_entry_other [OF al p(4)] tablesI [OF p(1) p3 p(3)] that by metis
  ultimately show "grows r s (set_entry t i v s)" by (simp add: grows_def)
  have "leaf ?m' t' j = leaf ?m t' j"
    if "valid_path q" "j < 512" "length q = 3" "walk ?m r q = Some t'" for q t' j
  proof -
    have "t' \<noteq> t" using tree_invD(3) [OF tree p(1) p3 p(3), of q] that p(2) by auto
    then show ?thesis
      using step_write(2) [OF al p(4) tree_invD(1) [OF tree that(1) _ that(4)]] that by simp
  qed
  then show "mappings (pmem (set_entry t i v s)) r = mappings ?m r"
    by (intro mappings_eqI) (auto simp: mappings_snoc w split: bind_splits)
  show "walk (pmem (set_entry t i v s)) r (p @ [i]) = Some (frame_of (get_entry s t i))"
    using w [of "p @ [i]"] p e(1) by (simp add: walk_snoc step_def get_entry_def)
qed

lemma write_leaf:
  assumes inv: "paging_inv r s" and p: "valid_path p" "length p = 3" "walk (pmem s) r p = Some t" "i < 512"
  shows "grows r s (set_entry t i v s)"
    and "mappings (pmem (set_entry t i v s)) r =
         (mappings (pmem s) r)(p @ [i] := if present v then Some v else None)"
proof -
  let ?m = "pmem s" let ?m' = "write64 ?m (entry t i) v"
  have tree: "tree_inv (avail s) ?m r" using inv by (simp add: paging_inv_def)
  have p3: "length p \<le> 3" using p(2) by simp
  note al = tree_invD(1) [OF tree p(1) p3 p(3)]
  have w: "walk ?m' r q = walk ?m r q" if "valid_path q" "length q \<le> 3" for q
    using that p(2) by (intro walk_write [OF tree p(1) p3 p(3,4)]) (auto dest: prefix_length_le)
  have "paging_inv r (set_entry t i v s)"
    using inv w by (auto simp: paging_inv_def intro: tree_inv_walks)
  moreover have "tables ?m' r = tables ?m r" by (rule tables_eqI) (simp add: w)
  moreover have "?m' x = ?m x" if "frame_of x \<notin> tables ?m r" for x
    using write_entry_other [OF al p(4)] tablesI [OF p(1) p3 p(3)] that by metis
  ultimately show "grows r s (set_entry t i v s)" by (simp add: grows_def)
  show "mappings (pmem (set_entry t i v s)) r =
      (mappings ?m r)(p @ [i] := if present v then Some v else None)" (is "?l = ?r")
  proof
    fix q
    show "?l q = ?r q"
    proof (cases "valid_path q \<and> length q = 4")
      case False
      then show ?thesis using p by (auto simp: mappings_def)
    next
      case True
      then have "q \<noteq> []" by auto
      then obtain q' j where q: "q = q' @ [j]" by (metis append_butlast_last_id)
      with True have q': "valid_path q'" "j < 512" "length q' = 3" by simp_all
      show ?thesis
      proof (cases "walk ?m r q'")
        case None
        with q q' p show ?thesis by (auto simp: mappings_snoc w)
      next
        case (Some t')
        have "t' = t \<longleftrightarrow> q' = p" using tree_invD(3) [OF tree p(1) p3 p(3), of q'] q' Some p(3) by auto
        then show ?thesis
          using q q' Some step_write(2) [OF al p(4) tree_invD(1) [OF tree q'(1) _ Some] q'(2)]
          by (auto simp: mappings_snoc w)
      qed
    qed
  qed
qed

text \<open>A new table: a cleared frame linked into an entry that was not present.\<close>

lemma fill_fresh:
  assumes "tree_inv F m r" "n \<in> F" "page_aligned n" "valid_path q" "length q \<le> 4"
  shows "walk (fill m n 0 4096) r q = walk m r q"
proof (rule walk_cong [OF _ assms(4)])
  fix q' t' and j :: nat
  assume a: "valid_path q'" "length q' < length q" "walk m r q' = Some t'" "j < 512"
  note d = tree_invD [OF assms(1) a(1) _ a(3)]
  have "n \<noteq> t'" "page_aligned t'" using d assms(2,5) a(2) by auto
  then show "step (fill m n 0 4096) t' j = step m t' j"
    using a(4) assms(3) by (simp add: step_def read_fill_other)
qed

lemma link_fresh:
  assumes tree: "tree_inv F m r" and n: "n \<in> F" "page_aligned n"
    and p: "valid_path p" "length p \<le> 2" "walk m r p = Some t" "i < 512" "step m t i = None"
    and v: "present v" "frame_of v = n"
    and m': "m' = write64 (fill m n 0 4096) (entry t i) v"
  shows "valid_path q \<Longrightarrow> length q \<le> 3 \<Longrightarrow> walk m' r q = (if q = p @ [i] then Some n else walk m r q)"
    and "j < 512 \<Longrightarrow> leaf m' n j = None"
    and "valid_path q \<Longrightarrow> length q = 3 \<Longrightarrow> walk m r q = Some t' \<Longrightarrow> j < 512 \<Longrightarrow> leaf m' t' j = leaf m t' j"
proof -
  let ?m1 = "fill m n 0 4096"
  have p3: "length p \<le> 3" using p(2) by simp
  note d = tree_invD [OF tree p(1) p3 p(3)]
  have w1: "walk ?m1 r q = walk m r q" if "valid_path q" "length q \<le> 4" for q
    by (rule fill_fresh [OF tree n that])
  have tree1: "tree_inv F ?m1 r" by (rule tree_inv_walks [OF tree]) (simp_all add: w1)
  have t1: "walk ?m1 r p = Some t" using w1 p by simp
  have nt: "n \<noteq> t" using d n by blast
  have zero: "step m' n j = None" "leaf m' n j = None" if "j < 512" for j
    unfolding m' using step_write [OF d(1) p(4) n(2) that, of ?m1 v] nt that
    by (simp_all add: step_def leaf_def read_fill_zero present_def)
  show "j < 512 \<Longrightarrow> leaf m' n j = None" by (rule zero)
  show "walk m' r q = (if q = p @ [i] then Some n else walk m r q)" if q: "valid_path q" "length q \<le> 3"
  proof (cases "prefix (p @ [i]) q")
    case False
    then show ?thesis
      using walk_write [OF tree1 p(1) p3 t1 p(4), of q v] q w1 [of q] m' by auto
  next
    case True
    then obtain z where z: "q = p @ i # z" by (auto simp: prefix_def)
    have "walk m' r p = Some t"
      using walk_write [OF tree1 p(1) p3 t1 p(4), of p v] p t1 m' by (auto dest: prefix_length_le)
    moreover have "step m' t i = Some n"
      unfolding m' using step_write(1) [OF d(1) p(4) d(1) p(4)] v by simp
    ultimately show ?thesis
      using z q p zero by (cases z) (simp_all add: walk_append)
  qed
  show "leaf m' t' j = leaf m t' j"
    if q: "valid_path q" "length q = 3" "walk m r q = Some t'" and j: "j < 512"
  proof -
    note dq = tree_invD [OF tree q(1) _ q(3)]
    have "t' \<noteq> t" using d(3) [of q] q p(2) by auto
    moreover have "n \<noteq> t'" using dq n q(2) by auto
    moreover have "page_aligned t'" using dq(1) q(2) by simp
    ultimately show ?thesis
      unfolding m' using step_write(2) [OF d(1) p(4) _ j, of t' ?m1 v] j n(2)
      by (simp add: leaf_def read_fill_other)
  qed
qed

lemma descend_alloc:
  assumes inv: "paging_inv r s" and p: "valid_path p" "length p \<le> 2" "walk (pmem s) r p = Some t" "i < 512"
    and e: "step (pmem s) t i = None" and n: "n \<in> avail s" "page_aligned n"
    and s1: "pmem s1 = fill (pmem s) n 0 4096" "pmm_inv (mm_pmm s1)" "avail s1 = avail s - {n}" "same_rest s s1"
    and v: "present v" "frame_of v = n"
  shows "grows r s (set_entry t i v s1)"
    and "mappings (pmem (set_entry t i v s1)) r = mappings (pmem s) r"
    and "walk (pmem (set_entry t i v s1)) r (p @ [i]) = Some n"
proof -
  let ?m = "pmem s"
  define m' where "m' = pmem (set_entry t i v s1)"
  have tree: "tree_inv (avail s) ?m r" using inv by (simp add: paging_inv_def)
  have m': "m' = write64 (fill ?m n 0 4096) (entry t i) v" by (simp add: m'_def s1(1))
  note lk = link_fresh [OF tree n p e v m']
  have p3: "length p \<le> 3" using p(2) by simp
  note d = tree_invD [OF tree p(1) p3 p(3)]
  show "walk (pmem (set_entry t i v s1)) r (p @ [i]) = Some n"
    unfolding m'_def [symmetric] using lk(1) p by simp
  have tab: "tables m' r = insert n (tables ?m r)"
  proof -
    have none: "walk ?m r (p @ [i]) = None" using p(3) e by (simp add: walk_snoc)
    have "n \<in> tables m' r" using lk(1) p by (intro tablesI [of "p @ [i]"]) simp_all
    moreover have "a \<in> tables m' r" if "a \<in> tables ?m r" for a
    proof -
      from that obtain z where z: "valid_path z" "length z \<le> 3" "walk ?m r z = Some a"
        by (auto simp: tables_def)
      then have "z \<noteq> p @ [i]" using none by auto
      then show ?thesis using z by (intro tablesI [of z]) (simp_all add: lk(1))
    qed
    moreover have "a = n \<or> a \<in> tables ?m r" if "a \<in> tables m' r" for a
      using that unfolding tables_def by (auto simp: lk(1) split: if_splits)
    ultimately show ?thesis by auto
  qed
  have "tree_inv (avail s - {n}) m' r"
    unfolding tree_inv_def
  proof (intro allI impI, elim conjE)
    fix q a assume q: "valid_path q" "length q \<le> 3" "walk m' r q = Some a"
    have old: "a' \<noteq> n" if "valid_path z" "length z \<le> 3" "walk ?m r z = Some a'" for z a'
      using tree_invD(2) [OF tree that] n by auto
    show "page_aligned a \<and> a \<notin> avail s - {n} \<and>
        (\<forall>z. valid_path z \<and> length z \<le> 3 \<and> walk m' r z = Some a \<longrightarrow> z = q)"
    proof (cases "q = p @ [i]")
      case True
      then have "a = n" using q by (simp add: lk(1))
      then show ?thesis using True n(2) by (auto simp: lk(1) split: if_splits dest: old)
    next
      case False
      then have a: "walk ?m r q = Some a" using q by (simp add: lk(1))
      note dq = tree_invD [OF tree q(1,2) a]
      show ?thesis using dq old [OF q(1,2) a] by (auto simp: lk(1) split: if_splits)
    qed
  qed
  then have "paging_inv r (set_entry t i v s1)" using s1 by (simp add: paging_inv_def m'_def)
  moreover have "m' x = ?m x" if x: "frame_of x \<notin> tables ?m r \<union> avail s" for x
  proof -
    have "frame_of x \<noteq> t" "frame_of x \<noteq> n" using x n(1) tablesI [OF p(1) p3 p(3)] by auto
    then show ?thesis unfolding m' by (simp add: write_entry_other [OF d(1) p(4)] fill_other [OF n(2)])
  qed
  moreover have "same_rest s (set_entry t i v s1)" "avail (set_entry t i v s1) = avail s - {n}"
    using s1 by simp_all
  ultimately show "grows r s (set_entry t i v s1)"
    unfolding grows_def m'_def [symmetric] tab using n(1) by (simp add: Diff_Diff_Int subset_insertI)
  have "walk ?m r (p @ [i]) = None" using p(3) e by (simp add: walk_snoc)
  then have "mappings m' r (q @ [j]) = mappings ?m r (q @ [j])"
    if "valid_path q" "j < 512" "length q = 3" for q j
    using that lk(2) [of j] lk(3) [of q _ j]
    by (cases "walk ?m r q") (auto simp: mappings_snoc lk(1))
  then show "mappings (pmem (set_entry t i v s1)) r = mappings ?m r"
    unfolding m'_def [symmetric] by (rule mappings_eqI)
qed

lemma descend_spec:
  assumes inv: "paging_inv r s" and p: "valid_path p" "length p \<le> 2" "walk (pmem s) r p = Some t" "i < 512"
  obtains res s' where "descend t i (upper_flags f) s = Some (res, s')" "grows r s s'"
    "mappings (pmem s') r = mappings (pmem s) r" "invlpgs s' = invlpgs s"
    "\<And>t'. res = Some t' \<Longrightarrow> walk (pmem s') r (p @ [i]) = Some t'"
    "res = None \<Longrightarrow> \<forall>a\<in>avail s'. IDENTITY_MAP_LIMIT \<le> a"
    "res = None \<Longrightarrow> avail s \<subseteq> avail s'" "\<exists>n. avail s \<subseteq> insert n (avail s')"
proof (cases "present (get_entry s t i)")
  case True
  note w = write_escalate [OF inv p True or_upper [of "get_entry s t i" f]]
  show ?thesis
    using True w
    by (intro that [of "Some (frame_of (get_entry s t i))" "set_entry t i (get_entry s t i OR upper_flags f) s"])
      (simp_all add: descend_def Let_def subset_insertI)
next
  case False
  have pi: "pmm_inv (mm_pmm s)" using inv by (simp add: paging_inv_def)
  from pi show ?thesis
  proof (cases rule: paging_alloc_page_spec)
    case (failed s')
    have "grows r s s'" using inv failed by (simp add: grows_def paging_inv_def)
    with failed False show ?thesis by (intro that [of None s']) (auto simp: descend_def Let_def)
  next
    case (fresh n s1)
    have e: "step (pmem s) t i = None" using False by (simp add: step_def get_entry_def)
    have v: "present (n OR upper_flags f)" "frame_of (n OR upper_flags f) = n"
      using or_upper [of n f] frame_of_aligned [OF fresh(7)] by simp_all
    note w = descend_alloc [OF inv p e fresh(4,7,8,2,5,9) v]
    show ?thesis
      using False w fresh
      by (intro that [of "Some n" "set_entry t i (n OR upper_flags f) s1"]) (auto simp: descend_def Let_def)
  qed
qed

text \<open>The whole of \<open>map_page\<close>: the tables refine the partial map from paths to leaf entries.\<close>

lemma map_page_spec:
  assumes inv: "paging_inv r s"
  obtains ok s' where "map_page r va pa flags s = Some (ok, s')" "grows r s s'"
    "mappings (pmem s') r =
       (if ok then (mappings (pmem s) r)(path va := leaf_value pa flags)
        else mappings (pmem s) r)"
    "\<not> ok \<Longrightarrow> \<forall>a\<in>avail s'. IDENTITY_MAP_LIMIT \<le> a"
    "\<not> ok \<Longrightarrow> \<exists>n1 n2. avail s \<subseteq> {n1, n2} \<union> avail s'"
    "invlpgs s' = (if ok \<and> mappings (pmem s) r (path va) \<noteq> None then va # invlpgs s else invlpgs s)"
proof -
  have w0: "walk (pmem s) r [] = Some r" by simp
  from descend_spec [OF inv _ _ w0 index_less(1) [of va]] obtain r1 s1 where
    d1: "descend r (pml4_i va) (upper_flags flags) s = Some (r1, s1)" "grows r s s1"
      "mappings (pmem s1) r = mappings (pmem s) r" "invlpgs s1 = invlpgs s"
      "\<And>t. r1 = Some t \<Longrightarrow> walk (pmem s1) r [pml4_i va] = Some t"
      "r1 = None \<Longrightarrow> \<forall>a\<in>avail s1. IDENTITY_MAP_LIMIT \<le> a"
        "r1 = None \<Longrightarrow> avail s \<subseteq> avail s1" "\<exists>n. avail s \<subseteq> insert n (avail s1)" by auto
  show ?thesis
  proof (cases r1)
    case None
    with d1 show ?thesis by (intro that [of False s1]) (auto simp: map_page_def)
  next
    case (Some t1)
    have inv1: "paging_inv r s1" using d1(2) by (simp add: grows_def)
    from descend_spec [OF inv1 _ _ d1(5) [OF Some] index_less(2) [of va]] obtain r2 s2 where
      d2: "descend t1 (pdpt_i va) (upper_flags flags) s1 = Some (r2, s2)" "grows r s1 s2"
        "mappings (pmem s2) r = mappings (pmem s1) r" "invlpgs s2 = invlpgs s1"
        "\<And>t. r2 = Some t \<Longrightarrow> walk (pmem s2) r [pml4_i va, pdpt_i va] = Some t"
        "r2 = None \<Longrightarrow> \<forall>a\<in>avail s2. IDENTITY_MAP_LIMIT \<le> a"
        "r2 = None \<Longrightarrow> avail s1 \<subseteq> avail s2" "\<exists>n. avail s1 \<subseteq> insert n (avail s2)" by auto
    note g2 = grows_trans [OF d1(2) d2(2)]
    show ?thesis
    proof (cases r2)
      case None
      have "\<exists>n1 n2. avail s \<subseteq> {n1, n2} \<union> avail s2" using d1(8) d2(7) Some None by blast
      with d1 d2 Some None g2 show ?thesis by (intro that [of False s2]) (simp_all add: map_page_def)
    next
      case (Some t2)
      have inv2: "paging_inv r s2" using d2(2) by (simp add: grows_def)
      from descend_spec [OF inv2 _ _ d2(5) [OF Some] index_less(3) [of va]] obtain r3 s3 where
        d3: "descend t2 (pd_i va) (upper_flags flags) s2 = Some (r3, s3)" "grows r s2 s3"
          "mappings (pmem s3) r = mappings (pmem s2) r" "invlpgs s3 = invlpgs s2"
          "\<And>t. r3 = Some t \<Longrightarrow> walk (pmem s3) r [pml4_i va, pdpt_i va, pd_i va] = Some t"
          "r3 = None \<Longrightarrow> \<forall>a\<in>avail s3. IDENTITY_MAP_LIMIT \<le> a"
        "r3 = None \<Longrightarrow> avail s2 \<subseteq> avail s3" "\<exists>n. avail s2 \<subseteq> insert n (avail s3)" by auto
      note g3 = grows_trans [OF g2 d3(2)]
      show ?thesis
      proof (cases r3)
        case None
        have "\<exists>n1 n2. avail s \<subseteq> {n1, n2} \<union> avail s3"
          using d1(8) d2(8) d3(7) None by blast
        with d1 d2 d3 \<open>r1 = Some t1\<close> Some None g3 show ?thesis
          by (intro that [of False s3]) (simp_all add: map_page_def)
      next
        case (Some t3)
        have inv3: "paging_inv r s3" using d3(2) by (simp add: grows_def)
        note wl = write_leaf [OF inv3 _ _ d3(5) [OF Some] index_less(4) [of va]]
        have leaf: "mappings (pmem s3) r (path va) = leaf (pmem s3) t3 (pt_i va)"
          using mappings_snoc [of "pmem s3" r "[pml4_i va, pdpt_i va, pd_i va]" "pt_i va"] d3(5) [OF Some]
          by (simp add: path_def del: walk.simps)
        let ?s = "set_leaf t3 va pa flags s3"
        have run: "map_page r va pa flags s = Some (True, ?s)"
          using d1(1) d2(1) d3(1) \<open>r1 = Some t1\<close> \<open>r2 = Some t2\<close> Some by (simp add: map_page_def)
        have "grows r s3 ?s"
          using wl(1) [of "frame_of pa OR flags"]
          by (simp add: set_leaf_def Let_def grows_def paging_inv_def)
        moreover have "mappings (pmem ?s) r = (mappings (pmem s) r)(path va := leaf_value pa flags)"
          using wl(2) [of "frame_of pa OR flags"] d1(3) d2(3) d3(3)
          by (simp add: set_leaf_def Let_def path_def leaf_value_def)
        moreover have "invlpgs ?s = (if mappings (pmem s) r (path va) \<noteq> None then va # invlpgs s else invlpgs s)"
          using leaf d1(3,4) d2(3,4) d3(3,4)
          by (simp add: set_leaf_def Let_def leaf_def get_entry_def)
        ultimately show ?thesis using run grows_trans [OF g3] by (intro that [of True ?s]) simp_all
      qed
    qed
  qed
qed

lemma map_page_refines_grows:
  assumes "paging_inv r s"
  shows "\<exists>ok s'. map_page r va pa flags s = Some (ok, s') \<and> grows r s s'"
  by (rule map_page_spec [OF assms, of va pa flags]) blast

lemma unmap_page_spec:
  assumes inv: "paging_inv r s"
  shows "grows r s (unmap_page r va s)"
    and "mappings (pmem (unmap_page r va s)) r = (mappings (pmem s) r)(path va := None)"
    and "invlpgs (unmap_page r va s) =
         (if mappings (pmem s) r (path va) \<noteq> None then va # invlpgs s else invlpgs s)"
proof -
  let ?p = "[pml4_i va, pdpt_i va, pd_i va]"
  have pa: "path va = ?p @ [pt_i va]" by (simp add: path_def)
  have m: "mappings (pmem s) r (path va) = Option.bind (walk (pmem s) r ?p) (\<lambda>t. leaf (pmem s) t (pt_i va))"
    unfolding pa mappings_snoc by simp
  have all: "grows r s (unmap_page r va s) \<and>
      mappings (pmem (unmap_page r va s)) r = (mappings (pmem s) r)(path va := None) \<and>
      invlpgs (unmap_page r va s) =
         (if mappings (pmem s) r (path va) \<noteq> None then va # invlpgs s else invlpgs s)"
  proof (cases "mappings (pmem s) r (path va)")
    case None
    then have "unmap_page r va s = s"
      using m by (auto simp: unmap_page_def Let_def step_def leaf_def get_entry_def split: if_splits)
    then show ?thesis using None grows_refl [OF inv] by (simp add: fun_upd_idem)
  next
    case (Some e)
    then obtain t where t: "walk (pmem s) r ?p = Some t" "leaf (pmem s) t (pt_i va) = Some e"
      using m by (auto simp del: walk.simps split: bind_splits)
    have u: "unmap_page r va s = (set_entry t (pt_i va) 0 s)\<lparr>invlpgs := va # invlpgs s\<rparr>"
      using t by (auto simp: unmap_page_def Let_def step_def leaf_def get_entry_def split: if_splits bind_splits)
    note w = write_leaf [OF inv _ _ t(1) index_less(4) [of va], where v = 0]
    have "grows r s (unmap_page r va s)"
      unfolding u using w(1) by (simp add: grows_def paging_inv_def)
    then show ?thesis using Some w(2) unfolding u pa by (simp add: present_def)
  qed
  then show "grows r s (unmap_page r va s)"
    "mappings (pmem (unmap_page r va s)) r = (mappings (pmem s) r)(path va := None)"
    "invlpgs (unmap_page r va s) =
         (if mappings (pmem s) r (path va) \<noteq> None then va # invlpgs s else invlpgs s)" by simp_all
qed

section \<open>Ranges\<close>

text \<open>What mapping \<open>n\<close> consecutive pages does to the map from paths to leaf entries.\<close>

fun range_mappings ::
  "nat \<Rightarrow> u64 \<Rightarrow> u64 \<Rightarrow> u64 \<Rightarrow> (nat list \<Rightarrow> u64 option) \<Rightarrow> nat list \<Rightarrow> u64 option" where
  "range_mappings 0 va pa flags M = M"
| "range_mappings (Suc n) va pa flags M =
     range_mappings n (va + 0x1000) (pa + 0x1000) flags (M(path va := leaf_value pa flags))"

lemma map_range_loop_spec:
  assumes "paging_inv (kernel_pml4 s) s" "unat (sv + off) + 4096 * n = unat stop"
  shows "\<exists>ok s'. map_range_loop sv sp stop flags off s = Some (ok, s') \<and> grows (kernel_pml4 s) s s' \<and>
      (if ok then mappings (pmem s') (kernel_pml4 s) =
                  range_mappings n (sv + off) (sp + off) flags (mappings (pmem s) (kernel_pml4 s))
       else \<forall>a\<in>avail s'. IDENTITY_MAP_LIMIT \<le> a)"
  using assms
proof (induction n arbitrary: off s)
  case 0
  then have "map_range_loop sv sp stop flags off s = Some (True, s)"
    by (simp add: map_range_loop.simps word_less_nat_alt)
  with 0 grows_refl [of "kernel_pml4 s" s] show ?case by (intro exI [of _ True] exI [of _ s]) simp
next
  case (Suc n)
  let ?k = "kernel_pml4 s"
  have less: "sv + off < stop" using Suc.prems(2) by (simp add: word_less_nat_alt)
  obtain ok s1 where
    m: "map_page ?k (sv + off) (sp + off) flags s = Some (ok, s1)" "grows ?k s s1"
      "mappings (pmem s1) ?k = (if ok then (mappings (pmem s) ?k)(path (sv + off) := leaf_value (sp + off) flags)
         else mappings (pmem s) ?k)"
      "\<not> ok \<Longrightarrow> \<forall>a\<in>avail s1. IDENTITY_MAP_LIMIT \<le> a"
    by (rule map_page_spec [OF Suc.prems(1), of "sv + off" "sp + off" flags], rule that, assumption+)
  show ?case
  proof (cases ok)
    case False
    then have "map_range_loop sv sp stop flags off s = Some (False, s1)"
      using m(1) less by (subst map_range_loop.simps) simp
    with False m show ?thesis by (intro exI [of _ False] exI [of _ s1]) simp
  next
    case True
    have k1: "kernel_pml4 s1 = ?k" using m(2) by (simp add: grows_def same_rest_def)
    have "unat (sv + off + 0x1000) = unat (sv + off) + 4096"
      using Suc.prems(2) unat_u64_less [of stop] by (subst unat_add_u64) simp_all
    then have u: "unat (sv + (off + 0x1000)) + 4096 * n = unat stop"
      using Suc.prems(2) by (simp add: add.assoc)
    have i1: "paging_inv ?k s1" using m(2) by (simp add: grows_def)
    from Suc.IH [of s1 "off + 0x1000", unfolded k1, OF i1 u] obtain ok' s' where
      r: "map_range_loop sv sp stop flags (off + 0x1000) s1 = Some (ok', s')" "grows ?k s1 s'"
        "if ok' then mappings (pmem s') ?k =
            range_mappings n (sv + (off + 0x1000)) (sp + (off + 0x1000)) flags (mappings (pmem s1) ?k)
         else \<forall>a\<in>avail s'. IDENTITY_MAP_LIMIT \<le> a" by blast
    have "map_range_loop sv sp stop flags off s = Some (ok', s')"
      using less m(1) True r(1) by (subst map_range_loop.simps) simp
    then show ?thesis using grows_trans [OF m(2) r(2)] r(3) m(3) True by (simp add: add.assoc)
  qed
qed

section \<open>New address spaces\<close>

declare upt_rec_numeral [simp del]

text \<open>The loops that copy entries from one table to another.\<close>

definition copy_entries :: "u64 \<Rightarrow> u64 \<Rightarrow> nat list \<Rightarrow> machine \<Rightarrow> machine" where
  "copy_entries dst src ks s = fold (\<lambda>i s. set_entry dst i (get_entry s src i) s) ks s"

lemma copy_entries_spec:
  assumes "page_aligned d" "page_aligned sr" "d \<noteq> sr" "\<forall>i\<in>set ks. i < 512" "distinct ks"
  shows "page_aligned t \<Longrightarrow> j < 512 \<Longrightarrow> read64 (pmem (copy_entries d sr ks s)) (entry t j) =
           (if t = d \<and> j \<in> set ks then read64 (pmem s) (entry sr j) else read64 (pmem s) (entry t j))"
    and "frame_of x \<noteq> d \<Longrightarrow> pmem (copy_entries d sr ks s) x = pmem s x"
    and "mm_pmm (copy_entries d sr ks s) = mm_pmm s"
    and "same_rest s (copy_entries d sr ks s)" "invlpgs (copy_entries d sr ks s) = invlpgs s"
  using assms(4,5)
proof (induction ks arbitrary: s)
  case Nil
  { case 1 then show ?case by (simp add: copy_entries_def) }
  { case 2 then show ?case by (simp add: copy_entries_def) }
  { case 3 then show ?case by (simp add: copy_entries_def) }
  { case 4 then show ?case by (simp add: copy_entries_def) }
  { case 5 then show ?case by (simp add: copy_entries_def) }
next
  case (Cons i ks)
  let ?s1 = "\<lambda>s. set_entry d i (get_entry s sr i) s"
  have eq: "copy_entries d sr (i # ks) s = copy_entries d sr ks (?s1 s)" for s by (simp add: copy_entries_def)
  { case 1
    then show ?case unfolding eq using Cons.IH(1) [of "?s1 s"] assms
      by (auto simp: read_write_entry get_entry_def) }
  { case 2 then show ?case unfolding eq using Cons.IH(2) [of "?s1 s"] assms
      by (simp add: write_entry_other) }
  { case 3 then show ?case unfolding eq using Cons.IH(3) [of "?s1 s"] by simp }
  { case 4 then show ?case unfolding eq using Cons.IH(4) [of "?s1 s"] same_rest_trans [of s "?s1 s"] by simp }
  { case 5 then show ?case unfolding eq using Cons.IH(5) [of "?s1 s"] by simp }
qed

text \<open>
  The memory of a new address space: two fresh pages, the root and the low table, whose entries
  are those of the kernel's root (upper half) and of the kernel's low table.
\<close>

definition new_space :: "mem \<Rightarrow> u64 \<Rightarrow> mem \<Rightarrow> u64 \<Rightarrow> u64 \<Rightarrow> bool" where
  "new_space m k m' n1 n2 \<longleftrightarrow>
     (\<forall>t j. page_aligned t \<and> j < 512 \<longrightarrow>
        read64 m' (entry t j) =
          (if t = n1 then if j = 0 then n2 OR 7 else if 256 \<le> j then read64 m (entry k j) else 0
           else if t = n2 then read64 m (entry (frame_of (read64 m (entry k 0))) j)
           else read64 m (entry t j)))"

lemma walk_apart:
  assumes "tree_inv F m k" "n1 \<in> F" "n2 \<in> F" "new_space m k m' n1 n2"
    "valid_path p" "length p \<le> 3" "walk m k p = Some t" "valid_path q" "length p + length q \<le> 4"
  shows "walk m' t q = walk m t q"
proof (rule walk_cong [OF _ assms(8)])
  fix q' t' and j :: nat
  assume a: "valid_path q'" "length q' < length q" "walk m t q' = Some t'" "j < 512"
  have "walk m k (p @ q') = Some t'" using assms(7) a(3) by (simp add: walk_append)
  note d = tree_invD [OF assms(1) _ _ this]
  have "page_aligned t'" "t' \<noteq> n1" "t' \<noteq> n2"
    using d(1,2) assms(2,3,5,9) a(1,2) by auto
  then show "step m' t' j = step m t' j"
    using assms(4) a(4) by (simp add: new_space_def step_def)
qed

lemma new_space_walk:
  assumes tree: "tree_inv F m k" and n: "n1 \<in> F" "n2 \<in> F" "n1 \<noteq> n2" "page_aligned n1" "page_aligned n2"
    and sp: "new_space m k m' n1 n2" and pr: "present (read64 m (entry k 0))"
    and q: "valid_path q" "length q \<le> 3"
  shows "walk m' n1 q =
     (if q = [] then Some n1 else if q = [0] then Some n2
      else if hd q = 0 \<or> 256 \<le> hd q then walk m k q else None)"
proof (cases q)
  case Nil
  then show ?thesis by simp
next
  case (Cons i q')
  have k: "page_aligned k" using tree_invD(1) [OF tree, of "[]"] by simp
  have three: "upper_flags 4 = 7"
    by (simp add: upper_flags_def PAGE_PRESENT_def PAGE_WRITABLE_def PAGE_USER_def)
  have v: "present (n2 OR 7)" "frame_of (n2 OR 7) = n2"
    using or_upper [of n2 4] frame_of_aligned [OF n(5)] unfolding three by simp_all
  have st: "step m' n1 i = (if i = 0 then Some n2 else if 256 \<le> i then step m k i else None)"
    using sp n q Cons v by (simp add: new_space_def step_def present_def [of 0])
  let ?kt = "frame_of (read64 m (entry k 0))"
  have s0: "step m k 0 = Some ?kt" using pr by (simp add: step_def)
  have st2: "step m' n2 j = step m ?kt j" if "j < 512" for j
    using sp n that by (simp add: new_space_def step_def)
  have wa: "walk m' t z = walk m t z"
    if "walk m k p = Some t" "valid_path p" "valid_path z" "length p + length z \<le> 4" "length p \<le> 3" for p t z
    using walk_apart [OF tree n(1,2) sp that(2,5,1,3,4)] .
  consider "i = 0" "q' = []" | j q'' where "i = 0" "q' = j # q''" | "i \<noteq> 0" by (cases q') auto
  then show ?thesis
  proof cases
    case 1
    then show ?thesis using Cons st by simp
  next
    case (2 j q'')
    have "walk m' t q'' = walk m t q''" if "step m ?kt j = Some t" for t
      using wa [of "[0, j]" t q''] that q Cons 2 s0 by simp
    then show ?thesis using Cons 2 st st2 s0 q by (cases "step m ?kt j") simp_all
  next
    case 3
    have "walk m' t q' = walk m t q'" if "step m k i = Some t" for t
      using wa [of "[i]" t q'] that q Cons by simp
    then show ?thesis using Cons 3 st by (cases "step m k i") auto
  qed
qed

lemma copy_from_kernel:
  "fold (\<lambda>i s. set_entry d i (get_entry s (kernel_pml4 s) i) s) ks s = copy_entries d (kernel_pml4 s) ks s"
  unfolding copy_entries_def by (induction ks arbitrary: s) simp_all

lemma create_address_space_spec:
  assumes inv: "paging_inv (kernel_pml4 s) s" and pr: "present (get_entry s (kernel_pml4 s) 0)"
    and nz: "frame_of (get_entry s (kernel_pml4 s) 0) \<noteq> 0"
  obtains (failed) s' where "create_address_space s = Some (0, s')" "pmm_inv (mm_pmm s')"
      "avail s' = avail s" "same_rest s s'" "\<forall>x. frame_of x \<notin> avail s \<longrightarrow> pmem s' x = pmem s x"
  | (ok) n1 n2 s' where "create_address_space s = Some (n1, s')" "pmm_inv (mm_pmm s')" "n1 \<noteq> 0"
      "n1 \<in> avail s" "n2 \<in> avail s" "n1 \<noteq> n2" "page_aligned n1" "page_aligned n2"
      "avail s' = avail s - {n1, n2}"
      "same_rest s s'" "new_space (pmem s) (kernel_pml4 s) (pmem s') n1 n2"
      "\<forall>x. frame_of x \<noteq> n1 \<and> frame_of x \<noteq> n2 \<longrightarrow> pmem s' x = pmem s x"
proof -
  let ?k = "kernel_pml4 s" let ?kt = "frame_of (get_entry s ?k 0)"
  have tree: "tree_inv (avail s) (pmem s) ?k" and pi: "pmm_inv (mm_pmm s)"
    using inv by (simp_all add: paging_inv_def)
  have k: "page_aligned ?k" "?k \<notin> avail s" using tree_invD(1,2) [OF tree, of "[]"] by simp_all
  have kt: "?kt \<notin> avail s"
    using tree_invD(2) [OF tree, of "[0]"] pr by (simp add: step_def get_entry_def)
  from pi show ?thesis
  proof (cases rule: paging_alloc_page_spec)
    case (failed s1)
    then show ?thesis by (intro that(1) [of s1]) (simp_all add: create_address_space_def)
  next
    case (fresh n1 s1)
    have k1: "kernel_pml4 s1 = ?k" using fresh(9) by (simp add: same_rest_def)
    define s2 where "s2 = copy_entries n1 ?k [256..<512] s1"
    have n1k: "n1 \<noteq> ?k" using fresh(4) k(2) by auto
    note c2 = copy_entries_spec [OF fresh(7) k(1) n1k, where ks = "[256..<512]" and s = s1, folded s2_def, simplified]
    have k2: "kernel_pml4 s2 = ?k" using c2(4) k1 by (simp add: same_rest_def)
    have run: "create_address_space s = Option.bind (paging_alloc_page s2) (\<lambda>(pdpt, s3).
        if pdpt = 0 then map_option (\<lambda>s4. (0, s4)) (pmm_free_page n1 s3) else
        let kernel_pdpt = frame_of (get_entry s3 (kernel_pml4 s3) 0);
            s4 = (if kernel_pdpt \<noteq> 0 then copy_entries pdpt kernel_pdpt [0..<512] s3 else s3)
        in Some (n1, set_entry n1 0 (pdpt OR 7) s4))"
      using fresh(1,3) k1
      by (simp add: create_address_space_def copy_from_kernel s2_def copy_entries_def Let_def
          PAGE_PRESENT_def PAGE_WRITABLE_def PAGE_USER_def cong: if_cong)
    have p2: "pmm_inv (mm_pmm s2)" using c2(3) fresh(2) by simp
    have m2: "pmem s2 x = pmem s x" if "frame_of x \<noteq> n1" for x
      using that c2(2) [of x] fresh(7,8) by (simp add: fill_other)
    from p2 show ?thesis
    proof (cases rule: paging_alloc_page_spec)
      case f2: (failed s3)
      have fr: "pmm_frame n1" using pmm_avail_frame [OF pi] fresh(4) by blast
      from pmm_free_frame [OF f2(2) fr fresh(3)] obtain ps where
        ps: "free_page_opt n1 (mm_pmm s3) = Some ps" "pmm_avail ps = insert n1 (avail s3)" "pmm_inv ps" by blast
      have "create_address_space s = Some (0, s3\<lparr>mm_pmm := ps\<rparr>)"
        using run f2(1) ps(1) by (simp add: pmm_free_page_def)
      moreover have "pmm_avail ps = avail s" using ps(2) f2(3) c2(3) fresh(4,5) by auto
      moreover have "same_rest s (s3\<lparr>mm_pmm := ps\<rparr>)"
        using same_rest_trans [OF same_rest_trans [OF fresh(9) c2(4)] f2(5)] by simp
      moreover have "\<forall>x. frame_of x \<notin> avail s \<longrightarrow> pmem s3 x = pmem s x"
        using fresh(4) unfolding f2(4) by (metis m2)
      ultimately show ?thesis using ps(3) by (intro that(1) [of "s3\<lparr>mm_pmm := ps\<rparr>"]) simp_all
    next
      case f2: (fresh n2 s3)
      have n2: "n2 \<in> avail s" "n2 \<noteq> n1" using f2(4) c2(3) fresh(5) by auto
      have k3: "kernel_pml4 s3 = ?k" using f2(9) k2 by (simp add: same_rest_def)
      have r3: "read64 (pmem s3) (entry t j) =
          (if t = n2 then 0 else if t = n1 then if 256 \<le> j then read64 (pmem s) (entry ?k j) else 0
           else read64 (pmem s) (entry t j))" if t: "page_aligned t" "j < 512" for t j
      proof -
        have "read64 (fill (pmem s) n1 0 4096) (entry ?k j) = read64 (pmem s) (entry ?k j)"
          using t fresh(7) k(1) n1k by (simp add: read_fill_other)
        then show ?thesis
          using t f2(7,8) fresh(7,8) c2(1) [OF t] n2
          by (simp add: read_fill_zero read_fill_other)
      qed
      have kt3: "frame_of (get_entry s3 ?k 0) = ?kt"
        using r3 [OF k(1), of 0] k n2 n1k by (auto simp: get_entry_def)
      have n2kt: "n2 \<noteq> ?kt" "n1 \<noteq> ?kt" using n2 fresh(4) kt by auto
      define s4 where "s4 = copy_entries n2 ?kt [0..<512] s3"
      note c4 = copy_entries_spec [OF f2(7) page_aligned_frame_of n2kt(1), where ks = "[0..<512]" and s = s3,
          folded s4_def, simplified]
      let ?s' = "set_entry n1 0 (n2 OR 7) s4"
      have "create_address_space s = Some (n1, ?s')"
        using run f2(1,3) k3 kt3 nz by (simp add: s4_def)
      moreover have "new_space (pmem s) ?k (pmem ?s') n1 n2"
        unfolding new_space_def
      proof (intro allI impI, elim conjE)
        fix t j assume t: "page_aligned t" "j < (512::nat)"
        have z: "(0::nat) < 512" by simp
        have "read64 (pmem s3) (entry ?kt j) = read64 (pmem s) (entry ?kt j)"
          using r3 [OF page_aligned_frame_of t(2)] n2kt by auto
        then show "read64 (pmem ?s') (entry t j) =
          (if t = n1 then if j = 0 then n2 OR 7 else if 256 \<le> j then read64 (pmem s) (entry ?k j) else 0
           else if t = n2 then read64 (pmem s) (entry (frame_of (read64 (pmem s) (entry ?k 0))) j)
           else read64 (pmem s) (entry t j))"
          using read_write_entry [OF fresh(7) z t, of "pmem s4" "n2 OR 7"] c4(1) [OF t] r3 [OF t] t n2
          by (cases "t = n1"; cases "t = n2") (simp_all add: get_entry_def)
      qed
      moreover have "\<forall>x. frame_of x \<noteq> n1 \<and> frame_of x \<noteq> n2 \<longrightarrow> pmem ?s' x = pmem s x"
        using c4(2) f2(7,8) m2 fresh(7) by (simp add: write_entry_other fill_other)
      moreover have "same_rest s ?s'"
        using same_rest_trans [OF same_rest_trans [OF same_rest_trans [OF fresh(9) c2(4)] f2(9)] c4(4)] by simp
      moreover have "avail ?s' = avail s - {n1, n2}" using c4(3) f2(5) c2(3) fresh(5) by auto
      moreover have "pmm_inv (mm_pmm ?s')" using c4(3) f2(2) by simp
      ultimately show ?thesis
        using fresh(3,4,7) f2(7) n2 by (intro that(2) [of n1 ?s' n2]) simp_all
    qed
  qed
qed

lemma unchanged_outside:
  assumes tree: "tree_inv F m r" and same: "\<forall>x. frame_of x \<notin> F \<longrightarrow> m' x = m x"
  shows "valid_path q \<Longrightarrow> length q \<le> 3 \<Longrightarrow> walk m' r q = walk m r q" and "mappings m' r = mappings m r"
proof -
  have rd: "read64 m' (entry t j) = read64 m (entry t j)" if "page_aligned t" "t \<notin> F" "j < 512" for t j
  proof (rule load_cong)
    fix i :: nat assume "i < 8"
    have "unat (entry t j + of_nat i - t) < 4096"
    proof -
      have "entry t j + of_nat i - t = adr (8 * j + i)" by (simp add: entry_def adr_def)
      then show ?thesis using that(3) \<open>i < 8\<close> by (simp add: unat_adr)
    qed
    then show "m' (entry t j + of_nat i) = m (entry t j + of_nat i)"
      using same frame_of_offset [OF that(1)] that(2) by metis
  qed
  have w: "walk m' r q = walk m r q" if "valid_path q" "length q \<le> 3" for q
  proof (rule walk_cong [OF _ that(1)])
    fix q' t' and j :: nat
    assume a: "valid_path q'" "length q' < length q" "walk m r q' = Some t'" "j < 512"
    show "step m' t' j = step m t' j"
      using rd [OF _ _ a(4)] tree_invD(1,2) [OF tree a(1) _ a(3)] a(2) that(2) by (simp add: step_def)
  qed
  then show "valid_path q \<Longrightarrow> length q \<le> 3 \<Longrightarrow> walk m' r q = walk m r q" by blast
  have "mappings m' r (q @ [j]) = mappings m r (q @ [j])" if "valid_path q" "j < 512" "length q = 3" for q j
    using that w [of q] rd [of _ j] tree_invD(1,2) [OF tree that(1)]
    by (cases "walk m r q") (simp_all add: mappings_snoc leaf_def)
  then show "mappings m' r = mappings m r" by (rule mappings_eqI)
qed

lemma new_space_tree:
  assumes tree: "tree_inv F m k" and n: "n1 \<in> F" "n2 \<in> F" "n1 \<noteq> n2" "page_aligned n1" "page_aligned n2"
    and sp: "new_space m k m' n1 n2" and pr: "present (read64 m (entry k 0))"
  shows "tree_inv (F - {n1, n2}) m' n1"
  unfolding tree_inv_def
proof (intro allI impI, elim conjE)
  note w = new_space_walk [OF tree n sp pr]
  have old: "a' \<noteq> n1 \<and> a' \<noteq> n2 \<and> a' \<notin> F \<and> page_aligned a'"
    if "valid_path z" "length z \<le> 3" "walk m k z = Some a'" for z a'
    using tree_invD(1,2) [OF tree that] n by auto
  fix q a assume q: "valid_path q" "length q \<le> 3" "walk m' n1 q = Some a"
  have shape: "z = [] \<and> b = n1 \<or> z = [0] \<and> b = n2 \<or>
      walk m k z = Some b \<and> b \<noteq> n1 \<and> b \<noteq> n2 \<and> b \<notin> F \<and> page_aligned b"
    if z: "valid_path z" "length z \<le> 3" "walk m' n1 z = Some b" for z b
    using z(3) old [OF z(1,2)] unfolding w [OF z(1,2)] by (simp split: if_splits)
  have uniq: "z = q" if z: "valid_path z" "length z \<le> 3" "walk m' n1 z = Some a" for z
    using shape [OF q] shape [OF z] n(3) tree_invD(3) [OF tree q(1,2) _ z(1,2)] by metis
  have "page_aligned a \<and> a \<notin> F - {n1, n2}"
    using shape [OF q] n(4,5) by blast
  with uniq show "page_aligned a \<and> a \<notin> F - {n1, n2} \<and>
      (\<forall>z. valid_path z \<and> length z \<le> 3 \<and> walk m' n1 z = Some a \<longrightarrow> z = q)" by blast
qed

lemma new_space_mappings:
  assumes tree: "tree_inv F m k" and n: "n1 \<in> F" "n2 \<in> F" "n1 \<noteq> n2" "page_aligned n1" "page_aligned n2"
    and sp: "new_space m k m' n1 n2" and pr: "present (read64 m (entry k 0))"
  shows "mappings m' n1 p =
     (if p \<noteq> [] \<and> (hd p = 0 \<or> 256 \<le> hd p) then mappings m k p else None)"
proof (cases "valid_path p \<and> length p = 4")
  case False
  then show ?thesis by (auto simp: mappings_def)
next
  case True
  then have "p \<noteq> []" by auto
  then obtain q j where p: "p = q @ [j]" by (metis append_butlast_last_id)
  with True have q: "valid_path q" "length q = 3" "j < 512" by simp_all
  then have "hd p = hd q" "q \<noteq> []" "q \<noteq> [0]" using p by (cases q; auto)+
  moreover have "leaf m' t j = leaf m t j" if "walk m k q = Some t" for t
    using tree_invD(1,2) [OF tree q(1) _ that] q n sp by (auto simp: leaf_def new_space_def)
  moreover have "walk m' n1 q = (if hd q = 0 \<or> 256 \<le> hd q then walk m k q else None)"
    using new_space_walk [OF tree n sp pr q(1)] q(2) calculation(2,3) by simp
  ultimately show ?thesis
    using p q by (cases "walk m k q") (simp_all add: mappings_snoc)
qed

section \<open>Destroying the user pages\<close>

definition user_leaf :: "machine \<Rightarrow> u64 \<Rightarrow> bool" where
  "user_leaf s e \<longleftrightarrow> e AND 0xFFF AND PAGE_USER \<noteq> 0 \<and> \<not> is_fb_phys_address s (frame_of e)"

text \<open>The leaf entries under the root \<open>r\<close> that are the process's own: user pages outside the frame buffer.\<close>

definition owned :: "u64 \<Rightarrow> machine \<Rightarrow> nat list \<Rightarrow> u64 \<Rightarrow> bool" where
  "owned r s p e \<longleftrightarrow> mappings (pmem s) r p = Some e \<and> user_leaf s e"

definition frames_owned :: "u64 \<Rightarrow> machine \<Rightarrow> nat list set \<Rightarrow> u64 set" where
  "frames_owned r s P = {frame_of e |p e. p \<in> P \<and> owned r s p e}"

definition destroyed :: "u64 \<Rightarrow> machine \<Rightarrow> nat list set \<Rightarrow> machine \<Rightarrow> bool" where
  "destroyed r s0 P s \<longleftrightarrow>
     paging_inv r s \<and> same_rest s0 s \<and>
     (\<forall>q. valid_path q \<and> length q \<le> 3 \<longrightarrow> walk (pmem s) r q = walk (pmem s0) r q) \<and>
     (\<forall>p. mappings (pmem s) r p =
        (if p \<in> P \<and> (\<exists>e. owned r s0 p e) then None else mappings (pmem s0) r p)) \<and>
     avail s = avail s0 \<union> frames_owned r s0 P"

lemma destroyed_cong:
  assumes "\<And>p e. owned r s0 p e \<Longrightarrow> p \<in> P \<longleftrightarrow> p \<in> P'"
  shows "destroyed r s0 P s = destroyed r s0 P' s"
proof -
  have "frames_owned r s0 P = frames_owned r s0 P'" using assms by (auto simp: frames_owned_def)
  moreover have "(p \<in> P \<and> (\<exists>e. owned r s0 p e)) = (p \<in> P' \<and> (\<exists>e. owned r s0 p e))" for p
    using assms by auto
  ultimately show ?thesis by (simp add: destroyed_def)
qed

lemma tree_inv_insert: "tree_inv F m r \<Longrightarrow> a \<notin> tables m r \<Longrightarrow> tree_inv (insert a F) m r"
  unfolding tree_inv_def tables_def by auto

lemma is_fb_same_rest: "same_rest s s' \<Longrightarrow> is_fb_phys_address s' = is_fb_phys_address s"
  by (simp add: fun_eq_iff is_fb_phys_address_def same_rest_def)

definition frames_good :: "u64 \<Rightarrow> machine \<Rightarrow> bool" where
  "frames_good r s \<longleftrightarrow>
     (\<forall>p e. owned r s p e \<and> hd p < 256 \<longrightarrow>
        pmm_frame (frame_of e) \<and> frame_of e \<noteq> 0 \<and> frame_of e \<notin> tables (pmem s) r)"

lemma destroy_leaf_step:
  assumes good: "frames_good r s0" and D: "destroyed r s0 P s"
    and q: "valid_path q" "length q = 3" "walk (pmem s0) r q = Some t" "i < 512" "hd q < 256"
  shows "\<exists>s'. destroy_leaf t i s = Some s' \<and> destroyed r s0 (P \<union> {p. prefix (q @ [i]) p}) s'"
proof -
  have below: "destroyed r s0 (P \<union> {p. prefix (q @ [i]) p}) s' = destroyed r s0 (insert (q @ [i]) P) s'" for s'
    by (rule destroyed_cong)
      (use q(2) in \<open>auto simp: owned_def mappings_def prefix_def split: if_splits\<close>)
  have wt: "walk (pmem s) r q = Some t" using D q by (simp add: destroyed_def)
  have mq: "mappings (pmem s) r (q @ [i]) = leaf (pmem s) t i"
    using wt q by (simp add: mappings_snoc)
  have ul: "user_leaf s = user_leaf s0"
    using D is_fb_same_rest [of s0 s] by (simp add: fun_eq_iff user_leaf_def destroyed_def)
  have idle: "destroyed r s0 (insert (q @ [i]) P) s" if "\<nexists>e. owned r s0 (q @ [i]) e \<and> q @ [i] \<notin> P"
    using D destroyed_cong [of r s0 "insert (q @ [i]) P" P s] that by auto
  show ?thesis
  proof (cases "\<exists>e. leaf (pmem s) t i = Some e \<and> user_leaf s e")
    case False
    have "\<nexists>e. owned r s0 (q @ [i]) e \<and> q @ [i] \<notin> P"
      using False D mq ul by (auto simp: destroyed_def owned_def split: if_splits)
    moreover have "destroy_leaf t i s = Some s"
      using False by (auto simp: destroy_leaf_def Let_def leaf_def user_leaf_def get_entry_def split: if_splits)
    ultimately show ?thesis using idle below by simp
  next
    case True
    then obtain e where e: "leaf (pmem s) t i = Some e" "user_leaf s e" by blast
    have own: "owned r s0 (q @ [i]) e" "q @ [i] \<notin> P"
      using D e mq ul by (auto simp: destroyed_def owned_def split: if_splits)
    have hd: "hd (q @ [i]) < 256" using q(2,5) by (cases q) auto
    with good own have g: "pmm_frame (frame_of e)" "frame_of e \<noteq> 0" "frame_of e \<notin> tables (pmem s0) r"
      by (auto simp: frames_good_def)
    have pi: "paging_inv r s" using D by (simp add: destroyed_def)
    from pmm_free_frame [of "mm_pmm s", OF _ g(1,2)] pi obtain ps where
      ps: "free_page_opt (frame_of e) (mm_pmm s) = Some ps"
        "pmm_avail ps = insert (frame_of e) (avail s)" "pmm_inv ps" by (auto simp: paging_inv_def)
    have ge: "get_entry s t i = e" "present e"
      using e(1) by (auto simp: leaf_def Let_def get_entry_def split: if_splits)
    let ?s1 = "s\<lparr>mm_pmm := ps\<rparr>"
    have run: "destroy_leaf t i s = Some (set_entry t i 0 ?s1)"
      using ge e(2) ps(1) by (simp add: destroy_leaf_def Let_def user_leaf_def pmm_free_page_def)
    have "tables (pmem s) r = tables (pmem s0) r" using D by (intro tables_eqI) (simp add: destroyed_def)
    then have pi1: "paging_inv r ?s1"
      using pi ps g(3) by (simp add: paging_inv_def tree_inv_insert)
    have wt1: "walk (pmem ?s1) r q = Some t" using wt by simp
    note w = write_leaf [OF pi1 q(1,2) wt1 q(4), where v = 0]
    have wk: "walk (pmem (set_entry t i 0 ?s1)) r z = walk (pmem s0) r z"
      if z: "valid_path z" "length z \<le> 3" for z
    proof -
      have tr: "tree_inv (avail s) (pmem s) r" using pi by (simp add: paging_inv_def)
      have "walk (write64 (pmem s) (entry t i) 0) r z = walk (pmem s) r z"
        using z q(2) by (intro walk_write [OF tr q(1) _ wt q(4)]) (auto dest: prefix_length_le)
      then show ?thesis using D z by (simp add: destroyed_def)
    qed
    have av: "frames_owned r s0 (insert (q @ [i]) P) = insert (frame_of e) (frames_owned r s0 P)"
      using own(1) by (auto simp: frames_owned_def owned_def)
    have "destroyed r s0 (insert (q @ [i]) P) (set_entry t i 0 ?s1)"
      unfolding destroyed_def
    proof (intro conjI allI impI)
      show "paging_inv r (set_entry t i 0 ?s1)" using w(1) by (simp add: grows_def)
      show "same_rest s0 (set_entry t i 0 ?s1)" using D by (simp add: destroyed_def)
      show "avail (set_entry t i 0 ?s1) = avail s0 \<union> frames_owned r s0 (insert (q @ [i]) P)"
        unfolding av using D ps(2) by (simp add: destroyed_def)
      fix p
      show "mappings (pmem (set_entry t i 0 ?s1)) r p =
          (if p \<in> insert (q @ [i]) P \<and> (\<exists>e. owned r s0 p e) then None else mappings (pmem s0) r p)"
        unfolding w(2) using D own(1) by (auto simp: destroyed_def present_def)
    qed (use wk in blast)
    with run below show ?thesis by simp
  qed
qed

text \<open>One level of the nested loops, for any body that does its part below the entry it is given.\<close>

lemma destroy_level:
  assumes D: "destroyed r s0 P s"
    and q: "valid_path q" "length q \<le> 2" "walk (pmem s0) r q = Some t" "i < 512"
    and body: "\<And>j t' P s. j < 512 \<Longrightarrow> walk (pmem s0) r (q @ [i]) = Some t' \<Longrightarrow> destroyed r s0 P s \<Longrightarrow>
        \<exists>s'. f t' j s = Some s' \<and> destroyed r s0 (P \<union> {p. prefix (q @ [i, j]) p}) s'"
  shows "\<exists>s'. (if \<not> present (get_entry s t i) then Some s
               else for_each (f (frame_of (get_entry s t i))) [0..<512] s) = Some s' \<and>
              destroyed r s0 (P \<union> {p. prefix (q @ [i]) p}) s'"
proof -
  have "walk (pmem s) r (q @ [i]) = walk (pmem s0) r (q @ [i])" "walk (pmem s) r q = Some t"
    using D q by (auto simp: destroyed_def)
  then have st: "step (pmem s) t i = walk (pmem s0) r (q @ [i])" by (simp add: walk_snoc)
  show ?thesis
  proof (cases "present (get_entry s t i)")
    case False
    then have none: "walk (pmem s0) r (q @ [i]) = None" using st by (simp add: step_def get_entry_def)
    have "\<not> prefix (q @ [i]) p" if "owned r s0 p e" for p e
    proof
      assume pre: "prefix (q @ [i]) p"
      have "length p = 4" "p \<noteq> []" using that by (auto simp: owned_def mappings_def split: if_splits)
      then obtain p' x where p: "p = p' @ [x]" "length p' = 3"
        by (metis append_butlast_last_id length_butlast diff_Suc_1 eval_nat_numeral(2) semiring_norm(26,27))
      with pre q(2) obtain z where "p' = (q @ [i]) @ z" by (auto elim: prefixE)
      then have "walk (pmem s0) r (butlast p) = None"
        using none p by (simp only: walk_append [of _ _ "q @ [i]"] butlast_snoc bind.bind_lzero)
      then show False using that by (simp add: owned_def mappings_def split: if_splits)
    qed
    then have "destroyed r s0 (P \<union> {p. prefix (q @ [i]) p}) s"
      using D destroyed_cong [of r s0 "P \<union> {p. prefix (q @ [i]) p}" P s] by auto
    with False show ?thesis by simp
  next
    case True
    let ?t = "frame_of (get_entry s t i)"
    have t: "walk (pmem s0) r (q @ [i]) = Some ?t" using st True by (simp add: step_def get_entry_def)
    have "\<exists>s'. for_each (f ?t) [0..<512] s = Some s' \<and>
        destroyed r s0 (P \<union> (\<Union>j\<in>set [0..<512]. {p. prefix (q @ [i, j]) p})) s'"
      using body [OF _ t] D by (intro for_each_accumulate) auto
    moreover have "destroyed r s0 (P \<union> (\<Union>j\<in>set [0..<512]. {p. prefix (q @ [i, j]) p})) s' =
        destroyed r s0 (P \<union> {p. prefix (q @ [i]) p}) s'" for s'
    proof (rule destroyed_cong)
      fix p e assume o: "owned r s0 p e"
      then have v: "valid_path p" "length p = 4" by (auto simp: owned_def mappings_def split: if_splits)
      have "prefix (q @ [i]) p \<longleftrightarrow> (\<exists>j<512. prefix (q @ [i, j]) p)"
      proof
        assume "prefix (q @ [i]) p"
        then obtain z where z: "p = q @ i # z" by (auto simp: prefix_def)
        then obtain j z' where "z = j # z'" using v q(2) by (cases z) auto
        with z v show "\<exists>j<512. prefix (q @ [i, j]) p" by (auto simp: prefix_def)
      qed (auto simp: prefix_def)
      then show "p \<in> P \<union> (\<Union>j\<in>set [0..<512]. {p. prefix (q @ [i, j]) p}) \<longleftrightarrow> p \<in> P \<union> {p. prefix (q @ [i]) p}"
        by auto
    qed
    ultimately show ?thesis using True by simp
  qed
qed

lemma destroy_user_pages_spec:
  assumes inv: "paging_inv r s" and good: "frames_good r s"
  obtains s' where "destroy_user_pages r s = Some s'" "destroyed r s {p. p \<noteq> [] \<and> hd p < 256} s'"
proof -
  have init: "destroyed r s {} s"
    using inv by (simp add: destroyed_def frames_owned_def)
  have pt: "\<exists>s'. destroy_pt t i s1 = Some s' \<and> destroyed r s (P \<union> {p. prefix (q @ [i]) p}) s'"
    if "destroyed r s P s1" "valid_path q" "length q = 2" "walk (pmem s) r q = Some t" "i < 512" "hd q < 256"
    for q t i P s1
  proof -
    have "hd (q @ [i]) < 256" using that by (cases q) auto
    then show ?thesis
      unfolding destroy_pt_def Let_def
      using that destroy_leaf_step [OF good, of _ _ "q @ [i]"]
      by (intro destroy_level [OF that(1,2)]) auto
  qed
  have pd: "\<exists>s'. destroy_pd t i s1 = Some s' \<and> destroyed r s (P \<union> {p. prefix (q @ [i]) p}) s'"
    if "destroyed r s P s1" "valid_path q" "length q = 1" "walk (pmem s) r q = Some t" "i < 512" "hd q < 256"
    for q t i P s1
  proof -
    have "hd (q @ [i]) < 256" using that by (cases q) auto
    then show ?thesis
      unfolding destroy_pd_def Let_def
      using that pt [of _ _ "q @ [i]"]
      by (intro destroy_level [OF that(1,2)]) auto
  qed
  have pdpt: "\<exists>s'. destroy_pdpt r i s1 = Some s' \<and> destroyed r s (P \<union> {p. prefix [i] p}) s'"
    if "destroyed r s P s1" "i < 256" for i P s1
    unfolding destroy_pdpt_def Let_def
    using that pd [of _ _ "[i]"] destroy_level [OF that(1), of "[]" r i destroy_pd] by simp
  have "\<exists>s'. for_each (destroy_pdpt r) [0..<256] s = Some s' \<and>
      destroyed r s ({} \<union> (\<Union>i\<in>set [0..<256]. {p. prefix [i] p})) s'"
    using pdpt init by (intro for_each_accumulate) auto
  then obtain s' where s': "destroy_user_pages r s = Some s'"
      "destroyed r s (\<Union>i\<in>set [0..<256]. {p. prefix [i] p}) s'"
    by (auto simp: destroy_user_pages_def)
  have "(\<Union>i\<in>set [0..<256]. {p. prefix [i] p}) = {p. p \<noteq> [] \<and> hd p < (256::nat)}"
    by (auto simp: prefix_def neq_Nil_conv)
  with s' that show ?thesis by simp
qed

section \<open>Properties\<close>

text \<open>
  C2: \<open>map_page\<close> always comes back. When it returns true, the tables map exactly the pages they
  mapped before, and the page of \<open>va\<close> to the frame of \<open>pa\<close> with the given flags; a stale
  translation is flushed and a fresh one is not. When it returns false no mapping changed, and at
  most two usable frames were available. In both cases the tables stay a tree of frames the
  allocator does not own, and no byte outside the tables and the available frames changes.
\<close>

theorem map_page_refines:
  assumes "paging_inv r s"
  shows "\<exists>ok s'. map_page r va pa flags s = Some (ok, s') \<and> paging_inv r s' \<and>
      mappings (pmem s') r =
        (if ok then (mappings (pmem s) r)(path va := leaf_value pa flags) else mappings (pmem s) r) \<and>
      (\<not> ok \<longrightarrow> card {a \<in> avail s. a < IDENTITY_MAP_LIMIT} \<le> 2) \<and>
      invlpgs s' = (if ok \<and> mappings (pmem s) r (path va) \<noteq> None then va # invlpgs s else invlpgs s) \<and>
      (\<forall>x. frame_of x \<notin> tables (pmem s) r \<union> avail s \<longrightarrow> pmem s' x = pmem s x)"
proof -
  obtain ok s' where m: "map_page r va pa flags s = Some (ok, s')" "grows r s s'"
    "mappings (pmem s') r =
       (if ok then (mappings (pmem s) r)(path va := leaf_value pa flags) else mappings (pmem s) r)"
    "\<not> ok \<Longrightarrow> \<forall>a\<in>avail s'. IDENTITY_MAP_LIMIT \<le> a"
    "\<not> ok \<Longrightarrow> \<exists>n1 n2. avail s \<subseteq> {n1, n2} \<union> avail s'"
    "invlpgs s' = (if ok \<and> mappings (pmem s) r (path va) \<noteq> None then va # invlpgs s else invlpgs s)"
    by (rule map_page_spec [OF assms, of va pa flags], rule that, assumption+)
  have "card {a \<in> avail s. a < IDENTITY_MAP_LIMIT} \<le> 2" if "\<not> ok"
  proof -
    from m(5) [OF that] obtain n1 n2 where "avail s \<subseteq> {n1, n2} \<union> avail s'" by blast
    then have "{a \<in> avail s. a < IDENTITY_MAP_LIMIT} \<subseteq> {n1, n2}" using m(4) [OF that] by (auto simp: not_less [symmetric])
    then have "card {a \<in> avail s. a < IDENTITY_MAP_LIMIT} \<le> card {n1, n2}" by (intro card_mono) auto
    also have "\<dots> \<le> 2" by (simp add: card_insert_if)
    finally show ?thesis .
  qed
  with m show ?thesis unfolding grows_def by (intro exI [of _ ok] exI [of _ s']) simp
qed

text \<open>
  C33: \<open>unmap_page\<close> removes the mapping of the page of \<open>va\<close> and no other, flushes its translation
  exactly when there was one, keeps the tree of tables and touches no memory outside it.
\<close>

theorem unmap_page_refines:
  assumes "paging_inv r s"
  shows "mappings (pmem (unmap_page r va s)) r = (mappings (pmem s) r)(path va := None) \<and>
      invlpgs (unmap_page r va s) =
        (if mappings (pmem s) r (path va) \<noteq> None then va # invlpgs s else invlpgs s) \<and>
      paging_inv r (unmap_page r va s) \<and>
      (\<forall>x. frame_of x \<notin> tables (pmem s) r \<union> avail s \<longrightarrow> pmem (unmap_page r va s) x = pmem s x)"
  using unmap_page_spec [OF assms, of va] unfolding grows_def by simp

text \<open>
  Unmapping undoes mapping: if the page of \<open>va\<close> was not mapped, a successful \<open>map_page\<close> followed
  by \<open>unmap_page\<close> gives back the mappings of before.
\<close>

theorem map_unmap_roundtrip:
  assumes "paging_inv r s" "mappings (pmem s) r (path va) = None" "map_page r va pa flags s = Some (True, s1)"
  shows "mappings (pmem (unmap_page r va s1)) r = mappings (pmem s) r"
proof -
  obtain ok s' where m: "map_page r va pa flags s = Some (ok, s')" "grows r s s'"
    "mappings (pmem s') r =
       (if ok then (mappings (pmem s) r)(path va := leaf_value pa flags) else mappings (pmem s) r)"
    by (rule map_page_spec [OF assms(1), of va pa flags]) blast
  then have "ok" "s' = s1" using assms(3) by simp_all
  with m have "paging_inv r s1" "mappings (pmem s1) r = (mappings (pmem s) r)(path va := leaf_value pa flags)"
    by (simp_all add: grows_def)
  then show ?thesis using unmap_page_spec(2) [of r s1 va] assms(2) by (simp add: fun_upd_idem)
qed

text \<open>
  \<open>map_range\<close> always comes back when the range does not wrap around the address space. When
  it returns true, it has mapped every page that meets \<open>[virt, virt + size)\<close>, in order, to the
  frames that follow that of \<open>phys\<close>, and no other page; when it returns false, no usable frame is
  left.
\<close>

theorem map_range_refines:
  assumes "paging_inv (kernel_pml4 s) s" "unat virt + unat sz + 4095 < 2 ^ 64"
  shows "\<exists>ok s'. map_range virt phys sz flags s = Some (ok, s') \<and> paging_inv (kernel_pml4 s) s' \<and>
      (if ok then mappings (pmem s') (kernel_pml4 s) =
          range_mappings ((unat virt + unat sz + 4095) div 4096 - unat virt div 4096)
            (frame_of virt) (frame_of phys) flags (mappings (pmem s) (kernel_pml4 s))
       else \<forall>a\<in>avail s'. IDENTITY_MAP_LIMIT \<le> a)"
proof -
  let ?n = "(unat virt + unat sz + 4095) div 4096 - unat virt div 4096"
  have "unat (virt + sz + 0xFFF) = unat virt + unat sz + 4095"
    using assms(2) by (simp add: unat_add_u64)
  then have stop: "unat (round_up_page (virt + sz)) = 4096 * ((unat virt + unat sz + 4095) div 4096)"
    unfolding round_up_page_def unat_round_down by (simp add: minus_mod_eq_mult_div)
  have start: "unat (frame_of virt) = 4096 * (unat virt div 4096)"
    unfolding frame_of_def unat_round_down by (simp add: minus_mod_eq_mult_div)
  have "unat virt div 4096 \<le> (unat virt + unat sz + 4095) div 4096" by (rule div_le_mono) simp
  with stop start have "unat (frame_of virt + 0) + 4096 * ?n = unat (round_up_page (virt + sz))"
    by (simp add: diff_mult_distrib2)
  from map_range_loop_spec [OF assms(1) this, of "frame_of phys" flags] obtain ok s' where
    "map_range virt phys sz flags s = Some (ok, s')" "grows (kernel_pml4 s) s s'"
    "if ok then mappings (pmem s') (kernel_pml4 s) =
       range_mappings ?n (frame_of virt) (frame_of phys) flags (mappings (pmem s) (kernel_pml4 s))
     else \<forall>a\<in>avail s'. IDENTITY_MAP_LIMIT \<le> a"
    unfolding map_range_def by (simp only: add_0_right) blast
  then show ?thesis by (intro exI [of _ ok] exI [of _ s']) (simp add: grows_def)
qed


text \<open>
  C35: \<open>destroy_user_pages\<close> comes back, removes exactly the user mappings of the lower half that are
  not of the frame buffer, gives exactly their frames back to the allocator, and keeps every other
  mapping and the tree of tables. Its frames must be frames the bitmap covers and not tables of
  this address space themselves.
\<close>

theorem destroy_user_pages_reclaims:
  assumes "paging_inv r s" "frames_good r s"
  shows "\<exists>s'. destroy_user_pages r s = Some s' \<and> paging_inv r s' \<and>
      (\<forall>p. mappings (pmem s') r p =
         (if p \<noteq> [] \<and> hd p < 256 \<and> (\<exists>e. owned r s p e) then None else mappings (pmem s) r p)) \<and>
      avail s' = avail s \<union> {frame_of e |p e. p \<noteq> [] \<and> hd p < 256 \<and> owned r s p e}"
proof -
  obtain s' where s': "destroy_user_pages r s = Some s'" "destroyed r s {p. p \<noteq> [] \<and> hd p < 256} s'"
    by (rule destroy_user_pages_spec [OF assms])
  then show ?thesis
    by (intro exI [of _ s']) (simp add: destroyed_def frames_owned_def)
qed

section \<open>Witnesses\<close>

text \<open>
  Four free frames from 0x12C000, and a root table at 0x200000 with one chain of tables down to a
  user page: virtual page 0 is mapped to the frame 0x400000.
\<close>

definition pmm_four :: pmm where
  "pmm_four = fold release_page [300..<304] pmm_reset"

definition demo_mem :: mem where
  "demo_mem =
     write64 (write64 (write64 (write64 (\<lambda>_. 0)
       (entry 0x200000 0) 0x201007) (entry 0x201000 0) 0x202007) (entry 0x202000 0) 0x203007)
       (entry 0x203000 0) 0x400007"

definition machine_demo :: machine where
  "machine_demo =
     \<lparr>mm_heap = \<lparr>hmem = demo_mem, heap_head = 0, alloc_cursor = 0, heap_initialized = False\<rparr>,
      mm_pmm = pmm_four, kernel_pml4 = 0x200000, reserved_end = 0, fb_address = 0, fb_size = 0,
      fb_pitch = 0, fb_height = 0, cr0 = 0, cr3 = 0, cr4 = 0, invlpgs = [], vmm_pml4 = 0x200000,
      vmm_next = 0xFFFF800000000000\<rparr>"

lemma frees_four: "frees pmm_four = {300..<304}"
  unfolding pmm_four_def by (auto simp: fold_release frees_reset TOTAL_PAGES_def)

lemma pmm_four_inv: "pmm_inv pmm_four" "pmm_avail pmm_four = {0x12C000, 0x12D000, 0x12E000, 0x12F000}"
proof -
  have "counted pmm_four" "last_page pmm_four = 0"
    unfolding pmm_four_def by (simp_all add: fold_release counted_reset) (simp add: pmm_reset_def)
  then show "pmm_inv pmm_four" by (simp add: pmm_inv_alt frees_four TOTAL_PAGES_def)
  have "{300..<304::nat} = {300, 301, 302, 303}" by auto
  then show "pmm_avail pmm_four = {0x12C000, 0x12D000, 0x12E000, 0x12F000}"
    by (simp add: pmm_avail_def frees_four page_addr_def PAGE_SIZE_def)
qed

lemma load_zero: "load n (\<lambda>_. 0) a = 0"
  by (induction n arbitrary: a) simp_all

lemma demo_reads:
  assumes "j < 512"
  shows "read64 demo_mem (entry 0x200000 j) = (if j = 0 then 0x201007 else 0)"
    "read64 demo_mem (entry 0x201000 j) = (if j = 0 then 0x202007 else 0)"
    "read64 demo_mem (entry 0x202000 j) = (if j = 0 then 0x203007 else 0)"
    "read64 demo_mem (entry 0x203000 j) = (if j = 0 then 0x400007 else 0)"
  using assms by (simp_all add: demo_mem_def read_write_entry page_aligned_def load_zero)

lemma demo_steps:
  assumes "j < 512"
  shows "step demo_mem 0x200000 j = (if j = 0 then Some 0x201000 else None)"
    "step demo_mem 0x201000 j = (if j = 0 then Some 0x202000 else None)"
    "step demo_mem 0x202000 j = (if j = 0 then Some 0x203000 else None)"
    "leaf demo_mem 0x203000 j = (if j = 0 then Some 0x400007 else None)"
  using demo_reads [OF assms] by (simp_all add: step_def leaf_def present_def PAGE_PRESENT_def frame_of_def)

lemma demo_walk:
  assumes "valid_path p" "length p \<le> 3"
  shows "walk demo_mem 0x200000 p =
    (if p = [] then Some 0x200000 else if p = [0] then Some 0x201000
     else if p = [0, 0] then Some 0x202000 else if p = [0, 0, 0] then Some 0x203000 else None)"
proof -
  consider "p = []" | i where "p = [i]" | i j where "p = [i, j]" | i j k where "p = [i, j, k]"
  proof (cases p)
    case (Cons i p')
    then show ?thesis using assms(2) that by (cases p'; cases "tl p'"; auto)
  qed (use that in blast)
  then show ?thesis using assms(1) by cases (simp_all add: demo_steps)
qed

lemma demo_inv: "paging_inv 0x200000 machine_demo"
  by (auto simp: paging_inv_def machine_demo_def pmm_four_inv tree_inv_def demo_walk page_aligned_def
      split: if_splits)

lemma demo_mapped: "mappings demo_mem 0x200000 p = (if p = [0, 0, 0, 0] then Some 0x400007 else None)"
proof (cases "valid_path p \<and> length p = 4")
  case False
  then show ?thesis by (auto simp: mappings_def)
next
  case True
  then have "p \<noteq> []" by auto
  then obtain q j where p: "p = q @ [j]" by (metis append_butlast_last_id)
  with True have q: "valid_path q" "length q = 3" "j < 512" by simp_all
  have four: "[0, 0, 0, 0] = [0, 0, 0] @ [0::nat]" by simp
  show ?thesis
    unfolding p four append1_eq_conv using q by (auto simp: mappings_snoc demo_walk demo_steps)
qed

lemma demo_pmem: "pmem machine_demo = demo_mem" "kernel_pml4 machine_demo = 0x200000"
  by (simp_all add: machine_demo_def)

theorem map_page_refines_witness:
  "paging_inv 0x200000 machine_demo \<and>
   (\<exists>s'. map_page 0x200000 0x40000000 0x500123 7 machine_demo = Some (True, s') \<and>
         mappings (pmem s') 0x200000 [0, 1, 0, 0] = Some 0x500007 \<and>
         mappings (pmem s') 0x200000 [0, 0, 0, 0] = Some 0x400007)"
proof -
  have pth: "path 0x40000000 = [0, 1, 0, 0]"
    by (simp add: path_def pml4_i_def pdpt_i_def pd_i_def pt_i_def)
  have "{a \<in> avail machine_demo. a < IDENTITY_MAP_LIMIT} = {0x12C000, 0x12D000, 0x12E000, 0x12F000}"
    by (auto simp: machine_demo_def pmm_four_inv IDENTITY_MAP_LIMIT_def)
  then have c: "card {a \<in> avail machine_demo. a < IDENTITY_MAP_LIMIT} = 4" by simp
  from map_page_refines [OF demo_inv, of "0x40000000" "0x500123" 7] obtain ok s' where
    m: "map_page 0x200000 0x40000000 0x500123 7 machine_demo = Some (ok, s')"
      "mappings (pmem s') 0x200000 = (if ok then (mappings (pmem machine_demo) 0x200000)(path 0x40000000 :=
          leaf_value 0x500123 7) else mappings (pmem machine_demo) 0x200000)"
      "\<not> ok \<longrightarrow> card {a \<in> avail machine_demo. a < IDENTITY_MAP_LIMIT} \<le> 2" by blast
  have ok using m(3) c by auto
  have "leaf_value 0x500123 7 = Some 0x500007"
    by (simp add: leaf_value_def frame_of_def present_def PAGE_PRESENT_def)
  with m \<open>ok\<close> pth demo_inv show ?thesis by (simp add: machine_demo_def demo_mapped)
qed

theorem unmap_page_refines_witness:
  "paging_inv 0x200000 machine_demo \<and>
   mappings (pmem (unmap_page 0x200000 0x123 machine_demo)) 0x200000 [0, 0, 0, 0] = None \<and>
   invlpgs (unmap_page 0x200000 0x123 machine_demo) = [0x123]"
proof -
  have pth: "path 0x123 = [0, 0, 0, 0]"
    by (simp add: path_def pml4_i_def pdpt_i_def pd_i_def pt_i_def)
  have "pmem machine_demo = demo_mem" "invlpgs machine_demo = []" by (simp_all add: machine_demo_def)
  then show ?thesis
    using unmap_page_refines [OF demo_inv, of "0x123"] demo_inv pth by (simp add: demo_mapped)
qed

theorem map_unmap_roundtrip_witness:
  "\<exists>s1. map_page 0x200000 0x1000 0x500000 7 machine_demo = Some (True, s1) \<and>
        mappings (pmem machine_demo) 0x200000 (path 0x1000) = None \<and>
        mappings (pmem (unmap_page 0x200000 0x1000 s1)) 0x200000 = mappings demo_mem 0x200000"
proof -
  have pth: "path 0x1000 = [0, 0, 0, 1]"
    by (simp add: path_def pml4_i_def pdpt_i_def pd_i_def pt_i_def)
  have un: "mappings (pmem machine_demo) 0x200000 (path 0x1000) = None"
    by (simp add: pth demo_pmem demo_mapped)
  have idx: "pml4_i 0x1000 = 0" "pdpt_i 0x1000 = 0" "pd_i 0x1000 = 0" using pth by (simp_all add: path_def)
  let ?s = machine_demo
  have d1: "descend 0x200000 0 (upper_flags 7) ?s = Some (Some 0x201000, set_entry 0x200000 0 0x201007 ?s)"
    using demo_reads(1) [of 0]
    by (simp add: descend_def get_entry_def demo_pmem present_def PAGE_PRESENT_def frame_of_def
        upper_flags_def PAGE_WRITABLE_def PAGE_USER_def)
  let ?s1 = "set_entry 0x200000 0 0x201007 ?s"
  have d2: "descend 0x201000 0 (upper_flags 7) ?s1 = Some (Some 0x202000, set_entry 0x201000 0 0x202007 ?s1)"
    using demo_reads(2) [of 0]
    by (simp add: descend_def get_entry_def demo_pmem present_def PAGE_PRESENT_def frame_of_def
        upper_flags_def PAGE_WRITABLE_def PAGE_USER_def read_write_entry page_aligned_def)
  let ?s2 = "set_entry 0x201000 0 0x202007 ?s1"
  have d3: "descend 0x202000 0 (upper_flags 7) ?s2 = Some (Some 0x203000, set_entry 0x202000 0 0x203007 ?s2)"
    using demo_reads(3) [of 0]
    by (simp add: descend_def get_entry_def demo_pmem present_def PAGE_PRESENT_def frame_of_def
        upper_flags_def PAGE_WRITABLE_def PAGE_USER_def read_write_entry page_aligned_def)
  have "map_page 0x200000 0x1000 0x500000 7 ?s = Some (True, set_leaf 0x203000 0x1000 0x500000 7
      (set_entry 0x202000 0 0x203007 ?s2))"
    by (simp add: map_page_def idx d1 d2 d3)
  from map_unmap_roundtrip [OF demo_inv un this] this un show ?thesis
    by (auto simp: demo_pmem)
qed

theorem map_range_refines_witness:
  "paging_inv (kernel_pml4 machine_demo) machine_demo \<and> unat (0x3000 :: u64) + unat (0x1800 :: u64) + 4095 < 2 ^ 64 \<and>
   (\<exists>ok s'. map_range 0x3000 0x500000 0x1800 3 machine_demo = Some (ok, s') \<and>
      (ok \<longrightarrow> mappings (pmem s') 0x200000 =
         range_mappings 2 0x3000 0x500000 3 (mappings demo_mem 0x200000)))"
proof -
  have i: "paging_inv (kernel_pml4 machine_demo) machine_demo" using demo_inv by (simp add: demo_pmem)
  have b: "unat (0x3000 :: u64) + unat (0x1800 :: u64) + 4095 < 2 ^ 64" by simp
  from map_range_refines [OF i b, of "0x500000" 3] i b show ?thesis
    by (auto simp: demo_pmem frame_of_def)
qed


theorem destroy_user_pages_reclaims_witness:
  "paging_inv 0x200000 machine_demo \<and> frames_good 0x200000 machine_demo \<and>
   (\<exists>s'. destroy_user_pages 0x200000 machine_demo = Some s' \<and>
      mappings (pmem s') 0x200000 [0, 0, 0, 0] = None \<and> 0x400000 \<in> avail s')"
proof -
  have own: "owned 0x200000 machine_demo p e \<longleftrightarrow> p = [0, 0, 0, 0] \<and> e = 0x400007" for p e
    by (auto simp: owned_def demo_pmem demo_mapped user_leaf_def PAGE_USER_def is_fb_phys_address_def
        machine_demo_def)
  have "tables demo_mem 0x200000 \<subseteq> {0x200000, 0x201000, 0x202000, 0x203000}"
    by (auto simp: tables_def demo_walk split: if_splits)
  then have good: "frames_good 0x200000 machine_demo"
    by (auto simp: frames_good_def own demo_pmem frame_of_def pmm_frame_def TOTAL_PAGES_def)
  from destroy_user_pages_reclaims [OF demo_inv good] obtain s' where
    s': "destroy_user_pages 0x200000 machine_demo = Some s'"
      "mappings (pmem s') 0x200000 [0, 0, 0, 0] = None"
      "avail s' = avail machine_demo \<union> {frame_of e |p e. p \<noteq> [] \<and> hd p < 256 \<and> owned 0x200000 machine_demo p e}"
    by (auto simp: own)
  have "frame_of 0x400007 \<in> {frame_of e |p e. p \<noteq> [] \<and> hd p < 256 \<and> owned 0x200000 machine_demo p e}"
    unfolding own by force
  then have "0x400000 \<in> avail s'" unfolding s'(3) by (simp add: frame_of_def)
  with s' good demo_inv show ?thesis by blast
qed

end
