(* ===== verification/Address_Space.thy ===== *)
theory Address_Space
  imports Paging
begin

unbundle bit_operations_syntax

text \<open>
  The two users of the page tables: the virtual memory manager, \<open>src/mm/vmm.cpp\<close>, which hands out
  kernel addresses from a cursor, and the address spaces, \<open>src/mm/address_space.cpp\<close>, objects of
  the kernel heap that own a \<open>PageTable\<close>.
\<close>

section \<open>Virtual memory manager\<close>

definition vmm_init :: "u64 \<Rightarrow> machine \<Rightarrow> machine" where
  "vmm_init pml4 s = s\<lparr>vmm_pml4 := pml4\<rparr>"

text \<open>\<open>vmm::map\<close> ignores the result of \<open>map_page\<close>.\<close>

definition vmm_map :: "u64 \<Rightarrow> u64 \<Rightarrow> u64 \<Rightarrow> machine \<Rightarrow> machine option" where
  "vmm_map virt phys flags s =
     map_option snd (map_page (vmm_pml4 s) (virt AND NOT 0xFFF) (phys AND NOT 0xFFF) flags s)"

definition vmm_unmap :: "u64 \<Rightarrow> machine \<Rightarrow> machine" where
  "vmm_unmap virt s = unmap_page (vmm_pml4 s) (virt AND NOT 0xFFF) s"

partial_function (option) vmm_alloc_loop ::
  "u64 \<Rightarrow> u64 \<Rightarrow> u64 \<Rightarrow> machine \<Rightarrow> (bool \<times> machine) option" where
  "vmm_alloc_loop addr stop flags s =
     (if addr < stop then
        let (page, p) = alloc_page (mm_pmm s); s1 = s\<lparr>mm_pmm := p\<rparr>
        in if page = 0 then Some (False, s1)
           else Option.bind (vmm_map addr page flags s1)
                  (\<lambda>s2. vmm_alloc_loop (addr + PAGE_SIZE) stop flags s2)
      else Some (True, s))"

definition vmm_alloc :: "u64 \<Rightarrow> u64 \<Rightarrow> machine \<Rightarrow> (u64 \<times> machine) option" where
  "vmm_alloc sz flags s =
     (let size' = (sz + PAGE_SIZE - 1) AND NOT (PAGE_SIZE - 1); start = vmm_next s
      in map_option
           (\<lambda>(ok, s1). if ok then (start, s1\<lparr>vmm_next := vmm_next s1 + size'\<rparr>) else (0, s1))
           (vmm_alloc_loop start (start + size') flags s))"

section \<open>Address spaces\<close>

text \<open>An \<open>AddressSpace\<close> is eight bytes on the heap: the pointer \<open>table\<close>.\<close>

definition space_table :: "machine \<Rightarrow> u64 \<Rightarrow> u64" where
  "space_table s space = read64 (pmem s) space"

definition set_space_table :: "u64 \<Rightarrow> u64 \<Rightarrow> machine \<Rightarrow> machine" where
  "set_space_table space table s = set_pmem (write64 (pmem s) space table) s"

definition AddressSpace_create :: "machine \<Rightarrow> (u64 \<times> machine) option" where
  "AddressSpace_create s =
     Option.bind (kmalloc_m 8 s) (\<lambda>(space, s1).
     if space = 0 then Some (0, s1) else
     let s2 = set_space_table space 0 s1 in
     Option.bind (clone_kernel_table s2) (\<lambda>(table, s3).
     let s4 = set_space_table space table s3
     in if table = 0 then map_option (\<lambda>s5. (0, s5)) (kfree_m space s4)
        else Some (space, s4)))"

definition AddressSpace_destroy :: "u64 \<Rightarrow> machine \<Rightarrow> machine option" where
  "AddressSpace_destroy space s =
     (let table = space_table s space
      in Option.bind
           (if table \<noteq> 0 \<and> table \<noteq> kernel_pml4 s
            then Option.bind (destroy_user_pages (table_pml4 s table) s) (kfree_m table)
            else Some s)
           (\<lambda>s1. kfree_m space (set_space_table space 0 s1)))"

definition AddressSpace_activate :: "u64 \<Rightarrow> machine \<Rightarrow> machine" where
  "AddressSpace_activate space s =
     (let table = space_table s space in if table = 0 then s else switch_page_table table s)"

section \<open>Properties\<close>

lemma vmm_alloc_loop_spec:
  assumes "paging_inv (vmm_pml4 s) s" "unat addr + 4096 * n = unat stop"
  shows "\<exists>ok s'. vmm_alloc_loop addr stop flags s = Some (ok, s') \<and> paging_inv (vmm_pml4 s) s' \<and>
      same_rest s s' \<and> (\<not> ok \<longrightarrow> avail s' = {}) \<and> avail s' \<subseteq> avail s"
  using assms
proof (induction n arbitrary: addr s)
  case 0
  then have "vmm_alloc_loop addr stop flags s = Some (True, s)"
    by (simp add: vmm_alloc_loop.simps word_less_nat_alt)
  with 0 show ?case by (intro exI [of _ True] exI [of _ s]) simp
next
  case (Suc n)
  let ?r = "vmm_pml4 s"
  have less: "addr < stop" using Suc.prems(2) by (simp add: word_less_nat_alt)
  have inv: "pmm_inv (mm_pmm s)" "tree_inv (avail s) (pmem s) ?r"
    using Suc.prems(1) by (simp_all add: paging_inv_def)
  obtain page p where a: "alloc_page (mm_pmm s) = (page, p)" by (cases "alloc_page (mm_pmm s)")
  let ?s1 = "s\<lparr>mm_pmm := p\<rparr>"
  have keep: "pmm_inv p" by (rule frames.alloc_keeps_inv [OF inv(1) a])
  show ?case
  proof (cases "page = 0")
    case True
    then have "avail s = {}" using frames.alloc_nonzero_iff [OF inv(1) a] by simp
    then have "p = mm_pmm s" using a pmm_alloc_none [OF inv(1)] by simp
    with True a less have "vmm_alloc_loop addr stop flags s = Some (False, s)"
      by (subst vmm_alloc_loop.simps) simp
    with \<open>avail s = {}\<close> Suc.prems(1) show ?thesis by (intro exI [of _ False] exI [of _ s]) simp
  next
    case False
    note f = frames.alloc_fresh [OF inv(1) a False]
    have "paging_inv ?r ?s1"
      using keep f(2) tree_inv_walks [OF inv(2), of "avail ?s1" "pmem s"] by (auto simp: paging_inv_def)
    from map_page_refines_grows [OF this, of "addr AND NOT 0xFFF" "page AND NOT 0xFFF" flags] obtain ok s2 where
      m: "map_page ?r (addr AND NOT 0xFFF) (page AND NOT 0xFFF) flags ?s1 = Some (ok, s2)" "grows ?r ?s1 s2" by blast
    have r2: "vmm_pml4 s2 = ?r" "same_rest s s2" "avail s2 \<subseteq> avail s"
      using m(2) f(2) by (auto simp: grows_def same_rest_def)
    have i2: "paging_inv ?r s2" using m(2) by (simp add: grows_def)
    have "unat (addr + PAGE_SIZE) = unat addr + 4096"
      using Suc.prems(2) unat_u64_less [of stop] by (subst unat_add_u64) (simp_all add: PAGE_SIZE_def)
    then have u: "unat (addr + PAGE_SIZE) + 4096 * n = unat stop" using Suc.prems(2) by simp
    from Suc.IH [of s2 "addr + PAGE_SIZE", unfolded r2(1), OF i2 u] obtain ok' s' where
      r: "vmm_alloc_loop (addr + PAGE_SIZE) stop flags s2 = Some (ok', s')" "paging_inv ?r s'"
        "same_rest s2 s'" "\<not> ok' \<longrightarrow> avail s' = {}" "avail s' \<subseteq> avail s2" by blast
    have "vmm_alloc_loop addr stop flags s = Some (ok', s')"
      using less a False m(1) r(1) by (subst vmm_alloc_loop.simps) (simp add: vmm_map_def)
    with r r2 same_rest_trans [OF r2(2) r(3)] show ?thesis
      by (intro exI [of _ ok'] exI [of _ s']) auto
  qed
qed

text \<open>
  \<open>vmm::alloc\<close> comes back whenever its range does not wrap around the address space. It
  returns the cursor and moves it past the rounded size, so later blocks are disjoint, or it
  returns 0, leaves the cursor where it was, and has used up the last free frame; the tables stay
  well formed either way.
\<close>

theorem vmm_alloc_cursor:
  assumes "paging_inv (vmm_pml4 s) s" "page_aligned (vmm_next s)" "vmm_next s \<noteq> 0"
    and "unat (vmm_next s) + unat sz + 4095 < 2 ^ 64"
  shows "\<exists>a s'. vmm_alloc sz flags s = Some (a, s') \<and> paging_inv (vmm_pml4 s) s' \<and>
      (if a = 0 then vmm_next s' = vmm_next s \<and> avail s' = {}
       else a = vmm_next s \<and> page_aligned (vmm_next s') \<and>
            unat (vmm_next s') = unat a + 4096 * ((unat sz + 4095) div 4096))"
proof -
  let ?sz = "(sz + PAGE_SIZE - 1) AND NOT (PAGE_SIZE - 1)"
  let ?n = "(unat sz + 4095) div 4096"
  have e1: "unat (sz + 0xFFF) = unat sz + 4095"
    using assms(4) by (subst unat_add_u64) simp_all
  have e2: "?sz = (sz + 0xFFF) AND NOT 0xFFF" by (simp add: PAGE_SIZE_def add.commute)
  have sz: "unat ?sz = 4096 * ?n"
    unfolding e2 unat_round_down e1 by (simp add: minus_mod_eq_mult_div)
  have "unat ?sz \<le> unat sz + 4095" unfolding sz by simp
  then have "unat (vmm_next s) + unat ?sz < 2 ^ 64" using assms(4) by linarith
  then have st: "unat (vmm_next s + ?sz) = unat (vmm_next s) + 4096 * ?n"
    using sz unat_add_u64 [of "vmm_next s" ?sz] by presburger
  from vmm_alloc_loop_spec [OF assms(1) st [symmetric], of flags] obtain ok s' where
    r: "vmm_alloc_loop (vmm_next s) (vmm_next s + ?sz) flags s = Some (ok, s')"
      "paging_inv (vmm_pml4 s) s'" "same_rest s s'" "\<not> ok \<longrightarrow> avail s' = {}" by blast
  have nx: "vmm_next s' = vmm_next s" using r(3) by (simp add: same_rest_def)
  from assms(2) obtain k where "unat (vmm_next s) = 4096 * k" by (rule page_alignedE)
  then have "unat (vmm_next s + ?sz) = 4096 * (k + ?n)" using st by simp
  then have "page_aligned (vmm_next s + ?sz)" unfolding page_aligned_def by (simp only: mod_mult_self1_is_0)
  moreover have "vmm_alloc sz flags s =
      Some (if ok then (vmm_next s, s'\<lparr>vmm_next := vmm_next s + ?sz\<rparr>) else (0, s'))"
    using r(1) nx by (simp add: vmm_alloc_def Let_def)
  ultimately show ?thesis
    using r nx st assms(3)
    by (cases ok; intro exI [of _ "if ok then vmm_next s else 0"]
        exI [of _ "if ok then s'\<lparr>vmm_next := vmm_next s + ?sz\<rparr> else s'"])
      (simp_all add: paging_inv_def)
qed

text \<open>A machine with exactly one free frame.\<close>

definition vmm_demo :: machine where
  "vmm_demo = machine_demo\<lparr>mm_pmm := fold release_page [300] pmm_reset\<rparr>"

text \<open>
  \<open>vmm::alloc\<close> may return a block that is not mapped: with one free frame and no table for the
  upper half, the frame goes to the block, \<open>map_page\<close> fails for want of a table, and the result is
  the address of a page without a mapping.
\<close>

theorem vmm_alloc_unmapped:
  "\<exists>s'. vmm_alloc 4096 3 vmm_demo = Some (0xFFFF800000000000, s') \<and>
        mappings (pmem s') (vmm_pml4 s') (path 0xFFFF800000000000) = None"
proof -
  let ?p = "fold release_page [300] pmm_reset"
  have fr: "frees ?p = {300}" by (simp add: release_page_frees frees_reset TOTAL_PAGES_def)
  have "counted ?p" "last_page ?p = 0"
    by (simp_all add: fold_release counted_reset release_page_counted) (simp add: pmm_reset_def)
  then have pi: "pmm_inv ?p" unfolding pmm_inv_alt fr by (simp add: TOTAL_PAGES_def)
  have av: "pmm_avail ?p = {0x12C000}" unfolding pmm_avail_def fr by (simp add: page_addr_def PAGE_SIZE_def)
  obtain page q where a: "alloc_page ?p = (page, q)" by (cases "alloc_page ?p")
  have nz: "page \<noteq> 0" using frames.alloc_nonzero_iff [OF pi a] av by simp
  note f = frames.alloc_fresh [OF pi a nz]
  have pg: "pmm_avail q = {}" using f av by auto
  let ?s1 = "vmm_demo\<lparr>mm_pmm := q\<rparr>"
  have pa: "paging_alloc_page ?s1 = Some (0, ?s1)"
    using pmm_alloc_none [OF f(4) pg] by (simp add: paging_alloc_page_def)
  let ?va = "0xFFFF800000000000 :: u64"
  have ix: "pml4_i ?va = 256" by (simp add: pml4_i_def)
  have ge: "get_entry ?s1 0x200000 256 = 0"
    using demo_reads(1) [of 256] by (simp add: get_entry_def vmm_demo_def machine_demo_def)
  have mp: "map_page 0x200000 ?va (page AND NOT 0xFFF) 3 ?s1 = Some (False, ?s1)"
    using pa by (simp add: map_page_def ix descend_def ge present_def)
  have vm: "vmm_pml4 vmm_demo = 0x200000" "vmm_next vmm_demo = ?va" "mm_pmm vmm_demo = ?p"
    by (simp_all add: vmm_demo_def machine_demo_def)
  have stop: "\<not> ?va + PAGE_SIZE < ?va + 0x1000" "?va < ?va + 0x1000" by (simp_all add: PAGE_SIZE_def)
  have l2: "vmm_alloc_loop (?va + PAGE_SIZE) (?va + 0x1000) 3 s = Some (True, s)" for s
    using stop(1) by (subst vmm_alloc_loop.simps) simp
  have "vmm_alloc_loop ?va (?va + 0x1000) 3 vmm_demo = Some (True, ?s1)"
    using a nz mp stop(2) l2 by (subst vmm_alloc_loop.simps) (simp add: vmm_map_def vm)
  then have "vmm_alloc 4096 3 vmm_demo = Some (?va, ?s1\<lparr>vmm_next := vmm_next ?s1 + 0x1000\<rparr>)"
    by (simp add: vmm_alloc_def vm PAGE_SIZE_def)
  moreover have "mappings (pmem ?s1) 0x200000 (path ?va) = None"
    by (simp add: vmm_demo_def demo_pmem demo_mapped path_def ix)
  ultimately show ?thesis by (intro exI [of _ "?s1\<lparr>vmm_next := vmm_next ?s1 + 0x1000\<rparr>"]) (simp add: vm)
qed

section \<open>Witness\<close>

theorem vmm_alloc_cursor_witness:
  "paging_inv (vmm_pml4 machine_demo) machine_demo \<and> page_aligned (vmm_next machine_demo) \<and>
   (\<exists>a s'. vmm_alloc 0x1001 3 machine_demo = Some (a, s') \<and>
      (a \<noteq> 0 \<longrightarrow> unat (vmm_next s') = unat a + 8192))"
proof -
  have i: "paging_inv (vmm_pml4 machine_demo) machine_demo" "page_aligned (vmm_next machine_demo)"
    "vmm_next machine_demo \<noteq> 0" "unat (vmm_next machine_demo) + unat (0x1001 :: u64) + 4095 < 2 ^ 64"
    using demo_inv by (simp_all add: machine_demo_def page_aligned_def)
  from vmm_alloc_cursor [OF i, of 3] i(1,2) show ?thesis by auto
qed

end
