(* ===== verification/KString.thy ===== *)
theory KString
  imports Kheap
begin

unbundle bit_operations_syntax

text \<open>
  The memory and string routines of \<open>src/lib/string.cpp\<close>, on the byte memory. The optimised
  routines (\<open>memcpy\<close>, \<open>memset\<close>, \<open>memcmp\<close>, \<open>strlen\<close>) are modelled loop by loop: an alignment loop, a
  loop over 64 bytes, one over 8 bytes, one over single bytes. Routines that look for a terminating
  zero are partial: \<open>None\<close> is a walk that never meets one. A \<open>char\<close> is a word of eight bits; the
  results of the comparisons are integers.
\<close>

section \<open>memcpy\<close>

function memcpy_head :: "mem \<Rightarrow> u64 \<Rightarrow> u64 \<Rightarrow> u64 \<Rightarrow> mem \<times> u64 \<times> u64 \<times> u64" where
  "memcpy_head m d s n =
     (if n \<noteq> 0 \<and> d AND 7 \<noteq> 0 then memcpy_head (m(d := m s)) (d + 1) (s + 1) (n - 1)
      else (m, d, s, n))"
  by pat_completeness auto
termination
  by (relation "measure (\<lambda>(m, d, s, n). unat n)") (auto simp: unat_pred_less)

definition copy_word :: "mem \<Rightarrow> u64 \<Rightarrow> u64 \<Rightarrow> mem" where
  "copy_word m d s = write64 m d (read64 m s)"

function memcpy_64 :: "mem \<Rightarrow> u64 \<Rightarrow> u64 \<Rightarrow> u64 \<Rightarrow> mem \<times> u64 \<times> u64 \<times> u64" where
  "memcpy_64 m d s n =
     (if 64 \<le> n then
        memcpy_64
          (fold (\<lambda>i m. copy_word m (d + 8 * of_nat i) (s + 8 * of_nat i)) [0, 1, 2, 3, 4, 5, 6, 7] m)
          (d + 64) (s + 64) (n - 64)
      else (m, d, s, n))"
  by pat_completeness auto
termination
  by (relation "measure (\<lambda>(m, d, s, n). unat n)") (auto simp: unat_sub word_le_nat_alt)

function memcpy_8 :: "mem \<Rightarrow> u64 \<Rightarrow> u64 \<Rightarrow> u64 \<Rightarrow> mem \<times> u64 \<times> u64 \<times> u64" where
  "memcpy_8 m d s n =
     (if 8 \<le> n then memcpy_8 (copy_word m d s) (d + 8) (s + 8) (n - 8) else (m, d, s, n))"
  by pat_completeness auto
termination
  by (relation "measure (\<lambda>(m, d, s, n). unat n)") (auto simp: unat_sub word_le_nat_alt)

function memcpy_tail :: "mem \<Rightarrow> u64 \<Rightarrow> u64 \<Rightarrow> u64 \<Rightarrow> mem \<times> u64 \<times> u64 \<times> u64" where
  "memcpy_tail m d s n =
     (if n \<noteq> 0 then memcpy_tail (m(d := m s)) (d + 1) (s + 1) (n - 1) else (m, d, s, n))"
  by pat_completeness auto
termination
  by (relation "measure (\<lambda>(m, d, s, n). unat n)") (auto simp: unat_pred_less)

declare memcpy_head.simps [simp del] memcpy_64.simps [simp del] memcpy_8.simps [simp del]
  memcpy_tail.simps [simp del]

definition memcpy :: "mem \<Rightarrow> u64 \<Rightarrow> u64 \<Rightarrow> u64 \<Rightarrow> mem" where
  "memcpy m dest src n =
     (let (m1, d1, s1, n1) = memcpy_head m dest src n;
          (m2, d2, s2, n2) = memcpy_64 m1 d1 s1 n1;
          (m3, d3, s3, n3) = memcpy_8 m2 d2 s2 n2
      in fst (memcpy_tail m3 d3 s3 n3))"

section \<open>memset\<close>

function memset_head :: "mem \<Rightarrow> u64 \<Rightarrow> u8 \<Rightarrow> u64 \<Rightarrow> mem \<times> u64 \<times> u64" where
  "memset_head m d v n =
     (if n \<noteq> 0 \<and> d AND 7 \<noteq> 0 then memset_head (m(d := v)) (d + 1) v (n - 1) else (m, d, n))"
  by pat_completeness auto
termination
  by (relation "measure (\<lambda>(m, d, v, n). unat n)") (auto simp: unat_pred_less)

definition splat :: "u8 \<Rightarrow> u64" where
  "splat v =
     push_bit 56 (ucast v) OR push_bit 48 (ucast v) OR push_bit 40 (ucast v) OR push_bit 32 (ucast v) OR
     push_bit 24 (ucast v) OR push_bit 16 (ucast v) OR push_bit 8 (ucast v) OR ucast v"

function memset_64 :: "mem \<Rightarrow> u64 \<Rightarrow> u64 \<Rightarrow> u64 \<Rightarrow> mem \<times> u64 \<times> u64" where
  "memset_64 m d v64 n =
     (if 64 \<le> n then
        memset_64 (fold (\<lambda>i m. write64 m (d + 8 * of_nat i) v64) [0, 1, 2, 3, 4, 5, 6, 7] m)
          (d + 64) v64 (n - 64)
      else (m, d, n))"
  by pat_completeness auto
termination
  by (relation "measure (\<lambda>(m, d, v, n). unat n)") (auto simp: unat_sub word_le_nat_alt)

function memset_8 :: "mem \<Rightarrow> u64 \<Rightarrow> u64 \<Rightarrow> u64 \<Rightarrow> mem \<times> u64 \<times> u64" where
  "memset_8 m d v64 n =
     (if 8 \<le> n then memset_8 (write64 m d v64) (d + 8) v64 (n - 8) else (m, d, n))"
  by pat_completeness auto
termination
  by (relation "measure (\<lambda>(m, d, v, n). unat n)") (auto simp: unat_sub word_le_nat_alt)

function memset_tail :: "mem \<Rightarrow> u64 \<Rightarrow> u8 \<Rightarrow> u64 \<Rightarrow> mem" where
  "memset_tail m d v n = (if n \<noteq> 0 then memset_tail (m(d := v)) (d + 1) v (n - 1) else m)"
  by pat_completeness auto
termination
  by (relation "measure (\<lambda>(m, d, v, n). unat n)") (auto simp: unat_pred_less)

declare memset_head.simps [simp del] memset_64.simps [simp del] memset_8.simps [simp del]
  memset_tail.simps [simp del]

definition memset :: "mem \<Rightarrow> u64 \<Rightarrow> u32 \<Rightarrow> u64 \<Rightarrow> mem" where
  "memset m dest value count =
     (let v = ucast value;
          (m1, d1, n1) = memset_head m dest v count;
          (m2, d2, n2) = memset_64 m1 d1 (splat v) n1;
          (m3, d3, n3) = memset_8 m2 d2 (splat v) n2
      in memset_tail m3 d3 v n3)"

section \<open>memmove and memcmp\<close>

function move_back :: "mem \<Rightarrow> u64 \<Rightarrow> u64 \<Rightarrow> u64 \<Rightarrow> mem" where
  "move_back m d s n =
     (if n \<noteq> 0 then move_back (m(d + (n - 1) := m (s + (n - 1)))) d s (n - 1) else m)"
  by pat_completeness auto
termination
  by (relation "measure (\<lambda>(m, d, s, n). unat n)") (auto simp: unat_pred_less)

declare move_back.simps [simp del]

definition memmove :: "mem \<Rightarrow> u64 \<Rightarrow> u64 \<Rightarrow> u64 \<Rightarrow> mem" where
  "memmove m dest src n =
     (if dest < src then memcpy m dest src n
      else if dest > src then move_back m dest src n else m)"

text \<open>The loops of \<open>memcmp\<close>: \<open>Inl\<close> is a result, \<open>Inr\<close> the pointers and the count left.\<close>

function memcmp_head :: "mem \<Rightarrow> u64 \<Rightarrow> u64 \<Rightarrow> u64 \<Rightarrow> int + u64 \<times> u64 \<times> u64" where
  "memcmp_head m a b n =
     (if n \<noteq> 0 \<and> a AND 7 \<noteq> 0 then
        if m a \<noteq> m b then Inl (uint (m a) - uint (m b)) else memcmp_head m (a + 1) (b + 1) (n - 1)
      else Inr (a, b, n))"
  by pat_completeness auto
termination
  by (relation "measure (\<lambda>(m, a, b, n). unat n)") (auto simp: unat_pred_less)

fun first_diff :: "mem \<Rightarrow> u64 \<Rightarrow> u64 \<Rightarrow> nat \<Rightarrow> int option" where
  "first_diff m a b 0 = None"
| "first_diff m a b (Suc k) =
     (if m a \<noteq> m b then Some (uint (m a) - uint (m b)) else first_diff m (a + 1) (b + 1) k)"

function memcmp_8 :: "mem \<Rightarrow> u64 \<Rightarrow> u64 \<Rightarrow> u64 \<Rightarrow> int + u64 \<times> u64 \<times> u64" where
  "memcmp_8 m a b n =
     (if 8 \<le> n then
        case (if read64 m a \<noteq> read64 m b then first_diff m a b 8 else None) of
          Some r \<Rightarrow> Inl r
        | None \<Rightarrow> memcmp_8 m (a + 8) (b + 8) (n - 8)
      else Inr (a, b, n))"
  by pat_completeness auto
termination
  by (relation "measure (\<lambda>(m, a, b, n). unat n)") (auto simp: unat_sub word_le_nat_alt)

function memcmp_tail :: "mem \<Rightarrow> u64 \<Rightarrow> u64 \<Rightarrow> u64 \<Rightarrow> int" where
  "memcmp_tail m a b n =
     (if n \<noteq> 0 then
        if m a \<noteq> m b then uint (m a) - uint (m b) else memcmp_tail m (a + 1) (b + 1) (n - 1)
      else 0)"
  by pat_completeness auto
termination
  by (relation "measure (\<lambda>(m, a, b, n). unat n)") (auto simp: unat_pred_less)

declare memcmp_head.simps [simp del] memcmp_8.simps [simp del] memcmp_tail.simps [simp del]

definition memcmp :: "mem \<Rightarrow> u64 \<Rightarrow> u64 \<Rightarrow> u64 \<Rightarrow> int" where
  "memcmp m ptr1 ptr2 n =
     (case memcmp_head m ptr1 ptr2 n of
        Inl r \<Rightarrow> r
      | Inr (a, b, n1) \<Rightarrow>
          (case memcmp_8 m a b n1 of
             Inl r \<Rightarrow> r
           | Inr (a, b, n2) \<Rightarrow> memcmp_tail m a b n2))"

section \<open>Strings\<close>

definition has_zero :: "u64 \<Rightarrow> u64" where
  "has_zero v = (v - 0x0101010101010101) AND NOT v AND 0x8080808080808080"

text \<open>The three loops of \<open>strlen\<close>.\<close>

partial_function (option) strlen_head :: "mem \<Rightarrow> u64 \<Rightarrow> (bool \<times> u64) option" where
  "strlen_head m s =
     (if s AND 7 \<noteq> 0 then if m s = 0 then Some (True, s) else strlen_head m (s + 1)
      else Some (False, s))"

partial_function (option) strlen_words :: "mem \<Rightarrow> u64 \<Rightarrow> u64 option" where
  "strlen_words m w = (if has_zero (read64 m w) = 0 then strlen_words m (w + 8) else Some w)"

partial_function (option) find_zero :: "mem \<Rightarrow> u64 \<Rightarrow> u64 option" where
  "find_zero m s = (if m s \<noteq> 0 then find_zero m (s + 1) else Some s)"

definition strlen :: "mem \<Rightarrow> u64 \<Rightarrow> u64 option" where
  "strlen m str =
     Option.bind (strlen_head m str) (\<lambda>(fin, s).
     if fin then Some (s - str)
     else Option.bind (strlen_words m s) (\<lambda>w.
          map_option (\<lambda>s. s - str) (find_zero m w)))"

function strnlen_loop :: "mem \<Rightarrow> u64 \<Rightarrow> u64 \<Rightarrow> u64 \<Rightarrow> u64" where
  "strnlen_loop m str mx len =
     (if len < mx \<and> m (str + len) \<noteq> 0 then strnlen_loop m str mx (len + 1) else len)"
  by pat_completeness auto
termination
  by (relation "measure (\<lambda>(m, str, mx, len). unat (mx - len))")
    (auto simp: unat_up_less)

declare strnlen_loop.simps [simp del]

definition strnlen :: "mem \<Rightarrow> u64 \<Rightarrow> u64 \<Rightarrow> u64" where
  "strnlen m str mx = strnlen_loop m str mx 0"

text \<open>\<open>while ((*dest++ = *src++));\<close>\<close>

partial_function (option) copy_string :: "mem \<Rightarrow> u64 \<Rightarrow> u64 \<Rightarrow> mem option" where
  "copy_string m d s =
     (let m1 = m(d := m s) in if m s \<noteq> 0 then copy_string m1 (d + 1) (s + 1) else Some m1)"

definition strcpy :: "mem \<Rightarrow> u64 \<Rightarrow> u64 \<Rightarrow> mem option" where
  "strcpy m dest src = copy_string m dest src"

function strncpy_copy :: "mem \<Rightarrow> u64 \<Rightarrow> u64 \<Rightarrow> u64 \<Rightarrow> u64 \<Rightarrow> mem \<times> u64" where
  "strncpy_copy m dest src n i =
     (if i < n \<and> m (src + i) \<noteq> 0
      then strncpy_copy (m(dest + i := m (src + i))) dest src n (i + 1) else (m, i))"
  by pat_completeness auto
termination
  by (relation "measure (\<lambda>(m, dest, src, n, i). unat (n - i))")
    (auto simp: unat_up_less)

function strncpy_pad :: "mem \<Rightarrow> u64 \<Rightarrow> u64 \<Rightarrow> u64 \<Rightarrow> mem" where
  "strncpy_pad m dest n i = (if i < n then strncpy_pad (m(dest + i := 0)) dest n (i + 1) else m)"
  by pat_completeness auto
termination
  by (relation "measure (\<lambda>(m, dest, n, i). unat (n - i))")
    (auto simp: unat_up_less)

declare strncpy_copy.simps [simp del] strncpy_pad.simps [simp del]

definition strncpy :: "mem \<Rightarrow> u64 \<Rightarrow> u64 \<Rightarrow> u64 \<Rightarrow> mem" where
  "strncpy m dest src n = (let (m1, i) = strncpy_copy m dest src n 0 in strncpy_pad m1 dest n i)"

definition strcat :: "mem \<Rightarrow> u64 \<Rightarrow> u64 \<Rightarrow> mem option" where
  "strcat m dest src = Option.bind (find_zero m dest) (\<lambda>d. copy_string m d src)"

partial_function (option) strcmp :: "mem \<Rightarrow> u64 \<Rightarrow> u64 \<Rightarrow> int option" where
  "strcmp m a b =
     (if m a \<noteq> 0 \<and> m a = m b then strcmp m (a + 1) (b + 1) else Some (uint (m a) - uint (m b)))"

partial_function (option) strstr_match :: "mem \<Rightarrow> u64 \<Rightarrow> u64 \<Rightarrow> bool option" where
  "strstr_match m h n =
     (if m h \<noteq> 0 \<and> m n \<noteq> 0 \<and> m h = m n then strstr_match m (h + 1) (n + 1) else Some (m n = 0))"

partial_function (option) strstr_loop :: "mem \<Rightarrow> u64 \<Rightarrow> u64 \<Rightarrow> u64 option" where
  "strstr_loop m haystack needle =
     (if m haystack = 0 then Some 0
      else Option.bind
             (if m haystack = m needle then strstr_match m haystack needle else Some False)
             (\<lambda>found. if found then Some haystack else strstr_loop m (haystack + 1) needle))"

definition strstr :: "mem \<Rightarrow> u64 \<Rightarrow> u64 \<Rightarrow> u64 option" where
  "strstr m haystack needle =
     (if m needle = 0 then Some haystack else strstr_loop m haystack needle)"

function strncmp_loop :: "mem \<Rightarrow> u64 \<Rightarrow> u64 \<Rightarrow> u64 \<Rightarrow> u64 \<Rightarrow> int" where
  "strncmp_loop m a b n i =
     (if i < n then
        if m (a + i) \<noteq> m (b + i) \<or> m (a + i) = 0
        then uint (m (a + i)) - uint (m (b + i)) else strncmp_loop m a b n (i + 1)
      else 0)"
  by pat_completeness auto
termination
  by (relation "measure (\<lambda>(m, a, b, n, i). unat (n - i))")
    (auto simp: unat_up_less)

declare strncmp_loop.simps [simp del]

definition strncmp :: "mem \<Rightarrow> u64 \<Rightarrow> u64 \<Rightarrow> u64 \<Rightarrow> int" where
  "strncmp m a b n = strncmp_loop m a b n 0"

text \<open>\<open>strsplt\<close> writes zeros into the string and returns the addresses of the arguments in order.\<close>

definition SPACE :: u8 where "SPACE = 32"

partial_function (option) skip_spaces :: "mem \<Rightarrow> u64 \<Rightarrow> u64 option" where
  "skip_spaces m s = (if m s = SPACE then skip_spaces m (s + 1) else Some s)"

partial_function (option) skip_word :: "mem \<Rightarrow> u64 \<Rightarrow> u64 option" where
  "skip_word m s = (if m s \<noteq> 0 \<and> m s \<noteq> SPACE then skip_word m (s + 1) else Some s)"

fun strsplt :: "nat \<Rightarrow> mem \<Rightarrow> u64 \<Rightarrow> (u64 list \<times> mem) option" where
  "strsplt 0 m str = Some ([], m)"
| "strsplt (Suc room) m str =
     (if m str = 0 then Some ([], m)
      else Option.bind (skip_spaces m str) (\<lambda>arg.
           if m arg = 0 then Some ([], m)
           else Option.bind (skip_word m arg) (\<lambda>e.
                map_option (\<lambda>(args, m1). (arg # args, m1))
                  (if m e \<noteq> 0 then strsplt room (m(e := 0)) (e + 1) else strsplt room m e))))"

partial_function (option) strchr :: "mem \<Rightarrow> u64 \<Rightarrow> u8 \<Rightarrow> u64 option" where
  "strchr m s c =
     (if m s \<noteq> 0 then if m s = c then Some s else strchr m (s + 1) c
      else if c = 0 then Some s else Some 0)"

partial_function (option) strrchr_loop :: "mem \<Rightarrow> u64 \<Rightarrow> u8 \<Rightarrow> u64 \<Rightarrow> u64 option" where
  "strrchr_loop m s c lst =
     (let lst' = (if m s = c then s else lst)
      in if m s \<noteq> 0 then strrchr_loop m (s + 1) c lst' else Some lst')"

definition strrchr :: "mem \<Rightarrow> u64 \<Rightarrow> u8 \<Rightarrow> u64 option" where
  "strrchr m s c = strrchr_loop m s c 0"

function strncat_loop :: "mem \<Rightarrow> u64 \<Rightarrow> u64 \<Rightarrow> u64 \<Rightarrow> mem \<times> u64" where
  "strncat_loop m d s n =
     (if n \<noteq> 0 \<and> m s \<noteq> 0 then strncat_loop (m(d := m s)) (d + 1) (s + 1) (n - 1) else (m, d))"
  by pat_completeness auto
termination
  by (relation "measure (\<lambda>(m, d, s, n). unat n)") (auto simp: unat_pred_less)

definition strncat :: "mem \<Rightarrow> u64 \<Rightarrow> u64 \<Rightarrow> u64 \<Rightarrow> mem option" where
  "strncat m dest src n =
     Option.bind (find_zero m dest) (\<lambda>d. let (m1, d1) = strncat_loop m d src n in Some (m1(d1 := 0)))"

function memchr :: "mem \<Rightarrow> u64 \<Rightarrow> u8 \<Rightarrow> u64 \<Rightarrow> u64" where
  "memchr m p c n =
     (if n \<noteq> 0 then if m p = c then p else memchr m (p + 1) c (n - 1) else 0)"
  by pat_completeness auto
termination
  by (relation "measure (\<lambda>(m, p, c, n). unat n)") (auto simp: unat_pred_less)

declare strncat_loop.simps [simp del] memchr.simps [simp del]

definition strdup :: "kheap \<Rightarrow> u64 \<Rightarrow> (u64 \<times> kheap) option" where
  "strdup h s =
     Option.bind (strlen (hmem h) s) (\<lambda>len.
     Option.bind (kmalloc h (len + 1)) (\<lambda>(out, h1).
     if out = 0 then Some (0, h1)
     else Some (out, h1\<lparr>hmem := (memcpy (hmem h1) out s len)(out + len := 0)\<rparr>)))"

section \<open>Copying\<close>

text \<open>
  Copying upwards is safe when no byte is written before it is read: this is so when the ranges
  do not overlap, and when the destination starts below the source.
\<close>

definition upward_safe :: "u64 \<Rightarrow> u64 \<Rightarrow> nat \<Rightarrow> bool" where
  "upward_safe d s n \<longleftrightarrow> (\<forall>i j. i < j \<and> j < n \<longrightarrow> d + of_nat i \<noteq> s + of_nat j)"

lemma upward_safe_shift:
  "upward_safe d s (k + n) \<Longrightarrow> upward_safe (d + of_nat k) (s + of_nat k) n"
  unfolding upward_safe_def
proof (intro allI impI)
  fix i j assume a: "\<forall>i j. i < j \<and> j < k + n \<longrightarrow> d + of_nat i \<noteq> s + of_nat j" "i < j \<and> j < n"
  then have "d + of_nat (k + i) \<noteq> s + of_nat (k + j)" by auto
  then show "d + of_nat k + of_nat i \<noteq> s + of_nat k + of_nat j" by (simp add: add.assoc)
qed

lemma upward_safe_mono: "upward_safe d s n \<Longrightarrow> k \<le> n \<Longrightarrow> upward_safe d s k"
  by (auto simp: upward_safe_def)

lemma upward_safe_below:
  assumes "d < s" "n \<le> 2 ^ 64 - unat s"
  shows "upward_safe d s n"
  unfolding upward_safe_def
proof (intro allI impI notI, elim conjE)
  fix i j assume ij: "i < j" "j < n" and eq: "d + of_nat i = s + of_nat j"
  have sj: "unat s + j < 2 ^ 64" and di: "unat d + i < unat s + j"
    using assms ij by (simp_all add: word_less_nat_alt)
  have "d + of_nat i = adr (unat d + i)" "s + of_nat j = adr (unat s + j)" by (simp_all add: adr_def)
  then have "unat d + i = unat s + j" using eq sj di by (simp add: adr_inject)
  with di show False by simp
qed

lemma offset_split:
  fixes x d :: u64
  assumes "k + n \<le> 2 ^ 64"
  shows "unat (x - (d + of_nat k)) < n \<longleftrightarrow> k \<le> unat (x - d) \<and> unat (x - d) < k + n"
proof (cases "n = 0")
  case False
  then have k: "unat (of_nat k :: u64) = k" using assms by (intro unat_of_nat_u64) simp
  have eq: "x - (d + of_nat k) = (x - d) - of_nat k" by simp
  show ?thesis
    unfolding eq unat_sub_wrap k using assms unat_u64_less [of "x - d"] by auto
qed simp

lemma copy_append:
  assumes "upward_safe d s (k + n)" "k + n \<le> 2 ^ 64"
  shows "copy (copy m d s k) (d + of_nat k) (s + of_nat k) n = copy m d s (k + n)"
proof
  fix x
  let ?o = "unat (x - d)"
  have x: "x = d + of_nat ?o" by simp
  show "copy (copy m d s k) (d + of_nat k) (s + of_nat k) n x = copy m d s (k + n) x"
  proof (cases "k \<le> ?o \<and> ?o < k + n")
    case False
    then have "\<not> unat (x - (d + of_nat k)) < n" using offset_split [OF assms(2), of x d] by blast
    moreover have "?o < k \<longleftrightarrow> ?o < k + n" using False by linarith
    ultimately show ?thesis by (simp add: copy_def)
  next
    case True
    have src: "s + of_nat k + (x - (d + of_nat k)) = s + (x - d)" by simp
    have "\<not> unat (s + (x - d) - d) < k"
    proof
      assume a: "unat (s + (x - d) - d) < k"
      let ?i = "unat (s + (x - d) - d)"
      have "d + of_nat ?i = s + of_nat ?o" by simp
      moreover have "?i < ?o \<and> ?o < k + n" using a True by linarith
      ultimately show False using assms(1) unfolding upward_safe_def by blast
    qed
    moreover have "unat (x - (d + of_nat k)) < n" using True offset_split [OF assms(2), of x d] by blast
    ultimately show ?thesis using True by (simp add: copy_def src)
  qed
qed

lemma copy_byte: "m(d := m s) = copy m d s 1"
  by (auto simp: fun_eq_iff copy_def unat_eq_zero)

lemma copy_word_eq: "copy_word m d s = copy m d s 8"
proof
  fix x
  show "copy_word m d s x = copy m d s 8 x"
  proof (cases "unat (x - d) < 8")
    case False
    then show ?thesis by (simp add: copy_word_def store_def copy_def)
  next
    case True
    have "ucast (drop_bit (8 * unat (x - d)) (read64 m s)) = m (s + (x - d))"
    proof (rule bit_word_eqI)
      fix k assume "k < LENGTH(8)"
      then have "(8 * unat (x - d) + k) div 8 = unat (x - d)" "(8 * unat (x - d) + k) mod 8 = k"
        "8 * unat (x - d) + k < 64" using True by auto
      then show "bit (ucast (drop_bit (8 * unat (x - d)) (read64 m s)) :: u8) k = bit (m (s + (x - d))) k"
        using \<open>k < LENGTH(8)\<close> by (simp add: bit_simps bit_load)
    qed
    then show ?thesis using True by (simp add: copy_word_def store_def copy_def)
  qed
qed

text \<open>What each loop of \<open>memcpy\<close> does: it has copied the first \<open>k\<close> bytes.\<close>

definition copied :: "mem \<Rightarrow> u64 \<Rightarrow> u64 \<Rightarrow> u64 \<Rightarrow> mem \<times> u64 \<times> u64 \<times> u64 \<Rightarrow> bool" where
  "copied m d s n r \<longleftrightarrow>
     (\<exists>k\<le>unat n. r = (copy m d s k, d + of_nat k, s + of_nat k, n - of_nat k))"

lemma copied_refl: "copied m d s n (m, d, s, n)"
  unfolding copied_def by (intro exI [of _ 0]) (simp add: copy_def)

lemma copied_step:
  assumes safe: "upward_safe d s (unat n)" and k: "k \<le> unat n" "m1 = copy m d s k" "K = of_nat k"
    and r: "upward_safe (d + K) (s + K) (unat (n - K)) \<Longrightarrow> copied m1 (d + K) (s + K) (n - K) r"
  shows "copied m d s n r"
proof -
  have "unat (of_nat k :: u64) = k"
    using k(1) unat_u64_less [of n] by (intro unat_of_nat_u64) simp
  then have un: "unat (n - of_nat k) = unat n - k" using k(1) by (simp add: unat_sub_wrap)
  have "upward_safe (d + of_nat k) (s + of_nat k) (unat n - k)"
    using upward_safe_shift [of d s k "unat n - k"] safe k(1) by simp
  with r un obtain j where j: "j \<le> unat n - k"
    "r = (copy m1 (d + of_nat k) (s + of_nat k) j, d + of_nat k + of_nat j, s + of_nat k + of_nat j,
          n - of_nat k - of_nat j)" unfolding k(3) by (auto simp: copied_def)
  have "copy m1 (d + of_nat k) (s + of_nat k) j = copy m d s (k + j)"
    unfolding k(2) using j(1) k(1) unat_u64_less [of n]
    by (intro copy_append upward_safe_mono [OF safe]) simp_all
  moreover have "n - of_nat k - of_nat j = n - of_nat (k + j)" by simp
  ultimately show ?thesis
    unfolding copied_def j(2) using j(1) k(1) by (intro exI [of _ "k + j"]) (simp add: add.assoc)
qed

lemma memcpy_head_copied: "upward_safe d s (unat n) \<Longrightarrow> copied m d s n (memcpy_head m d s n)"
proof (induction m d s n rule: memcpy_head.induct)
  case (1 m d s n)
  show ?case
  proof (cases "n \<noteq> 0 \<and> d AND 7 \<noteq> 0")
    case True
    have n: "1 \<le> unat n" using True by (simp add: Suc_le_eq unat_gt_0)
    have r: "memcpy_head m d s n = memcpy_head (m(d := m s)) (d + 1) (s + 1) (n - 1)"
      using True by (subst memcpy_head.simps) simp
    show ?thesis
      unfolding r by (rule copied_step [OF 1(2) n copy_byte of_nat_1 [symmetric] 1(1) [OF True]])
  next
    case False
    have r: "memcpy_head m d s n = (m, d, s, n)" by (subst memcpy_head.simps) (simp only: False if_False)
    show ?thesis unfolding r by (rule copied_refl)
  qed
qed

lemma fold_copy_word:
  "upward_safe d s (8 * (j + n)) \<Longrightarrow> 8 * (j + n) \<le> 64 \<Longrightarrow>
   fold (\<lambda>i m. copy_word m (d + 8 * of_nat i) (s + 8 * of_nat i)) [j..<j + n] (copy m d s (8 * j)) =
   copy m d s (8 * (j + n))"
proof (induction n)
  case 0
  then show ?case by simp
next
  case (Suc n)
  have "copy (copy m d s (8 * (j + n))) (d + of_nat (8 * (j + n))) (s + of_nat (8 * (j + n))) 8 =
      copy m d s (8 * (j + n) + 8)"
    using Suc.prems by (intro copy_append) (simp_all add: algebra_simps)
  with Suc upward_safe_mono [OF Suc.prems(1), of "8 * (j + n)"] show ?case
    by (simp add: copy_word_eq algebra_simps)
qed

lemma memcpy_64_copied: "upward_safe d s (unat n) \<Longrightarrow> copied m d s n (memcpy_64 m d s n)"
proof (induction m d s n rule: memcpy_64.induct)
  case (1 m d s n)
  show ?case
  proof (cases "64 \<le> n")
    case True
    have n: "64 \<le> unat n" using True by (simp add: word_le_nat_alt)
    have l: "[0, 1, 2, 3, 4, 5, 6, 7] = [0..<0 + 8::nat]" by (simp add: upt_rec)
    have fd: "fold (\<lambda>i m. copy_word m (d + 8 * of_nat i) (s + 8 * of_nat i)) [0, 1, 2, 3, 4, 5, 6, 7] m =
        copy m d s 64"
      using fold_copy_word [of d s 0 8 m] upward_safe_mono [OF 1(2) n] unfolding l
      by (simp add: copy_def [of m d s 0])
    then have r: "memcpy_64 m d s n = memcpy_64 (copy m d s 64) (d + 64) (s + 64) (n - 64)"
      using True by (subst memcpy_64.simps) simp
    show ?thesis
      unfolding r using 1(1) [OF True] fd by (intro copied_step [OF 1(2) n refl, of 64]) simp_all
  next
    case False
    have r: "memcpy_64 m d s n = (m, d, s, n)" by (subst memcpy_64.simps) (simp only: False if_False)
    show ?thesis unfolding r by (rule copied_refl)
  qed
qed

lemma memcpy_8_copied: "upward_safe d s (unat n) \<Longrightarrow> copied m d s n (memcpy_8 m d s n)"
proof (induction m d s n rule: memcpy_8.induct)
  case (1 m d s n)
  show ?case
  proof (cases "8 \<le> n")
    case True
    then have n: "8 \<le> unat n" by (simp add: word_le_nat_alt)
    have r: "memcpy_8 m d s n = memcpy_8 (copy_word m d s) (d + 8) (s + 8) (n - 8)"
      using True by (subst memcpy_8.simps) simp
    show ?thesis
      unfolding r by (rule copied_step [OF 1(2) n copy_word_eq _ 1(1) [OF True]]) simp
  next
    case False
    have r: "memcpy_8 m d s n = (m, d, s, n)" by (subst memcpy_8.simps) (simp only: False if_False)
    show ?thesis unfolding r by (rule copied_refl)
  qed
qed

lemma memcpy_tail_copied:
  "upward_safe d s (unat n) \<Longrightarrow>
   copied m d s n (memcpy_tail m d s n) \<and> snd (snd (snd (memcpy_tail m d s n))) = 0"
proof (induction m d s n rule: memcpy_tail.induct)
  case (1 m d s n)
  show ?case
  proof (cases "n \<noteq> 0")
    case True
    have n: "1 \<le> unat n" using True by (simp add: Suc_le_eq unat_gt_0)
    have "unat (n - 1) = unat n - 1" using True by (simp add: unat_minus_one)
    then have "upward_safe (d + 1) (s + 1) (unat (n - 1))"
      using upward_safe_shift [of d s 1 "unat n - 1"] 1(2) n by simp
    note IH = 1(1) [OF True this]
    have r: "memcpy_tail m d s n = memcpy_tail (m(d := m s)) (d + 1) (s + 1) (n - 1)"
      using True by (subst memcpy_tail.simps) simp
    show ?thesis
      unfolding r using IH copied_step [OF 1(2) n copy_byte of_nat_1 [symmetric]] by blast
  next
    case False
    have r: "memcpy_tail m d s n = (m, d, s, n)" by (subst memcpy_tail.simps) (simp only: False if_False)
    show ?thesis unfolding r using False by (simp add: copied_refl)
  qed
qed

lemma copied_trans:
  assumes "upward_safe d s (unat n)" "copied m d s n (m1, d1, s1, n1)"
    and "upward_safe d1 s1 (unat n1) \<Longrightarrow> copied m1 d1 s1 n1 r"
  shows "copied m d s n r"
proof -
  from assms(2) obtain k where k: "k \<le> unat n" "m1 = copy m d s k"
    "d1 = d + of_nat k" "s1 = s + of_nat k" "n1 = n - of_nat k" by (auto simp: copied_def)
  from copied_step [OF assms(1) k(1,2) refl] assms(3) k(3-5) show ?thesis by simp
qed

lemma copied_safe:
  assumes "upward_safe d s (unat n)" "copied m d s n (m1, d1, s1, n1)"
  shows "upward_safe d1 s1 (unat n1)"
proof -
  from assms(2) obtain k where k: "k \<le> unat n" "d1 = d + of_nat k" "s1 = s + of_nat k" "n1 = n - of_nat k"
    by (auto simp: copied_def)
  have "unat (of_nat k :: u64) = k" using k(1) unat_u64_less [of n] by (intro unat_of_nat_u64) simp
  then have "unat n1 = unat n - k" using k by (simp add: unat_sub_wrap)
  then show ?thesis using upward_safe_shift [of d s k "unat n - k"] assms(1) k by simp
qed

lemma memcpy_copy:
  assumes "upward_safe d s (unat n)"
  shows "memcpy m d s n = copy m d s (unat n)"
proof -
  obtain m1 d1 s1 n1 where h: "memcpy_head m d s n = (m1, d1, s1, n1)" by (metis prod_cases4)
  obtain m2 d2 s2 n2 where w: "memcpy_64 m1 d1 s1 n1 = (m2, d2, s2, n2)" by (metis prod_cases4)
  obtain m3 d3 s3 n3 where b: "memcpy_8 m2 d2 s2 n2 = (m3, d3, s3, n3)" by (metis prod_cases4)
  obtain m4 d4 s4 n4 where t: "memcpy_tail m3 d3 s3 n3 = (m4, d4, s4, n4)" by (metis prod_cases4)
  note c1 = memcpy_head_copied [OF assms, of m, unfolded h]
  note c2 = copied_trans [OF assms c1 memcpy_64_copied, unfolded w]
  note c3 = copied_trans [OF assms c2 memcpy_8_copied, unfolded b]
  note c4 = copied_trans [OF assms c3 conjunct1 [OF memcpy_tail_copied], unfolded t]
  have "n4 = 0" using memcpy_tail_copied [OF copied_safe [OF assms c3], of m3] t by simp
  from c4 obtain k where k: "k \<le> unat n" "m4 = copy m d s k" "n4 = n - of_nat k"
    by (auto simp: copied_def)
  have "of_nat k = n" using k(3) \<open>n4 = 0\<close> by simp
  then have "k = unat n" using k(1) unat_u64_less [of n] by (auto simp: unat_of_nat)
  with k(2) show ?thesis by (simp add: memcpy_def h w b t)
qed

lemma copy_self: "copy m d d n = m"
  by (auto simp: copy_def fun_eq_iff)

text \<open>Copying downwards, the other branch of \<open>memmove\<close>.\<close>

lemma move_back_copy:
  assumes "\<And>i j. j < i \<Longrightarrow> i < unat n \<Longrightarrow> d + of_nat i \<noteq> s + of_nat j"
  shows "move_back m d s n = copy m d s (unat n)"
  using assms
proof (induction m d s n rule: move_back.induct)
  case (1 m d s n)
  show ?case
  proof (cases "n = 0")
    case True
    then show ?thesis by (subst move_back.simps) (simp add: copy_def)
  next
    case False
    let ?k = "unat n - 1"
    let ?m1 = "m(d + (n - 1) := m (s + (n - 1)))"
    have u: "unat (n - 1) = ?k" "unat n = Suc ?k" using False by (simp_all add: unat_minus_one unat_gt_0)
    have k: "n - 1 = of_nat ?k" using u(1) by (metis of_nat_unat_u64)
    have "move_back ?m1 d s (n - 1) = copy ?m1 d s (unat (n - 1))"
      by (rule 1(1) [OF False]) (use 1(2) u in auto)
    then have IH: "move_back ?m1 d s (n - 1) = copy ?m1 d s ?k" unfolding u(1) .
    have "copy ?m1 d s ?k x = copy m d s (unat n) x" for x
    proof (cases "unat (x - d) < ?k")
      case True
      have "d + of_nat ?k \<noteq> s + of_nat (unat (x - d))" by (rule 1(2)) (use True u(2) in linarith)+
      then have "s + (x - d) \<noteq> d + (n - 1)" unfolding k by (simp only: of_nat_unat_u64)
      then have "?m1 (s + (x - d)) = m (s + (x - d))" by (rule fun_upd_other)
      moreover have "unat (x - d) < unat n" using True u(2) by linarith
      ultimately show ?thesis using True by (simp only: copy_def if_True)
    next
      case o: False
      have "x = d + (n - 1) \<longleftrightarrow> x - d = n - 1" by (metis add.commute diff_add_cancel add_diff_cancel_left')
      also have "\<dots> \<longleftrightarrow> unat (x - d) = ?k" unfolding word_unat_eq_iff u(1) ..
      finally have x: "x = d + (n - 1) \<longleftrightarrow> unat (x - d) = ?k" .
      show ?thesis
      proof (cases "unat (x - d) = ?k")
        case True
        then have "x - d = n - 1" unfolding word_unat_eq_iff u(1) .
        then show ?thesis using True x u(2) by (simp add: copy_def)
      next
        case False
        then show ?thesis using o x u(2) by (simp add: copy_def)
      qed
    qed
    then show ?thesis using False IH by (subst move_back.simps) auto
  qed
qed

section \<open>Filling\<close>

lemma fill_append:
  assumes "k + n \<le> 2 ^ 64"
  shows "fill (fill m d v k) (d + of_nat k) v n = fill m d v (k + n)"
  using offset_split [OF assms, of _ d] by (auto simp: fill_def fun_eq_iff)

lemma fill_byte: "m(d := v) = fill m d v 1"
  by (auto simp: fun_eq_iff fill_def unat_eq_zero)

lemma bit_shifted_byte:
  assumes "i < 8" "k < 8" "q < 8"
  shows "bit (push_bit (8 * q) (ucast (v::u8)) :: u64) (8 * i + k) \<longleftrightarrow> i = q \<and> bit v k"
proof (cases i q rule: linorder_cases)
  case less
  then show ?thesis using assms by (simp add: bit_simps)
next
  case equal
  then show ?thesis using assms by (simp add: bit_simps)
next
  case greater
  then have "8 \<le> 8 * i + k - 8 * q" by simp
  then have "\<not> bit v (8 * i + k - 8 * q)" by (auto dest: bit_imp_le_length)
  with greater show ?thesis by (simp add: bit_simps)
qed

lemma bit_splat:
  assumes "i < 8" "k < 8"
  shows "bit (splat v) (8 * i + k) \<longleftrightarrow> bit v k"
proof -
  have "splat v = push_bit (8 * 7) (ucast v) OR push_bit (8 * 6) (ucast v) OR push_bit (8 * 5) (ucast v) OR
      push_bit (8 * 4) (ucast v) OR push_bit (8 * 3) (ucast v) OR push_bit (8 * 2) (ucast v) OR
      push_bit (8 * 1) (ucast v) OR push_bit (8 * 0) (ucast v)"
    by (simp add: splat_def)
  moreover have "i = 7 \<or> i = 6 \<or> i = 5 \<or> i = 4 \<or> i = 3 \<or> i = 2 \<or> i = 1 \<or> i = 0" using assms(1) by auto
  ultimately show ?thesis
    by (simp only: bit_or_iff bit_shifted_byte [OF assms]) auto
qed

lemma write_splat: "write64 m d (splat v) = fill m d v 8"
proof
  fix x
  have "ucast (drop_bit (8 * unat (x - d)) (splat v)) = v" if "unat (x - d) < 8"
    by (rule bit_word_eqI) (use that in \<open>auto simp: bit_simps bit_splat\<close>)
  then show "write64 m d (splat v) x = fill m d v 8 x" by (simp add: store_def fill_def)
qed

definition filled :: "mem \<Rightarrow> u64 \<Rightarrow> u8 \<Rightarrow> u64 \<Rightarrow> mem \<times> u64 \<times> u64 \<Rightarrow> bool" where
  "filled m d v n r \<longleftrightarrow> (\<exists>k\<le>unat n. r = (fill m d v k, d + of_nat k, n - of_nat k))"

lemma filled_refl: "filled m d v n (m, d, n)"
  unfolding filled_def by (intro exI [of _ 0]) (simp add: fill_def)

lemma filled_step:
  assumes k: "k \<le> unat n" "m1 = fill m d v k" "K = of_nat k" and r: "filled m1 (d + K) v (n - K) r"
  shows "filled m d v n r"
proof -
  have "unat (of_nat k :: u64) = k"
    using k(1) unat_u64_less [of n] by (intro unat_of_nat_u64) simp
  then have un: "unat (n - of_nat k) = unat n - k" using k(1) by (simp add: unat_sub_wrap)
  with r obtain j where j: "j \<le> unat n - k"
    "r = (fill m1 (d + of_nat k) v j, d + of_nat k + of_nat j, n - of_nat k - of_nat j)"
    unfolding k(3) by (auto simp: filled_def)
  have "fill m1 (d + of_nat k) v j = fill m d v (k + j)"
    unfolding k(2) using j(1) k(1) unat_u64_less [of n] by (intro fill_append) simp
  moreover have "n - of_nat k - of_nat j = n - of_nat (k + j)" by simp
  ultimately show ?thesis
    unfolding filled_def j(2) using j(1) k(1) by (intro exI [of _ "k + j"]) (simp add: add.assoc)
qed

lemma memset_head_filled: "filled m d v n (memset_head m d v n)"
proof (induction m d v n rule: memset_head.induct)
  case (1 m d v n)
  show ?case
  proof (cases "n \<noteq> 0 \<and> d AND 7 \<noteq> 0")
    case True
    have n: "1 \<le> unat n" using True by (simp add: Suc_le_eq unat_gt_0)
    have r: "memset_head m d v n = memset_head (m(d := v)) (d + 1) v (n - 1)"
      using True by (subst memset_head.simps) simp
    show ?thesis
      unfolding r by (rule filled_step [OF n fill_byte of_nat_1 [symmetric] 1 [OF True]])
  next
    case False
    have r: "memset_head m d v n = (m, d, n)" by (subst memset_head.simps) (simp only: False if_False)
    show ?thesis unfolding r by (rule filled_refl)
  qed
qed

lemma fold_write_splat:
  "8 * (j + n) \<le> 64 \<Longrightarrow>
   fold (\<lambda>i m. write64 m (d + 8 * of_nat i) (splat v)) [j..<j + n] (fill m d v (8 * j)) =
   fill m d v (8 * (j + n))"
proof (induction n)
  case 0
  then show ?case by simp
next
  case (Suc n)
  have "fill (fill m d v (8 * (j + n))) (d + of_nat (8 * (j + n))) v 8 = fill m d v (8 * (j + n) + 8)"
    using Suc.prems by (intro fill_append) simp
  with Suc show ?case by (simp add: write_splat algebra_simps)
qed

lemma memset_64_filled: "filled m d v n (memset_64 m d (splat v) n)"
proof (induction m d "splat v" n rule: memset_64.induct)
  case (1 m d n)
  show ?case
  proof (cases "64 \<le> n")
    case True
    have n: "64 \<le> unat n" using True by (simp add: word_le_nat_alt)
    have l: "[0, 1, 2, 3, 4, 5, 6, 7] = [0..<0 + 8::nat]" by (simp add: upt_rec)
    have fd: "fold (\<lambda>i m. write64 m (d + 8 * of_nat i) (splat v)) [0, 1, 2, 3, 4, 5, 6, 7] m = fill m d v 64"
      using fold_write_splat [of 0 8 d v m] unfolding l by (simp add: fill_def [of m d v 0])
    then have r: "memset_64 m d (splat v) n = memset_64 (fill m d v 64) (d + 64) (splat v) (n - 64)"
      using True by (subst memset_64.simps) simp
    show ?thesis
      unfolding r using 1 [OF True] fd by (intro filled_step [OF n refl, of 64]) simp_all
  next
    case False
    have r: "memset_64 m d (splat v) n = (m, d, n)" by (subst memset_64.simps) (simp only: False if_False)
    show ?thesis unfolding r by (rule filled_refl)
  qed
qed

lemma memset_8_filled: "filled m d v n (memset_8 m d (splat v) n)"
proof (induction m d "splat v" n rule: memset_8.induct)
  case (1 m d n)
  show ?case
  proof (cases "8 \<le> n")
    case True
    then have n: "8 \<le> unat n" by (simp add: word_le_nat_alt)
    have r: "memset_8 m d (splat v) n = memset_8 (write64 m d (splat v)) (d + 8) (splat v) (n - 8)"
      using True by (subst memset_8.simps) simp
    show ?thesis unfolding r by (rule filled_step [OF n write_splat _ 1 [OF True]]) simp
  next
    case False
    have r: "memset_8 m d (splat v) n = (m, d, n)" by (subst memset_8.simps) (simp only: False if_False)
    show ?thesis unfolding r by (rule filled_refl)
  qed
qed

lemma memset_tail_fill: "memset_tail m d v n = fill m d v (unat n)"
proof (induction m d v n rule: memset_tail.induct)
  case (1 m d v n)
  show ?case
  proof (cases "n = 0")
    case True
    then show ?thesis by (subst memset_tail.simps) (simp add: fill_def)
  next
    case False
    have u: "unat n = 1 + unat (n - 1)" using False by (simp add: unat_minus_one unat_gt_0)
    have "1 + unat (n - 1) \<le> 2 ^ 64" using u unat_u64_less [of n] by simp
    then have "fill (fill m d v 1) (d + of_nat 1) v (unat (n - 1)) = fill m d v (unat n)"
      unfolding u by (rule fill_append)
    then show ?thesis using 1 [OF False] False by (subst memset_tail.simps) (simp add: fill_byte)
  qed
qed

lemma filled_trans:
  assumes "filled m d v n (m1, d1, n1)" "filled m1 d1 v n1 r"
  shows "filled m d v n r"
proof -
  from assms(1) obtain k where k: "k \<le> unat n" "m1 = fill m d v k" "d1 = d + of_nat k" "n1 = n - of_nat k"
    by (auto simp: filled_def)
  from filled_step [OF k(1,2) refl] assms(2) k(3,4) show ?thesis by simp
qed

lemma memset_fill: "memset m d c n = fill m d (ucast c) (unat n)"
proof -
  let ?v = "ucast c :: u8"
  obtain m1 d1 n1 where h: "memset_head m d ?v n = (m1, d1, n1)" by (metis prod_cases3)
  obtain m2 d2 n2 where w: "memset_64 m1 d1 (splat ?v) n1 = (m2, d2, n2)" by (metis prod_cases3)
  obtain m3 d3 n3 where b: "memset_8 m2 d2 (splat ?v) n2 = (m3, d3, n3)" by (metis prod_cases3)
  have "filled m d ?v n (m1, d1, n1)" using memset_head_filled [of m d ?v n] h by simp
  moreover have "filled m1 d1 ?v n1 (m2, d2, n2)" using memset_64_filled [of m1 d1 ?v n1] w by simp
  moreover have "filled m2 d2 ?v n2 (m3, d3, n3)" using memset_8_filled [of m2 d2 ?v n2] b by simp
  ultimately have "filled m d ?v n (m3, d3, n3)" by (blast intro: filled_trans)
  then obtain k where k: "k \<le> unat n" "m3 = fill m d ?v k" "d3 = d + of_nat k" "n3 = n - of_nat k"
    by (auto simp: filled_def)
  have "unat (of_nat k :: u64) = k" using k(1) unat_u64_less [of n] by (intro unat_of_nat_u64) simp
  then have "unat n3 = unat n - k" using k by (simp add: unat_sub_wrap)
  then have "memset_tail m3 d3 ?v n3 = fill m d ?v (unat n)"
    using fill_append [of k "unat n - k" m d ?v] k unat_u64_less [of n] by (simp add: memset_tail_fill)
  then show ?thesis by (simp add: memset_def Let_def h w b)
qed

section \<open>Comparing\<close>

lemma first_diff_append:
  "first_diff m a b (k + n) =
     (case first_diff m a b k of Some r \<Rightarrow> Some r
      | None \<Rightarrow> first_diff m (a + of_nat k) (b + of_nat k) n)"
  by (induction k arbitrary: a b) (simp_all add: of_nat_Suc add.assoc split: option.split)

lemma first_diff_None: "first_diff m a b n = None \<longleftrightarrow> (\<forall>i<n. m (a + of_nat i) = m (b + of_nat i))"
proof (induction n arbitrary: a b)
  case 0
  then show ?case by simp
next
  case (Suc n)
  show ?case by (auto simp: Suc.IH All_less_Suc2 of_nat_Suc add.assoc)
qed

lemma first_diff_nonzero: "first_diff m a b n = Some r \<Longrightarrow> r \<noteq> 0"
  by (induction n arbitrary: a b) (auto split: if_splits simp: word_uint_eq_iff)

lemma read64_eq_iff: "read64 m a = read64 m b \<longleftrightarrow> first_diff m a b 8 = None"
proof
  assume eq: "read64 m a = read64 m b"
  show "first_diff m a b 8 = None"
    unfolding first_diff_None
  proof (intro allI impI)
    fix i :: nat assume i: "i < 8"
    show "m (a + of_nat i) = m (b + of_nat i)"
    proof (rule bit_word_eqI)
      fix k assume "k < LENGTH(8)"
      then have "(8 * i + k) div 8 = i" "(8 * i + k) mod 8 = k" "8 * i + k < 64" using i by auto
      then show "bit (m (a + of_nat i)) k = bit (m (b + of_nat i)) k"
        using bit_load [of 8 m a "8 * i + k"] bit_load [of 8 m b "8 * i + k"] eq by simp
    qed
  qed
next
  assume "first_diff m a b 8 = None"
  then show "read64 m a = read64 m b"
    by (intro bit_word_eqI) (simp add: bit_load first_diff_None)
qed

text \<open>What the loops of \<open>memcmp\<close> compute: the first difference, or equality up to the place they reach.\<close>

definition compared :: "mem \<Rightarrow> u64 \<Rightarrow> u64 \<Rightarrow> u64 \<Rightarrow> int + u64 \<times> u64 \<times> u64 \<Rightarrow> bool" where
  "compared m a b n r \<longleftrightarrow>
     (case r of
        Inl x \<Rightarrow> first_diff m a b (unat n) = Some x
      | Inr (a', b', n') \<Rightarrow> first_diff m a b (unat n) = first_diff m a' b' (unat n'))"

lemma first_diff_skip:
  assumes "k \<le> unat n" "first_diff m a b k = None" "K = of_nat k"
  shows "first_diff m a b (unat n) = first_diff m (a + K) (b + K) (unat (n - K))"
proof -
  have "unat (of_nat k :: u64) = k" using assms(1) unat_u64_less [of n] by (intro unat_of_nat_u64) simp
  then have "unat n = k + unat (n - K)" using assms by (simp add: unat_sub_wrap)
  then show ?thesis using first_diff_append [of m a b k "unat (n - K)"] assms(2,3) by simp
qed

lemma memcmp_head_compared: "compared m a b n (memcmp_head m a b n)"
proof (induction m a b n rule: memcmp_head.induct)
  case (1 m a b n)
  show ?case
  proof (cases "n \<noteq> 0 \<and> a AND 7 \<noteq> 0")
    case False
    have "memcmp_head m a b n = Inr (a, b, n)" by (subst memcmp_head.simps) (simp only: False if_False)
    then show ?thesis by (simp add: compared_def)
  next
    case True
    have u: "unat n = Suc (unat n - 1)" using True by (simp add: unat_gt_0)
    show ?thesis
    proof (cases "m a = m b")
      case False
      then have "memcmp_head m a b n = Inl (uint (m a) - uint (m b))" using True by (subst memcmp_head.simps) simp
      moreover have "first_diff m a b (unat n) = Some (uint (m a) - uint (m b))" using False by (subst u) simp
      ultimately show ?thesis by (simp add: compared_def)
    next
      case eq: True
      then have r: "memcmp_head m a b n = memcmp_head m (a + 1) (b + 1) (n - 1)"
        using True by (subst memcmp_head.simps) simp
      have fd: "first_diff m a b (unat n) = first_diff m (a + 1) (b + 1) (unat (n - 1))"
        using u eq by (intro first_diff_skip [of 1]) simp_all
      show ?thesis unfolding r compared_def fd using 1 [OF True] eq by (simp add: compared_def)
    qed
  qed
qed

lemma memcmp_8_compared: "compared m a b n (memcmp_8 m a b n)"
proof (induction m a b n rule: memcmp_8.induct)
  case (1 m a b n)
  show ?case
  proof (cases "8 \<le> n")
    case False
    have "memcmp_8 m a b n = Inr (a, b, n)" by (subst memcmp_8.simps) (simp only: False if_False)
    then show ?thesis by (simp add: compared_def)
  next
    case True
    then have n: "8 \<le> unat n" by (simp add: word_le_nat_alt)
    show ?thesis
    proof (cases "first_diff m a b 8")
      case None
      then have r: "memcmp_8 m a b n = memcmp_8 m (a + 8) (b + 8) (n - 8)"
        using True by (subst memcmp_8.simps) simp
      have fd: "first_diff m a b (unat n) = first_diff m (a + 8) (b + 8) (unat (n - 8))"
        using n None by (intro first_diff_skip [of 8]) simp_all
      show ?thesis unfolding r compared_def fd using 1 [OF True] None by (simp add: compared_def)
    next
      case (Some x)
      then have "read64 m a \<noteq> read64 m b" by (simp add: read64_eq_iff)
      then have "memcmp_8 m a b n = Inl x" using True Some by (subst memcmp_8.simps) simp
      moreover have "first_diff m a b (unat n) = Some x"
        using first_diff_append [of m a b 8 "unat n - 8"] n Some by simp
      ultimately show ?thesis by (simp add: compared_def)
    qed
  qed
qed

lemma memcmp_tail_eq: "memcmp_tail m a b n = (case first_diff m a b (unat n) of None \<Rightarrow> 0 | Some r \<Rightarrow> r)"
proof (induction m a b n rule: memcmp_tail.induct)
  case (1 m a b n)
  show ?case
  proof (cases "n = 0")
    case True
    then show ?thesis by (subst memcmp_tail.simps) simp
  next
    case False
    have u: "unat n = Suc (unat (n - 1))" using False by (simp add: unat_minus_one unat_gt_0)
    then have f: "first_diff m a b (unat n) =
        (if m a \<noteq> m b then Some (uint (m a) - uint (m b)) else first_diff m (a + 1) (b + 1) (unat (n - 1)))"
      by simp
    show ?thesis
      unfolding f using 1 [OF False] False by (subst memcmp_tail.simps) simp
  qed
qed

lemma memcmp_eq: "memcmp m a b n = (case first_diff m a b (unat n) of None \<Rightarrow> 0 | Some r \<Rightarrow> r)"
proof (cases "memcmp_head m a b n")
  case (Inl r)
  then show ?thesis using memcmp_head_compared [of m a b n] by (simp add: memcmp_def compared_def)
next
  case (Inr t)
  then obtain a1 b1 n1 where h: "memcmp_head m a b n = Inr (a1, b1, n1)" by (cases t) auto
  then have fd: "first_diff m a b (unat n) = first_diff m a1 b1 (unat n1)"
    using memcmp_head_compared [of m a b n] by (simp add: compared_def)
  show ?thesis
    unfolding fd using memcmp_8_compared [of m a1 b1 n1] h
    by (auto simp: memcmp_def compared_def memcmp_tail_eq split: sum.splits)
qed

section \<open>Zero bytes in a word\<close>

text \<open>The bytes of a word as a number, and of the constant of ones in \<open>has_zero\<close>.\<close>

definition byte_of :: "int \<Rightarrow> nat \<Rightarrow> int" where
  "byte_of v k = v div 256 ^ k mod 256"

abbreviation ONES :: int where
  "ONES \<equiv> 0x0101010101010101"

lemma ones_facts:
  assumes "k < 8"
  shows "ONES div 256 ^ k mod 256 = 1"
proof -
  have "k \<in> {0, 1, 2, 3, 4, 5, 6, 7}" using assms by auto
  then show ?thesis by auto
qed

lemma mod_power_step: "(v::int) mod 256 ^ Suc k = v mod 256 ^ k + 256 ^ k * byte_of v k"
  unfolding byte_of_def by (simp add: zmod_zmult2_eq mult.commute [of 256])

lemma no_borrow:
  assumes "k \<le> 8" "\<forall>j<k. byte_of v j \<noteq> 0"
  shows "ONES mod 256 ^ k \<le> v mod 256 ^ k"
  using assms
proof (induction k)
  case 0
  then show ?case by simp
next
  case (Suc k)
  have "byte_of v k \<noteq> 0" using Suc.prems(2) by simp
  moreover have "0 \<le> byte_of v k" by (simp add: byte_of_def)
  ultimately have b: "1 \<le> byte_of v k" by linarith
  have one: "byte_of ONES k = 1" using ones_facts [of k] Suc.prems(1) by (simp add: byte_of_def)
  have "256 ^ k * 1 \<le> 256 ^ k * byte_of v k" using b by (intro mult_left_mono) simp_all
  moreover have "ONES mod 256 ^ k \<le> v mod 256 ^ k" using Suc by simp
  ultimately show ?case unfolding mod_power_step one by (rule add_mono [rotated])
qed

lemma byte_of_diff:
  assumes "k < 8" "\<forall>j<k. byte_of v j \<noteq> 0"
  shows "byte_of (v - ONES) k = (byte_of v k - 1) mod 256"
proof -
  let ?p = "256 ^ k :: int"
  have "ONES mod ?p \<le> v mod ?p" using assms by (intro no_borrow) simp_all
  moreover have "v mod ?p < ?p" "0 \<le> ONES mod ?p" by simp_all
  ultimately have r: "0 \<le> v mod ?p - ONES mod ?p" "v mod ?p - ONES mod ?p < ?p" by linarith+
  have "v - ONES = (v mod ?p - ONES mod ?p) + ?p * (v div ?p - ONES div ?p)"
    by (simp add: algebra_simps)
  then have "(v - ONES) div ?p = v div ?p - ONES div ?p"
    using r by (simp add: div_pos_pos_trivial)
  then have "byte_of (v - ONES) k = (v div ?p - ONES div ?p) mod 256" by (simp add: byte_of_def)
  also have "\<dots> = (byte_of v k - ONES div ?p mod 256) mod 256"
    by (simp add: byte_of_def mod_diff_left_eq mod_diff_right_eq)
  finally show ?thesis by (simp add: ones_facts [OF assms(1)])
qed

lemma bit_byte_of: "bit (v::int) (8 * k + 7) \<longleftrightarrow> 128 \<le> byte_of v k"
proof -
  let ?y = "v div 256 ^ k"
  have "v div 2 ^ (8 * k + 7) = ?y div 128"
    by (simp add: power_add power_mult zdiv_zmult2_eq)
  then have "bit v (8 * k + 7) \<longleftrightarrow> odd (?y div 128)" by (simp add: bit_iff_odd)
  also have "?y div 128 mod 2 = ?y mod 256 div 128" using zmod_zmult2_eq [of 2 ?y 128] by simp
  then have "odd (?y div 128) \<longleftrightarrow> ?y mod 256 div 128 = 1" by (simp add: odd_iff_mod_2_eq_one)
  also have "\<dots> \<longleftrightarrow> 128 \<le> byte_of v k"
  proof -
    have "(z div 128 = 1) = (128 \<le> z)" if "0 \<le> z" "z < 256" for z :: int
      using that by presburger
    then show ?thesis unfolding byte_of_def by simp
  qed
  finally show ?thesis .
qed

lemma bit_highs: "bit (0x8080808080808080 :: u64) n \<longleftrightarrow> (\<exists>k<8. n = 8 * k + 7)"
proof -
  have "list_all (\<lambda>n. bit (0x8080808080808080 :: u64) n = (n mod 8 = 7)) [0..<64]"
    by (simp add: upt_rec)
  then have "n < 64 \<Longrightarrow> bit (0x8080808080808080 :: u64) n = (n mod 8 = 7)" by (simp add: list_all_iff)
  moreover have "n mod 8 = 7 \<and> n < 64 \<longleftrightarrow> (\<exists>k<8. n = 8 * k + 7)"
  proof
    assume "n mod 8 = 7 \<and> n < 64"
    moreover have "8 * (n div 8) + n mod 8 = n" by simp
    ultimately show "\<exists>k<8. n = 8 * k + 7" by (intro exI [of _ "n div 8"]) auto
  qed auto
  moreover have "bit (0x8080808080808080 :: u64) n \<Longrightarrow> n < 64" using bit_imp_le_length [of "0x8080808080808080 :: u64" n] by simp
  ultimately show ?thesis by blast
qed

text \<open>The test of \<open>strlen\<close>: the result is zero exactly when no byte of the word is zero.\<close>

lemma has_zero_iff: "has_zero v = 0 \<longleftrightarrow> (\<forall>k<8. byte_of (uint v) k \<noteq> 0)"
proof -
  have sub: "bit (v - 0x0101010101010101) n \<longleftrightarrow> bit (uint v - ONES) n" if "n < 64" for n
  proof -
    have "v - 0x0101010101010101 = word_of_int (uint v - ONES)" by simp
    then show ?thesis using that by (simp only: bit_word_of_int_iff) simp
  qed
  have vb: "bit v n \<longleftrightarrow> bit (uint v) n" for n by (simp add: bit_uint_iff) (auto dest: bit_imp_le_length)
  have eq: "has_zero v = 0 \<longleftrightarrow>
      (\<forall>k<8. \<not> (128 \<le> byte_of (uint v - ONES) k \<and> \<not> 128 \<le> byte_of (uint v) k))"
  proof -
    have hb: "bit (has_zero v) n \<longleftrightarrow>
        (\<exists>k<8. n = 8 * k + 7 \<and> bit (v - 0x0101010101010101) n \<and> \<not> bit v n)" for n
      unfolding has_zero_def bit_and_iff bit_not_iff bit_highs by auto
    have "has_zero v = 0 \<longleftrightarrow> (\<forall>n. \<not> bit (has_zero v) n)"
    proof
      assume "\<forall>n. \<not> bit (has_zero v) n"
      then show "has_zero v = 0" by (intro bit_word_eqI) simp
    qed simp
    also have "\<dots> \<longleftrightarrow> (\<forall>k<8. \<not> (bit (v - 0x0101010101010101) (8 * k + 7) \<and> \<not> bit v (8 * k + 7)))"
      unfolding hb by blast
    finally show ?thesis by (simp add: sub vb bit_byte_of)
  qed
  show ?thesis
  proof
    assume all: "\<forall>k<8. byte_of (uint v) k \<noteq> 0"
    have "\<not> 128 \<le> byte_of (uint v - ONES) k \<or> 128 \<le> byte_of (uint v) k" if "k < 8" for k
    proof -
      have "byte_of (uint v - ONES) k = (byte_of (uint v) k - 1) mod 256"
        using all that by (intro byte_of_diff) auto
      moreover have "0 < byte_of (uint v) k" "byte_of (uint v) k < 256"
        using all that by (auto simp: byte_of_def less_le)
      ultimately show ?thesis by auto
    qed
    then show "has_zero v = 0" unfolding eq by blast
  next
    assume z: "has_zero v = 0"
    show "\<forall>k<8. byte_of (uint v) k \<noteq> 0"
    proof (rule ccontr)
      assume "\<not> (\<forall>k<8. byte_of (uint v) k \<noteq> 0)"
      then have ex: "\<exists>k. k < 8 \<and> byte_of (uint v) k = 0" by blast
      define k where "k = (LEAST k. k < 8 \<and> byte_of (uint v) k = 0)"
      have k: "k < 8" "byte_of (uint v) k = 0" unfolding k_def using LeastI_ex [OF ex] by auto
      have "byte_of (uint v) j \<noteq> 0" if "j < k" for j
        using not_less_Least [of j "\<lambda>k. k < 8 \<and> byte_of (uint v) k = 0"] that k(1) unfolding k_def by auto
      then have "byte_of (uint v - ONES) k = 255" using byte_of_diff [of k "uint v"] k by simp
      with z eq k show False by auto
    qed
  qed
qed

section \<open>Terminated strings\<close>

text \<open>\<open>zero_at m s n\<close>: the string at \<open>s\<close> has \<open>n\<close> characters, the first zero byte is at \<open>s + n\<close>.\<close>

definition zero_at :: "mem \<Rightarrow> u64 \<Rightarrow> nat \<Rightarrow> bool" where
  "zero_at m s n \<longleftrightarrow> m (s + of_nat n) = 0 \<and> (\<forall>i<n. m (s + of_nat i) \<noteq> 0)"

lemma zero_at_0: "zero_at m s 0 \<longleftrightarrow> m s = 0"
  by (simp add: zero_at_def)

lemma zero_at_Suc: "zero_at m s (Suc n) \<longleftrightarrow> m s \<noteq> 0 \<and> zero_at m (s + 1) n"
  by (auto simp: zero_at_def All_less_Suc2 of_nat_Suc add.assoc)

lemmas zero_at_simps = zero_at_0 zero_at_Suc

lemma zero_at_shift: "zero_at m s n \<Longrightarrow> j \<le> n \<Longrightarrow> zero_at m (s + of_nat j) (n - j)"
proof (induction j arbitrary: s n)
  case 0
  then show ?case by simp
next
  case (Suc j)
  then obtain n' where "n = Suc n'" by (cases n) auto
  with Suc show ?case by (simp add: zero_at_Suc of_nat_Suc add.assoc [symmetric])
qed

lemma strlen_head_spec:
  "zero_at m s n \<Longrightarrow>
   \<exists>b j. strlen_head m s = Some (b, s + of_nat j) \<and> j \<le> n \<and> (b \<longrightarrow> j = n)"
proof (induction n arbitrary: s)
  case 0
  then show ?case by (subst strlen_head.simps) (auto simp: zero_at_0 intro: exI [of _ 0])
next
  case (Suc n)
  then have "zero_at m (s + 1) n" by (simp add: zero_at_Suc)
  from Suc.IH [OF this] obtain b j where
    "strlen_head m (s + 1) = Some (b, s + 1 + of_nat j)" "j \<le> n" "b \<longrightarrow> j = n" by blast
  then have "s AND 7 \<noteq> 0 \<Longrightarrow> strlen_head m s = Some (b, s + of_nat (Suc j)) \<and> Suc j \<le> Suc n \<and> (b \<longrightarrow> Suc j = Suc n)"
    using Suc.prems by (subst strlen_head.simps) (simp add: zero_at_Suc of_nat_Suc add.assoc)
  moreover have "s AND 7 = 0 \<Longrightarrow> strlen_head m s = Some (False, s + of_nat 0)"
    by (subst strlen_head.simps) simp
  ultimately show ?case by blast
qed

lemma byte_of_read64: "k < 8 \<Longrightarrow> byte_of (uint (read64 m w)) k = uint (m (w + of_nat k))"
proof -
  assume k: "k < 8"
  have "uint (read64 m w) div 256 ^ k mod 256 = take_bit 8 (drop_bit (8 * k) (uint (read64 m w)))"
    by (simp add: take_bit_eq_mod drop_bit_eq_div power_mult)
  also have "\<dots> = uint (m (w + of_nat k))"
  proof (rule bit_eqI)
    fix n
    have "(8 * k + n) div 8 = k \<and> (8 * k + n) mod 8 = n \<and> 8 * k + n < 64" if "n < 8" using that k by auto
    then show "bit (take_bit 8 (drop_bit (8 * k) (uint (read64 m w)))) n = bit (uint (m (w + of_nat k))) n"
      by (cases "n < 8") (auto simp: bit_simps bit_load dest: bit_imp_le_length)
  qed
  finally show ?thesis by (simp add: byte_of_def)
qed

lemma has_zero_read64: "has_zero (read64 m w) = 0 \<longleftrightarrow> (\<forall>k<8. m (w + of_nat k) \<noteq> 0)"
  by (auto simp: has_zero_iff byte_of_read64 uint_0_iff)

lemma strlen_words_spec: "zero_at m w n \<Longrightarrow> \<exists>j\<le>n. strlen_words m w = Some (w + of_nat j)"
proof (induction n arbitrary: w rule: less_induct)
  case (less n)
  show ?case
  proof (cases "has_zero (read64 m w) = 0")
    case False
    then have "strlen_words m w = Some (w + of_nat 0)" by (subst strlen_words.simps) simp
    then show ?thesis by blast
  next
    case True
    then have "8 \<le> n" using less.prems unfolding has_zero_read64 zero_at_def by (meson not_le)
    then have "zero_at m (w + 8) (n - 8)" using zero_at_shift [OF less.prems, of 8] by simp
    with less.IH [of "n - 8"] \<open>8 \<le> n\<close> obtain j where
      j: "j \<le> n - 8" "strlen_words m (w + 8) = Some (w + 8 + of_nat j)" by auto
    then have "strlen_words m w = Some (w + of_nat (8 + j))"
      using True by (subst strlen_words.simps) (simp add: add.assoc)
    with j(1) \<open>8 \<le> n\<close> show ?thesis by (intro exI [of _ "8 + j"]) simp
  qed
qed

lemma find_zero_spec: "zero_at m s n \<Longrightarrow> find_zero m s = Some (s + of_nat n)"
proof (induction n arbitrary: s)
  case 0
  then show ?case by (subst find_zero.simps) (simp add: zero_at_0)
next
  case (Suc n)
  then show ?case by (subst find_zero.simps) (simp add: zero_at_Suc of_nat_Suc add.assoc)
qed

lemma strlen_spec:
  assumes "zero_at m s n"
  shows "strlen m s = Some (of_nat n)"
proof -
  obtain b j where h: "strlen_head m s = Some (b, s + of_nat j)" "j \<le> n" "b \<longrightarrow> j = n"
    using strlen_head_spec [OF assms] by blast
  show ?thesis
  proof (cases b)
    case True
    then show ?thesis using h by (simp add: strlen_def)
  next
    case False
    obtain i where i: "i \<le> n - j" "strlen_words m (s + of_nat j) = Some (s + of_nat j + of_nat i)"
      using strlen_words_spec [OF zero_at_shift [OF assms h(2)]] by blast
    have "zero_at m (s + of_nat (j + i)) (n - (j + i))"
      using i(1) h(2) by (intro zero_at_shift [OF assms]) simp
    from find_zero_spec [OF this] have "find_zero m (s + of_nat j + of_nat i) = Some (s + of_nat n)"
      using i(1) h(2) by (simp add: add.assoc flip: of_nat_add)
    with False h(1) i(2) show ?thesis by (simp add: strlen_def)
  qed
qed

text \<open>Copying and comparing strings.\<close>

lemma zero_at_copy:
  assumes "zero_at m s n" "\<And>i. i \<le> n \<Longrightarrow> s + of_nat i \<noteq> d"
  shows "zero_at (m(d := v)) s n"
  using assms by (auto simp: zero_at_def)

lemma copy_string_spec:
  "zero_at m s n \<Longrightarrow> upward_safe d s (Suc n) \<Longrightarrow> Suc n \<le> 2 ^ 64 \<Longrightarrow>
   copy_string m d s = Some (copy m d s (Suc n))"
proof (induction n arbitrary: m d s)
  case 0
  then show ?case
    by (subst copy_string.simps) (use copy_byte [of m d s] in \<open>simp add: zero_at_0\<close>)
next
  case (Suc n)
  let ?m1 = "m(d := m s)"
  have safe: "upward_safe (d + of_nat 1) (s + of_nat 1) (Suc n)"
    using upward_safe_shift [of d s 1 "Suc n"] Suc.prems(2) by simp
  have "s + 1 + of_nat i \<noteq> d" if "i \<le> n" for i
  proof
    assume "s + 1 + of_nat i = d"
    then have "d + of_nat 0 = s + of_nat (Suc i)" by (simp add: of_nat_Suc add.assoc)
    with Suc.prems(2) that show False unfolding upward_safe_def by (metis Suc_le_mono le_imp_less_Suc zero_less_Suc)
  qed
  then have "zero_at ?m1 (s + 1) n" using Suc.prems(1) by (intro zero_at_copy) (simp_all add: zero_at_Suc)
  then have "copy_string ?m1 (d + 1) (s + 1) = Some (copy ?m1 (d + 1) (s + 1) (Suc n))"
    using Suc.IH safe Suc.prems(3) by simp
  moreover have "copy ?m1 (d + 1) (s + 1) (Suc n) = copy m d s (Suc (Suc n))"
    using copy_append [of d s 1 "Suc n" m] Suc.prems(2,3) by (simp add: copy_byte)
  ultimately show ?case
    using Suc.prems(1) by (subst copy_string.simps) (simp add: zero_at_Suc)
qed

lemma strcmp_spec:
  "zero_at m a n \<Longrightarrow> zero_at m b k \<Longrightarrow>
   \<exists>r. strcmp m a b = Some r \<and>
       (r = 0 \<longleftrightarrow> map (\<lambda>i. m (a + of_nat i)) [0..<n] = map (\<lambda>i. m (b + of_nat i)) [0..<k])"
proof (induction n arbitrary: a b k)
  case 0
  then show ?case
    by (subst strcmp.simps) (cases k, auto simp: zero_at_simps uint_0_iff)
next
  case (Suc n)
  show ?case
  proof (cases "m a = m b")
    case False
    then have "strcmp m a b = Some (uint (m a) - uint (m b))" by (subst strcmp.simps) simp
    moreover have "uint (m a) - uint (m b) \<noteq> 0" using False by (simp add: word_uint_eq_iff)
    moreover have "map (\<lambda>i. m (a + of_nat i)) [0..<Suc n] \<noteq> map (\<lambda>i. m (b + of_nat i)) [0..<k]"
      using False Suc.prems(1,2) by (cases k) (auto simp: upt_conv_Cons zero_at_simps simp del: upt_Suc)
    ultimately show ?thesis by simp
  next
    case True
    then obtain k' where k: "k = Suc k'" using Suc.prems by (cases k) (auto simp: zero_at_simps)
    have "\<exists>r. strcmp m (a + 1) (b + 1) = Some r \<and>
       (r = 0 \<longleftrightarrow> map (\<lambda>i. m (a + 1 + of_nat i)) [0..<n] = map (\<lambda>i. m (b + 1 + of_nat i)) [0..<k'])"
      using Suc.prems k by (intro Suc.IH) (simp_all add: zero_at_Suc)
    moreover have "strcmp m a b = strcmp m (a + 1) (b + 1)"
      using True Suc.prems by (subst strcmp.simps) (simp add: zero_at_Suc)
    moreover have "map (\<lambda>i. m (p + of_nat i)) [0..<Suc j] = m p # map (\<lambda>i. m (p + 1 + of_nat i)) [0..<j]" for p j
      by (simp add: upt_conv_Cons map_Suc_upt [symmetric] of_nat_Suc add.assoc o_def del: upt_Suc)
    ultimately show ?thesis using True k by simp
  qed
qed

lemma first_diff_least:
  "i < n \<Longrightarrow> m (a + of_nat i) \<noteq> m (b + of_nat i) \<Longrightarrow> \<forall>j<i. m (a + of_nat j) = m (b + of_nat j) \<Longrightarrow>
   first_diff m a b n = Some (uint (m (a + of_nat i)) - uint (m (b + of_nat i)))"
proof (induction n arbitrary: a b i)
  case 0
  then show ?case by simp
next
  case (Suc n)
  show ?case
  proof (cases i)
    case 0
    then show ?thesis using Suc.prems by simp
  next
    case (Suc i')
    have "m a = m b" using Suc.prems(3) Suc by (auto dest: spec [of _ 0])
    moreover have "\<forall>j<i'. m (a + 1 + of_nat j) = m (b + 1 + of_nat j)"
      using Suc.prems(3) Suc by (auto dest: spec [of _ "Suc _"] simp: of_nat_Suc add.assoc)
    ultimately show ?thesis
      using Suc.IH [of i' "a + 1" "b + 1"] Suc.prems Suc by (simp add: of_nat_Suc add.assoc)
  qed
qed

section \<open>Properties\<close>

text \<open>
  \<open>memmove\<close> is right for every overlap of its two ranges: whatever branch it takes, and
  although its upward branch is the word-wise \<open>memcpy\<close>, the destination ends up with the bytes the
  source had before, and no other byte of memory changes.
\<close>

theorem memmove_correct:
  assumes "unat d + unat n \<le> 2 ^ 64" "unat s + unat n \<le> 2 ^ 64"
  shows "memmove m d s n = copy m d s (unat n)"
proof -
  consider "d < s" | "s < d" | "d = s" by (metis linorder_neqE)
  then show ?thesis
  proof cases
    case 1
    then show ?thesis using memcpy_copy upward_safe_below [OF 1] assms(2) by (simp add: memmove_def)
  next
    case 2
    have "d + of_nat i \<noteq> s + of_nat j" if "j < i" "i < unat n" for i j
    proof -
      have "upward_safe s d (unat n)" using 2 assms(1) by (intro upward_safe_below) simp_all
      then show ?thesis using that unfolding upward_safe_def by metis
    qed
    moreover have "\<not> d < s" using 2 by simp
    ultimately show ?thesis using 2 move_back_copy [of n d s m] by (simp add: memmove_def)
  next
    case 3
    then show ?thesis by (simp add: memmove_def copy_self)
  qed
qed

text \<open>
  C28: \<open>memcpy\<close>, with its alignment loop, its loops over 64 and 8 bytes and its byte loop, copies
  exactly the \<open>n\<close> bytes when the ranges do not overlap, from any alignment.
\<close>

theorem memcpy_correct:
  assumes "\<And>i j. i < unat n \<Longrightarrow> j < unat n \<Longrightarrow> d + of_nat i \<noteq> s + of_nat j"
  shows "memcpy m d s n = copy m d s (unat n)"
proof (rule memcpy_copy)
  show "upward_safe d s (unat n)" unfolding upward_safe_def using assms by (auto dest: less_trans)
qed

text \<open>
  \<open>memset\<close> writes the low byte of its value to exactly the \<open>count\<close> bytes at \<open>dest\<close>, from any
  alignment and for any count.
\<close>

theorem memset_correct: "memset m dest value count = fill m dest (ucast value) (unat count)"
  by (rule memset_fill)

text \<open>
  \<open>memcmp\<close>, although it compares words, returns 0 exactly when the two ranges hold the same
  bytes, and otherwise the difference of the first two bytes that differ.
\<close>

theorem memcmp_correct:
  "(memcmp m a b n = 0 \<longleftrightarrow> bytes_at m a (unat n) = bytes_at m b (unat n)) \<and>
   (i < unat n \<and> m (a + of_nat i) \<noteq> m (b + of_nat i) \<and> (\<forall>j<i. m (a + of_nat j) = m (b + of_nat j)) \<longrightarrow>
      memcmp m a b n = uint (m (a + of_nat i)) - uint (m (b + of_nat i)))"
proof
  have "memcmp m a b n = 0 \<longleftrightarrow> first_diff m a b (unat n) = None"
    by (auto simp: memcmp_eq split: option.splits dest: first_diff_nonzero)
  also have "\<dots> \<longleftrightarrow> bytes_at m a (unat n) = bytes_at m b (unat n)"
    by (auto simp: first_diff_None bytes_at_def)
  finally show "memcmp m a b n = 0 \<longleftrightarrow> bytes_at m a (unat n) = bytes_at m b (unat n)" .
qed (auto simp: memcmp_eq first_diff_least)

text \<open>
  \<open>strlen\<close> returns, with the length of the string: the test of eight bytes at a time stops at
  the word that holds the first zero byte and at no word before it.
\<close>

theorem strlen_correct:
  assumes "zero_at m str n"
  shows "strlen m str = Some (of_nat n)"
  using assms by (rule strlen_spec)

text \<open>
  \<open>strcpy\<close> returns and copies the string with its terminating zero, and nothing else, when the
  destination does not start inside the string; \<open>strcmp\<close> returns 0 exactly for equal strings.
\<close>

theorem strcpy_strcmp_correct:
  assumes "zero_at m src n" "upward_safe dest src (Suc n)" "Suc n \<le> 2 ^ 64" "zero_at m b k"
  shows "strcpy m dest src = Some (copy m dest src (Suc n)) \<and>
         (\<exists>r. strcmp m src b = Some r \<and> (r = 0 \<longleftrightarrow> bytes_at m src n = bytes_at m b k))"
  using copy_string_spec [OF assms(1-3)] strcmp_spec [OF assms(1,4)]
  by (simp add: strcpy_def bytes_at_def)

section \<open>Witnesses\<close>

definition text_demo :: mem where
  "text_demo = poke (\<lambda>_. 0) 0x1005 [104, 101, 108, 108, 111, 0, 104, 105]"

lemma text_demo_zero: "zero_at text_demo 0x1005 5" "zero_at text_demo 0x100B 2"
proof -
  have "text_demo (0x1005 + of_nat i) \<noteq> 0" if "i < 5" for i
  proof -
    have "i = 0 \<or> i = 1 \<or> i = 2 \<or> i = 3 \<or> i = 4" using that by auto
    then show ?thesis by (auto simp: text_demo_def poke_def)
  qed
  then show "zero_at text_demo 0x1005 5" by (simp add: zero_at_def) (simp add: text_demo_def poke_def)
  have "text_demo (0x100B + of_nat i) \<noteq> 0" if "i < 2" for i
  proof -
    have "i = 0 \<or> i = 1" using that by auto
    then show ?thesis by (auto simp: text_demo_def poke_def)
  qed
  then show "zero_at text_demo 0x100B 2" by (simp add: zero_at_def) (simp add: text_demo_def poke_def)
qed

theorem memmove_correct_witness:
  "unat (0x1007 :: u64) + unat (5 :: u64) \<le> 2 ^ 64 \<and>
   memmove text_demo 0x1007 0x1005 5 = copy text_demo 0x1007 0x1005 5"
  using memmove_correct [of "0x1007" 5 "0x1005" text_demo] by simp

theorem memcpy_correct_witness:
  "memcpy text_demo 0x2000 0x1005 5 = copy text_demo 0x2000 0x1005 5"
proof -
  have h: "(0x2000 :: u64) + of_nat i \<noteq> 0x1005 + of_nat j" if "i < unat (5 :: u64)" "j < unat (5 :: u64)" for i j
  proof
    assume "(0x2000 :: u64) + of_nat i = 0x1005 + of_nat j"
    then have "adr (0x2000 + i) = adr (0x1005 + j)" by (simp add: adr_def)
    then show False using that by (simp add: adr_inject)
  qed
  from memcpy_correct [where n = 5 and d = "0x2000" and s = "0x1005" and m = text_demo, OF h] show ?thesis by simp
qed

theorem memcmp_correct_witness:
  "memcmp text_demo 0x1005 0x100B 2 = uint (101 :: u8) - uint (105 :: u8)"
proof -
  have "\<forall>j<1. text_demo (0x1005 + of_nat j) = text_demo (0x100B + of_nat j)"
    "text_demo (0x1005 + of_nat 1) \<noteq> text_demo (0x100B + of_nat 1)"
    by (simp_all add: text_demo_def poke_def)
  then show ?thesis
    using memcmp_correct [of text_demo "0x1005" "0x100B" 2 1] by (simp add: text_demo_def poke_def)
qed

theorem strlen_correct_witness: "zero_at text_demo 0x1005 5 \<and> strlen text_demo 0x1005 = Some 5"
  using strlen_correct [OF text_demo_zero(1)] text_demo_zero(1) by simp

theorem strcpy_strcmp_correct_witness:
  "strcpy text_demo 0x1000 0x1005 = Some (copy text_demo 0x1000 0x1005 6) \<and>
   (\<exists>r. strcmp text_demo 0x1005 0x100B = Some r \<and> r \<noteq> 0)"
proof -
  have s: "upward_safe 0x1000 0x1005 (Suc 5)" by (rule upward_safe_below) simp_all
  have "bytes_at text_demo 0x1005 5 \<noteq> bytes_at text_demo 0x100B 2"
    by (auto simp: bytes_at_def dest: arg_cong [of _ _ length])
  with strcpy_strcmp_correct [OF text_demo_zero(1) s _ text_demo_zero(2)] show ?thesis by auto
qed

end
