(* ===== verification/Kprintf.thy ===== *)
theory Kprintf
  imports KString
begin

unbundle bit_operations_syntax

text \<open>
  Formatted output, \<open>src/lib/kprintf.cpp\<close>. The file has the formatter twice, once writing to a
  bounded buffer (\<open>kvsnprintf\<close>) and once to the console (\<open>kvprintf\<close>); here it is one definition over a
  sink, which says how a character is put, what follows a string and what an unknown conversion
  does, and the two are its instances. A format is the list of characters before its terminating
  zero, the variable arguments are a list of eight-byte slots, and strings are read in memory while
  the output is written. \<open>None\<close> is an argument that is missing or a string that does not end.
\<close>

section \<open>Sinks\<close>

record 's sink =
  sput :: "u8 \<Rightarrow> 's \<Rightarrow> 's"
  sflush :: "'s \<Rightarrow> 's"
  sunknown :: "u8 \<Rightarrow> 's \<Rightarrow> 's"
  smem :: "'s \<Rightarrow> mem"

record snbuf =
  sb_mem :: mem
  sb_buf :: u64
  sb_size :: u64
  sb_pos :: u64

definition sn_putc :: "u8 \<Rightarrow> snbuf \<Rightarrow> snbuf" where
  "sn_putc c sb =
     (let sb1 = (if sb_pos sb + 1 < sb_size sb
                 then sb\<lparr>sb_mem := (sb_mem sb)(sb_buf sb + sb_pos sb := c)\<rparr> else sb)
      in sb1\<lparr>sb_pos := sb_pos sb + 1\<rparr>)"

abbreviation PERCENT :: u8 where "PERCENT \<equiv> 37"

definition sn_sink :: "snbuf sink" where
  "sn_sink =
     \<lparr>sput = sn_putc, sflush = id,
      sunknown = (\<lambda>c sb. let sb1 = sn_putc PERCENT sb in if c \<noteq> 0 then sn_putc c sb1 else sb1),
      smem = sb_mem\<rparr>"

text \<open>The console side records what it does, latest first; memory does not change.\<close>

datatype console_event = PutChar u8 | Swap

record con =
  con_mem :: mem
  con_out :: "console_event list"

definition print_char :: "u8 \<Rightarrow> con \<Rightarrow> con" where
  "print_char c s = s\<lparr>con_out := PutChar c # con_out s\<rparr>"

definition con_sink :: "con sink" where
  "con_sink =
     \<lparr>sput = print_char, sflush = (\<lambda>s. s\<lparr>con_out := Swap # con_out s\<rparr>), sunknown = (\<lambda>_ s. s),
      smem = con_mem\<rparr>"

section \<open>Numbers and strings\<close>

definition digit_char :: "bool \<Rightarrow> u64 \<Rightarrow> u8" where
  "digit_char upper d =
     (if d < 10 then 48 + ucast d else if upper then 55 + ucast d else 87 + ucast d)"

text \<open>The loop that fills \<open>buffer\<close>, least significant digit first. The bases are 8, 10 and 16.\<close>

function number_loop :: "bool \<Rightarrow> u64 \<Rightarrow> u64 \<Rightarrow> u8 list" where
  "number_loop upper base val =
     (if val = 0 \<or> base < 2 then []
      else digit_char upper (val mod base) # number_loop upper base (val div base))"
  by pat_completeness auto
termination
proof (relation "measure (\<lambda>(u, b, v). unat v)")
  fix upper :: bool and base val :: u64
  assume a: "\<not> (val = 0 \<or> base < 2)"
  then have "1 < unat base" "0 < unat val" by (simp_all add: word_less_nat_alt unat_gt_0)
  then show "((upper, base, val div base), upper, base, val) \<in> measure (\<lambda>(u, b, v). unat v)"
    by (simp add: unat_div)
qed simp

declare number_loop.simps [simp del]

definition number_buffer :: "bool \<Rightarrow> u64 \<Rightarrow> u64 \<Rightarrow> u8 list" where
  "number_buffer upper base val =
     (if val = 0 then [48] else number_loop upper base val)"

definition puts_list :: "'s sink \<Rightarrow> u8 list \<Rightarrow> 's \<Rightarrow> 's" where
  "puts_list k cs s = fold (sput k) cs s"

definition gen_number :: "'s sink \<Rightarrow> u64 \<Rightarrow> u64 \<Rightarrow> u32 \<Rightarrow> bool \<Rightarrow> bool \<Rightarrow> 's \<Rightarrow> 's" where
  "gen_number k val base width zero upper s =
     (let buffer = number_buffer upper base val;
          padding = sint width - int (length buffer)
      in puts_list k (rev buffer)
           (puts_list k (replicate (nat padding) (if zero then 48 else 32)) s))"

definition sn_print_number :: "u64 \<Rightarrow> u64 \<Rightarrow> u32 \<Rightarrow> bool \<Rightarrow> bool \<Rightarrow> snbuf \<Rightarrow> snbuf" where
  "sn_print_number = gen_number sn_sink"

definition print_number :: "u64 \<Rightarrow> u64 \<Rightarrow> u32 \<Rightarrow> bool \<Rightarrow> bool \<Rightarrow> con \<Rightarrow> con" where
  "print_number = gen_number con_sink"

function number_length :: "u64 \<Rightarrow> u64 \<Rightarrow> nat" where
  "number_length val base =
     (if base \<le> val \<and> 1 < base then number_length (val div base) base + 1 else 1)"
  by pat_completeness auto
termination
proof (relation "measure (\<lambda>(v, b). unat v)")
  fix val base :: u64
  assume a: "base \<le> val \<and> 1 < base"
  then have "1 < unat base" "0 < unat val" by (auto simp: word_less_nat_alt word_le_nat_alt)
  then show "((val div base, base), val, base) \<in> measure (\<lambda>(v, b). unat v)" by (simp add: unat_div)
qed simp

declare number_length.simps [simp del]

text \<open>The string is written while it is read.\<close>

partial_function (option) put_string :: "'s sink \<Rightarrow> u64 \<Rightarrow> 's \<Rightarrow> 's option" where
  "put_string k p s =
     (if smem k s p \<noteq> 0 then put_string k (p + 1) (sput k (smem k s p) s) else Some s)"

text \<open>The literal \<open>"(null)"\<close> stands for a null pointer.\<close>

definition NULL_TEXT :: "u8 list" where
  "NULL_TEXT = [40, 110, 117, 108, 108, 41]"

definition gen_string :: "'s sink \<Rightarrow> u64 \<Rightarrow> u32 \<Rightarrow> bool \<Rightarrow> 's \<Rightarrow> 's option" where
  "gen_string k str width left s =
     Option.bind
       (if str = 0 then Some (of_nat (length NULL_TEXT))
        else map_option (\<lambda>e. ucast (e - str)) (find_zero (smem k s) str))
       (\<lambda>len :: u32.
        let pad = replicate (nat (sint width - sint len)) 32;
            s1 = (if \<not> left then puts_list k pad s else s)
        in map_option (\<lambda>s2. sflush k (if left then puts_list k pad s2 else s2))
             (if str = 0 then Some (puts_list k NULL_TEXT s1) else put_string k str s1))"

definition sn_print_string :: "u64 \<Rightarrow> u32 \<Rightarrow> bool \<Rightarrow> snbuf \<Rightarrow> snbuf option" where
  "sn_print_string = gen_string sn_sink"

definition print_string :: "u64 \<Rightarrow> u32 \<Rightarrow> bool \<Rightarrow> con \<Rightarrow> con option" where
  "print_string = gen_string con_sink"

section \<open>Parsing the format\<close>

definition peek :: "u8 list \<Rightarrow> u8" where
  "peek cs = (case cs of [] \<Rightarrow> 0 | c # _ \<Rightarrow> c)"

fun read_flags :: "u8 list \<Rightarrow> bool \<Rightarrow> bool \<Rightarrow> bool \<times> bool \<times> u8 list" where
  "read_flags [] left zero = (left, zero, [])"
| "read_flags (c # cs) left zero =
     (if c = 45 then read_flags cs True zero
      else if c = 48 then read_flags cs left True
      else (left, zero, c # cs))"

fun read_width :: "u8 list \<Rightarrow> u32 \<Rightarrow> u32 \<times> u8 list" where
  "read_width [] width = (width, [])"
| "read_width (c # cs) width =
     (if 48 \<le> c \<and> c \<le> 57 then read_width cs (width * 10 + (ucast c - 48)) else (width, c # cs))"

definition read_length :: "u8 list \<Rightarrow> nat \<times> u8 list" where
  "read_length cs =
     (if peek cs = 108 then
        if peek (tl cs) = 108 then (2, tl (tl cs)) else (1, tl cs)
      else if peek cs = 122 then (1, tl cs)
      else if peek cs = 104 then (0, if peek (tl cs) = 104 then tl (tl cs) else tl cs)
      else (0, cs))"

text \<open>\<open>va_arg\<close> for the signed, the unsigned and the pointer types.\<close>

definition next_arg :: "u64 list \<Rightarrow> (u64 \<times> u64 list) option" where
  "next_arg args = (case args of [] \<Rightarrow> None | a # as \<Rightarrow> Some (a, as))"

definition arg_signed :: "nat \<Rightarrow> u64 \<Rightarrow> u64" where
  "arg_signed long_flag a = (if long_flag = 0 then scast (ucast a :: u32) else a)"

definition arg_unsigned :: "nat \<Rightarrow> u64 \<Rightarrow> u64" where
  "arg_unsigned long_flag a = (if long_flag = 0 then ucast (ucast a :: u32) else a)"

text \<open>The switch on the conversion character.\<close>

definition convert ::
  "'s sink \<Rightarrow> bool \<Rightarrow> bool \<Rightarrow> u32 \<Rightarrow> nat \<Rightarrow> u8 \<Rightarrow> u64 list \<Rightarrow> 's \<Rightarrow> (u64 list \<times> 's) option" where
  "convert k left zero width long_flag c args s =
     (if c = 115 then
        Option.bind (next_arg args) (\<lambda>(a, as). map_option (Pair as) (gen_string k a width left s))
      else if c = 99 then
        map_option (\<lambda>(a, as). (as, sput k (ucast a) s)) (next_arg args)
      else if c = 100 \<or> c = 105 then
        map_option
          (\<lambda>(a, as).
             let n = arg_signed long_flag a
             in (as, if sint n < 0
                     then gen_number k (- n) 10 width zero False (sput k 45 s)
                     else gen_number k n 10 width zero False s))
          (next_arg args)
      else if c = 117 then
        map_option (\<lambda>(a, as). (as, gen_number k (arg_unsigned long_flag a) 10 width zero False s))
          (next_arg args)
      else if c = 120 \<or> c = 88 then
        map_option (\<lambda>(a, as). (as, gen_number k (arg_unsigned long_flag a) 16 width zero (c = 88) s))
          (next_arg args)
      else if c = 111 then
        map_option (\<lambda>(a, as). (as, gen_number k (arg_unsigned long_flag a) 8 width zero False s))
          (next_arg args)
      else if c = 112 then
        map_option
          (\<lambda>(a, as).
             (as, if a = 0 then sflush k (puts_list k [40, 110, 105, 108, 41] s)
                  else gen_number k a 16 width zero False (sflush k (puts_list k [48, 120] s))))
          (next_arg args)
      else if c = PERCENT then Some (args, sput k PERCENT s)
      else Some (args, sunknown k c s))"

lemma read_flags_length: "length (snd (snd (read_flags cs l z))) \<le> length cs"
  by (induction cs l z rule: read_flags.induct) auto

lemma read_width_length: "length (snd (read_width cs w)) \<le> length cs"
  by (induction cs w rule: read_width.induct) auto

lemma read_length_length: "length (snd (read_length cs)) \<le> length cs"
  by (auto simp: read_length_def)

function gen_format :: "'s sink \<Rightarrow> u8 list \<Rightarrow> u64 list \<Rightarrow> 's \<Rightarrow> 's option" where
  "gen_format k [] args s = Some s"
| "gen_format k (c # cs) args s =
     (if c \<noteq> PERCENT then gen_format k cs args (sput k c s)
      else
        let (left, zero, cs1) = read_flags cs False False;
            (width, cs2) = read_width cs1 0;
            (long_flag, cs3) = read_length cs2
        in case convert k left zero width long_flag (peek cs3) args s of
             None \<Rightarrow> None
           | Some (args', s') \<Rightarrow> gen_format k (tl cs3) args' s')"
  by pat_completeness auto
termination
proof (relation "measure (\<lambda>(k, cs, args, s). length cs)", goal_cases)
  case (3 k c cs args s x left y zero cs1 xa width cs2 xb long_flag cs3 a args' s')
  have "length cs1 \<le> length cs" "length cs2 \<le> length cs1" "length cs3 \<le> length cs2"
    using 3 read_flags_length [of cs False False] read_width_length [of cs1 0] read_length_length [of cs2]
    by (simp_all add: prod_eq_iff)
  then show ?case by (simp add: le_imp_less_Suc le_trans [OF diff_le_self])
qed simp_all

section \<open>The functions of the file\<close>

definition kvsnprintf :: "mem \<Rightarrow> u64 \<Rightarrow> u64 \<Rightarrow> u8 list \<Rightarrow> u64 list \<Rightarrow> (u32 \<times> mem) option" where
  "kvsnprintf m buf sz fmt args =
     map_option
       (\<lambda>sb. (ucast (sb_pos sb),
              if 0 < sb_size sb
              then (sb_mem sb)(buf + (if sb_pos sb < sb_size sb then sb_pos sb else sb_size sb - 1) := 0)
              else sb_mem sb))
       (gen_format sn_sink fmt args \<lparr>sb_mem = m, sb_buf = buf, sb_size = sz, sb_pos = 0\<rparr>)"

definition ksnprintf :: "mem \<Rightarrow> u64 \<Rightarrow> u64 \<Rightarrow> u8 list \<Rightarrow> u64 list \<Rightarrow> (u32 \<times> mem) option" where
  "ksnprintf m buf sz fmt args = kvsnprintf m buf sz fmt args"

definition kvprintf :: "u8 list \<Rightarrow> u64 list \<Rightarrow> con \<Rightarrow> con option" where
  "kvprintf fmt args s = gen_format con_sink fmt args s"

definition kprintf :: "u8 list \<Rightarrow> u64 list \<Rightarrow> con \<Rightarrow> con option" where
  "kprintf fmt args s = kvprintf fmt args s"

section \<open>Every run is a sequence of characters\<close>

text \<open>What the bounded sink does with a sequence of characters.\<close>

lemma sn_putc_fields [simp]:
  "sb_buf (sn_putc c sb) = sb_buf sb" "sb_size (sn_putc c sb) = sb_size sb"
  "sb_pos (sn_putc c sb) = sb_pos sb + 1"
  by (simp_all add: sn_putc_def Let_def)

lemma fold_sn_putc_fields [simp]:
  "sb_buf (fold sn_putc out sb) = sb_buf sb" "sb_size (fold sn_putc out sb) = sb_size sb"
  "sb_pos (fold sn_putc out sb) = sb_pos sb + of_nat (length out)"
  by (induction out arbitrary: sb) (simp_all add: of_nat_Suc add.assoc)

definition sn_run :: "snbuf \<Rightarrow> snbuf \<Rightarrow> bool" where
  "sn_run sb sb' \<longleftrightarrow> (\<exists>out. sb' = fold sn_putc out sb)"

lemma sn_run_refl: "sn_run sb sb"
  unfolding sn_run_def by (intro exI [of _ "[]"]) simp

lemma sn_run_putc: "sn_run sb (sn_putc c sb)"
  unfolding sn_run_def by (intro exI [of _ "[c]"]) simp

lemma sn_run_trans: "sn_run a b \<Longrightarrow> sn_run b c \<Longrightarrow> sn_run a c"
  unfolding sn_run_def by (metis comp_apply fold_append)

lemma sn_sink_fields [simp]: "sput sn_sink = sn_putc" "sflush sn_sink = id"
  by (simp_all add: sn_sink_def)

lemma sn_run_puts: "sn_run sb (puts_list sn_sink cs sb)"
  by (auto simp: sn_run_def puts_list_def sn_sink_def)

lemma sn_run_number: "sn_run sb (gen_number sn_sink v b w z u sb)"
  unfolding gen_number_def Let_def by (rule sn_run_trans [OF sn_run_puts sn_run_puts])

lemma sn_run_put_string:
  assumes "put_string sn_sink p sb = Some sb'"
  shows "sn_run sb sb'"
proof -
  have "k = sn_sink \<longrightarrow> sn_run s s'" if "put_string k q s = Some s'" for k q s s'
  proof (rule put_string.raw_induct [where P = "\<lambda>k q s s'. k = sn_sink \<longrightarrow> sn_run s s'", OF _ that])
    fix f :: "snbuf sink \<Rightarrow> u64 \<Rightarrow> snbuf \<Rightarrow> snbuf option" and k q s s'
    assume IH: "\<And>k q s s'. f k q s = Some s' \<Longrightarrow> k = sn_sink \<longrightarrow> sn_run s s'"
      and r: "(if smem k s q \<noteq> 0 then f k (q + 1) (sput k (smem k s q) s) else Some s) = Some s'"
    show "k = sn_sink \<longrightarrow> sn_run s s'"
      using r IH [of k "q + 1" "sput k (smem k s q) s" s'] sn_run_trans [OF sn_run_putc]
      by (auto simp: sn_sink_def sn_run_refl split: if_splits)
  qed
  with assms show ?thesis by blast
qed

lemma sn_run_string:
  assumes "gen_string sn_sink str w left sb = Some sb'"
  shows "sn_run sb sb'"
proof -
  let ?put = "\<lambda>s1. if str = 0 then Some (puts_list sn_sink NULL_TEXT s1) else put_string sn_sink str s1"
  let ?pad = "\<lambda>len :: u32. replicate (nat (sint w - sint len)) 32"
  from assms obtain len where
    r: "map_option (\<lambda>s2. sflush sn_sink (if left then puts_list sn_sink (?pad len) s2 else s2))
          (?put (if \<not> left then puts_list sn_sink (?pad len) sb else sb)) = Some sb'"
    unfolding gen_string_def Let_def bind_eq_Some_conv by blast
  define s1 where "s1 = (if \<not> left then puts_list sn_sink (?pad len) sb else sb)"
  from r obtain s2 where s2: "?put s1 = Some s2" "(if left then puts_list sn_sink (?pad len) s2 else s2) = sb'"
    unfolding map_option_eq_Some sn_sink_fields id_apply s1_def [symmetric] by blast
  have "sn_run sb s1" using sn_run_puts sn_run_refl by (simp add: s1_def)
  moreover have "sn_run s1 s2"
    using s2(1) sn_run_puts sn_run_put_string by (cases "str = 0") auto
  moreover have "sn_run s2 sb'"
    unfolding s2(2) [symmetric] using sn_run_puts sn_run_refl by (cases left) simp_all
  ultimately show ?thesis by (blast intro: sn_run_trans)
qed

lemma sn_run_convert:
  assumes "convert sn_sink left zero width lf c args sb = Some (args', sb')"
  shows "sn_run sb sb'"
proof -
  have unknown: "sn_run sb (sunknown sn_sink c sb)"
    by (auto simp: sn_sink_def Let_def intro: sn_run_putc sn_run_trans [OF sn_run_putc sn_run_putc])
  note rules = sn_run_putc sn_run_number sn_run_puts unknown sn_run_refl
    sn_run_trans [OF sn_run_putc sn_run_number] sn_run_trans [OF sn_run_puts sn_run_number]
  have arg: "map_option g (next_arg args) = Some (args', sb') \<Longrightarrow>
      (\<And>a as. sn_run sb (snd (g (a, as)))) \<Longrightarrow> sn_run sb sb'" for g
    by (metis map_option_eq_Some snd_conv surj_pair)
  consider "c = 115" | "c = 99" | "c = 100 \<or> c = 105" | "c = 117" | "c = 120 \<or> c = 88" | "c = 111"
    | "c = 112" | "c = PERCENT"
    | "c \<notin> {115, 99, 100, 105, 117, 120, 88, 111, 112, PERCENT}" by blast
  then show ?thesis
  proof cases
    case 1
    then obtain a as where "gen_string sn_sink a width left sb = Some sb'"
      using assms by (auto simp: convert_def bind_eq_Some_conv)
    then show ?thesis by (rule sn_run_string)
  next
    case 2
    then show ?thesis using assms by (auto simp: convert_def rules)
  next
    case 3
    then have "map_option (\<lambda>(a, as). let n = arg_signed lf a
        in (as, if sint n < 0 then gen_number sn_sink (- n) 10 width zero False (sput sn_sink 45 sb)
                else gen_number sn_sink n 10 width zero False sb)) (next_arg args) = Some (args', sb')"
      using assms by (auto simp: convert_def)
    then show ?thesis by (rule arg) (simp add: Let_def rules)
  next
    case 4
    then show ?thesis using assms by (auto simp: convert_def rules)
  next
    case 5
    then have "map_option (\<lambda>(a, as). (as, gen_number sn_sink (arg_unsigned lf a) 16 width zero (c = 88) sb))
        (next_arg args) = Some (args', sb')"
      using assms by (auto simp: convert_def)
    then show ?thesis by (rule arg) (simp add: rules)
  next
    case 6
    then show ?thesis using assms by (auto simp: convert_def rules)
  next
    case 7
    then show ?thesis using assms by (auto simp: convert_def rules)
  next
    case 8
    then show ?thesis using assms by (auto simp: convert_def rules)
  next
    case 9
    then show ?thesis using assms unknown by (simp add: convert_def)
  qed
qed

lemma sn_run_format: "gen_format sn_sink fmt args sb = Some sb' \<Longrightarrow> sn_run sb sb'"
proof (induction "sn_sink" fmt args sb arbitrary: sb' rule: gen_format.induct)
  case (1 args s)
  then show ?case by (simp add: sn_run_refl)
next
  case (2 c cs args s)
  show ?case
  proof (cases "c = PERCENT")
    case False
    then show ?thesis
      using 2(1) [OF False, of sb'] 2(3) sn_run_trans [OF sn_run_putc] by simp
  next
    case True
    obtain l z cs1 where f: "read_flags cs False False = (l, z, cs1)" by (metis prod_cases3)
    obtain w cs2 where w: "read_width cs1 0 = (w, cs2)" by fastforce
    obtain lf cs3 where n: "read_length cs2 = (lf, cs3)" by fastforce
    from 2(3) True f w n obtain args' s' where
      c: "convert sn_sink l z w lf (peek cs3) args s = Some (args', s')" "gen_format sn_sink (tl cs3) args' s' = Some sb'"
      by (auto split: option.splits)
    have "sn_run s' sb'" using 2(2) [of _ l _ z cs1 _ w cs2 _ lf cs3 _ args' s' sb'] True f w n c by auto
    then show ?thesis by (rule sn_run_trans [OF sn_run_convert [OF c(1)]])
  qed
qed

lemma gen_format_plain: "PERCENT \<notin> set fmt \<Longrightarrow> gen_format k fmt args s = Some (fold (sput k) fmt s)"
  by (induction fmt arbitrary: s) auto

text \<open>The memory after a sequence of characters: the first \<open>size - 1\<close> of them are in the buffer.\<close>

lemma fold_sn_putc_mem:
  assumes "sb_pos sb = 0" "length out < 2 ^ 64"
  shows "sb_mem (fold sn_putc out sb) =
    (\<lambda>x. if unat (x - sb_buf sb) < min (length out) (unat (sb_size sb) - 1)
         then out ! unat (x - sb_buf sb) else sb_mem sb x)"
  using assms(2)
proof (induction out rule: rev_induct)
  case Nil
  then show ?case by simp
next
  case (snoc c out)
  let ?sb = "fold sn_putc out sb" let ?n = "length out" let ?z = "unat (sb_size sb)"
  have IH: "sb_mem ?sb = (\<lambda>x. if unat (x - sb_buf sb) < min ?n (?z - 1) then out ! unat (x - sb_buf sb) else sb_mem sb x)"
    using snoc by simp
  have pos: "sb_pos ?sb = of_nat ?n" using assms(1) by simp
  have eq: "of_nat ?n + 1 = (of_nat (Suc ?n) :: u64)" by (simp add: of_nat_Suc add.commute)
  have "unat (of_nat ?n + 1 :: u64) = Suc ?n"
    unfolding eq using snoc.prems by (intro unat_of_nat_u64) simp
  then have fits: "sb_pos ?sb + 1 < sb_size ?sb \<longleftrightarrow> Suc ?n < ?z"
    unfolding pos word_less_nat_alt by simp
  have at: "x = sb_buf sb + of_nat ?n \<longleftrightarrow> unat (x - sb_buf sb) = ?n" for x
  proof -
    have "unat (of_nat ?n :: u64) = ?n" using snoc.prems by (intro unat_of_nat_u64) simp
    then show ?thesis by (metis add.commute add_diff_cancel_right' diff_add_cancel of_nat_unat_u64)
  qed
  have mem: "sb_mem (sn_putc c ?sb) =
      (if Suc ?n < ?z then (sb_mem ?sb)(sb_buf sb + of_nat ?n := c) else sb_mem ?sb)"
    using fits pos by (simp add: sn_putc_def Let_def)
  show ?case
  proof
    fix x
    show "sb_mem (fold sn_putc (out @ [c]) sb) x =
       (if unat (x - sb_buf sb) < min (length (out @ [c])) (?z - 1)
        then (out @ [c]) ! unat (x - sb_buf sb) else sb_mem sb x)"
      using at [of x] by (auto simp: mem IH nth_append min_def)
  qed
qed

section \<open>Numbers\<close>

text \<open>The value of a digit character, and of digits with the least significant first.\<close>

definition digit_value :: "u8 \<Rightarrow> nat" where
  "digit_value c = (if c \<le> 57 then unat c - 48 else if c \<le> 70 then unat c - 55 else unat c - 87)"

fun digits_value :: "nat \<Rightarrow> u8 list \<Rightarrow> nat" where
  "digits_value b [] = 0"
| "digits_value b (c # cs) = digit_value c + b * digits_value b cs"

lemma digit_value_char:
  assumes "d < 16"
  shows "digit_value (digit_char upper d) = unat d"
proof -
  have d: "unat d < 16" using assms by (simp add: word_less_nat_alt)
  have u: "unat (ucast d :: u8) = unat d" using d by (simp add: unsigned_ucast_eq take_bit_nat_eq_self)
  have "unat (48 + ucast d :: u8) = 48 + unat d" "unat (55 + ucast d :: u8) = 55 + unat d"
    "unat (87 + ucast d :: u8) = 87 + unat d" using d by (simp_all add: unat_word_ariths u)
  then show ?thesis using d by (simp add: digit_char_def digit_value_def word_le_nat_alt word_less_nat_alt)
qed

lemma number_loop_value:
  assumes "2 \<le> base" "base \<le> 16"
  shows "digits_value (unat base) (number_loop upper base val) = unat val"
  using assms
proof (induction upper base val rule: number_loop.induct)
  case (1 upper base val)
  show ?case
  proof (cases "val = 0")
    case True
    then show ?thesis by (subst number_loop.simps) simp
  next
    case False
    have b: "\<not> base < 2" "base \<noteq> 0" using 1(2) by (auto simp: not_less)
    have "unat (val mod base) < unat base" using b(2) by (simp add: unat_mod unat_gt_0)
    then have "val mod base < 16" using 1(3) by (simp add: word_less_nat_alt word_le_nat_alt)
    then have d: "digit_value (digit_char upper (val mod base)) = unat val mod unat base"
      by (simp add: digit_value_char unat_mod)
    have "digits_value (unat base) (number_loop upper base (val div base)) = unat val div unat base"
      using 1 False b(1) by (simp add: unat_div)
    with d show ?thesis using False b(1) by (subst number_loop.simps) simp
  qed
qed

lemma number_loop_length: "unat val < 2 ^ n \<Longrightarrow> 2 \<le> base \<Longrightarrow> length (number_loop upper base val) \<le> n"
proof (induction n arbitrary: val)
  case 0
  then have "val = 0" by (simp add: unat_eq_zero)
  then show ?case by (subst number_loop.simps) simp
next
  case (Suc n)
  have "2 \<le> unat base" using Suc.prems(2) by (simp add: word_le_nat_alt)
  then have "unat val div unat base \<le> unat val div 2" by (intro div_le_mono2) simp_all
  also have "\<dots> < 2 ^ n" using Suc.prems(1) by simp
  finally have "length (number_loop upper base (val div base)) \<le> n"
    using Suc.prems(2) by (intro Suc.IH) (simp_all add: unat_div)
  then show ?case by (subst number_loop.simps) simp
qed

section \<open>Properties\<close>


text \<open>
  A format without a percent sign is output as it is: \<open>kvsnprintf\<close> returns, its result is the
  length of the format, and the buffer holds as much of it as fits, terminated.
\<close>

theorem kvsnprintf_plain:
  assumes "PERCENT \<notin> set fmt" "length fmt < 2 ^ 64" "sz \<noteq> 0"
  shows "\<exists>m'. kvsnprintf m buf sz fmt args = Some (of_nat (length fmt), m') \<and>
    bytes_at m' buf (min (length fmt) (unat sz - 1)) = take (unat sz - 1) fmt \<and>
    m' (buf + of_nat (min (length fmt) (unat sz - 1))) = 0"
proof -
  let ?sb = "\<lparr>sb_mem = m, sb_buf = buf, sb_size = sz, sb_pos = 0\<rparr>"
  let ?n = "min (length fmt) (unat sz - 1)"
  let ?e = "if of_nat (length fmt) < sz then of_nat (length fmt) else sz - 1"
  let ?m = "sb_mem (fold sn_putc fmt ?sb)"
  have u: "unat (of_nat (length fmt) :: u64) = length fmt" using assms(2) by (rule unat_of_nat_u64)
  have z: "unat (sz - 1) = unat sz - 1" "0 < unat sz" using assms(3) by (simp_all add: unat_minus_one unat_gt_0)
  have e: "?e = of_nat ?n"
    using u z by (auto simp: word_less_nat_alt min_def word_unat_eq_iff)
  have "ucast (of_nat (length fmt) :: u64) = (of_nat (length fmt) :: u32)"
    unfolding word_unat_eq_iff by (simp add: unsigned_ucast_eq unat_of_nat take_bit_eq_mod mod_mod_cancel)
  then have r: "kvsnprintf m buf sz fmt args = Some (of_nat (length fmt), ?m(buf + of_nat ?n := 0))"
    using gen_format_plain [OF assms(1), of sn_sink args ?sb] assms(3) e
    by (simp add: kvsnprintf_def word_neq_0_conv split del: if_split cong: if_cong)
  have mem: "?m = (\<lambda>x. if unat (x - buf) < ?n then fmt ! unat (x - buf) else m x)"
    using fold_sn_putc_mem [of ?sb fmt] assms(2) by (simp cong: if_cong)
  have un: "unat (of_nat i :: u64) = i" if "i \<le> ?n" for i
    using that assms(2) by (intro unat_of_nat_u64) simp
  define m2 where "m2 = ?m(buf + of_nat ?n := 0)"
  have "m2 (buf + of_nat i) = fmt ! i" if i: "i < ?n" for i
  proof -
    have "buf + of_nat i \<noteq> buf + (of_nat ?n :: u64)"
      using un [of i] un [of ?n] i by (metis add_left_cancel le_refl less_imp_le less_irrefl)
    then show ?thesis using un [of i] i by (simp add: mem m2_def)
  qed
  then have "bytes_at m2 buf ?n = take (unat sz - 1) fmt"
    unfolding bytes_at_def by (intro nth_equalityI) simp_all
  moreover have "m2 (buf + of_nat ?n) = 0" by (simp add: m2_def)
  ultimately show ?thesis using r unfolding m2_def [symmetric] by blast
qed

text \<open>
  The digits of \<open>sn_print_number\<close> and \<open>print_number\<close> read back: in every base from 2 to 16 the
  characters of the number, least significant first as the code fills its buffer, have the value
  that was printed; and they fit the 64 characters of that buffer.
\<close>

theorem number_roundtrip:
  assumes "2 \<le> base" "base \<le> 16"
  shows "digits_value (unat base) (number_buffer upper base val) = unat val \<and>
         length (number_buffer upper base val) \<le> 64"
proof (cases "val = 0")
  case True
  then show ?thesis by (simp add: number_buffer_def digit_value_def)
next
  case False
  then show ?thesis
    using number_loop_value [OF assms, of upper val] number_loop_length [of val 64 base upper] assms(1)
      unat_u64_less [of val] by (simp add: number_buffer_def)
qed

text \<open>
  The sign of a padded negative number comes before the padding: \<open>kprintf("%5d", -3)\<close> puts a
  minus sign, four blanks and the digit.
\<close>

theorem negative_padding:
  "kprintf [PERCENT, 53, 100] [0xFFFFFFFFFFFFFFFD] \<lparr>con_mem = m, con_out = []\<rparr> =
     Some \<lparr>con_mem = m, con_out = map PutChar (rev [45, 32, 32, 32, 32, 51])\<rparr>"
proof -
  have three: "number_loop False 10 3 = [51]"
    by (subst number_loop.simps, subst number_loop.simps) (simp add: digit_char_def)
  have n: "- arg_signed 0 0xFFFFFFFFFFFFFFFD = 3" "sint (arg_signed 0 0xFFFFFFFFFFFFFFFD) < 0"
    by (simp_all add: arg_signed_def)
  have four: "replicate 4 (32 :: u8) = [32, 32, 32, 32]" by (simp add: numeral_eq_Suc)
  have "gen_number con_sink 3 10 5 False False s =
      s\<lparr>con_out := map PutChar [51, 32, 32, 32, 32] @ con_out s\<rparr>" for s
    by (simp add: gen_number_def number_buffer_def three puts_list_def con_sink_def print_char_def
        four del: fold_replicate)
  with n show ?thesis
    by (simp add: kprintf_def kvprintf_def read_length_def peek_def convert_def next_arg_def Let_def
        con_sink_def print_char_def)
qed

section \<open>Witnesses\<close>


theorem kvsnprintf_plain_witness:
  "\<exists>m'. kvsnprintf (\<lambda>_. 7) 0x1000 4 [104, 101, 108, 108, 111] [] = Some (5, m') \<and>
        bytes_at m' 0x1000 3 = [104, 101, 108] \<and> m' 0x1003 = 0"
  using kvsnprintf_plain [of "[104, 101, 108, 108, 111]" 4 "\<lambda>_. 7" "0x1000" "[]"] by (simp add: numeral_3_eq_3)

theorem number_roundtrip_witness:
  "digits_value 10 (number_buffer False 10 1234) = 1234"
  using number_roundtrip [of 10 False 1234] by simp

end
