(* ===== verification/Directory_Interface.thy ===== *)
theory Directory_Interface
  imports Main
begin

text \<open>
  What the path operations rely on in a store of directories: a look-up of a name in a directory and
  the creation of an entry. The laws say what a look-up returns after a creation; from them follows
  what a sequence of creations along a path makes of the store.
\<close>

locale directory_store =
  fixes inv :: "'s \<Rightarrow> bool"
    and live :: "'s \<Rightarrow> 'n \<Rightarrow> bool"
    and lookup :: "'s \<Rightarrow> 'n \<Rightarrow> 'k \<Rightarrow> 'n option"
    and add :: "'k \<Rightarrow> 'n \<Rightarrow> 's \<Rightarrow> 'n \<times> 's"
  assumes add_inv: "\<lbrakk>inv s; live s d; add k d s = (n, s')\<rbrakk> \<Longrightarrow> inv s'"
    and add_live: "\<lbrakk>inv s; live s d; add k d s = (n, s')\<rbrakk> \<Longrightarrow> live s' n"
    and live_add: "\<lbrakk>inv s; live s d; add k d s = (n, s'); live s x\<rbrakk> \<Longrightarrow> live s' x"
    and lookup_live: "\<lbrakk>inv s; live s d; lookup s d k = Some x\<rbrakk> \<Longrightarrow> live s x"
    and lookup_new: "\<lbrakk>inv s; live s d; add k d s = (n, s')\<rbrakk> \<Longrightarrow> lookup s' n j = None"
    and lookup_add: "\<lbrakk>inv s; live s d; add k d s = (n, s'); live s x\<rbrakk> \<Longrightarrow>
           lookup s' x j = (if x = d \<and> j = k then Some n else lookup s x j)"
begin

primrec follow :: "'s \<Rightarrow> 'n \<Rightarrow> 'k list \<Rightarrow> 'n option" where
  "follow s d [] = Some d"
| "follow s d (k # ks) = (case lookup s d k of None \<Rightarrow> None | Some x \<Rightarrow> follow s x ks)"

primrec mkdirs :: "'s \<Rightarrow> 'n \<Rightarrow> 'k list \<Rightarrow> 'n \<times> 's" where
  "mkdirs s d [] = (d, s)"
| "mkdirs s d (k # ks) =
     (case lookup s d k of
        Some x \<Rightarrow> mkdirs s x ks
      | None \<Rightarrow> (let (x, s') = add k d s in mkdirs s' x ks))"

text \<open>Entries are never lost.\<close>

definition grown :: "'s \<Rightarrow> 's \<Rightarrow> bool" where
  "grown s s' \<longleftrightarrow>
     (\<forall>x. live s x \<longrightarrow> live s' x \<and> (\<forall>k y. lookup s x k = Some y \<longrightarrow> lookup s' x k = Some y))"

lemma grown_refl [simp]: "grown s s"
  by (simp add: grown_def)

lemma grown_trans: "grown s s1 \<Longrightarrow> grown s1 s2 \<Longrightarrow> grown s s2"
  by (simp add: grown_def)

lemma add_grown:
  assumes "inv s" "live s d" "lookup s d k = None" "add k d s = (n, s')"
  shows "grown s s'"
  using live_add [OF assms(1,2,4)] lookup_add [OF assms(1,2,4)] assms(3) by (auto simp: grown_def)

lemma mkdirs_follow:
  assumes "inv s" "live s d" "mkdirs s d ks = (n, s')"
  shows "inv s' \<and> live s' n \<and> grown s s' \<and> follow s' d ks = Some n"
  using assms
proof (induction ks arbitrary: s d)
  case (Cons k ks)
  show ?case
  proof (cases "lookup s d k")
    case None
    obtain x s1 where add: "add k d s = (x, s1)" by fastforce
    note step = Cons.prems(1,2) add
    have IH: "inv s' \<and> live s' n \<and> grown s1 s' \<and> follow s' x ks = Some n"
      by (rule Cons.IH [OF add_inv [OF step] add_live [OF step]]) (use Cons.prems None add in simp)
    moreover have "lookup s' d k = Some x"
      using IH lookup_add [OF step Cons.prems(2)] live_add [OF step Cons.prems(2)] by (simp add: grown_def)
    ultimately show ?thesis using grown_trans [OF add_grown [OF Cons.prems(1,2) None add]] by simp
  next
    case (Some x)
    have IH: "inv s' \<and> live s' n \<and> grown s s' \<and> follow s' x ks = Some n"
      by (rule Cons.IH [OF Cons.prems(1) lookup_live [OF Cons.prems(1,2) Some]]) (use Cons.prems Some in simp)
    thus ?thesis using Some Cons.prems(2) by (simp add: grown_def)
  qed
qed simp

lemma follow_mkdirs: "follow s d ks = Some n \<Longrightarrow> mkdirs s d ks = (n, s)"
  by (induction ks arbitrary: d) (auto split: option.splits)

lemma follow_append: "follow s d (ks @ js) = Option.bind (follow s d ks) (\<lambda>x. follow s x js)"
  by (induction ks arbitrary: d) (auto split: option.splits)

end

end
