(* ===== verification/Linked_List.thy ===== *)
theory Linked_List
  imports Main
begin

text \<open>
  Singly linked lists in a store, for the run queue, the lists of siblings of the file system and
  other lists that the kernel threads through its objects. \<open>nxt x\<close> is the pointer in the object at
  \<open>x\<close>, \<open>None\<close> when there is no object there.
\<close>

fun linked :: "('p \<Rightarrow> 'p option option) \<Rightarrow> 'p option \<Rightarrow> 'p list \<Rightarrow> bool" where
  "linked nxt p [] = (p = None)"
| "linked nxt p (x # xs) = (p = Some x \<and> (case nxt x of None \<Rightarrow> False | Some q \<Rightarrow> linked nxt q xs))"

lemma linked_cong:
  assumes "\<And>x. x \<in> set xs \<Longrightarrow> nxt' x = nxt x"
  shows "linked nxt' p xs = linked nxt p xs"
  using assms by (induction xs arbitrary: p) (auto split: option.split)

lemma linked_live: "linked nxt p xs \<Longrightarrow> x \<in> set xs \<Longrightarrow> nxt x \<noteq> None"
  by (induction xs arbitrary: p) (auto split: option.splits)

lemma linked_unique: "linked nxt p xs \<Longrightarrow> linked nxt p ys \<Longrightarrow> xs = ys"
proof (induction xs arbitrary: p ys)
  case Nil thus ?case by (cases ys) auto
next
  case (Cons x xs) thus ?case by (cases ys) (auto split: option.splits)
qed

lemma linked_append:
  "linked nxt p (xs @ ys) \<Longrightarrow> xs \<noteq> [] \<Longrightarrow> \<exists>q. nxt (last xs) = Some q \<and> linked nxt q ys"
  by (induction xs arbitrary: p) (auto split: option.splits)

lemma linked_suffix: "linked nxt p (xs @ ys) \<Longrightarrow> \<exists>q. linked nxt q ys"
  using linked_append by (cases "xs = []") fastforce+

lemma linked_start: "linked nxt p xs \<Longrightarrow> linked nxt' q xs \<Longrightarrow> p = q"
  by (cases xs) simp_all

lemma linked_relink:
  assumes "linked nxt p (xs @ a # ys)" "distinct (xs @ a # ys)" "linked nxt' q zs" "a \<notin> set zs"
    and "nxt' a = Some q" "\<And>x. x \<in> set xs \<Longrightarrow> nxt' x = nxt x"
  shows "linked nxt' p (xs @ a # zs)"
  using assms(1,2,6)
proof (induction xs arbitrary: p)
  case Nil thus ?case using assms(3,5) by simp
next
  case (Cons x xs)
  obtain r where r: "nxt x = Some r" "p = Some x" "linked nxt r (xs @ a # ys)"
    using Cons.prems(1) by (auto split: option.splits)
  have "linked nxt' r (xs @ a # zs)" by (rule Cons.IH [OF r(3)]) (use Cons.prems in auto)
  thus ?case using r Cons.prems(3) [of x] by simp
qed

text \<open>Taking out an element that is not the first, and adding one at the end.\<close>

lemma linked_delete:
  assumes "linked nxt p (xs @ a # n # ys)" "distinct (xs @ a # n # ys)" "nxt n = Some q"
    and nxt': "\<And>x. nxt' x = (if x = n then None else if x = a then Some q else nxt x)"
  shows "linked nxt' p (xs @ a # ys)"
proof -
  obtain r where "nxt a = Some r" "linked nxt r (n # ys)"
    using linked_append [of nxt p "xs @ [a]" "n # ys"] assms(1) by auto
  hence "linked nxt q ys" using assms(3) by simp
  moreover have "nxt' x = nxt x" if "x \<in> set xs \<union> set ys" for x using that assms(2) by (subst nxt') auto
  hence "linked nxt' q ys = linked nxt q ys" "\<And>x. x \<in> set xs \<Longrightarrow> nxt' x = nxt x"
    by (auto intro!: linked_cong)
  moreover have "nxt' a = Some q" using assms(2) by (subst nxt') simp
  ultimately show ?thesis
    using assms(2) by (intro linked_relink [OF assms(1,2), of nxt' q ys]) simp_all
qed

lemma linked_snoc:
  assumes "linked nxt p xs" "distinct xs" "xs \<noteq> []" "t \<notin> set xs"
    and "\<And>x. nxt' x = (if x = t then Some None else if x = last xs then Some (Some t) else nxt x)"
  shows "linked nxt' p (xs @ [t])"
proof -
  obtain ys a where xs: "xs = ys @ [a]" using assms(3) by (meson rev_exhaust)
  have "linked nxt' p (ys @ a # [t])"
    by (rule linked_relink [where ys = "[]" and q = "Some t" and nxt = nxt])
      (use assms(1-4) xs in \<open>simp_all add: assms(5)\<close>, auto)
  thus ?thesis by (simp add: xs)
qed

text \<open>The search for the predecessor of \<open>n\<close>.\<close>

lemma linked_search:
  assumes "linked nxt p (xs @ a # n # ys)" "distinct (xs @ a # n # ys)"
    and f: "\<And>q r. nxt q = Some r \<Longrightarrow> f (Some q) = (if r = Some n then Some (Some q) else f r)"
  shows "f p = Some (Some a)"
  using assms(1,2)
proof (induction xs arbitrary: p)
  case Nil
  then obtain r where "nxt a = Some r" "p = Some a" "r = Some n" by (auto split: option.splits)
  thus ?case by (simp add: f)
next
  case (Cons x xs)
  obtain r where x: "nxt x = Some r" "p = Some x" "linked nxt r (xs @ a # n # ys)"
    using Cons.prems(1) by (auto split: option.splits)
  have "r \<noteq> Some n" using x(3) Cons.prems(2) by (cases xs) auto
  thus ?case using Cons.IH [OF x(3)] Cons.prems(2) by (simp add: x f)
qed

section \<open>Going round\<close>

text \<open>The list as a ring: after the last element comes the first one.\<close>

definition ring :: "('p \<Rightarrow> 'p option) \<Rightarrow> 'p list \<Rightarrow> bool" where
  "ring nx xs = (\<forall>i < length xs. nx (xs ! i) = Some (xs ! (Suc i mod length xs)))"

lemma ring_rotate1: "ring nx xs \<Longrightarrow> ring nx (rotate1 xs)"
  by (auto simp: ring_def nth_rotate1 mod_less_divisor [OF order.strict_trans1 [OF le0]])

lemma ring_append: "ring nx (xs @ ys) \<Longrightarrow> ring nx (ys @ xs)"
proof (induction xs arbitrary: ys)
  case (Cons x xs)
  have "ring nx (rotate1 ((x # xs) @ ys))" by (rule ring_rotate1) (rule Cons.prems)
  thus ?case using Cons.IH [of "ys @ [x]"] by simp
qed simp

lemma ring_step: "ring nx (xs @ a # b # ys) \<Longrightarrow> nx a = Some b"
  by (auto simp: ring_def nth_append dest!: spec [of _ "length xs"])

lemma ring_last: "ring nx (xs @ [a]) \<Longrightarrow> nx a = Some (hd (xs @ [a]))"
  by (cases xs) (auto simp: ring_def nth_append dest!: spec [of _ "length xs"])

lemma linked_ring:
  assumes "linked nxt p xs"
    and nx: "\<And>x q. nxt x = Some q \<Longrightarrow> nx x = (case q of None \<Rightarrow> p | Some y \<Rightarrow> Some y)"
  shows "ring nx xs"
proof (unfold ring_def, intro allI impI)
  fix i assume i: "i < length xs"
  define ys zs where "ys = take i xs" and "zs = drop (Suc i) xs"
  have xs: "xs = (ys @ [xs ! i]) @ zs" using i by (simp add: ys_def zs_def id_take_nth_drop [symmetric])
  obtain q where q: "nxt (xs ! i) = Some q" "linked nxt q zs"
    using linked_append [of nxt p "ys @ [xs ! i]" zs] assms(1) xs by (metis last_snoc snoc_eq_iff_butlast)
  show "nx (xs ! i) = Some (xs ! (Suc i mod length xs))"
  proof (cases zs)
    case Nil
    hence last: "Suc i = length xs" using i by (simp add: zs_def)
    have "p = Some (xs ! 0)" using assms(1) i by (cases xs) simp_all
    thus ?thesis using q Nil last by (simp add: nx)
  next
    case (Cons z zs')
    hence "Suc i < length xs" "xs ! Suc i = z" using i
      by (auto simp: zs_def) (metis Suc_lessI drop_all linorder_not_less list.distinct(1) order_refl, metis nth_via_drop)
    thus ?thesis using q Cons by (simp add: nx)
  qed
qed

end
