(* ===== verification/Vfs.thy ===== *)
theory Vfs
  imports KString Directory_Interface Linked_List "HOL-Library.Monad_Syntax"
begin

text \<open>
  The node tree of the virtual file system, \<open>src/fs/vfs.cpp\<close>. A node is named by its address; the
  store \<open>nodes\<close> maps the addresses of the live nodes to their contents, so that a node that has been
  freed is an address without contents. \<open>None\<close> as the result of an operation is a fault of the
  kernel: a null or dangling pointer that is read, an array written past its end, a stack that is
  exhausted. The functions behind the tables of function pointers (\<open>FileSystem\<close>, \<open>DevOps\<close>) are
  parameters: they work on a state of their own, \<open>world\<close>. The messages of \<open>kprintf\<close> are left out.
\<close>

section \<open>Data\<close>

type_synonym ptr = nat

datatype NodeType = VFS_FILE | VFS_DIR | VFS_DEV | VFS_SYMLINK | VFS_MOUNT

text \<open>A \<open>File\<close>: \<open>private_data\<close> is the buffer, its terminating zero included.\<close>

record vfile =
  f_size :: u64
  private_data :: "u8 list option"

record node =
  nd_name :: "string option"
  nd_directory :: bool
  nd_type :: NodeType
  nd_parent :: "ptr option"
  nd_next :: "ptr option"
  nd_children :: "ptr option"
  nd_symlink :: "string option"
  nd_filesystem :: "ptr option"
  nd_mount_data :: ptr
  nd_file :: "vfile option"
  nd_dev :: "ptr option"

text \<open>The callbacks. A read returns its result and the bytes it has put into the buffer.\<close>

record 'w dev_ops =
  dev_write :: "('w \<Rightarrow> u8 list \<Rightarrow> u64 \<Rightarrow> u64 \<times> 'w) option"
  dev_read :: "('w \<Rightarrow> u64 \<Rightarrow> u64 \<Rightarrow> u64 \<times> u8 list \<times> 'w) option"

record 'w file_system =
  fs_name :: "string option"
  fs_init :: "('w \<Rightarrow> bool \<times> 'w) option"
  fs_open :: "('w \<Rightarrow> ptr \<Rightarrow> string \<Rightarrow> ptr option \<times> 'w) option"
  fs_read :: "('w \<Rightarrow> ptr \<Rightarrow> u64 \<Rightarrow> int \<times> u8 list \<times> 'w) option"
  fs_write :: "('w \<Rightarrow> ptr \<Rightarrow> u8 list \<Rightarrow> int \<times> 'w) option"
  fs_close :: "('w \<Rightarrow> ptr \<Rightarrow> 'w) option"
  fs_list :: "('w \<Rightarrow> ptr \<Rightarrow> string list) option"
  fs_lseek :: "('w \<Rightarrow> ptr \<Rightarrow> int \<Rightarrow> int \<Rightarrow> int \<times> 'w) option"

record mount =
  m_path :: "string option"
  m_fs :: "ptr option"
  m_data :: ptr

text \<open>
  The globals of the file system. Allocations are numbered by \<open>clock\<close>; \<open>granted\<close> tells which of them
  succeed. \<open>process_cwd\<close> is the working directory of the process that runs, \<open>stack_frames\<close> the
  number of nested calls of \<open>find\<close> for which the kernel stack has room, \<open>beyond path\<close> what the
  memory holds between the terminating zero of \<open>path\<close> and the next zero, and \<open>fresh k i\<close> what the
  block of allocation \<open>k\<close> holds at offset \<open>i\<close> before it is written.
\<close>

record 'w vfs =
  nodes :: "ptr \<Rightarrow> node option"
  root :: "ptr option"
  current_dir :: "ptr option"
  mounts :: "(ptr \<times> mount) list"
  filesystems :: "ptr list"
  fs_ops :: "ptr \<Rightarrow> 'w file_system"
  devs :: "ptr \<Rightarrow> 'w dev_ops"
  process_cwd :: "ptr option"
  clock :: nat
  granted :: "nat \<Rightarrow> bool"
  stack_frames :: nat
  beyond :: "string \<Rightarrow> string"
  fresh :: "nat \<Rightarrow> nat \<Rightarrow> u8"
  world :: 'w

definition kmalloc_node :: "'w vfs \<Rightarrow> ptr option \<times> 'w vfs" where
  "kmalloc_node s = (if granted s (clock s) then Some (clock s) else None, s\<lparr>clock := Suc (clock s)\<rparr>)"

definition deref :: "'w vfs \<Rightarrow> ptr option \<Rightarrow> node option" where
  "deref s p = Option.bind p (nodes s)"

definition set_node :: "ptr \<Rightarrow> node \<Rightarrow> 'w vfs \<Rightarrow> 'w vfs" where
  "set_node n nd s = s\<lparr>nodes := (nodes s)(n \<mapsto> nd)\<rparr>"

definition strdup_name :: "string \<Rightarrow> 'w vfs \<Rightarrow> string option \<times> 'w vfs" where
  "strdup_name name s =
     (let (p, s1) = kmalloc_node s in (case p of None \<Rightarrow> None | Some _ \<Rightarrow> Some name, s1))"

section \<open>Creating and looking up nodes\<close>

definition vfs_init :: "'w vfs \<Rightarrow> 'w vfs option" where
  "vfs_init s = do {
     let (p, s1) = kmalloc_node s;
     n \<leftarrow> p;
     let (nm, s2) = strdup_name ''/'' s1;
     Some (set_node n \<lparr>nd_name = nm, nd_directory = True, nd_type = VFS_DIR, nd_parent = None,
              nd_next = None, nd_children = None, nd_symlink = None, nd_filesystem = None,
              nd_mount_data = 0, nd_file = None, nd_dev = None\<rparr> s2\<lparr>root := Some n, current_dir := Some n\<rparr>)
   }"

definition create_node :: "string \<Rightarrow> bool \<Rightarrow> ptr option \<Rightarrow> 'w vfs \<Rightarrow> (ptr \<times> 'w vfs) option" where
  "create_node name directory parent s = do {
     let (p, s1) = kmalloc_node s;
     n \<leftarrow> p;
     let (nm, s2) = strdup_name name s1;
     q \<leftarrow> parent;
     pn \<leftarrow> nodes s2 q;
     let nd = \<lparr>nd_name = nm, nd_directory = directory,
               nd_type = (if directory then VFS_DIR else VFS_FILE), nd_parent = Some q,
               nd_next = nd_children pn, nd_children = None, nd_symlink = None,
               nd_filesystem = nd_filesystem pn, nd_mount_data = nd_mount_data pn,
               nd_file = None, nd_dev = None\<rparr>;
     Some (n, set_node q (pn\<lparr>nd_children := Some n\<rparr>) (set_node n nd s2))
   }"

text \<open>The comparison of two names, character by character.\<close>

fun same_name :: "string \<Rightarrow> string \<Rightarrow> bool" where
  "same_name (a # as) (b # bs) = (if a \<noteq> b then False else same_name as bs)"
| "same_name [] [] = True"
| "same_name _ _ = False"

partial_function (option) find_from :: "'w vfs \<Rightarrow> string \<Rightarrow> ptr option \<Rightarrow> ptr option option" where
  "find_from s name p =
     (case p of
        None \<Rightarrow> Some None
      | Some n \<Rightarrow> do {
          nd \<leftarrow> nodes s n;
          nm \<leftarrow> nd_name nd;
          if same_name nm name then Some (Some n) else find_from s name (nd_next nd)
        })"

definition find_in :: "'w vfs \<Rightarrow> ptr \<Rightarrow> string \<Rightarrow> ptr option option" where
  "find_in s dir name = do { nd \<leftarrow> nodes s dir; find_from s name (nd_children nd) }"

definition get_process_cwd :: "'w vfs \<Rightarrow> ptr option" where
  "get_process_cwd s = (case process_cwd s of Some c \<Rightarrow> Some c | None \<Rightarrow> root s)"

definition create_file :: "string \<Rightarrow> 'w vfs \<Rightarrow> (ptr \<times> 'w vfs) option" where
  "create_file name s = create_node name False (current_dir s) s"

definition create_dir :: "string \<Rightarrow> 'w vfs \<Rightarrow> (ptr \<times> 'w vfs) option" where
  "create_dir name s = create_node name True (current_dir s) s"

definition ensure_dir :: "ptr \<Rightarrow> string \<Rightarrow> 'w vfs \<Rightarrow> (ptr \<times> 'w vfs) option" where
  "ensure_dir parent name s = do {
     r \<leftarrow> find_in s parent name;
     case r of Some n \<Rightarrow> Some (n, s) | None \<Rightarrow> create_node name True (Some parent) s
   }"

section \<open>Paths\<close>

text \<open>
  A path is read component by component into \<open>char part[128]\<close>: characters past the 127th are
  dropped.
\<close>

definition push_part :: "string \<Rightarrow> char \<Rightarrow> string" where
  "push_part part c = (if length part < 127 then part @ [c] else part)"

fun skip_slashes :: "string \<Rightarrow> string" where
  "skip_slashes [] = []"
| "skip_slashes (c # p) = (if c = CHR ''/'' then skip_slashes p else c # p)"

fun read_part :: "string \<Rightarrow> string \<Rightarrow> string \<times> string" where
  "read_part part [] = (part, [])"
| "read_part part (c # p) = (if c = CHR ''/'' then (part, c # p) else read_part (push_part part c) p)"

lemma length_skip_slashes: "length (skip_slashes p) \<le> length p"
  by (induction p) auto

lemma length_read_part: "length (snd (read_part part p)) \<le> length p"
proof (induction p arbitrary: part)
  case (Cons c p)
  show ?case using Cons.IH [of "push_part part c"] by auto
qed simp

definition next_part :: "string \<Rightarrow> string \<times> string" where
  "next_part p = (let (part, q) = read_part [] p in (part, skip_slashes q))"

lemma next_part_shorter:
  assumes "p \<noteq> []"
  shows "length (snd (next_part p)) < length p"
proof (cases p)
  case (Cons c q)
  show ?thesis
    using length_skip_slashes [of q] length_read_part [of "push_part [] c" q]
      length_skip_slashes [of "snd (read_part (push_part [] c) q)"]
    by (auto simp: next_part_def Cons split: prod.splits)
qed (use assms in simp)

lemma next_part_less: "p \<noteq> [] \<Longrightarrow> (part, q) = next_part p \<Longrightarrow> length q < length p"
  using next_part_shorter [of p] by (metis snd_conv)

function create_file_loop :: "'w vfs \<Rightarrow> ptr \<Rightarrow> string \<Rightarrow> (ptr option \<times> 'w vfs) option" where
  "create_file_loop s dir p =
     (if p = [] then Some (None, s)
      else let (part, q) = next_part p in
        if part = [] then create_file_loop s dir q
        else if q = [] then do {
          existing \<leftarrow> find_in s dir part;
          case existing of
            Some e \<Rightarrow> Some (Some e, s)
          | None \<Rightarrow> do { (n, s) \<leftarrow> create_node part False (Some dir) s; Some (Some n, s) }
        }
        else do {
          found \<leftarrow> find_in s dir part;
          case found of
            None \<Rightarrow> do { (n, s) \<leftarrow> create_node part True (Some dir) s; create_file_loop s n q }
          | Some n \<Rightarrow> do {
              nd \<leftarrow> nodes s n;
              if \<not> nd_directory nd then Some (None, s) else create_file_loop s n q
            }
        })"
  by pat_completeness auto
termination
  by (relation "measure (\<lambda>(s, dir, p). length p)") (simp_all add: next_part_less)

declare create_file_loop.simps [simp del]

definition start_dir :: "'w vfs \<Rightarrow> string \<Rightarrow> ptr option" where
  "start_dir s path =
     (let dir = if hd path = CHR ''/'' then root s else get_process_cwd s
      in case dir of None \<Rightarrow> root s | Some d \<Rightarrow> Some d)"

definition create_file_path :: "string \<Rightarrow> 'w vfs \<Rightarrow> (ptr option \<times> 'w vfs) option" where
  "create_file_path path s =
     (if root s = None \<or> path = [] then Some (None, s)
      else do { dir \<leftarrow> start_dir s path; create_file_loop s dir (skip_slashes path) })"

function create_dir_loop :: "'w vfs \<Rightarrow> ptr \<Rightarrow> string \<Rightarrow> (ptr \<times> 'w vfs) option" where
  "create_dir_loop s dir p =
     (if p = [] then Some (dir, s)
      else let (part, q) = next_part p in
        if part = [] then create_dir_loop s dir q
        else do {
          (n, s) \<leftarrow> ensure_dir dir part s;
          create_dir_loop s n q
        })"
  by pat_completeness auto
termination
  by (relation "measure (\<lambda>(s, dir, p). length p)") (simp_all add: next_part_less)

declare create_dir_loop.simps [simp del]

text \<open>
  With neither a working directory nor a root the code returns the null pointer for a path of
  slashes only, and faults for any other.
\<close>

definition create_dir_path :: "string \<Rightarrow> 'w vfs \<Rightarrow> (ptr option \<times> 'w vfs) option" where
  "create_dir_path path s =
     (if path = [] then Some (None, s)
      else case start_dir s path of
        None \<Rightarrow> if skip_slashes path = [] then Some (None, s) else None
      | Some dir \<Rightarrow> do { (n, s) \<leftarrow> create_dir_loop s dir (skip_slashes path); Some (Some n, s) })"

text \<open>
  The path of a node, built from its end in arrays of 1024 characters.
\<close>

partial_function (option) get_path_loop :: "'w vfs \<Rightarrow> ptr option \<Rightarrow> string \<Rightarrow> string option" where
  "get_path_loop s node temp =
     (case node of
        None \<Rightarrow> Some temp
      | Some n \<Rightarrow>
          if node = root s then Some temp
          else do {
            nd \<leftarrow> nodes s n;
            nm \<leftarrow> nd_name nd;
            let newtemp = ''/'' @ nm @ temp;
            if 1024 \<le> length newtemp then None else get_path_loop s (nd_parent nd) newtemp
          })"

definition get_path :: "'w vfs \<Rightarrow> ptr option \<Rightarrow> string option" where
  "get_path s node = (if node = root s then Some ''/'' else get_path_loop s node [])"

section \<open>find\<close>

text \<open>
  The path handed to a mounted file system: the component that was not found and what follows it.
\<close>

function relpath_loop :: "string \<Rightarrow> string \<Rightarrow> string" where
  "relpath_loop rel p =
     (case p of
        [] \<Rightarrow> rel
      | c # q \<Rightarrow>
          if c = CHR ''/'' then relpath_loop (rel @ ''/'') q
          else relpath_loop ((if rel \<noteq> [] \<and> last rel \<noteq> CHR ''/'' then rel @ ''/'' else rel)
                 @ takeWhile (\<lambda>c. c \<noteq> CHR ''/'') p) (dropWhile (\<lambda>c. c \<noteq> CHR ''/'') p))"
  by pat_completeness auto
termination
proof (relation "measure (\<lambda>(rel, p). length p)")
  fix rel p and c :: char and q
  assume "p = c # q" "c \<noteq> CHR ''/''"
  thus "((((if rel \<noteq> [] \<and> last rel \<noteq> CHR ''/'' then rel @ ''/'' else rel)
            @ takeWhile (\<lambda>c. c \<noteq> CHR ''/'') p), dropWhile (\<lambda>c. c \<noteq> CHR ''/'') p), rel, p)
        \<in> measure (\<lambda>(rel, p). length p)"
    using length_dropWhile_le [of "\<lambda>c. c \<noteq> CHR ''/''" q] by simp
qed simp_all

declare relpath_loop.simps [simp del]

text \<open>
  A component that is not among the children. \<open>past\<close> is the string at \<open>path + p + 1\<close>; when the
  component is the last one, that address lies beyond the terminating zero.
\<close>

definition find_mounted :: "'w vfs \<Rightarrow> ptr \<Rightarrow> string \<Rightarrow> string \<Rightarrow> (ptr option \<times> 'w vfs) option" where
  "find_mounted s n part past = do {
     nd \<leftarrow> nodes s n;
     case (if nd_type nd = VFS_MOUNT then nd_filesystem nd else None) of
       None \<Rightarrow> Some (None, s)
     | Some f \<Rightarrow>
         (case fs_open (fs_ops s f) of
            None \<Rightarrow> Some (None, s)
          | Some opn \<Rightarrow>
              let rel = relpath_loop part past in
              if 256 \<le> length rel then None
              else let (h, w) = opn (world s) (nd_mount_data nd) rel in
                case h of
                  None \<Rightarrow> Some (None, s\<lparr>world := w\<rparr>)
                | Some h \<Rightarrow> do {
                    cls \<leftarrow> fs_close (fs_ops s f);
                    Some (Some n, s\<lparr>world := cls w h\<rparr>)
                  })
   }"

definition symlink_target :: "'w vfs \<Rightarrow> node \<Rightarrow> string option" where
  "symlink_target s nd = do {
     l \<leftarrow> nd_symlink nd;
     target \<leftarrow>
       (if l \<noteq> [] \<and> hd l = CHR ''/'' then Some l
        else do {
          pp \<leftarrow> (case nd_parent nd of None \<Rightarrow> Some ''/'' | Some q \<Rightarrow> get_path s (Some q));
          Some ((if pp = [] \<or> last pp \<noteq> CHR ''/'' then pp @ ''/'' else pp) @ l)
        });
     if 256 \<le> length target then None else Some target
   }"

text \<open>
  The loop that follows symbolic links, for a nested call \<open>F\<close> of \<open>find\<close>. \<open>Inl\<close> is a value that
  \<open>find\<close> returns, \<open>Inr\<close> the node at which it goes on; \<open>k\<close> is \<open>8 - depth\<close>.
\<close>

fun resolve ::
  "('w vfs \<Rightarrow> string \<Rightarrow> (ptr option \<times> 'w vfs) option) \<Rightarrow> nat \<Rightarrow> 'w vfs \<Rightarrow> ptr \<Rightarrow>
     ((ptr option + ptr) \<times> 'w vfs) option" where
  "resolve F k s n = do {
     nd \<leftarrow> nodes s n;
     if nd_type nd \<noteq> VFS_SYMLINK then Some (Inr n, s)
     else case k of
       0 \<Rightarrow> Some (Inl None, s)
     | Suc k' \<Rightarrow> do {
         target \<leftarrow> symlink_target s nd;
         (r, s) \<leftarrow> F s target;
         case r of None \<Rightarrow> Some (Inl None, s) | Some m \<Rightarrow> resolve F k' s m
       }
   }"

declare resolve.simps [simp del]

definition component ::
  "('w vfs \<Rightarrow> string \<Rightarrow> (ptr option \<times> 'w vfs) option) \<Rightarrow> 'w vfs \<Rightarrow> ptr \<Rightarrow> string \<Rightarrow> string \<Rightarrow>
     ((ptr option + ptr) \<times> 'w vfs) option" where
  "component F s n part past =
     (if part = [] then Some (Inr n, s)
      else if part = ''.'' then Some (Inr n, s)
      else if part = ''..'' then do {
        nd \<leftarrow> nodes s n;
        Some (Inr (case nd_parent nd of Some q \<Rightarrow> q | None \<Rightarrow> n), s)
      }
      else do {
        r \<leftarrow> find_in s n part;
        case r of
          None \<Rightarrow> do { (v, s) \<leftarrow> find_mounted s n part past; Some (Inl v, s) }
        | Some m \<Rightarrow> resolve F 8 s m
      })"

fun find_loop ::
  "('w vfs \<Rightarrow> string \<Rightarrow> (ptr option \<times> 'w vfs) option) \<Rightarrow> string \<Rightarrow> 'w vfs \<Rightarrow> ptr \<Rightarrow> string \<Rightarrow> string \<Rightarrow>
     (ptr option \<times> 'w vfs) option" where
  "find_loop F path s n part [] = do {
     (r, s) \<leftarrow> component F s n part (beyond s path);
     Some (case r of Inl v \<Rightarrow> v | Inr m \<Rightarrow> Some m, s)
   }"
| "find_loop F path s n part (c # cs) =
     (if c = CHR ''/'' then do {
        (r, s) \<leftarrow> component F s n part cs;
        case r of Inl v \<Rightarrow> Some (v, s) | Inr m \<Rightarrow> find_loop F path s m [] cs
      }
      else find_loop F path s n (push_part part c) cs)"

definition find_body ::
  "('w vfs \<Rightarrow> string \<Rightarrow> (ptr option \<times> 'w vfs) option) \<Rightarrow> 'w vfs \<Rightarrow> string \<Rightarrow> (ptr option \<times> 'w vfs) option"
where
  "find_body F s path =
     (if path = [] then Some (current_dir s, s)
      else do {
        n \<leftarrow> (if hd path = CHR ''/'' then root s else get_process_cwd s);
        find_loop F path s n [] (if hd path = CHR ''/'' then tl path else path)
      })"

fun find_depth :: "nat \<Rightarrow> 'w vfs \<Rightarrow> string \<Rightarrow> (ptr option \<times> 'w vfs) option" where
  "find_depth 0 s path = None"
| "find_depth (Suc d) s path = find_body (find_depth d) s path"

definition vfs_find :: "'w vfs \<Rightarrow> string \<Rightarrow> (ptr option \<times> 'w vfs) option" where
  "vfs_find s path = find_depth (stack_frames s) s path"

section \<open>The tree of nodes\<close>

text \<open>
  The list of siblings that starts at a pointer, and the invariant of the node store: each live node
  other than the root is in the list of children of its parent, and each child names its parent. \<open>K\<close>
  gives the lists of children.
\<close>

definition chain :: "(ptr \<Rightarrow> node option) \<Rightarrow> ptr option \<Rightarrow> ptr list \<Rightarrow> bool" where
  "chain ns = linked (\<lambda>x. map_option nd_next (ns x))"

lemma chain_simps [simp]:
  "chain ns p [] = (p = None)"
  "chain ns p (x # xs) =
     (p = Some x \<and> (case ns x of None \<Rightarrow> False | Some nd \<Rightarrow> chain ns (nd_next nd) xs))"
  by (auto simp: chain_def split: option.split)

definition child_of :: "(ptr \<Rightarrow> node option) \<Rightarrow> ptr \<Rightarrow> ptr \<Rightarrow> bool" where
  "child_of ns x n = (case ns x of None \<Rightarrow> False | Some xd \<Rightarrow> nd_parent xd = Some n \<and> n < x)"

definition node_ok :: "(ptr \<Rightarrow> node option) \<Rightarrow> ptr \<Rightarrow> nat \<Rightarrow> (ptr \<Rightarrow> ptr list) \<Rightarrow> ptr \<Rightarrow> node \<Rightarrow> bool" where
  "node_ok ns r c K n nd \<longleftrightarrow>
     n < c \<and> nd_name nd \<noteq> None \<and> chain ns (nd_children nd) (K n) \<and> distinct (K n) \<and>
     (\<forall>x \<in> set (K n). child_of ns x n) \<and>
     (if n = r then nd_parent nd = None \<and> nd_directory nd
      else case nd_parent nd of None \<Rightarrow> False | Some p \<Rightarrow> ns p \<noteq> None \<and> n \<in> set (K p))"

definition tree_ok :: "(ptr \<Rightarrow> node option) \<Rightarrow> ptr \<Rightarrow> nat \<Rightarrow> (ptr \<Rightarrow> ptr list) \<Rightarrow> bool" where
  "tree_ok ns r c K \<longleftrightarrow> ns r \<noteq> None \<and> (\<forall>n nd. ns n = Some nd \<longrightarrow> node_ok ns r c K n nd)"

definition tree_of :: "'w vfs \<Rightarrow> bool" where
  "tree_of s \<longleftrightarrow> (\<exists>r K. root s = Some r \<and> tree_ok (nodes s) r (clock s) K)"

definition live :: "'w vfs \<Rightarrow> ptr \<Rightarrow> bool" where
  "live s n = (nodes s n \<noteq> None)"

definition node_name :: "'w vfs \<Rightarrow> ptr \<Rightarrow> string option" where
  "node_name s n = Option.bind (nodes s n) nd_name"

lemma same_name_eq [simp]: "same_name a b = (a = b)"
  by (induction a b rule: same_name.induct) auto

lemma chain_cong:
  assumes "\<And>x. x \<in> set xs \<Longrightarrow> map_option nd_next (ns' x) = map_option nd_next (ns x)"
  shows "chain ns' p xs = chain ns p xs"
  unfolding chain_def by (rule linked_cong) (rule assms)

lemma chain_live: "chain ns p xs \<Longrightarrow> x \<in> set xs \<Longrightarrow> ns x \<noteq> None"
  unfolding chain_def using linked_live [of "\<lambda>x. map_option nd_next (ns x)" p xs x] by simp

lemma find_from_chain:
  assumes "chain (nodes s) p xs" "\<And>x. x \<in> set xs \<Longrightarrow> node_name s x \<noteq> None"
  shows "find_from s name p = Some (List.find (\<lambda>x. node_name s x = Some name) xs)"
  using assms
proof (induction xs arbitrary: p)
  case Nil thus ?case by (subst find_from.simps) simp
next
  case (Cons x xs)
  obtain nd where nd: "nodes s x = Some nd" "p = Some x" "chain (nodes s) (nd_next nd) xs"
    using Cons.prems(1) by (auto split: option.splits)
  obtain nm where nm: "nd_name nd = Some nm"
    using Cons.prems(2) [of x] nd by (auto simp: node_name_def)
  show ?case
    using Cons.IH [OF nd(3)] Cons.prems(2) nd nm
    by (subst find_from.simps) (simp add: node_name_def)
qed

lemma tree_ok_node: "tree_ok ns r c K \<Longrightarrow> ns n = Some nd \<Longrightarrow> node_ok ns r c K n nd"
  by (simp add: tree_ok_def)

lemma find_in_tree:
  assumes "tree_ok (nodes s) r c K" "nodes s d = Some dd"
  shows "find_in s d name = Some (List.find (\<lambda>x. node_name s x = Some name) (K d))"
proof -
  have ok: "node_ok (nodes s) r c K d dd" by (rule tree_ok_node [OF assms])
  have "find_from s name (nd_children dd) = Some (List.find (\<lambda>x. node_name s x = Some name) (K d))"
  proof (rule find_from_chain)
    show ch: "chain (nodes s) (nd_children dd) (K d)" using ok by (simp add: node_ok_def)
    fix x assume "x \<in> set (K d)"
    then obtain xd where x: "nodes s x = Some xd" using chain_live [OF ch] by auto
    show "node_name s x \<noteq> None" using tree_ok_node [OF assms(1) x] x by (simp add: node_ok_def node_name_def)
  qed
  thus ?thesis by (simp add: find_in_def assms(2))
qed

definition new_node :: "string option \<Rightarrow> bool \<Rightarrow> ptr \<Rightarrow> node \<Rightarrow> node" where
  "new_node nm directory p pn =
     \<lparr>nd_name = nm, nd_directory = directory, nd_type = (if directory then VFS_DIR else VFS_FILE),
      nd_parent = Some p, nd_next = nd_children pn, nd_children = None, nd_symlink = None,
      nd_filesystem = nd_filesystem pn, nd_mount_data = nd_mount_data pn, nd_file = None,
      nd_dev = None\<rparr>"

lemma create_node_eq:
  assumes "granted s (clock s)" "granted s (Suc (clock s))" "nodes s p = Some pn"
  shows "create_node name d (Some p) s =
    Some (clock s, s\<lparr>nodes := (nodes s)(clock s \<mapsto> new_node (Some name) d p pn,
                                        p \<mapsto> pn\<lparr>nd_children := Some (clock s)\<rparr>),
                    clock := clock s + 2\<rparr>)"
  by (simp add: create_node_def kmalloc_node_def strdup_name_def set_node_def new_node_def assms)

text \<open>A change of the store that keeps the links of the live nodes keeps their lists of children.\<close>

lemma node_ok_mono:
  assumes "node_ok ns r c K n nd" "c \<le> c'" "K' n = K n"
    and "\<And>x. x \<in> set (K n) \<Longrightarrow> map_option nd_next (ns' x) = map_option nd_next (ns x)"
    and "\<And>x. x \<in> set (K n) \<Longrightarrow> map_option nd_parent (ns' x) = map_option nd_parent (ns x)"
    and "\<And>p. nd_parent nd = Some p \<Longrightarrow> ns p \<noteq> None \<Longrightarrow> n \<in> set (K p) \<Longrightarrow> ns' p \<noteq> None \<and> n \<in> set (K' p)"
  shows "node_ok ns' r c' K' n nd"
proof -
  have "chain ns' (nd_children nd) (K n) = chain ns (nd_children nd) (K n)"
    by (rule chain_cong) (rule assms(4))
  moreover have "child_of ns' x n = child_of ns x n" if "x \<in> set (K n)" for x
    using assms(5) [OF that] by (cases "ns x"; cases "ns' x") (auto simp: child_of_def)
  ultimately show ?thesis
    using assms(1,2,3,6) by (auto simp: node_ok_def split: option.splits if_splits)
qed

lemma tree_ok_fresh: "tree_ok ns r c K \<Longrightarrow> c \<le> n \<Longrightarrow> ns n = None"
  using tree_ok_node [of ns r c K n] by (cases "ns n") (auto simp: node_ok_def)

lemma tree_ok_kids_live: "tree_ok ns r c K \<Longrightarrow> ns n = Some nd \<Longrightarrow> x \<in> set (K n) \<Longrightarrow> ns x \<noteq> None"
  using tree_ok_node [of ns r c K n nd] chain_live [of ns "nd_children nd" "K n" x]
  by (auto simp: node_ok_def)

lemma create_tree_ok:
  assumes tree: "tree_ok ns r c K" and p: "ns p = Some pn" and nm: "nm \<noteq> None"
    and ns': "ns' = ns(c \<mapsto> new_node nm d p pn, p \<mapsto> pn\<lparr>nd_children := Some c\<rparr>)"
    and K': "K' = K(c := [], p := c # K p)"
  shows "tree_ok ns' r (c + 2) K'"
proof -
  have c: "ns c = None" by (rule tree_ok_fresh [OF tree order_refl])
  have r: "ns r \<noteq> None" using tree by (simp add: tree_ok_def)
  have pc: "p \<noteq> c" "p < c" using p c tree_ok_node [OF tree p] by (auto simp: node_ok_def)
  have old: "x \<noteq> c \<Longrightarrow> map_option nd_next (ns' x) = map_option nd_next (ns x)"
    "x \<noteq> c \<Longrightarrow> map_option nd_parent (ns' x) = map_option nd_parent (ns x)" for x
    by (auto simp: ns' p)
  have kid: "x \<in> set (K n) \<Longrightarrow> ns n = Some nd \<Longrightarrow> x \<noteq> c" for x n nd
    using tree_ok_kids_live [OF tree] c by blast
  have "node_ok ns' r (c + 2) K' n nd'" if n: "ns' n = Some nd'" for n nd'
  proof (cases "n = c \<or> n = p")
    case False
    hence nd: "ns n = Some nd'" using n by (simp add: ns')
    show ?thesis
      by (rule node_ok_mono [OF tree_ok_node [OF tree nd]])
        (use False nd kid c in \<open>auto simp: K' old, auto simp: ns'\<close>)
  next
    case True
    have ok: "node_ok ns r c K p pn" by (rule tree_ok_node [OF tree p])
    have new: "node_ok ns' r (c + 2) K' c (new_node nm d p pn)"
      using pc r c nm by (auto simp: node_ok_def new_node_def K' ns')
    have "chain ns' (nd_children pn) (K p) = chain ns (nd_children pn) (K p)"
      by (rule chain_cong) (use kid p old in blast)
    moreover have "child_of ns' x p = child_of ns x p" if "x \<in> set (K p)" for x
      using old(2) [OF kid [OF that p]] by (cases "ns x"; cases "ns' x") (auto simp: child_of_def)
    ultimately have "node_ok ns' r (c + 2) K' p (pn\<lparr>nd_children := Some c\<rparr>)"
      using ok pc c kid [OF _ p] by (auto simp: node_ok_def K' ns' child_of_def new_node_def split: option.splits if_splits)
    thus ?thesis using True n new pc by (auto simp: ns')
  qed
  thus ?thesis using r by (simp add: tree_ok_def ns')
qed

text \<open>Creating a node in a tree: the new node is found under its name, every other look-up is as before.\<close>

lemma node_name_upd:
  "node_name (s\<lparr>nodes := f, clock := k\<rparr>) x = Option.bind (f x) nd_name"
  by (simp add: node_name_def)

lemma create_node_tree:
  assumes tree: "tree_ok (nodes s) r (clock s) K" and p: "nodes s p = Some pn"
    and g: "granted s (clock s)" "granted s (Suc (clock s))"
    and s': "create_node name d (Some p) s = Some (n, s')"
  shows "n = clock s" "root s' = root s" "clock s' = clock s + 2"
    "tree_ok (nodes s') r (clock s') (K(n := [], p := n # K p))"
    "find_in s' n m = Some None"
    "nodes s q = Some qd \<Longrightarrow>
       find_in s' q m = (if q = p \<and> m = name then Some (Some n) else find_in s q m)"
proof -
  define ns' where "ns' = (nodes s)(clock s \<mapsto> new_node (Some name) d p pn,
                                    p \<mapsto> pn\<lparr>nd_children := Some (clock s)\<rparr>)"
  define K' where "K' = K(clock s := [], p := clock s # K p)"
  have eq: "n = clock s" "s' = s\<lparr>nodes := ns', clock := clock s + 2\<rparr>"
    using s' by (auto simp: create_node_eq [OF g p] ns'_def)
  show "n = clock s" "root s' = root s" "clock s' = clock s + 2" by (simp_all add: eq)
  have tree': "tree_ok ns' r (clock s + 2) K'"
    by (rule create_tree_ok [OF tree p _ ns'_def K'_def]) simp
  thus "tree_ok (nodes s') r (clock s') (K(n := [], p := n # K p))" by (simp add: eq K'_def)
  have fresh: "nodes s (clock s) = None" by (rule tree_ok_fresh [OF tree order_refl])
  hence pc: "p \<noteq> clock s" using p by auto
  have look: "find_in s' x m = Some (List.find (\<lambda>x. node_name s' x = Some m) (K' x))"
    if "ns' x = Some xd" for x xd
    by (rule find_in_tree) (use tree' that in \<open>simp_all add: eq\<close>)
  have nm: "node_name s' x = (if x = n then Some name else node_name s x)" for x
    using pc by (auto simp: eq ns'_def node_name_upd new_node_def) (simp_all add: node_name_def p)
  have "ns' n \<noteq> None" by (simp add: ns'_def eq)
  thus "find_in s' n m = Some None" using look [of n] pc by (auto simp: K'_def eq)
  show "find_in s' q m = (if q = p \<and> m = name then Some (Some n) else find_in s q m)"
    if q: "nodes s q = Some qd" for q qd
  proof -
    have qn: "q \<noteq> n" using q fresh by (auto simp: eq)
    have kids: "x \<noteq> n" if "x \<in> set (K q)" for x
      using tree_ok_kids_live [OF tree q that] fresh by (auto simp: eq)
    have same: "List.find (\<lambda>x. node_name s' x = Some m) (K q) = List.find (\<lambda>x. node_name s x = Some m) (K q)"
      by (rule find_cong) (use kids in \<open>simp_all add: nm\<close>)
    have "ns' q \<noteq> None" using q by (simp add: ns'_def)
    then obtain qd' where "ns' q = Some qd'" by auto
    note look [OF this]
    moreover have "node_name s' (clock s) = Some name" by (simp add: nm eq(1))
    ultimately show ?thesis
      using same find_in_tree [OF tree q, of m] qn by (auto simp: K'_def eq(1))
  qed
qed

section \<open>Paths in the tree\<close>

definition vfs_inv :: "'w vfs \<Rightarrow> bool" where
  "vfs_inv s \<longleftrightarrow> tree_of s \<and> (\<forall>k. granted s k)"

definition entry :: "'w vfs \<Rightarrow> ptr \<Rightarrow> string \<Rightarrow> ptr option" where
  "entry s d name = (case find_in s d name of None \<Rightarrow> None | Some r \<Rightarrow> r)"

definition add_dir :: "string \<Rightarrow> ptr \<Rightarrow> 'w vfs \<Rightarrow> ptr \<times> 'w vfs" where
  "add_dir name d s = the (create_node name True (Some d) s)"

lemma create_node_total:
  assumes "vfs_inv s" "live s d"
  obtains n s' where "create_node name dir (Some d) s = Some (n, s')"
  using assms create_node_eq [of s d] by (auto simp: vfs_inv_def live_def)

lemma create_node_vfs_inv:
  assumes inv: "vfs_inv s" and d: "live s d" and c: "create_node name dir (Some d) s = Some (n, s')"
  shows "vfs_inv s'" "live s' n" "\<not> live s n" "entry s' n j = None"
    "live s x \<Longrightarrow> live s' x \<and> map_option nd_type (nodes s' x) = map_option nd_type (nodes s x)"
    "live s x \<Longrightarrow> entry s' x j = (if x = d \<and> j = name then Some n else entry s x j)"
    "root s' = root s" "stack_frames s' = stack_frames s"
    "map_option nd_type (nodes s' n) = Some (if dir then VFS_DIR else VFS_FILE)"
proof -
  obtain r K where r: "root s = Some r" and tree: "tree_ok (nodes s) r (clock s) K"
    using inv by (auto simp: vfs_inv_def tree_of_def)
  obtain dn where dn: "nodes s d = Some dn" using d by (auto simp: live_def)
  have g: "granted s (clock s)" "granted s (Suc (clock s))" using inv by (simp_all add: vfs_inv_def)
  note new = create_node_tree [OF tree dn g c]
  note eq = c [unfolded create_node_eq [OF g dn], simplified]
  show "vfs_inv s'" using new(2,4) r inv eq by (auto simp: vfs_inv_def tree_of_def)
  have fresh: "nodes s n = None" using tree_ok_fresh [OF tree order_refl] new(1) by simp
  thus "\<not> live s n" by (simp add: live_def)
  have "n \<noteq> d" using fresh dn by auto
  thus "live s' n" "map_option nd_type (nodes s' n) = Some (if dir then VFS_DIR else VFS_FILE)"
    using eq by (auto simp: live_def new_node_def)
  show "entry s' n j = None" by (simp add: entry_def new(5))
  show "live s x \<Longrightarrow> live s' x \<and> map_option nd_type (nodes s' x) = map_option nd_type (nodes s x)"
    using eq fresh dn by (auto simp: live_def)
  show "live s x \<Longrightarrow> entry s' x j = (if x = d \<and> j = name then Some n else entry s x j)"
    using new(6) by (auto simp: entry_def live_def)
  show "root s' = root s" "stack_frames s' = stack_frames s" using eq by auto
qed

lemma entry_live:
  assumes "vfs_inv s" "live s d" "entry s d k = Some x"
  shows "live s x" "find_in s d k = Some (Some x)" "node_name s x = Some k" "map_option nd_parent (nodes s x) = Some (Some d)"
proof -
  obtain r K where tree: "tree_ok (nodes s) r (clock s) K"
    using assms(1) by (auto simp: vfs_inv_def tree_of_def)
  obtain dn where dn: "nodes s d = Some dn" using assms(2) by (auto simp: live_def)
  show f: "find_in s d k = Some (Some x)"
    using assms(3) by (simp add: entry_def find_in_tree [OF tree dn])
  hence x: "x \<in> set (K d)" "node_name s x = Some k"
    by (auto simp: find_in_tree [OF tree dn] find_Some_iff)
  thus "live s x" "node_name s x = Some k"
    using tree_ok_kids_live [OF tree dn] by (auto simp: live_def)
  show "map_option nd_parent (nodes s x) = Some (Some d)"
    using tree_ok_node [OF tree dn] x(1) by (auto simp: node_ok_def child_of_def split: option.splits)
qed

lemma find_in_entry: "vfs_inv s \<Longrightarrow> live s d \<Longrightarrow> find_in s d k = Some (entry s d k)"
  by (auto simp: vfs_inv_def tree_of_def live_def find_in_tree entry_def)

lemma add_dirD:
  assumes "vfs_inv s" "live s d" "add_dir k d s = (n, s')"
  shows "create_node k True (Some d) s = Some (n, s')"
  by (rule create_node_total [OF assms(1,2), of k True]) (use assms(3) in \<open>auto simp: add_dir_def\<close>)

interpretation dirs: directory_store vfs_inv live entry add_dir
proof
  fix s :: "'w vfs" and d n x k s' j
  assume s: "vfs_inv s" "live s d"
  show "entry s d k = Some x \<Longrightarrow> live s x" by (rule entry_live(1) [OF s])
  assume "add_dir k d s = (n, s')"
  note new = create_node_vfs_inv [OF s add_dirD [OF s this]]
  show "vfs_inv s'" "live s' n" "entry s' n j = None" by (rule new)+
  assume "live s x"
  thus "live s' x" "entry s' x j = (if x = d \<and> j = k then Some n else entry s x j)"
    using new(5,6) by blast+
qed

text \<open>Following a list of names from a node.\<close>

fun walk :: "'w vfs \<Rightarrow> ptr \<Rightarrow> string list \<Rightarrow> ptr option" where
  "walk s d [] = Some d"
| "walk s d (c # cs) = (case entry s d c of None \<Rightarrow> None | Some x \<Rightarrow> walk s x cs)"

lemma walk_follow: "walk s d cs = dirs.follow s d cs"
  by (induction cs arbitrary: d) (auto split: option.split)

text \<open>Paths made of plain names, and what \<open>find\<close> and the creation loops make of them.\<close>

definition plain_name :: "string \<Rightarrow> bool" where
  "plain_name c \<longleftrightarrow> c \<noteq> [] \<and> CHR ''/'' \<notin> set c \<and> length c \<le> 127 \<and> c \<noteq> ''.'' \<and> c \<noteq> ''..''"

fun slashed :: "string list \<Rightarrow> string" where
  "slashed [] = []"
| "slashed (c # cs) = CHR ''/'' # c @ slashed cs"

fun body :: "string list \<Rightarrow> string" where
  "body [] = []"
| "body (c # cs) = c @ slashed cs"

lemma read_part_plain:
  "CHR ''/'' \<notin> set c \<Longrightarrow> length (part @ c) \<le> 127 \<Longrightarrow> read_part part (c @ rest) = read_part (part @ c) rest"
  by (induction c arbitrary: part) (auto simp: push_part_def)

lemma skip_slashes_slashed: "list_all plain_name cs \<Longrightarrow> skip_slashes (slashed cs) = body cs"
  by (cases cs; cases "hd cs") (auto simp: plain_name_def)

lemma next_part_body:
  assumes "plain_name c" "list_all plain_name cs"
  shows "next_part (body (c # cs)) = (c, body cs)"
proof -
  have "read_part [] (c @ slashed cs) = read_part c (slashed cs)"
    using read_part_plain [of c "[]"] assms(1) by (simp add: plain_name_def)
  also have "\<dots> = (c, slashed cs)" by (cases cs) simp_all
  finally show ?thesis using assms(2) by (simp add: next_part_def skip_slashes_slashed)
qed

lemma create_dir_loop_mkdirs:
  assumes "vfs_inv s" "live s d" "list_all plain_name cs"
  shows "create_dir_loop s d (body cs) = Some (dirs.mkdirs s d cs)"
  using assms
proof (induction cs arbitrary: s d)
  case Nil thus ?case by (simp add: create_dir_loop.simps)
next
  case (Cons c cs)
  note inv = Cons.prems(1,2)
  have c: "plain_name c" "list_all plain_name cs" using Cons.prems(3) by simp_all
  hence c': "body (c # cs) \<noteq> []" "c \<noteq> []" by (auto simp: plain_name_def)
  have "create_dir_loop s d (body (c # cs)) =
    Option.bind (ensure_dir d c s) (\<lambda>(n, s). create_dir_loop s n (body cs))"
    by (subst create_dir_loop.simps) (simp add: next_part_body [OF c] c' del: body.simps)
  also have "\<dots> = Some (dirs.mkdirs s d (c # cs))"
  proof (cases "entry s d c")
    case None
    obtain n s' where new: "create_node c True (Some d) s = Some (n, s')"
      by (rule create_node_total [OF inv])
    have "create_dir_loop s' n (body cs) = Some (dirs.mkdirs s' n cs)"
      by (rule Cons.IH) (use create_node_vfs_inv [OF inv new] c in simp_all)
    thus ?thesis using None new by (simp add: ensure_dir_def find_in_entry [OF inv] add_dir_def)
  next
    case (Some x)
    have "create_dir_loop s x (body cs) = Some (dirs.mkdirs s x cs)"
      by (rule Cons.IH) (use inv c entry_live [OF inv Some] in simp_all)
    thus ?thesis using Some by (simp add: ensure_dir_def find_in_entry [OF inv])
  qed
  finally show ?case .
qed

text \<open>\<open>no_links\<close>: no symbolic link lies on the way.\<close>

definition is_link :: "'w vfs \<Rightarrow> ptr \<Rightarrow> bool" where
  "is_link s n = (map_option nd_type (nodes s n) = Some VFS_SYMLINK)"

fun no_links :: "'w vfs \<Rightarrow> ptr \<Rightarrow> string list \<Rightarrow> bool" where
  "no_links s d [] = True"
| "no_links s d (c # cs) =
     (case entry s d c of None \<Rightarrow> True | Some x \<Rightarrow> \<not> is_link s x \<and> no_links s x cs)"

lemma resolve_not_link: "live s n \<Longrightarrow> \<not> is_link s n \<Longrightarrow> resolve F k s n = Some (Inr n, s)"
  by (subst resolve.simps) (auto simp: live_def is_link_def)

lemma component_plain:
  assumes "vfs_inv s" "live s d" "plain_name c" "entry s d c = Some x" "\<not> is_link s x"
  shows "component F s d c past = Some (Inr x, s)"
  using assms(3) entry_live(1,2) [OF assms(1,2,4)] resolve_not_link [OF _ assms(5)]
  by (simp add: component_def plain_name_def)

lemma find_loop_part:
  "CHR ''/'' \<notin> set c \<Longrightarrow> length (part @ c) \<le> 127 \<Longrightarrow>
     find_loop F path s d part (c @ rest) = find_loop F path s d (part @ c) rest"
  by (induction c arbitrary: part) (auto simp: push_part_def)

lemma find_loop_follow:
  assumes "vfs_inv s" "live s d" "list_all plain_name cs" "dirs.follow s d cs = Some n" "no_links s d cs"
  shows "find_loop F path s d [] (body cs) = Some (Some n, s)"
  using assms
proof (induction cs arbitrary: d)
  case Nil thus ?case by (simp add: component_def)
next
  case (Cons c cs)
  obtain x where x: "entry s d c = Some x" "dirs.follow s x cs = Some n" "\<not> is_link s x" "no_links s x cs"
    using Cons.prems(4,5) by (auto split: option.splits)
  have c: "plain_name c" "list_all plain_name cs" using Cons.prems(3) by simp_all
  have comp: "component F s d c past = Some (Inr x, s)" for past
    by (rule component_plain [OF Cons.prems(1,2) c(1) x(1,3)])
  have IH: "find_loop F path s x [] (body cs) = Some (Some n, s)"
    by (rule Cons.IH [OF Cons.prems(1) entry_live(1) [OF Cons.prems(1,2) x(1)] c(2) x(2,4)])
  have "find_loop F path s d [] (body (c # cs)) = find_loop F path s d c (slashed cs)"
    using c(1) find_loop_part [of c "[]"] by (simp add: plain_name_def)
  also have "\<dots> = Some (Some n, s)"
  proof (cases cs)
    case Nil thus ?thesis using x(2) by (simp add: comp)
  next
    case (Cons c' cs')
    thus ?thesis using IH by (simp add: comp)
  qed
  finally show ?case .
qed

lemma mkdirs_kept:
  assumes "vfs_inv s" "live s d" "dirs.mkdirs s d cs = (n, s')"
  shows "root s' = root s \<and> stack_frames s' = stack_frames s \<and>
    (\<forall>x. live s x \<longrightarrow> is_link s' x = is_link s x) \<and> (no_links s d cs \<longrightarrow> no_links s' d cs)"
  using assms
proof (induction cs arbitrary: s d)
  case (Cons c cs)
  note inv = Cons.prems(1,2)
  show ?case
  proof (cases "entry s d c")
    case None
    obtain x s1 where add: "add_dir c d s = (x, s1)" by fastforce
    note new = create_node_vfs_inv [OF inv add_dirD [OF inv add]]
    have m: "dirs.mkdirs s1 x cs = (n, s')" using Cons.prems(3) None add by simp
    have IH: "root s' = root s1 \<and> stack_frames s' = stack_frames s1 \<and>
      (\<forall>x. live s1 x \<longrightarrow> is_link s' x = is_link s1 x) \<and> (no_links s1 x cs \<longrightarrow> no_links s' x cs)"
      by (rule Cons.IH [OF new(1,2) m])
    have g: "dirs.grown s1 s'" using dirs.mkdirs_follow [OF new(1,2) m] by simp
    have "entry s1 d c = Some x" "live s1 d" using new(6) [OF inv(2), of c] new(5) [OF inv(2)] by simp_all
    hence "entry s' d c = Some x" using g by (simp add: dirs.grown_def)
    moreover have "no_links s1 x cs" by (cases cs) (simp_all add: new(4))
    moreover have "\<not> is_link s1 x" by (simp add: is_link_def new(9))
    moreover have "live s y \<Longrightarrow> live s1 y \<and> is_link s1 y = is_link s y" for y
      using new(5) by (simp only: is_link_def)
    ultimately show ?thesis using IH new(2,7,8) None by simp
  next
    case (Some x)
    have x: "live s x" by (rule entry_live(1) [OF inv Some])
    have m: "dirs.mkdirs s x cs = (n, s')" using Cons.prems(3) Some by simp
    have IH: "root s' = root s \<and> stack_frames s' = stack_frames s \<and>
      (\<forall>x. live s x \<longrightarrow> is_link s' x = is_link s x) \<and> (no_links s x cs \<longrightarrow> no_links s' x cs)"
      by (rule Cons.IH [OF inv(1) x m])
    have "entry s' d c = Some x"
      using dirs.mkdirs_follow [OF inv(1) x m] Some inv(2) by (simp add: dirs.grown_def)
    thus ?thesis using IH Some x by simp
  qed
qed simp

lemma get_path_loop_follow:
  assumes "vfs_inv s" "root s = Some r" "dirs.follow s r cs = Some n" "length (slashed cs @ temp) < 1024"
  shows "get_path_loop s (Some n) temp = Some (slashed cs @ temp)"
  using assms
proof (induction cs arbitrary: n temp rule: rev_induct)
  case Nil thus ?case by (subst get_path_loop.simps) simp
next
  case (snoc c cs)
  have rl: "live s r" "map_option nd_parent (nodes s r) = Some None"
    using snoc.prems(1,2) by (auto simp: vfs_inv_def tree_of_def tree_ok_def live_def node_ok_def)
  have sl: "slashed (cs @ [c]) = slashed cs @ CHR ''/'' # c" for cs by (induction cs) simp_all
  obtain x where x: "dirs.follow s r cs = Some x" "entry s x c = Some n"
    using snoc.prems(3) by (auto simp: dirs.follow_append bind_eq_Some_conv split: option.splits)
  have "live s x" using rl(1) x(1)
  proof (induction cs arbitrary: r)
    case (Cons a cs) thus ?case using entry_live(1) [OF snoc.prems(1)] by (auto split: option.splits)
  qed simp
  note n = entry_live [OF snoc.prems(1) this x(2)]
  obtain nd where nd: "nodes s n = Some nd" "nd_name nd = Some c" "nd_parent nd = Some x"
    using n(1,3,4) by (auto simp: live_def node_name_def)
  have "n \<noteq> r" using rl(2) nd by auto
  moreover have "get_path_loop s (Some x) (CHR ''/'' # c @ temp) = Some (slashed cs @ CHR ''/'' # c @ temp)"
    by (rule snoc.IH [OF snoc.prems(1,2) x(1)]) (use snoc.prems(4) in \<open>simp add: sl\<close>)
  ultimately show ?case
    using nd snoc.prems(2,4) by (subst get_path_loop.simps) (simp add: sl)
qed

lemma slashed_Cons: "cs \<noteq> [] \<Longrightarrow> slashed cs = CHR ''/'' # body cs"
  by (cases cs) simp_all

lemma root_live: "vfs_inv s \<Longrightarrow> root s = Some r \<Longrightarrow> live s r"
  by (auto simp: vfs_inv_def tree_of_def tree_ok_def live_def)

lemma vfs_find_follow:
  assumes "vfs_inv s" "root s = Some r" "0 < stack_frames s" "list_all plain_name cs" "cs \<noteq> []"
    "dirs.follow s r cs = Some n" "no_links s r cs"
  shows "vfs_find s (slashed cs) = Some (Some n, s)"
proof -
  have "find_loop F path s r [] (body cs) = Some (Some n, s)" for F path
    by (rule find_loop_follow [OF assms(1) root_live [OF assms(1,2)] assms(4,6,7)])
  thus ?thesis using assms(2,3,5)
    by (cases "stack_frames s") (simp_all add: vfs_find_def find_body_def slashed_Cons)
qed

section \<open>Examples\<close>

definition demo_node :: "string \<Rightarrow> bool \<Rightarrow> NodeType \<Rightarrow> ptr option \<Rightarrow> ptr option \<Rightarrow> ptr option \<Rightarrow> string option \<Rightarrow> node" where
  "demo_node name dir t parent nxt children link =
     \<lparr>nd_name = Some name, nd_directory = dir, nd_type = t, nd_parent = parent, nd_next = nxt,
      nd_children = children, nd_symlink = link, nd_filesystem = None, nd_mount_data = 0,
      nd_file = None, nd_dev = None\<rparr>"

text \<open>A root directory with a file \<open>a\<close> and a symbolic link \<open>l\<close> to itself.\<close>

definition vfs_demo :: "unit vfs" where
  "vfs_demo =
     \<lparr>nodes = [0 \<mapsto> demo_node ''/'' True VFS_DIR None None (Some 4) None,
               2 \<mapsto> demo_node ''a'' False VFS_FILE (Some 0) None None None,
               4 \<mapsto> demo_node ''l'' False VFS_SYMLINK (Some 0) (Some 2) None (Some ''/l'')],
      root = Some 0, current_dir = Some 0,
      mounts = [(9, \<lparr>m_path = Some ''/mnt'', m_fs = None, m_data = 0\<rparr>)], filesystems = [],
      fs_ops = (\<lambda>_. \<lparr>fs_name = None, fs_init = None, fs_open = None, fs_read = None, fs_write = None,
                    fs_close = None, fs_list = None, fs_lseek = None\<rparr>),
      devs = (\<lambda>_. \<lparr>dev_write = None, dev_read = None\<rparr>),
      process_cwd = None, clock = 10, granted = (\<lambda>_. True), stack_frames = 16, beyond = (\<lambda>_. []),
      fresh = (\<lambda>_ _. 0), world = ()\<rparr>"

lemma vfs_demo_field:
  "root vfs_demo = Some 0" "stack_frames vfs_demo = 16"
  "nodes vfs_demo 2 = Some (demo_node ''a'' False VFS_FILE (Some 0) None None None)"
  "nodes vfs_demo 4 = Some (demo_node ''l'' False VFS_SYMLINK (Some 0) (Some 2) None (Some ''/l''))"
  "mounts vfs_demo = [(9, \<lparr>m_path = Some ''/mnt'', m_fs = None, m_data = 0\<rparr>)]"
  by (simp_all add: vfs_demo_def)

lemma vfs_demo_inv: "vfs_inv vfs_demo"
proof -
  have "tree_ok (nodes vfs_demo) 0 (clock vfs_demo) ((\<lambda>_. [])(0 := [4, 2]))"
    by (auto simp: tree_ok_def vfs_demo_def node_ok_def demo_node_def child_of_def split: if_splits)
  thus ?thesis by (auto simp: vfs_inv_def tree_of_def vfs_demo_def)
qed

lemma vfs_demo_find_in:
  "find_in vfs_demo 0 ''l'' = Some (Some 4)" "find_in vfs_demo 0 ''a'' = Some (Some 2)"
  "find_in vfs_demo 0 ''tmp'' = Some None"
  by (simp_all add: find_in_def vfs_demo_def find_from.simps demo_node_def)

lemma vfs_demo_walk: "walk vfs_demo 0 [''a''] = Some 2" "no_links vfs_demo 0 [''a'']" "no_links vfs_demo 0 [''tmp'', ''x'']"
  by (simp_all add: entry_def vfs_demo_find_in) (simp_all add: is_link_def vfs_demo_def demo_node_def)

section \<open>Properties\<close>

text \<open>
  C8: \<open>create_dir_path\<close> on an absolute path of ordinary names, with no symbolic link on the way,
  creates what is missing and returns the directory; afterwards the node tree is well-formed,
  \<open>find\<close> of the same path returns that directory, \<open>get_path\<close> of it gives the path back, and every
  entry that was there is still there.
\<close>

theorem create_dir_path_find:
  assumes "vfs_inv s" "root s = Some r" "0 < stack_frames s"
    and "list_all plain_name cs" "cs \<noteq> []" "length (slashed cs) < 1024" "no_links s r cs"
  shows "\<exists>n s'. create_dir_path (slashed cs) s = Some (Some n, s') \<and> vfs_inv s' \<and>
    vfs_find s' (slashed cs) = Some (Some n, s') \<and> get_path s' (Some n) = Some (slashed cs) \<and>
    (\<forall>d k x. live s d \<longrightarrow> find_in s d k = Some (Some x) \<longrightarrow> find_in s' d k = Some (Some x))"
proof -
  have r: "live s r" by (rule root_live [OF assms(1,2)])
  obtain n s' where m: "dirs.mkdirs s r cs = (n, s')" by fastforce
  have f: "vfs_inv s'" "dirs.grown s s'" "dirs.follow s' r cs = Some n"
    using dirs.mkdirs_follow [OF assms(1) r m] by simp_all
  have k: "root s' = Some r" "0 < stack_frames s'" "no_links s' r cs"
    using mkdirs_kept [OF assms(1) r m] assms by simp_all
  have "create_dir_path (slashed cs) s = Some (Some n, s')"
    using create_dir_loop_mkdirs [OF assms(1) r assms(4)] assms(2,5) skip_slashes_slashed [OF assms(4)] m
    by (simp add: create_dir_path_def start_dir_def slashed_Cons)
  moreover have "vfs_find s' (slashed cs) = Some (Some n, s')"
    by (rule vfs_find_follow [OF f(1) k(1,2) assms(4,5) f(3) k(3)])
  moreover have "get_path_loop s' (Some n) [] = Some (slashed cs)"
    using get_path_loop_follow [OF f(1) k(1) f(3), of "[]"] assms(6) by simp
  moreover have "n \<noteq> r"
  proof
    assume "n = r"
    hence "get_path_loop s' (Some n) [] = Some []" using k(1) by (subst get_path_loop.simps) simp
    thus False using calculation(3) slashed_Cons [OF assms(5)] by simp
  qed
  moreover have "find_in s' d j = Some (Some x)" if "live s d" "find_in s d j = Some (Some x)" for d j x
  proof -
    have "entry s d j = Some x" using that by (simp add: entry_def)
    hence "live s' d" "entry s' d j = Some x" using f(2) that(1) by (simp_all add: dirs.grown_def)
    thus ?thesis by (rule entry_live(2) [OF f(1)])
  qed
  ultimately show ?thesis using f(1) k(1) by (intro exI conjI) (auto simp: get_path_def)
qed

theorem create_dir_path_find_witness:
  "\<exists>n s'. create_dir_path (slashed [''tmp'', ''x'']) vfs_demo = Some (Some n, s') \<and> vfs_inv s' \<and>
    vfs_find s' (slashed [''tmp'', ''x'']) = Some (Some n, s') \<and>
    get_path s' (Some n) = Some (slashed [''tmp'', ''x''])"
  using create_dir_path_find [of vfs_demo 0 "[''tmp'', ''x'']", OF vfs_demo_inv] vfs_demo_walk(3)
  by (auto simp: plain_name_def vfs_demo_field)

end
