(* ===== verification/Vfs_Ops.thy ===== *)
theory Vfs_Ops
  imports Vfs
begin

text \<open>
  The operations of \<open>src/fs/vfs.cpp\<close> on files and devices, the table of mounts of
  \<open>src/fs/mount.cpp\<close> and the registry of file systems of \<open>src/fs/fs.cpp\<close>, on the node tree of
  \<open>Vfs\<close>. As there, the outer \<open>None\<close> is a fault of the kernel. The bytes handed to a write are a
  list; a read returns its result and the bytes it has put into the buffer.
\<close>

section \<open>Nodes\<close>

definition set_world :: "'w \<Rightarrow> 'w vfs \<Rightarrow> 'w vfs" where
  "set_world w s = s\<lparr>world := w\<rparr>"

partial_function (option) propagate_list ::
  "ptr option \<Rightarrow> ptr \<Rightarrow> ptr option \<Rightarrow> 'w vfs \<Rightarrow> 'w vfs option" where
  "propagate_list f data p s =
     (case p of
        None \<Rightarrow> Some s
      | Some c \<Rightarrow> do {
          nd \<leftarrow> nodes s c;
          let s1 = set_node c (nd\<lparr>nd_filesystem := f, nd_mount_data := data\<rparr>) s;
          s2 \<leftarrow> propagate_list f data (nd_children nd) s1;
          nd2 \<leftarrow> nodes s2 c;
          propagate_list f data (nd_next nd2) s2
        })"

definition propagate_fs :: "ptr \<Rightarrow> ptr option \<Rightarrow> ptr \<Rightarrow> 'w vfs \<Rightarrow> 'w vfs option" where
  "propagate_fs n f data s = do {
     nd \<leftarrow> nodes s n;
     propagate_list f data (nd_children nd)
       (set_node n (nd\<lparr>nd_filesystem := f, nd_mount_data := data\<rparr>) s)
   }"

definition mount_node :: "ptr \<Rightarrow> ptr option \<Rightarrow> ptr \<Rightarrow> 'w vfs \<Rightarrow> 'w vfs option" where
  "mount_node n f data s = do {
     nd \<leftarrow> nodes s n;
     propagate_fs n f data (set_node n (nd\<lparr>nd_type := VFS_MOUNT\<rparr>) s)
   }"

definition create_dev :: "string \<Rightarrow> ptr option \<Rightarrow> 'w vfs \<Rightarrow> (ptr option \<times> 'w vfs) option" where
  "create_dev name dev s = do {
     (r, s) \<leftarrow> vfs_find s ''/dev'';
     case r of
       None \<Rightarrow> Some (None, s)
     | Some dev_dir \<Rightarrow> do {
         (n, s) \<leftarrow> create_node name False (Some dev_dir) s;
         nd \<leftarrow> nodes s n;
         Some (Some n, set_node n (nd\<lparr>nd_dev := dev, nd_type := VFS_DEV\<rparr>) s)
       }
   }"

definition get_dev_dir :: "'w vfs \<Rightarrow> (ptr option \<times> 'w vfs) option" where
  "get_dev_dir s = vfs_find s ''/dev''"

definition get_name :: "'w vfs \<Rightarrow> ptr option \<Rightarrow> string option option" where
  "get_name s n = map_option nd_name (deref s n)"

definition get_content :: "'w vfs \<Rightarrow> ptr option \<Rightarrow> u8 list option option" where
  "get_content s n =
     map_option (\<lambda>nd. case nd_file nd of None \<Rightarrow> None | Some f \<Rightarrow> private_data f) (deref s n)"

text \<open>The lines that \<open>list_dir\<close> prints.\<close>

partial_function (option) list_from :: "'w vfs \<Rightarrow> ptr option \<Rightarrow> (bool \<times> string option) list option" where
  "list_from s p =
     (case p of
        None \<Rightarrow> Some []
      | Some n \<Rightarrow> do {
          nd \<leftarrow> nodes s n;
          rest \<leftarrow> list_from s (nd_next nd);
          Some ((nd_directory nd, nd_name nd) # rest)
        })"

definition list_dir :: "'w vfs \<Rightarrow> ptr option \<Rightarrow> (string list + (bool \<times> string option) list) option" where
  "list_dir s n = do {
     nd \<leftarrow> deref s (case n of None \<Rightarrow> current_dir s | Some _ \<Rightarrow> n);
     case (case nd_filesystem nd of None \<Rightarrow> None | Some f \<Rightarrow> fs_list (fs_ops s f)) of
       Some lst \<Rightarrow>
         if nd_type nd = VFS_MOUNT then Some (Inl (lst (world s) (nd_mount_data nd)))
         else map_option Inr (list_from s (nd_children nd))
     | None \<Rightarrow> map_option Inr (list_from s (nd_children nd))
   }"

definition create_symlink_path :: "string \<Rightarrow> string \<Rightarrow> 'w vfs \<Rightarrow> (ptr option \<times> 'w vfs) option" where
  "create_symlink_path path target s = do {
     (r, s) \<leftarrow> create_file_path path s;
     case r of
       None \<Rightarrow> Some (None, s)
     | Some n \<Rightarrow> do {
         nd \<leftarrow> nodes s n;
         let (b, s) = kmalloc_node s;
         _ \<leftarrow> b;
         Some (Some n, set_node n (nd\<lparr>nd_type := VFS_SYMLINK, nd_symlink := Some target\<rparr>) s)
       }
   }"

definition set_current :: "ptr option \<Rightarrow> 'w vfs \<Rightarrow> 'w vfs option" where
  "set_current n s =
     (case n of
        None \<Rightarrow> Some s
      | Some p \<Rightarrow> do { nd \<leftarrow> nodes s p; Some (if nd_directory nd then s\<lparr>current_dir := n\<rparr> else s) })"

definition change_dir :: "string \<Rightarrow> 'w vfs \<Rightarrow> 'w vfs option" where
  "change_dir path s = do {
     (r, s) \<leftarrow> vfs_find s path;
     case r of
       None \<Rightarrow> Some s
     | Some n \<Rightarrow> do {
         nd \<leftarrow> nodes s n;
         if \<not> nd_directory nd then Some s else Some (s\<lparr>current_dir := Some n\<rparr>)
       }
   }"

section \<open>Contents\<close>

definition ensure_file_storage :: "ptr \<Rightarrow> 'w vfs \<Rightarrow> (bool \<times> 'w vfs) option" where
  "ensure_file_storage n s = do {
     nd \<leftarrow> nodes s n;
     if nd_directory nd then Some (False, s)
     else if nd_file nd \<noteq> None then Some (True, s)
     else
       let (b, s) = kmalloc_node s in
       case b of
         None \<Rightarrow> Some (False, s)
       | Some _ \<Rightarrow>
           Some (True, set_node n (nd\<lparr>nd_file := Some \<lparr>f_size = 0, private_data = None\<rparr>\<rparr>) s)
   }"

text \<open>The new buffer of a file: allocated, filled with \<open>bytes\<close>, terminated, put in place.\<close>

definition store_content :: "ptr \<Rightarrow> u8 list option \<Rightarrow> 'w vfs \<Rightarrow> (bool \<times> 'w vfs) option" where
  "store_content n bytes s = do {
     let (b, s) = kmalloc_node s;
     case b of
       None \<Rightarrow> Some (False, s)
     | Some _ \<Rightarrow> do {
         data \<leftarrow> bytes;
         nd \<leftarrow> nodes s n;
         f \<leftarrow> nd_file nd;
         Some (True, set_node n (nd\<lparr>nd_file := Some (f\<lparr>private_data := Some (data @ [0]),
                                                     f_size := of_nat (length data)\<rparr>)\<rparr>) s)
       }
   }"

definition write_content :: "string \<Rightarrow> u8 list \<Rightarrow> 'w vfs \<Rightarrow> (bool \<times> 'w vfs) option" where
  "write_content path data s = do {
     (r, s) \<leftarrow> vfs_find s path;
     (n, s) \<leftarrow> (case r of Some n \<Rightarrow> Some (n, s) | None \<Rightarrow> create_file path s);
     nd \<leftarrow> nodes s n;
     if nd_directory nd then Some (False, s)
     else do {
       (ok, s) \<leftarrow> ensure_file_storage n s;
       if \<not> ok then Some (False, s) else store_content n (Some data) s
     }
   }"

text \<open>The first \<open>k\<close> bytes of the old buffer; a null buffer or one that is too short is a fault.\<close>

definition buffer_bytes :: "vfile \<Rightarrow> nat \<Rightarrow> u8 list option" where
  "buffer_bytes f k =
     (case private_data f of
        None \<Rightarrow> if k = 0 then Some [] else None
      | Some b \<Rightarrow> if k \<le> length b then Some (take k b) else None)"

definition append_content :: "string \<Rightarrow> u8 list \<Rightarrow> 'w vfs \<Rightarrow> (bool \<times> 'w vfs) option" where
  "append_content path data s = do {
     (r, s) \<leftarrow> vfs_find s path;
     case r of
       None \<Rightarrow> write_content path data s
     | Some n \<Rightarrow> do {
         nd \<leftarrow> nodes s n;
         if nd_directory nd then Some (False, s)
         else do {
           (ok, s) \<leftarrow> ensure_file_storage n s;
           if \<not> ok then Some (False, s)
           else do {
             nd \<leftarrow> nodes s n;
             f \<leftarrow> nd_file nd;
             store_content n (map_option (\<lambda>old. old @ data) (buffer_bytes f (unat (f_size f)))) s
           }
         }
       }
   }"

partial_function (option) find_prev :: "'w vfs \<Rightarrow> ptr \<Rightarrow> ptr option \<Rightarrow> ptr option option" where
  "find_prev s n p =
     (case p of
        None \<Rightarrow> Some None
      | Some q \<Rightarrow> do {
          qd \<leftarrow> nodes s q;
          if nd_next qd = Some n then Some (Some q) else find_prev s n (nd_next qd)
        })"

definition unlink_node :: "ptr \<Rightarrow> node \<Rightarrow> 'w vfs \<Rightarrow> 'w vfs option" where
  "unlink_node n nd s = do {
     p \<leftarrow> nd_parent nd;
     pn \<leftarrow> nodes s p;
     if nd_children pn = Some n then Some (set_node p (pn\<lparr>nd_children := nd_next nd\<rparr>) s)
     else do {
       prev \<leftarrow> find_prev s n (nd_children pn);
       case prev of
         None \<Rightarrow> Some s
       | Some q \<Rightarrow> do { qd \<leftarrow> nodes s q; Some (set_node q (qd\<lparr>nd_next := nd_next nd\<rparr>) s) }
     }
   }"

definition vfs_remove :: "string \<Rightarrow> 'w vfs \<Rightarrow> (bool \<times> 'w vfs) option" where
  "vfs_remove path s = do {
     (r, s) \<leftarrow> vfs_find s path;
     case r of
       None \<Rightarrow> Some (False, s)
     | Some n \<Rightarrow>
         if root s = Some n then Some (False, s)
         else do {
           nd \<leftarrow> nodes s n;
           if nd_directory nd \<and> nd_children nd \<noteq> None then Some (False, s)
           else do {
             s \<leftarrow> unlink_node n nd s;
             Some (True, s\<lparr>nodes := (nodes s)(n := None)\<rparr>)
           }
         }
   }"

section \<open>Reading and writing a node\<close>

definition node_write :: "ptr option \<Rightarrow> u8 list \<Rightarrow> 'w vfs \<Rightarrow> (u64 \<times> 'w vfs) option" where
  "node_write n buf s =
     (case n of
        None \<Rightarrow> Some (0, s)
      | Some p \<Rightarrow> do {
          nd \<leftarrow> nodes s p;
          case nd_dev nd of
            None \<Rightarrow> Some (0, s)
          | Some d \<Rightarrow> do {
              wr \<leftarrow> dev_write (devs s d);
              Some (of_nat (length buf), set_world (snd (wr (world s) buf 0)) s)
            }
        })"

definition c_int :: "u64 \<Rightarrow> int" where
  "c_int x = sint (ucast x :: 32 word)"

definition read_storage :: "vfile \<Rightarrow> int \<Rightarrow> (int \<times> u8 list) option" where
  "read_storage f len = map_option (\<lambda>bytes. (len, bytes)) (buffer_bytes f (nat len))"

definition node_read_local :: "node \<Rightarrow> int \<Rightarrow> 'w vfs \<Rightarrow> (int \<times> u8 list \<times> 'w vfs) option" where
  "node_read_local nd sz s =
     (case (if nd_type nd = VFS_DEV then Option.bind (nd_dev nd) (\<lambda>d. dev_read (devs s d)) else None) of
        Some rd \<Rightarrow>
          (case rd (world s) (of_int sz) 0 of (k, bytes, w) \<Rightarrow> Some (c_int k, bytes, set_world w s))
      | None \<Rightarrow>
          (case nd_file nd of
             None \<Rightarrow> Some (-1, [], s)
           | Some f \<Rightarrow>
               if nd_directory nd \<or> private_data f = None then Some (-1, [], s)
               else do {
                 (len, bytes) \<leftarrow> read_storage f (c_int (if f_size f < of_int sz then f_size f else of_int sz));
                 Some (len, bytes, s)
               }))"

definition node_read :: "ptr option \<Rightarrow> int \<Rightarrow> 'w vfs \<Rightarrow> (int \<times> u8 list \<times> 'w vfs) option" where
  "node_read n sz s =
     (case n of
        None \<Rightarrow> Some (-1, [], s)
      | Some p \<Rightarrow> do {
          nd \<leftarrow> nodes s p;
          case (if nd_type nd = VFS_MOUNT then nd_filesystem nd else None) of
            Some f \<Rightarrow>
              (case (fs_open (fs_ops s f), fs_read (fs_ops s f)) of
                 (Some opn, Some rd) \<Rightarrow>
                   (case opn (world s) (nd_mount_data nd) [] of
                      (None, w) \<Rightarrow> Some (-1, [], set_world w s)
                    | (Some h, w) \<Rightarrow>
                        (case rd w h (of_int sz) of
                           (ret, bytes, w) \<Rightarrow> do {
                             cls \<leftarrow> fs_close (fs_ops s f);
                             Some (ret, bytes, set_world (cls w h) s)
                           }))
               | _ \<Rightarrow> node_read_local nd sz s)
          | None \<Rightarrow> node_read_local nd sz s
        })"

definition node_write_int :: "ptr option \<Rightarrow> u8 list \<Rightarrow> 'w vfs \<Rightarrow> (int \<times> 'w vfs) option" where
  "node_write_int n buf s =
     (case n of
        None \<Rightarrow> Some (-1, s)
      | Some p \<Rightarrow> do {
          nd \<leftarrow> nodes s p;
          case (if nd_type nd = VFS_DEV then Option.bind (nd_dev nd) (\<lambda>d. dev_write (devs s d)) else None) of
            Some wr \<Rightarrow> (case wr (world s) buf 0 of (k, w) \<Rightarrow> Some (c_int k, set_world w s))
          | None \<Rightarrow>
              if \<not> nd_directory nd then do {
                nm \<leftarrow> nd_name nd;
                (ok, s) \<leftarrow> write_content nm buf s;
                Some (if ok then int (length buf) else -1, s)
              }
              else Some (-1, s)
        })"

section \<open>File systems and mounts\<close>

definition register_filesystem :: "ptr option \<Rightarrow> 'w vfs \<Rightarrow> 'w vfs" where
  "register_filesystem f s =
     (case f of
        None \<Rightarrow> s
      | Some p \<Rightarrow>
          if p \<in> set (filesystems s) then s
          else if 16 \<le> length (filesystems s) then s
          else s\<lparr>filesystems := filesystems s @ [p]\<rparr>)"

definition get_filesystem :: "'w vfs \<Rightarrow> string option \<Rightarrow> ptr option" where
  "get_filesystem s name =
     (case name of
        None \<Rightarrow> None
      | Some nm \<Rightarrow> List.find (\<lambda>p. fs_name (fs_ops s p) = Some nm) (filesystems s))"

definition fs_mount :: "string \<Rightarrow> ptr option \<Rightarrow> ptr \<Rightarrow> 'w vfs \<Rightarrow> (bool \<times> 'w vfs) option" where
  "fs_mount path f data s =
     (if path = [] then Some (False, s)
      else do {
        (r, s) \<leftarrow> vfs_find s path;
        (r, s) \<leftarrow> (case r of Some n \<Rightarrow> Some (Some n, s) | None \<Rightarrow> create_dir_path path s);
        case r of
          None \<Rightarrow> Some (False, s)
        | Some n \<Rightarrow> do {
            nd \<leftarrow> nodes s n;
            let s = set_node n (nd\<lparr>nd_type := VFS_MOUNT, nd_filesystem := f, nd_mount_data := data\<rparr>) s;
            let (m, s) = kmalloc_node s;
            case m of
              None \<Rightarrow> Some (False, s)
            | Some m \<Rightarrow>
                let (p, s) = strdup_name path s;
                    s = s\<lparr>mounts := (m, \<lparr>m_path = p, m_fs = f, m_data = data\<rparr>) # mounts s\<rparr>
                in (case Option.bind f (\<lambda>q. fs_init (fs_ops s q)) of
                      None \<Rightarrow> Some (True, s)
                    | Some ini \<Rightarrow> (case ini (world s) of (ok, w) \<Rightarrow> Some (ok, set_world w s)))
          }
      })"

definition mount_fs :: "string \<Rightarrow> ptr option \<Rightarrow> ptr \<Rightarrow> 'w vfs \<Rightarrow> (bool \<times> 'w vfs) option" where
  "mount_fs path f data s = fs_mount path f data s"

fun drop_mount :: "string \<Rightarrow> (ptr \<times> mount) list \<Rightarrow> (ptr \<times> mount) list option" where
  "drop_mount path [] = None"
| "drop_mount path ((a, m) # ms) =
     (if m_path m = Some path then Some ms else map_option (Cons (a, m)) (drop_mount path ms))"

definition fs_umount :: "string \<Rightarrow> 'w vfs \<Rightarrow> (bool \<times> 'w vfs) option" where
  "fs_umount path s =
     (case drop_mount path (mounts s) of
        None \<Rightarrow> Some (False, s)
      | Some ms \<Rightarrow> do {
          (r, s) \<leftarrow> vfs_find (s\<lparr>mounts := ms\<rparr>) path;
          case r of
            None \<Rightarrow> Some (True, s)
          | Some n \<Rightarrow> do {
              nd \<leftarrow> nodes s n;
              Some (True,
                if nd_type nd = VFS_MOUNT then
                  set_node n (nd\<lparr>nd_type := VFS_DIR, nd_filesystem := None, nd_mount_data := 0\<rparr>) s
                else s)
            }
        })"

text \<open>
  The longest mount point: \<open>strncmp\<close> over the length of the mount point, and then the character of
  the path after it.
\<close>

definition covers :: "string \<Rightarrow> string \<Rightarrow> bool" where
  "covers mp path \<longleftrightarrow>
     take (length mp) path = mp \<and>
     (length path = length mp \<or> length mp < length path \<and> path ! length mp = CHR ''/'')"

fun find_mount_loop :: "string \<Rightarrow> (ptr \<times> mount) option \<Rightarrow> nat \<Rightarrow> (ptr \<times> mount) list \<Rightarrow>
    (ptr \<times> mount) option option" where
  "find_mount_loop path best best_len [] = Some best"
| "find_mount_loop path best best_len ((a, m) # ms) = do {
     mp \<leftarrow> m_path m;
     if covers mp path \<and> best_len < length mp then find_mount_loop path (Some (a, m)) (length mp) ms
     else find_mount_loop path best best_len ms
   }"

definition find_mount :: "'w vfs \<Rightarrow> string \<Rightarrow> (ptr \<times> mount) option option" where
  "find_mount s path = find_mount_loop path None 0 (mounts s)"

definition get_mounts :: "'w vfs \<Rightarrow> (ptr \<times> mount) list" where
  "get_mounts s = mounts s"

section \<open>Handles\<close>

record vfs_handle =
  h_node :: "ptr option"
  h_mount :: "ptr option"
  h_fs_handle :: ptr
  h_directory :: bool

definition open_path :: "'w vfs \<Rightarrow> string \<Rightarrow> string option" where
  "open_path s path =
     (if hd path \<noteq> CHR ''/'' then do {
        cwd \<leftarrow> get_path s (get_process_cwd s);
        Some (take 255 (if cwd \<noteq> [] \<and> last cwd = CHR ''/'' then cwd @ path else cwd @ ''/'' @ path))
      }
      else Some (take 255 path))"

definition open_node :: "string \<Rightarrow> 'w vfs \<Rightarrow> (vfs_handle option \<times> 'w vfs) option" where
  "open_node resolved s = do {
     (r, s) \<leftarrow> vfs_find s resolved;
     case r of
       None \<Rightarrow> Some (None, s)
     | Some n \<Rightarrow>
         let (h, s) = kmalloc_node s in
         (case h of
            None \<Rightarrow> Some (None, s)
          | Some _ \<Rightarrow> do {
              nd \<leftarrow> nodes s n;
              Some (Some \<lparr>h_node = Some n, h_mount = None, h_fs_handle = 0, h_directory = nd_directory nd\<rparr>, s)
            })
   }"

definition vfs_open :: "string \<Rightarrow> 'w vfs \<Rightarrow> (vfs_handle option \<times> 'w vfs) option" where
  "vfs_open path s =
     (if path = [] then Some (None, s)
      else do {
        resolved \<leftarrow> open_path s path;
        mnt \<leftarrow> find_mount s resolved;
        case mnt of
          None \<Rightarrow> open_node resolved s
        | Some (a, m) \<Rightarrow>
            (case Option.bind (m_fs m) (\<lambda>f. fs_open (fs_ops s f)) of
               None \<Rightarrow> open_node resolved s
             | Some opn \<Rightarrow> do {
                 mp \<leftarrow> m_path m;
                 let sub = skip_slashes (drop (length mp) resolved);
                 if sub = [] then open_node resolved s
                 else (case opn (world s) (m_data m) sub of
                     (None, w) \<Rightarrow> Some (None, set_world w s)
                   | (Some handle, w) \<Rightarrow>
                       let (h, s) = kmalloc_node (set_world w s) in
                       (case h of
                          None \<Rightarrow>
                            Some (None,
                              case Option.bind (m_fs m) (\<lambda>f. fs_close (fs_ops s f)) of
                                None \<Rightarrow> s
                              | Some cls \<Rightarrow> set_world (cls (world s) handle) s)
                        | Some _ \<Rightarrow>
                            Some (Some \<lparr>h_node = None, h_mount = Some a, h_fs_handle = handle,
                                        h_directory = False\<rparr>, s)))
               })
      })"

text \<open>The operation of the mounted file system behind a handle; a mount that is gone is a fault.\<close>

definition handle_op :: "'w vfs \<Rightarrow> vfs_handle \<Rightarrow> ('w file_system \<Rightarrow> 'a option) \<Rightarrow> 'a option option" where
  "handle_op s h sel =
     (case h_mount h of
        None \<Rightarrow> Some None
      | Some a \<Rightarrow> do { m \<leftarrow> map_of (mounts s) a; Some (Option.bind (m_fs m) (\<lambda>f. sel (fs_ops s f))) })"

definition handle_read_node :: "ptr \<Rightarrow> u64 \<Rightarrow> 'w vfs \<Rightarrow> (int \<times> u8 list \<times> 'w vfs) option" where
  "handle_read_node n sz s = do {
     nd \<leftarrow> nodes s n;
     case (if nd_type nd = VFS_DEV then Option.bind (nd_dev nd) (\<lambda>d. dev_read (devs s d)) else None) of
       Some rd \<Rightarrow> (case rd (world s) sz 0 of (k, bytes, w) \<Rightarrow> Some (c_int k, bytes, set_world w s))
     | None \<Rightarrow>
         (case nd_file nd of
            None \<Rightarrow> Some (-1, [], s)
          | Some f \<Rightarrow>
              if nd_directory nd \<or> private_data f = None then Some (-1, [], s)
              else
                let len = (if f_size f < sz then f_size f else sz) in
                do { bytes \<leftarrow> buffer_bytes f (unat len); Some (c_int len, bytes, s) })
   }"

definition vfs_read :: "vfs_handle option \<Rightarrow> u64 \<Rightarrow> 'w vfs \<Rightarrow> (int \<times> u8 list \<times> 'w vfs) option" where
  "vfs_read handle sz s =
     (case handle of
        None \<Rightarrow> Some (-1, [], s)
      | Some h \<Rightarrow> do {
          opr \<leftarrow> handle_op s h fs_read;
          case opr of
            Some rd \<Rightarrow>
              (case rd (world s) (h_fs_handle h) sz of (k, bytes, w) \<Rightarrow> Some (k, bytes, set_world w s))
          | None \<Rightarrow> (case h_node h of None \<Rightarrow> Some (-1, [], s) | Some n \<Rightarrow> handle_read_node n sz s)
        })"

definition vfs_write :: "vfs_handle option \<Rightarrow> u8 list \<Rightarrow> 'w vfs \<Rightarrow> (int \<times> 'w vfs) option" where
  "vfs_write handle buf s =
     (case handle of
        None \<Rightarrow> Some (-1, s)
      | Some h \<Rightarrow> do {
          opr \<leftarrow> handle_op s h fs_write;
          case opr of
            Some wr \<Rightarrow> (case wr (world s) (h_fs_handle h) buf of (k, w) \<Rightarrow> Some (k, set_world w s))
          | None \<Rightarrow>
              (case h_node h of
                 None \<Rightarrow> Some (-1, s)
               | Some n \<Rightarrow> do {
                   nd \<leftarrow> nodes s n;
                   case Option.bind (nd_dev nd) (\<lambda>d. dev_write (devs s d)) of
                     None \<Rightarrow> Some (-1, s)
                   | Some wr \<Rightarrow>
                       (case wr (world s) buf 0 of (k, w) \<Rightarrow> Some (c_int k, set_world w s))
                 })
        })"

definition vfs_close :: "vfs_handle option \<Rightarrow> 'w vfs \<Rightarrow> 'w vfs option" where
  "vfs_close handle s =
     (case handle of
        None \<Rightarrow> Some s
      | Some h \<Rightarrow> do {
          opr \<leftarrow> handle_op s h fs_close;
          Some (case opr of None \<Rightarrow> s | Some cls \<Rightarrow> set_world (cls (world s) (h_fs_handle h)) s)
        })"

section \<open>Removing a node keeps the tree\<close>

lemma find_remove1: "List.find P xs \<noteq> Some n \<Longrightarrow> List.find P (remove1 n xs) = List.find P xs"
  by (induction xs) (auto split: if_splits)

text \<open>A store without the leaf \<open>n\<close>, whose parent \<open>p\<close> has one child less, is a tree again.\<close>

definition shape :: "node \<Rightarrow> string option \<times> bool \<times> ptr option" where
  "shape nd = (nd_name nd, nd_directory nd, nd_parent nd)"

lemma remove_tree_ok:
  assumes tree: "tree_ok ns r c K" and n: "ns n = Some nd" "K n = []" "nd_parent nd = Some p" "n \<noteq> r"
    and gone: "ns' n = None"
    and shape: "\<And>x. x \<noteq> n \<Longrightarrow> map_option shape (ns' x) = map_option shape (ns x)"
    and kids: "\<And>x. x \<noteq> n \<Longrightarrow> x \<noteq> p \<Longrightarrow> map_option nd_children (ns' x) = map_option nd_children (ns x)"
    and sibs: "\<And>x. x \<notin> set (K p) \<Longrightarrow> map_option nd_next (ns' x) = map_option nd_next (ns x)"
    and p: "ns' p = Some pn" "chain ns' (nd_children pn) (remove1 n (K p))"
  shows "tree_ok ns' r c (K(p := remove1 n (K p)))"
proof -
  let ?K = "K(p := remove1 n (K p))"
  have np: "n \<noteq> p" using gone p by auto
  have alive: "x \<noteq> n \<Longrightarrow> (ns' x = None) = (ns x = None)" for x
    using shape [of x] by (cases "ns x"; cases "ns' x") auto
  have "node_ok ns' r c ?K m md" if m: "ns' m = Some md" for m md
  proof -
    have mn: "m \<noteq> n" using m gone by auto
    obtain mo where mo: "ns m = Some mo" "shape md = shape mo"
      using shape [OF mn] m by (cases "ns m") auto
    have ok: "node_ok ns r c K m mo" by (rule tree_ok_node [OF tree mo(1)])
    have child: "child_of ns' x m" if "x \<in> set (?K m)" for x
    proof -
      have x: "child_of ns x m" "x \<noteq> n"
      proof -
        have xm: "x \<in> set (K m)" using that set_remove1_subset by (fastforce split: if_splits)
        thus "child_of ns x m" using ok by (simp add: node_ok_def)
        hence "x = n \<Longrightarrow> m = p" using n by (simp add: child_of_def)
        thus "x \<noteq> n" using that ok by (auto simp: node_ok_def)
      qed
      thus ?thesis using shape [OF x(2)] by (auto simp: child_of_def shape_def split: option.splits)
    qed
    have ch: "chain ns' (nd_children md) (?K m)"
    proof (cases "m = p")
      case True thus ?thesis using m p by simp
    next
      case False
      have "map_option nd_next (ns' x) = map_option nd_next (ns x)" if "x \<in> set (K m)" for x
      proof (rule sibs)
        have pa: "ns p \<noteq> None" using alive [of p] np p by auto
        have "child_of ns x m" using ok that by (simp add: node_ok_def)
        moreover have "x \<in> set (K p) \<Longrightarrow> child_of ns x p"
          using pa tree_ok_node [OF tree, of p] by (auto simp: node_ok_def)
        ultimately show "x \<notin> set (K p)" using False by (auto simp: child_of_def split: option.splits)
      qed
      hence "chain ns' (nd_children mo) (K m) = chain ns (nd_children mo) (K m)" by (rule chain_cong)
      moreover have "nd_children md = nd_children mo" using kids [OF mn False] m mo by simp
      ultimately show ?thesis using ok False by (simp add: node_ok_def)
    qed
    have "distinct (?K m)" "m < c" using ok by (auto simp: node_ok_def)
    moreover have "nd_name md \<noteq> None" using ok mo(2) by (simp add: node_ok_def shape_def)
    moreover have "if m = r then nd_parent md = None \<and> nd_directory md
      else case nd_parent md of None \<Rightarrow> False | Some q \<Rightarrow> ns' q \<noteq> None \<and> m \<in> set (?K q)"
    proof (cases "m = r")
      case True thus ?thesis using ok mo(2) by (simp add: node_ok_def shape_def)
    next
      case False
      then obtain q where q: "nd_parent mo = Some q" "ns q \<noteq> None" "m \<in> set (K q)"
        using ok by (auto simp: node_ok_def split: option.splits)
      have "q \<noteq> n" using q(3) n(2) by auto
      thus ?thesis using False q mo(2) alive [of q] mn by (auto simp: shape_def in_set_remove1)
    qed
    ultimately show ?thesis using ch child by (auto simp: node_ok_def)
  qed
  moreover have "ns' r \<noteq> None" using alive n(4) tree by (auto simp: tree_ok_def)
  ultimately show ?thesis by (simp add: tree_ok_def)
qed

lemma chain_unlink:
  assumes "chain ns p (xs @ a # n # ys)" "distinct (xs @ a # n # ys)" "ns a = Some ad" "ns n = Some nd"
    and ns': "ns' = ns(a \<mapsto> ad\<lparr>nd_next := nd_next nd\<rparr>, n := None)"
  shows "chain ns' p (xs @ a # ys)"
  unfolding chain_def
  by (rule linked_delete [where q = "nd_next nd" and nxt = "\<lambda>x. map_option nd_next (ns x)"])
    (use assms in \<open>auto simp: chain_def ns'\<close>)

lemma find_prev_chain:
  assumes "chain (nodes s) p (xs @ a # n # ys)" "distinct (xs @ a # n # ys)"
  shows "find_prev s n p = Some (Some a)"
  by (rule linked_search [OF assms [unfolded chain_def]]) (subst find_prev.simps, auto)

lemma unlink_node_chain:
  assumes tree: "tree_ok (nodes s) r c K" and n: "nodes s n = Some nd" "nd_parent nd = Some p" "n \<noteq> r"
    and K: "K n = []"
  obtains s1 where "unlink_node n nd s = Some s1"
    "s1\<lparr>nodes := (nodes s1)(n := None)\<rparr> = s\<lparr>nodes := (nodes s1)(n := None)\<rparr>"
    "tree_ok ((nodes s1)(n := None)) r c (K(p := remove1 n (K p)))"
    "\<And>x. x \<noteq> n \<Longrightarrow> map_option shape (nodes s1 x) = map_option shape (nodes s x)"
proof -
  have ok: "node_ok (nodes s) r c K n nd" by (rule tree_ok_node [OF tree n(1)])
  obtain pn where pn: "nodes s p = Some pn" and np: "n \<in> set (K p)" using ok n by (auto simp: node_ok_def)
  have okp: "node_ok (nodes s) r c K p pn" by (rule tree_ok_node [OF tree pn])
  have pk: "x \<in> set (K p) \<Longrightarrow> x \<noteq> p" for x using okp by (auto simp: node_ok_def child_of_def split: option.splits)
  obtain xs ys where K_p: "K p = xs @ n # ys" using np by (meson split_list)
  have ch: "chain (nodes s) (nd_children pn) (xs @ n # ys)" and dis: "distinct (xs @ n # ys)"
    using okp K_p by (simp_all add: node_ok_def)
  hence rem: "remove1 n (K p) = xs @ ys" by (simp add: K_p remove1_append)
  show thesis
  proof (cases xs rule: rev_cases)
    case Nil
    let ?ns = "(nodes s)(p \<mapsto> pn\<lparr>nd_children := nd_next nd\<rparr>)"
    have "chain (?ns(n := None)) (nd_next nd) ys = chain (nodes s) (nd_next nd) ys"
      by (rule chain_cong) (use Nil dis pk K_p in auto)
    hence "chain (?ns(n := None)) (nd_next nd) (remove1 n (K p))"
      using ch Nil rem n(1) by simp
    hence "tree_ok (?ns(n := None)) r c (K(p := remove1 n (K p)))"
      by (intro remove_tree_ok [OF tree n(1) K n(2,3)]) (use pn pk np K_p in \<open>auto simp: shape_def\<close>)
    moreover have "nd_children pn = Some n" using ch Nil by simp
    ultimately show ?thesis
      by (intro that [of "set_node p (pn\<lparr>nd_children := nd_next nd\<rparr>) s"])
        (use n pn in \<open>auto simp: unlink_node_def set_node_def shape_def\<close>)
  next
    case (snoc xs' a)
    obtain ad where ad: "nodes s a = Some ad" using chain_live [OF ch, of a] snoc by auto
    let ?ns = "(nodes s)(a \<mapsto> ad\<lparr>nd_next := nd_next nd\<rparr>)"
    have ch': "chain (nodes s) (nd_children pn) (xs' @ a # n # ys)" "distinct (xs' @ a # n # ys)"
      using ch dis snoc by simp_all
    have "chain (?ns(n := None)) (nd_children pn) (remove1 n (K p))"
      using chain_unlink [OF ch' ad n(1) refl] rem snoc by simp
    hence "tree_ok (?ns(n := None)) r c (K(p := remove1 n (K p)))"
      by (intro remove_tree_ok [OF tree n(1) K n(2,3)])
        (use pn pk np K_p snoc ad in \<open>auto simp: shape_def\<close>)
    moreover have "nd_children pn \<noteq> Some n" using ch'(1) dis snoc by (cases xs') auto
    ultimately show ?thesis
      by (intro that [of "set_node a (ad\<lparr>nd_next := nd_next nd\<rparr>) s"])
        (use n pn ad find_prev_chain [OF ch'] in \<open>auto simp: unlink_node_def set_node_def shape_def\<close>)
  qed
qed

lemma node_name_shape: "map_option shape (nodes s' x) = map_option shape (nodes s x) \<Longrightarrow> node_name s' x = node_name s x"
  by (cases "nodes s x"; cases "nodes s' x") (auto simp: node_name_def shape_def)

lemma remove_leaf:
  assumes inv: "vfs_inv s" and n: "nodes s n = Some nd" "root s \<noteq> Some n" "nd_children nd = None"
  obtains s' where "map_option (\<lambda>s. s\<lparr>nodes := (nodes s)(n := None)\<rparr>) (unlink_node n nd s) = Some s'"
    "vfs_inv s'" "\<And>m. live s' m = (live s m \<and> m \<noteq> n)"
    "\<And>d k. live s' d \<Longrightarrow> find_in s d k \<noteq> Some (Some n) \<Longrightarrow> find_in s' d k = find_in s d k"
proof -
  obtain r K where r: "root s = Some r" and tree: "tree_ok (nodes s) r (clock s) K"
    using inv by (auto simp: vfs_inv_def tree_of_def)
  have ok: "node_ok (nodes s) r (clock s) K n nd" by (rule tree_ok_node [OF tree n(1)])
  have nr: "n \<noteq> r" using n(2) r by simp
  obtain p where p: "nd_parent nd = Some p" using ok nr by (auto simp: node_ok_def split: option.splits)
  have Kn: "K n = []" using ok n(3) by (cases "K n") (auto simp: node_ok_def)
  let ?K = "K(p := remove1 n (K p))"
  obtain s1 where s1: "unlink_node n nd s = Some s1"
    "s1\<lparr>nodes := (nodes s1)(n := None)\<rparr> = s\<lparr>nodes := (nodes s1)(n := None)\<rparr>"
    "tree_ok ((nodes s1)(n := None)) r (clock s) ?K"
    "\<And>x. x \<noteq> n \<Longrightarrow> map_option shape (nodes s1 x) = map_option shape (nodes s x)"
    by (rule unlink_node_chain [OF tree n(1) p nr Kn], rule that, assumption+)
  let ?s = "s\<lparr>nodes := (nodes s1)(n := None)\<rparr>"
  have lv: "live ?s m = (live s m \<and> m \<noteq> n)" for m
    using s1(4) [of m] by (cases "nodes s1 m"; cases "nodes s m") (auto simp: live_def)
  show thesis
  proof (rule that [of ?s])
    show "map_option (\<lambda>s. s\<lparr>nodes := (nodes s)(n := None)\<rparr>) (unlink_node n nd s) = Some ?s"
      by (simp only: s1(1,2) option.map)
    show "vfs_inv ?s" using s1(3) r inv by (auto simp: vfs_inv_def tree_of_def)
    show "live ?s m = (live s m \<and> m \<noteq> n)" for m by (rule lv)
    fix d k assume d: "live ?s d" and f: "find_in s d k \<noteq> Some (Some n)"
    obtain dd dd' where dd: "nodes s d = Some dd" "nodes ?s d = Some dd'" "d \<noteq> n"
      using d lv [of d] by (auto simp: live_def simp del: select_convs)
    have nm: "node_name ?s x = node_name s x" if "x \<noteq> n" for x
      using s1(4) [OF that] that by (intro node_name_shape) simp
    have tree': "tree_ok (nodes ?s) r (clock s) ?K" using s1(3) by simp
    have sub: "x \<noteq> n" if "x \<in> set (?K d)" for x
      using tree_ok_kids_live [OF tree' dd(2) that] by auto
    have "find_in ?s d k = Some (List.find (\<lambda>x. node_name ?s x = Some k) (?K d))"
      by (rule find_in_tree [OF tree' dd(2)])
    also have "List.find (\<lambda>x. node_name ?s x = Some k) (?K d) = List.find (\<lambda>x. node_name s x = Some k) (?K d)"
      by (rule find_cong [OF refl]) (use sub nm in metis)
    also have "\<dots> = List.find (\<lambda>x. node_name s x = Some k) (K d)"
      using f find_in_tree [OF tree dd(1), of k] by (auto simp: find_remove1)
    finally show "find_in ?s d k = find_in s d k" by (simp only: find_in_tree [OF tree dd(1)])
  qed
qed

text \<open>
  C9: removing a node that has no children, other than the root: \<open>remove\<close> returns true, the
  tree is well-formed afterwards, the node and only that node is gone, no look-up finds it any more
  and every look-up that did not find it gives what it gave before.
\<close>

theorem vfs_remove_leaf:
  assumes "vfs_inv s" "vfs_find s path = Some (Some n, s)" "nodes s n = Some nd" "root s \<noteq> Some n"
    "nd_children nd = None"
  shows "\<exists>s'. vfs_remove path s = Some (True, s') \<and> vfs_inv s' \<and>
    (\<forall>m. live s' m = (live s m \<and> m \<noteq> n)) \<and>
    (\<forall>d k. live s' d \<longrightarrow> find_in s' d k \<noteq> Some (Some n)) \<and>
    (\<forall>d k. live s' d \<longrightarrow> find_in s d k \<noteq> Some (Some n) \<longrightarrow> find_in s' d k = find_in s d k)"
proof -
  obtain s' where s': "map_option (\<lambda>s. s\<lparr>nodes := (nodes s)(n := None)\<rparr>) (unlink_node n nd s) = Some s'"
    "vfs_inv s'" "\<And>m. live s' m = (live s m \<and> m \<noteq> n)"
    "\<And>d k. live s' d \<Longrightarrow> find_in s d k \<noteq> Some (Some n) \<Longrightarrow> find_in s' d k = find_in s d k"
    by (rule remove_leaf [OF assms(1,3,4,5)], rule that, assumption+)
  have "vfs_remove path s = Some (True, s')"
    using s'(1) by (auto simp: vfs_remove_def assms)
  moreover have "find_in s' d k \<noteq> Some (Some n)" if "live s' d" for d k
    using entry_live(1) [OF s'(2) that, of k n] s'(3) find_in_entry [OF s'(2) that, of k] by auto
  ultimately show ?thesis using s' by blast
qed

theorem vfs_remove_leaf_witness:
  "\<exists>s'. vfs_remove (slashed [''a'']) vfs_demo = Some (True, s') \<and> vfs_inv s' \<and> \<not> live s' 2 \<and> live s' 4"
  using vfs_remove_leaf [OF vfs_demo_inv, of "slashed [''a'']" 2]
    vfs_find_follow [OF vfs_demo_inv, of 0 "[''a'']" 2] vfs_demo_walk
  by (auto simp: walk_follow vfs_demo_field plain_name_def demo_node_def live_def)

section \<open>Contents and handles\<close>

text \<open>A change of the store that touches neither names nor links.\<close>

definition links :: "node \<Rightarrow> string option \<times> bool \<times> NodeType \<times> ptr option \<times> ptr option \<times> ptr option" where
  "links nd = (nd_name nd, nd_directory nd, nd_type nd, nd_parent nd, nd_next nd, nd_children nd)"

definition same_links :: "'w vfs \<Rightarrow> 'w vfs \<Rightarrow> bool" where
  "same_links s s' \<longleftrightarrow>
     (\<forall>x. map_option links (nodes s' x) = map_option links (nodes s x)) \<and> root s' = root s \<and>
     granted s' = granted s \<and> clock s \<le> clock s' \<and> stack_frames s' = stack_frames s \<and> mounts s' = mounts s"

lemma same_links_trans: "same_links s s1 \<Longrightarrow> same_links s1 s2 \<Longrightarrow> same_links s s2"
  by (auto simp: same_links_def)

lemma same_links_proj:
  assumes "same_links s s'"
  shows "map_option nd_next (nodes s' x) = map_option nd_next (nodes s x)"
    "map_option nd_parent (nodes s' x) = map_option nd_parent (nodes s x)"
    "map_option nd_type (nodes s' x) = map_option nd_type (nodes s x)"
    "node_name s' x = node_name s x" "live s' x = live s x"
proof -
  have eq: "map_option links (nodes s' x) = map_option links (nodes s x)" using assms by (simp add: same_links_def)
  show "map_option nd_next (nodes s' x) = map_option nd_next (nodes s x)"
    "map_option nd_parent (nodes s' x) = map_option nd_parent (nodes s x)"
    "map_option nd_type (nodes s' x) = map_option nd_type (nodes s x)"
    "node_name s' x = node_name s x" "live s' x = live s x"
    using eq by (cases "nodes s x"; cases "nodes s' x"; simp add: links_def node_name_def live_def)+
qed

lemma same_links_tree:
  assumes same: "same_links s s'" and tree: "tree_ok (nodes s) r (clock s) K"
  shows "tree_ok (nodes s') r (clock s') K"
proof -
  note proj = same_links_proj [OF same]
  have "node_ok (nodes s') r (clock s') K n nd'" if n: "nodes s' n = Some nd'" for n nd'
  proof -
    have "map_option links (nodes s' n) = map_option links (nodes s n)" using same by (simp add: same_links_def)
    then obtain nd where nd: "nodes s n = Some nd" "links nd' = links nd" using n by (cases "nodes s n") auto
    have "node_ok (nodes s') r (clock s') K n nd"
    proof (rule node_ok_mono [OF tree_ok_node [OF tree nd(1)]])
      show "clock s \<le> clock s'" using same by (simp add: same_links_def)
      fix p assume "nodes s p \<noteq> None" "n \<in> set (K p)"
      thus "nodes s' p \<noteq> None \<and> n \<in> set (K p)" using proj(5) [of p] by (simp add: live_def)
    qed (use proj in simp_all)
    thus ?thesis using nd(2) by (simp add: node_ok_def links_def)
  qed
  thus ?thesis using tree proj(5) [of r] by (simp add: tree_ok_def live_def)
qed

lemma same_links_vfs_inv:
  assumes "same_links s s'" "vfs_inv s"
  shows "vfs_inv s'" "live s d \<Longrightarrow> entry s' d k = entry s d k"
proof -
  obtain r K where r: "root s = Some r" "tree_ok (nodes s) r (clock s) K"
    using assms(2) by (auto simp: vfs_inv_def tree_of_def)
  note tree = same_links_tree [OF assms(1) r(2)]
  show "vfs_inv s'" using tree assms r by (auto simp: vfs_inv_def tree_of_def same_links_def)
  assume "live s d"
  then obtain dd dd' where d: "nodes s d = Some dd" "nodes s' d = Some dd'"
    using same_links_proj(5) [OF assms(1), of d] by (auto simp: live_def)
  show "entry s' d k = entry s d k"
    by (simp add: entry_def find_in_tree [OF r(2) d(1)] find_in_tree [OF tree d(2)]
        same_links_proj(4) [OF assms(1)])
qed

lemma same_links_walk:
  assumes "same_links s s'" "vfs_inv s" "live s d"
  shows "walk s' d cs = walk s d cs" "no_links s' d cs = no_links s d cs"
proof -
  have "walk s' d cs = walk s d cs \<and> no_links s' d cs = no_links s d cs" using assms(3)
  proof (induction cs arbitrary: d)
    case (Cons c cs)
    show ?case
      using Cons.IH entry_live(1) [OF assms(2) Cons.prems] same_links_vfs_inv(2) [OF assms(1,2) Cons.prems]
        same_links_proj(3) [OF assms(1)]
      by (auto simp: is_link_def split: option.splits)
  qed simp
  thus "walk s' d cs = walk s d cs" "no_links s' d cs = no_links s d cs" by simp_all
qed

lemma same_links_set_file:
  assumes "nodes s n = Some nd" "clock s \<le> k"
  shows "same_links s (s\<lparr>nodes := (nodes s)(n \<mapsto> nd\<lparr>nd_file := f\<rparr>), clock := k\<rparr>)"
  using assms by (auto simp: same_links_def links_def)

text \<open>A file node whose buffer holds \<open>data\<close>.\<close>

definition holds :: "'w vfs \<Rightarrow> ptr \<Rightarrow> u8 list \<Rightarrow> bool" where
  "holds s n data =
     (case nodes s n of
        None \<Rightarrow> False
      | Some nd \<Rightarrow> \<not> nd_directory nd \<and>
          nd_file nd = Some \<lparr>f_size = of_nat (length data), private_data = Some (data @ [0])\<rparr>)"

lemma ensure_file_storage_ok:
  assumes "\<forall>k. granted s k" "nodes s n = Some nd" "\<not> nd_directory nd"
  obtains s1 f where "ensure_file_storage n s = Some (True, s1)" "same_links s s1"
    "nodes s1 n = Some (nd\<lparr>nd_file := Some f\<rparr>)" "nd_file nd = Some f \<or> nd_file nd = None"
    "nd_file nd \<noteq> None \<Longrightarrow> s1 = s"
proof (cases "nd_file nd")
  case None
  show ?thesis
    by (rule that [of "s\<lparr>nodes := (nodes s)(n \<mapsto> nd\<lparr>nd_file := Some \<lparr>f_size = 0, private_data = None\<rparr>\<rparr>),
        clock := Suc (clock s)\<rparr>"])
      (use None assms same_links_set_file [OF assms(2), of "Suc (clock s)"] in
        \<open>auto simp: ensure_file_storage_def kmalloc_node_def set_node_def\<close>)
next
  case (Some f)
  hence "nd\<lparr>nd_file := Some f\<rparr> = nd" by simp
  thus ?thesis
    by (intro that [of s f]) (use Some assms in \<open>auto simp: ensure_file_storage_def same_links_def\<close>)
qed

lemma store_content_ok:
  assumes "\<forall>k. granted s k" "nodes s n = Some nd" "nd_file nd = Some f" "\<not> nd_directory nd"
  obtains s1 where "store_content n (Some data) s = Some (True, s1)" "same_links s s1" "holds s1 n data"
  by (cases f, rule that [of "s\<lparr>nodes := (nodes s)(n \<mapsto> nd\<lparr>nd_file :=
        Some \<lparr>f_size = of_nat (length data), private_data = Some (data @ [0])\<rparr>\<rparr>), clock := Suc (clock s)\<rparr>"])
    (use assms same_links_set_file [OF assms(2), of "Suc (clock s)"] in
      \<open>auto simp: store_content_def kmalloc_node_def set_node_def holds_def\<close>)

lemma write_content_ok:
  assumes inv: "vfs_inv s" and f: "vfs_find s path = Some (Some n, s)"
    and n: "nodes s n = Some nd" "\<not> nd_directory nd"
  obtains s' where "write_content path data s = Some (True, s')" "same_links s s'" "holds s' n data"
proof -
  have g: "\<forall>k. granted s k" using inv by (simp add: vfs_inv_def)
  obtain s1 f where s1: "ensure_file_storage n s = Some (True, s1)" "same_links s s1"
    "nodes s1 n = Some (nd\<lparr>nd_file := Some f\<rparr>)"
    by (rule ensure_file_storage_ok [OF g n], rule that, assumption+)
  have g1: "\<forall>k. granted s1 k" using s1(2) g by (simp add: same_links_def)
  obtain s2 where s2: "store_content n (Some data) s1 = Some (True, s2)" "same_links s1 s2" "holds s2 n data"
    by (rule store_content_ok [OF g1 s1(3), of f data], simp, simp add: n, rule that, assumption+)
  show thesis
    by (rule that [of s2]) (use f n s1 s2 same_links_trans [OF s1(2) s2(2)] in \<open>simp_all add: write_content_def\<close>)
qed

lemma append_content_ok:
  assumes inv: "vfs_inv s" and f: "vfs_find s path = Some (Some n, s)"
    and n: "holds s n data" "length data < 2 ^ 64"
  obtains s' where "append_content path extra s = Some (True, s')" "same_links s s'" "holds s' n (data @ extra)"
proof -
  obtain nd where nd: "nodes s n = Some nd" "\<not> nd_directory nd"
    "nd_file nd = Some \<lparr>f_size = of_nat (length data), private_data = Some (data @ [0])\<rparr>"
    using n(1) by (auto simp: holds_def split: option.splits)
  have g: "\<forall>k. granted s k" using inv by (simp add: vfs_inv_def)
  have e: "ensure_file_storage n s = Some (True, s)" using nd by (simp add: ensure_file_storage_def)
  have len: "unat (of_nat (length data) :: u64) = length data"
    using n(2) by (simp add: unat_of_nat)
  obtain s1 where s1: "store_content n (Some (data @ extra)) s = Some (True, s1)" "same_links s s1"
    "holds s1 n (data @ extra)"
    by (rule store_content_ok [OF g nd(1,3,2)], rule that, assumption+)
  show thesis
    by (rule that [of s1]) (use f nd e s1 len in \<open>simp_all add: append_content_def buffer_bytes_def\<close>)
qed

lemma c_int_small:
  assumes "unat x < 2 ^ 31"
  shows "c_int x = int (unat x)"
proof -
  have "int (unat x) < int (2 ^ 31)" using assms by (simp only: of_nat_less_iff)
  hence "uint x < 2 ^ 31" by (simp only: uint_nat [symmetric] of_nat_power of_nat_numeral)
  moreover have "- (2 ^ 31) \<le> uint x" by (rule order_trans [of _ 0]) simp_all
  ultimately have "signed_take_bit 31 (uint x) = uint x" by (rule signed_take_bit_int_eq_self [rotated])
  moreover have "c_int x = signed_take_bit 31 (uint x)"
    unfolding c_int_def by (simp add: signed_ucast_eq)
  ultimately show ?thesis by (simp only: uint_nat)
qed

lemma handle_read_holds:
  assumes "holds s n data" "length data < 2 ^ 31" "map_option nd_type (nodes s n) \<noteq> Some VFS_DEV"
  shows "handle_read_node n sz s = Some (int (min (unat sz) (length data)), take (unat sz) data, s)"
proof -
  obtain nd where nd: "nodes s n = Some nd" "\<not> nd_directory nd" "nd_type nd \<noteq> VFS_DEV"
    "nd_file nd = Some \<lparr>f_size = of_nat (length data), private_data = Some (data @ [0])\<rparr>"
    using assms(1,3) by (auto simp: holds_def split: option.splits)
  have len: "unat (of_nat (length data) :: u64) = length data" using assms(2) by (simp add: unat_of_nat)
  define k where "k = (if of_nat (length data) < sz then of_nat (length data) else sz)"
  have k: "unat k = min (unat sz) (length data)" by (auto simp: k_def word_less_nat_alt len)
  have "c_int k = int (min (unat sz) (length data))"
    using assms(2) by (subst c_int_small) (simp_all add: k)
  moreover have "take (min (unat sz) (length data)) (data @ [0]) = take (unat sz) data" by (simp add: min_def)
  moreover have "handle_read_node n sz s =
    Option.bind (buffer_bytes \<lparr>f_size = of_nat (length data), private_data = Some (data @ [0])\<rparr> (unat k))
      (\<lambda>bytes. Some (c_int k, bytes, s))"
    using nd by (simp add: handle_read_node_def k_def Let_def)
  ultimately show ?thesis by (simp add: buffer_bytes_def k)
qed

lemma vfs_find_walk:
  assumes "vfs_inv s" "root s = Some r" "0 < stack_frames s" "list_all plain_name cs" "cs \<noteq> []"
    "walk s r cs = Some n" "no_links s r cs"
  shows "vfs_find s (slashed cs) = Some (Some n, s)"
  using vfs_find_follow [OF assms(1-5) _ assms(7)] assms(6) by (simp add: walk_follow)

text \<open>
  The file at a path of plain names, under no mount point: \<open>open\<close> and then \<open>read\<close> give the bytes
  that its buffer holds.
\<close>

lemma open_read_holds:
  assumes inv: "vfs_inv s" "root s = Some r" "0 < stack_frames s"
    and path: "list_all plain_name cs" "cs \<noteq> []" "length (slashed cs) \<le> 255"
    and n: "walk s r cs = Some n" "no_links s r cs" "find_mount s (slashed cs) = Some None"
    and data: "holds s n data" "length data < 2 ^ 31" "map_option nd_type (nodes s n) \<noteq> Some VFS_DEV"
  obtains h s' where "vfs_open (slashed cs) s = Some (Some h, s')"
    "\<And>sz. vfs_read (Some h) sz s' = Some (int (min (unat sz) (length data)), take (unat sz) data, s')"
proof -
  let ?s = "s\<lparr>clock := Suc (clock s)\<rparr>"
  obtain nd where nd: "nodes s n = Some nd" using data(1) by (auto simp: holds_def split: option.splits)
  have f: "vfs_find s (slashed cs) = Some (Some n, s)" by (rule vfs_find_walk [OF inv path(1,2) n(1,2)])
  let ?h = "\<lparr>h_node = Some n, h_mount = None, h_fs_handle = 0, h_directory = nd_directory nd\<rparr>"
  have "granted s (clock s)" using inv(1) by (simp add: vfs_inv_def)
  hence o: "vfs_open (slashed cs) s = Some (Some ?h, ?s)"
    using path(2,3) n(3) f nd
    by (simp add: vfs_open_def open_path_def slashed_Cons open_node_def kmalloc_node_def)
  have r: "vfs_read (Some ?h) sz ?s = Some (int (min (unat sz) (length data)), take (unat sz) data, ?s)" for sz
    using handle_read_holds [of ?s n data sz] data by (simp add: vfs_read_def handle_op_def holds_def)
  show thesis by (rule that [OF o r])
qed



section \<open>Mount points\<close>

definition mount_path :: "ptr \<times> mount \<Rightarrow> string" where
  "mount_path am = (case m_path (snd am) of Some p \<Rightarrow> p | None \<Rightarrow> [])"

lemma find_mount_loop_best:
  assumes "\<And>am. am \<in> set ms \<Longrightarrow> m_path (snd am) \<noteq> None"
    and "find_mount_loop path best bl ms = Some r" "\<And>b. best = Some b \<Longrightarrow> bl = length (mount_path b)"
  shows "(r = best \<and> (\<forall>am \<in> set ms. covers (mount_path am) path \<longrightarrow> length (mount_path am) \<le> bl)) \<or>
    (\<exists>b \<in> set ms. r = Some b \<and> covers (mount_path b) path \<and> bl < length (mount_path b) \<and>
       (\<forall>am \<in> set ms. covers (mount_path am) path \<longrightarrow> length (mount_path am) \<le> length (mount_path b)))"
  using assms
proof (induction ms arbitrary: best bl)
  case (Cons am ms)
  obtain a m where am: "am = (a, m)" by fastforce
  obtain mp where mp: "m_path m = Some mp" using Cons.prems(1) [of am] am by auto
  hence pm: "mount_path am = mp" by (simp add: mount_path_def am)
  show ?case
  proof (cases "covers mp path \<and> bl < length mp")
    case True
    have step: "find_mount_loop path (Some (a, m)) (length mp) ms = Some r" using Cons.prems(2) am mp True by simp
    have IH: "(r = Some am \<and> (\<forall>am \<in> set ms. covers (mount_path am) path \<longrightarrow> length (mount_path am) \<le> length mp)) \<or>
      (\<exists>b \<in> set ms. r = Some b \<and> covers (mount_path b) path \<and> length mp < length (mount_path b) \<and>
         (\<forall>am \<in> set ms. covers (mount_path am) path \<longrightarrow> length (mount_path am) \<le> length (mount_path b)))"
      using Cons.IH [OF _ step] Cons.prems(1) pm am by simp
    show ?thesis
    proof (rule disjI2, use IH in \<open>elim disjE bexE\<close>)
      assume "r = Some am \<and> (\<forall>am \<in> set ms. covers (mount_path am) path \<longrightarrow> length (mount_path am) \<le> length mp)"
      thus "\<exists>b \<in> set (am # ms). r = Some b \<and> covers (mount_path b) path \<and> bl < length (mount_path b) \<and>
        (\<forall>am \<in> set (am # ms). covers (mount_path am) path \<longrightarrow> length (mount_path am) \<le> length (mount_path b))"
        using True pm by (intro bexI [of _ am]) simp_all
    next
      fix b assume b: "b \<in> set ms" "r = Some b \<and> covers (mount_path b) path \<and> length mp < length (mount_path b) \<and>
         (\<forall>am \<in> set ms. covers (mount_path am) path \<longrightarrow> length (mount_path am) \<le> length (mount_path b))"
      thus "\<exists>b \<in> set (am # ms). r = Some b \<and> covers (mount_path b) path \<and> bl < length (mount_path b) \<and>
        (\<forall>am \<in> set (am # ms). covers (mount_path am) path \<longrightarrow> length (mount_path am) \<le> length (mount_path b))"
        using True pm by (intro bexI [of _ b]) simp_all
    qed
  next
    case False
    have "find_mount_loop path best bl ms = Some r" using Cons.prems(2) am mp False by simp
    moreover have "covers (mount_path am) path \<Longrightarrow> length (mount_path am) \<le> bl" using False pm by simp
    moreover have "am' \<in> set ms \<Longrightarrow> m_path (snd am') \<noteq> None" for am' using Cons.prems(1) by simp
    ultimately have "(r = best \<and> (\<forall>am \<in> set ms. covers (mount_path am) path \<longrightarrow> length (mount_path am) \<le> bl)) \<or>
      (\<exists>b \<in> set ms. r = Some b \<and> covers (mount_path b) path \<and> bl < length (mount_path b) \<and>
         (\<forall>am \<in> set ms. covers (mount_path am) path \<longrightarrow> length (mount_path am) \<le> length (mount_path b)))"
      using Cons.IH [OF _ _ Cons.prems(3)] by blast
    thus ?thesis using False pm by force
  qed
qed simp

lemma find_mount_loop_total:
  "(\<And>am. am \<in> set ms \<Longrightarrow> m_path (snd am) \<noteq> None) \<Longrightarrow> \<exists>r. find_mount_loop path best bl ms = Some r"
proof (induction ms arbitrary: best bl)
  case (Cons am ms)
  obtain a m mp where "am = (a, m)" "m_path m = Some mp" using Cons.prems [of am] by (cases am) auto
  thus ?case using Cons.IH Cons.prems by simp
qed simp

text \<open>
  \<open>find_mount\<close> returns a mount point of greatest length among those that are the path or a
  prefix of it that ends at a slash; when it returns none, no mount point other than the empty one
  is such a prefix.
\<close>

theorem find_mount_longest:
  assumes "\<forall>(a, m) \<in> set (mounts s). m_path m \<noteq> None"
  shows "\<exists>r. find_mount s path = Some r \<and>
    (case r of
       None \<Rightarrow> \<forall>(a, m) \<in> set (mounts s). \<forall>mp. m_path m = Some mp \<longrightarrow> covers mp path \<longrightarrow> mp = []
     | Some (a, m) \<Rightarrow> (a, m) \<in> set (mounts s) \<and>
         (\<exists>mp. m_path m = Some mp \<and> covers mp path \<and>
            (\<forall>(b, m') \<in> set (mounts s). \<forall>mp'. m_path m' = Some mp' \<longrightarrow> covers mp' path \<longrightarrow>
               length mp' \<le> length mp)))"
proof -
  have paths: "am \<in> set (mounts s) \<Longrightarrow> m_path (snd am) \<noteq> None" for am using assms by auto
  obtain r where r: "find_mount s path = Some r"
    using find_mount_loop_total [OF paths, of "mounts s" path None 0] by (auto simp: find_mount_def)
  have "(r = None \<and> (\<forall>am \<in> set (mounts s). covers (mount_path am) path \<longrightarrow> mount_path am = [])) \<or>
    (\<exists>b \<in> set (mounts s). r = Some b \<and> covers (mount_path b) path \<and>
       (\<forall>am \<in> set (mounts s). covers (mount_path am) path \<longrightarrow> length (mount_path am) \<le> length (mount_path b)))"
    using find_mount_loop_best [OF paths, of "mounts s" path None 0 r] r by (auto simp: find_mount_def)
  thus ?thesis
  proof (elim disjE bexE conjE)
    assume "r = None" and none: "\<forall>am \<in> set (mounts s). covers (mount_path am) path \<longrightarrow> mount_path am = []"
    thus ?thesis using r by (fastforce simp: mount_path_def)
  next
    fix b assume b: "b \<in> set (mounts s)" "r = Some b" "covers (mount_path b) path"
      and max: "\<forall>am \<in> set (mounts s). covers (mount_path am) path \<longrightarrow> length (mount_path am) \<le> length (mount_path b)"
    obtain a m mp where m: "b = (a, m)" "m_path m = Some mp" using paths [OF b(1)] by (cases b) auto
    hence "mount_path b = mp" by (simp add: mount_path_def)
    moreover have "length mp' \<le> length mp" if "(c, m') \<in> set (mounts s)" "m_path m' = Some mp'" "covers mp' path"
      for c m' mp' using max that calculation by (force simp: mount_path_def)
    ultimately show ?thesis using r b m by fastforce
  qed
qed

theorem find_mount_longest_witness:
  "\<exists>r. find_mount vfs_demo ''/mnt/x'' = Some r \<and> r \<noteq> None"
proof -
  have "\<forall>(a, m) \<in> set (mounts vfs_demo). m_path m \<noteq> None" by (simp add: vfs_demo_field)
  from find_mount_longest [OF this, of "''/mnt/x''"] show ?thesis
    by (auto simp: vfs_demo_field covers_def split: option.splits)
qed

text \<open>A file system mounted at the root directory covers no path but the root itself.\<close>

lemma root_mount_covers: "covers ''/'' (CHR ''/'' # c # cs) \<longleftrightarrow> c = CHR ''/''"
  by (auto simp: covers_def)

section \<open>Symbolic links\<close>

lemma component_link:
  assumes "plain_name c" "find_in s d c = Some (Some x)" "nodes s x = Some nd" "nd_type nd = VFS_SYMLINK"
    "symlink_target s nd = Some target" "F s target = None"
  shows "component F s d c past = None"
proof -
  have "resolve F 8 s x = None"
    using assms(3-6) by (subst resolve.simps) (simp add: numeral_eq_Suc)
  thus ?thesis using assms(1,2) by (simp add: component_def plain_name_def)
qed

text \<open>
  a symbolic link in the root directory that points to itself: \<open>find\<close> of its path exhausts the
  stack, however large it is, so that the kernel faults. The limit of eight links is not reached,
  because each link is followed by a nested call of \<open>find\<close> with a counter of its own.
\<close>

theorem symlink_self_loop:
  assumes "vfs_inv s" "root s = Some r" "plain_name c"
    and "find_in s r c = Some (Some n)" "nodes s n = Some nd" "nd_type nd = VFS_SYMLINK"
    and "nd_symlink nd = Some (CHR ''/'' # c)"
  shows "vfs_find s (CHR ''/'' # c) = None"
proof -
  have "length c < 255" using assms(3) by (simp add: plain_name_def)
  hence t: "symlink_target s nd = Some (CHR ''/'' # c)" using assms(7) by (simp add: symlink_target_def)
  have "find_depth k s (CHR ''/'' # c) = None" for k
  proof (induction k)
    case (Suc k)
    have "find_loop (find_depth k) path s r [] c = None" for path
      using find_loop_part [of c "[]" "find_depth k" path s r "[]"] assms(3)
        component_link [of c s r n nd _ "find_depth k", OF assms(3-6) t Suc.IH] by (simp add: plain_name_def)
    thus ?case using assms(2) by (simp add: find_body_def)
  qed simp
  thus ?thesis by (simp add: vfs_find_def)
qed

theorem symlink_self_loop_witness: "vfs_find vfs_demo ''/l'' = None"
  by (rule symlink_self_loop [OF vfs_demo_inv vfs_demo_field(1) _ vfs_demo_find_in(1) vfs_demo_field(4)])
    (simp_all add: plain_name_def demo_node_def)

section \<open>Registry\<close>

lemma register_filesystem_bounded:
  assumes "distinct (filesystems s)" "length (filesystems s) \<le> 16"
  shows "distinct (filesystems (register_filesystem f s))" "length (filesystems (register_filesystem f s)) \<le> 16"
  using assms by (auto simp: register_filesystem_def split: option.split)

end
