(* ===== verification/Sched.thy ===== *)
theory Sched
  imports Address_Space Vfs_Ops Linked_List
begin

text \<open>
  Tasks and the run queue, \<open>src/kernel/sched/scheduler.cpp\<close>. Tasks, processes and saved register
  frames are objects named by their addresses, kept in typed stores beside the machine of \<open>Paging\<close>,
  from whose heap their addresses come; an address without an object has been freed or never was
  one. \<open>None\<close> as a result is a fault: such an address is used, or a callee faults. The run queue
  is the list from \<open>head\<close> along \<open>t_next\<close>.
\<close>

section \<open>Data\<close>

datatype State = READY | RUNNING | BLOCKED | DEAD

record registers =
  r15 :: u64
  r14 :: u64
  r13 :: u64
  r12 :: u64
  r11 :: u64
  r10 :: u64
  r9 :: u64
  r8 :: u64
  rbp :: u64
  rdi :: u64
  rsi :: u64
  rdx :: u64
  rcx :: u64
  rbx :: u64
  rax :: u64
  vector :: u64
  error_code :: u64
  rip :: u64
  reg_cs :: u64
  rflags :: u64
  rsp :: u64
  reg_ss :: u64

record task =
  t_pid :: u64
  t_regs :: "u64 option"
  t_stack :: "u64 option"
  t_process :: "u64 option"
  t_state :: State
  t_parent :: "u64 option"
  t_exit_code :: int
  t_next :: "u64 option"

datatype FDType = FD_NONE | FD_FILE | FD_PIPE | FD_TTY

record pipe =
  buffer :: "u8 list"
  read_pos :: nat
  write_pos :: nat
  readers :: int
  writers :: int

record fd_entry =
  fd_type :: FDType
  fd_node :: "ptr option"
  fd_pipe :: "nat option"
  fd_mount :: "ptr option"
  fd_handle :: "ptr option"
  offset :: u64
  readable :: bool
  writable :: bool
  nonblock :: bool
  fd_flags :: int

record process =
  p_pid :: u64
  p_name :: string
  main_thread :: "u64 option"
  p_space :: "u64 option"
  mmap_next :: u64
  cwd :: "ptr option"
  p_parent :: "u64 option"
  fds :: "fd_entry list"

text \<open>
  The state of the kernel. \<open>kernel_stack\<close> is the stack pointer in the task state segment
  (\<open>gdt::set_kernel_stack\<close>). The fields \<open>exit_code\<close> and \<open>state\<close> of a process are never used.
\<close>

record 'w kernel =
  tasks :: "u64 \<Rightarrow> task option"
  procs :: "u64 \<Rightarrow> process option"
  reg_frames :: "u64 \<Rightarrow> registers option"
  head :: "u64 option"
  tail :: "u64 option"
  current_task :: "u64 option"
  pid_counter :: u64
  pipes :: "pipe list"
  pipe_used :: "bool list"
  kernel_stack :: u64
  mach :: machine
  fsys :: "'w vfs"

definition set_task :: "u64 \<Rightarrow> task \<Rightarrow> 'w kernel \<Rightarrow> 'w kernel" where
  "set_task t td k = k\<lparr>tasks := (tasks k)(t \<mapsto> td)\<rparr>"

text \<open>The process that runs, and the file system as it sees it: with its working directory.\<close>

definition current_process :: "'w kernel \<Rightarrow> u64 option option" where
  "current_process k =
     (case current_task k of None \<Rightarrow> Some None | Some c \<Rightarrow> map_option t_process (tasks k c))"

definition current_cwd :: "'w kernel \<Rightarrow> ptr option" where
  "current_cwd k =
     (case current_process k of Some (Some p) \<Rightarrow> Option.bind (procs k p) cwd | _ \<Rightarrow> None)"

definition fs_view :: "'w kernel \<Rightarrow> 'w vfs" where
  "fs_view k = (fsys k)\<lparr>process_cwd := current_cwd k\<rparr>"

section \<open>The run queue\<close>

definition sched_add :: "u64 option \<Rightarrow> 'w kernel \<Rightarrow> 'w kernel option" where
  "sched_add task k =
     (case task of
        None \<Rightarrow> Some k
      | Some t \<Rightarrow> do {
          td \<leftarrow> tasks k t;
          let k1 = set_task t (td\<lparr>t_next := None\<rparr>) k;
          case head k1 of
            None \<Rightarrow> Some (k1\<lparr>head := Some t, tail := Some t\<rparr>)
          | Some _ \<Rightarrow> do {
              l \<leftarrow> tail k1;
              ld \<leftarrow> tasks k1 l;
              Some ((set_task l (ld\<lparr>t_next := Some t\<rparr>) k1)\<lparr>tail := Some t\<rparr>)
            }
        })"

definition kfree_k :: "u64 \<Rightarrow> 'w kernel \<Rightarrow> 'w kernel option" where
  "kfree_k a k = map_option (\<lambda>m. k\<lparr>mach := m\<rparr>) (kfree_m a (mach k))"

definition destroy_task :: "u64 option \<Rightarrow> 'w kernel \<Rightarrow> 'w kernel option" where
  "destroy_task task k =
     (case task of
        None \<Rightarrow> Some k
      | Some t \<Rightarrow> do {
          td \<leftarrow> tasks k t;
          k1 \<leftarrow> (case t_stack td of None \<Rightarrow> Some k | Some st \<Rightarrow> kfree_k st k);
          k2 \<leftarrow> kfree_k t k1;
          Some (k2\<lparr>tasks := (tasks k2)(t := None)\<rparr>)
        })"

partial_function (option) queue_prev :: "'w kernel \<Rightarrow> u64 \<Rightarrow> u64 option \<Rightarrow> u64 option option" where
  "queue_prev k t p =
     (case p of
        None \<Rightarrow> Some None
      | Some q \<Rightarrow> do {
          qd \<leftarrow> tasks k q;
          if t_next qd = Some t then Some (Some q) else queue_prev k t (t_next qd)
        })"

definition unlink_task :: "u64 \<Rightarrow> task \<Rightarrow> 'w kernel \<Rightarrow> 'w kernel option" where
  "unlink_task t td k =
     (if head k = Some t then
        Some (k\<lparr>head := t_next td, tail := (if tail k = Some t then t_next td else tail k)\<rparr>)
      else do {
        prev \<leftarrow> queue_prev k t (head k);
        case prev of
          None \<Rightarrow> Some k
        | Some q \<Rightarrow> do {
            qd \<leftarrow> tasks k q;
            Some ((set_task q (qd\<lparr>t_next := t_next td\<rparr>) k)
              \<lparr>tail := (if tail k = Some t then Some q else tail k)\<rparr>)
          }
      })"

definition destroy_process :: "u64 option \<Rightarrow> 'w kernel \<Rightarrow> 'w kernel option" where
  "destroy_process proc k =
     (case proc of
        None \<Rightarrow> Some k
      | Some p \<Rightarrow> do {
          pd \<leftarrow> procs k p;
          k1 \<leftarrow> (case p_space pd of
                  None \<Rightarrow> Some k
                | Some sp \<Rightarrow> map_option (\<lambda>m. k\<lparr>mach := m\<rparr>) (AddressSpace_destroy sp (mach k)));
          k2 \<leftarrow> kfree_k p k1;
          Some (k2\<lparr>procs := (procs k2)(p := None)\<rparr>)
        })"

definition remove_and_destroy :: "u64 option \<Rightarrow> 'w kernel \<Rightarrow> 'w kernel option" where
  "remove_and_destroy task k =
     (case task of
        None \<Rightarrow> Some k
      | Some t \<Rightarrow>
          if current_task k = Some t then Some k
          else do {
            td \<leftarrow> tasks k t;
            k1 \<leftarrow> unlink_task t td k;
            td1 \<leftarrow> tasks k1 t;
            k2 \<leftarrow> destroy_process (t_process td1) k1;
            destroy_task (Some t) k2
          })"

partial_function (option) reap_from :: "u64 option \<Rightarrow> 'w kernel \<Rightarrow> 'w kernel option" where
  "reap_from p k =
     (case p of
        None \<Rightarrow> Some k
      | Some t \<Rightarrow> do {
          td \<leftarrow> tasks k t;
          k1 \<leftarrow> (if t_state td = DEAD \<and> current_task k \<noteq> Some t then remove_and_destroy (Some t) k
                 else Some k);
          reap_from (t_next td) k1
        })"

definition reap :: "'w kernel \<Rightarrow> 'w kernel option" where
  "reap k = reap_from (head k) k"

definition queue_next :: "'w kernel \<Rightarrow> u64 \<Rightarrow> u64 option" where
  "queue_next k t = do { td \<leftarrow> tasks k t; case t_next td of Some n \<Rightarrow> Some n | None \<Rightarrow> head k }"

text \<open>The loop that looks for a ready task, from \<open>n\<close> until it is back at \<open>start\<close>.\<close>

partial_function (option) pick_ready :: "'w kernel \<Rightarrow> u64 \<Rightarrow> u64 \<Rightarrow> u64 option" where
  "pick_ready k start n = do {
     td \<leftarrow> tasks k n;
     if t_state td = READY then Some n
     else do {
       n' \<leftarrow> queue_next k n;
       if n' = start then Some n' else pick_ready k start n'
     }
   }"

partial_function (option) pick_live :: "'w kernel \<Rightarrow> u64 \<Rightarrow> u64 option option" where
  "pick_live k t = do {
     td \<leftarrow> tasks k t;
     if t_state td \<noteq> DEAD then Some (Some t)
     else do {
       t' \<leftarrow> queue_next k t;
       if Some t' = head k then Some None else pick_live k t'
     }
   }"

definition parked :: "State \<Rightarrow> State" where
  "parked st = (if st = RUNNING then READY else st)"

definition park_current :: "u64 option \<Rightarrow> 'w kernel \<Rightarrow> 'w kernel option" where
  "park_current old k =
     (case current_task k of
        None \<Rightarrow> Some k
      | Some c \<Rightarrow> do {
          cd \<leftarrow> tasks k c;
          Some (set_task c (cd\<lparr>t_regs := old, t_state := parked (t_state cd)\<rparr>) k)
        })"

definition set_running :: "u64 \<Rightarrow> 'w kernel \<Rightarrow> 'w kernel option" where
  "set_running t k = do {
     td \<leftarrow> tasks k t;
     Some ((set_task t (td\<lparr>t_state := RUNNING\<rparr>) k)\<lparr>current_task := Some t\<rparr>)
   }"

definition switch_to :: "u64 \<Rightarrow> 'w kernel \<Rightarrow> (u64 option \<times> 'w kernel) option" where
  "switch_to t k = do {
     k1 \<leftarrow> set_running t k;
     td \<leftarrow> tasks k1 t;
     let k2 = (case t_stack td of None \<Rightarrow> k1 | Some st \<Rightarrow> k1\<lparr>kernel_stack := st + 8192\<rparr>);
     k3 \<leftarrow> (case t_process td of
             None \<Rightarrow> Some k2
           | Some p \<Rightarrow> do {
               pd \<leftarrow> procs k2 p;
               Some (case p_space pd of
                       None \<Rightarrow> k2
                     | Some sp \<Rightarrow> k2\<lparr>mach := AddressSpace_activate sp (mach k2)\<rparr>)
             });
     Some (t_regs td, k3)
   }"

definition schedule :: "u64 option \<Rightarrow> 'w kernel \<Rightarrow> (u64 option \<times> 'w kernel) option" where
  "schedule old k = do {
     k1 \<leftarrow> reap k;
     k2 \<leftarrow> park_current old k1;
     case head k2 of
       None \<Rightarrow> Some (old, k2)
     | Some h \<Rightarrow> do {
         start \<leftarrow> (case current_task k2 of None \<Rightarrow> Some h | Some c \<Rightarrow> queue_next k2 c);
         n \<leftarrow> pick_ready k2 start start;
         nd \<leftarrow> tasks k2 n;
         if t_state nd \<noteq> READY then do {
           r \<leftarrow> pick_live k2 h;
           case r of
             None \<Rightarrow> Some (old, k2)
           | Some t \<Rightarrow> do { k3 \<leftarrow> set_running t k2; td \<leftarrow> tasks k3 t; Some (t_regs td, k3) }
         }
         else switch_to n k2
       }
   }"

definition set_current_regs :: "u64 option \<Rightarrow> 'w kernel \<Rightarrow> 'w kernel option" where
  "set_current_regs r k =
     (case current_task k of
        None \<Rightarrow> Some k
      | Some c \<Rightarrow> do { cd \<leftarrow> tasks k c; Some (set_task c (cd\<lparr>t_regs := r\<rparr>) k) })"

partial_function (option) find_pid_from :: "'w kernel \<Rightarrow> u64 \<Rightarrow> u64 option \<Rightarrow> u64 option option" where
  "find_pid_from k pid p =
     (case p of
        None \<Rightarrow> Some None
      | Some t \<Rightarrow> do {
          td \<leftarrow> tasks k t;
          if t_pid td = pid then Some (Some t) else find_pid_from k pid (t_next td)
        })"

definition sched_find :: "'w kernel \<Rightarrow> u64 \<Rightarrow> u64 option option" where
  "sched_find k pid = find_pid_from k pid (head k)"

text \<open>
  \<open>exit\<close> up to the point where \<open>exec_enter\<close> loads the registers at the address that is returned.
\<close>

definition wake_parent :: "u64 option \<Rightarrow> 'w kernel \<Rightarrow> 'w kernel option" where
  "wake_parent parent k =
     (case parent of
        None \<Rightarrow> Some k
      | Some q \<Rightarrow> do {
          qd \<leftarrow> tasks k q;
          Some (if t_state qd = BLOCKED then set_task q (qd\<lparr>t_state := READY\<rparr>) k else k)
        })"

definition sched_exit :: "int \<Rightarrow> 'w kernel \<Rightarrow> (u64 option \<times> 'w kernel) option" where
  "sched_exit code k =
     (case current_task k of
        None \<Rightarrow> Some (None, k)
      | Some c \<Rightarrow> do {
          cd \<leftarrow> tasks k c;
          k1 \<leftarrow> wake_parent (t_parent cd) (set_task c (cd\<lparr>t_exit_code := code, t_state := DEAD\<rparr>) k);
          cd1 \<leftarrow> tasks k1 c;
          schedule (t_regs cd1) k1
        })"

text \<open>The task of the kernel itself is a static object, not a block of the heap.\<close>

definition KERNEL_TASK :: u64 where "KERNEL_TASK = 1"
definition KERNEL_PROCESS :: u64 where "KERNEL_PROCESS = 2"

definition empty_fd :: fd_entry where
  "empty_fd = \<lparr>fd_type = FD_NONE, fd_node = None, fd_pipe = None, fd_mount = None, fd_handle = None,
     offset = 0, readable = False, writable = False, nonblock = False, fd_flags = 0\<rparr>"

definition empty_process :: process where
  "empty_process = \<lparr>p_pid = 0, p_name = [], main_thread = None, p_space = None, mmap_next = 0,
     cwd = None, p_parent = None, fds = replicate 32 empty_fd\<rparr>"

definition empty_task :: task where
  "empty_task = \<lparr>t_pid = 0, t_regs = None, t_stack = None, t_process = None, t_state = READY,
     t_parent = None, t_exit_code = 0, t_next = None\<rparr>"

text \<open>\<open>kernel_space\<close> is the address of the object that \<open>AddressSpace::kernel\<close> returns.\<close>

definition sched_init :: "u64 option \<Rightarrow> 'w kernel \<Rightarrow> 'w kernel option" where
  "sched_init kernel_space k = do {
     (r, f) \<leftarrow> vfs_find (fs_view k) ''/'';
     let kp = empty_process\<lparr>p_space := kernel_space, cwd := r\<rparr>;
     let kt = empty_task\<lparr>t_process := Some KERNEL_PROCESS, t_state := RUNNING\<rparr>;
     Some (k\<lparr>head := None, fsys := f, procs := (procs k)(KERNEL_PROCESS \<mapsto> kp),
            tasks := (tasks k)(KERNEL_TASK \<mapsto> kt), current_task := Some KERNEL_TASK\<rparr>)
   }"

section \<open>The queue as a list\<close>

abbreviation next_of :: "(u64 \<Rightarrow> task option) \<Rightarrow> u64 \<Rightarrow> u64 option option" where
  "next_of ts \<equiv> \<lambda>t. map_option t_next (ts t)"

text \<open>
  \<open>q\<close> is the run queue. Each task of it, and the current one, has a process of its own that is
  alive; the current task is in the queue or has no successor; only the current task is running.
\<close>

definition run_queue :: "'w kernel \<Rightarrow> u64 list \<Rightarrow> bool" where
  "run_queue k q \<longleftrightarrow>
     linked (next_of (tasks k)) (head k) q \<and> distinct q \<and> (q \<noteq> [] \<longrightarrow> tail k = Some (last q))"

definition task_procs :: "'w kernel \<Rightarrow> u64 set \<Rightarrow> bool" where
  "task_procs k T \<longleftrightarrow>
     (\<forall>t \<in> T. \<exists>td. tasks k t = Some td \<and>
        (\<forall>p. t_process td = Some p \<longrightarrow> procs k p \<noteq> None \<and>
           (\<forall>t' \<in> T. \<forall>td'. tasks k t' = Some td' \<longrightarrow> t_process td' = Some p \<longrightarrow> t' = t)))"

definition state_of :: "'w kernel \<Rightarrow> u64 \<Rightarrow> State option" where
  "state_of k t = map_option t_state (tasks k t)"

definition sched_inv :: "'w kernel \<Rightarrow> u64 list \<Rightarrow> bool" where
  "sched_inv k q \<longleftrightarrow>
     run_queue k q \<and>
     (\<exists>c. current_task k = Some c \<and> task_procs k (insert c (set q)) \<and>
        (c \<notin> set q \<longrightarrow> next_of (tasks k) c = Some None) \<and>
        (\<forall>t \<in> set q. state_of k t = Some RUNNING \<longrightarrow> t = c))"

text \<open>The contents of a task but for its link.\<close>

definition body_of :: "'w kernel \<Rightarrow> u64 \<Rightarrow> task option" where
  "body_of k t = map_option (\<lambda>td. td\<lparr>t_next := None\<rparr>) (tasks k t)"

lemma body_of_proj:
  assumes "body_of k' t = body_of k t"
  shows "state_of k' t = state_of k t" "map_option t_process (tasks k' t) = map_option t_process (tasks k t)"
    "map_option t_regs (tasks k' t) = map_option t_regs (tasks k t)" "(tasks k' t = None) = (tasks k t = None)"
  using assms by (cases "tasks k t"; cases "tasks k' t"; auto simp: body_of_def state_of_def dest: arg_cong [of _ _ t_state]
      arg_cong [of _ _ t_process] arg_cong [of _ _ t_regs])+

lemma task_procs_cong:
  assumes "task_procs k T" "\<And>t. t \<in> T \<Longrightarrow> map_option t_process (tasks k' t) = map_option t_process (tasks k t)"
    and "\<And>t p. t \<in> T \<Longrightarrow> map_option t_process (tasks k t) = Some (Some p) \<Longrightarrow> procs k p \<noteq> None \<Longrightarrow> procs k' p \<noteq> None"
  shows "task_procs k' T"
  unfolding task_procs_def
proof
  fix t assume t: "t \<in> T"
  obtain td where td: "tasks k t = Some td" "\<And>p. t_process td = Some p \<Longrightarrow> procs k p \<noteq> None"
    "\<And>p t' td'. t_process td = Some p \<Longrightarrow> t' \<in> T \<Longrightarrow> tasks k t' = Some td' \<Longrightarrow> t_process td' = Some p \<Longrightarrow> t' = t"
    using assms(1) t by (auto simp: task_procs_def)
  obtain td1 where td1: "tasks k' t = Some td1" "t_process td1 = t_process td"
    using assms(2) [OF t] td(1) by auto
  have uniq: "t' = t" if u: "t_process td1 = Some p" "t' \<in> T" "tasks k' t' = Some td'" "t_process td' = Some p" for p t' td'
  proof -
    obtain td0 where "tasks k t' = Some td0" "t_process td0 = Some p"
      using assms(2) [OF u(2)] u(3,4) by (cases "tasks k t'") auto
    thus ?thesis using td(3) u(1,2) td1(2) by auto
  qed
  show "\<exists>td. tasks k' t = Some td \<and> (\<forall>p. t_process td = Some p \<longrightarrow> procs k' p \<noteq> None \<and>
      (\<forall>t' \<in> T. \<forall>td'. tasks k' t' = Some td' \<longrightarrow> t_process td' = Some p \<longrightarrow> t' = t))"
  proof (intro exI [of _ td1] conjI allI impI ballI)
    show "tasks k' t = Some td1" by (rule td1)
    fix p assume p: "t_process td1 = Some p"
    show "procs k' p \<noteq> None" by (rule assms(3) [OF t]) (use td td1 p in auto)
    fix t' td' assume "t' \<in> T" "tasks k' t' = Some td'" "t_process td' = Some p"
    thus "t' = t" by (rule uniq [OF p])
  qed
qed

lemma task_procs_mono: "task_procs k T \<Longrightarrow> S \<subseteq> T \<Longrightarrow> task_procs k S"
  unfolding task_procs_def by (meson subsetD)

lemma task_procs_unique:
  assumes "task_procs k T" "map_option t_process (tasks k t') = Some (Some p)"
    and "map_option t_process (tasks k t) = Some (Some p)" "t \<in> T" "t' \<in> T"
  shows "t' = t"
  using assms unfolding task_procs_def by (metis (no_types, lifting) map_option_eq_Some)

lemma queue_prev_linked:
  assumes "linked (next_of (tasks k)) p (xs @ a # t # ys)" "distinct (xs @ a # t # ys)"
  shows "queue_prev k t p = Some (Some a)"
  by (rule linked_search [OF assms]) (subst queue_prev.simps, auto)

text \<open>Unlinking a task: the queue without it, as soon as the object is gone.\<close>

lemma unlink_task_queue:
  assumes "run_queue k q" "t \<in> set q" "tasks k t = Some td" "unlink_task t td k = Some k1"
    and k2: "head k2 = head k1" "tail k2 = tail k1" "tasks k2 = (tasks k1)(t := None)"
  shows "run_queue k2 (remove1 t q)" "procs k1 = procs k" "current_task k1 = current_task k"
    "tasks k1 t = Some td" "x \<noteq> t \<Longrightarrow> body_of k2 x = body_of k x" "x \<notin> set q \<Longrightarrow> tasks k2 x = tasks k x"
proof -
  obtain xs ys where q: "q = xs @ t # ys" using assms(2) by (meson split_list)
  have lk: "linked (next_of (tasks k)) (head k) (xs @ t # ys)" and dis: "distinct (xs @ t # ys)"
    and tl: "tail k = Some (last (xs @ t # ys))" using assms(1) q by (auto simp: run_queue_def)
  have rem: "remove1 t q = xs @ ys" using dis by (simp add: q remove1_append)
  have "run_queue k2 (xs @ ys) \<and> procs k1 = procs k \<and> current_task k1 = current_task k \<and> tasks k1 t = Some td \<and>
    (\<forall>x. x \<noteq> t \<longrightarrow> body_of k2 x = body_of k x) \<and> (\<forall>x. x \<notin> set q \<longrightarrow> tasks k2 x = tasks k x)"
  proof (cases xs rule: rev_cases)
    case Nil
    have k1: "k1 = k\<lparr>head := t_next td, tail := (if tail k = Some t then t_next td else tail k)\<rparr>"
      using assms(4) lk Nil by (simp add: unlink_task_def)
    have "linked (next_of (tasks k)) (t_next td) ys" using lk Nil assms(3) by simp
    moreover have "linked (next_of (tasks k2)) (t_next td) ys = linked (next_of (tasks k)) (t_next td) ys"
      by (rule linked_cong) (use dis in \<open>auto simp: k2 k1\<close>)
    ultimately show ?thesis
      using dis tl Nil q assms(3) by (auto simp: run_queue_def k2 k1 body_of_def)
  next
    case (snoc xs' a)
    have lk': "linked (next_of (tasks k)) (head k) (xs' @ a # t # ys)" "distinct (xs' @ a # t # ys)"
      using lk dis snoc by simp_all
    obtain ad where ad: "tasks k a = Some ad" using linked_live [OF lk'(1), of a] by auto
    have at: "a \<noteq> t" using dis snoc by auto
    have "head k \<noteq> Some t" using lk'(1) dis snoc by (cases xs') auto
    hence k1: "k1 = (set_task a (ad\<lparr>t_next := t_next td\<rparr>) k)\<lparr>tail := (if tail k = Some t then Some a else tail k)\<rparr>"
      using assms(4) ad queue_prev_linked [OF lk'] by (simp add: unlink_task_def)
    have "linked (next_of (tasks k2)) (head k) (xs' @ a # ys)"
      by (rule linked_delete [OF lk', of "t_next td"]) (use ad assms(3) at in \<open>auto simp: k2 k1 set_task_def\<close>)
    moreover have "tail k2 = Some (last (xs @ ys))" using tl dis snoc by (auto simp: k2 k1 set_task_def)
    ultimately show ?thesis
      using dis snoc ad at assms(3) q by (auto simp: run_queue_def k2 k1 body_of_def set_task_def)
  qed
  thus "run_queue k2 (remove1 t q)" "procs k1 = procs k" "current_task k1 = current_task k" "tasks k1 t = Some td"
    "x \<noteq> t \<Longrightarrow> body_of k2 x = body_of k x" "x \<notin> set q \<Longrightarrow> tasks k2 x = tasks k x" using rem by auto
qed

lemma kfree_kD: "kfree_k a k = Some k' \<Longrightarrow> \<exists>m. k' = k\<lparr>mach := m\<rparr>"
  by (auto simp: kfree_k_def)

lemma destroy_process_fields:
  assumes "destroy_process (t_process td) k = Some k'"
  shows "tasks k' = tasks k" "head k' = head k" "tail k' = tail k" "current_task k' = current_task k"
    "t_process td \<noteq> Some p \<Longrightarrow> procs k' p = procs k p"
  using assms by (auto simp: destroy_process_def bind_eq_Some_conv split: option.splits dest!: kfree_kD)

lemma destroy_task_fields:
  assumes "destroy_task (Some t) k = Some k'"
  shows "tasks k' = (tasks k)(t := None)" "procs k' = procs k" "head k' = head k" "tail k' = tail k"
    "current_task k' = current_task k"
  using assms by (auto simp: destroy_task_def bind_eq_Some_conv split: option.splits dest!: kfree_kD)

lemma remove_and_destroy_inv:
  assumes inv: "sched_inv k q" and t: "t \<in> set q" "current_task k \<noteq> Some t"
    and r: "remove_and_destroy (Some t) k = Some k'"
  shows "sched_inv k' (remove1 t q)" "current_task k' = current_task k"
    "x \<noteq> t \<Longrightarrow> body_of k' x = body_of k x"
proof -
  obtain td k1 td1 k2 where td: "tasks k t = Some td" and k1: "unlink_task t td k = Some k1"
    and td1: "tasks k1 t = Some td1" "destroy_process (t_process td1) k1 = Some k2"
    and k': "destroy_task (Some t) k2 = Some k'"
    using r t(2) by (auto simp: remove_and_destroy_def bind_eq_Some_conv)
  obtain c where c: "current_task k = Some c" and tp: "task_procs k (insert c (set q))"
    and cn: "c \<notin> set q \<Longrightarrow> next_of (tasks k) c = Some None"
    and run: "\<And>x. x \<in> set q \<Longrightarrow> state_of k x = Some RUNNING \<Longrightarrow> x = c"
    using inv by (auto simp: sched_inv_def)
  have rq: "run_queue k q" using inv by (simp add: sched_inv_def)
  note dt = destroy_task_fields [OF k']
  have t1: "tasks k1 t = Some td" 
    by (rule unlink_task_queue(4) [OF rq t(1) td k1, of "k1\<lparr>tasks := (tasks k1)(t := None)\<rparr>"]) simp_all
  have d: "destroy_process (t_process td) k1 = Some k2" using td1 t1 by simp
  note dp = destroy_process_fields [OF d]
  have f: "head k' = head k1" "tail k' = tail k1" "tasks k' = (tasks k1)(t := None)"
    by (simp_all add: dt dp)
  note u = unlink_task_queue [OF rq t(1) td k1 f]
  show cur: "current_task k' = current_task k" by (simp add: dt dp u(3))
  show body: "x \<noteq> t \<Longrightarrow> body_of k' x = body_of k x" for x by (rule u(5))
  have dis: "distinct q" using rq by (simp add: run_queue_def)
  have ct: "c \<noteq> t" using c t(2) by auto
  have sub: "insert c (set (remove1 t q)) \<subseteq> insert c (set q) - {t}" using dis ct by (auto simp: set_remove1_eq)
  have "task_procs k' (insert c (set (remove1 t q)))"
  proof (rule task_procs_cong [OF task_procs_mono [OF tp]])
    show "insert c (set (remove1 t q)) \<subseteq> insert c (set q)" using sub by blast
    fix x assume x: "x \<in> insert c (set (remove1 t q))"
    show "map_option t_process (tasks k' x) = map_option t_process (tasks k x)"
      using body_of_proj(2) [OF body [of x]] x sub by auto
    fix p assume p: "map_option t_process (tasks k x) = Some (Some p)" "procs k p \<noteq> None"
    have "t_process td \<noteq> Some p"
    proof
      assume "t_process td = Some p"
      hence "x = t" using x sub td t(1) p(1) by (intro task_procs_unique [OF tp, of _ p]) auto
      thus False using x sub by auto
    qed
    thus "procs k' p \<noteq> None" using p(2) by (simp add: dt dp u(2))
  qed
  moreover have "c \<notin> set (remove1 t q) \<Longrightarrow> next_of (tasks k') c = Some None"
  proof -
    assume "c \<notin> set (remove1 t q)"
    hence "c \<notin> set q" using ct by (simp add: in_set_remove1)
    thus ?thesis using cn u(6) [of c] by simp
  qed
  moreover have "x = c" if "x \<in> set (remove1 t q)" "state_of k' x = Some RUNNING" for x
  proof -
    have "x \<noteq> t" "x \<in> set q" using that(1) dis by (auto simp: set_remove1_eq)
    thus ?thesis using run that(2) body_of_proj(1) [OF body [of x]] by simp
  qed
  ultimately show "sched_inv k' (remove1 t q)" using u(1) c cur by (auto simp: sched_inv_def)
qed

definition stays :: "'w kernel \<Rightarrow> u64 \<Rightarrow> bool" where
  "stays k t \<longleftrightarrow> state_of k t \<noteq> Some DEAD \<or> current_task k = Some t"

lemma reap_from_inv:
  assumes "sched_inv k (xs @ ys)" "linked (next_of (tasks k)) p ys" "reap_from p k = Some k'"
  shows "sched_inv k' (xs @ filter (stays k) ys)" "current_task k' = current_task k"
    "\<And>x. x \<notin> set ys \<or> stays k x \<Longrightarrow> body_of k' x = body_of k x"
proof -
  have "sched_inv k' (xs @ filter (stays k) ys) \<and> current_task k' = current_task k \<and>
    (\<forall>x. x \<notin> set ys \<or> stays k x \<longrightarrow> body_of k' x = body_of k x)"
    using assms
  proof (induction ys arbitrary: xs p k)
    case Nil thus ?case by (subst (asm) reap_from.simps) simp
  next
    case (Cons t ys)
    obtain td where td: "tasks k t = Some td" "p = Some t" "linked (next_of (tasks k)) (t_next td) ys"
      using Cons.prems(2) by (auto split: option.splits)
    have dis: "distinct (xs @ t # ys)" using Cons.prems(1) by (simp add: sched_inv_def run_queue_def)
    show ?case
    proof (cases "stays k t")
      case True
      hence r: "reap_from (t_next td) k = Some k'"
        using Cons.prems(3) td by (subst (asm) reap_from.simps) (auto simp: stays_def state_of_def)
      show ?thesis using Cons.IH [of k "xs @ [t]", OF _ td(3) r] Cons.prems(1) True by simp
    next
      case False
      hence cur: "current_task k \<noteq> Some t" "t_state td = DEAD" using td by (auto simp: stays_def state_of_def)
      obtain k1 where k1: "remove_and_destroy (Some t) k = Some k1" "reap_from (t_next td) k1 = Some k'"
        using Cons.prems(3) td cur by (subst (asm) reap_from.simps) (auto simp: bind_eq_Some_conv)
      note r = remove_and_destroy_inv [OF Cons.prems(1) _ cur(1) k1(1)]
      have inv1: "sched_inv k1 (xs @ ys)" using r(1) dis by (simp add: remove1_append)
      have lk1: "linked (next_of (tasks k1)) (t_next td) ys"
      proof -
        have "run_queue k1 (xs @ ys)" using inv1 by (simp add: sched_inv_def)
        then obtain q where q: "linked (next_of (tasks k1)) q ys"
          using linked_suffix [of "next_of (tasks k1)" "head k1" xs ys] by (auto simp: run_queue_def)
        show ?thesis using linked_start [OF q td(3)] q by simp
      qed
      have keep: "stays k1 x = stays k x" if "x \<noteq> t" for x
        using body_of_proj(1) [OF r(3) [OF _ that]] r(2) by (simp add: stays_def)
      have flt: "filter (stays k1) ys = filter (stays k) ys"
        by (rule filter_cong [OF refl], rule keep) (use dis in auto)
      note IH = Cons.IH [OF inv1 lk1 k1(2)]
      have "body_of k' x = body_of k x" if "x \<notin> set (t # ys) \<or> stays k x" for x
      proof -
        have "x \<noteq> t" using that False by auto
        thus ?thesis using IH r(3) [of x] keep [of x] that by simp
      qed
      thus ?thesis using IH flt r(2) False by simp
    qed
  qed
  thus "sched_inv k' (xs @ filter (stays k) ys)" "current_task k' = current_task k"
    "\<And>x. x \<notin> set ys \<or> stays k x \<Longrightarrow> body_of k' x = body_of k x" by auto
qed

section \<open>Choosing the next task\<close>

text \<open>The tasks of the queue in the order in which they are considered after \<open>c\<close>.\<close>

definition turn_order :: "u64 \<Rightarrow> u64 list \<Rightarrow> u64 list" where
  "turn_order c q =
     (if c \<in> set q then tl (dropWhile (\<lambda>t. t \<noteq> c) q) @ takeWhile (\<lambda>t. t \<noteq> c) q @ [c] else q)"

lemma turn_order_split: "c \<notin> set xs \<Longrightarrow> turn_order c (xs @ c # ys) = ys @ xs @ [c]"
  by (auto simp: turn_order_def takeWhile_tail dropWhile_append)

lemma set_turn_order [simp]: "set (turn_order c q) = set q"
proof (cases "c \<in> set q")
  case True
  obtain xs ys where "q = xs @ c # ys" "c \<notin> set xs" using split_list_first [OF True] by auto
  thus ?thesis by (auto simp: turn_order_split)
qed (simp add: turn_order_def)

lemma distinct_turn_order: "distinct q \<Longrightarrow> distinct (turn_order c q)"
proof (cases "c \<in> set q")
  case True
  assume d: "distinct q"
  obtain xs ys where "q = xs @ c # ys" "c \<notin> set xs" using split_list_first [OF True] by auto
  thus ?thesis using d by (auto simp: turn_order_split)
qed (simp add: turn_order_def)

lemma queue_next_ring: "run_queue k q \<Longrightarrow> ring (queue_next k) q"
  by (rule linked_ring [of "next_of (tasks k)" "head k"])
    (auto simp: run_queue_def queue_next_def split: option.splits)

lemma turn_order_ring:
  assumes "run_queue k q"
  shows "ring (queue_next k) (turn_order c q)"
proof (cases "c \<in> set q")
  case True
  obtain xs ys where q: "q = xs @ c # ys" "c \<notin> set xs" using split_list_first [OF True] by auto
  have "ring (queue_next k) (ys @ xs @ [c])"
    by (rule ring_append [of _ "xs @ [c]" ys, simplified append_assoc]) (use queue_next_ring [OF assms] q in simp)
  thus ?thesis using q by (simp add: turn_order_split)
qed (simp add: turn_order_def queue_next_ring [OF assms])

definition ready :: "'w kernel \<Rightarrow> u64 \<Rightarrow> bool" where
  "ready k t \<longleftrightarrow> state_of k t = Some READY"

lemma pick_ready_ring:
  assumes "ring (queue_next k) os" "distinct os" "\<And>x. x \<in> set os \<Longrightarrow> tasks k x \<noteq> None" "os = zs @ n # ws"
  shows "pick_ready k (hd os) n = Some (case List.find (ready k) (n # ws) of Some t \<Rightarrow> t | None \<Rightarrow> hd os)"
  using assms(4)
proof (induction ws arbitrary: zs n)
  case Nil
  obtain nd where nd: "tasks k n = Some nd" using assms(3) [of n] Nil by auto
  have "queue_next k n = Some (hd os)" using ring_last [of "queue_next k" zs n] assms(1) Nil by simp
  thus ?case using nd by (subst pick_ready.simps) (simp add: ready_def state_of_def)
next
  case (Cons m ws)
  obtain nd where nd: "tasks k n = Some nd" using assms(3) [of n] Cons.prems by auto
  have nx: "queue_next k n = Some m" using ring_step [of "queue_next k" zs n m ws] assms(1) Cons.prems by simp
  have "m \<noteq> hd os" using assms(2) Cons.prems by (cases zs) auto
  moreover have "pick_ready k (hd os) m = Some (case List.find (ready k) (m # ws) of Some t \<Rightarrow> t | None \<Rightarrow> hd os)"
    by (rule Cons.IH [of "zs @ [n]"]) (use Cons.prems in simp)
  ultimately show ?case using nd nx by (subst pick_ready.simps) (simp add: ready_def state_of_def)
qed

text \<open>Changing a task but for its link and its process.\<close>

lemma set_task_keeps:
  assumes "tasks k t = Some td" "t_next td' = t_next td" "t_process td' = t_process td"
  shows "run_queue (set_task t td' k) q = run_queue k q"
    "task_procs k T \<Longrightarrow> task_procs (set_task t td' k) T"
    "next_of (tasks (set_task t td' k)) x = next_of (tasks k) x"
    "queue_next (set_task t td' k) x = queue_next k x"
    "state_of (set_task t td' k) x = (if x = t then Some (t_state td') else state_of k x)"
proof -
  have nx: "next_of (tasks (set_task t td' k)) = next_of (tasks k)" using assms by (auto simp: set_task_def)
  thus "run_queue (set_task t td' k) q = run_queue k q" by (simp add: run_queue_def) (simp add: set_task_def)
  show "next_of (tasks (set_task t td' k)) x = next_of (tasks k) x" by (rule fun_cong [OF nx])
  show "queue_next (set_task t td' k) x = queue_next k x" using assms
    by (cases "tasks k x") (auto simp: queue_next_def set_task_def split: option.split)
  show "state_of (set_task t td' k) x = (if x = t then Some (t_state td') else state_of k x)"
    by (simp add: state_of_def set_task_def)
  show "task_procs k T \<Longrightarrow> task_procs (set_task t td' k) T"
    by (erule task_procs_cong) (use assms in \<open>auto simp: set_task_def\<close>)
qed

lemma sched_invE:
  assumes "sched_inv k q"
  obtains c cd where "current_task k = Some c" "tasks k c = Some cd" "run_queue k q" "distinct q"
    "task_procs k (insert c (set q))" "c \<notin> set q \<Longrightarrow> t_next cd = None"
    "\<And>t. t \<in> set q \<Longrightarrow> state_of k t = Some RUNNING \<Longrightarrow> t = c"
proof -
  obtain c where c: "current_task k = Some c" "task_procs k (insert c (set q))"
    "c \<notin> set q \<Longrightarrow> next_of (tasks k) c = Some None" "\<And>t. t \<in> set q \<Longrightarrow> state_of k t = Some RUNNING \<Longrightarrow> t = c"
    using assms by (auto simp: sched_inv_def)
  obtain cd where cd: "tasks k c = Some cd" using c(2) by (auto simp: task_procs_def)
  show thesis
    by (rule that [OF c(1) cd _ _ c(2) _ c(4)]) (use assms c(3) cd in \<open>auto simp: sched_inv_def run_queue_def\<close>)
qed

lemma park_current_inv:
  assumes inv: "sched_inv k q" and c: "current_task k = Some c" and cd: "tasks k c = Some cd"
  obtains k2 where "park_current old k = Some k2"
    "k2 = set_task c (cd\<lparr>t_regs := old, t_state := parked (t_state cd)\<rparr>) k"
    "sched_inv k2 q" "\<And>x. state_of k2 x = (if x = c then Some (parked (t_state cd)) else state_of k x)"
    "\<And>x. x \<in> set q \<Longrightarrow> state_of k2 x \<noteq> Some RUNNING"
proof -
  let ?cd = "cd\<lparr>t_regs := old, t_state := parked (t_state cd)\<rparr>"
  let ?k = "set_task c ?cd k"
  note keep = set_task_keeps [OF cd, of ?cd, simplified]
  obtain "run_queue k q" "task_procs k (insert c (set q))" "c \<notin> set q \<Longrightarrow> t_next cd = None"
    "\<And>t. t \<in> set q \<Longrightarrow> state_of k t = Some RUNNING \<Longrightarrow> t = c"
    by (rule sched_invE [OF inv]) (use c cd in auto)
  note q = this
  have run: "state_of ?k x \<noteq> Some RUNNING" if "x \<in> set q" for x
    using q(4) [OF that] unfolding keep(5) by (auto simp: parked_def)
  have "sched_inv ?k q"
    unfolding sched_inv_def
    by (intro conjI exI [of _ c]) (use q run c cd keep in \<open>auto simp: set_task_def\<close>)
  thus thesis using run
    by (intro that [of ?k]) (simp_all add: park_current_def c cd keep(5))
qed

lemma switch_to_inv:
  assumes inv: "sched_inv k q" and idle: "\<And>x. x \<in> set q \<Longrightarrow> state_of k x \<noteq> Some RUNNING"
    and t: "t \<in> set q" "tasks k t = Some td"
  obtains k' where "switch_to t k = Some (t_regs td, k')" "sched_inv k' q" "current_task k' = Some t"
    "\<And>x. state_of k' x = (if x = t then Some RUNNING else state_of k x)"
    "kernel_stack k' = (case t_stack td of None \<Rightarrow> kernel_stack k | Some st \<Rightarrow> st + 8192)"
    "\<And>p pd sp. t_process td = Some p \<Longrightarrow> procs k p = Some pd \<Longrightarrow> p_space pd = Some sp \<Longrightarrow>
       mach k' = AddressSpace_activate sp (mach k)"
    "\<And>x. x \<noteq> t \<Longrightarrow> tasks k' x = tasks k x"
proof -
  let ?td = "td\<lparr>t_state := RUNNING\<rparr>"
  let ?k = "set_task t ?td k"
  note keep = set_task_keeps [OF t(2), of ?td, simplified]
  obtain c where tp: "task_procs k (insert c (set q))" and rq: "run_queue k q"
    by (rule sched_invE [OF inv]) auto
  obtain k' where k': "switch_to t k = Some (t_regs td, k')" "tasks k' = tasks ?k" "procs k' = procs k"
    "head k' = head k" "tail k' = tail k" "current_task k' = Some t"
    "kernel_stack k' = (case t_stack td of None \<Rightarrow> kernel_stack k | Some st \<Rightarrow> st + 8192)"
    "\<And>p pd sp. t_process td = Some p \<Longrightarrow> procs k p = Some pd \<Longrightarrow> p_space pd = Some sp \<Longrightarrow>
       mach k' = AddressSpace_activate sp (mach k)"
  proof (cases "t_process td")
    case None
    thus ?thesis using t(2)
      by (intro that [of "case t_stack td of None \<Rightarrow> ?k\<lparr>current_task := Some t\<rparr>
            | Some st \<Rightarrow> ?k\<lparr>current_task := Some t, kernel_stack := st + 8192\<rparr>"])
        (auto simp: switch_to_def set_running_def set_task_def split: option.split)
  next
    case (Some p)
    then obtain pd where "procs k p = Some pd" using tp t by (force simp: task_procs_def)
    thus ?thesis using t(2) Some
      by (intro that [of "case p_space pd of
              None \<Rightarrow> (case t_stack td of None \<Rightarrow> ?k\<lparr>current_task := Some t\<rparr>
                | Some st \<Rightarrow> ?k\<lparr>current_task := Some t, kernel_stack := st + 8192\<rparr>)
            | Some sp \<Rightarrow> (case t_stack td of
                  None \<Rightarrow> ?k\<lparr>current_task := Some t, mach := AddressSpace_activate sp (mach k)\<rparr>
                | Some st \<Rightarrow> ?k\<lparr>current_task := Some t, kernel_stack := st + 8192,
                                mach := AddressSpace_activate sp (mach k)\<rparr>)"])
        (auto simp: switch_to_def set_running_def set_task_def split: option.split)
  qed
  have st: "state_of k' x = (if x = t then Some RUNNING else state_of k x)" for x
    using keep(5) [of x] by (simp add: state_of_def k'(2))
  have "run_queue k' q" using keep(1) [of q] rq k'(2,4,5) by (simp add: run_queue_def set_task_def)
  moreover have "task_procs k' (set q)"
    by (rule task_procs_cong [OF keep(2) [OF task_procs_mono [OF tp]]]) (use k'(2,3) in \<open>auto simp: set_task_def\<close>)
  moreover have "x = t" if "x \<in> set q" "state_of k' x = Some RUNNING" for x
    using that idle [of x] by (auto simp: st split: if_splits)
  ultimately have "sched_inv k' q"
    using k'(6) t(1) by (auto simp: sched_inv_def insert_absorb)
  thus thesis using k' st by (intro that [of k']) (auto simp: set_task_def)
qed

definition runnable :: "'w kernel \<Rightarrow> u64 \<Rightarrow> bool" where
  "runnable k t \<longleftrightarrow> ready k t \<or> current_task k = Some t \<and> state_of k t = Some RUNNING"

lemma schedule_picks:
  assumes inv: "sched_inv k q" and none: "reap k0 = Some k"
    and c: "current_task k = Some c" "tasks k c = Some cd"
    and t: "List.find (runnable k) (turn_order c q) = Some t"
  obtains k' td where "schedule old k0 = Some (if t = c then old else t_regs td, k')" "tasks k t = Some td"
    "sched_inv k' q" "current_task k' = Some t"
    "\<And>x. state_of k' x = (if x = t then Some RUNNING else if x = c then Some (parked (t_state cd)) else state_of k x)"
    "kernel_stack k' = (case t_stack td of None \<Rightarrow> kernel_stack k | Some st \<Rightarrow> st + 8192)"
    "\<And>p pd sp. t_process td = Some p \<Longrightarrow> procs k p = Some pd \<Longrightarrow> p_space pd = Some sp \<Longrightarrow>
       mach k' = AddressSpace_activate sp (mach k)"
    "c \<noteq> t \<Longrightarrow> Option.bind (tasks k' c) t_regs = old"
proof -
  obtain k2 where k2: "park_current old k = Some k2"
    "k2 = set_task c (cd\<lparr>t_regs := old, t_state := parked (t_state cd)\<rparr>) k" "sched_inv k2 q"
    "\<And>x. state_of k2 x = (if x = c then Some (parked (t_state cd)) else state_of k x)"
    "\<And>x. x \<in> set q \<Longrightarrow> state_of k2 x \<noteq> Some RUNNING"
    by (rule park_current_inv [OF inv c], rule that, assumption+)
  have f2: "current_task k2 = Some c" "kernel_stack k2 = kernel_stack k" "procs k2 = procs k" "mach k2 = mach k"
    by (simp_all add: k2(2) set_task_def c)
  have tq: "t \<in> set q" using t by (auto simp: find_Some_iff) (metis nth_mem set_turn_order)
  have rq: "run_queue k2 q" "distinct q" using k2(3) by (auto simp: sched_inv_def run_queue_def)
  let ?os = "turn_order c q"
  have ne: "?os \<noteq> []" using tq by (metis set_turn_order empty_iff set_empty)
  then obtain n ws where os: "?os = n # ws" by (cases ?os) auto
  have lv: "x \<in> set ?os \<Longrightarrow> tasks k2 x \<noteq> None" for x
    using linked_live [of "next_of (tasks k2)" "head k2" q x] rq(1) by (auto simp: run_queue_def)
  have rd: "ready k2 x = runnable k x" if "x \<in> set q" for x
  proof (cases "x = c")
    case True
    moreover have "state_of k c = Some (t_state cd)" using c by (simp add: state_of_def)
    ultimately show ?thesis using c by (auto simp: ready_def runnable_def k2(4) parked_def)
  next
    case False
    thus ?thesis using c by (simp add: ready_def runnable_def k2(4))
  qed
  have "List.find (ready k2) ?os = List.find (runnable k) ?os"
    by (rule find_cong [OF refl]) (use rd in simp)
  hence pick: "pick_ready k2 n n = Some t"
    using pick_ready_ring [OF turn_order_ring [OF rq(1)] distinct_turn_order [OF rq(2)] lv, of c "[]" n ws] os t
    by simp
  have start: "queue_next k2 c = Some n"
  proof (cases "c \<in> set q")
    case True
    obtain xs ys where q: "q = xs @ c # ys" "c \<notin> set xs" using split_list_first [OF True] by auto
    hence e: "?os = (ys @ xs) @ [c]" by (simp add: turn_order_split)
    have "queue_next k2 c = Some (hd ?os)"
      using ring_last [of "queue_next k2" "ys @ xs" c] turn_order_ring [OF rq(1), of c] by (simp only: e)
    thus ?thesis by (simp add: os)
  next
    case False
    have "tasks k2 c = Some (cd\<lparr>t_regs := old, t_state := parked (t_state cd)\<rparr>)" by (simp add: k2(2) set_task_def)
    moreover have "t_next cd = None" by (rule sched_invE [OF inv]) (use c False in auto)
    moreover have "head k2 = Some n" using rq(1) False os by (auto simp: run_queue_def turn_order_def)
    ultimately show ?thesis by (simp add: queue_next_def)
  qed
  obtain h where h: "head k2 = Some h" using rq(1) tq by (cases q) (auto simp: run_queue_def)
  obtain td2 where td2: "tasks k2 t = Some td2" using lv [of t] tq by auto
  have rt: "t_state td2 = READY"
    using rd [OF tq] t td2 by (auto simp: find_Some_iff ready_def state_of_def)
  obtain k' where k': "switch_to t k2 = Some (t_regs td2, k')" "sched_inv k' q" "current_task k' = Some t"
    "\<And>x. state_of k' x = (if x = t then Some RUNNING else state_of k2 x)"
    "kernel_stack k' = (case t_stack td2 of None \<Rightarrow> kernel_stack k2 | Some st \<Rightarrow> st + 8192)"
    "\<And>p pd sp. t_process td2 = Some p \<Longrightarrow> procs k2 p = Some pd \<Longrightarrow> p_space pd = Some sp \<Longrightarrow>
       mach k' = AddressSpace_activate sp (mach k2)"
    "\<And>x. x \<noteq> t \<Longrightarrow> tasks k' x = tasks k2 x"
    by (rule switch_to_inv [OF k2(3,5) tq td2], assumption, rule that, assumption+)
  have s: "schedule old k0 = Some (t_regs td2, k')"
    using k2(1) h f2(1) start pick td2 rt k'(1) by (simp add: schedule_def none)
  obtain td where td: "tasks k t = Some td" "t_regs td2 = (if t = c then old else t_regs td)"
    "t_stack td2 = t_stack td" "t_process td2 = t_process td"
    using td2 c by (auto simp: k2(2) set_task_def split: if_splits)
  show thesis
  proof (rule that [of td k'])
    show "kernel_stack k' = (case t_stack td of None \<Rightarrow> kernel_stack k | Some st \<Rightarrow> st + 8192)"
      by (simp only: k'(5) td(3) f2(2))
    show "mach k' = AddressSpace_activate sp (mach k)"
      if "t_process td = Some p" "procs k p = Some pd" "p_space pd = Some sp" for p pd sp
      using k'(6) [of p pd sp] that td(4) f2(3,4) by simp
    show "Option.bind (tasks k' c) t_regs = old" if "c \<noteq> t"
      using k'(7) [OF that] by (simp add: k2(2) set_task_def)
    show "schedule old k0 = Some (if t = c then old else t_regs td, k')" using s td(2) by simp
  qed (simp_all only: td(1) k'(2,3,4) k2(4))
qed

lemma reap_inv:
  assumes "sched_inv k q" "reap k = Some k1"
  shows "sched_inv k1 (filter (stays k) q)" "current_task k1 = current_task k"
    "x \<notin> set q \<or> stays k x \<Longrightarrow> body_of k1 x = body_of k x"
  using reap_from_inv [of k "[]" q "head k" k1] assms by (auto simp: reap_def sched_inv_def run_queue_def)

lemma schedule_turn:
  assumes inv: "sched_inv k q" and reaped: "reap k = Some k1"
    and c: "current_task k = Some c" "tasks k c = Some cd"
    and t: "List.find (runnable k) (turn_order c (filter (stays k) q)) = Some t"
  shows "\<exists>k'. schedule old k = Some (if t = c then old else Option.bind (tasks k t) t_regs, k') \<and>
    sched_inv k' (filter (stays k) q) \<and> current_task k' = Some t \<and> state_of k' t = Some RUNNING \<and>
    (c \<noteq> t \<longrightarrow> state_of k' c = Some (if t_state cd = RUNNING then READY else t_state cd) \<and>
       Option.bind (tasks k' c) t_regs = old) \<and>
    (\<forall>x \<in> set q. x \<noteq> t \<longrightarrow> x \<noteq> c \<longrightarrow> stays k x \<longrightarrow> state_of k' x = state_of k x)"
proof -
  let ?q = "filter (stays k) q"
  note r = reap_inv [OF inv reaped]
  have sc: "stays k c" using c by (simp add: stays_def)
  have body: "stays k x \<Longrightarrow> body_of k1 x = body_of k x" for x using r(3) by blast
  obtain cd1 where cd1: "tasks k1 c = Some cd1" "t_state cd1 = t_state cd"
    using body_of_proj(1,4) [OF body [OF sc]] c(2) by (auto simp: state_of_def)
  have "runnable k1 x = runnable k x" if "stays k x" for x
    using body_of_proj(1) [OF body [OF that]] r(2) by (simp add: runnable_def ready_def)
  hence f: "List.find (runnable k1) (turn_order c ?q) = Some t"
    using t find_cong [of "turn_order c ?q" "turn_order c ?q" "runnable k1" "runnable k"] by simp
  obtain k' td where k': "schedule old k = Some (if t = c then old else t_regs td, k')" "tasks k1 t = Some td"
    "sched_inv k' ?q" "current_task k' = Some t"
    "\<And>x. state_of k' x = (if x = t then Some RUNNING else if x = c then Some (parked (t_state cd1)) else state_of k1 x)"
    "c \<noteq> t \<Longrightarrow> Option.bind (tasks k' c) t_regs = old"
    by (rule schedule_picks [OF r(1) reaped _ cd1(1) f, of old], use r(2) c in simp, rule that, assumption+)
  have "t \<in> set (turn_order c ?q)" using t by (auto simp: find_Some_iff simp del: set_turn_order)
  hence st: "stays k t" by simp
  have "Option.bind (tasks k t) t_regs = t_regs td"
    using body_of_proj(3) [OF body [OF st]] k'(2) by (cases "tasks k t") auto
  moreover have "state_of k' x = state_of k x" if "x \<noteq> t" "x \<noteq> c" "stays k x" for x
    using k'(5) body_of_proj(1) [OF body [OF that(3)]] that by simp
  ultimately show ?thesis
    using k' cd1(2) by (intro exI [of _ k']) (auto simp: parked_def)
qed


lemma find_runnable_split:
  assumes "List.find P xs = Some u" "t \<in> set xs" "P t" "t \<noteq> u"
  obtains zs ws where "xs = zs @ u # ws" "t \<in> set ws"
proof -
  obtain zs ws where s: "xs = zs @ u # ws" "\<forall>z \<in> set zs. \<not> P z"
    using assms(1) by (induction xs) (auto split: if_splits, metis append_Nil empty_iff empty_set, metis append_Cons set_ConsD)
  thus thesis using assms by (intro that) auto
qed

lemma turn_order_next:
  assumes "turn_order c q = zs @ u # ws" "distinct q"
  shows "turn_order u q = ws @ zs @ [u]"
proof (cases "c \<in> set q")
  case True
  obtain xs ys where q: "q = xs @ c # ys" "c \<notin> set xs" using split_list_first [OF True] by auto
  have o: "ys @ xs @ [c] = zs @ u # ws" using assms(1) q by (simp add: turn_order_split)
  consider (ys) y where "ys = zs @ u # y" "ws = y @ xs @ [c]"
    | (xs) x y where "zs = ys @ x" "xs = x @ u # y" "ws = y @ [c]"
    | (c) "u = c" "ws = []" "zs = ys @ xs"
    using o by (auto simp: append_eq_append_conv2 append_eq_Cons_conv Cons_eq_append_conv)
  thus ?thesis
  proof cases
    case ys
    have "turn_order u ((xs @ c # zs) @ u # y) = y @ (xs @ c # zs) @ [u]"
      by (rule turn_order_split) (use assms(2) q ys in auto)
    thus ?thesis using q ys by simp
  next
    case xs
    have "turn_order u (x @ u # (y @ c # ys)) = (y @ c # ys) @ x @ [u]"
      by (rule turn_order_split) (use assms(2) q xs in auto)
    thus ?thesis using q xs by simp
  next
    case c thus ?thesis using q by (simp add: turn_order_split)
  qed
next
  case False
  hence "q = zs @ u # ws" using assms(1) by (simp add: turn_order_def)
  thus ?thesis using assms(2) by (simp add: turn_order_split)
qed

text \<open>Without dead tasks there is nothing to reap.\<close>

lemma reap_none:
  assumes "linked (next_of (tasks k)) p q" "\<And>x. x \<in> set q \<Longrightarrow> state_of k x \<noteq> Some DEAD"
  shows "reap_from p k = Some k"
  using assms
proof (induction q arbitrary: p)
  case Nil thus ?case by (subst reap_from.simps) simp
next
  case (Cons t q)
  then obtain td where "tasks k t = Some td" "p = Some t" "linked (next_of (tasks k)) (t_next td) q" "t_state td \<noteq> DEAD"
    by (auto simp: state_of_def split: option.splits)
  thus ?case using Cons.IH Cons.prems(2) by (subst reap_from.simps) simp
qed

lemma reap_alive:
  assumes "sched_inv k q" "\<And>x. x \<in> set q \<Longrightarrow> state_of k x \<noteq> Some DEAD"
  shows "reap k = Some k" "filter (stays k) q = q"
  using assms reap_none [of k "head k" q]
  by (auto simp: reap_def sched_inv_def run_queue_def stays_def intro!: filter_True)

lemma split_unique: "xs @ t # ys = xs' @ t # ys' \<Longrightarrow> distinct (xs @ t # ys) \<Longrightarrow> xs = xs'"
  by (auto simp: append_eq_append_conv2 append_eq_Cons_conv Cons_eq_append_conv)

text \<open>Successive timer interrupts; each hands \<open>schedule\<close> the address of the registers it has saved.\<close>

fun ticks :: "u64 option list \<Rightarrow> 'w kernel \<Rightarrow> 'w kernel option" where
  "ticks [] k = Some k"
| "ticks (old # olds) k = do { (r, k) \<leftarrow> schedule old k; ticks olds k }"

lemma ticks_reach:
  assumes "sched_inv k q" "\<And>x. x \<in> set q \<Longrightarrow> state_of k x \<noteq> Some DEAD" "current_task k = Some c"
    and "turn_order c q = pre @ t # post" "ready k t" "length pre < length olds"
  shows "\<exists>n k'. 0 < n \<and> n \<le> Suc (length pre) \<and> ticks (take n olds) k = Some k' \<and> current_task k' = Some t"
  using assms
proof (induction "length pre" arbitrary: pre post c k olds rule: less_induct)
  case less
  obtain old olds' where olds: "olds = old # olds'" using less.prems(6) by (cases olds) auto
  note alive = reap_alive [OF less.prems(1,2)]
  obtain cd where cd: "tasks k c = Some cd" by (rule sched_invE [OF less.prems(1)]) (use less.prems(3) in auto)
  have tr: "t \<in> set (turn_order c q)" "runnable k t" using less.prems(4,5) by (simp_all add: runnable_def)
  then obtain u where u: "List.find (runnable k) (turn_order c q) = Some u"
    by (cases "List.find (runnable k) (turn_order c q)") (auto simp: find_None_iff)
  obtain k' where k': "schedule old k = Some (if u = c then old else Option.bind (tasks k u) t_regs, k')"
    "sched_inv k' q" "current_task k' = Some u" "state_of k' u = Some RUNNING"
    "c \<noteq> u \<longrightarrow> state_of k' c = Some (if t_state cd = RUNNING then READY else t_state cd)"
    "\<forall>x \<in> set q. x \<noteq> u \<longrightarrow> x \<noteq> c \<longrightarrow> stays k x \<longrightarrow> state_of k' x = state_of k x"
    using schedule_turn [OF less.prems(1) alive(1) less.prems(3) cd, of u old] u alive(2) by auto
  have first: "ticks (take 1 olds) k = Some k'" using k'(1) olds by simp
  show ?case
  proof (cases "u = t")
    case True
    thus ?thesis using first k'(3) by (intro exI [of _ 1] exI [of _ k']) simp
  next
    case False
    obtain zs ws where ws: "turn_order c q = zs @ u # ws" "t \<in> set ws"
      using find_runnable_split [OF u tr False [symmetric]] by blast
    have dis: "distinct q" using less.prems(1) by (simp add: sched_inv_def run_queue_def)
    obtain pre' post' where t': "ws = pre' @ t # post'" using ws(2) by (meson split_list)
    have "pre @ t # post = (zs @ u # pre') @ t # post'" using ws(1) t' less.prems(4) by simp
    moreover have "distinct (pre @ t # post)" using distinct_turn_order [OF dis, of c] less.prems(4) by simp
    ultimately have "pre = zs @ u # pre'" by (rule split_unique)
    hence len: "length pre' < length pre" by simp
    have next_turn: "turn_order u q = pre' @ t # (post' @ zs @ [u])"
      using turn_order_next [OF ws(1) dis] t' by simp
    have cs: "state_of k c = Some (t_state cd)" using cd by (simp add: state_of_def)
    have al: "state_of k' x \<noteq> Some DEAD" if "x \<in> set q" for x
      using that less.prems(2) [OF that] k'(4,5,6) cs by (cases "x = u"; cases "x = c") (auto simp: stays_def)
    have "t \<in> set q" using tr(1) by simp
    hence rt: "ready k' t"
      using k'(5,6) False less.prems(5) cs by (cases "t = c") (auto simp: ready_def stays_def)
    obtain n k2 where n: "0 < n" "n \<le> Suc (length pre')" "ticks (take n olds') k' = Some k2" "current_task k2 = Some t"
      using less.hyps [OF len k'(2) al k'(3) next_turn rt, of olds'] less.prems(6) olds len by auto
    thus ?thesis using k'(1) olds len by (intro exI [of _ "Suc n"] exI [of _ k2]) simp
  qed
qed

text \<open>
  C11: no ready task starves. As long as no task dies, a ready task of a queue of \<open>n\<close> tasks is made
  the current one by one of the next \<open>n\<close> timer interrupts, whatever runs before it and whatever
  registers the interrupts save.
\<close>

theorem schedule_fair:
  assumes "sched_inv k q" "\<And>x. x \<in> set q \<Longrightarrow> state_of k x \<noteq> Some DEAD"
    and "t \<in> set q" "state_of k t = Some READY" "length q \<le> length olds"
  shows "\<exists>n k'. 0 < n \<and> n \<le> length q \<and> ticks (take n olds) k = Some k' \<and> current_task k' = Some t"
proof -
  obtain c where c: "current_task k = Some c" using assms(1) by (auto simp: sched_inv_def)
  have "t \<in> set (turn_order c q)" using assms(3) by simp
  then obtain pre post where s: "turn_order c q = pre @ t # post" by (meson split_list)
  have dis: "distinct q" using assms(1) by (simp add: sched_inv_def run_queue_def)
  have "length (turn_order c q) = length q"
    using distinct_card [OF dis] distinct_card [OF distinct_turn_order [OF dis, of c]] by simp
  hence "Suc (length pre) \<le> length q" using s by simp
  thus ?thesis using ticks_reach [OF assms(1,2) c s, of olds] assms(4,5) by (auto simp: ready_def intro: le_trans)
qed

lemma pick_live_ring:
  assumes "ring (queue_next k) q" "distinct q" "\<And>x. x \<in> set q \<Longrightarrow> tasks k x \<noteq> None" "head k = Some (hd q)"
    and "q = zs @ n # ws"
  shows "pick_live k n = Some (List.find (\<lambda>t. state_of k t \<noteq> Some DEAD) (n # ws))"
  using assms(5)
proof (induction ws arbitrary: zs n)
  case Nil
  obtain nd where nd: "tasks k n = Some nd" using assms(3) [of n] Nil by auto
  have "queue_next k n = Some (hd q)" using ring_last [of "queue_next k" zs n] assms(1) Nil by simp
  thus ?case using nd assms(4) by (subst pick_live.simps) (simp add: state_of_def)
next
  case (Cons m ws)
  obtain nd where nd: "tasks k n = Some nd" using assms(3) [of n] Cons.prems by auto
  have nx: "queue_next k n = Some m" using ring_step [of "queue_next k" zs n m ws] assms(1) Cons.prems by simp
  have "m \<noteq> hd q" using assms(2) Cons.prems by (cases zs) auto
  moreover have "pick_live k m = Some (List.find (\<lambda>t. state_of k t \<noteq> Some DEAD) (m # ws))"
    by (rule Cons.IH [of "zs @ [n]"]) (use Cons.prems in simp)
  ultimately show ?case using nd nx assms(4) by (subst pick_live.simps) (simp add: state_of_def)
qed

text \<open>
  when no task is ready, \<open>schedule\<close> runs the first task of the queue that is not dead although
  it is blocked, and it does so with the kernel stack and the page tables of the task that was
  interrupted.
\<close>

theorem schedule_runs_blocked:
  assumes inv: "sched_inv k q" and alive: "\<And>x. x \<in> set q \<Longrightarrow> state_of k x \<noteq> Some DEAD"
    and c: "current_task k = Some c" "c \<notin> set q" and q: "q = t # ts"
    and none: "\<And>x. x \<in> set q \<Longrightarrow> \<not> runnable k x"
  shows "\<exists>r k'. schedule old k = Some (r, k') \<and> state_of k t = Some BLOCKED \<and>
    current_task k' = Some t \<and> state_of k' t = Some RUNNING \<and>
    kernel_stack k' = kernel_stack k \<and> mach k' = mach k"
proof -
  obtain cd where cd: "tasks k c = Some cd" "t_next cd = None"
    by (rule sched_invE [OF inv]) (use c in auto)
  obtain k2 where k2: "park_current old k = Some k2"
    "k2 = set_task c (cd\<lparr>t_regs := old, t_state := parked (t_state cd)\<rparr>) k" "sched_inv k2 q"
    "\<And>x. state_of k2 x = (if x = c then Some (parked (t_state cd)) else state_of k x)"
    by (rule park_current_inv [OF inv c(1) cd(1)], rule that, assumption+)
  have rq: "run_queue k2 q" "distinct q" using k2(3) by (auto simp: sched_inv_def run_queue_def)
  have h: "head k2 = Some t" using rq(1) by (simp add: run_queue_def q)
  have lv: "x \<in> set q \<Longrightarrow> tasks k2 x \<noteq> None" for x
    using linked_live [of "next_of (tasks k2)" "head k2" q x] rq(1) by (auto simp: run_queue_def)
  have st: "state_of k2 x = state_of k x" if "x \<in> set q" for x using that c(2) k2(4) by auto
  have nr: "\<not> ready k2 x" if "x \<in> set q" for x
    using none [OF that] st [OF that] by (simp add: runnable_def ready_def)
  have "List.find (ready k2) q = None" using nr by (auto simp: find_None_iff)
  hence pick: "pick_ready k2 t t = Some t"
    using pick_ready_ring [OF queue_next_ring [OF rq(1)] rq(2) lv, of "[]" t ts] q by simp
  have "List.find (\<lambda>t. state_of k2 t \<noteq> Some DEAD) q = Some t" using alive st q by simp
  hence live: "pick_live k2 t = Some (Some t)"
    using pick_live_ring [OF queue_next_ring [OF rq(1)] rq(2) lv, of "[]" t ts] q h by simp
  obtain td where td: "tasks k2 t = Some td" using lv [of t] q by auto
  have "t_state td \<noteq> READY" using nr [of t] td q by (auto simp: ready_def state_of_def)
  moreover have "queue_next k2 c = Some t" using cd h by (simp add: queue_next_def k2(2) set_task_def)
  moreover have "current_task k2 = Some c" using c(1) by (simp add: k2(2) set_task_def)
  ultimately have s: "schedule old k = Some (t_regs td, (set_task t (td\<lparr>t_state := RUNNING\<rparr>) k2)\<lparr>current_task := Some t\<rparr>)"
    using reap_alive(1) [OF inv alive] k2(1) h pick live td
    by (simp add: schedule_def set_running_def set_task_def)
  obtain td0 where "tasks k t = Some td0"
    using lv [of t] q c(2) by (auto simp: k2(2) set_task_def split: if_splits)
  moreover have "state_of k t \<noteq> Some RUNNING"
    using sched_invE [OF inv] c q by (metis list.set_intros(1) option.inject)
  ultimately have "state_of k t = Some BLOCKED"
    using alive [of t] none [of t] q by (cases "t_state td0") (auto simp: runnable_def ready_def state_of_def)
  thus ?thesis using s by (auto simp: state_of_def set_task_def k2(2))
qed

text \<open>Adding a task puts it at the end of the queue.\<close>

lemma sched_add_queue:
  assumes "run_queue k q" "tasks k t = Some td" "t \<notin> set q"
  obtains k' where "sched_add (Some t) k = Some k'" "run_queue k' (q @ [t])" "current_task k' = current_task k"
    "\<And>x. body_of k' x = body_of k x"
proof (cases q rule: rev_cases)
  case Nil
  show ?thesis
    by (rule that [of "(set_task t (td\<lparr>t_next := None\<rparr>) k)\<lparr>head := Some t, tail := Some t\<rparr>"])
      (use assms Nil in \<open>auto simp: sched_add_def run_queue_def set_task_def body_of_def\<close>)
next
  case (snoc q' a)
  have lk: "linked (next_of (tasks k)) (head k) q" "distinct q" and tl: "tail k = Some a"
    using assms(1) snoc by (auto simp: run_queue_def)
  obtain ad where ad: "tasks k a = Some ad" using linked_live [OF lk(1), of a] snoc by auto
  have h: "head k \<noteq> None" using lk(1) snoc by (cases q') auto
  have at: "a \<noteq> t" using assms(3) snoc by auto
  let ?k = "(set_task a (ad\<lparr>t_next := Some t\<rparr>) (set_task t (td\<lparr>t_next := None\<rparr>) k))\<lparr>tail := Some t\<rparr>"
  have "linked (next_of (tasks ?k)) (head k) (q @ [t])"
    by (rule linked_snoc [OF lk _ assms(3)]) (use snoc at in \<open>auto simp: set_task_def\<close>)
  thus ?thesis
    by (intro that [of ?k])
      (use assms lk tl ad at h in \<open>auto simp: sched_add_def run_queue_def set_task_def body_of_def split: option.split\<close>)
qed

section \<open>Examples\<close>

definition demo_task :: "u64 \<Rightarrow> State \<Rightarrow> u64 option \<Rightarrow> u64 option \<Rightarrow> task" where
  "demo_task pid st proc nxt =
     \<lparr>t_pid = pid, t_regs = Some (pid * 16), t_stack = Some (pid * 4096), t_process = proc, t_state = st,
      t_parent = None, t_exit_code = 0, t_next = nxt\<rparr>"

text \<open>The task of the kernel is running; \<open>st1\<close> and \<open>st2\<close> are the states of the two tasks queued.\<close>

definition kernel_demo :: "State \<Rightarrow> State \<Rightarrow> unit kernel" where
  "kernel_demo st1 st2 =
     \<lparr>tasks = [KERNEL_TASK \<mapsto> demo_task 0 RUNNING (Some KERNEL_PROCESS) None,
               64 \<mapsto> demo_task 1 st1 (Some 70) (Some 128), 128 \<mapsto> demo_task 2 st2 (Some 130) None],
      procs = [KERNEL_PROCESS \<mapsto> empty_process, 70 \<mapsto> empty_process, 130 \<mapsto> empty_process],
      reg_frames = Map.empty, head = Some 64, tail = Some 128, current_task = Some KERNEL_TASK,
      pid_counter = 3, pipes = [], pipe_used = [], kernel_stack = 0, mach = machine_demo, fsys = vfs_demo\<rparr>"

lemma kernel_demo_state:
  "state_of (kernel_demo st1 st2) 64 = Some st1" "state_of (kernel_demo st1 st2) 128 = Some st2"
  "current_task (kernel_demo st1 st2) = Some 1"
  "tasks (kernel_demo st1 st2) 1 = Some (demo_task 0 RUNNING (Some KERNEL_PROCESS) None)"
  by (simp_all add: state_of_def kernel_demo_def demo_task_def KERNEL_TASK_def)

lemma kernel_demo_inv:
  assumes "st1 \<noteq> RUNNING" "st2 \<noteq> RUNNING"
  shows "sched_inv (kernel_demo st1 st2) [64, 128]"
proof -
  have "run_queue (kernel_demo st1 st2) [64, 128]"
    by (simp add: run_queue_def kernel_demo_def demo_task_def KERNEL_TASK_def)
  moreover have "task_procs (kernel_demo st1 st2) (insert 1 (set [64, 128]))"
    by (simp add: task_procs_def kernel_demo_def demo_task_def KERNEL_TASK_def KERNEL_PROCESS_def)
  ultimately show ?thesis
    using assms kernel_demo_state
    by (auto simp: sched_inv_def demo_task_def)
qed


theorem schedule_fair_witness:
  "\<exists>n k'. 0 < n \<and> n \<le> 2 \<and> ticks (take n [None, None]) (kernel_demo READY READY) = Some k' \<and> current_task k' = Some 128"
proof -
  have inv: "sched_inv (kernel_demo READY READY) [64, 128]" by (rule kernel_demo_inv) simp_all
  have "x \<in> set [64, 128] \<Longrightarrow> state_of (kernel_demo READY READY) x \<noteq> Some DEAD" for x
    by (auto simp: kernel_demo_state)
  from schedule_fair [OF inv this, of 128 "[None, None]"] show ?thesis
    by (simp add: kernel_demo_state numeral_2_eq_2)
qed

theorem schedule_runs_blocked_witness:
  "\<exists>r k'. schedule None (kernel_demo BLOCKED BLOCKED) = Some (r, k') \<and> current_task k' = Some 64"
proof -
  have inv: "sched_inv (kernel_demo BLOCKED BLOCKED) [64, 128]" by (rule kernel_demo_inv) simp_all
  have "x \<in> set [64, 128] \<Longrightarrow> state_of (kernel_demo BLOCKED BLOCKED) x \<noteq> Some DEAD"
    "x \<in> set [64, 128] \<Longrightarrow> \<not> runnable (kernel_demo BLOCKED BLOCKED) x" for x
    by (auto simp: kernel_demo_state runnable_def ready_def)
  note schedule_runs_blocked [OF inv this(1) kernel_demo_state(3) _ refl this(2), of None]
  thus ?thesis by auto
qed

end
