(* ===== verification/Elf.thy ===== *)
theory Elf
  imports Address_Space Vfs_Ops
begin

unbundle bit_operations_syntax

text \<open>
  The program loader, \<open>src/exec/elf.cpp\<close>: it reads an ELF image that the file system holds as one
  buffer and maps its loadable segments, page by page, into an address space. The image is the list
  of the bytes of the buffer; reading past its end is a fault, \<open>None\<close>. The code checks neither the
  offsets nor the sizes in the headers.
\<close>

section \<open>Reading the image\<close>

definition bytes_from :: "u8 list \<Rightarrow> u64 \<Rightarrow> nat \<Rightarrow> u8 list option" where
  "bytes_from data off n =
     (if unat off + n \<le> length data then Some (take n (drop (unat off) data)) else None)"

fun le_value :: "u8 list \<Rightarrow> u64" where
  "le_value [] = 0"
| "le_value (b # bs) = ucast b + 256 * le_value bs"

definition image_field :: "u8 list \<Rightarrow> u64 \<Rightarrow> nat \<Rightarrow> u64 option" where
  "image_field data off n = map_option le_value (bytes_from data off n)"

record ehdr =
  e_entry :: u64
  e_phoff :: u64
  e_phnum :: u64

record phdr =
  p_type :: u64
  p_offset :: u64
  p_vaddr :: u64
  p_filesz :: u64
  p_memsz :: u64

definition read_ehdr :: "u8 list \<Rightarrow> ehdr option" where
  "read_ehdr data = do {
     ent \<leftarrow> image_field data 24 8;
     phoff \<leftarrow> image_field data 32 8;
     phnum \<leftarrow> image_field data 56 2;
     Some \<lparr>e_entry = ent, e_phoff = phoff, e_phnum = phnum\<rparr>
   }"

definition read_phdr :: "u8 list \<Rightarrow> u64 \<Rightarrow> phdr option" where
  "read_phdr data at = do {
     type \<leftarrow> image_field data at 4;
     off \<leftarrow> image_field data (at + 8) 8;
     vaddr \<leftarrow> image_field data (at + 16) 8;
     filesz \<leftarrow> image_field data (at + 32) 8;
     memsz \<leftarrow> image_field data (at + 40) 8;
     Some \<lparr>p_type = type, p_offset = off, p_vaddr = vaddr, p_filesz = filesz, p_memsz = memsz\<rparr>
   }"

definition PT_LOAD :: u64 where "PT_LOAD = 1"

definition is_elf :: "u8 list \<Rightarrow> bool option" where
  "is_elf data = map_option (\<lambda>b. b = [0x7F, 0x45, 0x4C, 0x46]) (bytes_from data 0 4)"

section \<open>Loading\<close>

definition USER_FLAGS :: u64 where
  "USER_FLAGS = PAGE_PRESENT OR PAGE_WRITABLE OR PAGE_USER"

text \<open>The part of the file that belongs to the page at \<open>addr\<close>: file offset, page offset, length.\<close>

definition page_slice :: "phdr \<Rightarrow> u64 \<Rightarrow> (u64 \<times> u64 \<times> u64) option" where
  "page_slice ph addr =
     (let copy_start = (if p_vaddr ph > addr then p_vaddr ph else addr);
          file_end = p_vaddr ph + p_filesz ph;
          copy_end = (if file_end < addr + 0x1000 then file_end else addr + 0x1000)
      in if copy_end > copy_start
         then Some (p_offset ph + (copy_start - p_vaddr ph), copy_start - addr, copy_end - copy_start)
         else None)"

definition load_page :: "u8 list \<Rightarrow> u64 \<Rightarrow> phdr \<Rightarrow> u64 \<Rightarrow> machine \<Rightarrow> (bool \<times> machine) option" where
  "load_page data space ph addr s = do {
     (page, s1) \<leftarrow> paging_alloc_page s;
     if page = 0 then Some (False, s1)
     else do {
       (_, s2) \<leftarrow> map_page (table_pml4 s1 (space_table s1 space)) addr page USER_FLAGS s1;
       case page_slice ph addr of
         None \<Rightarrow> Some (True, s2)
       | Some (file_off, page_off, len) \<Rightarrow> do {
           bytes \<leftarrow> bytes_from data file_off (unat len);
           Some (True, set_pmem (poke (pmem s2) (page + page_off) bytes) s2)
         }
     }
   }"

partial_function (option) load_pages ::
  "u8 list \<Rightarrow> u64 \<Rightarrow> phdr \<Rightarrow> u64 \<Rightarrow> u64 \<Rightarrow> machine \<Rightarrow> (bool \<times> machine) option" where
  "load_pages data space ph addr seg_end s =
     (if addr < seg_end then do {
        (ok, s1) \<leftarrow> load_page data space ph addr s;
        if \<not> ok then Some (False, s1) else load_pages data space ph (addr + 0x1000) seg_end s1
      }
      else Some (True, s))"

definition load_segment :: "u8 list \<Rightarrow> u64 \<Rightarrow> phdr \<Rightarrow> machine \<Rightarrow> (bool \<times> machine) option" where
  "load_segment data space ph s =
     (if p_type ph \<noteq> PT_LOAD then Some (True, s)
      else load_pages data space ph (p_vaddr ph AND NOT 0xFFF)
             ((p_vaddr ph + p_memsz ph + 0xFFF) AND NOT 0xFFF) s)"

fun load_segments ::
  "u8 list \<Rightarrow> u64 \<Rightarrow> u64 \<Rightarrow> nat list \<Rightarrow> machine \<Rightarrow> (bool \<times> machine) option" where
  "load_segments data space phoff [] s = Some (True, s)"
| "load_segments data space phoff (i # is) s = do {
     ph \<leftarrow> read_phdr data (phoff + of_nat (56 * i));
     (ok, s1) \<leftarrow> load_segment data space ph s;
     if \<not> ok then Some (False, s1) else load_segments data space phoff is s1
   }"

text \<open>
  \<open>load\<close>: the entry point, or 0. The values \<open>min_vaddr\<close>, \<open>max_vaddr\<close>, \<open>size\<close> and \<open>base\<close> that the code
  computes are not used.
\<close>

definition elf_load ::
  "string \<Rightarrow> u64 option \<Rightarrow> 'w vfs \<Rightarrow> machine \<Rightarrow> (u64 \<times> 'w vfs \<times> machine) option" where
  "elf_load pth space f s = do {
     (node, f1) \<leftarrow> vfs_find f pth;
     case node of
       None \<Rightarrow> Some (0, f1, s)
     | Some n \<Rightarrow>
         (case space of
            None \<Rightarrow> Some (0, f1, s)
          | Some sp \<Rightarrow>
              if space_table s sp = 0 then Some (0, f1, s)
              else do {
                content \<leftarrow> get_content f1 (Some n);
                case content of
                  None \<Rightarrow> Some (0, f1, s)
                | Some data \<Rightarrow> do {
                    elf \<leftarrow> is_elf data;
                    if \<not> elf then Some (0, f1, s)
                    else do {
                      hdr \<leftarrow> read_ehdr data;
                      (ok, s1) \<leftarrow> load_segments data sp (e_phoff hdr) [0..<unat (e_phnum hdr)] s;
                      Some (if ok then e_entry hdr else 0, f1, s1)
                    }
                  }
              })
   }"

end
