(* ===== verification/Exec.thy ===== *)
theory Exec
  imports Sched Elf KString
begin

unbundle bit_operations_syntax

text \<open>
  The part of \<open>src/kernel/sched/scheduler.cpp\<close> that makes and replaces processes: the initial stack
  of a program, the creation of tasks, \<open>spawn\<close>, \<open>exec\<close> and the \<open>clone\<close> behind \<open>fork\<close>. A new object
  takes its address from the heap of the machine; its contents are put into the typed stores of
  \<open>Sched\<close>.
\<close>

section \<open>The stack of a program\<close>

text \<open>
  The writes of \<open>setup_user_stack\<close>, in their order, go to addresses of the address space that is
  active: strings, and words of eight bytes.
\<close>

datatype store_op = Bytes u64 "u8 list" | Word u64 u64

fun copy_strings :: "nat \<Rightarrow> u64 \<Rightarrow> u8 list list \<Rightarrow> store_op list \<times> u64 list \<times> u64" where
  "copy_strings room sp [] = ([], [], sp)"
| "copy_strings room sp (a # as) =
     (if room = 0 then ([], [], sp)
      else
        let sp1 = sp - of_nat (Suc (length a));
            (st, ptrs, sp2) = copy_strings (room - 1) sp1 as
        in (Bytes sp1 (a @ [0]) # st, sp1 # ptrs, sp2))"

fun push_words :: "u64 \<Rightarrow> u64 list \<Rightarrow> store_op list \<times> u64" where
  "push_words sp [] = ([], sp)"
| "push_words sp (w # ws) =
     (let (st, sp') = push_words (sp - 8) ws in (Word (sp - 8) w # st, sp'))"

definition setup_user_stack :: "u64 \<Rightarrow> u8 list list \<Rightarrow> u8 list list \<Rightarrow> store_op list \<times> u64" where
  "setup_user_stack stack_top argv envp =
     (let (st1, env_ptrs, sp1) = copy_strings 63 stack_top envp;
          (st2, argv_ptrs, sp2) = copy_strings 63 sp1 argv;
          argc = length argv_ptrs; envc = length env_ptrs;
          sp3 = sp2 AND NOT 0xF;
          (st3, sp4) =
            push_words sp3
              ((if (argc + envc + 3) mod 2 \<noteq> 0 then [0] else []) @
               [0] @ rev env_ptrs @ [0] @ rev argv_ptrs @ [of_nat argc])
      in (st1 @ st2 @ st3, sp4))"

definition apply_store :: "store_op \<Rightarrow> mem \<Rightarrow> mem" where
  "apply_store st m = (case st of Bytes a bs \<Rightarrow> poke m a bs | Word a w \<Rightarrow> write64 m a w)"

text \<open>A write through the page tables that \<open>cr3\<close> points to; an address that is not mapped is a fault.\<close>

definition translate :: "machine \<Rightarrow> u64 \<Rightarrow> u64 option" where
  "translate s va = map_option (\<lambda>e. frame_of e OR (va AND 0xFFF)) (mappings (pmem s) (cr3 s) (path va))"

fun vpoke :: "u64 \<Rightarrow> u8 list \<Rightarrow> machine \<Rightarrow> machine option" where
  "vpoke va [] s = Some s"
| "vpoke va (b # bs) s = do {
     pa \<leftarrow> translate s va;
     vpoke (va + 1) bs (set_pmem ((pmem s)(pa := b)) s)
   }"

definition word_bytes :: "u64 \<Rightarrow> u8 list" where
  "word_bytes w = map (\<lambda>i. ucast (drop_bit (8 * i) w)) [0..<8]"

definition vstore :: "store_op \<Rightarrow> machine \<Rightarrow> machine option" where
  "vstore st s = (case st of Bytes a bs \<Rightarrow> vpoke a bs s | Word a w \<Rightarrow> vpoke a (word_bytes w) s)"

definition write_user_stack ::
  "u64 \<Rightarrow> u8 list list \<Rightarrow> u8 list list \<Rightarrow> machine \<Rightarrow> (u64 \<times> machine) option" where
  "write_user_stack stack_top argv envp s =
     (let (st, sp) = setup_user_stack stack_top argv envp
      in map_option (\<lambda>s. (sp, s)) (for_each vstore st s))"

definition STACK_TOP :: u64 where "STACK_TOP = 0x8000000000"
definition STACK_SIZE :: u64 where "STACK_SIZE = 0x40000"

text \<open>The 64 pages of the stack; the results of the allocation and of the mapping are not tested.\<close>

definition stack_page :: "u64 \<Rightarrow> nat \<Rightarrow> (u64 \<times> machine) \<Rightarrow> (u64 \<times> machine) option" where
  "stack_page space i ts =
     (case ts of (top_page, s) \<Rightarrow> do {
        let addr = STACK_TOP - STACK_SIZE + of_nat (0x1000 * i);
        (page, s1) \<leftarrow> paging_alloc_page s;
        (_, s2) \<leftarrow> map_page (table_pml4 s1 (space_table s1 space)) addr page USER_FLAGS s1;
        Some (if addr + 0x1000 = STACK_TOP then page else top_page, s2)
      })"

definition create_user_stack :: "u64 \<Rightarrow> machine \<Rightarrow> (u64 \<times> machine) option" where
  "create_user_stack space s = do {
     (top_page, s1) \<leftarrow> for_each (stack_page space) [0..<64] (0, s);
     let top = top_page + 0x1000;
     let m = write64 (write64 (write64 (pmem s1) (top - 8) 0) (top - 16) 0) (top - 24) 0;
     Some (STACK_TOP - 24, set_pmem m s1)
   }"

section \<open>Creating tasks\<close>

definition SIZE_TASK :: u64 where "SIZE_TASK = 64"
definition SIZE_PROCESS :: u64 where "SIZE_PROCESS = 1880"
definition SIZE_REGISTERS :: u64 where "SIZE_REGISTERS = 176"

definition kmalloc_k :: "u64 \<Rightarrow> 'w kernel \<Rightarrow> (u64 option \<times> 'w kernel) option" where
  "kmalloc_k n k = do {
     (a, m) \<leftarrow> kmalloc_m n (mach k);
     Some (if a = 0 then None else Some a, k\<lparr>mach := m\<rparr>)
   }"

definition set_proc :: "u64 \<Rightarrow> process \<Rightarrow> 'w kernel \<Rightarrow> 'w kernel" where
  "set_proc p pd k = k\<lparr>procs := (procs k)(p \<mapsto> pd)\<rparr>"

definition user_registers :: "u64 \<Rightarrow> u64 \<Rightarrow> registers" where
  "user_registers ent sp =
     \<lparr>r15 = 0, r14 = 0, r13 = 0, r12 = 0, r11 = 0, r10 = 0, r9 = 0, r8 = 0, rbp = 0, rdi = 0, rsi = 0,
      rdx = 0, rcx = 0, rbx = 0, rax = 0, vector = 0, error_code = 0, rip = ent, reg_cs = 0x1B,
      rflags = 0x202, rsp = sp, reg_ss = 0x23\<rparr>"

definition set_frame :: "u64 \<Rightarrow> registers \<Rightarrow> 'w kernel \<Rightarrow> 'w kernel" where
  "set_frame r rd k = k\<lparr>reg_frames := (reg_frames k)(r \<mapsto> rd)\<rparr>"

definition frame_at :: "u64 \<Rightarrow> u64" where
  "frame_at stack = stack + 8192 - SIZE_REGISTERS"

definition space_of_current :: "'w kernel \<Rightarrow> u64 option option" where
  "space_of_current k =
     (case current_task k of
        None \<Rightarrow> Some None
      | Some c \<Rightarrow> do { cd \<leftarrow> tasks k c; p \<leftarrow> t_process cd; pd \<leftarrow> procs k p; Some (p_space pd) })"

definition create_task :: "u64 \<Rightarrow> u64 \<Rightarrow> 'w kernel \<Rightarrow> (u64 option \<times> 'w kernel) option" where
  "create_task proc ent k = do {
     (t, k) \<leftarrow> kmalloc_k SIZE_TASK k;
     case t of
       None \<Rightarrow> Some (None, k)
     | Some t \<Rightarrow> do {
         (st, k) \<leftarrow> kmalloc_k 8192 k;
         case st of
           None \<Rightarrow> do { k \<leftarrow> kfree_k t k; Some (None, k) }
         | Some st \<Rightarrow> do {
             pd \<leftarrow> procs k proc;
             sp \<leftarrow> p_space pd;
             (user_stack, m) \<leftarrow> create_user_stack sp (mach k);
             let k = k\<lparr>mach := m\<rparr>;
             caller_space \<leftarrow> space_of_current k;
             let k = k\<lparr>mach := AddressSpace_activate sp (mach k)\<rparr>;
             (user_stack, m) \<leftarrow> write_user_stack (user_stack AND NOT 0xF) [] [] (mach k);
             let k = k\<lparr>mach := m\<rparr>;
             let k = (case caller_space of
                        None \<Rightarrow> k
                      | Some c \<Rightarrow> k\<lparr>mach := AddressSpace_activate c (mach k)\<rparr>);
             let k = set_frame (frame_at st) (user_registers ent user_stack) k;
             let k = set_task t (empty_task\<lparr>t_pid := p_pid pd, t_regs := Some (frame_at st),
                       t_stack := Some st, t_process := Some proc\<rparr>) k;
             let k = (if main_thread pd = None then set_proc proc (pd\<lparr>main_thread := Some t\<rparr>) k else k);
             k \<leftarrow> sched_add (Some t) k;
             Some (Some t, k)
           }
       }
   }"

text \<open>A new process with the root directory as its working directory and an address space.\<close>

definition new_process :: "string \<Rightarrow> 'w kernel \<Rightarrow> (u64 option \<times> bool \<times> 'w kernel) option" where
  "new_process name k = do {
     (p, k) \<leftarrow> kmalloc_k SIZE_PROCESS k;
     case p of
       None \<Rightarrow> Some (None, False, k)
     | Some p \<Rightarrow> do {
         (r, f) \<leftarrow> vfs_find (fs_view k) ''/'';
         let pd = empty_process\<lparr>p_pid := pid_counter k, cwd := r, p_name := take 31 name\<rparr>;
         let k = k\<lparr>fsys := f, pid_counter := pid_counter k + 1\<rparr>;
         (sp, m) \<leftarrow> AddressSpace_create (mach k);
         let k = set_proc p (pd\<lparr>p_space := (if sp = 0 then None else Some sp)\<rparr>) (k\<lparr>mach := m\<rparr>);
         Some (Some p, sp \<noteq> 0, k)
       }
   }"

definition drop_process :: "u64 \<Rightarrow> 'w kernel \<Rightarrow> 'w kernel option" where
  "drop_process p k = do { k \<leftarrow> kfree_k p k; Some (k\<lparr>procs := (procs k)(p := None)\<rparr>) }"

definition destroy_space :: "u64 \<Rightarrow> 'w kernel \<Rightarrow> 'w kernel option" where
  "destroy_space sp k = map_option (\<lambda>m. k\<lparr>mach := m\<rparr>) (AddressSpace_destroy sp (mach k))"

definition create_process :: "u64 \<Rightarrow> 'w kernel \<Rightarrow> (u64 option \<times> 'w kernel) option" where
  "create_process ent k = do {
     (p, ok, k) \<leftarrow> new_process [] k;
     case p of
       None \<Rightarrow> Some (None, k)
     | Some p \<Rightarrow>
         if \<not> ok then do { k \<leftarrow> drop_process p k; Some (None, k) }
         else do {
           (t, k) \<leftarrow> create_task p ent k;
           pd \<leftarrow> procs k p;
           case t of
             None \<Rightarrow> do {
               sp \<leftarrow> p_space pd;
               k \<leftarrow> destroy_space sp k;
               k \<leftarrow> drop_process p k;
               Some (None, k)
             }
           | Some t \<Rightarrow> Some (Some p, set_proc p (pd\<lparr>main_thread := Some t\<rparr>) k)
         }
   }"

definition sched_create :: "u64 \<Rightarrow> 'w kernel \<Rightarrow> 'w kernel option" where
  "sched_create ent k = map_option snd (create_process ent k)"

definition spawn :: "string \<Rightarrow> 'w kernel \<Rightarrow> (u64 option \<times> 'w kernel) option" where
  "spawn pth k = do {
     (p, ok, k) \<leftarrow> new_process pth k;
     case p of
       None \<Rightarrow> Some (None, k)
     | Some p \<Rightarrow>
         if \<not> ok then Some (None, k)
         else do {
           pd \<leftarrow> procs k p;
           (ent, f, m) \<leftarrow> elf_load pth (p_space pd) (fs_view k) (mach k);
           let k = k\<lparr>fsys := f, mach := m\<rparr>;
           if ent = 0 then Some (None, k)
           else do {
             (t, k) \<leftarrow> create_task p ent k;
             case t of
               None \<Rightarrow> Some (None, k)
             | Some t \<Rightarrow> do {
                 td \<leftarrow> tasks k t;
                 Some (Some t, set_task t (td\<lparr>t_state := READY, t_parent := current_task k,
                                             t_exit_code := 0\<rparr>) k)
               }
           }
         }
   }"

section \<open>exec\<close>

definition kstrdup :: "u8 list \<Rightarrow> 'w kernel \<Rightarrow> (u64 option \<times> 'w kernel) option" where
  "kstrdup s k = do {
     (a, k) \<leftarrow> kmalloc_k (of_nat (Suc (length s))) k;
     Some (a, case a of None \<Rightarrow> k | Some p \<Rightarrow> k\<lparr>mach := set_pmem (poke (pmem (mach k)) p (s @ [0])) (mach k)\<rparr>)
   }"

text \<open>The copies of at most 63 strings; \<open>None\<close> in the list is a copy that could not be allocated.\<close>

fun copy_args :: "nat \<Rightarrow> u8 list list \<Rightarrow> 'w kernel \<Rightarrow> ((u64 \<times> u8 list) option list \<times> 'w kernel) option" where
  "copy_args room [] k = Some ([], k)"
| "copy_args room (s # ss) k =
     (if room = 0 then Some ([], k)
      else do {
        (a, k) \<leftarrow> kstrdup s k;
        (cs, k) \<leftarrow> copy_args (room - 1) ss k;
        Some (map_option (\<lambda>p. (p, s)) a # cs, k)
      })"

text \<open>An array of pointers is read up to the first null pointer.\<close>

definition until_null :: "'a option list \<Rightarrow> 'a list" where
  "until_null xs = map the (takeWhile (\<lambda>x. x \<noteq> None) xs)"

definition kfree_all :: "u64 list \<Rightarrow> 'w kernel \<Rightarrow> 'w kernel option" where
  "kfree_all ps k = for_each kfree_k ps k"

text \<open>
  \<open>exec_current\<close>: \<open>None\<close> as the result of the call is its return with \<open>false\<close>, \<open>Some r\<close> that the
  processor enters user mode with the registers at \<open>r\<close>.
\<close>

definition replace_image ::
  "u64 \<Rightarrow> u64 \<Rightarrow> u64 \<Rightarrow> u64 \<Rightarrow> string \<Rightarrow> (u64 \<times> u8 list) list \<Rightarrow> (u64 \<times> u8 list) list \<Rightarrow> 'w kernel \<Rightarrow>
     (u64 option \<times> 'w kernel) option" where
  "replace_image t p sp ent pth argv envp k = do {
     td \<leftarrow> tasks k t;
     pd \<leftarrow> procs k p;
     let k = set_proc p (pd\<lparr>p_space := Some sp, mmap_next := 0, p_name := take 31 pth\<rparr>) k;
     let k = k\<lparr>mach := AddressSpace_activate sp (mach k)\<rparr>;
     k \<leftarrow> (case p_space pd of None \<Rightarrow> Some k | Some old \<Rightarrow> destroy_space old k);
     (stack_top, m) \<leftarrow> create_user_stack sp (mach k);
     (user_stack, m) \<leftarrow> write_user_stack (stack_top AND NOT 0xF) (map snd argv) (map snd envp) m;
     k \<leftarrow> kfree_all (map fst argv @ map fst envp) (k\<lparr>mach := m\<rparr>);
     let r = frame_at (case t_stack td of None \<Rightarrow> 0 | Some st \<Rightarrow> st);
     let k = set_frame r (user_registers ent user_stack) k;
     let k = set_task t (td\<lparr>t_regs := Some r\<rparr>) k;
     Some (Some r, case t_stack td of None \<Rightarrow> k | Some st \<Rightarrow> k\<lparr>kernel_stack := st + 8192\<rparr>)
   }"

definition exec_current ::
  "string \<Rightarrow> u8 list list \<Rightarrow> u8 list list \<Rightarrow> 'w kernel \<Rightarrow> (u64 option \<times> 'w kernel) option" where
  "exec_current pth argv envp k =
     (case current_task k of
        None \<Rightarrow> Some (None, k)
      | Some t \<Rightarrow> do {
          td \<leftarrow> tasks k t;
          case t_process td of
            None \<Rightarrow> Some (None, k)
          | Some p \<Rightarrow> do {
              (argv_copy, k) \<leftarrow> copy_args 63 argv k;
              (envp_copy, k) \<leftarrow> copy_args 63 envp k;
              (sp, m) \<leftarrow> AddressSpace_create (mach k);
              let k = k\<lparr>mach := m\<rparr>;
              if sp = 0 then Some (None, k)
              else do {
                (ent, f, m) \<leftarrow> elf_load pth (Some sp) (fs_view k) (mach k);
                let k = k\<lparr>fsys := f, mach := m\<rparr>;
                if ent = 0 then do { k \<leftarrow> destroy_space sp k; Some (None, k) }
                else replace_image t p sp ent pth (until_null argv_copy) (until_null envp_copy) k
              }
            }
        })"

section \<open>clone\<close>

text \<open>One more reader or writer for the pipe of an open descriptor.\<close>

definition share_pipe :: "fd_entry \<Rightarrow> pipe list \<Rightarrow> pipe list option" where
  "share_pipe e ps =
     (case (if fd_type e = FD_PIPE then fd_pipe e else None) of
        None \<Rightarrow> Some ps
      | Some i \<Rightarrow>
          if i < length ps then
            Some (ps[i := (ps ! i)\<lparr>readers := readers (ps ! i) + (if readable e then 1 else 0),
                                    writers := writers (ps ! i) + (if writable e then 1 else 0)\<rparr>])
          else None)"

definition undo_clone :: "u64 \<Rightarrow> u64 \<Rightarrow> u64 list \<Rightarrow> 'w kernel \<Rightarrow> (u64 option \<times> 'w kernel) option" where
  "undo_clone child sp blocks k = do {
     k \<leftarrow> destroy_space sp k;
     k \<leftarrow> kfree_all blocks k;
     k \<leftarrow> drop_process child k;
     Some (None, k)
   }"

definition clone_task :: "process \<Rightarrow> u64 \<Rightarrow> u64 \<Rightarrow> 'w kernel \<Rightarrow> (u64 option \<times> 'w kernel) option" where
  "clone_task parent child sp k = do {
     (t, k) \<leftarrow> kmalloc_k SIZE_TASK k;
     case t of
       None \<Rightarrow> undo_clone child sp [] k
     | Some t \<Rightarrow> do {
         (st, k) \<leftarrow> kmalloc_k 8192 k;
         case st of
           None \<Rightarrow> undo_clone child sp [t] k
         | Some st \<Rightarrow> do {
             cd \<leftarrow> procs k child;
             mt \<leftarrow> main_thread parent;
             mtd \<leftarrow> tasks k mt;
             regs \<leftarrow> t_regs mtd;
             rd \<leftarrow> reg_frames k regs;
             let k = set_frame (frame_at st) (rd\<lparr>rax := 0\<rparr>) k;
             let k = set_task t (empty_task\<lparr>t_pid := p_pid cd, t_process := Some child, t_parent := Some mt,
                       t_stack := Some st, t_regs := Some (frame_at st), t_state := READY\<rparr>) k;
             let k = set_proc child (cd\<lparr>main_thread := Some t\<rparr>) k;
             k \<leftarrow> sched_add (Some t) k;
             Some (Some child, k)
           }
       }
   }"

definition sched_clone :: "u64 option \<Rightarrow> 'w kernel \<Rightarrow> (u64 option \<times> 'w kernel) option" where
  "sched_clone parent k =
     (case parent of
        None \<Rightarrow> Some (None, k)
      | Some p \<Rightarrow> do {
          pd \<leftarrow> procs k p;
          if main_thread pd = None then Some (None, k)
          else do {
            (c, k) \<leftarrow> kmalloc_k SIZE_PROCESS k;
            case c of
              None \<Rightarrow> Some (None, k)
            | Some c \<Rightarrow> do {
                let pid = pid_counter k;
                (sp, m) \<leftarrow> AddressSpace_create (mach k);
                let k = k\<lparr>pid_counter := pid + 1, mach := m\<rparr>;
                if sp = 0 then do { k \<leftarrow> kfree_k c k; Some (None, k) }
                else do {
                  ps \<leftarrow> for_each share_pipe (fds pd) (pipes k);
                  let k = set_proc c (empty_process\<lparr>p_pid := pid, p_space := Some sp,
                            p_name := take 31 (p_name pd), mmap_next := mmap_next pd, cwd := cwd pd,
                            p_parent := Some p, fds := fds pd\<rparr>) (k\<lparr>pipes := ps\<rparr>);
                  psp \<leftarrow> p_space pd;
                  (ok, m) \<leftarrow> clone_user_pages (table_pml4 (mach k) (space_table (mach k) sp))
                              (table_pml4 (mach k) (space_table (mach k) psp)) (mach k);
                  let k = k\<lparr>mach := m\<rparr>;
                  if \<not> ok then undo_clone c sp [] k else clone_task pd c sp k
                }
              }
          }
        })"

section \<open>The layout of the stack\<close>

definition total :: "u8 list list \<Rightarrow> nat" where
  "total as = sum_list (map (\<lambda>a. Suc (length a)) as)"

lemma total_simps [simp]: "total [] = 0" "total (a # as) = Suc (length a) + total as"
  by (simp_all add: total_def)

lemma poke_adr:
  assumes "x + length bs \<le> 2 ^ 64" "y < 2 ^ 64" "bs \<noteq> []"
  shows "poke m (adr x) bs (adr y) = (if x \<le> y \<and> y < x + length bs then bs ! (y - x) else m (adr y))"
proof -
  have "0 < length bs" using assms(3) by simp
  hence x: "x < 2 ^ 64" using assms(1) by linarith
  have "unat (adr y - adr x) < length bs \<longleftrightarrow> x \<le> y \<and> y < x + length bs"
    by (rule unat_adr_offset) (use x assms in auto)
  moreover have "x \<le> y \<Longrightarrow> unat (adr y - adr x) = y - x"
    using assms(2) by (simp add: adr_diff unat_adr)
  ultimately show ?thesis by (simp add: poke_def)
qed

lemma bytes_at_adr:
  assumes "length bs = n" "\<And>i. i < n \<Longrightarrow> m (adr (x + i)) = bs ! i"
  shows "bytes_at m (adr x) n = bs"
  by (rule nth_equalityI) (use assms in \<open>auto simp: bytes_at_def adr_def\<close>)

lemma bytes_at_cong:
  assumes "\<And>i. i < n \<Longrightarrow> m' (adr (x + i)) = m (adr (x + i))"
  shows "bytes_at m' (adr x) n = bytes_at m (adr x) n"
  using assms by (auto simp: bytes_at_def adr_def)

lemma copy_strings_layout:
  assumes "total as \<le> s" "s < 2 ^ 64" "length as \<le> room" "copy_strings room (adr s) as = (st, ptrs, sp)"
  shows "sp = adr (s - total as) \<and>
    list_all2 (\<lambda>p a. bytes_at (fold apply_store st m) p (Suc (length a)) = a @ [0] \<and>
      s - total as \<le> unat p \<and> unat p + Suc (length a) \<le> s) ptrs as \<and>
    (\<forall>y. y < 2 ^ 64 \<longrightarrow> y < s - total as \<or> s \<le> y \<longrightarrow> fold apply_store st m (adr y) = m (adr y))"
  using assms
proof (induction as arbitrary: s room st ptrs m)
  case (Cons a as)
  define s1 where "s1 = s - Suc (length a)"
  define m1 where "m1 = poke m (adr s1) (a @ [0])"
  have s1: "s1 + Suc (length a) = s" "total as \<le> s1" "s1 < 2 ^ 64" "s1 - total as = s - total (a # as)"
    using Cons.prems(1,2) by (simp_all add: s1_def)
  have "adr s - of_nat (Suc (length a)) = adr s1"
    using adr_diff [of "Suc (length a)" s] s1(1) by (simp add: adr_def s1_def)
  then obtain st' ptrs' where c: "copy_strings (room - 1) (adr s1) as = (st', ptrs', sp)"
    "st = Bytes (adr s1) (a @ [0]) # st'" "ptrs = adr s1 # ptrs'"
    using Cons.prems(3,4) by (auto simp: Let_def split: prod.splits if_splits)
  have IH: "sp = adr (s1 - total as) \<and>
    list_all2 (\<lambda>p a. bytes_at (fold apply_store st' m1) p (Suc (length a)) = a @ [0] \<and>
      s1 - total as \<le> unat p \<and> unat p + Suc (length a) \<le> s1) ptrs' as \<and>
    (\<forall>y. y < 2 ^ 64 \<longrightarrow> y < s1 - total as \<or> s1 \<le> y \<longrightarrow> fold apply_store st' m1 (adr y) = m1 (adr y))"
    by (rule Cons.IH [OF s1(2,3) _ c(1)]) (use Cons.prems(3) in simp)
  have f: "fold apply_store st m = fold apply_store st' m1" by (simp add: c(2) apply_store_def m1_def)
  have pk: "m1 (adr y) = (if s1 \<le> y \<and> y < s then (a @ [0]) ! (y - s1) else m (adr y))" if "y < 2 ^ 64" for y
    using poke_adr [of s1 "a @ [0]" y m] that s1 Cons.prems(2) by (simp add: m1_def)
  have "bytes_at (fold apply_store st' m1) (adr s1) (Suc (length a)) = bytes_at m1 (adr s1) (Suc (length a))"
    by (rule bytes_at_cong) (use IH s1 Cons.prems(2) in auto)
  also have "\<dots> = a @ [0]" by (rule bytes_at_adr) (use pk s1 Cons.prems(2) in auto)
  finally have "bytes_at (fold apply_store st m) (adr s1) (Suc (length a)) = a @ [0]" by (simp add: f)
  moreover have "fold apply_store st m (adr y) = m (adr y)"
    if "y < 2 ^ 64" "y < s - total (a # as) \<or> s \<le> y" for y
    using IH that s1 pk [of y] by (auto simp: f)
  moreover have "list_all2 (\<lambda>p b. bytes_at (fold apply_store st m) p (Suc (length b)) = b @ [0] \<and>
      s - total (a # as) \<le> unat p \<and> unat p + Suc (length b) \<le> s) ptrs' as"
    using IH s1(1,4) by (auto simp: f elim!: list_all2_mono)
  ultimately show ?case using IH s1 by (simp add: c(3) unat_adr)
qed simp

lemma push_words_layout:
  assumes "s mod 8 = 0" "8 * length ws \<le> s" "s < 2 ^ 64" "push_words (adr s) ws = (st, sp)"
  shows "sp = adr (s - 8 * length ws) \<and>
    (\<forall>i < length ws. read64 (fold apply_store st m) (adr (s - 8 * Suc i)) = ws ! i) \<and>
    (\<forall>y. y < 2 ^ 64 \<longrightarrow> y < s - 8 * length ws \<or> s \<le> y \<longrightarrow> fold apply_store st m (adr y) = m (adr y))"
  using assms
proof (induction ws arbitrary: s st m)
  case (Cons w ws)
  define s1 where "s1 = s - 8"
  define m1 where "m1 = write64 m (adr s1) w"
  have s1: "s1 + 8 = s" "8 * length ws \<le> s1" "s1 < 2 ^ 64" "s1 mod 8 = 0"
    using Cons.prems(1-3) by (auto simp: s1_def mod_diff_right_eq [symmetric])
  have a: "adr s - 8 = adr s1" using adr_diff_numeral [of "num.Bit0 (num.Bit0 (num.Bit0 num.One))" s] s1(1) by (simp add: s1_def)
  obtain st' where c: "push_words (adr s1) ws = (st', sp)" "st = Word (adr s1) w # st'"
    using Cons.prems(4) by (auto simp: a split: prod.splits)
  have IH: "sp = adr (s1 - 8 * length ws) \<and>
    (\<forall>i < length ws. read64 (fold apply_store st' m1) (adr (s1 - 8 * Suc i)) = ws ! i) \<and>
    (\<forall>y. y < 2 ^ 64 \<longrightarrow> y < s1 - 8 * length ws \<or> s1 \<le> y \<longrightarrow> fold apply_store st' m1 (adr y) = m1 (adr y))"
    by (rule Cons.IH [OF s1(4,2,3) c(1)])
  have f: "fold apply_store st m = fold apply_store st' m1" by (simp add: c(2) apply_store_def m1_def)
  have "read64 (fold apply_store st' m1) (adr s1) = read64 m1 (adr s1)"
    by (rule load_adr_cong) (use IH s1 Cons.prems(3) in auto)
  hence "read64 (fold apply_store st m) (adr (s - 8)) = w" using s1 by (simp add: f m1_def s1_def)
  moreover have "fold apply_store st m (adr y) = m (adr y)"
    if "y < 2 ^ 64" "y < s - 8 * length (w # ws) \<or> s \<le> y" for y
  proof -
    have "y < s1 - 8 * length ws \<or> s1 \<le> y" "y < s1 \<or> s \<le> y" using that(2) s1(1) by auto
    hence "fold apply_store st' m1 (adr y) = m1 (adr y)" "m1 (adr y) = m (adr y)"
      using IH store_adr_other [of s1 8 y m w] that(1) s1 Cons.prems(3) by (auto simp: m1_def)
    thus ?thesis by (simp add: f)
  qed
  moreover have "read64 (fold apply_store st m) (adr (s - 8 * Suc (Suc i))) = ws ! i" if "i < length ws" for i
    using IH that by (simp add: f s1_def)
  moreover have "sp = adr (s - 8 * length (w # ws))" using IH by (simp add: s1_def)
  ultimately show ?case by (auto simp: less_Suc_eq_0_disj)
qed simp

lemma push_words_rev:
  assumes "s mod 8 = 0" "8 * length ws \<le> s" "s < 2 ^ 64" "push_words (adr s) ws = (st, sp)" "j < length ws"
  shows "read64 (fold apply_store st m) (sp + 8 * of_nat j) = rev ws ! j"
proof -
  note l = push_words_layout [OF assms(1-4), of m]
  let ?i = "length ws - Suc j"
  have "sp + 8 * of_nat j = adr (s - 8 * Suc ?i)"
    using l assms(2,5) by (simp add: adr_def of_nat_diff algebra_simps)
  thus ?thesis using l assms(5) by (simp add: rev_nth)
qed

text \<open>
  C12: the stack that a new program finds. Below the strings, at a multiple of 16, lie the number of
  arguments, the pointers to them, a zero word, the pointers to the environment and a zero word;
  each pointer leads to its string with the terminating zero.
\<close>

theorem user_stack_layout:
  assumes "length argv \<le> 63" "length envp \<le> 63"
    and room: "total argv + total envp + 8 * (length argv + length envp) + 64 \<le> unat stack_top"
    and st: "setup_user_stack stack_top argv envp = (st, sp)" and m': "m' = fold apply_store st m"
  shows "\<exists>ap ep. unat sp mod 16 = 0 \<and>
    map (\<lambda>j. read64 m' (sp + 8 * of_nat j)) [0..<length argv + length envp + 3] =
      of_nat (length argv) # ap @ 0 # ep @ [0] \<and>
    list_all2 (\<lambda>p a. bytes_at m' p (Suc (length a)) = a @ [0]) ap argv \<and>
    list_all2 (\<lambda>p a. bytes_at m' p (Suc (length a)) = a @ [0]) ep envp"
proof -
  define s where "s = unat stack_top"
  define s1 where "s1 = s - total envp"
  define s2 where "s2 = s1 - total argv"
  define s3 where "s3 = s2 - s2 mod 16"
  have b: "s < 2 ^ 64" by (simp add: s_def unat_u64_less [simplified])
  have le: "total envp \<le> s" "total argv \<le> s1" "s3 \<le> s2" "s2 \<le> s1" "s1 \<le> s"
    "8 * (length argv + length envp) + 48 \<le> s3" "s2 < 2 ^ 64" "s1 < 2 ^ 64" "s3 < 2 ^ 64"
    using room b by (auto simp: s_def s1_def s2_def s3_def)
  obtain st1 ep sp1 where c1: "copy_strings 63 (adr s) envp = (st1, ep, sp1)" by (metis prod_cases3)
  obtain st2 ap sp2 where c2: "copy_strings 63 sp1 argv = (st2, ap, sp2)" by (metis prod_cases3)
  define ws where "ws = (if (length ap + length ep + 3) mod 2 \<noteq> 0 then [0] else []) @
    [0] @ rev ep @ [0] @ rev ap @ [of_nat (length ap) :: u64]"
  obtain st3 where c3: "push_words (sp2 AND NOT 0xF) ws = (st3, sp)" "st = st1 @ st2 @ st3"
    using st c1 c2 by (auto simp: setup_user_stack_def ws_def s_def Let_def split: prod.splits)
  define m1 m2 where "m1 = fold apply_store st1 m" and "m2 = fold apply_store st2 m1"
  have m3: "m' = fold apply_store st3 m2" by (simp add: m' c3(2) m1_def m2_def)
  note l1 = copy_strings_layout [OF le(1) b assms(2) c1, of m, folded m1_def s1_def]
  have sp1: "sp1 = adr s1" using l1 by simp
  note l2 = copy_strings_layout [OF le(2,8) assms(1) c2 [unfolded sp1], of m1, folded m2_def s2_def]
  have len: "length ap = length argv" "length ep = length envp" using l1 l2 by (auto dest: list_all2_lengthD)
  have al: "sp2 AND NOT 0xF = adr s3"
  proof -
    have "(0xF :: u64) = mask 4" by (simp add: mask_eq_exp_minus_1)
    hence "unat (sp2 AND NOT 0xF) = s3" using l2 unat_and_not_mask [of sp2 4] le by (simp add: s3_def unat_adr)
    thus ?thesis by (metis adr_unat)
  qed
  have even: "length ws mod 2 = 0" and n: "length ws \<le> length argv + length envp + 4" "length argv + length envp + 3 \<le> length ws"
    using len by (auto simp: ws_def) presburger+
  have s3: "s3 mod 8 = 0" "s3 mod 16 = 0" "8 * length ws \<le> s3"
    using n(1) le(6) by (auto simp: s3_def) (presburger | linarith)+
  note l3 = push_words_layout [OF s3(1,3) le(9) c3(1) [unfolded al], of m2, folded m3]
  note r3 = push_words_rev [OF s3(1,3) le(9) c3(1) [unfolded al], of _ m2, folded m3]
  have "unat sp = s3 - 8 * length ws" using l3 le(9) by (simp add: unat_adr)
  moreover obtain q where "length ws = 2 * q" using even by auto
  moreover obtain p where "s3 = 16 * p" using s3(2) by auto
  ultimately have "unat sp mod 16 = 0" by (simp add: diff_mult_distrib2 [symmetric])
  moreover have "map (\<lambda>j. read64 m' (sp + 8 * of_nat j)) [0..<length argv + length envp + 3] =
      of_nat (length argv) # ap @ 0 # ep @ [0]"
  proof (rule nth_equalityI)
    fix j assume "j < length (map (\<lambda>j. read64 m' (sp + 8 * of_nat j)) [0..<length argv + length envp + 3])"
    hence j: "j < length argv + length envp + 3" by simp
    have "rev ws = (of_nat (length argv) # ap @ 0 # ep @ [0]) @ (if (length ap + length ep + 3) mod 2 \<noteq> 0 then [0] else [])"
      by (simp add: ws_def len)
    moreover have "j < length (of_nat (length argv) # ap @ 0 # ep @ [0 :: u64])" using j len by simp
    ultimately have "rev ws ! j = (of_nat (length argv) # ap @ 0 # ep @ [0]) ! j" by (simp only: nth_append_left)
    thus "map (\<lambda>j. read64 m' (sp + 8 * of_nat j)) [0..<length argv + length envp + 3] ! j =
        (of_nat (length argv) # ap @ 0 # ep @ [0]) ! j"
      using r3 [of j] j n(2) by simp
  qed (simp add: len)
  moreover have up: "bytes_at m' p k = bytes_at m2 p k" if "s2 \<le> unat p" "unat p + k \<le> s" for p k
    using bytes_at_cong [of k m' "unat p" m2] l3 that le b by simp
  hence "list_all2 (\<lambda>p a. bytes_at m' p (Suc (length a)) = a @ [0]) ap argv"
    using l2 le by (auto elim!: list_all2_mono)
  moreover have "bytes_at m2 p k = bytes_at m1 p k" if "s1 \<le> unat p" "unat p + k \<le> s" for p k
    using bytes_at_cong [of k m2 "unat p" m1] l2 that le b by simp
  hence "list_all2 (\<lambda>p a. bytes_at m' p (Suc (length a)) = a @ [0]) ep envp"
    using l1 le up by (auto elim!: list_all2_mono)
  ultimately show ?thesis by (intro exI [of _ ap] exI [of _ ep] conjI)
qed

theorem user_stack_layout_witness:
  "\<exists>st sp ap ep. setup_user_stack STACK_TOP [[0x6C, 0x73], [0x2F]] [[0x41]] = (st, sp) \<and> unat sp mod 16 = 0 \<and>
    map (\<lambda>j. read64 (fold apply_store st (\<lambda>_. 0)) (sp + 8 * of_nat j)) [0..<2 + 1 + 3] = 2 # ap @ 0 # ep @ [0]"
proof -
  obtain st sp where st: "setup_user_stack STACK_TOP [[0x6C, 0x73], [0x2F]] [[0x41]] = (st, sp)" by fastforce
  obtain ap ep where "unat sp mod 16 = 0"
    "map (\<lambda>j. read64 (fold apply_store st (\<lambda>_. 0)) (sp + 8 * of_nat j)) [0..<2 + 1 + 3] = 2 # ap @ 0 # ep @ [0]"
    using user_stack_layout [OF _ _ _ st refl, of "\<lambda>_. 0"] by (force simp: STACK_TOP_def)
  with st show ?thesis by (intro exI [of _ st] exI [of _ sp] exI [of _ ap] exI [of _ ep] conjI)
qed

end
