(* ===== verification/Channel_Interface.thy ===== *)
theory Channel_Interface
  imports Main
begin

text \<open>
  What the users of a pipe rely on: a channel holds a sequence; a write appends a prefix of what it
  is given, a read takes elements from the front. From these two laws it follows, for every
  interleaving of writes and reads, that what is read is what was written, in the same order.
\<close>

datatype 'a channel_op = Put "'a list" | Get nat

locale channel =
  fixes inv :: "'s \<Rightarrow> bool"
    and contents :: "'s \<Rightarrow> 'a list"
    and put :: "'s \<Rightarrow> 'a list \<Rightarrow> 's \<times> nat"
    and get :: "nat \<Rightarrow> 's \<Rightarrow> 'a list \<times> 's"
  assumes put_law: "\<lbrakk>inv s; put s xs = (s', n)\<rbrakk> \<Longrightarrow>
      inv s' \<and> n \<le> length xs \<and> contents s' = contents s @ take n xs"
    and get_law: "\<lbrakk>inv s; get k s = (ys, s')\<rbrakk> \<Longrightarrow>
      inv s' \<and> contents s = ys @ contents s' \<and> length ys = min k (length (contents s))"
begin

text \<open>A sequence of operations: the elements accepted, the elements delivered, the state at the end.\<close>

fun run :: "'a channel_op list \<Rightarrow> 's \<Rightarrow> 'a list \<times> 'a list \<times> 's" where
  "run [] s = ([], [], s)"
| "run (Put xs # ops) s =
     (let (s1, n) = put s xs; (acc, del, s2) = run ops s1 in (take n xs @ acc, del, s2))"
| "run (Get k # ops) s =
     (let (ys, s1) = get k s; (acc, del, s2) = run ops s1 in (acc, ys @ del, s2))"

lemma run_fifo:
  assumes "inv s" "run ops s = (acc, del, s')"
  shows "inv s' \<and> contents s @ acc = del @ contents s'"
  using assms
proof (induction ops s arbitrary: acc del s' rule: run.induct)
  case (2 xs ops s)
  obtain s1 n acc1 where p: "put s xs = (s1, n)" and r: "run ops s1 = (acc1, del, s')" "acc = take n xs @ acc1"
    using "2.prems"(2) by (auto simp: Let_def split: prod.splits)
  note law = put_law [OF "2.prems"(1) p]
  have "inv s' \<and> contents s1 @ acc1 = del @ contents s'"
    by (rule "2.IH" [OF p [symmetric] refl _ r(1)]) (use law in simp)
  thus ?case using law r(2) by (simp flip: append_assoc)
next
  case (3 k ops s)
  obtain ys s1 del1 where g: "get k s = (ys, s1)" and r: "run ops s1 = (acc, del1, s')" "del = ys @ del1"
    using "3.prems"(2) by (auto simp: Let_def split: prod.splits)
  note law = get_law [OF "3.prems"(1) g]
  have "inv s' \<and> contents s1 @ acc = del1 @ contents s'"
    by (rule "3.IH" [OF g [symmetric] refl _ r(1)]) (use law in simp)
  thus ?case using law r(2) by simp
qed simp

end

end
