(* ===== verification/Descriptors.thy ===== *)
theory Descriptors
  imports Exec Channel_Interface
begin

unbundle bit_operations_syntax

text \<open>
  File descriptors and pipes, the first part of \<open>src/user/syscall.cpp\<close>. Each process has a table
  of 32 descriptors; the pipes are 32 static objects that descriptors name by their index. The
  strings and buffers that a system call reads or writes through user pointers are lists here, and
  a null pointer is \<open>None\<close>. As before, the outer \<open>None\<close> is a fault of the kernel. A call that passes
  control on to the terminal driver, or that waits for another task, says so in its result.
\<close>

section \<open>Pipes\<close>

definition PIPE_SIZE :: nat where "PIPE_SIZE = 4096"

definition empty_pipe :: pipe where
  "empty_pipe = \<lparr>buffer = replicate PIPE_SIZE 0, read_pos = 0, write_pos = 0, readers = 0, writers = 0\<rparr>"

fun pipe_write :: "pipe \<Rightarrow> u8 list \<Rightarrow> pipe \<times> nat" where
  "pipe_write p [] = (p, 0)"
| "pipe_write p (b # bs) =
     (if PIPE_SIZE \<le> write_pos p then (p, 0)
      else
        let (p', n) = pipe_write (p\<lparr>buffer := (buffer p)[write_pos p := b], write_pos := Suc (write_pos p)\<rparr>) bs
        in (p', Suc n))"

fun pipe_copy :: "nat \<Rightarrow> pipe \<Rightarrow> u8 list \<times> pipe" where
  "pipe_copy 0 p = ([], p)"
| "pipe_copy (Suc n) p =
     (if read_pos p < write_pos p then
        let (bs, p') = pipe_copy n (p\<lparr>read_pos := Suc (read_pos p)\<rparr>)
        in (buffer p ! read_pos p # bs, p')
      else ([], p))"

definition pipe_read :: "nat \<Rightarrow> pipe \<Rightarrow> u8 list \<times> pipe" where
  "pipe_read n p =
     (let (bs, p') = pipe_copy n p
      in (bs, if write_pos p' \<le> read_pos p' then p'\<lparr>read_pos := 0, write_pos := 0\<rparr> else p'))"

definition pipe_inv :: "pipe \<Rightarrow> bool" where
  "pipe_inv p \<longleftrightarrow> length (buffer p) = PIPE_SIZE \<and> read_pos p \<le> write_pos p \<and> write_pos p \<le> PIPE_SIZE"

definition pipe_contents :: "pipe \<Rightarrow> u8 list" where
  "pipe_contents p = drop (read_pos p) (take (write_pos p) (buffer p))"

lemma pipe_write_law:
  assumes "pipe_inv p" "pipe_write p bs = (p', n)"
  shows "pipe_inv p' \<and> n = min (length bs) (PIPE_SIZE - write_pos p) \<and>
    pipe_contents p' = pipe_contents p @ take n bs \<and> readers p' = readers p \<and> writers p' = writers p"
  using assms
proof (induction p bs arbitrary: p' n rule: pipe_write.induct)
  case (2 p b bs)
  show ?case
  proof (cases "PIPE_SIZE \<le> write_pos p")
    case True thus ?thesis using "2.prems" by auto
  next
    case False
    let ?p = "p\<lparr>buffer := (buffer p)[write_pos p := b], write_pos := Suc (write_pos p)\<rparr>"
    obtain m where m: "pipe_write ?p bs = (p', m)" "n = Suc m"
      using "2.prems"(2) False by (auto simp: Let_def split: prod.splits)
    have inv: "pipe_inv ?p" using "2.prems"(1) False by (simp add: pipe_inv_def)
    have "take (Suc (write_pos p)) ((buffer p)[write_pos p := b]) = take (write_pos p) (buffer p) @ [b]"
      using "2.prems"(1) False by (simp add: pipe_inv_def take_Suc_conv_app_nth)
    hence "pipe_contents ?p = pipe_contents p @ [b]"
      using "2.prems"(1) by (simp add: pipe_contents_def pipe_inv_def)
    thus ?thesis using "2.IH" [OF False inv m(1)] m(2) False by auto
  qed
qed simp

lemma pipe_copy_law:
  assumes "pipe_inv p" "pipe_copy n p = (bs, p')"
  shows "pipe_inv p' \<and> pipe_contents p = bs @ pipe_contents p' \<and>
    length bs = min n (length (pipe_contents p)) \<and> readers p' = readers p \<and> writers p' = writers p"
  using assms
proof (induction n p arbitrary: bs p' rule: pipe_copy.induct)
  case (2 n p)
  show ?case
  proof (cases "read_pos p < write_pos p")
    case False
    hence "bs = []" "p' = p" "pipe_contents p = []"
      using "2.prems" by (auto simp: pipe_contents_def)
    thus ?thesis using "2.prems"(1) by simp
  next
    case True
    define q where "q = p\<lparr>read_pos := Suc (read_pos p)\<rparr>"
    have keep: "readers q = readers p" "writers q = writers p" by (simp_all add: q_def)
    obtain cs where cs: "pipe_copy n q = (cs, p')" "bs = buffer p ! read_pos p # cs"
      using "2.prems"(2) True by (auto simp: Let_def q_def split: prod.splits)
    have inv: "pipe_inv q" using "2.prems"(1) True by (simp add: pipe_inv_def q_def)
    have "read_pos p < length (take (write_pos p) (buffer p))"
      using "2.prems"(1) True by (simp add: pipe_inv_def)
    from Cons_nth_drop_Suc [OF this] have c: "pipe_contents p = buffer p ! read_pos p # pipe_contents q"
      using True by (simp add: pipe_contents_def q_def)
    have IH: "pipe_inv p'" "pipe_contents q = cs @ pipe_contents p'" "length cs = min n (length (pipe_contents q))"
      "readers p' = readers q" "writers p' = writers q"
      using "2.IH" [OF True inv [unfolded q_def] cs(1) [unfolded q_def], folded q_def] by blast+
    have "length bs = min (Suc n) (length (pipe_contents p))" by (simp only: cs(2) c list.size IH(3))
    moreover have "pipe_contents p = bs @ pipe_contents p'" by (simp only: c cs(2) IH(2) append_Cons)
    ultimately show ?thesis using IH(1,4,5) keep by simp
  qed
qed simp

lemma pipe_read_law:
  assumes "pipe_inv p" "pipe_read n p = (bs, p')"
  shows "pipe_inv p' \<and> pipe_contents p = bs @ pipe_contents p' \<and> length bs = min n (length (pipe_contents p)) \<and>
    readers p' = readers p \<and> writers p' = writers p"
proof -
  obtain q where q: "pipe_copy n p = (bs, q)"
    "p' = (if write_pos q \<le> read_pos q then q\<lparr>read_pos := 0, write_pos := 0\<rparr> else q)"
    using assms(2) by (auto simp: pipe_read_def Let_def split: prod.splits)
  note law = pipe_copy_law [OF assms(1) q(1)]
  have "pipe_inv p'" "pipe_contents p' = pipe_contents q" "readers p' = readers q" "writers p' = writers q"
    using law q(2) by (auto simp: pipe_inv_def pipe_contents_def)
  thus ?thesis using law by metis
qed

text \<open>One call of a reader: an empty pipe gives nothing and is left as it is.\<close>

definition pipe_take :: "nat \<Rightarrow> pipe \<Rightarrow> u8 list \<times> pipe" where
  "pipe_take n p = (if write_pos p \<le> read_pos p then ([], p) else pipe_read n p)"

lemma pipe_take_law:
  assumes "pipe_inv p" "pipe_take n p = (bs, p')"
  shows "pipe_inv p' \<and> pipe_contents p = bs @ pipe_contents p' \<and> length bs = min n (length (pipe_contents p))"
proof (cases "write_pos p \<le> read_pos p")
  case True
  hence "bs = []" "p' = p" "pipe_contents p = []" using assms by (auto simp: pipe_take_def pipe_contents_def)
  thus ?thesis using assms(1) by simp
next
  case False
  hence "pipe_read n p = (bs, p')" using assms(2) by (simp add: pipe_take_def)
  from pipe_read_law [OF assms(1) this] show ?thesis by blast
qed

interpretation pipe: channel pipe_inv pipe_contents pipe_write pipe_take
proof
  fix s xs s' n assume "pipe_inv s" "pipe_write s xs = (s', n)"
  note law = pipe_write_law [OF this]
  hence "n \<le> length xs" by linarith
  with law show "pipe_inv s' \<and> n \<le> length xs \<and> pipe_contents s' = pipe_contents s @ take n xs" by blast
qed (rule pipe_take_law)

section \<open>The table of descriptors\<close>

definition MAX_FDS :: int where "MAX_FDS = 32"

text \<open>The result of a call: a value with the bytes put into the user's buffer, or what it waits for.\<close>

datatype io = Done u64 "u8 list" | Tty_write "u8 list" | Tty_read u64 | Pipe_wait

abbreviation FAIL :: u64 where "FAIL \<equiv> -1"

definition get_fd_entry :: "'w kernel \<Rightarrow> int \<Rightarrow> (u64 \<times> nat \<times> fd_entry) option option" where
  "get_fd_entry k fd =
     (if fd < 0 \<or> MAX_FDS \<le> fd then Some None
      else do {
        p \<leftarrow> current_process k;
        case p of
          None \<Rightarrow> Some None
        | Some p \<Rightarrow> do {
            pd \<leftarrow> procs k p;
            if nat fd < length (fds pd) then Some (Some (p, nat fd, fds pd ! nat fd)) else None
          }
      })"

definition open_entry :: "'w kernel \<Rightarrow> int \<Rightarrow> (u64 \<times> nat \<times> fd_entry) option option" where
  "open_entry k fd =
     map_option (\<lambda>r. case r of None \<Rightarrow> None
       | Some (p, i, e) \<Rightarrow> if fd_type e = FD_NONE then None else Some (p, i, e)) (get_fd_entry k fd)"

definition valid_fd :: "'w kernel \<Rightarrow> int \<Rightarrow> bool option" where
  "valid_fd k fd = map_option (\<lambda>r. r \<noteq> None) (open_entry k fd)"

definition set_fd :: "u64 \<Rightarrow> nat \<Rightarrow> fd_entry \<Rightarrow> 'w kernel \<Rightarrow> 'w kernel option" where
  "set_fd p i e k = do { pd \<leftarrow> procs k p; Some (set_proc p (pd\<lparr>fds := (fds pd)[i := e]\<rparr>) k) }"

text \<open>The first free descriptor from \<open>lo\<close> on, other than those in \<open>taken\<close>.\<close>

definition free_fd :: "fd_entry list \<Rightarrow> nat \<Rightarrow> nat list \<Rightarrow> nat option" where
  "free_fd es lo taken =
     List.find (\<lambda>i. fd_type (es ! i) = FD_NONE \<and> i \<notin> set taken) [lo..<min 32 (length es)]"

definition alloc_fd :: "ptr option \<Rightarrow> 'w kernel \<Rightarrow> (int \<times> 'w kernel) option" where
  "alloc_fd n k = do {
     p \<leftarrow> current_process k;
     case p of
       None \<Rightarrow> Some (-1, k)
     | Some p \<Rightarrow> do {
         pd \<leftarrow> procs k p;
         case free_fd (fds pd) 3 [] of
           None \<Rightarrow> Some (-1, k)
         | Some i \<Rightarrow> do {
             k \<leftarrow> set_fd p i (empty_fd\<lparr>fd_node := n, fd_type := (if n = None then FD_NONE else FD_FILE)\<rparr>) k;
             Some (int i, k)
           }
       }
   }"

section \<open>pipe, close and dup\<close>

definition pipe_end :: "nat \<Rightarrow> bool \<Rightarrow> fd_entry" where
  "pipe_end i rd = empty_fd\<lparr>fd_type := FD_PIPE, fd_pipe := Some i, readable := rd, writable := \<not> rd\<rparr>"

text \<open>The numbers of the two descriptors are what the call stores at the address in its argument.\<close>

definition sys_pipe :: "u64 \<Rightarrow> 'w kernel \<Rightarrow> (u64 \<times> (nat \<times> nat) option \<times> 'w kernel) option" where
  "sys_pipe arg k = (if arg = 0 then Some (FAIL, None, k) else do {
     p \<leftarrow> current_process k;
     case p of
       None \<Rightarrow> Some (FAIL, None, k)
     | Some p \<Rightarrow> do {
         pd \<leftarrow> procs k p;
         case List.find (\<lambda>i. \<not> pipe_used k ! i) [0..<min 32 (length (pipe_used k))] of
           None \<Rightarrow> Some (FAIL, None, k)
         | Some i \<Rightarrow>
             (case free_fd (fds pd) 3 [] of
                None \<Rightarrow> Some (FAIL, None, k\<lparr>pipes := (pipes k)[i := empty_pipe]\<rparr>)
              | Some rfd \<Rightarrow>
                  (case free_fd (fds pd) 3 [rfd] of
                     None \<Rightarrow> Some (FAIL, None, k\<lparr>pipes := (pipes k)[i := empty_pipe]\<rparr>)
                   | Some wfd \<Rightarrow>
                       let k = k\<lparr>pipes := (pipes k)[i := empty_pipe\<lparr>readers := 1, writers := 1\<rparr>],
                                 pipe_used := (pipe_used k)[i := True]\<rparr>;
                           pd = pd\<lparr>fds := (fds pd)[rfd := pipe_end i True, wfd := pipe_end i False]\<rparr>
                       in Some (0, Some (rfd, wfd), set_proc p pd k)))
       }
   })"

text \<open>A pipe loses the references of a descriptor, and is released by the test \<open>gone\<close>.\<close>

definition drop_refs :: "fd_entry \<Rightarrow> pipe \<Rightarrow> pipe" where
  "drop_refs e p = p\<lparr>readers := readers p - (if readable e then 1 else 0),
                     writers := writers p - (if writable e then 1 else 0)\<rparr>"

definition release_pipe :: "(pipe \<Rightarrow> bool) \<Rightarrow> fd_entry \<Rightarrow> nat \<Rightarrow> 'w kernel \<Rightarrow> 'w kernel option" where
  "release_pipe gone e i k =
     (if i < length (pipes k) then
        let q = drop_refs e (pipes k ! i); k1 = k\<lparr>pipes := (pipes k)[i := q]\<rparr>
        in Some (if gone q then k1\<lparr>pipe_used := (pipe_used k)[i := False]\<rparr> else k1)
      else None)"

definition close_handle :: "fd_entry \<Rightarrow> 'w kernel \<Rightarrow> 'w kernel option" where
  "close_handle e k =
     (case (fd_mount e, fd_handle e) of
        (Some a, Some h) \<Rightarrow> do {
          m \<leftarrow> map_of (mounts (fsys k)) a;
          Some (case Option.bind (m_fs m) (\<lambda>f. fs_close (fs_ops (fsys k) f)) of
                  None \<Rightarrow> k
                | Some cls \<Rightarrow> k\<lparr>fsys := set_world (cls (world (fsys k)) h) (fsys k)\<rparr>)
        }
      | _ \<Rightarrow> Some k)"

definition sys_close :: "u64 \<Rightarrow> 'w kernel \<Rightarrow> (u64 \<times> 'w kernel) option" where
  "sys_close a k = do {
     r \<leftarrow> open_entry k (c_int a);
     case r of
       None \<Rightarrow> Some (FAIL, k)
     | Some (p, i, e) \<Rightarrow> do {
         k \<leftarrow> close_handle e k;
         k \<leftarrow> (if fd_type e = FD_PIPE then do {
                 j \<leftarrow> fd_pipe e;
                 release_pipe (\<lambda>q. readers q = 0 \<and> writers q = 0) e j k
               } else Some k);
         k \<leftarrow> set_fd p i empty_fd k;
         Some (0, k)
       }
   }"

definition close_one :: "u64 \<Rightarrow> nat \<Rightarrow> 'w kernel \<Rightarrow> 'w kernel option" where
  "close_one p i k = do {
     pd \<leftarrow> procs k p;
     if i < length (fds pd) then
       let e = fds pd ! i in
       if fd_type e = FD_NONE then Some k
       else do {
         k \<leftarrow> (case (if fd_type e = FD_PIPE then fd_pipe e else None) of
                 Some j \<Rightarrow> release_pipe (\<lambda>q. readers q \<le> 0 \<and> writers q \<le> 0) e j k
               | None \<Rightarrow> close_handle e k);
         set_fd p i empty_fd k
       }
     else None
   }"

definition sys_close_all :: "u64 option \<Rightarrow> 'w kernel \<Rightarrow> 'w kernel option" where
  "sys_close_all proc k =
     (case proc of None \<Rightarrow> Some k | Some p \<Rightarrow> for_each (close_one p) [0..<32] k)"

text \<open>Copying a descriptor, with the references it adds.\<close>

definition dup_to :: "u64 \<Rightarrow> nat \<Rightarrow> fd_entry \<Rightarrow> 'w kernel \<Rightarrow> 'w kernel option" where
  "dup_to p j e k = do {
     k \<leftarrow> set_fd p j e k;
     ps \<leftarrow> share_pipe e (pipes k);
     Some (k\<lparr>pipes := ps\<rparr>)
   }"

definition sys_dup :: "u64 \<Rightarrow> 'w kernel \<Rightarrow> (u64 \<times> 'w kernel) option" where
  "sys_dup a k = do {
     r \<leftarrow> open_entry k (c_int a);
     case r of
       None \<Rightarrow> Some (FAIL, k)
     | Some (p, i, e) \<Rightarrow> do {
         pd \<leftarrow> procs k p;
         case free_fd (fds pd) 0 [] of
           None \<Rightarrow> Some (FAIL, k)
         | Some j \<Rightarrow> do { k \<leftarrow> dup_to p j e k; Some (of_nat j, k) }
       }
   }"

definition sys_dup2 :: "u64 \<Rightarrow> u64 \<Rightarrow> 'w kernel \<Rightarrow> (u64 \<times> 'w kernel) option" where
  "sys_dup2 a b k = do {
     r \<leftarrow> open_entry k (c_int a);
     case r of
       None \<Rightarrow> Some (FAIL, k)
     | Some (p, i, e) \<Rightarrow>
         if c_int b < 0 \<or> MAX_FDS \<le> c_int b then Some (FAIL, k)
         else do { k \<leftarrow> dup_to p (nat (c_int b)) e k; Some (of_int (c_int b), k) }
   }"

definition dup_from :: "u64 \<Rightarrow> fd_entry \<Rightarrow> u64 \<Rightarrow> 'w kernel \<Rightarrow> (u64 \<times> 'w kernel) option" where
  "dup_from p e arg k =
     (if c_int arg < 0 \<or> MAX_FDS \<le> c_int arg then Some (FAIL, k)
      else do {
        pd \<leftarrow> procs k p;
        case free_fd (fds pd) (nat (c_int arg)) [] of
          None \<Rightarrow> Some (FAIL, k)
        | Some j \<Rightarrow> do { k \<leftarrow> set_fd p j e k; Some (of_nat j, k) }
      })"

definition sys_fcntl :: "u64 \<Rightarrow> u64 \<Rightarrow> u64 \<Rightarrow> 'w kernel \<Rightarrow> (u64 \<times> 'w kernel) option" where
  "sys_fcntl a b arg k = do {
     r \<leftarrow> open_entry k (c_int a);
     case r of
       None \<Rightarrow> Some (FAIL, k)
     | Some (p, i, e) \<Rightarrow>
         let cmd = c_int b in
         if cmd = 0 \<or> cmd = 1030 then dup_from p e arg k
         else if cmd = 1 then Some (of_int (fd_flags e), k)
         else if cmd = 2 then do { k \<leftarrow> set_fd p i (e\<lparr>fd_flags := c_int arg\<rparr>) k; Some (0, k) }
         else if cmd = 3 then Some (if nonblock e then 0x800 else 0, k)
         else if cmd = 4 then do { k \<leftarrow> set_fd p i (e\<lparr>nonblock := (arg AND 0x800 \<noteq> 0)\<rparr>) k; Some (0, k) }
         else Some (0, k)
   }"

section \<open>read and write\<close>

text \<open>The operation of the file system behind a descriptor without a node.\<close>

definition fd_op :: "'w kernel \<Rightarrow> fd_entry \<Rightarrow> ('w file_system \<Rightarrow> 'a option) \<Rightarrow> ('a \<times> ptr) option option" where
  "fd_op k e sel =
     (case (fd_node e, fd_mount e, fd_handle e) of
        (None, Some a, Some h) \<Rightarrow> do {
          m \<leftarrow> map_of (mounts (fsys k)) a;
          Some (map_option (\<lambda>f. (f, h)) (Option.bind (m_fs m) (\<lambda>f. sel (fs_ops (fsys k) f))))
        }
      | _ \<Rightarrow> Some None)"

definition set_fs_world :: "'w \<Rightarrow> 'w kernel \<Rightarrow> 'w kernel" where
  "set_fs_world w k = k\<lparr>fsys := set_world w (fsys k)\<rparr>"

text \<open>
  Writing into the buffer of a file: it grows when the end lies beyond its size. The part between
  the old size and the place written is not initialised.
\<close>

definition overlay :: "u8 list \<Rightarrow> nat \<Rightarrow> u8 list \<Rightarrow> u8 list option" where
  "overlay b off bs =
     (if off + length bs \<le> length b then Some (take off b @ bs @ drop (off + length bs) b) else None)"

definition grow_file :: "u64 \<Rightarrow> vfile \<Rightarrow> 'w vfs \<Rightarrow> (vfile option \<times> 'w vfs) option" where
  "grow_file new_offset f s =
     (if f_size f < new_offset then
        let (b, s1) = kmalloc_node s in
        case b of
          None \<Rightarrow> Some (None, s1)
        | Some a \<Rightarrow> do {
            old \<leftarrow> (case private_data f of None \<Rightarrow> Some [] | Some _ \<Rightarrow> buffer_bytes f (unat (f_size f)));
            let new_data = old @ map (fresh s a) [length old..<Suc (unat new_offset)];
            Some (Some \<lparr>f_size = new_offset, private_data = Some new_data\<rparr>, s1)
          }
      else Some (Some f, s))"

definition write_file :: "ptr \<Rightarrow> u64 \<Rightarrow> u8 list \<Rightarrow> 'w vfs \<Rightarrow> (bool \<times> 'w vfs) option" where
  "write_file n off bs s = do {
     (ok, s) \<leftarrow> ensure_file_storage n s;
     if \<not> ok then Some (False, s)
     else do {
       nd \<leftarrow> nodes s n;
       f \<leftarrow> nd_file nd;
       (f', s) \<leftarrow> grow_file (off + of_nat (length bs)) f s;
       case f' of
         None \<Rightarrow> Some (False, s)
       | Some f' \<Rightarrow> do {
           b \<leftarrow> private_data f';
           b \<leftarrow> overlay b (unat off) bs;
           b \<leftarrow> overlay b (unat (f_size f')) [0];
           Some (True, set_node n (nd\<lparr>nd_file := Some (f'\<lparr>private_data := Some b\<rparr>)\<rparr>) s)
         }
     }
   }"

definition write_node :: "u64 \<Rightarrow> nat \<Rightarrow> fd_entry \<Rightarrow> ptr \<Rightarrow> u8 list \<Rightarrow> 'w kernel \<Rightarrow> (io \<times> 'w kernel) option" where
  "write_node p i e n buf k = do {
     nd \<leftarrow> nodes (fsys k) n;
     case Option.bind (nd_dev nd) (\<lambda>d. dev_write (devs (fsys k) d)) of
       Some wr \<Rightarrow>
         (case wr (world (fsys k)) buf (offset e) of
            (written, w) \<Rightarrow> do {
              k \<leftarrow> set_fd p i (e\<lparr>offset := offset e + written\<rparr>) (set_fs_world w k);
              Some (Done written [], k)
            })
     | None \<Rightarrow>
         if nd_directory nd then Some (Done FAIL [], k)
         else do {
           (ok, s) \<leftarrow> write_file n (offset e) buf (fsys k);
           if \<not> ok then Some (Done FAIL [], k\<lparr>fsys := s\<rparr>)
           else do {
             k \<leftarrow> set_fd p i (e\<lparr>offset := offset e + of_nat (length buf)\<rparr>) (k\<lparr>fsys := s\<rparr>);
             Some (Done (of_nat (length buf)) [], k)
           }
         }
   }"

definition write_entry :: "u64 \<Rightarrow> nat \<Rightarrow> fd_entry \<Rightarrow> u8 list \<Rightarrow> 'w kernel \<Rightarrow> (io \<times> 'w kernel) option" where
  "write_entry p i e buf k =
     (if fd_type e = FD_TTY then Some (Tty_write buf, k)
      else if fd_type e = FD_PIPE then
        if \<not> writable e then Some (Done FAIL [], k)
        else do {
          j \<leftarrow> fd_pipe e;
          if j < length (pipes k) then
            let (q, n) = pipe_write (pipes k ! j) buf
            in Some (Done (of_nat n) [], k\<lparr>pipes := (pipes k)[j := q]\<rparr>)
          else None
        }
      else do {
        f \<leftarrow> fd_op k e fs_write;
        case f of
          Some (wr, h) \<Rightarrow>
            (case wr (world (fsys k)) h buf of (r, w) \<Rightarrow> Some (Done (of_int r) [], set_fs_world w k))
        | None \<Rightarrow>
            (case fd_node e of
               None \<Rightarrow> Some (Done FAIL [], k)
             | Some n \<Rightarrow> write_node p i e n buf k)
      })"

definition sys_write :: "u64 \<Rightarrow> u8 list option \<Rightarrow> 'w kernel \<Rightarrow> (io \<times> 'w kernel) option" where
  "sys_write a buf k =
     (case buf of
        None \<Rightarrow> Some (Done 0 [], k)
      | Some bs \<Rightarrow>
          if bs = [] then Some (Done 0 [], k)
          else do {
            r \<leftarrow> open_entry k (c_int a);
            case r of
              None \<Rightarrow> Some (if c_int a = 1 \<or> c_int a = 2 then Tty_write bs else Done FAIL [], k)
            | Some (p, i, e) \<Rightarrow> write_entry p i e bs k
          })"

definition read_node :: "u64 \<Rightarrow> nat \<Rightarrow> fd_entry \<Rightarrow> ptr \<Rightarrow> u64 \<Rightarrow> 'w kernel \<Rightarrow> (io \<times> 'w kernel) option" where
  "read_node p i e n len k = do {
     nd \<leftarrow> nodes (fsys k) n;
     case Option.bind (nd_dev nd) (\<lambda>d. dev_read (devs (fsys k) d)) of
       Some rd \<Rightarrow>
         (case rd (world (fsys k)) len (offset e) of
            (got, bytes, w) \<Rightarrow> do {
              k \<leftarrow> set_fd p i (e\<lparr>offset := offset e + got\<rparr>) (set_fs_world w k);
              Some (Done got bytes, k)
            })
     | None \<Rightarrow>
         if nd_directory nd then Some (Done FAIL [], k)
         else
           (case nd_file nd of
              None \<Rightarrow> Some (Done 0 [], k)
            | Some f \<Rightarrow>
                (case private_data f of
                   None \<Rightarrow> Some (Done 0 [], k)
                 | Some b \<Rightarrow>
                     if f_size f = 0 \<or> f_size f \<le> offset e then Some (Done 0 [], k)
                     else
                       let remaining = f_size f - offset e; cnt = (if len < remaining then len else remaining) in
                       if unat (offset e) + unat cnt \<le> length b then do {
                         k \<leftarrow> set_fd p i (e\<lparr>offset := offset e + cnt\<rparr>) k;
                         Some (Done cnt (take (unat cnt) (drop (unat (offset e)) b)), k)
                       }
                       else None))
   }"

definition read_pipe :: "fd_entry \<Rightarrow> u64 \<Rightarrow> 'w kernel \<Rightarrow> (io \<times> 'w kernel) option" where
  "read_pipe e len k =
     (if \<not> readable e then Some (Done FAIL [], k)
      else do {
        j \<leftarrow> fd_pipe e;
        if j < length (pipes k) then
          let q = pipes k ! j in
          if write_pos q \<le> read_pos q then Some (if writers q \<le> 0 then Done 0 [] else Pipe_wait, k)
          else
            let (bs, q') = pipe_read (unat len) q
            in Some (Done (of_nat (length bs)) bs, k\<lparr>pipes := (pipes k)[j := q']\<rparr>)
        else None
      })"

definition sys_read :: "u64 \<Rightarrow> u64 \<Rightarrow> 'w kernel \<Rightarrow> (io \<times> 'w kernel) option" where
  "sys_read a len k =
     (if c_int a = 0 then Some (Tty_read len, k)
      else do {
        r \<leftarrow> open_entry k (c_int a);
        case r of
          None \<Rightarrow> Some (Done FAIL [], k)
        | Some (p, i, e) \<Rightarrow> do {
            f \<leftarrow> fd_op k e fs_read;
            case f of
              Some (rd, h) \<Rightarrow>
                (case rd (world (fsys k)) h len of (got, bytes, w) \<Rightarrow> Some (Done (of_int got) bytes, set_fs_world w k))
            | None \<Rightarrow>
                if fd_type e = FD_PIPE then read_pipe e len k
                else (case fd_node e of None \<Rightarrow> Some (Done FAIL [], k) | Some n \<Rightarrow> read_node p i e n len k)
          }
      })"

section \<open>open and lseek\<close>

text \<open>The path that the calls make of a relative one, in an array of 256 characters.\<close>

definition absolute :: "string \<Rightarrow> bool" where
  "absolute pth = (case pth of c # _ \<Rightarrow> c = CHR ''/'' | [] \<Rightarrow> False)"

definition abs_path :: "'w kernel \<Rightarrow> string \<Rightarrow> string option" where
  "abs_path k pth =
     (if absolute pth then Some pth
      else do {
        c \<leftarrow> (case current_cwd k of None \<Rightarrow> Some ''/'' | Some d \<Rightarrow> get_path (fsys k) (Some d));
        Some (take 255 (if c \<noteq> [] \<and> last c = CHR ''/'' then c @ pth else c @ ''/'' @ pth))
      })"

definition open_node_fd :: "string \<Rightarrow> u64 \<Rightarrow> 'w kernel \<Rightarrow> (u64 \<times> 'w kernel) option" where
  "open_node_fd pth fl k = do {
     (r, s) \<leftarrow> vfs_find (fs_view k) pth;
     (r, s) \<leftarrow> (if r = None \<and> fl AND 0x40 \<noteq> 0 then create_file_path pth s else Some (r, s));
     let k = k\<lparr>fsys := s\<rparr>;
     case r of
       None \<Rightarrow> Some (FAIL, k)
     | Some n \<Rightarrow> do {
         (fd, k) \<leftarrow> alloc_fd (Some n) k;
         if 0 \<le> fd \<and> fl AND 0x200 \<noteq> 0 then do {
           (_, s) \<leftarrow> write_content pth [] (fs_view k);
           Some (of_int fd, k\<lparr>fsys := s\<rparr>)
         }
         else Some (of_int fd, k)
       }
   }"

definition open_mounted :: "ptr \<Rightarrow> ptr option \<times> 'w \<Rightarrow> 'w kernel \<Rightarrow> (u64 \<times> 'w kernel) option" where
  "open_mounted a res k =
     (case res of
        (None, w) \<Rightarrow> Some (FAIL, set_fs_world w k)
      | (Some h, w) \<Rightarrow> do {
          (fd, k) \<leftarrow> alloc_fd None (set_fs_world w k);
          if 0 \<le> fd then do {
            r \<leftarrow> get_fd_entry k fd;
            case r of
              None \<Rightarrow> Some (FAIL, k)
            | Some (p, i, e) \<Rightarrow> do {
                k \<leftarrow> set_fd p i (e\<lparr>fd_type := FD_FILE, fd_handle := Some h, fd_mount := Some a\<rparr>) k;
                Some (of_int fd, k)
              }
          }
          else Some (FAIL, k)
        })"

definition sys_open :: "string option \<Rightarrow> u64 \<Rightarrow> 'w kernel \<Rightarrow> (u64 \<times> 'w kernel) option" where
  "sys_open arg fl k =
     (case arg of
        None \<Rightarrow> Some (FAIL, k)
      | Some pth \<Rightarrow> do {
          pth \<leftarrow> abs_path k pth;
          mnt \<leftarrow> find_mount (fsys k) pth;
          case mnt of
            None \<Rightarrow> open_node_fd pth fl k
          | Some (a, m) \<Rightarrow>
              (case Option.bind (m_fs m) (\<lambda>f. fs_open (fs_ops (fsys k) f)) of
                 None \<Rightarrow> open_node_fd pth fl k
               | Some opn \<Rightarrow> do {
                   mp \<leftarrow> m_path m;
                   let sub = skip_slashes (drop (length mp) pth);
                   if sub = [] then open_node_fd pth fl k
                   else open_mounted a (opn (world (fsys k)) (m_data m) sub) k
                 })
        })"

definition file_size :: "'w kernel \<Rightarrow> ptr option \<Rightarrow> u64 option" where
  "file_size k n =
     (case n of
        None \<Rightarrow> Some 0
      | Some n \<Rightarrow> do { nd \<leftarrow> nodes (fsys k) n; Some (case nd_file nd of None \<Rightarrow> 0 | Some f \<Rightarrow> f_size f) })"

definition sys_lseek :: "u64 \<Rightarrow> u64 \<Rightarrow> u64 \<Rightarrow> 'w kernel \<Rightarrow> (u64 \<times> 'w kernel) option" where
  "sys_lseek a b c k = do {
     r \<leftarrow> open_entry k (c_int a);
     case r of
       None \<Rightarrow> Some (FAIL, k)
     | Some (p, i, e) \<Rightarrow>
         if fd_type e = FD_PIPE then Some (FAIL, k)
         else do {
           f \<leftarrow> fd_op k e fs_lseek;
           case f of
             Some (seek, h) \<Rightarrow>
               (case seek (world (fsys k)) h (sint b) (c_int c) of
                  (ret, w) \<Rightarrow> do {
                    k \<leftarrow> (if 0 \<le> ret then set_fd p i (e\<lparr>offset := of_int ret\<rparr>) (set_fs_world w k)
                          else Some (set_fs_world w k));
                    Some (of_int ret, k)
                  })
           | None \<Rightarrow> do {
               sz \<leftarrow> file_size k (fd_node e);
               case (if c_int c = 0 then Some 0 else if c_int c = 1 then Some (offset e)
                     else if c_int c = 2 then Some sz else None) of
                 None \<Rightarrow> Some (FAIL, k)
               | Some base \<Rightarrow>
                   let new_offset = base + b in
                   if sint new_offset < 0 then Some (FAIL, k)
                   else do { k \<leftarrow> set_fd p i (e\<lparr>offset := new_offset\<rparr>) k; Some (new_offset, k) }
             }
         }
   }"

definition sys_fsize :: "u64 \<Rightarrow> 'w kernel \<Rightarrow> u64 option" where
  "sys_fsize a k = do {
     r \<leftarrow> open_entry k (c_int a);
     case r of
       None \<Rightarrow> Some FAIL
     | Some (p, i, e) \<Rightarrow> if fd_type e = FD_PIPE then Some 0 else file_size k (fd_node e)
   }"

section \<open>A pipe between two descriptors\<close>

definition pipe_ends :: "'w kernel \<Rightarrow> u64 \<Rightarrow> u64 \<Rightarrow> nat \<Rightarrow> bool" where
  "pipe_ends k w r j \<longleftrightarrow>
     j < length (pipes k) \<and> c_int r \<noteq> 0 \<and>
     (\<exists>p i e. open_entry k (c_int w) = Some (Some (p, i, e)) \<and> fd_type e = FD_PIPE \<and> fd_pipe e = Some j \<and> writable e) \<and>
     (\<exists>p i e. open_entry k (c_int r) = Some (Some (p, i, e)) \<and> fd_type e = FD_PIPE \<and> fd_pipe e = Some j \<and>
        readable e \<and> fd_mount e = None)"

text \<open>
  Calls of \<open>write\<close> on \<open>w\<close> and of \<open>read\<close> on \<open>r\<close> in some order: the bytes that the writes report as
  written, the bytes that the reads deliver. A read that has to wait delivers nothing.
\<close>

fun session :: "u64 \<Rightarrow> u64 \<Rightarrow> u8 channel_op list \<Rightarrow> 'w kernel \<Rightarrow> (u8 list \<times> u8 list \<times> 'w kernel) option" where
  "session w r [] k = Some ([], [], k)"
| "session w r (Put bs # ops) k = do {
     (res, k1) \<leftarrow> sys_write w (Some bs) k;
     (acc, del, k2) \<leftarrow> session w r ops k1;
     case res of Done n _ \<Rightarrow> Some (take (unat n) bs @ acc, del, k2) | _ \<Rightarrow> None
   }"
| "session w r (Get n # ops) k = do {
     (res, k1) \<leftarrow> sys_read r (of_nat n) k;
     (acc, del, k2) \<leftarrow> session w r ops k1;
     case res of Done _ out \<Rightarrow> Some (acc, out @ del, k2) | Pipe_wait \<Rightarrow> Some (acc, del, k2) | _ \<Rightarrow> None
   }"

lemma open_entry_pipes: "open_entry (k\<lparr>pipes := ps\<rparr>) fd = open_entry k fd"
  by (cases "current_task k") (simp_all add: open_entry_def get_fd_entry_def current_process_def)

lemma pipe_ends_upd: "pipe_ends (k\<lparr>pipes := (pipes k)[j := q]\<rparr>) w r j = pipe_ends k w r j"
  by (simp add: pipe_ends_def open_entry_pipes)

lemma sys_write_pipe:
  assumes "pipe_ends k w r j" "pipe_write (pipes k ! j) bs = (q, n)"
  shows "sys_write w (Some bs) k = Some (Done (of_nat n) [], k\<lparr>pipes := (pipes k)[j := q]\<rparr>)"
proof -
  obtain p i e where e: "open_entry k (c_int w) = Some (Some (p, i, e))" "fd_type e = FD_PIPE"
    "fd_pipe e = Some j" "writable e" "j < length (pipes k)" using assms(1) by (auto simp: pipe_ends_def)
  show ?thesis
  proof (cases "bs = []")
    case True
    thus ?thesis using assms(2) by (auto simp: sys_write_def)
  next
    case False
    thus ?thesis using e assms(2) by (simp add: sys_write_def write_entry_def)
  qed
qed

lemma sys_read_pipe:
  assumes "pipe_ends k w r j" "pipe_take n (pipes k ! j) = (bs, q)" "n < 2 ^ 64"
  obtains res where "sys_read r (of_nat n) k = Some (res, k\<lparr>pipes := (pipes k)[j := q]\<rparr>)"
    "res = Done (of_nat (length bs)) bs \<or> (res = Done 0 [] \<or> res = Pipe_wait) \<and> bs = []"
proof -
  obtain p i e where e: "open_entry k (c_int r) = Some (Some (p, i, e))" "fd_type e = FD_PIPE"
    "fd_pipe e = Some j" "readable e" "fd_mount e = None" "j < length (pipes k)" "c_int r \<noteq> 0"
    using assms(1) by (auto simp: pipe_ends_def)
  have u: "unat (of_nat n :: u64) = n" by (rule unat_of_nat_u64) (rule assms(3))
  have o: "fd_op k e fs_read = Some None" using e(5) by (simp add: fd_op_def split: option.split)
  have r: "sys_read r (of_nat n) k = read_pipe e (of_nat n) k"
    using e(1,2,7) o by (simp add: sys_read_def)
  show thesis
  proof (cases "write_pos (pipes k ! j) \<le> read_pos (pipes k ! j)")
    case True
    hence "bs = []" "q = pipes k ! j" using assms(2) by (auto simp: pipe_take_def)
    thus ?thesis using e True
      by (intro that [of "if writers (pipes k ! j) \<le> 0 then Done 0 [] else Pipe_wait"])
        (simp_all add: r read_pipe_def Let_def)
  next
    case False
    hence "pipe_read n (pipes k ! j) = (bs, q)" using assms(2) by (simp add: pipe_take_def)
    thus ?thesis using e False
      by (intro that [of "Done (of_nat (length bs)) bs"]) (simp_all add: r read_pipe_def Let_def u)
  qed
qed

lemma session_run:
  assumes "pipe_ends k w r j" "pipe_inv (pipes k ! j)"
    and "\<And>n. Get n \<in> set ops \<Longrightarrow> n < 2 ^ 64" "pipe.run ops (pipes k ! j) = (acc, del, q)"
  shows "\<exists>k'. session w r ops k = Some (acc, del, k') \<and> pipes k' ! j = q \<and> pipe_ends k' w r j"
  using assms
proof (induction ops arbitrary: k acc del)
  case (Cons op ops)
  have j: "j < length (pipes k)" using Cons.prems(1) by (simp add: pipe_ends_def)
  show ?case
  proof (cases op)
    case (Put bs)
    obtain q1 n where w: "pipe_write (pipes k ! j) bs = (q1, n)" by fastforce
    note law = pipe_write_law [OF Cons.prems(2) w]
    let ?k = "k\<lparr>pipes := (pipes k)[j := q1]\<rparr>"
    obtain acc1 where acc: "pipe.run ops q1 = (acc1, del, q)" "acc = take n bs @ acc1"
      using Cons.prems(4) w Put by (auto simp: Let_def split: prod.splits)
    have "\<exists>k'. session w r ops ?k = Some (acc1, del, k') \<and> pipes k' ! j = q \<and> pipe_ends k' w r j"
      by (rule Cons.IH) (use Cons.prems law acc j in \<open>simp_all add: pipe_ends_upd\<close>)
    moreover have "n \<le> PIPE_SIZE" using law by linarith
    hence "unat (of_nat n :: u64) = n" by (intro unat_of_nat_u64) (simp add: PIPE_SIZE_def)
    ultimately show ?thesis using sys_write_pipe [OF Cons.prems(1) w] acc(2) Put by auto
  next
    case (Get n)
    obtain bs q1 where t: "pipe_take n (pipes k ! j) = (bs, q1)" by fastforce
    have law: "pipe_inv q1" using pipe_take_law [OF Cons.prems(2) t] by blast
    let ?k = "k\<lparr>pipes := (pipes k)[j := q1]\<rparr>"
    obtain del1 where del: "pipe.run ops q1 = (acc, del1, q)" "del = bs @ del1"
      using Cons.prems(4) t Get by (auto simp: Let_def split: prod.splits)
    have IH: "\<exists>k'. session w r ops ?k = Some (acc, del1, k') \<and> pipes k' ! j = q \<and> pipe_ends k' w r j"
      by (rule Cons.IH) (use Cons.prems law del j in \<open>simp_all add: pipe_ends_upd\<close>)
    obtain res where "sys_read r (of_nat n) k = Some (res, ?k)"
      "res = Done (of_nat (length bs)) bs \<or> (res = Done 0 [] \<or> res = Pipe_wait) \<and> bs = []"
      by (rule sys_read_pipe [OF Cons.prems(1) t]) (use Cons.prems(3) Get in auto)
    thus ?thesis using IH del(2) Get by auto
  qed
qed simp


section \<open>References to pipes\<close>

definition reads :: "nat \<Rightarrow> fd_entry \<Rightarrow> bool" where
  "reads i e \<longleftrightarrow> fd_type e = FD_PIPE \<and> fd_pipe e = Some i \<and> readable e"

definition writes :: "nat \<Rightarrow> fd_entry \<Rightarrow> bool" where
  "writes i e \<longleftrightarrow> fd_type e = FD_PIPE \<and> fd_pipe e = Some i \<and> writable e"

text \<open>The number of descriptors with a property, over all processes.\<close>

definition refs :: "(fd_entry \<Rightarrow> bool) \<Rightarrow> (u64 \<Rightarrow> process option) \<Rightarrow> int" where
  "refs sel ps = (\<Sum>p \<in> dom ps. int (length (filter sel (fds (the (ps p))))))"

text \<open>
  The counters of a pipe in use are the numbers of the descriptors that can read and write it; a
  pipe that is not in use has no descriptor.
\<close>

definition refs_inv :: "'w kernel \<Rightarrow> bool" where
  "refs_inv k \<longleftrightarrow>
     finite (dom (procs k)) \<and> length (pipes k) = 32 \<and> length (pipe_used k) = 32 \<and>
     (\<forall>p pd. procs k p = Some pd \<longrightarrow> length (fds pd) = 32) \<and>
     (\<forall>i < 32. if pipe_used k ! i
        then readers (pipes k ! i) = refs (reads i) (procs k) \<and> writers (pipes k ! i) = refs (writes i) (procs k)
        else refs (reads i) (procs k) = 0 \<and> refs (writes i) (procs k) = 0)"

definition unit_if :: "bool \<Rightarrow> int" where
  "unit_if b = (if b then 1 else 0)"

lemma length_filter_update:
  "i < length xs \<Longrightarrow> int (length (filter P (xs[i := e]))) = int (length (filter P xs)) - unit_if (P (xs ! i)) + unit_if (P e)"
proof (induction xs arbitrary: i)
  case (Cons x xs)
  show ?case
  proof (cases i)
    case 0 thus ?thesis by (simp add: unit_if_def)
  next
    case (Suc j)
    have "int (length (filter P (xs[j := e]))) = int (length (filter P xs)) - unit_if (P (xs ! j)) + unit_if (P e)"
      using Cons Suc by simp
    thus ?thesis using Suc by simp
  qed
qed simp

lemma refs_update:
  assumes "finite (dom ps)" "ps p = Some pd" "i < length (fds pd)"
  shows "refs sel (ps(p \<mapsto> pd\<lparr>fds := (fds pd)[i := e]\<rparr>)) = refs sel ps - unit_if (sel (fds pd ! i)) + unit_if (sel e)"
proof -
  let ?n = "\<lambda>ps q. int (length (filter sel (fds (the (ps q)))))"
  let ?ps = "ps(p \<mapsto> pd\<lparr>fds := (fds pd)[i := e]\<rparr>)"
  have p: "p \<in> dom ps" using assms(2) by auto
  have "refs sel ?ps = (\<Sum>q \<in> dom ps. ?n ps q + (if q = p then unit_if (sel e) - unit_if (sel (fds pd ! i)) else 0))"
    unfolding refs_def using p assms(2,3)
    by (intro sum.cong) (auto simp: length_filter_update)
  also have "\<dots> = refs sel ps + (unit_if (sel e) - unit_if (sel (fds pd ! i)))"
    using assms(1) p by (simp add: sum.distrib refs_def)
  finally show ?thesis by simp
qed

lemma refs_nonneg: "0 \<le> refs sel ps"
  by (simp add: refs_def sum_nonneg)

lemma refs_pos:
  assumes "finite (dom ps)" "ps p = Some pd" "i < length (fds pd)" "sel (fds pd ! i)" "\<not> sel empty_fd"
  shows "0 < refs sel ps"
  using refs_update [OF assms(1-3), of sel empty_fd] refs_nonneg [of sel "ps(p \<mapsto> pd\<lparr>fds := (fds pd)[i := empty_fd]\<rparr>)"] assms(4,5)
  by (simp add: unit_if_def)

lemma reads_empty [simp]: "\<not> reads i empty_fd" "\<not> writes i empty_fd"
  by (simp_all add: reads_def writes_def empty_fd_def)

text \<open>Replacing one descriptor, with the counters of one pipe brought up to date.\<close>

lemma refs_inv_step:
  assumes inv: "refs_inv k" and p: "procs k p = Some pd" "i < 32"
    and procs': "procs k' = (procs k)(p \<mapsto> pd\<lparr>fds := (fds pd)[i := e]\<rparr>)"
    and len: "length (pipes k') = 32" "length (pipe_used k') = 32"
    and other: "\<And>j. j < 32 \<Longrightarrow> \<not> touched j \<Longrightarrow> pipes k' ! j = pipes k ! j \<and> pipe_used k' ! j = pipe_used k ! j \<and>
       \<not> reads j e \<and> \<not> writes j e \<and> \<not> reads j (fds pd ! i) \<and> \<not> writes j (fds pd ! i)"
    and this_pipe: "\<And>j. j < 32 \<Longrightarrow> touched j \<Longrightarrow>
       (if pipe_used k' ! j
        then readers (pipes k' ! j) = refs (reads j) (procs k) - unit_if (reads j (fds pd ! i)) + unit_if (reads j e) \<and>
             writers (pipes k' ! j) = refs (writes j) (procs k) - unit_if (writes j (fds pd ! i)) + unit_if (writes j e)
        else refs (reads j) (procs k) - unit_if (reads j (fds pd ! i)) + unit_if (reads j e) = 0 \<and>
             refs (writes j) (procs k) - unit_if (writes j (fds pd ! i)) + unit_if (writes j e) = 0)"
  shows "refs_inv k'"
proof -
  have fin: "finite (dom (procs k))" and lf: "length (fds pd) = 32" and il: "i < length (fds pd)"
    using inv p by (auto simp: refs_inv_def)
  note upd = refs_update [OF fin p(1) il, of _ e, folded procs']
  have "if pipe_used k' ! j
     then readers (pipes k' ! j) = refs (reads j) (procs k') \<and> writers (pipes k' ! j) = refs (writes j) (procs k')
     else refs (reads j) (procs k') = 0 \<and> refs (writes j) (procs k') = 0" if j: "j < 32" for j
  proof (cases "touched j")
    case True thus ?thesis using this_pipe [OF j True] by (simp only: upd)
  next
    case False
    have "refs (reads j) (procs k') = refs (reads j) (procs k)" "refs (writes j) (procs k') = refs (writes j) (procs k)"
      using other [OF j False] by (simp_all add: upd unit_if_def)
    thus ?thesis using other [OF j False] inv j by (simp add: refs_inv_def)
  qed
  moreover have "\<forall>q qd. procs k' q = Some qd \<longrightarrow> length (fds qd) = 32"
    using inv lf by (auto simp: procs' refs_inv_def)
  moreover have "finite (dom (procs k'))" using fin by (simp add: procs')
  ultimately show ?thesis unfolding refs_inv_def using len by blast
qed

lemma open_entryD:
  assumes "open_entry k fd = Some (Some (p, i, e))" "refs_inv k"
  obtains pd where "procs k p = Some pd" "i < 32" "e = fds pd ! i" "fd_type e \<noteq> FD_NONE" "length (fds pd) = 32"
proof -
  obtain pd where "procs k p = Some pd" "i < length (fds pd)" "e = fds pd ! i" "fd_type e \<noteq> FD_NONE"
    using assms(1) by (auto simp: open_entry_def get_fd_entry_def bind_eq_Some_conv split: option.splits if_splits)
  thus thesis using assms(2) by (intro that [of pd]) (auto simp: refs_inv_def)
qed

lemma free_fdD:
  assumes "free_fd es lo taken = Some i"
  shows "i < length es" "i < 32" "fd_type (es ! i) = FD_NONE" "i \<notin> set taken" "lo \<le> i"
proof -
  obtain n where n: "n < length [lo..<min 32 (length es)]" "i = [lo..<min 32 (length es)] ! n"
    "fd_type (es ! i) = FD_NONE \<and> i \<notin> set taken" using assms by (auto simp: free_fd_def find_Some_iff)
  have "i \<in> set [lo..<min 32 (length es)]" unfolding n(2) by (rule nth_mem) (rule n(1))
  thus "i < length es" "i < 32" "fd_type (es ! i) = FD_NONE" "i \<notin> set taken" "lo \<le> i" using n(3) by auto
qed

lemma refs_inv_fsys [simp]: "refs_inv (k\<lparr>fsys := s\<rparr>) = refs_inv k"
  by (simp add: refs_inv_def)

lemma close_handle_fsys:
  assumes "close_handle e k = Some k'"
  shows "k' = k\<lparr>fsys := fsys k'\<rparr>"
  using assms by (auto simp: close_handle_def bind_eq_Some_conv split: option.splits)

lemma close_handle_keeps:
  assumes "close_handle e k = Some k'"
  shows "refs_inv k \<Longrightarrow> refs_inv k'" "procs k p = Some pd \<Longrightarrow> procs k' p = Some pd"
  using arg_cong [OF close_handle_fsys [OF assms], of refs_inv] arg_cong [OF close_handle_fsys [OF assms], of procs]
  by simp_all

lemma pipe_in_use:
  assumes "refs_inv k" "procs k p = Some pd" "i < 32" "j < 32" "reads j (fds pd ! i) \<or> writes j (fds pd ! i)"
  shows "pipe_used k ! j"
proof (rule ccontr)
  assume "\<not> pipe_used k ! j"
  hence z: "refs (reads j) (procs k) = 0" "refs (writes j) (procs k) = 0"
    using assms(1,4) by (auto simp: refs_inv_def split: if_splits)
  have "finite (dom (procs k))" "i < length (fds pd)" using assms(1-3) by (auto simp: refs_inv_def)
  from refs_pos [OF this(1) assms(2) this(2)] z assms(5) show False by fastforce
qed

lemma refs_counts:
  assumes "refs_inv k" "j < 32" "pipe_used k ! j"
  shows "readers (pipes k ! j) = refs (reads j) (procs k)" "writers (pipes k ! j) = refs (writes j) (procs k)"
  using assms by (auto simp: refs_inv_def)

text \<open>Giving up a descriptor of a pipe, and closing a descriptor of another kind.\<close>

lemma release_pipe_refs:
  assumes inv: "refs_inv k" and p: "procs k p = Some pd" "i < 32"
    and e: "e = fds pd ! i" "fd_type e = FD_PIPE" "fd_pipe e = Some j"
    and rel: "release_pipe gone e j k = Some k1"
    and gone: "\<And>q. 0 \<le> readers q \<Longrightarrow> 0 \<le> writers q \<Longrightarrow> gone q \<longleftrightarrow> readers q = 0 \<and> writers q = 0"
    and set: "set_fd p i empty_fd k1 = Some k'"
  shows "refs_inv k'"
proof -
  have len: "length (pipes k) = 32" "length (pipe_used k) = 32" using inv by (auto simp: refs_inv_def)
  define q where "q = drop_refs e (pipes k ! j)"
  have j: "j < 32" and k1: "k1 = (if gone q then k\<lparr>pipes := (pipes k)[j := q], pipe_used := (pipe_used k)[j := False]\<rparr>
      else k\<lparr>pipes := (pipes k)[j := q]\<rparr>)"
    using rel len by (auto simp: release_pipe_def Let_def q_def split: if_splits)
  have k': "k' = set_proc p (pd\<lparr>fds := (fds pd)[i := empty_fd]\<rparr>) k1"
    using set p(1) by (auto simp: set_fd_def k1 split: if_splits)
  have rw: "reads j e = readable e" "writes j e = writable e" using e by (simp_all add: reads_def writes_def)
  have il: "i < length (fds pd)" "finite (dom (procs k))" using inv p by (auto simp: refs_inv_def)
  have nn: "0 \<le> refs sel (procs k) - unit_if (sel e)" if "\<not> sel empty_fd" for sel
    using refs_update [OF il(2) p(1) il(1), of sel empty_fd] that e(1)
      refs_nonneg [of sel "(procs k)(p \<mapsto> pd\<lparr>fds := (fds pd)[i := empty_fd]\<rparr>)"] by (simp add: unit_if_def)
  show ?thesis
  proof (rule refs_inv_step [OF inv p, where e = empty_fd and touched = "\<lambda>l. l = j"])
    fix l assume l: "l < 32" "l = j"
    show "if pipe_used k' ! l
        then readers (pipes k' ! l) = refs (reads l) (procs k) - unit_if (reads l (fds pd ! i)) + unit_if (reads l empty_fd) \<and>
             writers (pipes k' ! l) = refs (writes l) (procs k) - unit_if (writes l (fds pd ! i)) + unit_if (writes l empty_fd)
        else refs (reads l) (procs k) - unit_if (reads l (fds pd ! i)) + unit_if (reads l empty_fd) = 0 \<and>
             refs (writes l) (procs k) - unit_if (writes l (fds pd ! i)) + unit_if (writes l empty_fd) = 0"
    proof (cases "pipe_used k ! j")
      case True
      have q: "readers q = refs (reads j) (procs k) - unit_if (reads j e)" "writers q = refs (writes j) (procs k) - unit_if (writes j e)"
        by (simp_all add: q_def drop_refs_def refs_counts [OF inv j True] rw unit_if_def)
      have "gone q \<longleftrightarrow> readers q = 0 \<and> writers q = 0" by (rule gone) (simp_all only: q nn reads_empty not_False_eq_True)
      thus ?thesis using l q True len by (simp add: k' k1 set_proc_def e(1) unit_if_def)
    next
      case False
      hence "\<not> reads j e" "\<not> writes j e" using pipe_in_use [OF inv p j] e(1) by blast+
      moreover have "refs (reads j) (procs k) = 0" "refs (writes j) (procs k) = 0"
        using inv j False by (auto simp: refs_inv_def split: if_splits)
      ultimately show ?thesis using l False len by (simp add: k' k1 set_proc_def e(1) unit_if_def)
    qed
  next
    fix l assume "l < 32" "l \<noteq> j"
    thus "pipes k' ! l = pipes k ! l \<and> pipe_used k' ! l = pipe_used k ! l \<and> \<not> reads l empty_fd \<and>
        \<not> writes l empty_fd \<and> \<not> reads l (fds pd ! i) \<and> \<not> writes l (fds pd ! i)"
      using e by (auto simp: k' k1 set_proc_def reads_def writes_def empty_fd_def)
  qed (simp_all add: k' k1 set_proc_def len)
qed

lemma set_fd_refs:
  assumes inv: "refs_inv k" and p: "procs k p = Some pd" "i < 32"
    and set: "set_fd p i e k = Some k'"
    and same: "\<And>j. reads j e = reads j (fds pd ! i)" "\<And>j. writes j e = writes j (fds pd ! i)"
  shows "refs_inv k'"
proof -
  have k': "k' = set_proc p (pd\<lparr>fds := (fds pd)[i := e]\<rparr>) k" using set p(1) by (auto simp: set_fd_def)
  have "length (pipes k) = 32" "length (pipe_used k) = 32" using inv by (auto simp: refs_inv_def)
  thus ?thesis
    by (intro refs_inv_step [OF inv p, where e = e and touched = "\<lambda>_. True"])
      (use inv in \<open>auto simp: k' set_proc_def same refs_inv_def\<close>)
qed

lemma sys_close_refs:
  assumes "refs_inv k" "sys_close a k = Some (r, k')"
  shows "refs_inv k'"
proof -
  obtain x where x: "open_entry k (c_int a) = Some x" using assms(2) by (auto simp: sys_close_def bind_eq_Some_conv)
  show ?thesis
  proof (cases x)
    case None thus ?thesis using assms x by (simp add: sys_close_def)
  next
    case (Some y)
    obtain p i e where y: "y = (p, i, e)" by (cases y)
    obtain pd where pd: "procs k p = Some pd" "i < 32" "e = fds pd ! i" "fd_type e \<noteq> FD_NONE"
      using open_entryD [OF x [unfolded Some y] assms(1)] by blast
    obtain k0 k1 where k0: "close_handle e k = Some k0"
      and k1: "(if fd_type e = FD_PIPE then Option.bind (fd_pipe e) (\<lambda>j. release_pipe (\<lambda>q. readers q = 0 \<and> writers q = 0) e j k0) else Some k0) = Some k1"
      and k': "set_fd p i empty_fd k1 = Some k'"
      using assms(2) x Some y by (auto simp: sys_close_def bind_eq_Some_conv)
    have inv0: "refs_inv k0" and pd0: "procs k0 p = Some pd"
      by (rule close_handle_keeps [OF k0], fact)+
    show ?thesis
    proof (cases "fd_type e = FD_PIPE")
      case True
      then obtain j where "fd_pipe e = Some j" "release_pipe (\<lambda>q. readers q = 0 \<and> writers q = 0) e j k0 = Some k1"
        using k1 by (auto simp: bind_eq_Some_conv)
      thus ?thesis using release_pipe_refs [OF inv0 pd0 pd(2,3) True _ _ _ k'] by blast
    next
      case False
      thus ?thesis using k1 k' pd(3) by (intro set_fd_refs [OF inv0 pd0 pd(2)]) (auto simp: reads_def writes_def empty_fd_def)
    qed
  qed
qed

lemma dup_to_refs:
  assumes inv: "refs_inv k" and p: "procs k p = Some pd" and i: "i < 32" "e = fds pd ! i"
    and l: "l < 32" "fd_type (fds pd ! l) = FD_NONE" and dup: "dup_to p l e k = Some k'"
  shows "refs_inv k'"
proof -
  obtain ps where ps: "share_pipe e (pipes k) = Some ps" and k': "k' = set_proc p (pd\<lparr>fds := (fds pd)[l := e]\<rparr>) k\<lparr>pipes := ps\<rparr>"
    using dup p by (auto simp: dup_to_def set_fd_def set_proc_def bind_eq_Some_conv)
  have len: "length (pipes k) = 32" "length (pipe_used k) = 32" using inv by (auto simp: refs_inv_def)
  have old: "\<not> reads j (fds pd ! l)" "\<not> writes j (fds pd ! l)" for j using l(2) by (simp_all add: reads_def writes_def)
  have lps: "length ps = 32" using ps len by (auto simp: share_pipe_def split: option.splits if_splits)
  show ?thesis
  proof (rule refs_inv_step [OF inv p l(1), where e = e and touched = "\<lambda>j. fd_type e = FD_PIPE \<and> fd_pipe e = Some j"])
    fix j assume j: "j < 32" and t: "fd_type e = FD_PIPE \<and> fd_pipe e = Some j"
    have pj: "readers (ps ! j) = readers (pipes k ! j) + unit_if (reads j e)" "writers (ps ! j) = writers (pipes k ! j) + unit_if (writes j e)"
      using ps j t len by (auto simp: share_pipe_def reads_def writes_def unit_if_def)
    show "if pipe_used k' ! j
        then readers (pipes k' ! j) = refs (reads j) (procs k) - unit_if (reads j (fds pd ! l)) + unit_if (reads j e) \<and>
             writers (pipes k' ! j) = refs (writes j) (procs k) - unit_if (writes j (fds pd ! l)) + unit_if (writes j e)
        else refs (reads j) (procs k) - unit_if (reads j (fds pd ! l)) + unit_if (reads j e) = 0 \<and>
             refs (writes j) (procs k) - unit_if (writes j (fds pd ! l)) + unit_if (writes j e) = 0"
    proof (cases "pipe_used k ! j")
      case True thus ?thesis using refs_counts [OF inv j True] pj old by (simp add: k' set_proc_def unit_if_def)
    next
      case False
      hence "\<not> reads j e" "\<not> writes j e" using pipe_in_use [OF inv p i(1) j] i(2) by blast+
      moreover have "refs (reads j) (procs k) = 0" "refs (writes j) (procs k) = 0"
        using inv j False by (auto simp: refs_inv_def split: if_splits)
      ultimately show ?thesis using False old by (simp add: k' set_proc_def unit_if_def)
    qed
  next
    fix j assume "j < 32" "\<not> (fd_type e = FD_PIPE \<and> fd_pipe e = Some j)"
    thus "pipes k' ! j = pipes k ! j \<and> pipe_used k' ! j = pipe_used k ! j \<and> \<not> reads j e \<and>
        \<not> writes j e \<and> \<not> reads j (fds pd ! l) \<and> \<not> writes j (fds pd ! l)"
      using ps old by (auto simp: k' set_proc_def reads_def writes_def share_pipe_def split: option.splits if_splits)
  qed (simp_all add: k' set_proc_def len lps)
qed

lemma sys_dup_refs:
  assumes "refs_inv k" "sys_dup a k = Some (r, k')"
  shows "refs_inv k'"
proof -
  obtain x where x: "open_entry k (c_int a) = Some x" using assms(2) by (auto simp: sys_dup_def bind_eq_Some_conv)
  show ?thesis
  proof (cases x)
    case None thus ?thesis using assms x by (simp add: sys_dup_def)
  next
    case (Some y)
    obtain p i e where y: "y = (p, i, e)" by (cases y)
    obtain pd where pd: "procs k p = Some pd" "i < 32" "e = fds pd ! i"
      using open_entryD [OF x [unfolded Some y] assms(1)] by blast
    show ?thesis
    proof (cases "free_fd (fds pd) 0 []")
      case None thus ?thesis using assms x Some y pd by (simp add: sys_dup_def)
    next
      case f: (Some l)
      hence "dup_to p l e k = Some k'" using assms(2) x Some y pd(1) by (auto simp: sys_dup_def bind_eq_Some_conv)
      with free_fdD [OF f] show ?thesis by (intro dup_to_refs [OF assms(1) pd])
    qed
  qed
qed

lemma sys_dup2_refs:
  assumes "refs_inv k" "sys_dup2 a b k = Some (r, k')" "open_entry k (c_int b) = Some None"
  shows "refs_inv k'"
proof -
  obtain x where x: "open_entry k (c_int a) = Some x" using assms(2) by (auto simp: sys_dup2_def bind_eq_Some_conv)
  show ?thesis
  proof (cases x)
    case None thus ?thesis using assms x by (simp add: sys_dup2_def)
  next
    case (Some y)
    obtain p i e where y: "y = (p, i, e)" by (cases y)
    obtain pd where pd: "procs k p = Some pd" "i < 32" "e = fds pd ! i" "length (fds pd) = 32"
      using open_entryD [OF x [unfolded Some y] assms(1)] by blast
    show ?thesis
    proof (cases "c_int b < 0 \<or> MAX_FDS \<le> c_int b")
      case True thus ?thesis using assms(1,2) x Some y by (auto simp: sys_dup2_def)
    next
      case False
      hence d: "dup_to p (nat (c_int b)) e k = Some k'" using assms(2) x Some y by (auto simp: sys_dup2_def bind_eq_Some_conv)
      have "current_process k = Some (Some p)"
        using x Some y by (auto simp: open_entry_def get_fd_entry_def bind_eq_Some_conv split: if_splits option.splits)
      hence "fd_type (fds pd ! nat (c_int b)) = FD_NONE"
        using assms(3) pd(1,4) False
        by (auto simp: open_entry_def get_fd_entry_def MAX_FDS_def split: if_splits)
      thus ?thesis using False d by (intro dup_to_refs [OF assms(1) pd(1-3)]) (simp_all add: MAX_FDS_def nat_less_iff)
    qed
  qed
qed

text \<open>A new pipe: first its reading end, then its writing end.\<close>

lemma new_pipe_refs:
  assumes inv: "refs_inv k" and p: "procs k p = Some pd" and j: "j < 32" "\<not> pipe_used k ! j"
    and r: "r < 32" "fd_type (fds pd ! r) = FD_NONE" and w: "w < 32" "fd_type (fds pd ! w) = FD_NONE" "w \<noteq> r"
  shows "refs_inv (set_proc p (pd\<lparr>fds := (fds pd)[r := pipe_end j True, w := pipe_end j False]\<rparr>)
    (k\<lparr>pipes := (pipes k)[j := empty_pipe\<lparr>readers := 1, writers := 1\<rparr>], pipe_used := (pipe_used k)[j := True]\<rparr>))"
    (is "refs_inv ?k2")
proof -
  let ?pd1 = "pd\<lparr>fds := (fds pd)[r := pipe_end j True]\<rparr>"
  define k1 where "k1 = set_proc p ?pd1
    (k\<lparr>pipes := (pipes k)[j := empty_pipe\<lparr>readers := 1, writers := 0\<rparr>], pipe_used := (pipe_used k)[j := True]\<rparr>)"
  have len: "length (pipes k) = 32" "length (pipe_used k) = 32" using inv by (auto simp: refs_inv_def)
  have z: "refs (reads j) (procs k) = 0" "refs (writes j) (procs k) = 0" using inv j by (auto simp: refs_inv_def split: if_splits)
  have old: "\<not> reads l (fds pd ! r)" "\<not> writes l (fds pd ! r)" "\<not> reads l (fds pd ! w)" "\<not> writes l (fds pd ! w)" for l
    using r(2) w(2) by (simp_all add: reads_def writes_def)
  have new: "reads l (pipe_end j b) \<longleftrightarrow> l = j \<and> b" "writes l (pipe_end j b) \<longleftrightarrow> l = j \<and> \<not> b" for l b
    by (auto simp: reads_def writes_def pipe_end_def)
  have inv1: "refs_inv k1"
    by (rule refs_inv_step [OF inv p r(1), where e = "pipe_end j True" and touched = "\<lambda>l. l = j"])
      (use j z old len in \<open>auto simp: k1_def set_proc_def new unit_if_def\<close>)
  have p1: "procs k1 p = Some ?pd1" by (simp add: k1_def set_proc_def)
  have u1: "pipe_used k1 ! j" using j len by (simp add: k1_def set_proc_def)
  have c1: "refs (reads j) (procs k1) = 1" "refs (writes j) (procs k1) = 0"
    using refs_counts [OF inv1 j(1) u1] j len by (simp_all add: k1_def set_proc_def)
  show ?thesis
    by (rule refs_inv_step [OF inv1 p1 w(1), where e = "pipe_end j False" and touched = "\<lambda>l. l = j"])
      (use j c1 old len w in \<open>auto simp: k1_def set_proc_def new unit_if_def\<close>)
qed

lemma unused_pipe_refs:
  assumes "refs_inv k" "\<not> pipe_used k ! j" "j < 32"
  shows "refs_inv (k\<lparr>pipes := (pipes k)[j := q]\<rparr>)"
  using assms by (auto simp: refs_inv_def nth_list_update)

lemma sys_pipe_refs:
  assumes "refs_inv k" "sys_pipe a k = Some (r, ends, k')"
  shows "refs_inv k'"
proof (cases "a = 0 \<or> current_process k = Some None")
  case True thus ?thesis using assms by (auto simp: sys_pipe_def split: if_splits)
next
  case False
  obtain x where x: "current_process k = Some x"
    using assms(2) False by (cases "current_process k") (simp_all add: sys_pipe_def)
  obtain p where p1: "current_process k = Some (Some p)" using x False by (cases x) simp_all
  obtain pd where p2: "procs k p = Some pd"
    using assms(2) False p1 by (cases "procs k p") (simp_all add: sys_pipe_def)
  note p = p1 p2
  have len: "length (pipe_used k) = 32" using assms(1) by (simp add: refs_inv_def)
  show ?thesis
  proof (cases "List.find (\<lambda>i. \<not> pipe_used k ! i) [0..<32]")
    case None thus ?thesis using assms False p len by (simp add: sys_pipe_def)
  next
    case (Some j)
    hence j: "j < 32" "\<not> pipe_used k ! j" by (auto simp: find_Some_iff)
    note [simp] = unused_pipe_refs [OF assms(1) j(2,1)]
    show ?thesis
    proof (cases "free_fd (fds pd) 3 []")
      case None thus ?thesis using assms(2) False p len Some by (auto simp: sys_pipe_def)
    next
      case rfd: (Some rfd)
      show ?thesis
      proof (cases "free_fd (fds pd) 3 [rfd]")
        case None thus ?thesis using assms(2) False p len Some rfd by (auto simp: sys_pipe_def)
      next
        case wfd: (Some wfd)
        show ?thesis using assms(2) False p len Some rfd wfd free_fdD [OF rfd] free_fdD [OF wfd]
            new_pipe_refs [OF assms(1) p(2) j, of rfd wfd] by (auto simp: sys_pipe_def Let_def)
      qed
    qed
  qed
qed

lemma close_one_refs:
  assumes "refs_inv k" "close_one p i k = Some k'" "i < 32"
  shows "refs_inv k'"
proof -
  obtain pd where pd: "procs k p = Some pd" using assms(2) by (auto simp: close_one_def bind_eq_Some_conv)
  define e where "e = fds pd ! i"
  show ?thesis
  proof (cases "fd_type e = FD_NONE")
    case True thus ?thesis using assms pd by (simp add: close_one_def Let_def e_def split: if_splits)
  next
    case False
    let ?x = "if fd_type e = FD_PIPE then fd_pipe e else None"
    obtain k1 where k1: "(case ?x of Some j \<Rightarrow> release_pipe (\<lambda>q. readers q \<le> 0 \<and> writers q \<le> 0) e j k | None \<Rightarrow> close_handle e k) = Some k1"
      and k': "set_fd p i empty_fd k1 = Some k'"
      using assms(2) pd False by (simp add: close_one_def e_def [symmetric] Let_def split: if_splits bind_splits)
    show ?thesis
    proof (cases ?x)
      case None
      hence "close_handle e k = Some k1" using k1 by simp
      note same = close_handle_keeps [OF this]
      show ?thesis using None
        by (intro set_fd_refs [OF same(1) same(2) assms(3) k']) (use assms(1) pd in \<open>auto simp: e_def reads_def writes_def empty_fd_def split: if_splits\<close>)
    next
      case (Some j)
      thus ?thesis using k1 k' assms(3)
        by (intro release_pipe_refs [OF assms(1) pd _ e_def, of j "\<lambda>q. readers q \<le> 0 \<and> writers q \<le> 0" k1])
          (auto split: if_splits)
    qed
  qed
qed

lemma sys_close_all_refs:
  assumes "refs_inv k" "sys_close_all p k = Some k'"
  shows "refs_inv k'"
proof (cases p)
  case (Some q)
  show ?thesis
    by (rule for_each_inv [of "[0..<32]" refs_inv "close_one q"]) (use assms Some close_one_refs in \<open>auto simp: sys_close_all_def\<close>)
qed (use assms in \<open>auto simp: sys_close_all_def\<close>)

text \<open>Reading and writing move bytes and offsets, never references.\<close>

lemma refs_inv_pipe:
  assumes "refs_inv k" "readers q = readers (pipes k ! j)" "writers q = writers (pipes k ! j)"
  shows "refs_inv (k\<lparr>pipes := (pipes k)[j := q]\<rparr>)"
proof -
  have "readers ((pipes k)[j := q] ! l) = readers (pipes k ! l) \<and> writers ((pipes k)[j := q] ! l) = writers (pipes k ! l)" for l
  proof (cases "l = j \<and> j < length (pipes k)")
    case True thus ?thesis using assms(2,3) by simp
  next
    case False
    hence "(pipes k)[j := q] ! l = pipes k ! l" by (cases "j < length (pipes k)") (auto simp: list_update_beyond)
    thus ?thesis by (simp only:)
  qed
  moreover have "procs (k\<lparr>pipes := ps\<rparr>) = procs k" "pipe_used (k\<lparr>pipes := ps\<rparr>) = pipe_used k" "pipes (k\<lparr>pipes := ps\<rparr>) = ps" for ps
    by simp_all
  ultimately show ?thesis using assms(1) unfolding refs_inv_def by (simp only: length_list_update) blast
qed

lemma pipe_write_counts: "pipe_write p bs = (p', n) \<Longrightarrow> readers p' = readers p \<and> writers p' = writers p"
  by (induction p bs arbitrary: p' n rule: pipe_write.induct) (auto split: if_splits prod.splits)

lemma pipe_copy_counts: "pipe_copy n p = (bs, p') \<Longrightarrow> readers p' = readers p \<and> writers p' = writers p"
  by (induction n p arbitrary: bs p' rule: pipe_copy.induct) (auto split: if_splits prod.splits)

lemma pipe_read_counts: "pipe_read n p = (bs, p') \<Longrightarrow> readers p' = readers p \<and> writers p' = writers p"
  using pipe_copy_counts [of n p] by (auto simp: pipe_read_def Let_def split: prod.splits if_splits)

lemma set_offset_refs:
  assumes "refs_inv k" "procs k p = Some pd" "i < 32" "e = fds pd ! i"
    and "set_fd p i (e\<lparr>offset := n\<rparr>) (k\<lparr>fsys := s\<rparr>) = Some k'"
  shows "refs_inv k'"
  by (rule set_fd_refs [of "k\<lparr>fsys := s\<rparr>" p pd i "e\<lparr>offset := n\<rparr>"]) (use assms in \<open>simp_all add: reads_def writes_def\<close>)

lemma write_node_refs:
  assumes inv: "refs_inv k" and p: "procs k p = Some pd" "i < 32" "e = fds pd ! i"
    and w: "write_node p i e n buf k = Some (r, k')"
  shows "refs_inv k'"
proof -
  obtain nd where nd: "nodes (fsys k) n = Some nd" using w by (auto simp: write_node_def bind_eq_Some_conv)
  show ?thesis
  proof (cases "Option.bind (nd_dev nd) (\<lambda>d. dev_write (devs (fsys k) d))")
    case None
    show ?thesis using w nd inv None set_offset_refs [OF inv p]
      by (auto simp: write_node_def bind_eq_Some_conv split: if_splits)
  next
    case (Some wr)
    obtain n w' where "wr (world (fsys k)) buf (offset e) = (n, w')" by fastforce
    thus ?thesis using w nd Some set_offset_refs [OF inv p]
      by (auto simp: write_node_def set_fs_world_def bind_eq_Some_conv)
  qed
qed

lemma write_entry_refs:
  assumes inv: "refs_inv k" and p: "procs k p = Some pd" "i < 32" "e = fds pd ! i"
    and w: "write_entry p i e buf k = Some (r, k')"
  shows "refs_inv k'"
proof (cases "fd_type e = FD_TTY \<or> fd_type e = FD_PIPE")
  case True
  thus ?thesis using w inv pipe_write_counts refs_inv_pipe [OF inv]
    by (fastforce simp: write_entry_def bind_eq_Some_conv Let_def split: if_splits prod.splits)
next
  case False
  obtain f where f: "fd_op k e fs_write = Some f" using w False by (auto simp: write_entry_def bind_eq_Some_conv)
  show ?thesis
  proof (cases f)
    case None
    show ?thesis
    proof (cases "fd_node e")
      case None thus ?thesis using w inv False f \<open>f = None\<close> by (simp add: write_entry_def)
    next
      case (Some n)
      hence "write_node p i e n buf k = Some (r, k')" using w False f None by (simp add: write_entry_def)
      thus ?thesis by (rule write_node_refs [OF inv p])
    qed
  next
    case (Some y)
    thus ?thesis using w inv False f by (auto simp: write_entry_def set_fs_world_def split: prod.splits)
  qed
qed

lemma sys_write_refs:
  assumes "refs_inv k" "sys_write a buf k = Some (r, k')"
  shows "refs_inv k'"
proof (cases "buf = None \<or> buf = Some []")
  case True thus ?thesis using assms by (auto simp: sys_write_def)
next
  case False
  then obtain bs where bs: "buf = Some bs" "bs \<noteq> []" by auto
  obtain x where x: "open_entry k (c_int a) = Some x" using assms(2) bs by (auto simp: sys_write_def bind_eq_Some_conv)
  show ?thesis
  proof (cases x)
    case None thus ?thesis using assms x bs by (simp add: sys_write_def)
  next
    case (Some y)
    obtain p i e where y: "y = (p, i, e)" by (cases y)
    have "write_entry p i e bs k = Some (r, k')" using assms(2) bs x Some y by (simp add: sys_write_def)
    with open_entryD [OF x [unfolded Some y] assms(1)] show ?thesis using write_entry_refs [OF assms(1)] by metis
  qed
qed

lemma read_node_refs:
  assumes inv: "refs_inv k" and p: "procs k p = Some pd" "i < 32" "e = fds pd ! i"
    and r: "read_node p i e n len k = Some (r, k')"
  shows "refs_inv k'"
proof -
  obtain nd where nd: "nodes (fsys k) n = Some nd" using r by (auto simp: read_node_def bind_eq_Some_conv)
  show ?thesis
  proof (cases "Option.bind (nd_dev nd) (\<lambda>d. dev_read (devs (fsys k) d))")
    case None
    show ?thesis using r nd inv None set_offset_refs [OF inv p, of _ "fsys k"]
      by (auto simp: read_node_def bind_eq_Some_conv Let_def split: if_splits option.splits)
  next
    case (Some rd)
    obtain n bs w' where "rd (world (fsys k)) len (offset e) = (n, bs, w')" by (metis prod_cases3)
    thus ?thesis using r nd Some set_offset_refs [OF inv p]
      by (auto simp: read_node_def set_fs_world_def bind_eq_Some_conv)
  qed
qed

lemma read_pipe_refs: "refs_inv k \<Longrightarrow> read_pipe e len k = Some (r, k') \<Longrightarrow> refs_inv k'"
  using pipe_read_counts refs_inv_pipe [of k]
  by (fastforce simp: read_pipe_def bind_eq_Some_conv Let_def split: if_splits prod.splits)

lemma sys_read_refs:
  assumes "refs_inv k" "sys_read a len k = Some (r, k')"
  shows "refs_inv k'"
proof (cases "c_int a = 0 \<or> open_entry k (c_int a) = Some None")
  case True thus ?thesis using assms by (auto simp: sys_read_def split: if_splits)
next
  case False
  obtain x where x: "open_entry k (c_int a) = Some x" using assms(2) False by (auto simp: sys_read_def bind_eq_Some_conv)
  obtain p i e where y: "x = Some (p, i, e)" using x False by (cases x) auto
  obtain f where f: "fd_op k e fs_read = Some f" using assms(2) False x y by (auto simp: sys_read_def bind_eq_Some_conv)
  show ?thesis
  proof (cases f)
    case None
    hence "(if fd_type e = FD_PIPE then read_pipe e len k
        else (case fd_node e of None \<Rightarrow> Some (Done FAIL [], k) | Some n \<Rightarrow> read_node p i e n len k)) = Some (r, k')"
      using assms(2) False x y f by (simp add: sys_read_def)
    moreover obtain pd where "procs k p = Some pd" "i < 32" "e = fds pd ! i"
      using open_entryD [OF x [unfolded y] assms(1)] by blast
    ultimately show ?thesis
      using assms(1) read_pipe_refs [OF assms(1)] read_node_refs [OF assms(1)]
      by (simp split: if_splits option.splits)
  next
    case (Some z)
    thus ?thesis using assms False x y f by (auto simp: sys_read_def set_fs_world_def split: prod.splits)
  qed
qed

text \<open>
  The calls on descriptors, as steps of the kernel. A \<open>dup2\<close> onto a descriptor that is in use is
  left out: it overwrites the entry without releasing it.
\<close>

inductive fd_step :: "'w kernel \<Rightarrow> 'w kernel \<Rightarrow> bool" where
  Pipe: "sys_pipe a k = Some (r, ends, k') \<Longrightarrow> fd_step k k'"
| Close: "sys_close a k = Some (r, k') \<Longrightarrow> fd_step k k'"
| Close_all: "sys_close_all p k = Some k' \<Longrightarrow> fd_step k k'"
| Dup: "sys_dup a k = Some (r, k') \<Longrightarrow> fd_step k k'"
| Dup2: "open_entry k (c_int b) = Some None \<Longrightarrow> sys_dup2 a b k = Some (r, k') \<Longrightarrow> fd_step k k'"
| Write: "sys_write a buf k = Some (io, k') \<Longrightarrow> fd_step k k'"
| Read: "sys_read a len k = Some (io, k') \<Longrightarrow> fd_step k k'"

lemmas refs_kept = sys_pipe_refs sys_close_refs sys_close_all_refs sys_dup_refs sys_dup2_refs sys_write_refs sys_read_refs

lemma fd_step_refs: "fd_step k k' \<Longrightarrow> refs_inv k \<Longrightarrow> refs_inv k'"
  by (induction rule: fd_step.induct) (blast intro: refs_kept)+

lemma fd_steps_refs: "fd_step\<^sup>*\<^sup>* k k' \<Longrightarrow> refs_inv k \<Longrightarrow> refs_inv k'"
  by (induction rule: rtranclp_induct) (blast intro: fd_step_refs)+

lemma used_pipe_count:
  assumes inv: "refs_inv k" and e: "procs k p = Some pd" "i < 32" "j < 32" "reads j (fds pd ! i) \<or> writes j (fds pd ! i)"
  shows "pipe_used k ! j \<and> 0 < readers (pipes k ! j) + writers (pipes k ! j)"
proof -
  have u: "pipe_used k ! j" by (rule pipe_in_use [OF inv e])
  have "finite (dom (procs k))" "i < length (fds pd)" using inv e(1,2) by (auto simp: refs_inv_def)
  from refs_pos [OF this(1) e(1) this(2), of "reads j"] refs_pos [OF this(1) e(1) this(2), of "writes j"] e(4)
  have "0 < refs (reads j) (procs k) + refs (writes j) (procs k)"
    using refs_nonneg [of "reads j" "procs k"] refs_nonneg [of "writes j" "procs k"] by auto
  thus ?thesis using u refs_counts [OF inv e(3) u] by simp
qed

text \<open>
  C3: the counts of the pipes. However the calls \<open>pipe\<close>, \<open>close\<close>, \<open>dup\<close>, \<open>dup2\<close> (onto a closed
  descriptor), \<open>read\<close> and \<open>write\<close> and the closing of a process's descriptors follow each other, the
  counters of a pipe stay the numbers of the descriptors, over all processes, that can read and
  write it; a pipe is marked free only when no descriptor can use it, and a pipe that some
  descriptor can use stays marked as used.
\<close>

theorem pipe_refs_kept:
  assumes "fd_step\<^sup>*\<^sup>* k k'" "refs_inv k"
  shows "refs_inv k' \<and>
    (\<forall>j p pd i. j < 32 \<and> procs k' p = Some pd \<and> i < 32 \<and> (reads j (fds pd ! i) \<or> writes j (fds pd ! i)) \<longrightarrow>
      pipe_used k' ! j \<and> 0 < readers (pipes k' ! j) + writers (pipes k' ! j))"
  using fd_steps_refs [OF assms] used_pipe_count by blast

section \<open>A kernel with one pipe\<close>

definition no_pipes_demo :: "unit kernel" where
  "no_pipes_demo = kernel_demo READY READY\<lparr>pipes := replicate 32 empty_pipe, pipe_used := replicate 32 False\<rparr>"

definition pipe_demo :: "unit kernel" where
  "pipe_demo = set_proc KERNEL_PROCESS (empty_process\<lparr>fds := (fds empty_process)[3 := pipe_end 0 True, 4 := pipe_end 0 False]\<rparr>)
     (no_pipes_demo\<lparr>pipes := (pipes no_pipes_demo)[0 := empty_pipe\<lparr>readers := 1, writers := 1\<rparr>],
                    pipe_used := (pipe_used no_pipes_demo)[0 := True]\<rparr>)"

lemma no_pipes_demo_refs: "refs_inv no_pipes_demo"
proof -
  let ?ps = "procs no_pipes_demo"
  have ps: "?ps = [KERNEL_PROCESS \<mapsto> empty_process, 70 \<mapsto> empty_process, 130 \<mapsto> empty_process]"
    by (simp add: no_pipes_demo_def kernel_demo_def)
  have e: "?ps p = Some pd \<Longrightarrow> fds pd = replicate 32 empty_fd" for p pd
    by (auto simp: ps empty_process_def split: if_splits)
  have "refs sel ?ps = 0" if "\<not> sel empty_fd" for sel
    unfolding refs_def
  proof (rule sum.neutral, rule ballI)
    fix p assume "p \<in> dom ?ps"
    then obtain pd where "?ps p = Some pd" by auto
    with e [OF this] that show "int (length (filter sel (fds (the (?ps p))))) = 0" by simp
  qed
  moreover have "finite (dom ?ps)" by (simp add: ps)
  moreover have "length (pipes no_pipes_demo) = 32" "pipe_used no_pipes_demo = replicate 32 False"
    by (simp_all add: no_pipes_demo_def)
  ultimately show ?thesis using e by (simp add: refs_inv_def)
qed

lemma pipe_demo_process:
  "current_process no_pipes_demo = Some (Some KERNEL_PROCESS)" "procs no_pipes_demo KERNEL_PROCESS = Some empty_process"
  "current_process pipe_demo = Some (Some KERNEL_PROCESS)"
  "procs pipe_demo KERNEL_PROCESS = Some (empty_process\<lparr>fds := (fds empty_process)[3 := pipe_end 0 True, 4 := pipe_end 0 False]\<rparr>)"
  by (simp_all add: pipe_demo_def no_pipes_demo_def kernel_demo_def current_process_def set_proc_def demo_task_def
      KERNEL_TASK_def KERNEL_PROCESS_def)

lemma pipe_demo_step: "sys_pipe 4096 no_pipes_demo = Some (0, Some (3, 4), pipe_demo)"
proof -
  have u: "pipe_used no_pipes_demo = replicate 32 False" by (simp add: no_pipes_demo_def)
  have f: "free_fd (fds empty_process) 3 [] = Some 3" "free_fd (fds empty_process) 3 [3] = Some 4"
    by (simp_all add: free_fd_def empty_process_def empty_fd_def upt_rec)
  show ?thesis by (simp add: sys_pipe_def pipe_demo_process u f upt_rec [of 0] pipe_demo_def Let_def)
qed


theorem pipe_refs_kept_witness:
  "refs_inv pipe_demo \<and> pipe_used pipe_demo ! 0 \<and> 0 < readers (pipes pipe_demo ! 0) + writers (pipes pipe_demo ! 0)"
proof -
  have s: "fd_step\<^sup>*\<^sup>* no_pipes_demo pipe_demo" using Pipe [OF pipe_demo_step] by blast
  have "reads 0 (((replicate 32 empty_fd)[3 := pipe_end 0 True, 4 := pipe_end 0 False]) ! 3)"
    by (simp add: reads_def pipe_end_def)
  hence "reads 0 (fds (empty_process\<lparr>fds := (fds empty_process)[3 := pipe_end 0 True, 4 := pipe_end 0 False]\<rparr>) ! 3)"
    by (simp add: empty_process_def)
  note e = this pipe_demo_process(4)
  note w = pipe_refs_kept [OF s no_pipes_demo_refs]
  show ?thesis using w [THEN conjunct1] w [THEN conjunct2, rule_format, of 0 KERNEL_PROCESS _ 3] e by simp
qed

end
