(* ===== verification/Gzip.thy ===== *)
theory Gzip
  imports LTOS_Prelude
begin

unbundle bit_operations_syntax

text \<open>
  The decompressor of \<open>src/lib/gzip.cpp\<close>, which unpacks the initial ram disk and the console font.
  The compressed data are a list of bytes; the bytes that the code reads from it or from its tables
  outside of their bounds, and table entries that it reads before it has written them, are faults
  (\<open>None\<close>). The output buffer is the list of the bytes written so far; it is taken to have room for
  the \<open>out_len\<close> bytes that the caller announces.
\<close>

section \<open>Bits\<close>

record inflater =
  in_bytes :: "u8 list"
  in_len :: nat
  in_pos :: nat
  bitbuf :: u32
  bitcnt :: nat
  out :: "u8 list"
  out_len :: nat

function fill_bits :: "nat \<Rightarrow> inflater \<Rightarrow> inflater option" where
  "fill_bits n s =
     (if bitcnt s < n then
        if in_pos s < in_len s then
          if in_pos s < length (in_bytes s) then
            fill_bits n (s\<lparr>bitbuf := bitbuf s OR push_bit (bitcnt s) (ucast (in_bytes s ! in_pos s)),
                           in_pos := Suc (in_pos s), bitcnt := bitcnt s + 8\<rparr>)
          else None
        else fill_bits n (s\<lparr>bitcnt := bitcnt s + 8\<rparr>)
      else Some s)"
  by pat_completeness auto
termination by (relation "measure (\<lambda>(n, s). n - bitcnt s)") auto

declare fill_bits.simps [simp del]

definition get_bits :: "nat \<Rightarrow> inflater \<Rightarrow> (nat \<times> inflater) option" where
  "get_bits n s = do {
     s \<leftarrow> fill_bits n s;
     Some (unat (bitbuf s AND mask n), s\<lparr>bitbuf := drop_bit n (bitbuf s), bitcnt := bitcnt s - n\<rparr>)
   }"

section \<open>Huffman tables\<close>

record huffman =
  counts :: "nat list"
  symbols :: "nat option list"

definition bump :: "nat \<Rightarrow> nat list \<Rightarrow> nat list option" where
  "bump i xs = (if i < length xs then Some (xs[i := Suc (xs ! i)]) else None)"

fun count_lengths :: "u8 list \<Rightarrow> nat list \<Rightarrow> nat list option" where
  "count_lengths [] cs = Some cs"
| "count_lengths (l # ls) cs =
     (if l \<noteq> 0 then Option.bind (bump (unat l) cs) (count_lengths ls) else count_lengths ls cs)"

text \<open>\<open>offsets[0]\<close> is never set and never used, since only lengths other than 0 are looked up.\<close>

fun symbol_offsets :: "nat list \<Rightarrow> nat \<Rightarrow> nat list \<Rightarrow> nat list" where
  "symbol_offsets [] off acc = acc"
| "symbol_offsets (c # cs) off acc = symbol_offsets cs (off + c) (acc @ [off + c])"

fun place_symbols :: "u8 list \<Rightarrow> nat \<Rightarrow> nat list \<Rightarrow> nat option list \<Rightarrow> nat option list option" where
  "place_symbols [] i offs syms = Some syms"
| "place_symbols (l # ls) i offs syms =
     (if l \<noteq> 0 then
        if unat l < length offs then
          if offs ! unat l < length syms then
            place_symbols ls (Suc i) (offs[unat l := Suc (offs ! unat l)]) (syms[offs ! unat l := Some i])
          else None
        else None
      else place_symbols ls (Suc i) offs syms)"

definition build_huffman :: "u8 list \<Rightarrow> huffman option" where
  "build_huffman lengths = do {
     cs \<leftarrow> count_lengths lengths (replicate 16 0);
     let offs = symbol_offsets (take 14 (tl cs)) 0 [0, 0];
     syms \<leftarrow> place_symbols lengths 0 offs (replicate 288 None);
     Some \<lparr>counts = cs, symbols = syms\<rparr>
   }"

text \<open>The loop over the lengths from \<open>len\<close> to 15; \<open>-1\<close> when no code matches.\<close>

definition symbol_at :: "huffman \<Rightarrow> int \<Rightarrow> int option" where
  "symbol_at h i =
     (if 0 \<le> i \<and> nat i < length (symbols h) then map_option int (symbols h ! nat i) else None)"

fun decode_from :: "huffman \<Rightarrow> nat list \<Rightarrow> int \<Rightarrow> int \<Rightarrow> int \<Rightarrow> inflater \<Rightarrow> (int \<times> inflater) option" where
  "decode_from h [] code first index s = Some (-1, s)"
| "decode_from h (count # cs) code first index s = do {
     (b, s) \<leftarrow> get_bits 1 s;
     let code = 2 * code + int b;
     if code - first < int count then do {
       sym \<leftarrow> symbol_at h (index + (code - first));
       Some (sym, s)
     }
     else decode_from h cs code ((first + int count) * 2) (index + int count) s
   }"

definition decode_symbol :: "huffman \<Rightarrow> inflater \<Rightarrow> (int \<times> inflater) option" where
  "decode_symbol h s = decode_from h (take 15 (tl (counts h))) 0 0 0 s"

section \<open>Blocks\<close>

definition lens :: "nat list" where
  "lens = [3, 4, 5, 6, 7, 8, 9, 10, 11, 13, 15, 17, 19, 23, 27, 31,
    35, 43, 51, 59, 67, 83, 99, 115, 131, 163, 195, 227, 258]"

definition lext :: "nat list" where
  "lext = [0, 0, 0, 0, 0, 0, 0, 0, 1, 1, 1, 1, 2, 2, 2, 2,
    3, 3, 3, 3, 4, 4, 4, 4, 5, 5, 5, 5, 0]"

definition dists :: "nat list" where
  "dists = [1, 2, 3, 4, 5, 7, 9, 13, 17, 25, 33, 49, 65, 97, 129, 193,
    257, 385, 513, 769, 1025, 1537, 2049, 3073, 4097, 6145, 8193, 12289, 16385, 24577]"

definition dext :: "nat list" where
  "dext = [0, 0, 0, 0, 1, 1, 2, 2, 3, 3, 4, 4, 5, 5, 6, 6,
    7, 7, 8, 8, 9, 9, 10, 10, 11, 11, 12, 12, 13, 13]"

definition put_byte :: "u8 \<Rightarrow> inflater \<Rightarrow> inflater" where
  "put_byte b s = s\<lparr>out := out s @ [b]\<rparr>"

fun copy_match :: "nat \<Rightarrow> nat \<Rightarrow> inflater \<Rightarrow> bool \<times> inflater" where
  "copy_match dist 0 s = (True, s)"
| "copy_match dist (Suc n) s =
     (if out_len s \<le> length (out s) then (False, s)
      else copy_match dist n (put_byte (out s ! (length (out s) - dist)) s))"

text \<open>
  One round of the loop of \<open>inflate_block\<close>: \<open>Stop b\<close> leaves the loop with that result.
\<close>

datatype round = Stop bool | Again

definition inflate_match :: "huffman \<Rightarrow> nat \<Rightarrow> inflater \<Rightarrow> (round \<times> inflater) option" where
  "inflate_match dh k s = do {
     (ex, s) \<leftarrow> get_bits (lext ! k) s;
     (dsym, s) \<leftarrow> decode_symbol dh s;
     if dsym < 0 \<or> 29 < dsym then Some (Stop False, s)
     else do {
       (dx, s) \<leftarrow> get_bits (dext ! nat dsym) s;
       let dist = dists ! nat dsym + dx;
       if length (out s) < dist then Some (Stop False, s)
       else
         let (ok, s) = copy_match dist (lens ! k + ex) s
         in Some (if ok then Again else Stop False, s)
     }
   }"

definition inflate_round :: "huffman \<Rightarrow> huffman \<Rightarrow> inflater \<Rightarrow> (round \<times> inflater) option" where
  "inflate_round lh dh s = do {
     (sym, s) \<leftarrow> decode_symbol lh s;
     if sym < 0 \<or> 285 < sym then Some (Stop False, s)
     else if sym < 256 then
       if out_len s \<le> length (out s) then Some (Stop False, s)
       else Some (Again, put_byte (of_int sym) s)
     else if sym = 256 then Some (Stop True, s)
     else inflate_match dh (nat (sym - 257)) s
   }"

section \<open>What the operations leave alone\<close>

definition same_out :: "inflater \<Rightarrow> inflater \<Rightarrow> bool" where
  "same_out s s' \<longleftrightarrow> out s' = out s \<and> out_len s' = out_len s"

lemma fill_bits_out: "fill_bits n s = Some s' \<Longrightarrow> same_out s s'"
proof (induction n s rule: fill_bits.induct)
  case (1 n s)
  show ?case
    using "1.prems" "1.IH"
    by (subst (asm) fill_bits.simps) (auto simp: same_out_def split: if_splits)
qed

lemma get_bits_out: "get_bits n s = Some (v, s') \<Longrightarrow> same_out s s'"
  using fill_bits_out by (fastforce simp: get_bits_def same_out_def bind_eq_Some_conv)

lemma decode_from_out: "decode_from h cs code first index s = Some (v, s') \<Longrightarrow> same_out s s'"
proof (induction cs arbitrary: code first index s)
  case (Cons c cs)
  then obtain b s1 where b: "get_bits 1 s = Some (b, s1)" by (auto simp: bind_eq_Some_conv)
  note g = get_bits_out [OF b]
  show ?case
  proof (cases "2 * code + int b - first < int c")
    case True thus ?thesis using Cons.prems b g by (auto simp: bind_eq_Some_conv Let_def)
  next
    case False
    hence "same_out s1 s'" using Cons.prems b by (intro Cons.IH) (auto simp: Let_def)
    thus ?thesis using g by (simp add: same_out_def)
  qed
qed (simp add: same_out_def)

lemma decode_symbol_out: "decode_symbol h s = Some (v, s') \<Longrightarrow> same_out s s'"
  unfolding decode_symbol_def by (rule decode_from_out)

lemma copy_match_out:
  "copy_match d n s = (ok, s') \<Longrightarrow> out_len s' = out_len s \<and> length (out s') \<le> length (out s) + n \<and>
    (ok \<longrightarrow> length (out s') = length (out s) + n \<and> (0 < n \<longrightarrow> length (out s') \<le> out_len s))"
  by (induction d n s rule: copy_match.induct) (fastforce simp: put_byte_def split: if_splits)+

lemma lens_pos: "k < 29 \<Longrightarrow> 3 \<le> lens ! k"
proof -
  assume k: "k < 29"
  have "\<forall>x \<in> set lens. 3 \<le> x" "length lens = 29" by (simp_all add: lens_def)
  thus ?thesis using k by (simp add: all_set_conv_all_nth)
qed

lemma inflate_round_progress:
  assumes "inflate_round lh dh s = Some (r, s')"
  shows "out_len s' = out_len s \<and> (r = Again \<longrightarrow> length (out s) < length (out s') \<and> length (out s') \<le> out_len s)"
proof -
  obtain sy s1 where d: "decode_symbol lh s = Some (sy, s1)" using assms by (auto simp: inflate_round_def bind_eq_Some_conv)
  note o1 = decode_symbol_out [OF d]
  show ?thesis
  proof (cases "256 < sy \<and> sy \<le> 285")
    case False
    thus ?thesis using assms d o1 by (auto simp: inflate_round_def same_out_def put_byte_def split: if_splits)
  next
    case True
    define k where "k = nat (sy - 257)"
    have k: "k < 29" using True unfolding k_def by linarith
    have "inflate_match dh k s1 = Some (r, s')" using assms d True by (simp add: inflate_round_def k_def)
    then obtain ex s2 dsym s3 where m: "get_bits (lext ! k) s1 = Some (ex, s2)" "decode_symbol dh s2 = Some (dsym, s3)"
      "(if dsym < 0 \<or> 29 < dsym then Some (Stop False, s3)
        else do {
          (dx, s) \<leftarrow> get_bits (dext ! nat dsym) s3;
          let dist = dists ! nat dsym + dx;
          if length (out s) < dist then Some (Stop False, s)
          else let (ok, s) = copy_match dist (lens ! k + ex) s in Some (if ok then Again else Stop False, s)
        }) = Some (r, s')"
      by (auto simp: inflate_match_def bind_eq_Some_conv)
    have o3: "same_out s s3" using o1 get_bits_out [OF m(1)] decode_symbol_out [OF m(2)] by (simp add: same_out_def)
    show ?thesis
    proof (cases "dsym < 0 \<or> 29 < dsym")
      case True thus ?thesis using m(3) o3 by (auto simp: same_out_def)
    next
      case False
      then obtain dx s4 where x: "get_bits (dext ! nat dsym) s3 = Some (dx, s4)" using m(3) by (auto simp: bind_eq_Some_conv)
      note o4 = get_bits_out [OF x]
      show ?thesis
        using m(3) False x o3 o4 copy_match_out [of "dists ! nat dsym + dx" "lens ! k + ex" s4] lens_pos [OF k]
        by (auto simp: same_out_def Let_def split: if_splits prod.splits)
    qed
  qed
qed

function inflate_block :: "huffman \<Rightarrow> huffman \<Rightarrow> inflater \<Rightarrow> (bool \<times> inflater) option" where
  "inflate_block lh dh s =
     (case inflate_round lh dh s of
        None \<Rightarrow> None
      | Some (Stop b, s') \<Rightarrow> Some (b, s')
      | Some (Again, s') \<Rightarrow> inflate_block lh dh s')"
  by pat_completeness auto
termination
proof (relation "measure (\<lambda>(lh, dh, s). out_len s - length (out s))", goal_cases)
  case (2 lh dh s x r s')
  thus ?case using inflate_round_progress [of lh dh s Again s'] by auto
qed simp

declare inflate_block.simps [simp del]

section \<open>The stream\<close>

definition FIXED_LENGTHS :: "u8 list" where
  "FIXED_LENGTHS = replicate 144 8 @ replicate 112 9 @ replicate 24 7 @ replicate 8 8"

definition FIXED_DISTS :: "u8 list" where
  "FIXED_DISTS = replicate 32 5"

text \<open>A block that is stored as it is; \<open>None\<close> in the result is the \<open>break\<close> of the caller's loop.\<close>

fun copy_stored :: "nat \<Rightarrow> inflater \<Rightarrow> inflater option" where
  "copy_stored 0 s = Some s"
| "copy_stored (Suc n) s =
     (if length (out s) < out_len s then
        if in_pos s < length (in_bytes s) then
          copy_stored n ((put_byte (in_bytes s ! in_pos s) s)\<lparr>in_pos := Suc (in_pos s)\<rparr>)
        else None
      else Some s)"

definition in_byte :: "inflater \<Rightarrow> nat \<Rightarrow> u8 option" where
  "in_byte s i = (if in_pos s + i < length (in_bytes s) then Some (in_bytes s ! (in_pos s + i)) else None)"

definition stored_block :: "inflater \<Rightarrow> (bool \<times> inflater) option" where
  "stored_block s = (
     let s = s\<lparr>bitbuf := 0, bitcnt := 0\<rparr> in
     if in_len s < in_pos s + 4 then Some (False, s)
     else do {
       lo \<leftarrow> in_byte s 0;
       hi \<leftarrow> in_byte s 1;
       let len = unat lo + 256 * unat hi;
       let s = s\<lparr>in_pos := in_pos s + 4\<rparr>;
       if in_len s < in_pos s + len then Some (False, s)
       else map_option (Pair True) (copy_stored len s)
     })"

definition fixed_block :: "inflater \<Rightarrow> (bool \<times> inflater) option" where
  "fixed_block s = do {
     lh \<leftarrow> build_huffman FIXED_LENGTHS;
     dh \<leftarrow> build_huffman FIXED_DISTS;
     inflate_block lh dh s
   }"

definition clorder :: "nat list" where
  "clorder = [16, 17, 18, 0, 8, 7, 9, 6, 10, 5, 11, 4, 12, 3, 13, 2, 14, 1, 15]"

fun read_clens :: "nat list \<Rightarrow> u8 list \<Rightarrow> inflater \<Rightarrow> (u8 list \<times> inflater) option" where
  "read_clens [] clens s = Some (clens, s)"
| "read_clens (i # is) clens s = do {
     (v, s) \<leftarrow> get_bits 3 s;
     read_clens is (clens[i := of_nat v]) s
   }"

text \<open>
  The code lengths, in an array of 320 bytes; \<open>ls\<close> are those set so far. A symbol \<open>-1\<close>, for which
  no code matched, is stored like a length, as the byte 255.
\<close>

definition repeat_length :: "nat \<Rightarrow> u8 \<Rightarrow> u8 list \<Rightarrow> u8 list option" where
  "repeat_length n v ls = (if length ls + n \<le> 320 then Some (ls @ replicate n v) else None)"

definition length_step :: "int \<Rightarrow> u8 list \<Rightarrow> inflater \<Rightarrow> (u8 list \<times> inflater) option" where
  "length_step sy ls s =
     (if sy < 16 then do { ls \<leftarrow> repeat_length 1 (of_int sy) ls; Some (ls, s) }
      else if sy = 16 then do {
        (n, s) \<leftarrow> get_bits 2 s;
        ls \<leftarrow> repeat_length (n + 3) (if ls = [] then 0 else last ls) ls;
        Some (ls, s)
      }
      else if sy = 17 then do {
        (n, s) \<leftarrow> get_bits 3 s;
        ls \<leftarrow> repeat_length (n + 3) 0 ls;
        Some (ls, s)
      }
      else if sy = 18 then do {
        (n, s) \<leftarrow> get_bits 7 s;
        ls \<leftarrow> repeat_length (n + 11) 0 ls;
        Some (ls, s)
      }
      else Some (ls, s))"

text \<open>
  The loop that reads the lengths. The table has 19 symbols, so no symbol is above 18 and each
  round adds a length; \<open>steps\<close> bounds the rounds by the number of lengths still to be read.
\<close>

fun read_lengths :: "nat \<Rightarrow> huffman \<Rightarrow> nat \<Rightarrow> u8 list \<Rightarrow> inflater \<Rightarrow> (u8 list \<times> inflater) option" where
  "read_lengths 0 ch want ls s = Some (ls, s)"
| "read_lengths (Suc steps) ch want ls s =
     (if length ls < want then do {
        (sy, s) \<leftarrow> decode_symbol ch s;
        (ls, s) \<leftarrow> length_step sy ls s;
        read_lengths steps ch want ls s
      }
      else Some (ls, s))"

definition dynamic_block :: "inflater \<Rightarrow> (bool \<times> inflater) option" where
  "dynamic_block s = do {
     (a, s) \<leftarrow> get_bits 5 s;
     (b, s) \<leftarrow> get_bits 5 s;
     (c, s) \<leftarrow> get_bits 4 s;
     let hlit = a + 257;
     let hdist = b + 1;
     (clens, s) \<leftarrow> read_clens (take (c + 4) clorder) (replicate 19 0) s;
     ch \<leftarrow> build_huffman clens;
     (ls, s) \<leftarrow> read_lengths (hlit + hdist) ch (hlit + hdist) [] s;
     lh \<leftarrow> build_huffman (take hlit ls);
     dh \<leftarrow> build_huffman (take hdist (drop hlit ls));
     inflate_block lh dh s
   }"

text \<open>
  The loop over the blocks. The outer \<open>None\<close> is a loop that never ends, \<open>Some None\<close> a fault.
\<close>

definition block_step :: "inflater \<Rightarrow> (bool \<times> inflater) option" where
  "block_step s = do {
     (final, s) \<leftarrow> get_bits 1 s;
     (btype, s) \<leftarrow> get_bits 2 s;
     (ok, s) \<leftarrow> (if btype = 0 then stored_block s
                 else if btype = 1 then fixed_block s
                 else if btype = 2 then dynamic_block s
                 else Some (False, s));
     Some (ok \<and> final = 0, s)
   }"

partial_function (option) inflate_blocks :: "inflater \<Rightarrow> inflater option option" where
  "inflate_blocks s =
     (case block_step s of
        None \<Rightarrow> Some None
      | Some (again, s') \<Rightarrow> if again then inflate_blocks s' else Some (Some s'))"

section \<open>The container\<close>

definition is_gzip :: "u8 list option \<Rightarrow> bool" where
  "is_gzip data =
     (case data of None \<Rightarrow> False | Some bs \<Rightarrow> 10 \<le> length bs \<and> bs ! 0 = 0x1f \<and> bs ! 1 = 0x8b)"

text \<open>The position after the string, with its zero, that starts at \<open>off\<close>.\<close>

definition skip_string :: "u8 list \<Rightarrow> nat \<Rightarrow> nat" where
  "skip_string bs off = Suc (off + length (takeWhile (\<lambda>b. b \<noteq> 0) (drop off bs)))"

definition header_size :: "u8 list \<Rightarrow> nat option" where
  "header_size bs = (
     let flags = bs ! 3 in do {
     off \<leftarrow> (if flags AND 4 \<noteq> 0 then
               if length bs < 12 then None
               else Some (12 + unat (bs ! 10) + 256 * unat (bs ! 11))
             else Some 10);
     let off = (if flags AND 8 \<noteq> 0 then skip_string bs off else off);
     let off = (if flags AND 16 \<noteq> 0 then skip_string bs off else off);
     let off = (if flags AND 2 \<noteq> 0 then off + 2 else off);
     if length bs \<le> off then None else Some off
   })"

definition start_state :: "u8 list \<Rightarrow> nat \<Rightarrow> u64 option \<Rightarrow> inflater" where
  "start_state bs off dest_size =
     \<lparr>in_bytes = drop off bs, in_len = unat (of_nat (length bs) - of_nat off - 8 :: u64), in_pos = 0,
      bitbuf = 0, bitcnt = 0, out = [], out_len = unat (case dest_size of None \<Rightarrow> 0xFFFFFFFF | Some n \<Rightarrow> n)\<rparr>"

text \<open>The result says whether the call returned \<open>true\<close>, with the bytes in the destination.\<close>

definition decompress :: "u8 list option \<Rightarrow> u64 option \<Rightarrow> (bool \<times> u8 list) option option" where
  "decompress src dest_size =
     (if is_gzip src then
        case header_size (the src) of
          None \<Rightarrow> Some (Some (False, []))
        | Some off \<Rightarrow>
            map_option (map_option (\<lambda>s. (out s \<noteq> [], out s)))
              (inflate_blocks (start_state (the src) off dest_size))
      else Some (Some (False, [])))"

section \<open>The input as a sequence of bits\<close>

text \<open>The bits of the input, in the order of the format: zeros follow the end.\<close>

definition input_bit :: "inflater \<Rightarrow> nat \<Rightarrow> bool" where
  "input_bit s i = (i div 8 < in_len s \<and> bit (in_bytes s ! (i div 8)) (i mod 8))"

definition next_bits :: "inflater \<Rightarrow> nat \<Rightarrow> bool" where
  "next_bits s i = (if i < bitcnt s then bit (bitbuf s) i else input_bit s (8 * in_pos s + (i - bitcnt s)))"

definition num_of_bits :: "nat \<Rightarrow> (nat \<Rightarrow> bool) \<Rightarrow> nat" where
  "num_of_bits n f = (\<Sum>i<n. of_bool (f i) * 2 ^ i)"

definition buffered :: "inflater \<Rightarrow> bool" where
  "buffered s \<longleftrightarrow> in_pos s \<le> in_len s \<and> (\<forall>i. bitcnt s \<le> i \<longrightarrow> \<not> bit (bitbuf s) i)"

definition same_input :: "inflater \<Rightarrow> inflater \<Rightarrow> bool" where
  "same_input s s' \<longleftrightarrow> in_bytes s' = in_bytes s \<and> in_len s' = in_len s \<and> in_pos s \<le> in_pos s'"

lemma fill_bits_law:
  assumes "fill_bits n s = Some s'" "buffered s" "n \<le> 24"
  shows "next_bits s' = next_bits s \<and> buffered s' \<and> n \<le> bitcnt s' \<and> bitcnt s' < max (bitcnt s + 1) (n + 8) \<and>
    same_input s s' \<and>
    (in_pos s' < in_len s' \<longrightarrow> 8 * in_pos s' + bitcnt s = 8 * in_pos s + bitcnt s')"
  using assms
proof (induction n s rule: fill_bits.induct)
  case (1 n s)
  consider (full) "n \<le> bitcnt s" | (real) "bitcnt s < n" "in_pos s < in_len s" | (pad) "bitcnt s < n" "in_pos s = in_len s"
    using "1.prems"(2) by (fastforce simp: buffered_def)
  thus ?case
  proof cases
    case full
    hence "s' = s" using "1.prems"(1) by (subst (asm) fill_bits.simps) simp
    thus ?thesis using full "1.prems"(2) by (simp add: same_input_def)
  next
    case real
    define t where "t = s\<lparr>bitbuf := bitbuf s OR push_bit (bitcnt s) (ucast (in_bytes s ! in_pos s)),
                           in_pos := Suc (in_pos s), bitcnt := bitcnt s + 8\<rparr>"
    have l: "in_pos s < length (in_bytes s)" and f: "fill_bits n t = Some s'"
      using "1.prems"(1) real by (subst (asm) fill_bits.simps; simp add: t_def split: if_splits)+
    have zero: "\<not> bit (bitbuf s) i" if "bitcnt s \<le> i" for i using "1.prems"(2) that by (simp add: buffered_def)
    have small: "i < bitcnt s + 8" if "bit (in_bytes s ! in_pos s) (i - bitcnt s)" for i
      using bit_imp_le_length [OF that] by auto
    have bt: "bit (bitbuf t) i = (if i < bitcnt s then bit (bitbuf s) i
        else i < bitcnt s + 8 \<and> bit (in_bytes s ! in_pos s) (i - bitcnt s))" for i
      using zero small [of i] real "1.prems"(3) by (auto simp: t_def bit_or_iff bit_push_bit_iff bit_ucast_iff)
    have buf: "buffered t" using real by (auto simp: buffered_def bt) (auto simp: t_def)
    have nb: "next_bits t = next_bits s"
    proof
      fix i
      have d: "(8 * in_pos s + (i - bitcnt s)) div 8 = in_pos s" "(8 * in_pos s + (i - bitcnt s)) mod 8 = i - bitcnt s"
        if "bitcnt s \<le> i" "i < bitcnt s + 8"
      proof -
        have "i - bitcnt s < 8" using that by simp
        thus "(8 * in_pos s + (i - bitcnt s)) div 8 = in_pos s" "(8 * in_pos s + (i - bitcnt s)) mod 8 = i - bitcnt s"
          by (simp_all only: div_mult_self4 mod_mult_self4 div_less mod_less)
      qed
      have e: "8 * Suc (in_pos s) + (i - (bitcnt s + 8)) = 8 * in_pos s + (i - bitcnt s)" if "bitcnt s + 8 \<le> i" using that by simp
      show "next_bits t i = next_bits s i"
      proof (cases "i < bitcnt s + 8")
        case True
        hence "next_bits t i = bit (bitbuf t) i" by (simp add: next_bits_def t_def)
        thus ?thesis using True real d by (simp add: bt next_bits_def input_bit_def)
      next
        case False
        thus ?thesis using e by (simp add: next_bits_def input_bit_def t_def)
      qed
    qed
    have si: "same_input s t" "bitcnt t = bitcnt s + 8" "in_pos t = Suc (in_pos s)" by (simp_all add: t_def same_input_def)
    have IH: "next_bits s' = next_bits t \<and> buffered s' \<and> n \<le> bitcnt s' \<and> bitcnt s' < max (bitcnt t + 1) (n + 8) \<and>
      same_input t s' \<and> (in_pos s' < in_len s' \<longrightarrow> 8 * in_pos s' + bitcnt t = 8 * in_pos t + bitcnt s')"
      using "1.IH"(1) [OF real l] f buf "1.prems"(3) by (simp add: t_def)
    thus ?thesis using si nb real by (auto simp: same_input_def)
  next
    case pad
    define t where "t = s\<lparr>bitcnt := bitcnt s + 8\<rparr>"
    have f: "fill_bits n t = Some s'" using "1.prems"(1) pad by (subst (asm) fill_bits.simps) (simp add: t_def)
    have buf: "buffered t" using "1.prems"(2) by (auto simp: buffered_def t_def)
    have "in_len s \<le> i div 8" if "8 * in_pos s \<le> i" for i using that pad by simp
    hence "\<not> input_bit s i" if "8 * in_pos s \<le> i" for i using that by (simp add: input_bit_def leD)
    hence nb: "next_bits t = next_bits s"
      using "1.prems"(2) pad by (auto simp: next_bits_def t_def buffered_def input_bit_def fun_eq_iff)
    have IH: "next_bits s' = next_bits t \<and> buffered s' \<and> n \<le> bitcnt s' \<and> bitcnt s' < max (bitcnt t + 1) (n + 8) \<and>
      same_input t s' \<and> (in_pos s' < in_len s' \<longrightarrow> 8 * in_pos s' + bitcnt t = 8 * in_pos t + bitcnt s')"
      using "1.IH"(2) [OF pad(1)] f buf "1.prems"(3) pad by (simp add: t_def)
    thus ?thesis using nb pad by (auto simp: same_input_def t_def)
  qed
qed

lemma num_of_bits_word: "num_of_bits n (bit w) = unat (take_bit n w)" for w :: "'a :: len word"
proof -
  have "num_of_bits n (bit w) = (\<Sum>k = 0..<length (map (bit (unat w)) [0..<n]). of_bool (map (bit (unat w)) [0..<n] ! k) * 2 ^ k)"
    by (simp add: num_of_bits_def lessThan_atLeast0 bit_unsigned_iff)
  also have "\<dots> = horner_sum of_bool 2 (map (bit (unat w)) [0..<n])" by (rule horner_sum_eq_sum [symmetric])
  also have "\<dots> = take_bit n (unat w)" by (rule horner_sum_bit_eq_take_bit)
  finally show ?thesis by (simp add: unsigned_take_bit_eq)
qed

lemma num_of_bits_cong: "(\<And>i. i < n \<Longrightarrow> f i = g i) \<Longrightarrow> num_of_bits n f = num_of_bits n g"
  by (simp add: num_of_bits_def)

lemma get_bits_law:
  assumes "get_bits n s = Some (v, s')" "buffered s" "n \<le> 24"
  shows "v = num_of_bits n (next_bits s) \<and> next_bits s' = (\<lambda>i. next_bits s (n + i)) \<and> buffered s' \<and> same_input s s' \<and>
    (in_pos s' < in_len s' \<longrightarrow> 8 * in_pos s' + bitcnt s = 8 * in_pos s + bitcnt s' + n)"
proof -
  obtain t where t: "fill_bits n s = Some t" "v = unat (bitbuf t AND mask n)"
    "s' = t\<lparr>bitbuf := drop_bit n (bitbuf t), bitcnt := bitcnt t - n\<rparr>"
    using assms(1) by (auto simp: get_bits_def bind_eq_Some_conv)
  note law = fill_bits_law [OF t(1) assms(2,3)]
  have "v = num_of_bits n (bit (bitbuf t))" by (simp add: t(2) num_of_bits_word take_bit_eq_mask)
  also have "\<dots> = num_of_bits n (next_bits t)"
  proof (rule num_of_bits_cong)
    fix i assume "i < n"
    hence "i < bitcnt t" using law by linarith
    thus "bit (bitbuf t) i = next_bits t i" by (simp add: next_bits_def)
  qed
  finally have v: "v = num_of_bits n (next_bits s)" using law by simp
  have nt: "n \<le> bitcnt t" using law by blast
  have "next_bits s' i = next_bits t (n + i)" for i
  proof (cases "n + i < bitcnt t")
    case True
    hence "i < bitcnt t - n" by linarith
    thus ?thesis using True by (simp add: t(3) next_bits_def bit_drop_bit_eq)
  next
    case False
    hence "8 * in_pos t + (i - (bitcnt t - n)) = 8 * in_pos t + (n + i - bitcnt t)" using nt by simp
    moreover have "\<not> i < bitcnt t - n" using False by simp
    ultimately show ?thesis using False by (simp add: t(3) next_bits_def input_bit_def add.commute [of n i])
  qed
  moreover have "buffered s'" using law by (auto simp: t(3) buffered_def bit_drop_bit_eq)
  moreover have "same_input s s'" using law by (simp add: t(3) same_input_def)
  ultimately show ?thesis using v law by (auto simp: t(3))
qed

lemma fill_bits_returns:
  assumes "in_len s \<le> length (in_bytes s)"
  obtains s' where "fill_bits n s = Some s'"
proof -
  have "\<exists>s'. fill_bits n s = Some s'"
    using assms
  proof (induction n s rule: fill_bits.induct)
    case (1 n s) thus ?case by (subst fill_bits.simps) auto
  qed
  thus thesis using that by blast
qed

lemma get_bits_returns:
  assumes "in_len s \<le> length (in_bytes s)"
  obtains v s' where "get_bits n s = Some (v, s')"
  using fill_bits_returns [OF assms, of n] by (fastforce simp: get_bits_def)

section \<open>Canonical codes\<close>

text \<open>
  The codes that RFC 1951 assigns to symbols with given code lengths: the codes of one length are
  consecutive, in the order of the symbols, and the first of them follows the codes of the next
  shorter length.
\<close>

definition cnt :: "u8 list \<Rightarrow> nat \<Rightarrow> nat" where
  "cnt ls l = length (filter (\<lambda>x. unat x = l) ls)"

definition rank :: "u8 list \<Rightarrow> nat \<Rightarrow> nat" where
  "rank ls i = cnt (take i ls) (unat (ls ! i))"

fun next_code :: "u8 list \<Rightarrow> nat \<Rightarrow> nat" where
  "next_code ls 0 = 0"
| "next_code ls (Suc l) = (if l = 0 then 0 else 2 * (next_code ls l + cnt ls l))"

definition canonical_code :: "u8 list \<Rightarrow> nat \<Rightarrow> nat" where
  "canonical_code ls i = next_code ls (unat (ls ! i)) + rank ls i"

text \<open>The code as it stands in the stream, its most significant bit first.\<close>

definition codeword :: "u8 list \<Rightarrow> nat \<Rightarrow> bool list" where
  "codeword ls i = (let l = unat (ls ! i) in map (\<lambda>k. bit (canonical_code ls i) (l - 1 - k)) [0..<l])"

text \<open>Code lengths that the format allows: at most 15, and not more codes than there are.\<close>

definition code_lengths :: "u8 list \<Rightarrow> bool" where
  "code_lengths ls \<longleftrightarrow> length ls \<le> 288 \<and> (\<forall>l \<in> set ls. unat l \<le> 15) \<and>
     (\<Sum>l = 1..15. cnt ls l * 2 ^ (15 - l)) \<le> 2 ^ 15"

lemma cnt_simps [simp]: "cnt [] l = 0" "cnt (x # xs) l = (if unat x = l then Suc (cnt xs l) else cnt xs l)"
  by (simp_all add: cnt_def)

lemma cnt_append: "cnt (xs @ ys) l = cnt xs l + cnt ys l"
  by (simp add: cnt_def)

lemma rank_less: "i < length ls \<Longrightarrow> rank ls i < cnt ls (unat (ls ! i))"
proof -
  assume i: "i < length ls"
  have "cnt ls (unat (ls ! i)) = cnt (take i ls) (unat (ls ! i)) + cnt (ls ! i # drop (Suc i) ls) (unat (ls ! i))"
    using id_take_nth_drop [OF i] cnt_append by metis
  thus ?thesis by (simp add: rank_def)
qed

lemma count_lengths_law:
  assumes "length cs = 16" "\<forall>l \<in> set ls. unat l \<le> 15"
  shows "\<exists>cs'. count_lengths ls cs = Some cs' \<and> length cs' = 16 \<and> (\<forall>l. 1 \<le> l \<and> l \<le> 15 \<longrightarrow> cs' ! l = cs ! l + cnt ls l)"
  using assms
proof (induction ls arbitrary: cs)
  case (Cons x xs)
  show ?case
  proof (cases "x = 0")
    case True
    then show ?thesis using Cons.IH [of cs] Cons.prems by auto
  next
    case False
    let ?cs = "cs[unat x := Suc (cs ! unat x)]"
    have x: "1 \<le> unat x" "unat x \<le> 15" using False Cons.prems(2) unat_gt_0 [of x] by auto
    obtain cs' where "count_lengths xs ?cs = Some cs'" "length cs' = 16" "\<forall>l. 1 \<le> l \<and> l \<le> 15 \<longrightarrow> cs' ! l = ?cs ! l + cnt xs l"
      using Cons.IH [of ?cs] Cons.prems by auto
    moreover have "?cs ! l = cs ! l + (if unat x = l then 1 else 0)" if "l \<le> 15" for l
      using that Cons.prems(1) by (simp add: nth_list_update)
    ultimately show ?thesis using False x Cons.prems(1) by (auto simp: bump_def)
  qed
qed simp

lemma symbol_offsets_eq:
  "symbol_offsets cs off acc = acc @ map (\<lambda>k. off + sum_list (take (Suc k) cs)) [0..<length cs]"
proof (induction cs arbitrary: off acc)
  case (Cons c cs)
  have "map (\<lambda>k. off + sum_list (take (Suc k) (c # cs))) [0..<length (c # cs)] =
      (off + c) # map (\<lambda>k. off + c + sum_list (take (Suc k) cs)) [0..<length cs]"
    by (simp add: upt_conv_Cons map_Suc_upt [symmetric] del: upt_Suc)
  thus ?case by (simp add: Cons.IH)
qed simp

definition offset_of :: "u8 list \<Rightarrow> nat \<Rightarrow> nat" where
  "offset_of ls l = (\<Sum>m = 1..<l. cnt ls m)"

lemma symbol_offsets_law:
  assumes "length cs = 16" "\<forall>l. 1 \<le> l \<and> l \<le> 15 \<longrightarrow> cs ! l = cnt ls l" "1 \<le> l" "l \<le> 15"
  shows "symbol_offsets (take 14 (tl cs)) 0 [0, 0] ! l = offset_of ls l"
proof (cases "l = 1")
  case True thus ?thesis by (simp add: symbol_offsets_eq offset_of_def nth_append)
next
  case False
  then obtain k where k: "l = Suc (Suc k)" "k < 14" using assms(3,4)
    by (cases l; cases "l - 1") simp_all
  have "symbol_offsets (take 14 (tl cs)) 0 [0, 0] ! l = sum_list (take (Suc k) (take 14 (tl cs)))"
    using k assms(1) by (simp add: symbol_offsets_eq nth_append)
  also have "take (Suc k) (take 14 (tl cs)) = map (\<lambda>m. cnt ls (Suc m)) [0..<Suc k]"
    by (rule nth_equalityI) (use k assms(1,2) in \<open>auto simp: nth_tl simp del: upt_Suc\<close>)
  also have "sum_list \<dots> = (\<Sum>m \<in> {0..<Suc k}. cnt ls (Suc m))" by (simp only: interv_sum_list_conv_sum_set_nat set_upt)
  also have "\<dots> = offset_of ls l" unfolding offset_of_def k(1)
    by (rule sum.reindex_bij_witness [of _ "\<lambda>m. m - 1" Suc]) auto
  finally show ?thesis .
qed

text \<open>
  The symbols of one length fill consecutive entries of the table, in the order of the symbols.
\<close>

definition slots_ok :: "u8 list \<Rightarrow> nat list \<Rightarrow> nat \<Rightarrow> bool" where
  "slots_ok ls offs n \<longleftrightarrow> length offs = 16 \<and>
     (\<forall>l l'. 1 \<le> l \<and> l < l' \<and> l' \<le> 15 \<longrightarrow> offs ! l + cnt ls l \<le> offs ! l') \<and>
     (\<forall>l. 1 \<le> l \<and> l \<le> 15 \<longrightarrow> offs ! l + cnt ls l \<le> n)"

lemma slots_step:
  assumes "slots_ok (x # xs) offs n" "1 \<le> unat x" "unat x \<le> 15"
  shows "slots_ok xs (offs[unat x := Suc (offs ! unat x)]) n" "offs ! unat x < n"
proof -
  let ?offs = "offs[unat x := Suc (offs ! unat x)]"
  have len: "length offs = 16" using assms(1) by (simp add: slots_ok_def)
  have sum: "?offs ! l + cnt xs l = offs ! l + cnt (x # xs) l" if "l \<le> 15" for l
    using that len assms(3) by (simp add: nth_list_update)
  have le: "offs ! l \<le> ?offs ! l" if "l \<le> 15" for l using that len assms(3) by (simp add: nth_list_update)
  have "?offs ! l + cnt xs l \<le> ?offs ! l'" if "1 \<le> l" "l < l'" "l' \<le> 15" for l l'
  proof -
    have "offs ! l + cnt (x # xs) l \<le> offs ! l'" using assms(1) that unfolding slots_ok_def by blast
    thus ?thesis using sum [of l] le [of l'] that by linarith
  qed
  moreover have "?offs ! l + cnt xs l \<le> n" if "1 \<le> l" "l \<le> 15" for l
    using assms(1) that sum [of l] unfolding slots_ok_def by metis
  ultimately show "slots_ok xs ?offs n" using len unfolding slots_ok_def by simp
  have "offs ! unat x + cnt (x # xs) (unat x) \<le> n" using assms unfolding slots_ok_def by blast
  thus "offs ! unat x < n" by simp
qed

lemma place_symbols_law:
  assumes "\<forall>l \<in> set ls. unat l \<le> 15" "slots_ok ls offs (length syms)"
  shows "\<exists>syms'. place_symbols ls i offs syms = Some syms' \<and> length syms' = length syms \<and>
    (\<forall>j < length ls. ls ! j \<noteq> 0 \<longrightarrow> syms' ! (offs ! unat (ls ! j) + rank ls j) = Some (i + j)) \<and>
    (\<forall>k. (\<forall>l. 1 \<le> l \<and> l \<le> 15 \<longrightarrow> k < offs ! l \<or> offs ! l + cnt ls l \<le> k) \<longrightarrow> syms' ! k = syms ! k)"
  using assms
proof (induction ls arbitrary: i offs syms)
  case (Cons x xs)
  have rank_Suc: "rank (x # xs) (Suc j) = rank xs j + (if unat x = unat (xs ! j) then 1 else 0)" for j
    by (simp add: rank_def)
  have rank_0: "rank (x # xs) 0 = 0" by (simp add: rank_def)
  show ?case
  proof (cases "x = 0")
    case True
    have c: "cnt (x # xs) l = cnt xs l" if "1 \<le> l" for l using that True by simp
    have "slots_ok xs offs (length syms)" using Cons.prems(2) c unfolding slots_ok_def by auto
    then obtain syms' where s: "place_symbols xs (Suc i) offs syms = Some syms'" "length syms' = length syms"
      "\<forall>j < length xs. xs ! j \<noteq> 0 \<longrightarrow> syms' ! (offs ! unat (xs ! j) + rank xs j) = Some (Suc i + j)"
      "\<forall>k. (\<forall>l. 1 \<le> l \<and> l \<le> 15 \<longrightarrow> k < offs ! l \<or> offs ! l + cnt xs l \<le> k) \<longrightarrow> syms' ! k = syms ! k"
      using Cons.IH [of offs syms "Suc i"] Cons.prems(1) by auto
    have "syms' ! (offs ! unat ((x # xs) ! j) + rank (x # xs) j) = Some (i + j)" if "j < length (x # xs)" "(x # xs) ! j \<noteq> 0" for j
    proof (cases j)
      case (Suc m)
      hence "xs ! m \<noteq> 0" "m < length xs" using that by auto
      moreover have "unat (xs ! m) \<noteq> 0" using \<open>xs ! m \<noteq> 0\<close> by (simp add: unat_eq_0)
      ultimately show ?thesis using s(3) Suc True by (simp add: rank_Suc [unfolded True])
    qed (use that True in simp)
    thus ?thesis using s True c by auto
  next
    case False
    define l0 where "l0 = unat x"
    have x: "1 \<le> l0" "l0 \<le> 15" using False Cons.prems(1) unat_gt_0 [of x] by (auto simp: l0_def)
    let ?offs = "offs[l0 := Suc (offs ! l0)]" and ?syms = "syms[offs ! l0 := Some i]"
    note st = slots_step [OF Cons.prems(2), folded l0_def, OF x]
    have len: "length offs = 16" using Cons.prems(2) by (simp add: slots_ok_def)
    obtain syms' where s: "place_symbols xs (Suc i) ?offs ?syms = Some syms'" "length syms' = length syms"
      "\<forall>j < length xs. xs ! j \<noteq> 0 \<longrightarrow> syms' ! (?offs ! unat (xs ! j) + rank xs j) = Some (Suc i + j)"
      "\<forall>k. (\<forall>l. 1 \<le> l \<and> l \<le> 15 \<longrightarrow> k < ?offs ! l \<or> ?offs ! l + cnt xs l \<le> k) \<longrightarrow> syms' ! k = ?syms ! k"
      using Cons.IH [of ?offs ?syms "Suc i"] Cons.prems(1) st(1) by auto
    have run: "place_symbols (x # xs) i offs syms = Some syms'"
      using s(1) False x len st(2) by (simp add: l0_def)
    have free: "syms' ! k = ?syms ! k"
      if "\<And>l. 1 \<le> l \<Longrightarrow> l \<le> 15 \<Longrightarrow> k < ?offs ! l \<or> ?offs ! l + cnt xs l \<le> k" for k
      using s(4) that by blast
    have here: "syms' ! (offs ! l0) = Some i"
    proof -
      have "offs ! l0 < ?offs ! l \<or> ?offs ! l + cnt xs l \<le> offs ! l0" if l: "1 \<le> l" "l \<le> 15" for l
      proof -
        consider "l = l0" | "l < l0" | "l0 < l" by linarith
        thus ?thesis
        proof cases
          case 1 thus ?thesis using len x by simp
        next
          case 2
          hence "offs ! l + cnt (x # xs) l \<le> offs ! l0" using Cons.prems(2) l x unfolding slots_ok_def by blast
          thus ?thesis using 2 by (simp add: l0_def split: if_splits)
        next
          case 3
          hence "offs ! l0 + cnt (x # xs) l0 \<le> offs ! l" using Cons.prems(2) l x unfolding slots_ok_def by blast
          thus ?thesis using 3 by (simp add: l0_def)
        qed
      qed
      from free [OF this] show ?thesis using st(2) by simp
    qed
    have "syms' ! (offs ! unat ((x # xs) ! j) + rank (x # xs) j) = Some (i + j)" if "j < length (x # xs)" "(x # xs) ! j \<noteq> 0" for j
    proof (cases j)
      case 0 thus ?thesis using here by (simp add: rank_0 l0_def)
    next
      case (Suc m)
      hence m: "m < length xs" "xs ! m \<noteq> 0" "unat (xs ! m) \<le> 15" using that Cons.prems(1) by auto
      have "offs ! unat (xs ! m) + rank (x # xs) (Suc m) = ?offs ! unat (xs ! m) + rank xs m"
        using m(3) len by (auto simp: rank_Suc l0_def nth_list_update)
      thus ?thesis using s(3) m Suc by simp
    qed
    moreover have "syms' ! k = syms ! k" if k: "\<forall>l. 1 \<le> l \<and> l \<le> 15 \<longrightarrow> k < offs ! l \<or> offs ! l + cnt (x # xs) l \<le> k" for k
    proof -
      have "k < ?offs ! l \<or> ?offs ! l + cnt xs l \<le> k" if "1 \<le> l" "l \<le> 15" for l
        using k [rule_format, of l] that len x by (auto simp: l0_def nth_list_update split: if_splits)
      moreover have "k \<noteq> offs ! l0" using k x by (fastforce simp: l0_def)
      ultimately show ?thesis using free [of k] by simp
    qed
    ultimately show ?thesis using run s(2) by blast
  qed
qed simp

lemma cnt_sum: "(\<Sum>l = 1..15. cnt ls l) \<le> length ls"
proof -
  have "(\<Sum>l = 1..15. cnt ls l) = (\<Sum>l = 1..15. card {i. i < length ls \<and> unat (ls ! i) = l})"
    by (simp add: cnt_def length_filter_conv_card)
  also have "\<dots> = card (\<Union>l \<in> {1..15}. {i. i < length ls \<and> unat (ls ! i) = l})"
    by (rule card_UN_disjoint [symmetric]) auto
  also have "\<dots> \<le> card {..<length ls}" by (rule card_mono) auto
  finally show ?thesis by simp
qed

lemma offset_of_mono: "1 \<le> l \<Longrightarrow> l < l' \<Longrightarrow> offset_of ls l + cnt ls l \<le> offset_of ls l'"
proof -
  assume l: "1 \<le> l" "l < l'"
  have "offset_of ls l + cnt ls l = (\<Sum>m = 1..<Suc l. cnt ls m)" using l by (simp add: offset_of_def)
  also have "\<dots> \<le> offset_of ls l'" unfolding offset_of_def using l by (intro sum_mono2) auto
  finally show ?thesis .
qed

lemma offset_of_le: "1 \<le> l \<Longrightarrow> l \<le> 15 \<Longrightarrow> offset_of ls l + cnt ls l \<le> length ls"
proof -
  assume l: "1 \<le> l" "l \<le> 15"
  have "offset_of ls l + cnt ls l = (\<Sum>m = 1..<Suc l. cnt ls m)" using l by (simp add: offset_of_def)
  also have "\<dots> \<le> (\<Sum>l = 1..15. cnt ls l)" using l by (intro sum_mono2) auto
  finally show ?thesis using cnt_sum [of ls] by linarith
qed

lemma build_huffman_law:
  assumes "length ls \<le> 288" "\<forall>l \<in> set ls. unat l \<le> 15"
  shows "\<exists>h. build_huffman ls = Some h \<and> length (counts h) = 16 \<and> length (symbols h) = 288 \<and>
    (\<forall>l. 1 \<le> l \<and> l \<le> 15 \<longrightarrow> counts h ! l = cnt ls l) \<and>
    (\<forall>i < length ls. ls ! i \<noteq> 0 \<longrightarrow> symbols h ! (offset_of ls (unat (ls ! i)) + rank ls i) = Some i)"
proof -
  obtain cs where cs: "count_lengths ls (replicate 16 0) = Some cs" "length cs = 16" "\<forall>l. 1 \<le> l \<and> l \<le> 15 \<longrightarrow> cs ! l = cnt ls l"
    using count_lengths_law [of "replicate 16 0" ls] assms(2) by auto
  define offs where "offs = symbol_offsets (take 14 (tl cs)) 0 [0, 0]"
  have len: "length offs = 16" using cs(2) by (simp add: offs_def symbol_offsets_eq)
  have off: "offs ! l = offset_of ls l" if "1 \<le> l" "l \<le> 15" for l
    unfolding offs_def by (rule symbol_offsets_law [OF cs(2,3) that])
  have "slots_ok ls offs (length (replicate 288 (None :: nat option)))"
    unfolding slots_ok_def using len off offset_of_mono offset_of_le assms(1) by (fastforce intro: le_trans)
  from place_symbols_law [OF assms(2) this, of 0] obtain syms where
    syms: "place_symbols ls 0 offs (replicate 288 None) = Some syms" "length syms = 288"
    "\<forall>j < length ls. ls ! j \<noteq> 0 \<longrightarrow> syms ! (offs ! unat (ls ! j) + rank ls j) = Some j" by auto
  have "syms ! (offset_of ls (unat (ls ! i)) + rank ls i) = Some i" if "i < length ls" "ls ! i \<noteq> 0" for i
  proof -
    have "1 \<le> unat (ls ! i)" "unat (ls ! i) \<le> 15" using that assms(2) unat_gt_0 [of "ls ! i"] by auto
    thus ?thesis using syms(3) that off by metis
  qed
  thus ?thesis using cs syms(1,2) by (simp add: build_huffman_def offs_def [symmetric])
qed

text \<open>The code space: the codes of up to a length fill the space that the Kraft sum says.\<close>

lemma next_code_space: "1 \<le> l \<Longrightarrow> l \<le> 15 \<Longrightarrow> next_code ls l * 2 ^ (15 - l) = (\<Sum>m = 1..<l. cnt ls m * 2 ^ (15 - m))"
proof (induction l)
  case (Suc l)
  show ?case
  proof (cases "l = 0")
    case False
    have "next_code ls (Suc l) * 2 ^ (15 - Suc l) = (next_code ls l + cnt ls l) * 2 ^ (Suc (15 - Suc l))" using False by simp
    also have "Suc (15 - Suc l) = 15 - l" using Suc.prems by simp
    finally show ?thesis using Suc False by (simp add: algebra_simps)
  qed simp
qed simp

lemma next_code_step: "1 \<le> l \<Longrightarrow> l + d \<le> 15 \<Longrightarrow> (next_code ls l + cnt ls l) * 2 ^ d \<le> next_code ls (l + d) + (if d = 0 then cnt ls l else 0)"
proof (induction d)
  case (Suc d)
  have "(next_code ls l + cnt ls l) * 2 ^ d \<le> next_code ls (l + d) + cnt ls (l + d)"
    using Suc.IH Suc.prems by (cases "d = 0") auto
  hence "(next_code ls l + cnt ls l) * 2 ^ Suc d \<le> 2 * (next_code ls (l + d) + cnt ls (l + d))" by simp
  thus ?case using Suc.prems(1) by simp
qed simp

lemma canonical_code_less:
  assumes "code_lengths ls" "i < length ls" "ls ! i \<noteq> 0"
  shows "canonical_code ls i < 2 ^ unat (ls ! i)"
proof -
  let ?l = "unat (ls ! i)"
  have l: "1 \<le> ?l" "?l \<le> 15" using assms unat_gt_0 [of "ls ! i"] by (auto simp: code_lengths_def)
  have "canonical_code ls i * 2 ^ (15 - ?l) < (next_code ls ?l + cnt ls ?l) * 2 ^ (15 - ?l)"
    using rank_less [OF assms(2)] by (simp add: canonical_code_def)
  also have "\<dots> = (\<Sum>m = 1..<Suc ?l. cnt ls m * 2 ^ (15 - m))" using next_code_space [OF l, of ls] l by (simp add: algebra_simps)
  also have "\<dots> \<le> (\<Sum>m = 1..15. cnt ls m * 2 ^ (15 - m))" using l by (intro sum_mono2) auto
  also have "\<dots> \<le> 2 ^ 15" using assms(1) by (simp add: code_lengths_def)
  also have "\<dots> = 2 ^ ?l * 2 ^ (15 - ?l)" using l by (simp add: power_add [symmetric])
  finally show ?thesis by simp
qed

section \<open>Decoding a symbol\<close>

text \<open>A state whose input is all there, and the states that are reached by taking bits from it.\<close>

definition ready :: "inflater \<Rightarrow> bool" where
  "ready s \<longleftrightarrow> buffered s \<and> in_len s \<le> length (in_bytes s)"

definition took :: "nat \<Rightarrow> inflater \<Rightarrow> inflater \<Rightarrow> bool" where
  "took n s s' \<longleftrightarrow> ready s' \<and> next_bits s' = (\<lambda>i. next_bits s (n + i)) \<and> same_input s s' \<and> same_out s s'"

lemma took_add: "took m s t \<Longrightarrow> took n t u \<Longrightarrow> took (m + n) s u"
  by (auto simp: took_def same_input_def same_out_def add.assoc)

lemma get_bits_took:
  assumes "ready s" "n \<le> 24"
  obtains s' where "get_bits n s = Some (num_of_bits n (next_bits s), s')" "took n s s'"
proof -
  obtain v s' where g: "get_bits n s = Some (v, s')" using get_bits_returns assms(1) unfolding ready_def by blast
  have b: "buffered s" using assms(1) by (simp add: ready_def)
  note law = get_bits_law [OF g b assms(2)]
  have "took n s s'" using law assms(1) get_bits_out [OF g] by (auto simp: took_def ready_def same_input_def)
  thus thesis using that g law by blast
qed

lemma get_bit_took:
  assumes "ready s"
  obtains s' where "get_bits 1 s = Some (of_bool (next_bits s 0), s')" "took 1 s s'"
  using get_bits_took [OF assms, of 1] by (auto simp: num_of_bits_def)

definition starts_with :: "inflater \<Rightarrow> bool list \<Rightarrow> bool" where
  "starts_with s bs \<longleftrightarrow> (\<forall>k < length bs. next_bits s k = bs ! k)"

lemma starts_with_append: "starts_with s (xs @ ys) \<Longrightarrow> took (length xs) s t \<Longrightarrow> starts_with s xs \<and> starts_with t ys"
  by (auto simp: starts_with_def took_def nth_append)

lemma decode_from_law:
  assumes ls: "code_lengths ls" "i < length ls" "ls ! i \<noteq> 0" and h: "length (counts h) = 16"
    "\<forall>l. 1 \<le> l \<and> l \<le> 15 \<longrightarrow> counts h ! l = cnt ls l"
    "length (symbols h) = 288" "symbols h ! (offset_of ls (unat (ls ! i)) + rank ls i) = Some i"
    and m: "m < unat (ls ! i)" and s: "ready s" "starts_with s (drop m (codeword ls i))"
  shows "\<exists>s'. decode_from h (drop m (take 15 (tl (counts h)))) (int (canonical_code ls i div 2 ^ (unat (ls ! i) - m)))
      (int (next_code ls (Suc m))) (int (offset_of ls (Suc m))) s = Some (int i, s') \<and> took (unat (ls ! i) - m) s s'"
  using m s
proof (induction "unat (ls ! i) - m" arbitrary: m s)
  case (Suc d)
  define L where "L = unat (ls ! i)"
  define c where "c = canonical_code ls i"
  have L: "m < L" "L \<le> 15" "L - m = Suc d" using Suc.prems(1) Suc.hyps(2) ls by (auto simp: L_def code_lengths_def)
  have cs: "drop m (take 15 (tl (counts h))) = cnt ls (Suc m) # drop (Suc m) (take 15 (tl (counts h)))"
    using h(1,2) L by (subst Cons_nth_drop_Suc [symmetric]) (auto simp: nth_tl)
  have "L - 1 - m = d" using L by simp
  hence cw: "codeword ls i ! m = bit c d" "length (codeword ls i) = L"
    using L(1) by (simp_all add: codeword_def Let_def L_def c_def)
  have b: "next_bits s 0 = bit c d" using Suc.prems(3) cw L by (auto simp: starts_with_def)
  obtain s1 where s1: "get_bits 1 s = Some (of_bool (bit c d), s1)" "took 1 s s1"
    using get_bit_took [OF Suc.prems(2)] b by auto
  have p: "2 * int (c div 2 ^ (L - m)) + int (of_bool (bit c d)) = int (c div 2 ^ d)"
  proof -
    have "c div 2 ^ d = 2 * (c div 2 ^ d div 2) + c div 2 ^ d mod 2" by simp
    moreover have "c div 2 ^ d div 2 = c div 2 ^ (L - m)" by (simp add: L div_mult2_eq [symmetric] mult.commute)
    moreover have "c div 2 ^ d mod 2 = of_bool (bit c d)" by (simp add: bit_iff_odd mod_2_eq_odd)
    ultimately show ?thesis by (metis of_nat_add of_nat_mult of_nat_numeral)
  qed
  show ?case
  proof (cases "d = 0")
    case True
    hence Lm: "L = Suc m" using L by simp
    have r: "c = next_code ls L + rank ls i" by (simp add: c_def canonical_code_def L_def)
    have rl: "rank ls i < cnt ls L" unfolding L_def by (rule rank_less [OF ls(2)])
    have "int (offset_of ls L) + int (rank ls i) = int (offset_of ls L + rank ls i)" by simp
    moreover have "offset_of ls L + rank ls i < 288"
      using offset_of_le [of L ls] rl L ls(1) by (auto simp: code_lengths_def)
    ultimately have sy: "symbol_at h (int (offset_of ls (Suc m)) + (int (c div 2 ^ d) - int (next_code ls (Suc m)))) = Some (int i)"
      using h(3,4) True by (simp add: symbol_at_def r Lm [symmetric] L_def nat_int_add)
    have lt: "int (c div 2 ^ d) - int (next_code ls (Suc m)) < int (cnt ls (Suc m))" using True rl by (simp add: r Lm)
    show ?thesis
      unfolding L_def [symmetric] c_def [symmetric] cs
      using s1 p sy lt L True by (simp add: Let_def)
  next
    case False
    have "Suc m + d = L" using L by simp
    hence "(next_code ls (Suc m) + cnt ls (Suc m)) * 2 ^ d \<le> next_code ls L"
      using next_code_step [of "Suc m" d ls] L(2) False by (simp del: next_code.simps)
    hence "(next_code ls (Suc m) + cnt ls (Suc m)) * 2 ^ d \<le> c"
      by (simp del: next_code.simps add: c_def canonical_code_def L_def [symmetric])
    hence "next_code ls (Suc m) + cnt ls (Suc m) \<le> c div 2 ^ d" by (simp add: less_eq_div_iff_mult_less_eq)
    hence nlt: "\<not> int (c div 2 ^ d) - int (next_code ls (Suc m)) < int (cnt ls (Suc m))" by linarith
    have nc: "int (next_code ls (Suc (Suc m))) = int (next_code ls (Suc m)) * 2 + int (cnt ls (Suc m)) * 2" by simp
    have oc: "int (offset_of ls (Suc m)) + int (cnt ls (Suc m)) = int (offset_of ls (Suc (Suc m)))" by (simp add: offset_of_def)
    have "starts_with s1 (drop (Suc m) (codeword ls i))"
    proof -
      have "drop m (codeword ls i) = [bit c d] @ drop (Suc m) (codeword ls i)"
        using cw L Cons_nth_drop_Suc [of m "codeword ls i"] by simp
      thus ?thesis using starts_with_append [of s "[bit c d]"] Suc.prems(3) s1(2) by simp
    qed
    moreover have "ready s1" using s1(2) by (simp add: took_def)
    moreover have "d = unat (ls ! i) - Suc m" "Suc m < unat (ls ! i)" using L False by (simp_all add: L_def)
    ultimately obtain s' where s': "decode_from h (drop (Suc m) (take 15 (tl (counts h)))) (int (c div 2 ^ d))
        (int (next_code ls (Suc (Suc m)))) (int (offset_of ls (Suc (Suc m)))) s1 = Some (int i, s')" "took d s1 s'"
      using Suc.hyps(1) [of "Suc m" s1] unfolding c_def by metis
    have "took (Suc d) s s'" using took_add [OF s1(2) s'(2)] by simp
    thus ?thesis
      unfolding L_def [symmetric] c_def [symmetric] cs
      using s1 p nlt s' oc L by (simp add: Let_def nc distrib_right del: next_code.simps)
  qed
qed simp

lemma decode_symbol_law:
  assumes "code_lengths ls" "i < length ls" "ls ! i \<noteq> 0" "build_huffman ls = Some h"
    and s: "ready s" "starts_with s (codeword ls i)"
  shows "\<exists>s'. decode_symbol h s = Some (int i, s') \<and> took (length (codeword ls i)) s s'"
proof -
  have h: "length (counts h) = 16" "\<forall>l. 1 \<le> l \<and> l \<le> 15 \<longrightarrow> counts h ! l = cnt ls l" "length (symbols h) = 288"
    "symbols h ! (offset_of ls (unat (ls ! i)) + rank ls i) = Some i"
    using build_huffman_law [of ls] assms(1-4) by (auto simp: code_lengths_def)
  have c: "canonical_code ls i div 2 ^ unat (ls ! i) = 0" using canonical_code_less [OF assms(1-3)] by simp
  have "0 < unat (ls ! i)" using assms(3) by (simp add: unat_gt_0)
  from decode_from_law [OF assms(1-3) h this s(1)] s(2) c show ?thesis
    by (simp add: decode_symbol_def offset_of_def codeword_def Let_def)
qed

text \<open>
  the tables decode the codes of RFC 1951. For code lengths of at most 15 bits that do not claim
  more than the code space, \<open>build_huffman\<close> succeeds, and from every state of the decoder whose next
  bits are the canonical code of a symbol, \<open>decode_symbol\<close> returns that symbol and has taken exactly
  these bits from the input.
\<close>

theorem huffman_decodes_canonical:
  assumes "code_lengths ls" "i < length ls" "ls ! i \<noteq> 0" "ready s" "starts_with s (codeword ls i)"
  shows "\<exists>h s'. build_huffman ls = Some h \<and> decode_symbol h s = Some (int i, s') \<and>
    ready s' \<and> next_bits s' = (\<lambda>k. next_bits s (unat (ls ! i) + k)) \<and> out s' = out s"
proof -
  obtain h where h: "build_huffman ls = Some h" using build_huffman_law [of ls] assms(1) by (auto simp: code_lengths_def)
  have "length (codeword ls i) = unat (ls ! i)" by (simp add: codeword_def Let_def)
  with decode_symbol_law [OF assms(1-3) h assms(4,5)] h show ?thesis by (auto simp: took_def same_out_def)
qed

section \<open>Decoding a block\<close>

text \<open>
  The contents of a compressed block: single bytes, and matches that repeat earlier output. A match
  names its length and its distance by a symbol and extra bits each.
\<close>

datatype token = Lit u8 | Match nat nat nat nat

fun copy_bytes :: "nat \<Rightarrow> nat \<Rightarrow> u8 list \<Rightarrow> u8 list" where
  "copy_bytes 0 d o1 = o1"
| "copy_bytes (Suc n) d o1 = copy_bytes n d (o1 @ [o1 ! (length o1 - d)])"

fun expand :: "token \<Rightarrow> u8 list \<Rightarrow> u8 list" where
  "expand (Lit b) o1 = o1 @ [b]"
| "expand (Match k ex d dx) o1 = copy_bytes (lens ! k + ex) (dists ! d + dx) o1"

definition lsb_bits :: "nat \<Rightarrow> nat \<Rightarrow> bool list" where
  "lsb_bits n v = map (bit v) [0..<n]"

fun encode :: "u8 list \<Rightarrow> u8 list \<Rightarrow> token \<Rightarrow> bool list" where
  "encode lls dls (Lit b) = codeword lls (unat b)"
| "encode lls dls (Match k ex d dx) =
     codeword lls (257 + k) @ lsb_bits (lext ! k) ex @ codeword dls d @ lsb_bits (dext ! d) dx"

text \<open>The token has codes, its extra bits fit, its distance does not reach behind the first byte.\<close>

fun token_ok :: "u8 list \<Rightarrow> u8 list \<Rightarrow> u8 list \<Rightarrow> token \<Rightarrow> bool" where
  "token_ok lls dls o1 (Lit b) \<longleftrightarrow> unat b < length lls \<and> lls ! unat b \<noteq> 0"
| "token_ok lls dls o1 (Match k ex d dx) \<longleftrightarrow>
     k < 29 \<and> 257 + k < length lls \<and> lls ! (257 + k) \<noteq> 0 \<and> ex < 2 ^ (lext ! k) \<and>
     d < 30 \<and> d < length dls \<and> dls ! d \<noteq> 0 \<and> dx < 2 ^ (dext ! d) \<and> dists ! d + dx \<le> length o1"

fun tokens_ok :: "u8 list \<Rightarrow> u8 list \<Rightarrow> u8 list \<Rightarrow> token list \<Rightarrow> bool" where
  "tokens_ok lls dls o1 [] \<longleftrightarrow> True"
| "tokens_ok lls dls o1 (t # ts) \<longleftrightarrow> token_ok lls dls o1 t \<and> tokens_ok lls dls (expand t o1) ts"

lemma copy_match_bytes:
  "length (out s) + n \<le> out_len s \<Longrightarrow> copy_match d n s = (True, s\<lparr>out := copy_bytes n d (out s)\<rparr>)"
proof (induction d n s rule: copy_match.induct)
  case (2 d n s)
  have "\<not> out_len s \<le> length (out s)" using "2.prems" by simp
  moreover have "copy_match d n (put_byte (out s ! (length (out s) - d)) s) =
      (True, (put_byte (out s ! (length (out s) - d)) s)\<lparr>out := copy_bytes n d (out (put_byte (out s ! (length (out s) - d)) s))\<rparr>)"
    using "2.IH" [OF calculation] "2.prems" by (simp add: put_byte_def)
  ultimately show ?case by (simp add: put_byte_def)
qed simp

lemma length_copy_bytes: "length (copy_bytes n d o1) = length o1 + n"
  by (induction n d o1 rule: copy_bytes.induct) simp_all

lemma num_of_bits_lsb:
  assumes "starts_with s (lsb_bits n v)" "v < 2 ^ n"
  shows "num_of_bits n (next_bits s) = v"
proof -
  have "num_of_bits n (next_bits s) = num_of_bits n (bit v)"
    using assms(1) by (intro num_of_bits_cong) (simp add: starts_with_def lsb_bits_def)
  also have "\<dots> = take_bit n v"
    by (simp add: num_of_bits_def horner_sum_bit_eq_take_bit [symmetric] horner_sum_eq_sum lessThan_atLeast0)
  finally show ?thesis using assms(2) by (simp add: take_bit_nat_eq_self)
qed

lemma get_lsb_took:
  assumes "ready s" "n \<le> 24" "starts_with s (lsb_bits n v)" "v < 2 ^ n"
  obtains s' where "get_bits n s = Some (v, s')" "took n s s'"
  using get_bits_took [OF assms(1,2)] num_of_bits_lsb [OF assms(3,4)] by metis

lemma ext_le: "k < 29 \<Longrightarrow> lext ! k \<le> 24" "d < 30 \<Longrightarrow> dext ! d \<le> 24"
proof -
  have "\<forall>x \<in> set lext. x \<le> 24" "length lext = 29" "\<forall>x \<in> set dext. x \<le> 24" "length dext = 30"
    by (simp_all add: lext_def dext_def)
  thus "k < 29 \<Longrightarrow> lext ! k \<le> 24" "d < 30 \<Longrightarrow> dext ! d \<le> 24" by (simp_all add: all_set_conv_all_nth)
qed

text \<open>A state after bits have been taken and bytes have been written.\<close>

definition went :: "nat \<Rightarrow> u8 list \<Rightarrow> inflater \<Rightarrow> inflater \<Rightarrow> bool" where
  "went n o1 s s' \<longleftrightarrow> ready s' \<and> next_bits s' = (\<lambda>i. next_bits s (n + i)) \<and> same_input s s' \<and>
     out s' = o1 \<and> out_len s' = out_len s"

lemma next_bits_out [simp]: "next_bits (s\<lparr>out := o1\<rparr>) = next_bits s"
  by (simp add: next_bits_def input_bit_def fun_eq_iff)

lemma took_went: "took n s s' \<Longrightarrow> went n o1 s (s'\<lparr>out := o1\<rparr>)"
  by (auto simp: took_def went_def ready_def buffered_def same_input_def same_out_def)

lemma inflate_round_token:
  assumes codes: "code_lengths lls" "code_lengths dls" "build_huffman lls = Some lh" "build_huffman dls = Some dh"
    and s: "ready s" "starts_with s (encode lls dls t)" and t: "token_ok lls dls (out s) t"
    and room: "length (expand t (out s)) \<le> out_len s"
  shows "\<exists>s'. inflate_round lh dh s = Some (Again, s') \<and> went (length (encode lls dls t)) (expand t (out s)) s s'"
proof (cases t)
  case (Lit b)
  obtain s1 where s1: "decode_symbol lh s = Some (int (unat b), s1)" "took (length (codeword lls (unat b))) s s1"
    using decode_symbol_law [OF codes(1) _ _ codes(3) s(1), of "unat b"] t s(2) Lit by auto
  have b: "uint b < 256" using unsigned_less [of b] by simp
  have o1: "out s1 = out s" "out_len s1 = out_len s" using s1(2) by (simp_all add: took_def same_out_def)
  have "inflate_round lh dh s = Some (Again, s1\<lparr>out := out s @ [b]\<rparr>)"
    using s1(1) b room Lit o1 by (simp add: inflate_round_def put_byte_def)
  thus ?thesis using took_went [OF s1(2)] Lit by auto
next
  case (Match k ex d dx)
  have m: "k < 29" "257 + k < length lls" "lls ! (257 + k) \<noteq> 0" "ex < 2 ^ (lext ! k)"
    "d < 30" "d < length dls" "dls ! d \<noteq> 0" "dx < 2 ^ (dext ! d)" "dists ! d + dx \<le> length (out s)"
    using t Match by auto
  have e: "starts_with s (codeword lls (257 + k) @ lsb_bits (lext ! k) ex @ codeword dls d @ lsb_bits (dext ! d) dx)"
    using s(2) Match by simp
  obtain s1 where s1: "decode_symbol lh s = Some (int (257 + k), s1)" "took (length (codeword lls (257 + k))) s s1"
    using decode_symbol_law [OF codes(1) m(2,3) codes(3) s(1)] e by (auto simp: starts_with_def nth_append)
  have e1: "starts_with s1 (lsb_bits (lext ! k) ex @ codeword dls d @ lsb_bits (dext ! d) dx)"
    using starts_with_append [OF e s1(2)] by blast
  have l1: "length (lsb_bits n v) = n" for n v by (simp add: lsb_bits_def)
  have r1: "ready s1" using s1(2) by (simp add: took_def)
  obtain s2 where s2: "get_bits (lext ! k) s1 = Some (ex, s2)" "took (lext ! k) s1 s2"
    by (rule get_lsb_took [OF r1 ext_le(1) [OF m(1)] _ m(4)]) (use e1 in \<open>auto simp: starts_with_def nth_append lsb_bits_def\<close>)
  have e2: "starts_with s2 (codeword dls d @ lsb_bits (dext ! d) dx)"
    using starts_with_append [OF e1, of s2] s2(2) l1 by simp
  have r2: "ready s2" using s2(2) by (simp add: took_def)
  obtain s3 where s3: "decode_symbol dh s2 = Some (int d, s3)" "took (length (codeword dls d)) s2 s3"
    using decode_symbol_law [OF codes(2) m(6,7) codes(4) r2] e2 by (auto simp: starts_with_def nth_append)
  have e3: "starts_with s3 (lsb_bits (dext ! d) dx)" using starts_with_append [OF e2 s3(2)] by blast
  have r3: "ready s3" using s3(2) by (simp add: took_def)
  obtain s4 where s4: "get_bits (dext ! d) s3 = Some (dx, s4)" "took (dext ! d) s3 s4"
    by (rule get_lsb_took [OF r3 ext_le(2) [OF m(5)] e3 m(8)])
  have tk: "took (length (encode lls dls t)) s s4"
    using took_add [OF took_add [OF took_add [OF s1(2) s2(2)] s3(2)] s4(2)] Match l1 by (simp add: add.assoc)
  hence o1: "out s4 = out s" "out_len s4 = out_len s" by (simp_all add: took_def same_out_def)
  have "copy_match (dists ! d + dx) (lens ! k + ex) s4 = (True, s4\<lparr>out := expand t (out s)\<rparr>)"
    using copy_match_bytes [of s4 "lens ! k + ex" "dists ! d + dx"] room Match o1 by (simp add: length_copy_bytes)
  hence "inflate_round lh dh s = Some (Again, s4\<lparr>out := expand t (out s)\<rparr>)"
    using s1(1) s2(1) s3(1) s4(1) m o1 by (simp add: inflate_round_def inflate_match_def Let_def nat_add_distrib)
  thus ?thesis using took_went [OF tk] by blast
qed

lemma length_expand: "length o1 \<le> length (expand t o1)"
  by (cases t) (simp_all add: length_copy_bytes)

lemma length_fold_expand: "length o1 \<le> length (fold expand ts o1)"
proof (induction ts arbitrary: o1)
  case (Cons t ts)
  show ?case using Cons.IH [of "expand t o1"] length_expand [of o1 t] by simp
qed simp

text \<open>
  C6: a block is decoded to the bytes it stands for. When the input holds the codes of a sequence of
  literals and matches, followed by the code of the end of the block, and the output has room,
  \<open>inflate_block\<close> returns success, has written exactly the expansion of the sequence behind the
  output that was there, and has taken exactly these bits from the input. Matches may overlap what
  they produce.
\<close>

theorem inflate_block_decodes:
  assumes "code_lengths lls" "code_lengths dls" "256 < length lls" "lls ! 256 \<noteq> 0"
    and "build_huffman lls = Some lh" "build_huffman dls = Some dh"
    and "ready s" "starts_with s (concat (map (encode lls dls) ts) @ codeword lls 256)"
    and "tokens_ok lls dls (out s) ts" "length (fold expand ts (out s)) \<le> out_len s"
  shows "\<exists>s'. inflate_block lh dh s = Some (True, s') \<and> out s' = fold expand ts (out s) \<and> ready s' \<and>
    next_bits s' = (\<lambda>i. next_bits s (length (concat (map (encode lls dls) ts)) + unat (lls ! 256) + i))"
  using assms(7-)
proof (induction ts arbitrary: s)
  case Nil
  obtain s1 where s1: "decode_symbol lh s = Some (256, s1)" "took (length (codeword lls 256)) s s1"
    using decode_symbol_law [OF assms(1,3,4,5)] Nil by auto
  hence "inflate_round lh dh s = Some (Stop True, s1)" by (simp add: inflate_round_def)
  hence "inflate_block lh dh s = Some (True, s1)" by (subst inflate_block.simps) simp
  thus ?case using s1(2) by (simp add: took_def same_out_def codeword_def Let_def)
next
  case (Cons t ts)
  let ?n = "length (encode lls dls t)"
  have e: "starts_with s (encode lls dls t @ concat (map (encode lls dls) ts) @ codeword lls 256)" using Cons.prems(2) by simp
  have room: "length (expand t (out s)) \<le> out_len s"
    using Cons.prems(4) length_fold_expand [of "expand t (out s)" ts] by simp
  obtain s1 where s1: "inflate_round lh dh s = Some (Again, s1)" "went ?n (expand t (out s)) s s1"
    using inflate_round_token [OF assms(1,2,5,6) Cons.prems(1) _ _ room] e Cons.prems(3) by (auto simp: starts_with_def nth_append)
  have "starts_with s1 (concat (map (encode lls dls) ts) @ codeword lls 256)"
    using e s1(2) by (auto simp: starts_with_def went_def nth_append)
  moreover have "ready s1" "out s1 = expand t (out s)" "out_len s1 = out_len s" using s1(2) by (simp_all add: went_def)
  ultimately obtain s' where s': "inflate_block lh dh s1 = Some (True, s')" "out s' = fold expand ts (expand t (out s))" "ready s'"
    "next_bits s' = (\<lambda>i. next_bits s1 (length (concat (map (encode lls dls) ts)) + unat (lls ! 256) + i))"
    using Cons.IH [of s1] Cons.prems(3,4) by auto
  have "inflate_block lh dh s = Some (True, s')" using s1(1) s'(1) by (subst inflate_block.simps) simp
  thus ?case using s' s1(2) by (simp add: went_def add.assoc)
qed

section \<open>The decompressor returns\<close>

text \<open>The decoder stands at bit \<open>p\<close> of its input.\<close>

definition at_bit :: "inflater \<Rightarrow> nat \<Rightarrow> bool" where
  "at_bit s p \<longleftrightarrow> buffered s \<and> next_bits s = (\<lambda>i. input_bit s (p + i)) \<and>
     (in_pos s < in_len s \<longrightarrow> p + bitcnt s = 8 * in_pos s)"

definition moved :: "nat \<Rightarrow> inflater \<Rightarrow> inflater \<Rightarrow> bool" where
  "moved n s s' \<longleftrightarrow> same_input s s' \<and> (\<forall>p. at_bit s p \<longrightarrow> (\<exists>p' \<ge> p + n. at_bit s' p'))"

lemma same_input_bit: "same_input s s' \<Longrightarrow> input_bit s' = input_bit s"
  by (auto simp: same_input_def input_bit_def fun_eq_iff)

lemma moved_refl: "moved 0 s s"
  by (auto simp: moved_def same_input_def)

lemma moved_trans: "moved m s t \<Longrightarrow> moved n t u \<Longrightarrow> moved (m + n) s u"
  unfolding moved_def by (auto simp: same_input_def) (metis add.assoc add_le_mono1 le_trans)

lemma moved_less: "moved n s t \<Longrightarrow> m \<le> n \<Longrightarrow> moved m s t"
  unfolding moved_def by (meson add_le_cancel_left le_trans)

lemma get_bits_moved:
  assumes "get_bits n s = Some (v, s')" "n \<le> 24" "buffered s"
  shows "moved n s s'"
proof -
  note law = get_bits_law [OF assms(1,3,2)]
  have "at_bit s' (p + n)" if "at_bit s p" for p
    using law that same_input_bit [of s s'] by (auto simp: at_bit_def add.assoc same_input_def)
  thus ?thesis using law by (auto simp: moved_def)
qed

lemma moved_buffered: "moved n s s' \<Longrightarrow> at_bit s p \<Longrightarrow> buffered s'"
  by (auto simp: moved_def at_bit_def)

text \<open>From a state that stands at some bit, an operation leads to one that stands no earlier.\<close>

definition stands :: "inflater \<Rightarrow> bool" where
  "stands s \<longleftrightarrow> (\<exists>p. at_bit s p)"

lemma stands_buffered: "stands s \<Longrightarrow> buffered s"
  by (auto simp: stands_def at_bit_def)

lemma moved_stands: "moved n s s' \<Longrightarrow> stands s \<Longrightarrow> stands s'"
  by (auto simp: moved_def stands_def)

lemmas get_bits_stands = get_bits_moved [OF _ _ stands_buffered]

lemma decode_from_moved: "decode_from h cs code first index s = Some (v, s') \<Longrightarrow> stands s \<Longrightarrow> moved 0 s s'"
proof (induction cs arbitrary: code first index s)
  case (Cons c cs)
  then obtain b s1 where b: "get_bits 1 s = Some (b, s1)" by (auto simp: bind_eq_Some_conv)
  have m: "moved 1 s s1" by (rule get_bits_stands [OF b _ Cons.prems(2)]) simp
  show ?case
  proof (cases "2 * code + int b - first < int c")
    case True
    hence "s' = s1" using Cons.prems b by (auto simp: bind_eq_Some_conv Let_def)
    thus ?thesis using moved_less [OF m] by simp
  next
    case False
    hence "moved 0 s1 s'" using Cons.prems b moved_stands [OF m] by (intro Cons.IH) (auto simp: Let_def)
    from moved_trans [OF m this] show ?thesis using moved_less by blast
  qed
qed (simp add: moved_refl)

lemma decode_symbol_moved: "decode_symbol h s = Some (v, s') \<Longrightarrow> stands s \<Longrightarrow> moved 0 s s'"
  unfolding decode_symbol_def by (rule decode_from_moved)

lemma moved_out: "moved n s t \<Longrightarrow> moved n s (t\<lparr>out := o1\<rparr>)"
proof -
  have "at_bit (t\<lparr>out := o1\<rparr>) p = at_bit t p" for p by (simp add: at_bit_def buffered_def input_bit_def)
  thus "moved n s t \<Longrightarrow> moved n s (t\<lparr>out := o1\<rparr>)" by (simp add: moved_def same_input_def)
qed

lemma copy_match_only_out: "copy_match d n s = (ok, s') \<Longrightarrow> s' = s\<lparr>out := out s'\<rparr>"
  by (induction d n s rule: copy_match.induct) (fastforce simp: put_byte_def split: if_splits)+

lemma moved_0_trans: "moved m s t \<Longrightarrow> moved n t u \<Longrightarrow> moved 0 s u"
  using moved_trans moved_less by blast

lemma inflate_match_moved:
  assumes "inflate_match dh k s = Some (r, s')" "stands s" "k < 29"
  shows "moved 0 s s'"
proof -
  obtain ex s2 dsym s3 where m: "get_bits (lext ! k) s = Some (ex, s2)" "decode_symbol dh s2 = Some (dsym, s3)"
    "(if dsym < 0 \<or> 29 < dsym then Some (Stop False, s3)
      else do {
        (dx, s) \<leftarrow> get_bits (dext ! nat dsym) s3;
        let dist = dists ! nat dsym + dx;
        if length (out s) < dist then Some (Stop False, s)
        else let (ok, s) = copy_match dist (lens ! k + ex) s in Some (if ok then Again else Stop False, s)
      }) = Some (r, s')"
    using assms(1) by (auto simp: inflate_match_def bind_eq_Some_conv)
  note m1 = get_bits_stands [OF m(1) ext_le(1) [OF assms(3)] assms(2)]
  note m2 = decode_symbol_moved [OF m(2) moved_stands [OF m1 assms(2)]]
  note m3 = moved_0_trans [OF m1 m2]
  show ?thesis
  proof (cases "dsym < 0 \<or> 29 < dsym")
    case True thus ?thesis using m(3) m3 by auto
  next
    case False
    then obtain dx s4 where x: "get_bits (dext ! nat dsym) s3 = Some (dx, s4)" using m(3) by (auto simp: bind_eq_Some_conv)
    have "dext ! nat dsym \<le> 24" using False by (intro ext_le(2)) linarith
    from get_bits_stands [OF x this moved_stands [OF m3 assms(2)]] have m4: "moved 0 s s4"
      using moved_0_trans [OF m3] by blast
    have "s' = s4 \<or> (\<exists>ok. copy_match (dists ! nat dsym + dx) (lens ! k + ex) s4 = (ok, s'))"
      using m(3) False x by (auto simp: Let_def split: if_splits prod.splits)
    thus ?thesis using m4 moved_out [OF m4] copy_match_only_out by metis
  qed
qed

lemma inflate_round_moved:
  assumes "inflate_round lh dh s = Some (r, s')" "stands s"
  shows "moved 0 s s'"
proof -
  obtain sy s1 where d: "decode_symbol lh s = Some (sy, s1)" using assms by (auto simp: inflate_round_def bind_eq_Some_conv)
  note m = decode_symbol_moved [OF d assms(2)]
  show ?thesis
  proof (cases "256 < sy \<and> sy \<le> 285")
    case True
    hence "inflate_match dh (nat (sy - 257)) s1 = Some (r, s')" "nat (sy - 257) < 29"
      using assms(1) d by (simp add: inflate_round_def, linarith)
    from inflate_match_moved [OF this(1) moved_stands [OF m assms(2)] this(2)] show ?thesis using moved_0_trans [OF m] by blast
  next
    case False
    thus ?thesis using assms(1) d m moved_out [OF m] by (auto simp: inflate_round_def put_byte_def split: if_splits)
  qed
qed

lemma inflate_block_moved: "inflate_block lh dh s = Some (ok, s') \<Longrightarrow> stands s \<Longrightarrow> moved 0 s s'"
proof (induction lh dh s rule: inflate_block.induct)
  case (1 lh dh s)
  obtain r s1 where r: "inflate_round lh dh s = Some (r, s1)"
    using "1.prems"(1) by (subst (asm) inflate_block.simps) (auto split: option.splits)
  note m = inflate_round_moved [OF r "1.prems"(2)]
  show ?case
  proof (cases r)
    case (Stop b)
    hence "s' = s1" using "1.prems"(1) r by (subst (asm) inflate_block.simps) simp
    thus ?thesis using m by simp
  next
    case Again
    hence "inflate_block lh dh s1 = Some (ok, s')" using "1.prems"(1) r by (subst (asm) inflate_block.simps) simp
    from "1.IH" [OF r refl Again this moved_stands [OF m "1.prems"(2)]] show ?thesis using moved_0_trans [OF m] by blast
  qed
qed

lemma read_clens_moved: "read_clens xs clens s = Some (cl, s') \<Longrightarrow> stands s \<Longrightarrow> moved 0 s s'"
proof (induction xs clens s rule: read_clens.induct)
  case (2 i xs clens s)
  then obtain v s1 where v: "get_bits 3 s = Some (v, s1)" "read_clens xs (clens[i := of_nat v]) s1 = Some (cl, s')"
    by (auto simp: bind_eq_Some_conv)
  have m: "moved 3 s s1" by (rule get_bits_stands [OF v(1) _ "2.prems"(2)]) simp
  from "2.IH" [OF v(1) refl v(2) moved_stands [OF m "2.prems"(2)]] show ?case using moved_0_trans [OF m] by blast
qed (simp add: moved_refl)

lemma length_step_moved:
  assumes "length_step sy ls s = Some (ls', s')" "stands s"
  shows "moved 0 s s'"
proof -
  have "s' = s \<or> (\<exists>n v. n \<le> 24 \<and> get_bits n s = Some (v, s'))"
    using assms(1) by (fastforce simp: length_step_def bind_eq_Some_conv split: if_splits)
  thus ?thesis using get_bits_stands assms(2) moved_less moved_refl by blast
qed

lemma read_lengths_moved: "read_lengths n ch want ls s = Some (ls', s') \<Longrightarrow> stands s \<Longrightarrow> moved 0 s s'"
proof (induction n ch want ls s rule: read_lengths.induct)
  case (2 n ch want ls s)
  show ?case
  proof (cases "length ls < want")
    case True
    then obtain sy s1 ls2 s2 where st: "decode_symbol ch s = Some (sy, s1)" "length_step sy ls s1 = Some (ls2, s2)"
      "read_lengths n ch want ls2 s2 = Some (ls', s')" using "2.prems"(1) by (auto simp: bind_eq_Some_conv)
    note m1 = decode_symbol_moved [OF st(1) "2.prems"(2)]
    note m2 = moved_0_trans [OF m1 length_step_moved [OF st(2) moved_stands [OF m1 "2.prems"(2)]]]
    from "2.IH" [OF True st(1) refl st(2) refl st(3) moved_stands [OF m2 "2.prems"(2)]]
    show ?thesis using moved_0_trans [OF m2] by blast
  qed (use "2.prems" in \<open>simp add: moved_refl\<close>)
qed (simp add: moved_refl)

lemma dynamic_block_moved:
  assumes "dynamic_block s = Some (ok, s')" "stands s"
  shows "moved 0 s s'"
proof -
  obtain a s1 b s2 c s3 cl s4 ch ls s5 lh dh where st: "get_bits 5 s = Some (a, s1)" "get_bits 5 s1 = Some (b, s2)"
    "get_bits 4 s2 = Some (c, s3)" "read_clens (take (c + 4) clorder) (replicate 19 0) s3 = Some (cl, s4)"
    "read_lengths (a + 257 + (b + 1)) ch (a + 257 + (b + 1)) [] s4 = Some (ls, s5)" "inflate_block lh dh s5 = Some (ok, s')"
    using assms(1) by (auto simp: dynamic_block_def bind_eq_Some_conv Let_def simp del: read_lengths.simps)
  have m1: "moved 5 s s1" by (rule get_bits_stands [OF st(1) _ assms(2)]) simp
  have m2: "moved 5 s1 s2" by (rule get_bits_stands [OF st(2) _ moved_stands [OF m1 assms(2)]]) simp
  note m2 = moved_0_trans [OF m1 m2]
  have m3: "moved 4 s2 s3" by (rule get_bits_stands [OF st(3) _ moved_stands [OF m2 assms(2)]]) simp
  note m3 = moved_0_trans [OF m2 m3]
  note m4 = moved_0_trans [OF m3 read_clens_moved [OF st(4) moved_stands [OF m3 assms(2)]]]
  note m5 = moved_0_trans [OF m4 read_lengths_moved [OF st(5) moved_stands [OF m4 assms(2)]]]
  show ?thesis by (rule moved_0_trans [OF m5 inflate_block_moved [OF st(6) moved_stands [OF m5 assms(2)]]])
qed

lemma copy_stored_law:
  "copy_stored n s = Some s' \<Longrightarrow>
    s' = s\<lparr>in_pos := in_pos s', out := out s'\<rparr> \<and> in_pos s \<le> in_pos s' \<and> in_pos s' \<le> in_pos s + n"
  by (induction n s rule: copy_stored.induct) (fastforce simp: put_byte_def split: if_splits)+

lemma stored_block_moved:
  assumes "stored_block s = Some (True, s')"
  shows "moved 0 s s' \<and> in_pos s + 4 \<le> in_len s"
proof -
  define t where "t = s\<lparr>bitbuf := 0, bitcnt := 0\<rparr>"
  have l: "in_pos s + 4 \<le> in_len s" using assms by (auto simp: stored_block_def Let_def split: if_splits)
  obtain len where len: "in_pos s + 4 + len \<le> in_len s" "copy_stored len (t\<lparr>in_pos := in_pos s + 4\<rparr>) = Some s'"
    using assms l unfolding stored_block_def t_def [symmetric] Let_def
    by (clarsimp simp: bind_eq_Some_conv not_less split: if_splits) (simp add: t_def not_less)
  note c = copy_stored_law [OF len(2)]
  have e: "s' = s\<lparr>bitbuf := 0, bitcnt := 0, in_pos := in_pos s', out := out s'\<rparr>" using c by (simp add: t_def)
  have pos: "in_pos s + 4 \<le> in_pos s'" "in_pos s' \<le> in_len s" using c len(1) by auto
  have si: "same_input s s'" using pos by (subst e) (simp add: same_input_def)
  have f: "bitcnt s' = 0" "bitbuf s' = 0" "in_len s' = in_len s" by (subst e, simp)+
  have "at_bit s' (8 * in_pos s')" using pos f by (simp add: at_bit_def buffered_def next_bits_def fun_eq_iff)
  moreover have "p \<le> 8 * in_pos s'" if "at_bit s p" for p using that pos l by (auto simp: at_bit_def)
  ultimately show ?thesis using si l by (fastforce simp: moved_def)
qed

lemma block_step_moved:
  assumes "block_step s = Some (True, s')" "stands s"
  shows "moved 3 s s'" "at_bit s p \<Longrightarrow> p < 8 * in_len s"
proof -
  obtain v s1 bt s2 where st: "get_bits 1 s = Some (v, s1)" "get_bits 2 s1 = Some (bt, s2)"
    "(if bt = 0 then stored_block s2 else if bt = 1 then fixed_block s2 else if bt = 2 then dynamic_block s2
      else Some (False, s2)) = Some (True, s')"
    using assms(1) by (auto simp: block_step_def bind_eq_Some_conv)
  have m1: "moved 1 s s1" by (rule get_bits_stands [OF st(1) _ assms(2)]) simp
  have s1: "stands s1" by (rule moved_stands [OF m1 assms(2)])
  have m2: "moved 2 s1 s2" by (rule get_bits_stands [OF st(2) _ s1]) simp
  have m: "moved 3 s s2" using moved_trans [OF m1 m2] by (simp add: numeral_3_eq_3)
  note s2 = moved_stands [OF m assms(2)]
  have "moved 0 s2 s'"
    using st(3) stored_block_moved [of s2 s'] dynamic_block_moved [OF _ s2] inflate_block_moved [OF _ s2]
    by (auto simp: fixed_block_def bind_eq_Some_conv split: if_splits)
  with moved_trans [OF m] show "moved 3 s s'" by fastforce
  show "p < 8 * in_len s" if p: "at_bit s p"
  proof (rule ccontr)
    assume n: "\<not> p < 8 * in_len s"
    have z: "\<not> input_bit s (p + i)" for i using n by (auto simp: input_bit_def)
    have full: "in_pos s = in_len s" using p n by (auto simp: at_bit_def buffered_def)
    have i: "same_input s s1" "same_input s s2" using m1 m by (simp_all add: moved_def)
    have "next_bits s1 = (\<lambda>i. next_bits s (1 + i))"
      using get_bits_law [OF st(1) stands_buffered [OF assms(2)]] by simp
    hence "\<not> next_bits s1 i" for i using p z by (simp add: at_bit_def)
    hence "bt = 0" using get_bits_law [OF st(2) stands_buffered [OF s1]] by (simp add: num_of_bits_def)
    hence "in_pos s2 + 4 \<le> in_len s2" using st(3) stored_block_moved [of s2 s'] by simp
    thus False using i full by (simp add: same_input_def)
  qed
qed

lemma inflate_blocks_returns: "at_bit s p \<Longrightarrow> inflate_blocks s \<noteq> None"
proof (induction "8 * in_len s + 3 - p" arbitrary: s p rule: less_induct)
  case less
  show ?case
  proof (cases "block_step s")
    case None thus ?thesis by (subst inflate_blocks.simps) simp
  next
    case (Some x)
    obtain again s' where x: "x = (again, s')" by (cases x)
    show ?thesis
    proof (cases again)
      case False thus ?thesis using Some x by (subst inflate_blocks.simps) simp
    next
      case True
      hence b: "block_step s = Some (True, s')" using Some x by simp
      have st: "stands s" using less.prems by (auto simp: stands_def)
      note m = block_step_moved [OF b st]
      obtain p' where p': "p + 3 \<le> p'" "at_bit s' p'" using m(1) less.prems by (auto simp: moved_def)
      have "in_len s' = in_len s" using m(1) by (simp add: moved_def same_input_def)
      hence "inflate_blocks s' \<noteq> None" using p' m(2) [OF less.prems] by (intro less.hyps [OF _ p'(2)]) linarith
      thus ?thesis using b by (subst inflate_blocks.simps) simp
    qed
  qed
qed


section \<open>Stored data\<close>

definition stored_header :: "bool \<Rightarrow> u8 list \<Rightarrow> u8 list" where
  "stored_header fin c = [of_bool fin, of_nat (length c mod 256), of_nat (length c div 256),
     NOT (of_nat (length c mod 256)), NOT (of_nat (length c div 256))]"

fun stored_stream :: "u8 list list \<Rightarrow> u8 list" where
  "stored_stream [] = []"
| "stored_stream (c # cs) = stored_header (cs = []) c @ c @ stored_stream cs"

lemma copy_stored_all:
  assumes "drop (in_pos s) (in_bytes s) = c @ rest" "length (out s) + length c \<le> out_len s"
  shows "copy_stored (length c) s = Some (s\<lparr>in_pos := in_pos s + length c, out := out s @ c\<rparr>)"
  using assms
proof (induction c arbitrary: s)
  case (Cons b c)
  let ?s = "(put_byte b s)\<lparr>in_pos := Suc (in_pos s)\<rparr>"
  have l: "in_pos s < length (in_bytes s)" using Cons.prems(1) by (metis append_is_Nil_conv drop_all list.discI not_less)
  have b: "in_bytes s ! in_pos s = b" "drop (Suc (in_pos s)) (in_bytes s) = c @ rest"
    using Cons.prems(1) Cons_nth_drop_Suc [OF l] by simp_all
  have "copy_stored (length c) ?s = Some (?s\<lparr>in_pos := in_pos ?s + length c, out := out ?s @ c\<rparr>)"
    using Cons.prems(2) b by (intro Cons.IH) (simp_all add: put_byte_def)
  thus ?case using Cons.prems(2) l b by (simp add: put_byte_def)
qed simp

lemma stored_prefix_bits:
  assumes "bitbuf s = 0" "bitcnt s = 0" "in_pos s < in_len s" "in_pos s < length (in_bytes s)"
    "in_bytes s ! in_pos s = of_bool fin"
  shows "do { (v, s1) \<leftarrow> get_bits 1 s; (bt, s2) \<leftarrow> get_bits 2 s1; Some (v, bt, s2) } =
    Some (of_bool fin, 0, s\<lparr>in_pos := Suc (in_pos s), bitcnt := 5\<rparr>)"
proof -
  define t where "t = s\<lparr>bitbuf := of_bool fin, in_pos := Suc (in_pos s), bitcnt := 8\<rparr>"
  have "fill_bits 1 s = fill_bits 1 t" using assms by (subst fill_bits.simps) (simp add: t_def)
  also have "\<dots> = Some t" by (subst fill_bits.simps) (simp add: t_def)
  finally have 1: "get_bits 1 s = Some (of_bool fin, t\<lparr>bitbuf := 0, bitcnt := 7\<rparr>)"
    by (cases fin) (simp_all add: get_bits_def t_def)
  have "fill_bits 2 (t\<lparr>bitbuf := 0, bitcnt := 7\<rparr>) = Some (t\<lparr>bitbuf := 0, bitcnt := 7\<rparr>)"
    by (subst fill_bits.simps) simp
  hence "get_bits 2 (t\<lparr>bitbuf := 0, bitcnt := 7\<rparr>) = Some (0, t\<lparr>bitbuf := 0, bitcnt := 5\<rparr>)"
    by (simp add: get_bits_def)
  thus ?thesis using 1 assms(1) by (simp add: t_def)
qed

lemma stored_length:
  assumes "n \<le> 65535"
  shows "unat (of_nat (n mod 256) :: u8) + 256 * unat (of_nat (n div 256) :: u8) = n"
proof -
  have "n div 256 < 256" using assms by simp
  thus ?thesis by (simp add: unat_of_nat)
qed

lemma block_step_stored:
  assumes s: "bitbuf s = 0" "bitcnt s = 0" "drop (in_pos s) (in_bytes s) = stored_header fin c @ c @ rest"
    and len: "in_pos s + 5 + length c \<le> in_len s" "length c \<le> 65535" "length (out s) + length c \<le> out_len s"
  shows "block_step s = Some (\<not> fin, s\<lparr>in_pos := in_pos s + 5 + length c, out := out s @ c\<rparr>)"
proof -
  let ?d = "stored_header fin c @ c @ rest"
  have nth: "in_bytes s ! (in_pos s + i) = ?d ! i" "in_pos s + i < length (in_bytes s)" if "i < 5" for i
  proof -
    have "length (stored_header fin c) = 5" by (simp add: stored_header_def)
    hence "i < length (drop (in_pos s) (in_bytes s))" using s(3) that by simp
    thus "in_pos s + i < length (in_bytes s)" by simp
    thus "in_bytes s ! (in_pos s + i) = ?d ! i" using s(3) by (simp add: nth_drop [symmetric])
  qed
  have b: "in_bytes s ! in_pos s = of_bool fin" "in_pos s < length (in_bytes s)" using nth [of 0] by (simp_all add: stored_header_def)
  let ?t = "s\<lparr>in_pos := in_pos s + 5, bitcnt := 0\<rparr>"
  have "drop (in_pos s + 5) (in_bytes s) = c @ rest"
    using s(3) drop_drop [of 5 "in_pos s" "in_bytes s"] by (simp add: stored_header_def add.commute)
  hence c: "copy_stored (length c) ?t = Some (?t\<lparr>in_pos := in_pos s + 5 + length c, out := out s @ c\<rparr>)"
    using copy_stored_all [of ?t c rest] len(3) by simp
  have "s\<lparr>bitbuf := 0, bitcnt := 0, in_pos := 5 + in_pos s\<rparr> = ?t" using s(1) by (cases s) (simp add: add.commute)
  moreover have "stored_block (s\<lparr>in_pos := Suc (in_pos s), bitcnt := 5\<rparr>) = Some (True, ?t\<lparr>in_pos := in_pos s + 5 + length c, out := out s @ c\<rparr>)"
    using nth [of 1] nth [of 2] len(1) c calculation stored_length [OF len(2)]
    by (simp add: stored_block_def Let_def in_byte_def stored_header_def)
  moreover obtain v s1 bt s2 where "get_bits 1 s = Some (v, s1)" "get_bits 2 s1 = Some (bt, s2)"
    "v = of_bool fin" "bt = 0" "s2 = s\<lparr>in_pos := Suc (in_pos s), bitcnt := 5\<rparr>"
    using stored_prefix_bits [OF s(1,2) _ b(2,1)] len(1) by (auto simp: bind_eq_Some_conv)
  ultimately show ?thesis using s(2) by (cases fin) (simp_all add: block_step_def)
qed

lemma inflate_stored:
  assumes "cs \<noteq> []" "\<forall>c \<in> set cs. length c \<le> 65535" "bitbuf s = 0" "bitcnt s = 0"
    "drop (in_pos s) (in_bytes s) = stored_stream cs @ rest" "in_pos s + length (stored_stream cs) \<le> in_len s"
    "length (out s) + length (concat cs) \<le> out_len s"
  shows "\<exists>s'. inflate_blocks s = Some (Some s') \<and> out s' = out s @ concat cs"
  using assms
proof (induction cs arbitrary: s)
  case (Cons c cs)
  let ?s = "s\<lparr>in_pos := in_pos s + 5 + length c, out := out s @ c\<rparr>"
  have l5: "length (stored_header f c) = 5" for f by (simp add: stored_header_def)
  have b: "block_step s = Some (\<not> (cs = []), ?s)"
    by (rule block_step_stored [where rest = "stored_stream cs @ rest"]) (use Cons.prems l5 in auto)
  show ?case
  proof (cases "cs = []")
    case True thus ?thesis using b by (subst inflate_blocks.simps) simp
  next
    case False
    have "drop (in_pos s + 5 + length c) (in_bytes s) = stored_stream cs @ rest"
      using Cons.prems(5) drop_drop [of "5 + length c" "in_pos s" "in_bytes s"] l5 False
      by (simp add: add.assoc add.commute add.left_commute)
    hence "\<exists>s'. inflate_blocks ?s = Some (Some s') \<and> out s' = out ?s @ concat cs"
      using Cons.prems False l5 by (intro Cons.IH) auto
    thus ?thesis using b False by (subst inflate_blocks.simps) simp
  qed
qed simp

lemma decompress_stored_blocks:
  assumes "length hdr = 10" "hdr ! 0 = 0x1f" "hdr ! 1 = 0x8b" "hdr ! 3 = 0" "length trailer = 8"
    and "cs \<noteq> []" "\<forall>c \<in> set cs. length c \<le> 65535" "length (concat cs) \<le> unat n"
    and "length (hdr @ stored_stream cs @ trailer) < 2 ^ 64"
  shows "decompress (Some (hdr @ stored_stream cs @ trailer)) (Some n) = Some (Some (concat cs \<noteq> [], concat cs))"
proof -
  let ?bs = "hdr @ stored_stream cs @ trailer"
  have nz: "stored_stream cs \<noteq> []" using assms(6) by (cases cs) (simp_all add: stored_header_def)
  have g: "is_gzip (Some ?bs)" using assms(1-3) by (simp add: is_gzip_def nth_append)
  have h: "header_size ?bs = Some 10" using assms(1,4,5) by (simp add: header_size_def nth_append Let_def)
  have "unat (of_nat (length ?bs) - of_nat 10 - 8 :: u64) = length (stored_stream cs)"
  proof -
    have "(of_nat (length ?bs) - of_nat 10 - 8 :: u64) = of_nat (length (stored_stream cs))" using assms(1,5) by simp
    moreover have "length (stored_stream cs) < 2 ^ 64" using assms(9) by simp
    ultimately show ?thesis by (simp only: unat_of_nat_u64)
  qed
  hence "\<exists>s'. inflate_blocks (start_state ?bs 10 (Some n)) = Some (Some s') \<and> out s' = out (start_state ?bs 10 (Some n)) @ concat cs"
    using assms(1,6-8) by (intro inflate_stored [where rest = trailer]) (simp_all add: start_state_def)
  thus ?thesis using g h by (auto simp: decompress_def start_state_def)
qed

text \<open>
  data that were stored without compression come back. A gzip file without optional header
  fields that holds any number of stored blocks of at most 65535 bytes, followed by the eight bytes
  of checksum and size, is unpacked to the concatenation of the blocks when the destination has
  room; the call reports success unless there is no byte at all.
\<close>

theorem decompress_stored:
  assumes "length hdr = 10" "hdr ! 0 = 0x1f" "hdr ! 1 = 0x8b" "hdr ! 3 = 0" "length trailer = 8"
    and "cs \<noteq> []" "\<forall>c \<in> set cs. length c \<le> 65535" "length (concat cs) \<le> unat n"
    and "length (hdr @ stored_stream cs @ trailer) < 2 ^ 64"
  shows "decompress (Some (hdr @ stored_stream cs @ trailer)) (Some n) = Some (Some (concat cs \<noteq> [], concat cs))"
  by (rule decompress_stored_blocks [OF assms])

section \<open>The bound on the code lengths\<close>

lemma place_symbols_below:
  "place_symbols ls i offs syms = Some syms' \<Longrightarrow> Some x \<in> set syms' \<Longrightarrow> Some x \<in> set syms \<or> (i \<le> x \<and> x < i + length ls)"
proof (induction ls i offs syms rule: place_symbols.induct)
  case (2 l ls i offs syms)
  show ?case
  proof (cases "l = 0")
    case True thus ?thesis using "2.IH"(2) "2.prems" by fastforce
  next
    case False
    hence b: "unat l < length offs" "offs ! unat l < length syms" using "2.prems"(1) by (auto split: if_splits)
    have "Some x \<in> set (syms[offs ! unat l := Some i]) \<or> Suc i \<le> x \<and> x < Suc i + length ls"
      using "2.IH"(1) [OF False b] "2.prems" False b by simp
    thus ?thesis using set_update_subset_insert [of syms "offs ! unat l" "Some i"] by auto
  qed
qed simp

lemma decode_from_below:
  assumes "\<And>x. Some x \<in> set (symbols h) \<Longrightarrow> x < n"
  shows "decode_from h cs code first index s = Some (sy, s') \<Longrightarrow> sy < int n \<or> sy = -1"
proof (induction cs arbitrary: code first index s)
  case (Cons c cs)
  then obtain b s1 where b: "get_bits 1 s = Some (b, s1)" by (auto simp: bind_eq_Some_conv)
  have sym: "x < int n" if x: "symbol_at h i = Some x" for i x
  proof -
    obtain z where z: "nat i < length (symbols h)" "symbols h ! nat i = Some z" "x = int z"
      using x by (auto simp: symbol_at_def split: if_splits)
    have "Some z \<in> set (symbols h)" using nth_mem [OF z(1)] by (simp add: z(2))
    thus ?thesis using assms z(3) by simp
  qed
  show ?case
  proof (cases "2 * code + int b - first < int c")
    case True thus ?thesis using Cons.prems b sym by (auto simp: bind_eq_Some_conv Let_def)
  next
    case False thus ?thesis using Cons.prems b by (intro Cons.IH) (auto simp: Let_def)
  qed
qed simp

lemma decode_symbol_below:
  assumes "build_huffman ls = Some h" "decode_symbol h s = Some (sy, s')" "ls \<noteq> []"
  shows "sy < int (length ls)"
proof -
  obtain offs where "place_symbols ls 0 offs (replicate 288 None) = Some (symbols h)"
    using assms(1) by (auto simp: build_huffman_def bind_eq_Some_conv Let_def)
  from place_symbols_below [OF this] have "x < length ls" if "Some x \<in> set (symbols h)" for x using that by auto
  from decode_from_below [OF this] assms(2,3) show ?thesis by (fastforce simp: decode_symbol_def)
qed

text \<open>
  A table of 19 symbols yields no symbol above 18, so every round of \<open>read_lengths\<close> adds a length
  and its bound on the rounds is never what ends the loop.
\<close>

lemma read_lengths_enough:
  assumes "build_huffman clens = Some ch" "length clens = 19"
  shows "read_lengths n ch want ls s = Some (ls', s') \<Longrightarrow> want \<le> length ls + n \<Longrightarrow> want \<le> length ls'"
proof (induction n arbitrary: ls s)
  case (Suc n)
  show ?case
  proof (cases "length ls < want")
    case True
    then obtain sy s1 ls2 s2 where st: "decode_symbol ch s = Some (sy, s1)" "length_step sy ls s1 = Some (ls2, s2)"
      "read_lengths n ch want ls2 s2 = Some (ls', s')" using Suc.prems(1) by (auto simp: bind_eq_Some_conv)
    have "clens \<noteq> []" using assms(2) by auto
    from decode_symbol_below [OF assms(1) st(1) this] assms(2) have "sy \<le> 18" by simp
    hence "length ls < length ls2" using st(2)
      by (auto simp: length_step_def repeat_length_def bind_eq_Some_conv split: if_splits)
    thus ?thesis using Suc.IH [OF st(3)] Suc.prems(2) by simp
  qed (use Suc.prems in simp)
qed simp

section \<open>Concrete streams\<close>

definition demo_stream :: "u8 list \<Rightarrow> inflater" where
  "demo_stream bs = \<lparr>in_bytes = bs, in_len = length bs, in_pos = 0, bitbuf = 0, bitcnt = 0, out = [], out_len = 100\<rparr>"

text \<open>Code lengths 1 for the byte \<open>a\<close>, 2 for the end of the block and for a match of three bytes.\<close>

definition demo_lls :: "u8 list" where
  "demo_lls = replicate 97 0 @ [1] @ replicate 158 0 @ [2, 2]"

lemma cnt_replicate: "cnt (replicate n x) l = (if unat x = l then n else 0)"
  by (simp add: cnt_def)

lemma demo_lls_cnt: "1 \<le> l \<Longrightarrow> cnt demo_lls l = (if l = 1 then 1 else if l = 2 then 2 else 0)"
  by (simp add: demo_lls_def cnt_append cnt_replicate)

lemma demo_codes: "code_lengths demo_lls" "code_lengths [1]"
proof -
  have "(\<Sum>l = 1..15. cnt demo_lls l * 2 ^ (15 - l)) =
      (\<Sum>l = 1..15. (if l = 1 then 2 ^ 14 else 0) + (if l = (2 :: nat) then 2 ^ 14 else (0 :: nat)))"
    by (intro sum.cong) (auto simp: demo_lls_cnt)
  also have "\<dots> \<le> 2 ^ 15" by (simp add: sum.distrib)
  finally show "code_lengths demo_lls" by (auto simp: code_lengths_def demo_lls_def)
  have "(\<Sum>l = 1..15. cnt [1] l * 2 ^ (15 - l)) = (\<Sum>l = 1..15. if l = (1 :: nat) then 2 ^ 14 else (0 :: nat))"
    by (intro sum.cong) auto
  thus "code_lengths [1]" by (simp add: code_lengths_def)
qed

lemma demo_lls_nth: "demo_lls ! 97 = 1" "demo_lls ! 256 = 2" "demo_lls ! 257 = 2" "length demo_lls = 258"
  by (simp_all add: demo_lls_def nth_append)

lemma demo_codewords: "codeword demo_lls 97 = [False]" "codeword demo_lls 256 = [True, False]" "codeword demo_lls 257 = [True, True]"
proof -
  have r: "rank demo_lls 97 = 0" "rank demo_lls 256 = 0" "rank demo_lls 257 = 1"
    by (simp_all add: rank_def demo_lls_nth) (simp_all add: demo_lls_def cnt_append cnt_replicate)
  have n: "next_code demo_lls 1 = 0" "next_code demo_lls 2 = 2" by (simp_all add: demo_lls_cnt numeral_2_eq_2)
  show "codeword demo_lls 97 = [False]" "codeword demo_lls 256 = [True, False]" "codeword demo_lls 257 = [True, True]"
    by (simp_all add: codeword_def Let_def canonical_code_def demo_lls_nth r n [simplified] upt_rec bit_0)
qed

lemma demo_stream_ready: "ready (demo_stream bs)" "in_len (demo_stream bs) = length bs"
  "next_bits (demo_stream bs) i = (i div 8 < length bs \<and> bit (bs ! (i div 8)) (i mod 8))"
  by (simp_all add: demo_stream_def ready_def buffered_def next_bits_def input_bit_def)

lemma starts_with_map: "starts_with s bs \<longleftrightarrow> map (next_bits s) [0..<length bs] = bs"
  unfolding starts_with_def list_eq_iff_nth_eq by simp

theorem huffman_decodes_canonical_witness:
  "\<exists>h s'. build_huffman demo_lls = Some h \<and> decode_symbol h (demo_stream [3]) = Some (257, s') \<and>
    next_bits s' = (\<lambda>k. next_bits (demo_stream [3]) (2 + k))"
proof -
  have s: "starts_with (demo_stream [3]) (codeword demo_lls 257)"
    by (simp add: starts_with_map demo_codewords demo_stream_ready)
  have i: "257 < length demo_lls" "demo_lls ! 257 \<noteq> 0" "unat (demo_lls ! 257) = 2" by (simp_all add: demo_lls_nth)
  obtain h s' where "build_huffman demo_lls = Some h" "decode_symbol h (demo_stream [3]) = Some (int 257, s')"
    "next_bits s' = (\<lambda>k. next_bits (demo_stream [3]) (unat (demo_lls ! 257) + k))"
    using huffman_decodes_canonical [OF demo_codes(1) i(1,2) demo_stream_ready(1) s] by metis
  thus ?thesis unfolding i(3) by (intro exI [of _ h] exI [of _ s']) simp
qed

theorem inflate_block_decodes_witness:
  "\<exists>lh dh s'. build_huffman demo_lls = Some lh \<and> build_huffman [1] = Some dh \<and>
    inflate_block lh dh (demo_stream [22]) = Some (True, s') \<and> out s' = [97, 97, 97, 97]"
proof -
  obtain lh dh where h: "build_huffman demo_lls = Some lh" "build_huffman [1] = Some dh"
    using build_huffman_law [of demo_lls] build_huffman_law [of "[1]"] demo_codes by (auto simp: code_lengths_def)
  let ?ts = "[Lit 97, Match 0 0 0 0]"
  have d: "codeword [1] 0 = [False]" by (simp add: codeword_def canonical_code_def rank_def Let_def)
  have e: "concat (map (encode demo_lls [1]) ?ts) @ codeword demo_lls 256 = [False, True, True, False, True, False]"
    using demo_codewords d by (simp add: lsb_bits_def lext_def dext_def)
  have "starts_with (demo_stream [22]) (concat (map (encode demo_lls [1]) ?ts) @ codeword demo_lls 256)"
    unfolding e by (simp add: starts_with_map demo_stream_ready)
  moreover have "tokens_ok demo_lls [1] (out (demo_stream [22])) ?ts"
    by (simp add: demo_lls_nth demo_stream_def lext_def dext_def dists_def)
  moreover have "fold expand ?ts (out (demo_stream [22])) = [97, 97, 97, 97]"
    by (simp add: demo_stream_def lens_def dists_def numeral_3_eq_3)
  ultimately show ?thesis
    using inflate_block_decodes [OF demo_codes _ _ h demo_stream_ready(1), of "[22]" ?ts] demo_lls_nth h
    by (auto simp: demo_stream_def)
qed

theorem decompress_stored_witness:
  "decompress (Some ([0x1f, 0x8b, 8, 0, 0, 0, 0, 0, 0, 3] @ stored_stream [[104], [105, 33]] @ replicate 8 0)) (Some 64) =
    Some (Some (True, [104, 105, 33]))"
  using decompress_stored [of "[0x1f, 0x8b, 8, 0, 0, 0, 0, 0, 0, 3]" "replicate 8 0" "[[104], [105, 33]]" 64]
  by (simp add: stored_header_def)

end
