(* ===== verification/Tarfs.thy ===== *)
theory Tarfs
  imports Gzip Vfs_Ops
begin

unbundle bit_operations_syntax

text \<open>
  The archive with the initial file system, \<open>src/fs/tarfs.cpp\<close>. The archive is the list of its bytes
  at an address in memory, and a pointer into it is an address, with the wrap-around of pointer
  arithmetic. Reading behind the end of the archive is a fault. A loop over the headers has three
  outcomes: \<open>None\<close> when it never ends, \<open>Some None\<close> for a fault, and its result.
\<close>

section \<open>Headers\<close>

record archive =
  tar_start :: u64
  tar_bytes :: "u8 list"

definition offset_in :: "archive \<Rightarrow> u64 \<Rightarrow> nat" where
  "offset_in a p = unat (p - tar_start a)"

definition header_at :: "archive \<Rightarrow> u64 \<Rightarrow> u8 list option" where
  "header_at a p =
     (if offset_in a p + 512 \<le> length (tar_bytes a) then Some (take 512 (drop (offset_in a p) (tar_bytes a))) else None)"

definition empty_block :: "u8 list \<Rightarrow> bool" where
  "empty_block h = list_all (\<lambda>b. b = 0) h"

text \<open>Characters are signed, so a byte from 128 on counts as a negative digit.\<close>

fun octal_to_int :: "u8 list \<Rightarrow> u64 \<Rightarrow> u64" where
  "octal_to_int [] v = v"
| "octal_to_int (c # cs) v =
     (if c = 0 \<or> c = 32 then v else octal_to_int cs (push_bit 3 v + (scast c - 48)))"

definition hdr_field :: "nat \<Rightarrow> nat \<Rightarrow> u8 list \<Rightarrow> u8 list" where
  "hdr_field off n h = take n (drop off h)"

definition hdr_size :: "u8 list \<Rightarrow> u64" where
  "hdr_size h = octal_to_int (hdr_field 124 12 h) 0"

definition typeflag :: "u8 list \<Rightarrow> u8" where
  "typeflag h = h ! 156"

text \<open>The string that \<open>strncpy\<close> takes from a buffer, with the zero that the callers put behind it.\<close>

definition cstring :: "u8 list \<Rightarrow> string" where
  "cstring bs = map (\<lambda>b. char_of (unat b)) (takeWhile (\<lambda>b. b \<noteq> 0) bs)"

definition blocks_of :: "u64 \<Rightarrow> u64" where
  "blocks_of sz = (sz + 511) div 512"

definition next_header :: "u64 \<Rightarrow> u8 list \<Rightarrow> u64" where
  "next_header p h = p + (512 + blocks_of (hdr_size h) * 512)"

definition tar_end :: "archive \<Rightarrow> u64" where
  "tar_end a = tar_start a + of_nat (length (tar_bytes a))"

section \<open>The index\<close>

record tar_entry =
  te_name :: string
  te_data :: u64
  te_size :: u64
  te_directory :: bool

definition MAX_TAR_FILES :: nat where "MAX_TAR_FILES = 512"

text \<open>
  The name is copied with a limit of 255 characters, so a name that fills all of its 100 characters
  continues with the fields behind it.
\<close>

definition tar_entry_of :: "u64 \<Rightarrow> u8 list \<Rightarrow> tar_entry" where
  "tar_entry_of p h =
     \<lparr>te_name = cstring (take 255 h), te_data = p + 512, te_size = hdr_size h, te_directory = (typeflag h = 53)\<rparr>"

partial_function (option) index_from :: "archive \<Rightarrow> u64 \<Rightarrow> tar_entry list \<Rightarrow> tar_entry list option option" where
  "index_from a p es =
     (if p < tar_end a then
        case header_at a p of
          None \<Rightarrow> Some None
        | Some h \<Rightarrow>
            if empty_block h then Some (Some es)
            else index_from a (next_header p h) (if length es < MAX_TAR_FILES then es @ [tar_entry_of p h] else es)
      else Some (Some es))"

definition build_index :: "archive \<Rightarrow> tar_entry list option option" where
  "build_index a = index_from a (tar_start a) []"

text \<open>
  \<open>mount\<close>, with the address of the buffer that \<open>kmalloc\<close> returns for the unpacked archive, if any.
\<close>

definition unpacked :: "u64 option \<Rightarrow> archive \<Rightarrow> archive option option" where
  "unpacked buf a =
     (if is_gzip (Some (tar_bytes a)) then
        case buf of
          None \<Rightarrow> Some (Some a)
        | Some q \<Rightarrow>
            map_option (map_option (\<lambda>(ok, bs). if ok then \<lparr>tar_start = q, tar_bytes = bs\<rparr> else a))
              (decompress (Some (tar_bytes a)) (Some (4 * 1024 * 1024)))
      else Some (Some a))"

definition tar_mount :: "u64 option \<Rightarrow> archive \<Rightarrow> (archive \<times> tar_entry list) option option" where
  "tar_mount buf a =
     (case unpacked buf a of
        None \<Rightarrow> None
      | Some None \<Rightarrow> Some None
      | Some (Some b) \<Rightarrow> map_option (map_option (Pair b)) (build_index b))"

definition tar_find :: "tar_entry list \<Rightarrow> string \<Rightarrow> tar_entry option" where
  "tar_find es name = List.find (\<lambda>e. te_name e = name) es"

definition tar_read :: "archive \<Rightarrow> tar_entry option \<Rightarrow> u64 \<Rightarrow> u8 list option" where
  "tar_read a f sz =
     (case f of
        None \<Rightarrow> Some []
      | Some e \<Rightarrow>
          let n = unat (if te_size e < sz then te_size e else sz); off = offset_in a (te_data e)
          in if off + n \<le> length (tar_bytes a) then Some (take n (drop off (tar_bytes a))) else None)"

definition tar_filesize :: "tar_entry option \<Rightarrow> u64" where
  "tar_filesize f = (case f of None \<Rightarrow> 0 | Some e \<Rightarrow> te_size e)"

section \<open>Unpacking into the file system\<close>

definition normalize :: "string \<Rightarrow> string" where
  "normalize pth = (case pth of a # b # rest \<Rightarrow> if a = CHR ''.'' \<and> b = CHR ''/'' then rest else pth | _ \<Rightarrow> pth)"

definition strip_slash :: "string \<Rightarrow> string" where
  "strip_slash pth = (if pth \<noteq> [] \<and> last pth = CHR ''/'' then butlast pth else pth)"

definition hdr_path :: "u8 list \<Rightarrow> string" where
  "hdr_path h =
     strip_slash (normalize
       (if h ! 345 \<noteq> 0 then cstring (hdr_field 345 155 h) @ ''/'' @ cstring (hdr_field 0 100 h)
        else cstring (hdr_field 0 100 h)))"

definition add_tar_file :: "archive \<Rightarrow> u64 \<Rightarrow> u8 list \<Rightarrow> string \<Rightarrow> 'w vfs \<Rightarrow> 'w vfs option" where
  "add_tar_file a p h pth s = do {
     (n, s) \<leftarrow> create_file_path pth s;
     case n of
       None \<Rightarrow> Some s
     | Some n \<Rightarrow> do {
         let (f, s) = kmalloc_node s;
         _ \<leftarrow> f;
         nd \<leftarrow> nodes s n;
         Some (set_node n (nd\<lparr>nd_file := Some \<lparr>f_size = hdr_size h,
                 private_data = Some (drop (offset_in a (p + 512)) (tar_bytes a))\<rparr>\<rparr>) s)
       }
   }"

definition add_tar_entry :: "archive \<Rightarrow> u64 \<Rightarrow> u8 list \<Rightarrow> 'w vfs \<Rightarrow> 'w vfs option" where
  "add_tar_entry a p h s =
     (let pth = hdr_path h in
      if typeflag h = 50 then map_option snd (create_symlink_path pth (cstring (hdr_field 157 100 h)) s)
      else if pth = [] then Some s
      else if typeflag h = 53 then map_option snd (create_dir_path pth s)
      else if typeflag h = 48 \<or> typeflag h = 0 then add_tar_file a p h pth s
      else Some s)"

partial_function (option) mount_vfs_from :: "archive \<Rightarrow> u64 \<Rightarrow> 'w vfs \<Rightarrow> 'w vfs option option" where
  "mount_vfs_from a p s =
     (if p < tar_end a then
        case header_at a p of
          None \<Rightarrow> Some None
        | Some h \<Rightarrow>
            if empty_block h then Some (Some s)
            else
              (case add_tar_entry a p h s of
                 None \<Rightarrow> Some None
               | Some s' \<Rightarrow> mount_vfs_from a (next_header p h) s')
      else Some (Some s))"

definition mount_vfs :: "archive option \<Rightarrow> 'w vfs \<Rightarrow> 'w vfs option option" where
  "mount_vfs a s = (case a of None \<Rightarrow> Some (Some s) | Some a \<Rightarrow> mount_vfs_from a (tar_start a) s)"

section \<open>Archives\<close>

text \<open>An archive of ordinary files, in the format of \<open>TarHeader\<close>.\<close>

fun octal_digits :: "nat \<Rightarrow> nat \<Rightarrow> u8 list" where
  "octal_digits 0 v = []"
| "octal_digits (Suc k) v = octal_digits k (v div 8) @ [48 + of_nat (v mod 8)]"

definition make_header :: "u8 list \<Rightarrow> nat \<Rightarrow> u8 list" where
  "make_header name n =
     name @ replicate (124 - length name) 0 @ octal_digits 11 n @ replicate 21 0 @ [48] @ replicate 355 0"

definition padding :: "nat \<Rightarrow> nat" where
  "padding n = (n + 511) div 512 * 512 - n"

definition tar_file :: "u8 list \<times> u8 list \<Rightarrow> u8 list" where
  "tar_file f = make_header (fst f) (length (snd f)) @ snd f @ replicate (padding (length (snd f))) 0"

definition tar_pack :: "(u8 list \<times> u8 list) list \<Rightarrow> u8 list" where
  "tar_pack fs = concat (map tar_file fs) @ replicate 1024 0"

definition packable :: "u8 list \<times> u8 list \<Rightarrow> bool" where
  "packable f \<longleftrightarrow> fst f \<noteq> [] \<and> 0 \<notin> set (fst f) \<and> length (fst f) < 100 \<and> length (snd f) < 8 ^ 11"

lemma digit_value:
  assumes "d < 8"
  shows "(scast (48 + of_nat d :: u8) - 48 :: u64) = of_nat d" "(48 + of_nat d :: u8) \<noteq> 0" "(48 + of_nat d :: u8) \<noteq> 32"
proof -
  have "d \<in> {0, 1, 2, 3, 4, 5, 6, 7}" using assms by auto
  thus "(scast (48 + of_nat d :: u8) - 48 :: u64) = of_nat d" "(48 + of_nat d :: u8) \<noteq> 0" "(48 + of_nat d :: u8) \<noteq> 32"
    by (auto simp: signed_take_bit_eq_if_positive)
qed

lemma octal_roundtrip: "v < 8 ^ k \<Longrightarrow> octal_to_int (octal_digits k v @ cs) acc = octal_to_int cs (acc * 8 ^ k + of_nat v)"
proof (induction k arbitrary: v cs)
  case (Suc k)
  have d: "v mod 8 < 8" by simp
  have "8 * of_nat (v div 8) + of_nat (v mod 8) = (of_nat v :: u64)"
    by (metis mult_div_mod_eq of_nat_add of_nat_mult of_nat_numeral)
  hence "push_bit 3 (acc * 8 ^ k + of_nat (v div 8)) + of_nat (v mod 8) = acc * 8 ^ Suc k + (of_nat v :: u64)"
    by (simp add: push_bit_eq_mult algebra_simps)
  thus ?case using Suc.IH [of "v div 8" "[48 + of_nat (v mod 8)] @ cs"] Suc.prems digit_value [OF d]
    by (simp add: less_mult_imp_div_less mult.commute)
qed simp

lemma length_octal: "length (octal_digits k v) = k"
  by (induction k arbitrary: v) simp_all

lemma length_header: "packable (n, d) \<Longrightarrow> length (make_header n m) = 512"
  by (simp add: make_header_def packable_def length_octal)

lemma length_tar_file: "packable f \<Longrightarrow> length (tar_file f) = 512 + (length (snd f) + 511) div 512 * 512"
  using length_header [of "fst f" "snd f"] by (simp add: tar_file_def padding_def)

lemma header_fields:
  assumes "packable (n, d)"
  shows "hdr_size (make_header n (length d)) = of_nat (length d)" "typeflag (make_header n m) = 48"
    "cstring (take 255 (make_header n m)) = cstring n" "\<not> empty_block (make_header n m)"
proof -
  have l: "length (n @ replicate (124 - length n) 0) = 124" using assms by (simp add: packable_def)
  have "hdr_field 124 12 (make_header n (length d)) = octal_digits 11 (length d) @ [0]"
    using l by (simp add: hdr_field_def make_header_def packable_def length_octal)
  moreover have "length d < 8 ^ 11" using assms by (simp add: packable_def)
  ultimately show "hdr_size (make_header n (length d)) = of_nat (length d)"
    using octal_roundtrip [of "length d" 11 "[0]" 0] by (simp add: hdr_size_def)
  define q where "q = n @ replicate (124 - length n) 0 @ octal_digits 11 m @ replicate 21 0"
  have "length q = 156" using l by (simp add: q_def length_octal)
  moreover have "make_header n m = q @ 48 # replicate 355 0" by (simp add: make_header_def q_def)
  ultimately show "typeflag (make_header n m) = 48" by (metis nth_append_length typeflag_def)
  have "takeWhile (\<lambda>b. b \<noteq> 0) (take 255 (make_header n m)) = n"
  proof -
    have "take 255 (make_header n m) = n @ 0 # take (254 - length n) (replicate (123 - length n) 0 @ octal_digits 11 m @ replicate 21 0 @ [48] @ replicate 355 0)"
      using assms by (simp add: make_header_def packable_def Suc_diff_Suc replicate_Suc [symmetric] take_Cons' split: nat_diff_split del: replicate_Suc)
    moreover have "\<forall>b \<in> set n. b \<noteq> 0" using assms by (auto simp: packable_def)
    ultimately show ?thesis by (simp add: takeWhile_append2)
  qed
  moreover have "takeWhile (\<lambda>b. b \<noteq> 0) n = n" using assms by (intro takeWhile_eq_all_conv [THEN iffD2]) (auto simp: packable_def)
  ultimately show "cstring (take 255 (make_header n m)) = cstring n" by (simp only: cstring_def)
  show "\<not> empty_block (make_header n m)" using assms by (cases n) (auto simp: empty_block_def make_header_def packable_def)
qed

lemma blocks_of_nat:
  assumes "n < 8 ^ 11"
  shows "blocks_of (of_nat n) * 512 = of_nat ((n + 511) div 512 * 512)"
proof -
  have "unat (of_nat (n + 511) :: u64) = n + 511" using assms by (intro unat_of_nat_u64) simp
  hence "unat ((of_nat (n + 511) :: u64) div 512) = (n + 511) div 512" by (simp add: unat_div)
  hence "(of_nat (n + 511) :: u64) div 512 = of_nat ((n + 511) div 512)" by (metis of_nat_unat_u64)
  thus ?thesis by (simp add: blocks_of_def)
qed

fun tar_index :: "u64 \<Rightarrow> (u8 list \<times> u8 list) list \<Rightarrow> tar_entry list" where
  "tar_index p [] = []"
| "tar_index p (f # fs) =
     \<lparr>te_name = cstring (fst f), te_data = p + 512, te_size = of_nat (length (snd f)), te_directory = False\<rparr> #
     tar_index (p + of_nat (length (tar_file f))) fs"

lemma next_header_file:
  assumes "packable f"
  shows "next_header p (make_header (fst f) (length (snd f))) = p + of_nat (length (tar_file f))"
proof -
  have f: "packable (fst f, snd f)" using assms by simp
  have "length (snd f) < 8 ^ 11" using assms by (simp add: packable_def)
  thus ?thesis using blocks_of_nat length_tar_file [OF assms] header_fields(1) [OF f] by (simp add: next_header_def)
qed

text \<open>Where in the archive the loops stand: at \<open>k\<close> bytes from its start, with \<open>rest\<close> before them.\<close>

definition stands_at :: "archive \<Rightarrow> u64 \<Rightarrow> u8 list \<Rightarrow> bool" where
  "stands_at a p rest \<longleftrightarrow> drop (offset_in a p) (tar_bytes a) = rest \<and> p = tar_start a + of_nat (offset_in a p) \<and>
     unat (tar_start a) + length (tar_bytes a) < 2 ^ 64"

lemma stands_at_less:
  assumes "stands_at a p rest" "rest \<noteq> []"
  shows "p < tar_end a"
proof -
  have l: "offset_in a p < length (tar_bytes a)" using assms by (metis drop_all not_less stands_at_def)
  have w: "unat (tar_start a) + length (tar_bytes a) < 2 ^ 64" using assms(1) by (simp add: stands_at_def)
  have sum: "unat (tar_start a + of_nat k) = unat (tar_start a) + k" if "k \<le> length (tar_bytes a)" for k
  proof -
    have "k < 2 ^ 64" using that w by linarith
    hence "unat (of_nat k :: u64) = k" by (rule unat_of_nat_u64)
    thus ?thesis using unat_add_u64 [of "tar_start a" "of_nat k"] that w by simp
  qed
  have "p = tar_start a + of_nat (offset_in a p)" using assms(1) by (simp add: stands_at_def)
  hence "unat p = unat (tar_start a) + offset_in a p" using sum [of "offset_in a p"] l by simp
  moreover have "unat (tar_end a) = unat (tar_start a) + length (tar_bytes a)" using sum by (simp add: tar_end_def)
  ultimately show ?thesis using l by (simp add: word_less_nat_alt)
qed

lemma stands_at_step:
  assumes "stands_at a p (x @ rest)"
  shows "stands_at a (p + of_nat (length x)) rest" "offset_in a (p + of_nat (length x)) = offset_in a p + length x"
proof -
  let ?q = "p + of_nat (length x)"
  have w: "unat (tar_start a) + length (tar_bytes a) < 2 ^ 64" and d: "drop (offset_in a p) (tar_bytes a) = x @ rest"
    and p: "p = tar_start a + of_nat (offset_in a p)" using assms by (auto simp: stands_at_def)
  have l: "offset_in a p + length x \<le> length (tar_bytes a) \<or> x = []" using arg_cong [OF d, of length] by (cases x) auto
  show o: "offset_in a ?q = offset_in a p + length x"
  proof (cases "x = []")
    case False
    have q: "?q - tar_start a = of_nat (offset_in a p + length x)" by (subst p) simp
    have "offset_in a p + length x < 2 ^ 64" using l w False by linarith
    thus ?thesis unfolding offset_in_def [of a ?q] q by (rule unat_of_nat_u64)
  qed simp
  have "drop (offset_in a ?q) (tar_bytes a) = rest" using d by (simp add: o drop_drop [symmetric] add.commute [of _ "length x"])
  moreover have "?q = tar_start a + of_nat (offset_in a ?q)" unfolding o by (subst p) simp
  ultimately show "stands_at a ?q rest" using w by (simp add: stands_at_def)
qed

lemma stands_at_header:
  assumes "stands_at a p (h @ rest)" "length h = 512"
  shows "header_at a p = Some h"
proof -
  have "drop (offset_in a p) (tar_bytes a) = h @ rest" using assms(1) by (simp add: stands_at_def)
  moreover have "offset_in a p + 512 \<le> length (tar_bytes a)" using arg_cong [OF calculation, of length] assms(2) by simp
  ultimately show ?thesis using assms(2) by (simp add: header_at_def)
qed

lemma index_from_pack:
  assumes "list_all packable fs" "length es + length fs \<le> MAX_TAR_FILES" "stands_at a p (concat (map tar_file fs) @ replicate 1024 0)"
  shows "index_from a p es = Some (Some (es @ tar_index p fs))"
  using assms
proof (induction fs arbitrary: p es)
  case Nil
  have "replicate 1024 (0 :: u8) = replicate 512 0 @ replicate 512 0" by (simp add: replicate_add [symmetric])
  hence "header_at a p = Some (replicate 512 0)" using stands_at_header [of a p "replicate 512 0" "replicate 512 0"] Nil.prems(3) by simp
  moreover have "p < tar_end a" using stands_at_less Nil.prems(3) by fastforce
  ultimately show ?case by (subst index_from.simps) (simp add: empty_block_def list_all_iff)
next
  case (Cons f fs)
  have f: "packable f" "packable (fst f, snd f)" using Cons.prems(1) by simp_all
  let ?h = "make_header (fst f) (length (snd f))"
  let ?rest = "concat (map tar_file fs) @ replicate 1024 0"
  have st: "stands_at a p (tar_file f @ ?rest)" using Cons.prems(3) by simp
  have h: "header_at a p = Some ?h"
    by (rule stands_at_header [where rest = "snd f @ replicate (padding (length (snd f))) 0 @ ?rest"])
      (use st length_header [OF f(2)] in \<open>simp_all add: tar_file_def\<close>)
  have less: "p < tar_end a" using stands_at_less [OF st] by simp
  have e: "tar_entry_of p ?h = \<lparr>te_name = cstring (fst f), te_data = p + 512, te_size = of_nat (length (snd f)), te_directory = False\<rparr>"
    by (simp add: tar_entry_of_def header_fields [OF f(2)])
  have "index_from a (next_header p ?h) (es @ [tar_entry_of p ?h]) =
      Some (Some ((es @ [tar_entry_of p ?h]) @ tar_index (next_header p ?h) fs))"
    using Cons.prems stands_at_step(1) [OF st] by (intro Cons.IH) (simp_all add: next_header_file [OF f(1)])
  thus ?case using less h Cons.prems(2)
    by (subst index_from.simps) (simp add: header_fields(4) [OF f(2)] e next_header_file [OF f(1)])
qed

lemma tar_index_read:
  assumes "list_all packable fs" "stands_at a p (concat (map tar_file fs) @ rest)" "e \<in> set (tar_index p fs)"
  shows "\<exists>f \<in> set fs. te_name e = cstring (fst f) \<and> te_size e = of_nat (length (snd f)) \<and>
    tar_read a (Some e) (of_nat (length (snd f))) = Some (snd f)"
  using assms
proof (induction fs arbitrary: p)
  case (Cons f fs)
  have f: "packable f" "packable (fst f, snd f)" using Cons.prems(1) by simp_all
  have st: "stands_at a p (tar_file f @ concat (map tar_file fs) @ rest)" using Cons.prems(2) by simp
  consider (here) "e = \<lparr>te_name = cstring (fst f), te_data = p + 512, te_size = of_nat (length (snd f)), te_directory = False\<rparr>"
    | (there) "e \<in> set (tar_index (p + of_nat (length (tar_file f))) fs)" using Cons.prems(3) by auto
  thus ?case
  proof cases
    case there
    have "\<exists>f' \<in> set fs. te_name e = cstring (fst f') \<and> te_size e = of_nat (length (snd f')) \<and>
        tar_read a (Some e) (of_nat (length (snd f'))) = Some (snd f')"
      using Cons.prems(1) stands_at_step(1) [OF st] there by (intro Cons.IH) simp_all
    thus ?thesis by auto
  next
    case here
    let ?h = "make_header (fst f) (length (snd f))"
    have "stands_at a p (?h @ snd f @ replicate (padding (length (snd f))) 0 @ concat (map tar_file fs) @ rest)"
      using st by (simp add: tar_file_def)
    note s = stands_at_step [OF this, unfolded length_header [OF f(2)]]
    have d: "drop (offset_in a (p + 512)) (tar_bytes a) = snd f @ replicate (padding (length (snd f))) 0 @ concat (map tar_file fs) @ rest"
      using s(1) by (simp add: stands_at_def)
    have "offset_in a (p + 512) + length (snd f) \<le> length (tar_bytes a) \<or> snd f = []"
      using arg_cong [OF d, of length] by (cases "snd f") auto
    moreover have "offset_in a (p + 512) \<le> length (tar_bytes a)"
    proof -
      have "offset_in a p + 512 \<le> length (tar_bytes a)"
        using arg_cong [of _ _ length, OF st [unfolded stands_at_def, THEN conjunct1]] length_tar_file [OF f(1)] by simp
      thus ?thesis using s(2) by simp
    qed
    moreover have "unat (of_nat (length (snd f)) :: u64) = length (snd f)"
      using f(1) by (intro unat_of_nat_u64) (simp add: packable_def)
    ultimately have "tar_read a (Some e) (of_nat (length (snd f))) = Some (snd f)"
      using here d by (auto simp: tar_read_def Let_def)
    thus ?thesis using here by auto
  qed
qed simp

lemma char_of_unat_inj: "char_of (unat (b :: u8)) = char_of (unat c) \<Longrightarrow> b = c"
proof -
  assume "char_of (unat b) = (char_of (unat c) :: char)"
  hence "unat b mod 256 = unat c mod 256" by (simp add: char_of_eq_iff take_bit_eq_mod)
  moreover have "unat b < 256" "unat c < 256" using unsigned_less [of b] unsigned_less [of c] by simp_all
  ultimately have "unat b = unat c" by simp
  thus ?thesis by (rule unsigned_word_eqI)
qed

lemma cstring_inj: "0 \<notin> set m \<Longrightarrow> 0 \<notin> set n \<Longrightarrow> cstring m = cstring n \<Longrightarrow> m = n"
proof -
  assume n: "0 \<notin> set m" "0 \<notin> set n" and e: "cstring m = cstring n"
  have "takeWhile (\<lambda>b. b \<noteq> 0) m = m" "takeWhile (\<lambda>b. b \<noteq> 0) n = n"
    using n by (intro takeWhile_eq_all_conv [THEN iffD2]; auto)+
  hence "map (\<lambda>b. char_of (unat b)) m = (map (\<lambda>b. char_of (unat b)) n :: char list)" using e by (simp only: cstring_def)
  thus "m = n" by (rule map_inj_on) (auto simp: inj_on_def char_of_unat_inj)
qed

lemma tar_index_name: "f \<in> set fs \<Longrightarrow> \<exists>e \<in> set (tar_index p fs). te_name e = cstring (fst f)"
  by (induction fs arbitrary: p) auto

lemma tar_find_file:
  assumes "list_all packable fs" "distinct (map fst fs)" "stands_at a p (concat (map tar_file fs) @ rest)" "f \<in> set fs"
  shows "\<exists>e. tar_find (tar_index p fs) (cstring (fst f)) = Some e \<and> tar_filesize (Some e) = of_nat (length (snd f)) \<and>
    tar_read a (Some e) (of_nat (length (snd f))) = Some (snd f)"
proof -
  have "tar_find (tar_index p fs) (cstring (fst f)) \<noteq> None"
    using tar_index_name [OF assms(4), of p] by (auto simp: tar_find_def find_None_iff)
  then obtain e where e: "tar_find (tar_index p fs) (cstring (fst f)) = Some e" by blast
  hence m: "e \<in> set (tar_index p fs)" "te_name e = cstring (fst f)" by (auto simp: tar_find_def find_Some_iff)
  obtain g where g: "g \<in> set fs" "te_name e = cstring (fst g)" "te_size e = of_nat (length (snd g))"
    "tar_read a (Some e) (of_nat (length (snd g))) = Some (snd g)" using tar_index_read [OF assms(1,3) m(1)] by blast
  have "0 \<notin> set (fst f)" "0 \<notin> set (fst g)" using assms(1,4) g(1) by (auto simp: packable_def list_all_iff)
  hence "fst f = fst g" using cstring_inj m(2) g(2) by metis
  hence "f = g" using assms(2,4) g(1) by (metis eq_key_imp_eq_value prod.collapse)
  thus ?thesis using e g by (simp add: tar_filesize_def)
qed

text \<open>
  C7: the files of the initial ram disk are found. An archive of at most 512 files with different
  names, packed with gzip into stored blocks and unpacked at \<open>q\<close>, is indexed by \<open>mount\<close>, and for
  every file \<open>find\<close> returns an entry with its size and \<open>read\<close> its bytes.
\<close>

theorem tar_gzip_find:
  assumes files: "list_all packable fs" "distinct (map fst fs)" "length fs \<le> MAX_TAR_FILES"
    and gz: "length hdr = 10" "hdr ! 0 = 0x1f" "hdr ! 1 = 0x8b" "hdr ! 3 = 0" "length trailer = 8"
    and cs: "concat cs = tar_pack fs" "\<forall>c \<in> set cs. length c \<le> 65535" "length (stored_stream cs) < 2 ^ 63"
    and room: "length (tar_pack fs) \<le> 4 * 1024 * 1024" "unat q + length (tar_pack fs) < 2 ^ 64"
    and f: "f \<in> set fs"
  shows "\<exists>a es e. tar_mount (Some q) \<lparr>tar_start = p, tar_bytes = hdr @ stored_stream cs @ trailer\<rparr> = Some (Some (a, es)) \<and>
    tar_find es (cstring (fst f)) = Some e \<and> tar_filesize (Some e) = of_nat (length (snd f)) \<and>
    tar_read a (Some e) (of_nat (length (snd f))) = Some (snd f)"
proof -
  let ?gz = "hdr @ stored_stream cs @ trailer" and ?a = "\<lparr>tar_start = q, tar_bytes = tar_pack fs\<rparr>"
  have ne: "tar_pack fs \<noteq> []" by (simp add: tar_pack_def)
  have c: "cs \<noteq> []" using ne cs(1) by auto
  have "decompress (Some ?gz) (Some (4 * 1024 * 1024)) = Some (Some (concat cs \<noteq> [], concat cs))"
    by (rule decompress_stored_blocks) (use gz cs room c in \<open>auto simp: cs(1)\<close>)
  moreover have "is_gzip (Some ?gz)" using gz by (simp add: is_gzip_def nth_append)
  ultimately have u: "unpacked (Some q) \<lparr>tar_start = p, tar_bytes = ?gz\<rparr> = Some (Some ?a)"
    using ne by (simp add: unpacked_def cs(1))
  have st: "stands_at ?a q (concat (map tar_file fs) @ replicate 1024 0)"
    using room(2) by (simp add: stands_at_def offset_in_def tar_pack_def)
  have "build_index ?a = Some (Some (tar_index q fs))"
    using index_from_pack [OF files(1) _ st, of "[]"] files(3) by (simp add: build_index_def)
  with u tar_find_file [OF files(1,2) st f] show ?thesis by (auto simp: tar_mount_def)
qed

theorem tar_gzip_find_witness:
  "\<exists>a es e. tar_mount (Some 4096) \<lparr>tar_start = 0, tar_bytes = [0x1f, 0x8b, 8, 0, 0, 0, 0, 0, 0, 3] @
      stored_stream [tar_pack [([97], [1, 2]), ([98], [])]] @ replicate 8 0\<rparr> = Some (Some (a, es)) \<and>
    tar_find es (cstring [97]) = Some e \<and> tar_filesize (Some e) = 2 \<and> tar_read a (Some e) 2 = Some [1, 2]"
proof -
  let ?fs = "[([97], [1, 2]), ([98], [])] :: (u8 list \<times> u8 list) list"
  have p: "list_all packable ?fs" by (simp add: packable_def)
  hence l: "length (tar_pack ?fs) = 2560" by (simp add: tar_pack_def length_tar_file)
  have "length (stored_stream [tar_pack ?fs]) = 2565" using l by (simp add: stored_header_def)
  with tar_gzip_find [OF p _ _ _ _ _ _ _ _ _ _ _ _, of "[0x1f, 0x8b, 8, 0, 0, 0, 0, 0, 0, 3]" "replicate 8 0" "[tar_pack ?fs]" 4096 "([97], [1, 2])" 0] l
  show ?thesis by (simp add: MAX_TAR_FILES_def)
qed

text \<open>
  An archive whose size field starts with the bytes 229 and 48: the size is -600, the next header
  is the same one again, and the loop never ends.
\<close>

lemma tar_index_endless:
  assumes "tar_start a < tar_end a" "header_at a (tar_start a) = Some h" "\<not> empty_block h" "hdr_field 124 12 h = 229 # 48 # 0 # x"
  shows "build_index a = None"
proof -
  have "hdr_size h = -600" by (simp add: hdr_size_def assms(4) push_bit_eq_mult)
  hence n: "next_header p h = p" for p by (simp add: next_header_def blocks_of_def)
  have "b = a \<longrightarrow> p \<noteq> tar_start a" if "index_from b p es = Some r" for b p es r
    using that
  proof (rule index_from.raw_induct [rotated])
    fix f b p es r
    assume IH: "\<And>b p es r. f b p es = Some r \<Longrightarrow> b = a \<longrightarrow> p \<noteq> tar_start a"
      and "(if p < tar_end b then case header_at b p of None \<Rightarrow> Some None
            | Some h \<Rightarrow> if empty_block h then Some (Some es)
                else f b (next_header p h) (if length es < MAX_TAR_FILES then es @ [tar_entry_of p h] else es)
          else Some (Some es)) = Some r"
    thus "b = a \<longrightarrow> p \<noteq> tar_start a" using assms(1-3) n IH [of a "tar_start a"] by (auto split: if_splits)
  qed
  thus ?thesis unfolding build_index_def by (metis not_None_eq)
qed

end
