(* ===== verification/Syscalls.thy ===== *)
theory Syscalls
  imports Descriptors Kprintf
begin

unbundle bit_operations_syntax

text \<open>
  The system calls of \<open>src/user/syscall.cpp\<close> that work on paths, directories, processes and
  memory. As in the theory of descriptors, strings and buffers behind user pointers are lists, a
  null pointer is \<open>None\<close>, and the outer \<open>None\<close> of a result is a fault of the kernel.
\<close>

text \<open>What a call does in the end: return, enter another task, or wait and try again.\<close>

datatype outcome = Ret u64 | Enter "u64 option" | Again_later

definition minus_one :: u64 where "minus_one = -1"

definition of_success :: "bool \<Rightarrow> u64" where
  "of_success ok = (if ok then 0 else minus_one)"

section \<open>Paths\<close>

definition find_abs :: "string \<Rightarrow> 'w kernel \<Rightarrow> (ptr option \<times> 'w kernel) option" where
  "find_abs pth k = do {
     pth \<leftarrow> abs_path k pth;
     (r, s) \<leftarrow> vfs_find (fs_view k) pth;
     Some (r, k\<lparr>fsys := s\<rparr>)
   }"

text \<open>The fields that the calls leave at 0 (owner, group and times) are not in the record.\<close>

record kernel_stat =
  st_dev :: u64
  st_ino :: u64
  st_mode :: u64
  st_nlink :: u64
  st_size :: u64
  st_blksize :: u64
  st_blocks :: u64

definition mode_of :: "bool \<Rightarrow> u64" where
  "mode_of directory = (if directory then 0x4000 OR 0x1ED else 0x8000 OR 0x1A4)"

definition stat_of :: "u64 \<Rightarrow> node option \<Rightarrow> kernel_stat" where
  "stat_of ino nd =
     (let sz = (case Option.bind nd nd_file of None \<Rightarrow> 0 | Some f \<Rightarrow> f_size f)
      in \<lparr>st_dev = 1, st_ino = ino, st_mode = mode_of (case nd of Some n \<Rightarrow> nd_directory n | None \<Rightarrow> False),
          st_nlink = 1, st_size = sz, st_blksize = 512, st_blocks = (sz + 511) div 512\<rparr>)"

definition sys_stat :: "string option \<Rightarrow> bool \<Rightarrow> 'w kernel \<Rightarrow> (u64 \<times> kernel_stat option \<times> 'w kernel) option" where
  "sys_stat pth has_buf k =
     (case pth of
        None \<Rightarrow> Some (minus_one, None, k)
      | Some pth \<Rightarrow>
          if \<not> has_buf then Some (minus_one, None, k)
          else do {
            (r, k) \<leftarrow> find_abs pth k;
            case r of
              None \<Rightarrow> Some (minus_one, None, k)
            | Some n \<Rightarrow> do { nd \<leftarrow> nodes (fsys k) n; Some (0, Some (stat_of (of_nat n) (Some nd)), k) }
          })"

text \<open>\<open>fd_addr p i\<close> is the address of descriptor \<open>i\<close> in the process at \<open>p\<close>.\<close>

definition sys_fstat ::
  "(u64 \<Rightarrow> nat \<Rightarrow> u64) \<Rightarrow> u64 \<Rightarrow> bool \<Rightarrow> 'w kernel \<Rightarrow> (u64 \<times> kernel_stat option) option" where
  "sys_fstat fd_addr fd has_buf k =
     (if \<not> has_buf then Some (minus_one, None)
      else do {
        r \<leftarrow> open_entry k (c_int fd);
        case r of
          None \<Rightarrow> Some (minus_one, None)
        | Some (p, i, e) \<Rightarrow>
            (case fd_node e of
               None \<Rightarrow> Some (0, Some (stat_of (fd_addr p i) None))
             | Some n \<Rightarrow> do { nd \<leftarrow> nodes (fsys k) n; Some (0, Some (stat_of (of_nat n) (Some nd))) })
      })"

definition sys_access :: "string option \<Rightarrow> 'w kernel \<Rightarrow> (u64 \<times> 'w kernel) option" where
  "sys_access pth k =
     (case pth of
        None \<Rightarrow> Some (minus_one, k)
      | Some pth \<Rightarrow> do { (r, k) \<leftarrow> find_abs pth k; Some (of_success (r \<noteq> None), k) })"

definition sys_link :: "string option \<Rightarrow> string option \<Rightarrow> 'w kernel \<Rightarrow> (u64 \<times> 'w kernel) option" where
  "sys_link oldpath newpath k =
     (case (oldpath, newpath) of
        (Some old, Some new) \<Rightarrow> do {
          old \<leftarrow> abs_path k old;
          new \<leftarrow> abs_path k new;
          (r, s) \<leftarrow> vfs_find (fs_view k) old;
          case r of
            None \<Rightarrow> Some (minus_one, k\<lparr>fsys := s\<rparr>)
          | Some _ \<Rightarrow> do {
              (l, s) \<leftarrow> create_symlink_path new old s;
              Some (of_success (l \<noteq> None), k\<lparr>fsys := s\<rparr>)
            }
        }
      | _ \<Rightarrow> Some (minus_one, k))"

definition sys_symlink :: "string option \<Rightarrow> string option \<Rightarrow> 'w kernel \<Rightarrow> (u64 \<times> 'w kernel) option" where
  "sys_symlink target linkpath k =
     (case (target, linkpath) of
        (Some tgt, Some l) \<Rightarrow> do {
          l \<leftarrow> abs_path k l;
          (n, s) \<leftarrow> create_symlink_path l tgt (fs_view k);
          Some (of_success (n \<noteq> None), k\<lparr>fsys := s\<rparr>)
        }
      | _ \<Rightarrow> Some (minus_one, k))"

text \<open>
  The link is looked up by \<open>find\<close>, which follows links. A node that is not a link has never had its
  field \<open>symlink\<close> set, and reading it is a fault here.
\<close>

definition sys_readlink :: "string option \<Rightarrow> bool \<Rightarrow> u64 \<Rightarrow> 'w kernel \<Rightarrow> (u64 \<times> string \<times> 'w kernel) option" where
  "sys_readlink pth has_buf bufsize k =
     (case pth of
        None \<Rightarrow> Some (minus_one, [], k)
      | Some pth \<Rightarrow>
          if \<not> has_buf \<or> bufsize = 0 then Some (minus_one, [], k)
          else do {
            (r, k) \<leftarrow> find_abs pth k;
            case r of
              None \<Rightarrow> Some (minus_one, [], k)
            | Some n \<Rightarrow> do {
                nd \<leftarrow> nodes (fsys k) n;
                l \<leftarrow> nd_symlink nd;
                let len = min (length l) (unat bufsize);
                Some (of_nat len, take len l, k)
              }
          })"

text \<open>\<open>tmpfs_fs\<close> is the address of the static file system without operations.\<close>

definition sys_mount :: "ptr \<Rightarrow> string option \<Rightarrow> string option \<Rightarrow> ptr \<Rightarrow> 'w kernel \<Rightarrow> (u64 \<times> 'w kernel) option" where
  "sys_mount tmpfs_fs target fstype data k =
     (case target of
        None \<Rightarrow> Some (minus_one, k)
      | Some tgt \<Rightarrow>
          if tgt = [] then Some (minus_one, k)
          else do {
            tgt \<leftarrow> abs_path k tgt;
            let f = get_filesystem (fsys k) fstype;
            let f = (if f = None \<and> (fstype = Some ''tmpfs'' \<or> fstype = Some ''ramfs'') then Some tmpfs_fs else f);
            (ok, s) \<leftarrow> mount_fs tgt f data (fs_view k);
            Some (of_success ok, k\<lparr>fsys := s\<rparr>)
          })"

definition sys_umount :: "string option \<Rightarrow> 'w kernel \<Rightarrow> (u64 \<times> 'w kernel) option" where
  "sys_umount target k =
     (case target of
        None \<Rightarrow> Some (minus_one, k)
      | Some tgt \<Rightarrow>
          if tgt = [] then Some (minus_one, k)
          else do {
            tgt \<leftarrow> abs_path k tgt;
            (ok, s) \<leftarrow> fs_umount tgt (fs_view k);
            Some (of_success ok, k\<lparr>fsys := s\<rparr>)
          })"

text \<open>The cases of \<open>syscall_handler\<close> that work on the file system themselves.\<close>

definition sys_getcwd :: "bool \<Rightarrow> u64 \<Rightarrow> 'w kernel \<Rightarrow> (u64 \<times> string) option" where
  "sys_getcwd has_buf n k =
     (if \<not> has_buf \<or> n = 0 then Some (minus_one, [])
      else do {
        c \<leftarrow> current_task k;
        cd \<leftarrow> tasks k c;
        case t_process cd of
          None \<Rightarrow> Some (minus_one, [])
        | Some p \<Rightarrow> do {
            pd \<leftarrow> procs k p;
            case cwd pd of
              None \<Rightarrow> Some (minus_one, [])
            | Some d \<Rightarrow> do {
                pth \<leftarrow> get_path (fsys k) (Some d);
                Some (0, take (unat n - 1) pth)
              }
          }
      })"

definition sys_chdir :: "string \<Rightarrow> 'w kernel \<Rightarrow> (u64 \<times> 'w kernel) option" where
  "sys_chdir pth k = do {
     c \<leftarrow> current_task k;
     cd \<leftarrow> tasks k c;
     (r, s) \<leftarrow> vfs_find (fs_view k) pth;
     let k = k\<lparr>fsys := s\<rparr>;
     case r of
       None \<Rightarrow> Some (minus_one, k)
     | Some n \<Rightarrow> do {
         nd \<leftarrow> nodes s n;
         if \<not> nd_directory nd then Some (minus_one, k)
         else do {
           p \<leftarrow> t_process cd;
           pd \<leftarrow> procs k p;
           Some (0, set_proc p (pd\<lparr>cwd := Some n\<rparr>) k)
         }
       }
   }"

definition sys_unlink :: "string \<Rightarrow> 'w kernel \<Rightarrow> (u64 \<times> 'w kernel) option" where
  "sys_unlink pth k = do { (ok, s) \<leftarrow> vfs_remove pth (fs_view k); Some (of_success ok, k\<lparr>fsys := s\<rparr>) }"

definition sys_mkdir :: "string \<Rightarrow> 'w kernel \<Rightarrow> (u64 \<times> 'w kernel) option" where
  "sys_mkdir pth k = do { (r, s) \<leftarrow> create_dir_path pth (fs_view k); Some (of_success (r \<noteq> None), k\<lparr>fsys := s\<rparr>) }"

section \<open>Directories\<close>

record dirent =
  d_ino :: u64
  d_off :: u64
  d_type :: u8
  d_name :: string

text \<open>Entry number \<open>n\<close> of a list of children, or how many numbers are left behind its end.\<close>

fun nth_child :: "'w vfs \<Rightarrow> nat \<Rightarrow> ptr option \<Rightarrow> (ptr + nat) option" where
  "nth_child s n None = Some (Inr n)"
| "nth_child s 0 (Some c) = Some (Inl c)"
| "nth_child s (Suc n) (Some c) = do { nd \<leftarrow> nodes s c; nth_child s n (nd_next nd) }"

fun nth_task :: "'w kernel \<Rightarrow> nat \<Rightarrow> u64 option \<Rightarrow> u64 option option" where
  "nth_task k n None = Some None"
| "nth_task k 0 (Some t) = Some (Some t)"
| "nth_task k (Suc n) (Some t) = do { td \<leftarrow> tasks k t; nth_task k n (t_next td) }"

definition pid_name :: "u64 \<Rightarrow> string" where
  "pid_name pid = map (\<lambda>b. char_of (unat b)) (rev (number_buffer False 10 pid))"

definition node_dirent :: "u64 \<Rightarrow> node \<Rightarrow> dirent option" where
  "node_dirent off nd = do {
     nm \<leftarrow> nd_name nd;
     Some \<lparr>d_ino = 0, d_off = off + 1, d_type = (if nd_directory nd then 4 else 8), d_name = take 255 nm\<rparr>
   }"

text \<open>
  The lines of the text behind a handle of a mounted file system, which the code takes for a
  \<open>ProcFile\<close> whatever file system it belongs to; empty lines do not count.
\<close>

fun nonempty_lines :: "string \<Rightarrow> string \<Rightarrow> string list" where
  "nonempty_lines acc [] = (if acc = [] then [] else [acc])"
| "nonempty_lines acc (c # cs) =
     (if c = CHR 0x0A then (if acc = [] then nonempty_lines [] cs else acc # nonempty_lines [] cs)
      else nonempty_lines (acc @ [c]) cs)"

definition line_type :: "string \<Rightarrow> u8" where
  "line_type nm =
     (if nm \<in> {''cwd'', ''exe'', ''root''} then 10
      else if nm \<in> {''fd'', ''fdinfo'', ''task''} then 4 else 8)"

definition line_dirent :: "u64 \<Rightarrow> string \<Rightarrow> dirent" where
  "line_dirent off l = (let nm = take 255 l in \<lparr>d_ino = 0, d_off = off + 1, d_type = line_type nm, d_name = nm\<rparr>)"

definition next_entry :: "u64 \<Rightarrow> nat \<Rightarrow> fd_entry \<Rightarrow> dirent \<Rightarrow> 'w kernel \<Rightarrow> (u64 \<times> dirent option \<times> 'w kernel) option" where
  "next_entry p i e d k = do { k \<leftarrow> set_fd p i (e\<lparr>offset := offset e + 1\<rparr>) k; Some (1, Some d, k) }"

definition readdir_node ::
  "ptr \<Rightarrow> u64 \<Rightarrow> nat \<Rightarrow> fd_entry \<Rightarrow> 'w kernel \<Rightarrow> (u64 \<times> dirent option \<times> 'w kernel) option" where
  "readdir_node procfs p i e k =
     (case fd_node e of
        None \<Rightarrow> Some (minus_one, None, k)
      | Some n \<Rightarrow> do {
          nd \<leftarrow> nodes (fsys k) n;
          if \<not> nd_directory nd then Some (minus_one, None, k)
          else do {
            c \<leftarrow> nth_child (fsys k) (unat (offset e)) (nd_children nd);
            case c of
              Inl c \<Rightarrow> do {
                cd \<leftarrow> nodes (fsys k) c;
                d \<leftarrow> node_dirent (offset e) cd;
                next_entry p i e d k
              }
            | Inr m \<Rightarrow>
                if nd_filesystem nd = Some procfs \<or> nd_name nd = Some ''proc'' then do {
                  t \<leftarrow> nth_task k m (head k);
                  case t of
                    None \<Rightarrow> Some (0, None, k)
                  | Some t \<Rightarrow> do {
                      td \<leftarrow> tasks k t;
                      next_entry p i e \<lparr>d_ino = t_pid td, d_off = offset e + 1, d_type = 4, d_name = pid_name (t_pid td)\<rparr> k
                    }
                }
                else Some (0, None, k)
          }
        })"

definition readdir_lines ::
  "string \<Rightarrow> u64 \<Rightarrow> nat \<Rightarrow> fd_entry \<Rightarrow> 'w kernel \<Rightarrow> (u64 \<times> dirent option \<times> 'w kernel) option" where
  "readdir_lines text p i e k =
     (let ls = nonempty_lines [] text in
      if unat (offset e) < length ls then next_entry p i e (line_dirent (offset e) (ls ! unat (offset e))) k
      else Some (0, None, k))"

text \<open>\<open>proc_data h\<close> is the text that the handle \<open>h\<close> leads to, if its pointer is not null.\<close>

definition sys_readdir ::
  "ptr \<Rightarrow> (ptr \<Rightarrow> string option) \<Rightarrow> u64 \<Rightarrow> bool \<Rightarrow> 'w kernel \<Rightarrow> (u64 \<times> dirent option \<times> 'w kernel) option" where
  "sys_readdir procfs proc_data fd has_buf k = do {
     r \<leftarrow> open_entry k (c_int fd);
     case r of
       None \<Rightarrow> Some (minus_one, None, k)
     | Some (p, i, e) \<Rightarrow>
         if \<not> has_buf then Some (minus_one, None, k)
         else do {
           f \<leftarrow> fd_op k e Some;
           case f of
             Some (_, h) \<Rightarrow>
               (case proc_data h of None \<Rightarrow> readdir_node procfs p i e k | Some text \<Rightarrow> readdir_lines text p i e k)
           | None \<Rightarrow> readdir_node procfs p i e k
         }
   }"

text \<open>\<open>getdents64\<close> fills the buffer from the first child on, whatever was read before.\<close>

definition rec_len :: "string \<Rightarrow> u64" where
  "rec_len nm = (of_nat (19 + length nm + 1 + 7)) AND NOT 7"

partial_function (option) dents_from :: "'w vfs \<Rightarrow> u64 \<Rightarrow> u64 \<Rightarrow> u64 \<Rightarrow> ptr option \<Rightarrow> (dirent list \<times> u64) option" where
  "dents_from s limit ino off p =
     (case p of
        None \<Rightarrow> Some ([], off)
      | Some c \<Rightarrow> do {
          nd \<leftarrow> nodes s c;
          nm \<leftarrow> nd_name nd;
          if limit < off + rec_len nm then Some ([], off)
          else do {
            (ds, fin) \<leftarrow> dents_from s limit (ino + 1) (off + rec_len nm) (nd_next nd);
            Some (\<lparr>d_ino = ino, d_off = off + rec_len nm, d_type = (if nd_directory nd then 4 else 8), d_name = nm\<rparr> # ds, fin)
          }
        })"

definition sys_getdents64 :: "u64 \<Rightarrow> bool \<Rightarrow> u64 \<Rightarrow> 'w kernel \<Rightarrow> (u64 \<times> dirent list) option" where
  "sys_getdents64 fd has_buf limit k = do {
     r \<leftarrow> open_entry k (c_int fd);
     case r of
       None \<Rightarrow> Some (minus_one, [])
     | Some (p, i, e) \<Rightarrow>
         (case fd_node e of
            None \<Rightarrow> Some (minus_one, [])
          | Some n \<Rightarrow> do {
              nd \<leftarrow> nodes (fsys k) n;
              if \<not> nd_directory nd then Some (minus_one, [])
              else if \<not> has_buf \<or> limit = 0 then Some (0, [])
              else do { (ds, fin) \<leftarrow> dents_from (fsys k) limit 1 0 (nd_children nd); Some (fin, ds) }
            })
   }"

section \<open>Processes\<close>

definition sys_getpid :: "'w kernel \<Rightarrow> u64 option" where
  "sys_getpid k = (case current_task k of None \<Rightarrow> Some minus_one | Some c \<Rightarrow> map_option t_pid (tasks k c))"

definition sys_getppid :: "'w kernel \<Rightarrow> u64 option" where
  "sys_getppid k =
     (case current_task k of
        None \<Rightarrow> Some 1
      | Some c \<Rightarrow> do {
          cd \<leftarrow> tasks k c;
          case t_parent cd of
            None \<Rightarrow> Some 1
          | Some q \<Rightarrow> do {
              qd \<leftarrow> tasks k q;
              case t_process qd of None \<Rightarrow> Some 1 | Some p \<Rightarrow> map_option p_pid (procs k p)
            }
        })"

text \<open>One round of the loop of \<open>wait\<close>.\<close>

definition sys_wait :: "u64 \<Rightarrow> 'w kernel \<Rightarrow> (outcome \<times> 'w kernel) option" where
  "sys_wait pid k = do {
     t \<leftarrow> sched_find k pid;
     case t of
       None \<Rightarrow> Some (Ret 0, k)
     | Some t \<Rightarrow> do {
         td \<leftarrow> tasks k t;
         if t_state td = DEAD then do { k \<leftarrow> remove_and_destroy (Some t) k; Some (Ret 0, k) }
         else Some (Again_later, k)
       }
   }"

text \<open>
  \<open>kill_from target p k\<close> is the loop of \<open>kill_task_tree(target)\<close> from the task \<open>p\<close> of the queue on, with
  what follows the loop; the recursive call starts at the head of the queue again. The pointer to
  the next task is read before that call, which may have freed the task it points to.
\<close>

definition child_task :: "'w kernel \<Rightarrow> u64 \<Rightarrow> task \<Rightarrow> u64 \<Rightarrow> bool option" where
  "child_task k t td target =
     (if t = target then Some False
      else case t_parent td of
        None \<Rightarrow> Some False
      | Some q \<Rightarrow>
          if q = target then Some True
          else do { qd \<leftarrow> tasks k q; gd \<leftarrow> tasks k target; Some (t_pid qd = t_pid gd) })"

definition kill_one :: "u64 \<Rightarrow> 'w kernel \<Rightarrow> 'w kernel option" where
  "kill_one t k = do {
     td \<leftarrow> tasks k t;
     k \<leftarrow> sys_close_all (t_process td) k;
     td \<leftarrow> tasks k t;
     remove_and_destroy (Some t) (set_task t (td\<lparr>t_state := DEAD\<rparr>) k)
   }"

partial_function (option) kill_from :: "u64 \<Rightarrow> u64 option \<Rightarrow> 'w kernel \<Rightarrow> 'w kernel option" where
  "kill_from target p k =
     (case p of
        None \<Rightarrow> kill_one target k
      | Some t \<Rightarrow> do {
          td \<leftarrow> tasks k t;
          c \<leftarrow> child_task k t td target;
          k \<leftarrow> (if c \<and> t_pid td \<noteq> 0 \<and> t_pid td \<noteq> 1 then kill_from t (head k) k else Some k);
          kill_from target (t_next td) k
        })"

definition kill_task_tree :: "u64 option \<Rightarrow> 'w kernel \<Rightarrow> 'w kernel option" where
  "kill_task_tree target k =
     (case target of
        None \<Rightarrow> Some k
      | Some t \<Rightarrow> do {
          td \<leftarrow> tasks k t;
          if t_pid td = 0 \<or> t_pid td = 1 then Some k else kill_from t (head k) k
        })"

definition sys_kill :: "u64 \<Rightarrow> u64 \<Rightarrow> 'w kernel \<Rightarrow> (outcome \<times> 'w kernel) option" where
  "sys_kill pid sig k =
     (if pid = 0 \<or> pid = 1 then Some (Ret minus_one, k)
      else do {
        own \<leftarrow> (case current_task k of None \<Rightarrow> Some False | Some c \<Rightarrow> map_option (\<lambda>cd. t_pid cd = pid) (tasks k c));
        if own then do {
          (r, k) \<leftarrow> sched_exit (if c_int sig \<noteq> 0 then c_int sig else 9) k;
          Some (Enter r, k)
        }
        else do {
          t \<leftarrow> sched_find k pid;
          case t of
            None \<Rightarrow> Some (Ret minus_one, k)
          | Some t \<Rightarrow> do { k \<leftarrow> kill_task_tree (Some t) k; Some (Ret 0, k) }
        }
      })"

definition sys_exit :: "u64 \<Rightarrow> 'w kernel \<Rightarrow> (outcome \<times> 'w kernel) option" where
  "sys_exit code k = do {
     k \<leftarrow> (case current_task k of None \<Rightarrow> Some k | Some c \<Rightarrow> do { cd \<leftarrow> tasks k c; sys_close_all (t_process cd) k });
     (r, k) \<leftarrow> sched_exit (c_int code) k;
     Some (Enter r, k)
   }"

definition sys_execve :: "string \<Rightarrow> u8 list list \<Rightarrow> u8 list list \<Rightarrow> 'w kernel \<Rightarrow> (outcome \<times> 'w kernel) option" where
  "sys_execve pth argv envp k = do {
     (r, k) \<leftarrow> exec_current pth argv envp k;
     Some (case r of None \<Rightarrow> Ret minus_one | Some _ \<Rightarrow> Enter r, k)
   }"

definition sys_fork :: "'w kernel \<Rightarrow> (u64 \<times> 'w kernel) option" where
  "sys_fork k =
     (case current_task k of
        None \<Rightarrow> Some (minus_one, k)
      | Some c \<Rightarrow> do {
          cd \<leftarrow> tasks k c;
          case t_process cd of
            None \<Rightarrow> Some (minus_one, k)
          | Some p \<Rightarrow> do {
              pd \<leftarrow> procs k p;
              (child, k) \<leftarrow> sched_clone (Some p) (set_proc p (pd\<lparr>main_thread := Some c\<rparr>) k);
              case child of
                None \<Rightarrow> Some (minus_one, k)
              | Some q \<Rightarrow> do {
                  qd \<leftarrow> procs k q;
                  k \<leftarrow> (case main_thread qd of
                          None \<Rightarrow> Some k
                        | Some t \<Rightarrow> do {
                            td \<leftarrow> tasks k t;
                            case t_regs td of
                              None \<Rightarrow> Some k
                            | Some r \<Rightarrow> do { rd \<leftarrow> reg_frames k r; Some (set_frame r (rd\<lparr>rax := 0\<rparr>) k) }
                          });
                  Some (p_pid qd, k)
                }
            }
        })"

section \<open>Memory\<close>

definition MMAP_BASE :: u64 where "MMAP_BASE = 0x50000000"

text \<open>The result of \<open>map_page\<close> is not tested.\<close>

fun mmap_pages :: "nat \<Rightarrow> u64 \<Rightarrow> u64 \<Rightarrow> 'w kernel \<Rightarrow> (bool \<times> 'w kernel) option" where
  "mmap_pages 0 p sp k = Some (True, k)"
| "mmap_pages (Suc n) p sp k = do {
     (page, m) \<leftarrow> paging_alloc_page (mach k);
     let k = k\<lparr>mach := m\<rparr>;
     if page = 0 then Some (False, k)
     else do {
       pd \<leftarrow> procs k p;
       (_, m) \<leftarrow> map_page (table_pml4 m (space_table m sp)) (mmap_next pd) page USER_FLAGS m;
       mmap_pages n p sp (set_proc p (pd\<lparr>mmap_next := mmap_next pd + 0x1000\<rparr>) (k\<lparr>mach := m\<rparr>))
     }
   }"

definition current_space :: "'w kernel \<Rightarrow> (u64 \<times> process \<times> u64) option option" where
  "current_space k = do {
     p \<leftarrow> current_process k;
     case p of
       None \<Rightarrow> Some None
     | Some p \<Rightarrow> do {
         pd \<leftarrow> procs k p;
         Some (Option.bind (p_space pd) (\<lambda>sp. if space_table (mach k) sp = 0 then None else Some (p, pd, sp)))
       }
   }"

definition sys_mmap :: "u64 \<Rightarrow> 'w kernel \<Rightarrow> (u64 \<times> 'w kernel) option" where
  "sys_mmap len k =
     (if len = 0 then Some (0, k)
      else do {
        r \<leftarrow> current_space k;
        case r of
          None \<Rightarrow> Some (0, k)
        | Some (p, pd, sp) \<Rightarrow> do {
            let base = (if mmap_next pd = 0 then MMAP_BASE else mmap_next pd);
            (ok, k) \<leftarrow> mmap_pages (unat ((len + 0xFFF) div 0x1000)) p sp (set_proc p (pd\<lparr>mmap_next := base\<rparr>) k);
            Some (if ok then base else 0, k)
          }
      })"

definition sys_munmap :: "u64 \<Rightarrow> u64" where
  "sys_munmap a = (if a = 0 then minus_one else 0)"

section \<open>Polling and time\<close>

record pollfd =
  pf_fd :: int
  pf_events :: "16 word"
  pf_revents :: "16 word"

definition POLLIN :: "16 word" where "POLLIN = 1"
definition POLLOUT :: "16 word" where "POLLOUT = 4"
definition POLLHUP :: "16 word" where "POLLHUP = 16"
definition POLLNVAL :: "16 word" where "POLLNVAL = 32"

definition wants :: "pollfd \<Rightarrow> 16 word \<Rightarrow> bool" where
  "wants f ev = (pf_events f AND ev \<noteq> 0)"

text \<open>The events of one descriptor, and by how much it raises the number of ready ones.\<close>

definition poll_pipe :: "fd_entry \<Rightarrow> pipe \<Rightarrow> pollfd \<Rightarrow> 16 word \<times> nat" where
  "poll_pipe e q f =
     (let (r1, n1) =
            (if readable e then
               if read_pos q < write_pos q then (if wants f POLLIN then (POLLIN, 1) else (0, 0))
               else if writers q \<le> 0 then (POLLHUP, 1) else (0, 0)
             else (0, 0));
          (r2, n2) =
            (if writable e \<and> write_pos q < PIPE_SIZE \<and> wants f POLLOUT then (POLLOUT, 1) else (0, 0))
      in (r1 OR r2, n1 + n2))"

definition poll_fd :: "'w kernel \<Rightarrow> nat \<Rightarrow> pollfd \<Rightarrow> (16 word \<times> nat) option" where
  "poll_fd k stdin_len f =
     (if pf_fd f = 0 then Some (if wants f POLLIN \<and> 0 < stdin_len then (POLLIN, 1) else (0, 0))
      else if pf_fd f = 1 \<or> pf_fd f = 2 then Some (if wants f POLLOUT then (POLLOUT, 1) else (0, 0))
      else do {
        r \<leftarrow> open_entry k (pf_fd f);
        case r of
          None \<Rightarrow> Some (POLLNVAL, 1)
        | Some (p, i, e) \<Rightarrow>
            if fd_type e = FD_PIPE then do {
              j \<leftarrow> fd_pipe e;
              if j < length (pipes k) then Some (poll_pipe e (pipes k ! j) f) else None
            }
            else Some ((if wants f POLLIN then POLLIN else 0) OR (if wants f POLLOUT then POLLOUT else 0), 1)
      })"

fun poll_all :: "'w kernel \<Rightarrow> nat \<Rightarrow> pollfd list \<Rightarrow> (pollfd list \<times> nat) option" where
  "poll_all k stdin_len [] = Some ([], 0)"
| "poll_all k stdin_len (f # fs) = do {
     (r, n) \<leftarrow> poll_fd k stdin_len f;
     (fs, m) \<leftarrow> poll_all k stdin_len fs;
     Some (f\<lparr>pf_revents := r\<rparr> # fs, n + m)
   }"

text \<open>One round of \<open>poll\<close>, \<open>elapsed\<close> milliseconds after it was called.\<close>

definition sys_poll :: "pollfd list option \<Rightarrow> u64 \<Rightarrow> nat \<Rightarrow> u64 \<Rightarrow> 'w kernel \<Rightarrow> (outcome \<times> pollfd list) option" where
  "sys_poll pfds timeout stdin_len elapsed k =
     (case pfds of
        None \<Rightarrow> Some (Ret 0, [])
      | Some fs \<Rightarrow>
          if fs = [] then Some (Ret 0, [])
          else do {
            (fs, n) \<leftarrow> poll_all k stdin_len fs;
            Some (if 0 < n then Ret (of_nat n)
                  else if c_int timeout = 0 then Ret 0
                  else if 0 < c_int timeout \<and> of_int (c_int timeout) \<le> elapsed then Ret 0
                  else Again_later, fs)
          })"

definition sys_gettimeofday :: "u64 \<Rightarrow> u64 \<times> u64" where
  "sys_gettimeofday ms = (ms div 1000, ms mod 1000 * 1000)"

text \<open>How long \<open>nanosleep\<close> sleeps, in milliseconds; the division of the signed \<open>tv_nsec\<close> truncates.\<close>

definition nanosleep_ms :: "u64 \<Rightarrow> u64 \<Rightarrow> u64" where
  "nanosleep_ms tv_sec tv_nsec =
     (let ns = sint tv_nsec;
          ms = tv_sec * 1000 + of_int (if ns < 0 then - (- ns div 1000000) else ns div 1000000)
      in if ms = 0 \<and> 0 < ns then 1 else ms)"

section \<open>Changing the working directory\<close>

lemma fs_view_links: "same_links (fsys k) (fs_view k)"
  by (simp add: same_links_def fs_view_def)

lemma get_path_walk:
  assumes "vfs_inv s" "root s = Some r" "cs \<noteq> []" "walk s r cs = Some n" "length (slashed cs) < 1024"
  shows "get_path s (Some n) = Some (slashed cs)"
proof -
  have l: "get_path_loop s (Some n) [] = Some (slashed cs)"
    using get_path_loop_follow [OF assms(1,2), of cs n "[]"] assms(4,5) by (simp add: walk_follow)
  moreover have "n \<noteq> r"
  proof
    assume "n = r"
    hence "get_path_loop s (Some n) [] = Some []" using assms(2) by (subst get_path_loop.simps) simp
    thus False using l slashed_Cons [OF assms(3)] by simp
  qed
  ultimately show ?thesis using assms(2) by (simp add: get_path_def)
qed

text \<open>
  \<open>chdir\<close> to an absolute path of ordinary names that leads to a directory succeeds; afterwards
  \<open>getcwd\<close> gives exactly that path, and the calls that take a path look for a relative one below it.
\<close>

theorem chdir_getcwd:
  assumes "vfs_inv (fsys k)" "root (fsys k) = Some r" "0 < stack_frames (fsys k)"
    and "list_all plain_name cs" "cs \<noteq> []" "length (slashed cs) < 1024" "length (slashed cs) < unat n"
    and "walk (fsys k) r cs = Some d" "no_links (fsys k) r cs" "map_option nd_directory (nodes (fsys k) d) = Some True"
    and "current_task k = Some c" "tasks k c = Some td" "t_process td = Some p" "procs k p = Some pd"
  shows "\<exists>k'. sys_chdir (slashed cs) k = Some (0, k') \<and> sys_getcwd True n k' = Some (0, slashed cs) \<and>
    (\<forall>rel. \<not> absolute rel \<longrightarrow> abs_path k' rel = Some (take 255 (slashed cs @ ''/'' @ rel)))"
proof -
  let ?s = "fs_view k"
  let ?k = "set_proc p (pd\<lparr>cwd := Some d\<rparr>) (k\<lparr>fsys := ?s\<rparr>)"
  have f: "nodes ?s = nodes (fsys k)" "root ?s = Some r" "stack_frames ?s = stack_frames (fsys k)"
    using assms(2) by (simp_all add: fs_view_def)
  note same = same_links_vfs_inv(1) [OF fs_view_links assms(1)] same_links_walk [OF fs_view_links assms(1) root_live [OF assms(1,2)]]
  have "vfs_find ?s (slashed cs) = Some (Some d, ?s)"
    using vfs_find_walk [OF same(1) f(2) _ assms(4,5)] assms(3,8,9) f(3) same(2,3) [of cs] by simp
  moreover obtain nd where "nodes (fsys k) d = Some nd" "nd_directory nd" using assms(10) by auto
  ultimately have ch: "sys_chdir (slashed cs) k = Some (0, ?k)" using assms(11-) by (simp add: sys_chdir_def f)
  have g: "get_path ?s (Some d) = Some (slashed cs)"
    using get_path_walk [OF same(1) f(2) assms(5)] assms(6,8) same(2) [of cs] by simp
  have n: "n \<noteq> 0" using assms(7) by auto
  have "sys_getcwd True n ?k = Some (0, slashed cs)"
    using assms(7,11-13) g n by (simp add: sys_getcwd_def set_proc_def)
  moreover have "abs_path ?k rel = Some (take 255 (slashed cs @ ''/'' @ rel))" if "\<not> absolute rel" for rel
  proof -
    have "current_cwd ?k = Some d" using assms(11-13) by (simp add: current_cwd_def current_process_def set_proc_def)
    moreover have "last (slashed cs) \<noteq> CHR ''/''"
      using assms(4,5)
    proof (induction cs)
      case (Cons a cs)
      have "last a \<noteq> CHR ''/''" using Cons.prems(1) by (metis last_in_set list.pred_inject(2) plain_name_def)
      thus ?case using Cons by (cases cs) (auto simp: plain_name_def last_ConsR)
    qed simp
    ultimately show ?thesis using that g slashed_Cons [OF assms(5)] by (simp add: abs_path_def set_proc_def)
  qed
  ultimately show ?thesis using ch by blast
qed

section \<open>Reading a directory\<close>

lemma nth_child_chain:
  assumes "chain (nodes s) p cs"
  shows "nth_child s n p = Some (if n < length cs then Inl (cs ! n) else Inr (n - length cs))"
  using assms
proof (induction s n p arbitrary: cs rule: nth_child.induct)
  case (1 s n) thus ?case by (cases cs) auto
next
  case (2 s c) thus ?case by (cases cs) auto
next
  case (3 s n c)
  obtain nd ds where "cs = c # ds" "nodes s c = Some nd" "chain (nodes s) (nd_next nd) ds"
    using "3.prems" by (cases cs) (auto split: option.splits)
  thus ?case using "3.IH" [of nd ds] by simp
qed

text \<open>A descriptor of a directory, and the kernel with another offset in it.\<close>

definition dir_fd :: "'w kernel \<Rightarrow> u64 \<Rightarrow> u64 \<Rightarrow> nat \<Rightarrow> fd_entry \<Rightarrow> ptr \<Rightarrow> bool" where
  "dir_fd k fd p i e n \<longleftrightarrow> open_entry k (c_int fd) = Some (Some (p, i, e)) \<and> fd_node e = Some n"

lemma set_fd_open:
  assumes "open_entry k fd = Some (Some (p, i, e))" "fd_type e' \<noteq> FD_NONE"
  shows "\<exists>k'. set_fd p i e' k = Some k' \<and> open_entry k' fd = Some (Some (p, i, e')) \<and> fsys k' = fsys k"
proof -
  have g: "get_fd_entry k fd = Some (Some (p, i, e))"
    using assms(1) by (auto simp: open_entry_def split: option.splits if_splits)
  have r: "\<not> (fd < 0 \<or> MAX_FDS \<le> fd)" using g by (auto simp: get_fd_entry_def split: if_splits)
  obtain q where c0: "current_process k = Some q" using g r by (auto simp: get_fd_entry_def bind_eq_Some_conv)
  obtain q' where c: "current_process k = Some (Some q')" using g r c0 by (cases q) (auto simp: get_fd_entry_def)
  then obtain pd where pd: "q' = p" "procs k p = Some pd" "i = nat fd" "nat fd < length (fds pd)"
    using g r by (auto simp: get_fd_entry_def bind_eq_Some_conv split: if_splits)
  let ?k = "set_proc p (pd\<lparr>fds := (fds pd)[i := e']\<rparr>) k"
  have "current_process ?k = Some (Some p)" using c pd(1)
    by (cases "current_task k") (simp_all add: current_process_def set_proc_def)
  hence "open_entry ?k fd = Some (Some (p, i, e'))"
    using r pd assms(2) by (simp add: open_entry_def get_fd_entry_def set_proc_def)
  thus ?thesis using pd(2) by (simp add: set_fd_def) (simp add: set_proc_def)
qed

fun readdir_calls :: "ptr \<Rightarrow> (ptr \<Rightarrow> string option) \<Rightarrow> u64 \<Rightarrow> nat \<Rightarrow> 'w kernel \<Rightarrow> (dirent option list \<times> 'w kernel) option" where
  "readdir_calls procfs proc_data fd 0 k = Some ([], k)"
| "readdir_calls procfs proc_data fd (Suc n) k = do {
     (r, d, k) \<leftarrow> sys_readdir procfs proc_data fd True k;
     (ds, k) \<leftarrow> readdir_calls procfs proc_data fd n k;
     Some (d # ds, k)
   }"

lemma sys_readdir_dir:
  assumes "open_entry k (c_int fd) = Some (Some (p, i, e))" "fd_node e = Some n"
  shows "sys_readdir procfs proc_data fd True k = readdir_node procfs p i e k"
  using assms by (simp add: sys_readdir_def fd_op_def split: option.split)

lemma readdir_calls_chain:
  assumes "open_entry k (c_int fd) = Some (Some (p, i, e))" "fd_node e = Some n" "nodes (fsys k) n = Some nd" "nd_directory nd"
    and "chain (nodes (fsys k)) (nd_children nd) cs" "\<forall>c \<in> set cs. node_name (fsys k) c \<noteq> None"
    and "unat (offset e) + m \<le> length cs" "length cs < 2 ^ 64"
  shows "\<exists>ds k' e'. readdir_calls procfs proc_data fd m k = Some (ds, k') \<and> open_entry k' (c_int fd) = Some (Some (p, i, e')) \<and>
    fd_node e' = Some n \<and> unat (offset e') = unat (offset e) + m \<and> fsys k' = fsys k \<and>
    map (map_option d_name) ds = map (\<lambda>c. map_option (take 255) (node_name (fsys k) c)) (take m (drop (unat (offset e)) cs))"
  using assms
proof (induction m arbitrary: k e)
  case (Suc m)
  let ?o = "unat (offset e)"
  have o: "?o < length cs" using Suc.prems(7) by simp
  have c: "nth_child (fsys k) ?o (nd_children nd) = Some (Inl (cs ! ?o))"
    using nth_child_chain [OF Suc.prems(5), of ?o] o by simp
  obtain cd nm where cd: "nodes (fsys k) (cs ! ?o) = Some cd" "nd_name cd = Some nm"
    using Suc.prems(6) o nth_mem [OF o] by (fastforce simp: node_name_def bind_eq_Some_conv)
  let ?e = "e\<lparr>offset := offset e + 1\<rparr>"
  have t: "fd_type ?e \<noteq> FD_NONE" using Suc.prems(1) by (auto simp: open_entry_def split: option.splits if_splits)
  obtain k1 where k1: "set_fd p i ?e k = Some k1" "open_entry k1 (c_int fd) = Some (Some (p, i, ?e))" "fsys k1 = fsys k"
    using set_fd_open [OF Suc.prems(1) t] by blast
  obtain d where d: "sys_readdir procfs proc_data fd True k = Some (1, Some d, k1)" "d_name d = take 255 nm"
    using sys_readdir_dir [OF Suc.prems(1,2)] Suc.prems(2-4) c cd k1(1)
    by (simp add: readdir_node_def node_dirent_def next_entry_def)
  have off: "unat (offset e + 1) = Suc ?o"
    using unat_add_u64 [of "offset e" 1] o Suc.prems(8) by simp
  obtain ds k' e' where r: "readdir_calls procfs proc_data fd m k1 = Some (ds, k')" "open_entry k' (c_int fd) = Some (Some (p, i, e'))"
    "fd_node e' = Some n" "unat (offset e') = Suc ?o + m" "fsys k' = fsys k"
    "map (map_option d_name) ds = map (\<lambda>c. map_option (take 255) (node_name (fsys k) c)) (take m (drop (Suc ?o) cs))"
    using Suc.IH [OF k1(2)] Suc.prems k1(3) off by auto
  have "take (Suc m) (drop ?o cs) = cs ! ?o # take m (drop (Suc ?o) cs)" using o by (simp add: Cons_nth_drop_Suc [symmetric])
  thus ?case using d r cd by (simp add: node_name_def)
qed simp

text \<open>
  C30: reading a directory. On a descriptor of a directory that stands at its start, as many calls of
  \<open>readdir\<close> as the directory has entries return the names of all of them, each once and in the order
  of the list of children (cut to 255 characters); the next call returns 0, unless the directory is
  the one of the processes.
\<close>

theorem readdir_lists_all:
  assumes "open_entry k (c_int fd) = Some (Some (p, i, e))" "fd_node e = Some n" "offset e = 0"
    and "nodes (fsys k) n = Some nd" "nd_directory nd" "nd_filesystem nd \<noteq> Some procfs" "nd_name nd \<noteq> Some ''proc''"
    and "chain (nodes (fsys k)) (nd_children nd) cs" "\<forall>c \<in> set cs. node_name (fsys k) c \<noteq> None" "length cs < 2 ^ 64"
  shows "\<exists>ds k'. readdir_calls procfs proc_data fd (length cs) k = Some (ds, k') \<and>
    map (map_option d_name) ds = map (\<lambda>c. map_option (take 255) (node_name (fsys k) c)) cs \<and>
    sys_readdir procfs proc_data fd True k' = Some (0, None, k')"
proof -
  obtain ds k' e' where r: "readdir_calls procfs proc_data fd (length cs) k = Some (ds, k')" "open_entry k' (c_int fd) = Some (Some (p, i, e'))"
    "fd_node e' = Some n" "unat (offset e') = length cs" "fsys k' = fsys k"
    "map (map_option d_name) ds = map (\<lambda>c. map_option (take 255) (node_name (fsys k) c)) cs"
    using readdir_calls_chain [OF assms(1,2,4,5,8,9), of "length cs" procfs proc_data] assms(3,10) by auto
  have "nth_child (fsys k) (unat (offset e')) (nd_children nd) = Some (Inr 0)"
    using nth_child_chain [OF assms(8)] r(4) by simp
  hence "sys_readdir procfs proc_data fd True k' = Some (0, None, k')"
    using sys_readdir_dir [OF r(2,3)] r(3,5) assms(4-7) by (simp add: readdir_node_def)
  thus ?thesis using r by blast
qed

section \<open>Examples\<close>

text \<open>The example file system with a directory \<open>d\<close>, and a kernel whose descriptor 3 is its root.\<close>

definition dir_demo :: "unit vfs" where
  "dir_demo = vfs_demo\<lparr>nodes := (nodes vfs_demo)(0 \<mapsto> demo_node ''/'' True VFS_DIR None None (Some 6) None,
      6 \<mapsto> demo_node ''d'' True VFS_DIR (Some 0) (Some 4) None None)\<rparr>"

definition dir_kernel :: "unit kernel" where
  "dir_kernel = (kernel_demo READY READY)\<lparr>fsys := dir_demo,
     procs := [KERNEL_PROCESS \<mapsto> empty_process\<lparr>fds := (fds empty_process)[3 := empty_fd\<lparr>fd_type := FD_FILE, fd_node := Some 0\<rparr>]\<rparr>]\<rparr>"

lemma dir_demo_inv: "vfs_inv dir_demo"
proof -
  have "tree_ok (nodes dir_demo) 0 (clock dir_demo) ((\<lambda>_. [])(0 := [6, 4, 2]))"
    by (auto simp: tree_ok_def dir_demo_def vfs_demo_def node_ok_def demo_node_def child_of_def split: if_splits)
  thus ?thesis by (auto simp: vfs_inv_def tree_of_def dir_demo_def vfs_demo_def)
qed

lemma dir_kernel_field:
  "fsys dir_kernel = dir_demo" "current_task dir_kernel = Some KERNEL_TASK"
  "tasks dir_kernel KERNEL_TASK = Some (demo_task 0 RUNNING (Some KERNEL_PROCESS) None)"
  "procs dir_kernel KERNEL_PROCESS = Some (empty_process\<lparr>fds := (fds empty_process)[3 := empty_fd\<lparr>fd_type := FD_FILE, fd_node := Some 0\<rparr>]\<rparr>)"
  "t_process (demo_task 0 RUNNING (Some KERNEL_PROCESS) None) = Some KERNEL_PROCESS"
  by (simp_all add: dir_kernel_def kernel_demo_def KERNEL_TASK_def demo_task_def)

lemma dir_demo_field: "root dir_demo = Some 0" "stack_frames dir_demo = 16"
  "nodes dir_demo 6 = Some (demo_node ''d'' True VFS_DIR (Some 0) (Some 4) None None)"
  "nodes dir_demo 0 = Some (demo_node ''/'' True VFS_DIR None None (Some 6) None)"
  "walk dir_demo 0 [''d''] = Some 6" "no_links dir_demo 0 [''d'']"
proof -
  show f: "root dir_demo = Some 0" "stack_frames dir_demo = 16"
    "nodes dir_demo 6 = Some (demo_node ''d'' True VFS_DIR (Some 0) (Some 4) None None)"
    "nodes dir_demo 0 = Some (demo_node ''/'' True VFS_DIR None None (Some 6) None)" by (simp_all add: dir_demo_def vfs_demo_def)
  have "find_in dir_demo 0 ''d'' = Some (Some 6)"
    by (simp add: find_in_def f demo_node_def find_from.simps)
  hence "entry dir_demo 0 ''d'' = Some 6" by (simp add: entry_def)
  thus "walk dir_demo 0 [''d''] = Some 6" "no_links dir_demo 0 [''d'']" by (simp_all add: is_link_def f demo_node_def)
qed

theorem chdir_getcwd_witness:
  "\<exists>k'. sys_chdir ''/d'' dir_kernel = Some (0, k') \<and> sys_getcwd True 64 k' = Some (0, ''/d'') \<and>
    abs_path k' ''x'' = Some ''/d/x''"
proof -
  have "\<exists>k'. sys_chdir (slashed [''d'']) dir_kernel = Some (0, k') \<and> sys_getcwd True 64 k' = Some (0, slashed [''d'']) \<and>
    (\<forall>rel. \<not> absolute rel \<longrightarrow> abs_path k' rel = Some (take 255 (slashed [''d''] @ ''/'' @ rel)))"
    by (rule chdir_getcwd [OF _ _ _ _ _ _ _ _ _ _ dir_kernel_field(2,3,5,4), where r = 0 and d = 6])
      (simp_all add: dir_kernel_field dir_demo_inv dir_demo_field plain_name_def demo_node_def del: walk.simps no_links.simps)
  thus ?thesis by (auto simp: absolute_def)
qed

theorem readdir_lists_all_witness:
  "\<exists>ds k'. readdir_calls 999 (\<lambda>_. None) 3 3 dir_kernel = Some (ds, k') \<and>
    map (map_option d_name) ds = [Some ''d'', Some ''l'', Some ''a''] \<and>
    sys_readdir 999 (\<lambda>_. None) 3 True k' = Some (0, None, k')"
proof -
  let ?e = "empty_fd\<lparr>fd_type := FD_FILE, fd_node := Some 0\<rparr>"
  have "current_process dir_kernel = Some (Some KERNEL_PROCESS)" by (simp add: current_process_def dir_kernel_field)
  hence o: "open_entry dir_kernel (c_int 3) = Some (Some (KERNEL_PROCESS, 3, ?e))"
    by (simp add: open_entry_def get_fd_entry_def MAX_FDS_def dir_kernel_field c_int_def empty_process_def)
  have n: "nodes dir_demo 4 = Some (demo_node ''l'' False VFS_SYMLINK (Some 0) (Some 2) None (Some ''/l''))"
    "nodes dir_demo 2 = Some (demo_node ''a'' False VFS_FILE (Some 0) None None None)" by (simp_all add: dir_demo_def vfs_demo_def)
  have "\<exists>ds k'. readdir_calls 999 (\<lambda>_. None) 3 (length [6, 4, 2 :: nat]) dir_kernel = Some (ds, k') \<and>
      map (map_option d_name) ds = map (\<lambda>c. map_option (take 255) (node_name (fsys dir_kernel) c)) [6, 4, 2] \<and>
      sys_readdir 999 (\<lambda>_. None) 3 True k' = Some (0, None, k')"
    by (rule readdir_lists_all [OF o _ _ dir_demo_field(4) [folded dir_kernel_field(1)]])
      (simp_all add: dir_kernel_field dir_demo_field n demo_node_def node_name_def empty_fd_def)
  thus ?thesis by (simp add: dir_kernel_field dir_demo_field n node_name_def demo_node_def numeral_3_eq_3)
qed

end
