(* ===== verification/Byte_Paths.thy ===== *)
theory Byte_Paths
  imports LTOS_Prelude
begin

unbundle bit_operations_syntax

text \<open>
  Paths and the results of reads as lists of bytes, for the statements about the file systems on disks:
  a path of plain components joined by slashes, the pieces that successive reads cut off a file, and
  numbers of four bytes, the least significant first.
\<close>

definition plain_component :: "u8 list \<Rightarrow> bool" where
  "plain_component n \<longleftrightarrow> n \<noteq> [] \<and> 47 \<notin> set n \<and> length n \<le> 255"

fun slash_join :: "u8 list list \<Rightarrow> u8 list" where
  "slash_join [] = []"
| "slash_join [n] = n"
| "slash_join (n # m # ns) = n @ 47 # slash_join (m # ns)"

fun slices :: "nat list \<Rightarrow> 'a list \<Rightarrow> 'a list list" where
  "slices [] xs = []"
| "slices (n # ns) xs = take n xs # slices ns (drop n xs)"

lemma before_slash:
  "47 \<notin> set n \<Longrightarrow> takeWhile (\<lambda>x. x \<noteq> 47) (n @ 47 # xs) = n \<and> dropWhile (\<lambda>x. x \<noteq> 47) (n @ 47 # xs) = 47 # (xs :: u8 list)"
  by (induction n) auto

lemma slash_join_front: "list_all plain_component ns \<Longrightarrow> ns \<noteq> [] \<Longrightarrow> \<exists>c cs. slash_join ns = c # cs \<and> c \<noteq> 47"
proof (induction ns rule: slash_join.induct)
  case (2 n) thus ?case by (cases n) (auto simp: plain_component_def)
next
  case (3 n m ns) thus ?case by (cases n) (auto simp: plain_component_def)
qed simp

definition le32 :: "u32 \<Rightarrow> u8 list" where
  "le32 v = [ucast v, ucast (drop_bit 8 v), ucast (drop_bit 16 v), ucast (drop_bit 24 v)]"

lemma le32_bits: "ucast (ucast (ucast (v::u32) :: u8) OR push_bit 8 (ucast (ucast (drop_bit 8 v) :: u8)) OR
    push_bit 16 (ucast (ucast (drop_bit 16 v) :: u8)) OR push_bit 24 (ucast (ucast (drop_bit 24 v) :: u8)) :: u64) = v"
proof (rule bit_word_eqI)
  fix n assume n: "n < LENGTH(32)"
  consider "n < 8" | "8 \<le> n" "n < 16" | "16 \<le> n" "n < 24" | "24 \<le> n" by linarith
  thus "bit (ucast (ucast (ucast (v::u32) :: u8) OR push_bit 8 (ucast (ucast (drop_bit 8 v) :: u8)) OR
    push_bit 16 (ucast (ucast (drop_bit 16 v) :: u8)) OR push_bit 24 (ucast (ucast (drop_bit 24 v) :: u8)) :: u64) :: u32) n = bit v n"
    using n by cases (auto simp: bit_simps)
qed

lemma read32_le32:
  assumes "bytes_at m p 4 = le32 v"
  shows "read32 m p = v"
proof -
  have "[m p, m (p + 1), m (p + 2), m (p + 3)] = le32 v"
    using assms by (simp add: bytes_at_def upt_rec numeral_eq_Suc)
  thus ?thesis using le32_bits [of v] by (simp add: read32_def load_4 le32_def)
qed

lemma unat_ucast_u32: "unat (ucast (x :: u32) :: u64) = unat x"
proof -
  have "unat x < 2 ^ 32" using unsigned_less [of x] by simp
  thus ?thesis by (simp add: unsigned_ucast_eq take_bit_nat_eq_self)
qed

end
