(* ===== verification/Fat32.thy ===== *)
theory Fat32
  imports Byte_Paths
begin

unbundle bit_operations_syntax

text \<open>
  The FAT32 file system, \<open>src/fs/fat32.cpp\<close>. A volume is an image in memory (\<open>disk_image\<close> is not
  null) or a block device behind two callbacks. The buffers that cache one cluster and one sector of
  a device, and the image, lie in the memory \<open>fmem\<close>, and the functions return addresses in it, so
  that a directory entry that a handle points to is overwritten when its buffer is filled anew.

  The callbacks are parameters: they work on the memory and on a state \<open>fworld\<close> of their own. The
  results of \<open>kmalloc\<close> are given by \<open>alloc_at\<close>, in the order of the calls; 0 is the null pointer.
  The state is that of one volume; \<open>main_vol\<close>, the volume that \<open>open\<close> takes when it is given none, is
  an argument of \<open>fat32_open\<close>. The messages to the serial port are left out.
\<close>

section \<open>Data\<close>

text \<open>The fields of the boot sector that the code reads.\<close>

record bpb32 =
  bytes_per_sector :: u16
  sectors_per_cluster :: u8
  reserved_sector_count :: u16
  num_fats :: u8
  total_sectors_32 :: u32
  fat_size_32 :: u32
  bpb_root_cluster :: u32

definition bpb_at :: "mem \<Rightarrow> u64 \<Rightarrow> bpb32" where
  "bpb_at m a =
     \<lparr>bytes_per_sector = read16 m (a + 11), sectors_per_cluster = m (a + 13),
      reserved_sector_count = read16 m (a + 14), num_fats = m (a + 16),
      total_sectors_32 = read32 m (a + 32), fat_size_32 = read32 m (a + 36),
      bpb_root_cluster = read32 m (a + 44)\<rparr>"

record 'w fat32 =
  backend_read :: "(u64 \<Rightarrow> u32 \<Rightarrow> u64 \<Rightarrow> mem \<Rightarrow> 'w \<Rightarrow> bool \<times> mem \<times> 'w) option"
  backend_write :: "(u64 \<Rightarrow> u32 \<Rightarrow> u64 \<Rightarrow> mem \<Rightarrow> 'w \<Rightarrow> bool \<times> 'w) option"
  disk_image :: u64
  disk_size :: u64
  bpb :: bpb32
  bytes_per_cluster :: u32
  fat_start_sector :: u32
  data_start_sector :: u32
  root_cluster :: u32
  cached_cluster :: u32
  cluster_dirty :: bool
  cluster_buf :: u64
  cached_sector :: u32
  sector_dirty :: bool
  sector_buf :: u64
  fmem :: mem
  fworld :: 'w
  alloc_at :: "nat \<Rightarrow> u64"
  allocs :: nat

record fat_handle =
  first_cluster :: u32
  curr_cluster :: u32
  file_size :: u32
  h_offset :: u64
  is_dir :: bool
  dir_entry :: u64

text \<open>A directory entry has 32 bytes: the name, the attributes, the two halves of the first cluster, the size.\<close>

definition SIZEOF_ENTRY :: u64 where "SIZEOF_ENTRY = 32"

definition entry_name :: "mem \<Rightarrow> u64 \<Rightarrow> u8 list" where "entry_name m e = bytes_at m e 11"
definition entry_attr :: "mem \<Rightarrow> u64 \<Rightarrow> u8" where "entry_attr m e = m (e + 11)"
definition entry_size :: "mem \<Rightarrow> u64 \<Rightarrow> u32" where "entry_size m e = read32 m (e + 28)"

definition entry_cluster :: "mem \<Rightarrow> u64 \<Rightarrow> u32" where
  "entry_cluster m e = push_bit 16 (ucast (read16 m (e + 20))) OR ucast (read16 m (e + 26))"

definition ATTR_VOLUME_ID :: u8 where "ATTR_VOLUME_ID = 0x08"
definition ATTR_DIRECTORY :: u8 where "ATTR_DIRECTORY = 0x10"
definition ATTR_LONG_NAME :: u8 where "ATTR_LONG_NAME = 0x0F"

definition store32 :: "mem \<Rightarrow> u64 \<Rightarrow> u32 \<Rightarrow> mem" where "store32 m a v = store 4 m a (ucast v)"
definition store16 :: "mem \<Rightarrow> u64 \<Rightarrow> u16 \<Rightarrow> mem" where "store16 m a v = store 2 m a (ucast v)"

definition fat_kmalloc :: "'w fat32 \<Rightarrow> u64 \<times> 'w fat32" where
  "fat_kmalloc s = (alloc_at s (allocs s), s\<lparr>allocs := Suc (allocs s)\<rparr>)"

section \<open>Sectors and clusters\<close>

definition sector_size :: "'w fat32 \<Rightarrow> u32" where "sector_size s = ucast (bytes_per_sector (bpb s))"
definition cluster_sectors :: "'w fat32 \<Rightarrow> u32" where "cluster_sectors s = ucast (sectors_per_cluster (bpb s))"

definition cluster_sector :: "'w fat32 \<Rightarrow> u32 \<Rightarrow> u32" where
  "cluster_sector s c = data_start_sector s + (c - 2) * cluster_sectors s"

definition ram_sector_ptr :: "'w fat32 \<Rightarrow> u32 \<Rightarrow> u64" where
  "ram_sector_ptr s sector =
     (let off = ucast sector * ucast (bytes_per_sector (bpb s))
      in if disk_size s \<le> off then 0 else disk_image s + off)"

definition read_sectors :: "u32 \<Rightarrow> u32 \<Rightarrow> u64 \<Rightarrow> 'w fat32 \<Rightarrow> bool \<times> 'w fat32" where
  "read_sectors sector n buf s =
     (case backend_read s of
        None \<Rightarrow> (False, s)
      | Some rd \<Rightarrow>
          let (ok, m, w) = rd (ucast sector) n buf (fmem s) (fworld s)
          in (ok, s\<lparr>fmem := m, fworld := w\<rparr>))"

definition write_sectors :: "u32 \<Rightarrow> u32 \<Rightarrow> u64 \<Rightarrow> 'w fat32 \<Rightarrow> bool \<times> 'w fat32" where
  "write_sectors sector n buf s =
     (case backend_write s of
        None \<Rightarrow> (False, s)
      | Some wr \<Rightarrow>
          let (ok, w) = wr (ucast sector) n buf (fmem s) (fworld s)
          in (ok, s\<lparr>fworld := w\<rparr>))"

definition flush_sector :: "'w fat32 \<Rightarrow> 'w fat32" where
  "flush_sector s =
     (if sector_buf s \<noteq> 0 \<and> sector_dirty s \<and> cached_sector s \<noteq> -1
      then (snd (write_sectors (cached_sector s) 1 (sector_buf s) s))\<lparr>sector_dirty := False\<rparr>
      else s)"

definition cached_sector_ptr :: "u32 \<Rightarrow> 'w fat32 \<Rightarrow> u64 \<times> 'w fat32" where
  "cached_sector_ptr sector s =
     (if sector = cached_sector s \<and> sector_buf s \<noteq> 0 then (sector_buf s, s\<lparr>sector_dirty := False\<rparr>)
      else
        let s = flush_sector s;
            s = (if sector_buf s = 0 then let (p, s) = fat_kmalloc s in s\<lparr>sector_buf := p\<rparr> else s)
        in if sector_buf s = 0 then (0, s)
           else
             let (ok, s) = read_sectors sector 1 (sector_buf s) s
             in if ok then (sector_buf s, s\<lparr>cached_sector := sector, sector_dirty := False\<rparr>) else (0, s))"

definition flush_cluster :: "'w fat32 \<Rightarrow> 'w fat32" where
  "flush_cluster s =
     (if cluster_buf s \<noteq> 0 \<and> cluster_dirty s \<and> 2 \<le> cached_cluster s
      then (snd (write_sectors (cluster_sector s (cached_cluster s)) (cluster_sectors s) (cluster_buf s) s))
             \<lparr>cluster_dirty := False\<rparr>
      else s)"

definition cached_cluster_ptr :: "u32 \<Rightarrow> 'w fat32 \<Rightarrow> u64 \<times> 'w fat32" where
  "cached_cluster_ptr c s =
     (if c < 2 then (0, s)
      else if c = cached_cluster s \<and> cluster_buf s \<noteq> 0 then (cluster_buf s, s\<lparr>cluster_dirty := False\<rparr>)
      else
        let s = flush_cluster s;
            s = (if cluster_buf s = 0 then let (p, s) = fat_kmalloc s in s\<lparr>cluster_buf := p\<rparr> else s)
        in if cluster_buf s = 0 then (0, s)
           else
             let (ok, s) = read_sectors (cluster_sector s c) (cluster_sectors s) (cluster_buf s) s
             in if ok then (cluster_buf s, s\<lparr>cached_cluster := c, cluster_dirty := False\<rparr>) else (0, s))"

definition get_sector_ptr :: "u32 \<Rightarrow> 'w fat32 \<Rightarrow> u64 \<times> 'w fat32" where
  "get_sector_ptr sector s =
     (if disk_image s \<noteq> 0 then (ram_sector_ptr s sector, s)
      else if sector < data_start_sector s then cached_sector_ptr sector s
      else
        let rel = sector - data_start_sector s;
            off = (rel mod cluster_sectors s) * sector_size s;
            (p, s) = cached_cluster_ptr (rel div cluster_sectors s + 2) s
        in if p = 0 then (0, s) else (p + ucast off, s))"

definition get_cluster_ptr :: "u32 \<Rightarrow> 'w fat32 \<Rightarrow> u64 \<times> 'w fat32" where
  "get_cluster_ptr c s =
     (if c < 2 then (0, s)
      else if disk_image s \<noteq> 0 then (ram_sector_ptr s (cluster_sector s c), s)
      else cached_cluster_ptr c s)"

section \<open>The file allocation table\<close>

definition END_OF_CHAIN :: u32 where "END_OF_CHAIN = 0x0FFFFFF8"

definition fat_position :: "'w fat32 \<Rightarrow> u32 \<Rightarrow> u32 \<times> u64" where
  "fat_position s c = (fat_start_sector s + (c * 4) div sector_size s, ucast ((c * 4) mod sector_size s))"

definition read_fat :: "u32 \<Rightarrow> 'w fat32 \<Rightarrow> u32 \<times> 'w fat32" where
  "read_fat c s =
     (let (sector, off) = fat_position s c; (p, s) = get_sector_ptr sector s
      in if p = 0 then (0x0FFFFFFF, s) else (read32 (fmem s) (p + off) AND 0x0FFFFFFF, s))"

text \<open>One of the copies of the table; only the first one is written back at once.\<close>

definition write_fat_copy :: "u32 \<Rightarrow> u32 \<Rightarrow> u32 \<Rightarrow> 'w fat32 \<Rightarrow> 'w fat32" where
  "write_fat_copy c v f s =
     (let sector = fat_start_sector s + f * fat_size_32 (bpb s) + (c * 4) div sector_size s;
          off = ucast ((c * 4) mod sector_size s);
          (p, s) = get_sector_ptr sector s
      in if p = 0 then s
         else
           let old = read32 (fmem s) (p + off);
               s = s\<lparr>fmem := store32 (fmem s) (p + off) ((old AND 0xF0000000) OR (v AND 0x0FFFFFFF))\<rparr>
           in if disk_image s \<noteq> 0 then s
              else
                let s = (if cached_sector s = sector then s\<lparr>sector_dirty := True\<rparr> else s)
                in if f = 0 then snd (write_sectors sector 1 p s) else s)"

definition write_fat :: "u32 \<Rightarrow> u32 \<Rightarrow> 'w fat32 \<Rightarrow> 'w fat32" where
  "write_fat c v s = fold (\<lambda>f. write_fat_copy c v (of_nat f)) [0..<unat (num_fats (bpb s))] s"

fun alloc_from :: "u32 list \<Rightarrow> 'w fat32 \<Rightarrow> u32 \<times> 'w fat32" where
  "alloc_from [] s = (0, s)"
| "alloc_from (c # cs) s =
     (let (v, s) = read_fat c s
      in if v = 0 then
           let s = write_fat c 0x0FFFFFFF s; (p, s) = get_cluster_ptr c s
           in (c, if p = 0 then s else s\<lparr>fmem := fill (fmem s) p 0 (unat (bytes_per_cluster s))\<rparr>)
         else alloc_from cs s)"

definition alloc_cluster :: "'w fat32 \<Rightarrow> u32 \<times> 'w fat32" where
  "alloc_cluster s =
     (let n = (total_sectors_32 (bpb s) - data_start_sector s) div cluster_sectors s
      in alloc_from (map of_nat [2..<unat n]) s)"

section \<open>Directories\<close>

definition upcase :: "u8 \<Rightarrow> u8" where
  "upcase c = (if 97 \<le> c \<and> c \<le> 122 then c - 32 else c)"

definition pad_to :: "nat \<Rightarrow> u8 list \<Rightarrow> u8 list" where
  "pad_to n xs = take n xs @ replicate (n - length xs) 32"

text \<open>The name before the first dot, and what follows that dot.\<close>

definition filename_to_short :: "u8 list \<Rightarrow> u8 list" where
  "filename_to_short name =
     pad_to 8 (map upcase (takeWhile (\<lambda>c. c \<noteq> 46) name)) @
     pad_to 3 (map upcase (tl (dropWhile (\<lambda>c. c \<noteq> 46) name)))"

text \<open>
  The entries of one cluster, given by their addresses: \<open>Some None\<close> if the end of the directory is
  reached, \<open>Some (Some e)\<close> if the name is found, \<open>None\<close> if the search goes on.
\<close>

fun scan_entries :: "mem \<Rightarrow> u8 list \<Rightarrow> u64 list \<Rightarrow> u64 option option" where
  "scan_entries m short [] = None"
| "scan_entries m short (e # es) =
     (if m e = 0 then Some None
      else if m e = 0xE5 \<or> entry_attr m e = ATTR_LONG_NAME then scan_entries m short es
      else if entry_name m e = short then Some (Some e)
      else scan_entries m short es)"

definition entry_addresses :: "'w fat32 \<Rightarrow> u64 \<Rightarrow> u64 list" where
  "entry_addresses s p = map (\<lambda>i. p + of_nat i * SIZEOF_ENTRY) [0..<unat (bytes_per_cluster s) div 32]"

text \<open>The search follows the chain of the directory; \<open>None\<close> if the chain never ends.\<close>

partial_function (option) find_in_chain :: "u8 list \<Rightarrow> u32 \<Rightarrow> 'w fat32 \<Rightarrow> (u64 \<times> 'w fat32) option" where
  "find_in_chain short cl s =
     (if 2 \<le> cl \<and> cl < END_OF_CHAIN then
        let (p, s) = get_cluster_ptr cl s
        in if p = 0 then Some (0, s)
           else (case scan_entries (fmem s) short (entry_addresses s p) of
                   Some None \<Rightarrow> Some (0, s)
                 | Some (Some e) \<Rightarrow> Some (e, s)
                 | None \<Rightarrow> let (c, s) = read_fat cl s in find_in_chain short c s)
      else Some (0, s))"

definition find_entry_in_dir :: "u32 \<Rightarrow> u8 list \<Rightarrow> 'w fat32 \<Rightarrow> (u64 \<times> 'w fat32) option" where
  "find_entry_in_dir c name s = find_in_chain (filename_to_short name) c s"

lemma skip_shorter: "length (dropWhile P (tl (dropWhile Q xs))) < length xs" if "dropWhile Q xs \<noteq> []"
proof -
  have "length (dropWhile P (tl (dropWhile Q xs))) \<le> length (tl (dropWhile Q xs))" by (rule length_dropWhile_le)
  also have "\<dots> < length (dropWhile Q xs)" using that by (cases "dropWhile Q xs") auto
  also have "\<dots> \<le> length xs" by (rule length_dropWhile_le)
  finally show ?thesis .
qed

text \<open>The components of a path are cut at 255 bytes; a component before a slash has to be a directory.\<close>

function find_components :: "u8 list \<Rightarrow> u32 \<Rightarrow> u64 \<Rightarrow> 'w fat32 \<Rightarrow> (u64 \<times> 'w fat32) option" where
  "find_components pth cl e s =
     (if pth = [] then Some (e, s)
      else do {
        (e, s) \<leftarrow> find_entry_in_dir cl (take 255 (takeWhile (\<lambda>c. c \<noteq> 47) pth)) s;
        if e = 0 then Some (0, s)
        else if dropWhile (\<lambda>c. c \<noteq> 47) pth = [] then Some (e, s)
        else if entry_attr (fmem s) e AND ATTR_DIRECTORY = 0 then Some (0, s)
        else find_components (dropWhile (\<lambda>c. c = 47) (tl (dropWhile (\<lambda>c. c \<noteq> 47) pth)))
               (entry_cluster (fmem s) e) e s
      })"
  by pat_completeness auto
termination by (relation "measure (\<lambda>(pth, _). length pth)") (simp, simp, rule skip_shorter, simp)

definition find_path :: "u8 list option \<Rightarrow> 'w fat32 \<Rightarrow> (u64 \<times> 'w fat32) option" where
  "find_path pth s =
     (case pth of
        None \<Rightarrow> Some (0, s)
      | Some pth \<Rightarrow>
          if pth = [] \<or> pth = [47] then Some (0, s)
          else find_components (dropWhile (\<lambda>c. c = 47) pth) (root_cluster s) 0 s)"

section \<open>The operations of the file system\<close>

definition open_handle :: "mem \<Rightarrow> u64 \<Rightarrow> fat_handle" where
  "open_handle m e =
     \<lparr>first_cluster = entry_cluster m e, curr_cluster = entry_cluster m e, file_size = entry_size m e,
      h_offset = 0, is_dir = (entry_attr m e AND ATTR_DIRECTORY \<noteq> 0), dir_entry = e\<rparr>"

definition open_on :: "u8 list option \<Rightarrow> 'w fat32 \<Rightarrow> (fat_handle option \<times> 'w fat32) option" where
  "open_on pth s = do {
     (e, s) \<leftarrow> find_path pth s;
     if e = 0 then Some (None, s)
     else let (p, s) = fat_kmalloc s
          in Some (if p = 0 then None else Some (open_handle (fmem s) e), s)
   }"

text \<open>The handle comes with the volume it belongs to.\<close>

definition fat32_open ::
  "'w fat32 option \<Rightarrow> 'w fat32 option \<Rightarrow> u8 list option \<Rightarrow> (fat_handle option \<times> 'w fat32 option) option" where
  "fat32_open vol main_vol pth =
     (case (if vol = None then main_vol else vol) of
        None \<Rightarrow> Some (None, None)
      | Some s \<Rightarrow> map_option (\<lambda>(h, s). (h, Some s)) (open_on pth s))"

text \<open>The bytes to the end of the cluster, but not more than \<open>left\<close>.\<close>

definition chunk_size :: "'w fat32 \<Rightarrow> fat_handle \<Rightarrow> u64 \<Rightarrow> u64" where
  "chunk_size s h left =
     (let chunk = ucast (bytes_per_cluster s) - h_offset h mod ucast (bytes_per_cluster s)
      in if left < chunk then left else chunk)"

definition cluster_offset :: "'w fat32 \<Rightarrow> fat_handle \<Rightarrow> u64" where
  "cluster_offset s h = h_offset h mod ucast (bytes_per_cluster s)"

partial_function (option) read_loop :: "u64 \<Rightarrow> fat_handle \<Rightarrow> 'w fat32 \<Rightarrow> (u8 list \<times> fat_handle \<times> 'w fat32) option" where
  "read_loop left h s =
     (if left = 0 then Some ([], h, s)
      else
        let off = cluster_offset s h; n = chunk_size s h left; (p, s) = get_cluster_ptr (curr_cluster h) s
        in if p = 0 then Some ([], h, s)
           else
             let bs = bytes_at (fmem s) (p + off) (unat n);
                 h = h\<lparr>h_offset := h_offset h + n\<rparr>
             in if cluster_offset s h = 0 then
                  let (c, s) = read_fat (curr_cluster h) s
                  in if END_OF_CHAIN \<le> c then Some (bs, h, s)
                     else do {
                       (bs', h, s) \<leftarrow> read_loop (left - n) (h\<lparr>curr_cluster := c\<rparr>) s;
                       Some (bs @ bs', h, s)
                     }
                else do { (bs', h, s) \<leftarrow> read_loop (left - n) h s; Some (bs @ bs', h, s) })"

text \<open>The result with the bytes put into the buffer; the result is an \<open>int\<close>.\<close>

definition as_int :: "nat \<Rightarrow> int" where "as_int n = signed_take_bit 31 (int n)"

definition fat32_read ::
  "fat_handle option \<Rightarrow> u64 \<Rightarrow> 'w fat32 \<Rightarrow> (int \<times> u8 list \<times> fat_handle option \<times> 'w fat32) option" where
  "fat32_read h len s =
     (case h of
        None \<Rightarrow> Some (-1, [], None, s)
      | Some f \<Rightarrow>
          if is_dir f then Some (-1, [], h, s)
          else if ucast (file_size f) \<le> h_offset f then Some (0, [], h, s)
          else do {
            (bs, f, s) \<leftarrow> read_loop (min len (ucast (file_size f) - h_offset f)) f s;
            Some (as_int (length bs), bs, Some f, s)
          })"

text \<open>Writing; \<open>grow\<close> is the update of the size, in the handle and in the directory entry.\<close>

definition set_entry_cluster :: "u64 \<Rightarrow> u32 \<Rightarrow> 'w fat32 \<Rightarrow> 'w fat32" where
  "set_entry_cluster e c s =
     (if e = 0 then s
      else s\<lparr>fmem := store16 (store16 (fmem s) (e + 26) (ucast (c AND 0xFFFF))) (e + 20) (ucast (drop_bit 16 c AND 0xFFFF))\<rparr>)"

definition grow :: "fat_handle \<Rightarrow> 'w fat32 \<Rightarrow> fat_handle \<times> 'w fat32" where
  "grow h s =
     (if ucast (file_size h) < h_offset h then
        let h = h\<lparr>file_size := ucast (h_offset h)\<rparr>
        in (h, if dir_entry h = 0 then s else s\<lparr>fmem := store32 (fmem s) (dir_entry h + 28) (file_size h)\<rparr>)
      else (h, s))"

definition next_cluster :: "fat_handle \<Rightarrow> 'w fat32 \<Rightarrow> u32 option \<times> 'w fat32" where
  "next_cluster h s =
     (let (c, s) = read_fat (curr_cluster h) s
      in if END_OF_CHAIN \<le> c then
           let (n, s) = alloc_cluster s
           in if n = 0 then (None, s) else (Some n, write_fat (curr_cluster h) n s)
         else (Some c, s))"

text \<open>The loop of \<open>fat32_write\<close>; the result is the number of bytes written.\<close>

partial_function (option) write_loop :: "u8 list \<Rightarrow> fat_handle \<Rightarrow> 'w fat32 \<Rightarrow> (nat \<times> fat_handle \<times> 'w fat32) option" where
  "write_loop bs h s =
     (if bs = [] then Some (0, h, s)
      else
        let off = cluster_offset s h; n = unat (chunk_size s h (of_nat (length bs)));
            (p, s) = get_cluster_ptr (curr_cluster h) s
        in if p = 0 then Some (0, h, s)
           else
             let s = s\<lparr>fmem := poke (fmem s) (p + off) (take n bs), cluster_dirty := True\<rparr>;
                 (h, s) = grow (h\<lparr>h_offset := h_offset h + of_nat n\<rparr>) s
             in if cluster_offset s h = 0 \<and> n < length bs then
                  let (c, s) = next_cluster h s
                  in (case c of
                        None \<Rightarrow> Some (n, h, s)
                      | Some c \<Rightarrow> do {
                          (k, h, s) \<leftarrow> write_loop (drop n bs) (h\<lparr>curr_cluster := c\<rparr>) s;
                          Some (n + k, h, s)
                        })
                else do { (k, h, s) \<leftarrow> write_loop (drop n bs) h s; Some (n + k, h, s) })"

definition fat32_write ::
  "fat_handle option \<Rightarrow> u8 list \<Rightarrow> 'w fat32 \<Rightarrow> (int \<times> fat_handle option \<times> 'w fat32) option" where
  "fat32_write h bs s =
     (case h of
        None \<Rightarrow> Some (-1, None, s)
      | Some f \<Rightarrow>
          if is_dir f then Some (-1, h, s)
          else
            let (c, s) = (if first_cluster f = 0 then alloc_cluster s else (first_cluster f, s))
            in if c = 0 then Some (-1, h, s)
               else
                 let (f, s) =
                       (if first_cluster f = 0
                        then (f\<lparr>first_cluster := c, curr_cluster := c\<rparr>, set_entry_cluster (dir_entry f) c s)
                        else (f, s))
                 in do { (n, f, s) \<leftarrow> write_loop bs f s; Some (as_int n, Some f, s) })"

text \<open>
  \<open>list\<close> prints the names in the root directory: the name and the extension without their padding,
  and a slash behind a directory. Up to 256 entries, but the number is tested between clusters only.
\<close>

definition short_to_line :: "u8 list \<Rightarrow> u8 list" where
  "short_to_line nm =
     (let ext = takeWhile (\<lambda>c. c \<noteq> 32) (take 3 (drop 8 nm))
      in takeWhile (\<lambda>c. c \<noteq> 32) (take 8 nm) @ (if ext = [] then [] else 46 # ext))"

fun list_entries :: "mem \<Rightarrow> u64 list \<Rightarrow> u8 list list \<times> bool" where
  "list_entries m [] = ([], True)"
| "list_entries m (e # es) =
     (if m e = 0 then ([], False)
      else if m e = 0xE5 \<or> entry_attr m e = ATTR_LONG_NAME \<or> entry_attr m e AND ATTR_VOLUME_ID \<noteq> 0
      then list_entries m es
      else
        let l = short_to_line (entry_name m e) @ (if entry_attr m e AND ATTR_DIRECTORY \<noteq> 0 then [47] else []);
            (ls, go) = list_entries m es
        in (l # ls, go))"

partial_function (option) fat_list_from :: "nat \<Rightarrow> u32 \<Rightarrow> 'w fat32 \<Rightarrow> (u8 list list \<times> 'w fat32) option" where
  "fat_list_from n cl s =
     (if 2 \<le> cl \<and> cl < END_OF_CHAIN \<and> n < 256 then
        let (p, s) = get_cluster_ptr cl s
        in if p = 0 then Some ([], s)
           else
             let (ls, go) = list_entries (fmem s) (entry_addresses s p)
             in if go then
                  let (c, s) = read_fat cl s
                  in do { (ls', s) \<leftarrow> fat_list_from (n + length ls) c s; Some (ls @ ls', s) }
                else Some (ls, s)
      else Some ([], s))"

definition fat32_list :: "'w fat32 \<Rightarrow> (u8 list list \<times> 'w fat32) option" where
  "fat32_list s = fat_list_from 0 (root_cluster s) s"

section \<open>Mounting\<close>

definition blank_volume :: "mem \<Rightarrow> 'w \<Rightarrow> (nat \<Rightarrow> u64) \<Rightarrow> nat \<Rightarrow> 'w fat32" where
  "blank_volume m w al n =
     \<lparr>backend_read = None, backend_write = None, disk_image = 0, disk_size = 0, bpb = bpb_at (\<lambda>_. 0) 0,
      bytes_per_cluster = 0, fat_start_sector = 0, data_start_sector = 0, root_cluster = 0,
      cached_cluster = 0, cluster_dirty = False, cluster_buf = 0,
      cached_sector = 0, sector_dirty = False, sector_buf = 0,
      fmem = m, fworld = w, alloc_at = al, allocs = n\<rparr>"

definition init_volume_from_image :: "'w fat32 \<Rightarrow> bool \<times> 'w fat32" where
  "init_volume_from_image s =
     (let b = (if bytes_per_sector (bpb s) = 0 then (bpb s)\<lparr>bytes_per_sector := 512\<rparr> else bpb s);
          s = s\<lparr>bpb := b,
                bytes_per_cluster := ucast (bytes_per_sector b) * ucast (sectors_per_cluster b),
                fat_start_sector := ucast (reserved_sector_count b),
                data_start_sector := ucast (reserved_sector_count b) + ucast (num_fats b) * fat_size_32 b,
                root_cluster := bpb_root_cluster b\<rparr>
      in (512 \<le> bytes_per_cluster s \<and> 0 < data_start_sector s, s))"

text \<open>The new volume, unless mounting fails; \<open>n\<close> is the number of the allocation of the volume itself.\<close>

definition mount_ramdisk :: "u64 \<Rightarrow> u64 \<Rightarrow> mem \<Rightarrow> 'w \<Rightarrow> (nat \<Rightarrow> u64) \<Rightarrow> nat \<Rightarrow> 'w fat32 option" where
  "mount_ramdisk a len m w al n =
     (if a = 0 \<or> len < 512 \<or> al n = 0 then None
      else
        let (ok, s) = init_volume_from_image ((blank_volume m w al (Suc n))\<lparr>disk_image := a, disk_size := len, bpb := bpb_at m a\<rparr>)
        in if ok then Some s else None)"

text \<open>\<open>boot\<close> is the address of the buffer on the stack that the boot sector is read into.\<close>

definition mount_backend ::
  "u64 \<Rightarrow> (u64 \<Rightarrow> u32 \<Rightarrow> u64 \<Rightarrow> mem \<Rightarrow> 'w \<Rightarrow> bool \<times> mem \<times> 'w) option \<Rightarrow>
   (u64 \<Rightarrow> u32 \<Rightarrow> u64 \<Rightarrow> mem \<Rightarrow> 'w \<Rightarrow> bool \<times> 'w) option \<Rightarrow> mem \<Rightarrow> 'w \<Rightarrow> (nat \<Rightarrow> u64) \<Rightarrow> nat \<Rightarrow> 'w fat32 option" where
  "mount_backend boot rd wr m w al n =
     (case rd of
        None \<Rightarrow> None
      | Some f \<Rightarrow>
          if al n = 0 then None
          else
            let (ok, m, w) = f 0 1 boot m w;
                s = (blank_volume m w al (Suc n))\<lparr>backend_read := rd, backend_write := wr, bpb := bpb_at m boot\<rparr>
            in if ok then (let (ok, s) = init_volume_from_image s in if ok then Some s else None) else None)"

section \<open>Reading a chain of clusters\<close>

text \<open>
  The file operations use the layer below only through \<open>get_cluster_ptr\<close> and \<open>read_fat\<close>. What they
  rely on is stated once: the bytes of a cluster and its successor in the table do not depend on
  the order in which clusters are asked for.
\<close>

fun linked :: "(u32 \<Rightarrow> u32) \<Rightarrow> u32 list \<Rightarrow> bool" where
  "linked nx [] = True"
| "linked nx [c] = (END_OF_CHAIN \<le> nx c)"
| "linked nx (c # d # cs) = (nx c = d \<and> d < END_OF_CHAIN \<and> linked nx (d # cs))"

lemma linked_nth:
  "linked nx cs \<Longrightarrow> i < length cs \<Longrightarrow>
   if Suc i < length cs then nx (cs ! i) = cs ! Suc i \<and> cs ! Suc i < END_OF_CHAIN else END_OF_CHAIN \<le> nx (cs ! i)"
proof (induction nx cs arbitrary: i rule: linked.induct)
  case (3 nx c d cs)
  show ?case
  proof (cases i)
    case (Suc k) thus ?thesis using "3.IH" [of k] "3.prems" by (simp split: if_splits)
  qed (use "3.prems" in simp)
qed auto

text \<open>The handle stands at position \<open>k\<close> of the chain \<open>cs\<close> of clusters of \<open>b\<close> bytes.\<close>

definition stands_at :: "nat \<Rightarrow> u32 list \<Rightarrow> nat \<Rightarrow> fat_handle \<Rightarrow> bool" where
  "stands_at b cs k h \<longleftrightarrow> h_offset h = of_nat k \<and> (k < length cs * b \<longrightarrow> curr_cluster h = cs ! (k div b))"

text \<open>A sequence of reads with one handle: what each of them has put into its buffer.\<close>

fun read_calls :: "u64 list \<Rightarrow> fat_handle \<Rightarrow> 'w fat32 \<Rightarrow> (u8 list list \<times> fat_handle \<times> 'w fat32) option" where
  "read_calls [] h s = Some ([], h, s)"
| "read_calls (n # ns) h s = do {
     (_, bs, h', s) \<leftarrow> fat32_read (Some h) n s;
     h \<leftarrow> h';
     (bss, h, s) \<leftarrow> read_calls ns h s;
     Some (bs # bss, h, s)
   }"

lemma of_nat_0_u64: "n < 2 ^ 64 \<Longrightarrow> of_nat n = (0::u64) \<longleftrightarrow> n = 0"
  by (simp only: unat_eq_0 [symmetric] unat_of_nat_u64)

lemma cluster_offset_nat:
  assumes "unat (bytes_per_cluster s) = b" "h_offset h = of_nat k" "k < 2 ^ 64"
  shows "cluster_offset s h = of_nat (k mod b)"
proof -
  have "unat (cluster_offset s h) = k mod b"
    using assms unat_of_nat_u64 [OF assms(3)] by (simp add: cluster_offset_def unat_mod_distrib unat_ucast_u32)
  thus ?thesis by (metis of_nat_unat_u64)
qed

lemma chunk_size_nat:
  assumes "unat (bytes_per_cluster s) = b" "0 < b" "h_offset h = of_nat k" "k < 2 ^ 64" "n < 2 ^ 64"
  shows "chunk_size s h (of_nat n) = of_nat (min n (b - k mod b))"
proof -
  have off: "h_offset h mod ucast (bytes_per_cluster s) = (of_nat (k mod b) :: u64)"
    using cluster_offset_nat [OF assms(1,3,4)] by (simp add: cluster_offset_def)
  have u: "unat (of_nat (k mod b) :: u64) = k mod b"
    by (rule unat_of_nat_u64) (use assms(4) mod_less_eq_dividend [of k b] in linarith)
  have "k mod b \<le> b" using assms(2) by (simp add: less_imp_le)
  hence "(of_nat (k mod b) :: u64) \<le> ucast (bytes_per_cluster s)"
    by (simp add: word_le_nat_alt u unat_ucast_u32 assms(1))
  hence "unat (ucast (bytes_per_cluster s) - of_nat (k mod b) :: u64) = b - k mod b"
    by (simp add: unat_sub_u64 u unat_ucast_u32 assms(1))
  hence "unat (chunk_size s h (of_nat n)) = min n (b - k mod b)"
    using unat_of_nat_u64 [OF assms(5)] by (auto simp: chunk_size_def off Let_def word_less_nat_alt min_def)
  thus ?thesis by (metis of_nat_unat_u64)
qed

lemma div_mod_step:
  assumes "0 < (b::nat)" "0 < n" "k mod b + n \<le> b"
  shows "(k + n) mod b \<noteq> 0 \<Longrightarrow> (k + n) div b = k div b"
    and "(k + n) mod b = 0 \<Longrightarrow> k + n = Suc (k div b) * b"
proof -
  have k: "k + n = k div b * b + (k mod b + n)" by simp
  show "(k + n) div b = k div b" if "(k + n) mod b \<noteq> 0"
  proof -
    have "k mod b + n \<noteq> b" using that by (metis mod_add_left_eq mod_self)
    hence "k mod b + n < b" using assms(3) by linarith
    thus ?thesis by (metis k assms(1) add_cancel_left_right div_less div_mult_self3 less_nat_zero_code)
  qed
  show "k + n = Suc (k div b) * b" if "(k + n) mod b = 0"
  proof -
    have "(k mod b + n) mod b = 0" using that by (simp add: mod_add_left_eq)
    hence "b dvd k mod b + n" by (rule mod_0_imp_dvd)
    hence "k mod b + n = b" using assms(2,3) by (meson dvd_imp_le add_gr_0 le_antisym)
    thus ?thesis using k by simp
  qed
qed

locale cluster_source =
  fixes inv :: "'w fat32 \<Rightarrow> bool"
    and b :: nat
    and live :: "u32 \<Rightarrow> bool"
    and content :: "u32 \<Rightarrow> u8 list"
    and nx :: "u32 \<Rightarrow> u32"
  assumes size_law: "inv s \<Longrightarrow> unat (bytes_per_cluster s) = b \<and> 0 < b"
    and get_law: "\<lbrakk>inv s; live c; get_cluster_ptr c s = (p, s')\<rbrakk> \<Longrightarrow> inv s' \<and> p \<noteq> 0 \<and> unat p + b \<le> 2 ^ 64 \<and> bytes_at (fmem s') p b = content c"
    and fat_law: "\<lbrakk>inv s; live c; read_fat c s = (v, s')\<rbrakk> \<Longrightarrow> inv s' \<and> v = nx c"
begin

text \<open>One round of the loop: the bytes to the end of the cluster, or as many as are asked for.\<close>

lemma read_loop_round:
  assumes "inv s" "live c" "length (content c) = b" "h_offset h = of_nat k" "curr_cluster h = c"
    and "0 < n" "k + n < 2 ^ 64" "m = min n (b - k mod b)"
  obtains s1 h1 where "inv s1" "h1 = h\<lparr>h_offset := of_nat (k + m)\<rparr>"
    "read_loop (of_nat n) h s =
      (if (k + m) mod b = 0 then
         let (d, s) = read_fat c s1
         in if END_OF_CHAIN \<le> d then Some (take m (drop (k mod b) (content c)), h1, s)
            else do {
              (bs, h, s) \<leftarrow> read_loop (of_nat (n - m)) (h1\<lparr>curr_cluster := d\<rparr>) s;
              Some (take m (drop (k mod b) (content c)) @ bs, h, s)
            }
       else do {
         (bs, h, s) \<leftarrow> read_loop (of_nat (n - m)) h1 s1;
         Some (take m (drop (k mod b) (content c)) @ bs, h, s)
       })"
proof -
  note sz = size_law [OF assms(1)]
  have kb: "k < 2 ^ 64" "n < 2 ^ 64" using assms(7) by linarith+
  obtain p s1 where g: "get_cluster_ptr c s = (p, s1)" by force
  note gl = get_law [OF assms(1,2) g]
  have off: "cluster_offset s h = of_nat (k mod b)" using cluster_offset_nat [OF _ assms(4) kb(1)] sz by blast
  have ch: "chunk_size s h (of_nat n) = of_nat m" using chunk_size_nat [OF _ _ assms(4) kb] sz assms(8) by blast
  have "k mod b < b" using sz by simp
  hence m: "m \<le> n" "k mod b + m \<le> b" "k + m < 2 ^ 64" using assms(7,8) by linarith+
  have bs: "bytes_at (fmem s1) (p + of_nat (k mod b)) m = take m (drop (k mod b) (content c))"
    using bytes_at_part [OF m(2), of "fmem s1" p] gl by simp
  define h1 where "h1 = h\<lparr>h_offset := of_nat (k + m)\<rparr>"
  have h1: "h\<lparr>h_offset := h_offset h + of_nat m\<rparr> = h1" by (simp add: h1_def assms(4))
  have "cluster_offset s1 h1 = of_nat ((k + m) mod b)"
    using cluster_offset_nat [OF _ _ m(3), of s1 b h1] size_law gl by (simp add: h1_def)
  moreover have "(k + m) mod b < 2 ^ 64" using m(3) mod_less_eq_dividend [of "k + m" b] by linarith
  ultimately have zero: "cluster_offset s1 h1 = 0 \<longleftrightarrow> (k + m) mod b = 0" by (simp only: of_nat_0_u64)
  have rest: "of_nat n - of_nat m = (of_nat (n - m) :: u64)" using m(1) by (simp add: of_nat_diff)
  have um: "unat (of_nat m :: u64) = m" by (rule unat_of_nat_u64) (use m(1) kb(2) in linarith)
  have n0: "(of_nat n :: u64) \<noteq> 0" using assms(6) by (simp only: of_nat_0_u64 [OF kb(2)])
  show thesis
  proof (rule that [of s1 h1])
    have c1: "curr_cluster h1 = c" by (simp add: h1_def assms(5))
    obtain d s2 where f: "read_fat c s1 = (d, s2)" by force
    show "read_loop (of_nat n) h s =
      (if (k + m) mod b = 0 then
         let (d, s) = read_fat c s1
         in if END_OF_CHAIN \<le> d then Some (take m (drop (k mod b) (content c)), h1, s)
            else do {
              (bs, h, s) \<leftarrow> read_loop (of_nat (n - m)) (h1\<lparr>curr_cluster := d\<rparr>) s;
              Some (take m (drop (k mod b) (content c)) @ bs, h, s)
            }
       else do {
         (bs, h, s) \<leftarrow> read_loop (of_nat (n - m)) h1 s1;
         Some (take m (drop (k mod b) (content c)) @ bs, h, s)
       })"
      using gl n0 by (subst read_loop.simps) (simp add: Let_def g assms(5) off ch um rest bs h1 c1 zero f)
  qed (use gl h1_def in auto)
qed

lemma read_loop_chain:
  assumes "inv s" "linked nx cs" "list_all live cs" "\<forall>c \<in> set cs. length (content c) = b"
    and "stands_at b cs k h" "k + n \<le> length cs * b" "length cs * b < 2 ^ 64"
  shows "\<exists>h' s'. read_loop (of_nat n) h s = Some (take n (drop k (concat (map content cs))), h', s') \<and>
    inv s' \<and> stands_at b cs (k + n) h' \<and> is_dir h' = is_dir h \<and> file_size h' = file_size h"
  using assms(1,5,6)
proof (induction n arbitrary: k h s rule: less_induct)
  case (less n)
  show ?case
  proof (cases "n = 0")
    case True thus ?thesis using less.prems by (subst read_loop.simps) simp
  next
    case False
    note sz = size_law [OF less.prems(1)]
    let ?i = "k div b" and ?xs = "concat (map content cs)"
    define m where "m = min n (b - k mod b)"
    have kb: "k < length cs * b" "k + n < 2 ^ 64" using less.prems(3) False assms(7) by linarith+
    have i: "?i < length cs" using kb(1) sz by (simp add: less_mult_imp_div_less)
    have c: "live (cs ! ?i)" "length (content (cs ! ?i)) = b" "h_offset h = of_nat k" "curr_cluster h = cs ! ?i"
      using assms(3,4) i less.prems(2) kb(1) by (simp_all add: list_all_length stands_at_def)
    have n0: "0 < n" using False by simp
    obtain s1 h1 where s1: "inv s1" and h1: "h1 = h\<lparr>h_offset := of_nat (k + m)\<rparr>" and
      unfold: "read_loop (of_nat n) h s =
        (if (k + m) mod b = 0 then
           let (d, s) = read_fat (cs ! ?i) s1
           in if END_OF_CHAIN \<le> d then Some (take m (drop (k mod b) (content (cs ! ?i))), h1, s)
              else do {
                (bs, h, s) \<leftarrow> read_loop (of_nat (n - m)) (h1\<lparr>curr_cluster := d\<rparr>) s;
                Some (take m (drop (k mod b) (content (cs ! ?i))) @ bs, h, s)
              }
         else do {
           (bs, h, s) \<leftarrow> read_loop (of_nat (n - m)) h1 s1;
           Some (take m (drop (k mod b) (content (cs ! ?i))) @ bs, h, s)
         })"
      by (rule read_loop_round [OF less.prems(1) c n0 kb(2) m_def])
    have "k mod b < b" using sz by simp
    hence m: "0 < m" "m \<le> n" "k mod b + m \<le> b" "n - m < n" "k + m + (n - m) = k + n"
      using False unfolding m_def by linarith+
    have bs: "take m (drop (k mod b) (content (cs ! ?i))) = take m (drop k ?xs)"
      using take_drop_concat [of "map content cs" b ?i "k mod b" m] assms(4) i m(3) by simp
    have split: "take m (drop k ?xs) @ take (n - m) (drop (k + m) ?xs) = take n (drop k ?xs)"
      using take_add [of m "n - m" "drop k ?xs"] m(2) by (simp add: add.commute)
    have le: "k + m + (n - m) \<le> length cs * b" using less.prems(3) m(5) by simp
    note IH = less.IH [OF m(4) _ _ le, unfolded m(5)]
    note step = div_mod_step [OF conjunct2 [OF sz] m(1,3)]
    obtain d s2 where f: "read_fat (cs ! ?i) s1 = (d, s2)" by force
    note fl = fat_law [OF s1 c(1) f]
    consider (stay) "(k + m) mod b \<noteq> 0" | (inner) "(k + m) mod b = 0" "Suc ?i < length cs"
      | (last) "(k + m) mod b = 0" "Suc ?i = length cs" using i by linarith
    thus ?thesis
    proof cases
      case stay
      have "stands_at b cs (k + m) h1" using step(1) [OF stay] c(4) by (simp add: stands_at_def h1)
      from IH [OF s1 this] show ?thesis using stay by (auto simp: unfold bs split h1)
    next
      case inner
      have d: "d = cs ! Suc ?i" "\<not> END_OF_CHAIN \<le> d" using linked_nth [OF assms(2) i] inner(2) fl by auto
      have "stands_at b cs (k + m) (h1\<lparr>curr_cluster := d\<rparr>)"
        using step(2) [OF inner(1)] sz d(1) by (simp add: stands_at_def h1)
      from IH [OF _ this, of s2] fl show ?thesis using inner(1) d(2) by (auto simp: unfold f bs split h1)
    next
      case last
      have "END_OF_CHAIN \<le> d" using linked_nth [OF assms(2) i] last(2) fl by auto
      moreover have "m = n" using step(2) [OF last(1)] last(2) less.prems(3) m(2) by simp
      ultimately show ?thesis using last step(2) [OF last(1)] fl bs by (simp add: unfold f h1 stands_at_def)
    qed
  qed
qed

lemma read_calls_chain:
  assumes "inv s" "linked nx cs" "list_all live cs" "\<forall>c \<in> set cs. length (content c) = b"
    and "stands_at b cs k h" "\<not> is_dir h" "unat (file_size h) \<le> length cs * b" "length cs * b < 2 ^ 64"
    and "k \<le> unat (file_size h)"
  shows "\<exists>h' s'. read_calls ns h s =
    Some (slices (map unat ns) (drop k (take (unat (file_size h)) (concat (map content cs)))), h', s') \<and> inv s'"
  using assms(1,5-7,9)
proof (induction ns arbitrary: k h s)
  case Nil thus ?case by simp
next
  case (Cons n ns)
  let ?xs = "concat (map content cs)" and ?l = "unat (file_size h)"
  have k: "k < 2 ^ 64" "h_offset h = of_nat k" using Cons.prems assms(8) by (auto simp: stands_at_def)
  have l: "unat (ucast (file_size h) :: u64) = ?l" by (rule unat_ucast_u32)
  have u: "unat (h_offset h) = k" using unat_of_nat_u64 [OF k(1)] k(2) by simp
  show ?case
  proof (cases "k = ?l")
    case True
    hence "fat32_read (Some h) n s = Some (0, [], Some h, s)"
      using Cons.prems(3) by (simp add: fat32_read_def word_le_nat_alt l u)
    moreover have "drop k (take ?l ?xs) = []" using True by simp
    ultimately show ?thesis using Cons.IH [OF Cons.prems] by (auto simp: True)
  next
    case False
    hence lt: "k < ?l" using Cons.prems(5) by linarith
    define m where "m = min (unat n) (?l - k)"
    have m: "min n (ucast (file_size h) - h_offset h) = of_nat m"
    proof -
      have "unat (min n (ucast (file_size h) - h_offset h)) = m"
        using lt by (simp add: m_def min_def word_le_nat_alt unat_sub_u64 l u)
      thus ?thesis by (metis of_nat_unat_u64)
    qed
    have "k + m \<le> length cs * b" using lt Cons.prems(4) by (simp add: m_def)
    from read_loop_chain [OF Cons.prems(1) assms(2-4) Cons.prems(2) this assms(8)] obtain h' s' where
      r: "read_loop (of_nat m) h s = Some (take m (drop k ?xs), h', s')" "inv s'" "stands_at b cs (k + m) h'"
        "is_dir h' = is_dir h" "file_size h' = file_size h" by blast
    have bs: "take m (drop k ?xs) = take (unat n) (drop k (take ?l ?xs))"
      using lt by (simp add: m_def drop_take min.commute)
    have "\<not> ucast (file_size h) \<le> h_offset h" using lt by (simp add: word_le_nat_alt l u)
    hence rd: "fat32_read (Some h) n s =
      Some (as_int (length (take m (drop k ?xs))), take (unat n) (drop k (take ?l ?xs)), Some h', s')"
      using Cons.prems(3) by (simp add: fat32_read_def m r(1) bs)
    have "k + m \<le> ?l" using lt by (simp add: m_def)
    moreover have "drop (unat n) (drop k (take ?l ?xs)) = drop (k + m) (take ?l ?xs)"
      using lt by (cases "unat n \<le> ?l - k") (auto simp: m_def add.commute)
    ultimately show ?thesis using Cons.IH [OF r(2,3)] Cons.prems(3,4) r(4,5) by (auto simp: rd)
  qed
qed

end

section \<open>The two kinds of volumes\<close>

text \<open>An image in memory: nothing changes when it is read.\<close>

definition ram_cluster :: "'w fat32 \<Rightarrow> u32 \<Rightarrow> u8 list" where
  "ram_cluster v c = bytes_at (fmem v) (ram_sector_ptr v (cluster_sector v c)) (unat (bytes_per_cluster v))"

definition ram_live :: "'w fat32 \<Rightarrow> u32 \<Rightarrow> bool" where
  "ram_live v c \<longleftrightarrow>
     (let p = ram_sector_ptr v (cluster_sector v c)
      in 2 \<le> c \<and> p \<noteq> 0 \<and> unat p + unat (bytes_per_cluster v) \<le> 2 ^ 64)"

definition same_volume :: "'w fat32 \<Rightarrow> 'w fat32 \<Rightarrow> bool" where
  "same_volume v s \<longleftrightarrow>
     backend_read s = backend_read v \<and> disk_image s = disk_image v \<and> bpb s = bpb v \<and>
     bytes_per_cluster s = bytes_per_cluster v \<and> fat_start_sector s = fat_start_sector v \<and>
     data_start_sector s = data_start_sector v \<and> root_cluster s = root_cluster v"

definition ram_same :: "'w fat32 \<Rightarrow> 'w fat32 \<Rightarrow> bool" where
  "ram_same v s \<longleftrightarrow>
     same_volume v s \<and> fmem s = fmem v \<and> disk_size s = disk_size v \<and> alloc_at s = alloc_at v \<and>
     disk_image v \<noteq> 0 \<and> 0 < bytes_per_cluster v"

lemma read_fat_ram: "ram_same v s \<Longrightarrow> read_fat c s = (fst (read_fat c v), s)"
  by (simp add: read_fat_def get_sector_ptr_def ram_same_def same_volume_def fat_position_def sector_size_def
    ram_sector_ptr_def Let_def split: prod.splits)

interpretation ram: cluster_source "ram_same v"
  "unat (bytes_per_cluster v)" "ram_live v" "ram_cluster v" "\<lambda>c. fst (read_fat c v)" for v
proof
  fix s c x s'
  assume s: "ram_same v s"
  show "unat (bytes_per_cluster s) = unat (bytes_per_cluster v) \<and> 0 < unat (bytes_per_cluster v)"
    using s by (simp add: ram_same_def same_volume_def unat_gt_0 word_gt_0)
  show "ram_same v s' \<and> x = fst (read_fat c v)" if "read_fat c s = (x, s')"
    using that s read_fat_ram [of v s c] by simp
  show "ram_same v s' \<and> x \<noteq> 0 \<and> unat x + unat (bytes_per_cluster v) \<le> 2 ^ 64 \<and>
      bytes_at (fmem s') x (unat (bytes_per_cluster v)) = ram_cluster v c"
    if "ram_live v c" "get_cluster_ptr c s = (x, s')" for x :: u64
    using that s by (auto simp: get_cluster_ptr_def ram_same_def same_volume_def ram_live_def ram_cluster_def
      ram_sector_ptr_def cluster_sector_def cluster_sectors_def leD Let_def split: if_splits)
qed

text \<open>
  A block device with the sectors \<open>D\<close>. The callback reads what is asked for; the buffers, allocated
  or still to be allocated, do not overlap; the buffered bytes are those of the device.
\<close>

definition reads_disk :: "(u64 \<Rightarrow> u8 list) \<Rightarrow> (u64 \<Rightarrow> u32 \<Rightarrow> u64 \<Rightarrow> mem \<Rightarrow> 'w \<Rightarrow> bool \<times> mem \<times> 'w) \<Rightarrow> bool" where
  "reads_disk D rd \<longleftrightarrow>
     (\<forall>sector n buf m w. rd sector n buf m w =
        (True, poke m buf (concat (map (\<lambda>i. D (sector + of_nat i)) [0..<unat n])), w))"

definition buffers :: "'w fat32 \<Rightarrow> u64 \<times> u64" where
  "buffers s =
     (let a = alloc_at s (allocs s) in
      if cluster_buf s = 0 then (a, if sector_buf s = 0 then alloc_at s (Suc (allocs s)) else sector_buf s)
      else (cluster_buf s, if sector_buf s = 0 then a else sector_buf s))"

definition separate :: "nat \<Rightarrow> u64 \<Rightarrow> u64 \<Rightarrow> bool" where
  "separate n x y \<longleftrightarrow>
     x \<noteq> 0 \<and> y \<noteq> 0 \<and> unat x + n \<le> 2 ^ 64 \<and> unat y + n \<le> 2 ^ 64 \<and> apart x n y n \<and> apart y n x n"

definition dev_cluster :: "(u64 \<Rightarrow> u8 list) \<Rightarrow> 'w fat32 \<Rightarrow> u32 \<Rightarrow> u8 list" where
  "dev_cluster D v c =
     concat (map (\<lambda>i. D (ucast (cluster_sector v c) + of_nat i)) [0..<unat (cluster_sectors v)])"

definition dev_link :: "(u64 \<Rightarrow> u8 list) \<Rightarrow> 'w fat32 \<Rightarrow> u32 \<Rightarrow> u32" where
  "dev_link D v c =
     (let (sector, off) = fat_position v c in read32 (poke (\<lambda>_. 0) 0 (D (ucast sector))) off AND 0x0FFFFFFF)"

definition dev_live :: "'w fat32 \<Rightarrow> u32 \<Rightarrow> bool" where
  "dev_live v c \<longleftrightarrow> 2 \<le> c \<and> fst (fat_position v c) < data_start_sector v"

definition dev_volume :: "(u64 \<Rightarrow> u8 list) \<Rightarrow> 'w fat32 \<Rightarrow> bool" where
  "dev_volume D v \<longleftrightarrow>
     disk_image v = 0 \<and> (\<exists>rd. backend_read v = Some rd \<and> reads_disk D rd) \<and>
     (\<forall>x. length (D x) = unat (sector_size v)) \<and> unat (sector_size v) mod 4 = 0 \<and> 0 < unat (sector_size v) \<and>
     0 < unat (cluster_sectors v) \<and>
     unat (bytes_per_cluster v) = unat (cluster_sectors v) * unat (sector_size v)"

definition clean_cache :: "(u64 \<Rightarrow> u8 list) \<Rightarrow> 'w fat32 \<Rightarrow> bool" where
  "clean_cache D s \<longleftrightarrow>
     \<not> cluster_dirty s \<and> \<not> sector_dirty s \<and>
     separate (unat (bytes_per_cluster s)) (fst (buffers s)) (snd (buffers s)) \<and>
     (cluster_buf s \<noteq> 0 \<and> 2 \<le> cached_cluster s \<longrightarrow>
        bytes_at (fmem s) (cluster_buf s) (unat (bytes_per_cluster s)) = dev_cluster D s (cached_cluster s)) \<and>
     (sector_buf s \<noteq> 0 \<longrightarrow>
        bytes_at (fmem s) (sector_buf s) (unat (sector_size s)) = D (ucast (cached_sector s)))"

lemma same_volume_geometry:
  assumes "same_volume v s"
  shows "sector_size s = sector_size v" "cluster_sectors s = cluster_sectors v" "cluster_sector s c = cluster_sector v c"
    "fat_position s c = fat_position v c" "dev_cluster D s c = dev_cluster D v c"
  using assms by (simp_all add: same_volume_def sector_size_def cluster_sectors_def cluster_sector_def fat_position_def dev_cluster_def)

lemma clean_cacheI:
  assumes "same_volume v s" "\<not> cluster_dirty s" "\<not> sector_dirty s"
    and "separate (unat (bytes_per_cluster v)) (fst (buffers s)) (snd (buffers s))"
    and "\<lbrakk>cluster_buf s \<noteq> 0; 2 \<le> cached_cluster s\<rbrakk> \<Longrightarrow>
      bytes_at (fmem s) (cluster_buf s) (unat (bytes_per_cluster v)) = dev_cluster D v (cached_cluster s)"
    and "sector_buf s \<noteq> 0 \<Longrightarrow> bytes_at (fmem s) (sector_buf s) (unat (sector_size v)) = D (ucast (cached_sector s))"
  shows "clean_cache D s"
  using assms same_volume_geometry [OF assms(1)] by (simp add: clean_cache_def same_volume_def)

lemma cache_updates [simp]:
  "buffers (s\<lparr>fmem := m\<rparr>) = buffers s" "buffers (s\<lparr>cached_cluster := c\<rparr>) = buffers s"
  "buffers (s\<lparr>cluster_dirty := d\<rparr>) = buffers s" "buffers (s\<lparr>cached_sector := c\<rparr>) = buffers s"
  "buffers (s\<lparr>sector_dirty := d\<rparr>) = buffers s"
  "same_volume v (s\<lparr>fmem := m\<rparr>) = same_volume v s" "same_volume v (s\<lparr>cached_cluster := c\<rparr>) = same_volume v s"
  "same_volume v (s\<lparr>cluster_dirty := d\<rparr>) = same_volume v s" "same_volume v (s\<lparr>cached_sector := c\<rparr>) = same_volume v s"
  "same_volume v (s\<lparr>sector_dirty := d\<rparr>) = same_volume v s"
  by (simp_all add: buffers_def same_volume_def Let_def)

lemma length_dev_cluster: "dev_volume D v \<Longrightarrow> length (dev_cluster D v c) = unat (bytes_per_cluster v)"
  by (simp add: dev_volume_def dev_cluster_def length_concat comp_def sum_list_triv)

lemma dev_sizes:
  assumes "dev_volume D v"
  shows "unat (sector_size v) \<le> unat (bytes_per_cluster v)" "unat (bytes_per_cluster v) < 2 ^ 32"
proof -
  have "0 < unat (cluster_sectors v)" "unat (bytes_per_cluster v) = unat (cluster_sectors v) * unat (sector_size v)"
    using assms by (simp_all add: dev_volume_def)
  thus "unat (sector_size v) \<le> unat (bytes_per_cluster v)" by (cases "unat (cluster_sectors v)") auto
  show "unat (bytes_per_cluster v) < 2 ^ 32" using unsigned_less [of "bytes_per_cluster v"] by simp
qed

text \<open>The buffers, allocated if there are none yet.\<close>

definition with_cluster_buf :: "'w fat32 \<Rightarrow> 'w fat32" where
  "with_cluster_buf s = (if cluster_buf s = 0 then let (p, s) = fat_kmalloc s in s\<lparr>cluster_buf := p\<rparr> else s)"

definition with_sector_buf :: "'w fat32 \<Rightarrow> 'w fat32" where
  "with_sector_buf s = (if sector_buf s = 0 then let (p, s) = fat_kmalloc s in s\<lparr>sector_buf := p\<rparr> else s)"

lemma with_cluster_buf:
  "same_volume v s \<Longrightarrow> same_volume v (with_cluster_buf s)" "sector_buf (with_cluster_buf s) = sector_buf s"
  "fmem (with_cluster_buf s) = fmem s" "cached_sector (with_cluster_buf s) = cached_sector s"
  "sector_dirty (with_cluster_buf s) = sector_dirty s"
  "cluster_buf (with_cluster_buf s) = fst (buffers s)"
  by (auto simp: with_cluster_buf_def fat_kmalloc_def same_volume_def buffers_def)

lemma with_sector_buf:
  "same_volume v s \<Longrightarrow> same_volume v (with_sector_buf s)" "cluster_buf (with_sector_buf s) = cluster_buf s"
  "fmem (with_sector_buf s) = fmem s" "cached_cluster (with_sector_buf s) = cached_cluster s"
  "cluster_dirty (with_sector_buf s) = cluster_dirty s"
  by (auto simp: with_sector_buf_def fat_kmalloc_def same_volume_def)

lemma buffers_with_cluster_buf: "fst (buffers s) \<noteq> 0 \<Longrightarrow> buffers (with_cluster_buf s) = buffers s"
  by (cases "cluster_buf s = 0"; cases "sector_buf s = 0") (auto simp: with_cluster_buf_def fat_kmalloc_def buffers_def Let_def)

lemma dev_cluster_ptr:
  assumes v: "dev_volume D v" and s: "same_volume v s" "clean_cache D s" and c: "2 \<le> c"
    and g: "cached_cluster_ptr c s = (p, s')"
  shows "same_volume v s' \<and> clean_cache D s' \<and> p \<noteq> 0 \<and> unat p + unat (bytes_per_cluster v) \<le> 2 ^ 64 \<and>
    bytes_at (fmem s') p (unat (bytes_per_cluster v)) = dev_cluster D v c"
proof (cases "c = cached_cluster s \<and> cluster_buf s \<noteq> 0")
  case True
  hence "p = cluster_buf s" "s' = s\<lparr>cluster_dirty := False\<rparr>" using g leD [OF c] by (auto simp: cached_cluster_ptr_def)
  moreover have "fst (buffers s) = cluster_buf s" using True by (simp add: buffers_def Let_def)
  hence "unat (cluster_buf s) + unat (bytes_per_cluster v) \<le> 2 ^ 64"
    using s by (simp add: clean_cache_def separate_def same_volume_def)
  ultimately show ?thesis using s c True same_volume_geometry(5) [OF s(1)]
    by (auto simp: clean_cache_def same_volume_def sector_size_def dev_cluster_def cluster_sector_def cluster_sectors_def)
next
  case False
  obtain rd where rd: "backend_read s = Some rd" "reads_disk D rd"
    using v s(1) by (auto simp: dev_volume_def same_volume_def)
  define t where "t = with_cluster_buf s"
  note geo = same_volume_geometry [OF s(1)]
  have sep: "separate (unat (bytes_per_cluster v)) (fst (buffers s)) (snd (buffers s))"
    using s by (simp add: clean_cache_def same_volume_def)
  hence b0: "fst (buffers s) \<noteq> 0" by (simp add: separate_def)
  note t = with_cluster_buf [where s = s, folded t_def] buffers_with_cluster_buf [OF b0, folded t_def]
  have tv: "same_volume v t" "backend_read t = Some rd" using t(1) [OF s(1)] s(1) rd(1) by (simp_all add: same_volume_def)
  note tg = same_volume_geometry [OF tv(1)]
  have nz: "cluster_buf t \<noteq> 0" by (simp add: t b0)
  have fl: "flush_cluster s = s" using s(2) by (simp add: flush_cluster_def clean_cache_def)
  have r: "read_sectors (cluster_sector v c) (cluster_sectors v) (cluster_buf t) t =
    (True, t\<lparr>fmem := poke (fmem s) (cluster_buf t) (dev_cluster D v c)\<rparr>)"
    using rd(2) tv(2) t(3) by (simp add: read_sectors_def reads_disk_def dev_cluster_def)
  have e: "p = cluster_buf t" "s' = t\<lparr>fmem := poke (fmem s) (cluster_buf t) (dev_cluster D v c), cached_cluster := c, cluster_dirty := False\<rparr>"
    using g leD [OF c] False nz r tg(2,3)
    by (auto simp: cached_cluster_ptr_def fl with_cluster_buf_def [symmetric] t_def [symmetric] Let_def)
  note len = length_dev_cluster [OF v, of c] and sz = dev_sizes [OF v]
  have own: "bytes_at (fmem s') p (unat (bytes_per_cluster v)) = dev_cluster D v c"
    using bytes_at_poke [OF len] sz(2) by (simp add: e)
  have sv: "same_volume v s'" using tv(1) by (simp add: e)
  have b: "buffers s' = buffers s" using t(7) by (simp add: e)
  have "bytes_at (fmem s') (sector_buf s') (unat (sector_size v)) = D (ucast (cached_sector s'))" if "sector_buf s' \<noteq> 0"
  proof -
    have "snd (buffers s) = sector_buf s" using that t(2) by (simp add: e buffers_def Let_def split: if_splits)
    hence "apart (cluster_buf t) (length (dev_cluster D v c)) (sector_buf s) (unat (sector_size v))"
      using sep apart_less [OF _ order_refl sz(1)] by (simp add: separate_def t(6) len)
    from bytes_at_poke_apart [OF this] show ?thesis
      using s(2) that t(2,4) geo(1) by (simp add: e clean_cache_def)
  qed
  hence "clean_cache D s'"
    using own sep s(2) t(5) sv b by (intro clean_cacheI [OF sv]) (simp_all add: e clean_cache_def)
  moreover have "unat (cluster_buf t) + unat (bytes_per_cluster v) \<le> 2 ^ 64" using sep t(6) by (simp add: separate_def)
  ultimately show ?thesis using own sv nz e(1) by simp
qed

text \<open>The same for the buffer of a sector.\<close>

lemma snd_buffers_with_sector_buf:
  assumes "separate n (fst (buffers s)) (snd (buffers s))"
  shows "sector_buf (with_sector_buf s) \<noteq> 0 \<and>
    separate n (fst (buffers (with_sector_buf s))) (snd (buffers (with_sector_buf s))) \<and>
    snd (buffers (with_sector_buf s)) = sector_buf (with_sector_buf s)"
  using assms by (cases "cluster_buf s = 0"; cases "sector_buf s = 0")
    (auto simp: with_sector_buf_def fat_kmalloc_def buffers_def separate_def Let_def)

lemma dev_sector_ptr:
  assumes v: "dev_volume D v" and s: "same_volume v s" "clean_cache D s"
    and g: "cached_sector_ptr x s = (p, s')"
  shows "same_volume v s' \<and> clean_cache D s' \<and> p \<noteq> 0 \<and> bytes_at (fmem s') p (unat (sector_size v)) = D (ucast x)"
proof (cases "x = cached_sector s \<and> sector_buf s \<noteq> 0")
  case True
  hence "p = sector_buf s" "s' = s\<lparr>sector_dirty := False\<rparr>" using g by (auto simp: cached_sector_ptr_def)
  thus ?thesis using s True same_volume_geometry(1) [OF s(1)]
    by (auto simp: clean_cache_def sector_size_def dev_cluster_def cluster_sector_def cluster_sectors_def)
next
  case False
  obtain rd where rd: "backend_read s = Some rd" "reads_disk D rd"
    using v s(1) by (auto simp: dev_volume_def same_volume_def)
  define t where "t = with_sector_buf s"
  have "separate (unat (bytes_per_cluster v)) (fst (buffers s)) (snd (buffers s))"
    using s by (simp add: clean_cache_def same_volume_def)
  note sep = snd_buffers_with_sector_buf [OF this, folded t_def]
  note t = with_sector_buf [where s = s, folded t_def]
  have tv: "same_volume v t" "backend_read t = Some rd" using t(1) [OF s(1)] s(1) rd(1) by (simp_all add: same_volume_def)
  have fl: "flush_sector s = s" using s(2) by (simp add: flush_sector_def clean_cache_def)
  have r: "read_sectors x 1 (sector_buf t) t = (True, t\<lparr>fmem := poke (fmem s) (sector_buf t) (D (ucast x))\<rparr>)"
    using rd(2) tv(2) t(3) by (simp add: read_sectors_def reads_disk_def)
  have e: "p = sector_buf t" "s' = t\<lparr>fmem := poke (fmem s) (sector_buf t) (D (ucast x)), cached_sector := x, sector_dirty := False\<rparr>"
    using g False sep r
    by (auto simp: cached_sector_ptr_def fl with_sector_buf_def [symmetric] t_def [symmetric] Let_def)
  note sz = dev_sizes [OF v]
  have len: "length (D y) = unat (sector_size v)" for y using v by (simp add: dev_volume_def)
  have own: "bytes_at (fmem s') p (unat (sector_size v)) = D (ucast x)"
    using bytes_at_poke [OF len] sz by (simp add: e)
  have sv: "same_volume v s'" using tv(1) by (simp add: e)
  have "bytes_at (fmem s') (cluster_buf s') (unat (bytes_per_cluster v)) = dev_cluster D v (cached_cluster s')"
    if "cluster_buf s' \<noteq> 0" "2 \<le> cached_cluster s'"
  proof -
    have c: "cluster_buf s' = cluster_buf s" "cached_cluster s' = cached_cluster s" by (simp_all add: e t)
    have "fst (buffers t) = cluster_buf s" using that(1) by (simp add: c buffers_def Let_def t(2))
    hence "apart (sector_buf t) (length (D (ucast x))) (cluster_buf s) (unat (bytes_per_cluster v))"
      using sep apart_less [OF _ sz(1) order_refl] by (auto simp: separate_def len)
    from bytes_at_poke_apart [OF this] show ?thesis
      using s that by (simp add: c clean_cache_def same_volume_geometry [OF s(1)]) (simp add: e same_volume_def)
  qed
  hence "clean_cache D s'"
    using own sep s(2) t(5) sv by (intro clean_cacheI [OF sv]) (auto simp: e clean_cache_def)
  thus ?thesis using own sv sep e(1) by simp
qed

lemma fat_offset_fits:
  assumes "dev_volume D v"
  shows "\<exists>k. snd (fat_position v c) = of_nat k \<and> k + 4 \<le> unat (sector_size v)"
proof -
  let ?n = "unat (sector_size v)"
  have n: "?n mod 4 = 0" "0 < ?n" using assms by (simp_all add: dev_volume_def)
  have "unat ((c * 4) mod sector_size v) = unat (c * 4) mod ?n" by (rule unat_mod_distrib)
  moreover have "unat (c * 4) mod 4 = 0"
    by (simp add: unat_word_ariths mod_mod_cancel)
  ultimately have "unat ((c * 4) mod sector_size v) mod 4 = 0"
    using n(1) by (simp add: dvd_eq_mod_eq_0 [symmetric] dvd_mod)
  moreover have "unat ((c * 4) mod sector_size v) < ?n" using n(2) by (simp add: unat_mod_distrib)
  ultimately have "unat ((c * 4) mod sector_size v) + 4 \<le> ?n" using n(1) by presburger
  moreover have "snd (fat_position v c) = of_nat (unat ((c * 4) mod sector_size v))"
    by (simp add: fat_position_def unat_ucast_u32 [symmetric] del: of_nat_unat)
  ultimately show ?thesis by blast
qed

interpretation dev: cluster_source "\<lambda>s. dev_volume D v \<and> same_volume v s \<and> clean_cache D s"
  "unat (bytes_per_cluster v)" "dev_live v" "dev_cluster D v" "dev_link D v" for D v
proof
  fix s c x s'
  assume s: "dev_volume D v \<and> same_volume v s \<and> clean_cache D s"
  show "unat (bytes_per_cluster s) = unat (bytes_per_cluster v) \<and> 0 < unat (bytes_per_cluster v)"
    using s by (auto simp: same_volume_def dev_volume_def)
  show "(dev_volume D v \<and> same_volume v s' \<and> clean_cache D s') \<and> x \<noteq> 0 \<and>
      unat x + unat (bytes_per_cluster v) \<le> 2 ^ 64 \<and> bytes_at (fmem s') x (unat (bytes_per_cluster v)) = dev_cluster D v c"
    if "dev_live v c" "get_cluster_ptr c s = (x, s')"
    using dev_cluster_ptr [of D v s c x s'] that s
    by (auto simp: get_cluster_ptr_def dev_live_def dev_volume_def same_volume_def leD split: if_splits)
next
  fix s c x s'
  assume s: "dev_volume D v \<and> same_volume v s \<and> clean_cache D s" and c: "dev_live v c" and r: "read_fat c s = (x, s')"
  note v = conjunct1 [OF s] and sv = conjunct1 [OF conjunct2 [OF s]] and cc = conjunct2 [OF conjunct2 [OF s]]
  obtain sec where sec: "fat_position v c = (sec, snd (fat_position v c))" "sec < data_start_sector v"
    using c by (metis dev_live_def prod.collapse)
  obtain k where k: "snd (fat_position v c) = of_nat k" "k + 4 \<le> unat (sector_size v)" using fat_offset_fits [OF v] by blast
  obtain p t where g: "cached_sector_ptr sec s = (p, t)" by force
  note t = dev_sector_ptr [OF v sv cc g]
  have "get_sector_ptr sec s = (p, t)" using g sec(2) sv v by (simp add: get_sector_ptr_def same_volume_def dev_volume_def)
  hence "s' = t" "x = read32 (fmem t) (p + of_nat k) AND 0x0FFFFFFF"
    using r t sec(1) k(1) by (auto simp: read_fat_def same_volume_geometry [OF sv] Let_def)
  moreover have "read32 (fmem t) (p + of_nat k) = read32 (poke (\<lambda>_. 0) 0 (D (ucast sec))) (of_nat k)"
    using read32_bytes_at [OF conjunct2 [OF conjunct2 [OF conjunct2 [OF t]]] k(2)] dev_sizes [OF v] by simp
  ultimately show "(dev_volume D v \<and> same_volume v s' \<and> clean_cache D s') \<and> x = dev_link D v c"
    using t v sec(1) k(1) by (simp add: dev_link_def Let_def)
qed

section \<open>Finding a file\<close>

text \<open>The entries of 32 bytes in a cluster; an entry that the search passes over, and one that it finds.\<close>

definition entry_blocks :: "u8 list \<Rightarrow> u8 list list" where
  "entry_blocks bs = map (\<lambda>i. take 32 (drop (32 * i) bs)) [0..<length bs div 32]"

definition hidden :: "u8 list \<Rightarrow> bool" where
  "hidden blk \<longleftrightarrow> blk ! 0 = 0xE5 \<or> blk ! 11 = ATTR_LONG_NAME"

definition passed :: "u8 list \<Rightarrow> u8 list \<Rightarrow> bool" where
  "passed short blk \<longleftrightarrow> blk ! 0 \<noteq> 0 \<and> (hidden blk \<or> take 11 blk \<noteq> short)"

definition matches :: "u8 list \<Rightarrow> u8 list \<Rightarrow> bool" where
  "matches short blk \<longleftrightarrow> blk ! 0 \<noteq> 0 \<and> \<not> hidden blk \<and> take 11 blk = short"

text \<open>
  \<open>in_dir nx content ds short blk\<close>: the clusters \<open>ds\<close> are the chain of a directory, and the first entry
  with the name \<open>short\<close> in it is \<open>blk\<close>.
\<close>

definition in_dir :: "(u32 \<Rightarrow> u32) \<Rightarrow> (u32 \<Rightarrow> u8 list) \<Rightarrow> u32 list \<Rightarrow> u8 list \<Rightarrow> u8 list \<Rightarrow> bool" where
  "in_dir nx content ds short blk \<longleftrightarrow>
     linked nx ds \<and> list_all (\<lambda>d. 2 \<le> d \<and> d < END_OF_CHAIN) ds \<and>
     (\<exists>before d after es fs. ds = before @ d # after \<and> entry_blocks (content d) = es @ blk # fs \<and>
        list_all (passed short) (concat (map (\<lambda>c. entry_blocks (content c)) before) @ es) \<and> matches short blk)"

lemma entry_block_facts:
  assumes "bytes_at m e 32 = blk"
  shows "m e = blk ! 0" "entry_attr m e = blk ! 11" "entry_name m e = take 11 blk" "length blk = 32"
proof -
  have "\<And>i. i < 32 \<Longrightarrow> blk ! i = m (e + of_nat i)" "length blk = 32" using assms by (auto simp: bytes_at_def)
  from this(1) [of 0] this(1) [of 11] this(2) show "m e = blk ! 0" "entry_attr m e = blk ! 11" "length blk = 32"
    by (simp_all add: entry_attr_def)
  show "entry_name m e = take 11 blk" using bytes_at_part [of 0 11 32 m e] assms by (simp add: entry_name_def)
qed

lemma scan_blocks:
  assumes "map (\<lambda>e. bytes_at m e 32) as = es @ fs" "list_all (passed short) es"
  shows "scan_entries m short as = scan_entries m short (drop (length es) as)"
  using assms
proof (induction es arbitrary: "as")
  case (Cons blk es)
  then obtain a as' where a: "as = a # as'" "bytes_at m a 32 = blk" by (cases "as") auto
  thus ?case using Cons entry_block_facts [OF a(2)] by (auto simp: passed_def hidden_def)
qed simp

lemma length_entry_addresses: "length (entry_addresses s p) = unat (bytes_per_cluster s) div 32"
  by (simp add: entry_addresses_def)

lemma entry_addresses_blocks:
  assumes "unat (bytes_per_cluster s) = n" "bytes_at (fmem s) p n = bs"
  shows "map (\<lambda>e. bytes_at (fmem s) e 32) (entry_addresses s p) = entry_blocks bs"
proof -
  have "length bs = n" using assms(2) by (auto simp: bytes_at_def)
  moreover have "bytes_at (fmem s) (p + of_nat i * SIZEOF_ENTRY) 32 = take 32 (drop (32 * i) bs)" if "i < n div 32" for i
    using bytes_at_part [of "32 * i" 32 n "fmem s" p] that assms(2) by (simp add: SIZEOF_ENTRY_def mult.commute)
  ultimately show ?thesis by (auto simp: entry_addresses_def entry_blocks_def assms(1))
qed

lemma entry_address_nonzero:
  assumes "p \<noteq> 0" "unat p + unat (bytes_per_cluster s) \<le> 2 ^ 64" "e \<in> set (entry_addresses s p)"
  shows "e \<noteq> 0"
proof -
  obtain i where i: "i < unat (bytes_per_cluster s) div 32" "e = p + of_nat (i * 32)"
    using assms(3) by (auto simp: entry_addresses_def SIZEOF_ENTRY_def)
  hence "unat p + i * 32 < 2 ^ 64" using assms(2) by linarith
  hence "unat e = unat p + i * 32" unfolding i(2)
    by (subst unat_add_u64) (simp_all add: unat_of_nat_u64 del: of_nat_mult)
  thus ?thesis using assms(1) by (metis add_is_0 unat_0 unat_eq_0)
qed

context cluster_source
begin

lemma find_in_chain_hit:
  assumes "inv s" "list_all live ds" "in_dir nx content ds short blk"
  shows "\<exists>e s'. find_in_chain short (List.hd ds) s = Some (e, s') \<and> e \<noteq> 0 \<and> inv s' \<and> bytes_at (fmem s') e 32 = blk"
proof -
  obtain before d after es fs where ds: "ds = before @ d # after" and blk: "entry_blocks (content d) = es @ blk # fs"
    and pass: "list_all (passed short) (concat (map (\<lambda>c. entry_blocks (content c)) before) @ es)"
    and hit: "matches short blk"
    and chain: "linked nx ds" "list_all (\<lambda>d. 2 \<le> d \<and> d < END_OF_CHAIN) ds"
    using assms(3) by (auto simp: in_dir_def)
  show ?thesis using assms(1,2) ds pass chain
  proof (induction before arbitrary: s ds)
    case Nil
    obtain p t where g: "get_cluster_ptr d s = (p, t)" by force
    have t: "inv t" "p \<noteq> 0" "unat p + b \<le> 2 ^ 64" "bytes_at (fmem t) p b = content d" "unat (bytes_per_cluster t) = b"
      using get_law [OF Nil.prems(1) _ g] size_law Nil.prems(2,3) by auto
    note as = entry_addresses_blocks [OF t(5,4), unfolded blk]
    define e where "e = entry_addresses t p ! length es"
    have len: "length es < length (entry_addresses t p)"
      using arg_cong [OF as, of length] by simp
    have e: "bytes_at (fmem t) e 32 = blk" "e \<in> set (entry_addresses t p)"
      using arg_cong [OF as, of "\<lambda>xs. xs ! length es"] len by (simp_all add: e_def)
    have "drop (length es) (entry_addresses t p) = e # drop (Suc (length es)) (entry_addresses t p)"
      using Cons_nth_drop_Suc [OF len] by (simp add: e_def)
    hence "scan_entries (fmem t) short (entry_addresses t p) = Some (Some e)"
      using scan_blocks [OF as, of short] Nil.prems(4) hit entry_block_facts [OF e(1)]
      by (simp add: matches_def hidden_def)
    hence "find_in_chain short d s = Some (e, t)"
      using Nil.prems(3,6) t(2) by (subst find_in_chain.simps) (simp add: g)
    moreover have "e \<noteq> 0" using entry_address_nonzero [OF t(2) _ e(2)] t(3,5) by simp
    ultimately show ?case using t(1) e(1) Nil.prems(3) by auto
  next
    case (Cons c before)
    obtain p t where g: "get_cluster_ptr c s = (p, t)" by force
    have t: "inv t" "p \<noteq> 0" "bytes_at (fmem t) p b = content c" "unat (bytes_per_cluster t) = b"
      using get_law [OF Cons.prems(1) _ g] size_law Cons.prems(2,3) by auto
    note as = entry_addresses_blocks [OF t(4,3)]
    have "length (entry_addresses t p) = length (entry_blocks (content c))" using arg_cong [OF as, of length] by simp
    hence none: "scan_entries (fmem t) short (entry_addresses t p) = None"
      using scan_blocks [of _ _ "entry_blocks (content c)" "[]" short] as Cons.prems(4) by simp
    obtain x u where f: "read_fat c t = (x, u)" by force
    have u: "inv u" "x = nx c" using fat_law [OF t(1) _ f] Cons.prems(2,3) by auto
    let ?ds = "before @ d # after"
    have "x = List.hd ?ds \<and> linked nx ?ds" using Cons.prems(3,5) u(2) by (cases before) auto
    moreover have "find_in_chain short c s = find_in_chain short x u"
      using Cons.prems(3,6) t(2) none by (subst find_in_chain.simps) (simp add: g f)
    ultimately show ?case
      using Cons.IH [OF u(1), of ?ds] Cons.prems by simp
  qed
qed

end

text \<open>A path through directories, and what it leads to.\<close>

definition block_cluster :: "u8 list \<Rightarrow> u32" where
  "block_cluster blk = entry_cluster (poke (\<lambda>_. 0) 0 blk) 0"

definition block_size :: "u8 list \<Rightarrow> u32" where
  "block_size blk = entry_size (poke (\<lambda>_. 0) 0 blk) 0"

definition dir_has :: "(u32 \<Rightarrow> bool) \<Rightarrow> (u32 \<Rightarrow> u32) \<Rightarrow> (u32 \<Rightarrow> u8 list) \<Rightarrow> u32 \<Rightarrow> u8 list \<Rightarrow> u8 list \<Rightarrow> bool" where
  "dir_has live nx content c n blk \<longleftrightarrow>
     (\<exists>ds. ds \<noteq> [] \<and> List.hd ds = c \<and> list_all live ds \<and> in_dir nx content ds (filename_to_short n) blk)"

fun leads_to :: "(u32 \<Rightarrow> bool) \<Rightarrow> (u32 \<Rightarrow> u32) \<Rightarrow> (u32 \<Rightarrow> u8 list) \<Rightarrow> u32 \<Rightarrow> u8 list list \<Rightarrow> u8 list \<Rightarrow> bool" where
  "leads_to live nx content c [] blk = False"
| "leads_to live nx content c [n] blk = dir_has live nx content c n blk"
| "leads_to live nx content c (n # m # ns) blk =
     (\<exists>dir. dir_has live nx content c n dir \<and> dir ! 11 AND ATTR_DIRECTORY \<noteq> 0 \<and>
        leads_to live nx content (block_cluster dir) (m # ns) blk)"

lemma block_fields:
  assumes "bytes_at m e 32 = blk"
  shows "entry_cluster m e = block_cluster blk" "entry_size m e = block_size blk"
  using read16_bytes_at [OF assms, of 20] read16_bytes_at [OF assms, of 26] read32_bytes_at [OF assms, of 28]
  by (simp_all add: entry_cluster_def block_cluster_def entry_size_def block_size_def)

context cluster_source
begin

lemma find_entry_hit:
  assumes "inv s" "dir_has live nx content c n blk"
  shows "\<exists>e s'. find_entry_in_dir c n s = Some (e, s') \<and> e \<noteq> 0 \<and> inv s' \<and> bytes_at (fmem s') e 32 = blk"
  using assms find_in_chain_hit by (auto simp: dir_has_def find_entry_in_dir_def)

lemma find_components_hit:
  assumes "inv s" "leads_to live nx content c ns blk" "list_all plain_component ns"
  shows "\<exists>e s'. find_components (slash_join ns) c e0 s = Some (e, s') \<and> e \<noteq> 0 \<and> inv s' \<and> bytes_at (fmem s') e 32 = blk"
  using assms
proof (induction ns arbitrary: c e0 s rule: slash_join.induct)
  case (2 n)
  obtain e s' where f: "find_entry_in_dir c n s = Some (e, s')" "e \<noteq> 0" "inv s'" "bytes_at (fmem s') e 32 = blk"
    using find_entry_hit [of s c n blk] "2.prems" by auto
  have n: "n \<noteq> []" "takeWhile (\<lambda>x. x \<noteq> 47) n = n" "length n \<le> 255" "dropWhile (\<lambda>x. x \<noteq> 47) n = []"
    using "2.prems"(3) by (auto simp: plain_component_def takeWhile_eq_all_conv dropWhile_eq_Nil_conv)
  show ?case using f by (subst slash_join.simps, subst find_components.simps) (simp add: n)
next
  case (3 n m ns)
  then obtain dir where dir: "dir_has live nx content c n dir" "dir ! 11 AND ATTR_DIRECTORY \<noteq> 0"
    "leads_to live nx content (block_cluster dir) (m # ns) blk" by auto
  obtain e s' where f: "find_entry_in_dir c n s = Some (e, s')" "e \<noteq> 0" "inv s'" "bytes_at (fmem s') e 32 = dir"
    using find_entry_hit [OF "3.prems"(1) dir(1)] by blast
  have n: "takeWhile (\<lambda>x. x \<noteq> 47) (n @ 47 # xs) = n" "length n \<le> 255" "dropWhile (\<lambda>x. x \<noteq> 47) (n @ 47 # xs) = 47 # xs" for xs
    using "3.prems"(3) before_slash [of n xs] by (simp_all add: plain_component_def)
  have rest: "dropWhile (\<lambda>x. x = 47) (slash_join (m # ns)) = slash_join (m # ns)"
    using slash_join_front [of "m # ns"] "3.prems"(3) by auto
  have "find_components (slash_join (n # m # ns)) c e0 s = find_components (slash_join (m # ns)) (block_cluster dir) e s'"
    using f n rest dir(2) entry_block_facts(2) [OF f(4)] block_fields(1) [OF f(4)]
    by (subst find_components.simps) (simp add: Let_def)
  thus ?case using "3.IH" [OF f(3) dir(3)] "3.prems"(3) by simp
qed simp

end

text \<open>
  C5: \<open>open\<close> followed by any sequence of reads, on an image in memory: when the components of the path
  name directories one below the other and an entry in the last of them, the handle reads, piece by
  piece, exactly the bytes of the clusters of the entry up to its size. A read never gets more than
  is left, and nothing at the end.
\<close>

theorem fat32_open_read:
  assumes "ram_same v v" "\<And>i. alloc_at v i \<noteq> 0"
    and "leads_to (ram_live v) (\<lambda>c. fst (read_fat c v)) (ram_cluster v) (root_cluster v) ns blk"
    and "list_all plain_component ns" "ns \<noteq> []" "blk ! 11 AND ATTR_DIRECTORY = 0"
    and "linked (\<lambda>c. fst (read_fat c v)) cs" "list_all (ram_live v) cs" "cs \<noteq> [] \<longrightarrow> cs ! 0 = block_cluster blk"
    and "unat (block_size blk) \<le> length cs * unat (bytes_per_cluster v)" "length cs * unat (bytes_per_cluster v) < 2 ^ 64"
  shows "\<exists>h v' h' v''. fat32_open None (Some v) (Some (47 # slash_join ns)) = Some (Some h, Some v') \<and>
    read_calls lens h v' = Some (slices (map unat lens) (take (unat (block_size blk)) (concat (map (ram_cluster v) cs))), h', v'')"
proof -
  obtain e s where f: "find_components (slash_join ns) (root_cluster v) 0 v = Some (e, s)" "e \<noteq> 0" "ram_same v s"
    "bytes_at (fmem s) e 32 = blk" using ram.find_components_hit [OF assms(1,3,4)] by blast
  have "dropWhile (\<lambda>c. c = 47) (47 # slash_join ns) = slash_join ns" "47 # slash_join ns \<noteq> [47]"
    using slash_join_front [OF assms(4,5)] by auto
  hence fp: "find_path (Some (47 # slash_join ns)) v = Some (e, s)" using f(1) by (simp add: find_path_def)
  define t where "t = s\<lparr>allocs := Suc (allocs s)\<rparr>"
  define h where "h = open_handle (fmem s) e"
  have al: "alloc_at s (allocs s) \<noteq> 0" using assms(2) f(3) by (simp add: ram_same_def)
  have op: "fat32_open None (Some v) (Some (47 # slash_join ns)) = Some (Some h, Some t)"
    using f(2) al by (simp add: fat32_open_def open_on_def fp fat_kmalloc_def t_def h_def)
  have rt: "ram_same v t" using f(3) by (simp add: t_def ram_same_def same_volume_def)
  have h: "\<not> is_dir h" "file_size h = block_size blk" "h_offset h = 0" "curr_cluster h = block_cluster blk"
    using assms(6) entry_block_facts(2) [OF f(4)] block_fields [OF f(4)] by (simp_all add: h_def open_handle_def)
  have len: "\<forall>c \<in> set cs. length (ram_cluster v c) = unat (bytes_per_cluster v)" by (simp add: ram_cluster_def bytes_at_def)
  have "stands_at (unat (bytes_per_cluster v)) cs 0 h"
    using h(3,4) assms(9) by (auto simp: stands_at_def)
  from ram.read_calls_chain [OF rt assms(7,8) len this h(1) _ assms(11), of lens] h(2) assms(10)
  show ?thesis using op by auto
qed

text \<open>
  C36: Reads from a block device: as long as nothing has been written, the bytes that any sequence of
  reads delivers are those of the clusters on the device, whatever was in the two buffers before, and
  whether or not they had been allocated.
\<close>

theorem fat32_device_read:
  assumes "dev_volume D v" "clean_cache D v"
    and "linked (dev_link D v) cs" "list_all (dev_live v) cs" "length cs * unat (bytes_per_cluster v) < 2 ^ 64"
    and "stands_at (unat (bytes_per_cluster v)) cs k h" "\<not> is_dir h"
    and "unat (file_size h) \<le> length cs * unat (bytes_per_cluster v)" "k \<le> unat (file_size h)"
  shows "\<exists>h' v'. read_calls lens h v =
    Some (slices (map unat lens) (drop k (take (unat (file_size h)) (concat (map (dev_cluster D v) cs)))), h', v')"
proof -
  have "dev_volume D v \<and> same_volume v v \<and> clean_cache D v" using assms(1,2) by (simp add: same_volume_def)
  from dev.read_calls_chain [OF this assms(3,4) _ assms(6-8) assms(5,9)] length_dev_cluster [OF assms(1)]
  show ?thesis by blast
qed

section \<open>Writing up to the end of a cluster\<close>

lemma write_loop_cluster:
  assumes "ram_same s s" "ram_live s (curr_cluster h)" "h_offset h = of_nat (i * b)" "b = unat (bytes_per_cluster s)"
    and "bs \<noteq> []" "length bs \<le> b" "i * b + length bs \<le> unat (file_size h)"
  shows "write_loop bs h s =
    Some (length bs, h\<lparr>h_offset := of_nat (i * b + length bs)\<rparr>,
      s\<lparr>fmem := poke (fmem s) (ram_sector_ptr s (cluster_sector s (curr_cluster h))) bs, cluster_dirty := True\<rparr>)"
proof -
  let ?p = "ram_sector_ptr s (cluster_sector s (curr_cluster h))"
  let ?s = "s\<lparr>fmem := poke (fmem s) ?p bs, cluster_dirty := True\<rparr>" and ?h = "h\<lparr>h_offset := of_nat (i * b + length bs)\<rparr>"
  have "unat (file_size h) < 2 ^ 32" using unsigned_less [of "file_size h"] by simp
  hence k: "i * b + length bs < 2 ^ 32" "i * b < 2 ^ 64" "length bs < 2 ^ 64" using assms(7) by simp_all
  have b: "0 < b" using assms(5,6) by (cases bs) auto
  have n: "unat (chunk_size s h (of_nat (length bs))) = length bs"
    using chunk_size_nat [OF assms(4) [symmetric] b assms(3) k(2,3)] assms(6) unat_of_nat_u64 [OF k(3)] by simp
  have off: "cluster_offset s h = 0" using cluster_offset_nat [OF assms(4) [symmetric] assms(3) k(2)] by simp
  have g: "get_cluster_ptr (curr_cluster h) s = (?p, s)" "?p \<noteq> 0"
    using assms(1,2) by (auto simp: get_cluster_ptr_def ram_same_def ram_live_def Let_def leD)
  have "unat (h_offset ?h) = i * b + length bs" using k(1) by (simp add: unat_of_nat_u64 del: of_nat_add of_nat_mult)
  hence gr: "grow ?h ?s = (?h, ?s)" using assms(7) by (simp add: grow_def word_less_nat_alt unat_ucast_u32)
  have "h\<lparr>h_offset := h_offset h + of_nat (length bs)\<rparr> = ?h" using assms(3) by simp
  thus ?thesis using assms(5) gr
    by (subst write_loop.simps) (simp add: Let_def n off g write_loop.simps [of "[]"])
qed

text \<open>
  A write that ends at the end of a cluster leaves the handle in that cluster. In a file of an image
  in memory that is longer than both writes, a write of one whole cluster is followed by a second
  write: both report success and the position moves on, but the second one is stored over the
  beginning of the same cluster, and the cluster that belongs to its position is not written.
\<close>

theorem write_boundary_overwrites:
  assumes "ram_same s s" "ram_live s (curr_cluster h)" "first_cluster h \<noteq> 0" "\<not> is_dir h"
    and "b = unat (bytes_per_cluster s)" "h_offset h = of_nat (i * b)" "(i + 2) * b \<le> unat (file_size h)"
    and "length xs = b" "ys \<noteq> []" "length ys \<le> b" "p = ram_sector_ptr s (cluster_sector s (curr_cluster h))"
  shows "\<exists>h1 s1 h2 s2. fat32_write (Some h) xs s = Some (as_int b, Some h1, s1) \<and>
    fat32_write (Some h1) ys s1 = Some (as_int (length ys), Some h2, s2) \<and>
    h_offset h2 = of_nat ((i + 1) * b + length ys) \<and> fmem s2 = poke (poke (fmem s) p xs) p ys"
proof -
  have b: "0 < b" using assms(9,10) by (cases ys) auto
  have xs: "xs \<noteq> []" using b assms(8) by auto
  let ?s1 = "s\<lparr>fmem := poke (fmem s) p xs, cluster_dirty := True\<rparr>" and ?h1 = "h\<lparr>h_offset := of_nat (i * b + b)\<rparr>"
  have w1: "write_loop xs h s = Some (b, ?h1, ?s1)"
    using write_loop_cluster [OF assms(1,2,6,5) xs] assms(7,8,11) by simp
  have p: "ram_sector_ptr ?s1 (cluster_sector ?s1 (curr_cluster ?h1)) = p"
    by (simp add: assms(11) ram_sector_ptr_def cluster_sector_def cluster_sectors_def Let_def)
  have s1: "ram_same ?s1 ?s1" "ram_live ?s1 (curr_cluster ?h1)" "b = unat (bytes_per_cluster ?s1)"
    using assms(1,2,5,11) p by (simp_all add: ram_same_def same_volume_def ram_live_def)
  have "write_loop ys ?h1 ?s1 = Some (length ys, ?h1\<lparr>h_offset := of_nat ((i + 1) * b + length ys)\<rparr>,
      ?s1\<lparr>fmem := poke (fmem ?s1) p ys, cluster_dirty := True\<rparr>)"
    using write_loop_cluster [OF s1(1,2) _ s1(3) assms(9,10), of "i + 1"] assms(7,10) p by (simp add: algebra_simps)
  thus ?thesis using w1 assms(3,4) by (simp add: fat32_write_def)
qed

section \<open>Examples\<close>

text \<open>
  An image of eight sectors at address \<open>0x10000\<close>: the boot sector, one table, the root directory in
  cluster 2 with the file \<open>a.b\<close> of 600 bytes in the clusters 3 and 4.
\<close>

definition fat_demo_mem :: mem where
  "fat_demo_mem = (\<lambda>_. 0)
     (0x1000C := 2, 0x1000D := 1, 0x1000E := 1, 0x10010 := 1, 0x10020 := 8, 0x10024 := 1, 0x1002C := 2,
      0x10208 := 0xFF, 0x10209 := 0xFF, 0x1020A := 0xFF, 0x1020B := 0x0F, 0x1020C := 4,
      0x10210 := 0xFF, 0x10211 := 0xFF, 0x10212 := 0xFF, 0x10213 := 0x0F,
      0x10400 := 65, 0x10401 := 32, 0x10402 := 32, 0x10403 := 32, 0x10404 := 32, 0x10405 := 32, 0x10406 := 32,
      0x10407 := 32, 0x10408 := 66, 0x10409 := 32, 0x1040A := 32, 0x1040B := 0x20, 0x1041A := 3, 0x1041C := 0x58, 0x1041D := 2,
      0x10600 := 104, 0x10601 := 105, 0x10800 := 33)"

definition fat_demo :: "unit fat32" where
  "fat_demo = the (mount_ramdisk 0x10000 4096 fat_demo_mem () (\<lambda>i. 0x900000 + of_nat (i mod 8) * 0x1000) 0)"

lemma fat_demo_bpb: "bpb_at fat_demo_mem 0x10000 =
  \<lparr>bytes_per_sector = 512, sectors_per_cluster = 1, reserved_sector_count = 1, num_fats = 1,
   total_sectors_32 = 8, fat_size_32 = 1, bpb_root_cluster = 2\<rparr>"
  by (simp add: bpb_at_def read16_def read32_def load_2 load_4) (simp add: fat_demo_mem_def)

lemma fat_demo_eq: "fat_demo = (blank_volume fat_demo_mem () (\<lambda>i. 0x900000 + of_nat (i mod 8) * 0x1000) 1)
  \<lparr>disk_image := 0x10000, disk_size := 4096, bpb := bpb_at fat_demo_mem 0x10000, bytes_per_cluster := 512,
   fat_start_sector := 1, data_start_sector := 2, root_cluster := 2\<rparr>"
  by (simp add: fat_demo_def mount_ramdisk_def blank_volume_def init_volume_from_image_def Let_def fat_demo_bpb)

lemma fat_demo_fields:
  "disk_image fat_demo = 0x10000" "disk_size fat_demo = 4096" "bytes_per_cluster fat_demo = 512"
  "fat_start_sector fat_demo = 1" "data_start_sector fat_demo = 2" "root_cluster fat_demo = 2" "fmem fat_demo = fat_demo_mem"
  "bytes_per_sector (bpb fat_demo) = 512" "sectors_per_cluster (bpb fat_demo) = 1"
  "alloc_at fat_demo i = 0x900000 + of_nat (i mod 8) * 0x1000"
  by (simp_all add: fat_demo_eq fat_demo_bpb blank_volume_def)

lemma fat_demo_clusters:
  "ram_sector_ptr fat_demo (cluster_sector fat_demo 2) = 0x10400"
  "ram_sector_ptr fat_demo (cluster_sector fat_demo 3) = 0x10600"
  "ram_sector_ptr fat_demo (cluster_sector fat_demo 4) = 0x10800"
  by (simp_all add: ram_sector_ptr_def cluster_sector_def cluster_sectors_def fat_demo_fields Let_def)

lemma fat_demo_fat:
  "fst (read_fat 2 fat_demo) = 0x0FFFFFFF" "fst (read_fat 3 fat_demo) = 4" "fst (read_fat 4 fat_demo) = 0x0FFFFFFF"
  by (simp_all add: read_fat_def fat_position_def sector_size_def get_sector_ptr_def ram_sector_ptr_def fat_demo_fields
    Let_def read32_def load_4 fat_demo_mem_def)

lemma fat_demo_live: "ram_same fat_demo fat_demo" "ram_live fat_demo 2" "ram_live fat_demo 3" "ram_live fat_demo 4"
  by (simp_all add: ram_same_def same_volume_def ram_live_def fat_demo_clusters fat_demo_fields)

definition demo_entry :: "u8 list" where
  "demo_entry = [65, 32, 32, 32, 32, 32, 32, 32, 66, 32, 32, 0x20,
     0, 0, 0, 0, 0, 0, 0, 0, 0, 0, 0, 0, 0, 0, 3, 0, 0x58, 2, 0, 0]"

lemma demo_entry_in_root: "dir_has (ram_live fat_demo) (\<lambda>c. fst (read_fat c fat_demo)) (ram_cluster fat_demo) 2 [97, 46, 98] demo_entry"
proof -
  have "take 32 (ram_cluster fat_demo 2) = bytes_at fat_demo_mem 0x10400 32"
    using bytes_at_part [of 0 32 512 fat_demo_mem "0x10400"] by (simp add: ram_cluster_def fat_demo_clusters fat_demo_fields)
  also have "\<dots> = demo_entry"
  proof -
    have "[0..<32] = [0, 1, 2, 3, 4, 5, 6, 7, 8, 9, 10, 11, 12, 13, 14, 15, 16, 17, 18, 19, 20, 21, 22, 23, 24, 25, 26, 27, 28, 29, 30, 31 :: nat]"
      by code_simp
    thus ?thesis by (simp add: bytes_at_def demo_entry_def fat_demo_mem_def)
  qed
  finally have blk: "take 32 (ram_cluster fat_demo 2) = demo_entry" .
  have "length (ram_cluster fat_demo 2) = 512" by (simp add: ram_cluster_def bytes_at_def fat_demo_fields)
  hence es: "entry_blocks (ram_cluster fat_demo 2) = [] @ demo_entry # List.tl (entry_blocks (ram_cluster fat_demo 2))"
    using blk by (simp add: entry_blocks_def upt_conv_Cons)
  have "filename_to_short [97, 46, 98] = [65, 32, 32, 32, 32, 32, 32, 32, 66, 32, 32]" by code_simp
  hence "matches (filename_to_short [97, 46, 98]) demo_entry"
    by (simp add: matches_def hidden_def demo_entry_def ATTR_LONG_NAME_def)
  hence "in_dir (\<lambda>c. fst (read_fat c fat_demo)) (ram_cluster fat_demo) [2] (filename_to_short [97, 46, 98]) demo_entry"
    using es unfolding in_dir_def
    by (intro conjI exI [of _ "[]"] exI [of _ 2] exI [of _ "List.tl (entry_blocks (ram_cluster fat_demo 2))"])
      (simp_all add: fat_demo_fat END_OF_CHAIN_def)
  thus ?thesis using fat_demo_live(2) unfolding dir_has_def by (intro exI [of _ "[2]"]) simp
qed

theorem fat32_open_read_witness:
  "\<exists>h v' h' v''. fat32_open None (Some fat_demo) (Some [47, 97, 46, 98]) = Some (Some h, Some v') \<and>
    read_calls [4, 1000] h v' = Some (slices [4, 1000] (take 600 (concat (map (ram_cluster fat_demo) [3, 4]))), h', v'')"
proof -
  have blk: "demo_entry ! 11 AND ATTR_DIRECTORY = 0" "block_cluster demo_entry = 3" "block_size demo_entry = 600"
    by (simp_all add: demo_entry_def ATTR_DIRECTORY_def block_cluster_def block_size_def entry_cluster_def entry_size_def
      read16_def read32_def load_2 load_4 poke_def)
  have "alloc_at fat_demo i \<noteq> 0" for i
  proof -
    have "i mod 8 < 8" by simp
    hence "unat (alloc_at fat_demo i) = 0x900000 + (i mod 8) * 0x1000"
      unfolding fat_demo_fields(10) by (subst unat_add_u64) (simp_all add: unat_mult_u64 unat_of_nat_u64)
    thus ?thesis by (metis add_is_0 unat_0 zero_neq_numeral)
  qed
  from fat32_open_read [OF fat_demo_live(1) this, of "[[97, 46, 98]]" demo_entry "[3, 4]" "[4, 1000]"]
  show ?thesis
    using demo_entry_in_root blk fat_demo_live by (simp add: fat_demo_fields plain_component_def fat_demo_fat END_OF_CHAIN_def)
qed

text \<open>The same bytes on a block device, and a handle at the beginning of the last 88 bytes of the file.\<close>

definition demo_sector :: "u64 \<Rightarrow> u8 list" where
  "demo_sector x = bytes_at fat_demo_mem (0x10000 + x * 512) 512"

definition fat_device :: "unit fat32" where
  "fat_device = fat_demo\<lparr>disk_image := 0,
     backend_read := Some (\<lambda>sector n buf m w. (True, poke m buf (concat (map (\<lambda>i. demo_sector (sector + of_nat i)) [0..<unat n])), w))\<rparr>"

definition demo_handle :: fat_handle where
  "demo_handle = \<lparr>first_cluster = 3, curr_cluster = 3, file_size = 600, h_offset = 0, is_dir = False, dir_entry = 0x10400\<rparr>"

lemma fat_device_volume: "dev_volume demo_sector fat_device"
  by (simp add: dev_volume_def fat_device_def reads_disk_def demo_sector_def bytes_at_def sector_size_def cluster_sectors_def fat_demo_fields)

lemma fat_demo_cache: "cluster_buf fat_demo = 0" "sector_buf fat_demo = 0" "\<not> cluster_dirty fat_demo" "\<not> sector_dirty fat_demo" "allocs fat_demo = 1"
  by (simp_all add: fat_demo_eq blank_volume_def)

lemma fat_device_clean: "clean_cache demo_sector fat_device"
proof -
  have "buffers fat_device = (0x901000, 0x902000)"
    by (simp add: buffers_def fat_device_def fat_demo_cache fat_demo_fields)
  moreover have "separate 512 0x901000 0x902000" by (simp add: separate_def apart_nat)
  ultimately show ?thesis by (simp add: clean_cache_def) (simp add: fat_device_def fat_demo_cache fat_demo_fields)
qed

lemma fat_device_links: "dev_link demo_sector fat_device 3 = 4" "dev_link demo_sector fat_device 4 = 0x0FFFFFFF"
  "dev_live fat_device 3" "dev_live fat_device 4"
  by (simp_all add: dev_link_def dev_live_def fat_position_def sector_size_def fat_device_def fat_demo_fields demo_sector_def
    read32_def load_4 poke_def bytes_at_def) (simp_all add: fat_demo_mem_def)

theorem fat32_device_read_witness:
  "\<exists>h' v'. read_calls [4, 1000] demo_handle fat_device =
    Some (slices [4, 1000] (drop 0 (take 600 (concat (map (dev_cluster demo_sector fat_device) [3, 4])))), h', v')"
proof -
  have f: "bytes_per_cluster fat_device = 512" by (simp add: fat_device_def fat_demo_fields)
  have h: "stands_at 512 [3, 4] 0 demo_handle" "\<not> is_dir demo_handle" "file_size demo_handle = 600"
    by (simp_all add: stands_at_def demo_handle_def)
  show ?thesis
    using fat32_device_read [OF fat_device_volume fat_device_clean, of "[3, 4]" 0 demo_handle "[4, 1000]"] h
    by (simp add: f fat_device_links END_OF_CHAIN_def)
qed

theorem write_boundary_overwrites_witness:
  "\<exists>h1 s1 h2 s2. fat32_write (Some (demo_handle\<lparr>file_size := 1024\<rparr>)) (replicate 512 1) fat_demo = Some (as_int 512, Some h1, s1) \<and>
    fat32_write (Some h1) [2] s1 = Some (as_int 1, Some h2, s2) \<and>
    h_offset h2 = 513 \<and> fmem s2 = poke (poke fat_demo_mem 0x10600 (replicate 512 1)) 0x10600 [2]"
  using write_boundary_overwrites [of fat_demo "demo_handle\<lparr>file_size := 1024\<rparr>" 512 0 "replicate 512 1" "[2]" "0x10600"]
    fat_demo_live
  by (simp add: demo_handle_def fat_demo_fields fat_demo_clusters)

end
