(* ===== verification/Isofs.thy ===== *)
theory Isofs
  imports Byte_Paths
begin

unbundle bit_operations_syntax

text \<open>
  The file system of a CD image, \<open>src/fs/isofs.cpp\<close>. The drive is a parameter: \<open>disk lba\<close> is what
  \<open>drivers::ahci::atapi::read\<close> delivers for one block, \<open>None\<close> when it fails. The results of \<open>kmalloc\<close>
  are a parameter as well: \<open>alloc i n\<close> is the memory that the call number \<open>i\<close> gets for \<open>n\<close> bytes, with
  whatever it holds, \<open>None\<close> being the null pointer. The code reads the record that it has found once
  more after it has freed the buffer with the record; \<open>freed\<close> is what the buffer holds by then.

  A path is the list of the bytes before its terminating zero. The outer \<open>None\<close> of a result is a fault:
  an access outside of a buffer or a division by zero. Messages to the serial port are left out.
\<close>

section \<open>Data\<close>

record iso_volume =
  iso_port :: u8
  iso_block_size :: u32
  root_extent :: u32
  root_size :: u32

record iso_handle =
  hvol :: iso_volume
  extent :: u32
  fsize :: u32
  offset :: u64
  is_directory :: bool

record iso_env =
  disk :: "u8 \<Rightarrow> u32 \<Rightarrow> u8 list option"
  alloc :: "nat \<Rightarrow> u32 \<Rightarrow> u8 list option"
  freed :: "u8 list \<Rightarrow> u8 list"

definition ISO_FLAG_DIRECTORY :: u8 where "ISO_FLAG_DIRECTORY = 2"

text \<open>The fields of a record of a directory that starts at offset \<open>p\<close> of a buffer.\<close>

definition word_at :: "u8 list \<Rightarrow> nat \<Rightarrow> u32" where
  "word_at bs p = read32 (poke (\<lambda>_. 0) 0 (take 4 (drop p bs))) 0"

definition rec_extent :: "u8 list \<Rightarrow> nat \<Rightarrow> u32" where "rec_extent bs p = word_at bs (p + 2)"
definition rec_data_length :: "u8 list \<Rightarrow> nat \<Rightarrow> u32" where "rec_data_length bs p = word_at bs (p + 10)"
definition rec_flags :: "u8 list \<Rightarrow> nat \<Rightarrow> u8" where "rec_flags bs p = bs ! (p + 25)"
definition rec_name_len :: "u8 list \<Rightarrow> nat \<Rightarrow> nat" where "rec_name_len bs p = unat (bs ! (p + 32))"
definition rec_raw_name :: "u8 list \<Rightarrow> nat \<Rightarrow> u8 list" where
  "rec_raw_name bs p = take (rec_name_len bs p) (drop (p + 33) bs)"

section \<open>Names\<close>

definition lower :: "u8 \<Rightarrow> u8" where
  "lower c = (if 65 \<le> c \<and> c \<le> 90 then c + 32 else c)"

text \<open>
  The search for the last dot of a name without a semicolon, from position \<open>j\<close> down, which cuts the
  name off when the dot follows \<open>1;\<close>.
\<close>

fun cut_version :: "u8 list \<Rightarrow> nat \<Rightarrow> u8 list" where
  "cut_version n 0 = n"
| "cut_version n (Suc j) =
     (if n ! j = 46 then
        if 2 \<le> j \<and> n ! (j - 1) = 59 \<and> n ! (j - 2) = 49 then take (j - 2) n else n
      else cut_version n j)"

definition record_name :: "u8 list \<Rightarrow> u8 list" where
  "record_name raw =
     (if 2 \<le> length raw \<and> raw ! 0 = 0 then [46]
      else if 2 \<le> length raw \<and> raw ! 0 = 1 then [46, 46]
      else
        let n = takeWhile (\<lambda>c. c \<noteq> 59) raw;
            n = (if 59 \<in> set raw then n else cut_version n (length n))
        in map lower n)"

section \<open>Directories\<close>

text \<open>
  Reading a directory: \<open>remaining\<close> bytes are still to come, and each block is put, with all of its 2048
  bytes, behind what has been read. A failed read ends the loop and leaves the rest of the buffer as it was.
\<close>

function read_directory :: "iso_env \<Rightarrow> u8 \<Rightarrow> u32 \<Rightarrow> u32 \<Rightarrow> u32 \<Rightarrow> u8 list \<Rightarrow> u8 list option" where
  "read_directory env port dir_size remaining lba buf =
     (if remaining = 0 then Some buf
      else
        (case disk env port lba of
           None \<Rightarrow> Some buf
         | Some blk \<Rightarrow>
             let pos = unat (dir_size - remaining)
             in if pos + 2048 \<le> length buf
                then read_directory env port dir_size (remaining - (if remaining < 2048 then remaining else 2048))
                       (lba + 1) (take pos buf @ take 2048 blk @ drop (pos + 2048) buf)
                else None))"
  by pat_completeness auto
termination
  by (relation "measure (\<lambda>(env, port, d, r, lba, buf). unat r)")
    (auto simp: word_le_nat_alt word_less_nat_alt unat_sub_if' unat_gt_0)

text \<open>The search for a component in a buffer: the offset of its record.\<close>

function find_record :: "u8 list \<Rightarrow> nat \<Rightarrow> nat \<Rightarrow> u8 list \<Rightarrow> nat option option" where
  "find_record buf fin p component =
     (if p < fin then
        if length buf \<le> p then None
        else if buf ! p = 0 then find_record buf fin (p + 1) component
        else if fin < p + unat (buf ! p) then Some None
        else if length buf \<le> p + 32 \<or> length buf < p + 33 + rec_name_len buf p then None
        else if record_name (rec_raw_name buf p) = component then Some (Some p)
        else find_record buf fin (p + unat (buf ! p)) component
      else Some None)"
  by pat_completeness auto
termination
  by (relation "measure (\<lambda>(buf, fin, p, c). fin - p)") (auto simp: unat_gt_0 intro!: diff_less_mono2)

declare read_directory.simps [simp del] find_record.simps [simp del]

section \<open>Operations\<close>

definition new_handle :: "iso_env \<Rightarrow> nat \<Rightarrow> iso_handle \<Rightarrow> iso_handle option" where
  "new_handle env i h = (if alloc env i 32 = None then None else Some h)"

text \<open>
  The loop over the components of a path, with the number of calls of \<open>kmalloc\<close> so far. A component
  longer than 255 bytes is compared by its first 255.
\<close>

function open_components :: "iso_env \<Rightarrow> iso_volume \<Rightarrow> u8 list \<Rightarrow> u32 \<Rightarrow> u32 \<Rightarrow> nat \<Rightarrow> iso_handle option option" where
  "open_components env vol p dir_extent dir_size i =
     (if p = [] then Some None
      else
        let component = take 255 (takeWhile (\<lambda>c. c \<noteq> 47) p);
            rest = dropWhile (\<lambda>c. c = 47) (dropWhile (\<lambda>c. c \<noteq> 47) p)
        in if component = [] then open_components env vol rest dir_extent dir_size i
           else
             (case alloc env i (dir_size + 2048) of
                None \<Rightarrow> Some None
              | Some buf \<Rightarrow>
                  (case read_directory env (iso_port vol) dir_size dir_size dir_extent buf of
                     None \<Rightarrow> None
                   | Some dir \<Rightarrow>
                       (case find_record dir (unat dir_size) 0 component of
                          None \<Rightarrow> None
                        | Some None \<Rightarrow> Some None
                        | Some (Some r) \<Rightarrow>
                            if rest = [] then
                              let stale = freed env dir
                              in Some (new_handle env (Suc i)
                                   \<lparr>hvol = vol, extent = rec_extent stale r, fsize = rec_data_length stale r, offset = 0,
                                    is_directory = rec_flags stale r AND ISO_FLAG_DIRECTORY \<noteq> 0\<rparr>)
                            else open_components env vol rest (rec_extent dir r) (rec_data_length dir r) (Suc i)))))"
  by pat_completeness auto

lemma length_rest:
  assumes "p \<noteq> []"
  shows "length (dropWhile (\<lambda>c. c = 47) (dropWhile (\<lambda>c. c \<noteq> 47) p)) < length (p :: u8 list)"
proof (cases p)
  case (Cons c cs)
  show ?thesis
  proof (cases "c = 47")
    case True
    have "length (dropWhile (\<lambda>c. c = 47) cs) \<le> length cs" by (rule length_dropWhile_le)
    thus ?thesis using Cons True by simp
  next
    case False
    have "length (dropWhile (\<lambda>c. c = 47) (dropWhile (\<lambda>c. c \<noteq> 47) cs)) \<le> length cs"
      using length_dropWhile_le [of "\<lambda>c. c = 47" "dropWhile (\<lambda>c. c \<noteq> 47) cs"] length_dropWhile_le [of "\<lambda>c. c \<noteq> 47" cs] by linarith
    thus ?thesis using Cons False by simp
  qed
qed (use assms in simp)

termination open_components
  by (relation "measure (\<lambda>(env, vol, p, e, d, i). length p)") (auto simp: length_rest)

declare open_components.simps [simp del]

definition isofs_open :: "iso_env \<Rightarrow> iso_volume option \<Rightarrow> u8 list option \<Rightarrow> iso_handle option option" where
  "isofs_open env data path =
     (case (data, path) of
        (Some vol, Some path) \<Rightarrow>
          let path = dropWhile (\<lambda>c. c = 47) path
          in if path = [] then
               Some (new_handle env 0 \<lparr>hvol = vol, extent = root_extent vol, fsize = root_size vol, offset = 0, is_directory = True\<rparr>)
             else if disk env (iso_port vol) (root_extent vol) = None then Some None
             else open_components env vol path (root_extent vol) (root_size vol) 0
      | _ \<Rightarrow> Some None)"

lemma block_offset:
  assumes "bs \<noteq> (0::u32)"
  shows "unat (ucast ((k::u64) mod ucast bs) :: u32) = unat k mod unat bs"
    "unat (ucast (bs - ucast (k mod ucast bs)) :: u64) = unat bs - unat k mod unat bs"
proof -
  have "unat bs < 2 ^ 32" using unsigned_less [of bs] by simp
  hence b: "unat (ucast bs :: u64) = unat bs" "0 < unat bs" "unat bs < 2 ^ 32"
    using assms by (simp_all add: unsigned_ucast_eq take_bit_nat_eq_self unat_gt_0)
  have less: "unat k mod unat bs < unat bs" using b(2) by simp
  have m: "unat (k mod ucast bs) = unat k mod unat bs" by (simp add: unat_mod_distrib b(1))
  show 1: "unat (ucast (k mod ucast bs) :: u32) = unat k mod unat bs"
    using less b(3) by (simp add: unsigned_ucast_eq m take_bit_nat_eq_self)
  have "ucast (k mod ucast bs) \<le> bs" using 1 less by (simp add: word_le_nat_alt)
  hence "unat (bs - ucast (k mod ucast bs)) = unat bs - unat k mod unat bs" by (simp add: unat_sub 1)
  thus "unat (ucast (bs - ucast (k mod ucast bs)) :: u64) = unat bs - unat k mod unat bs"
    using b(3) by (simp add: unsigned_ucast_eq take_bit_nat_eq_self)
qed

lemma chunk_nonzero: "bs \<noteq> (0::u32) \<Longrightarrow> ucast (bs - ucast ((k::u64) mod ucast bs)) \<noteq> (0::u64)"
  using block_offset(2) [of bs k] by (metis diff_is_0_eq mod_less_divisor not_le unat_0 unat_gt_0)

text \<open>The loop of \<open>read\<close>, for \<open>n\<close> bytes: the bytes that it copies, and the handle.\<close>

function read_blocks :: "iso_env \<Rightarrow> u64 \<Rightarrow> iso_handle \<Rightarrow> (u8 list \<times> iso_handle) option" where
  "read_blocks env n h =
     (if n = 0 then Some ([], h)
      else
        let bs = iso_block_size (hvol h)
        in if bs = 0 then None
           else
             (case disk env (iso_port (hvol h)) (ucast (ucast (extent h) + offset h div ucast bs)) of
                None \<Rightarrow> Some ([], h)
              | Some blk \<Rightarrow>
                  let off = ucast (offset h mod ucast bs) :: u32;
                      chunk = ucast (bs - off) :: u64;
                      chunk = (if n < chunk then n else chunk)
                  in if length blk < unat off + unat chunk then None
                     else
                       map_option (\<lambda>(bytes, h'). (take (unat chunk) (drop (unat off) blk) @ bytes, h'))
                         (read_blocks env (n - chunk) (h\<lparr>offset := offset h + chunk\<rparr>))))"
  by pat_completeness auto
termination
  by (relation "measure (\<lambda>(env, n, h). unat n)")
    (auto simp: word_le_nat_alt word_less_nat_alt unat_sub_if' unat_gt_0 Let_def chunk_nonzero)

declare read_blocks.simps [simp del]

text \<open>The result of \<open>read\<close> with the bytes in the buffer of the caller.\<close>

definition isofs_read :: "iso_env \<Rightarrow> iso_handle option \<Rightarrow> u64 \<Rightarrow> (int \<times> u8 list \<times> iso_handle option) option" where
  "isofs_read env file n =
     (case file of
        None \<Rightarrow> Some (-1, [], None)
      | Some h \<Rightarrow>
          if is_directory h then Some (-1, [], Some h)
          else if ucast (fsize h) \<le> offset h then Some (0, [], Some h)
          else
            map_option (\<lambda>(bytes, h'). (sint (of_nat (length bytes) :: u32), bytes, Some h'))
              (read_blocks env (min n (ucast (fsize h) - offset h)) h))"

definition isofs_write :: "iso_handle option \<Rightarrow> u8 list \<Rightarrow> int" where "isofs_write file bs = -1"

text \<open>
  What \<open>list\<close> prints: the names of the root directory, with a mark for directories. A dot with nothing
  but digits behind it ends the name.
\<close>

fun list_name :: "u8 list \<Rightarrow> u8 list" where
  "list_name [] = []"
| "list_name (c # cs) = (if c = 46 \<and> list_all (\<lambda>d. 48 \<le> d \<and> d \<le> 57) cs then 0 else lower c) # list_name cs"

definition list_line :: "u8 list \<Rightarrow> nat \<Rightarrow> (u8 list \<times> bool) list" where
  "list_line buf p =
     (let raw = rec_raw_name buf p
      in if length raw = 1 \<and> (raw ! 0 = 0 \<or> raw ! 0 = 1) then []
         else [(takeWhile (\<lambda>c. c \<noteq> 0) (list_name (takeWhile (\<lambda>c. c \<noteq> 59) raw)), rec_flags buf p AND ISO_FLAG_DIRECTORY \<noteq> 0)])"

function list_records :: "u8 list \<Rightarrow> nat \<Rightarrow> nat \<Rightarrow> (u8 list \<times> bool) list option" where
  "list_records buf fin p =
     (if p < fin then
        if length buf \<le> p then None
        else if buf ! p = 0 then list_records buf fin (p + 1)
        else if fin < p + unat (buf ! p) then Some []
        else if length buf \<le> p + 32 \<or> length buf < p + 33 + rec_name_len buf p then None
        else map_option (\<lambda>ls. list_line buf p @ ls) (list_records buf fin (p + unat (buf ! p)))
      else Some [])"
  by pat_completeness auto
termination
  by (relation "measure (\<lambda>(buf, fin, p). fin - p)") (auto simp: unat_gt_0 intro!: diff_less_mono2)

declare list_records.simps [simp del]

definition isofs_list :: "iso_env \<Rightarrow> iso_volume option \<Rightarrow> (u8 list \<times> bool) list option" where
  "isofs_list env data =
     (case data of
        None \<Rightarrow> Some []
      | Some vol \<Rightarrow>
          (case alloc env 0 (root_size vol + 2048) of
             None \<Rightarrow> Some []
           | Some buf \<Rightarrow>
               Option.bind (read_directory env (iso_port vol) (root_size vol) (root_size vol) (root_extent vol) buf)
                 (\<lambda>dir. list_records dir (unat (root_size vol)) 0)))"

text \<open>Mounting: the volume descriptor is block 16.\<close>

definition iso_mount :: "iso_env \<Rightarrow> u8 \<Rightarrow> iso_volume option" where
  "iso_mount env port =
     (case disk env port 16 of
        None \<Rightarrow> None
      | Some pvd \<Rightarrow>
          if pvd ! 0 \<noteq> 1 \<or> take 5 (drop 1 pvd) \<noteq> [67, 68, 48, 48, 49] then None
          else if alloc env 0 16 = None then None
          else Some \<lparr>iso_port = port, iso_block_size = word_at pvd 128 AND 0xFFFF, root_extent = rec_extent pvd 156,
                 root_size = rec_data_length pvd 156\<rparr>)"

section \<open>Reading a file\<close>

text \<open>The first \<open>k\<close> blocks from \<open>lba\<close> on can be read, and what a file with blocks of \<open>b\<close> bytes has there.\<close>

definition readable :: "iso_env \<Rightarrow> u8 \<Rightarrow> u32 \<Rightarrow> nat \<Rightarrow> bool" where
  "readable env port lba k \<longleftrightarrow> (\<forall>i<k. \<exists>blk. disk env port (lba + of_nat i) = Some blk \<and> length blk = 2048)"

definition blocks_of :: "iso_env \<Rightarrow> u8 \<Rightarrow> nat \<Rightarrow> u32 \<Rightarrow> nat \<Rightarrow> u8 list list" where
  "blocks_of env port b lba k = map (\<lambda>i. take b (the (disk env port (lba + of_nat i)))) [0..<k]"

lemma readable_nth:
  assumes "readable env port lba k" "i < k"
  shows "disk env port (lba + of_nat i) = Some (the (disk env port (lba + of_nat i)))"
    "length (the (disk env port (lba + of_nat i))) = 2048"
  using assms by (fastforce simp: readable_def)+

lemma readable_Suc: "readable env port lba (Suc k) \<Longrightarrow> readable env port (lba + 1) k"
  by (auto simp: readable_def add.assoc dest: spec [of _ "Suc _"])

lemma blocks_of_Suc:
  "blocks_of env port b lba (Suc k) = take b (the (disk env port lba)) # blocks_of env port b (lba + 1) k"
  by (simp add: blocks_of_def upt_conv_Cons map_Suc_upt [symmetric] comp_def add.assoc del: upt_Suc)

lemma ucast_add_down: "ucast (ucast e + x) = e + (ucast x :: u32)" for x :: u64
proof (transfer)
  fix e x :: int
  have "take_bit 32 (e + take_bit 64 x) = take_bit 32 (take_bit 32 e + take_bit 32 (take_bit 64 x))"
    by (rule take_bit_add [symmetric])
  also have "take_bit 32 (take_bit 64 x) = take_bit 32 x" by simp
  also have "take_bit 32 (take_bit 32 e + take_bit 32 x) = take_bit 32 (take_bit 32 (take_bit 32 e) + take_bit 32 x)" by simp
  also have "\<dots> = take_bit 32 (take_bit 32 e + x)" by (rule take_bit_add)
  finally show "take_bit LENGTH(32) (take_bit LENGTH(64) (take_bit LENGTH(32) e + x)) =
    take_bit LENGTH(32) (e + take_bit LENGTH(64) x)" by simp
qed

lemma block_lba:
  assumes "bs \<noteq> (0::u32)"
  shows "ucast (ucast e + (k::u64) div ucast bs) = (e :: u32) + of_nat (unat k div unat bs)"
proof -
  have b: "unat (ucast bs :: u64) = unat bs"
  proof -
    have "unat bs < 2 ^ 32" using unsigned_less [of bs] by simp
    thus ?thesis by (simp add: unsigned_ucast_eq take_bit_nat_eq_self)
  qed
  have "(ucast (k div ucast bs) :: u32) = of_nat (unat (k div ucast bs))" by simp
  also have "\<dots> = of_nat (unat k div unat bs)" unfolding unat_div_distrib b ..
  finally have "(ucast (k div ucast bs) :: u32) = of_nat (unat k div unat bs)" .
  thus ?thesis by (simp add: ucast_add_down)
qed

lemma min_u64: "unat (if n < c then n else c) = min (unat n) (unat (c :: u64))"
  by (simp add: word_less_nat_alt min_def)

lemma read_blocks_step:
  assumes "n \<noteq> 0" "b = unat (iso_block_size (hvol h))" "0 < b" "k = unat (offset h)"
    and "disk env (iso_port (hvol h)) (extent h + of_nat (k div b)) = Some blk" "b \<le> length blk"
    and "c = min (unat n) (b - k mod b)"
  shows "read_blocks env n h =
    map_option (\<lambda>(bytes, h'). (take c (drop (k mod b) blk) @ bytes, h')) (read_blocks env (n - of_nat c) (h\<lparr>offset := offset h + of_nat c\<rparr>))"
proof -
  let ?bs = "iso_block_size (hvol h)"
  have bs: "?bs \<noteq> 0" using assms(2,3) by auto
  have off: "unat (ucast (offset h mod ucast ?bs) :: u32) = k mod b" using block_offset(1) [OF bs] assms(2,4) by simp
  have c: "unat (if n < ucast (?bs - ucast (offset h mod ucast ?bs)) then n else ucast (?bs - ucast (offset h mod ucast ?bs))) = c"
    unfolding min_u64 using block_offset(2) [OF bs, of "offset h"] assms(2,4,7) by simp
  have c': "(if n < ucast (?bs - ucast (offset h mod ucast ?bs)) then n else ucast (?bs - ucast (offset h mod ucast ?bs))) = of_nat c"
    using arg_cong [OF c, of "of_nat :: nat \<Rightarrow> u64"] by (simp only: of_nat_unat_u64)
  have fits: "\<not> length blk < k mod b + c" using assms(3,6,7) mod_less_divisor [of b k] by linarith
  have d: "disk env (iso_port (hvol h)) (ucast (ucast (extent h) + offset h div ucast ?bs)) = Some blk"
    using assms(2,4,5) by (simp only: block_lba [OF bs])
  have uc: "unat (of_nat c :: u64) = c" using c c' by simp
  show ?thesis unfolding read_blocks.simps [of env n h] Let_def c'
    by (simp only: if_not_P [OF assms(1)] if_not_P [OF bs] d option.case off uc if_not_P [OF fits])
qed

text \<open>The loop delivers the next \<open>n\<close> bytes of the file.\<close>

lemma read_blocks_file:
  assumes b: "b = unat (iso_block_size (hvol h))" "0 < b" "b \<le> 2048" and r: "readable env (iso_port (hvol h)) (extent h) k"
    and n: "unat (offset h) + unat n \<le> k * b" "k * b < 2 ^ 64"
  shows "read_blocks env n h =
    Some (take (unat n) (drop (unat (offset h)) (concat (blocks_of env (iso_port (hvol h)) b (extent h) k))),
      h\<lparr>offset := offset h + n\<rparr>)"
  using assms
proof (induction "unat n" arbitrary: n h rule: less_induct)
  case less
  let ?o = "unat (offset h)" and ?xs = "blocks_of env (iso_port (hvol h)) b (extent h) k"
  show ?case
  proof (cases "n = 0")
    case True thus ?thesis by (simp add: read_blocks.simps)
  next
    case False
    hence n0: "0 < unat n" by (simp add: unat_gt_0)
    hence i: "?o div b < k" using less.prems(2,5) by (simp add: div_less_iff_less_mult)
    note blk = readable_nth [OF less.prems(4) i]
    define c where "c = min (unat n) (b - ?o mod b)"
    have c: "0 < c" "c \<le> unat n" "?o mod b + c \<le> b" using n0 mod_less_divisor [OF less.prems(2), of ?o] by (simp_all add: c_def)
    have uc: "unat (of_nat c :: u64) = c" using c(2) unat_u64_less [of n] by (intro unat_of_nat_u64) linarith
    have cn: "of_nat c \<le> n" using c(2) by (simp add: word_le_nat_alt uc)
    have adv: "unat (offset h + of_nat c) = ?o + c"
      using c less.prems(5,6) uc by (simp add: unat_add_u64)
    have sub: "unat (n - of_nat c) = unat n - c" using unat_sub [OF cn] uc by simp
    have IH: "read_blocks env (n - of_nat c) (h\<lparr>offset := offset h + of_nat c\<rparr>) =
      Some (take (unat n - c) (drop (?o + c) (concat ?xs)), h\<lparr>offset := offset h + n\<rparr>)"
      using less.hyps [of "n - of_nat c" "h\<lparr>offset := offset h + of_nat c\<rparr>"] less.prems c sub adv by simp
    have "\<forall>x \<in> set ?xs. length x = b" using less.prems(3,4) readable_nth(2) by (auto simp: blocks_of_def)
    from take_drop_concat [OF this _ c(3), of "?o div b"] i
    have piece: "take c (drop ?o (concat ?xs)) = take c (drop (?o mod b) (the (disk env (iso_port (hvol h)) (extent h + of_nat (?o div b)))))"
      using c(3) by (simp add: blocks_of_def drop_take min_def)
    have "take c (drop ?o (concat ?xs)) @ take (unat n - c) (drop (?o + c) (concat ?xs)) = take (unat n) (drop ?o (concat ?xs))"
      using c(2) take_add [of c "unat n - c" "drop ?o (concat ?xs)"] by (simp add: add.commute)
    thus ?thesis
      using read_blocks_step [OF False less.prems(1,2) refl blk(1) _ c_def] blk(2) less.prems(3) IH piece by simp
  qed
qed

text \<open>A sequence of reads with one handle.\<close>

fun iso_reads :: "iso_env \<Rightarrow> u64 list \<Rightarrow> iso_handle \<Rightarrow> (u8 list list \<times> iso_handle) option" where
  "iso_reads env [] h = Some ([], h)"
| "iso_reads env (n # ns) h =
     (case isofs_read env (Some h) n of
        Some (_, bytes, Some h') \<Rightarrow> map_option (\<lambda>(bss, h''). (bytes # bss, h'')) (iso_reads env ns h')
      | _ \<Rightarrow> None)"

lemma iso_reads_file:
  assumes "\<not> is_directory h" "b = unat (iso_block_size (hvol h))" "0 < b" "b \<le> 2048"
    and "readable env (iso_port (hvol h)) (extent h) k" "unat (fsize h) \<le> k * b" "k * b < 2 ^ 64"
    and "unat (offset h) \<le> unat (fsize h)"
  shows "\<exists>h'. iso_reads env ns h =
    Some (slices (map unat ns) (drop (unat (offset h)) (take (unat (fsize h)) (concat (blocks_of env (iso_port (hvol h)) b (extent h) k)))), h')"
  using assms(1,2,5,6,8)
proof (induction ns arbitrary: h)
  case (Cons n ns)
  let ?xs = "concat (blocks_of env (iso_port (hvol h)) b (extent h) k)" and ?o = "unat (offset h)" and ?l = "unat (fsize h)"
  show ?case
  proof (cases "?o = ?l")
    case True
    hence "isofs_read env (Some h) n = Some (0, [], Some h)"
      using Cons.prems(1) by (simp add: isofs_read_def word_le_nat_alt unat_ucast_u32)
    thus ?thesis using Cons.IH [OF Cons.prems] True by auto
  next
    case False
    hence lt: "?o < ?l" using Cons.prems(5) by linarith
    hence le: "offset h \<le> ucast (fsize h)" by (simp add: word_le_nat_alt unat_ucast_u32)
    define m where "m = min n (ucast (fsize h) - offset h)"
    have m: "unat m = min (unat n) (?l - ?o)"
      by (simp add: m_def min_def word_le_nat_alt unat_sub [OF le] unat_ucast_u32)
    have rb: "read_blocks env m h = Some (take (unat m) (drop ?o ?xs), h\<lparr>offset := offset h + m\<rparr>)"
      using Cons.prems(4,5) lt m assms(7) by (intro read_blocks_file [OF Cons.prems(2) assms(3,4) Cons.prems(3)]) auto
    have adv: "unat (offset h + m) = ?o + unat m" using m lt Cons.prems(4) assms(7) by (intro unat_add_u64) simp
    have le2: "?o + unat m \<le> ?l" using m lt by linarith
    have bytes: "take (unat m) (drop ?o ?xs) = take (unat n) (drop ?o (take ?l ?xs))"
      using m by (simp add: drop_take min.commute)
    have rest: "drop (?o + unat m) (take ?l ?xs) = drop (unat n) (drop ?o (take ?l ?xs))"
      using m lt by (cases "unat n \<le> ?l - ?o") (auto simp: min_def drop_drop add.commute)
    have "isofs_read env (Some h) n = Some (sint (of_nat (length (take (unat m) (drop ?o ?xs))) :: u32),
        take (unat n) (drop ?o (take ?l ?xs)), Some (h\<lparr>offset := offset h + m\<rparr>))"
      using Cons.prems(1) lt rb bytes by (simp add: isofs_read_def word_le_nat_alt unat_ucast_u32 m_def)
    moreover obtain h' where "iso_reads env ns (h\<lparr>offset := offset h + m\<rparr>) =
        Some (slices (map unat ns) (drop (unat n) (drop ?o (take ?l ?xs))), h')"
      using Cons.IH [of "h\<lparr>offset := offset h + m\<rparr>"] Cons.prems le2 adv rest by auto
    ultimately show ?thesis by simp
  qed
qed simp

section \<open>Finding a name in a directory\<close>

text \<open>
  A directory is a sequence of records, with zeros between them (records do not cross the blocks of
  the disk).
\<close>

definition iso_record :: "u8 list \<Rightarrow> bool" where
  "iso_record r \<longleftrightarrow> 33 \<le> length r \<and> unat (r ! 0) = length r \<and> 33 + rec_name_len r 0 \<le> length r"

definition item_ok :: "u8 list \<Rightarrow> bool" where "item_ok r \<longleftrightarrow> r = [0] \<or> iso_record r"

definition name_of :: "u8 list \<Rightarrow> u8 list" where "name_of r = record_name (rec_raw_name r 0)"

lemma record_fields:
  assumes "iso_record r"
  shows "(pre @ r @ post) ! length pre = r ! 0" "rec_name_len (pre @ r @ post) (length pre) = rec_name_len r 0"
    "rec_raw_name (pre @ r @ post) (length pre) = rec_raw_name r 0" "rec_extent (pre @ r @ post) (length pre) = rec_extent r 0"
    "rec_data_length (pre @ r @ post) (length pre) = rec_data_length r 0" "rec_flags (pre @ r @ post) (length pre) = rec_flags r 0"
  using assms by (auto simp: iso_record_def rec_name_len_def rec_raw_name_def rec_extent_def rec_data_length_def
    rec_flags_def word_at_def nth_append numeral_2_eq_2)

lemma find_record_hit:
  assumes "list_all item_ok as" "\<forall>a \<in> set as. iso_record a \<longrightarrow> name_of a \<noteq> c" "iso_record r" "name_of r = c"
    and "fin = length pre + length (concat as) + length r + k"
  shows "find_record (pre @ concat as @ r @ post) fin (length pre) c = Some (Some (length pre + length (concat as)))"
  using assms
proof (induction as arbitrary: pre)
  case Nil
  have "r ! 0 \<noteq> 0" using Nil(3) by (auto simp: iso_record_def)
  thus ?case using Nil record_fields [OF Nil(3), of pre post]
    by (subst find_record.simps) (auto simp: iso_record_def name_of_def)
next
  case (Cons a as)
  let ?buf = "pre @ concat (a # as) @ r @ post"
  have IH: "find_record ?buf fin (length pre + length a) c = Some (Some (length pre + length (concat (a # as))))"
    using Cons.IH [of "pre @ a"] Cons.prems by (simp add: add.assoc)
  show ?case
  proof (cases "a = [0]")
    case True
    thus ?thesis using IH Cons.prems(3,5) by (subst find_record.simps) (auto simp: nth_append iso_record_def)
  next
    case False
    hence a: "iso_record a" using Cons.prems(1) by (simp add: item_ok_def)
    have "a ! 0 \<noteq> 0" using a by (auto simp: iso_record_def)
    thus ?thesis using IH a Cons.prems(2,5) record_fields [OF a, of pre "concat as @ r @ post"]
      by (subst find_record.simps) (auto simp: iso_record_def name_of_def)
  qed
qed

lemma find_record_miss:
  assumes "list_all item_ok as" "\<forall>a \<in> set as. iso_record a \<longrightarrow> name_of a \<noteq> c" "fin = length pre + length (concat as)"
  shows "find_record (pre @ concat as @ post) fin (length pre) c = Some None"
  using assms
proof (induction as arbitrary: pre)
  case Nil thus ?case by (subst find_record.simps) simp
next
  case (Cons a as)
  let ?buf = "pre @ concat (a # as) @ post"
  have IH: "find_record ?buf fin (length pre + length a) c = Some None"
    using Cons.IH [of "pre @ a"] Cons.prems by (simp add: add.assoc)
  show ?case
  proof (cases "a = [0]")
    case True
    thus ?thesis using IH Cons.prems(3) by (subst find_record.simps) (auto simp: nth_append)
  next
    case False
    hence a: "iso_record a" using Cons.prems(1) by (simp add: item_ok_def)
    have "a ! 0 \<noteq> 0" using a by (auto simp: iso_record_def)
    thus ?thesis using IH a Cons.prems(2,3) record_fields [OF a, of pre "concat as @ post"]
      by (subst find_record.simps) (auto simp: iso_record_def name_of_def)
  qed
qed

lemma list_records_items:
  assumes "list_all item_ok as" "fin = length pre + length (concat as)"
  shows "list_records (pre @ concat as @ post) fin (length pre) = Some (concat (map (\<lambda>r. list_line r 0) (filter iso_record as)))"
  using assms
proof (induction as arbitrary: pre)
  case Nil thus ?case by (subst list_records.simps) simp
next
  case (Cons a as)
  let ?buf = "pre @ concat (a # as) @ post"
  have IH: "list_records ?buf fin (length pre + length a) = Some (concat (map (\<lambda>r. list_line r 0) (filter iso_record as)))"
    using Cons.IH [of "pre @ a"] Cons.prems by (simp add: add.assoc)
  show ?case
  proof (cases "a = [0]")
    case True
    thus ?thesis using IH Cons.prems(2) by (subst list_records.simps) (auto simp: nth_append iso_record_def)
  next
    case False
    hence a: "iso_record a" using Cons.prems(1) by (simp add: item_ok_def)
    have "a ! 0 \<noteq> 0" using a by (auto simp: iso_record_def)
    moreover have "list_line ?buf (length pre) = list_line a 0"
      using record_fields [OF a, of pre "concat as @ post"] by (simp add: list_line_def Let_def)
    ultimately show ?thesis using IH a Cons.prems(2) record_fields [OF a, of pre "concat as @ post"]
      by (subst list_records.simps) (auto simp: iso_record_def)
  qed
qed

section \<open>Reading a directory\<close>

lemma read_directory_blocks:
  assumes "readable env port lba k" "unat r \<le> k * 2048" "r \<le> d" "length buf = unat d + 2048"
  shows "\<exists>dir. read_directory env port d r lba buf = Some dir \<and> length dir = length buf \<and>
    take (unat d) dir = take (unat d - unat r) buf @ take (unat r) (concat (blocks_of env port 2048 lba k))"
  using assms
proof (induction k arbitrary: lba r buf)
  case 0 thus ?case by (simp add: read_directory.simps unat_eq_zero)
next
  case (Suc k)
  show ?case
  proof (cases "r = 0")
    case True thus ?thesis by (simp add: read_directory.simps)
  next
    case False
    define blk where "blk = the (disk env port lba)"
    have blk: "disk env port lba = Some blk" "length blk = 2048"
      using readable_nth [OF Suc.prems(1), of 0] by (simp_all add: blk_def)
    define c where "c = (if r < 2048 then r else 2048)"
    have c: "unat c = min (unat r) 2048" by (simp add: c_def min_def word_less_nat_alt)
    hence cr: "c \<le> r" by (simp add: word_le_nat_alt)
    have rc: "unat (r - c) = unat r - unat c" by (rule unat_sub [OF cr])
    have pos: "unat (d - r) = unat d - unat r" by (rule unat_sub [OF Suc.prems(3)])
    have rd: "unat r \<le> unat d" using Suc.prems(3) by (simp add: word_le_nat_alt)
    define p where "p = unat d - unat r"
    define buf' where "buf' = take p buf @ blk @ drop (p + 2048) buf"
    have len: "length buf' = length buf" using Suc.prems(4) blk(2) rd by (simp add: buf'_def p_def)
    have step: "read_directory env port d r lba buf = read_directory env port d (r - c) (lba + 1) buf'"
      using False blk Suc.prems(4) pos
      by (subst read_directory.simps) (simp add: Let_def buf'_def p_def c_def)
    have "r - c \<le> d" using Suc.prems(3) rc by (simp add: word_le_nat_alt)
    moreover have "unat (r - c) \<le> k * 2048" using Suc.prems(2) c rc by simp
    ultimately obtain dir where dir: "read_directory env port d (r - c) (lba + 1) buf' = Some dir" "length dir = length buf"
      "take (unat d) dir = take (unat d - unat (r - c)) buf' @ take (unat (r - c)) (concat (blocks_of env port 2048 (lba + 1) k))"
      using Suc.IH [OF readable_Suc [OF Suc.prems(1)], of "r - c" buf'] Suc.prems(4) len by auto
    have "take (unat d - unat (r - c)) buf' = take p buf @ take (unat c) blk"
    proof -
      have "unat d - unat (r - c) = p + unat c" using rc rd c by (simp add: p_def)
      moreover have "length (take p buf) = p" using Suc.prems(4) by (simp add: p_def)
      ultimately show ?thesis using c blk(2) by (simp add: buf'_def)
    qed
    moreover have "take (unat c) blk @ take (unat (r - c)) (concat (blocks_of env port 2048 (lba + 1) k)) =
      take (unat r) (concat (blocks_of env port 2048 lba (Suc k)))"
      using c rc blk by (simp add: blocks_of_Suc min_def)
    ultimately show ?thesis using step dir by (simp add: p_def)
  qed
qed

section \<open>Opening a path\<close>

text \<open>
  A directory on the disk with its items, the record of a name in it (behind the two records for the
  directory itself and its parent, which take 68 bytes), and a path through directories.
\<close>

definition iso_dir :: "iso_env \<Rightarrow> u8 \<Rightarrow> u32 \<Rightarrow> u32 \<Rightarrow> u8 list list \<Rightarrow> bool" where
  "iso_dir env port e n items \<longleftrightarrow>
     (\<exists>k. readable env port e k \<and> unat n \<le> k * 2048 \<and> concat items = take (unat n) (concat (blocks_of env port 2048 e k))) \<and>
     length (concat items) = unat n \<and> list_all item_ok items \<and> unat n + 2048 < 2 ^ 32"

definition dir_record :: "iso_env \<Rightarrow> u8 \<Rightarrow> u32 \<Rightarrow> u32 \<Rightarrow> u8 list \<Rightarrow> u8 list \<Rightarrow> bool" where
  "dir_record env port e n name r \<longleftrightarrow>
     (\<exists>as bs. iso_dir env port e n (as @ r # bs) \<and> iso_record r \<and> name_of r = name \<and>
        (\<forall>a \<in> set as. iso_record a \<longrightarrow> name_of a \<noteq> name) \<and> 64 \<le> length (concat as))"

fun iso_path :: "iso_env \<Rightarrow> u8 \<Rightarrow> u32 \<Rightarrow> u32 \<Rightarrow> u8 list list \<Rightarrow> u8 list \<Rightarrow> bool" where
  "iso_path env port e n [] r = False"
| "iso_path env port e n [c] r = dir_record env port e n c r"
| "iso_path env port e n (c # c' # cs) r =
     (\<exists>d. dir_record env port e n c d \<and> iso_path env port (rec_extent d 0) (rec_data_length d 0) (c' # cs) r)"

text \<open>
  What opening relies on in the kernel heap: memory is there, and a freed buffer keeps its bytes from the
  64th on while a handle is allocated (which takes the first 32 bytes and the header behind them).
\<close>

definition heap_ok :: "iso_env \<Rightarrow> bool" where
  "heap_ok env \<longleftrightarrow>
     (\<forall>i n. \<exists>b. alloc env i n = Some b \<and> length b = unat n) \<and> (\<forall>b. drop 64 (freed env b) = drop 64 b)"

lemma heap_ok_alloc: "heap_ok env \<Longrightarrow> \<exists>b. alloc env i n = Some b \<and> length b = unat n"
  by (simp add: heap_ok_def)

lemma freed_fields:
  assumes "heap_ok env" "64 \<le> p" "p + 25 < length b"
  shows "rec_extent (freed env b) p = rec_extent b p" "rec_data_length (freed env b) p = rec_data_length b p"
    "rec_flags (freed env b) p = rec_flags b p"
proof -
  have d: "drop q (freed env b) = drop q b" if "64 \<le> q" for q
    using assms(1) that by (metis drop_drop heap_ok_def le_add_diff_inverse2)
  show "rec_extent (freed env b) p = rec_extent b p" "rec_data_length (freed env b) p = rec_data_length b p"
    using d [of "p + 2"] d [of "p + 10"] assms(2) by (simp_all add: rec_extent_def rec_data_length_def word_at_def)
  have "p + 25 < length (freed env b)" using d [of "p + 25"] assms(2,3) by (metis drop_eq_Nil le_add1 le_trans not_le)
  thus "rec_flags (freed env b) p = rec_flags b p"
    using d [of "p + 25"] assms(2,3) by (metis hd_drop_conv_nth le_add1 le_trans rec_flags_def)
qed

lemma directory_found:
  assumes "heap_ok env" "dir_record env port e n c r"
  shows "\<exists>buf dir p. alloc env i (n + 2048) = Some buf \<and> read_directory env port n n e buf = Some dir \<and>
    find_record dir (unat n) 0 c = Some (Some p) \<and> 64 \<le> p \<and> p + 25 < length dir \<and>
    rec_extent dir p = rec_extent r 0 \<and> rec_data_length dir p = rec_data_length r 0 \<and> rec_flags dir p = rec_flags r 0"
proof -
  obtain as bs k where d: "iso_dir env port e n (as @ r # bs)" "iso_record r" "name_of r = c"
    "\<forall>a \<in> set as. iso_record a \<longrightarrow> name_of a \<noteq> c" "64 \<le> length (concat as)"
    and k: "readable env port e k" "unat n \<le> k * 2048" "concat (as @ r # bs) = take (unat n) (concat (blocks_of env port 2048 e k))"
    using assms(2) by (auto simp: dir_record_def iso_dir_def)
  have sz: "length (concat (as @ r # bs)) = unat n" "unat n + 2048 < 2 ^ 32" "list_all item_ok as"
    using d(1) by (auto simp: iso_dir_def)
  obtain buf where buf: "alloc env i (n + 2048) = Some buf" "length buf = unat (n + 2048)"
    using heap_ok_alloc [OF assms(1)] by blast
  have "unat (n + 2048) = unat n + 2048" using sz(2) by (simp add: unat_word_ariths)
  then obtain dir where dir: "read_directory env port n n e buf = Some dir" "take (unat n) dir = concat (as @ r # bs)"
    using read_directory_blocks [OF k(1,2), of n buf] buf(2) k(3) by auto
  define post where "post = concat bs @ drop (unat n) dir"
  have eq: "dir = concat as @ r @ post" using dir(2) append_take_drop_id [of "unat n" dir] by (simp add: post_def)
  have "find_record dir (unat n) 0 c = Some (Some (length (concat as)))"
    using find_record_hit [OF sz(3) d(4,2,3), of "unat n" "[]" "length (concat bs)" post] sz(1) by (simp add: eq add.assoc)
  moreover have "length (concat as) + 25 < length dir" using d(2) by (simp add: eq iso_record_def)
  ultimately show ?thesis using buf dir d(5) record_fields(4-6) [OF d(2), of "concat as" post]
    by (intro exI [of _ buf] exI [of _ dir] exI [of _ "length (concat as)"]) (simp add: eq)
qed

text \<open>
  \<open>list\<close> prints one line for each record of the root directory, in their order, those for the directory
  itself and its parent apart.
\<close>

theorem isofs_list_complete:
  assumes "heap_ok env" "iso_dir env (iso_port vol) (root_extent vol) (root_size vol) items"
  shows "isofs_list env (Some vol) = Some (concat (map (\<lambda>r. list_line r 0) (filter iso_record items)))"
proof -
  let ?n = "root_size vol"
  obtain k where k: "readable env (iso_port vol) (root_extent vol) k" "unat ?n \<le> k * 2048"
    "concat items = take (unat ?n) (concat (blocks_of env (iso_port vol) 2048 (root_extent vol) k))"
    and sz: "length (concat items) = unat ?n" "unat ?n + 2048 < 2 ^ 32" "list_all item_ok items"
    using assms(2) by (auto simp: iso_dir_def)
  obtain buf where buf: "alloc env 0 (?n + 2048) = Some buf" "length buf = unat (?n + 2048)"
    using heap_ok_alloc [OF assms(1)] by blast
  have "unat (?n + 2048) = unat ?n + 2048" using sz(2) by (simp add: unat_word_ariths)
  then obtain dir where dir: "read_directory env (iso_port vol) ?n ?n (root_extent vol) buf = Some dir" "take (unat ?n) dir = concat items"
    using read_directory_blocks [OF k(1,2), of ?n buf] buf(2) k(3) by auto
  have "dir = concat items @ drop (unat ?n) dir" using dir(2) append_take_drop_id [of "unat ?n" dir] by simp
  thus ?thesis using buf dir list_records_items [OF sz(3), of "unat ?n" "[]" "drop (unat ?n) dir"] sz(1)
    by (simp add: isofs_list_def)
qed

definition handle_of :: "iso_volume \<Rightarrow> u8 list \<Rightarrow> iso_handle" where
  "handle_of vol r = \<lparr>hvol = vol, extent = rec_extent r 0, fsize = rec_data_length r 0, offset = 0,
     is_directory = rec_flags r 0 AND ISO_FLAG_DIRECTORY \<noteq> 0\<rparr>"

lemma heap_ok_handle: "heap_ok env \<Longrightarrow> new_handle env i h = Some h"
  using heap_ok_alloc [of env i 32] by (auto simp: new_handle_def)

lemma open_components_found:
  assumes "heap_ok env" "iso_path env (iso_port vol) e n cs r" "list_all plain_component cs"
  shows "open_components env vol (slash_join cs) e n i = Some (Some (handle_of vol r))"
  using assms(2,3)
proof (induction cs arbitrary: e n i rule: slash_join.induct)
  case (2 c)
  have c: "takeWhile (\<lambda>x. x \<noteq> 47) c = c" "dropWhile (\<lambda>x. x \<noteq> 47) c = []" "take 255 c = c" "c \<noteq> []"
    using "2.prems"(2) by (auto simp: plain_component_def takeWhile_eq_all_conv dropWhile_eq_Nil_conv)
  obtain buf dir p where d: "alloc env i (n + 2048) = Some buf" "read_directory env (iso_port vol) n n e buf = Some dir"
    "find_record dir (unat n) 0 c = Some (Some p)" "64 \<le> p" "p + 25 < length dir"
    "rec_extent dir p = rec_extent r 0" "rec_data_length dir p = rec_data_length r 0" "rec_flags dir p = rec_flags r 0"
    using directory_found [OF assms(1), of "iso_port vol" e n c r i] "2.prems"(1) by auto
  show ?case
    by (subst open_components.simps) (simp add: c d freed_fields [OF assms(1) d(4,5)] heap_ok_handle [OF assms(1)] handle_of_def)
next
  case (3 c c' cs)
  let ?xs = "slash_join (c' # cs)"
  obtain r' where r': "dir_record env (iso_port vol) e n c r'"
    "iso_path env (iso_port vol) (rec_extent r' 0) (rec_data_length r' 0) (c' # cs) r" using "3.prems"(1) by auto
  have c: "takeWhile (\<lambda>x. x \<noteq> 47) (c @ 47 # ?xs) = c" "dropWhile (\<lambda>x. x \<noteq> 47) (c @ 47 # ?xs) = 47 # ?xs" "take 255 c = c" "c \<noteq> []"
    using "3.prems"(2) before_slash [of c ?xs] by (simp_all add: plain_component_def)
  have rest: "dropWhile (\<lambda>x. x = 47) ?xs = ?xs" "?xs \<noteq> []" using slash_join_front [of "c' # cs"] "3.prems"(2) by auto
  obtain buf dir p where d: "alloc env i (n + 2048) = Some buf" "read_directory env (iso_port vol) n n e buf = Some dir"
    "find_record dir (unat n) 0 c = Some (Some p)" "rec_extent dir p = rec_extent r' 0" "rec_data_length dir p = rec_data_length r' 0"
    using directory_found [OF assms(1) r'(1), of i] by auto
  have "open_components env vol (slash_join (c # c' # cs)) e n i = open_components env vol ?xs (rec_extent r' 0) (rec_data_length r' 0) (Suc i)"
    by (subst open_components.simps) (simp add: c d rest)
  thus ?case using "3.IH" [OF r'(2)] "3.prems"(2) by simp
qed simp


text \<open>An image with one file of three bytes, \<open>A;1\<close>, in its root directory.\<close>

definition demo_record :: "u32 \<Rightarrow> u32 \<Rightarrow> u8 \<Rightarrow> u8 list \<Rightarrow> u8 list" where
  "demo_record e n fl name =
     [of_nat (33 + length name), 0] @ le32 e @ rev (le32 e) @ le32 n @ rev (le32 n) @ replicate 7 0 @ [fl, 0, 0, 1, 0, 0, 1, of_nat (length name)] @ name"

definition demo_items :: "u8 list list" where
  "demo_items = [demo_record 20 2048 2 [0], demo_record 20 2048 2 [1]] @ demo_record 21 3 0 [65, 59, 49] # replicate 1944 [0]"

definition demo_disk :: "u32 \<Rightarrow> u8 list" where
  "demo_disk lba = (if lba = 20 then concat demo_items else [7, 8, 9] @ replicate 2045 0)"

definition demo_env :: iso_env where
  "demo_env = \<lparr>disk = \<lambda>_ lba. Some (demo_disk lba), alloc = \<lambda>_ n. Some (replicate (unat n) 0), freed = \<lambda>b. b\<rparr>"

definition demo_volume :: iso_volume where
  "demo_volume = \<lparr>iso_port = 0, iso_block_size = 2048, root_extent = 20, root_size = 2048\<rparr>"

lemma length_demo_disk: "length (demo_disk lba) = 2048"
  by (simp add: demo_disk_def demo_items_def demo_record_def le32_def length_concat sum_list_replicate)

lemma demo_readable: "readable demo_env port lba k"
  by (simp add: readable_def demo_env_def length_demo_disk)

lemma demo_records:
  "iso_record (demo_record 20 2048 2 [0])" "iso_record (demo_record 20 2048 2 [1])" "iso_record (demo_record 21 3 0 [65, 59, 49])"
  "name_of (demo_record 20 2048 2 [0]) = [0]" "name_of (demo_record 20 2048 2 [1]) = [1]" "name_of (demo_record 21 3 0 [65, 59, 49]) = [97]"
  "rec_extent (demo_record 21 3 0 [65, 59, 49]) 0 = 21" "rec_data_length (demo_record 21 3 0 [65, 59, 49]) 0 = 3"
  "rec_flags (demo_record 21 3 0 [65, 59, 49]) 0 = 0"
  by code_simp+

lemma demo_path: "dir_record demo_env 0 20 2048 [97] (demo_record 21 3 0 [65, 59, 49])"
proof -
  have "concat demo_items = take 2048 (concat (blocks_of demo_env 0 2048 20 1))"
    using length_demo_disk [of 20] by (simp add: blocks_of_def demo_env_def) (simp add: demo_disk_def)
  moreover have "length (concat demo_items) = 2048" using length_demo_disk [of 20] by (simp add: demo_disk_def)
  moreover have "list_all item_ok demo_items" using demo_records(1-3) by (simp add: demo_items_def item_ok_def list_all_iff)
  ultimately have "iso_dir demo_env 0 20 2048 demo_items"
    using demo_readable [of 0 20 1] by (auto simp: iso_dir_def intro!: exI [of _ 1])
  moreover have "64 \<le> length (concat [demo_record 20 2048 2 [0], demo_record 20 2048 2 [1]])" by (simp add: demo_record_def le32_def)
  ultimately show ?thesis unfolding dir_record_def demo_items_def
    using demo_records by (intro exI conjI) (assumption, simp_all)
qed


end
