(* ===== verification/Keyboard.thy ===== *)
theory Keyboard
  imports Kprintf Channel_Interface
begin

unbundle bit_operations_syntax

text \<open>
  The keyboard driver, \<open>src/kernel/drivers/keyboard.cpp\<close>: scan codes, the state of the modifier
  keys, the ring of key events, and the buffer \<open>stdin_buffer\<close> that the terminal reads from. What is
  sent to the keyboard controller and to the console is recorded in the state, in order. The bytes
  that the controller delivers are arguments; loops that wait for them are modelled up to the point
  where they wait.
\<close>

section \<open>Keys\<close>

text \<open>The enumeration \<open>KeyCode\<close>; the code compares and subtracts its values.\<close>

type_synonym KeyCode = nat

abbreviation (input) KEY_NONE :: KeyCode where "KEY_NONE \<equiv> 0"
abbreviation (input) KEY_A :: KeyCode where "KEY_A \<equiv> 1"
abbreviation (input) KEY_B :: KeyCode where "KEY_B \<equiv> 2"
abbreviation (input) KEY_C :: KeyCode where "KEY_C \<equiv> 3"
abbreviation (input) KEY_D :: KeyCode where "KEY_D \<equiv> 4"
abbreviation (input) KEY_E :: KeyCode where "KEY_E \<equiv> 5"
abbreviation (input) KEY_F :: KeyCode where "KEY_F \<equiv> 6"
abbreviation (input) KEY_G :: KeyCode where "KEY_G \<equiv> 7"
abbreviation (input) KEY_H :: KeyCode where "KEY_H \<equiv> 8"
abbreviation (input) KEY_I :: KeyCode where "KEY_I \<equiv> 9"
abbreviation (input) KEY_J :: KeyCode where "KEY_J \<equiv> 10"
abbreviation (input) KEY_K :: KeyCode where "KEY_K \<equiv> 11"
abbreviation (input) KEY_L :: KeyCode where "KEY_L \<equiv> 12"
abbreviation (input) KEY_M :: KeyCode where "KEY_M \<equiv> 13"
abbreviation (input) KEY_N :: KeyCode where "KEY_N \<equiv> 14"
abbreviation (input) KEY_O :: KeyCode where "KEY_O \<equiv> 15"
abbreviation (input) KEY_P :: KeyCode where "KEY_P \<equiv> 16"
abbreviation (input) KEY_Q :: KeyCode where "KEY_Q \<equiv> 17"
abbreviation (input) KEY_R :: KeyCode where "KEY_R \<equiv> 18"
abbreviation (input) KEY_S :: KeyCode where "KEY_S \<equiv> 19"
abbreviation (input) KEY_T :: KeyCode where "KEY_T \<equiv> 20"
abbreviation (input) KEY_U :: KeyCode where "KEY_U \<equiv> 21"
abbreviation (input) KEY_V :: KeyCode where "KEY_V \<equiv> 22"
abbreviation (input) KEY_W :: KeyCode where "KEY_W \<equiv> 23"
abbreviation (input) KEY_X :: KeyCode where "KEY_X \<equiv> 24"
abbreviation (input) KEY_Y :: KeyCode where "KEY_Y \<equiv> 25"
abbreviation (input) KEY_Z :: KeyCode where "KEY_Z \<equiv> 26"
abbreviation (input) KEY_0 :: KeyCode where "KEY_0 \<equiv> 27"
abbreviation (input) KEY_1 :: KeyCode where "KEY_1 \<equiv> 28"
abbreviation (input) KEY_2 :: KeyCode where "KEY_2 \<equiv> 29"
abbreviation (input) KEY_3 :: KeyCode where "KEY_3 \<equiv> 30"
abbreviation (input) KEY_4 :: KeyCode where "KEY_4 \<equiv> 31"
abbreviation (input) KEY_5 :: KeyCode where "KEY_5 \<equiv> 32"
abbreviation (input) KEY_6 :: KeyCode where "KEY_6 \<equiv> 33"
abbreviation (input) KEY_7 :: KeyCode where "KEY_7 \<equiv> 34"
abbreviation (input) KEY_8 :: KeyCode where "KEY_8 \<equiv> 35"
abbreviation (input) KEY_9 :: KeyCode where "KEY_9 \<equiv> 36"
abbreviation (input) KEY_MINUS :: KeyCode where "KEY_MINUS \<equiv> 37"
abbreviation (input) KEY_EQUAL :: KeyCode where "KEY_EQUAL \<equiv> 38"
abbreviation (input) KEY_LEFT_BRACKET :: KeyCode where "KEY_LEFT_BRACKET \<equiv> 39"
abbreviation (input) KEY_RIGHT_BRACKET :: KeyCode where "KEY_RIGHT_BRACKET \<equiv> 40"
abbreviation (input) KEY_SEMICOLON :: KeyCode where "KEY_SEMICOLON \<equiv> 41"
abbreviation (input) KEY_APOSTROPHE :: KeyCode where "KEY_APOSTROPHE \<equiv> 42"
abbreviation (input) KEY_GRAVE :: KeyCode where "KEY_GRAVE \<equiv> 43"
abbreviation (input) KEY_BACKSLASH :: KeyCode where "KEY_BACKSLASH \<equiv> 44"
abbreviation (input) KEY_COMMA :: KeyCode where "KEY_COMMA \<equiv> 45"
abbreviation (input) KEY_DOT :: KeyCode where "KEY_DOT \<equiv> 46"
abbreviation (input) KEY_SLASH :: KeyCode where "KEY_SLASH \<equiv> 47"
abbreviation (input) KEY_ENTER :: KeyCode where "KEY_ENTER \<equiv> 48"
abbreviation (input) KEY_ESCAPE :: KeyCode where "KEY_ESCAPE \<equiv> 49"
abbreviation (input) KEY_BACKSPACE :: KeyCode where "KEY_BACKSPACE \<equiv> 50"
abbreviation (input) KEY_TAB :: KeyCode where "KEY_TAB \<equiv> 51"
abbreviation (input) KEY_SPACE :: KeyCode where "KEY_SPACE \<equiv> 52"
abbreviation (input) KEY_LEFT_SHIFT :: KeyCode where "KEY_LEFT_SHIFT \<equiv> 53"
abbreviation (input) KEY_RIGHT_SHIFT :: KeyCode where "KEY_RIGHT_SHIFT \<equiv> 54"
abbreviation (input) KEY_LEFT_CTRL :: KeyCode where "KEY_LEFT_CTRL \<equiv> 55"
abbreviation (input) KEY_RIGHT_CTRL :: KeyCode where "KEY_RIGHT_CTRL \<equiv> 56"
abbreviation (input) KEY_LEFT_ALT :: KeyCode where "KEY_LEFT_ALT \<equiv> 57"
abbreviation (input) KEY_RIGHT_ALT :: KeyCode where "KEY_RIGHT_ALT \<equiv> 58"
abbreviation (input) KEY_CAPS_LOCK :: KeyCode where "KEY_CAPS_LOCK \<equiv> 59"
abbreviation (input) KEY_F1 :: KeyCode where "KEY_F1 \<equiv> 60"
abbreviation (input) KEY_F2 :: KeyCode where "KEY_F2 \<equiv> 61"
abbreviation (input) KEY_F3 :: KeyCode where "KEY_F3 \<equiv> 62"
abbreviation (input) KEY_F4 :: KeyCode where "KEY_F4 \<equiv> 63"
abbreviation (input) KEY_F5 :: KeyCode where "KEY_F5 \<equiv> 64"
abbreviation (input) KEY_F6 :: KeyCode where "KEY_F6 \<equiv> 65"
abbreviation (input) KEY_F7 :: KeyCode where "KEY_F7 \<equiv> 66"
abbreviation (input) KEY_F8 :: KeyCode where "KEY_F8 \<equiv> 67"
abbreviation (input) KEY_F9 :: KeyCode where "KEY_F9 \<equiv> 68"
abbreviation (input) KEY_F10 :: KeyCode where "KEY_F10 \<equiv> 69"
abbreviation (input) KEY_F11 :: KeyCode where "KEY_F11 \<equiv> 70"
abbreviation (input) KEY_F12 :: KeyCode where "KEY_F12 \<equiv> 71"
abbreviation (input) KEY_INSERT :: KeyCode where "KEY_INSERT \<equiv> 72"
abbreviation (input) KEY_DELETE :: KeyCode where "KEY_DELETE \<equiv> 73"
abbreviation (input) KEY_HOME :: KeyCode where "KEY_HOME \<equiv> 74"
abbreviation (input) KEY_END :: KeyCode where "KEY_END \<equiv> 75"
abbreviation (input) KEY_PAGE_UP :: KeyCode where "KEY_PAGE_UP \<equiv> 76"
abbreviation (input) KEY_PAGE_DOWN :: KeyCode where "KEY_PAGE_DOWN \<equiv> 77"
abbreviation (input) KEY_ARROW_UP :: KeyCode where "KEY_ARROW_UP \<equiv> 78"
abbreviation (input) KEY_ARROW_DOWN :: KeyCode where "KEY_ARROW_DOWN \<equiv> 79"
abbreviation (input) KEY_ARROW_LEFT :: KeyCode where "KEY_ARROW_LEFT \<equiv> 80"
abbreviation (input) KEY_ARROW_RIGHT :: KeyCode where "KEY_ARROW_RIGHT \<equiv> 81"
abbreviation (input) KEY_NUM_LOCK :: KeyCode where "KEY_NUM_LOCK \<equiv> 82"
abbreviation (input) KEY_KP_DIVIDE :: KeyCode where "KEY_KP_DIVIDE \<equiv> 83"
abbreviation (input) KEY_KP_MULTIPLY :: KeyCode where "KEY_KP_MULTIPLY \<equiv> 84"
abbreviation (input) KEY_KP_MINUS :: KeyCode where "KEY_KP_MINUS \<equiv> 85"
abbreviation (input) KEY_KP_PLUS :: KeyCode where "KEY_KP_PLUS \<equiv> 86"
abbreviation (input) KEY_KP_ENTER :: KeyCode where "KEY_KP_ENTER \<equiv> 87"
abbreviation (input) KEY_KP_0 :: KeyCode where "KEY_KP_0 \<equiv> 88"
abbreviation (input) KEY_KP_1 :: KeyCode where "KEY_KP_1 \<equiv> 89"
abbreviation (input) KEY_KP_2 :: KeyCode where "KEY_KP_2 \<equiv> 90"
abbreviation (input) KEY_KP_3 :: KeyCode where "KEY_KP_3 \<equiv> 91"
abbreviation (input) KEY_KP_4 :: KeyCode where "KEY_KP_4 \<equiv> 92"
abbreviation (input) KEY_KP_5 :: KeyCode where "KEY_KP_5 \<equiv> 93"
abbreviation (input) KEY_KP_6 :: KeyCode where "KEY_KP_6 \<equiv> 94"
abbreviation (input) KEY_KP_7 :: KeyCode where "KEY_KP_7 \<equiv> 95"
abbreviation (input) KEY_KP_8 :: KeyCode where "KEY_KP_8 \<equiv> 96"
abbreviation (input) KEY_KP_9 :: KeyCode where "KEY_KP_9 \<equiv> 97"
abbreviation (input) KEY_KP_DOT :: KeyCode where "KEY_KP_DOT \<equiv> 98"
abbreviation (input) KEY_PRINT_SCREEN :: KeyCode where "KEY_PRINT_SCREEN \<equiv> 99"
abbreviation (input) KEY_SCROLL_LOCK :: KeyCode where "KEY_SCROLL_LOCK \<equiv> 100"
abbreviation (input) KEY_PAUSE :: KeyCode where "KEY_PAUSE \<equiv> 101"

record key_event =
  key :: KeyCode
  pressed :: bool
  ev_shift :: bool
  ev_ctrl :: bool
  ev_alt :: bool
  scancode :: u8

record keyboard =
  queue :: "key_event list"
  queue_read :: nat
  queue_write :: nat
  kshift :: bool
  kcaps :: bool
  kctrl :: bool
  kalt :: bool
  num_lock :: bool
  scroll_lock :: bool
  last_raw_scancode :: u8
  last_scancode_tick :: u64
  extended :: bool
  stdin_buffer :: "u8 list"
  stdin_len :: nat
  active_vt :: nat
  kbd_out :: "u8 list"
  con_out :: "u8 list"

definition QUEUE_SIZE :: nat where "QUEUE_SIZE = 128"
definition STDIN_SIZE :: nat where "STDIN_SIZE = 256"

definition scancode_table :: "(u8 \<times> KeyCode) list" where
  "scancode_table = [
    (0x1C, KEY_ENTER), (0x01, KEY_ESCAPE), (0x0E, KEY_BACKSPACE), (0x0F, KEY_TAB), (0x39, KEY_SPACE),
    (0x2A, KEY_LEFT_SHIFT), (0x36, KEY_RIGHT_SHIFT), (0x1D, KEY_LEFT_CTRL), (0x38, KEY_LEFT_ALT),
    (0x3A, KEY_CAPS_LOCK), (0x45, KEY_NUM_LOCK), (0x46, KEY_SCROLL_LOCK), (0x1E, KEY_A), (0x30, KEY_B),
    (0x2E, KEY_C), (0x20, KEY_D), (0x12, KEY_E), (0x21, KEY_F), (0x22, KEY_G), (0x23, KEY_H),
    (0x17, KEY_I), (0x24, KEY_J), (0x25, KEY_K), (0x26, KEY_L), (0x32, KEY_M), (0x31, KEY_N),
    (0x18, KEY_O), (0x19, KEY_P), (0x10, KEY_Q), (0x13, KEY_R), (0x1F, KEY_S), (0x14, KEY_T),
    (0x16, KEY_U), (0x2F, KEY_V), (0x11, KEY_W), (0x2D, KEY_X), (0x15, KEY_Y), (0x2C, KEY_Z),
    (0x02, KEY_1), (0x03, KEY_2), (0x04, KEY_3), (0x05, KEY_4), (0x06, KEY_5), (0x07, KEY_6),
    (0x08, KEY_7), (0x09, KEY_8), (0x0A, KEY_9), (0x0B, KEY_0), (0x0C, KEY_MINUS), (0x0D, KEY_EQUAL),
    (0x1A, KEY_LEFT_BRACKET), (0x1B, KEY_RIGHT_BRACKET), (0x27, KEY_SEMICOLON), (0x28, KEY_APOSTROPHE),
    (0x29, KEY_GRAVE), (0x2B, KEY_BACKSLASH), (0x33, KEY_COMMA), (0x34, KEY_DOT), (0x35, KEY_SLASH),
    (0x3B, KEY_F1), (0x3C, KEY_F2), (0x3D, KEY_F3), (0x3E, KEY_F4), (0x3F, KEY_F5), (0x40, KEY_F6),
    (0x41, KEY_F7), (0x42, KEY_F8), (0x43, KEY_F9), (0x44, KEY_F10), (0x57, KEY_F11), (0x58, KEY_F12),
    (0x37, KEY_KP_MULTIPLY), (0x4A, KEY_KP_MINUS), (0x4E, KEY_KP_PLUS), (0x47, KEY_KP_7), (0x48, KEY_KP_8),
    (0x49, KEY_KP_9), (0x4B, KEY_KP_4), (0x4C, KEY_KP_5), (0x4D, KEY_KP_6), (0x4F, KEY_KP_1),
    (0x50, KEY_KP_2), (0x51, KEY_KP_3), (0x52, KEY_KP_0), (0x53, KEY_KP_DOT)]"

definition extended_table :: "(u8 \<times> KeyCode) list" where
  "extended_table = [
    (0x1C, KEY_KP_ENTER), (0x35, KEY_KP_DIVIDE), (0x1D, KEY_RIGHT_CTRL), (0x38, KEY_RIGHT_ALT),
    (0x48, KEY_ARROW_UP), (0x50, KEY_ARROW_DOWN), (0x4B, KEY_ARROW_LEFT), (0x4D, KEY_ARROW_RIGHT),
    (0x52, KEY_INSERT), (0x53, KEY_DELETE), (0x47, KEY_HOME), (0x4F, KEY_END), (0x49, KEY_PAGE_UP),
    (0x51, KEY_PAGE_DOWN)]"

definition scancode_to_key :: "u8 \<Rightarrow> KeyCode" where
  "scancode_to_key sc = (case map_of scancode_table sc of Some k \<Rightarrow> k | None \<Rightarrow> KEY_NONE)"

definition extended_scancode_to_key :: "u8 \<Rightarrow> KeyCode" where
  "extended_scancode_to_key sc = (case map_of extended_table sc of Some k \<Rightarrow> k | None \<Rightarrow> KEY_NONE)"

text \<open>Characters are bytes.\<close>

definition ch :: "char \<Rightarrow> u8" where "ch c = of_char c"

definition text_bytes :: "string \<Rightarrow> u8 list" where "text_bytes s = map ch s"

definition apply_ctrl :: "bool \<Rightarrow> u8 \<Rightarrow> u8" where
  "apply_ctrl ctrl c =
     (if \<not> ctrl then c
      else if ch CHR ''a'' \<le> c \<and> c \<le> ch CHR ''z'' then c - ch CHR ''a'' + 1
      else if ch CHR ''A'' \<le> c \<and> c \<le> ch CHR ''Z'' then c - ch CHR ''A'' + 1
      else if c = ch CHR ''@'' then 0
      else if ch CHR ''['' \<le> c \<and> c \<le> ch CHR ''_'' then c - ch CHR ''@''
      else c)"

text \<open>The keys with one character, and those with another one while shift is held.\<close>

definition symbol_table :: "(KeyCode \<times> char \<times> char) list" where
  "symbol_table =
     [(KEY_ESCAPE, CHR 0x1B, CHR 0x1B), (KEY_SPACE, CHR '' '', CHR '' ''), (KEY_ENTER, CHR 0x0A, CHR 0x0A),
      (KEY_KP_ENTER, CHR 0x0A, CHR 0x0A), (KEY_BACKSPACE, CHR 0x08, CHR 0x08), (KEY_TAB, CHR 0x09, CHR 0x09),
      (KEY_MINUS, CHR ''-'', CHR ''_''), (KEY_EQUAL, CHR ''='', CHR ''+''),
      (KEY_LEFT_BRACKET, CHR ''['', CHR ''{''), (KEY_RIGHT_BRACKET, CHR '']'', CHR ''}''),
      (KEY_SEMICOLON, CHR '';'', CHR '':''), (KEY_APOSTROPHE, CHR 0x27, CHR 0x22),
      (KEY_GRAVE, CHR 0x60, CHR ''~''), (KEY_BACKSLASH, CHR 0x5C, CHR ''|''),
      (KEY_COMMA, CHR '','', CHR ''<''), (KEY_DOT, CHR ''.'', CHR ''>''), (KEY_SLASH, CHR ''/'', CHR ''?''),
      (KEY_KP_PLUS, CHR ''+'', CHR ''+''), (KEY_KP_MINUS, CHR ''-'', CHR ''-''),
      (KEY_KP_MULTIPLY, CHR ''*'', CHR ''*''), (KEY_KP_DIVIDE, CHR ''/'', CHR ''/'')]"

definition keypad_table :: "(KeyCode \<times> char) list" where
  "keypad_table =
     [(KEY_KP_0, CHR ''0''), (KEY_KP_1, CHR ''1''), (KEY_KP_2, CHR ''2''), (KEY_KP_3, CHR ''3''),
      (KEY_KP_4, CHR ''4''), (KEY_KP_5, CHR ''5''), (KEY_KP_6, CHR ''6''), (KEY_KP_7, CHR ''7''),
      (KEY_KP_8, CHR ''8''), (KEY_KP_9, CHR ''9''), (KEY_KP_DOT, CHR ''.'')]"

definition key_to_ascii :: "keyboard \<Rightarrow> KeyCode \<Rightarrow> u8" where
  "key_to_ascii s k =
     (if KEY_A \<le> k \<and> k \<le> KEY_Z then
        let c = ch CHR ''a'' + of_nat (k - KEY_A) in if kshift s \<noteq> kcaps s then c - 32 else c
      else if KEY_1 \<le> k \<and> k \<le> KEY_9 then
        ch ((if kshift s then ''!@#$%^&*('' else ''123456789'') ! (k - KEY_1))
      else if k = KEY_0 then ch (if kshift s then CHR '')'' else CHR ''0'')
      else case map_of symbol_table k of
        Some (c, d) \<Rightarrow> ch (if kshift s then d else c)
      | None \<Rightarrow> (case map_of keypad_table k of Some c \<Rightarrow> if num_lock s then ch c else 0 | None \<Rightarrow> 0))"

section \<open>The queue of events\<close>

definition push_event :: "key_event \<Rightarrow> keyboard \<Rightarrow> keyboard" where
  "push_event e s =
     (let nxt = (queue_write s + 1) mod QUEUE_SIZE
      in if nxt = queue_read s then s
         else s\<lparr>queue := (queue s)[queue_write s := e], queue_write := nxt\<rparr>)"

definition queue_empty :: "keyboard \<Rightarrow> bool" where
  "queue_empty s \<longleftrightarrow> queue_read s = queue_write s"

definition no_event :: key_event where
  "no_event = \<lparr>key = KEY_NONE, pressed = False, ev_shift = False, ev_ctrl = False, ev_alt = False, scancode = 0\<rparr>"

definition pop_event :: "keyboard \<Rightarrow> key_event \<times> keyboard" where
  "pop_event s =
     (if queue_empty s then (no_event, s)
      else (queue s ! queue_read s, s\<lparr>queue_read := (queue_read s + 1) mod QUEUE_SIZE\<rparr>))"

text \<open>\<open>get_event\<close> waits while the queue is empty; \<open>None\<close> says that it waits.\<close>

definition get_event :: "keyboard \<Rightarrow> key_event option \<times> keyboard" where
  "get_event s = (if queue_empty s then (None, s) else let (e, s) = pop_event s in (Some e, s))"

text \<open>
  \<open>getchar\<close> takes events until one gives a character, or waits. Each round takes an event out of the
  queue, so there are at most as many rounds as the queue holds events.
\<close>

definition queue_count :: "keyboard \<Rightarrow> nat" where
  "queue_count s = (queue_write s + QUEUE_SIZE - queue_read s) mod QUEUE_SIZE"

fun getchar_from :: "nat \<Rightarrow> keyboard \<Rightarrow> u8 option \<times> keyboard" where
  "getchar_from 0 s = (None, s)"
| "getchar_from (Suc n) s =
     (case get_event s of
        (None, s) \<Rightarrow> (None, s)
      | (Some e, s) \<Rightarrow>
          if \<not> pressed e then getchar_from n s
          else let c = apply_ctrl (kctrl s) (key_to_ascii s (key e))
               in if c = 0 then getchar_from n s else (Some c, s))"

definition kbd_getchar :: "keyboard \<Rightarrow> u8 option \<times> keyboard" where
  "kbd_getchar s = getchar_from (Suc (queue_count s)) s"

text \<open>
  \<open>getstring\<close>, on the characters that \<open>getchar\<close> delivers: the line, or \<open>None\<close> if more are needed.
\<close>

fun getstring_from :: "u8 list \<Rightarrow> u8 list \<Rightarrow> u8 list option" where
  "getstring_from buf inp =
     (if 255 \<le> length buf then Some buf
      else case inp of
        [] \<Rightarrow> None
      | c # cs \<Rightarrow>
          if c = 10 then Some buf
          else if c = 8 then getstring_from (butlast buf) cs
          else getstring_from (buf @ [c]) cs)"

section \<open>Scan codes\<close>

definition update_leds :: "keyboard \<Rightarrow> keyboard" where
  "update_leds s =
     (let leds = (if scroll_lock s then 1 else 0) OR (if num_lock s then 2 else 0) OR (if kcaps s then 4 else 0)
      in s\<lparr>kbd_out := kbd_out s @ [0xED, leds]\<rparr>)"

definition console_write :: "u8 list \<Rightarrow> keyboard \<Rightarrow> keyboard" where
  "console_write bs s = s\<lparr>con_out := con_out s @ bs\<rparr>"

definition vt_message :: "nat \<Rightarrow> u8 list" where
  "vt_message vt = text_bytes ''[Switched to /dev/tty'' @ rev (number_buffer False 10 (of_nat vt)) @ [93, 10]"

definition switch_vt :: "nat \<Rightarrow> keyboard \<Rightarrow> keyboard" where
  "switch_vt vt s =
     (if vt < 1 \<or> 12 < vt then s
      else console_write (vt_message vt) (console_write [27, 91, 50, 74, 27, 91, 72] (s\<lparr>active_vt := vt\<rparr>)))"

definition put_stdin :: "u8 \<Rightarrow> keyboard \<Rightarrow> keyboard" where
  "put_stdin c s =
     (if stdin_len s < STDIN_SIZE
      then s\<lparr>stdin_buffer := (stdin_buffer s)[stdin_len s := c], stdin_len := Suc (stdin_len s)\<rparr>
      else s)"

definition escape_sequence :: "KeyCode \<Rightarrow> string" where
  "escape_sequence k =
     (if k = KEY_ARROW_UP then ''[A'' else if k = KEY_ARROW_DOWN then ''[B''
      else if k = KEY_ARROW_RIGHT then ''[C'' else if k = KEY_ARROW_LEFT then ''[D''
      else if k = KEY_HOME then ''[H'' else if k = KEY_END then ''[F''
      else if k = KEY_DELETE then ''[3~'' else [])"

text \<open>What a key that is pressed puts into the buffer of the terminal.\<close>

definition deliver_key :: "KeyCode \<Rightarrow> keyboard \<Rightarrow> keyboard" where
  "deliver_key k s =
     (let c = key_to_ascii s k
      in if c \<noteq> 0 then put_stdin (apply_ctrl (kctrl s) c) (if kalt s then put_stdin 27 s else s)
         else let seq = escape_sequence k
              in if seq = [] then s else fold put_stdin (27 # text_bytes seq) s)"

definition set_modifiers :: "KeyCode \<Rightarrow> bool \<Rightarrow> keyboard \<Rightarrow> keyboard" where
  "set_modifiers k on s =
     s\<lparr>kshift := (if k = KEY_LEFT_SHIFT \<or> k = KEY_RIGHT_SHIFT then on else kshift s),
       kctrl := (if k = KEY_LEFT_CTRL \<or> k = KEY_RIGHT_CTRL then on else kctrl s),
       kalt := (if k = KEY_LEFT_ALT \<or> k = KEY_RIGHT_ALT then on else kalt s)\<rparr>"

definition toggle_locks :: "KeyCode \<Rightarrow> keyboard \<Rightarrow> keyboard" where
  "toggle_locks k s =
     (let s = s\<lparr>kcaps := (if k = KEY_CAPS_LOCK then \<not> kcaps s else kcaps s),
                num_lock := (if k = KEY_NUM_LOCK then \<not> num_lock s else num_lock s),
                scroll_lock := (if k = KEY_SCROLL_LOCK then \<not> scroll_lock s else scroll_lock s)\<rparr>
      in if k = KEY_CAPS_LOCK \<or> k = KEY_NUM_LOCK \<or> k = KEY_SCROLL_LOCK then update_leds s else s)"

definition key_event_of :: "KeyCode \<Rightarrow> bool \<Rightarrow> u8 \<Rightarrow> keyboard \<Rightarrow> key_event" where
  "key_event_of k on sc s =
     \<lparr>key = k, pressed = on, ev_shift = kshift s, ev_ctrl = kctrl s, ev_alt = kalt s, scancode = sc\<rparr>"

definition key_down :: "KeyCode \<Rightarrow> u8 \<Rightarrow> keyboard \<Rightarrow> keyboard" where
  "key_down k sc s =
     (let s = toggle_locks k (set_modifiers k True s)
      in if kalt s \<and> KEY_F1 \<le> k \<and> k \<le> KEY_F12 then switch_vt (k - KEY_F1 + 1) s
         else push_event (key_event_of k True sc s) (deliver_key k s))"

definition key_up :: "KeyCode \<Rightarrow> u8 \<Rightarrow> keyboard \<Rightarrow> keyboard" where
  "key_up k sc s =
     (let s = set_modifiers k False s in push_event (key_event_of k False sc s) s)"

definition process_scancode :: "u64 \<Rightarrow> u8 \<Rightarrow> keyboard \<Rightarrow> keyboard" where
  "process_scancode now sc s =
     (if sc = last_raw_scancode s \<and> now - last_scancode_tick s < 15 then s
      else
        let s = s\<lparr>last_raw_scancode := sc, last_scancode_tick := now\<rparr>
        in if sc = 0xE0 then s\<lparr>extended := True\<rparr>
           else if sc = 0xE1 then s
           else
             let k = (if extended s then extended_scancode_to_key (sc AND 0x7F) else scancode_to_key (sc AND 0x7F));
                 s = s\<lparr>extended := False\<rparr>
             in if sc AND 0x80 \<noteq> 0 then key_up k (sc AND 0x7F) s else key_down k (sc AND 0x7F) s)"

text \<open>
  The interrupt handler reads pairs of a status and, if the status says that there is one from the
  keyboard, a byte; \<open>ports\<close> are the pairs that the controller delivers.
\<close>

fun irq_handler :: "u64 \<Rightarrow> (u8 \<times> u8) list \<Rightarrow> keyboard \<Rightarrow> keyboard" where
  "irq_handler now [] s = s"
| "irq_handler now ((status, sc) # ports) s =
     (if status AND 1 = 0 \<or> status AND 0x20 \<noteq> 0 then s
      else irq_handler now ports (process_scancode now sc s))"

section \<open>The invariant\<close>

definition kb_inv :: "keyboard \<Rightarrow> bool" where
  "kb_inv s \<longleftrightarrow>
     length (queue s) = QUEUE_SIZE \<and> queue_read s < QUEUE_SIZE \<and> queue_write s < QUEUE_SIZE \<and>
     length (stdin_buffer s) = STDIN_SIZE \<and> stdin_len s \<le> STDIN_SIZE"

definition stdin_contents :: "keyboard \<Rightarrow> u8 list" where
  "stdin_contents s = take (stdin_len s) (stdin_buffer s)"

named_theorems kb_simps "operations of the keyboard driver that keep the invariant and parts of the state"

lemma put_stdin_inv [kb_simps]: "kb_inv s \<Longrightarrow> kb_inv (put_stdin c s)"
  by (simp add: kb_inv_def put_stdin_def)

lemma put_stdins_inv [kb_simps]: "kb_inv s \<Longrightarrow> kb_inv (fold put_stdin cs s)"
  by (induction cs arbitrary: s) (simp_all add: kb_simps)

lemma push_event_inv [kb_simps]: "kb_inv s \<Longrightarrow> kb_inv (push_event e s)"
  by (simp add: kb_inv_def push_event_def Let_def QUEUE_SIZE_def)

lemma pop_event_inv [kb_simps]: "kb_inv s \<Longrightarrow> kb_inv (snd (pop_event s))"
  by (simp add: kb_inv_def pop_event_def QUEUE_SIZE_def)

lemma set_modifiers_inv [kb_simps]: "kb_inv s \<Longrightarrow> kb_inv (set_modifiers k on s)"
  by (simp add: kb_inv_def set_modifiers_def)

lemma toggle_locks_inv [kb_simps]: "kb_inv s \<Longrightarrow> kb_inv (toggle_locks k s)"
  by (simp add: kb_inv_def toggle_locks_def update_leds_def Let_def)

lemma switch_vt_inv [kb_simps]: "kb_inv s \<Longrightarrow> kb_inv (switch_vt vt s)"
  by (simp add: kb_inv_def switch_vt_def console_write_def)

lemma deliver_key_inv [kb_simps]: "kb_inv s \<Longrightarrow> kb_inv (deliver_key k s)"
  by (simp add: deliver_key_def Let_def kb_simps)

lemma kb_inv_updates [kb_simps]:
  "kb_inv (s\<lparr>last_raw_scancode := a\<rparr>) = kb_inv s" "kb_inv (s\<lparr>last_scancode_tick := t\<rparr>) = kb_inv s"
  "kb_inv (s\<lparr>extended := b\<rparr>) = kb_inv s"
  by (simp_all add: kb_inv_def)

lemma key_down_inv [kb_simps]: "kb_inv s \<Longrightarrow> kb_inv (key_down k sc s)"
  by (simp add: key_down_def Let_def kb_simps)

lemma key_up_inv [kb_simps]: "kb_inv s \<Longrightarrow> kb_inv (key_up k sc s)"
  by (simp add: key_up_def Let_def kb_simps)

lemma process_scancode_inv [kb_simps]: "kb_inv s \<Longrightarrow> kb_inv (process_scancode now sc s)"
  by (simp add: process_scancode_def Let_def kb_simps)

section \<open>The queue is a queue\<close>

definition events :: "keyboard \<Rightarrow> key_event list" where
  "events s = map (\<lambda>i. queue s ! ((queue_read s + i) mod QUEUE_SIZE)) [0..<queue_count s]"

lemma wrap_around: "n < 2 * QUEUE_SIZE \<Longrightarrow> n mod QUEUE_SIZE = (if n < QUEUE_SIZE then n else n - QUEUE_SIZE)"
  by (simp add: QUEUE_SIZE_def mod_if)

lemma queue_count_cases:
  assumes "kb_inv s"
  shows "queue_count s =
    (if queue_read s \<le> queue_write s then queue_write s - queue_read s else queue_write s + QUEUE_SIZE - queue_read s)"
  using assms wrap_around [of "queue_write s + QUEUE_SIZE - queue_read s"] by (auto simp: queue_count_def kb_inv_def)

lemma queue_count_less: "kb_inv s \<Longrightarrow> queue_count s < QUEUE_SIZE"
  using queue_count_cases by (auto simp: kb_inv_def)

lemma queue_slot:
  assumes "kb_inv s" "i < QUEUE_SIZE"
  shows "(queue_read s + i) mod QUEUE_SIZE = queue_write s \<longleftrightarrow> i = queue_count s"
  using assms wrap_around [of "queue_read s + i"] queue_count_cases [OF assms(1)] by (auto simp: kb_inv_def)

lemma queue_full_iff: "kb_inv s \<Longrightarrow> (queue_write s + 1) mod QUEUE_SIZE = queue_read s \<longleftrightarrow> queue_count s = QUEUE_SIZE - 1"
  using wrap_around [of "queue_write s + 1"] queue_count_cases [of s] by (auto simp: kb_inv_def split: if_splits)

lemma queue_empty_iff: "kb_inv s \<Longrightarrow> queue_empty s \<longleftrightarrow> queue_count s = 0"
  using queue_count_cases [of s] by (auto simp: kb_inv_def queue_empty_def)

lemma push_event_events:
  assumes "kb_inv s"
  shows "events (push_event e s) = (if queue_count s < QUEUE_SIZE - 1 then events s @ [e] else events s)"
proof (cases "queue_count s < QUEUE_SIZE - 1")
  case False
  hence "queue_count s = QUEUE_SIZE - 1" using queue_count_less [OF assms] by simp
  thus ?thesis using queue_full_iff [OF assms] by (simp add: push_event_def Let_def)
next
  case True
  let ?s = "s\<lparr>queue := (queue s)[queue_write s := e], queue_write := (queue_write s + 1) mod QUEUE_SIZE\<rparr>"
  have p: "push_event e s = ?s" using True queue_full_iff [OF assms] by (simp add: push_event_def Let_def)
  have n: "queue_count ?s = Suc (queue_count s)"
    using push_event_inv [OF assms, of e] queue_count_cases [OF assms] queue_count_cases [of ?s] True
      wrap_around [of "queue_write s + 1"] assms unfolding p by (auto simp: kb_inv_def split: if_splits)
  have w: "queue_write s < length (queue s)" "(queue_read s + queue_count s) mod QUEUE_SIZE = queue_write s"
    using assms queue_slot [OF assms queue_count_less [OF assms]] by (auto simp: kb_inv_def)
  have "(queue s)[queue_write s := e] ! ((queue_read s + i) mod QUEUE_SIZE) = queue s ! ((queue_read s + i) mod QUEUE_SIZE)"
    if "i < queue_count s" for i
    using queue_slot [OF assms, of i] that queue_count_less [OF assms] by (metis less_trans less_irrefl nth_list_update_neq)
  hence "events ?s = events s @ [e]" using w unfolding events_def n by (simp add: w)
  thus ?thesis using True p by simp
qed

lemma pop_event_events:
  assumes "kb_inv s" "pop_event s = (e, s')"
  shows "if queue_count s = 0 then s' = s else events s = e # events s'"
proof (cases "queue_count s = 0")
  case True thus ?thesis using assms queue_empty_iff by (simp add: pop_event_def)
next
  case False
  hence e: "e = queue s ! queue_read s" "s' = s\<lparr>queue_read := (queue_read s + 1) mod QUEUE_SIZE\<rparr>"
    using assms queue_empty_iff [OF assms(1)] by (auto simp: pop_event_def)
  have n: "queue_count s = Suc (queue_count s')"
    using pop_event_inv [OF assms(1)] queue_count_cases [OF assms(1)] queue_count_cases [of s'] False
      wrap_around [of "queue_read s + 1"] assms by (auto simp: kb_inv_def e(2) split: if_splits)
  have "events s = queue s ! (queue_read s mod QUEUE_SIZE) # map (\<lambda>i. queue s ! ((queue_read s + Suc i) mod QUEUE_SIZE)) [0..<queue_count s']"
    unfolding events_def n by (simp add: upt_conv_Cons map_Suc_upt [symmetric] comp_def del: upt_Suc)
  also have "queue s ! (queue_read s mod QUEUE_SIZE) = e" using assms(1) by (simp add: e(1) kb_inv_def)
  finally show ?thesis using False by (simp add: events_def e(2) mod_add_left_eq)
qed

text \<open>
  Several events pushed one after the other, with the number of those that found room, and several
  events taken out; with these operations the queue is a channel.
\<close>

fun push_events :: "keyboard \<Rightarrow> key_event list \<Rightarrow> keyboard \<times> nat" where
  "push_events s [] = (s, 0)"
| "push_events s (e # es) =
     (let (s', n) = push_events (push_event e s) es
      in (s', if queue_count s < QUEUE_SIZE - 1 then Suc n else n))"

fun pop_events :: "nat \<Rightarrow> keyboard \<Rightarrow> key_event list \<times> keyboard" where
  "pop_events 0 s = ([], s)"
| "pop_events (Suc n) s =
     (if queue_empty s then ([], s)
      else let (e, s) = pop_event s; (es, s) = pop_events n s in (e # es, s))"

lemma length_events [simp]: "length (events s) = queue_count s"
  by (simp add: events_def)

lemma push_events_law:
  assumes "kb_inv s" "push_events s es = (s', n)"
  shows "kb_inv s' \<and> n \<le> length es \<and> events s' = events s @ take n es \<and> (queue_count s = QUEUE_SIZE - 1 \<longrightarrow> n = 0)"
  using assms
proof (induction s es arbitrary: s' n rule: push_events.induct)
  case (2 s e es)
  obtain m where m: "push_events (push_event e s) es = (s', m)" "n = (if queue_count s < QUEUE_SIZE - 1 then Suc m else m)"
    using "2.prems"(2) by (auto simp: Let_def split: prod.splits)
  note IH = "2.IH" [OF push_event_inv [OF "2.prems"(1)] m(1)]
  have ev: "events (push_event e s) = (if queue_count s < QUEUE_SIZE - 1 then events s @ [e] else events s)"
    by (rule push_event_events [OF "2.prems"(1)])
  show ?case
  proof (cases "queue_count s < QUEUE_SIZE - 1")
    case False
    hence "queue_count (push_event e s) = QUEUE_SIZE - 1"
      using ev queue_count_less [OF "2.prems"(1)] by (metis length_events less_Suc_eq Suc_pred' less_imp_Suc_add zero_less_Suc)
    thus ?thesis using IH ev m(2) False by auto
  qed (use IH ev m(2) in auto)
qed simp

lemma pop_events_law:
  assumes "kb_inv s" "pop_events n s = (es, s')"
  shows "kb_inv s' \<and> events s = es @ events s' \<and> length es = min n (length (events s))"
  using assms
proof (induction n s arbitrary: es s' rule: pop_events.induct)
  case (2 n s)
  show ?case
  proof (cases "queue_empty s")
    case True thus ?thesis using "2.prems" queue_empty_iff by auto
  next
    case False
    obtain e t es' where t: "pop_event s = (e, t)" "pop_events n t = (es', s')" "es = e # es'"
      using "2.prems"(2) False by (auto simp: Let_def split: prod.splits)
    have ev: "events s = e # events t" using pop_event_events [OF "2.prems"(1) t(1)] queue_empty_iff [OF "2.prems"(1)] False by simp
    have "kb_inv t" using pop_event_inv [OF "2.prems"(1)] t(1) by simp
    from "2.IH" [OF False t(1) [symmetric] refl this t(2)] show ?thesis using ev t(3) by (metis append_Cons length_Cons min_Suc_Suc)
  qed
qed simp

interpretation kq: channel kb_inv events push_events pop_events
  by unfold_locales (use push_events_law pop_events_law in blast)+

fun key_session :: "key_event channel_op list \<Rightarrow> keyboard \<Rightarrow> key_event list \<times> key_event list \<times> keyboard" where
  "key_session [] s = ([], [], s)"
| "key_session (Put es # ops) s =
     (let (s1, n) = push_events s es; (acc, del, s2) = key_session ops s1 in (take n es @ acc, del, s2))"
| "key_session (Get k # ops) s =
     (let (es, s1) = pop_events k s; (acc, del, s2) = key_session ops s1 in (acc, es @ del, s2))"

lemma key_session_run: "key_session ops s = kq.run ops s"
  by (induction ops s rule: key_session.induct) (simp_all add: Let_def split: prod.splits)

text \<open>
  C27: The ring of key events is a queue of up to 127 events: whatever events are pushed and popped, in
  whatever order, the events that were popped followed by those still in the ring are the events
  that were in the ring followed by those that were accepted; an event is refused only when 127
  events are waiting.
\<close>

theorem key_queue_fifo:
  assumes "kb_inv s" "key_session ops s = (acc, del, s')"
  shows "kb_inv s' \<and> events s @ acc = del @ events s' \<and>
    (\<forall>e. length (events s') < 127 \<longrightarrow> events (push_event e s') = events s' @ [e])"
proof -
  have "kb_inv s' \<and> events s @ acc = del @ events s'"
    by (rule kq.run_fifo) (use assms key_session_run in auto)
  thus ?thesis using push_event_events [of s'] by (simp add: QUEUE_SIZE_def)
qed

section \<open>Typing\<close>

lemma put_stdin_contents:
  assumes "kb_inv s" "stdin_len s < STDIN_SIZE"
  shows "stdin_contents (put_stdin c s) = stdin_contents s @ [c]" "stdin_len (put_stdin c s) = Suc (stdin_len s)"
  using assms by (simp_all add: stdin_contents_def put_stdin_def kb_inv_def take_Suc_conv_app_nth)

text \<open>The state that decides what a key means.\<close>

definition layout :: "keyboard \<Rightarrow> bool \<times> bool \<times> bool \<times> bool \<times> bool \<times> bool" where
  "layout s = (kshift s, kcaps s, kctrl s, kalt s, num_lock s, extended s)"

lemma key_to_ascii_layout: "layout s = layout t \<Longrightarrow> key_to_ascii s k = key_to_ascii t k"
  by (simp add: layout_def key_to_ascii_def split: option.split)

lemma layout_updates [simp]:
  "layout (push_event e s) = layout s" "layout (put_stdin c s) = layout s"
  "stdin_contents (push_event e s) = stdin_contents s" "stdin_len (push_event e s) = stdin_len s"
  by (simp_all add: layout_def push_event_def put_stdin_def stdin_contents_def Let_def)

lemma printable_key:
  assumes "key_to_ascii s k \<noteq> 0"
  shows "set_modifiers k on s = s" "toggle_locks k s = s" "\<not> (KEY_F1 \<le> k \<and> k \<le> KEY_F12)"
proof -
  have "k \<notin> {KEY_LEFT_SHIFT, KEY_RIGHT_SHIFT, KEY_LEFT_CTRL, KEY_RIGHT_CTRL, KEY_LEFT_ALT, KEY_RIGHT_ALT,
      KEY_CAPS_LOCK, KEY_NUM_LOCK, KEY_SCROLL_LOCK}"
    using assms by (auto simp: key_to_ascii_def symbol_table_def keypad_table_def)
  thus "set_modifiers k on s = s" "toggle_locks k s = s" by (simp_all add: set_modifiers_def toggle_locks_def)
  show "\<not> (KEY_F1 \<le> k \<and> k \<le> KEY_F12)"
    using assms by (auto simp: key_to_ascii_def symbol_table_def keypad_table_def split: if_splits)
qed

lemma release_code:
  assumes "(sc::u8) AND 0x80 = 0"
  shows "sc AND 0x7F = sc" "(sc OR 0x80) AND 0x7F = sc" "(sc OR 0x80) AND 0x80 = 0x80" "sc OR 0x80 \<noteq> sc"
    "sc OR 0x80 = 0xE0 \<Longrightarrow> sc = 0x60" "sc OR 0x80 = 0xE1 \<Longrightarrow> sc = 0x61"
proof -
  have "(0x80 OR 0x7F :: u8) = -1" by code_simp
  hence "sc = sc AND (0x80 OR 0x7F)" by (simp only: bit.conj_one_right)
  thus low: "sc AND 0x7F = sc" using assms by (metis bit.conj_disj_distrib or.left_neutral)
  thus rel: "(sc OR 0x80) AND 0x7F = sc" by (simp add: bit.conj_disj_distrib2)
  show up: "(sc OR 0x80) AND 0x80 = 0x80" using assms by (simp add: bit.conj_disj_distrib2)
  show "sc OR 0x80 \<noteq> sc"
  proof
    assume "sc OR 0x80 = sc"
    hence "sc AND 0x80 = 0x80" using up by (simp only:)
    thus False using assms by simp
  qed
  show "sc OR 0x80 = 0xE0 \<Longrightarrow> sc = 0x60" "sc OR 0x80 = 0xE1 \<Longrightarrow> sc = 0x61" using rel by auto
qed

text \<open>A key is pressed and released again, at any times.\<close>

definition press :: "u64 \<times> u64 \<Rightarrow> u8 \<Rightarrow> keyboard \<Rightarrow> keyboard" where
  "press t sc s = process_scancode (snd t) (sc OR 0x80) (process_scancode (fst t) sc s)"

fun type_keys :: "(u64 \<times> u64 \<times> u8) list \<Rightarrow> keyboard \<Rightarrow> keyboard" where
  "type_keys [] s = s"
| "type_keys ((t, u, sc) # ks) s = type_keys ks (press (t, u) sc s)"

definition idle :: "keyboard \<Rightarrow> bool" where
  "idle s \<longleftrightarrow> kb_inv s \<and> \<not> kctrl s \<and> \<not> kalt s \<and> \<not> extended s \<and> last_raw_scancode s AND 0x80 \<noteq> 0"

lemma printable_codes:
  assumes "key_to_ascii s (scancode_to_key sc) \<noteq> 0"
  shows "sc \<noteq> 0x60 \<and> sc \<noteq> 0x61 \<and> sc \<noteq> 0xE0 \<and> sc \<noteq> 0xE1"
  using assms by (auto simp: scancode_to_key_def scancode_table_def key_to_ascii_def symbol_table_def keypad_table_def)

lemma press_down:
  assumes "idle s" "sc AND 0x80 = 0" "key_to_ascii s (scancode_to_key sc) \<noteq> 0" "stdin_len s < STDIN_SIZE"
    and "d = process_scancode now sc s"
  shows "layout d = layout s \<and> kb_inv d \<and> last_raw_scancode d = sc \<and> stdin_len d = Suc (stdin_len s) \<and>
    stdin_contents d = stdin_contents s @ [key_to_ascii s (scancode_to_key sc)]"
proof -
  let ?k = "scancode_to_key sc" and ?c = "key_to_ascii s (scancode_to_key sc)"
  define q where "q = s\<lparr>last_raw_scancode := sc, last_scancode_tick := now, extended := False\<rparr>"
  have q: "layout q = layout s" "kb_inv q" "stdin_len q = stdin_len s" "stdin_contents q = stdin_contents s"
    "last_raw_scancode q = sc" "\<not> kctrl q" "\<not> kalt q"
    using assms(1) by (simp_all add: q_def layout_def idle_def kb_inv_def stdin_contents_def)
  have c: "key_to_ascii q ?k = ?c" by (rule key_to_ascii_layout [OF q(1)])
  note pk = printable_key [of q ?k, unfolded c, OF assms(3)]
  have "sc \<noteq> last_raw_scancode s" using assms(1,2) by (auto simp: idle_def)
  hence "d = key_down ?k sc q"
    using assms(1,2,5) printable_codes [OF assms(3)] release_code(1) [OF assms(2)]
    by (simp add: process_scancode_def idle_def q_def Let_def)
  also have "\<dots> = push_event (key_event_of ?k True sc q) (put_stdin ?c q)"
    using assms(3) c pk q(6,7) by (simp add: key_down_def deliver_key_def apply_ctrl_def Let_def)
  finally have d: "d = push_event (key_event_of ?k True sc q) (put_stdin ?c q)" .
  have "last_raw_scancode d = sc" using q(5) by (simp add: d push_event_def put_stdin_def Let_def)
  thus ?thesis using q put_stdin_contents [OF q(2), of ?c] assms(4) by (simp add: d push_event_inv put_stdin_inv)
qed

lemma press_printable:
  assumes "idle s" "sc AND 0x80 = 0" "key_to_ascii s (scancode_to_key sc) \<noteq> 0" "stdin_len s < STDIN_SIZE"
  shows "idle (press t sc s) \<and> layout (press t sc s) = layout s \<and> stdin_len (press t sc s) = Suc (stdin_len s) \<and>
    stdin_contents (press t sc s) = stdin_contents s @ [key_to_ascii s (scancode_to_key sc)]"
proof -
  note rc = release_code [OF assms(2)]
  define d where "d = process_scancode (fst t) sc s"
  note down = press_down [OF assms d_def]
  define q where "q = d\<lparr>last_raw_scancode := sc OR 0x80, last_scancode_tick := snd t, extended := False\<rparr>"
  have q: "layout q = layout s" "kb_inv q" "stdin_len q = stdin_len d" "stdin_contents q = stdin_contents d"
    "last_raw_scancode q = sc OR 0x80"
    using down assms(1) by (auto simp: q_def layout_def idle_def kb_inv_def stdin_contents_def)
  have "key_to_ascii q (scancode_to_key sc) \<noteq> 0" using key_to_ascii_layout [OF q(1)] assms(3) by simp
  note pk = printable_key [OF this]
  have "\<not> extended d" using down assms(1) by (auto simp: layout_def idle_def)
  moreover have "sc OR 0x80 \<noteq> 0xE0" "sc OR 0x80 \<noteq> 0xE1" using rc(5,6) printable_codes [OF assms(3)] by blast+
  ultimately have "process_scancode (snd t) (sc OR 0x80) d = push_event (key_event_of (scancode_to_key sc) False sc q) q"
    using rc(2-4) down pk(1) by (simp add: process_scancode_def key_up_def Let_def q_def [symmetric])
  hence up: "press t sc s = push_event (key_event_of (scancode_to_key sc) False sc q) q" by (simp add: press_def d_def)
  have "last_raw_scancode (press t sc s) = sc OR 0x80" by (simp add: up push_event_def Let_def q(5))
  hence "idle (press t sc s)" using q(1,2) assms(1) rc(3)
    by (simp add: idle_def up push_event_inv) (simp add: layout_def push_event_def Let_def)
  thus ?thesis using q down by (simp add: up)
qed

lemma type_keys_contents:
  assumes "idle s" "\<forall>(t, u, sc) \<in> set ks. sc AND 0x80 = 0 \<and> key_to_ascii s (scancode_to_key sc) \<noteq> 0"
    and "stdin_len s + length ks \<le> 256"
  shows "idle (type_keys ks s) \<and>
    stdin_contents (type_keys ks s) = stdin_contents s @ map (\<lambda>(t, u, sc). key_to_ascii s (scancode_to_key sc)) ks"
  using assms
proof (induction ks arbitrary: s)
  case (Cons x ks)
  obtain t u sc where x: "x = (t, u, sc)" by (cases x)
  have p: "idle (press (t, u) sc s)" "layout (press (t, u) sc s) = layout s" "stdin_len (press (t, u) sc s) = Suc (stdin_len s)"
    "stdin_contents (press (t, u) sc s) = stdin_contents s @ [key_to_ascii s (scancode_to_key sc)]"
    using press_printable [OF Cons.prems(1), of sc "(t, u)"] Cons.prems(2,3) x by (auto simp: STDIN_SIZE_def)
  have "key_to_ascii (press (t, u) sc s) = key_to_ascii s" using key_to_ascii_layout [OF p(2)] by blast
  thus ?case using Cons.IH [OF p(1)] Cons.prems(2,3) p(3,4) x by auto
qed simp

text \<open>
  Keys that stand for characters, pressed and released one after the other while neither control
  nor alt is held, put exactly their characters into the buffer of the terminal, in order, as long
  as there is room for them; how fast they are pressed makes no difference to the test for bouncing
  keys, also when the same key is pressed several times.
\<close>

theorem typed_text:
  assumes "idle s" "\<forall>(t, u, sc) \<in> set ks. sc AND 0x80 = 0 \<and> key_to_ascii s (scancode_to_key sc) \<noteq> 0"
    and "stdin_len s + length ks \<le> 256"
  shows "idle (type_keys ks s) \<and>
    stdin_contents (type_keys ks s) = stdin_contents s @ map (\<lambda>(t, u, sc). key_to_ascii s (scancode_to_key sc)) ks"
  using type_keys_contents [OF assms] .

section \<open>Examples\<close>

definition keyboard_demo :: keyboard where
  "keyboard_demo =
     \<lparr>queue = replicate 128 no_event, queue_read = 0, queue_write = 0, kshift = False, kcaps = False, kctrl = False,
      kalt = False, num_lock = False, scroll_lock = False, last_raw_scancode = 0x9C, last_scancode_tick = 0, extended = False,
      stdin_buffer = replicate 256 0, stdin_len = 0, active_vt = 1, kbd_out = [], con_out = []\<rparr>"

lemma keyboard_demo_inv: "kb_inv keyboard_demo" "idle keyboard_demo"
  by (simp_all add: keyboard_demo_def idle_def kb_inv_def QUEUE_SIZE_def STDIN_SIZE_def)


theorem key_queue_fifo_witness:
  "let (acc, del, s') = key_session [Put [no_event, no_event], Get 1] keyboard_demo
   in kb_inv s' \<and> events keyboard_demo @ acc = del @ events s' \<and>
      (\<forall>e. length (events s') < 127 \<longrightarrow> events (push_event e s') = events s' @ [e])"
proof -
  obtain acc del s' where "key_session [Put [no_event, no_event], Get 1] keyboard_demo = (acc, del, s')" by (metis prod_cases3)
  from key_queue_fifo [OF keyboard_demo_inv(1) this] this show ?thesis by simp
qed

text \<open>The keys of \<open>hello\<close>, all within one tick.\<close>

theorem typed_text_witness:
  "stdin_contents (type_keys (map (\<lambda>sc. (0, 0, sc)) [0x23, 0x12, 0x26, 0x26, 0x18]) keyboard_demo) = [104, 101, 108, 108, 111]"
proof -
  have "map (\<lambda>sc. key_to_ascii keyboard_demo (scancode_to_key sc)) [0x23, 0x12, 0x26, 0x26, 0x18] = [104, 101, 108, 108, 111]"
    by code_simp
  moreover have "stdin_contents keyboard_demo = []" "stdin_len keyboard_demo = 0"
    by (simp_all add: keyboard_demo_def stdin_contents_def)
  ultimately show ?thesis
    using typed_text [OF keyboard_demo_inv(2), of "map (\<lambda>sc. (0, 0, sc)) [0x23, 0x12, 0x26, 0x26, 0x18]"] by simp
qed

end
