(* ===== verification/Tty.thy ===== *)
theory Tty
  imports Keyboard
begin

unbundle bit_operations_syntax

text \<open>
  The terminal, \<open>src/fs/devfs/tty.cpp\<close>: the settings, the buffer of the keyboard seen from its reading
  end, and the two ways to read. A loop that waits for the keyboard returns to its caller here, with
  the bytes it has collected; it is resumed with them. What the terminal echoes is part of the
  console output in the state of the keyboard.
\<close>

section \<open>Settings\<close>

record termios =
  c_iflag :: u32
  c_oflag :: u32
  c_cflag :: u32
  c_lflag :: u32
  c_line :: u8
  c_cc :: "u8 list"

record tty =
  tio :: termios
  termios_init :: bool
  kb :: keyboard

definition ISIG :: u32 where "ISIG = 1"
definition ICANON :: u32 where "ICANON = 2"
definition ECHO :: u32 where "ECHO = 8"
definition VINTR :: nat where "VINTR = 0"
definition VERASE :: nat where "VERASE = 2"
definition VEOF :: nat where "VEOF = 4"
definition VTIME :: nat where "VTIME = 5"
definition VMIN :: nat where "VMIN = 6"

definition initial_termios :: termios where
  "initial_termios =
     \<lparr>c_iflag = 0, c_oflag = 0, c_cflag = 0, c_lflag = ISIG OR ICANON OR ECHO, c_line = 0, c_cc = replicate 32 0\<rparr>"

definition ensure_defaults :: "tty \<Rightarrow> tty" where
  "ensure_defaults t =
     (if termios_init t then t
      else t\<lparr>termios_init := True,
             tio := (tio t)\<lparr>c_cc := (c_cc (tio t))[VERASE := 8, VEOF := 4, VINTR := 3, VMIN := 1, VTIME := 0]\<rparr>\<rparr>)"

section \<open>Reading\<close>

text \<open>The first byte is taken out, and the others move to the front one by one.\<close>

definition shift_bytes :: "nat \<Rightarrow> u8 list \<Rightarrow> u8 list" where
  "shift_bytes n bs = fold (\<lambda>i b. b[i - 1 := b ! i]) [1..<n] bs"

definition pop_raw_byte :: "tty \<Rightarrow> u8 \<times> tty" where
  "pop_raw_byte t =
     (stdin_buffer (kb t) ! 0,
      t\<lparr>kb := (kb t)\<lparr>stdin_buffer := shift_bytes (stdin_len (kb t)) (stdin_buffer (kb t)),
                     stdin_len := stdin_len (kb t) - 1\<rparr>\<rparr>)"

definition tty_put :: "u8 \<Rightarrow> tty \<Rightarrow> tty" where
  "tty_put c t = t\<lparr>kb := console_write [c] (kb t)\<rparr>"

definition echoes :: "termios \<Rightarrow> bool" where "echoes s \<longleftrightarrow> c_lflag s AND ECHO \<noteq> 0"

definition erases :: "termios \<Rightarrow> u8 \<Rightarrow> bool" where
  "erases s c \<longleftrightarrow> c = 8 \<or> c = 127 \<or> (c_cc s ! VERASE \<noteq> 0 \<and> c = c_cc s ! VERASE)"

text \<open>The end of a read, or the bytes collected so far when it has to wait.\<close>

datatype read_result = Read_done "u8 list" | Read_wait "u8 list"

lemma pop_raw_byte_fields [simp]:
  "stdin_len (kb (snd (pop_raw_byte t))) = stdin_len (kb t) - 1" "tio (snd (pop_raw_byte t)) = tio t"
  "stdin_len (kb (tty_put c t)) = stdin_len (kb t)" "tio (tty_put c t) = tio t"
  by (simp_all add: pop_raw_byte_def tty_put_def console_write_def)

function read_canonical :: "nat \<Rightarrow> u8 list \<Rightarrow> tty \<Rightarrow> read_result \<times> tty" where
  "read_canonical len buf t =
     (if len \<le> length buf then (Read_done buf, t)
      else if stdin_len (kb t) = 0 then (Read_wait buf, t)
      else
        let c = fst (pop_raw_byte t); t1 = snd (pop_raw_byte t)
        in if erases (tio t) c then
             if buf = [] then read_canonical len buf t1
             else read_canonical len (butlast buf) (if echoes (tio t) then tty_put 8 t1 else t1)
           else
             let buf = buf @ [c]; t2 = (if echoes (tio t) then tty_put c t1 else t1)
             in if c = 10 then (Read_done buf, t2) else read_canonical len buf t2)"
  by pat_completeness auto
termination by (relation "measure (\<lambda>(len, buf, t). stdin_len (kb t))") auto

declare read_canonical.simps [simp del]

fun pop_bytes :: "nat \<Rightarrow> tty \<Rightarrow> u8 list \<times> tty" where
  "pop_bytes 0 t = ([], t)"
| "pop_bytes (Suc n) t =
     (if stdin_len (kb t) = 0 then ([], t)
      else let (c, t) = pop_raw_byte t; (cs, t) = pop_bytes n t in (c # cs, t))"

definition read_raw :: "nat \<Rightarrow> tty \<Rightarrow> read_result \<times> tty" where
  "read_raw len t =
     (if len = 0 then (Read_done [], t)
      else if stdin_len (kb t) = 0 \<and> c_cc (tio t) ! VMIN = 0 then (Read_done [], t)
      else if stdin_len (kb t) = 0 then (Read_wait [], t)
      else let (cs, t) = pop_bytes len t in (Read_done cs, t))"

definition tty_read :: "nat \<Rightarrow> tty \<Rightarrow> read_result \<times> tty" where
  "tty_read len t =
     (let t = ensure_defaults t
      in if c_lflag (tio t) AND ICANON \<noteq> 0 then read_canonical len [] t else read_raw len t)"

definition tty_write :: "u8 list \<Rightarrow> tty \<Rightarrow> nat \<times> tty" where
  "tty_write bs t = (length bs, t\<lparr>kb := console_write bs (kb t)\<rparr>)"

text \<open>\<open>ioctl\<close>: the argument is a buffer, given by the settings it holds; the result is what is stored there.\<close>

datatype ioctl_data = No_data | Window_size u16 u16 | Settings termios

definition TIOCGWINSZ :: u64 where "TIOCGWINSZ = 0x5413"
definition TCGETS :: u64 where "TCGETS = 0x5401"
definition TCSETS :: u64 where "TCSETS = 0x5402"
definition TCSETSW :: u64 where "TCSETSW = 0x5403"
definition TCSETSF :: u64 where "TCSETSF = 0x5404"

definition tty_ioctl :: "u16 \<times> u16 \<Rightarrow> u64 \<Rightarrow> termios option \<Rightarrow> tty \<Rightarrow> int \<times> ioctl_data \<times> tty" where
  "tty_ioctl console_size req arg t =
     (let t = ensure_defaults t
      in case arg of
           None \<Rightarrow> (-1, No_data, t)
         | Some a \<Rightarrow>
             if req = TIOCGWINSZ then (0, Window_size (fst console_size) (snd console_size), t)
             else if req = TCGETS then (0, Settings (tio t), t)
             else if req = TCSETS \<or> req = TCSETSW \<or> req = TCSETSF then (0, No_data, t\<lparr>tio := a\<rparr>)
             else (-1, No_data, t))"

section \<open>Taking bytes out of the buffer\<close>

lemma shift_bytes_nth:
  "n \<le> length bs \<Longrightarrow> i < length bs \<Longrightarrow> shift_bytes n bs ! i = (if i + 1 < n then bs ! (i + 1) else bs ! i)"
  "length (shift_bytes n bs) = length bs"
proof (induction n arbitrary: i)
  case 0
  { case 1 show ?case by (simp add: shift_bytes_def) next case 2 show ?case by (simp add: shift_bytes_def) }
next
  case (Suc n)
  have step: "shift_bytes (Suc n) bs = (if n = 0 then bs else (shift_bytes n bs)[n - 1 := shift_bytes n bs ! n])"
    by (simp add: shift_bytes_def)
  { case 1 show ?case using Suc.IH(1) [of i] Suc.IH(1) [of n] Suc.IH(2) 1 by (auto simp: step nth_list_update)
  next case 2 show ?case by (simp add: step Suc.IH(2)) }
qed

lemma pop_raw_byte_contents:
  assumes "kb_inv (kb t)" "stdin_contents (kb t) = c # cs"
  shows "fst (pop_raw_byte t) = c" "kb_inv (kb (snd (pop_raw_byte t)))" "stdin_contents (kb (snd (pop_raw_byte t))) = cs"
    "con_out (kb (snd (pop_raw_byte t))) = con_out (kb t)"
proof -
  let ?n = "stdin_len (kb t)" and ?b = "stdin_buffer (kb t)"
  have "length (stdin_contents (kb t)) = ?n" using assms(1) by (simp add: kb_inv_def stdin_contents_def)
  hence n: "?n \<le> length ?b" "?n = Suc (length cs)" using assms by (simp_all add: kb_inv_def)
  have b: "?b ! i = (c # cs) ! i" if "i < ?n" for i
    using arg_cong [OF assms(2), of "\<lambda>xs. xs ! i"] that by (simp add: stdin_contents_def)
  show "fst (pop_raw_byte t) = c" using b [of 0] n(2) by (simp add: pop_raw_byte_def)
  show "kb_inv (kb (snd (pop_raw_byte t)))" using assms(1) by (auto simp: pop_raw_byte_def kb_inv_def shift_bytes_nth(2))
  show "stdin_contents (kb (snd (pop_raw_byte t))) = cs"
    by (rule nth_equalityI) (use n b shift_bytes_nth in \<open>auto simp: pop_raw_byte_def stdin_contents_def\<close>)
  show "con_out (kb (snd (pop_raw_byte t))) = con_out (kb t)" by (simp add: pop_raw_byte_def)
qed

section \<open>Canonical mode\<close>

text \<open>
  What a line is: the bytes of the input in order, except that an erasing byte takes the byte before it
  away, up to a newline or until the buffer is full. The result is the line, or what there is of it
  when the input ends, the input behind the line, and what is echoed.
\<close>

fun edit_line :: "(u8 \<Rightarrow> bool) \<Rightarrow> nat \<Rightarrow> u8 list \<Rightarrow> u8 list \<Rightarrow> read_result \<times> u8 list \<times> u8 list" where
  "edit_line er len buf [] = (if len \<le> length buf then Read_done buf else Read_wait buf, [], [])"
| "edit_line er len buf (c # cs) =
     (if len \<le> length buf then (Read_done buf, c # cs, [])
      else if er c then
        let (l, r, e) = edit_line er len (butlast buf) cs in (l, r, if buf = [] then e else 8 # e)
      else if c = 10 then (Read_done (buf @ [c]), cs, [c])
      else let (l, r, e) = edit_line er len (buf @ [c]) cs in (l, r, c # e))"

lemma edit_line_append:
  "edit_line er len buf (xs @ ys) =
    (case edit_line er len buf xs of
       (Read_done l, r, e) \<Rightarrow> (Read_done l, r @ ys, e)
     | (Read_wait b, _, e) \<Rightarrow> (let (l, r, e') = edit_line er len b ys in (l, r, e @ e')))"
proof (induction er len buf xs rule: edit_line.induct)
  case (1 er len buf)
  show ?case by (cases ys) (auto simp: Let_def split: prod.split)
next
  case (2 er len buf c cs)
  thus ?case by (auto simp: Let_def split: prod.splits read_result.splits)
qed

lemma edit_line_wait: "edit_line er len buf xs = (Read_wait b, r, e) \<Longrightarrow> r = []"
  by (induction er len buf xs arbitrary: b r e rule: edit_line.induct) (auto simp: Let_def split: prod.splits if_splits)

lemma read_canonical_edits:
  assumes "kb_inv (kb t)" "edit_line (erases (tio t)) len buf (stdin_contents (kb t)) = (l, r, e)"
  shows "\<exists>t'. read_canonical len buf t = (l, t') \<and> kb_inv (kb t') \<and> tio t' = tio t \<and> stdin_contents (kb t') = r \<and>
    con_out (kb t') = con_out (kb t) @ (if echoes (tio t) then e else [])"
  using assms
proof (induction "stdin_contents (kb t)" arbitrary: buf t l r e)
  case Nil
  have "stdin_len (kb t) = 0" using Nil(1,2) by (auto simp: stdin_contents_def kb_inv_def STDIN_SIZE_def)
  moreover have "l = (if len \<le> length buf then Read_done buf else Read_wait buf)" "r = []" "e = []"
    using Nil(3) unfolding Nil(1) [symmetric] by auto
  ultimately show ?case using Nil(1,2) by (subst read_canonical.simps) auto
next
  case (Cons c cs)
  have c: "stdin_contents (kb t) = c # cs" using Cons.hyps(2) by simp
  have n: "stdin_len (kb t) \<noteq> 0" using c by (metis list.distinct(1) stdin_contents_def take_0)
  note ed = Cons.prems(2) [unfolded c]
  define t1 where "t1 = snd (pop_raw_byte t)"
  note pop = pop_raw_byte_contents [OF Cons.prems(1) c, folded t1_def]
  have ti: "tio t1 = tio t" by (simp add: t1_def)
  define q where "q x = (if echoes (tio t) then tty_put x t1 else t1)" for x
  have q: "kb_inv (kb (q x))" "stdin_contents (kb (q x)) = cs" "tio (q x) = tio t"
    "con_out (kb (q x)) = con_out (kb t) @ (if echoes (tio t) then [x] else [])" for x
    using pop ti by (auto simp: q_def tty_put_def console_write_def kb_inv_def stdin_contents_def)
  consider (full) "len \<le> length buf" | (erase0) "\<not> len \<le> length buf" "erases (tio t) c" "buf = []"
    | (erase) "\<not> len \<le> length buf" "erases (tio t) c" "buf \<noteq> []"
    | (newline) "\<not> len \<le> length buf" "\<not> erases (tio t) c" "c = 10"
    | (plain) "\<not> len \<le> length buf" "\<not> erases (tio t) c" "c \<noteq> 10" by blast
  thus ?case
  proof cases
    case full thus ?thesis using ed c Cons.prems(1) by (subst read_canonical.simps) simp
  next
    case erase0
    have "edit_line (erases (tio t1)) len buf (stdin_contents (kb t1)) = (l, r, e)"
      using ed erase0 pop(3) ti by (simp add: Let_def split: prod.splits)
    moreover have "read_canonical len buf t = read_canonical len buf t1"
      using n pop(1) erase0 by (subst read_canonical.simps) (simp add: Let_def t1_def)
    ultimately show ?thesis using Cons.hyps(1) [OF pop(3) [symmetric] pop(2)] pop(4) ti by simp
  next
    case erase
    then obtain e' where e': "edit_line (erases (tio (q 8))) len (butlast buf) (stdin_contents (kb (q 8))) = (l, r, e')" "e = 8 # e'"
      using ed q(2,3) [of 8] by (auto simp: Let_def split: prod.splits)
    have "read_canonical len buf t = read_canonical len (butlast buf) (q 8)"
      using n pop(1) erase by (subst read_canonical.simps) (simp add: Let_def t1_def q_def)
    thus ?thesis using Cons.hyps(1) [OF q(2) [symmetric] q(1) e'(1)] q(3,4) [of 8] e'(2) by (cases "echoes (tio t)") auto
  next
    case newline
    have "read_canonical len buf t = (Read_done (buf @ [c]), q c)"
      using n pop(1) newline by (subst read_canonical.simps) (simp add: Let_def t1_def q_def)
    thus ?thesis using q [of c] newline ed by auto
  next
    case plain
    then obtain e' where e': "edit_line (erases (tio (q c))) len (buf @ [c]) (stdin_contents (kb (q c))) = (l, r, e')" "e = c # e'"
      using ed q(2,3) [of c] by (auto simp: Let_def split: prod.splits)
    have "read_canonical len buf t = read_canonical len (buf @ [c]) (q c)"
      using n pop(1) plain by (subst read_canonical.simps) (simp add: Let_def t1_def q_def)
    thus ?thesis using Cons.hyps(1) [OF q(2) [symmetric] q(1) e'(1)] q(3,4) [of c] e'(2) by (cases "echoes (tio t)") auto
  qed
qed

text \<open>
  The keyboard puts bytes into the buffer while the reader waits: \<open>arrive\<close> is one such delivery, and
  \<open>read_line\<close> the whole read, resumed after each of them; it also returns the deliveries not waited for.
\<close>

definition arrive :: "u8 list \<Rightarrow> tty \<Rightarrow> tty" where
  "arrive cs t = t\<lparr>kb := fold put_stdin cs (kb t)\<rparr>"

fun read_line :: "nat \<Rightarrow> u8 list \<Rightarrow> u8 list list \<Rightarrow> tty \<Rightarrow> (u8 list \<times> u8 list list \<times> tty) option" where
  "read_line len buf css t =
     (case read_canonical len buf t of
        (Read_done l, t) \<Rightarrow> Some (l, css, t)
      | (Read_wait b, t) \<Rightarrow> (case css of [] \<Rightarrow> None | cs # css \<Rightarrow> read_line len b css (arrive cs t)))"

declare read_line.simps [simp del]

lemma put_stdins_contents:
  "kb_inv s \<Longrightarrow> stdin_len s + length cs \<le> STDIN_SIZE \<Longrightarrow>
   stdin_contents (fold put_stdin cs s) = stdin_contents s @ cs \<and> con_out (fold put_stdin cs s) = con_out s"
proof (induction cs arbitrary: s)
  case (Cons c cs)
  have "con_out (put_stdin c s) = con_out s" by (simp add: put_stdin_def)
  thus ?case using Cons.IH [OF put_stdin_inv [OF Cons.prems(1)], of c] Cons.prems put_stdin_contents [OF Cons.prems(1), of c] by simp
qed simp

lemma arrive_contents:
  assumes "kb_inv (kb t)" "stdin_contents (kb t) = []" "length cs \<le> STDIN_SIZE"
  shows "kb_inv (kb (arrive cs t))" "stdin_contents (kb (arrive cs t)) = cs" "tio (arrive cs t) = tio t"
    "con_out (kb (arrive cs t)) = con_out (kb t)"
proof -
  have "stdin_len (kb t) = 0" using assms(1,2) by (auto simp: stdin_contents_def kb_inv_def STDIN_SIZE_def)
  thus "kb_inv (kb (arrive cs t))" "stdin_contents (kb (arrive cs t)) = cs" "tio (arrive cs t) = tio t"
    "con_out (kb (arrive cs t)) = con_out (kb t)"
    using put_stdins_contents [OF assms(1), of cs] put_stdins_inv [OF assms(1)] assms(2,3) by (simp_all add: arrive_def)
qed

text \<open>
  C14: A read in canonical mode returns the edited line, whatever the way in which its bytes arrive: some
  may be in the buffer when the read starts, the others come in deliveries of up to 256 bytes each
  time the read waits. When all these bytes together hold a whole line, the read returns it, has
  echoed the characters and erasures (when echo is on), and leaves the bytes behind the line.
\<close>

theorem canonical_read_line:
  assumes "kb_inv (kb t)" "list_all (\<lambda>cs. length cs \<le> 256) css"
    and "edit_line (erases (tio t)) len buf (stdin_contents (kb t) @ concat css) = (Read_done l, r, e)"
  shows "\<exists>css' t'. read_line len buf css t = Some (l, css', t') \<and> stdin_contents (kb t') @ concat css' = r \<and>
    kb_inv (kb t') \<and> con_out (kb t') = con_out (kb t) @ (if echoes (tio t) then e else [])"
  using assms
proof (induction css arbitrary: buf t e)
  case Nil
  from read_canonical_edits [OF Nil.prems(1)] Nil.prems(3) show ?case by (subst read_line.simps) fastforce
next
  case (Cons cs css)
  obtain l1 r1 e1 where ed: "edit_line (erases (tio t)) len buf (stdin_contents (kb t)) = (l1, r1, e1)" by (metis prod_cases3)
  from read_canonical_edits [OF Cons.prems(1) ed] obtain t' where
    t': "read_canonical len buf t = (l1, t')" "kb_inv (kb t')" "tio t' = tio t" "stdin_contents (kb t') = r1"
      "con_out (kb t') = con_out (kb t) @ (if echoes (tio t) then e1 else [])" by blast
  show ?case
  proof (cases l1)
    case (Read_done x)
    hence "x = l" "r = r1 @ concat (cs # css)" "e = e1"
      using Cons.prems(3) edit_line_append [of "erases (tio t)" len buf "stdin_contents (kb t)" "concat (cs # css)"] ed by auto
    thus ?thesis using t' Read_done by (subst read_line.simps) auto
  next
    case (Read_wait b)
    have "r1 = []" using edit_line_wait ed Read_wait by blast
    note ar = arrive_contents [OF t'(2), of cs] and r1 = this
    obtain e2 where e2: "edit_line (erases (tio t)) len b (concat (cs # css)) = (Read_done l, r, e2)" "e = e1 @ e2"
      using Cons.prems(3) edit_line_append [of "erases (tio t)" len buf "stdin_contents (kb t)" "concat (cs # css)"] ed Read_wait
      by (auto simp: Let_def split: prod.splits)
    have cs: "length cs \<le> STDIN_SIZE" "list_all (\<lambda>cs. length cs \<le> 256) css" using Cons.prems(2) by (simp_all add: STDIN_SIZE_def)
    have "edit_line (erases (tio (arrive cs t'))) len b (stdin_contents (kb (arrive cs t')) @ concat css) = (Read_done l, r, e2)"
      using e2(1) ar t'(3,4) r1 cs(1) by simp
    from Cons.IH [OF _ cs(2) this] ar(1,3,4) t'(3-5) r1 cs(1) e2(2)
    show ?thesis by (subst read_line.simps) (auto simp: t'(1) Read_wait)
  qed
qed

section \<open>From the keys to the reader\<close>

lemma edit_line_plain:
  "list_all (\<lambda>c. \<not> er c \<and> c \<noteq> 10) cs \<Longrightarrow> \<not> er 10 \<Longrightarrow> length buf + length cs < len \<Longrightarrow>
   edit_line er len buf (cs @ [10]) = (Read_done (buf @ cs @ [10]), [], cs @ [10])"
  by (induction cs arbitrary: buf) (auto simp: Let_def)

text \<open>
  C40: A line typed at the keyboard is what the terminal reads: when the keys of characters that are
  neither newlines nor erasing, and then the enter key, are pressed and released one after the other,
  a canonical read gets exactly these characters and the newline, and echoes them.
\<close>

theorem typed_line_read:
  assumes "idle (kb t)" "stdin_len (kb t) = 0" "\<not> erases (tio t) 10" "length ks < 256" "length ks < len"
    and "\<forall>(a, b, sc) \<in> set ks. sc AND 0x80 = 0 \<and> key_to_ascii (kb t) (scancode_to_key sc) \<notin> {0, 10} \<and>
      \<not> erases (tio t) (key_to_ascii (kb t) (scancode_to_key sc))"
    and "cs = map (\<lambda>(a, b, sc). key_to_ascii (kb t) (scancode_to_key sc)) ks"
  shows "\<exists>t'. read_canonical len [] (t\<lparr>kb := type_keys (ks @ [(a, b, 0x1C)]) (kb t)\<rparr>) = (Read_done (cs @ [10]), t') \<and>
    stdin_contents (kb t') = [] \<and>
    con_out (kb t') = con_out (type_keys (ks @ [(a, b, 0x1C)]) (kb t)) @ (if echoes (tio t) then cs @ [10] else [])"
proof -
  let ?ks = "ks @ [(a, b, 0x1C)]"
  let ?t = "t\<lparr>kb := type_keys ?ks (kb t)\<rparr>"
  have enter: "key_to_ascii (kb t) (scancode_to_key 0x1C) = 10"
    by (simp add: scancode_to_key_def scancode_table_def key_to_ascii_def symbol_table_def ch_def)
  have "\<forall>(a, b, sc) \<in> set ?ks. sc AND 0x80 = 0 \<and> key_to_ascii (kb t) (scancode_to_key sc) \<noteq> 0"
    using assms(6) enter by fastforce
  from type_keys_contents [OF assms(1) this] have idle: "idle (kb ?t)" and typed: "stdin_contents (kb ?t) = cs @ [10]"
    using assms(2,4,7) enter by (simp_all add: stdin_contents_def)
  have "list_all (\<lambda>c. \<not> erases (tio t) c \<and> c \<noteq> 10) cs" using assms(6,7) by (auto simp: list_all_iff)
  hence ed: "edit_line (erases (tio ?t)) len [] (stdin_contents (kb ?t)) = (Read_done (cs @ [10]), [], cs @ [10])"
    using edit_line_plain [of "erases (tio t)" cs "[]" len] assms(3,5,7) typed by simp
  have "kb_inv (kb ?t)" using idle by (simp add: idle_def)
  from read_canonical_edits [OF this ed] show ?thesis by auto
qed

section \<open>Examples\<close>

definition tty_demo :: tty where
  "tty_demo = ensure_defaults \<lparr>tio = initial_termios, termios_init = False, kb = keyboard_demo\<rparr>"

lemma tty_demo_fields: "kb tty_demo = keyboard_demo" "erases (tio tty_demo) c = (c = 8 \<or> c = 127)" "echoes (tio tty_demo)"
  by (auto simp: tty_demo_def ensure_defaults_def initial_termios_def erases_def echoes_def VERASE_def VEOF_def VINTR_def
    VMIN_def VTIME_def ISIG_def ICANON_def ECHO_def)

lemma keyboard_demo_stdin: "stdin_contents keyboard_demo = []" "stdin_len keyboard_demo = 0" "con_out keyboard_demo = []"
  by (simp_all add: keyboard_demo_def stdin_contents_def)

text \<open>The letters \<open>l x\<close>, an erasure, \<open>s\<close> and a newline, in three deliveries; the next line has begun.\<close>

theorem canonical_read_line_witness:
  "\<exists>css' t'. read_line 80 [] [[108], [120, 8], [115, 10, 112]] tty_demo = Some ([108, 115, 10], css', t') \<and>
    stdin_contents (kb t') @ concat css' = [112] \<and> kb_inv (kb t') \<and>
    con_out (kb t') = [] @ [108, 120, 8, 115, 10]"
  using canonical_read_line [of tty_demo "[[108], [120, 8], [115, 10, 112]]" 80 "[]" "[108, 115, 10]" "[112]" "[108, 120, 8, 115, 10]"]
    keyboard_demo_inv(1)
  by (simp add: tty_demo_fields keyboard_demo_stdin Let_def)

theorem typed_line_read_witness:
  "\<exists>t'. read_canonical 80 [] (tty_demo\<lparr>kb := type_keys ([(0, 0, 0x26), (0, 0, 0x1F)] @ [(0, 0, 0x1C)]) (kb tty_demo)\<rparr>) =
      (Read_done ([108, 115] @ [10]), t') \<and> stdin_contents (kb t') = [] \<and>
    con_out (kb t') = con_out (type_keys ([(0, 0, 0x26), (0, 0, 0x1F)] @ [(0, 0, 0x1C)]) (kb tty_demo)) @ [108, 115, 10]"
proof -
  have "key_to_ascii keyboard_demo (scancode_to_key 0x26) = 108" "key_to_ascii keyboard_demo (scancode_to_key 0x1F) = 115"
    by code_simp+
  thus ?thesis
    using typed_line_read [of tty_demo "[(0, 0, 0x26), (0, 0, 0x1F)]" 80 "[108, 115]" 0 0] keyboard_demo_inv(2)
    by (simp add: tty_demo_fields keyboard_demo_stdin)
qed

end
