(* ===== verification/Psf.thy ===== *)
theory Psf
  imports Byte_Paths Gzip KString
begin

unbundle bit_operations_syntax

text \<open>
  The fonts of the console, \<open>src/kernel/drivers/psf.cpp\<close>, with the loop over the tags of the boot
  information of \<open>include/multiboot.h\<close>. A font points to its glyphs in memory. The result of \<open>kmalloc\<close>
  for a font that has to be unpacked is an argument, 0 being the null pointer. \<open>None\<close> stands for a
  fault of the decompressor or, in the loop over the tags, for a loop that does not end.
\<close>

section \<open>Loading a font\<close>

record font =
  glyphs :: u64
  glyph_count :: u32
  font_width :: u32
  font_height :: u32
  glyph_size :: u32
  bytes_per_row :: u32

definition empty_font :: font where
  "empty_font = \<lparr>glyphs = 0, glyph_count = 0, font_width = 0, font_height = 0, glyph_size = 0, bytes_per_row = 0\<rparr>"

definition PSF2_MAGIC :: u32 where "PSF2_MAGIC = 0x864ab572"

definition load_psf1 :: "mem \<Rightarrow> u64 \<Rightarrow> u64 \<Rightarrow> font option" where
  "load_psf1 m data n =
     (if n < 4 then None
      else Some \<lparr>glyphs = data + 4, glyph_count = (if m (data + 2) AND 1 \<noteq> 0 then 512 else 256), font_width = 8,
        font_height = ucast (m (data + 3)), glyph_size = ucast (m (data + 3)), bytes_per_row = 1\<rparr>)"

definition load_psf2 :: "mem \<Rightarrow> u64 \<Rightarrow> u64 \<Rightarrow> font option" where
  "load_psf2 m data n =
     (if n < 32 then None
      else Some \<lparr>glyphs = data + ucast (read32 m (data + 8)), glyph_count = read32 m (data + 16),
        font_width = read32 m (data + 28), font_height = read32 m (data + 24),
        glyph_size = read32 m (data + 20), bytes_per_row = (read32 m (data + 28) + 7) div 8\<rparr>)"

text \<open>The part of \<open>load\<close> that unpacks the data, with the block for the result.\<close>

definition unpack_font :: "u64 \<Rightarrow> u64 \<Rightarrow> u64 \<Rightarrow> mem \<Rightarrow> (u64 \<times> u64 \<times> mem) option" where
  "unpack_font block data n m =
     (let packed = Some (bytes_at m data (unat n))
      in if is_gzip packed \<and> block \<noteq> 0 then
           Option.bind (decompress packed (Some (256 * 1024)))
             (map_option (\<lambda>(ok, bs). (if ok then block else data, if ok then of_nat (length bs) else n, poke m block bs)))
         else Some (data, n, m))"

definition load_image :: "mem \<Rightarrow> u64 \<Rightarrow> u64 \<Rightarrow> font option" where
  "load_image m data n =
     (if m data = 0x36 \<and> m (data + 1) = 0x04 then load_psf1 m data n
      else if read32 m data \<noteq> PSF2_MAGIC then None else load_psf2 m data n)"

text \<open>
  \<open>load\<close> with the old contents of the font; a font that cannot be loaded is left empty. (The two
  loaders fail before they have written anything.)
\<close>

definition load_font :: "u64 \<Rightarrow> u64 \<Rightarrow> u64 \<Rightarrow> mem \<Rightarrow> font \<Rightarrow> (bool \<times> font \<times> mem) option" where
  "load_font block data n m old =
     (if data = 0 then Some (False, old, m)
      else map_option
        (\<lambda>(data, n, m). case load_image m data n of None \<Rightarrow> (False, empty_font, m) | Some f \<Rightarrow> (True, f, m))
        (unpack_font block data n m))"

definition get_glyph :: "font option \<Rightarrow> u8 \<Rightarrow> u64" where
  "get_glyph font c =
     (case font of
        None \<Rightarrow> 0
      | Some f \<Rightarrow>
          if glyphs f = 0 then 0
          else glyphs f + ucast (ucast (if glyph_count f \<le> ucast c then 0 else c) * glyph_size f))"

section \<open>Finding a font among the modules\<close>

text \<open>
  The loop over the tags of the boot information; the body works on the memory and on a state of its own.
\<close>

partial_function (option) tags_from ::
  "(u64 \<Rightarrow> mem \<times> 's \<Rightarrow> (mem \<times> 's) option) \<Rightarrow> u64 \<Rightarrow> u64 \<Rightarrow> mem \<times> 's \<Rightarrow> (mem \<times> 's) option" where
  "tags_from body limit tag s =
     (if read32 (fst s) tag \<noteq> 0 \<and> tag < limit then
        Option.bind (body tag s) (\<lambda>s'.
          tags_from body limit (tag + ucast ((read32 (fst s') (tag + 4) + 7) AND NOT 7)) s')
      else Some s)"

definition for_each_tag ::
  "u64 \<Rightarrow> (u64 \<Rightarrow> mem \<times> 's \<Rightarrow> (mem \<times> 's) option) \<Rightarrow> mem \<times> 's \<Rightarrow> (mem \<times> 's) option" where
  "for_each_tag mbi body s = tags_from body (mbi + ucast (read32 (fst s) mbi)) (mbi + 8) s"

record psf_state =
  current_font :: font
  loaded :: bool

text \<open>
  The body for one tag: \<open>needle\<close> is the address of the text \<open>font.psf\<close>, and \<open>block\<close> gives the result of
  \<open>kmalloc\<close> for the module of a tag.
\<close>

definition font_tag :: "u64 \<Rightarrow> (u64 \<Rightarrow> u64) \<Rightarrow> u64 \<Rightarrow> mem \<times> psf_state \<Rightarrow> (mem \<times> psf_state) option" where
  "font_tag needle block tag = (\<lambda>(m, s).
     if read32 m tag \<noteq> 3 then Some (m, s)
     else
       Option.bind (strstr m (tag + 16) needle) (\<lambda>found.
         if found = 0 then Some (m, s)
         else
           let start = read32 m (tag + 8); n = read32 m (tag + 12) - start
           in map_option (\<lambda>(ok, f, m). (m, s\<lparr>current_font := f, loaded := loaded s \<or> ok\<rparr>))
                (load_font (block tag) (ucast start) (ucast n) m (current_font s))))"

definition find_font :: "u64 \<Rightarrow> (u64 \<Rightarrow> u64) \<Rightarrow> u64 \<Rightarrow> mem \<times> psf_state \<Rightarrow> (mem \<times> psf_state) option" where
  "find_font needle block mbi s = for_each_tag mbi (font_tag needle block) s"

definition psf_get :: "psf_state \<Rightarrow> font option" where
  "psf_get s = (if loaded s then Some (current_font s) else None)"

definition psf_set_font :: "font option \<Rightarrow> psf_state \<Rightarrow> psf_state" where
  "psf_set_font f s = (case f of None \<Rightarrow> s | Some f \<Rightarrow> s\<lparr>current_font := f, loaded := True\<rparr>)"

section \<open>A packed font and its glyphs\<close>

text \<open>A font file of the second format: eight numbers, the least significant byte first, and the glyphs.\<close>

definition psf2_image :: "u32 \<Rightarrow> u32 \<Rightarrow> nat \<Rightarrow> u8 list list \<Rightarrow> u8 list" where
  "psf2_image w h n gs =
     concat (map le32 [PSF2_MAGIC, 0, 32, 0, of_nat (length gs), of_nat n, h, w]) @ concat gs"

lemma psf2_fields:
  assumes "bytes_at m p (length (psf2_image w h n gs)) = psf2_image w h n gs"
  shows "read32 m p = PSF2_MAGIC" "read32 m (p + 8) = 32" "read32 m (p + 16) = of_nat (length gs)"
    "read32 m (p + 20) = of_nat n" "read32 m (p + 24) = h" "read32 m (p + 28) = w"
proof -
  have field: "read32 m (p + of_nat k) = v" if "take 4 (drop k (psf2_image w h n gs)) = le32 v" "k \<le> 28" for k v
    using that bytes_at_part [of k 4 "length (psf2_image w h n gs)" m p] assms
    by (intro read32_le32) (simp add: psf2_image_def le32_def)
  show "read32 m p = PSF2_MAGIC" using field [of 0] by (simp add: psf2_image_def le32_def)
  show "read32 m (p + 8) = 32" "read32 m (p + 16) = of_nat (length gs)"
    "read32 m (p + 20) = of_nat n" "read32 m (p + 24) = h" "read32 m (p + 28) = w"
    using field [of 8] field [of 16] field [of 20] field [of 24] field [of 28] by (simp_all add: psf2_image_def le32_def)
qed

text \<open>Loading an image of the second format that is in memory.\<close>

lemma load_image_psf2:
  assumes "bytes_at m p (length (psf2_image w h n gs)) = psf2_image w h n gs" "32 \<le> k"
  shows "load_image m p k =
    Some \<lparr>glyphs = p + 32, glyph_count = of_nat (length gs), font_width = w, font_height = h, glyph_size = of_nat n,
      bytes_per_row = (w + 7) div 8\<rparr>"
proof -
  have "bytes_at m (p + of_nat 0) 1 = take 1 (drop 0 (bytes_at m p (length (psf2_image w h n gs))))"
    by (rule bytes_at_part) (simp add: psf2_image_def le32_def)
  hence "m p = 0x72" unfolding assms(1) by (simp add: bytes_at_def psf2_image_def le32_def PSF2_MAGIC_def)
  thus ?thesis using psf2_fields [OF assms(1)] assms(2) by (simp add: load_image_def load_psf2_def leD)
qed

lemma length_psf2_image: "\<forall>g \<in> set gs. length g = n \<Longrightarrow> length (psf2_image w h n gs) = 32 + length gs * n"
  by (induction gs) (simp_all add: psf2_image_def le32_def)

lemma unat_ucast_u8: "unat (ucast (c::u8) :: u32) = unat c"
proof -
  have "unat c < 2 ^ 8" using unsigned_less [of c] by simp
  thus ?thesis by (simp add: unsigned_ucast_eq take_bit_nat_eq_self)
qed

lemma glyph_offset:
  assumes "unat c < k" "0 < n" "k * n \<le> 256 * 1024" "glyph_count f = of_nat k" "glyph_size f = of_nat n" "glyphs f \<noteq> 0"
  shows "get_glyph (Some f) c = glyphs f + of_nat (unat c * n)"
proof -
  have "k \<le> k * n" "n \<le> k * n" using assms(1,2) by simp_all
  hence k: "k \<le> 256 * 1024" and n: "n \<le> 256 * 1024" using assms(3) by linarith+
  have uk: "unat (of_nat k :: u32) = k" using k by (simp add: unat_of_nat take_bit_nat_eq_self)
  have un: "unat (of_nat n :: u32) = n" using n by (simp add: unat_of_nat take_bit_nat_eq_self)
  note uc = unat_ucast_u8 [of c]
  have cn: "unat c * n \<le> k * n" using assms(1) by simp
  have "unat (ucast c * of_nat n :: u32) = unat c * n mod 2 ^ 32"
    using un uc by (simp add: unat_word_ariths)
  also have "\<dots> = unat c * n" by (rule mod_less) (rule le_less_trans [OF cn], use assms(3) in simp)
  finally have "ucast (ucast c * of_nat n :: u32) = (of_nat (unat c * n) :: u64)" by (metis of_nat_unat)
  moreover have "\<not> (of_nat k :: u32) \<le> ucast c" using uk uc assms(1) by (simp add: word_le_nat_alt)
  ultimately show ?thesis using assms(4-6) by (simp add: get_glyph_def)
qed

lemma psf2_glyph:
  assumes img: "bytes_at m p (length (psf2_image w h n gs)) = psf2_image w h n gs"
    and gs: "\<forall>g \<in> set gs. length g = n" "unat c < length gs" and room: "length (psf2_image w h n gs) \<le> 256 * 1024"
    and f: "glyphs f = p + 32" "glyph_count f = of_nat (length gs)" "glyph_size f = of_nat n" "p + 32 \<noteq> 0"
  shows "bytes_at m (get_glyph (Some f) c) n = gs ! unat c"
proof (cases "n = 0")
  case True
  have "gs ! unat c \<in> set gs" using gs(2) by simp
  hence "gs ! unat c = []" using gs(1) True by blast
  thus ?thesis using True by (simp add: bytes_at_def)
next
  case False
  note len = length_psf2_image [OF gs(1), of w h]
  have fits: "unat c * n + n \<le> length gs * n" using gs(2) by (metis Suc_leI add.commute mult_Suc mult_le_mono1)
  have "get_glyph (Some f) c = p + of_nat (32 + unat c * n)"
    using glyph_offset [OF gs(2), of n f] False room len f by (simp add: add.assoc)
  hence "bytes_at m (get_glyph (Some f) c) n = take n (drop (32 + unat c * n) (psf2_image w h n gs))"
    using bytes_at_part [of "32 + unat c * n" n "length (psf2_image w h n gs)" m p] fits len img by simp
  also have "\<dots> = take n (drop (unat c * n) (drop 32 (psf2_image w h n gs)))" by (simp add: add.commute)
  also have "\<dots> = take n (drop (unat c * n) (concat gs))" by (simp add: psf2_image_def le32_def)
  also have "\<dots> = gs ! unat c" using take_drop_concat [OF gs, of 0 n] gs by simp
  finally show ?thesis .
qed

text \<open>
  when a packed font is loaded, the glyph that the console draws for a character is, byte for byte,
  the one in the file that was packed, and the font has the size that the file gives.
\<close>

theorem packed_font_glyphs:
  assumes gz: "length hdr = 10" "hdr ! 0 = 0x1f" "hdr ! 1 = 0x8b" "hdr ! 3 = 0" "length trailer = 8"
    and cs: "concat cs = psf2_image w h n gs" "\<forall>c \<in> set cs. length c \<le> 65535"
    and data: "data \<noteq> 0" "bytes_at m data (unat k) = hdr @ stored_stream cs @ trailer"
    and block: "block \<noteq> 0" "block + 32 \<noteq> 0"
    and gs: "\<forall>g \<in> set gs. length g = n" "unat c < length gs" and room: "length (psf2_image w h n gs) \<le> 256 * 1024"
  shows "\<exists>f m'. load_font block data k m old = Some (True, f, m') \<and> font_width f = w \<and> font_height f = h \<and>
    bytes_at m' (get_glyph (Some f) c) n = gs ! unat c"
proof -
  let ?img = "psf2_image w h n gs" and ?gz = "hdr @ stored_stream cs @ trailer" and ?m = "poke m block (psf2_image w h n gs)"
  have l: "length ?img = 32 + length gs * n" by (rule length_psf2_image [OF gs(1)])
  hence ne: "?img \<noteq> []" "cs \<noteq> []" using cs(1) by auto
  have "length ?gz = unat k" using arg_cong [OF data(2), of length] by (simp add: bytes_at_def)
  hence "length ?gz < 2 ^ 64" using unsigned_less [of k] by simp
  hence "decompress (Some ?gz) (Some (256 * 1024)) = Some (Some (True, ?img))"
    using decompress_stored_blocks [OF gz ne(2) cs(2), of "256 * 1024"] room ne cs(1) by simp
  moreover have "is_gzip (Some ?gz)" using gz by (simp add: is_gzip_def nth_append)
  ultimately have u: "unpack_font block data k m = Some (block, of_nat (length ?img), ?m)"
    using data(2) block(1) by (simp add: unpack_font_def Let_def)
  have img: "bytes_at ?m block (length ?img) = ?img" using room by (intro bytes_at_poke) simp_all
  have "unat (of_nat (length ?img) :: u64) = length ?img" using room by (intro unat_of_nat_u64) simp
  hence "(32::u64) \<le> of_nat (length ?img)" using l by (simp add: word_le_nat_alt)
  note li = load_image_psf2 [OF img this]
  show ?thesis using u li data(1) psf2_glyph [OF img gs room _ _ _ block(2)] by (simp add: load_font_def)
qed

theorem packed_font_glyphs_witness:
  "\<exists>f m'. load_font 4096 8192 57 (poke (\<lambda>_. 0) 8192 ([0x1f, 0x8b, 8, 0, 0, 0, 0, 0, 0, 3] @
      stored_stream [psf2_image 8 1 1 [[7], [9]]] @ replicate 8 0)) empty_font = Some (True, f, m') \<and> font_width f = 8 \<and>
    font_height f = 1 \<and> bytes_at m' (get_glyph (Some f) 1) 1 = [9]"
proof -
  let ?gz = "[0x1f, 0x8b, 8, 0, 0, 0, 0, 0, 0, 3] @ stored_stream [psf2_image 8 1 1 [[7], [9]]] @ replicate 8 0 :: u8 list"
  have l: "length ?gz = 57" by (simp add: stored_header_def psf2_image_def le32_def)
  have "bytes_at (poke (\<lambda>_. 0) 8192 ?gz) 8192 (unat (57::u64)) = ?gz"
    by (rule bytes_at_poke) (simp_all only: l, simp_all)
  from packed_font_glyphs [OF _ _ _ _ _ _ _ _ this, of 8 1 1 "[[7], [9]]" 4096 1 empty_font] show ?thesis
    by (simp add: psf2_image_def le32_def)
qed

end
