(* ===== verification/Console.thy ===== *)
theory Console
  imports Psf
begin

unbundle bit_operations_syntax

text \<open>
  The console, \<open>src/kernel/drivers/console.cpp\<close>: the cursor, the colours, the parser of escape sequences
  and the rectangle that has to be copied to the screen. The calls into the frame buffer are recorded
  in the state, in order and with their arguments; \<open>Put\<close> and \<open>Invert\<close> stand for the writes that are not
  checked against the size of the screen (\<open>put_pixel_unchecked\<close>).
\<close>

section \<open>Data\<close>

datatype fb_op =
    Put u32 u32 u32
  | Invert u32 u32
  | Put_checked u32 u32 u32
  | Fill_rect u32 u32 u32 u32 u32
  | Swap_rect u32 u32 u32 u32
  | Clear_screen u32
  | Scroll_lines u32
  | Swap_all

text \<open>The state; \<open>glyph_mem\<close> is the memory that the glyphs of the font lie in.\<close>

record console =
  font :: "font option"
  cursor_x :: u32
  cursor_y :: u32
  fg :: u32
  bg :: u32
  bold :: bool
  reverse :: bool
  screen_width :: u32
  screen_height :: u32
  scale :: u32
  cursor_visible :: bool
  cursor_blink_counter :: u32
  dirty_x0 :: u32
  dirty_y0 :: u32
  dirty_x1 :: u32
  dirty_y1 :: u32
  has_dirty :: bool
  escape :: bool
  ansi :: "u8 list"
  has_backbuffer :: bool
  glyph_mem :: mem
  fb :: "fb_op list"

definition CURSOR_BLINK_PERIOD :: u32 where "CURSOR_BLINK_PERIOD = 120"

definition fb_call :: "fb_op \<Rightarrow> console \<Rightarrow> console" where
  "fb_call op s = s\<lparr>fb := fb s @ [op]\<rparr>"

definition fb_calls :: "fb_op list \<Rightarrow> console \<Rightarrow> console" where
  "fb_calls ops s = s\<lparr>fb := fb s @ ops\<rparr>"

definition char_width :: "console \<Rightarrow> font \<Rightarrow> u32" where "char_width s f = font_width f * scale s"
definition char_height :: "console \<Rightarrow> font \<Rightarrow> u32" where "char_height s f = font_height f * scale s"

definition get_rows :: "console \<Rightarrow> u32" where
  "get_rows s =
     (case font s of
        None \<Rightarrow> 25
      | Some f \<Rightarrow> if 0 < char_height s f then screen_height s div char_height s f else 25)"

definition get_cols :: "console \<Rightarrow> u32" where
  "get_cols s =
     (case font s of
        None \<Rightarrow> 80
      | Some f \<Rightarrow> if 0 < char_width s f then screen_width s div char_width s f else 80)"

section \<open>Drawing\<close>

definition mark_dirty :: "u32 \<Rightarrow> u32 \<Rightarrow> u32 \<Rightarrow> u32 \<Rightarrow> console \<Rightarrow> console" where
  "mark_dirty x y w h s =
     (if w = 0 \<or> h = 0 then s
      else s\<lparr>dirty_x0 := min x (dirty_x0 s), dirty_y0 := min y (dirty_y0 s),
             dirty_x1 := max (x + w) (dirty_x1 s), dirty_y1 := max (y + h) (dirty_y1 s), has_dirty := True\<rparr>)"

definition flush_dirty :: "console \<Rightarrow> console" where
  "flush_dirty s =
     (if \<not> has_dirty s then s
      else (fb_call (Swap_rect (dirty_x0 s) (dirty_y0 s) (dirty_x1 s - dirty_x0 s) (dirty_y1 s - dirty_y0 s)) s)
             \<lparr>dirty_x0 := -1, dirty_y0 := -1, dirty_x1 := 0, dirty_y1 := 0, has_dirty := False\<rparr>)"

definition clear_line :: "u32 \<Rightarrow> font \<Rightarrow> console \<Rightarrow> console" where
  "clear_line mode f s =
     (let start = (if mode = 0 then cursor_x s else 0);
          fin = (if mode = 1 then cursor_x s else screen_width s)
      in mark_dirty start (cursor_y s) (fin - start) (char_height s f)
           (fb_call (Fill_rect start (cursor_y s) (fin - start) (char_height s f) (bg s)) s))"

text \<open>The points of a rectangle, row by row.\<close>

definition points :: "u32 \<Rightarrow> u32 \<Rightarrow> u32 \<Rightarrow> u32 \<Rightarrow> (u32 \<times> u32) list" where
  "points x y w h =
     concat (map (\<lambda>j. map (\<lambda>i. (x + of_nat i, y + of_nat j)) [0..<unat w]) [0..<unat h])"

definition draw_cursor_block :: "font \<Rightarrow> console \<Rightarrow> console" where
  "draw_cursor_block f s =
     (let w = char_width s f; h = char_height s f
      in mark_dirty (cursor_x s) (cursor_y s) w h
           (fb_calls (map (\<lambda>(x, y). Invert x y) (points (cursor_x s) (cursor_y s) w h)) s))"

definition scroll :: "font \<Rightarrow> console \<Rightarrow> console" where
  "scroll f s =
     (if \<not> has_backbuffer s \<or> screen_height s \<le> char_height s f then s
      else mark_dirty 0 0 (screen_width s) (screen_height s) (fb_call (Scroll_lines (char_height s f)) s))"

definition newline :: "font \<Rightarrow> console \<Rightarrow> console" where
  "newline f s =
     (let s = s\<lparr>cursor_x := 0, cursor_y := cursor_y s + char_height s f\<rparr>
      in if screen_height s < cursor_y s + char_height s f
         then let s = scroll f s in s\<lparr>cursor_y := cursor_y s - char_height s f\<rparr>
         else s)"

text \<open>The writes for one row of a glyph.\<close>

definition glyph_row :: "font \<Rightarrow> u64 \<Rightarrow> u32 \<Rightarrow> u32 \<Rightarrow> console \<Rightarrow> nat \<Rightarrow> fb_op list" where
  "glyph_row f g on off s row =
     concat (map (\<lambda>byte.
       let bits = glyph_mem s (g + ucast (of_nat row * bytes_per_row f + of_nat byte))
       in map (\<lambda>k. Put (cursor_x s + of_nat (byte * 8 + k)) (cursor_y s + of_nat row)
                 (if bits AND drop_bit k 0x80 \<noteq> 0 then on else off))
            (filter (\<lambda>k. of_nat (byte * 8 + k) < font_width f) [0..<8]))
       [0..<unat (bytes_per_row f)])"

definition draw_char :: "font \<Rightarrow> u8 \<Rightarrow> console \<Rightarrow> console" where
  "draw_char f c s =
     (let g = get_glyph (Some f) c
      in if g = 0 then s
         else
          let on = (if reverse s then bg s else fg s); off = (if reverse s then fg s else bg s);
              s = fb_calls (concat (map (glyph_row f g on off s) [0..<unat (font_height f)])) s;
              s = mark_dirty (cursor_x s) (cursor_y s) (font_width f) (font_height f) s;
              s = s\<lparr>cursor_x := cursor_x s + font_width f\<rparr>
          in if screen_width s \<le> cursor_x s + font_width f then newline f s else s)"

definition console_clear :: "console \<Rightarrow> console" where
  "console_clear s =
     flush_dirty (mark_dirty 0 0 (screen_width s) (screen_height s) ((fb_call (Clear_screen (bg s)) s)\<lparr>cursor_x := 0, cursor_y := 0\<rparr>))"

definition hide_cursor :: "font \<Rightarrow> console \<Rightarrow> console" where
  "hide_cursor f s =
     (if cursor_visible s then (draw_cursor_block f s)\<lparr>cursor_visible := False, cursor_blink_counter := 0\<rparr> else s)"

definition backspace :: "font \<Rightarrow> console \<Rightarrow> console" where
  "backspace f s =
     (let s = hide_cursor f s; w = char_width s f; h = char_height s f; ox = cursor_x s; oy = cursor_y s
      in if \<not> w \<le> ox \<and> \<not> h \<le> oy then s
         else
           let s = (if w \<le> ox then s\<lparr>cursor_x := ox - w\<rparr>
                    else s\<lparr>cursor_y := oy - h, cursor_x := (screen_width s div w - 1) * w\<rparr>);
               s = fb_calls (map (\<lambda>(x, y). Put_checked x y (bg s)) (points (cursor_x s) (cursor_y s) w h)) s
           in flush_dirty (mark_dirty ox oy w h (mark_dirty (cursor_x s) (cursor_y s) w h s)))"

section \<open>Escape sequences\<close>

definition palette :: "u32 list" where
  "palette = [0xff000000, 0xffff5555, 0xff55ff55, 0xffffff55, 0xff5555ff, 0xffff55ff, 0xff55ffff, 0xffffffff]"

definition bright_palette :: "u32 list" where
  "bright_palette = 0xff555555 # tl palette"

definition ansi_code :: "u32 \<Rightarrow> console \<Rightarrow> console" where
  "ansi_code code s =
     (if code = 0 then s\<lparr>fg := 0xffffffff, bg := 0, bold := False, reverse := False\<rparr>
      else if code = 1 then s\<lparr>bold := True\<rparr>
      else if code = 2 then s\<lparr>fg := fg s AND 0xff777777\<rparr>
      else if code = 7 then s\<lparr>reverse := True\<rparr>
      else if code = 22 then s\<lparr>bold := False\<rparr>
      else if code = 27 then s\<lparr>reverse := False\<rparr>
      else if 30 \<le> code \<and> code \<le> 37 then s\<lparr>fg := palette ! unat (code - 30)\<rparr>
      else if 90 \<le> code \<and> code \<le> 97 then s\<lparr>fg := bright_palette ! unat (code - 90)\<rparr>
      else if 40 \<le> code \<and> code \<le> 47 then s\<lparr>bg := palette ! unat (code - 40)\<rparr>
      else if 100 \<le> code \<and> code \<le> 107 then s\<lparr>bg := bright_palette ! unat (code - 100)\<rparr>
      else s)"

definition is_digit :: "u8 \<Rightarrow> bool" where "is_digit c \<longleftrightarrow> 48 \<le> c \<and> c \<le> 57"

text \<open>The numbers of a sequence, up to eight of them, and the byte that ends it.\<close>

fun parse_numbers :: "u8 list \<Rightarrow> u32 list \<Rightarrow> u32 \<Rightarrow> bool \<Rightarrow> (u32 list \<times> u8) option" where
  "parse_numbers [] nums v has_num = None"
| "parse_numbers (c # cs) nums v has_num =
     (if is_digit c then parse_numbers cs nums (v * 10 + ucast (c - 48)) True
      else if c = 59 then
        parse_numbers cs (if length nums < 8 then nums @ [if has_num then v else 0] else nums) 0 False
      else Some (if has_num \<and> length nums < 8 then nums @ [v] else nums, c))"

text \<open>Number \<open>i\<close> if it is given and positive as a signed number.\<close>

definition positive_num :: "u32 list \<Rightarrow> nat \<Rightarrow> u32 option" where
  "positive_num nums i = (if i < length nums \<and> 0 < sint (nums ! i) then Some (nums ! i) else None)"

definition distance :: "u32 list \<Rightarrow> u32" where
  "distance nums = (case positive_num nums 0 of Some n \<Rightarrow> n | None \<Rightarrow> 1)"

definition move_cursor :: "font \<Rightarrow> u32 \<Rightarrow> u32 \<Rightarrow> console \<Rightarrow> console" where
  "move_cursor f x y s =
     (let w = char_width s f; h = char_height s f; s = mark_dirty (cursor_x s) (cursor_y s) w h s
      in flush_dirty (mark_dirty x y w h (s\<lparr>cursor_x := x, cursor_y := y\<rparr>)))"

text \<open>A row or a column of the command \<open>H\<close>, counted from 1, as an index below \<open>m\<close>.\<close>

definition grid_index :: "u32 \<Rightarrow> u32 option \<Rightarrow> u32" where
  "grid_index m n =
     (let r = (case n of Some n \<Rightarrow> n - 1 | None \<Rightarrow> 0);
          r = (if m \<le> r then m - 1 else r)
      in if sint r < 0 then 0 else r)"

definition csi_command :: "font \<Rightarrow> u32 list \<Rightarrow> u8 \<Rightarrow> console \<Rightarrow> console" where
  "csi_command f nums c s =
     (let w = char_width s f; h = char_height s f;
          cols = (if 0 < w then screen_width s div w else 80);
          rows = (if 0 < h then screen_height s div h else 25);
          mode = (if nums \<noteq> [] then nums ! 0 else 0)
      in if c = 72 \<or> c = 102 then
           move_cursor f (grid_index cols (positive_num nums 1) * w) (grid_index rows (positive_num nums 0) * h) s
         else if c = 65 then
           let d = distance nums * h in move_cursor f (cursor_x s) (if cursor_y s < d then 0 else cursor_y s - d) s
         else if c = 66 then
           let y = cursor_y s + distance nums * h in move_cursor f (cursor_x s) (if screen_height s \<le> y then screen_height s - h else y) s
         else if c = 67 then
           let x = cursor_x s + distance nums * w in move_cursor f (if screen_width s \<le> x then screen_width s - w else x) (cursor_y s) s
         else if c = 68 then
           let d = distance nums * w in move_cursor f (if cursor_x s < d then 0 else cursor_x s - d) (cursor_y s) s
         else if c = 75 then flush_dirty (clear_line mode f s)
         else if c = 74 then flush_dirty (if mode = 2 then console_clear s else s)
         else if c = 109 then (if nums = [] then ansi_code 0 s else fold ansi_code nums s)
         else s)"

text \<open>The private modes; only the cursor, mode 25, has an effect.\<close>

fun parse_mode :: "u8 list \<Rightarrow> u32 \<Rightarrow> u32 \<times> u8 list" where
  "parse_mode [] v = (v, [])"
| "parse_mode (c # cs) v = (if is_digit c then parse_mode cs (v * 10 + ucast (c - 48)) else (v, c # cs))"

definition private_mode :: "font \<Rightarrow> u8 list \<Rightarrow> console \<Rightarrow> console" where
  "private_mode f seq s =
     (case parse_mode seq 0 of
        (v, c # _) \<Rightarrow>
          if v = 25 \<and> c = 104 then s\<lparr>cursor_visible := True\<rparr>
          else if v = 25 \<and> c = 108 \<and> cursor_visible s then (draw_cursor_block f s)\<lparr>cursor_visible := False\<rparr>
          else s
      | _ \<Rightarrow> s)"

text \<open>The string ends at the first zero byte.\<close>

definition handle_ansi :: "font \<Rightarrow> u8 list \<Rightarrow> console \<Rightarrow> console" where
  "handle_ansi f seq s =
     (case takeWhile (\<lambda>c. c \<noteq> 0) seq of
        c # cs \<Rightarrow>
          if c \<noteq> 91 then s
          else (case cs of
                  d # ds \<Rightarrow>
                    if d = 63 then private_mode f ds s
                    else (case parse_numbers cs [] 0 False of None \<Rightarrow> s | Some (nums, e) \<Rightarrow> csi_command f nums e s)
                | [] \<Rightarrow> s)
      | [] \<Rightarrow> s)"

definition ANSI_SIZE :: nat where "ANSI_SIZE = 16"

definition is_letter :: "u8 \<Rightarrow> bool" where
  "is_letter c \<longleftrightarrow> (65 \<le> c \<and> c \<le> 90) \<or> (97 \<le> c \<and> c \<le> 122)"

definition escape_byte :: "font \<Rightarrow> u8 \<Rightarrow> console \<Rightarrow> console" where
  "escape_byte f c s =
     (let s = (if length (ansi s) < ANSI_SIZE - 1 then s\<lparr>ansi := ansi s @ [c]\<rparr> else s)
      in flush_dirty
           (if is_letter c \<or> ANSI_SIZE - 1 \<le> length (ansi s)
            then (handle_ansi f (ansi s) s)\<lparr>escape := False, ansi := []\<rparr> else s))"

definition put_char :: "font \<Rightarrow> u8 \<Rightarrow> console \<Rightarrow> console" where
  "put_char f c s =
     (let s = hide_cursor f s
      in if c = 27 then s\<lparr>escape := True, ansi := []\<rparr>
         else if escape s then escape_byte f c s
         else if c = 10 then flush_dirty (newline f s)
         else if c = 13 then s\<lparr>cursor_x := 0\<rparr>
         else if c = 8 \<or> c = 127 then backspace f s
         else if c = 9 then flush_dirty (s\<lparr>cursor_x := cursor_x s + 4 * font_width f * scale s\<rparr>)
         else
           let s = (if screen_width s \<le> cursor_x s + char_width s f then newline f s else s)
           in flush_dirty (draw_char f c s))"

definition console_put :: "u8 \<Rightarrow> console \<Rightarrow> console" where
  "console_put c s = (case font s of None \<Rightarrow> s | Some f \<Rightarrow> put_char f c s)"

definition con_write :: "u8 list \<Rightarrow> console \<Rightarrow> console" where
  "con_write bs s = fold console_put bs s"

definition cursor_tick :: "console \<Rightarrow> console" where
  "cursor_tick s =
     (case font s of
        None \<Rightarrow> s
      | Some f \<Rightarrow>
          let s = s\<lparr>cursor_blink_counter := cursor_blink_counter s + 1\<rparr>
          in if CURSOR_BLINK_PERIOD \<le> cursor_blink_counter s
             then flush_dirty (draw_cursor_block f (s\<lparr>cursor_blink_counter := 0, cursor_visible := \<not> cursor_visible s\<rparr>))
             else s)"

definition console_init :: "u32 \<Rightarrow> u32 \<Rightarrow> font option \<Rightarrow> console \<Rightarrow> console" where
  "console_init w h f s =
     (let s = fb_call (Clear_screen 0) (s\<lparr>screen_width := w, screen_height := h, font := f\<rparr>)
      in case f of
           None \<Rightarrow> fb_call (Put_checked 10 10 0xffff0000) s
         | Some _ \<Rightarrow> fb_call Swap_all (s\<lparr>cursor_x := 0, cursor_y := 0, cursor_visible := True, cursor_blink_counter := 0\<rparr>))"

definition set_font :: "font option \<Rightarrow> console \<Rightarrow> console" where
  "set_font f s = s\<lparr>font := f\<rparr>"

text \<open>The variables as they are initialised; \<open>bb\<close> tells whether the frame buffer has a back buffer, and \<open>m\<close> is the memory.\<close>

definition console_start :: "bool \<Rightarrow> mem \<Rightarrow> console" where
  "console_start bb m =
     \<lparr>font = None, cursor_x = 0, cursor_y = 0, fg = 0xffffffff, bg = 0, bold = False, reverse = False,
      screen_width = 0, screen_height = 0, scale = 1, cursor_visible = True, cursor_blink_counter = 0,
      dirty_x0 = -1, dirty_y0 = -1, dirty_x1 = 0, dirty_y1 = 0, has_dirty = False, escape = False, ansi = [],
      has_backbuffer = bb, glyph_mem = m, fb = []\<rparr>"

text \<open>What reaches the console: a byte that is written, or an interrupt of the timer.\<close>

datatype console_event = Byte u8 | Tick

definition con_event :: "console_event \<Rightarrow> console \<Rightarrow> console" where
  "con_event e s = (case e of Byte c \<Rightarrow> console_put c s | Tick \<Rightarrow> cursor_tick s)"

section \<open>Everything stays on the screen\<close>

text \<open>
  A direction of the screen: \<open>n\<close> is the size of a character and \<open>len\<close> that of the screen, a multiple of
  it. Positions are computed modulo \<open>2 ^ 32\<close>, which \<open>n\<close> divides. A cell is where a character fits.
\<close>

definition axis :: "u32 \<Rightarrow> u32 \<Rightarrow> bool" where
  "axis n len \<longleftrightarrow> 0 < unat n \<and> unat n dvd unat len \<and> 0 < unat len \<and> unat n dvd 2 ^ 32 \<and> unat len + unat n < 2 ^ 32"

definition cell :: "u32 \<Rightarrow> u32 \<Rightarrow> u32 \<Rightarrow> bool" where
  "cell n len x \<longleftrightarrow> unat n dvd unat x \<and> unat x + unat n \<le> unat len"

definition inside :: "u32 \<Rightarrow> u32 \<Rightarrow> fb_op \<Rightarrow> bool" where
  "inside w h op =
     (case op of
        Put x y _ \<Rightarrow> x < w \<and> y < h
      | Invert x y \<Rightarrow> x < w \<and> y < h
      | Fill_rect x y dx dy _ \<Rightarrow> unat x + unat dx \<le> unat w \<and> unat y + unat dy \<le> unat h
      | Swap_rect x y dx dy \<Rightarrow> unat x + unat dx \<le> unat w \<and> unat y + unat dy \<le> unat h
      | Scroll_lines n \<Rightarrow> n < h
      | _ \<Rightarrow> True)"

definition dirty_ok :: "console \<Rightarrow> bool" where
  "dirty_ok s \<longleftrightarrow>
     (if has_dirty s then dirty_x0 s \<le> dirty_x1 s \<and> dirty_y0 s \<le> dirty_y1 s
      else dirty_x0 s = -1 \<and> dirty_y0 s = -1) \<and>
     dirty_x1 s \<le> screen_width s \<and> dirty_y1 s \<le> screen_height s"

definition screen_ok :: "font \<Rightarrow> console \<Rightarrow> bool" where
  "screen_ok f s \<longleftrightarrow>
     font s = Some f \<and> scale s = 1 \<and> axis (font_width f) (screen_width s) \<and> axis (font_height f) (screen_height s) \<and>
     dirty_ok s \<and> list_all (inside (screen_width s) (screen_height s)) (fb s)"

definition cursor_ok :: "font \<Rightarrow> console \<Rightarrow> bool" where
  "cursor_ok f s \<longleftrightarrow>
     cell (font_width f) (screen_width s) (cursor_x s) \<and> cell (font_height f) (screen_height s) (cursor_y s)"

definition con_ok :: "font \<Rightarrow> console \<Rightarrow> bool" where
  "con_ok f s \<longleftrightarrow> screen_ok f s \<and> cursor_ok f s"

named_theorems con_intros "operations of the console that keep the invariant"

lemma unat_add_u32: "unat (x::u32) + unat y < 2 ^ 32 \<Longrightarrow> unat (x + y) = unat x + unat y"
  by (simp add: unat_word_ariths)

lemma unat_below_u32: "i < unat (w::u32) \<Longrightarrow> unat (of_nat i :: u32) = i"
proof -
  assume "i < unat w"
  moreover have "unat w < 2 ^ 32" using unsigned_less [of w] by simp
  ultimately show ?thesis by (simp add: unat_of_nat take_bit_nat_eq_self)
qed

lemma dvd_le_sub: "n dvd x \<Longrightarrow> n dvd m \<Longrightarrow> x < m \<Longrightarrow> x + n \<le> (m::nat)"
  by (metis dvd_add_right_iff dvd_imp_le le_add_diff_inverse less_imp_le nat_add_left_cancel_le zero_less_diff)

lemma axis_cells:
  assumes "axis n len"
  shows "cell n len 0" "cell n len (len - n)" "n \<le> len" "0 < n"
proof -
  have le: "unat n \<le> unat len" using assms by (auto simp: axis_def dvd_imp_le)
  thus "cell n len 0" by (simp add: cell_def)
  show nl: "n \<le> len" using le by (simp add: word_le_nat_alt)
  show "cell n len (len - n)" using assms le by (simp add: cell_def axis_def unat_sub [OF nl] dvd_diff_nat)
  show "0 < n" using assms by (simp add: axis_def word_less_nat_alt)
qed

lemma cell_forward:
  assumes "axis n len" "cell n len x"
  shows "cell n len (if len \<le> x + d * n then len - n else x + d * n)"
proof (cases "len \<le> x + d * n")
  case True thus ?thesis using axis_cells(2) [OF assms(1)] by simp
next
  case False
  have "unat (x + d * n) = (unat x + unat d * unat n) mod 2 ^ 32" by (simp add: unat_word_ariths mod_add_right_eq)
  moreover have "unat n dvd (unat x + unat d * unat n) mod 2 ^ 32" using assms by (simp add: axis_def cell_def dvd_mod)
  ultimately have "unat n dvd unat (x + d * n)" by (simp only:)
  moreover have "unat (x + d * n) < unat len" using False by (simp add: word_le_nat_alt not_le)
  ultimately show ?thesis using assms(1) False dvd_le_sub by (simp add: cell_def axis_def)
qed

lemma cell_backward:
  assumes "axis n len" "cell n len x"
  shows "cell n len (if x < d * n then 0 else x - d * n)"
proof (cases "x < d * n")
  case True thus ?thesis using axis_cells(1) [OF assms(1)] by simp
next
  case False
  hence le: "d * n \<le> x" by simp
  have "unat (d * n) = unat d * unat n mod 2 ^ 32" by (simp add: unat_word_ariths)
  moreover have "unat n dvd unat d * unat n mod 2 ^ 32" using assms by (simp add: axis_def dvd_mod)
  ultimately have "unat n dvd unat (d * n)" by (simp only:)
  hence "unat n dvd unat (x - d * n)" using assms(2) unat_sub [OF le] by (simp add: cell_def dvd_diff_nat)
  moreover have "unat (x - d * n) + unat n \<le> unat len" using assms(2) unat_sub [OF le] unfolding cell_def by linarith
  ultimately show ?thesis using False by (simp add: cell_def)
qed

lemma cell_grid:
  assumes "axis n len"
  shows "cell n len (grid_index (len div n) m * n)" "cell n len ((len div n - 1) * n)"
proof -
  have q: "unat (len div n) * unat n = unat len" using assms by (simp add: axis_def unat_div_distrib)
  hence q0: "0 < unat (len div n)" using assms by (auto simp: axis_def intro: Nat.gr0I)
  have cell: "cell n len (r * n)" if "unat r < unat (len div n)" for r
  proof -
    have "unat r * unat n + unat n \<le> unat len" using that q by (metis Suc_leI add.commute mult_Suc mult_le_mono1)
    moreover have "unat (r * n) = unat r * unat n"
      using calculation assms by (simp add: unat_word_ariths axis_def)
    ultimately show ?thesis by (simp add: cell_def)
  qed
  have one: "1 \<le> len div n" using q0 by (simp add: word_le_nat_alt)
  have less: "unat (len div n - 1) < unat (len div n)" unfolding unat_sub [OF one] using q0 by simp
  thus "cell n len ((len div n - 1) * n)" by (rule cell)
  have "unat (grid_index (len div n) m) < unat (len div n)"
    using q0 less by (auto simp: grid_index_def Let_def word_le_nat_alt not_le split: option.split)
  thus "cell n len (grid_index (len div n) m * n)" by (rule cell)
qed

text \<open>Rectangles on the screen.\<close>

definition on_screen :: "console \<Rightarrow> u32 \<Rightarrow> u32 \<Rightarrow> u32 \<Rightarrow> u32 \<Rightarrow> bool" where
  "on_screen s x y w h \<longleftrightarrow> unat x + unat w \<le> unat (screen_width s) \<and> unat y + unat h \<le> unat (screen_height s)"

lemma screen_ok_calls:
  "screen_ok f s \<Longrightarrow> list_all (inside (screen_width s) (screen_height s)) ops \<Longrightarrow> screen_ok f (fb_calls ops s)"
  "screen_ok f s \<Longrightarrow> inside (screen_width s) (screen_height s) op \<Longrightarrow> screen_ok f (fb_call op s)"
  by (simp_all add: screen_ok_def fb_calls_def fb_call_def dirty_ok_def)

lemma screen_updates [simp]:
  "screen_ok f (s\<lparr>cursor_x := a\<rparr>) = screen_ok f s" "screen_ok f (s\<lparr>cursor_y := a\<rparr>) = screen_ok f s"
  "screen_ok f (s\<lparr>fg := a\<rparr>) = screen_ok f s" "screen_ok f (s\<lparr>bg := a\<rparr>) = screen_ok f s"
  "screen_ok f (s\<lparr>bold := b\<rparr>) = screen_ok f s" "screen_ok f (s\<lparr>reverse := b\<rparr>) = screen_ok f s"
  "screen_ok f (s\<lparr>cursor_visible := b\<rparr>) = screen_ok f s" "screen_ok f (s\<lparr>cursor_blink_counter := a\<rparr>) = screen_ok f s"
  "screen_ok f (s\<lparr>escape := b\<rparr>) = screen_ok f s" "screen_ok f (s\<lparr>ansi := cs\<rparr>) = screen_ok f s"
  "cursor_ok f (s\<lparr>fg := a\<rparr>) = cursor_ok f s" "cursor_ok f (s\<lparr>bg := a\<rparr>) = cursor_ok f s"
  "cursor_ok f (s\<lparr>bold := b\<rparr>) = cursor_ok f s" "cursor_ok f (s\<lparr>reverse := b\<rparr>) = cursor_ok f s"
  "cursor_ok f (s\<lparr>cursor_visible := b\<rparr>) = cursor_ok f s" "cursor_ok f (s\<lparr>cursor_blink_counter := a\<rparr>) = cursor_ok f s"
  "cursor_ok f (s\<lparr>escape := b\<rparr>) = cursor_ok f s" "cursor_ok f (s\<lparr>ansi := cs\<rparr>) = cursor_ok f s"
  by (simp_all add: screen_ok_def cursor_ok_def dirty_ok_def)

text \<open>The operations that only draw.\<close>

definition same_geometry :: "console \<Rightarrow> console \<Rightarrow> bool" where
  "same_geometry s t \<longleftrightarrow>
     cursor_x t = cursor_x s \<and> cursor_y t = cursor_y s \<and> screen_width t = screen_width s \<and>
     screen_height t = screen_height s \<and> scale t = scale s \<and> font t = font s \<and> escape t = escape s \<and> ansi t = ansi s"

lemma same_geometry_cursor: "same_geometry s t \<Longrightarrow> cursor_ok f t = cursor_ok f s"
  by (simp add: same_geometry_def cursor_ok_def)

lemma drawing_geometry [simp]:
  "same_geometry s (mark_dirty x y w h s)" "same_geometry s (flush_dirty s)" "same_geometry s (fb_call op s)"
  "same_geometry s (fb_calls ops s)" "same_geometry s (draw_cursor_block f s)" "same_geometry s (hide_cursor f s)"
  "same_geometry s (scroll f s)" "same_geometry s (clear_line m f s)"
  by (simp_all add: same_geometry_def mark_dirty_def flush_dirty_def fb_call_def fb_calls_def draw_cursor_block_def
    hide_cursor_def scroll_def clear_line_def Let_def)

lemma mark_dirty_ok:
  assumes "screen_ok f s" "on_screen s x y w h"
  shows "screen_ok f (mark_dirty x y w h s)"
proof (cases "w = 0 \<or> h = 0")
  case True thus ?thesis using assms(1) by (auto simp: mark_dirty_def)
next
  case False
  have le: "unat (screen_width s) < 2 ^ 32" "unat (screen_height s) < 2 ^ 32"
    using unsigned_less [of "screen_width s"] unsigned_less [of "screen_height s"] by simp_all
  have s: "unat (x + w) = unat x + unat w" "unat (y + h) = unat y + unat h"
    using assms(2) le by (auto simp: on_screen_def intro!: unat_add_u32)
  have "x \<le> x + w" "y \<le> y + h" "x + w \<le> screen_width s" "y + h \<le> screen_height s"
    using assms(2) s by (simp_all add: word_le_nat_alt on_screen_def)
  thus ?thesis using assms(1) False
    by (auto simp: mark_dirty_def screen_ok_def dirty_ok_def min_def max_def split: if_splits)
qed

lemma flush_dirty_ok [con_intros]: 
  assumes "screen_ok f s"
  shows "screen_ok f (flush_dirty s)"
proof (cases "has_dirty s")
  case True
  have d: "dirty_x0 s \<le> dirty_x1 s" "dirty_y0 s \<le> dirty_y1 s" "dirty_x1 s \<le> screen_width s" "dirty_y1 s \<le> screen_height s"
    using assms True by (simp_all add: screen_ok_def dirty_ok_def)
  hence "inside (screen_width s) (screen_height s) (Swap_rect (dirty_x0 s) (dirty_y0 s) (dirty_x1 s - dirty_x0 s) (dirty_y1 s - dirty_y0 s))"
    by (simp add: inside_def word_le_nat_alt unat_sub)
  thus ?thesis using True assms by (simp add: flush_dirty_def fb_call_def screen_ok_def dirty_ok_def)
qed (use assms in \<open>simp add: flush_dirty_def\<close>)

lemma cursor_on_screen:
  assumes "con_ok f s"
  shows "on_screen s (cursor_x s) (cursor_y s) (font_width f) (font_height f)" "char_width s f = font_width f"
    "char_height s f = font_height f"
  using assms by (simp_all add: con_ok_def cursor_ok_def cell_def on_screen_def char_width_def char_height_def screen_ok_def)

lemma points_on_screen:
  assumes "on_screen s x y w h" "(a, b) \<in> set (points x y w h)"
  shows "a < screen_width s \<and> b < screen_height s"
proof -
  obtain i j where ij: "i < unat w" "j < unat h" "a = x + of_nat i" "b = y + of_nat j"
    using assms(2) by (auto simp: points_def)
  have le: "unat (screen_width s) < 2 ^ 32" "unat (screen_height s) < 2 ^ 32"
    using unsigned_less [of "screen_width s"] unsigned_less [of "screen_height s"] by simp_all
  have o: "unat (of_nat i :: u32) = i" "unat (of_nat j :: u32) = j"
    using ij(1,2) by (simp_all add: unat_below_u32)
  have "unat a = unat x + i" "unat b = unat y + j"
    using assms(1) ij le o unat_add_u32 [of x "of_nat i"] unat_add_u32 [of y "of_nat j"] by (simp_all add: on_screen_def)
  thus ?thesis using assms(1) ij(1,2) by (simp add: on_screen_def word_less_nat_alt)
qed

lemma draw_cursor_block_ok [con_intros]:
  assumes "con_ok f s"
  shows "con_ok f (draw_cursor_block f s)"
proof -
  note c = cursor_on_screen [OF assms]
  let ?ops = "map (\<lambda>(x, y). Invert x y) (points (cursor_x s) (cursor_y s) (font_width f) (font_height f))"
  have "list_all (inside (screen_width s) (screen_height s)) ?ops"
    using points_on_screen [OF c(1)] by (auto simp: list_all_iff inside_def)
  hence "screen_ok f (fb_calls ?ops s)" using assms screen_ok_calls(1) by (simp add: con_ok_def)
  hence "screen_ok f (draw_cursor_block f s)"
    using c mark_dirty_ok [of f "fb_calls ?ops s"] by (simp add: draw_cursor_block_def fb_calls_def on_screen_def Let_def)
  thus ?thesis using assms same_geometry_cursor [of s "draw_cursor_block f s" f] by (simp add: con_ok_def)
qed

lemma hide_cursor_ok [con_intros]: "con_ok f s \<Longrightarrow> con_ok f (hide_cursor f s)"
  using draw_cursor_block_ok [of f s] by (simp add: hide_cursor_def con_ok_def)

lemma scroll_ok: "screen_ok f s \<Longrightarrow> screen_ok f (scroll f s)"
  using not_le [of "screen_height s" "char_height s f"] mark_dirty_ok [of f "fb_call (Scroll_lines (char_height s f)) s" 0 0 "screen_width s" "screen_height s"]
    screen_ok_calls(2) [of f s "Scroll_lines (char_height s f)"]
  by (simp add: scroll_def on_screen_def fb_call_def inside_def)

lemma newline_ok [con_intros]:
  assumes "screen_ok f s" "cell (font_height f) (screen_height s) (cursor_y s)"
  shows "con_ok f (newline f s)"
proof -
  let ?h = "font_height f" and ?t = "s\<lparr>cursor_x := 0, cursor_y := cursor_y s + font_height f\<rparr>"
  have ax: "axis (font_width f) (screen_width s)" "axis ?h (screen_height s)" "char_height t f = ?h" if "scale t = 1" for t
    using assms that by (simp_all add: screen_ok_def char_height_def)
  have sc: "scale s = 1" using assms(1) by (simp add: screen_ok_def)
  have h: "unat (screen_height s) + unat ?h < 2 ^ 32" using ax(2) [OF sc] by (simp add: axis_def)
  have y: "unat (cursor_y s + ?h) = unat (cursor_y s) + unat ?h"
    using assms(2) h by (intro unat_add_u32) (simp add: cell_def)
  have y2: "unat (cursor_y s + ?h + ?h) = unat (cursor_y s) + unat ?h + unat ?h"
    using assms(2) h y unat_add_u32 [of "cursor_y s + ?h" ?h] by (simp add: cell_def)
  show ?thesis
  proof (cases "screen_height s < cursor_y s + ?h + ?h")
    case True
    have g: "same_geometry ?t (scroll f ?t)" by simp
    have "newline f s = (scroll f ?t)\<lparr>cursor_y := cursor_y s\<rparr>"
      using True g sc by (simp add: newline_def Let_def char_height_def same_geometry_def)
    moreover have "screen_ok f (scroll f ?t)" using scroll_ok [of f ?t] assms(1) by simp
    ultimately show ?thesis using g assms(2) axis_cells(1) [OF ax(1) [OF sc]]
      by (simp add: con_ok_def cursor_ok_def same_geometry_def)
  next
    case False
    hence "newline f s = ?t" using sc by (simp add: newline_def Let_def char_height_def)
    moreover have "cell ?h (screen_height s) (cursor_y s + ?h)"
      using False assms(2) y y2 by (simp add: cell_def word_less_nat_alt)
    ultimately show ?thesis using assms(1) axis_cells(1) [OF ax(1) [OF sc]] by (simp add: con_ok_def cursor_ok_def)
  qed
qed

lemma offset_on_screen:
  assumes "on_screen s x y w h"
  shows "i < w \<Longrightarrow> x + i < screen_width s" "j < h \<Longrightarrow> y + j < screen_height s"
proof -
  have le: "unat (screen_width s) < 2 ^ 32" "unat (screen_height s) < 2 ^ 32"
    using unsigned_less [of "screen_width s"] unsigned_less [of "screen_height s"] by simp_all
  show "x + i < screen_width s" if "i < w"
    using that assms le(1) unat_add_u32 [of x i] by (simp add: on_screen_def word_less_nat_alt)
  show "y + j < screen_height s" if "j < h"
    using that assms le(2) unat_add_u32 [of y j] by (simp add: on_screen_def word_less_nat_alt)
qed

lemma glyph_rows_inside:
  assumes "con_ok f s"
  shows "list_all (inside (screen_width s) (screen_height s))
           (concat (map (glyph_row f g on off s) [0..<unat (font_height f)]))"
proof -
  note c = cursor_on_screen(1) [OF assms]
  have "(of_nat row :: u32) < font_height f" if "row < unat (font_height f)" for row
    using that unat_below_u32 [OF that] by (simp add: word_less_nat_alt)
  hence "inside (screen_width s) (screen_height s) op"
    if "op \<in> set (glyph_row f g on off s row)" "row < unat (font_height f)" for op row
    using that offset_on_screen [OF c] by (auto simp: glyph_row_def inside_def Let_def)
  thus ?thesis by (auto simp: list_all_iff)
qed

lemma con_ok_draw:
  "con_ok f s \<Longrightarrow> list_all (inside (screen_width s) (screen_height s)) ops \<Longrightarrow> con_ok f (fb_calls ops s)"
  "con_ok f s \<Longrightarrow> on_screen s x y w h \<Longrightarrow> con_ok f (mark_dirty x y w h s)"
  "con_ok f s \<Longrightarrow> con_ok f (flush_dirty s)"
  using screen_ok_calls(1) [of f s ops] mark_dirty_ok [of f s x y w h] flush_dirty_ok [of f s]
    same_geometry_cursor [of s "fb_calls ops s" f] same_geometry_cursor [of s "mark_dirty x y w h s" f]
    same_geometry_cursor [of s "flush_dirty s" f]
  by (simp_all add: con_ok_def)

lemma draw_char_ok [con_intros]:
  assumes "con_ok f s"
  shows "con_ok f (draw_char f c s)"
proof (cases "get_glyph (Some f) c = 0")
  case True thus ?thesis using assms by (simp add: draw_char_def)
next
  case False
  define g where "g = get_glyph (Some f) c"
  let ?w = "font_width f"
  define ops where "ops = concat (map (glyph_row f g (if reverse s then bg s else fg s) (if reverse s then fg s else bg s) s) [0..<unat (font_height f)])"
  define t where "t = mark_dirty (cursor_x s) (cursor_y s) ?w (font_height f) (fb_calls ops s)"
  have geo: "same_geometry s t" by (simp add: t_def same_geometry_def mark_dirty_def fb_calls_def)
  have o: "con_ok f (fb_calls ops s)" unfolding ops_def by (rule con_ok_draw(1) [OF assms glyph_rows_inside [OF assms]])
  have t: "con_ok f t"
    unfolding t_def by (rule con_ok_draw(2) [OF o]) (use cursor_on_screen(1) [OF assms] in \<open>simp add: on_screen_def fb_calls_def\<close>)
  have ok: "screen_ok f (t\<lparr>cursor_x := x\<rparr>)" "cell (font_height f) (screen_height t) (cursor_y t)" for x
    using t by (simp_all add: con_ok_def cursor_ok_def)
  have eq: "draw_char f c s = (if screen_width t \<le> cursor_x t + ?w + ?w then newline f (t\<lparr>cursor_x := cursor_x t + ?w\<rparr>) else t\<lparr>cursor_x := cursor_x t + ?w\<rparr>)"
    using False geo by (simp add: draw_char_def g_def ops_def t_def same_geometry_def Let_def fb_calls_def mark_dirty_def)
  have ax: "axis ?w (screen_width t)" and cx: "cell ?w (screen_width t) (cursor_x t)"
    using t by (simp_all add: con_ok_def screen_ok_def cursor_ok_def)
  have x: "unat (cursor_x t + ?w) = unat (cursor_x t) + unat ?w"
    using ax cx by (intro unat_add_u32) (simp add: axis_def cell_def)
  have x2: "unat (cursor_x t + ?w + ?w) = unat (cursor_x t) + unat ?w + unat ?w"
    using ax cx x unat_add_u32 [of "cursor_x t + ?w" ?w] by (simp add: axis_def cell_def)
  show ?thesis
  proof (cases "screen_width t \<le> cursor_x t + ?w + ?w")
    case True thus ?thesis using eq newline_ok [of f "t\<lparr>cursor_x := cursor_x t + ?w\<rparr>"] ok by simp
  next
    case False
    hence "cell ?w (screen_width t) (cursor_x t + ?w)" using cx x x2 by (simp add: cell_def word_le_nat_alt)
    thus ?thesis using eq False ok by (simp add: con_ok_def cursor_ok_def)
  qed
qed

lemma clear_ok [con_intros]:
  assumes "screen_ok f s"
  shows "con_ok f (console_clear s)"
proof -
  let ?t = "(fb_call (Clear_screen (bg s)) s)\<lparr>cursor_x := 0, cursor_y := 0\<rparr>"
  have ax: "axis (font_width f) (screen_width s)" "axis (font_height f) (screen_height s)"
    using assms by (simp_all add: screen_ok_def)
  have "con_ok f ?t"
    using screen_ok_calls(2) [OF assms, of "Clear_screen (bg s)"] axis_cells(1) [OF ax(1)] axis_cells(1) [OF ax(2)]
    by (simp add: con_ok_def cursor_ok_def inside_def fb_call_def)
  thus ?thesis unfolding console_clear_def
    by (intro con_ok_draw) (simp_all add: on_screen_def fb_call_def)
qed

lemma clear_line_ok [con_intros]:
  assumes "con_ok f s"
  shows "con_ok f (clear_line m f s)"
proof -
  define start fin where "start = (if m = 0 then cursor_x s else 0)" and "fin = (if m = 1 then cursor_x s else screen_width s)"
  have "cursor_x s \<le> screen_width s" using assms by (simp add: con_ok_def cursor_ok_def cell_def word_le_nat_alt)
  hence le: "start \<le> fin" "fin \<le> screen_width s" by (auto simp: start_def fin_def)
  have on: "on_screen s start (cursor_y s) (fin - start) (font_height f)"
    using assms le by (simp add: on_screen_def con_ok_def cursor_ok_def cell_def unat_sub word_le_nat_alt)
  hence "con_ok f (fb_calls [Fill_rect start (cursor_y s) (fin - start) (font_height f) (bg s)] s)"
    using assms by (intro con_ok_draw) (simp_all add: inside_def on_screen_def)
  hence "con_ok f (mark_dirty start (cursor_y s) (fin - start) (font_height f) (fb_calls [Fill_rect start (cursor_y s) (fin - start) (font_height f) (bg s)] s))"
    by (rule con_ok_draw) (use on in \<open>simp add: on_screen_def fb_calls_def\<close>)
  thus ?thesis using cursor_on_screen(3) [OF assms] by (simp add: clear_line_def start_def fin_def Let_def fb_call_def fb_calls_def)
qed

lemma move_cursor_ok:
  assumes "con_ok f s" "cell (font_width f) (screen_width s) x" "cell (font_height f) (screen_height s) y"
  shows "con_ok f (move_cursor f x y s)"
proof -
  let ?w = "font_width f" and ?h = "font_height f"
  let ?t = "mark_dirty (cursor_x s) (cursor_y s) ?w ?h s"
  have t: "con_ok f ?t" using assms(1) cursor_on_screen(1) [OF assms(1)] by (rule con_ok_draw)
  have geo: "same_geometry s ?t" by simp
  have "con_ok f (?t\<lparr>cursor_x := x, cursor_y := y\<rparr>)"
    using t geo assms by (simp add: con_ok_def cursor_ok_def same_geometry_def)
  hence "con_ok f (flush_dirty (mark_dirty x y ?w ?h (?t\<lparr>cursor_x := x, cursor_y := y\<rparr>)))"
    by (intro con_ok_draw) (use geo assms in \<open>simp_all add: on_screen_def same_geometry_def cell_def\<close>)
  thus ?thesis using cursor_on_screen(2,3) [OF assms(1)] by (simp add: move_cursor_def Let_def)
qed

lemma con_okD:
  assumes "con_ok f s"
  shows "axis (font_width f) (screen_width s)" "axis (font_height f) (screen_height s)"
    "cell (font_width f) (screen_width s) (cursor_x s)" "cell (font_height f) (screen_height s) (cursor_y s)"
    "0 < char_width s f" "0 < char_height s f" "font s = Some f"
  using assms axis_cells(4) [of "font_width f" "screen_width s"] axis_cells(4) [of "font_height f" "screen_height s"]
  by (simp_all add: con_ok_def screen_ok_def cursor_ok_def char_width_def char_height_def)

lemma con_updates [simp]:
  "con_ok f (s\<lparr>fg := a\<rparr>) = con_ok f s" "con_ok f (s\<lparr>bg := a\<rparr>) = con_ok f s"
  "con_ok f (s\<lparr>bold := b\<rparr>) = con_ok f s" "con_ok f (s\<lparr>reverse := b\<rparr>) = con_ok f s"
  "con_ok f (s\<lparr>cursor_visible := b\<rparr>) = con_ok f s" "con_ok f (s\<lparr>cursor_blink_counter := a\<rparr>) = con_ok f s"
  "con_ok f (s\<lparr>escape := b\<rparr>) = con_ok f s" "con_ok f (s\<lparr>ansi := cs\<rparr>) = con_ok f s"
  by (simp_all add: con_ok_def)

lemma fb_calls_fields [simp]: "cursor_x (fb_calls ops s) = cursor_x s" "cursor_y (fb_calls ops s) = cursor_y s"
  by (simp_all add: fb_calls_def)

text \<open>The end of \<open>backspace\<close>: the new cell is blanked, and both cells are copied to the screen.\<close>

lemma blank_cell_ok:
  assumes "con_ok f s" "on_screen s x y (font_width f) (font_height f)"
  shows "con_ok f (flush_dirty (mark_dirty x y (font_width f) (font_height f)
           (mark_dirty (cursor_x s) (cursor_y s) (font_width f) (font_height f)
             (fb_calls (map (\<lambda>(x, y). Put_checked x y c) ps) s))))"
proof -
  let ?t = "fb_calls (map (\<lambda>(x, y). Put_checked x y c) ps) s"
  have t: "con_ok f ?t" by (rule con_ok_draw(1) [OF assms(1)]) (auto simp: list_all_iff inside_def)
  have geo: "same_geometry s ?t" "same_geometry ?t (mark_dirty (cursor_x s) (cursor_y s) (font_width f) (font_height f) ?t)" by simp_all
  show ?thesis
    by (intro con_ok_draw t) (use geo assms(2) cursor_on_screen(1) [OF assms(1)] in \<open>simp_all add: on_screen_def same_geometry_def\<close>)
qed

lemma backspace_ok [con_intros]:
  assumes "con_ok f s"
  shows "con_ok f (backspace f s)"
proof -
  define t where "t = hide_cursor f s"
  have t: "con_ok f t" unfolding t_def using assms by (rule hide_cursor_ok)
  note d = con_okD [OF t] and c = cursor_on_screen [OF t]
  let ?w = "font_width f" and ?h = "font_height f"
  have on: "on_screen u (cursor_x t) (cursor_y t) ?w ?h" if "screen_width u = screen_width t" "screen_height u = screen_height t" for u
    using c(1) that by (simp add: on_screen_def)
  consider (none) "\<not> ?w \<le> cursor_x t" "\<not> ?h \<le> cursor_y t" | (left) "?w \<le> cursor_x t"
    | (up) "\<not> ?w \<le> cursor_x t" "?h \<le> cursor_y t" by blast
  thus ?thesis
  proof cases
    case none thus ?thesis using t c by (simp add: backspace_def t_def [symmetric] Let_def)
  next
    case left
    have "cell ?w (screen_width t) (cursor_x t - ?w)"
      using cell_backward [OF d(1,3), of 1] left by (simp add: leD)
    hence "con_ok f (t\<lparr>cursor_x := cursor_x t - ?w\<rparr>)" using t by (simp add: con_ok_def cursor_ok_def)
    from blank_cell_ok [OF this on] show ?thesis
      using left c by (simp add: backspace_def t_def [symmetric] Let_def)
  next
    case up
    have "cell ?h (screen_height t) (cursor_y t - ?h)"
      using cell_backward [OF d(2,4), of 1] up by (simp add: leD)
    hence "con_ok f (t\<lparr>cursor_y := cursor_y t - ?h, cursor_x := (screen_width t div ?w - 1) * ?w\<rparr>)"
      using t cell_grid(2) [OF d(1)] by (simp add: con_ok_def cursor_ok_def)
    from blank_cell_ok [OF this on] show ?thesis
      using up c by (simp add: backspace_def t_def [symmetric] Let_def)
  qed
qed

lemma ansi_code_ok [con_intros]: "con_ok f s \<Longrightarrow> con_ok f (ansi_code n s)"
  by (simp add: ansi_code_def)

lemma ansi_codes_ok: "con_ok f s \<Longrightarrow> con_ok f (fold ansi_code ns s)"
  by (induction ns arbitrary: s) (simp_all add: ansi_code_ok)

lemma csi_command_ok [con_intros]:
  assumes "con_ok f s"
  shows "con_ok f (csi_command f nums c s)"
proof -
  note d = con_okD [OF assms] and e = cursor_on_screen(2,3) [OF assms]
  have move: "con_ok f (move_cursor f (grid_index (screen_width s div font_width f) m * font_width f)
                (grid_index (screen_height s div font_height f) n * font_height f) s)"
    "con_ok f (move_cursor f (cursor_x s) (if cursor_y s < k * font_height f then 0 else cursor_y s - k * font_height f) s)"
    "con_ok f (move_cursor f (cursor_x s) (if screen_height s \<le> cursor_y s + k * font_height f then screen_height s - font_height f
                else cursor_y s + k * font_height f) s)"
    "con_ok f (move_cursor f (if screen_width s \<le> cursor_x s + k * font_width f then screen_width s - font_width f
                else cursor_x s + k * font_width f) (cursor_y s) s)"
    "con_ok f (move_cursor f (if cursor_x s < k * font_width f then 0 else cursor_x s - k * font_width f) (cursor_y s) s)" for m n k
    by (intro move_cursor_ok assms cell_grid cell_backward cell_forward d(1-4))+
  have "con_ok f (flush_dirty (clear_line m f s))" "con_ok f (flush_dirty (console_clear s))" "con_ok f (flush_dirty s)" for m
    using clear_ok [of f s] assms by (simp_all add: con_ok_draw(3) clear_line_ok con_ok_def [of f s])
  thus ?thesis using move d(5,6) assms ansi_code_ok ansi_codes_ok e
    unfolding csi_command_def Let_def e by (simp only: if_True split: if_split) blast
qed

lemma private_mode_ok [con_intros]: "con_ok f s \<Longrightarrow> con_ok f (private_mode f seq s)"
  by (auto simp: private_mode_def draw_cursor_block_ok split: list.split prod.split)

lemma handle_ansi_ok [con_intros]: "con_ok f s \<Longrightarrow> con_ok f (handle_ansi f seq s)"
  by (auto simp: handle_ansi_def private_mode_ok csi_command_ok split: list.split prod.split option.split)

lemma escape_byte_ok [con_intros]: "con_ok f s \<Longrightarrow> con_ok f (escape_byte f c s)"
  unfolding escape_byte_def Let_def by (intro con_ok_draw) (simp add: handle_ansi_ok)

lemma put_char_ok [con_intros]:
  assumes "con_ok f s" "c \<noteq> 9"
  shows "con_ok f (put_char f c s)"
proof -
  define t where "t = hide_cursor f s"
  have t: "con_ok f t" unfolding t_def using assms(1) by (rule hide_cursor_ok)
  have nl: "con_ok f (newline f t)" using t by (intro newline_ok) (simp_all add: con_ok_def cursor_ok_def)
  have cr: "con_ok f (t\<lparr>cursor_x := 0\<rparr>)" using t axis_cells(1) con_okD(1) [OF t] by (simp add: con_ok_def cursor_ok_def)
  show ?thesis unfolding put_char_def Let_def t_def [symmetric]
    using assms(2) t nl cr by (simp add: con_ok_draw(3) draw_char_ok backspace_ok escape_byte_ok)
qed

lemma console_put_ok: "con_ok f s \<Longrightarrow> c \<noteq> 9 \<Longrightarrow> con_ok f (console_put c s)"
  using con_okD(7) [of f s] put_char_ok [of f s c] by (simp add: console_put_def)

lemma con_write_ok: "con_ok f s \<Longrightarrow> 9 \<notin> set bs \<Longrightarrow> con_ok f (con_write bs s)"
  unfolding con_write_def by (induction bs arbitrary: s) (auto simp: console_put_ok)

lemma cursor_tick_ok: "con_ok f s \<Longrightarrow> con_ok f (cursor_tick s)"
  using con_okD(7) [of f s] by (simp add: cursor_tick_def Let_def con_ok_draw(3) draw_cursor_block_ok)

lemma con_event_ok: "con_ok f s \<Longrightarrow> e \<noteq> Byte 9 \<Longrightarrow> con_ok f (con_event e s)"
  by (cases e) (auto simp: con_event_def intro: console_put_ok cursor_tick_ok)

lemma console_init_ok:
  assumes "axis (font_width f) w" "axis (font_height f) h"
  shows "con_ok f (console_init w h (Some f) (console_start bb m))"
  using assms axis_cells(1) [OF assms(1)] axis_cells(1) [OF assms(2)]
  by (simp add: console_init_def console_start_def con_ok_def screen_ok_def cursor_ok_def dirty_ok_def inside_def fb_call_def)

lemma console_events_ok:
  assumes "axis (font_width f) w" "axis (font_height f) h" "Byte 9 \<notin> set es"
  shows "con_ok f (fold con_event es (console_init w h (Some f) (console_start bb m)))"
  using assms(3) console_init_ok [OF assms(1,2)]
proof (induction es rule: rev_induct)
  case (snoc e es) thus ?case by (auto simp: con_event_ok)
qed simp

text \<open>
  C16: on a screen that holds a whole number of characters in both directions (and a font whose sizes
  are powers of two), whatever bytes other than a tab are written and however the blinking of the cursor
  falls between them, escape sequences of any content included, the cursor stands in a cell of the
  screen and no pixel is written and no rectangle is copied outside of it.
\<close>

theorem console_stays_on_screen:
  assumes "axis (font_width f) w" "axis (font_height f) h" "Byte 9 \<notin> set es"
  shows "con_ok f (fold con_event es (console_init w h (Some f) (console_start bb m)))"
  by (rule console_events_ok [OF assms])

definition sample_font :: font where
  "sample_font = \<lparr>glyphs = 4096, glyph_count = 256, font_width = 8, font_height = 16, glyph_size = 16, bytes_per_row = 1\<rparr>"

theorem console_stays_on_screen_witness:
  "con_ok sample_font (fold con_event [Byte 27, Byte 91, Byte 57, Byte 57, Byte 66, Tick, Byte 65, Byte 10]
     (console_init 640 480 (Some sample_font) (console_start True (\<lambda>_. 0))))"
  by (rule console_stays_on_screen) (simp_all add: axis_def sample_font_def)

text \<open>
  On a screen whose height is not a multiple of the height of a character, the command that moves the
  cursor down can leave it in the part of a row at the bottom; showing the cursor then writes points
  below the last line of the screen.
\<close>

definition below_screen :: "console \<Rightarrow> fb_op \<Rightarrow> bool" where
  "below_screen s op = (case op of Invert x y \<Rightarrow> screen_height s \<le> y | _ \<Rightarrow> False)"

theorem cursor_down_leaves_screen:
  "(let s = fold con_event (map Byte [27, 91, 50, 57, 66]) (console_init 640 470 (Some sample_font) (console_start True (\<lambda>_. 0)))
    in list_ex (below_screen s) (fb (draw_cursor_block sample_font s)))"
  by code_simp

end
