(* ===== verification/Framebuffer.thy ===== *)
theory Framebuffer
  imports Console
begin

unbundle bit_operations_syntax

text \<open>
  The frame buffer, \<open>src/kernel/drivers/framebuffer.cpp\<close>, and the device \<open>/dev/fb\<close>,
  \<open>src/fs/devfs/fb.cpp\<close>: pixels in a back buffer, and copies of parts of it to the video memory. Both
  buffers lie in one byte memory. A position is a pair of words of 32 bits, which the code reads as signed
  numbers where it compares them. \<open>None\<close> is a call of \<open>put_pixel_impl\<close> or \<open>get_pixel_impl\<close> while they are
  null, which happens for a depth that is not 16, 24 or 32 bits.
\<close>

section \<open>Pixels\<close>

record framebuf =
  vmem :: mem
  frontbuf :: u64
  backbuf :: u64
  buf_size :: u32
  px_bytes :: u32
  vwidth :: u32
  vheight :: u32
  vpitch :: u32
  vbpp :: u32
  vswapping :: bool

definition pixel_addr :: "u32 \<Rightarrow> u32 \<Rightarrow> u32 \<Rightarrow> framebuf \<Rightarrow> u64" where
  "pixel_addr k x y s = backbuf s + ucast (y * vpitch s) + scast (x * k)"

definition put_pixel_32 :: "u32 \<Rightarrow> u32 \<Rightarrow> u32 \<Rightarrow> framebuf \<Rightarrow> framebuf" where
  "put_pixel_32 x y color s = s\<lparr>vmem := store 4 (vmem s) (pixel_addr 4 x y s) (ucast color)\<rparr>"

definition put_pixel_24 :: "u32 \<Rightarrow> u32 \<Rightarrow> u32 \<Rightarrow> framebuf \<Rightarrow> framebuf" where
  "put_pixel_24 x y color s =
     (let p = pixel_addr 3 x y s
      in s\<lparr>vmem := (vmem s)(p := ucast color, p + 1 := ucast (drop_bit 8 color), p + 2 := ucast (drop_bit 16 color))\<rparr>)"

definition rgb565 :: "u32 \<Rightarrow> u16" where
  "rgb565 color =
     ucast (push_bit 11 (drop_bit 19 color AND 0x1f) OR push_bit 5 (drop_bit 10 color AND 0x3f) OR (drop_bit 3 color AND 0x1f))"

definition put_pixel_16 :: "u32 \<Rightarrow> u32 \<Rightarrow> u32 \<Rightarrow> framebuf \<Rightarrow> framebuf" where
  "put_pixel_16 x y color s = s\<lparr>vmem := store 2 (vmem s) (pixel_addr 2 x y s) (ucast (rgb565 color))\<rparr>"

definition get_pixel_32 :: "u32 \<Rightarrow> u32 \<Rightarrow> framebuf \<Rightarrow> u32" where
  "get_pixel_32 x y s = read32 (vmem s) (pixel_addr 4 x y s)"

definition get_pixel_24 :: "u32 \<Rightarrow> u32 \<Rightarrow> framebuf \<Rightarrow> u32" where
  "get_pixel_24 x y s =
     (let p = pixel_addr 3 x y s
      in ucast (vmem s p) OR push_bit 8 (ucast (vmem s (p + 1))) OR push_bit 16 (ucast (vmem s (p + 2))))"

definition get_pixel_16 :: "u32 \<Rightarrow> u32 \<Rightarrow> framebuf \<Rightarrow> u32" where
  "get_pixel_16 x y s = ucast (read16 (vmem s) (pixel_addr 2 x y s))"

definition put_pixel_unchecked :: "u32 \<Rightarrow> u32 \<Rightarrow> u32 \<Rightarrow> framebuf \<Rightarrow> framebuf option" where
  "put_pixel_unchecked x y color s =
     (if vbpp s = 32 then Some (put_pixel_32 x y color s)
      else if vbpp s = 24 then Some (put_pixel_24 x y color s)
      else if vbpp s = 16 then Some (put_pixel_16 x y color s)
      else None)"

text \<open>The checks of \<open>put_pixel\<close> and \<open>get_pixel\<close>, on signed numbers.\<close>

definition off_screen :: "u32 \<Rightarrow> u32 \<Rightarrow> framebuf \<Rightarrow> bool" where
  "off_screen x y s \<longleftrightarrow>
     backbuf s = 0 \<or> sint x < 0 \<or> sint y < 0 \<or> sint (vwidth s) \<le> sint x \<or> sint (vheight s) \<le> sint y"

definition put_pixel :: "u32 \<Rightarrow> u32 \<Rightarrow> u32 \<Rightarrow> framebuf \<Rightarrow> framebuf option" where
  "put_pixel x y color s = (if off_screen x y s then Some s else put_pixel_unchecked x y color s)"

definition get_pixel :: "u32 \<Rightarrow> u32 \<Rightarrow> framebuf \<Rightarrow> u32 option" where
  "get_pixel x y s =
     (if off_screen x y s then Some 0
      else if vbpp s = 32 then Some (get_pixel_32 x y s)
      else if vbpp s = 24 then Some (get_pixel_24 x y s)
      else if vbpp s = 16 then Some (get_pixel_16 x y s)
      else None)"

section \<open>Rectangles\<close>

text \<open>One dimension of the clipping of \<open>fill_rect\<close>: the first position and the length.\<close>

definition clip :: "u32 \<Rightarrow> u32 \<Rightarrow> u32 \<Rightarrow> u32 \<times> u32" where
  "clip len x w =
     (let (x, w) = (if sint x < 0 then (0, w + x) else (x, w))
      in (x, if sint len < sint (x + w) then len - x else w))"

definition fill_rect :: "u32 \<Rightarrow> u32 \<Rightarrow> u32 \<Rightarrow> u32 \<Rightarrow> u32 \<Rightarrow> framebuf \<Rightarrow> framebuf option" where
  "fill_rect x y w h color s =
     (if backbuf s = 0 \<or> sint w \<le> 0 \<or> sint h \<le> 0 then Some s
      else
        let (x, w) = clip (vwidth s) x w; (y, h) = clip (vheight s) y h
        in if sint w \<le> 0 \<or> sint h \<le> 0 then Some s
           else if vbpp s = 32 then
             Some (fold (\<lambda>row. fold (\<lambda>col s. s\<lparr>vmem := store 4 (vmem s) (pixel_addr 4 x (y + of_nat row) s + 4 * of_nat col) (ucast color)\<rparr>)
                       [0..<unat w]) [0..<unat h] s)
           else
             for_each (\<lambda>row. for_each (\<lambda>col. put_pixel_unchecked (x + of_nat col) (y + of_nat row) color) [0..<unat w]) [0..<unat h] s)"

text \<open>\<open>swap_rect\<close>: the rows from \<open>y\<close> on, while they are on the screen.\<close>

definition swap_rows :: "u32 \<Rightarrow> u32 \<Rightarrow> framebuf \<Rightarrow> u32 list" where
  "swap_rows y h s = map of_nat [unat y..<min (unat (y + h)) (unat (vheight s))]"

definition swap_rect :: "u32 \<Rightarrow> u32 \<Rightarrow> u32 \<Rightarrow> u32 \<Rightarrow> framebuf \<Rightarrow> framebuf" where
  "swap_rect x y w h s =
     fold (\<lambda>row s.
       let off = ucast (row * vpitch s + x * px_bytes s); len = unat (w * px_bytes s)
       in s\<lparr>vmem := copy (vmem s) (frontbuf s + off) (backbuf s + off) len\<rparr>) (swap_rows y h s) s"

definition swap_all :: "framebuf \<Rightarrow> framebuf" where
  "swap_all s =
     (if vswapping s then s else s\<lparr>vmem := copy (vmem s) (frontbuf s) (backbuf s) (unat (buf_size s))\<rparr>)"

text \<open>A row of \<open>clear\<close>, two pixels at a time.\<close>

function clear_row :: "u32 \<Rightarrow> u64 \<Rightarrow> u32 \<Rightarrow> mem \<Rightarrow> mem" where
  "clear_row color row count m =
     (if 2 \<le> count then clear_row color (row + 8) (count - 2) (store 8 m row (push_bit 32 (ucast color) OR ucast color))
      else if count \<noteq> 0 then store 4 m row (ucast color) else m)"
  by pat_completeness auto
termination
  by (relation "measure (\<lambda>(color, row, count, m). unat count)") (auto simp: word_le_nat_alt unat_sub_if')

declare clear_row.simps [simp del]

definition fb_clear :: "u32 \<Rightarrow> framebuf \<Rightarrow> framebuf option" where
  "fb_clear color s =
     (if backbuf s = 0 then Some s
      else if vbpp s = 32 then
        Some (fold (\<lambda>y s. s\<lparr>vmem := clear_row color (backbuf s + ucast (of_nat y * vpitch s)) (vwidth s) (vmem s)\<rparr>)
                [0..<unat (vheight s)] s)
      else
        for_each (\<lambda>y. for_each (\<lambda>x. put_pixel_unchecked (of_nat x) (of_nat y) color) [0..<unat (vwidth s)]) [0..<unat (vheight s)] s)"

text \<open>The move of the back buffer that \<open>console::scroll\<close> makes, by \<open>n\<close> lines.\<close>

definition scroll_lines :: "u32 \<Rightarrow> framebuf \<Rightarrow> framebuf" where
  "scroll_lines n s =
     (let mv = vpitch s * (vheight s - n);
          m = copy (vmem s) (backbuf s) (backbuf s + ucast (vpitch s * n)) (unat mv)
      in s\<lparr>vmem := fill m (backbuf s + ucast mv) 0 (unat (vpitch s * n))\<rparr>)"

section \<open>Set-up and the device\<close>

record fb_info =
  fi_address :: u64
  fi_width :: u32
  fi_height :: u32
  fi_pitch :: u32
  fi_bpp :: u32

definition MULTIBOOT_TAG_TYPE_FRAMEBUFFER :: u32 where "MULTIBOOT_TAG_TYPE_FRAMEBUFFER = 8"

definition tag_info :: "mem \<Rightarrow> u64 \<Rightarrow> fb_info" where
  "tag_info m p = \<lparr>fi_address = read64 m (p + 8), fi_width = read32 m (p + 20), fi_height = read32 m (p + 24),
     fi_pitch = read32 m (p + 16), fi_bpp = ucast (m (p + 28))\<rparr>"

text \<open>The search of GRUB's tags, which ends only at a tag of type 0 or of the frame buffer (\<open>None\<close> if it does not end).\<close>

partial_function (option) find_fb_tag :: "mem \<Rightarrow> u64 \<Rightarrow> u64 option option" where
  "find_fb_tag m p =
     (if read32 m p = 0 then Some None
      else if read32 m p = MULTIBOOT_TAG_TYPE_FRAMEBUFFER then Some (Some p)
      else find_fb_tag m (p + ucast ((read32 m (p + 4) + 7) AND NOT 7)))"

definition grub_init :: "mem \<Rightarrow> u32 \<Rightarrow> u32 \<Rightarrow> fb_info option \<Rightarrow> (bool \<times> fb_info option) option" where
  "grub_init m mb_magic mb_info i =
     (if mb_magic \<noteq> 0x36d76289 \<or> i = None then Some (False, i)
      else
        map_option (\<lambda>tag.
          case tag of
            None \<Rightarrow> (False, i)
          | Some p \<Rightarrow> if fi_address (tag_info m p) = 0 then (False, i) else (True, Some (tag_info m p)))
          (find_fb_tag m (ucast mb_info + 8)))"

text \<open>\<open>native\<close> is the first frame buffer of the loader's own response, if it has one with an address.\<close>

definition limine_init :: "mem \<Rightarrow> fb_info option \<Rightarrow> u64 \<Rightarrow> fb_info option \<Rightarrow> bool \<times> fb_info option" where
  "limine_init m native addr i =
     (if i = None then (False, i)
      else
        (case native of
           Some n \<Rightarrow> (True, Some n)
         | None \<Rightarrow>
             if addr \<noteq> 0 \<and> fi_address (tag_info m addr) \<noteq> 0 \<and> 0 < fi_width (tag_info m addr)
             then (True, Some (tag_info m addr)) else (False, i)))"

text \<open>The rest of \<open>init\<close>, with the description of the screen; the mapping of its pages is left to the page tables.\<close>

definition fb_init :: "u64 \<Rightarrow> u32 \<Rightarrow> u32 \<Rightarrow> u32 \<Rightarrow> u32 \<Rightarrow> framebuf \<Rightarrow> framebuf" where
  "fb_init address w h pitch bpp s =
     s\<lparr>vwidth := w, vheight := h, vpitch := pitch, vbpp := bpp, frontbuf := address, buf_size := pitch * h, px_bytes := bpp div 8\<rparr>"

definition init_backbuffer :: "u64 \<Rightarrow> framebuf \<Rightarrow> framebuf" where
  "init_backbuffer block s =
     (if block = 0 then s\<lparr>backbuf := 0\<rparr> else s\<lparr>backbuf := block, vmem := fill (vmem s) block 0 (unat (buf_size s))\<rparr>)"

definition dev_fb_size :: "framebuf \<Rightarrow> u64" where "dev_fb_size s = ucast (vpitch s * vheight s)"

definition dev_fb_len :: "u64 \<Rightarrow> u64 \<Rightarrow> framebuf \<Rightarrow> u64" where
  "dev_fb_len len offset s =
     (if backbuf s = 0 \<or> dev_fb_size s \<le> offset then 0 else min len (dev_fb_size s - offset))"

definition dev_fb_write :: "u8 list \<Rightarrow> u64 \<Rightarrow> framebuf \<Rightarrow> u64 \<times> framebuf" where
  "dev_fb_write bs offset s =
     (let n = dev_fb_len (of_nat (length bs)) offset s
      in (n, s\<lparr>vmem := poke (vmem s) (backbuf s + offset) (take (unat n) bs)\<rparr>))"

definition dev_fb_read :: "u64 \<Rightarrow> u64 \<Rightarrow> framebuf \<Rightarrow> u64 \<times> u8 list" where
  "dev_fb_read len offset s =
     (let n = dev_fb_len len offset s in (n, bytes_at (vmem s) (backbuf s + offset) (unat n)))"

definition FBIOGET_SCREENINFO :: u64 where "FBIOGET_SCREENINFO = 0x4600"

definition dev_fb_ioctl :: "u64 \<Rightarrow> bool \<Rightarrow> framebuf \<Rightarrow> int \<times> (u32 \<times> u32 \<times> u32 \<times> u32) option" where
  "dev_fb_ioctl req has_arg s =
     (if req = FBIOGET_SCREENINFO \<and> has_arg then (0, Some (vwidth s, vheight s, vpitch s, vbpp s)) else (-1, None))"

text \<open>What the calls that the console records do to the frame buffer.\<close>

definition apply_op :: "fb_op \<Rightarrow> framebuf \<Rightarrow> framebuf option" where
  "apply_op op s =
     (case op of
        Put x y c \<Rightarrow> put_pixel_unchecked x y c s
      | Invert x y \<Rightarrow> Option.bind (get_pixel x y s) (\<lambda>px. put_pixel_unchecked x y (px XOR 0x00FFFFFF) s)
      | Put_checked x y c \<Rightarrow> put_pixel x y c s
      | Fill_rect x y w h c \<Rightarrow> fill_rect x y w h c s
      | Swap_rect x y w h \<Rightarrow> Some (swap_rect x y w h s)
      | Clear_screen c \<Rightarrow> fb_clear c s
      | Scroll_lines n \<Rightarrow> Some (scroll_lines n s)
      | Swap_all \<Rightarrow> Some (swap_all s))"

section \<open>Writes stay in the two buffers\<close>

definition fb_ok :: "framebuf \<Rightarrow> bool" where
  "fb_ok s \<longleftrightarrow>
     vbpp s \<in> {16, 24, 32} \<and> px_bytes s = vbpp s div 8 \<and> unat (vwidth s) * unat (px_bytes s) \<le> unat (vpitch s) \<and>
     unat (buf_size s) = unat (vpitch s) * unat (vheight s) \<and> unat (vpitch s) < 2 ^ 31 \<and> unat (vheight s) < 2 ^ 31"

text \<open>From \<open>s\<close> to \<open>t\<close> only bytes of the two buffers change.\<close>

definition draws :: "framebuf \<Rightarrow> framebuf \<Rightarrow> bool" where
  "draws s t \<longleftrightarrow>
     (\<exists>m. t = s\<lparr>vmem := m\<rparr> \<and>
       (\<forall>a. \<not> unat (a - backbuf s) < unat (buf_size s) \<and> \<not> unat (a - frontbuf s) < unat (buf_size s) \<longrightarrow> m a = vmem s a))"

lemma draws_refl: "draws s s"
  unfolding draws_def by (rule exI [of _ "vmem s"]) simp

lemma draws_fields:
  assumes "draws s t"
  shows "backbuf t = backbuf s" "frontbuf t = frontbuf s" "buf_size t = buf_size s" "px_bytes t = px_bytes s" "vwidth t = vwidth s"
    "vheight t = vheight s" "vpitch t = vpitch s" "vbpp t = vbpp s" "vswapping t = vswapping s" "fb_ok t = fb_ok s"
  using assms by (auto simp: draws_def fb_ok_def)

lemma draws_trans: "draws s t \<Longrightarrow> draws t u \<Longrightarrow> draws s u"
  by (auto simp: draws_def)

lemma in_range:
  assumes "unat (a - (b + of_nat k)) < n" "k + n \<le> N" "N < 2 ^ 64"
  shows "unat (a - b :: u64) < N"
proof -
  have k: "unat (of_nat k :: u64) = k" using assms(2,3) by (intro unat_of_nat_u64) simp
  have "a - b = (a - (b + of_nat k)) + of_nat k" by simp
  hence "unat (a - b) = unat (a - (b + of_nat k)) + k"
    using assms k unat_add_u64 [of "a - (b + of_nat k)" "of_nat k"] by simp
  thus ?thesis using assms by simp
qed

lemma fb_ok_sizes:
  assumes "fb_ok s"
  shows "unat (buf_size s) < 2 ^ 64" "unat (vpitch s) * unat (vheight s) < 2 ^ 32"
proof -
  have "unat (buf_size s) < 2 ^ 32" using unsigned_less [of "buf_size s"] by simp
  thus "unat (buf_size s) < 2 ^ 64" "unat (vpitch s) * unat (vheight s) < 2 ^ 32" using assms by (simp_all add: fb_ok_def)
qed

lemma draws_bytes:
  assumes "fb_ok s" "b = backbuf s \<or> b = frontbuf s" "k + n \<le> unat (buf_size s)"
    and "\<And>a. \<not> unat (a - (b + of_nat k)) < n \<Longrightarrow> m a = vmem s a"
  shows "draws s (s\<lparr>vmem := m\<rparr>)"
  using assms(2,4) in_range [OF _ assms(3) fb_ok_sizes(1) [OF assms(1)], of _ b] by (auto simp: draws_def)

lemma sint_small: "unat (x :: u32) < 2 ^ 31 \<Longrightarrow> sint x = int (unat x)"
proof -
  assume "unat x < 2 ^ 31"
  hence "uint x < 2 ^ 31" by (metis of_nat_less_numeral_power_cancel_iff uint_nat)
  hence "sint x = uint x"
    unfolding sint_uint by (intro signed_take_bit_int_eq_self) (simp_all add: order_trans [of _ 0])
  thus ?thesis by (simp only: uint_nat)
qed

lemma scast_small: "unat (x :: u32) < 2 ^ 31 \<Longrightarrow> scast x = (of_nat (unat x) :: u64)"
proof -
  assume "unat x < 2 ^ 31"
  hence "sint x = uint x" using sint_small [of x] by (simp only: uint_nat)
  hence "word_of_int (sint x) = (word_of_int (uint x) :: u64)" by (simp only:)
  thus ?thesis by simp
qed

lemma pixel_offset:
  assumes "fb_ok s" "x < vwidth s" "y < vheight s"
  shows "pixel_addr (px_bytes s) x y s = backbuf s + of_nat (unat y * unat (vpitch s) + unat x * unat (px_bytes s))"
    "unat y * unat (vpitch s) + unat x * unat (px_bytes s) + unat (px_bytes s) \<le> unat (buf_size s)"
proof -
  let ?k = "unat (px_bytes s)" and ?p = "unat (vpitch s)"
  have x: "unat x * ?k + ?k \<le> ?p"
    using assms(1,2) mult_le_mono1 [of "Suc (unat x)" "unat (vwidth s)" ?k] unfolding fb_ok_def word_less_nat_alt mult_Suc by linarith
  have y: "unat y * ?p + ?p \<le> unat (buf_size s)"
    using assms(1,3) mult_le_mono1 [of "Suc (unat y)" "unat (vheight s)" ?p] by (simp add: fb_ok_def word_less_nat_alt mult.commute)
  show "unat y * ?p + unat x * ?k + ?k \<le> unat (buf_size s)" using x y by linarith
  have b: "unat (buf_size s) < 2 ^ 32" using unsigned_less [of "buf_size s"] by simp
  have uy: "unat (y * vpitch s) = unat y * ?p" using y b by (simp add: unat_word_ariths)
  have ux: "unat (x * px_bytes s) = unat x * ?k" "unat x * ?k < 2 ^ 31"
    using x assms(1) by (simp_all add: unat_word_ariths fb_ok_def)
  have "ucast (y * vpitch s) = (of_nat (unat (y * vpitch s)) :: u64)" by simp
  hence "pixel_addr (px_bytes s) x y s = backbuf s + of_nat (unat y * ?p) + of_nat (unat x * ?k)"
    unfolding pixel_addr_def using scast_small [of "x * px_bytes s"] ux by (simp only: uy)
  thus "pixel_addr (px_bytes s) x y s = backbuf s + of_nat (unat y * ?p + unat x * ?k)" by (simp only: of_nat_add add.assoc)
qed

lemma depth_cases:
  assumes "fb_ok s"
  obtains (deep) "vbpp s = 32" "px_bytes s = 4" | (true_colour) "vbpp s = 24" "px_bytes s = 3" | (high_colour) "vbpp s = 16" "px_bytes s = 2"
  using assms by (auto simp: fb_ok_def)

text \<open>Putting a pixel changes its own bytes only.\<close>

lemma put_pixel_bytes:
  assumes "fb_ok s"
  shows "\<exists>t. put_pixel_unchecked x y c s = Some t \<and> t = s\<lparr>vmem := vmem t\<rparr> \<and>
    (\<forall>a. \<not> unat (a - pixel_addr (px_bytes s) x y s) < unat (px_bytes s) \<longrightarrow> vmem t a = vmem s a)"
  using assms
proof (cases rule: depth_cases)
  case deep thus ?thesis by (simp add: put_pixel_unchecked_def put_pixel_32_def store_def)
next
  case true_colour thus ?thesis by (auto simp: put_pixel_unchecked_def put_pixel_24_def Let_def)
next
  case high_colour thus ?thesis by (simp add: put_pixel_unchecked_def put_pixel_16_def store_def)
qed

lemma put_pixel_unchecked_draws:
  assumes "fb_ok s" "x < vwidth s" "y < vheight s"
  shows "\<exists>t. put_pixel_unchecked x y c s = Some t \<and> draws s t"
proof -
  note p = pixel_offset [OF assms]
  have "draws s (s\<lparr>vmem := m\<rparr>)" if "\<forall>a. \<not> unat (a - pixel_addr (px_bytes s) x y s) < unat (px_bytes s) \<longrightarrow> m a = vmem s a" for m
    by (rule draws_bytes [OF assms(1) disjI1 [OF refl] p(2)]) (use that [unfolded p(1)] in blast)
  thus ?thesis using put_pixel_bytes [OF assms(1), of x y c] by metis
qed

lemma get_pixel_defined: "fb_ok s \<Longrightarrow> \<exists>v. get_pixel x y s = Some v"
  by (auto simp: fb_ok_def get_pixel_def)

lemma sint_nonneg: "0 \<le> sint (x :: u32) \<Longrightarrow> unat x < 2 ^ 31"
proof (rule ccontr)
  assume s: "0 \<le> sint x" and "\<not> unat x < 2 ^ 31"
  hence u: "2 ^ 31 \<le> uint x" by (metis not_less of_nat_less_numeral_power_cancel_iff uint_nat)
  have less: "uint x < 2 ^ 32" using uint_lt2p [of x] by simp
  have "(uint x + 2 ^ 31) mod 2 ^ 32 = (uint x - 2 ^ 31 + 2 ^ 32) mod 2 ^ 32" by (simp add: add.commute)
  also have "\<dots> = uint x - 2 ^ 31" unfolding mod_add_self2 using u less by (intro mod_pos_pos_trivial) simp_all
  finally have "(uint x + 2 ^ 31) mod 2 ^ 32 = uint x - 2 ^ 31" .
  moreover have "sint x = (uint x + 2 ^ 31) mod 2 ^ 32 - 2 ^ 31"
    by (simp add: sint_uint signed_take_bit_eq_take_bit_shift take_bit_eq_mod)
  ultimately show False using s less by simp
qed

lemma sint_less: "0 \<le> sint (x :: u32) \<Longrightarrow> sint x < sint y \<Longrightarrow> unat y < 2 ^ 31 \<Longrightarrow> x < y"
  using sint_small [OF sint_nonneg, of x] sint_small [of y] by (simp only: word_less_nat_alt of_nat_less_iff)

lemma vwidth_small: "fb_ok s \<Longrightarrow> unat (vwidth s) < 2 ^ 31"
proof -
  assume ok: "fb_ok s"
  hence "0 < unat (px_bytes s)" by (auto simp: fb_ok_def)
  hence "unat (vwidth s) \<le> unat (vwidth s) * unat (px_bytes s)" by simp
  thus ?thesis using ok unfolding fb_ok_def by linarith
qed

lemma put_pixel_draws:
  assumes "fb_ok s"
  shows "\<exists>t. put_pixel x y c s = Some t \<and> draws s t"
proof (cases "off_screen x y s")
  case True thus ?thesis by (simp add: put_pixel_def draws_refl)
next
  case False
  have h: "unat (vheight s) < 2 ^ 31" using assms by (simp add: fb_ok_def)
  have "x < vwidth s" "y < vheight s"
    using False sint_less [OF _ _ vwidth_small [OF assms], of x] sint_less [OF _ _ h, of y] by (simp_all add: off_screen_def)
  thus ?thesis using False put_pixel_unchecked_draws [OF assms] by (simp add: put_pixel_def)
qed

lemma for_each_draws:
  assumes "\<And>i t. i \<in> set xs \<Longrightarrow> draws s t \<Longrightarrow> \<exists>u. f i t = Some u \<and> draws t u" "draws s t"
  shows "\<exists>u. for_each f xs t = Some u \<and> draws t u"
  using assms
proof (induction xs arbitrary: t)
  case Nil thus ?case by (simp add: draws_refl)
next
  case (Cons i xs)
  obtain u where u: "f i t = Some u" "draws t u" using Cons.prems(1) [of i t] Cons.prems(2) by auto
  obtain v where v: "for_each f xs u = Some v" "draws u v"
    using Cons.IH [of u] Cons.prems(1) draws_trans [OF Cons.prems(2) u(2)] by auto
  show ?case using u v draws_trans [of t u v] by simp
qed

lemma fold_draws:
  assumes "\<And>i t. i \<in> set xs \<Longrightarrow> draws s t \<Longrightarrow> draws t (f i t)" "draws s t"
  shows "draws s (fold f xs t)"
  using assms
proof (induction xs arbitrary: t)
  case (Cons i xs)
  have "draws s (f i t)" using Cons.prems(1) [of i t] Cons.prems(2) draws_trans [of s t] by auto
  thus ?case using Cons.IH [of "f i t"] Cons.prems(1) by auto
qed simp

lemma put_rect_draws:
  assumes "fb_ok s" "X + w \<le> unat (vwidth s)" "Y + h \<le> unat (vheight s)"
  shows "\<exists>t. for_each (\<lambda>row. for_each (\<lambda>col. put_pixel_unchecked (of_nat (X + col)) (of_nat (Y + row)) c) [0..<w]) [0..<h] s = Some t \<and> draws s t"
proof -
  have pix: "\<exists>u. put_pixel_unchecked (of_nat (X + col)) (of_nat (Y + row)) c t = Some u \<and> draws t u"
    if "draws s t" "row < h" "col < w" for t row col
  proof -
    have "of_nat (X + col) < vwidth s" "of_nat (Y + row) < vheight s"
      using that assms(2,3) unat_below_u32 [of "X + col" "vwidth s"] unat_below_u32 [of "Y + row" "vheight s"]
      by (simp_all add: word_less_nat_alt)
    thus ?thesis using put_pixel_unchecked_draws [of t] draws_fields [OF that(1)] assms(1) by simp
  qed
  have "\<exists>u. for_each (\<lambda>col. put_pixel_unchecked (of_nat (X + col)) (of_nat (Y + row)) c) [0..<w] t = Some u \<and> draws t u"
    if "draws s t" "row < h" for t row
    by (rule for_each_draws [OF _ that(1)]) (use pix that(2) in simp)
  thus ?thesis by (intro for_each_draws [of _ s, OF _ draws_refl]) simp
qed

lemma clip_inside:
  assumes "unat x + unat w \<le> unat len" "unat len < 2 ^ 31"
  shows "clip len x w = (x, w)"
proof -
  have xw: "unat (x + w) = unat x + unat w" using assms by (intro unat_add_u32) simp
  have "sint x = int (unat x)" "sint len = int (unat len)" "sint (x + w) = int (unat (x + w))"
    using assms xw by (intro sint_small; linarith)+
  hence "\<not> sint x < 0" "\<not> sint len < sint (x + w)" using assms(1) xw by linarith+
  thus ?thesis by (simp add: clip_def)
qed

lemma fast_pixel_draws:
  assumes ok: "fb_ok t" "vbpp t = 32" and i: "unat x + col < unat (vwidth t)" "unat y + row < unat (vheight t)"
  shows "draws t (t\<lparr>vmem := store 4 (vmem t) (pixel_addr 4 x (y + of_nat row) t + 4 * of_nat col) v\<rparr>)"
proof -
  have k: "px_bytes t = 4" using ok by (simp add: fb_ok_def)
  hence k4: "unat (px_bytes t) = 4" by simp
  have c: "unat (of_nat col :: u32) = col" "unat (of_nat row :: u32) = row"
    using i by (intro unat_below_u32 [of _ "vwidth t"] unat_below_u32 [of _ "vheight t"]; linarith)+
  have lt: "unat (vwidth t) < 2 ^ 32" "unat (vheight t) < 2 ^ 32"
    using unsigned_less [of "vwidth t"] unsigned_less [of "vheight t"] by simp_all
  have xc: "unat (x + of_nat col) = unat x + col" using unat_add_u32 [of x "of_nat col"] i(1) lt(1) c(1) by simp
  have yr: "unat (y + of_nat row) = unat y + row" using unat_add_u32 [of y "of_nat row"] i(2) lt(2) c(2) by simp
  have in_x: "x < vwidth t" "x + of_nat col < vwidth t" "y + of_nat row < vheight t"
    using i xc yr by (simp_all add: word_less_nat_alt)
  note p = pixel_offset [OF ok(1) in_x(1,3)] and q = pixel_offset(2) [OF ok(1) in_x(2,3)]
  define n where "n = (unat y + row) * unat (vpitch t) + unat x * 4"
  have "pixel_addr (px_bytes t) x (y + of_nat row) t = backbuf t + of_nat n" using p(1) by (simp only: k4 yr n_def)
  hence "pixel_addr 4 x (y + of_nat row) t + 4 * of_nat col = backbuf t + of_nat (n + 4 * col)" unfolding k by (simp add: add.assoc)
  moreover have "n + 4 * col + 4 \<le> unat (buf_size t)" using q unfolding k4 xc yr n_def by (simp add: algebra_simps)
  ultimately show ?thesis by (intro draws_bytes [OF ok(1) disjI1 [OF refl], of "n + 4 * col" 4]) (simp_all add: store_def add.assoc)
qed

lemma fast_rect_draws:
  assumes "fb_ok s" "vbpp s = 32" "unat x + unat w \<le> unat (vwidth s)" "unat y + unat h \<le> unat (vheight s)"
  shows "draws s (fold (\<lambda>row. fold (\<lambda>col s. s\<lparr>vmem := store 4 (vmem s) (pixel_addr 4 x (y + of_nat row) s + 4 * of_nat col) v\<rparr>)
      [0..<unat w]) [0..<unat h] s)"
proof (rule fold_draws [OF _ draws_refl])
  fix row t assume r: "row \<in> set [0..<unat h]" and t: "draws s t"
  show "draws t (fold (\<lambda>col s. s\<lparr>vmem := store 4 (vmem s) (pixel_addr 4 x (y + of_nat row) s + 4 * of_nat col) v\<rparr>) [0..<unat w] t)"
  proof (rule fold_draws [OF _ draws_refl])
    fix col u assume c: "col \<in> set [0..<unat w]" and u: "draws t u"
    note f = draws_fields [OF draws_trans [OF t u]]
    show "draws u (u\<lparr>vmem := store 4 (vmem u) (pixel_addr 4 x (y + of_nat row) u + 4 * of_nat col) v\<rparr>)"
      by (rule fast_pixel_draws) (use f assms r c in simp_all)
  qed
qed

lemma fill_rect_draws:
  assumes "fb_ok s" "unat x + unat w \<le> unat (vwidth s)" "unat y + unat h \<le> unat (vheight s)"
  shows "\<exists>t. fill_rect x y w h c s = Some t \<and> draws s t"
proof -
  have h: "unat (vheight s) < 2 ^ 31" using assms(1) by (simp add: fb_ok_def)
  have cl: "clip (vwidth s) x w = (x, w)" "clip (vheight s) y h = (y, h)"
    using clip_inside [OF assms(2) vwidth_small [OF assms(1)]] clip_inside [OF assms(3) h] by blast+
  obtain t where "for_each (\<lambda>row. for_each (\<lambda>col. put_pixel_unchecked (x + of_nat col) (y + of_nat row) c) [0..<unat w]) [0..<unat h] s = Some t"
    "draws s t"
    using put_rect_draws [OF assms, of c] by auto
  thus ?thesis using draws_refl [of s] fast_rect_draws [OF assms(1) _ assms(2,3), of "ucast c"] unfolding fill_rect_def cl by simp
qed

lemma copy_draws:
  assumes "fb_ok s" "k + n \<le> unat (buf_size s)"
  shows "draws s (s\<lparr>vmem := copy (vmem s) (frontbuf s + of_nat k) p n\<rparr>)" "draws s (s\<lparr>vmem := copy (vmem s) (backbuf s + of_nat k) p n\<rparr>)"
    "draws s (s\<lparr>vmem := fill (vmem s) (backbuf s + of_nat k) v n\<rparr>)"
  by (rule draws_bytes [OF assms(1) disjI2 [OF refl] assms(2)], simp add: copy_def)
    (rule draws_bytes [OF assms(1) disjI1 [OF refl] assms(2)], simp add: copy_def fill_def)+

lemma swap_rect_draws:
  assumes "fb_ok s" "unat x + unat w \<le> unat (vwidth s)"
  shows "draws s (swap_rect x y w h s)"
  unfolding swap_rect_def Let_def
proof (rule fold_draws [OF _ draws_refl])
  fix row t assume r: "row \<in> set (swap_rows y h s)" and t: "draws s t"
  note f = draws_fields [OF t]
  let ?p = "unat (vpitch t)" and ?k = "unat (px_bytes t)"
  have ok: "fb_ok t" using f assms(1) by simp
  have row: "unat row < unat (vheight t)" using r f by (auto simp: swap_rows_def unat_below_u32)
  have "unat row * ?p + ?p \<le> unat (buf_size t)"
    using ok row mult_le_mono1 [of "Suc (unat row)" "unat (vheight t)" ?p] by (simp add: fb_ok_def mult.commute)
  moreover have "unat x * ?k + unat w * ?k \<le> ?p"
    using assms(2) f(5) ok mult_le_mono1 [of "unat x + unat w" "unat (vwidth t)" ?k] unfolding fb_ok_def distrib_right f(5) by linarith
  ultimately have le: "unat row * ?p + unat x * ?k + unat w * ?k \<le> unat (buf_size t)" by linarith
  have b: "unat (buf_size t) < 2 ^ 32" using unsigned_less [of "buf_size t"] by simp
  have u: "unat (row * vpitch t) = unat row * ?p" "unat (x * px_bytes t) = unat x * ?k" "unat (w * px_bytes t) = unat w * ?k"
    using le b by (simp_all add: unat_word_ariths)
  have off: "unat (row * vpitch t + x * px_bytes t) = unat row * ?p + unat x * ?k"
    using unat_add_u32 [of "row * vpitch t" "x * px_bytes t"] le b u by simp
  have "ucast (row * vpitch t + x * px_bytes t) = (of_nat (unat (row * vpitch t + x * px_bytes t)) :: u64)" by simp
  hence e: "ucast (row * vpitch t + x * px_bytes t) = (of_nat (unat row * ?p + unat x * ?k) :: u64)" by (simp only: off)
  show "draws t (t\<lparr>vmem := copy (vmem t) (frontbuf t + ucast (row * vpitch t + x * px_bytes t))
      (backbuf t + ucast (row * vpitch t + x * px_bytes t)) (unat (w * px_bytes t))\<rparr>)"
    unfolding e u(3) by (rule copy_draws(1) [OF ok le])
qed

lemma clear_row_outside:
  "\<not> unat (a - row) < 4 * unat count \<Longrightarrow> clear_row c row count m a = m a"
proof (induction c row count m rule: clear_row.induct)
  case (1 c row count m)
  have "unat count < 2 ^ 32" using unsigned_less [of count] by simp
  hence small: "4 * unat count < 2 ^ 64" by simp
  show ?case
  proof (cases "2 \<le> count")
    case True
    hence u: "unat (count - 2) = unat count - 2" "2 \<le> unat count" by (simp_all add: unat_sub word_le_nat_alt)
    have "8 + 4 * unat (count - 2) \<le> 4 * unat count" using u by linarith
    hence "\<not> unat (a - (row + of_nat 8)) < 4 * unat (count - 2)"
      using in_range [of a row 8 "4 * unat (count - 2)" "4 * unat count"] "1.prems" small by blast
    thus ?thesis using "1.IH" [OF True] True "1.prems" u by (subst clear_row.simps) (simp add: store_def)
  next
    case False
    hence "count \<noteq> 0 \<Longrightarrow> 1 \<le> unat count" by (simp add: unat_gt_0 Suc_leI)
    thus ?thesis using False "1.prems" by (subst clear_row.simps) (auto simp: store_def)
  qed
qed

lemma clear_draws:
  assumes "fb_ok s"
  shows "\<exists>t. fb_clear c s = Some t \<and> draws s t"
proof -
  have row: "draws t (t\<lparr>vmem := clear_row c (backbuf t + ucast (of_nat y * vpitch t)) (vwidth t) (vmem t)\<rparr>)"
    if t: "draws s t" and y: "y < unat (vheight s)" and bpp: "vbpp s = 32" for t y
  proof -
    note f = draws_fields [OF t]
    have ok: "fb_ok t" "unat (px_bytes t) = 4" using f assms bpp by (auto simp: fb_ok_def)
    let ?p = "unat (vpitch t)"
    have "unat (vwidth t) * 4 \<le> ?p" using ok unfolding fb_ok_def by metis
    moreover have "y * ?p + ?p \<le> unat (buf_size t)"
      using ok(1) y f(6) mult_le_mono1 [of "Suc y" "unat (vheight t)" ?p] by (simp add: fb_ok_def mult.commute)
    ultimately have le: "y * ?p + 4 * unat (vwidth t) \<le> unat (buf_size t)" by linarith
    have b: "unat (buf_size t) < 2 ^ 32" using unsigned_less [of "buf_size t"] by simp
    have "unat (of_nat y * vpitch t :: u32) = y * ?p"
      using le b unat_below_u32 [OF y] by (simp add: unat_word_ariths)
    moreover have "ucast (of_nat y * vpitch t :: u32) = (of_nat (unat (of_nat y * vpitch t :: u32)) :: u64)" by simp
    ultimately have e: "ucast (of_nat y * vpitch t :: u32) = (of_nat (y * ?p) :: u64)" by (simp only:)
    show ?thesis unfolding e by (rule draws_bytes [OF ok(1) disjI1 [OF refl] le]) (rule clear_row_outside)
  qed
  have "draws s (fold (\<lambda>y s. s\<lparr>vmem := clear_row c (backbuf s + ucast (of_nat y * vpitch s)) (vwidth s) (vmem s)\<rparr>) [0..<unat (vheight s)] s)"
    if "vbpp s = 32" by (rule fold_draws [OF _ draws_refl]) (use row that in simp)
  moreover obtain t where "for_each (\<lambda>y. for_each (\<lambda>x. put_pixel_unchecked (of_nat x) (of_nat y) c) [0..<unat (vwidth s)]) [0..<unat (vheight s)] s = Some t"
    "draws s t" using put_rect_draws [OF assms, of 0 "unat (vwidth s)" 0 "unat (vheight s)" c] by auto
  ultimately show ?thesis using draws_refl [of s] by (simp add: fb_clear_def)
qed

lemma scroll_draws:
  assumes "fb_ok s" "n < vheight s"
  shows "draws s (scroll_lines n s)"
proof -
  let ?p = "unat (vpitch s)" and ?mv = "vpitch s * (vheight s - n)"
  have n: "unat n < unat (vheight s)" "unat (vheight s - n) = unat (vheight s) - unat n"
    using assms(2) by (simp_all add: word_less_nat_alt unat_sub word_le_nat_alt)
  have sum: "?p * (unat (vheight s) - unat n) + ?p * unat n = unat (buf_size s)"
    using assms(1) n(1) by (simp add: fb_ok_def distrib_left [symmetric])
  have b: "unat (buf_size s) < 2 ^ 32" using unsigned_less [of "buf_size s"] by simp
  have mv: "unat ?mv = ?p * (unat (vheight s) - unat n)" using sum b n(2) by (simp add: unat_word_ariths)
  have pn: "unat (vpitch s * n) = ?p * unat n" using sum b by (simp add: unat_word_ariths)
  define m where "m = copy (vmem s) (backbuf s) (backbuf s + ucast (vpitch s * n)) (unat ?mv)"
  have 1: "draws s (s\<lparr>vmem := m\<rparr>)"
    using copy_draws(2) [OF assms(1), of 0 "unat ?mv" "backbuf s + ucast (vpitch s * n)"] mv sum by (simp add: m_def)
  have "ucast ?mv = (of_nat (unat ?mv) :: u64)" by simp
  hence e: "ucast ?mv = (of_nat (?p * (unat (vheight s) - unat n)) :: u64)" by (simp only: mv)
  have "fb_ok (s\<lparr>vmem := m\<rparr>)" using draws_fields(10) [OF 1] assms(1) by simp
  from copy_draws(3) [OF this, of "?p * (unat (vheight s) - unat n)" "?p * unat n" 0] sum
  have "draws (s\<lparr>vmem := m\<rparr>) (scroll_lines n s)" unfolding scroll_lines_def Let_def m_def [symmetric] e pn by simp
  thus ?thesis by (rule draws_trans [OF 1])
qed

text \<open>Every call that the console records, with its positions on the screen, comes back and writes only to the two buffers.\<close>

lemma apply_op_draws:
  assumes "fb_ok s" "inside (vwidth s) (vheight s) op"
  shows "\<exists>t. apply_op op s = Some t \<and> draws s t"
proof (cases op)
  case (Put x y c) thus ?thesis using assms put_pixel_unchecked_draws by (simp add: apply_op_def inside_def)
next
  case (Invert x y)
  obtain v where "get_pixel x y s = Some v" using get_pixel_defined [OF assms(1)] by blast
  thus ?thesis using Invert assms put_pixel_unchecked_draws by (simp add: apply_op_def inside_def)
next
  case (Put_checked x y c) thus ?thesis using assms(1) put_pixel_draws by (simp add: apply_op_def)
next
  case (Fill_rect x y w h c) thus ?thesis using assms fill_rect_draws by (simp add: apply_op_def inside_def)
next
  case (Swap_rect x y w h) thus ?thesis using assms swap_rect_draws by (simp add: apply_op_def inside_def)
next
  case (Clear_screen c) thus ?thesis using assms(1) clear_draws by (simp add: apply_op_def)
next
  case (Scroll_lines n) thus ?thesis using assms scroll_draws by (simp add: apply_op_def inside_def)
next
  case Swap_all
  thus ?thesis using copy_draws(1) [OF assms(1), of 0 "unat (buf_size s)" "backbuf s"] draws_refl [of s]
    by (simp add: apply_op_def swap_all_def)
qed

lemma apply_ops_draws:
  assumes "fb_ok s" "list_all (inside (vwidth s) (vheight s)) ops"
  shows "\<exists>t. for_each apply_op ops s = Some t \<and> draws s t"
proof (rule for_each_draws [OF _ draws_refl])
  fix op t assume "op \<in> set ops" "draws s t"
  thus "\<exists>u. apply_op op t = Some u \<and> draws t u"
    using assms apply_op_draws [of t op] draws_fields [of s t] by (simp add: list_all_iff)
qed

text \<open>The console never changes the size of the screen.\<close>

definition dims :: "console \<Rightarrow> u32 \<times> u32" where "dims s = (screen_width s, screen_height s)"

lemma dims_drawing [simp]:
  "dims (mark_dirty x y w h s) = dims s" "dims (flush_dirty s) = dims s" "dims (fb_call op s) = dims s" "dims (fb_calls ops s) = dims s"
  "dims (s\<lparr>cursor_x := a\<rparr>) = dims s" "dims (s\<lparr>cursor_y := a\<rparr>) = dims s" "dims (s\<lparr>fg := a\<rparr>) = dims s" "dims (s\<lparr>bg := a\<rparr>) = dims s"
  "dims (s\<lparr>bold := b\<rparr>) = dims s" "dims (s\<lparr>reverse := b\<rparr>) = dims s" "dims (s\<lparr>cursor_visible := b\<rparr>) = dims s"
  "dims (s\<lparr>cursor_blink_counter := a\<rparr>) = dims s" "dims (s\<lparr>escape := b\<rparr>) = dims s" "dims (s\<lparr>ansi := cs\<rparr>) = dims s"
  by (simp_all add: dims_def mark_dirty_def flush_dirty_def fb_call_def fb_calls_def)

lemma dims_moves [simp]:
  "dims (draw_cursor_block f s) = dims s" "dims (hide_cursor f s) = dims s" "dims (scroll f s) = dims s" "dims (newline f s) = dims s"
  "dims (clear_line m f s) = dims s" "dims (console_clear s) = dims s" "dims (move_cursor f x y s) = dims s"
  "dims (draw_char f c s) = dims s" "dims (backspace f s) = dims s" "dims (ansi_code k s) = dims s"
  by (simp_all add: draw_cursor_block_def hide_cursor_def scroll_def newline_def clear_line_def console_clear_def move_cursor_def
    draw_char_def backspace_def ansi_code_def Let_def)

lemma dims_fold [simp]: "dims (fold ansi_code ks s) = dims s"
  by (induction ks arbitrary: s) simp_all

lemma dims_escape [simp]:
  "dims (csi_command f nums c s) = dims s" "dims (private_mode f seq s) = dims s"
  by (simp_all add: csi_command_def private_mode_def Let_def split: prod.split list.split)

lemma dims_event: "dims (con_event e s) = dims s"
proof -
  have "dims (handle_ansi f seq s) = dims s" for f seq s
    by (simp add: handle_ansi_def split: list.split option.split prod.split)
  hence "dims (put_char f c s) = dims s" for f c s
    by (simp add: put_char_def escape_byte_def Let_def)
  thus ?thesis
    by (simp add: con_event_def console_put_def cursor_tick_def Let_def split: console_event.split option.split)
qed

lemma dims_events: "dims (fold con_event es s) = dims s"
  by (induction es arbitrary: s) (simp_all add: dims_event)

text \<open>
  C15: the output path as a whole. Whatever bytes other than a tab are written to the console, on a screen
  of whole characters, all calls that reach the frame buffer come back, and no byte of memory outside of
  the back buffer and the video memory changes.
\<close>

theorem console_memory_safe:
  assumes "axis (font_width f) (vwidth s)" "axis (font_height f) (vheight s)" "Byte 9 \<notin> set es" "fb_ok s"
    and "\<not> unat (a - backbuf s) < unat (buf_size s)" "\<not> unat (a - frontbuf s) < unat (buf_size s)"
  shows "\<exists>t. for_each apply_op (fb (fold con_event es (console_init (vwidth s) (vheight s) (Some f) (console_start bb m)))) s = Some t \<and>
    vmem t a = vmem s a"
proof -
  let ?c = "fold con_event es (console_init (vwidth s) (vheight s) (Some f) (console_start bb m))"
  have "con_ok f ?c \<and> screen_width ?c = vwidth s \<and> screen_height ?c = vheight s"
    using console_events_ok [OF assms(1-3)] dims_events [of es "console_init (vwidth s) (vheight s) (Some f) (console_start bb m)"]
    by (simp add: dims_def console_init_def console_start_def fb_call_def)
  hence "list_all (inside (vwidth s) (vheight s)) (fb ?c)" by (auto simp: con_ok_def screen_ok_def)
  from apply_ops_draws [OF assms(4) this] obtain t where "for_each apply_op (fb ?c) s = Some t" "draws s t" by blast
  thus ?thesis using assms(5,6) by (auto simp: draws_def)
qed

section \<open>Reading pixels back\<close>

text \<open>What is read back for a colour: all of it, its 24 colour bits, or its short form.\<close>

definition shown :: "u32 \<Rightarrow> u32 \<Rightarrow> u32" where
  "shown bpp c = (if bpp = 32 then c else if bpp = 24 then c AND 0xFFFFFF else ucast (rgb565 c))"

lemma colour_24: "(ucast (ucast (c::u32) :: u8) :: u32) OR push_bit 8 (ucast (ucast (drop_bit 8 c) :: u8)) OR
    push_bit 16 (ucast (ucast (drop_bit 16 c) :: u8)) = c AND 0xFFFFFF"
proof -
  have "(ucast (ucast (c::u32) :: u8) :: u32) OR push_bit 8 (ucast (ucast (drop_bit 8 c) :: u8)) OR
    push_bit 16 (ucast (ucast (drop_bit 16 c) :: u8)) = take_bit 24 c"
  proof (rule bit_word_eqI)
    fix n assume n: "n < LENGTH(32)"
    consider "n < 8" | "8 \<le> n" "n < 16" | "16 \<le> n" "n < 24" | "24 \<le> n" by linarith
    thus "bit ((ucast (ucast (c::u32) :: u8) :: u32) OR push_bit 8 (ucast (ucast (drop_bit 8 c) :: u8)) OR
      push_bit 16 (ucast (ucast (drop_bit 16 c) :: u8))) n = bit (take_bit 24 c) n"
      using n by cases (auto simp: bit_simps)
  qed
  thus ?thesis by (simp add: take_bit_eq_mask mask_eq_exp_minus_1)
qed

lemma on_screen_pixel: "fb_ok s \<Longrightarrow> backbuf s \<noteq> 0 \<Longrightarrow> x < vwidth s \<Longrightarrow> y < vheight s \<Longrightarrow> \<not> off_screen x y s"
proof -
  assume ok: "fb_ok s" "backbuf s \<noteq> 0" and xy: "x < vwidth s" "y < vheight s"
  have "unat (vwidth s) < 2 ^ 31" "unat (vheight s) < 2 ^ 31" using ok(1) vwidth_small by (auto simp: fb_ok_def)
  hence "sint x = int (unat x)" "sint (vwidth s) = int (unat (vwidth s))" "sint y = int (unat y)" "sint (vheight s) = int (unat (vheight s))"
    using xy unfolding word_less_nat_alt by (intro sint_small; linarith)+
  thus ?thesis using ok(2) xy unfolding word_less_nat_alt off_screen_def by linarith
qed

lemma ucast_stored:
  "ucast (take_bit 32 (ucast (c::u32) :: u64)) = c" "ucast (take_bit 16 (ucast (r::u16) :: u64)) = r"
  by (rule bit_word_eqI, auto simp: bit_simps)+

lemma put_get_same:
  assumes "fb_ok s" "backbuf s \<noteq> 0" "x < vwidth s" "y < vheight s" "put_pixel_unchecked x y c s = Some t"
  shows "get_pixel x y t = Some (shown (vbpp s) c)"
proof -
  obtain m where m: "t = s\<lparr>vmem := m\<rparr>" using put_pixel_bytes [OF assms(1), of x y c] assms(5) by auto
  hence off: "\<not> off_screen x y t" using on_screen_pixel [OF assms(1-4)] by (simp add: off_screen_def)
  show ?thesis using assms(1)
  proof (cases rule: depth_cases)
    case deep
    thus ?thesis using assms(5) off load_store_same [of 4 "vmem s" "pixel_addr 4 x y s" "ucast c"]
      by (auto simp: put_pixel_unchecked_def put_pixel_32_def get_pixel_def get_pixel_32_def shown_def read32_def pixel_addr_def ucast_stored)
  next
    case true_colour
    thus ?thesis using assms(5) off colour_24 [of c]
      by (auto simp: put_pixel_unchecked_def put_pixel_24_def get_pixel_def get_pixel_24_def shown_def pixel_addr_def Let_def)
  next
    case high_colour
    thus ?thesis using assms(5) off load_store_same [of 2 "vmem s" "pixel_addr 2 x y s" "ucast (rgb565 c)"]
      by (auto simp: put_pixel_unchecked_def put_pixel_16_def get_pixel_def get_pixel_16_def shown_def read16_def pixel_addr_def ucast_stored)
  qed
qed

lemma get_pixel_cong:
  assumes "fb_ok s" "\<And>i. i < unat (px_bytes s) \<Longrightarrow> m (pixel_addr (px_bytes s) x y s + of_nat i) = vmem s (pixel_addr (px_bytes s) x y s + of_nat i)"
  shows "get_pixel x y (s\<lparr>vmem := m\<rparr>) = get_pixel x y s"
  using assms(1)
proof (cases rule: depth_cases)
  case deep
  have "load 4 m (pixel_addr 4 x y s) = load 4 (vmem s) (pixel_addr 4 x y s)" by (rule load_cong) (use assms(2) deep in simp)
  thus ?thesis using deep by (simp add: get_pixel_def get_pixel_32_def read32_def off_screen_def pixel_addr_def)
next
  case true_colour
  thus ?thesis using assms(2) [of 0] assms(2) [of 1] assms(2) [of 2]
    by (simp add: get_pixel_def get_pixel_24_def off_screen_def pixel_addr_def Let_def)
next
  case high_colour
  have "load 2 m (pixel_addr 2 x y s) = load 2 (vmem s) (pixel_addr 2 x y s)" by (rule load_cong) (use assms(2) high_colour in simp)
  thus ?thesis using high_colour by (simp add: get_pixel_def get_pixel_16_def read16_def off_screen_def pixel_addr_def)
qed

text \<open>The bytes of different pixels are different.\<close>

lemma pixels_apart:
  assumes "fb_ok s" "x < vwidth s" "y < vheight s" "x' < vwidth s" "y' < vheight s" "(x', y') \<noteq> (x, y)" "i < unat (px_bytes s)"
  shows "\<not> unat (pixel_addr (px_bytes s) x' y' s + of_nat i - pixel_addr (px_bytes s) x y s) < unat (px_bytes s)"
proof -
  let ?k = "unat (px_bytes s)" and ?p = "unat (vpitch s)"
  define o1 where "o1 = unat y * ?p + unat x * ?k"
  define o2 where "o2 = unat y' * ?p + unat x' * ?k"
  note p = pixel_offset [OF assms(1-3)] pixel_offset [OF assms(1,4,5)]
  have small: "o1 + ?k < 2 ^ 64" "o2 + ?k < 2 ^ 64" using p(2,4) fb_ok_sizes(1) [OF assms(1)] by (simp_all add: o1_def o2_def)
  have row: "unat a * ?k + ?k \<le> ?p" if "a < vwidth s" for a
    using assms(1) that mult_le_mono1 [of "Suc (unat a)" "unat (vwidth s)" ?k] unfolding fb_ok_def word_less_nat_alt mult_Suc by linarith
  have apart: "o2 + ?k \<le> o1 \<or> o1 + ?k \<le> o2"
  proof (cases "y' = y")
    case True
    hence "unat x' < unat x \<or> unat x < unat x'" using assms(6) by (metis linorder_cases word_less_nat_alt)
    thus ?thesis using True mult_le_mono1 [of "Suc (unat x')" "unat x" ?k] mult_le_mono1 [of "Suc (unat x)" "unat x'" ?k]
      by (auto simp: o1_def o2_def)
  next
    case False
    hence "unat y' < unat y \<or> unat y < unat y'" by (metis linorder_cases word_less_nat_alt)
    thus ?thesis using row [OF assms(2)] row [OF assms(4)] mult_le_mono1 [of "Suc (unat y')" "unat y" ?p]
      mult_le_mono1 [of "Suc (unat y)" "unat y'" ?p] unfolding o1_def o2_def mult_Suc by linarith
  qed
  have u: "unat (of_nat (o2 + i) :: u64) = o2 + i" "unat (of_nat o1 :: u64) = o1"
    using small assms(7) by (intro unat_of_nat_u64; linarith)+
  have eq: "pixel_addr (px_bytes s) x' y' s + of_nat i - pixel_addr (px_bytes s) x y s = of_nat (o2 + i) - of_nat o1"
    unfolding p(1,3) o1_def [symmetric] o2_def [symmetric] by simp
  show ?thesis unfolding eq unat_sub_wrap u using apart small assms(7) by (auto split: if_splits)
qed

text \<open>
  a pixel that is put on the screen is read back, as far as the depth of the screen keeps its colour,
  and no other pixel changes.
\<close>

theorem pixel_roundtrip:
  assumes "fb_ok s" "backbuf s \<noteq> 0" "x < vwidth s" "y < vheight s"
  shows "\<exists>t. put_pixel x y c s = Some t \<and> get_pixel x y t = Some (shown (vbpp s) c) \<and>
    (\<forall>x' y'. x' < vwidth s \<and> y' < vheight s \<and> (x', y') \<noteq> (x, y) \<longrightarrow> get_pixel x' y' t = get_pixel x' y' s)"
proof -
  obtain t where t: "put_pixel_unchecked x y c s = Some t" "t = s\<lparr>vmem := vmem t\<rparr>"
    "\<forall>a. \<not> unat (a - pixel_addr (px_bytes s) x y s) < unat (px_bytes s) \<longrightarrow> vmem t a = vmem s a"
    using put_pixel_bytes [OF assms(1)] by blast
  have "get_pixel x' y' t = get_pixel x' y' s" if "x' < vwidth s" "y' < vheight s" "(x', y') \<noteq> (x, y)" for x' y'
    using get_pixel_cong [OF assms(1), of "vmem t" x' y'] pixels_apart [OF assms(1,3,4) that] t(2,3) by metis
  thus ?thesis using t(1) put_get_same [OF assms t(1)] on_screen_pixel [OF assms] by (simp add: put_pixel_def)
qed

text \<open>A screen of two characters in each direction.\<close>

definition demo_screen :: framebuf where
  "demo_screen = init_backbuffer 0x200000 (fb_init 0x100000 16 32 64 32 \<lparr>vmem = \<lambda>_. 0, frontbuf = 0, backbuf = 0, buf_size = 0,
     px_bytes = 0, vwidth = 0, vheight = 0, vpitch = 0, vbpp = 0, vswapping = False\<rparr>)"

lemma demo_screen_fields:
  "vwidth demo_screen = 16" "vheight demo_screen = 32" "vbpp demo_screen = 32" "backbuf demo_screen = 0x200000"
  "frontbuf demo_screen = 0x100000" "buf_size demo_screen = 2048" "fb_ok demo_screen"
  by (simp_all add: demo_screen_def init_backbuffer_def fb_init_def fb_ok_def)

theorem console_memory_safe_witness:
  "\<exists>t. for_each apply_op (fb (fold con_event [Byte 72, Byte 27, Byte 91, Byte 74, Tick]
      (console_init 16 32 (Some sample_font) (console_start True (\<lambda>_. 0))))) demo_screen = Some t \<and> vmem t 0x300000 = vmem demo_screen 0x300000"
  using console_memory_safe [of sample_font demo_screen "[Byte 72, Byte 27, Byte 91, Byte 74, Tick]" "0x300000" True "\<lambda>_. 0"]
  by (simp add: demo_screen_fields axis_def sample_font_def)

theorem pixel_roundtrip_witness:
  "\<exists>t. put_pixel 3 5 0xff123456 demo_screen = Some t \<and> get_pixel 3 5 t = Some 0xff123456"
  using pixel_roundtrip [of demo_screen 3 5 "0xff123456"] by (auto simp: demo_screen_fields shown_def)

end
