(* ===== verification/Ring_Interface.thy ===== *)
theory Ring_Interface
  imports Main
begin

text \<open>
  Buffers that forget their oldest elements when they are full: the bytes of the mouse and the log of the
  kernel. The law says what one more element does; what is left after a sequence of elements follows.
  \<open>room\<close> is the number of elements that can be put before a counter wraps around.
  The second part has the arithmetic of a ring of \<open>N\<close> places between two indices.
\<close>

definition lastn :: "nat \<Rightarrow> 'a list \<Rightarrow> 'a list" where
  "lastn n xs = drop (length xs - n) xs"

lemma lastn_append: "lastn n (lastn n xs @ ys) = lastn n (xs @ ys)"
  by (cases "length xs \<le> n") (auto simp: lastn_def add.commute)

lemma lastn_short: "length xs \<le> n \<Longrightarrow> lastn n xs = xs"
  by (simp add: lastn_def)

lemma length_lastn: "length (lastn n xs) = min n (length xs)"
  by (simp add: lastn_def)

locale lossy_buffer =
  fixes inv :: "'s \<Rightarrow> bool"
    and contents :: "'s \<Rightarrow> 'a list"
    and put :: "'a \<Rightarrow> 's \<Rightarrow> 's"
    and room :: "'s \<Rightarrow> nat"
    and cap :: nat
  assumes put_inv: "inv s \<Longrightarrow> inv (put x s)"
    and put_room: "inv s \<Longrightarrow> room s - 1 \<le> room (put x s)"
    and put_contents: "inv s \<Longrightarrow> 0 < room s \<Longrightarrow> contents (put x s) = lastn cap (contents s @ [x])"
    and contents_cap: "inv s \<Longrightarrow> length (contents s) \<le> cap"
begin

lemma puts_inv: "inv s \<Longrightarrow> inv (fold put xs s)"
  by (induction xs arbitrary: s) (simp_all add: put_inv)

lemma puts_contents:
  assumes "inv s" "length xs \<le> room s"
  shows "contents (fold put xs s) = lastn cap (contents s @ xs)"
  using assms
proof (induction xs arbitrary: s)
  case Nil thus ?case by (simp add: lastn_short contents_cap)
next
  case (Cons x xs)
  have "length xs \<le> room (put x s)" using put_room [OF Cons.prems(1), of x] Cons.prems(2) by simp
  hence "contents (fold put (x # xs) s) = lastn cap (lastn cap (contents s @ [x]) @ xs)"
    using Cons.IH [OF put_inv [OF Cons.prems(1)]] put_contents [OF Cons.prems(1)] Cons.prems(2) by simp
  thus ?case by (simp add: lastn_append)
qed

lemma nothing_lost:
  "inv s \<Longrightarrow> length xs \<le> room s \<Longrightarrow> length (contents s) + length xs \<le> cap \<Longrightarrow> contents (fold put xs s) = contents s @ xs"
  by (simp add: puts_contents lastn_short)

end

section \<open>Rings\<close>

definition ring_used :: "nat \<Rightarrow> nat \<Rightarrow> nat \<Rightarrow> nat" where
  "ring_used N h t = (if t \<le> h then h - t else h + N - t)"

definition ring_list :: "nat \<Rightarrow> 'a list \<Rightarrow> nat \<Rightarrow> nat \<Rightarrow> 'a list" where
  "ring_list N r t n = map (\<lambda>i. r ! ((t + i) mod N)) [0..<n]"

lemma length_ring_list [simp]: "length (ring_list N r t n) = n"
  by (simp add: ring_list_def)

lemma ring_index:
  assumes "t < N" "i < (N :: nat)"
  shows "(t + i) mod N = (if t + i < N then t + i else t + i - N)"
  using assms by (auto simp: mod_if)

lemma ring_list_put:
  assumes "length r = N" "h < N" "t < N"
  shows "ring_list N (r[h := x]) t (Suc (ring_used N h t)) = ring_list N r t (ring_used N h t) @ [x]"
proof -
  let ?n = "ring_used N h t"
  have n: "?n < N" using assms by (auto simp: ring_used_def)
  have at: "(t + ?n) mod N = h" using ring_index [OF assms(3) n] assms(2,3) by (auto simp: ring_used_def split: if_splits)
  have "h \<noteq> (t + i) mod N" if "i < ?n" for i
    using that n ring_index [OF assms(3), of i] assms(2,3) by (auto simp: ring_used_def split: if_splits)
  hence "ring_list N (r[h := x]) t ?n = ring_list N r t ?n" by (simp add: ring_list_def)
  moreover have "ring_list N (r[h := x]) t (Suc ?n) = ring_list N (r[h := x]) t ?n @ [x]"
    using at assms(1,2) by (simp add: ring_list_def)
  ultimately show ?thesis by simp
qed

lemma ring_list_overwrite:
  assumes "length r = N" "t < N"
  shows "ring_list N (r[t := x]) ((t + 1) mod N) N = List.tl (ring_list N r t N) @ [x]"
proof -
  obtain n where n: "N = Suc n" using assms(2) by (cases N) auto
  have ne: "t \<noteq> (t + 1 + i) mod N" if "i < n" for i
    using that assms(2) ring_index [of t N "1 + i"] by (auto simp: n add.assoc split: if_splits)
  have "t + 1 + n = t + N" by (simp add: n)
  hence wrap: "(t + 1 + n) mod N = t" using assms(2) by (simp only: mod_add_self2 mod_less)
  have "ring_list N (r[t := x]) ((t + 1) mod N) N = map (\<lambda>i. (r[t := x]) ! ((t + 1 + i) mod N)) [0..<n] @ [(r[t := x]) ! ((t + 1 + n) mod N)]"
    by (simp add: ring_list_def n mod_add_left_eq del: One_nat_def)
  also have "\<dots> = map (\<lambda>i. r ! ((t + 1 + i) mod N)) [0..<n] @ [x]" using ne wrap assms by simp
  also have "map (\<lambda>i. r ! ((t + 1 + i) mod N)) [0..<n] = List.tl (ring_list N r t N)"
    by (simp add: ring_list_def n upt_conv_Cons map_Suc_upt [symmetric] comp_def del: upt_Suc)
  finally show ?thesis .
qed

lemma ring_list_Cons:
  assumes "t < N"
  shows "ring_list N r t (Suc n) = r ! t # ring_list N r ((t + 1) mod N) n"
  using assms by (simp add: ring_list_def upt_conv_Cons map_Suc_upt [symmetric] comp_def mod_add_left_eq del: upt_Suc)

lemma ring_used_next:
  assumes "h < N" "t < N"
  shows "ring_used N ((h + 1) mod N) t = (if (h + 1) mod N = t then 0 else Suc (ring_used N h t))"
    "(h + 1) mod N = t \<longleftrightarrow> Suc (ring_used N h t) = N"
    "t \<noteq> h \<Longrightarrow> ring_used N h ((t + 1) mod N) = ring_used N h t - 1"
    "ring_used N h t = 0 \<longleftrightarrow> t = h"
  using assms by (auto simp: ring_used_def mod_if)

end
