(* ===== verification/Mouse.thy ===== *)
theory Mouse
  imports LTOS_Prelude Ring_Interface
begin

unbundle bit_operations_syntax

text \<open>
  The mouse driver, \<open>src/kernel/drivers/mouse.cpp\<close>: packets of three bytes move the pointer, and every
  byte also goes into a ring that \<open>/dev/psaux\<close> reads. The bytes of the controller are arguments; what is
  sent to it and read from it in \<open>init\<close> is recorded as a list of accesses. The size of the screen is an
  argument of the handler.
\<close>

section \<open>State\<close>

record mouse =
  mouse_x :: u32
  mouse_y :: u32
  btn_left :: bool
  btn_right :: bool
  btn_middle :: bool
  mouse_cycle :: u8
  mouse_bytes :: "u8 list"
  psaux_ring :: "u8 list"
  ring_head :: nat
  ring_tail :: nat

definition RING_SIZE :: nat where "RING_SIZE = 256"

definition mouse_start :: mouse where
  "mouse_start = \<lparr>mouse_x = 512, mouse_y = 384, btn_left = False, btn_right = False, btn_middle = False,
     mouse_cycle = 0, mouse_bytes = replicate 3 0, psaux_ring = replicate RING_SIZE 0, ring_head = 0, ring_tail = 0\<rparr>"

section \<open>The controller\<close>

datatype ps2_io = Outb u16 u8 | Inb u16

text \<open>
  The accesses of a wait, given the values that the status port delivers: it ends with the first value
  that satisfies the condition, after 100000 reads at the latest.
\<close>

fun wait_status :: "(u8 \<Rightarrow> bool) \<Rightarrow> nat \<Rightarrow> u8 list \<Rightarrow> ps2_io list \<times> u8 list" where
  "wait_status P 0 vs = ([], vs)"
| "wait_status P (Suc n) [] = ([], [])"
| "wait_status P (Suc n) (v # vs) =
     (if P v then ([Inb 0x64], vs) else (let (io, vs) = wait_status P n vs in (Inb 0x64 # io, vs)))"

definition wait_input_empty :: "u8 list \<Rightarrow> ps2_io list \<times> u8 list" where
  "wait_input_empty vs = wait_status (\<lambda>v. v AND 2 = 0) 100000 vs"

definition wait_output_full :: "u8 list \<Rightarrow> ps2_io list \<times> u8 list" where
  "wait_output_full vs = wait_status (\<lambda>v. v AND 1 = 1) 100000 vs"

definition mouse_wait_aux :: "u8 list \<Rightarrow> ps2_io list \<times> u8 list" where
  "mouse_wait_aux vs = wait_status (\<lambda>v. v AND 0x21 = 0x21) 100000 vs"

definition mouse_write :: "u8 \<Rightarrow> u8 list \<Rightarrow> ps2_io list \<times> u8 list" where
  "mouse_write b vs =
     (let (io1, vs) = wait_input_empty vs; (io2, vs) = wait_input_empty vs
      in (io1 @ Outb 0x64 0xD4 # io2 @ [Outb 0x60 b], vs))"

text \<open>A read takes one more status and, if a byte of the mouse is there, the byte.\<close>

definition mouse_read :: "u8 list \<Rightarrow> u8 \<times> ps2_io list \<times> u8 list" where
  "mouse_read vs =
     (let (io, vs) = mouse_wait_aux vs
      in case vs of
           [] \<Rightarrow> (0, io, [])
         | v # vs \<Rightarrow>
             if v AND 0x21 = 0x21 then
               (case vs of [] \<Rightarrow> (0, io @ [Inb 0x64], []) | b # vs \<Rightarrow> (b, io @ [Inb 0x64, Inb 0x60], vs))
             else (0, io @ [Inb 0x64], vs))"

text \<open>The command byte of the controller: both interrupts on, both devices enabled.\<close>

definition command_byte :: "u8 \<Rightarrow> u8" where
  "command_byte status = (status OR (0x01 OR 0x02)) AND NOT (0x10 OR 0x20)"

definition mouse_init :: "u32 \<Rightarrow> u32 \<Rightarrow> u8 list \<Rightarrow> mouse \<Rightarrow> mouse \<times> ps2_io list" where
  "mouse_init w h vs s =
     (let s = (if 0 < w \<and> 0 < h then s\<lparr>mouse_x := w div 2, mouse_y := h div 2\<rparr> else s);
          (io1, vs) = wait_input_empty vs;
          (io2, vs) = wait_input_empty vs;
          (io3, vs) = wait_output_full vs;
          (status, vs) = (case vs of [] \<Rightarrow> (0, []) | v # vs \<Rightarrow> (v, vs));
          (io4, vs) = wait_input_empty vs;
          (io5, vs) = wait_input_empty vs;
          (io6, vs) = mouse_write 0xF6 vs;
          (_, io7, vs) = mouse_read vs;
          (io8, vs) = mouse_write 0xF4 vs;
          (_, io9, vs) = mouse_read vs
      in (s, io1 @ Outb 0x64 0xA8 # io2 @ Outb 0x64 0x20 # io3 @ Inb 0x60 # io4 @ Outb 0x64 0x60 # io5 @
            Outb 0x60 (command_byte status) # io6 @ io7 @ io8 @ io9))"

section \<open>Packets\<close>

definition ring_put :: "u8 \<Rightarrow> mouse \<Rightarrow> mouse" where
  "ring_put b s =
     (let s = s\<lparr>psaux_ring := (psaux_ring s)[ring_head s := b], ring_head := (ring_head s + 1) mod RING_SIZE\<rparr>
      in if ring_head s = ring_tail s then s\<lparr>ring_tail := (ring_tail s + 1) mod RING_SIZE\<rparr> else s)"

text \<open>A movement of nine bits: the byte, and the sign from the first byte of the packet.\<close>

definition rel :: "u8 \<Rightarrow> u8 \<Rightarrow> u8 \<Rightarrow> u32" where
  "rel sign_bit st b = ucast b - (if st AND sign_bit \<noteq> 0 then 256 else 0)"

definition clamp :: "u32 \<Rightarrow> u32 \<Rightarrow> u32" where
  "clamp mx v =
     (let v = (if sint v < 0 then 0 else v) in if mx < v then mx else v)"

definition apply_packet :: "u32 \<Rightarrow> u32 \<Rightarrow> mouse \<Rightarrow> mouse" where
  "apply_packet w h s =
     (let st = mouse_bytes s ! 0;
          s = s\<lparr>btn_left := (st AND 0x01 \<noteq> 0), btn_right := (st AND 0x02 \<noteq> 0), btn_middle := (st AND 0x04 \<noteq> 0)\<rparr>;
          rel_x = rel 0x10 st (mouse_bytes s ! 1);
          rel_y = rel 0x20 st (mouse_bytes s ! 2);
          s = (if st AND 0xC0 \<noteq> 0 then s else s\<lparr>mouse_x := mouse_x s + rel_x, mouse_y := mouse_y s - rel_y\<rparr>);
          max_x = (if 0 < w then w - 1 else 1023);
          max_y = (if 0 < h then h - 1 else 767)
      in s\<lparr>mouse_x := clamp max_x (mouse_x s), mouse_y := clamp max_y (mouse_y s)\<rparr>)"

definition packet_byte :: "u32 \<Rightarrow> u32 \<Rightarrow> u8 \<Rightarrow> mouse \<Rightarrow> mouse" where
  "packet_byte w h b s =
     (if mouse_cycle s = 0 then
        (if b AND 0x08 = 0x08 then s\<lparr>mouse_bytes := (mouse_bytes s)[0 := b], mouse_cycle := mouse_cycle s + 1\<rparr> else s)
      else if mouse_cycle s = 1 then s\<lparr>mouse_bytes := (mouse_bytes s)[1 := b], mouse_cycle := mouse_cycle s + 1\<rparr>
      else if mouse_cycle s = 2 then apply_packet w h (s\<lparr>mouse_bytes := (mouse_bytes s)[2 := b], mouse_cycle := 0\<rparr>)
      else s)"

definition mouse_byte :: "u32 \<Rightarrow> u32 \<Rightarrow> u8 \<Rightarrow> mouse \<Rightarrow> mouse" where
  "mouse_byte w h b s = packet_byte w h b (ring_put b s)"

text \<open>The handler, with the pairs of a status and the byte behind it that the controller delivers.\<close>

fun irq_handler :: "u32 \<Rightarrow> u32 \<Rightarrow> (u8 \<times> u8) list \<Rightarrow> mouse \<Rightarrow> mouse" where
  "irq_handler w h [] s = s"
| "irq_handler w h ((status, b) # rest) s =
     (if status AND 0x01 = 0 \<or> status AND 0x20 = 0 then s else irq_handler w h rest (mouse_byte w h b s))"

section \<open>The device\<close>

definition has_data :: "mouse \<Rightarrow> bool" where "has_data s \<longleftrightarrow> ring_tail s \<noteq> ring_head s"

fun psaux_read :: "nat \<Rightarrow> mouse \<Rightarrow> u8 list \<times> mouse" where
  "psaux_read 0 s = ([], s)"
| "psaux_read (Suc n) s =
     (if ring_tail s \<noteq> ring_head s then
        (let (bs, t) = psaux_read n (s\<lparr>ring_tail := (ring_tail s + 1) mod RING_SIZE\<rparr>)
         in (psaux_ring s ! ring_tail s # bs, t))
      else ([], s))"

definition psaux_write :: "u8 list \<Rightarrow> u64" where "psaux_write bs = of_nat (length bs)"

record mouse_state =
  ms_x :: u32
  ms_y :: u32
  ms_left :: bool
  ms_right :: bool
  ms_middle :: bool

definition mouse_get_state :: "mouse \<Rightarrow> mouse_state" where
  "mouse_get_state s = \<lparr>ms_x = mouse_x s, ms_y = mouse_y s, ms_left = btn_left s, ms_right = btn_right s, ms_middle = btn_middle s\<rparr>"

definition psaux_ioctl :: "u64 \<Rightarrow> bool \<Rightarrow> mouse \<Rightarrow> int \<times> mouse_state option" where
  "psaux_ioctl req has_arg s =
     (if req = 0x8001 \<and> has_arg then (0, Some (mouse_get_state s)) else (-1, None))"

section \<open>The ring of bytes\<close>

definition ring_inv :: "mouse \<Rightarrow> bool" where
  "ring_inv s \<longleftrightarrow> length (psaux_ring s) = RING_SIZE \<and> ring_head s < RING_SIZE \<and> ring_tail s < RING_SIZE"

definition unread :: "mouse \<Rightarrow> u8 list" where
  "unread s = ring_list RING_SIZE (psaux_ring s) (ring_tail s) (ring_used RING_SIZE (ring_head s) (ring_tail s))"

lemma ring_put_unread:
  assumes "ring_inv s"
  shows "unread (ring_put b s) = lastn 255 (unread s @ [b])"
proof -
  let ?N = RING_SIZE and ?h = "ring_head s" and ?t = "ring_tail s" and ?r = "(psaux_ring s)[ring_head s := b]"
  let ?n = "ring_used ?N ?h ?t"
  have i: "length (psaux_ring s) = ?N" "?h < ?N" "?t < ?N" using assms by (simp_all add: ring_inv_def)
  note put = ring_list_put [OF i, of b] and used = ring_used_next [OF i(2,3)]
  have le: "?n < 256" using i by (auto simp: ring_used_def RING_SIZE_def)
  show ?thesis
  proof (cases "(?h + 1) mod ?N = ?t")
    case True
    hence n: "Suc ?n = ?N" using used(2) by simp
    have t: "(?t + 1) mod ?N < ?N" by (simp add: RING_SIZE_def)
    have h': "(?h + 1) mod ?N < ?N" by (simp add: RING_SIZE_def)
    have ne: "(?t + 1) mod ?N \<noteq> ?t" using i(3) ring_index [OF i(3), of 1] by (auto simp: RING_SIZE_def)
    have "ring_used ?N ?t ((?t + 1) mod ?N) = ?n"
      using ring_index [OF i(3), of 1] n i(3) by (auto simp: ring_used_def RING_SIZE_def)
    hence "unread (ring_put b s) = ring_list ?N ?r ((?t + 1) mod ?N) ?n"
      using True by (simp add: unread_def ring_put_def Let_def)
    also have "\<dots> = tl (ring_list ?N ?r ?t (Suc ?n))" by (simp add: ring_list_Cons [OF i(3)])
    also have "\<dots> = tl (unread s @ [b])" by (simp only: put unread_def)
    also have "\<dots> = lastn 255 (unread s @ [b])"
    proof -
      have "length (unread s @ [b]) - 255 = Suc 0" using n by (simp add: unread_def RING_SIZE_def)
      thus ?thesis by (simp only: lastn_def drop_Suc drop0)
    qed
    finally show ?thesis .
  next
    case False
    hence "unread (ring_put b s) = unread s @ [b]"
      using used(1) put by (simp add: unread_def ring_put_def Let_def)
    moreover have "Suc ?n \<noteq> 256" using False used(2) by (simp add: RING_SIZE_def)
    ultimately show ?thesis using le by (simp add: lastn_short unread_def)
  qed
qed

lemma ring_put_inv: "ring_inv s \<Longrightarrow> ring_inv (ring_put b s)"
  by (simp add: ring_inv_def ring_put_def Let_def RING_SIZE_def)

interpretation psaux: lossy_buffer ring_inv unread ring_put "\<lambda>_. N" 255 for N
proof
  fix s assume "ring_inv s"
  thus "length (unread s) \<le> 255" by (auto simp: unread_def ring_inv_def ring_used_def RING_SIZE_def)
qed (simp_all add: ring_put_inv ring_put_unread)

lemma psaux_read_unread:
  assumes "ring_inv s" "psaux_read n s = (bs, t)"
  shows "bs = take n (unread s) \<and> unread t = drop n (unread s) \<and> ring_inv t"
  using assms
proof (induction n arbitrary: s bs t)
  case (Suc n)
  let ?h = "ring_head s" and ?t = "ring_tail s"
  have i: "?h < RING_SIZE" "?t < RING_SIZE" using Suc.prems(1) by (simp_all add: ring_inv_def)
  show ?case
  proof (cases "?t = ?h")
    case True
    thus ?thesis using Suc.prems ring_used_next(4) [OF i] by (simp add: unread_def ring_list_def)
  next
    case False
    let ?s = "s\<lparr>ring_tail := (?t + 1) mod RING_SIZE\<rparr>"
    obtain k where k: "ring_used RING_SIZE ?h ?t = Suc k" using False ring_used_next(4) [OF i] by (cases "ring_used RING_SIZE ?h ?t") auto
    have u: "unread s = psaux_ring s ! ?t # unread ?s"
      using k ring_used_next(3) [OF i False] ring_list_Cons [OF i(2), of "psaux_ring s" k] by (simp add: unread_def)
    have inv: "ring_inv ?s" using Suc.prems(1) by (simp add: ring_inv_def RING_SIZE_def)
    obtain cs where c: "psaux_read n ?s = (cs, t)" "bs = psaux_ring s ! ?t # cs"
      using Suc.prems(2) False by (auto simp: Let_def split: prod.splits)
    show ?thesis using Suc.IH [OF inv c(1)] c(2) u by simp
  qed
qed simp

section \<open>The pointer\<close>

text \<open>The movement in a packet, and what it does to one coordinate of the pointer.\<close>

definition delta :: "u8 \<Rightarrow> u8 \<Rightarrow> u8 \<Rightarrow> int" where
  "delta sign_bit st b = uint b - (if st AND sign_bit \<noteq> 0 then 256 else 0)"

definition slide :: "int \<Rightarrow> int \<Rightarrow> int" where
  "slide len z = max 0 (min (len - 1) z)"

lemma rel_delta: "rel k st b = word_of_int (delta k st b)" "\<bar>delta k st b\<bar> \<le> 256"
proof -
  show "rel k st b = word_of_int (delta k st b)" by (simp add: rel_def delta_def)
  have "uint b < 256" "0 \<le> uint b" using uint_lt2p [of b] by simp_all
  thus "\<bar>delta k st b\<bar> \<le> 256" unfolding delta_def by (simp split: if_split)
qed

lemma clamp_slide:
  assumes "- (2 ^ 31) \<le> z" "z < 2 ^ 31" "0 < w"
  shows "uint (clamp (w - 1) (word_of_int z)) = slide (uint w) z"
proof -
  have s: "sint (word_of_int z :: u32) = z" using assms(1,2) by (simp add: signed_of_int signed_take_bit_int_eq_self)
  have w: "uint (w - 1) = uint w - 1"
  proof -
    have one: "1 \<le> w" "1 \<le> unat w" using assms(3) by (simp_all add: word_le_nat_alt word_less_nat_alt)
    show ?thesis unfolding uint_nat unat_sub [OF one(1)] using one(2) by (simp add: of_nat_diff)
  qed
  show ?thesis
  proof (cases "z < 0")
    case True thus ?thesis using s w by (simp add: clamp_def slide_def)
  next
    case False
    hence "uint (word_of_int z :: u32) = z" using assms(2) by (simp add: uint_word_of_int take_bit_int_eq_self)
    moreover have "0 \<le> uint w - 1" using w uint_ge_0 [of "w - 1"] by linarith
    ultimately show ?thesis using False s w by (auto simp: clamp_def slide_def word_less_def)
  qed
qed

text \<open>
  Positions on a screen of \<open>w\<close> by \<open>h\<close> pixels, and the invariant: the pointer is on the screen, and a packet is
  in one of its three phases.
\<close>

definition mouse_ok :: "u32 \<Rightarrow> u32 \<Rightarrow> mouse \<Rightarrow> bool" where
  "mouse_ok w h s \<longleftrightarrow> mouse_x s < w \<and> mouse_y s < h \<and> length (mouse_bytes s) = 3 \<and> mouse_cycle s \<le> 2 \<and> ring_inv s"

definition screen_size :: "u32 \<Rightarrow> u32 \<Rightarrow> bool" where
  "screen_size w h \<longleftrightarrow> 0 < w \<and> 0 < h \<and> uint w < 2 ^ 30 \<and> uint h < 2 ^ 30"

fun pointer_move :: "u32 \<Rightarrow> u32 \<Rightarrow> u8 \<times> u8 \<times> u8 \<Rightarrow> int \<times> int \<Rightarrow> int \<times> int" where
  "pointer_move w h (st, dx, dy) (x, y) =
     (if st AND 0xC0 \<noteq> 0 then (x, y) else (slide (uint w) (x + delta 0x10 st dx), slide (uint h) (y - delta 0x20 st dy)))"

lemma slide_inside: "0 \<le> x \<Longrightarrow> x < n \<Longrightarrow> slide n x = x"
  by (simp add: slide_def)

lemma slide_bounds: "0 < n \<Longrightarrow> 0 \<le> slide n z \<and> slide n z < n"
  by (simp add: slide_def)

lemma apply_packet_move:
  assumes "screen_size w h" "mouse_ok w h s"
  shows "(uint (mouse_x (apply_packet w h s)), uint (mouse_y (apply_packet w h s))) =
    pointer_move w h (mouse_bytes s ! 0, mouse_bytes s ! 1, mouse_bytes s ! 2) (uint (mouse_x s), uint (mouse_y s))"
proof -
  let ?st = "mouse_bytes s ! 0"
  define dx where "dx = delta 0x10 ?st (mouse_bytes s ! 1)"
  define dy where "dy = delta 0x20 ?st (mouse_bytes s ! 2)"
  have x: "0 \<le> uint (mouse_x s)" "uint (mouse_x s) < uint w" "0 \<le> uint (mouse_y s)" "uint (mouse_y s) < uint h"
    using assms(2) by (simp_all add: mouse_ok_def word_less_def)
  have sz: "0 < w" "0 < h" "uint w < 2 ^ 30" "uint h < 2 ^ 30" using assms(1) by (simp_all add: screen_size_def)
  have d: "\<bar>dx\<bar> \<le> 256" "\<bar>dy\<bar> \<le> 256" unfolding dx_def dy_def by (rule rel_delta(2))+
  have here: "uint (clamp (w - 1) (mouse_x s)) = uint (mouse_x s)" "uint (clamp (h - 1) (mouse_y s)) = uint (mouse_y s)"
    using clamp_slide [of "uint (mouse_x s)" w] clamp_slide [of "uint (mouse_y s)" h] x sz by (simp_all add: slide_inside)
  have d': "- 256 \<le> dx" "dx \<le> 256" "- 256 \<le> dy" "dy \<le> 256" using d by (simp_all add: abs_le_iff)
  have z: "- (2 ^ 31) \<le> uint (mouse_x s) + dx" "- (2 ^ 31) \<le> uint (mouse_y s) - dy"
    "uint (mouse_x s) + dx < 2 ^ 31" "uint (mouse_y s) - dy < 2 ^ 31"
    using add_mono [OF x(1) d'(1)] diff_mono [OF x(3) d'(4)] x(2,4) sz(3,4) d' by simp_all
  have r: "rel 0x10 ?st (mouse_bytes s ! 1) = word_of_int dx" "rel 0x20 ?st (mouse_bytes s ! 2) = word_of_int dy"
    unfolding dx_def dy_def by (rule rel_delta(1))+
  have mv: "uint (clamp (w - 1) (mouse_x s + rel 0x10 ?st (mouse_bytes s ! 1))) = slide (uint w) (uint (mouse_x s) + dx)"
    "uint (clamp (h - 1) (mouse_y s - rel 0x20 ?st (mouse_bytes s ! 2))) = slide (uint h) (uint (mouse_y s) - dy)"
    using clamp_slide [of "uint (mouse_x s) + dx" w] clamp_slide [of "uint (mouse_y s) - dy" h] z sz(1,2) r by simp_all
  show ?thesis using here mv sz(1,2) by (simp add: apply_packet_def Let_def dx_def dy_def)
qed

lemma mouse_byte_ok:
  assumes "screen_size w h" "mouse_ok w h s"
  shows "mouse_ok w h (mouse_byte w h b s)"
proof -
  define t where "t = ring_put b s"
  have t: "mouse_ok w h t" "mouse_x t = mouse_x s"
    using assms(2) ring_put_inv by (simp_all add: t_def mouse_ok_def ring_put_def Let_def)
  define u where "u = t\<lparr>mouse_bytes := (mouse_bytes t)[2 := b], mouse_cycle := 0\<rparr>"
  have u: "mouse_ok w h u" using t(1) by (simp add: u_def mouse_ok_def ring_inv_def)
  have b: "0 < uint w" "0 < uint h" using assms(1) by (simp_all add: screen_size_def word_less_def)
  have xy: "uint (mouse_x u) < uint w" "uint (mouse_y u) < uint h" using u by (simp_all add: mouse_ok_def word_less_def)
  have "uint (mouse_x (apply_packet w h u)) < uint w \<and> uint (mouse_y (apply_packet w h u)) < uint h"
    using apply_packet_move [OF assms(1) u] xy slide_bounds [OF b(1)] slide_bounds [OF b(2)] by (auto split: if_splits)
  hence "mouse_ok w h (apply_packet w h u)"
    using u by (simp add: mouse_ok_def word_less_def apply_packet_def Let_def ring_inv_def)
  moreover have "mouse_cycle t = 0 \<Longrightarrow> mouse_cycle t + 1 \<le> 2" "mouse_cycle t = 1 \<Longrightarrow> mouse_cycle t + 1 \<le> 2" by simp_all
  ultimately show ?thesis using t(1)
    by (auto simp: mouse_byte_def packet_byte_def t_def [symmetric] u_def mouse_ok_def ring_inv_def)
qed

lemma mouse_bytes_ok: "screen_size w h \<Longrightarrow> mouse_ok w h s \<Longrightarrow> mouse_ok w h (fold (mouse_byte w h) bs s)"
  by (induction bs arbitrary: s) (simp_all add: mouse_byte_ok)

lemma irq_handler_prefix:
  "\<exists>bs. irq_handler w h ps s = fold (mouse_byte w h) bs s"
proof (induction ps arbitrary: s)
  case Nil show ?case by (rule exI [of _ "[]"]) simp
next
  case (Cons p ps)
  obtain st b where p: "p = (st, b)" by (cases p)
  obtain bs where "irq_handler w h ps (mouse_byte w h b s) = fold (mouse_byte w h) bs (mouse_byte w h b s)" using Cons.IH by blast
  hence "irq_handler w h (p # ps) s = fold (mouse_byte w h) (if st AND 0x01 = 0 \<or> st AND 0x20 = 0 then [] else b # bs) s" by (simp add: p)
  thus ?case by blast
qed

lemma irq_handler_bytes:
  "irq_handler w h (map (\<lambda>b. (0x21, b)) bs) s = fold (mouse_byte w h) bs s"
  by (induction bs arbitrary: s) simp_all

lemma mouse_byte_ring: "unread (mouse_byte w h b s) = unread (ring_put b s)" "ring_inv (mouse_byte w h b s) = ring_inv (ring_put b s)"
  by (simp_all add: mouse_byte_def packet_byte_def apply_packet_def Let_def unread_def ring_inv_def)

lemma mouse_bytes_unread:
  assumes "ring_inv s"
  shows "unread (fold (mouse_byte w h) bs s) = lastn 255 (unread s @ bs) \<and> ring_inv (fold (mouse_byte w h) bs s)"
  using assms
proof (induction bs rule: rev_induct)
  case Nil thus ?case using psaux.contents_cap by (simp add: lastn_short)
next
  case (snoc b bs)
  let ?t = "fold (mouse_byte w h) bs s"
  have t: "ring_inv ?t" "unread ?t = lastn 255 (unread s @ bs)" using snoc by simp_all
  thus ?case using psaux.put_contents [OF t(1), of 1 b] ring_put_inv [OF t(1), of b] lastn_append [of 255 "unread s @ bs" "[b]"]
    by (simp add: mouse_byte_ring)
qed

text \<open>A whole packet, from the first phase on.\<close>

lemma ring_put_fields [simp]:
  "mouse_cycle (ring_put b s) = mouse_cycle s" "mouse_bytes (ring_put b s) = mouse_bytes s"
  "mouse_x (ring_put b s) = mouse_x s" "mouse_y (ring_put b s) = mouse_y s"
  by (simp_all add: ring_put_def Let_def)

lemma phases:
  "mouse_cycle s = 0 \<Longrightarrow> b AND 0x08 = 0x08 \<Longrightarrow> mouse_byte w h b s = (ring_put b s)\<lparr>mouse_bytes := (mouse_bytes s)[0 := b], mouse_cycle := 1\<rparr>"
  "mouse_cycle s = 1 \<Longrightarrow> mouse_byte w h b s = (ring_put b s)\<lparr>mouse_bytes := (mouse_bytes s)[1 := b], mouse_cycle := 2\<rparr>"
  "mouse_cycle s = 2 \<Longrightarrow> mouse_byte w h b s = apply_packet w h ((ring_put b s)\<lparr>mouse_bytes := (mouse_bytes s)[2 := b], mouse_cycle := 0\<rparr>)"
  by (simp_all add: mouse_byte_def packet_byte_def)

lemma packet_moves:
  assumes "screen_size w h" "mouse_ok w h s" "mouse_cycle s = 0" "st AND 0x08 = 0x08"
    and t_def: "t = fold (mouse_byte w h) [st, dx, dy] s"
  shows "mouse_cycle t = 0" "(uint (mouse_x t), uint (mouse_y t)) = pointer_move w h (st, dx, dy) (uint (mouse_x s), uint (mouse_y s))"
    "(btn_left t, btn_right t, btn_middle t) = (st AND 1 \<noteq> 0, st AND 2 \<noteq> 0, st AND 4 \<noteq> 0)"
proof -
  define s1 where "s1 = mouse_byte w h st s"
  define s2 where "s2 = mouse_byte w h dx s1"
  define u where "u = (ring_put dy s2)\<lparr>mouse_bytes := (mouse_bytes s2)[2 := dy], mouse_cycle := 0\<rparr>"
  obtain a b c where len: "mouse_bytes s = [a, b, c]" using assms(2) by (auto simp: mouse_ok_def numeral_3_eq_3 length_Suc_conv)
  have 1: "mouse_cycle s1 = 1" "mouse_bytes s1 = [st, b, c]" "mouse_x s1 = mouse_x s" "mouse_y s1 = mouse_y s"
    using phases(1) [OF assms(3,4)] len by (simp_all add: s1_def)
  have 2: "mouse_cycle s2 = 2" "mouse_bytes s2 = [st, dx, c]" "mouse_x s2 = mouse_x s" "mouse_y s2 = mouse_y s"
    using phases(2) [OF 1(1)] 1(2-4) by (simp_all add: s2_def)
  have t: "t = apply_packet w h u" using phases(3) [OF 2(1)] by (simp add: t_def s1_def [symmetric] s2_def [symmetric] u_def)
  have "mouse_ok w h s2" using assms(1,2) by (simp add: s1_def s2_def mouse_byte_ok)
  hence u: "mouse_ok w h u" using ring_put_inv [of s2 dy] by (simp add: u_def mouse_ok_def ring_inv_def)
  have f: "mouse_bytes u = [st, dx, dy]" "mouse_x u = mouse_x s" "mouse_y u = mouse_y s" "mouse_cycle u = 0" using 2 by (simp_all add: u_def)
  show "mouse_cycle t = 0" "(btn_left t, btn_right t, btn_middle t) = (st AND 1 \<noteq> 0, st AND 2 \<noteq> 0, st AND 4 \<noteq> 0)"
    by (simp_all add: t apply_packet_def f Let_def)
  show "(uint (mouse_x t), uint (mouse_y t)) = pointer_move w h (st, dx, dy) (uint (mouse_x s), uint (mouse_y s))"
    using apply_packet_move [OF assms(1) u] by (simp add: t f)
qed

lemma packets_move:
  assumes "screen_size w h" "list_all (\<lambda>p. fst p AND 0x08 = 0x08) ps" "mouse_ok w h s" "mouse_cycle s = 0"
  shows "let t = fold (mouse_byte w h) (concat (map (\<lambda>(a, b, c). [a, b, c]) ps)) s
    in mouse_cycle t = 0 \<and> (uint (mouse_x t), uint (mouse_y t)) = fold (pointer_move w h) ps (uint (mouse_x s), uint (mouse_y s))"
  using assms(2-4)
proof (induction ps arbitrary: s)
  case (Cons p ps)
  obtain a b c where p: "p = (a, b, c)" by (cases p)
  let ?s = "fold (mouse_byte w h) [a, b, c] s"
  have "a AND 0x08 = 0x08" using Cons.prems(1) p by simp
  note m = packet_moves [OF assms(1) Cons.prems(2,3) this refl, of b c]
  have ok: "mouse_ok w h ?s" by (rule mouse_bytes_ok [OF assms(1) Cons.prems(2)])
  show ?case using Cons.IH [OF _ ok m(1)] Cons.prems(1) m(2) by (simp add: p Let_def)
qed simp

text \<open>
  C18: packets of three bytes that arrive at the interrupt handler move the pointer by the sum of their
  movements, each step limited to the screen and packets with an overflow left out, and what a process
  then reads from the device are the last 255 bytes that it had not read.
\<close>

theorem mouse_packets:
  assumes "screen_size w h" "mouse_ok w h s" "mouse_cycle s = 0" "list_all (\<lambda>p. fst p AND 0x08 = 0x08) ps"
    and "bytes = concat (map (\<lambda>(a, b, c). [a, b, c]) ps)" "t = irq_handler w h (map (\<lambda>b. (0x21, b)) bytes) s"
  shows "(uint (mouse_x t), uint (mouse_y t)) = fold (pointer_move w h) ps (uint (mouse_x s), uint (mouse_y s)) \<and>
    fst (psaux_read n t) = take n (lastn 255 (unread s @ bytes))"
proof -
  have t: "t = fold (mouse_byte w h) bytes s" using assms(6) by (simp add: irq_handler_bytes)
  have "ring_inv s" using assms(2) by (simp add: mouse_ok_def)
  hence "unread t = lastn 255 (unread s @ bytes)" "ring_inv t" using mouse_bytes_unread t by simp_all
  thus ?thesis using packets_move [OF assms(1,4,2,3)] psaux_read_unread [of t n] t assms(5)
    by (cases "psaux_read n t") (simp add: Let_def)
qed

text \<open>
  C19: whatever the controller delivers, in whatever phase of a packet, the pointer stays on the screen and
  the ring and the packet buffer stay well formed.
\<close>

theorem mouse_irq_safe:
  assumes "screen_size w h" "mouse_ok w h s"
  shows "mouse_ok w h (irq_handler w h ps s)"
proof -
  obtain bs where "irq_handler w h ps s = fold (mouse_byte w h) bs s" using irq_handler_prefix by blast
  thus ?thesis using mouse_bytes_ok [OF assms] by simp
qed

lemma mouse_start_ok: "mouse_ok 1024 768 mouse_start"
  by (simp add: mouse_ok_def mouse_start_def ring_inv_def RING_SIZE_def)

theorem mouse_packets_witness:
  "fold (pointer_move 1024 768) [(0x18, 0xF0, 5)] (512, 384) = (496, 379) \<and>
    (let t = irq_handler 1024 768 (map (\<lambda>b. (0x21, b)) [0x18, 0xF0, 5]) mouse_start
     in (uint (mouse_x t), uint (mouse_y t)) = (496, 379) \<and> fst (psaux_read 2 t) = [0x18, 0xF0])"
proof -
  have p: "fold (pointer_move 1024 768) [(0x18, 0xF0, 5)] (512, 384) = (496, 379)" by code_simp
  have u: "take 2 (lastn 255 (unread mouse_start @ [0x18, 0xF0, 5])) = [0x18, 0xF0]"
    by (simp add: unread_def mouse_start_def ring_used_def ring_list_def lastn_def)
  show ?thesis
    using mouse_packets [OF _ mouse_start_ok _ _ refl refl, of "[(0x18, 0xF0, 5)]" 2] p u by (simp add: screen_size_def mouse_start_def Let_def)
qed

theorem mouse_irq_safe_witness: "mouse_ok 1024 768 (irq_handler 1024 768 [(0x21, 1), (0x21, 255), (0x00, 3)] mouse_start)"
  by (rule mouse_irq_safe [OF _ mouse_start_ok]) (simp add: screen_size_def)

end
