(* ===== verification/Klog.thy ===== *)
theory Klog
  imports Kprintf Ring_Interface
begin

unbundle bit_operations_syntax

text \<open>
  The timer, \<open>src/kernel/drivers/timer.cpp\<close>, and the log of the kernel, \<open>src/kernel/logger.cpp\<close>: a counter of
  interrupts, and a ring of 32768 bytes that keeps the end of what has been logged. A message is put
  together in three buffers on the stack, whose addresses are arguments, by the formatter of \<open>Kprintf\<close>;
  \<open>None\<close> is a failure of the formatter.
\<close>

section \<open>The timer\<close>

record timer =
  counter :: u64
  frequency :: u32

definition timer_start :: timer where "timer_start = \<lparr>counter = 0, frequency = 100\<rparr>"

text \<open>The bytes that \<open>init\<close> sends to the ports of the timer; a frequency of 0 is a fault.\<close>

definition timer_init :: "u32 \<Rightarrow> (u16 \<times> u8) list option" where
  "timer_init freq =
     (if freq = 0 then None
      else let divisor = 1193182 div freq
           in Some [(0x43, 0x36), (0x40, ucast (divisor AND 0xff)), (0x40, ucast (drop_bit 8 divisor AND 0xff))])"

definition get_uptime_ms :: "timer \<Rightarrow> u64" where "get_uptime_ms t = counter t * 1000 div ucast (frequency t)"
definition get_uptime_sec :: "timer \<Rightarrow> u64" where "get_uptime_sec t = counter t div ucast (frequency t)"
definition get_uptime_min :: "timer \<Rightarrow> u64" where "get_uptime_min t = counter t div ucast (frequency t) div 60"
definition get_uptime_h :: "timer \<Rightarrow> u64" where "get_uptime_h t = counter t div ucast (frequency t) div 60 div 60"
definition get_uptime_d :: "timer \<Rightarrow> u64" where "get_uptime_d t = counter t div ucast (frequency t) div 60 div 60 div 24"

definition tick :: "timer \<Rightarrow> timer" where "tick t = t\<lparr>counter := counter t + 1\<rparr>"

definition wait_ticks :: "u64 \<Rightarrow> timer \<Rightarrow> u64" where
  "wait_ticks ms t = ms * ucast (frequency t) div 1000"

text \<open>\<open>sleep\<close>, with the number of interrupts that the loop waits for: it goes on while the condition holds.\<close>

definition sleeping :: "u64 \<Rightarrow> timer \<Rightarrow> timer \<Rightarrow> bool" where
  "sleeping ms start now \<longleftrightarrow> counter now - counter start < wait_ticks ms start"

fun sleep :: "nat \<Rightarrow> u64 \<Rightarrow> timer \<Rightarrow> timer \<Rightarrow> timer option" where
  "sleep 0 ms start now = (if sleeping ms start now then None else Some now)"
| "sleep (Suc n) ms start now = (if sleeping ms start now then sleep n ms start (tick now) else Some now)"

section \<open>The ring of the log\<close>

definition KLOG_SIZE :: nat where "KLOG_SIZE = 32768"

record klog =
  klog_ring :: "u8 list"
  klog_write_head :: u64

definition klog_start :: klog where "klog_start = \<lparr>klog_ring = replicate KLOG_SIZE 0, klog_write_head = 0\<rparr>"

definition klog_append_char :: "u8 \<Rightarrow> klog \<Rightarrow> klog" where
  "klog_append_char c k =
     k\<lparr>klog_ring := (klog_ring k)[unat (klog_write_head k mod of_nat KLOG_SIZE) := c], klog_write_head := klog_write_head k + 1\<rparr>"

text \<open>Appending a string that ends with a zero byte; a null pointer is ignored.\<close>

definition klog_append_str :: "mem \<Rightarrow> u64 \<Rightarrow> klog \<Rightarrow> klog option" where
  "klog_append_str m p k =
     (if p = 0 then Some k
      else map_option (\<lambda>e. fold klog_append_char (bytes_at m p (unat (e - p))) k) (find_zero m p))"

definition read_klog :: "u64 \<Rightarrow> u64 \<Rightarrow> klog \<Rightarrow> u8 list" where
  "read_klog max_len offset k =
     (let full = of_nat KLOG_SIZE; head = klog_write_head k;
          tot = (if full < head then full else head);
          start = (if full < head then head mod full else 0)
      in if tot \<le> offset then []
         else map (\<lambda>i. klog_ring k ! unat ((start + offset + of_nat i) mod full)) [0..<unat (min max_len (tot - offset))])"

section \<open>Messages\<close>

datatype level = INFO | WARN | ERROR | TEST

definition text_of :: "string \<Rightarrow> u8 list" where "text_of = map of_char"

definition tag_text :: "level \<Rightarrow> u8 list" where
  "tag_text l = text_of (case l of INFO \<Rightarrow> ''[INFO] '' | WARN \<Rightarrow> ''[WARN] '' | ERROR \<Rightarrow> ''[ERROR] '' | TEST \<Rightarrow> ''[TEST] '')"

text \<open>
  \<open>log\<close>: \<open>hb\<close>, \<open>mb\<close> and \<open>lb\<close> are the addresses of the three buffers, and \<open>colour\<close> that of the text of the level
  with its colour.
\<close>

definition log :: "u64 \<Rightarrow> u64 \<Rightarrow> u64 \<Rightarrow> (level \<Rightarrow> u64) \<Rightarrow> timer \<Rightarrow> level \<Rightarrow> u8 list \<Rightarrow> u64 list \<Rightarrow> klog \<Rightarrow> con \<Rightarrow> (klog \<times> con) option" where
  "log hb mb lb colour t l fmt args k s =
     (let ms = ucast (get_uptime_ms t) :: u32;
          sec = ms div 1000;
          frac = ms mod 1000 div 10
      in Option.bind (ksnprintf (con_mem s) hb 64 (text_of ''[ %u.%02u ] '') [ucast sec, ucast frac]) (\<lambda>(_, m).
         Option.bind (kvsnprintf m mb 512 fmt args) (\<lambda>(_, m).
         Option.bind (klog_append_str m hb k) (\<lambda>k.
         Option.bind (map_option (klog_append_char 10) (klog_append_str m mb (fold klog_append_char (tag_text l) k))) (\<lambda>k.
         Option.bind (ksnprintf m lb 1024 (text_of ''%s%s%s'' @ [10]) [hb, colour l, mb]) (\<lambda>(_, m).
         map_option (Pair k) (kprintf (text_of ''%s'') [lb] (s\<lparr>con_mem := m\<rparr>))))))))"

section \<open>What the log keeps\<close>

definition klog_inv :: "klog \<Rightarrow> bool" where "klog_inv k \<longleftrightarrow> length (klog_ring k) = KLOG_SIZE"

definition logged :: "klog \<Rightarrow> u8 list" where
  "logged k =
     (let h = unat (klog_write_head k)
      in if h < KLOG_SIZE then take h (klog_ring k) else ring_list KLOG_SIZE (klog_ring k) (h mod KLOG_SIZE) KLOG_SIZE)"

definition klog_room :: "klog \<Rightarrow> nat" where "klog_room k = 2 ^ 64 - 1 - unat (klog_write_head k)"

lemma ring_list_whole: "length r = N \<Longrightarrow> ring_list N r 0 N = r"
  by (rule nth_equalityI) (simp_all add: ring_list_def)

lemma klog_index: "unat (x mod of_nat KLOG_SIZE) = unat (x :: u64) mod KLOG_SIZE"
  by (simp add: unat_mod_distrib KLOG_SIZE_def)

lemma take_update: "h < length r \<Longrightarrow> take (Suc h) (r[h := c]) = take h r @ [c]"
  by (simp add: take_Suc_conv_app_nth)

lemma append_char_logged:
  assumes "klog_inv k" "0 < klog_room k"
  shows "logged (klog_append_char c k) = lastn KLOG_SIZE (logged k @ [c])"
proof -
  define h where "h = unat (klog_write_head k)"
  let ?r = "klog_ring k" and ?k = "klog_append_char c k"
  have nx: "unat (klog_write_head ?k) = Suc h"
    using assms(2) unat_add_u64 [of "klog_write_head k" 1] by (simp add: h_def klog_room_def klog_append_char_def)
  have len: "length ?r = KLOG_SIZE" "0 < KLOG_SIZE" using assms(1) by (simp_all add: klog_inv_def KLOG_SIZE_def)
  have ring: "klog_ring ?k = ?r[h mod KLOG_SIZE := c]" by (simp add: klog_append_char_def klog_index h_def)
  show ?thesis
  proof (cases "h < KLOG_SIZE")
    case True
    have old: "logged k = take h ?r" using True by (simp add: logged_def h_def Let_def)
    have "logged ?k = take (Suc h) (?r[h := c])"
    proof (cases "Suc h < KLOG_SIZE")
      case True thus ?thesis using \<open>h < KLOG_SIZE\<close> by (simp add: logged_def nx ring Let_def)
    next
      case False
      hence "Suc h = KLOG_SIZE" using \<open>h < KLOG_SIZE\<close> by simp
      thus ?thesis using \<open>h < KLOG_SIZE\<close> len ring_list_whole [of "?r[h := c]" KLOG_SIZE] by (simp add: logged_def nx ring Let_def)
    qed
    thus ?thesis using True len take_update [of h ?r c] by (simp add: old lastn_short)
  next
    case False
    let ?xs = "ring_list KLOG_SIZE ?r (h mod KLOG_SIZE) KLOG_SIZE"
    have old: "logged k = ?xs" using False by (simp add: logged_def h_def Let_def)
    have "logged ?k = ring_list KLOG_SIZE (?r[h mod KLOG_SIZE := c]) ((h mod KLOG_SIZE + 1) mod KLOG_SIZE) KLOG_SIZE"
      using False by (simp add: logged_def nx ring Let_def mod_Suc_eq)
    also have "\<dots> = List.tl ?xs @ [c]" using len by (intro ring_list_overwrite) simp_all
    also have "\<dots> = lastn KLOG_SIZE (?xs @ [c])"
    proof -
      have "length (?xs @ [c]) - KLOG_SIZE = Suc 0" "?xs \<noteq> []" using len(2) by (simp_all flip: length_greater_0_conv)
      thus ?thesis by (simp only: lastn_def drop_Suc drop0) simp
    qed
    finally show ?thesis by (simp only: old)
  qed
qed

interpretation klog: lossy_buffer klog_inv logged klog_append_char klog_room KLOG_SIZE
proof
  fix k c assume k: "klog_inv k"
  thus "klog_inv (klog_append_char c k)" by (simp add: klog_inv_def klog_append_char_def)
  show "klog_room k - 1 \<le> klog_room (klog_append_char c k)"
  proof (cases "klog_room k = 0")
    case False
    thus ?thesis using unat_add_u64 [of "klog_write_head k" 1] by (simp add: klog_room_def klog_append_char_def)
  qed simp
  show "length (logged k) \<le> KLOG_SIZE" by (auto simp: logged_def Let_def)
qed (rule append_char_logged)

text \<open>What \<open>read_klog\<close> returns is a part of what the log keeps.\<close>

lemma read_klog_logged:
  assumes "klog_inv k"
  shows "read_klog n off k = take (unat n) (drop (unat off) (logged k))"
proof -
  define h where "h = unat (klog_write_head k)"
  define tot where "tot = min KLOG_SIZE h"
  define start where "start = (if KLOG_SIZE < h then h mod KLOG_SIZE else 0)"
  have full: "unat (of_nat KLOG_SIZE :: u64) = KLOG_SIZE" by (simp add: KLOG_SIZE_def)
  have ring: "logged k = map (\<lambda>i. klog_ring k ! ((start + i) mod KLOG_SIZE)) [0..<tot]"
  proof (cases "h < KLOG_SIZE")
    case True
    thus ?thesis using assms by (intro nth_equalityI) (simp_all add: logged_def h_def [symmetric] start_def tot_def klog_inv_def Let_def)
  next
    case False
    thus ?thesis by (simp add: logged_def h_def [symmetric] start_def tot_def ring_list_def Let_def)
  qed
  let ?t = "(if of_nat KLOG_SIZE < klog_write_head k then of_nat KLOG_SIZE else klog_write_head k)"
  let ?s = "(if of_nat KLOG_SIZE < klog_write_head k then klog_write_head k mod of_nat KLOG_SIZE else 0)"
  have t: "unat ?t = tot" by (simp add: tot_def h_def word_less_nat_alt full)
  have s: "unat ?s = start" by (simp add: start_def h_def word_less_nat_alt full klog_index)
  have sk: "start < KLOG_SIZE" "tot \<le> KLOG_SIZE" by (simp_all add: start_def tot_def KLOG_SIZE_def)
  show ?thesis
  proof (cases "?t \<le> off")
    case True
    hence "tot \<le> unat off" using t by (simp add: word_le_nat_alt)
    thus ?thesis using True by (simp add: read_klog_def Let_def ring)
  next
    case False
    hence off: "unat off < tot" "off \<le> ?t" using t by (simp_all add: word_le_nat_alt)
    have m: "unat (min n (?t - off)) = min (unat n) (tot - unat off)"
      using unat_sub [OF off(2)] t by (simp add: min_def word_le_nat_alt)
    have idx: "unat ((?s + off + of_nat i) mod of_nat KLOG_SIZE) = (start + (unat off + i)) mod KLOG_SIZE" if "i < tot - unat off" for i
    proof -
      have lt: "start + unat off + i < 2 ^ 64" using that sk by (simp add: KLOG_SIZE_def)
      have "unat (of_nat i :: u64) = i" using lt by (intro unat_of_nat_u64) simp
      hence "unat (?s + off + of_nat i) = start + unat off + i"
        using lt unat_add_u64 [of ?s off] unat_add_u64 [of "?s + off" "of_nat i"] s by simp
      thus ?thesis by (simp only: klog_index add.assoc)
    qed
    have "read_klog n off k = map (\<lambda>i. klog_ring k ! unat ((?s + off + of_nat i) mod of_nat KLOG_SIZE)) [0..<min (unat n) (tot - unat off)]"
      using False m unfolding read_klog_def Let_def by (simp only: if_False)
    also have "\<dots> = map (\<lambda>i. klog_ring k ! ((start + (unat off + i)) mod KLOG_SIZE)) [0..<min (unat n) (tot - unat off)]"
      using idx by simp
    also have "\<dots> = take (unat n) (drop (unat off) (logged k))"
      unfolding ring by (intro nth_equalityI) (auto simp: drop_map take_map)
    finally show ?thesis .
  qed
qed

text \<open>
  C26: after any bytes have been appended to the log, a read at an offset returns the bytes from that
  offset on of the last 32768 bytes, in the order in which they were written; fewer bytes than that are
  all there.
\<close>

theorem klog_read_back:
  assumes "klog_inv k" "length xs \<le> klog_room k"
  shows "read_klog n off (fold klog_append_char xs k) = take (unat n) (drop (unat off) (lastn KLOG_SIZE (logged k @ xs)))"
  using read_klog_logged [OF klog.puts_inv [OF assms(1)]] klog.puts_contents [OF assms] by simp

theorem klog_read_back_witness: "read_klog 2 1 (fold klog_append_char [104, 105, 33, 10] klog_start) = [105, 33]"
proof -
  have "klog_inv klog_start" "klog_room klog_start = 2 ^ 64 - 1" "logged klog_start = []"
    by (simp_all add: klog_inv_def klog_start_def klog_room_def logged_def KLOG_SIZE_def)
  thus ?thesis using klog_read_back [of klog_start "[104, 105, 33, 10]" 2 1] by (simp add: lastn_def KLOG_SIZE_def)
qed

section \<open>Waiting\<close>

text \<open>A sleep ends after exactly the number of interrupts it computes, whatever the counter was.\<close>

lemma sleep_ends:
  assumes "wait_ticks ms start = of_nat n" "n < 2 ^ 64" "j \<le> n"
  shows "sleep (n - j) ms start ((tick ^^ j) start) = Some ((tick ^^ n) start)"
  using assms(3)
proof (induction "n - j" arbitrary: j)
  case 0
  have c: "counter ((tick ^^ i) start) = counter start + of_nat i" for i by (induction i) (simp_all add: tick_def)
  have "j = n" using 0 by simp
  thus ?case using assms(1) c by (simp add: sleeping_def)
next
  case (Suc d)
  have c: "counter ((tick ^^ i) start) = counter start + of_nat i" for i by (induction i) (simp_all add: tick_def)
  have "unat (of_nat j :: u64) = j" "unat (of_nat n :: u64) = n" using Suc.hyps(2) assms(2) by (intro unat_of_nat_u64; simp)+
  hence "sleeping ms start ((tick ^^ j) start)" using Suc.hyps(2) assms(1) c by (simp add: sleeping_def word_less_nat_alt)
  moreover have "n - j = Suc (n - Suc j)" using Suc.hyps(2) by simp
  ultimately show ?case using Suc.hyps(1) [of "Suc j"] Suc.hyps(2) by simp
qed

theorem sleep_returns:
  "sleep (unat (wait_ticks ms t)) ms t t = Some ((tick ^^ unat (wait_ticks ms t)) t)"
  using sleep_ends [of ms t "unat (wait_ticks ms t)" 0] unat_u64_less [of "wait_ticks ms t"] by simp

end
