(* ===== verification/Devfs.thy ===== *)
theory Devfs
  imports Vfs_Ops Klog Byte_Paths
begin

text \<open>
  The file system of devices, \<open>src/fs/devfs.cpp\<close>, with the devices \<open>null\<close> (\<open>src/fs/devfs/null.cpp\<close>) and \<open>kmsg\<close>: a
  list of names with their operations, a node below \<open>/dev\<close> for each, and handles with an offset. Operations
  are addresses in the store \<open>devs\<close> of the file system. \<open>None\<close> is a fault: a null pointer that is used, or
  more nested calls than the stack holds.
\<close>

section \<open>The registry\<close>

record device =
  d_name :: string
  d_ops :: "ptr option"

text \<open>The list \<open>devices\<close>, the last one registered first, beside the tree of nodes.\<close>

type_synonym 'w devfs = "device list \<times> 'w vfs"

definition register_device :: "string \<Rightarrow> ptr \<Rightarrow> 'w devfs \<Rightarrow> 'w devfs option" where
  "register_device name ops = (\<lambda>(ds, s). do {
     let (p, s) = kmalloc_node s;
     case p of
       None \<Rightarrow> Some (ds, s)
     | Some _ \<Rightarrow> do {
         let (nm, s) = strdup_name name s;
         case nm of
           None \<Rightarrow> Some (ds, s)
         | Some nm \<Rightarrow> do {
             (_, s) \<leftarrow> create_dev nm (Some ops) s;
             Some (\<lparr>d_name = nm, d_ops = Some ops\<rparr> # ds, s)
           }
       }
   })"

text \<open>The numbered names that are made up when they are first opened, from the operations of a base device.\<close>

definition numbered :: "string \<Rightarrow> string \<Rightarrow> bool" where
  "numbered prefix name \<longleftrightarrow>
     take (length prefix) name = prefix \<and> length prefix < length name \<and>
     (let c = of_char (name ! length prefix) :: nat in 48 \<le> c \<and> c \<le> 57)"

definition add_numbered :: "string \<Rightarrow> device option \<Rightarrow> 'w devfs \<Rightarrow> (device \<times> 'w devfs) option" where
  "add_numbered name base = (\<lambda>(ds, s). do {
     let dev = \<lparr>d_name = name, d_ops = Option.bind base d_ops\<rparr>;
     case d_ops dev of
       None \<Rightarrow> Some (dev, dev # ds, s)
     | Some ops \<Rightarrow> do {
         (_, s) \<leftarrow> create_dev name (Some ops) s;
         Some (dev, dev # ds, s)
       }
   })"

text \<open>
  \<open>find_device\<close>: the first device of that name, else a new numbered terminal or frame buffer. The first
  argument is the number of nested calls that the stack has room for.
\<close>

fun find_device :: "nat \<Rightarrow> string \<Rightarrow> 'w devfs \<Rightarrow> (device option \<times> 'w devfs) option" where
  "find_device 0 name ds = None"
| "find_device (Suc d) name (ds, s) =
     (case find (\<lambda>d. d_name d = name) ds of
        Some dev \<Rightarrow> Some (Some dev, ds, s)
      | None \<Rightarrow>
          if numbered ''tty'' name then do {
            let (p, s) = kmalloc_node s;
            case p of
              None \<Rightarrow> Some (None, ds, s)
            | Some _ \<Rightarrow> do {
                let (nm, s) = strdup_name name s;
                nm \<leftarrow> nm;
                (base, ds) \<leftarrow> find_device d ''tty'' (ds, s);
                (dev, ds) \<leftarrow> add_numbered nm base ds;
                Some (Some dev, ds)
              }
          }
          else if numbered ''fb'' name then do {
            let (p, s) = kmalloc_node s;
            case p of
              None \<Rightarrow> Some (None, ds, s)
            | Some _ \<Rightarrow> do {
                let (nm, s) = strdup_name name s;
                nm \<leftarrow> nm;
                (base, ds) \<leftarrow> find_device d ''fb'' (ds, s);
                (base, ds) \<leftarrow> (if base = None then find_device d ''fb0'' ds else Some (base, ds));
                (dev, ds) \<leftarrow> add_numbered nm base ds;
                Some (Some dev, ds)
              }
          }
          else Some (None, ds, s))"

section \<open>Handles\<close>

record dev_handle =
  dh_device :: device
  dh_offset :: u64

definition devfs_open :: "string \<Rightarrow> 'w devfs \<Rightarrow> (dev_handle option \<times> 'w devfs) option" where
  "devfs_open name st = do {
     (dev, ds, s) \<leftarrow> find_device (stack_frames (snd st)) name st;
     case dev of
       None \<Rightarrow> Some (None, ds, s)
     | Some dev \<Rightarrow> do {
         let (p, s) = kmalloc_node s;
         _ \<leftarrow> p;
         Some (Some \<lparr>dh_device = dev, dh_offset = 0\<rparr>, ds, s)
       }
   }"

text \<open>The result of a read is that of the device, as an \<open>int\<close>, with the bytes it delivered.\<close>

definition devfs_read :: "dev_handle option \<Rightarrow> u64 \<Rightarrow> 'w vfs \<Rightarrow> (int \<times> u8 list \<times> dev_handle option \<times> 'w vfs) option" where
  "devfs_read h len s =
     (case h of
        None \<Rightarrow> Some (- 1, [], h, s)
      | Some dh \<Rightarrow> do {
          ops \<leftarrow> d_ops (dh_device dh);
          case dev_read (devs s ops) of
            None \<Rightarrow> Some (0, [], h, s)
          | Some rd \<Rightarrow>
              (let (n, bs, w) = rd (world s) len (dh_offset dh)
               in Some (sint (ucast n :: u32), bs, Some (dh\<lparr>dh_offset := dh_offset dh + n\<rparr>), s\<lparr>world := w\<rparr>))
        })"

definition devfs_write :: "dev_handle option \<Rightarrow> u8 list \<Rightarrow> 'w vfs \<Rightarrow> (int \<times> dev_handle option \<times> 'w vfs) option" where
  "devfs_write h bs s =
     (case h of
        None \<Rightarrow> Some (- 1, h, s)
      | Some dh \<Rightarrow> do {
          ops \<leftarrow> d_ops (dh_device dh);
          case dev_write (devs s ops) of
            None \<Rightarrow> Some (0, h, s)
          | Some wr \<Rightarrow>
              (let (n, w) = wr (world s) bs (dh_offset dh)
               in Some (sint (ucast n :: u32), Some (dh\<lparr>dh_offset := dh_offset dh + n\<rparr>), s\<lparr>world := w\<rparr>))
        })"

definition devfs_list :: "'w devfs \<Rightarrow> string list" where
  "devfs_list = (\<lambda>(ds, s). map d_name ds)"

definition devfs_lseek :: "dev_handle option \<Rightarrow> u64 \<Rightarrow> int \<Rightarrow> int \<times> dev_handle option" where
  "devfs_lseek h off whence =
     (case h of
        None \<Rightarrow> (- 1, h)
      | Some dh \<Rightarrow>
          (let from = (if whence = 1 \<or> whence = 2 then dh_offset dh else 0); to = from + off
           in if sint to < 0 then (- 1, h) else (sint (ucast to :: u32), Some (dh\<lparr>dh_offset := to\<rparr>))))"

text \<open>Control requests go to the operation of the device, an argument here.\<close>

definition devfs_ioctl :: "(ptr \<Rightarrow> (u64 \<Rightarrow> u64 \<Rightarrow> 'w \<Rightarrow> int \<times> 'w) option) \<Rightarrow> dev_handle option \<Rightarrow> u64 \<Rightarrow> u64 \<Rightarrow> 'w vfs \<Rightarrow> (int \<times> 'w vfs) option" where
  "devfs_ioctl ioctls h req arg s =
     (case h of
        None \<Rightarrow> Some (- 1, s)
      | Some dh \<Rightarrow> do {
          ops \<leftarrow> d_ops (dh_device dh);
          case ioctls ops of
            None \<Rightarrow> Some (- 1, s)
          | Some f \<Rightarrow> (let (r, w) = f req arg (world s) in Some (r, s\<lparr>world := w\<rparr>))
        })"

section \<open>Two devices\<close>

definition null_ops :: "'w dev_ops" where
  "null_ops = \<lparr>dev_write = Some (\<lambda>w bs off. (of_nat (length bs), w)), dev_read = Some (\<lambda>w len off. (0, [], w))\<rparr>"

text \<open>The device of the log, where the world outside of the tree contains the log.\<close>

definition kmsg_ops :: "('w \<Rightarrow> klog) \<Rightarrow> 'w dev_ops" where
  "kmsg_ops the_log =
     \<lparr>dev_write = None,
      dev_read = Some (\<lambda>w len off. let bs = read_klog len off (the_log w) in (of_nat (length bs), bs, w))\<rparr>"

definition devfs_init :: "ptr \<Rightarrow> 'w devfs \<Rightarrow> (bool \<times> 'w devfs) option" where
  "devfs_init kmsg st = map_option (Pair True) (register_device ''kmsg'' kmsg st)"

section \<open>Registered devices are found\<close>

lemma find_registered: "0 < d \<Longrightarrow> find_device d name (\<lparr>d_name = name, d_ops = Some ops\<rparr> # ds, s) = Some (Some \<lparr>d_name = name, d_ops = Some ops\<rparr>, \<lparr>d_name = name, d_ops = Some ops\<rparr> # ds, s)"
  by (cases d) simp_all

text \<open>Making a node a device changes neither its name nor its place in the tree.\<close>

lemma device_node_tree:
  assumes "tree_ok (nodes s) r c K" "nodes s n = Some nd"
  shows "tree_ok (nodes (set_node n (nd\<lparr>nd_dev := ops, nd_type := ty\<rparr>) s)) r c K"
proof -
  let ?nd = "nd\<lparr>nd_dev := ops, nd_type := ty\<rparr>"
  let ?ns = "nodes (set_node n ?nd s)"
  have proj: "map_option nd_next (?ns x) = map_option nd_next (nodes s x)" "map_option nd_parent (?ns x) = map_option nd_parent (nodes s x)"
      "?ns x = None \<longleftrightarrow> nodes s x = None" for x
    using assms(2) by (auto simp: set_node_def)
  have mono: "node_ok ?ns r c K x xd" if "nodes s x = Some xd" for x xd
    by (rule node_ok_mono [OF tree_ok_node [OF assms(1) that]]) (use proj in simp_all)
  have "node_ok ?ns r c K x xd" if "?ns x = Some xd" for x xd
  proof (cases "x = n")
    case True
    have "node_ok ?ns r c K n nd" by (rule mono [OF assms(2)])
    moreover have "xd = ?nd" using that True by (simp add: set_node_def)
    ultimately show ?thesis using True by (simp add: node_ok_def)
  next
    case False
    thus ?thesis using that by (intro mono) (simp add: set_node_def)
  qed
  thus ?thesis using assms(1) proj(3) [of r] by (simp add: tree_ok_def)
qed

lemma device_node_inv:
  assumes inv: "vfs_inv s" and n: "nodes s n = Some nd"
  shows "vfs_inv (set_node n (nd\<lparr>nd_dev := ops, nd_type := ty\<rparr>) s)"
    "live s d \<Longrightarrow> find_in (set_node n (nd\<lparr>nd_dev := ops, nd_type := ty\<rparr>) s) d k = find_in s d k"
proof -
  let ?s = "set_node n (nd\<lparr>nd_dev := ops, nd_type := ty\<rparr>) s"
  obtain r K where r: "root s = Some r" "tree_ok (nodes s) r (clock s) K" using inv by (auto simp: vfs_inv_def tree_of_def)
  note tree = device_node_tree [OF r(2) n, of ty ops]
  show "vfs_inv ?s" using tree r inv by (auto simp: vfs_inv_def tree_of_def set_node_def)
  assume "live s d"
  hence "nodes s d \<noteq> None" "nodes ?s d \<noteq> None" by (simp_all add: live_def set_node_def)
  then obtain dd dd' where d: "nodes s d = Some dd" "nodes ?s d = Some dd'" by blast
  have "node_name ?s x = node_name s x" for x using n by (simp add: node_name_def set_node_def)
  thus "find_in ?s d k = find_in s d k" using find_in_tree [OF r(2) d(1)] find_in_tree [OF tree d(2)] by simp
qed

lemma create_dev_inv:
  assumes inv: "vfs_inv s" and d: "vfs_find s ''/dev'' = Some (Some d, s)" "live s d"
  shows "\<exists>n s'. create_dev name (Some ops) s = Some (Some n, s') \<and> vfs_inv s' \<and> stack_frames s' = stack_frames s \<and>
    find_in s' d name = Some (Some n) \<and> map_option nd_dev (nodes s' n) = Some (Some ops) \<and> devs s' = devs s \<and> world s' = world s"
proof -
  obtain n s1 where c: "create_node name False (Some d) s = Some (n, s1)" using create_node_total [OF inv d(2)] by blast
  note new = create_node_vfs_inv [OF inv d(2) c]
  have same: "devs s1 = devs s" "world s1 = world s"
    using c create_node_eq [of s d] inv d(2) by (auto simp: vfs_inv_def live_def)
  obtain nd where nd: "nodes s1 n = Some nd" using new(2) by (auto simp: live_def)
  have "live s1 d" using new(5) [OF d(2)] by simp
  moreover have "find_in s1 d name = Some (Some n)" using new(6) [OF d(2), of name] by (auto simp: entry_def split: option.splits)
  ultimately have "find_in (set_node n (nd\<lparr>nd_dev := Some ops, nd_type := VFS_DEV\<rparr>) s1) d name = Some (Some n)"
    using device_node_inv(2) [OF new(1) nd] by simp
  thus ?thesis using c nd d(1) device_node_inv(1) [OF new(1) nd, of VFS_DEV "Some ops"] same new(8)
    by (simp add: create_dev_def) (simp add: set_node_def)
qed

lemma clock_links: "clock s \<le> k \<Longrightarrow> same_links s (s\<lparr>clock := k\<rparr>)"
  by (simp add: same_links_def)

text \<open>The directory \<open>/dev\<close> is there, and the tree is well formed.\<close>

definition has_dev :: "'w vfs \<Rightarrow> ptr \<Rightarrow> bool" where
  "has_dev s d \<longleftrightarrow> vfs_inv s \<and> 0 < stack_frames s \<and> live s d \<and>
     (\<exists>r. root s = Some r \<and> walk s r [''dev''] = Some d \<and> no_links s r [''dev''])"

lemma has_dev_find: "has_dev s d \<Longrightarrow> vfs_find s ''/dev'' = Some (Some d, s)"
  using vfs_find_walk [of s _ "[''dev'']" d] by (auto simp: has_dev_def plain_name_def)

lemma has_dev_clock:
  assumes "has_dev s d" "clock s \<le> k"
  shows "has_dev (s\<lparr>clock := k\<rparr>) d"
proof -
  note same = clock_links [OF assms(2)]
  obtain r where r: "root s = Some r" "walk s r [''dev''] = Some d" "no_links s r [''dev'']" "vfs_inv s" "0 < stack_frames s" "live s d"
    using assms(1) by (auto simp: has_dev_def)
  have "live s r" by (rule root_live [OF r(4,1)])
  hence w: "walk (s\<lparr>clock := k\<rparr>) r [''dev''] = Some d" "no_links (s\<lparr>clock := k\<rparr>) r [''dev'']"
    using same_links_walk [OF same r(4), of r "[''dev'']"] r(2,3) by simp_all
  have "vfs_inv (s\<lparr>clock := k\<rparr>)" "live (s\<lparr>clock := k\<rparr>) d"
    using same_links_vfs_inv(1) [OF same r(4)] same_links_proj(5) [OF same] r(6) by simp_all
  thus ?thesis using w r(1,5) unfolding has_dev_def by auto
qed

lemma register_device_ok:
  assumes "has_dev s d"
  shows "\<exists>n s'. register_device name ops (ds, s) = Some (\<lparr>d_name = name, d_ops = Some ops\<rparr> # ds, s') \<and> vfs_inv s' \<and>
    stack_frames s' = stack_frames s \<and> find_in s' d name = Some (Some n) \<and> map_option nd_dev (nodes s' n) = Some (Some ops) \<and>
    devs s' = devs s \<and> world s' = world s"
proof -
  let ?s = "s\<lparr>clock := Suc (Suc (clock s))\<rparr>"
  have dev: "has_dev ?s d" by (rule has_dev_clock [OF assms]) simp
  hence i: "vfs_inv ?s" "live ?s d" by (simp_all only: has_dev_def)
  have "granted s k" for k using assms by (simp add: has_dev_def vfs_inv_def)
  thus ?thesis using create_dev_inv [OF i(1) has_dev_find [OF dev] i(2), of name ops]
    by (auto simp: register_device_def kmalloc_node_def strdup_name_def)
qed

lemma open_registered:
  assumes "vfs_inv s" "0 < stack_frames s"
  shows "devfs_open name (\<lparr>d_name = name, d_ops = Some ops\<rparr> # ds, s) =
    Some (Some \<lparr>dh_device = \<lparr>d_name = name, d_ops = Some ops\<rparr>, dh_offset = 0\<rparr>, \<lparr>d_name = name, d_ops = Some ops\<rparr> # ds, s\<lparr>clock := Suc (clock s)\<rparr>)"
  using assms by (simp add: devfs_open_def find_registered kmalloc_node_def vfs_inv_def)

section \<open>Reading the log through its device\<close>

fun devfs_reads :: "u64 list \<Rightarrow> dev_handle option \<Rightarrow> 'w vfs \<Rightarrow> (u8 list list \<times> dev_handle option \<times> 'w vfs) option" where
  "devfs_reads [] h s = Some ([], h, s)"
| "devfs_reads (len # lens) h s = do {
     (_, bs, h, s) \<leftarrow> devfs_read h len s;
     (rest, h, s) \<leftarrow> devfs_reads lens h s;
     Some (bs # rest, h, s)
   }"

lemma logged_length: "klog_inv k \<Longrightarrow> length (logged k) \<le> KLOG_SIZE"
  by (simp add: logged_def klog_inv_def Let_def ring_list_def)

lemma kmsg_reads:
  assumes "d_ops (dh_device h) = Some ops" "devs s ops = kmsg_ops lg" "klog_inv (lg (world s))" "unat (dh_offset h) \<le> length (logged (lg (world s)))"
  shows "\<exists>h'. devfs_reads lens (Some h) s = Some (slices (map unat lens) (drop (unat (dh_offset h)) (logged (lg (world s)))), h', s)"
  using assms(1,4)
proof (induction lens arbitrary: h)
  case (Cons len lens)
  let ?L = "logged (lg (world s))" and ?o = "dh_offset h"
  let ?bs = "take (unat len) (drop (unat ?o) ?L)"
  let ?h = "h\<lparr>dh_offset := ?o + of_nat (length ?bs)\<rparr>"
  have rd: "devfs_read (Some h) len s = Some (sint (ucast (of_nat (length ?bs) :: u64) :: u32), ?bs, Some ?h, s)"
    using Cons.prems(1) assms(2) by (simp add: devfs_read_def kmsg_ops_def read_klog_logged [OF assms(3)] Let_def)
  have "length ?L \<le> 32768" using logged_length [OF assms(3)] by (simp add: KLOG_SIZE_def)
  hence u: "unat (?o + of_nat (length ?bs)) = unat ?o + length ?bs"
    using Cons.prems(2) unat_of_nat_u64 [of "length ?bs"] by (subst unat_add_u64) simp_all
  hence d: "drop (unat (dh_offset ?h)) ?L = drop (unat len) (drop (unat ?o) ?L)" "unat (dh_offset ?h) \<le> length ?L"
    using Cons.prems(2) by (auto simp: min_def add.commute)
  show ?case using Cons.IH [of ?h] Cons.prems(1) d rd by auto
qed simp

text \<open>
  C20: once the device file system is set up, the log can be opened as \<open>kmsg\<close>, its node is in \<open>/dev\<close>, and any
  sequence of reads delivers the log piece by piece from its oldest byte on.
\<close>

theorem devfs_kmsg:
  assumes "has_dev s d" "devs s kmsg = kmsg_ops lg" "klog_inv (lg (world s))"
  shows "\<exists>ds' s' n h s2 h' s3. devfs_init kmsg (ds, s) = Some (True, ds', s') \<and> find_in s' d ''kmsg'' = Some (Some n) \<and>
    devfs_open ''kmsg'' (ds', s') = Some (Some h, ds', s2) \<and>
    devfs_reads lens (Some h) s2 = Some (slices (map unat lens) (logged (lg (world s))), h', s3)"
proof -
  obtain n s' where r: "register_device ''kmsg'' kmsg (ds, s) = Some (\<lparr>d_name = ''kmsg'', d_ops = Some kmsg\<rparr> # ds, s')" "vfs_inv s'"
      "stack_frames s' = stack_frames s" "find_in s' d ''kmsg'' = Some (Some n)" "devs s' = devs s" "world s' = world s"
    using register_device_ok [OF assms(1)] by blast
  let ?h = "\<lparr>dh_device = \<lparr>d_name = ''kmsg'', d_ops = Some kmsg\<rparr>, dh_offset = 0\<rparr>" and ?s = "s'\<lparr>clock := Suc (clock s')\<rparr>"
  have "0 < stack_frames s'" using assms(1) r(3) by (simp add: has_dev_def)
  note o = open_registered [OF r(2) this, of "''kmsg''" kmsg ds]
  obtain h' where "devfs_reads lens (Some ?h) ?s = Some (slices (map unat lens) (logged (lg (world s))), h', ?s)"
    using kmsg_reads [of ?h kmsg ?s lg lens] assms(2,3) r(5,6) by auto
  thus ?thesis using r(1,4) o by (auto simp: devfs_init_def)
qed

text \<open>A root directory with \<open>/dev\<close>, and a log of four bytes.\<close>

definition dev_demo :: "klog vfs" where
  "dev_demo =
     \<lparr>nodes = [0 \<mapsto> demo_node ''/'' True VFS_DIR None None (Some 2) None,
               2 \<mapsto> demo_node ''dev'' True VFS_DIR (Some 0) None None None],
      root = Some 0, current_dir = Some 0, mounts = [], filesystems = [],
      fs_ops = (\<lambda>_. \<lparr>fs_name = None, fs_init = None, fs_open = None, fs_read = None, fs_write = None,
                    fs_close = None, fs_list = None, fs_lseek = None\<rparr>),
      devs = (\<lambda>_. kmsg_ops (\<lambda>k. k)), process_cwd = None, clock = 10, granted = (\<lambda>_. True), stack_frames = 16, beyond = (\<lambda>_. []),
      fresh = (\<lambda>_ _. 0), world = fold klog_append_char [104, 105, 33, 10] klog_start\<rparr>"

lemma demo_log: "klog_inv (world dev_demo)" "logged (world dev_demo) = [104, 105, 33, 10]"
proof -
  have k: "klog_inv klog_start" "klog_room klog_start = 2 ^ 64 - 1" "logged klog_start = []"
    by (simp_all add: klog_inv_def klog_start_def klog_room_def logged_def KLOG_SIZE_def)
  show "klog_inv (world dev_demo)" using klog.puts_inv [OF k(1), of "[104, 105, 33, 10]"] by (simp add: dev_demo_def)
  show "logged (world dev_demo) = [104, 105, 33, 10]"
    using klog.puts_contents [OF k(1), of "[104, 105, 33, 10]"] k(2,3) by (simp add: dev_demo_def lastn_def KLOG_SIZE_def)
qed

lemma dev_demo_dev: "has_dev dev_demo 2"
proof -
  have "tree_ok (nodes dev_demo) 0 (clock dev_demo) ((\<lambda>_. [])(0 := [2]))"
    by (auto simp: tree_ok_def dev_demo_def node_ok_def demo_node_def child_of_def split: if_splits)
  hence inv: "vfs_inv dev_demo" by (auto simp: vfs_inv_def tree_of_def dev_demo_def)
  have "find_in dev_demo 0 ''dev'' = Some (Some 2)" by (simp add: find_in_def dev_demo_def find_from.simps demo_node_def)
  moreover have "\<not> is_link dev_demo 2" "live dev_demo 2" by (simp_all add: is_link_def live_def dev_demo_def demo_node_def)
  moreover have "root dev_demo = Some 0" "stack_frames dev_demo = 16" by (simp_all add: dev_demo_def)
  ultimately show ?thesis using inv by (simp add: has_dev_def entry_def)
qed

theorem devfs_kmsg_witness:
  "\<exists>ds' s' h s2 h' s3. devfs_init 7 ([], dev_demo) = Some (True, ds', s') \<and> devfs_open ''kmsg'' (ds', s') = Some (Some h, ds', s2) \<and>
    devfs_reads [3, 9] (Some h) s2 = Some ([[104, 105, 33], [10]], h', s3)"
proof -
  have "devs dev_demo 7 = kmsg_ops (\<lambda>k. k)" by (simp add: dev_demo_def)
  from devfs_kmsg [OF dev_demo_dev this demo_log(1), of "[]" "[3, 9]"] show ?thesis unfolding demo_log(2) by auto
qed

end
