(* ===== verification/Vga.thy ===== *)
theory Vga
  imports LTOS_Prelude
begin

unbundle bit_operations_syntax

text \<open>
  The text screen, \<open>src/kernel/vga.cpp\<close>: 25 rows of 80 cells of two bytes, a cursor, a colour, and a small
  automaton for escape sequences with a buffer of 16 characters. \<open>None\<close> is an access outside of the
  cells or of that buffer.
\<close>

definition VGA_WIDTH :: u64 where "VGA_WIDTH = 80"
definition VGA_HEIGHT :: u64 where "VGA_HEIGHT = 25"

record vga =
  cells :: "u16 list"
  vga_row :: u64
  vga_col :: u64
  vga_color :: u8
  escape :: bool
  ansi :: "u8 list"
  ansi_pos :: u64

definition vga_start :: "u16 list \<Rightarrow> vga" where
  "vga_start screen = \<lparr>cells = screen, vga_row = 0, vga_col = 0, vga_color = 0x07, escape = False, ansi = replicate 16 0, ansi_pos = 0\<rparr>"

text \<open>A character is a signed byte, so one from 128 on sets all bits of the attribute.\<close>

definition vga_cell :: "u8 \<Rightarrow> u8 \<Rightarrow> u16" where
  "vga_cell color c = push_bit 8 (ucast color) OR scast c"

definition set_cell :: "u64 \<Rightarrow> u16 \<Rightarrow> vga \<Rightarrow> vga option" where
  "set_cell i v s = (if unat i < length (cells s) then Some (s\<lparr>cells := (cells s)[unat i := v]\<rparr>) else None)"

definition move_cell :: "u64 \<Rightarrow> u64 \<Rightarrow> vga \<Rightarrow> vga option" where
  "move_cell i j s = (if unat j < length (cells s) then set_cell i (cells s ! unat j) s else None)"

definition vga_blank :: "vga \<Rightarrow> u16" where "vga_blank s = vga_cell (vga_color s) 32"

definition indices :: "u64 \<Rightarrow> u64 list" where "indices n = map of_nat [0..<unat n]"

definition vga_set_color :: "u8 \<Rightarrow> u8 \<Rightarrow> vga \<Rightarrow> vga" where
  "vga_set_color fg bg s = s\<lparr>vga_color := push_bit 4 bg OR (fg AND 0x0F)\<rparr>"

definition vga_home :: "vga \<Rightarrow> vga" where "vga_home s = s\<lparr>vga_row := 0, vga_col := 0\<rparr>"

definition vga_clear :: "vga \<Rightarrow> vga option" where
  "vga_clear s = map_option vga_home (for_each (\<lambda>i s. set_cell i (vga_blank s) s) (indices (VGA_WIDTH * VGA_HEIGHT)) s)"

definition vga_clear_line :: "vga \<Rightarrow> vga option" where
  "vga_clear_line s =
     map_option (\<lambda>s. s\<lparr>vga_col := 0\<rparr>) (for_each (\<lambda>x s. set_cell (vga_row s * VGA_WIDTH + x) (vga_blank s) s) (indices VGA_WIDTH) s)"

definition vga_scroll :: "vga \<Rightarrow> vga option" where
  "vga_scroll s =
     Option.bind (for_each (\<lambda>y. for_each (\<lambda>x. move_cell ((y - 1) * VGA_WIDTH + x) (y * VGA_WIDTH + x)) (indices VGA_WIDTH))
                    (tl (indices VGA_HEIGHT)) s) (\<lambda>s.
     Option.bind (for_each (\<lambda>x s. set_cell ((VGA_HEIGHT - 1) * VGA_WIDTH + x) (vga_blank s) s) (indices VGA_WIDTH) s) (\<lambda>s.
     Some (s\<lparr>vga_row := VGA_HEIGHT - 1, vga_col := 0\<rparr>)))"

definition vga_newline :: "vga \<Rightarrow> vga option" where
  "vga_newline s =
     (let s = s\<lparr>vga_col := 0, vga_row := vga_row s + 1\<rparr>
      in if VGA_HEIGHT \<le> vga_row s then vga_scroll s else Some s)"

definition put_raw :: "u8 \<Rightarrow> vga \<Rightarrow> vga option" where
  "put_raw c s =
     Option.bind (set_cell (vga_row s * VGA_WIDTH + vga_col s) (vga_cell (vga_color s) c) s) (\<lambda>s.
     let s = s\<lparr>vga_col := vga_col s + 1\<rparr>
     in if VGA_WIDTH \<le> vga_col s then vga_newline s else Some s)"

definition ansi_text :: "string \<Rightarrow> u8 list" where "ansi_text = map of_char"

definition vga_handle_ansi :: "u8 list \<Rightarrow> vga \<Rightarrow> vga option" where
  "vga_handle_ansi sq s =
     (let is_seq = (\<lambda>t. takeWhile (\<lambda>c. c \<noteq> 0) sq = ansi_text t)
      in if is_seq ''[0m'' then Some (vga_set_color 7 0 s)
         else if is_seq ''[31m'' then Some (vga_set_color 4 0 s)
         else if is_seq ''[32m'' then Some (vga_set_color 2 0 s)
         else if is_seq ''[33m'' then Some (vga_set_color 6 0 s)
         else if is_seq ''[34m'' then Some (vga_set_color 1 0 s)
         else if is_seq ''[35m'' then Some (vga_set_color 5 0 s)
         else if is_seq ''[36m'' then Some (vga_set_color 3 0 s)
         else if is_seq ''[37m'' then Some (vga_set_color 7 0 s)
         else if is_seq ''[2J'' then vga_clear s
         else if is_seq ''[H'' then Some (vga_home s)
         else if is_seq ''[K'' then vga_clear_line s
         else Some s)"

definition set_ansi :: "u64 \<Rightarrow> u8 \<Rightarrow> vga \<Rightarrow> vga option" where
  "set_ansi i c s = (if unat i < length (ansi s) then Some (s\<lparr>ansi := (ansi s)[unat i := c]\<rparr>) else None)"

definition sequence_end :: "u8 \<Rightarrow> bool" where
  "sequence_end c \<longleftrightarrow> c \<in> set (ansi_text ''mJHK'')"

text \<open>The branch of \<open>put\<close> inside of an escape sequence.\<close>

definition put_escape :: "u8 \<Rightarrow> vga \<Rightarrow> vga option" where
  "put_escape c s =
     Option.bind (set_ansi (ansi_pos s) c s) (\<lambda>s.
     let s = s\<lparr>ansi_pos := ansi_pos s + 1\<rparr>
     in if sequence_end c
        then Option.bind (set_ansi (ansi_pos s) 0 s) (\<lambda>s.
             map_option (\<lambda>s. s\<lparr>escape := False, ansi_pos := 0\<rparr>) (vga_handle_ansi (ansi s) s))
        else Some s)"

function vga_put :: "u8 \<Rightarrow> vga \<Rightarrow> vga option" where
  "vga_put c s =
     (if c = 27 then Some (s\<lparr>escape := True, ansi_pos := 0\<rparr>)
      else if escape s then put_escape c s
      else if c = 10 then vga_newline s
      else if c = 13 then Some (s\<lparr>vga_col := 0\<rparr>)
      else if c = 9 then
        Option.bind (vga_put 32 s) (\<lambda>s. Option.bind (vga_put 32 s) (\<lambda>s. Option.bind (vga_put 32 s) (vga_put 32)))
      else if c = 8 then
        (if 0 < vga_col s
         then let s = s\<lparr>vga_col := vga_col s - 1\<rparr> in set_cell (vga_row s * VGA_WIDTH + vga_col s) (vga_blank s) s
         else Some s)
      else put_raw c s)"
  by pat_completeness auto
termination
  by (relation "measure (\<lambda>(c, s). if c = 9 then 1 else 0)") auto

declare vga_put.simps [simp del]

text \<open>\<open>write\<close>, on the bytes of the string before its zero.\<close>

definition vga_write :: "u8 list \<Rightarrow> vga \<Rightarrow> vga option" where
  "vga_write str s = for_each vga_put str s"

section \<open>The screen as one line of cells\<close>

text \<open>
  The specification: cells in one line and a position; a character goes to the position, and at the end of
  the line all cells move up by a row of blanks.
\<close>

definition vga_ok :: "vga \<Rightarrow> bool" where
  "vga_ok s \<longleftrightarrow> length (cells s) = 2000 \<and> vga_row s < 25 \<and> vga_col s < 80 \<and> length (ansi s) = 16 \<and> (escape s \<longrightarrow> ansi_pos s \<le> 16)"

definition vga_at :: "vga \<Rightarrow> nat" where "vga_at s = unat (vga_row s) * 80 + unat (vga_col s)"

definition roll :: "u16 \<Rightarrow> u16 list \<Rightarrow> u16 list" where "roll b cs = drop 80 cs @ replicate 80 b"

fun line_put :: "u8 \<Rightarrow> u8 \<Rightarrow> u16 list \<times> nat \<Rightarrow> u16 list \<times> nat" where
  "line_put color c (cs, p) =
     (let cs = cs[p := vga_cell color c]
      in if p + 1 = 2000 then (roll (vga_cell color 32) cs, 1920) else (cs, p + 1))"

lemma indices_numeral: "indices n = map of_nat [0..<unat n]"
  by (simp add: indices_def)

lemma for_each_append: "for_each f (xs @ ys) s = Option.bind (for_each f xs s) (for_each f ys)"
  by (induction xs arbitrary: s) (auto simp: Option.bind_eq_None_conv split: option.splits Option.bind_splits)

lemma unat_offset: "unat (b :: u64) + n < 2 ^ 64 \<Longrightarrow> unat (b + of_nat n) = unat b + n"
  by (simp add: unat_add_u64 unat_of_nat_u64)

lemma update_window:
  assumes "d + n < length cs" "length A = d" "length B = n"
  shows "(A @ B @ drop (d + n) cs)[d + n := v] = A @ (B @ [v]) @ drop (Suc (d + n)) cs"
proof -
  have "drop (d + n) cs = cs ! (d + n) # drop (Suc (d + n)) cs" using assms(1) by (simp add: Cons_nth_drop_Suc)
  thus ?thesis using assms(2,3) by (simp add: list_update_append)
qed

lemma fill_cells:
  assumes "unat b + n \<le> length (cells s)" "length (cells s) < 2 ^ 64" "\<And>t. vga_row t = vga_row s \<Longrightarrow> start t = b"
  shows "for_each (\<lambda>x s. set_cell (start s + x) (vga_blank s) s) (map of_nat [0..<n]) s =
    Some (s\<lparr>cells := take (unat b) (cells s) @ replicate n (vga_blank s) @ drop (unat b + n) (cells s)\<rparr>)"
  using assms(1)
proof (induction n)
  case (Suc n)
  have "unat (b + of_nat n) = unat b + n" using Suc.prems assms(2) by (simp add: unat_offset)
  thus ?case using Suc assms(3)
    by (simp add: for_each_append set_cell_def vga_blank_def update_window replicate_append_same)
qed simp

lemma move_cells:
  assumes "unat d + 80 = unat e" "unat e + 80 \<le> length (cells s)" "length (cells s) < 2 ^ 64" "n \<le> 80"
  shows "for_each (\<lambda>x. move_cell (d + x) (e + x)) (map of_nat [0..<n]) s =
    Some (s\<lparr>cells := take (unat d) (cells s) @ take n (drop (unat e) (cells s)) @ drop (unat d + n) (cells s)\<rparr>)"
  using assms(4)
proof (induction n)
  case (Suc n)
  let ?cs = "take (unat d) (cells s) @ take n (drop (unat e) (cells s)) @ drop (unat d + n) (cells s)"
  have u: "unat (d + of_nat n) = unat d + n" "unat (e + of_nat n) = unat e + n" using Suc.prems assms by (simp_all add: unat_offset)
  have n: "?cs ! (unat e + n) = cells s ! (unat e + n)" "length ?cs = length (cells s)"
    using assms Suc.prems by (auto simp: nth_append add.commute)
  have "take (Suc n) (drop (unat e) (cells s)) = take n (drop (unat e) (cells s)) @ [cells s ! (unat e + n)]"
    using assms Suc.prems by (simp add: take_Suc_conv_app_nth)
  hence "?cs[unat d + n := cells s ! (unat e + n)] =
      take (unat d) (cells s) @ take (Suc n) (drop (unat e) (cells s)) @ drop (Suc (unat d + n)) (cells s)"
    using assms Suc.prems update_window [of "unat d" n "cells s" "take (unat d) (cells s)" "take n (drop (unat e) (cells s))"] by simp
  thus ?case using Suc assms u n by (simp add: for_each_append set_cell_def move_cell_def)
qed simp

lemma vga_const [simp]: "unat VGA_WIDTH = 80" "unat VGA_HEIGHT = 25" "unat (VGA_WIDTH * VGA_HEIGHT) = 2000"
  "unat (VGA_HEIGHT - 1) = 24" "unat ((VGA_HEIGHT - 1) * VGA_WIDTH) = 1920"
  by (simp_all add: VGA_WIDTH_def VGA_HEIGHT_def)

lemma unat_row: "unat y < 25 \<Longrightarrow> unat (y * VGA_WIDTH) = unat y * 80"
  by (simp add: unat_mult_u64)

lemma rows_up:
  assumes "length (cells s) = 2000" "k < 25"
  shows "for_each (\<lambda>y. for_each (\<lambda>x. move_cell ((y - 1) * VGA_WIDTH + x) (y * VGA_WIDTH + x)) (indices VGA_WIDTH))
      (map of_nat [1..<Suc k]) s = Some (s\<lparr>cells := take (80 * k) (drop 80 (cells s)) @ drop (80 * k) (cells s)\<rparr>)"
  using assms(2)
proof (induction k)
  case (Suc k)
  let ?cs = "take (80 * k) (drop 80 (cells s)) @ drop (80 * k) (cells s)"
  have u: "unat (of_nat k * VGA_WIDTH) = 80 * k" "unat (of_nat (Suc k) * VGA_WIDTH) = 80 * k + 80"
    using Suc.prems by (simp_all add: unat_row unat_of_nat_u64 del: of_nat_Suc)
  have "take (80 * k) ?cs = take (80 * k) (drop 80 (cells s))" "drop (80 * k + 80) ?cs = drop (80 * k + 80) (cells s)"
    using Suc.prems assms(1) by (simp_all add: add.commute)
  hence "take (80 * k) ?cs @ take 80 (drop (80 * k + 80) ?cs) @ drop (80 * k + 80) ?cs =
      take (80 * Suc k) (drop 80 (cells s)) @ drop (80 * Suc k) (cells s)"
    using take_add [of "80 * k" 80 "drop 80 (cells s)"] by (simp only: mult_Suc_right add.commute [of 80] append_assoc [symmetric] drop_drop)
  moreover have "of_nat (Suc k) - 1 = (of_nat k :: u64)" by simp
  moreover have "[1..<Suc (Suc k)] = [1..<Suc k] @ [Suc k]" by simp
  ultimately show ?case using Suc assms(1) u move_cells [of "of_nat k * VGA_WIDTH" "of_nat (Suc k) * VGA_WIDTH" "s\<lparr>cells := ?cs\<rparr>" 80]
    by (simp add: for_each_append indices_def del: of_nat_Suc upt_Suc append_assoc)
qed simp

lemma scroll_rolls:
  assumes "length (cells s) = 2000"
  shows "vga_scroll s = Some (s\<lparr>cells := roll (vga_blank s) (cells s), vga_row := 24, vga_col := 0\<rparr>)"
proof -
  let ?b = "(VGA_HEIGHT - 1) * VGA_WIDTH"
  have h: "tl (indices VGA_HEIGHT) = map of_nat [1..<Suc 24]" "VGA_HEIGHT - 1 = 24"
    by (simp_all add: indices_def upt_conv_Cons VGA_HEIGHT_def)
  have b: "for_each (\<lambda>x s. set_cell (?b + x) (vga_blank s) s) (indices VGA_WIDTH) t =
      Some (t\<lparr>cells := take 1920 (cells t) @ replicate 80 (vga_blank t) @ drop 2000 (cells t)\<rparr>)" if "length (cells t) = 2000" for t
    using fill_cells [of ?b 80 t "\<lambda>_. ?b"] that by (simp add: indices_def)
  show ?thesis using rows_up [OF assms, of 24] assms
    by (simp add: vga_scroll_def h(1) b roll_def vga_blank_def [of "s\<lparr>cells := _\<rparr>"] del: vga_const(4)) (simp add: h(2) vga_blank_def)
qed

lemmas vga_bounds = vga_ok_def word_less_nat_alt word_le_nat_alt

text \<open>The fields that drawing leaves alone.\<close>

definition same_mode :: "vga \<Rightarrow> vga \<Rightarrow> bool" where
  "same_mode s t \<longleftrightarrow> vga_color t = vga_color s \<and> escape t = escape s \<and> ansi t = ansi s \<and> ansi_pos t = ansi_pos s"

lemma last_row: "(r :: u64) = 24 \<longleftrightarrow> unat r = 24"
  by (simp add: word_unat_eq_iff)

lemma newline_line:
  assumes "length (cells s) = 2000" "unat (vga_row s) < 25"
  shows "\<exists>t. vga_newline s = Some t \<and> same_mode s t \<and> length (cells t) = 2000 \<and> vga_row t < 25 \<and> vga_col t = 0 \<and>
    (cells t, vga_at t) = (if vga_row s = 24 then (roll (vga_blank s) (cells s), 1920) else (cells s, unat (vga_row s) * 80 + 80))"
proof (cases "vga_row s = 24")
  case True
  thus ?thesis using assms
    by (simp add: vga_newline_def VGA_HEIGHT_def scroll_rolls same_mode_def roll_def vga_at_def vga_blank_def)
next
  case False
  hence "unat (vga_row s) \<noteq> 24" by (simp add: last_row)
  moreover from this have "unat (vga_row s + 1) = unat (vga_row s) + 1" using assms(2) by (simp add: unat_add_u64)
  ultimately show ?thesis using assms False
    by (simp add: vga_newline_def VGA_HEIGHT_def same_mode_def vga_at_def word_less_nat_alt word_le_nat_alt)
qed

lemma put_raw_line:
  assumes "vga_ok s"
  shows "\<exists>t. put_raw c s = Some t \<and> same_mode s t \<and> vga_ok t \<and>
    (cells t, vga_at t) = line_put (vga_color s) c (cells s, vga_at s)"
proof -
  let ?v = "vga_cell (vga_color s) c"
  let ?s = "s\<lparr>cells := (cells s)[vga_at s := ?v], vga_col := vga_col s + 1\<rparr>"
  have ok: "length (cells s) = 2000" "unat (vga_row s) < 25" "unat (vga_col s) < 80" "length (ansi s) = 16" "escape s \<longrightarrow> ansi_pos s \<le> 16"
    using assms by (simp_all add: vga_ok_def word_less_nat_alt)
  have at: "unat (vga_row s * VGA_WIDTH + vga_col s) = vga_at s"
    using ok by (simp add: vga_at_def unat_add_u64 unat_row)
  have col: "unat (vga_col s + 1) = unat (vga_col s) + 1" using ok by (simp add: unat_add_u64)
  have "vga_at s < 2000" using ok by (simp add: vga_at_def)
  hence step: "put_raw c s = (if unat (vga_col s) = 79 then vga_newline ?s else Some ?s)"
    using ok at col by (simp add: put_raw_def set_cell_def word_le_nat_alt)
  have row: "vga_row s = 24 \<longleftrightarrow> unat (vga_row s) = 24" by (rule last_row)
  show ?thesis
  proof (cases "unat (vga_col s) = 79")
    case True
    have "vga_at s + 1 = 2000 \<longleftrightarrow> unat (vga_row s) = 24" "vga_at s + 1 = unat (vga_row s) * 80 + 80"
      using True ok by (simp_all add: vga_at_def)
    thus ?thesis using newline_line [of ?s] ok step True row by (auto simp: same_mode_def vga_ok_def vga_blank_def)
  next
    case False
    hence "vga_at s + 1 \<noteq> 2000" "vga_at ?s = vga_at s + 1" using ok col by (simp_all add: vga_at_def)
    thus ?thesis using False ok col step by (simp add: same_mode_def vga_ok_def word_less_nat_alt)
  qed
qed

section \<open>Escape sequences\<close>

text \<open>
  How full the buffer of a sequence is, if one is open, and what a character does to it; \<open>None\<close> is an
  overrun.
\<close>

definition seq_state :: "vga \<Rightarrow> nat option" where
  "seq_state s = (if escape s then Some (unat (ansi_pos s)) else None)"

definition seq_step :: "u8 \<Rightarrow> nat option \<Rightarrow> nat option option" where
  "seq_step c st =
     (if c = 27 then Some (Some 0)
      else case st of
        None \<Rightarrow> Some None
      | Some k \<Rightarrow> if sequence_end c then (if k < 15 then Some None else None)
                  else if k < 16 then Some (Some (Suc k)) else None)"

lemma vga_clear_ok: "vga_ok s \<Longrightarrow> \<exists>t. vga_clear s = Some t \<and> vga_ok t"
  using fill_cells [of 0 2000 s "\<lambda>_. 0"] by (auto simp: vga_clear_def indices_def vga_ok_def vga_home_def)

lemma vga_clear_line_ok:
  assumes "vga_ok s"
  shows "\<exists>t. vga_clear_line s = Some t \<and> vga_ok t"
proof -
  let ?b = "vga_row s * VGA_WIDTH"
  have l: "length (cells s) = 2000" "unat ?b + 80 \<le> 2000" using assms unat_row [of "vga_row s"] by (simp_all add: vga_ok_def word_less_nat_alt)
  have "for_each (\<lambda>x s. set_cell (vga_row s * VGA_WIDTH + x) (vga_blank s) s) (indices VGA_WIDTH) s =
      Some (s\<lparr>cells := take (unat ?b) (cells s) @ replicate 80 (vga_blank s) @ drop (unat ?b + 80) (cells s)\<rparr>)"
    unfolding indices_def vga_const by (rule fill_cells) (use l in simp_all)
  thus ?thesis using assms l by (simp add: vga_clear_line_def vga_ok_def)
qed

lemma vga_handle_ansi_ok: "vga_ok s \<Longrightarrow> \<exists>t. vga_handle_ansi sq s = Some t \<and> vga_ok t"
  unfolding vga_handle_ansi_def Let_def using vga_clear_ok vga_clear_line_ok
  by (auto simp: vga_set_color_def vga_home_def vga_ok_def split: if_split)

lemma put_escape_ok:
  assumes "vga_ok s" "escape s" "c \<noteq> 27"
  shows "case seq_step c (seq_state s) of
      None \<Rightarrow> put_escape c s = None
    | Some st \<Rightarrow> (\<exists>t. put_escape c s = Some t \<and> vga_ok t \<and> seq_state t = st)"
proof -
  let ?s = "s\<lparr>ansi := (ansi s)[unat (ansi_pos s) := c], ansi_pos := ansi_pos s + 1\<rparr>"
  have p: "unat (ansi_pos s) \<le> 16" "length (ansi s) = 16" using assms(1,2) by (simp_all add: vga_ok_def word_le_nat_alt)
  hence p1: "unat (ansi_pos s + 1) = unat (ansi_pos s) + 1" by (simp add: unat_add_u64)
  have open_seq: "seq_step c (seq_state s) =
      (if sequence_end c then (if unat (ansi_pos s) < 15 then Some None else None)
       else if unat (ansi_pos s) < 16 then Some (Some (Suc (unat (ansi_pos s)))) else None)"
    using assms(2,3) by (simp add: seq_step_def seq_state_def)
  show ?thesis
  proof (cases "unat (ansi_pos s) < 16")
    case False
    thus ?thesis using p by (simp add: open_seq put_escape_def set_ansi_def)
  next
    case True
    let ?z = "?s\<lparr>ansi := (ansi ?s)[unat (ansi_pos ?s) := 0]\<rparr>"
    have ok: "vga_ok ?s" "vga_ok ?z" using True assms(1) p p1 by (simp_all add: vga_ok_def word_le_nat_alt)
    have step: "put_escape c s =
        (if sequence_end c
         then (if unat (ansi_pos s) < 15 then map_option (\<lambda>s. s\<lparr>escape := False, ansi_pos := 0\<rparr>) (vga_handle_ansi (ansi ?z) ?z) else None)
         else Some ?s)"
      using True p p1 by (simp add: put_escape_def set_ansi_def)
    obtain t where "vga_handle_ansi (ansi ?z) ?z = Some t" "vga_ok t" using vga_handle_ansi_ok [OF ok(2)] by blast
    hence z: "\<exists>t. map_option (\<lambda>s. s\<lparr>escape := False, ansi_pos := 0\<rparr>) (vga_handle_ansi (ansi ?z) ?z) = Some t \<and> vga_ok t \<and> seq_state t = None"
      by (auto simp: vga_ok_def seq_state_def)
    have "seq_state ?s = Some (Suc (unat (ansi_pos s)))" using assms(2) p1 by (simp add: seq_state_def)
    thus ?thesis using True z ok(1) unfolding step open_seq by (cases "sequence_end c") (simp_all split: if_split)
  qed
qed

lemma put_raw_ok: "vga_ok s \<Longrightarrow> \<exists>t. put_raw c s = Some t \<and> vga_ok t \<and> escape t = escape s \<and> ansi_pos t = ansi_pos s"
  using put_raw_line [of s c] by (auto simp: same_mode_def)

lemma vga_put_space: "\<not> escape s \<Longrightarrow> vga_put 32 s = put_raw 32 s"
  by (simp add: vga_put.simps)

lemma vga_put_tab:
  assumes "vga_ok s" "\<not> escape s"
  shows "\<exists>t. vga_put 9 s = Some t \<and> vga_ok t \<and> \<not> escape t"
proof -
  have step: "\<exists>t. vga_put 32 s = Some t \<and> vga_ok t \<and> \<not> escape t" if "vga_ok s" "\<not> escape s" for s
    using put_raw_ok [OF that(1)] that(2) by (auto simp: vga_put_space)
  obtain s1 where s1: "vga_put 32 s = Some s1" "vga_ok s1" "\<not> escape s1" using step assms by blast
  obtain s2 where s2: "vga_put 32 s1 = Some s2" "vga_ok s2" "\<not> escape s2" using step s1 by blast
  obtain s3 where s3: "vga_put 32 s2 = Some s3" "vga_ok s3" "\<not> escape s3" using step s2 by blast
  show ?thesis using step [OF s3(2,3)] s1 s2 s3 assms(2) by (subst vga_put.simps) simp
qed

lemma vga_newline_ok: "vga_ok s \<Longrightarrow> \<exists>t. vga_newline s = Some t \<and> vga_ok t \<and> escape t = escape s"
  using newline_line [of s] by (auto simp: vga_ok_def same_mode_def word_less_nat_alt)

lemma rub_out_ok:
  assumes "vga_ok s" "0 < vga_col s"
  shows "\<exists>t. set_cell (vga_row s * VGA_WIDTH + (vga_col s - 1)) v (s\<lparr>vga_col := vga_col s - 1\<rparr>) = Some t \<and> vga_ok t \<and> escape t = escape s"
proof -
  have r: "unat (vga_row s) < 25" "unat (vga_col s) < 80" using assms(1) by (simp_all add: vga_ok_def word_less_nat_alt)
  have "unat (vga_col s - 1) = unat (vga_col s) - 1" using assms(2) by (simp add: unat_minus_one word_neq_0_conv)
  moreover from this have "unat (vga_row s * VGA_WIDTH + (vga_col s - 1)) = unat (vga_row s) * 80 + (unat (vga_col s) - 1)"
    using r unat_row [of "vga_row s"] unat_add_u64 [of "vga_row s * VGA_WIDTH" "vga_col s - 1"] by simp
  moreover have "unat (vga_row s) * 80 + (unat (vga_col s) - 1) < 2000" "unat (vga_col s) - 1 < 80" using r by linarith+
  ultimately show ?thesis using assms(1) by (simp add: set_cell_def vga_ok_def word_less_nat_alt)
qed

lemma vga_put_ok:
  assumes "vga_ok s"
  shows "case seq_step c (seq_state s) of
      None \<Rightarrow> vga_put c s = None
    | Some st \<Rightarrow> (\<exists>t. vga_put c s = Some t \<and> vga_ok t \<and> seq_state t = st)"
proof (cases "c = 27 \<or> escape s")
  case True
  show ?thesis
  proof (cases "c = 27")
    case True
    thus ?thesis using assms by (auto simp: vga_put.simps seq_step_def seq_state_def vga_ok_def)
  next
    case c: False
    thus ?thesis using put_escape_ok [OF assms _ c] True by (simp add: vga_put.simps cong: option.case_cong)
  qed
next
  case False
  have "\<exists>t. vga_put c s = Some t \<and> vga_ok t \<and> \<not> escape t"
  proof (cases "c = 9")
    case True
    thus ?thesis using vga_put_tab assms False by simp
  next
    case c: False
    show ?thesis using False c vga_newline_ok [OF assms] put_raw_ok [OF assms, of c] rub_out_ok [OF assms] assms
      by (subst vga_put.simps) (auto simp: Let_def vga_ok_def vga_blank_def)
  qed
  thus ?thesis using False by (auto simp: seq_step_def seq_state_def)
qed

lemma vga_write_run:
  "vga_ok s \<Longrightarrow> case for_each seq_step str (seq_state s) of
      None \<Rightarrow> vga_write str s = None
    | Some st \<Rightarrow> (\<exists>t. vga_write str s = Some t \<and> vga_ok t \<and> seq_state t = st)"
proof (induction str arbitrary: s)
  case (Cons c str)
  show ?case
  proof (cases "seq_step c (seq_state s)")
    case None
    thus ?thesis using vga_put_ok [OF Cons.prems, of c] by (simp add: vga_write_def)
  next
    case (Some st)
    then obtain t where "vga_put c s = Some t" "vga_ok t" "seq_state t = st" using vga_put_ok [OF Cons.prems, of c] by auto
    thus ?thesis using Cons.IH [of t] Some by (simp add: vga_write_def cong: option.case_cong)
  qed
qed (simp add: vga_write_def)

section \<open>Properties\<close>

text \<open>
  C24: writing to the text screen stays within its 2000 cells, keeps the cursor on it and returns, exactly
  when no escape sequence of the text is longer than its buffer; a longer one overruns the buffer.
\<close>

theorem vga_write_bounds:
  assumes "vga_ok s"
  shows "(\<exists>t. vga_write str s = Some t \<and> vga_ok t) \<longleftrightarrow> for_each seq_step str (seq_state s) \<noteq> None"
  using vga_write_run [OF assms, of str] by (cases "for_each seq_step str (seq_state s)") auto

theorem vga_write_bounds_witness:
  "(\<exists>t. vga_write (27 # replicate 15 49) (vga_start (replicate 2000 0)) = Some t \<and> vga_ok t) \<and>
   \<not> (\<exists>t. vga_write (27 # replicate 15 49 @ [109]) (vga_start (replicate 2000 0)) = Some t \<and> vga_ok t)"
proof -
  let ?s = "vga_start (replicate 2000 0)"
  have ok: "vga_ok ?s" "seq_state ?s = None" by (simp_all add: vga_ok_def vga_start_def seq_state_def)
  have "for_each seq_step (27 # replicate 15 49) None \<noteq> None" "for_each seq_step (27 # replicate 15 49 @ [109]) None = None"
    by code_simp+
  thus ?thesis using vga_write_bounds [OF ok(1)] ok(2) by simp
qed

lemma plain_line:
  assumes "vga_ok s" "\<not> escape s" "c \<notin> {27, 10, 13, 9, 8}"
  shows "\<exists>t. vga_put c s = Some t \<and> vga_ok t \<and> \<not> escape t \<and> vga_color t = vga_color s \<and>
    (cells t, vga_at t) = line_put (vga_color s) c (cells s, vga_at s)"
proof -
  have "vga_put c s = put_raw c s" using assms(2,3) by (simp add: vga_put.simps)
  thus ?thesis using put_raw_line [OF assms(1), of c] assms(2) by (auto simp: same_mode_def)
qed

text \<open>
  text without control characters appears as on one line of 2000 cells: each character goes to the next
  cell in the current colour, and at the end all cells move up by one row of blanks.
\<close>

theorem vga_text:
  assumes "vga_ok s" "\<not> escape s" "list_all (\<lambda>c. c \<notin> {27, 10, 13, 9, 8}) str"
  shows "\<exists>t. vga_write str s = Some t \<and> vga_ok t \<and> vga_color t = vga_color s \<and>
    (cells t, vga_at t) = fold (line_put (vga_color s)) str (cells s, vga_at s)"
  using assms
proof (induction str arbitrary: s)
  case (Cons c str)
  obtain t where t: "vga_put c s = Some t" "vga_ok t" "\<not> escape t" "vga_color t = vga_color s"
      "(cells t, vga_at t) = line_put (vga_color s) c (cells s, vga_at s)"
    using plain_line [of s c] Cons.prems by auto
  show ?case using Cons.IH [OF t(2,3)] Cons.prems(3) t by (auto simp: vga_write_def simp del: line_put.simps)
qed (simp add: vga_write_def)

theorem vga_text_witness:
  "\<exists>t. vga_write [72, 105] (vga_start (replicate 2000 0)) = Some t \<and> vga_ok t \<and> take 3 (cells t) = [0x0748, 0x0769, 0] \<and> vga_at t = 2"
proof -
  let ?s = "vga_start (replicate 2000 0)"
  have ok: "vga_ok ?s" "\<not> escape ?s" "list_all (\<lambda>c. c \<notin> {27, 10, 13, 9, 8 :: u8}) [72, 105]" by (simp_all add: vga_ok_def vga_start_def)
  have l: "fold (line_put 7) [72, 105] (replicate 2000 0, 0) = ((replicate 2000 0)[0 := 0x0748, 1 := 0x0769], 2)"
    by (simp add: vga_cell_def)
  have "take 3 ((replicate 2000 0 :: u16 list)[0 := 0x0748, 1 := 0x0769]) = [0x0748, 0x0769, 0]"
    by (simp add: take_update_swap numeral_3_eq_3)
  thus ?thesis using vga_text [OF ok] l by (auto simp: vga_start_def vga_at_def)
qed

end
