(* ===== verification/Acpi.thy ===== *)
theory Acpi
  imports Byte_Paths
begin

unbundle bit_operations_syntax

text \<open>
  Power management, \<open>src/kernel/drivers/acpi.cpp\<close>, and the interrupt controller, \<open>src/kernel/drivers/pic.cpp\<close>: the
  search of the firmware tables in memory for the port that switches the machine off, and the bytes that
  go to the ports.
\<close>

section \<open>The tables\<close>

record acpi =
  pm1a_cnt_port :: u32
  acpi_initialized :: bool

definition acpi_start :: acpi where "acpi_start = \<lparr>pm1a_cnt_port = 0x604, acpi_initialized = False\<rparr>"

definition signature :: "string \<Rightarrow> u8 list" where "signature = map of_char"

definition check_rsdp :: "mem \<Rightarrow> u64 \<Rightarrow> bool" where
  "check_rsdp m p \<longleftrightarrow> bytes_at m p 8 = signature ''RSD PTR '' \<and> sum_list (bytes_at m p 20) = 0"

definition find_rsdp :: "mem \<Rightarrow> u64 option" where
  "find_rsdp m = find (check_rsdp m) (map (\<lambda>i. 0xE0000 + of_nat (16 * i)) [0..<0x2000])"

definition rsdt_address :: "mem \<Rightarrow> u64 \<Rightarrow> u64" where "rsdt_address m rsdp = ucast (read32 m (rsdp + 16))"
definition sdt_length :: "mem \<Rightarrow> u64 \<Rightarrow> u32" where "sdt_length m h = read32 m (h + 4)"
definition pm1a_cnt_blk :: "mem \<Rightarrow> u64 \<Rightarrow> u32" where "pm1a_cnt_blk m fadt = read32 m (fadt + 64)"
definition SIZEOF_SDT :: u64 where "SIZEOF_SDT = 36"

definition table_ptr :: "mem \<Rightarrow> u64 \<Rightarrow> u64 \<Rightarrow> u64" where
  "table_ptr m rsdt i = ucast (read32 m (rsdt + SIZEOF_SDT + i * 4))"

definition is_fadt :: "mem \<Rightarrow> u64 \<Rightarrow> bool" where
  "is_fadt m h \<longleftrightarrow> h \<noteq> 0 \<and> bytes_at m h 4 = signature ''FACP''"

function find_fadt :: "mem \<Rightarrow> u64 \<Rightarrow> u64 \<Rightarrow> u64 \<Rightarrow> u64 option" where
  "find_fadt m rsdt entries i =
     (if i < entries
      then (if is_fadt m (table_ptr m rsdt i) then Some (table_ptr m rsdt i) else find_fadt m rsdt entries (i + 1))
      else None)"
  by pat_completeness auto
termination
  by (relation "measure (\<lambda>(m, r, n, i). unat n - unat i)") (auto simp: unat_Suc_u64 word_less_nat_alt)

declare find_fadt.simps [simp del]

definition acpi_init :: "mem \<Rightarrow> acpi \<Rightarrow> acpi" where
  "acpi_init m s =
     (if acpi_initialized s then s
      else let s = s\<lparr>acpi_initialized := True\<rparr>
           in case find_rsdp m of
                None \<Rightarrow> s
              | Some rsdp \<Rightarrow>
                  (let rsdt = rsdt_address m rsdp
                   in if rsdt = 0 \<or> bytes_at m rsdt 4 \<noteq> signature ''RSDT'' then s
                      else case find_fadt m rsdt ((ucast (sdt_length m rsdt) - SIZEOF_SDT) div 4) 0 of
                             None \<Rightarrow> s
                           | Some fadt \<Rightarrow>
                               if pm1a_cnt_blk m fadt \<noteq> 0 then s\<lparr>pm1a_cnt_port := pm1a_cnt_blk m fadt\<rparr> else s))"

text \<open>The words that \<open>poweroff\<close> sends before it halts.\<close>

definition acpi_poweroff :: "mem \<Rightarrow> acpi \<Rightarrow> acpi \<times> (u16 \<times> u16) list" where
  "acpi_poweroff m s =
     (let s = acpi_init m s
      in (s, [(ucast (pm1a_cnt_port s), 0x2000), (0x604, 0x2000), (0xB004, 0x2000), (0x600, 0x3400), (0x4004, 0x3400)]))"

text \<open>
  \<open>reboot\<close> takes status bytes until the input buffer is empty and then sends the reset; \<open>None\<close> stands for
  waiting on.
\<close>

fun acpi_reboot :: "u8 list \<Rightarrow> (u16 \<times> u8) option" where
  "acpi_reboot [] = None"
| "acpi_reboot (status # rest) = (if status AND 0x02 \<noteq> 0 then acpi_reboot rest else Some (0x64, 0xFE))"

section \<open>The interrupt controller\<close>

definition PIC1 :: u16 where "PIC1 = 0x20"
definition PIC2 :: u16 where "PIC2 = 0xA0"

definition pic_init :: "(u16 \<times> u8) list" where
  "pic_init =
     concat (map (\<lambda>(p, v). [(p, v), (0x80, 0)])
       [(PIC1, 0x11), (PIC2, 0x11), (PIC1 + 1, 0x20), (PIC2 + 1, 0x28), (PIC1 + 1, 4), (PIC2 + 1, 2), (PIC1 + 1, 0x01), (PIC2 + 1, 0x01)])
     @ [(PIC1 + 1, 0xFE), (PIC2 + 1, 0xFF)]"

text \<open>\<open>enable_irq\<close>: the port, and the mask that is written there for the mask that was read.\<close>

definition enable_irq :: "u8 \<Rightarrow> (u16 \<Rightarrow> u8) \<Rightarrow> u16 \<times> u8" where
  "enable_irq irq rd =
     (let (port, irq) = (if irq < 8 then (0x21, irq) else (0xA1, irq - 8))
      in (port, rd port AND NOT (push_bit (unat irq) 1)))"

definition eoi :: "u8 \<Rightarrow> (u16 \<times> u8) list" where
  "eoi irq = (if 8 \<le> irq then [(PIC2, 0x20)] else []) @ [(PIC1, 0x20)]"

section \<open>What the search finds\<close>

lemma find_fadt_from:
  "find_fadt m rsdt entries i = find (is_fadt m) (map (table_ptr m rsdt \<circ> of_nat) [unat i..<unat entries])"
proof (induction "unat entries - unat i" arbitrary: i)
  case 0
  thus ?case by (subst find_fadt.simps) (simp add: word_less_nat_alt)
next
  case (Suc n)
  hence less: "i < entries" "unat i < unat entries" by (simp_all add: word_less_nat_alt)
  hence "n = unat entries - unat (i + 1)" using Suc.hyps(2) by (simp add: unat_Suc_u64)
  thus ?case using Suc.hyps(1) [of "i + 1"] less
    by (subst find_fadt.simps) (simp add: upt_conv_Cons unat_Suc_u64)
qed

lemma find_first: "p x \<Longrightarrow> list_all (\<lambda>y. \<not> p y) ys \<Longrightarrow> find p (ys @ x # zs) = Some x"
  by (induction ys) auto

text \<open>
  The tables as the firmware describes them: the root pointer at \<open>a\<close>, the first valid one of the area, a root
  table at \<open>r\<close> with pointers to the tables \<open>ts\<close>.
\<close>

definition firmware :: "mem \<Rightarrow> nat \<Rightarrow> u64 \<Rightarrow> u64 list \<Rightarrow> bool" where
  "firmware m k r ts \<longleftrightarrow>
     k < 0x2000 \<and> check_rsdp m (0xE0000 + of_nat (16 * k)) \<and> (\<forall>j<k. \<not> check_rsdp m (0xE0000 + of_nat (16 * j))) \<and>
     rsdt_address m (0xE0000 + of_nat (16 * k)) = r \<and> r \<noteq> 0 \<and> bytes_at m r 4 = signature ''RSDT'' \<and>
     unat (sdt_length m r) = 36 + 4 * length ts \<and> ts = map (table_ptr m r \<circ> of_nat) [0..<length ts]"

lemma firmware_rsdp: "firmware m k r ts \<Longrightarrow> find_rsdp m = Some (0xE0000 + of_nat (16 * k))"
proof -
  assume f: "firmware m k r ts"
  let ?a = "\<lambda>i. 0xE0000 + of_nat (16 * i) :: u64"
  have k: "k < 0x2000" using f by (simp add: firmware_def)
  have "[0..<0x2000] = [0..<k] @ [k..<0x2000]" using k upt_add_eq_append [of 0 k "0x2000 - k"] by simp
  also have "[k..<0x2000] = k # [Suc k..<0x2000]" using k by (simp only: upt_conv_Cons)
  finally have "map ?a [0..<0x2000] = map ?a [0..<k] @ ?a k # map ?a [Suc k..<0x2000]" by (simp only: map_append list.map)
  thus ?thesis unfolding find_rsdp_def using f by (simp add: firmware_def find_first list_all_iff)
qed

lemma firmware_entries:
  assumes "firmware m k r ts"
  shows "find_fadt m r ((ucast (sdt_length m r) - SIZEOF_SDT) div 4) 0 = find (is_fadt m) ts"
proof -
  have l: "unat (ucast (sdt_length m r) :: u64) = 36 + 4 * length ts" using assms by (simp add: firmware_def unat_ucast_u32)
  have "SIZEOF_SDT \<le> ucast (sdt_length m r)" using l by (simp add: SIZEOF_SDT_def word_le_nat_alt)
  hence "unat ((ucast (sdt_length m r) - SIZEOF_SDT) div 4) = length ts" using l by (simp add: SIZEOF_SDT_def unat_sub_u64 unat_div_distrib)
  thus ?thesis using assms by (simp add: find_fadt_from firmware_def)
qed

text \<open>
  when the firmware has tables, switching off writes the sleep command to the control port that the first
  fixed description table names, before the fixed ports of emulators.
\<close>

theorem acpi_poweroff_port:
  assumes "firmware m k r (ys @ t # zs)" "is_fadt m t" "list_all (\<lambda>y. \<not> is_fadt m y) ys"
    and "pm1a_cnt_blk m t = c" "c \<noteq> 0" "\<not> acpi_initialized s"
  shows "\<exists>rest. acpi_poweroff m s = (s\<lparr>acpi_initialized := True, pm1a_cnt_port := c\<rparr>, (ucast c, 0x2000) # rest)"
proof -
  have "find_fadt m r ((ucast (sdt_length m r) - SIZEOF_SDT) div 4) 0 = Some t"
    using firmware_entries [OF assms(1)] assms(2,3) by (simp add: find_first)
  moreover have "rsdt_address m (0xE0000 + of_nat (16 * k)) = r" "r \<noteq> 0" "bytes_at m r 4 = signature ''RSDT''"
    using assms(1) by (simp_all add: firmware_def)
  ultimately show ?thesis using firmware_rsdp [OF assms(1)] assms(4-6)
    by (simp add: acpi_poweroff_def acpi_init_def Let_def)
qed

text \<open>A small firmware image: a root table with one entry, whose control port is \<open>0xB004\<close>.\<close>

definition sample_firmware :: mem where
  "sample_firmware = (\<lambda>_. 0)(
     0xE0000 := 82, 0xE0001 := 83, 0xE0002 := 68, 0xE0003 := 32, 0xE0004 := 80, 0xE0005 := 84, 0xE0006 := 82, 0xE0007 := 32,
     0xE0008 := 209, 0xE0011 := 0x10,
     0x1000 := 82, 0x1001 := 83, 0x1002 := 68, 0x1003 := 84, 0x1004 := 40, 0x1025 := 0x20,
     0x2000 := 70, 0x2001 := 65, 0x2002 := 67, 0x2003 := 80, 0x2040 := 4, 0x2041 := 0xB0)"

lemmas sample_simps = sample_firmware_def signature_def bytes_at_def read32_def load_4 upt_conv_Cons

lemma sample_tables:
  "check_rsdp sample_firmware 0xE0000" "rsdt_address sample_firmware 0xE0000 = 0x1000"
  "bytes_at sample_firmware 0x1000 4 = signature ''RSDT''" "sdt_length sample_firmware 0x1000 = 40"
  "table_ptr sample_firmware 0x1000 0 = 0x2000" "is_fadt sample_firmware 0x2000" "pm1a_cnt_blk sample_firmware 0x2000 = 0xB004"
  by (simp_all add: sample_simps check_rsdp_def rsdt_address_def sdt_length_def table_ptr_def SIZEOF_SDT_def is_fadt_def pm1a_cnt_blk_def)

theorem acpi_poweroff_port_witness:
  "\<exists>rest. acpi_poweroff sample_firmware acpi_start = (\<lparr>pm1a_cnt_port = 0xB004, acpi_initialized = True\<rparr>, (0xB004, 0x2000) # rest)"
proof -
  have "firmware sample_firmware 0 0x1000 ([] @ [0x2000])"
    using sample_tables by (simp add: firmware_def)
  from acpi_poweroff_port [OF this sample_tables(6) _ sample_tables(7), of acpi_start]
  show ?thesis by (simp add: acpi_start_def)
qed

end
