(* ===== verification/Pci.thy ===== *)
theory Pci
  imports LTOS_Prelude
begin

unbundle bit_operations_syntax

text \<open>
  The PCI bus, \<open>src/kernel/drivers/pci.cpp\<close>: access to the configuration space through an address and a data
  port, and the search for a device. The configuration space is a parameter: a state that a dword is read
  from and written to under the value of the address port; reading it has no side effects.
\<close>

record 'h pci_bus =
  cfg_in :: "u32 \<Rightarrow> 'h \<Rightarrow> u32"
  cfg_out :: "u32 \<Rightarrow> u32 \<Rightarrow> 'h \<Rightarrow> 'h"

record pci_device =
  pci_bus_no :: u8
  pci_slot :: u8
  pci_func :: u8
  vendor_id :: u16
  device_id :: u16
  class_code :: u8
  pci_subclass :: u8
  prog_if :: u8
  header_type :: u8
  bar :: "u32 list"

definition config_address :: "u8 \<Rightarrow> u8 \<Rightarrow> u8 \<Rightarrow> u8 \<Rightarrow> u32" where
  "config_address bus slot func off =
     push_bit 16 (ucast bus) OR push_bit 11 (ucast slot) OR push_bit 8 (ucast func) OR ucast (off AND 0xFC) OR 0x80000000"

definition read_config32 :: "'h pci_bus \<Rightarrow> 'h \<Rightarrow> u8 \<Rightarrow> u8 \<Rightarrow> u8 \<Rightarrow> u8 \<Rightarrow> u32" where
  "read_config32 P h bus slot func off = cfg_in P (config_address bus slot func off) h"

definition read_config16 :: "'h pci_bus \<Rightarrow> 'h \<Rightarrow> u8 \<Rightarrow> u8 \<Rightarrow> u8 \<Rightarrow> u8 \<Rightarrow> u16" where
  "read_config16 P h bus slot func off =
     ucast (drop_bit (unat (off AND 2) * 8) (read_config32 P h bus slot func off) AND 0xFFFF)"

definition read_config8 :: "'h pci_bus \<Rightarrow> 'h \<Rightarrow> u8 \<Rightarrow> u8 \<Rightarrow> u8 \<Rightarrow> u8 \<Rightarrow> u8" where
  "read_config8 P h bus slot func off =
     ucast (drop_bit (unat (off AND 3) * 8) (read_config32 P h bus slot func off) AND 0xFF)"

definition write_config32 :: "'h pci_bus \<Rightarrow> u8 \<Rightarrow> u8 \<Rightarrow> u8 \<Rightarrow> u8 \<Rightarrow> u32 \<Rightarrow> 'h \<Rightarrow> 'h" where
  "write_config32 P bus slot func off v h = cfg_out P (config_address bus slot func off) v h"

definition write_config16 :: "'h pci_bus \<Rightarrow> u8 \<Rightarrow> u8 \<Rightarrow> u8 \<Rightarrow> u8 \<Rightarrow> u16 \<Rightarrow> 'h \<Rightarrow> 'h" where
  "write_config16 P bus slot func off v h =
     (let shift = unat (off AND 2) * 8;
          orig = read_config32 P h bus slot func off AND NOT (push_bit shift 0xFFFF)
      in write_config32 P bus slot func off (orig OR push_bit shift (ucast v)) h)"

definition enable_bus_mastering :: "'h pci_bus \<Rightarrow> pci_device \<Rightarrow> 'h \<Rightarrow> 'h" where
  "enable_bus_mastering P d h =
     write_config32 P (pci_bus_no d) (pci_slot d) (pci_func d) 0x04
       (read_config32 P h (pci_bus_no d) (pci_slot d) (pci_func d) 0x04 OR 0x07) h"

definition fill_device_info :: "'h pci_bus \<Rightarrow> 'h \<Rightarrow> u8 \<times> u8 \<times> u8 \<Rightarrow> pci_device" where
  "fill_device_info P h = (\<lambda>(bus, slot, func).
     \<lparr>pci_bus_no = bus, pci_slot = slot, pci_func = func,
      vendor_id = read_config16 P h bus slot func 0x00, device_id = read_config16 P h bus slot func 0x02,
      class_code = read_config8 P h bus slot func 0x0B, pci_subclass = read_config8 P h bus slot func 0x0A,
      prog_if = read_config8 P h bus slot func 0x09, header_type = read_config8 P h bus slot func 0x0E,
      bar = map (\<lambda>i. read_config32 P h bus slot func (0x10 + of_nat i * 4)) [0..<6]\<rparr>)"

text \<open>
  The three loops of a search, with the test that differs between the two searches. The result of the inner
  loop is a function that was found; a device without further functions ends it after function 0.
\<close>

fun scan_functions :: "'h pci_bus \<Rightarrow> 'h \<Rightarrow> (u8 \<times> u8 \<times> u8 \<Rightarrow> bool) \<Rightarrow> u8 \<Rightarrow> u8 \<Rightarrow> u8 list \<Rightarrow> (u8 \<times> u8 \<times> u8) option" where
  "scan_functions P h hit bus slot [] = None"
| "scan_functions P h hit bus slot (func # rest) =
     (if read_config32 P h bus slot func 0x00 AND 0xFFFF = 0xFFFF then scan_functions P h hit bus slot rest
      else if hit (bus, slot, func) then Some (bus, slot, func)
      else if func = 0 \<and> read_config8 P h bus slot func 0x0E AND 0x80 = 0 then None
      else scan_functions P h hit bus slot rest)"

fun first_some :: "('a \<Rightarrow> 'b option) \<Rightarrow> 'a list \<Rightarrow> 'b option" where
  "first_some f [] = None"
| "first_some f (x # xs) = (case f x of None \<Rightarrow> first_some f xs | Some y \<Rightarrow> Some y)"

definition scan_bus :: "'h pci_bus \<Rightarrow> 'h \<Rightarrow> (u8 \<times> u8 \<times> u8 \<Rightarrow> bool) \<Rightarrow> (u8 \<times> u8 \<times> u8) option" where
  "scan_bus P h hit =
     first_some (\<lambda>bus. first_some (\<lambda>slot. scan_functions P h hit bus slot (map of_nat [0..<8])) (map of_nat [0..<32]))
       (map of_nat [0..<256])"

definition class_hit :: "'h pci_bus \<Rightarrow> 'h \<Rightarrow> u8 \<Rightarrow> u8 \<Rightarrow> u8 \<Rightarrow> u8 \<times> u8 \<times> u8 \<Rightarrow> bool" where
  "class_hit P h cc sc pi = (\<lambda>(bus, slot, func).
     let d = read_config32 P h bus slot func 0x08
     in ucast (drop_bit 24 d) = cc \<and> ucast (drop_bit 16 d) = sc \<and> (pi = 0xFF \<or> ucast (drop_bit 8 d) = pi))"

definition id_hit :: "'h pci_bus \<Rightarrow> 'h \<Rightarrow> u16 \<Rightarrow> u16 \<Rightarrow> u8 \<times> u8 \<times> u8 \<Rightarrow> bool" where
  "id_hit P h vendor dev = (\<lambda>(bus, slot, func).
     let d = read_config32 P h bus slot func 0x00
     in ucast (d AND 0xFFFF) = vendor \<and> ucast (drop_bit 16 d AND 0xFFFF) = dev)"

definition find_device_by_class :: "'h pci_bus \<Rightarrow> 'h \<Rightarrow> u8 \<Rightarrow> u8 \<Rightarrow> u8 \<Rightarrow> pci_device option" where
  "find_device_by_class P h cc sc pi = map_option (fill_device_info P h) (scan_bus P h (class_hit P h cc sc pi))"

definition find_device_by_id :: "'h pci_bus \<Rightarrow> 'h \<Rightarrow> u16 \<Rightarrow> u16 \<Rightarrow> pci_device option" where
  "find_device_by_id P h vendor dev = map_option (fill_device_info P h) (scan_bus P h (id_hit P h vendor dev))"

section \<open>What is found\<close>

text \<open>The functions that exist, in order: at a slot whose device has one function only, that function.\<close>

definition pci_present :: "'h pci_bus \<Rightarrow> 'h \<Rightarrow> u8 \<times> u8 \<times> u8 \<Rightarrow> bool" where
  "pci_present P h = (\<lambda>(bus, slot, func). read_config16 P h bus slot func 0x00 \<noteq> 0xFFFF)"

definition single_function :: "'h pci_bus \<Rightarrow> 'h \<Rightarrow> u8 \<Rightarrow> u8 \<Rightarrow> bool" where
  "single_function P h bus slot \<longleftrightarrow> pci_present P h (bus, slot, 0) \<and> \<not> bit (header_type (fill_device_info P h (bus, slot, 0))) 7"

definition pci_functions :: "'h pci_bus \<Rightarrow> 'h \<Rightarrow> (u8 \<times> u8 \<times> u8) list" where
  "pci_functions P h =
     filter (pci_present P h)
       (concat (map (\<lambda>bus. concat (map (\<lambda>slot. map (\<lambda>func. (bus, slot, func))
          (if single_function P h bus slot then [0] else map of_nat [0..<8])) (map of_nat [0..<32]))) (map of_nat [0..<256])))"

lemma pci_present_iff: "read_config32 P h bus slot func 0 AND 0xFFFF = 0xFFFF \<longleftrightarrow> \<not> pci_present P h (bus, slot, func)"
proof -
  define v where "v = read_config32 P h bus slot func 0"
  have "ucast (v AND 0xFFFF) = (0xFFFF :: u16) \<longleftrightarrow> v AND 0xFFFF = 0xFFFF"
  proof
    assume "ucast (v AND 0xFFFF) = (0xFFFF :: u16)"
    hence "ucast (ucast (v AND 0xFFFF) :: u16) = (0xFFFF :: u32)" by simp
    thus "v AND 0xFFFF = 0xFFFF" by (simp add: unsigned_ucast_eq take_bit_eq_mask mask_eq_exp_minus_1 and.assoc)
  qed simp
  thus ?thesis by (simp add: pci_present_def read_config16_def v_def)
qed

lemma find_split: "find p (xs @ ys) = (case find p xs of None \<Rightarrow> find p ys | Some x \<Rightarrow> Some x)"
  by (induction xs) auto

lemma find_filtered: "find p (filter q xs) = find (\<lambda>x. q x \<and> p x) xs"
  by (induction xs) auto

lemma first_some_find: "first_some (\<lambda>x. find p (f x)) xs = find p (concat (map f xs))"
  by (induction xs) (auto simp: find_split split: option.splits)

lemma scan_rest:
  "0 \<notin> set fs \<Longrightarrow> scan_functions P h hit bus slot fs = find (\<lambda>x. pci_present P h x \<and> hit x) (map (\<lambda>f. (bus, slot, f)) fs)"
  by (induction fs) (simp_all add: pci_present_iff)

lemma header_bit: "read_config8 P h bus slot 0 0x0E AND 0x80 = 0 \<longleftrightarrow> \<not> bit (header_type (fill_device_info P h (bus, slot, 0))) 7"
proof -
  define v where "v = read_config8 P h bus slot 0 0x0E"
  have "v AND 0x80 = 0 \<longleftrightarrow> \<not> bit v 7"
    using and_exp_eq_0_iff_not_bit [of v 7] by simp
  thus ?thesis by (simp add: fill_device_info_def v_def)
qed

lemma scan_slot:
  "scan_functions P h hit bus slot (map of_nat [0..<8]) =
   find (\<lambda>x. pci_present P h x \<and> hit x)
     (map (\<lambda>f. (bus, slot, f)) (if single_function P h bus slot then [0] else map of_nat [0..<8]))"
proof -
  have fs: "map of_nat [0..<8] = 0 # (map of_nat [1..<8] :: u8 list)" by (simp add: upt_conv_Cons)
  have "(0 :: u8) \<notin> set (map of_nat [1..<8])" by (simp add: upt_conv_Cons)
  thus ?thesis unfolding fs by (simp add: scan_rest pci_present_iff header_bit single_function_def)
qed

lemma scan_bus_find: "scan_bus P h hit = find hit (pci_functions P h)"
  unfolding scan_bus_def scan_slot first_some_find pci_functions_def find_filtered ..

lemma find_mapped: "find p (map f xs) = map_option f (find (\<lambda>x. p (f x)) xs)"
  by (induction xs) auto

text \<open>The tests read whole dwords; they agree with the fields that are read byte by byte.\<close>

lemma low_byte: "ucast (w AND 0xFF) = (ucast w :: u8)" for w :: u32
proof -
  have ff: "(0xFF :: u32) = mask 8" by (simp add: mask_eq_exp_minus_1)
  show ?thesis unfolding ff by (rule bit_word_eqI) (simp add: bit_simps)
qed

lemma class_fields:
  "class_hit P h cc sc pi x \<longleftrightarrow>
     class_code (fill_device_info P h x) = cc \<and> pci_subclass (fill_device_info P h x) = sc \<and>
     (pi = 0xFF \<or> prog_if (fill_device_info P h x) = pi)"
proof -
  obtain bus slot func where x: "x = (bus, slot, func)" by (cases x)
  define d where "d = read_config32 P h bus slot func 0x08"
  have a: "read_config32 P h bus slot func 0x0B = d" "read_config32 P h bus slot func 0x0A = d" "read_config32 P h bus slot func 0x09 = d"
    by (simp_all add: d_def read_config32_def config_address_def)
  show ?thesis unfolding x class_hit_def fill_device_info_def read_config8_def by (simp add: a low_byte flip: d_def)
qed

lemma id_fields:
  "id_hit P h v i x \<longleftrightarrow> vendor_id (fill_device_info P h x) = v \<and> device_id (fill_device_info P h x) = i"
proof -
  obtain bus slot func where x: "x = (bus, slot, func)" by (cases x)
  have "read_config32 P h bus slot func 0x02 = read_config32 P h bus slot func 0"
    by (simp add: read_config32_def config_address_def)
  thus ?thesis unfolding x id_hit_def fill_device_info_def read_config16_def by (simp add: Let_def)
qed

section \<open>Properties\<close>

text \<open>
  C25: both searches return the first device of the bus, in the order of bus, slot and function number, whose
  fields are those asked for, and nothing if there is none; a device that declares no further functions
  is asked for its function 0 only.
\<close>

theorem pci_search:
  "find_device_by_class P h cc sc pi =
     find (\<lambda>d. class_code d = cc \<and> pci_subclass d = sc \<and> (pi = 0xFF \<or> prog_if d = pi)) (map (fill_device_info P h) (pci_functions P h)) \<and>
   find_device_by_id P h v i =
     find (\<lambda>d. vendor_id d = v \<and> device_id d = i) (map (fill_device_info P h) (pci_functions P h))"
  by (simp add: find_device_by_class_def find_device_by_id_def scan_bus_find find_mapped flip: class_fields id_fields)

end
