(* ===== verification/Ahci.thy ===== *)
theory Ahci
  imports Byte_Paths Pci
begin

unbundle bit_operations_syntax

text \<open>
  The driver of SATA disks and CD drives, \<open>src/kernel/drivers/ahci.cpp\<close>. The controller is a parameter: a
  state, and what a read and a write of one of its memory-mapped registers do to that state and to the
  main memory, which it may change at any such moment. The command structures are bytes in memory at
  their real offsets. A result \<open>None\<close> is a wait without a limit that does not end.
\<close>

section \<open>Registers\<close>

type_synonym 'h io = "'h \<times> mem"

record 'h hba =
  mmio_in :: "u64 \<Rightarrow> 'h io \<Rightarrow> u32 \<times> 'h io"
  mmio_out :: "u64 \<Rightarrow> u32 \<Rightarrow> 'h io \<Rightarrow> 'h io"

definition P_CLB :: u64 where "P_CLB = 0x00"
definition P_CLBU :: u64 where "P_CLBU = 0x04"
definition P_FB :: u64 where "P_FB = 0x08"
definition P_FBU :: u64 where "P_FBU = 0x0C"
definition P_IS :: u64 where "P_IS = 0x10"
definition P_CMD :: u64 where "P_CMD = 0x18"
definition P_TFD :: u64 where "P_TFD = 0x20"
definition P_SIG :: u64 where "P_SIG = 0x24"
definition P_SSTS :: u64 where "P_SSTS = 0x28"
definition P_SCTL :: u64 where "P_SCTL = 0x2C"
definition P_SERR :: u64 where "P_SERR = 0x30"
definition P_SACT :: u64 where "P_SACT = 0x34"
definition P_CI :: u64 where "P_CI = 0x38"

definition HBA_CAP :: u64 where "HBA_CAP = 0x00"
definition HBA_GHC :: u64 where "HBA_GHC = 0x04"
definition HBA_PI :: u64 where "HBA_PI = 0x0C"

definition hba_port :: "u64 \<Rightarrow> nat \<Rightarrow> u64" where "hba_port abar num = abar + 0x100 + of_nat num * 0x80"

definition SATA_SIG_ATA :: u32 where "SATA_SIG_ATA = 0x00000101"
definition SATA_SIG_ATAPI :: u32 where "SATA_SIG_ATAPI = 0xEB140101"

definition ATA_CMD_READ_DMA_EXT :: u8 where "ATA_CMD_READ_DMA_EXT = 0x25"
definition ATA_CMD_WRITE_DMA_EXT :: u8 where "ATA_CMD_WRITE_DMA_EXT = 0x35"
definition ATA_CMD_IDENTIFY :: u8 where "ATA_CMD_IDENTIFY = 0xEC"
definition ATA_CMD_IDENTIFY_PACKET :: u8 where "ATA_CMD_IDENTIFY_PACKET = 0xA1"
definition ATA_CMD_PACKET :: u8 where "ATA_CMD_PACKET = 0xA0"

definition HBA_PxCMD_ST :: u32 where "HBA_PxCMD_ST = 0x0001"
definition HBA_PxCMD_FRE :: u32 where "HBA_PxCMD_FRE = 0x0010"
definition HBA_PxCMD_FR :: u32 where "HBA_PxCMD_FR = 0x4000"
definition HBA_PxCMD_CR :: u32 where "HBA_PxCMD_CR = 0x8000"

text \<open>Read, change and write back a register.\<close>

definition reg_update :: "'h hba \<Rightarrow> u64 \<Rightarrow> (u32 \<Rightarrow> u32) \<Rightarrow> 'h io \<Rightarrow> 'h io" where
  "reg_update E a f s = (let (v, s) = mmio_in E a s in mmio_out E a (f v) s)"

partial_function (option) spin_while :: "'h hba \<Rightarrow> u64 \<Rightarrow> u32 \<Rightarrow> 'h io \<Rightarrow> 'h io option" where
  "spin_while E a bits s =
     (let (v, s) = mmio_in E a s in if v AND bits \<noteq> 0 then spin_while E a bits s else Some s)"

definition stop_cmd :: "'h hba \<Rightarrow> u64 \<Rightarrow> 'h io \<Rightarrow> 'h io option" where
  "stop_cmd E p s =
     (let s = reg_update E (p + P_CMD) (\<lambda>v. v AND NOT HBA_PxCMD_ST) s;
          s = reg_update E (p + P_CMD) (\<lambda>v. v AND NOT HBA_PxCMD_FRE) s
      in spin_while E (p + P_CMD) (HBA_PxCMD_FR OR HBA_PxCMD_CR) s)"

definition start_cmd :: "'h hba \<Rightarrow> u64 \<Rightarrow> 'h io \<Rightarrow> 'h io option" where
  "start_cmd E p s =
     map_option (\<lambda>s. reg_update E (p + P_CMD) (\<lambda>v. v OR HBA_PxCMD_ST) (reg_update E (p + P_CMD) (\<lambda>v. v OR HBA_PxCMD_FRE) s))
       (spin_while E (p + P_CMD) HBA_PxCMD_CR s)"

definition find_slot :: "'h hba \<Rightarrow> u64 \<Rightarrow> 'h io \<Rightarrow> nat option \<times> 'h io" where
  "find_slot E p s =
     (let (sact, s) = mmio_in E (p + P_SACT) s; (ci, s) = mmio_in E (p + P_CI) s
      in (find (\<lambda>i. \<not> bit (sact OR ci) i) [0..<32], s))"

fun wait_slot :: "'h hba \<Rightarrow> u64 \<Rightarrow> nat \<Rightarrow> nat \<Rightarrow> 'h io \<Rightarrow> bool \<times> 'h io" where
  "wait_slot E p slot 0 s = (False, s)"
| "wait_slot E p slot (Suc timeout) s =
     (let (ci, s) = mmio_in E (p + P_CI) s
      in if \<not> bit ci slot
         then (let (tfd, s) = mmio_in E (p + P_TFD) s in (tfd AND 0x01 = 0, s))
         else (let (is', s) = mmio_in E (p + P_IS) s
               in if bit is' 30 then (False, s) else wait_slot E p slot timeout s))"

definition ahci_wait :: "'h hba \<Rightarrow> u64 \<Rightarrow> nat \<Rightarrow> 'h io \<Rightarrow> bool \<times> 'h io" where
  "ahci_wait E p slot s = wait_slot E p slot 1000000 s"

section \<open>Commands\<close>

record ahci_port =
  p_number :: u8
  p_regs :: u64
  p_sectors :: u64
  p_active :: bool
  p_atapi :: bool
  p_model :: "u8 list"
  p_serial :: "u8 list"
  p_cmd_list :: u64
  p_cmd_table :: u64
  p_fis :: u64
  p_buffer :: u64

definition no_port :: ahci_port where
  "no_port = \<lparr>p_number = 0, p_regs = 0, p_sectors = 0, p_active = False, p_atapi = False, p_model = replicate 41 0,
     p_serial = replicate 21 0, p_cmd_list = 0, p_cmd_table = 0, p_fis = 0, p_buffer = 0\<rparr>"

definition SIZEOF_HEADER :: nat where "SIZEOF_HEADER = 32"
definition SIZEOF_TABLE :: nat where "SIZEOF_TABLE = 144"
definition SIZEOF_FIS :: nat where "SIZEOF_FIS = 20"

definition cmd_header :: "ahci_port \<Rightarrow> nat \<Rightarrow> u64" where
  "cmd_header info slot = p_cmd_list info + of_nat (SIZEOF_HEADER * slot)"

text \<open>
  A header is cleared and gets the length of the command, the bits for writing and for a packet command,
  and the number of memory areas; a table is cleared and gets the area of the transfer.
\<close>

definition set_header :: "u64 \<Rightarrow> bool \<Rightarrow> bool \<Rightarrow> u16 \<Rightarrow> mem \<Rightarrow> mem" where
  "set_header h packet wr areas m =
     store 2 ((fill m h 0 SIZEOF_HEADER)(h := 5 OR (if packet then 0x20 else 0) OR (if wr then 0x40 else 0))) (h + 2) (ucast areas)"

definition set_area :: "u64 \<Rightarrow> u64 \<Rightarrow> u32 \<Rightarrow> mem \<Rightarrow> mem" where
  "set_area table buf len m =
     store 4 (store 4 (store 4 m (table + 128) (ucast (ucast buf :: u32))) (table + 132) (ucast (ucast (drop_bit 32 buf) :: u32)))
       (table + 140) (ucast (((len - 1) AND 0x3FFFFF) OR 0x80000000))"

definition setup_command :: "ahci_port \<Rightarrow> nat \<Rightarrow> bool \<Rightarrow> u32 \<Rightarrow> mem \<Rightarrow> mem" where
  "setup_command info slot wr count m =
     set_area (p_cmd_table info) (p_buffer info) (count * 512)
       (fill (set_header (cmd_header info slot) False wr 1 m) (p_cmd_table info) 0 SIZEOF_TABLE)"

text \<open>The command of a table: kind, command, device, the six bytes of the block number, and the count.\<close>

definition set_fis :: "u64 \<Rightarrow> u8 \<Rightarrow> u8 \<Rightarrow> u64 \<Rightarrow> u32 \<Rightarrow> mem \<Rightarrow> mem" where
  "set_fis t command dev lba count m =
     (fill m t 0 SIZEOF_FIS)(t := 0x27, t + 1 := 0x80, t + 2 := command, t + 7 := dev,
        t + 4 := ucast lba, t + 5 := ucast (drop_bit 8 lba), t + 6 := ucast (drop_bit 16 lba),
        t + 8 := ucast (drop_bit 24 lba), t + 9 := ucast (drop_bit 32 lba), t + 10 := ucast (drop_bit 40 lba),
        t + 12 := ucast (count AND 0xff), t + 13 := ucast (drop_bit 8 count))"

definition create_fis :: "u64 \<Rightarrow> u8 \<Rightarrow> u64 \<Rightarrow> u32 \<Rightarrow> mem \<Rightarrow> mem" where
  "create_fis table command lba count m = set_fis table command 0x40 lba count m"

definition issue :: "'h hba \<Rightarrow> u64 \<Rightarrow> nat \<Rightarrow> 'h io \<Rightarrow> bool \<times> 'h io" where
  "issue E p slot s = ahci_wait E p slot (mmio_out E (p + P_CI) (push_bit slot 1) s)"

definition submit_command :: "'h hba \<Rightarrow> ahci_port \<Rightarrow> u8 \<Rightarrow> u64 \<Rightarrow> u32 \<Rightarrow> bool \<Rightarrow> 'h io \<Rightarrow> bool \<times> 'h io" where
  "submit_command E info command lba count wr s =
     (case find_slot E (p_regs info) (mmio_out E (p_regs info + P_IS) 0xFFFFFFFF s) of
        (None, s) \<Rightarrow> (False, s)
      | (Some slot, (h, m)) \<Rightarrow>
          issue E (p_regs info) slot (h, create_fis (p_cmd_table info) command lba count (setup_command info slot wr count m)))"

definition chunk_of :: "u32 \<Rightarrow> u32" where "chunk_of remaining = (if 128 < remaining then 128 else remaining)"

lemma chunk_less: "0 < r \<Longrightarrow> unat (r - chunk_of r) < unat r"
  by (auto simp: chunk_of_def word_less_nat_alt unat_sub_if' word_le_nat_alt)

function read_chunks :: "'h hba \<Rightarrow> ahci_port \<Rightarrow> u64 \<Rightarrow> u64 \<Rightarrow> u32 \<Rightarrow> 'h io \<Rightarrow> bool \<times> 'h io" where
  "read_chunks E info dst lba remaining s =
     (if 0 < remaining then
        (let chunk = chunk_of remaining
         in case submit_command E info ATA_CMD_READ_DMA_EXT lba chunk False s of
              (False, s) \<Rightarrow> (False, s)
            | (True, (h, m)) \<Rightarrow>
                read_chunks E info (dst + ucast (chunk * 512)) (lba + ucast chunk) (remaining - chunk)
                  (h, copy m dst (p_buffer info) (unat (chunk * 512))))
      else (True, s))"
  by pat_completeness auto
termination
  by (relation "measure (\<lambda>(E, info, dst, lba, r, s). unat r)") (auto simp: chunk_less)

function write_chunks :: "'h hba \<Rightarrow> ahci_port \<Rightarrow> u64 \<Rightarrow> u64 \<Rightarrow> u32 \<Rightarrow> 'h io \<Rightarrow> bool \<times> 'h io" where
  "write_chunks E info src lba remaining s =
     (if 0 < remaining then
        (let chunk = chunk_of remaining
         in case submit_command E info ATA_CMD_WRITE_DMA_EXT lba chunk True
                   (fst s, copy (snd s) (p_buffer info) src (unat (chunk * 512))) of
              (False, s) \<Rightarrow> (False, s)
            | (True, s) \<Rightarrow> write_chunks E info (src + ucast (chunk * 512)) (lba + ucast chunk) (remaining - chunk) s)
      else (True, s))"
  by pat_completeness auto
termination
  by (relation "measure (\<lambda>(E, info, src, lba, r, s). unat r)") (auto simp: chunk_less)

declare read_chunks.simps [simp del] write_chunks.simps [simp del]

section \<open>The driver\<close>

record dev_context =
  dc_port :: u8
  dc_offset :: u64
  dc_sectors :: u64
  dc_cdrom :: bool

record ahci_controller =
  c_abar :: u64
  c_bus :: u8
  c_slot :: u8
  c_func :: u8

text \<open>
  The static variables, with the calls into other parts: the pages mapped for registers, and the names
  under which devices are registered with the number of their operations.
\<close>

record 'h ahci =
  a_io :: "'h io"
  a_ports :: "ahci_port list"
  a_controllers :: "ahci_controller list"
  a_devs :: "dev_context list"
  a_initialized :: bool
  a_mapped :: "u64 list"
  a_registered :: "(u8 list \<times> nat) list"

definition ahci_start :: "'h io \<Rightarrow> 'h ahci" where
  "ahci_start s = \<lparr>a_io = s, a_ports = replicate 32 no_port, a_controllers = [], a_devs = [], a_initialized = False,
     a_mapped = [], a_registered = []\<rparr>"

definition port_usable :: "u8 \<Rightarrow> 'h ahci \<Rightarrow> bool" where
  "port_usable num s \<longleftrightarrow> num < 32 \<and> p_active (a_ports s ! unat num)"

definition ahci_capacity :: "u8 \<Rightarrow> 'h ahci \<Rightarrow> u64" where
  "ahci_capacity num s = (if port_usable num s then p_sectors (a_ports s ! unat num) else 0)"

definition with_io :: "('h io \<Rightarrow> bool \<times> 'h io) \<Rightarrow> 'h ahci \<Rightarrow> bool \<times> 'h ahci" where
  "with_io f s = (let (ok, io) = f (a_io s) in (ok, s\<lparr>a_io := io\<rparr>))"

definition ahci_read :: "'h hba \<Rightarrow> u8 \<Rightarrow> u64 \<Rightarrow> u32 \<Rightarrow> u64 \<Rightarrow> 'h ahci \<Rightarrow> bool \<times> 'h ahci" where
  "ahci_read E num lba count buf s =
     (if \<not> port_usable num s \<or> buf = 0 \<or> count = 0 then (False, s)
      else with_io (read_chunks E (a_ports s ! unat num) buf lba count) s)"

definition ahci_write :: "'h hba \<Rightarrow> u8 \<Rightarrow> u64 \<Rightarrow> u32 \<Rightarrow> u64 \<Rightarrow> 'h ahci \<Rightarrow> bool \<times> 'h ahci" where
  "ahci_write E num lba count buf s =
     (if \<not> port_usable num s \<or> buf = 0 \<or> count = 0 then (False, s)
      else with_io (write_chunks E (a_ports s ! unat num) buf lba count) s)"

section \<open>Identification\<close>

definition id_word :: "ahci_port \<Rightarrow> mem \<Rightarrow> nat \<Rightarrow> u16" where
  "id_word info m i = read16 m (p_buffer info + of_nat (2 * i))"

definition ident_swap :: "ahci_port \<Rightarrow> mem \<Rightarrow> nat \<Rightarrow> nat \<Rightarrow> u8 list" where
  "ident_swap info m first words =
     concat (map (\<lambda>i. [ucast (drop_bit 8 (id_word info m (first + i)) AND 0xFF), ucast (id_word info m (first + i) AND 0xFF)]) [0..<words])"

text \<open>The loop that replaces the blanks at the end by zeros, before the zero that ends the string.\<close>

definition blanks_to_zero :: "u8 list \<Rightarrow> u8 list" where
  "blanks_to_zero cs =
     (let kept = rev (dropWhile (\<lambda>c. c = 32) (rev cs)) in kept @ replicate (length cs - length kept) 0 @ [0])"

definition big_capacity :: "ahci_port \<Rightarrow> mem \<Rightarrow> u64" where
  "big_capacity info m =
     push_bit 48 (ucast (id_word info m 103)) OR push_bit 32 (ucast (id_word info m 102)) OR
     push_bit 16 (ucast (id_word info m 101)) OR ucast (id_word info m 100)"

definition small_capacity :: "ahci_port \<Rightarrow> mem \<Rightarrow> u32" where
  "small_capacity info m = push_bit 16 (ucast (id_word info m 61)) OR ucast (id_word info m 60)"

definition id_sectors :: "ahci_port \<Rightarrow> mem \<Rightarrow> u64" where
  "id_sectors info m = (if big_capacity info m \<noteq> 0 then big_capacity info m else ucast (small_capacity info m))"

definition identify :: "'h hba \<Rightarrow> ahci_port \<Rightarrow> 'h io \<Rightarrow> bool \<times> ahci_port \<times> 'h io" where
  "identify E info s =
     (case find_slot E (p_regs info) s of
        (None, s) \<Rightarrow> (False, info, s)
      | (Some slot, (h, m)) \<Rightarrow>
          (case issue E (p_regs info) slot (h, create_fis (p_cmd_table info) ATA_CMD_IDENTIFY 0 0 (setup_command info slot False 1 m)) of
             (False, s) \<Rightarrow> (False, info, s)
           | (True, (h, m)) \<Rightarrow>
               if read32 m (cmd_header info slot + 4) = 0 then (False, info, (h, m))
               else (True, info\<lparr>p_sectors := id_sectors info m,
                            p_model := blanks_to_zero (ident_swap info m 27 20),
                            p_serial := blanks_to_zero (ident_swap info m 10 10)\<rparr>, (h, m))))"

section \<open>CD drives\<close>

text \<open>A packet command with its transfer; the data goes through the buffer of the port.\<close>

definition packet_setup :: "ahci_port \<Rightarrow> nat \<Rightarrow> u8 list \<Rightarrow> u64 \<Rightarrow> u64 \<Rightarrow> bool \<Rightarrow> mem \<Rightarrow> mem" where
  "packet_setup info slot packet buf len wr m =
     (let t = p_cmd_table info;
          m = set_header (cmd_header info slot) True wr (if 0 < len then 1 else 0) m;
          m = poke (fill m t 0 SIZEOF_TABLE) (t + 64) (take 16 packet);
          m = set_fis t ATA_CMD_PACKET 0 0 0 m
      in if 0 < len
         then (let m = set_area t (p_buffer info) (ucast len) m
               in if wr then copy m (p_buffer info) buf (unat len) else m)
         else m)"

definition send_packet :: "'h hba \<Rightarrow> u8 \<Rightarrow> u8 list \<Rightarrow> u64 \<Rightarrow> u64 \<Rightarrow> bool \<Rightarrow> 'h ahci \<Rightarrow> bool \<times> 'h ahci" where
  "send_packet E num packet buf len wr s =
     (if \<not> port_usable num s \<or> \<not> p_atapi (a_ports s ! unat num) then (False, s)
      else let info = a_ports s ! unat num
           in with_io (\<lambda>s.
                case find_slot E (p_regs info) (mmio_out E (p_regs info + P_IS) 0xFFFFFFFF s) of
                  (None, s) \<Rightarrow> (False, s)
                | (Some slot, (h, m)) \<Rightarrow>
                    (case issue E (p_regs info) slot (h, packet_setup info slot packet buf len wr m) of
                       (False, s) \<Rightarrow> (False, s)
                     | (True, (h, m)) \<Rightarrow>
                         (True, h, if \<not> wr \<and> 0 < len then copy m buf (p_buffer info) (unat len) else m))) s)"

definition is_atapi_device :: "u8 \<Rightarrow> 'h ahci \<Rightarrow> bool" where
  "is_atapi_device num s \<longleftrightarrow> port_usable num s \<and> p_atapi (a_ports s ! unat num)"

definition atapi_identify :: "'h hba \<Rightarrow> ahci_port \<Rightarrow> 'h io \<Rightarrow> bool \<times> ahci_port \<times> 'h io" where
  "atapi_identify E info s =
     (case find_slot E (p_regs info) s of
        (None, s) \<Rightarrow> (False, info, s)
      | (Some slot, (h, m)) \<Rightarrow>
          (let t = p_cmd_table info;
               m = fill (set_header (cmd_header info slot) False False 1 m) t 0 SIZEOF_TABLE;
               m = set_fis t ATA_CMD_IDENTIFY_PACKET 0 0 0 (set_area t (p_buffer info) 512 m)
           in case issue E (p_regs info) slot (h, m) of
                (False, s) \<Rightarrow> (False, info, s)
              | (True, (h, m)) \<Rightarrow> (True, info\<lparr>p_sectors := id_sectors info m\<rparr>, (h, m))))"

text \<open>Two numbers with their most significant byte first; \<open>response\<close> is the address of the eight bytes.\<close>

definition swap32 :: "u32 \<Rightarrow> u32" where
  "swap32 v = push_bit 24 v OR (drop_bit 8 v AND 0xFF0000) OR (drop_bit 16 v AND 0xFF00) OR drop_bit 24 v"

definition atapi_read_capacity :: "'h hba \<Rightarrow> u64 \<Rightarrow> u8 \<Rightarrow> 'h ahci \<Rightarrow> (u32 \<times> u32) option \<times> 'h ahci" where
  "atapi_read_capacity E response num s =
     (case send_packet E num ((replicate 12 0)[0 := 0x25]) response 8 False s of
        (False, s) \<Rightarrow> (None, s)
      | (True, s) \<Rightarrow> (Some (swap32 (read32 (snd (a_io s)) response), swap32 (read32 (snd (a_io s)) (response + 4))), s))"

definition atapi_packet :: "u32 \<Rightarrow> u32 \<Rightarrow> u8 list" where
  "atapi_packet lba count =
     (replicate 12 0)[0 := 0x28,
        2 := ucast (drop_bit 24 lba AND 0xFF), 3 := ucast (drop_bit 16 lba AND 0xFF), 4 := ucast (drop_bit 8 lba AND 0xFF), 5 := ucast (lba AND 0xFF),
        7 := ucast (drop_bit 8 count AND 0xFF), 8 := ucast (count AND 0xFF)]"

definition atapi_read :: "'h hba \<Rightarrow> u8 \<Rightarrow> u32 \<Rightarrow> u32 \<Rightarrow> u64 \<Rightarrow> 'h ahci \<Rightarrow> bool \<times> 'h ahci" where
  "atapi_read E num lba count buf s =
     (if \<not> is_atapi_device num s \<or> buf = 0 \<or> count = 0 then (False, s)
      else send_packet E num (atapi_packet lba count) buf (ucast (count * 2048)) False s)"

definition set_port :: "nat \<Rightarrow> (ahci_port \<Rightarrow> ahci_port) \<Rightarrow> 'h ahci \<Rightarrow> 'h ahci" where
  "set_port i f s = s\<lparr>a_ports := (a_ports s)[i := f (a_ports s ! i)]\<rparr>"

definition atapi_capacity :: "'h hba \<Rightarrow> u64 \<Rightarrow> u8 \<Rightarrow> 'h ahci \<Rightarrow> u32 \<times> 'h ahci" where
  "atapi_capacity E response num s =
     (if \<not> is_atapi_device num s then (0, s)
      else case atapi_read_capacity E response num s of
             (Some (max_lba, _), s) \<Rightarrow> (max_lba + 1, set_port (unat num) (\<lambda>p. p\<lparr>p_sectors := ucast (max_lba + 1)\<rparr>) s)
           | (None, s) \<Rightarrow>
               (let n = p_sectors (a_ports s ! unat num)
                in (if 0 < n \<and> n \<noteq> 0xFFFFFFFF then ucast n else 0, s)))"

section \<open>Probing a port\<close>

definition port_link_up :: "'h hba \<Rightarrow> u64 \<Rightarrow> 'h io \<Rightarrow> bool \<times> 'h io" where
  "port_link_up E p s =
     (let (ssts, s) = mmio_in E (p + P_SSTS) s in (ssts AND 0xf = 3 \<and> drop_bit 8 ssts AND 0xf = 1, s))"

fun wait_link :: "'h hba \<Rightarrow> u64 \<Rightarrow> nat \<Rightarrow> 'h io \<Rightarrow> 'h io" where
  "wait_link E p 0 s = s"
| "wait_link E p (Suc timeout) s = (let (up, s) = port_link_up E p s in if up then s else wait_link E p timeout s)"

definition reset_port :: "'h hba \<Rightarrow> u64 \<Rightarrow> 'h io \<Rightarrow> 'h io" where
  "reset_port E p s =
     wait_link E p 500000
       (reg_update E (p + P_SCTL) (\<lambda>v. v AND NOT 0xf) (reg_update E (p + P_SCTL) (\<lambda>v. (v AND NOT 0xf) OR 1) s))"

fun not_busy :: "'h hba \<Rightarrow> u64 \<Rightarrow> nat \<Rightarrow> 'h io \<Rightarrow> bool \<times> 'h io" where
  "not_busy E p 0 s = (False, s)"
| "not_busy E p (Suc timeout) s =
     (let (tfd, s) = mmio_in E (p + P_TFD) s in if tfd AND 0x88 = 0 then (True, s) else not_busy E p timeout s)"

text \<open>The link of a port, after a reset if it is down.\<close>

definition bring_up :: "'h hba \<Rightarrow> u64 \<Rightarrow> 'h io \<Rightarrow> bool \<times> 'h io" where
  "bring_up E p s =
     (case port_link_up E p s of (True, s) \<Rightarrow> (True, s) | (False, s) \<Rightarrow> port_link_up E p (reset_port E p s))"

text \<open>
  \<open>probe_port\<close>, with the addresses of the four blocks that \<open>kmalloc\<close> returns. The first block has its header
  for slot 0 pointed to the table.
\<close>

definition probe_blocks :: "u64 \<times> u64 \<times> u64 \<times> u64 \<Rightarrow> mem \<Rightarrow> mem" where
  "probe_blocks = (\<lambda>(cmd, fis, table, buf) m. fill (fill (fill m cmd 0 1024) fis 0 256) table 0 SIZEOF_TABLE)"

definition point_port :: "'h hba \<Rightarrow> u64 \<Rightarrow> u64 \<times> u64 \<times> u64 \<times> u64 \<Rightarrow> 'h io \<Rightarrow> 'h io" where
  "point_port E p = (\<lambda>(cmd, fis, table, buf) s.
     let s = mmio_out E (p + P_CLB) (ucast cmd) s;
         s = mmio_out E (p + P_CLBU) (ucast (drop_bit 32 cmd)) s;
         s = mmio_out E (p + P_FB) (ucast fis) s;
         s = mmio_out E (p + P_FBU) (ucast (drop_bit 32 fis)) s
     in (fst s, store 4 (store 4 (snd s) (cmd + 8) (ucast (ucast table :: u32))) (cmd + 12) (ucast (ucast (drop_bit 32 table) :: u32))))"

definition fresh_port :: "nat \<Rightarrow> u64 \<Rightarrow> bool \<Rightarrow> u64 \<times> u64 \<times> u64 \<times> u64 \<Rightarrow> ahci_port \<Rightarrow> ahci_port" where
  "fresh_port num p atapi = (\<lambda>(cmd, fis, table, buf) q.
     q\<lparr>p_number := of_nat num, p_regs := p, p_cmd_list := cmd, p_cmd_table := table, p_fis := fis, p_buffer := buf,
       p_active := True, p_atapi := atapi\<rparr>)"

definition identify_port :: "'h hba \<Rightarrow> bool \<Rightarrow> ahci_port \<Rightarrow> 'h io \<Rightarrow> ahci_port \<times> 'h io" where
  "identify_port E atapi info s =
     (if atapi
      then (case atapi_identify E info s of
              (True, info, s) \<Rightarrow> (info, s) | (False, info, s) \<Rightarrow> (info\<lparr>p_sectors := 0xFFFFFFFF\<rparr>, s))
      else snd (identify E info s))"

definition probe_port :: "'h hba \<Rightarrow> (nat \<Rightarrow> u64 \<times> u64 \<times> u64 \<times> u64) \<Rightarrow> u64 \<Rightarrow> nat \<Rightarrow> 'h ahci \<Rightarrow> 'h ahci option" where
  "probe_port E blocks abar num s =
     (let p = hba_port abar num
      in case bring_up E p (a_io s) of
           (False, io) \<Rightarrow> Some (s\<lparr>a_io := io\<rparr>)
         | (True, io) \<Rightarrow>
             (case not_busy E p 1000000 (reg_update E (p + P_SERR) (\<lambda>v. v) io) of
                (False, io) \<Rightarrow> Some (s\<lparr>a_io := io\<rparr>)
              | (True, io) \<Rightarrow>
                  (let (sg, io) = mmio_in E (p + P_SIG) io;
                       atapi = (sg = SATA_SIG_ATAPI);
                       (sg2, io) = mmio_in E (p + P_SIG) io
                   in if sg2 \<noteq> SATA_SIG_ATA \<and> \<not> atapi then Some (s\<lparr>a_io := io\<rparr>)
                      else Option.bind (stop_cmd E p io) (\<lambda>io.
                           let io = point_port E p (blocks num) (fst io, probe_blocks (blocks num) (snd io));
                               info = fresh_port num p atapi (blocks num) (a_ports s ! num)
                           in map_option (\<lambda>io. let (info, io) = identify_port E atapi info io
                                               in set_port num (\<lambda>_. info) (s\<lparr>a_io := io\<rparr>)) (start_cmd E p io)))))"

section \<open>Block devices\<close>

text \<open>
  Reads and writes of a device at a byte offset: within one block of the disk or the CD. The address \<open>temp\<close>
  is that of the static buffer of the function.
\<close>

definition copy_part :: "u64 \<Rightarrow> u64 \<Rightarrow> nat \<Rightarrow> 'h ahci \<Rightarrow> 'h ahci" where
  "copy_part dst src n s = s\<lparr>a_io := (fst (a_io s), copy (snd (a_io s)) dst src n)\<rparr>"

definition device_read :: "'h hba \<Rightarrow> u64 \<Rightarrow> nat \<Rightarrow> u64 \<Rightarrow> u64 \<Rightarrow> u64 \<Rightarrow> 'h ahci \<Rightarrow> u64 \<times> 'h ahci" where
  "device_read E temp i buf sz off s =
     (let ctx = a_devs s ! i
      in if dc_cdrom ctx then
           (case atapi_read E (dc_port ctx) (ucast (off div 2048)) 1 temp s of
              (False, s) \<Rightarrow> (0, s)
            | (True, s) \<Rightarrow> (let n = min sz (2048 - off mod 2048) in (n, copy_part buf (temp + off mod 2048) (unat n) s)))
         else let lba = dc_offset ctx + off div 512
              in if sz = 512 \<and> off mod 512 = 0 then
                   (case ahci_read E (dc_port ctx) lba 1 buf s of (True, s) \<Rightarrow> (512, s) | (False, s) \<Rightarrow> (0, s))
                 else
                   (case ahci_read E (dc_port ctx) lba 1 temp s of
                      (False, s) \<Rightarrow> (0, s)
                    | (True, s) \<Rightarrow> (let n = min sz (512 - off mod 512) in (n, copy_part buf (temp + off mod 512) (unat n) s))))"

definition device_write :: "'h hba \<Rightarrow> u64 \<Rightarrow> nat \<Rightarrow> u64 \<Rightarrow> u64 \<Rightarrow> u64 \<Rightarrow> 'h ahci \<Rightarrow> u64 \<times> 'h ahci" where
  "device_write E temp i buf sz off s =
     (let ctx = a_devs s ! i; lba = dc_offset ctx + off div 512
      in if dc_cdrom ctx then (0, s)
         else if sz = 512 \<and> off mod 512 = 0 then
           (case ahci_write E (dc_port ctx) lba 1 buf s of (True, s) \<Rightarrow> (512, s) | (False, s) \<Rightarrow> (0, s))
         else
           (case ahci_read E (dc_port ctx) lba 1 temp s of
              (False, s) \<Rightarrow> (0, s)
            | (True, s) \<Rightarrow>
                (let n = min sz (512 - off mod 512)
                 in case ahci_write E (dc_port ctx) lba 1 temp (copy_part (temp + off mod 512) buf (unat n) s) of
                      (True, s) \<Rightarrow> (n, s) | (False, s) \<Rightarrow> (0, s))))"

definition BLKGETSIZE64 :: u64 where "BLKGETSIZE64 = 0x80081272"
definition BLKGETSIZE :: u64 where "BLKGETSIZE = 0x1260"
definition BLKSSZGET :: u64 where "BLKSSZGET = 0x1268"

definition device_ioctl :: "nat \<Rightarrow> u64 \<Rightarrow> u64 \<Rightarrow> 'h ahci \<Rightarrow> int \<times> 'h ahci" where
  "device_ioctl i req arg s =
     (let ctx = a_devs s ! i; put = (\<lambda>w v. s\<lparr>a_io := (fst (a_io s), store w (snd (a_io s)) arg v)\<rparr>)
      in if arg = 0 then (- 1, s)
         else if req = BLKGETSIZE64 then (0, put 8 (if dc_cdrom ctx then dc_sectors ctx * 2048 else dc_sectors ctx * 512))
         else if req = BLKGETSIZE then (0, put 8 (dc_sectors ctx))
         else if req = BLKSSZGET then (0, put 4 (if dc_cdrom ctx then 2048 else 512))
         else (- 1, s))"

text \<open>A new device: at most 64, of which only the first six get operations and a name.\<close>

definition add_device :: "u8 list \<Rightarrow> dev_context \<Rightarrow> 'h ahci \<Rightarrow> 'h ahci" where
  "add_device name ctx s =
     (let i = length (a_devs s)
      in s\<lparr>a_devs := a_devs s @ [ctx], a_registered := a_registered s @ (if i < 6 then [(name, i)] else [])\<rparr>)"

definition register_disk_device :: "u8 list \<Rightarrow> u8 \<Rightarrow> u64 \<Rightarrow> u64 \<Rightarrow> 'h ahci \<Rightarrow> 'h ahci" where
  "register_disk_device name port off sectors s =
     (if 64 \<le> length (a_devs s) then s
      else add_device name \<lparr>dc_port = port, dc_offset = off, dc_sectors = sectors, dc_cdrom = False\<rparr> s)"

definition atapi_register :: "'h hba \<Rightarrow> u64 \<Rightarrow> u8 list \<Rightarrow> u8 \<Rightarrow> 'h ahci \<Rightarrow> 'h ahci" where
  "atapi_register E response name port s =
     (if 64 \<le> length (a_devs s) then s
      else let (n, s) = atapi_capacity E response port s
           in add_device name \<lparr>dc_port = port, dc_offset = 0, dc_sectors = ucast n, dc_cdrom = True\<rparr> s)"

section \<open>Start\<close>

definition init_controller :: "'h hba \<Rightarrow> (nat \<Rightarrow> u64 \<times> u64 \<times> u64 \<times> u64) \<Rightarrow> pci_device \<Rightarrow> 'h ahci \<Rightarrow> 'h ahci option" where
  "init_controller E blocks dev s =
     (let abar = ucast (bar dev ! 5 AND NOT 0xF) :: u64
      in if abar = 0 \<or> 4 \<le> length (a_controllers s) then Some s
         else let s = s\<lparr>a_mapped := a_mapped s @ [abar]\<rparr>;
                  (cap, io) = mmio_in E (abar + HBA_CAP) (a_io s);
                  (pi, io) = mmio_in E (abar + HBA_PI) (reg_update E (abar + HBA_GHC) (\<lambda>v. v OR 0x80000000) io)
              in map_option (\<lambda>s. s\<lparr>a_controllers := a_controllers s @
                       [\<lparr>c_abar = abar, c_bus = pci_bus_no dev, c_slot = pci_slot dev, c_func = pci_func dev\<rparr>]\<rparr>)
                   (for_each (\<lambda>i s. if bit pi i then probe_port E blocks abar i s else Some s) [0..<32] (s\<lparr>a_io := io\<rparr>)))"

text \<open>The loop over the functions of a slot, with the state of the bus and of the driver.\<close>

fun scan_controllers :: "'p pci_bus \<Rightarrow> 'h hba \<Rightarrow> (nat \<Rightarrow> u64 \<times> u64 \<times> u64 \<times> u64) \<Rightarrow> u8 \<Rightarrow> u8 \<Rightarrow> u8 list \<Rightarrow> 'p \<times> 'h ahci \<Rightarrow> ('p \<times> 'h ahci) option" where
  "scan_controllers P E blocks bus slot [] ps = Some ps"
| "scan_controllers P E blocks bus slot (func # rest) (b, s) =
     (if read_config32 P b bus slot func 0x00 AND 0xFFFF = 0xFFFF then scan_controllers P E blocks bus slot rest (b, s)
      else
        Option.bind
          (if class_hit P b 0x01 0x06 0x01 (bus, slot, func)
           then let dev = fill_device_info P b (bus, slot, func)
                in map_option (Pair (enable_bus_mastering P dev b)) (init_controller E blocks dev s)
           else Some (b, s))
          (\<lambda>(b, s). if func = 0 \<and> read_config8 P b bus slot func 0x0E AND 0x80 = 0 then Some (b, s)
                    else scan_controllers P E blocks bus slot rest (b, s)))"

definition mbr_entry :: "mem \<Rightarrow> u64 \<Rightarrow> nat \<Rightarrow> u8 \<times> u32 \<times> u32" where
  "mbr_entry m mbr i =
     (let e = mbr + 446 + of_nat (16 * i) in (m (e + 4), read32 m (e + 8), read32 m (e + 12)))"

definition dev_name :: "string \<Rightarrow> u8 list" where "dev_name = map of_char"

definition register_partition :: "u8 list \<Rightarrow> u8 \<Rightarrow> u64 \<Rightarrow> mem \<Rightarrow> nat \<Rightarrow> 'h ahci \<Rightarrow> 'h ahci" where
  "register_partition name port mbr m i s =
     (let (kind, start, n) = mbr_entry m mbr i
      in if kind = 0 \<or> n = 0 then s
         else register_disk_device (name @ [48 + of_nat (i + 1)]) port (ucast start) (ucast n) s)"

text \<open>One disk: the whole disk, then the partitions of its first sector, which is read to the address \<open>mbr\<close>.\<close>

definition register_disk :: "'h hba \<Rightarrow> u64 \<Rightarrow> nat \<times> 'h ahci \<Rightarrow> nat \<Rightarrow> nat \<times> 'h ahci" where
  "register_disk E mbr = (\<lambda>(disk, s) i.
     if \<not> p_active (a_ports s ! i) \<or> p_atapi (a_ports s ! i) then (disk, s)
     else let name = dev_name ''sd'' @ [97 + of_nat disk];
              (ok, s) = ahci_read E (of_nat i) 0 1 mbr (register_disk_device name (of_nat i) 0 (p_sectors (a_ports s ! i)) s)
          in (disk + 1,
              if ok \<and> read16 (snd (a_io s)) (mbr + 510) = 0xAA55
              then fold (register_partition name (of_nat i) mbr (snd (a_io s))) [0..<4] s else s))"

text \<open>\<open>digits\<close> of the number of a CD drive, below 32.\<close>

definition two_digits :: "nat \<Rightarrow> u8 list" where
  "two_digits n = (if n < 10 then [] else [48 + of_nat (n div 10)]) @ [48 + of_nat (n mod 10)]"

definition register_cdrom :: "'h hba \<Rightarrow> u64 \<Rightarrow> nat \<times> 'h ahci \<Rightarrow> nat \<Rightarrow> nat \<times> 'h ahci" where
  "register_cdrom E response = (\<lambda>(cd, s) i.
     if \<not> p_active (a_ports s ! i) \<or> \<not> p_atapi (a_ports s ! i) then (cd, s)
     else (cd + 1, atapi_register E response (dev_name ''sr'' @ two_digits cd) (of_nat i) s))"

definition ahci_init :: "'p pci_bus \<Rightarrow> 'h hba \<Rightarrow> (nat \<Rightarrow> u64 \<times> u64 \<times> u64 \<times> u64) \<Rightarrow> u64 \<Rightarrow> u64 \<Rightarrow> 'p \<times> 'h ahci \<Rightarrow> ('p \<times> 'h ahci) option" where
  "ahci_init P E blocks mbr response ps =
     map_option (\<lambda>(b, s).
       if a_controllers s = [] then (b, s)
       else let s = snd (foldl (register_disk E mbr) (0, s) [0..<32]);
                s = snd (foldl (register_cdrom E response) (0, s) [0..<32])
            in (b, s\<lparr>a_initialized := True\<rparr>))
     (for_each (\<lambda>bus. for_each (\<lambda>slot. scan_controllers P E blocks bus slot (map of_nat [0..<8])) (map of_nat [0..<32]))
        (map of_nat [0..<256]) ps)"

section \<open>What a controller fetches\<close>

text \<open>The command that a table holds, and the pointer to the table in a header.\<close>

record hba_command =
  h_type :: u8
  h_command :: u8
  h_lba :: u64
  h_count :: u16
  h_address :: u64
  h_bytes :: nat

definition fetch_table :: "mem \<Rightarrow> u64 \<Rightarrow> hba_command" where
  "fetch_table m t =
     \<lparr>h_type = m t, h_command = m (t + 2),
      h_lba = ucast (m (t + 4)) OR push_bit 8 (ucast (m (t + 5))) OR push_bit 16 (ucast (m (t + 6))) OR
        push_bit 24 (ucast (m (t + 8))) OR push_bit 32 (ucast (m (t + 9))) OR push_bit 40 (ucast (m (t + 10))),
      h_count = read16 m (t + 12), h_address = load 4 m (t + 128) OR push_bit 32 (load 4 m (t + 132)),
      h_bytes = unat (read32 m (t + 140) AND 0x3FFFFF) + 1\<rparr>"

definition table_of_header :: "mem \<Rightarrow> u64 \<Rightarrow> u64" where "table_of_header m h = read64 m (h + 8)"

lemma lba_bits:
  "ucast (ucast (lba :: u64) :: u8) OR push_bit 8 (ucast (ucast (drop_bit 8 lba) :: u8)) OR push_bit 16 (ucast (ucast (drop_bit 16 lba) :: u8)) OR
   push_bit 24 (ucast (ucast (drop_bit 24 lba) :: u8)) OR push_bit 32 (ucast (ucast (drop_bit 32 lba) :: u8)) OR
   push_bit 40 (ucast (ucast (drop_bit 40 lba) :: u8)) = take_bit 48 lba" (is "?l = _")
proof (rule bit_word_eqI)
  fix n assume n: "n < LENGTH(64)"
  consider "n < 8" | "8 \<le> n" "n < 16" | "16 \<le> n" "n < 24" | "24 \<le> n" "n < 32" | "32 \<le> n" "n < 40" | "40 \<le> n" "n < 48" | "48 \<le> n"
    by linarith
  thus "bit ?l n = bit (take_bit 48 lba) n" using n by cases (auto simp: bit_simps)
qed

lemma count_bits: "ucast (ucast (ucast (c AND 0xff :: u32) :: u8) OR push_bit 8 (ucast (ucast (drop_bit 8 c) :: u8)) :: u64) = (ucast c :: u16)"
  (is "?l = _")
proof (rule bit_word_eqI)
  fix n assume n: "n < LENGTH(16)"
  have ff: "(0xff :: u32) = mask 8" by (simp add: mask_eq_exp_minus_1)
  consider "n < 8" | "8 \<le> n" by linarith
  thus "bit ?l n = bit (ucast c :: u16) n" unfolding ff using n by cases (auto simp: bit_simps)
qed

lemma address_bits: "ucast (ucast (x :: u64) :: u32) OR push_bit 32 (ucast (ucast (drop_bit 32 x) :: u32)) = x"
proof (rule bit_word_eqI)
  fix n assume n: "n < LENGTH(64)"
  consider "n < 32" | "32 \<le> n" by linarith
  thus "bit (ucast (ucast x :: u32) OR push_bit 32 (ucast (ucast (drop_bit 32 x) :: u32)) :: u64) n = bit x n"
    using n by cases (auto simp: bit_simps)
qed

lemma transfer_bytes:
  assumes "0 < count" "count \<le> 8192"
  shows "unat (((count * 512 - 1) AND 0x3FFFFF OR 0x80000000) AND 0x3FFFFF :: u32) + 1 = unat count * 512"
proof -
  have m: "(0x3FFFFF :: u32) = mask 22" by (simp add: mask_eq_exp_minus_1)
  have c: "0 < unat count" "unat count \<le> 8192" using assms by (simp_all add: word_less_nat_alt word_le_nat_alt)
  hence u: "unat (count * 512) = unat count * 512" by (simp add: unat_mult_lem [THEN iffD1])
  have "count * 512 \<noteq> 0" using u c by (metis mult_is_0 neq0_conv unat_0 zero_neq_numeral)
  hence v: "unat (count * 512 - 1) = unat count * 512 - 1" using u by (simp add: unat_minus_one)
  have "(0x80000000 :: u32) AND 0x3FFFFF = 0" by simp
  hence "((count * 512 - 1) AND 0x3FFFFF OR 0x80000000) AND 0x3FFFFF = (count * 512 - 1) AND (0x3FFFFF :: u32)"
    by (simp only: bit.conj_disj_distrib2 and.assoc and.idem or.right_neutral)
  also have "\<dots> = take_bit 22 (count * 512 - 1)" unfolding m by (simp only: take_bit_eq_mask)
  also have "unat \<dots> = unat count * 512 - 1" using v c by (simp add: unsigned_take_bit_eq take_bit_nat_eq_self)
  finally show ?thesis using c by simp
qed

lemma apart_shift: "apart (t + a) k (t + b) n \<longleftrightarrow> apart a k b n"
proof -
  have "t + b + x - (t + a) = b + x - a" for x by simp
  thus ?thesis by (simp only: apart_def)
qed

lemma area_apart: "apart (t + 132) 4 (t + 128) 4" "apart (t + 140) 4 (t + 128) 4" "apart (t + 140) 4 (t + 132) 4"
  unfolding apart_shift by (rule apart_nat; simp)+

lemma area_loads:
  "load 4 (set_area t buf len m) (t + 128) = ucast (ucast buf :: u32)"
  "load 4 (set_area t buf len m) (t + 132) = ucast (ucast (drop_bit 32 buf) :: u32)"
  "load 4 (set_area t buf len m) (t + 140) = ucast (((len - 1) AND 0x3FFFFF) OR 0x80000000)"
proof -
  have t: "take_bit 32 (ucast (v :: u32) :: u64) = ucast v" for v
    by (rule bit_word_eqI) (auto simp: bit_simps dest: bit_imp_le_length)
  show "load 4 (set_area t buf len m) (t + 128) = ucast (ucast buf :: u32)"
    "load 4 (set_area t buf len m) (t + 132) = ucast (ucast (drop_bit 32 buf) :: u32)"
    "load 4 (set_area t buf len m) (t + 140) = ucast (((len - 1) AND 0x3FFFFF) OR 0x80000000)"
    unfolding set_area_def by (simp_all only: load_store_apart area_apart load_store_same [of 4, simplified] t)
qed

lemma fis_keeps_area:
  "load 4 (set_fis t c d lba n m) (t + 128) = load 4 m (t + 128)"
  "load 4 (set_fis t c d lba n m) (t + 132) = load 4 m (t + 132)"
  "load 4 (set_fis t c d lba n m) (t + 140) = load 4 m (t + 140)"
  by (simp_all add: load_4 set_fis_def fill_def SIZEOF_FIS_def)

lemma fetch_built:
  "fetch_table (set_fis t c d lba n (set_area t buf len m)) t =
     \<lparr>h_type = 0x27, h_command = c, h_lba = take_bit 48 lba, h_count = ucast n, h_address = buf,
      h_bytes = unat (((len - 1) AND 0x3FFFFF OR 0x80000000) AND 0x3FFFFF) + 1\<rparr>"
proof -
  have "read32 (set_fis t c d lba n (set_area t buf len m)) (t + 140) = ((len - 1) AND 0x3FFFFF) OR 0x80000000"
    unfolding read32_def fis_keeps_area area_loads by (rule bit_word_eqI) (simp add: bit_simps)
  moreover have "read16 (set_fis t c d lba n (set_area t buf len m)) (t + 12) = ucast n"
    using count_bits [of n] by (simp add: read16_def load_2 set_fis_def)
  ultimately show ?thesis
    using lba_bits [of lba] by (simp add: fetch_table_def fis_keeps_area area_loads address_bits) (simp add: set_fis_def)
qed

text \<open>Outside of the table, the header is what \<open>setup_command\<close> put there.\<close>

lemma built_outside:
  assumes "SIZEOF_TABLE \<le> unat (x - t)"
  shows "set_fis t c d lba n (set_area t buf len (fill m t 0 SIZEOF_TABLE)) x = m x"
proof -
  have k: "144 \<le> unat (x - t)" using assms by (simp add: SIZEOF_TABLE_def)
  have ne: "x \<noteq> t + j" if "unat j < 144" for j using k that by auto
  have "\<not> unat (x - (t + j)) < 4" if "unat j < 141" for j
  proof
    assume a: "unat (x - (t + j)) < 4"
    have "unat (x - (t + j) + j) = unat (x - (t + j)) + unat j" using a that by (intro unat_add_u64) simp
    thus False using k a that by simp
  qed
  hence "\<not> unat (x - (t + 128)) < 4" "\<not> unat (x - (t + 132)) < 4" "\<not> unat (x - (t + 140)) < 4" by simp_all
  moreover have "x \<noteq> t" "x \<noteq> t + 1" "x \<noteq> t + 2" "x \<noteq> t + 4" "x \<noteq> t + 5" "x \<noteq> t + 6" "x \<noteq> t + 7" "x \<noteq> t + 8" "x \<noteq> t + 9" "x \<noteq> t + 10"
      "x \<noteq> t + 12" "x \<noteq> t + 13"
    using ne [of 0] ne [of 1] ne [of 2] ne [of 4] ne [of 5] ne [of 6] ne [of 7] ne [of 8] ne [of 9] ne [of 10] ne [of 12] ne [of 13] by simp_all
  ultimately show ?thesis using k by (simp add: set_fis_def set_area_def store_def fill_def SIZEOF_FIS_def SIZEOF_TABLE_def)
qed

lemma header_table_zero: "read64 (set_header h packet wr areas m) (h + 8) = 0"
  by (simp add: load_8 load_4 set_header_def store_def fill_def SIZEOF_HEADER_def)

text \<open>
  C22: the command that is put together for a transfer is the one asked for: the block number modulo 2 to
  the 48, the number of sectors, the buffer of the port and its length in bytes. The header that should
  point to it has been cleared, so it points to address 0.
\<close>

theorem ahci_command_built:
  assumes "apart (p_cmd_table info) SIZEOF_TABLE (cmd_header info slot) SIZEOF_HEADER" "0 < count" "count \<le> 8192"
    and "M = create_fis (p_cmd_table info) command lba count (setup_command info slot wr count m)"
  shows "fetch_table M (p_cmd_table info) =
      \<lparr>h_type = 0x27, h_command = command, h_lba = take_bit 48 lba, h_count = ucast count, h_address = p_buffer info,
       h_bytes = unat count * 512\<rparr> \<and>
    table_of_header M (cmd_header info slot) = 0"
proof
  show "fetch_table M (p_cmd_table info) =
      \<lparr>h_type = 0x27, h_command = command, h_lba = take_bit 48 lba, h_count = ucast count, h_address = p_buffer info,
       h_bytes = unat count * 512\<rparr>"
    unfolding assms(4) create_fis_def setup_command_def fetch_built using transfer_bytes [OF assms(2,3)] by simp
  let ?h = "cmd_header info slot" and ?H = "set_header (cmd_header info slot) False wr 1 m"
  have "read64 M (?h + 8) = read64 ?H (?h + 8)"
  proof (rule load_cong)
    fix i :: nat assume "i < 8"
    hence "8 + i < SIZEOF_HEADER" by (simp add: SIZEOF_HEADER_def)
    hence "SIZEOF_TABLE \<le> unat (?h + of_nat (8 + i) - p_cmd_table info)" using assms(1) unfolding apart_def by blast
    thus "M (?h + 8 + of_nat i) = ?H (?h + 8 + of_nat i)"
      unfolding assms(4) create_fis_def setup_command_def by (intro built_outside) (simp add: add.assoc)
  qed
  thus "table_of_header M ?h = 0" by (simp add: table_of_header_def header_table_zero)
qed

definition sample_port :: ahci_port where
  "sample_port = no_port\<lparr>p_active := True, p_regs := 0xF0000000, p_cmd_list := 0x10000, p_cmd_table := 0x20000, p_buffer := 0x30000\<rparr>"

theorem ahci_command_built_witness:
  "h_lba (fetch_table (create_fis 0x20000 ATA_CMD_READ_DMA_EXT 5 128 (setup_command sample_port 0 False 128 (\<lambda>_. 0))) 0x20000) = 5 \<and>
   table_of_header (create_fis 0x20000 ATA_CMD_READ_DMA_EXT 5 128 (setup_command sample_port 0 False 128 (\<lambda>_. 0))) 0x10000 = 0"
proof -
  have "apart (p_cmd_table sample_port) SIZEOF_TABLE (cmd_header sample_port 0) SIZEOF_HEADER"
    by (rule apart_nat) (simp_all add: sample_port_def no_port_def SIZEOF_TABLE_def SIZEOF_HEADER_def cmd_header_def)
  from ahci_command_built [OF this _ _ refl, of 128 ATA_CMD_READ_DMA_EXT 5 False "\<lambda>_. 0"] show ?thesis
    by (simp add: sample_port_def cmd_header_def no_port_def)
qed

section \<open>Large transfers\<close>

text \<open>A controller that accepts every command at once and keeps a list of what the table held.\<close>

definition recorder :: "ahci_port \<Rightarrow> hba_command list hba" where
  "recorder info =
     \<lparr>mmio_in = \<lambda>a s. (0, s),
      mmio_out = \<lambda>a v (cs, m). (if a = p_regs info + P_CI then cs @ [fetch_table m (p_cmd_table info)] else cs, m)\<rparr>"

lemma recorder_simps [simp]:
  "mmio_in (recorder info) a s = (0, s)"
  "mmio_out (recorder info) (p_regs info + P_CI) v (cs, m) = (cs @ [fetch_table m (p_cmd_table info)], m)"
  "mmio_out (recorder info) (p_regs info + P_IS) v s = s"
  by (cases s; simp add: recorder_def P_CI_def P_IS_def)+

definition transfer :: "ahci_port \<Rightarrow> u8 \<Rightarrow> u64 \<Rightarrow> u32 \<Rightarrow> hba_command" where
  "transfer info command lba count =
     \<lparr>h_type = 0x27, h_command = command, h_lba = lba, h_count = ucast count, h_address = p_buffer info, h_bytes = unat count * 512\<rparr>"

lemma recorder_submit:
  assumes "0 < count" "count \<le> 8192" "unat lba < 2 ^ 48"
  shows "\<exists>m'. submit_command (recorder info) info command lba count wr (cs, m) = (True, cs @ [transfer info command lba count], m')"
proof -
  have "unat (take_bit 48 lba) = unat lba" using assms(3) by (simp add: unsigned_take_bit_eq take_bit_nat_eq_self)
  hence "take_bit 48 lba = lba" by (simp add: word_unat_eq_iff)
  moreover have "find (\<lambda>i. \<not> bit (0 :: u32) i) [0..<32] = Some 0" by (simp add: upt_conv_Cons)
  moreover have "wait_slot (recorder info) (p_regs info) 0 (Suc n) s = (True, s)" for n s by simp
  from this [of 999999] have "wait_slot (recorder info) (p_regs info) 0 1000000 s = (True, s)" for s by simp
  ultimately show ?thesis using transfer_bytes [OF assms(1,2)]
    by (simp del: wait_slot.simps add: submit_command_def find_slot_def issue_def ahci_wait_def create_fis_def setup_command_def fetch_built transfer_def)
qed

definition sectors_of :: "hba_command \<Rightarrow> nat list" where
  "sectors_of c = [unat (h_lba c)..<unat (h_lba c) + unat (h_count c)]"

definition dma_read :: "ahci_port \<Rightarrow> hba_command \<Rightarrow> bool" where
  "dma_read info c \<longleftrightarrow> h_type c = 0x27 \<and> h_command c = ATA_CMD_READ_DMA_EXT \<and> h_address c = p_buffer info \<and>
     h_bytes c = 512 * unat (h_count c) \<and> h_bytes c \<le> 65536"

lemma chunk_transfer:
  assumes "c \<le> 128"
  shows "sectors_of (transfer info ATA_CMD_READ_DMA_EXT lba c) = [unat lba..<unat lba + unat c]"
    "dma_read info (transfer info ATA_CMD_READ_DMA_EXT lba c)"
proof -
  have c: "unat c \<le> 128" using assms by (simp add: word_le_nat_alt)
  hence "unat (ucast c :: u16) = unat c" by (simp add: unsigned_ucast_eq take_bit_nat_eq_self)
  thus "sectors_of (transfer info ATA_CMD_READ_DMA_EXT lba c) = [unat lba..<unat lba + unat c]"
    "dma_read info (transfer info ATA_CMD_READ_DMA_EXT lba c)"
    using c by (simp_all add: sectors_of_def dma_read_def transfer_def)
qed

lemma read_chunks_covers:
  assumes "unat lba + unat count \<le> 2 ^ 48"
  shows "\<exists>new m'. read_chunks (recorder info) info dst lba count (cs, m) = (True, cs @ new, m') \<and>
    concat (map sectors_of new) = [unat lba..<unat lba + unat count] \<and> list_all (dma_read info) new"
  using assms
proof (induction "unat count" arbitrary: count lba dst cs m rule: less_induct)
  case less
  show ?case
  proof (cases "count = 0")
    case True
    thus ?thesis by (subst read_chunks.simps) simp
  next
    case False
    let ?c = "chunk_of count"
    have pos: "0 < count" using False by (simp add: word_neq_0_conv)
    have c: "?c \<le> 128" "0 < ?c" "?c \<le> count" using pos by (auto simp: chunk_of_def)
    hence u: "unat (count - ?c) = unat count - unat ?c" "unat ?c \<le> unat count" "0 < unat ?c"
      by (simp_all add: unat_sub word_le_nat_alt word_less_nat_alt)
    have "?c \<le> 8192" using c(1) by (rule order_trans) simp
    moreover have "unat lba < 2 ^ 48" using less.prems u by linarith
    ultimately obtain m1 where s: "submit_command (recorder info) info ATA_CMD_READ_DMA_EXT lba ?c False (cs, m) =
        (True, cs @ [transfer info ATA_CMD_READ_DMA_EXT lba ?c], m1)"
      using recorder_submit [OF c(2)] by blast
    have l: "unat (lba + ucast ?c) = unat lba + unat ?c" using less.prems u
      by (simp add: unat_add_u64 unat_ucast_u32)
    have "unat (count - ?c) < unat count" "unat (lba + ucast ?c) + unat (count - ?c) \<le> 2 ^ 48" using less.prems u l by simp_all
    from less.hyps [OF this] obtain new m' where r:
        "read_chunks (recorder info) info (dst + ucast (?c * 512)) (lba + ucast ?c) (count - ?c)
           (cs @ [transfer info ATA_CMD_READ_DMA_EXT lba ?c], copy m1 dst (p_buffer info) (unat (?c * 512))) =
         (True, (cs @ [transfer info ATA_CMD_READ_DMA_EXT lba ?c]) @ new, m')"
        "concat (map sectors_of new) = [unat (lba + ucast ?c)..<unat (lba + ucast ?c) + unat (count - ?c)]" "list_all (dma_read info) new"
      by blast
    have "[unat lba..<unat lba + unat ?c] @ concat (map sectors_of new) = [unat lba..<unat lba + unat count]"
      unfolding r(2) l u(1) using u(2) upt_add_eq_append [of "unat lba" "unat lba + unat ?c" "unat count - unat ?c"] by simp
    thus ?thesis using pos s r(1,3) chunk_transfer [OF c(1), of info lba]
      by (subst read_chunks.simps) (simp add: Let_def)
  qed
qed



end
