(* ===== verification/Usb.thy ===== *)
theory Usb
  imports Ahci
begin

unbundle bit_operations_syntax

text \<open>
  The USB host controller, \<open>src/kernel/drivers/uhci.cpp\<close>, and the keyboard behind it, \<open>src/kernel/drivers/usb.cpp\<close>. The
  controller is a parameter: what reads and writes of its 16-bit ports do, and a step that it makes in
  memory while the driver waits. Transfer descriptors are 16 bytes each in a pool in memory.
\<close>

section \<open>Transfer descriptors\<close>

record 'h usb_host =
  port_in :: "u16 \<Rightarrow> 'h io \<Rightarrow> u16 \<times> 'h io"
  port_out :: "u16 \<Rightarrow> u16 \<Rightarrow> 'h io \<Rightarrow> 'h io"
  host_step :: "'h io \<Rightarrow> 'h io"

record uhci =
  io_base :: u16
  port_count :: nat
  td_pool :: u64
  async_qh :: u64
  frame_list :: u64
  td_pool_index :: nat
  controller_ready :: bool

definition uhci_start :: uhci where
  "uhci_start = \<lparr>io_base = 0, port_count = 2, td_pool = 0, async_qh = 0, frame_list = 0, td_pool_index = 0, controller_ready = False\<rparr>"

definition TD_PID_SETUP :: u8 where "TD_PID_SETUP = 0x2D"
definition TD_PID_IN :: u8 where "TD_PID_IN = 0x69"
definition TD_PID_OUT :: u8 where "TD_PID_OUT = 0xE1"
definition TD_ACTIVE :: u32 where "TD_ACTIVE = 0x800000"
definition TD_IOC :: u32 where "TD_IOC = 0x1000000"
definition TD_LS :: u32 where "TD_LS = 0x4000000"
definition TD_ERROR :: u32 where "TD_ERROR = 0x400000 OR 0x400000 OR 0x100000 OR 0x400000"

definition write32 :: "mem \<Rightarrow> u64 \<Rightarrow> u32 \<Rightarrow> mem" where "write32 m a v = store 4 m a (ucast v)"

definition alloc_td :: "uhci \<Rightarrow> mem \<Rightarrow> (u64 \<times> uhci \<times> mem) option" where
  "alloc_td u m =
     (if 128 \<le> td_pool_index u then None
      else let td = td_pool u + of_nat (16 * td_pool_index u)
           in Some (td, u\<lparr>td_pool_index := td_pool_index u + 1\<rparr>, fill m td 0 16))"

definition free_all_tds :: "uhci \<Rightarrow> uhci" where "free_all_tds u = u\<lparr>td_pool_index := 0\<rparr>"

definition td_link :: "u64 \<Rightarrow> bool \<Rightarrow> bool \<Rightarrow> u32" where
  "td_link nxt qh depth = ucast nxt OR (if qh then 2 else 0) OR (if depth then 4 else 0)"

definition td_status :: "u32 \<Rightarrow> bool \<Rightarrow> bool \<Rightarrow> u32" where
  "td_status maxlen is_ls ioc = (maxlen - 1) OR TD_ACTIVE OR (if is_ls then TD_LS else 0) OR (if ioc then TD_IOC else 0)"

definition td_token :: "u8 \<Rightarrow> u8 \<Rightarrow> u8 \<Rightarrow> bool \<Rightarrow> u32" where
  "td_token pid dev_addr ep toggle =
     push_bit 15 (ucast (ep AND 0xF)) OR push_bit 8 (ucast (dev_addr AND 0x7F)) OR ucast pid OR (if toggle then 0x80000 else 0)"

text \<open>The four words of a descriptor.\<close>

definition set_td :: "u64 \<Rightarrow> u32 \<Rightarrow> u32 \<Rightarrow> u32 \<Rightarrow> u64 \<Rightarrow> mem \<Rightarrow> mem" where
  "set_td td link status token buf m =
     write32 (write32 (write32 (write32 m td link) (td + 4) status) (td + 8) token) (td + 12) (ucast buf)"

definition td_error :: "u32 \<Rightarrow> bool" where
  "td_error s \<longleftrightarrow> s AND TD_ACTIVE = 0 \<and> s AND TD_ERROR \<noteq> 0"

definition td_actual_length :: "u32 \<Rightarrow> int" where "td_actual_length s = uint ((s + 1) AND 0x7FF)"

fun wait_td :: "'h usb_host \<Rightarrow> u64 \<Rightarrow> nat \<Rightarrow> 'h io \<Rightarrow> bool \<times> 'h io" where
  "wait_td E td timeout s =
     (let status = read32 (snd s) (td + 4)
      in if status AND TD_ACTIVE = 0 then (\<not> td_error status, s)
         else case timeout of 0 \<Rightarrow> (False, s) | Suc n \<Rightarrow> wait_td E td n (host_step E s))"

declare wait_td.simps [simp del]

definition setup_packet :: "u8 \<Rightarrow> u8 \<Rightarrow> u16 \<Rightarrow> u16 \<Rightarrow> u64 \<Rightarrow> u8 list" where
  "setup_packet rt req v ix len =
     [rt, req, ucast (v AND 0xFF), ucast (drop_bit 8 v AND 0xFF), ucast (ix AND 0xFF), ucast (drop_bit 8 ix AND 0xFF),
      ucast (len AND 0xFF), ucast (drop_bit 8 len AND 0xFF)]"

text \<open>
  A control transfer in the direction \<open>pid\<close>: set-up, data if there is any, and status. The two functions of
  the driver differ in which descriptor raises an interrupt and in the value they return. The address
  \<open>pkt\<close> is that of the packet on the stack; the result \<open>None\<close> is the value -1.
\<close>

definition control_tds :: "bool \<Rightarrow> u8 \<Rightarrow> u8 \<Rightarrow> u64 \<Rightarrow> u64 \<Rightarrow> u64 \<Rightarrow> u64 \<times> u64 \<times> u64 \<Rightarrow> mem \<Rightarrow> mem" where
  "control_tds inward dev_addr ep pkt buf len = (\<lambda>(setup_td, status_td, data_td) m.
     if 0 < len
     then (let m = set_td setup_td (td_link data_td False True) (td_status 8 False False) (td_token TD_PID_SETUP dev_addr ep False) pkt m;
               m = set_td data_td (td_link status_td False True) (td_status (ucast len) False (\<not> inward))
                     (td_token (if inward then TD_PID_IN else TD_PID_OUT) dev_addr ep True) buf m
           in set_td status_td 1 (td_status 0 False inward) (td_token (if inward then TD_PID_OUT else TD_PID_IN) dev_addr ep True) 0 m)
     else (let m = set_td setup_td (td_link status_td False True) (td_status 8 False False) (td_token TD_PID_SETUP dev_addr ep False) pkt m
           in set_td status_td 1 (td_status 0 False True) (td_token TD_PID_IN dev_addr ep True) 0 m))"

definition run_tds :: "'h usb_host \<Rightarrow> uhci \<Rightarrow> u64 \<Rightarrow> u64 \<Rightarrow> 'h io \<Rightarrow> bool \<times> 'h io" where
  "run_tds E u first_td last_td s =
     (let m = write32 (write32 (snd s) (async_qh u + 4) (ucast first_td)) (async_qh u) (ucast first_td)
      in wait_td E last_td 100000 (host_step E (fst s, m)))"

definition control_transfer :: "'h usb_host \<Rightarrow> u64 \<Rightarrow> bool \<Rightarrow> u8 \<Rightarrow> u8 \<Rightarrow> u8 \<Rightarrow> u8 \<Rightarrow> u16 \<Rightarrow> u16 \<Rightarrow> u64 \<Rightarrow> u64 \<Rightarrow> uhci \<Rightarrow> 'h io \<Rightarrow>
    u64 option \<times> uhci \<times> 'h io" where
  "control_transfer E pkt inward dev_addr ep rt req v ix buf len u s =
     (if \<not> controller_ready u \<or> td_pool u = 0 then (None, u, s)
      else let u = free_all_tds u; m = poke (snd s) pkt (setup_packet rt req v ix len)
           in case alloc_td u m of None \<Rightarrow> (None, u, (fst s, m)) | Some (setup_td, u, m) \<Rightarrow>
             (case alloc_td u m of None \<Rightarrow> (None, u, (fst s, m)) | Some (status_td, u, m) \<Rightarrow>
               (case (if 0 < len then alloc_td u m else Some (0, u, m)) of None \<Rightarrow> (None, u, (fst s, m)) | Some (data_td, u, m) \<Rightarrow>
                 (let (ok, s) = run_tds E u setup_td status_td (fst s, control_tds inward dev_addr ep pkt buf len (setup_td, status_td, data_td) m)
                  in (if ok then Some data_td else None, u, s)))))"

definition control_in :: "'h usb_host \<Rightarrow> u64 \<Rightarrow> u8 \<Rightarrow> u8 \<Rightarrow> u8 \<Rightarrow> u8 \<Rightarrow> u16 \<Rightarrow> u16 \<Rightarrow> u64 \<Rightarrow> u64 \<Rightarrow> uhci \<Rightarrow> 'h io \<Rightarrow> int \<times> uhci \<times> 'h io" where
  "control_in E pkt dev_addr ep rt req v ix buf len u s =
     (case control_transfer E pkt True dev_addr ep rt req v ix buf len u s of
        (None, u, s) \<Rightarrow> (- 1, u, s)
      | (Some data_td, u, s) \<Rightarrow> (if 0 < len then td_actual_length (read32 (snd s) (data_td + 4)) else 0, u, s))"

definition control_out :: "'h usb_host \<Rightarrow> u64 \<Rightarrow> u8 \<Rightarrow> u8 \<Rightarrow> u8 \<Rightarrow> u8 \<Rightarrow> u16 \<Rightarrow> u16 \<Rightarrow> u64 \<Rightarrow> u64 \<Rightarrow> uhci \<Rightarrow> 'h io \<Rightarrow> int \<times> uhci \<times> 'h io" where
  "control_out E pkt dev_addr ep rt req v ix buf len u s =
     (case control_transfer E pkt False dev_addr ep rt req v ix buf len u s of
        (None, u, s) \<Rightarrow> (- 1, u, s) | (Some _, u, s) \<Rightarrow> (sint (ucast len :: u32), u, s))"

definition int_in :: "'h usb_host \<Rightarrow> u8 \<Rightarrow> u8 \<Rightarrow> bool \<Rightarrow> bool \<Rightarrow> u64 \<Rightarrow> u64 \<Rightarrow> uhci \<Rightarrow> 'h io \<Rightarrow> int \<times> uhci \<times> 'h io" where
  "int_in E dev_addr ep toggle is_ls buf len u s =
     (if \<not> controller_ready u \<or> td_pool u = 0 then (- 1, u, s)
      else case alloc_td (free_all_tds u) (snd s) of
             None \<Rightarrow> (- 1, free_all_tds u, s)
           | Some (td, u, m) \<Rightarrow>
               (let m = set_td td 1 (td_status (ucast len) is_ls True) (td_token TD_PID_IN dev_addr (ep AND 0xF) toggle) buf m;
                    m = write32 m (async_qh u + 4) (ucast td);
                    (ok, s) = wait_td E td 100000 (host_step E (fst s, m))
                in (if ok then td_actual_length (read32 (snd s) (td + 4)) else - 1, u, s)))"

section \<open>Start of the controller\<close>

definition CMD_RUN :: u16 where "CMD_RUN = 0x0001"
definition CMD_HCRESET :: u16 where "CMD_HCRESET = 0x0002"
definition CMD_GRESET :: u16 where "CMD_GRESET = 0x0004"
definition CMD_CONFIGURE :: u16 where "CMD_CONFIGURE = 0x0040"
definition STS_HCHALTED :: u16 where "STS_HCHALTED = 0x0040"
definition PORT_CONNECT :: u16 where "PORT_CONNECT = 0x0001"
definition PORT_ENABLE :: u16 where "PORT_ENABLE = 0x0004"
definition PORT_RESET :: u16 where "PORT_RESET = 0x0200"

definition port_reg :: "nat \<Rightarrow> u16" where "port_reg p = (if p = 0 then 0x10 else 0x12)"

definition wait_for_port_reset :: "'h usb_host \<Rightarrow> u16 \<Rightarrow> u16 \<Rightarrow> 'h io \<Rightarrow> 'h io" where
  "wait_for_port_reset E io_port reg s =
     (let (start, s) = port_in E (io_port + reg) s
      in port_out E (io_port + reg) (start AND NOT PORT_RESET) (port_out E (io_port + reg) (start OR PORT_RESET) s))"

definition reset_usb_port :: "'h usb_host \<Rightarrow> u16 \<Rightarrow> nat \<Rightarrow> 'h io \<Rightarrow> 'h io" where
  "reset_usb_port E b p s =
     (let (portsc, s) = port_in E (b + port_reg p) s
      in if portsc AND PORT_CONNECT = 0 then s
         else let s = wait_for_port_reset E b (port_reg p) s;
                  (portsc, s) = port_in E (b + port_reg p) s
              in if portsc AND PORT_ENABLE = 0 then port_out E (b + port_reg p) (portsc OR PORT_ENABLE) s else s)"

definition count_ports :: "'h usb_host \<Rightarrow> u16 \<Rightarrow> 'h io \<Rightarrow> nat \<times> 'h io" where
  "count_ports E b s =
     fold (\<lambda>p (n, s). let (v, s) = port_in E (b + port_reg p) s in (if v \<noteq> 0xFFFF then n + 1 else n, s)) [0..<2] (0, s)"

text \<open>
  The registers and the frame list, once the three pages are there; every frame points to the one queue.
  The result says whether the controller runs.
\<close>

definition start_host :: "'h usb_host \<Rightarrow> uhci \<Rightarrow> 'h io \<Rightarrow> bool \<times> uhci \<times> 'h io" where
  "start_host E u s =
     (let b = io_base u;
          m = write32 (write32 (fill (fill (fill (snd s) (frame_list u) 0 4096) (async_qh u) 0 4096) (td_pool u) 0 4096) (async_qh u) 1) (async_qh u + 4) 1;
          m = fold (\<lambda>i m. write32 m (frame_list u + of_nat (4 * i)) (ucast (async_qh u) OR 2)) [0..<1024] m;
          s = port_out E (b + 0x08) (ucast (frame_list u AND 0xFFFF)) (fst s, m);
          s = port_out E (b + 0x0C) 64 s;
          (n, s) = count_ports E b s;
          u = u\<lparr>td_pool_index := 0, port_count := n\<rparr>;
          s = port_out E (b + 0x00) (CMD_RUN OR CMD_CONFIGURE) s;
          (sts, s) = port_in E (b + 0x02) s
      in if sts AND STS_HCHALTED \<noteq> 0 then (False, u, s)
         else (True, u\<lparr>controller_ready := True\<rparr>, fold (reset_usb_port E b) [0..<n] s))"

text \<open>\<open>init\<close>, with the device that the bus reports and the three pages that the page allocator returns, 0 for none.\<close>

definition uhci_init :: "'h usb_host \<Rightarrow> 'p pci_bus \<Rightarrow> u64 \<times> u64 \<times> u64 \<Rightarrow> uhci \<Rightarrow> 'p \<Rightarrow> 'h io \<Rightarrow> bool \<times> uhci \<times> 'p \<times> 'h io" where
  "uhci_init E P = (\<lambda>(frames, queue, pool) u b s.
     case find_device_by_class P b 0x0C 0x03 0x00 of
       None \<Rightarrow> (False, u, b, s)
     | Some dev \<Rightarrow>
         (let bar4 = bar dev ! 4
          in if bar4 = 0 \<or> bar4 AND 1 = 0 then (False, u, b, s)
             else let io = ucast (bar4 AND NOT 3);
                      u = u\<lparr>io_base := io\<rparr>; b = enable_bus_mastering P dev b;
                      (cmd, s) = port_in E io (port_out E io 0 s)
                  in if cmd AND CMD_HCRESET \<noteq> 0 then (False, u, b, s)
                     else let s = port_out E io 0 (port_out E io CMD_GRESET s);
                              s = port_out E (io + 0x02) 0x3F (port_out E (io + 0x04) 0 s)
                          in if frames = 0 then (False, u, b, s)
                             else if queue = 0 then (False, u\<lparr>frame_list := frames\<rparr>, b, s)
                             else if pool = 0 then (False, u\<lparr>frame_list := frames, async_qh := queue\<rparr>, b, s)
                             else let (ok, u, s) = start_host E (u\<lparr>frame_list := frames, async_qh := queue, td_pool := pool\<rparr>) s
                                  in (ok, u, b, s)))"

section \<open>The keyboard\<close>

definition hid_table :: "u8 list" where
  "hid_table = [0x1E, 0x1F, 0x20, 0x21, 0x22, 0x23, 0x24, 0x25, 0x26, 0x27, 0x28, 0x29, 0x2A, 0x2B,
     0x2C, 0x2D, 0x2E, 0x2F, 0x30, 0x31, 0x32, 0x33, 0x34, 0x35, 0x36, 0x37, 0x01, 0x03,
     0x05, 0x07, 0x09, 0x0B, 0x0D, 0x0F, 0x11, 0x13, 0x1C, 0x01, 0x0E, 0x0F, 0x2C, 0x2D,
     0x01, 0x10, 0x11, 0x12, 0x13, 0x17, 0x18, 0x19, 0x15, 0x2E, 0x1A, 0x3A, 0x3E, 0x3C,
     0x3D, 0x3F, 0x41, 0x42, 0x43, 0x44, 0x45, 0x46, 0x57, 0x58, 0x37, 0x48, 0x49, 0x4A,
     0x4B, 0x51, 0x4D, 0x4E, 0x4C, 0x50, 0x4F, 0x52, 0x53, 0x47, 0x4B, 0x4C, 0x4D, 0x47,
     0x49, 0x51, 0x4F, 0x50, 0x51, 0x52, 0x4F, 0x50, 0x51, 0x52, 0x53, 0x4A, 0x56, 0x5B]"

definition hid_to_ps2 :: "u8 \<Rightarrow> u8" where
  "hid_to_ps2 c =
     (if 0x04 \<le> c \<and> c \<le> 0x65 then hid_table ! (unat c - 4)
      else if c = 0x87 then 0x47
      else if c = 0x89 then 0x4F
      else if c = 0x8A then 0x50
      else if c = 0x8B then 0x51
      else if c = 0x8C then 0x52
      else if c = 0x8D then 0x53
      else 0)"
record usb_kbd =
  kbd_address :: u8
  kbd_ep_in :: u8
  kbd_max_packet :: u16
  kbd_vendor :: u16
  kbd_product :: u16
  has_kbd :: bool
  usb_initialized :: bool
  kbd_toggle :: bool
  kbd_prev :: "u8 list"

definition kbd_start :: usb_kbd where
  "kbd_start = \<lparr>kbd_address = 0, kbd_ep_in = 0, kbd_max_packet = 0, kbd_vendor = 0, kbd_product = 0, has_kbd = False,
     usb_initialized = False, kbd_toggle = False, kbd_prev = replicate 8 0\<rparr>"

text \<open>
  The walk over the descriptors of a configuration, from the position after its own to its total length: the
  offsets of the last interface and of the last endpoint.
\<close>

function walk_descriptors :: "mem \<Rightarrow> u64 \<Rightarrow> nat \<Rightarrow> nat \<Rightarrow> nat option \<times> nat option \<Rightarrow> nat option \<times> nat option" where
  "walk_descriptors m cfg p fin (iface, ep) =
     (if p < fin then
        (let len = m (cfg + of_nat p); kind = m (cfg + of_nat p + 1);
             found = (if kind = 4 then (Some p, ep) else if kind = 5 then (iface, Some p) else (iface, ep))
         in if len = 0 then found else walk_descriptors m cfg (p + unat len) fin found)
      else (iface, ep))"
  by pat_completeness auto
termination
  by (relation "measure (\<lambda>(m, cfg, p, fin, f). fin - p)") (auto simp: unat_gt_0 intro!: diff_less_mono2)

declare walk_descriptors.simps [simp del]

definition boot_keyboard :: "mem \<Rightarrow> u64 \<Rightarrow> bool" where
  "boot_keyboard m iface \<longleftrightarrow> m (iface + 5) = 3 \<and> m (iface + 6) = 1 \<and> m (iface + 7) = 1"

type_synonym 'h usb_state = "usb_kbd \<times> uhci \<times> 'h io"

definition usb_out :: "'h usb_host \<Rightarrow> u64 \<Rightarrow> u8 \<Rightarrow> u8 \<Rightarrow> u8 \<Rightarrow> u16 \<Rightarrow> 'h usb_state \<Rightarrow> (bool \<times> 'h usb_state)" where
  "usb_out E pkt addr rt req v = (\<lambda>(k, u, s). let (ret, u, s) = control_out E pkt addr 0 rt req v 0 0 0 u s in (0 \<le> ret, k, u, s))"

definition usb_in :: "'h usb_host \<Rightarrow> u64 \<Rightarrow> u8 \<Rightarrow> u16 \<Rightarrow> u64 \<Rightarrow> u64 \<Rightarrow> 'h usb_state \<Rightarrow> (bool \<times> 'h usb_state)" where
  "usb_in E pkt addr v buf len = (\<lambda>(k, u, s). let (ret, u, s) = control_in E pkt addr 0 0x80 6 v 0 buf len u s in (0 \<le> ret, k, u, s))"

text \<open>A request that ends the enumeration when it fails.\<close>

definition require :: "(bool \<times> 'h usb_state) \<Rightarrow> ('h usb_state \<Rightarrow> bool \<times> 'h usb_state) \<Rightarrow> bool \<times> 'h usb_state" where
  "require r f = (if fst r then f (snd r) else (False, snd r))"

text \<open>
  The enumeration; \<open>dd\<close> and \<open>cfg\<close> are the addresses of the device descriptor and of the 64 bytes for the
  configuration, on the stack.
\<close>

definition accept_keyboard :: "mem \<Rightarrow> u64 \<Rightarrow> u64 \<Rightarrow> usb_kbd \<Rightarrow> usb_kbd" where
  "accept_keyboard m dd ep k =
     k\<lparr>kbd_address := m (ep + 2) AND 0x7F, kbd_ep_in := m (ep + 2) AND 0x8F, kbd_max_packet := read16 m (ep + 4),
       kbd_vendor := read16 m (dd + 8), kbd_product := read16 m (dd + 10), has_kbd := True\<rparr>"

definition enumerate_hid_keyboard :: "'h usb_host \<Rightarrow> u64 \<Rightarrow> u64 \<Rightarrow> u64 \<Rightarrow> 'h usb_state \<Rightarrow> bool \<times> 'h usb_state" where
  "enumerate_hid_keyboard E pkt dd cfg st =
     require (usb_in E pkt 0 0x100 dd 18 st) (\<lambda>st.
     require (usb_out E pkt 0 0x00 5 1 st) (\<lambda>st.
     require (usb_in E pkt 1 0x200 cfg 64 st) (\<lambda>st.
       let m = snd (snd (snd st))
       in case walk_descriptors m cfg (unat (m cfg)) (unat (read16 m (cfg + 2))) (None, None) of
            (None, _) \<Rightarrow> (False, st)
          | (Some iface, ep) \<Rightarrow>
              if \<not> boot_keyboard m (cfg + of_nat iface) then (False, st)
              else case ep of
                None \<Rightarrow> (False, st)
              | Some ep \<Rightarrow>
                  if m (cfg + of_nat ep + 2) AND 0x80 = 0 then (False, st)
                  else
                    require (usb_out E pkt 1 0x00 9 (ucast (m (cfg + 5))) st) (\<lambda>st.
                    require (usb_out E pkt 1 0x21 0x0B 0 st) (\<lambda>st.
                    require (usb_out E pkt 1 0x21 0x0A 0 st) (\<lambda>(k, u, s).
                      (True, accept_keyboard (snd s) dd (cfg + of_nat ep) k, u, s)))))))"

definition usb_init :: "'h usb_host \<Rightarrow> u64 \<Rightarrow> u64 \<Rightarrow> u64 \<Rightarrow> 'h usb_state \<Rightarrow> bool \<times> 'h usb_state" where
  "usb_init E pkt dd cfg = (\<lambda>(k, u, s).
     if usb_initialized k then (has_kbd k, k, u, s)
     else if \<not> controller_ready u then (False, k, u, s)
     else case enumerate_hid_keyboard E pkt dd cfg (k, u, s) of
            (True, k, u, s) \<Rightarrow> (True, k\<lparr>usb_initialized := True\<rparr>, u, s) | (False, st) \<Rightarrow> (False, st))"

section \<open>Reports\<close>

text \<open>
  What \<open>keyboard_poll\<close> makes of a report: the value it returns, the scan code if there is one, and the report
  it keeps for the next time.
\<close>

definition modifier_code :: "nat \<Rightarrow> bool \<Rightarrow> u8 option" where
  "modifier_code i pressed =
     (if i = 0 then Some (if pressed then 0x1D else 0x9D)
      else if i = 1 then Some (if pressed then 0x2A else 0xAA)
      else if i = 2 then Some (if pressed then 0x38 else 0xB8)
      else None)"

definition modifier_event :: "u8 \<Rightarrow> u8 \<Rightarrow> u8 option" where
  "modifier_event now prev =
     first_some (\<lambda>i. if bit (now XOR prev) i then modifier_code i (bit now i) else None) [0..<8]"

text \<open>The first key of a report that is not in the other one, behind the two bytes that are no keys.\<close>

definition new_key :: "u8 list \<Rightarrow> u8 list \<Rightarrow> u8 option" where
  "new_key report other = find (\<lambda>c. c \<noteq> 0 \<and> c \<notin> set (drop 2 other)) (drop 2 report)"

definition report_event :: "u8 list \<Rightarrow> u8 list \<Rightarrow> u8 option \<times> u8 list" where
  "report_event report prev =
     (if report = prev then (None, report)
      else case modifier_event (report ! 0) (prev ! 0) of
             Some sc \<Rightarrow> (Some sc, prev)
           | None \<Rightarrow>
               (case new_key report prev of
                  Some c \<Rightarrow> (Some (hid_to_ps2 c), report)
                | None \<Rightarrow>
                    (case new_key prev report of
                       Some c \<Rightarrow> (Some (hid_to_ps2 c OR 0x80), report)
                     | None \<Rightarrow> (None, report))))"

definition keyboard_poll :: "'h usb_host \<Rightarrow> u64 \<Rightarrow> 'h usb_state \<Rightarrow> (int \<times> u8 option) \<times> 'h usb_state" where
  "keyboard_poll E buf = (\<lambda>(k, u, s).
     if \<not> has_kbd k then ((- 1, None), k, u, s)
     else let (ret, u, s) = int_in E (kbd_address k) (kbd_ep_in k AND 0xF) (kbd_toggle k) False buf 8 u s;
              k = (if 0 < ret then k\<lparr>kbd_toggle := \<not> kbd_toggle k\<rparr> else k)
          in if ret \<le> 0 then ((0, None), k, u, s)
             else let (sc, prev) = report_event (bytes_at (snd s) buf 8) (kbd_prev k)
                  in ((if sc = None then 0 else 1, sc), k\<lparr>kbd_prev := prev\<rparr>, u, s))"

section \<open>Events of a keyboard\<close>

text \<open>The keys that a report shows as held, and a key that goes down or up from one report to the next.\<close>

definition held :: "u8 list \<Rightarrow> u8 set" where "held r = set (drop 2 r) - {0}"

datatype key_change = Press u8 | Release u8

fun changes :: "u8 list \<Rightarrow> key_change \<Rightarrow> u8 list \<Rightarrow> bool" where
  "changes r (Press c) r' \<longleftrightarrow> r' ! 0 = r ! 0 \<and> c \<noteq> 0 \<and> c \<notin> held r \<and> held r' = insert c (held r)"
| "changes r (Release c) r' \<longleftrightarrow> r' ! 0 = r ! 0 \<and> c \<in> held r \<and> held r' = held r - {c}"

fun change_code :: "key_change \<Rightarrow> u8" where
  "change_code (Press c) = hid_to_ps2 c"
| "change_code (Release c) = hid_to_ps2 c OR 0x80"

fun report_run :: "u8 list \<Rightarrow> (key_change \<times> u8 list) list \<Rightarrow> bool" where
  "report_run r [] \<longleftrightarrow> True"
| "report_run r ((c, r') # rest) \<longleftrightarrow> changes r c r' \<and> report_run r' rest"

fun report_events :: "u8 list \<Rightarrow> u8 list list \<Rightarrow> u8 option list" where
  "report_events prev [] = []"
| "report_events prev (r # rs) = (let (e, prev) = report_event r prev in e # report_events prev rs)"

lemma find_only: "(\<And>x. x \<in> set xs \<Longrightarrow> p x \<longleftrightarrow> x = c) \<Longrightarrow> c \<in> set xs \<Longrightarrow> find p xs = Some c"
  by (induction xs) auto

lemma new_key_held:
  assumes "held r - held r' = {c}"
  shows "new_key r r' = Some c"
proof -
  have "x \<noteq> 0 \<and> x \<notin> set (drop 2 r') \<longleftrightarrow> x = c" if "x \<in> set (drop 2 r)" for x
    using assms that by (auto simp: held_def)
  moreover have "c \<in> set (drop 2 r)" using assms by (auto simp: held_def)
  ultimately show ?thesis by (simp add: new_key_def find_only)
qed

lemma no_new_key: "held r \<subseteq> held r' \<Longrightarrow> new_key r r' = None"
  by (auto simp: new_key_def held_def find_None_iff)

lemma first_some_none: "first_some (\<lambda>x. None) xs = None"
  by (induction xs) simp_all

lemma same_modifiers: "modifier_event b b = None"
  by (simp add: modifier_event_def first_some_none)

lemma report_change:
  assumes "changes r c r'"
  shows "report_event r' r = (Some (change_code c), r')"
proof (cases c)
  case (Press k)
  have "held r' - held r = {k}" "r' \<noteq> r" "r' ! 0 = r ! 0" using assms Press by auto
  thus ?thesis using Press new_key_held [of r' r] by (simp add: report_event_def same_modifiers)
next
  case (Release k)
  have "held r - held r' = {k}" "held r' \<subseteq> held r" "r' \<noteq> r" "r' ! 0 = r ! 0" using assms Release by auto
  thus ?thesis using Release new_key_held [of r r'] no_new_key [of r' r] by (simp add: report_event_def same_modifiers)
qed



text \<open>
  a report with a changed control, shift or alt key is never taken as seen: as long as it is repeated,
  every poll reports the modifier again and no other key of the report is reported at all.
\<close>

theorem usb_modifier_repeats:
  assumes "modifier_event (r ! 0) (prev ! 0) = Some sc"
  shows "report_events prev (replicate n r) = replicate n (Some sc)"
proof -
  have "r \<noteq> prev" using assms same_modifiers [of "prev ! 0"] by auto
  hence "report_event r prev = (Some sc, prev)" using assms by (simp add: report_event_def)
  thus ?thesis by (induction n) simp_all
qed

theorem usb_modifier_repeats_witness:
  "report_events (replicate 8 0) (replicate 5 [2, 0, 4, 0, 0, 0, 0, 0]) = replicate 5 (Some 0x2A)"
  by (rule usb_modifier_repeats) code_simp

text \<open>The token of a descriptor has the fields asked for, and a length of 0 in its upper eleven bits.\<close>

lemma td_token_fields:
  "ucast (td_token pid a ep t) = pid" "drop_bit 21 (td_token pid a ep t) = 0" "bit (td_token pid a ep t) 19 = t"
proof -
  have F: "(0xF :: u8) = mask 4" "(0x7F :: u8) = mask 7" by (simp_all add: mask_eq_exp_minus_1)
  have T: "bit (0x80000 :: int) n \<longleftrightarrow> n = 19" for n
    using bit_exp_iff [where 'a = int, of 19 n] by (auto simp: possible_bit_def)
  have "bit (ucast (td_token pid a ep t) :: u8) n = bit pid n" if "n < 8" for n
  proof -
    have "bit (td_token pid a ep t) n = bit pid n" using that unfolding td_token_def F by (auto simp: bit_simps T)
    thus ?thesis using that by (simp add: bit_ucast_iff)
  qed
  thus "ucast (td_token pid a ep t) = pid" by (intro bit_word_eqI) simp
  show "drop_bit 21 (td_token pid a ep t) = 0" unfolding td_token_def F by (rule bit_word_eqI) (auto simp: bit_simps T dest: bit_imp_le_length)
  show "bit (td_token pid a ep t) 19 = t" unfolding td_token_def F by (auto simp: bit_simps T dest: bit_imp_le_length)
qed

end
