(* ===== verification/Libc_Match.thy ===== *)
theory Libc_Match
  imports LTOS_Prelude
begin

unbundle bit_operations_syntax

text \<open>
  Two matchers of the user library, \<open>libc/src/fnmatch.c\<close> and \<open>libc/src/regex.c\<close>. A C string is the list of its bytes
  before the zero, so that the character at the end of a list is 0. \<open>None\<close> is a step behind the zero or,
  in the second part, a loop that does not end.
\<close>

definition head_char :: "u8 list \<Rightarrow> u8" where "head_char p = (case p of [] \<Rightarrow> 0 | c # _ \<Rightarrow> c)"

text \<open>Characters are signed in comparisons.\<close>

definition in_range :: "u8 \<Rightarrow> u8 \<Rightarrow> u8 \<Rightarrow> bool" where
  "in_range lo hi c \<longleftrightarrow> sint lo \<le> sint c \<and> sint c \<le> sint hi"

section \<open>File name patterns\<close>

text \<open>
  The loop of \<open>match_class\<close>: whether the character was found, and the rest of the pattern behind the bracket.
  A range at the end of the pattern makes it step over the zero.
\<close>

fun class_loop :: "u8 list \<Rightarrow> u8 \<Rightarrow> bool \<Rightarrow> (bool \<times> u8 list) option" where
  "class_loop p c ok =
     (case p of
        [] \<Rightarrow> Some (ok, [])
      | a # q \<Rightarrow>
          if a = 93 then Some (ok, q)
          else if head_char q = 45 \<and> head_char (tl q) \<noteq> 93
          then (case q of
                  _ # hi # rest \<Rightarrow> class_loop rest c (ok \<or> in_range a hi c)
                | _ \<Rightarrow> None)
          else class_loop q c (ok \<or> a = c))"

declare class_loop.simps [simp del]

definition match_class :: "u8 list \<Rightarrow> u8 \<Rightarrow> (bool \<times> u8 list) option" where
  "match_class p c =
     (let p = tl p; invert = head_char p \<in> {94, 33}
      in map_option (\<lambda>(ok, q). (ok \<noteq> invert, q)) (class_loop (if invert then tl p else p) c False))"

definition FNM_NOESCAPE :: u32 where "FNM_NOESCAPE = 0x01"
definition FNM_PATHNAME :: u32 where "FNM_PATHNAME = 0x02"

lemma class_loop_shorter: "class_loop p c ok = Some (r, q) \<Longrightarrow> length q \<le> length p"
proof (induction "length p" arbitrary: p ok rule: less_induct)
  case less
  show ?case
  proof (cases p)
    case Nil
    thus ?thesis using less.prems by (simp add: class_loop.simps)
  next
    case (Cons a p')
    have nxt: "length q \<le> length p'" if "class_loop p' c ok' = Some (r, q)" for ok'
      using less.hyps [OF _ that] Cons by simp
    have skip: "length q \<le> length rest" if "class_loop rest c ok' = Some (r, q)" "p' = x # y # rest" for x y rest ok'
      using less.hyps [OF _ that(1)] Cons that(2) by simp
    consider "a = 93" | "a \<noteq> 93" "head_char p' = 45 \<and> head_char (tl p') \<noteq> 93" | "a \<noteq> 93" "\<not> (head_char p' = 45 \<and> head_char (tl p') \<noteq> 93)"
      by blast
    thus ?thesis
    proof cases
      case 1
      thus ?thesis using less.prems Cons by (simp add: class_loop.simps)
    next
      case 2
      then obtain x y rest where "p' = x # y # rest" "class_loop rest c (ok \<or> in_range a y c) = Some (r, q)"
        using less.prems Cons by (subst (asm) class_loop.simps) (auto split: list.splits)
      thus ?thesis using skip [of rest] Cons by force
    next
      case 3
      hence "class_loop p' c (ok \<or> a = c) = Some (r, q)" using less.prems Cons by (subst (asm) class_loop.simps) (auto split: if_splits)
      thus ?thesis using nxt Cons by force
    qed
  qed
qed

lemma match_class_shorter: "match_class p c = Some (r, q) \<Longrightarrow> p \<noteq> [] \<Longrightarrow> length q < length p"
  by (cases p) (auto simp: match_class_def Let_def dest!: class_loop_shorter split: if_splits)

text \<open>
  The pattern, against the whole string; the second function is the loop behind a star, which tries to match
  the rest of the pattern \<open>p\<close> at every position.
\<close>

function (sequential) fn_match :: "u32 \<Rightarrow> u8 list \<Rightarrow> u8 list \<Rightarrow> bool option" and fn_star :: "u32 \<Rightarrow> u8 list \<Rightarrow> u8 list \<Rightarrow> bool option" where
  "fn_match flags p s =
     (case p of
        [] \<Rightarrow> Some (s = [])
      | a # q \<Rightarrow>
          if a = 63 then
            (if s = [] \<or> flags AND FNM_PATHNAME \<noteq> 0 \<and> head_char s = 47 then Some False else fn_match flags q (tl s))
          else if a = 42 then
            (let q = dropWhile (\<lambda>c. c = 42) q in if q = [] then Some True else fn_star flags q s)
          else if a = 91 then
            (if s = [] then Some False
             else case match_class p (head_char s) of
                    None \<Rightarrow> None
                  | Some (ok, q) \<Rightarrow> if ok then fn_match flags q (tl s) else Some False)
          else if a = 92 then
            (let p = (if flags AND FNM_NOESCAPE = 0 then q else p)
             in if head_char p \<noteq> head_char s then Some False
                else if p = [] then None else fn_match flags (tl p) (tl s))
          else if a \<noteq> head_char s then Some False
          else fn_match flags q (tl s))"
| "fn_star flags p s =
     (case s of
        [] \<Rightarrow> fn_match flags p s
      | c # t \<Rightarrow>
          if flags AND FNM_PATHNAME \<noteq> 0 \<and> c = 47 then fn_match flags p s
          else (case fn_match flags p s of None \<Rightarrow> None | Some True \<Rightarrow> Some True | Some False \<Rightarrow> fn_star flags p t))"
  by pat_completeness auto
termination
  by (relation "measure (case_sum (\<lambda>(f, p, s). 2 * (length p + length s)) (\<lambda>(f, p, s). 2 * (length p + length s) + 1))")
     (auto simp: le_imp_less_Suc length_dropWhile_le dest!: match_class_shorter)

declare fn_match.simps [simp del] fn_star.simps [simp del]

definition fnmatch :: "u8 list \<Rightarrow> u8 list \<Rightarrow> u32 \<Rightarrow> int option" where
  "fnmatch pattern str flags = map_option (\<lambda>ok. if ok then 0 else 1) (fn_match flags pattern str)"

section \<open>What a pattern means\<close>

datatype glob = Any | Star | Lit u8 | Class bool "(u8 \<times> u8) list"

fun glob_match :: "glob list \<Rightarrow> u8 list \<Rightarrow> bool" where
  "glob_match [] s \<longleftrightarrow> s = []"
| "glob_match (Any # gs) s \<longleftrightarrow> s \<noteq> [] \<and> glob_match gs (tl s)"
| "glob_match (Star # gs) s \<longleftrightarrow> (\<exists>k \<in> {..length s}. glob_match gs (drop k s))"
| "glob_match (Lit c # gs) s \<longleftrightarrow> s \<noteq> [] \<and> hd s = c \<and> glob_match gs (tl s)"
| "glob_match (Class invert rs # gs) s \<longleftrightarrow>
     s \<noteq> [] \<and> (list_ex (\<lambda>(lo, hi). in_range lo hi (hd s)) rs \<noteq> invert) \<and> glob_match gs (tl s)"

text \<open>The parts of a pattern; \<open>None\<close> for a pattern that ends in a backslash or within a range.\<close>

fun class_ranges :: "u8 list \<Rightarrow> ((u8 \<times> u8) list \<times> u8 list) option" where
  "class_ranges [] = Some ([], [])"
| "class_ranges (a # q) =
     (if a = 93 then Some ([], q)
      else case q of
             x # hi # rest \<Rightarrow>
               if x = 45 \<and> hi \<noteq> 93 then map_option (\<lambda>(rs, p). ((a, hi) # rs, p)) (class_ranges rest)
               else map_option (\<lambda>(rs, p). ((a, a) # rs, p)) (class_ranges q)
           | [x] \<Rightarrow> if x = 45 then None else map_option (\<lambda>(rs, p). ((a, a) # rs, p)) (class_ranges q)
           | [] \<Rightarrow> map_option (\<lambda>(rs, p). ((a, a) # rs, p)) (class_ranges q))"

lemma in_range_self: "in_range a a c \<longleftrightarrow> a = c"
  by (auto simp: in_range_def signed_word_eqI dest: antisym)

definition class_found :: "(u8 \<times> u8) list \<Rightarrow> u8 \<Rightarrow> bool" where
  "class_found rs c \<longleftrightarrow> list_ex (\<lambda>(lo, hi). in_range lo hi c) rs"

lemma class_found_simps [simp]: "class_found [] c = False" "class_found ((lo, hi) # rs) c \<longleftrightarrow> in_range lo hi c \<or> class_found rs c"
  by (simp_all add: class_found_def)

lemma class_loop_step:
  "class_loop [] c ok = Some (ok, [])"
  "class_loop (93 # q) c ok = Some (ok, q)"
  "a \<noteq> 93 \<Longrightarrow> hi \<noteq> 93 \<Longrightarrow> class_loop (a # 45 # hi # rest) c ok = class_loop rest c (ok \<or> in_range a hi c)"
  "a \<noteq> 93 \<Longrightarrow> head_char q \<noteq> 45 \<or> head_char (tl q) = 93 \<Longrightarrow> class_loop (a # q) c ok = class_loop q c (ok \<or> a = c)"
  by (subst class_loop.simps; auto simp: head_char_def)+

declare class_ranges.simps(2) [simp del]

lemma class_ranges_step:
  "class_ranges (93 # q) = Some ([], q)"
  "a \<noteq> 93 \<Longrightarrow> hi \<noteq> 93 \<Longrightarrow> class_ranges (a # 45 # hi # rest) = map_option (\<lambda>(rs, p). ((a, hi) # rs, p)) (class_ranges rest)"
  "a \<noteq> 93 \<Longrightarrow> class_ranges [a, 45] = None"
  by (subst class_ranges.simps(2); simp)+

lemma class_ranges_single:
  "a \<noteq> 93 \<Longrightarrow> q \<noteq> [45] \<Longrightarrow> \<nexists>hi rest. q = 45 # hi # rest \<and> hi \<noteq> 93 \<Longrightarrow>
     class_ranges (a # q) = map_option (\<lambda>(rs, p). ((a, a) # rs, p)) (class_ranges q)"
  by (subst class_ranges.simps(2)) (auto split: list.split)

lemma class_ranges_loop:
  "class_ranges p = Some (rs, q) \<Longrightarrow>
     class_loop p c ok = Some (ok \<or> class_found rs c, q) \<and> set q \<subseteq> set p \<and> length q \<le> length p"
proof (induction "length p" arbitrary: p rs q ok rule: less_induct)
  case less
  show ?case
  proof (cases p)
    case Nil
    thus ?thesis using less.prems by (simp add: class_loop_step)
  next
    case (Cons a q')
    note step = less.prems [unfolded Cons]
    consider "a = 93" | "a \<noteq> 93" "\<exists>hi rest. q' = 45 # hi # rest \<and> hi \<noteq> 93" | "a \<noteq> 93" "\<nexists>hi rest. q' = 45 # hi # rest \<and> hi \<noteq> 93" by blast
    thus ?thesis
    proof cases
      case 1
      thus ?thesis using step Cons by (auto simp: class_loop_step class_ranges_step)
    next
      case 2
      then obtain hi rest where q': "q' = 45 # hi # rest" "hi \<noteq> 93" by blast
      then obtain rs' where rs: "class_ranges rest = Some (rs', q)" "rs = (a, hi) # rs'" using step 2(1) by (auto simp: class_ranges_step)
      have "length rest < length p" using Cons q' by simp
      from less.hyps [OF this rs(1), of "ok \<or> in_range a hi c"] show ?thesis using Cons 2(1) q' rs(2) by (auto simp: class_loop_step)
    next
      case 3
      have q': "q' \<noteq> [45]" using step 3(1) by (auto simp: class_ranges_step)
      then obtain rs' where rs: "class_ranges q' = Some (rs', q)" "rs = (a, a) # rs'"
        using step class_ranges_single [OF 3(1) q' 3(2)] by auto
      have h: "head_char q' \<noteq> 45 \<or> head_char (tl q') = 93"
      proof (cases q' rule: remdups_adj.cases)
        case (3 x y xs)
        thus ?thesis using \<open>\<nexists>hi rest. q' = 45 # hi # rest \<and> hi \<noteq> 93\<close> by (auto simp: head_char_def)
      qed (use q' in \<open>simp_all add: head_char_def\<close>)
      have "length q' < length p" using Cons by simp
      from less.hyps [OF this rs(1), of "ok \<or> a = c"] show ?thesis using Cons 3(1) h rs(2) by (auto simp: class_loop_step in_range_self)
    qed
  qed
qed

text \<open>The parts of a whole pattern, and the meaning of its stars in a row.\<close>

function globs :: "u8 list \<Rightarrow> glob list option" where
  "globs p =
     (case p of
        [] \<Rightarrow> Some []
      | a # q \<Rightarrow>
          if a = 63 then map_option (Cons Any) (globs q)
          else if a = 42 then map_option (Cons Star) (globs q)
          else if a = 91 then
            (let invert = head_char q \<in> {94, 33}
             in case class_ranges (if invert then tl q else q) of
                  None \<Rightarrow> None
                | Some (rs, q) \<Rightarrow> if length p \<le> length q then None else map_option (Cons (Class invert rs)) (globs q))
          else if a = 92 then (case q of [] \<Rightarrow> None | c # q \<Rightarrow> map_option (Cons (Lit c)) (globs q))
          else map_option (Cons (Lit a)) (globs q))"
  by pat_completeness auto
termination
  by (relation "measure length") auto

declare globs.simps [simp del]

lemma glob_star_iff: "glob_match (Star # gs) s \<longleftrightarrow> (\<exists>k \<le> length s. glob_match gs (drop k s))"
  by auto

lemma glob_stars: "glob_match (Star # Star # gs) s = glob_match (Star # gs) s"
proof
  assume "glob_match (Star # Star # gs) s"
  then obtain j k where "j \<le> length s" "k \<le> length (drop j s)" "glob_match gs (drop k (drop j s))" unfolding glob_star_iff by blast
  hence "k + j \<le> length s" "glob_match gs (drop (k + j) s)" by (simp_all add: add.commute)
  thus "glob_match (Star # gs) s" unfolding glob_star_iff by blast
next
  assume "glob_match (Star # gs) s"
  hence "glob_match (Star # gs) (drop 0 s)" by simp
  thus "glob_match (Star # Star # gs) s" by (subst glob_star_iff) blast
qed

lemma globs_drop_stars: "globs q = Some gs \<Longrightarrow> \<exists>gs'. globs (dropWhile (\<lambda>c. c = 42) q) = Some gs' \<and> (\<forall>s. glob_match (Star # gs) s = glob_match (Star # gs') s)"
proof (induction q arbitrary: gs)
  case (Cons a q)
  show ?case
  proof (cases "a = 42")
    case True
    obtain hs where h: "globs q = Some hs" "gs = Star # hs" using Cons.prems True by (subst (asm) globs.simps) auto
    obtain gs' where "globs (dropWhile (\<lambda>c. c = 42) q) = Some gs'" "\<forall>s. glob_match (Star # hs) s = glob_match (Star # gs') s"
      using Cons.IH [OF h(1)] by blast
    thus ?thesis using True h(2) glob_stars by (auto simp del: glob_match.simps)
  next
    case False
    thus ?thesis using Cons.prems by auto
  qed
qed auto

lemma fn_star_meaning:
  assumes "flags AND FNM_PATHNAME = 0" "\<And>s. fn_match flags p s = Some (glob_match gs s)"
  shows "fn_star flags p s = Some (glob_match (Star # gs) s)"
proof (induction s)
  case Nil
  show ?case by (subst fn_star.simps) (simp add: assms)
next
  case (Cons c s)
  have "glob_match (Star # gs) (c # s) \<longleftrightarrow> glob_match gs (c # s) \<or> glob_match (Star # gs) s"
  proof
    assume "glob_match (Star # gs) (c # s)"
    then obtain k where "k \<le> length (c # s)" "glob_match gs (drop k (c # s))" unfolding glob_star_iff by blast
    thus "glob_match gs (c # s) \<or> glob_match (Star # gs) s" unfolding glob_star_iff by (cases k) auto
  next
    assume "glob_match gs (c # s) \<or> glob_match (Star # gs) s"
    then consider "glob_match gs (drop 0 (c # s))" | k where "k \<le> length s" "glob_match gs (drop (Suc k) (c # s))"
      unfolding glob_star_iff by auto
    thus "glob_match (Star # gs) (c # s)" unfolding glob_star_iff
      by cases (blast, metis Suc_le_mono length_Cons)
  qed
  thus ?case using Cons by (subst fn_star.simps) (auto simp: assms simp del: glob_match.simps split: option.split bool.split)
qed

lemma match_class_meaning:
  assumes "class_ranges (if head_char q \<in> {94, 33} then tl q else q) = Some (rs, q')"
  shows "match_class (91 # q) c = Some (class_found rs c \<noteq> (head_char q \<in> {94, 33}), q')"
  using class_ranges_loop [OF assms, of c False] by (auto simp: match_class_def Let_def)

lemma fn_match_meaning:
  assumes "flags AND FNM_PATHNAME = 0" "flags AND FNM_NOESCAPE = 0"
  shows "globs p = Some gs \<Longrightarrow> 0 \<notin> set p \<Longrightarrow> fn_match flags p s = Some (glob_match gs s)"
proof (induction "length p" arbitrary: p gs s rule: less_induct)
  case less
  show ?case
  proof (cases p)
    case Nil
    thus ?thesis using less.prems by (subst fn_match.simps) (auto simp: globs.simps)
  next
    case (Cons a q)
    have zero: "a \<noteq> 0" "0 \<notin> set q" using less.prems(2) Cons by auto
    have IH: "fn_match flags p' s' = Some (glob_match gs' s')" if "globs p' = Some gs'" "set p' \<subseteq> set q" "length p' < length p" for p' gs' s'
      using less.hyps [OF that(3,1)] that(2) zero(2) by blast
    consider "a = 63" | "a = 42" | "a = 91" | "a = 92" | "a \<notin> {63, 42, 91, 92}" by blast
    thus ?thesis
    proof cases
      case 1
      then obtain hs where h: "globs q = Some hs" "gs = Any # hs" using less.prems(1) Cons by (subst (asm) globs.simps) auto
      show ?thesis using IH [OF h(1)] h(2) 1 Cons assms by (subst fn_match.simps) simp
    next
      case 2
      then obtain hs where h: "globs q = Some hs" "gs = Star # hs" using less.prems(1) Cons by (subst (asm) globs.simps) auto
      let ?q = "dropWhile (\<lambda>c. c = 42) q"
      obtain gs' where g: "globs ?q = Some gs'" "\<forall>s. glob_match (Star # hs) s = glob_match (Star # gs') s"
        using globs_drop_stars [OF h(1)] by blast
      have "fn_match flags ?q s' = Some (glob_match gs' s')" for s'
        using IH [OF g(1)] set_dropWhileD [of _ "\<lambda>c. c = 42" q] length_dropWhile_le [of "\<lambda>c. c = 42" q] Cons by auto
      note star = fn_star_meaning [OF assms(1) this]
      have "globs [] = Some []" by (subst globs.simps) simp
      hence "gs' = []" if "?q = []" using g(1) unfolding that by simp
      moreover have "glob_match [Star] s" unfolding glob_star_iff by (intro exI [of _ "length s"]) simp
      ultimately have "?q = [] \<Longrightarrow> glob_match (Star # gs') s" by simp
      thus ?thesis using star g(2) h(2) 2 Cons by (subst fn_match.simps) (auto simp: Let_def simp del: glob_match.simps)
    next
      case 3
      then obtain rs q' hs where h: "class_ranges (if head_char q \<in> {94, 33} then tl q else q) = Some (rs, q')" "globs q' = Some hs"
          "gs = Class (head_char q \<in> {94, 33}) rs # hs"
        using less.prems(1) Cons by (subst (asm) globs.simps) (auto simp: Let_def split: option.splits if_splits)
      have "set q' \<subseteq> set (if head_char q \<in> {94, 33} then tl q else q)" "length q' \<le> length (if head_char q \<in> {94, 33} then tl q else q)"
        using class_ranges_loop [OF h(1)] by blast+
      moreover have "set (tl q) \<subseteq> set q" by (cases q) auto
      ultimately have q': "set q' \<subseteq> set q" "length q' < length p" using Cons by (auto split: if_splits)
      show ?thesis using IH [OF h(2) q'] match_class_meaning [OF h(1)] h(3) 3 Cons
        by (subst fn_match.simps) (cases s; auto simp: class_found_def head_char_def)
    next
      case 4
      then obtain c q' hs where h: "q = c # q'" "globs q' = Some hs" "gs = Lit c # hs"
        using less.prems(1) Cons by (subst (asm) globs.simps) (auto split: list.splits)
      have "set q' \<subseteq> set q" "length q' < length p" "c \<noteq> 0" using h(1) Cons zero by auto
      thus ?thesis using IH [OF h(2)] h 4 Cons assms by (subst fn_match.simps) (cases s; auto simp: Let_def head_char_def)
    next
      case 5
      then obtain hs where h: "globs q = Some hs" "gs = Lit a # hs" using less.prems(1) Cons by (subst (asm) globs.simps) auto
      show ?thesis using IH [OF h(1)] h(2) 5 Cons zero(1) by (subst fn_match.simps) (cases s; auto simp: head_char_def)
    qed
  qed
qed

text \<open>
  C37: a file name matches a pattern exactly when it is in the meaning of the pattern: any character for a
  question mark, any string for a star, a character inside or outside of the ranges for brackets, and
  every other character, or one behind a backslash, for itself. It holds for every pattern that does
  not end in a backslash or within a range, and without the flags for path names and escapes.
\<close>

theorem fnmatch_correct:
  assumes "globs pattern = Some gs" "0 \<notin> set pattern" "flags AND FNM_PATHNAME = 0" "flags AND FNM_NOESCAPE = 0"
  shows "fnmatch pattern str flags = Some (if glob_match gs str then 0 else 1)"
  using fn_match_meaning [OF assms(3,4,1,2), of str] by (simp add: fnmatch_def)

text \<open>The pattern \<open>*.[ch]\<close> and the names \<open>a.c\<close> and \<open>a.o\<close>.\<close>

theorem fnmatch_correct_witness:
  "fnmatch [42, 46, 91, 99, 104, 93] [97, 46, 99] 0 = Some 0 \<and> fnmatch [42, 46, 91, 99, 104, 93] [97, 46, 111] 0 = Some 1"
proof -
  have g: "globs [42, 46, 91, 99, 104, 93] = Some [Star, Lit 46, Class False [(99, 99), (104, 104)]]"
    by (simp add: globs.simps head_char_def class_ranges.simps)
  have m: "glob_match [Star, Lit 46, Class False [(99, 99), (104, 104)]] [97, 46, 99]"
    "\<not> glob_match [Star, Lit 46, Class False [(99, 99), (104, 104)]] [97, 46, 111]"
    by (simp_all add: atMost_Suc in_range_self)
  have f: "(0 :: u32) AND FNM_PATHNAME = 0" "(0 :: u32) AND FNM_NOESCAPE = 0" "0 \<notin> set [42, 46, 91, 99, 104, 93 :: u8]" by simp_all
  show ?thesis using fnmatch_correct [OF g f(3,1,2)] m by simp
qed

text \<open>The cases outside of the theorem: a star at the end crosses a slash, and two patterns are read past their end.\<close>

lemma fnmatch_star_crosses_slash: "fnmatch [97, 42] [97, 47, 98] FNM_PATHNAME = Some 0"
  by (simp add: fnmatch_def fn_match.simps head_char_def)

lemma fnmatch_overruns: "fnmatch [92] [] 0 = None" "fnmatch [91, 97, 45] [98] 0 = None"
  by (simp_all add: fnmatch_def fn_match.simps head_char_def match_class_def class_loop.simps)

section \<open>Regular expressions\<close>

text \<open>The two mutually recursive matchers: an expression at a place of the text, and a starred character before it.\<close>

datatype re_goal = Here "u8 list" "u8 list" | Starred u8 "u8 list" "u8 list"

text \<open>
  The class of a bracket: whether the character is in it. The length that the code computes for the whole
  bracket is always 1.
\<close>

definition re_class :: "u8 list \<Rightarrow> u8 \<Rightarrow> bool option" where
  "re_class p c =
     (let p = tl p; negate = head_char p = 94
      in map_option (\<lambda>(found, q). found \<noteq> negate) (class_loop (if negate then tl p else p) c False))"

partial_function (option) re_run :: "re_goal \<Rightarrow> bool option" where
  "re_run g =
     (case g of
        Here re txt \<Rightarrow>
          (case re of
             [] \<Rightarrow> Some True
           | a # q \<Rightarrow>
               let b = head_char q
               in if b = 42 then re_run (Starred a (tl q) txt)
                  else if b = 43 then
                    (if txt \<noteq> [] \<and> (a = 46 \<or> head_char txt = a) then re_run (Starred a (tl q) (tl txt)) else Some False)
                  else if b = 63 then
                    Option.bind (re_run (Here (tl q) txt)) (\<lambda>ok.
                      if ok then Some True
                      else if txt \<noteq> [] \<and> (a = 46 \<or> head_char txt = a) then re_run (Here (tl q) (tl txt))
                      else Some False)
                  else if a = 36 \<and> q = [] then Some (txt = [])
                  else if txt \<noteq> [] \<and> (a = 46 \<or> a = head_char txt) then re_run (Here q (tl txt))
                  else if txt \<noteq> [] \<and> a = 91 then
                    Option.bind (re_class re (head_char txt)) (\<lambda>ok. if ok then re_run (Here q (tl txt)) else Some False)
                  else Some False)
      | Starred c re txt \<Rightarrow>
          Option.bind (re_run (Here re txt)) (\<lambda>ok.
            if ok then Some True
            else if txt = [] then Some False
            else if c = 46 then re_run (Starred c re txt)
            else if head_char txt = c then re_run (Starred c re (tl txt))
            else Some False))"

declare re_run.simps [simp del]

text \<open>\<open>regexec\<close>: the text from its start on if the expression begins with a caret, else at every place.\<close>

fun re_anywhere :: "u8 list \<Rightarrow> u8 list \<Rightarrow> bool option" where
  "re_anywhere re txt =
     Option.bind (re_run (Here re txt)) (\<lambda>ok. if ok then Some True else if txt = [] then Some False else re_anywhere re (tl txt))"

declare re_anywhere.simps [simp del]

definition regexec :: "u8 list \<Rightarrow> u8 list \<Rightarrow> int option" where
  "regexec re txt =
     map_option (\<lambda>ok. if ok then 0 else 1)
       (if head_char re = 94 then re_run (Here (tl re) txt) else re_anywhere re txt)"

section \<open>What an expression means\<close>

datatype rx = RChar u8 | RDot | RStar u8 | RPlus u8 | ROpt u8

fun render :: "rx \<Rightarrow> u8 list" where
  "render (RChar c) = [c]"
| "render RDot = [46]"
| "render (RStar c) = [c, 42]"
| "render (RPlus c) = [c, 43]"
| "render (ROpt c) = [c, 63]"

definition plain_char :: "u8 \<Rightarrow> bool" where "plain_char c \<longleftrightarrow> c \<notin> {0, 36, 42, 43, 46, 63, 91, 94}"

fun rx_ok :: "rx \<Rightarrow> bool" where
  "rx_ok (RChar c) = plain_char c"
| "rx_ok RDot = True"
| "rx_ok (RStar c) = plain_char c"
| "rx_ok (RPlus c) = plain_char c"
| "rx_ok (ROpt c) = plain_char c"

definition rx_text :: "rx list \<Rightarrow> bool \<Rightarrow> u8 list" where
  "rx_text rs at_end = concat (map render rs) @ (if at_end then [36] else [])"

text \<open>A beginning of the text is in the language of the parts, all of it if the expression ends with a dollar sign.\<close>

fun rx_match :: "rx list \<Rightarrow> bool \<Rightarrow> u8 list \<Rightarrow> bool" where
  "rx_match [] e t \<longleftrightarrow> (e \<longrightarrow> t = [])"
| "rx_match (RChar c # rs) e t \<longleftrightarrow> t \<noteq> [] \<and> hd t = c \<and> rx_match rs e (tl t)"
| "rx_match (RDot # rs) e t \<longleftrightarrow> t \<noteq> [] \<and> rx_match rs e (tl t)"
| "rx_match (RStar c # rs) e t \<longleftrightarrow> (\<exists>k \<in> {..length t}. take k t = replicate k c \<and> rx_match rs e (drop k t))"
| "rx_match (RPlus c # rs) e t \<longleftrightarrow>
     t \<noteq> [] \<and> hd t = c \<and> (\<exists>k \<in> {..length (tl t)}. take k (tl t) = replicate k c \<and> rx_match rs e (drop k (tl t)))"
| "rx_match (ROpt c # rs) e t \<longleftrightarrow> rx_match rs e t \<or> t \<noteq> [] \<and> hd t = c \<and> rx_match rs e (tl t)"

lemma rx_text_head: "list_all rx_ok rs \<Longrightarrow> head_char (rx_text rs e) \<notin> {42, 43, 63, 94}"
proof (cases rs)
  case (Cons r rs')
  thus "list_all rx_ok rs \<Longrightarrow> ?thesis" by (cases r) (auto simp: rx_text_def head_char_def plain_char_def)
qed (auto simp: rx_text_def head_char_def)

lemma rx_text_Cons: "rx_text (r # rs) e = render r @ rx_text rs e"
  by (simp add: rx_text_def)

lemma starred_meaning:
  assumes "c \<noteq> 46" "\<And>t. re_run (Here re t) = Some (M t)"
  shows "re_run (Starred c re t) = Some (\<exists>k \<in> {..length t}. take k t = replicate k c \<and> M (drop k t))"
proof (induction t)
  case Nil
  show ?case by (subst re_run.simps) (simp add: assms(2))
next
  case (Cons a t)
  have "(\<exists>k \<in> {..length (a # t)}. take k (a # t) = replicate k c \<and> M (drop k (a # t))) \<longleftrightarrow>
      M (a # t) \<or> a = c \<and> (\<exists>k \<in> {..length t}. take k t = replicate k c \<and> M (drop k t))" (is "?l \<longleftrightarrow> ?r")
  proof
    assume ?l
    then obtain k where "k \<le> length (a # t)" "take k (a # t) = replicate k c" "M (drop k (a # t))" by auto
    thus ?r by (cases k) auto
  next
    assume ?r
    then consider "M (drop 0 (a # t))" | k where "k \<le> length t" "take (Suc k) (a # t) = replicate (Suc k) c" "M (drop (Suc k) (a # t))" by auto
    thus ?l
    proof cases
      case 1
      thus ?thesis by (intro bexI [of _ 0]) simp_all
    next
      case (2 k)
      thus ?thesis by (intro bexI [of _ "Suc k"]) simp_all
    qed
  qed
  thus ?case using Cons assms by (subst re_run.simps) (auto simp: head_char_def)
qed

lemma re_here_meaning: "list_all rx_ok rs \<Longrightarrow> re_run (Here (rx_text rs e) t) = Some (rx_match rs e t)"
proof (induction rs arbitrary: t)
  case Nil
  show ?case by (subst re_run.simps) (simp add: rx_text_def head_char_def)
next
  case (Cons r rs)
  have IH: "re_run (Here (rx_text rs e) t) = Some (rx_match rs e t)" for t using Cons by simp
  have h: "head_char (rx_text rs e) \<noteq> 42" "head_char (rx_text rs e) \<noteq> 43" "head_char (rx_text rs e) \<noteq> 63"
    using rx_text_head [of rs e] Cons.prems by auto
  have star: "re_run (Starred c (rx_text rs e) t) = Some (\<exists>k \<in> {..length t}. take k t = replicate k c \<and> rx_match rs e (drop k t))"
    if "plain_char c" for c t using starred_meaning [OF _ IH] that by (simp add: plain_char_def)
  show ?case
  proof (cases r)
    case (RChar c)
    thus ?thesis using Cons.prems h IH
      by (subst re_run.simps) (cases t; auto simp: rx_text_Cons Let_def plain_char_def head_char_def)
  next
    case RDot
    thus ?thesis using h IH by (subst re_run.simps) (cases t; auto simp: rx_text_Cons Let_def head_char_def)
  next
    case (RStar c)
    thus ?thesis using Cons.prems star [of c t] by (subst re_run.simps) (simp add: rx_text_Cons Let_def head_char_def)
  next
    case (RPlus c)
    thus ?thesis using Cons.prems star [of c "tl t"]
      by (subst re_run.simps) (cases t; auto simp: rx_text_Cons Let_def head_char_def plain_char_def)
  next
    case (ROpt c)
    thus ?thesis using Cons.prems IH
      by (subst re_run.simps) (cases t; auto simp: rx_text_Cons Let_def head_char_def plain_char_def)
  qed
qed

lemma re_anywhere_meaning:
  assumes "list_all rx_ok rs"
  shows "re_anywhere (rx_text rs e) t = Some (\<exists>k \<in> {..length t}. rx_match rs e (drop k t))"
proof (induction t)
  case Nil
  show ?case by (subst re_anywhere.simps) (simp add: re_here_meaning [OF assms])
next
  case (Cons a t)
  have "(\<exists>k \<in> {..length (a # t)}. rx_match rs e (drop k (a # t))) \<longleftrightarrow>
      rx_match rs e (a # t) \<or> (\<exists>k \<in> {..length t}. rx_match rs e (drop k t))"
    by (simp add: atMost_Suc_eq_insert_0)
  thus ?case using Cons by (subst re_anywhere.simps) (simp add: re_here_meaning [OF assms])
qed

text \<open>
  C38: a text matches an expression of plain characters, dots and starred, repeated or optional characters
  exactly when a part of it is in the language of the expression: the part begins at the start of the text
  behind a caret, and ends with the text before a dollar sign. The search ends on every text.
\<close>

theorem regexec_correct:
  assumes "list_all rx_ok rs"
  shows "regexec ((if from_start then [94] else []) @ rx_text rs at_end) txt =
     Some (if (if from_start then rx_match rs at_end txt else (\<exists>k \<in> {..length txt}. rx_match rs at_end (drop k txt))) then 0 else 1)"
  using rx_text_head [OF assms, of at_end]
  by (auto simp: regexec_def head_char_def [of "_ # _"] re_here_meaning [OF assms] re_anywhere_meaning [OF assms])

text \<open>The expression \<open>^ab*c$\<close> and the texts \<open>abbc\<close> and \<open>abbd\<close>.\<close>

theorem regexec_correct_witness:
  "regexec [94, 97, 98, 42, 99, 36] [97, 98, 98, 99] = Some 0 \<and> regexec [94, 97, 98, 42, 99, 36] [97, 98, 98, 100] = Some 1"
proof -
  have ok: "list_all rx_ok [RChar 97, RStar 98, RChar 99]" by (simp add: plain_char_def)
  have re: "rx_text [RChar 97, RStar 98, RChar 99] True = [97, 98, 42, 99, 36]" by (simp add: rx_text_def)
  have m: "rx_match [RChar 97, RStar 98, RChar 99] True [97, 98, 98, 99]"
    "\<not> rx_match [RChar 97, RStar 98, RChar 99] True [97, 98, 98, 100]"
    by (simp_all add: atMost_Suc numeral_2_eq_2 numeral_3_eq_3)
  show ?thesis using regexec_correct [OF ok, of True True "[97, 98, 98, 99]"] regexec_correct [OF ok, of True True "[97, 98, 98, 100]"] m
    by (simp add: re del: rx_match.simps)
qed

text \<open>
  Outside of it, a dot with a star never steps through the text: when the rest of the expression does not
  match where the star stands, the loop does not end.
\<close>

lemma dot_star_diverges:
  assumes "re_run (Here re txt) = Some False" "txt \<noteq> []"
  shows "re_run (Starred 46 re txt) = None"
proof -
  have "re_run g = Some y \<and> g \<noteq> Starred 46 re txt" if "re_run g = Some y" for g y
  proof (rule re_run.raw_induct [where P = "\<lambda>g y. re_run g = Some y \<and> g \<noteq> Starred 46 re txt", OF _ that], goal_cases)
    case (1 f g y)
    note IH = 1(1) [THEN conjunct1] 1(1) [THEN conjunct2] and run = 1(2)
    have "option.le_fun f re_run"
      using IH(1) by (auto simp: fun_ord_def flat_ord_def) (metis not_None_eq)
    from monotoneD [OF re_run.mono, OF this, of g] have "re_run g = Some y"
      unfolding run re_run.simps [of g, symmetric] by (simp add: flat_ord_def)
    moreover have "g \<noteq> Starred 46 re txt"
    proof
      assume "g = Starred 46 re txt"
      thus False using run assms IH(1) [of "Here re txt"] IH(2) [of "Starred 46 re txt"]
        by (auto simp: bind_eq_Some_conv split: if_splits)
    qed
    ultimately show ?case by simp
  qed
  thus ?thesis by (cases "re_run (Starred 46 re txt)") auto
qed

text \<open>So \<open>.*b\<close> hangs on the text \<open>a\<close>; and since a bracket counts as one character, \<open>[ab]\<close> does not match \<open>a\<close>.\<close>

lemma regexec_dot_star_hangs: "regexec [46, 42, 98] [97] = None"
proof -
  have "re_run (Here [98] [97]) = Some False" by (subst re_run.simps) (simp add: head_char_def)
  hence "re_run (Starred 46 [98] [97]) = None" by (rule dot_star_diverges) simp
  hence "re_run (Here [46, 42, 98] [97]) = None" by (subst re_run.simps) (simp add: head_char_def)
  thus ?thesis by (simp add: regexec_def re_anywhere.simps head_char_def)
qed

lemma regexec_bracket_misses: "regexec [91, 97, 98, 93] [97] = Some 1"
  by (simp add: regexec_def re_anywhere.simps re_run.simps re_class_def class_loop.simps head_char_def)

end
