(* ===== verification/Spec2Isabelle.thy ===== *)
theory Spec2Isabelle
  imports Pmm Kheap Address_Space KString Kprintf Vfs_Ops Exec Descriptors Tarfs Syscalls Fat32 Isofs Tty
    Framebuffer Mouse Devfs Vga Acpi Usb Libc_Match
begin

text \<open>
  \<^bold>\<open>LosTacOS.\<close> A verification library for the kernel of LosTacOS, a hobby operating system for x86-64
  written in C++ (\<open>src/src\<close>, headers in \<open>src/include/LTOS\<close>). All paths below are relative to
  \<open>src/src\<close>. This theory imports the whole library; the results are in the theories of the components.

  \<^bold>\<open>The program.\<close> The boot loader hands over a memory map and modules. The page allocator takes the
  memory map and gives out frames; the page tables take frames from it and objects from the kernel
  heap; address spaces and the virtual memory manager work on the page tables. The virtual file
  system is a tree of nodes with mounted file systems behind callbacks: the archive of the initial
  ram disk (unpacked by the gzip inflater), FAT32 volumes, CD images, devices. The scheduler keeps a
  ring of tasks; the loader maps programs into an address space, and the scheduler builds their stacks.
  System calls join these parts: descriptors and pipes, paths, processes and memory. Keys go from the
  keyboard interrupt into a buffer that the terminal reads line by line, and output goes through the
  console, with a font from a module, to the frame buffer.

  \<^bold>\<open>Conventions.\<close> Machine integers are words of their width, so arithmetic wraps. Where the code works on
  raw memory (heap, page tables, string routines, FAT32, fonts) the model has one byte-addressed memory
  and the structures at their real offsets; where the code links objects by pointers (tasks, nodes of
  the file system) objects are records in stores keyed by their addresses. The option type stands for
  a fault of the kernel, such as an access outside of an array or through a dangling pointer, or, for
  functions defined by \<^theory_text>\<open>partial_function\<close>, for a loop that does not end; a result that the code
  returns as an error is a value. Code outside of the sources (the callbacks of block devices, the
  registers of devices, the loader's tables) is an argument of the definitions.

  \<^bold>\<open>Theories and sources.\<close>
  \<^item> \<open>LTOS_Prelude\<close>: words, the byte memory with little-endian loads and stores, loops over lists.
  \<^item> \<open>Pmm\<close> (\<open>mm/pmm.cpp\<close>): the bitmap of pages. An allocation takes the lowest free page, a free is
    described on every branch, successive allocations are distinct. It interprets the locale
    \<open>frame_allocator\<close> of \<open>Frame_Interface\<close>, the contract that the page tables use.
  \<^item> \<open>Kheap\<close> (\<open>mm/heap.cpp\<close>): blocks with boundary tags in memory. The heap is well formed when it is a
    chain of blocks with correct tags; \<open>kmalloc\<close> and \<open>kfree\<close> return and keep it so.
  \<^item> \<open>Paging\<close> (\<open>mm/paging.cpp\<close>), \<open>Address_Space\<close> (\<open>mm/vmm.cpp\<close>, \<open>mm/address_space.cpp\<close>): four levels of
    tables refine a partial map from pages to entries; mapping and unmapping change it at one page,
    a new address space shares the kernel half, a destroyed one gives its frames back.
  \<^item> \<open>KString\<close> (\<open>lib/string.cpp\<close>), \<open>Kprintf\<close> (\<open>lib/kprintf.cpp\<close>): the word-wise routines equal their byte-wise
    specifications; formatted output into a buffer is a prefix of one unbounded output.
  \<^item> \<open>Linked_List\<close>, \<open>Directory_Interface\<close>, \<open>Vfs\<close>, \<open>Vfs_Ops\<close> (\<open>fs/vfs.cpp\<close>, \<open>fs/fs.cpp\<close>, \<open>fs/mount.cpp\<close>): the tree of
    nodes is well formed and stays so; path look-up, creation and removal change exactly the entries
    they name. The locale \<open>directory_store\<close> states what creation along a path relies on.
  \<^item> \<open>Sched\<close>, \<open>Elf\<close>, \<open>Exec\<close> (\<open>kernel/sched/scheduler.cpp\<close>, \<open>exec/elf.cpp\<close>): the ring of tasks, round robin
    and fairness of the choice, the loader, the stack of a new program, spawn, exec and clone.
  \<^item> \<open>Channel_Interface\<close>, \<open>Descriptors\<close>, \<open>Syscalls\<close> (\<open>user/syscall.cpp\<close>): pipes are channels, their reference
    counts agree with the descriptors of all processes; directories are listed completely.
  \<^item> \<open>Gzip\<close>, \<open>Tarfs\<close> (\<open>lib/gzip.cpp\<close>, \<open>fs/tarfs.cpp\<close>): canonical Huffman codes are decoded, blocks expanded,
    the inflater ends on every input, and files of a packed archive are found.
  \<^item> \<open>Byte_Paths\<close>: paths as bytes and little-endian words, shared by the readers of disk formats.
  \<^item> \<open>Fat32\<close> (\<open>fs/fat32.cpp\<close>): reading a file gives the bytes of its chain of clusters; the locale
    \<open>cluster_source\<close> states what reading relies on and is interpreted for an image in memory and for
    a block device behind the two caches.
  \<^item> \<open>Isofs\<close> (\<open>fs/isofs.cpp\<close>): opening a path on a CD image follows the directory records, reading
    delivers the blocks of the file, and listing a directory shows every record.
  \<^item> \<open>Keyboard\<close>, \<open>Tty\<close> (\<open>kernel/drivers/keyboard.cpp\<close>, \<open>fs/devfs/tty.cpp\<close>): the ring of key events is a channel;
    typed text reaches the buffer, and a line that is read is the edited text.
  \<^item> \<open>Psf\<close>, \<open>Console\<close> (\<open>kernel/drivers/psf.cpp\<close>, \<open>kernel/drivers/console.cpp\<close>): glyphs of a packed font are those of
    the file; nothing is drawn outside the screen, whatever bytes arrive.
  \<^item> \<open>Framebuffer\<close> (\<open>kernel/drivers/framebuffer.cpp\<close> and its two loaders, \<open>fs/devfs/fb.cpp\<close>): pixels in memory.
    It composes with the console: all that the console draws ends in the back buffer or the video
    memory, for every stream of bytes without tabs on a screen of whole characters.
  \<^item> \<open>Ring_Interface\<close>, \<open>Mouse\<close>, \<open>Klog\<close> (\<open>kernel/drivers/mouse.cpp\<close>, \<open>kernel/drivers/timer.cpp\<close>, \<open>kernel/logger.cpp\<close>):
    the locale \<open>lossy_buffer\<close> states that a ring keeps the end of what was put into it; it is interpreted
    for the bytes of the mouse and for the log. Packets move the pointer inside the screen, a read of
    the log gives the end of what was logged, a sleep ends after the interrupts it counts.

  \<^item> \<open>Devfs\<close> (\<open>fs/devfs.cpp\<close>, \<open>fs/devfs/null.cpp\<close>): registered devices are found, have their node in \<open>/dev\<close>, and
    reading the log through its device delivers it piece by piece.
  \<^item> \<open>Vga\<close> (\<open>kernel/vga.cpp\<close>): the text screen as one line of cells; output stays on the screen exactly when
    no escape sequence overruns its buffer.
  \<^item> \<open>Pci\<close>, \<open>Acpi\<close>, \<open>Ahci\<close>, \<open>Usb\<close> (\<open>kernel/drivers/pci.cpp\<close>, \<open>acpi.cpp\<close>, \<open>pic.cpp\<close>, \<open>ahci.cpp\<close>, \<open>uhci.cpp\<close>, \<open>usb.cpp\<close>): the
    search of the bus equals a search in a list of devices; the tables of the firmware are followed to the
    port that switches off; disk commands ask for the sectors wanted, and their header has lost the
    address of the command; changes of single keys give their scan codes. Controllers are parameters
    that may act on the memory at each access to one of their registers.
  \<^item> \<open>Libc_Match\<close> (\<open>libc/src/fnmatch.c\<close>, \<open>libc/src/regex.c\<close>): file name patterns and expressions match exactly the
    texts in their meaning, and where the code reads past a pattern or loops forever the model has no value.

  \<^bold>\<open>Bounds and fuel.\<close> Loops over data are total functions with a measure or follow the data. Fuel appears
  only where the code itself counts or where a hardware event bounds a wait: \<open>read_lengths\<close> of the
  inflater takes as many steps as there are code lengths to read, since each step adds at least one;
  the results of \<open>kmalloc\<close> in \<open>Fat32\<close> are numbered by \<open>alloc_at\<close>; waiting reads of the keyboard take the
  input that arrives as a list; \<open>wait_status\<close> of the mouse counts 100000 readings as the code does (the
  waits of \<open>Ahci\<close> and \<open>Usb\<close> have the limits of the code too, and those without one are partial), and
  \<open>sleep\<close> takes the number of timer interrupts, for which \<open>sleep_returns\<close> shows that the computed number
  is enough. A wait for another task is a value of the result, and the caller of
  the system call runs again.

  \<^bold>\<open>Not modelled.\<close> The reports of procfs and sysfs, which print the state of other parts; the serial port;
  tmpfs, which nothing calls; set-up of the processor (descriptor tables, page-fault entry, SSE) and the context switch,
  which are privileged instructions or assembly; the order of start-up in \<open>kernel/main.cpp\<close>; the rest of the
  user library and the programs under \<open>libc\<close> and \<open>bin\<close>. Messages printed for the operator are left out throughout.
  Interrupts are taken between operations, not inside of them.
\<close>

end
